(* ===== verification/Yuzu_Prelude.thy ===== *)
theory Yuzu_Prelude
  imports Main "HOL-Library.Word"
begin

text \<open>
  Shared vocabulary of the development: the names the sources use for machine integers,
  64-bit address arithmetic with its wrap-around written out (\<open>src/common/typed_address.h\<close>,
  \<open>src/common/alignment.h\<close>, \<open>src/common/overflow.h\<close>), the kernel's result codes
  (\<open>src/core/hle/kernel/svc_results.h\<close>), the collections of simplification rules the
  components extend, and generic facts on lists, options and words.

  Addresses and sizes are natural numbers below \<open>2 ^ 64\<close>; every addition, subtraction and
  multiplication the C++ performs on a \<open>u64\<close>, \<open>size_t\<close> or typed address is written
  \<open>add64\<close>, \<open>sub64\<close>, \<open>mul64\<close>, which reduce modulo \<open>2 ^ 64\<close>. Flag words and small
  counters are \<open>8 word\<close>, \<open>16 word\<close>, \<open>32 word\<close> or \<open>64 word\<close>.
\<close>

unbundle bit_operations_syntax

named_theorems u64_simps \<open>64-bit arithmetic that does not wrap under its side condition\<close>
named_theorems align_simps \<open>alignment of addresses\<close>

section \<open>Machine integers\<close>

type_synonym u8 = "8 word"
type_synonym u16 = "16 word"
type_synonym u32 = "32 word"
type_synonym u64 = "64 word"

definition two64 :: nat where
  "two64 = 18446744073709551616"

definition add64 :: "nat \<Rightarrow> nat \<Rightarrow> nat" where
  "add64 a b = (a + b) mod two64"

definition sub64 :: "nat \<Rightarrow> nat \<Rightarrow> nat" where
  "sub64 a b = (a + (two64 - b mod two64)) mod two64"

definition mul64 :: "nat \<Rightarrow> nat \<Rightarrow> nat" where
  "mul64 a b = (a * b) mod two64"

lemma two64_pow: "two64 = 2 ^ 64"
  by (simp add: two64_def)

lemma two64_pos [simp]: "0 < two64"
  by (simp add: two64_def)

lemma add64_eq [u64_simps]: "a + b < two64 \<Longrightarrow> add64 a b = a + b"
  by (simp add: add64_def)

lemma sub64_eq [u64_simps]: "b \<le> a \<Longrightarrow> a < two64 \<Longrightarrow> sub64 a b = a - b"
proof -
  assume le: "b \<le> a" and lt: "a < two64"
  then have "a + (two64 - b mod two64) = (a - b) + two64"
    by simp
  then have "sub64 a b = ((a - b) + two64) mod two64"
    by (simp add: sub64_def)
  then show ?thesis using lt by simp
qed

lemma mul64_eq [u64_simps]: "a * b < two64 \<Longrightarrow> mul64 a b = a * b"
  by (simp add: mul64_def)

lemma add64_less [simp]: "add64 a b < two64"
  by (simp add: add64_def)

lemma sub64_less [simp]: "sub64 a b < two64"
  by (simp add: sub64_def)

lemma mul64_less [simp]: "mul64 a b < two64"
  by (simp add: mul64_def)

lemma add64_0 [simp]: "a < two64 \<Longrightarrow> add64 a 0 = a"
  by (simp add: add64_def)

text \<open>Signed 64-bit values are integers; \<open>wrap_s64\<close> reads an integer back as two's complement.\<close>

definition wrap_s64 :: "int \<Rightarrow> int" where
  "wrap_s64 x = (x + 9223372036854775808) mod 18446744073709551616 - 9223372036854775808"

definition is_s64 :: "int \<Rightarrow> bool" where
  "is_s64 x \<longleftrightarrow> - 9223372036854775808 \<le> x \<and> x < 9223372036854775808"

definition WrappingAdd :: "int \<Rightarrow> int \<Rightarrow> int" where
  "WrappingAdd lhs rhs = wrap_s64 (lhs + rhs)"

lemma wrap_s64_id: "is_s64 x \<Longrightarrow> wrap_s64 x = x"
  by (simp add: wrap_s64_def is_s64_def)

lemma wrap_s64_over:
  "9223372036854775808 \<le> x \<Longrightarrow> x < 18446744073709551616 \<Longrightarrow> wrap_s64 x = x - 18446744073709551616"
proof -
  assume "9223372036854775808 \<le> x" "x < 18446744073709551616"
  then have "((x - 9223372036854775808) + 18446744073709551616) mod 18446744073709551616
      = x - 9223372036854775808"
    unfolding mod_add_self2 by (intro mod_pos_pos_trivial) auto
  then show ?thesis by (simp add: wrap_s64_def algebra_simps)
qed

lemma WrappingAdd_cases:
  assumes "0 \<le> a" "0 \<le> b" "is_s64 a" "is_s64 b"
  shows "WrappingAdd a b = (if is_s64 (a + b) then a + b else a + b - 18446744073709551616)"
proof -
  have "a + b < 18446744073709551616" using assms by (simp add: is_s64_def)
  then show ?thesis
    using assms wrap_s64_id[of "a + b"] wrap_s64_over[of "a + b"]
    by (auto simp: WrappingAdd_def is_s64_def)
qed

section \<open>Alignment\<close>

definition PageSize :: nat where
  "PageSize = 4096"

lemma PageSize_pos [simp]: "0 < PageSize"
  by (simp add: PageSize_def)

definition AlignUp :: "nat \<Rightarrow> nat \<Rightarrow> nat" where
  "AlignUp value sz =
     (let m = value mod sz; v = value - m in if m = 0 then v else add64 v sz)"

definition AlignDown :: "nat \<Rightarrow> nat \<Rightarrow> nat" where
  "AlignDown value sz = value - value mod sz"

definition IsAligned :: "nat \<Rightarrow> nat \<Rightarrow> bool" where
  "IsAligned value alignment \<longleftrightarrow>
     (word_of_nat value :: u64) AND word_of_nat (sub64 alignment 1) = 0"

lemma AlignDown_le [align_simps]: "AlignDown v s \<le> v"
  by (simp add: AlignDown_def)

lemma AlignDown_dvd [align_simps]: "s dvd AlignDown v s"
  by (simp add: AlignDown_def minus_mod_eq_mult_div)

lemma AlignDown_aligned [align_simps]: "s dvd v \<Longrightarrow> AlignDown v s = v"
  by (auto simp: AlignDown_def)

lemma AlignDown_gt: "0 < s \<Longrightarrow> v < AlignDown v s + s"
proof -
  assume "0 < s"
  then have "v mod s < s" by simp
  moreover have "AlignDown v s + v mod s = v"
    by (simp add: AlignDown_def)
  ultimately show ?thesis by linarith
qed

lemma AlignUp_aligned [align_simps]: "s dvd v \<Longrightarrow> AlignUp v s = v"
  by (auto simp: AlignUp_def)

lemma AlignUp_unaligned:
  "\<not> s dvd v \<Longrightarrow> AlignDown v s + s < two64 \<Longrightarrow> AlignUp v s = AlignDown v s + s"
  by (auto simp: AlignUp_def AlignDown_def Let_def add64_eq dvd_eq_mod_eq_0)

lemma AlignUp_dvd [align_simps]:
  "AlignDown v s + s < two64 \<Longrightarrow> s dvd AlignUp v s"
  by (cases "s dvd v") (auto simp: AlignUp_aligned AlignUp_unaligned AlignDown_dvd)

lemma AlignUp_ge [align_simps]:
  "0 < s \<Longrightarrow> AlignDown v s + s < two64 \<Longrightarrow> v \<le> AlignUp v s"
  using AlignDown_gt[of s v]
  by (cases "s dvd v") (auto simp: AlignUp_aligned AlignUp_unaligned)

section \<open>Result codes\<close>

text \<open>
  \<open>ErrorModule::Kernel\<close> is 1; a result's raw value holds the module in its low nine bits and
  the description above them (\<open>src/core/hle/result.h\<close>).
\<close>

datatype Result =
    ResultSuccess
  | ResultOutOfSessions | ResultInvalidArgument | ResultNotImplemented
  | ResultNoSynchronizationObject | ResultTerminationRequested | ResultInvalidSize
  | ResultInvalidAddress | ResultOutOfResource | ResultOutOfMemory | ResultOutOfHandles
  | ResultInvalidCurrentMemory | ResultInvalidNewMemoryPermission | ResultInvalidMemoryRegion
  | ResultInvalidPriority | ResultInvalidCoreId | ResultInvalidHandle | ResultInvalidPointer
  | ResultInvalidCombination | ResultTimedOut | ResultCancelled | ResultOutOfRange
  | ResultInvalidEnumValue | ResultNotFound | ResultBusy | ResultSessionClosed
  | ResultInvalidState | ResultReservedUsed | ResultPortClosed | ResultLimitReached
  | ResultOutOfAddressSpace | ResultInvalidId

fun Result_description :: "Result \<Rightarrow> nat" where
  "Result_description ResultSuccess = 0"
| "Result_description ResultOutOfSessions = 7"
| "Result_description ResultInvalidArgument = 14"
| "Result_description ResultNotImplemented = 33"
| "Result_description ResultNoSynchronizationObject = 57"
| "Result_description ResultTerminationRequested = 59"
| "Result_description ResultInvalidSize = 101"
| "Result_description ResultInvalidAddress = 102"
| "Result_description ResultOutOfResource = 103"
| "Result_description ResultOutOfMemory = 104"
| "Result_description ResultOutOfHandles = 105"
| "Result_description ResultInvalidCurrentMemory = 106"
| "Result_description ResultInvalidNewMemoryPermission = 108"
| "Result_description ResultInvalidMemoryRegion = 110"
| "Result_description ResultInvalidPriority = 112"
| "Result_description ResultInvalidCoreId = 113"
| "Result_description ResultInvalidHandle = 114"
| "Result_description ResultInvalidPointer = 115"
| "Result_description ResultInvalidCombination = 116"
| "Result_description ResultTimedOut = 117"
| "Result_description ResultCancelled = 118"
| "Result_description ResultOutOfRange = 119"
| "Result_description ResultInvalidEnumValue = 120"
| "Result_description ResultNotFound = 121"
| "Result_description ResultBusy = 122"
| "Result_description ResultSessionClosed = 123"
| "Result_description ResultInvalidState = 125"
| "Result_description ResultReservedUsed = 126"
| "Result_description ResultPortClosed = 131"
| "Result_description ResultLimitReached = 132"
| "Result_description ResultOutOfAddressSpace = 259"
| "Result_description ResultInvalidId = 519"

definition Result_raw :: "Result \<Rightarrow> u32" where
  "Result_raw r =
     (if r = ResultSuccess then 0
      else 1 OR push_bit 9 (word_of_nat (Result_description r)))"

section \<open>Lists and options\<close>

lemma nth_list_update_if:
  "i < length xs \<Longrightarrow> xs[i := v] ! j = (if i = j then v else xs ! j)"
  by (simp add: nth_list_update)

lemma list_all_nth_update:
  "list_all P xs \<Longrightarrow> P v \<Longrightarrow> list_all P (xs[i := v])"
  using set_update_subset_insert[of xs i v] by (auto simp: list_all_iff)

end
