(* ===== verification/K_Resource_Limit.thy ===== *)
theory K_Resource_Limit
  imports Yuzu_Prelude
begin

text \<open>
  The kernel's resource accounting: \<open>KResourceLimit\<close>
  (\<open>src/core/hle/kernel/k_resource_limit.cpp\<close>) and the scoped reservations its clients hold
  (\<open>k_scoped_resource_reservation.h\<close>). The five arrays are lists of length five indexed by the
  resource; \<open>Reserve\<close> may sleep on the condition variable, so its loop takes the list of its
  wake-ups, each with the operations other threads performed while the lock was free and the
  clock value read after waking. \<open>ASSERT\<close> logs and continues, so it is no branch of the
  operations; the asserted conditions are definitions of their own, shown to hold.
\<close>

section \<open>State and operations\<close>

datatype LimitableResource =
    PhysicalMemoryMax | ThreadCountMax | EventCountMax | TransferMemoryCountMax | SessionCountMax

fun res_index :: "LimitableResource \<Rightarrow> nat" where
  "res_index PhysicalMemoryMax = 0"
| "res_index ThreadCountMax = 1"
| "res_index EventCountMax = 2"
| "res_index TransferMemoryCountMax = 3"
| "res_index SessionCountMax = 4"

record KResourceLimit =
  m_limit_values :: "int list"
  m_current_values :: "int list"
  m_current_hints :: "int list"
  m_peak_values :: "int list"
  m_waiter_count :: int

definition KResourceLimit_new :: KResourceLimit where
  "KResourceLimit_new =
     \<lparr>m_limit_values = replicate 5 0, m_current_values = replicate 5 0,
      m_current_hints = replicate 5 0, m_peak_values = replicate 5 0, m_waiter_count = 0\<rparr>"

definition DefaultTimeout :: int where
  "DefaultTimeout = 10000000000"

text \<open>The conditions every getter and both loops assert of the entry they touch.\<close>

definition entry_asserts :: "KResourceLimit \<Rightarrow> LimitableResource \<Rightarrow> bool" where
  "entry_asserts rl which \<longleftrightarrow>
     (let i = res_index which in
      m_current_values rl ! i \<le> m_limit_values rl ! i \<and>
      m_current_hints rl ! i \<le> m_current_values rl ! i)"

definition GetLimitValue :: "KResourceLimit \<Rightarrow> LimitableResource \<Rightarrow> int" where
  "GetLimitValue rl which = m_limit_values rl ! res_index which"

definition GetCurrentValue :: "KResourceLimit \<Rightarrow> LimitableResource \<Rightarrow> int" where
  "GetCurrentValue rl which = m_current_values rl ! res_index which"

definition GetPeakValue :: "KResourceLimit \<Rightarrow> LimitableResource \<Rightarrow> int" where
  "GetPeakValue rl which = m_peak_values rl ! res_index which"

definition GetFreeValue :: "KResourceLimit \<Rightarrow> LimitableResource \<Rightarrow> int" where
  "GetFreeValue rl which =
     m_limit_values rl ! res_index which - m_current_values rl ! res_index which"

definition SetLimitValue ::
  "KResourceLimit \<Rightarrow> LimitableResource \<Rightarrow> int \<Rightarrow> Result \<times> KResourceLimit" where
  "SetLimitValue rl which v =
     (let index = res_index which in
      if \<not> (m_current_values rl ! index \<le> v) then (ResultInvalidState, rl)
      else (ResultSuccess,
            rl\<lparr>m_limit_values := (m_limit_values rl)[index := v],
               m_peak_values := (m_peak_values rl)[index := m_current_values rl ! index]\<rparr>))"

text \<open>One iteration of the loop of \<open>Reserve\<close>, with the lock held and the clock at \<open>now\<close>.\<close>

datatype reserve_outcome = Reserved KResourceLimit | Refused | Blocked

definition Reserve_iter ::
  "KResourceLimit \<Rightarrow> LimitableResource \<Rightarrow> int \<Rightarrow> int \<Rightarrow> int \<Rightarrow> reserve_outcome" where
  "Reserve_iter rl which v timeout now =
     (let index = res_index which;
          cur = m_current_values rl ! index;
          hint = m_current_hints rl ! index;
          lim = m_limit_values rl ! index in
      if WrappingAdd cur v \<le> cur then Refused
      else if cur + v \<le> lim then
        Reserved (rl\<lparr>m_current_values := (m_current_values rl)[index := cur + v],
                     m_current_hints := (m_current_hints rl)[index := hint + v],
                     m_peak_values := (m_peak_values rl)[index :=
                       max (m_peak_values rl ! index) (cur + v)]\<rparr>)
      else if hint + v \<le> lim \<and> (timeout < 0 \<or> now < timeout) then Blocked
      else Refused)"

definition Release ::
  "KResourceLimit \<Rightarrow> LimitableResource \<Rightarrow> int \<Rightarrow> int \<Rightarrow> KResourceLimit" where
  "Release rl which v hint =
     (let index = res_index which in
      rl\<lparr>m_current_values := (m_current_values rl)[index := m_current_values rl ! index - v],
         m_current_hints := (m_current_hints rl)[index := m_current_hints rl ! index - hint]\<rparr>)"

definition Release_broadcasts :: "KResourceLimit \<Rightarrow> bool" where
  "Release_broadcasts rl \<longleftrightarrow> m_waiter_count rl \<noteq> 0"

definition Release_asserts ::
  "KResourceLimit \<Rightarrow> LimitableResource \<Rightarrow> int \<Rightarrow> int \<Rightarrow> bool" where
  "Release_asserts rl which v hint \<longleftrightarrow>
     0 \<le> v \<and> 0 \<le> hint \<and> entry_asserts rl which \<and>
     v \<le> m_current_values rl ! res_index which \<and> hint \<le> m_current_hints rl ! res_index which"

text \<open>What another thread can do while a reserving thread sleeps without the lock.\<close>

datatype rl_op =
    OpSetLimit LimitableResource int
  | OpRelease LimitableResource int int
  | OpReserve LimitableResource int int int
  | OpWaitBegin
  | OpWaitEnd

definition Reserve_enter :: "KResourceLimit \<Rightarrow> LimitableResource \<Rightarrow> bool" where
  "Reserve_enter rl which \<longleftrightarrow>
     \<not> (m_current_hints rl ! res_index which \<ge> m_limit_values rl ! res_index which)"

fun rl_apply :: "KResourceLimit \<Rightarrow> rl_op \<Rightarrow> KResourceLimit" where
  "rl_apply rl (OpSetLimit w v) = snd (SetLimitValue rl w v)"
| "rl_apply rl (OpRelease w v h) = Release rl w v h"
| "rl_apply rl (OpReserve w v timeout now) =
     (if Reserve_enter rl w then
        (case Reserve_iter rl w v timeout now of Reserved rl' \<Rightarrow> rl' | _ \<Rightarrow> rl)
      else rl)"
| "rl_apply rl OpWaitBegin = rl\<lparr>m_waiter_count := m_waiter_count rl + 1\<rparr>"
| "rl_apply rl OpWaitEnd = rl\<lparr>m_waiter_count := m_waiter_count rl - 1\<rparr>"

definition rl_run :: "KResourceLimit \<Rightarrow> rl_op list \<Rightarrow> KResourceLimit" where
  "rl_run rl ops = foldl rl_apply rl ops"

type_synonym wakeup = "rl_op list \<times> int"

fun Reserve_loop ::
  "LimitableResource \<Rightarrow> int \<Rightarrow> int \<Rightarrow> wakeup list \<Rightarrow> KResourceLimit \<Rightarrow> int
    \<Rightarrow> (bool \<times> KResourceLimit) option" where
  "Reserve_loop which v timeout ws rl now =
     (case Reserve_iter rl which v timeout now of
        Refused \<Rightarrow> Some (False, rl)
      | Reserved rl' \<Rightarrow> Some (True, rl')
      | Blocked \<Rightarrow>
          (case ws of
             [] \<Rightarrow> None
           | (ops, now') # ws' \<Rightarrow>
               Reserve_loop which v timeout ws'
                 (rl_apply (rl_run (rl_apply rl OpWaitBegin) ops) OpWaitEnd) now'))"

declare Reserve_loop.simps [simp del]

definition Reserve ::
  "KResourceLimit \<Rightarrow> LimitableResource \<Rightarrow> int \<Rightarrow> int \<Rightarrow> int \<Rightarrow> wakeup list
    \<Rightarrow> (bool \<times> KResourceLimit) option" where
  "Reserve rl which v timeout now ws =
     (if Reserve_enter rl which then Reserve_loop which v timeout ws rl now
      else Some (False, rl))"

definition Reserve_default ::
  "KResourceLimit \<Rightarrow> LimitableResource \<Rightarrow> int \<Rightarrow> int \<Rightarrow> wakeup list
    \<Rightarrow> (bool \<times> KResourceLimit) option" where
  "Reserve_default rl which v now ws = Reserve rl which v (now + DefaultTimeout) now ws"

definition CreateResourceLimitForProcess :: "int \<Rightarrow> KResourceLimit" where
  "CreateResourceLimitForProcess physical_memory_size =
     (let r0 = KResourceLimit_new;
          r1 = snd (SetLimitValue r0 PhysicalMemoryMax physical_memory_size);
          r2 = snd (SetLimitValue r1 ThreadCountMax 800);
          r3 = snd (SetLimitValue r2 EventCountMax 900);
          r4 = snd (SetLimitValue r3 TransferMemoryCountMax 200)
      in snd (SetLimitValue r4 SessionCountMax 1133))"

section \<open>Scoped reservations\<close>

record KScopedResourceReservation =
  sr_limit :: bool
  sr_value :: int
  sr_resource :: LimitableResource
  sr_succeeded :: bool

definition ScopedReservation_open ::
  "KResourceLimit \<Rightarrow> bool \<Rightarrow> LimitableResource \<Rightarrow> int \<Rightarrow> int \<Rightarrow> int \<Rightarrow> wakeup list
    \<Rightarrow> (KScopedResourceReservation \<times> KResourceLimit) option" where
  "ScopedReservation_open rl has_limit r v timeout now ws =
     (if has_limit \<and> v \<noteq> 0 then
        (case Reserve rl r v timeout now ws of
           None \<Rightarrow> None
         | Some (ok, rl') \<Rightarrow>
             Some (\<lparr>sr_limit = True, sr_value = v, sr_resource = r, sr_succeeded = ok\<rparr>, rl'))
      else Some (\<lparr>sr_limit = has_limit, sr_value = v, sr_resource = r, sr_succeeded = True\<rparr>, rl))"

definition ScopedReservation_Commit ::
  "KScopedResourceReservation \<Rightarrow> KScopedResourceReservation" where
  "ScopedReservation_Commit sr = sr\<lparr>sr_limit := False\<rparr>"

definition ScopedReservation_close ::
  "KScopedResourceReservation \<Rightarrow> KResourceLimit \<Rightarrow> KResourceLimit" where
  "ScopedReservation_close sr rl =
     (if sr_limit sr \<and> sr_value sr \<noteq> 0 \<and> sr_succeeded sr
      then Release rl (sr_resource sr) (sr_value sr) (sr_value sr)
      else rl)"

section \<open>The accounting invariant\<close>

definition rl_entry_inv :: "KResourceLimit \<Rightarrow> nat \<Rightarrow> bool" where
  "rl_entry_inv rl i \<longleftrightarrow>
     0 \<le> m_current_hints rl ! i \<and>
     m_current_hints rl ! i \<le> m_current_values rl ! i \<and>
     m_current_values rl ! i \<le> m_peak_values rl ! i \<and>
     m_peak_values rl ! i \<le> m_limit_values rl ! i \<and>
     is_s64 (m_limit_values rl ! i)"

definition rl_inv :: "KResourceLimit \<Rightarrow> bool" where
  "rl_inv rl \<longleftrightarrow>
     length (m_limit_values rl) = 5 \<and> length (m_current_values rl) = 5 \<and>
     length (m_current_hints rl) = 5 \<and> length (m_peak_values rl) = 5 \<and>
     (\<forall>w. rl_entry_inv rl (res_index w))"

text \<open>
  The callers' side of \<open>Release\<close>: what it asserts of the amounts, and that the hint is not
  given back later than the amount it announces.
\<close>

definition release_ok :: "KResourceLimit \<Rightarrow> LimitableResource \<Rightarrow> int \<Rightarrow> int \<Rightarrow> bool" where
  "release_ok rl w v h \<longleftrightarrow>
     Release_asserts rl w v h \<and>
     m_current_hints rl ! res_index w - h \<le> m_current_values rl ! res_index w - v"

fun op_ok :: "KResourceLimit \<Rightarrow> rl_op \<Rightarrow> bool" where
  "op_ok rl (OpSetLimit w v) = is_s64 v"
| "op_ok rl (OpRelease w v h) = release_ok rl w v h"
| "op_ok rl (OpReserve w v timeout now) = (0 \<le> v \<and> is_s64 v)"
| "op_ok rl OpWaitBegin = True"
| "op_ok rl OpWaitEnd = True"

fun ops_ok :: "KResourceLimit \<Rightarrow> rl_op list \<Rightarrow> bool" where
  "ops_ok rl [] = True"
| "ops_ok rl (x # xs) = (op_ok rl x \<and> ops_ok (rl_apply rl x) xs)"

text \<open>Every wake-up's interference is made of calls that respect their own contracts.\<close>

fun wakeups_ok ::
  "LimitableResource \<Rightarrow> int \<Rightarrow> int \<Rightarrow> wakeup list \<Rightarrow> KResourceLimit \<Rightarrow> bool" where
  "wakeups_ok which v timeout [] rl = True"
| "wakeups_ok which v timeout ((ops, now') # ws) rl =
     (ops_ok (rl_apply rl OpWaitBegin) ops \<and>
      wakeups_ok which v timeout ws
        (rl_apply (rl_run (rl_apply rl OpWaitBegin) ops) OpWaitEnd))"

lemma res_index_less [simp]: "res_index w < 5"
  by (cases w) auto

lemma res_index_inj [simp]: "res_index w = res_index w' \<longleftrightarrow> w = w'"
  by (cases w; cases w') auto

lemma is_s64_nonneg_le: "0 \<le> x \<Longrightarrow> x \<le> y \<Longrightarrow> is_s64 y \<Longrightarrow> is_s64 x"
  by (auto simp: is_s64_def)

lemma rl_invD:
  assumes "rl_inv rl"
  shows "rl_entry_inv rl (res_index w)"
    and "length (m_limit_values rl) = 5" and "length (m_current_values rl) = 5"
    and "length (m_current_hints rl) = 5" and "length (m_peak_values rl) = 5"
  using assms by (auto simp: rl_inv_def)

lemma rl_inv_asserts: "rl_inv rl \<Longrightarrow> entry_asserts rl w"
  using rl_invD(1)[of rl w] by (auto simp: entry_asserts_def rl_entry_inv_def Let_def)

text \<open>The overflow test of the loop, decided by the invariant: it refuses exactly the empty
  reservations and those whose sum leaves the range of \<open>s64\<close>.\<close>

lemma overflow_test:
  assumes "rl_inv rl" and v: "0 \<le> v" "is_s64 v"
  shows "WrappingAdd (m_current_values rl ! res_index w) v \<le> m_current_values rl ! res_index w
    \<longleftrightarrow> v = 0 \<or> \<not> is_s64 (m_current_values rl ! res_index w + v)"
proof -
  let ?c = "m_current_values rl ! res_index w"
  from rl_invD(1)[OF assms(1), of w] have c: "0 \<le> ?c" "is_s64 ?c"
    by (auto simp: rl_entry_inv_def is_s64_def)
  from WrappingAdd_cases[OF c(1) v(1) c(2) v(2)] v show ?thesis
    by (auto simp: is_s64_def)
qed

lemma Reserve_iter_cases:
  assumes "rl_inv rl" and v: "0 \<le> v" "is_s64 v"
  shows "Reserve_iter rl w v timeout now =
    (let i = res_index w in
     if 0 < v \<and> v \<le> m_limit_values rl ! i - m_current_values rl ! i then
       Reserved (rl\<lparr>m_current_values := (m_current_values rl)[i := m_current_values rl ! i + v],
          m_current_hints := (m_current_hints rl)[i := m_current_hints rl ! i + v],
          m_peak_values := (m_peak_values rl)[i := max (m_peak_values rl ! i) (m_current_values rl ! i + v)]\<rparr>)
     else if 0 < v \<and> is_s64 (m_current_values rl ! i + v) \<and>
          m_current_hints rl ! i + v \<le> m_limit_values rl ! i \<and> (timeout < 0 \<or> now < timeout)
     then Blocked else Refused)"
proof -
  let ?i = "res_index w"
  from rl_invD(1)[OF assms(1), of w]
  have fits: "v \<le> m_limit_values rl ! ?i - m_current_values rl ! ?i
      \<Longrightarrow> is_s64 (m_current_values rl ! ?i + v)"
    using v by (auto simp: rl_entry_inv_def is_s64_def)
  then show ?thesis
    unfolding Reserve_iter_def Let_def overflow_test[OF assms]
    using v(1) by auto
qed

lemma rl_inv_update:
  assumes "rl_inv rl"
    and "rl_entry_inv rl' (res_index w)"
    and "\<And>i. i \<noteq> res_index w \<Longrightarrow> m_limit_values rl' ! i = m_limit_values rl ! i"
    and "\<And>i. i \<noteq> res_index w \<Longrightarrow> m_current_values rl' ! i = m_current_values rl ! i"
    and "\<And>i. i \<noteq> res_index w \<Longrightarrow> m_current_hints rl' ! i = m_current_hints rl ! i"
    and "\<And>i. i \<noteq> res_index w \<Longrightarrow> m_peak_values rl' ! i = m_peak_values rl ! i"
    and "length (m_limit_values rl') = 5" "length (m_current_values rl') = 5"
        "length (m_current_hints rl') = 5" "length (m_peak_values rl') = 5"
  shows "rl_inv rl'"
proof -
  have "rl_entry_inv rl' (res_index w')" for w'
    using assms(2-6) rl_invD(1)[OF assms(1), of w']
    by (cases "w' = w") (auto simp: rl_entry_inv_def)
  with assms(7-10) show ?thesis by (simp add: rl_inv_def)
qed

lemma rl_inv_SetLimitValue:
  assumes "rl_inv rl" "is_s64 v"
  shows "rl_inv (snd (SetLimitValue rl w v))"
proof (cases "m_current_values rl ! res_index w \<le> v")
  case True
  show ?thesis
    by (rule rl_inv_update[OF assms(1), where w = w])
       (use True assms rl_invD(2-5)[OF assms(1)] rl_invD(1)[OF assms(1), of w] in
         \<open>auto simp: SetLimitValue_def Let_def rl_entry_inv_def\<close>)
qed (use assms in \<open>simp add: SetLimitValue_def\<close>)

lemma rl_inv_Release:
  assumes "rl_inv rl" "release_ok rl w v h"
  shows "rl_inv (Release rl w v h)"
  by (rule rl_inv_update[OF assms(1), where w = w])
     (use assms rl_invD(2-5)[OF assms(1)] rl_invD(1)[OF assms(1), of w] in
       \<open>auto simp: Release_def Let_def rl_entry_inv_def release_ok_def Release_asserts_def\<close>)

lemma rl_inv_Reserve_iter:
  assumes "rl_inv rl" "0 \<le> v" "is_s64 v" "Reserve_iter rl w v timeout now = Reserved rl'"
  shows "rl_inv rl'"
proof (rule rl_inv_update[OF assms(1), where w = w])
  show "rl_entry_inv rl' (res_index w)"
    using assms(4) rl_invD(2-5)[OF assms(1)] rl_invD(1)[OF assms(1), of w]
    unfolding Reserve_iter_cases[OF assms(1-3)]
    by (auto simp: rl_entry_inv_def Let_def split: if_splits)
qed (use assms(4) rl_invD(2-5)[OF assms(1)] in
      \<open>auto simp: Reserve_iter_cases[OF assms(1-3)] Let_def split: if_splits\<close>)

lemma rl_inv_waiters [simp]: "rl_inv (rl\<lparr>m_waiter_count := n\<rparr>) = rl_inv rl"
  by (simp add: rl_inv_def rl_entry_inv_def)

lemma rl_inv_apply: "rl_inv rl \<Longrightarrow> op_ok rl x \<Longrightarrow> rl_inv (rl_apply rl x)"
  by (cases x)
     (auto simp: rl_inv_SetLimitValue rl_inv_Release rl_inv_Reserve_iter split: reserve_outcome.splits)

lemma rl_run_Cons [simp]: "rl_run rl (x # xs) = rl_run (rl_apply rl x) xs"
  by (simp add: rl_run_def)

lemma rl_run_Nil [simp]: "rl_run rl [] = rl"
  by (simp add: rl_run_def)

lemma rl_inv_run: "rl_inv rl \<Longrightarrow> ops_ok rl xs \<Longrightarrow> rl_inv (rl_run rl xs)"
  by (induction xs arbitrary: rl) (auto simp: rl_inv_apply)

lemma rl_inv_new: "rl_inv KResourceLimit_new"
proof -
  have "rl_entry_inv KResourceLimit_new (res_index w)" for w
    by (cases w) (simp_all add: rl_entry_inv_def KResourceLimit_new_def is_s64_def)
  then show ?thesis by (simp add: rl_inv_def KResourceLimit_new_def)
qed

lemma rl_inv_Create: "is_s64 n \<Longrightarrow> rl_inv (CreateResourceLimitForProcess n)"
  unfolding CreateResourceLimitForProcess_def Let_def
  by (intro rl_inv_SetLimitValue rl_inv_new) (auto simp: is_s64_def)

section \<open>The loop with interference\<close>

lemma Reserve_loop_inv:
  assumes "rl_inv rl" "0 \<le> v" "is_s64 v" "wakeups_ok which v timeout ws rl"
    and "Reserve_loop which v timeout ws rl now = Some (ok, rl')"
  shows "rl_inv rl'"
  using assms
proof (induction which v timeout ws rl now rule: Reserve_loop.induct)
  case (1 which v timeout ws rl now)
  show ?case
  proof (cases "Reserve_iter rl which v timeout now")
    case (Reserved rl2)
    with "1.prems"(5) have "rl' = rl2" by (simp add: Reserve_loop.simps)
    with rl_inv_Reserve_iter[OF "1.prems"(1-3) Reserved] show ?thesis by simp
  next
    case Refused
    with "1.prems" show ?thesis by (auto simp: Reserve_loop.simps)
  next
    case Blocked
    with 1 show ?thesis
      by (auto simp: Reserve_loop.simps[of which v timeout ws rl now] rl_inv_run
               split: list.splits)
  qed
qed

lemma Reserve_loop_True:
  assumes "Reserve_loop which v timeout ws rl now = Some (True, rl')"
  shows "\<exists>rl0 now0. Reserve_iter rl0 which v timeout now0 = Reserved rl'"
  using assms
proof (induction which v timeout ws rl now rule: Reserve_loop.induct)
  case (1 which v timeout ws rl now)
  then show ?case
    by (cases "Reserve_iter rl which v timeout now")
       (auto simp: Reserve_loop.simps[of which v timeout ws rl now] split: list.splits)
qed

lemma Reserve_loop_not_blocked:
  "Reserve_iter rl which v timeout now \<noteq> Blocked
    \<Longrightarrow> \<exists>r. Reserve_loop which v timeout ws rl now = Some r"
  by (cases "Reserve_iter rl which v timeout now") (auto simp: Reserve_loop.simps)

lemma Reserve_loop_deadline:
  assumes "0 \<le> timeout" "\<exists>(ops, t) \<in> set ws. timeout \<le> t"
  shows "\<exists>r. Reserve_loop which v timeout ws rl now = Some r"
  using assms
proof (induction which v timeout ws rl now rule: Reserve_loop.induct)
  case (1 which v timeout ws rl now)
  show ?case
  proof (cases "Reserve_iter rl which v timeout now")
    case Blocked
    from "1.prems"(2) obtain ops t ws' where ws: "ws = (ops, t) # ws'"
      by (cases ws) auto
    let ?rl = "rl_apply (rl_run (rl_apply rl OpWaitBegin) ops) OpWaitEnd"
    have unf: "Reserve_loop which v timeout ws rl now = Reserve_loop which v timeout ws' ?rl t"
      unfolding ws using Blocked
      by (simp add: Reserve_loop.simps[of which v timeout "(ops, t) # ws'" rl now])
    show ?thesis
    proof (cases "timeout \<le> t")
      case True
      then have "Reserve_iter ?rl which v timeout t \<noteq> Blocked"
        using "1.prems"(1) by (auto simp: Reserve_iter_def Let_def)
      then show ?thesis
        unfolding unf by (rule Reserve_loop_not_blocked)
    next
      case False
      then have "\<exists>(ops, t) \<in> set ws'. timeout \<le> t"
        using "1.prems"(2) ws by auto
      from "1.IH"[OF Blocked ws refl "1.prems"(1) this] show ?thesis
        unfolding unf .
    qed
  qed (auto simp: Reserve_loop.simps[of which v timeout ws rl now])
qed

section \<open>The accounting interface\<close>

text \<open>
  What the kernel objects that charge a resource limit rely on: a granted reservation adds its
  amount to what is used, a refused one changes nothing, and giving the amount back undoes it.
\<close>

locale resource_accounting =
  fixes reserve :: "'s \<Rightarrow> 'r \<Rightarrow> int \<Rightarrow> (bool \<times> 's) option"
    and release :: "'s \<Rightarrow> 'r \<Rightarrow> int \<Rightarrow> 's"
    and used :: "'s \<Rightarrow> 'r \<Rightarrow> int"
    and limit :: "'s \<Rightarrow> 'r \<Rightarrow> int"
    and inv :: "'s \<Rightarrow> bool"
    and amount :: "int \<Rightarrow> bool"
  assumes inv_used: "inv s \<Longrightarrow> 0 \<le> used s r \<and> used s r \<le> limit s r"
    and reserve_inv: "inv s \<Longrightarrow> amount v \<Longrightarrow> reserve s r v = Some (ok, s') \<Longrightarrow> inv s'"
    and reserve_granted: "inv s \<Longrightarrow> amount v \<Longrightarrow> reserve s r v = Some (True, s') \<Longrightarrow>
          used s' = (used s)(r := used s r + v) \<and> limit s' = limit s"
    and reserve_refused: "inv s \<Longrightarrow> amount v \<Longrightarrow> reserve s r v = Some (False, s') \<Longrightarrow> s' = s"
    and release_after: "inv s \<Longrightarrow> amount v \<Longrightarrow> reserve s r v = Some (True, s') \<Longrightarrow>
          inv (release s' r v) \<and> used (release s' r v) = used s \<and> limit (release s' r v) = limit s"
begin

lemma granted_within_limit:
  "inv s \<Longrightarrow> amount v \<Longrightarrow> reserve s r v = Some (True, s') \<Longrightarrow> used s r + v \<le> limit s r"
  using reserve_inv[of s v r True s'] reserve_granted[of s v r s'] inv_used[of s' r] by auto

lemma scope_balanced:
  assumes "inv s" "amount v" "reserve s r v = Some (ok, s')"
  shows "used (if ok then release s' r v else s') = used s
    \<and> inv (if ok then release s' r v else s')"
  using release_after[of s v r s'] reserve_refused[of s v r s'] assms by (cases ok) auto

end

text \<open>The reservation a thread obtains without sleeping, on the model.\<close>

definition reserve_now ::
  "KResourceLimit \<Rightarrow> LimitableResource \<Rightarrow> int \<Rightarrow> (bool \<times> KResourceLimit) option" where
  "reserve_now rl w v = Reserve rl w v 0 0 []"

definition release_both :: "KResourceLimit \<Rightarrow> LimitableResource \<Rightarrow> int \<Rightarrow> KResourceLimit" where
  "release_both rl w v = Release rl w v v"

definition is_amount :: "int \<Rightarrow> bool" where
  "is_amount v \<longleftrightarrow> 0 < v \<and> is_s64 v"

lemma Reserve_one_pass:
  "Reserve rl w v timeout now [] = Some (ok, rl') \<longleftrightarrow>
     (if Reserve_enter rl w then
        (ok \<and> Reserve_iter rl w v timeout now = Reserved rl') \<or>
        (\<not> ok \<and> rl' = rl \<and> Reserve_iter rl w v timeout now = Refused)
      else \<not> ok \<and> rl' = rl)"
  by (auto simp: Reserve_def Reserve_loop.simps split: reserve_outcome.splits)

lemma Reserved_effect:
  assumes "rl_inv rl" "0 \<le> v" "is_s64 v" "Reserve_iter rl w v timeout now = Reserved rl'"
  shows "GetCurrentValue rl' q = GetCurrentValue rl q + (if q = w then v else 0)"
    and "m_current_hints rl' ! res_index q =
      m_current_hints rl ! res_index q + (if q = w then v else 0)"
    and "m_limit_values rl' = m_limit_values rl"
  using assms(4) rl_invD(2-5)[OF assms(1)]
  unfolding Reserve_iter_cases[OF assms(1-3)]
  by (auto simp: Let_def GetCurrentValue_def split: if_splits)

lemma release_ok_after_Reserved:
  assumes "rl_inv rl" "is_amount v" "Reserve_iter rl w v timeout now = Reserved rl'"
  shows "release_ok rl' w v v"
proof -
  from assms(2) have v: "0 \<le> v" "is_s64 v" by (auto simp: is_amount_def)
  note inv' = rl_inv_Reserve_iter[OF assms(1) v assms(3)]
  note eff = Reserved_effect(1,2)[OF assms(1) v assms(3), of w]
  from eff rl_invD(1)[OF assms(1), of w] v rl_inv_asserts[OF inv', of w] show ?thesis
    by (auto simp: release_ok_def Release_asserts_def GetCurrentValue_def rl_entry_inv_def)
qed

lemma Release_effect:
  assumes "rl_inv rl"
  shows "GetCurrentValue (Release rl w v h) q = GetCurrentValue rl q - (if q = w then v else 0)"
    and "m_limit_values (Release rl w v h) = m_limit_values rl"
  using rl_invD(2-5)[OF assms]
  by (auto simp: Release_def Let_def GetCurrentValue_def)

interpretation krl: resource_accounting
  reserve_now release_both GetCurrentValue GetLimitValue rl_inv is_amount
proof unfold_locales
  fix s r assume "rl_inv s"
  from rl_invD(1)[OF this, of r]
  show "0 \<le> GetCurrentValue s r \<and> GetCurrentValue s r \<le> GetLimitValue s r"
    by (auto simp: rl_entry_inv_def GetCurrentValue_def GetLimitValue_def)
next
  fix s v r ok s'
  assume inv: "rl_inv s" and v: "is_amount v" and res: "reserve_now s r v = Some (ok, s')"
  then have v': "0 \<le> v" "is_s64 v" by (auto simp: is_amount_def)
  from res show "rl_inv s'"
    using inv rl_inv_Reserve_iter[OF inv v']
    by (auto simp: reserve_now_def Reserve_one_pass split: if_splits)
next
  fix s v r s'
  assume inv: "rl_inv s" and v: "is_amount v" and res: "reserve_now s r v = Some (True, s')"
  then have v': "0 \<le> v" "is_s64 v" by (auto simp: is_amount_def)
  from res have it: "Reserve_iter s r v 0 0 = Reserved s'"
    by (auto simp: reserve_now_def Reserve_one_pass split: if_splits)
  note eff = Reserved_effect[OF inv v' it]
  from eff show "GetCurrentValue s' = (GetCurrentValue s)(r := GetCurrentValue s r + v)
      \<and> GetLimitValue s' = GetLimitValue s"
    by (auto simp: GetLimitValue_def fun_eq_iff)
  have inv': "rl_inv s'" by (rule rl_inv_Reserve_iter[OF inv v' it])
  from rl_inv_Release[OF inv' release_ok_after_Reserved[OF inv v it]]
  show "rl_inv (release_both s' r v)
      \<and> GetCurrentValue (release_both s' r v) = GetCurrentValue s
      \<and> GetLimitValue (release_both s' r v) = GetLimitValue s"
    using eff Release_effect[OF inv'] by (auto simp: release_both_def GetLimitValue_def fun_eq_iff)
next
  fix s v r s'
  assume "reserve_now s r v = Some (False, s')"
  then show "s' = s" by (auto simp: reserve_now_def Reserve_one_pass split: if_splits)
qed

section \<open>Reachable states\<close>

inductive rl_reachable :: "int \<Rightarrow> KResourceLimit \<Rightarrow> bool" for n where
  create: "rl_reachable n (CreateResourceLimitForProcess n)"
| step: "rl_reachable n rl \<Longrightarrow> op_ok rl x \<Longrightarrow> rl_reachable n (rl_apply rl x)"

lemma rl_reachable_inv: "rl_reachable n rl \<Longrightarrow> is_s64 n \<Longrightarrow> rl_inv rl"
  by (induction rule: rl_reachable.induct) (auto intro: rl_inv_Create rl_inv_apply)

section \<open>Properties\<close>

text \<open>C15: in every state a process's resource limit can reach through \<open>SetLimitValue\<close>,
  \<open>Reserve\<close> and contract-abiding \<open>Release\<close> calls, each resource satisfies
  \<open>0 \<le> hint \<le> current \<le> peak \<le> limit\<close>, so the free value is never negative and none of the
  getters' assertions fires.\<close>

theorem resource_limit_never_overcommitted:
  assumes "is_s64 n" and "rl_reachable n rl"
  shows "0 \<le> m_current_hints rl ! res_index w
    \<and> m_current_hints rl ! res_index w \<le> GetCurrentValue rl w
    \<and> GetCurrentValue rl w \<le> GetPeakValue rl w
    \<and> GetPeakValue rl w \<le> GetLimitValue rl w
    \<and> 0 \<le> GetFreeValue rl w \<and> entry_asserts rl w"
proof -
  from rl_reachable_inv[OF assms(2,1)] have inv: "rl_inv rl" .
  from rl_invD(1)[OF inv, of w] rl_inv_asserts[OF inv, of w] show ?thesis
    by (auto simp: rl_entry_inv_def GetCurrentValue_def GetPeakValue_def GetLimitValue_def
        GetFreeValue_def)
qed

theorem resource_limit_never_overcommitted_witness:
  "GetCurrentValue (rl_apply (CreateResourceLimitForProcess 4096) (OpReserve ThreadCountMax 3 0 0))
     ThreadCountMax \<le> 800"
proof -
  have reach: "rl_reachable 4096
      (rl_apply (CreateResourceLimitForProcess 4096) (OpReserve ThreadCountMax 3 0 0))"
    by (rule rl_reachable.step[OF rl_reachable.create]) (simp add: is_s64_def)
  have n: "is_s64 4096" by (simp add: is_s64_def)
  have lim: "GetLimitValue (rl_apply (CreateResourceLimitForProcess 4096)
      (OpReserve ThreadCountMax 3 0 0)) ThreadCountMax = 800"
    by (simp add: GetLimitValue_def CreateResourceLimitForProcess_def SetLimitValue_def Let_def
        KResourceLimit_new_def Reserve_enter_def Reserve_iter_def WrappingAdd_def wrap_s64_def
        numeral_eq_Suc)
  show ?thesis
    using resource_limit_never_overcommitted[OF n reach, of ThreadCountMax] lim by simp
qed

text \<open>A reservation that does not have to sleep is granted exactly when its amount is
  positive, the hints do not already fill the limit and the amount fits in what is free; it then
  adds the amount to the current value and the hint of that resource, and when it is refused the
  accounting is untouched. In particular a reservation of zero is always refused.\<close>

theorem reserve_without_wait:
  assumes "rl_inv rl" and "0 \<le> v" and "is_s64 v" and "0 \<le> timeout" and "timeout \<le> now"
  shows "\<exists>rl'. Reserve rl w v timeout now [] =
      Some (0 < v \<and> m_current_hints rl ! res_index w < GetLimitValue rl w
        \<and> v \<le> GetFreeValue rl w, rl')
    \<and> (0 < v \<and> m_current_hints rl ! res_index w < GetLimitValue rl w \<and> v \<le> GetFreeValue rl w
        \<longrightarrow> GetCurrentValue rl' w = GetCurrentValue rl w + v
          \<and> GetPeakValue rl' w = max (GetPeakValue rl w) (GetCurrentValue rl w + v))
    \<and> (\<not> (0 < v \<and> m_current_hints rl ! res_index w < GetLimitValue rl w \<and> v \<le> GetFreeValue rl w)
        \<longrightarrow> rl' = rl)"
proof -
  have len: "length (m_current_values rl) = 5" "length (m_peak_values rl) = 5"
    using rl_invD(3,5)[OF assms(1)] by auto
  show ?thesis
    using assms(4,5) len
    by (auto simp: Reserve_def Reserve_enter_def Reserve_loop.simps
        Reserve_iter_cases[OF assms(1-3)] Let_def GetLimitValue_def GetFreeValue_def
        GetCurrentValue_def GetPeakValue_def)
qed

theorem reserve_without_wait_witness:
  "\<exists>rl'. Reserve (CreateResourceLimitForProcess 4096) EventCountMax 900 0 0 [] = Some (True, rl')
     \<and> GetCurrentValue rl' EventCountMax = 900"
proof -
  let ?rl = "CreateResourceLimitForProcess 4096"
  have inv: "rl_inv ?rl" by (rule rl_inv_Create) (simp add: is_s64_def)
  have vals: "GetLimitValue ?rl EventCountMax = 900" "GetFreeValue ?rl EventCountMax = 900"
      "GetCurrentValue ?rl EventCountMax = 0" "m_current_hints ?rl ! res_index EventCountMax = 0"
    by (simp_all add: GetLimitValue_def GetFreeValue_def GetCurrentValue_def Let_def
        CreateResourceLimitForProcess_def SetLimitValue_def KResourceLimit_new_def numeral_eq_Suc)
  have "is_s64 900" by (simp add: is_s64_def)
  from reserve_without_wait[OF inv _ this, of 0 0 EventCountMax] vals show ?thesis by auto
qed

text \<open>C32: a \<open>Reserve\<close> with a deadline returns, whatever the other threads do while it
  sleeps, as soon as one of its wake-ups happens at or after the deadline; if their calls respect
  the contracts, the accounting invariant still holds when it returns.\<close>

theorem reserve_returns_by_deadline:
  assumes "rl_inv rl" and "0 \<le> v" and "is_s64 v" and "0 \<le> timeout"
    and "wakeups_ok w v timeout ws rl" and "\<exists>(ops, t) \<in> set ws. timeout \<le> t"
  shows "\<exists>ok rl'. Reserve rl w v timeout now ws = Some (ok, rl') \<and> rl_inv rl'"
proof (cases "Reserve_enter rl w")
  case True
  obtain ok rl' where res: "Reserve_loop w v timeout ws rl now = Some (ok, rl')"
    using Reserve_loop_deadline[OF assms(4,6), of w v rl now] by auto
  from Reserve_loop_inv[OF assms(1-3,5) res] res True show ?thesis by (auto simp: Reserve_def)
next
  case False
  with assms(1) show ?thesis by (intro exI[of _ False] exI[of _ rl]) (simp add: Reserve_def)
qed

theorem reserve_returns_by_deadline_witness:
  "\<exists>ok rl'. Reserve (CreateResourceLimitForProcess 4096) SessionCountMax 2 10 0
      [([OpSetLimit SessionCountMax 1], 3), ([], 12)] = Some (ok, rl') \<and> rl_inv rl'"
  by (rule reserve_returns_by_deadline)
     (auto simp: is_s64_def rl_inv_Create)

text \<open>a scoped reservation that goes out of scope uncommitted leaves the current value of
  every resource as it found it, and one that was committed leaves exactly its amount charged;
  the invariant holds in both cases.\<close>

theorem scoped_reservation_balance:
  assumes "rl_inv rl" and "0 < v" and "is_s64 v"
    and "ScopedReservation_open rl True r v 0 0 [] = Some (sr, rl')"
  shows "GetCurrentValue (ScopedReservation_close sr rl') = GetCurrentValue rl
    \<and> rl_inv (ScopedReservation_close sr rl')
    \<and> GetCurrentValue (ScopedReservation_close (ScopedReservation_Commit sr) rl')
       = (GetCurrentValue rl)(r := GetCurrentValue rl r + (if sr_succeeded sr then v else 0))"
proof -
  have am: "is_amount v" using assms by (simp add: is_amount_def)
  from assms(2,4) obtain ok where res: "reserve_now rl r v = Some (ok, rl')"
    and sr: "sr = \<lparr>sr_limit = True, sr_value = v, sr_resource = r, sr_succeeded = ok\<rparr>"
    by (auto simp: ScopedReservation_open_def reserve_now_def split: option.splits)
  have close: "ScopedReservation_close sr rl' = (if ok then release_both rl' r v else rl')"
    using assms(2) by (simp add: ScopedReservation_close_def sr release_both_def)
  have kept: "ScopedReservation_close (ScopedReservation_Commit sr) rl' = rl'"
    by (simp add: ScopedReservation_close_def ScopedReservation_Commit_def)
  from krl.scope_balanced[OF assms(1) am res] krl.reserve_granted[OF assms(1) am]
    krl.reserve_refused[OF assms(1) am] res
  show ?thesis unfolding close kept by (cases ok) (auto simp: sr)
qed

theorem scoped_reservation_balance_witness:
  "\<exists>sr rl'. ScopedReservation_open (CreateResourceLimitForProcess 4096) True ThreadCountMax 1 0 0 []
      = Some (sr, rl') \<and> GetCurrentValue (ScopedReservation_close sr rl')
      = GetCurrentValue (CreateResourceLimitForProcess 4096)"
proof -
  let ?rl = "CreateResourceLimitForProcess 4096"
  have inv: "rl_inv ?rl" by (rule rl_inv_Create) (simp add: is_s64_def)
  have one: "is_s64 1" by (simp add: is_s64_def)
  have "\<exists>sr rl'. ScopedReservation_open ?rl True ThreadCountMax 1 0 0 [] = Some (sr, rl')"
    by (auto simp: ScopedReservation_open_def Reserve_def Reserve_loop.simps
        Reserve_iter_cases[OF inv _ one] Let_def split: option.splits if_splits)
  then show ?thesis
    using scoped_reservation_balance[OF inv _ one] by fastforce
qed

end
