(* ===== verification/Bit_Field.thy ===== *)
theory Bit_Field
  imports Yuzu_Prelude
begin

text \<open>
  \<open>BitField<Position, Bits, T>\<close> of \<open>src/common/bit_field.h\<close>, the packed fields of handles,
  macro opcodes and hardware registers. The position and width are arguments, the storage is a
  word of any length. The named collection \<open>bitfield\<close> carries the facts the components use:
  which bits a field reads, that reading back a written field gives the value, and that writing
  one field leaves a disjoint field alone.
\<close>

named_theorems bitfield \<open>reading and writing packed fields\<close>

definition BitField_mask :: "nat \<Rightarrow> nat \<Rightarrow> 'a::len word" where
  "BitField_mask pos bits = push_bit pos (drop_bit (LENGTH('a) - bits) (NOT 0))"

definition BitField_FormatValue :: "nat \<Rightarrow> nat \<Rightarrow> 'a::len word \<Rightarrow> 'a word" where
  "BitField_FormatValue pos bits v = push_bit pos v AND BitField_mask pos bits"

definition BitField_ExtractValue :: "nat \<Rightarrow> nat \<Rightarrow> 'a::len word \<Rightarrow> 'a word" where
  "BitField_ExtractValue pos bits storage = drop_bit pos (storage AND BitField_mask pos bits)"

definition BitField_ExtractSigned :: "nat \<Rightarrow> nat \<Rightarrow> 'a::len word \<Rightarrow> 'a word" where
  "BitField_ExtractSigned pos bits storage =
     (let shift = LENGTH('a) - bits in signed_drop_bit shift (push_bit (shift - pos) storage))"

definition BitField_Assign :: "nat \<Rightarrow> nat \<Rightarrow> 'a::len word \<Rightarrow> 'a word \<Rightarrow> 'a word" where
  "BitField_Assign pos bits storage v =
     (storage AND NOT (BitField_mask pos bits)) OR BitField_FormatValue pos bits v"

lemma bit_BitField_mask [bitfield]:
  "bits \<le> LENGTH('a) \<Longrightarrow>
   bit (BitField_mask pos bits :: 'a::len word) n \<longleftrightarrow> n < LENGTH('a) \<and> pos \<le> n \<and> n < pos + bits"
  by (auto simp: BitField_mask_def bit_simps)

lemma bit_BitField_ExtractValue [bitfield]:
  "pos + bits \<le> LENGTH('a) \<Longrightarrow>
   bit (BitField_ExtractValue pos bits (w :: 'a::len word)) n \<longleftrightarrow> n < bits \<and> bit w (pos + n)"
  by (auto simp: BitField_ExtractValue_def bit_simps bit_BitField_mask bit_imp_le_length)

lemma BitField_ExtractValue_eq [bitfield]:
  "pos + bits \<le> LENGTH('a) \<Longrightarrow>
   BitField_ExtractValue pos bits (w :: 'a::len word) = take_bit bits (drop_bit pos w)"
  by (rule bit_word_eqI) (auto simp: bit_BitField_ExtractValue bit_simps)

lemma bit_BitField_Assign:
  "pos + bits \<le> LENGTH('a) \<Longrightarrow>
   bit (BitField_Assign pos bits (w :: 'a::len word) v) n \<longleftrightarrow>
     n < LENGTH('a) \<and> (if pos \<le> n \<and> n < pos + bits then bit v (n - pos) else bit w n)"
  by (auto simp: BitField_Assign_def BitField_FormatValue_def bit_simps bit_BitField_mask
      bit_imp_le_length)

lemma BitField_Extract_Assign [bitfield]:
  assumes "pos + bits \<le> LENGTH('a)"
  shows "BitField_ExtractValue pos bits (BitField_Assign pos bits (w :: 'a::len word) v)
    = take_bit bits v"
  by (rule bit_word_eqI)
     (use assms in \<open>auto simp: bit_BitField_ExtractValue bit_BitField_Assign bit_simps\<close>)

lemma BitField_Extract_Assign_other [bitfield]:
  assumes "pos + bits \<le> LENGTH('a)" "pos' + bits' \<le> LENGTH('a)"
    and "pos + bits \<le> pos' \<or> pos' + bits' \<le> pos"
  shows "BitField_ExtractValue pos' bits' (BitField_Assign pos bits (w :: 'a::len word) v)
    = BitField_ExtractValue pos' bits' w"
  by (rule bit_word_eqI)
     (use assms in \<open>auto simp: bit_BitField_ExtractValue bit_BitField_Assign\<close>)

lemma BitField_ExtractValue_less:
  assumes "pos + bits \<le> LENGTH('a)"
  shows "unat (BitField_ExtractValue pos bits (w :: 'a::len word)) < 2 ^ bits"
  unfolding BitField_ExtractValue_eq[OF assms]
  by (simp add: unsigned_take_bit_eq)

lemma unat_take_bit_word_of_nat:
  "n < 2 ^ m \<Longrightarrow> m \<le> LENGTH('a) \<Longrightarrow> unat (take_bit m (word_of_nat n :: 'a::len word)) = n"
  by (simp add: unsigned_take_bit_eq unsigned_of_nat min_def take_bit_nat_eq_self)

text \<open>A signed field is the field's value read as two's complement of the field's width.\<close>

lemma sint_BitField_ExtractSigned:
  assumes "0 < bits" "pos + bits \<le> LENGTH('a)"
  shows "sint (BitField_ExtractSigned pos bits (w :: 'a::len word))
    = signed_take_bit (bits - 1) (uint (drop_bit pos w))"
proof (rule bit_eqI)
  fix n :: nat
  show "bit (sint (BitField_ExtractSigned pos bits w)) n
    = bit (signed_take_bit (bits - 1) (uint (drop_bit pos w))) n"
    using assms
    by (auto simp: BitField_ExtractSigned_def Let_def bit_simps min_def not_le not_less
        elim!: back_subst[of "bit w"])
qed

text \<open>A value is determined by fields that tile its storage.\<close>

lemma word_eq_by_fields:
  assumes "\<And>n. n < LENGTH('a) \<Longrightarrow> \<exists>(pos, bits) \<in> set fs. pos \<le> n \<and> n < pos + bits"
    and "\<And>pos bits. (pos, bits) \<in> set fs \<Longrightarrow> pos + bits \<le> LENGTH('a)
      \<and> BitField_ExtractValue pos bits (v :: 'a::len word) = BitField_ExtractValue pos bits w"
  shows "v = w"
proof (rule bit_word_eqI)
  fix n assume "n < LENGTH('a)"
  then obtain pos bits where f: "(pos, bits) \<in> set fs" "pos \<le> n" "n < pos + bits"
    using assms(1) by fastforce
  from assms(2)[OF f(1)] have le: "pos + bits \<le> LENGTH('a)"
    and eq: "BitField_ExtractValue pos bits v = BitField_ExtractValue pos bits w" by auto
  have "bit (BitField_ExtractValue pos bits v) (n - pos)
      = bit (BitField_ExtractValue pos bits w) (n - pos)"
    using eq by simp
  moreover have "n - pos < bits" using f by arith
  ultimately show "bit v n = bit w n"
    using f le by (simp add: bit_BitField_ExtractValue)
qed

end
