(* ===== verification/K_Handle_Table.thy ===== *)
theory K_Handle_Table
  imports Bit_Field
begin

text \<open>
  \<open>KHandleTable\<close> (\<open>src/core/hle/kernel/k_handle_table.h\<close>, \<open>.cpp\<close>): the table that
  turns a guest's 32-bit handles into kernel objects. Objects are natural numbers; their
  reference counts (\<open>KAutoObject::Open\<close>, \<open>Close\<close>) and the kernel's set of in-use objects
  are a second record. An entry is sixteen bits, read as the linear id of a live entry or as the
  signed index of the next free entry, as the union of the source does.
  The locks of the source make each operation atomic; they have no counterpart here.
\<close>

section \<open>State\<close>

abbreviation MaxTableSize :: nat where "MaxTableSize \<equiv> 1024"
abbreviation MinLinearId :: nat where "MinLinearId \<equiv> 1"
abbreviation MaxLinearId :: nat where "MaxLinearId \<equiv> 32767"

type_synonym Handle = u32
type_synonym kobject = nat

record KHandleTable =
  m_entry_infos :: "u16 list"
  m_objects :: "kobject option list"
  m_free_head_index :: int
  m_table_size :: nat
  m_max_count :: nat
  m_next_linear_id :: nat
  m_count :: nat

record KObjects =
  m_ref_count :: "kobject \<Rightarrow> nat"
  destroyed :: "kobject list"
  registered_in_use_objects :: "kobject set"

definition inc16 :: "nat \<Rightarrow> nat" where
  "inc16 n = (n + 1) mod 65536"

definition dec16 :: "nat \<Rightarrow> nat" where
  "dec16 n = (n + 65535) mod 65536"

definition GetLinearId :: "u16 \<Rightarrow> nat" where
  "GetLinearId e = unat e"

definition GetNextFreeIndex :: "u16 \<Rightarrow> int" where
  "GetNextFreeIndex e = sint e"

section \<open>Kernel objects\<close>

definition Open :: "KObjects \<Rightarrow> kobject \<Rightarrow> bool \<times> KObjects" where
  "Open ks ob =
     (if m_ref_count ks ob = 0 then (False, ks)
      else (True, ks\<lparr>m_ref_count := (m_ref_count ks)(ob := (m_ref_count ks ob + 1) mod 2 ^ 32)\<rparr>))"

definition Close :: "KObjects \<Rightarrow> kobject \<Rightarrow> KObjects" where
  "Close ks ob =
     (let n = (m_ref_count ks ob + (2 ^ 32 - 1)) mod 2 ^ 32;
          ks' = ks\<lparr>m_ref_count := (m_ref_count ks)(ob := n)\<rparr>
      in if n = 0 then ks'\<lparr>destroyed := ob # destroyed ks'\<rparr> else ks')"

definition UnregisterInUseObject :: "KObjects \<Rightarrow> kobject \<Rightarrow> KObjects" where
  "UnregisterInUseObject ks ob =
     ks\<lparr>registered_in_use_objects := registered_in_use_objects ks - {ob}\<rparr>"

section \<open>Handles\<close>

abbreviation CurrentThread :: Handle where "CurrentThread \<equiv> 0xFFFF8000"
abbreviation CurrentProcess :: Handle where "CurrentProcess \<equiv> 0xFFFF8001"

definition IsPseudoHandle :: "Handle \<Rightarrow> bool" where
  "IsPseudoHandle h \<longleftrightarrow> h = CurrentProcess \<or> h = CurrentThread"

definition pack_index :: "Handle \<Rightarrow> nat" where
  "pack_index h = unat (BitField_ExtractValue 0 15 h)"

definition pack_linear_id :: "Handle \<Rightarrow> nat" where
  "pack_linear_id h = unat (BitField_ExtractValue 15 15 h)"

definition pack_reserved :: "Handle \<Rightarrow> nat" where
  "pack_reserved h = unat (BitField_ExtractValue 30 2 h)"

definition EncodeHandle :: "nat \<Rightarrow> nat \<Rightarrow> Handle" where
  "EncodeHandle index linear_id =
     BitField_Assign 30 2
       (BitField_Assign 15 15 (BitField_Assign 0 15 0 (word_of_nat index)) (word_of_nat linear_id)) 0"

section \<open>Operations\<close>

definition KHandleTable_new :: KHandleTable where
  "KHandleTable_new =
     \<lparr>m_entry_infos = replicate MaxTableSize 0, m_objects = replicate MaxTableSize None,
      m_free_head_index = 0, m_table_size = 0, m_max_count = 0, m_next_linear_id = 0, m_count = 0\<rparr>"

definition Initialize_entry :: "KHandleTable \<Rightarrow> nat \<Rightarrow> KHandleTable" where
  "Initialize_entry t i =
     t\<lparr>m_objects := (m_objects t)[i := None],
       m_entry_infos := (m_entry_infos t)[i := word_of_int (int i - 1)],
       m_free_head_index := int i\<rparr>"

definition KHandleTable_Initialize :: "KHandleTable \<Rightarrow> int \<Rightarrow> Result \<times> KHandleTable" where
  "KHandleTable_Initialize t sz =
     (if \<not> (sz \<le> int MaxTableSize) then (ResultOutOfMemory, t)
      else
        let n = (if sz \<le> 0 then MaxTableSize else nat sz);
            t1 = t\<lparr>m_max_count := 0, m_table_size := n, m_next_linear_id := MinLinearId,
                   m_count := 0, m_free_head_index := -1\<rparr>
        in (ResultSuccess, fold (\<lambda>i tt. Initialize_entry tt i) [0..<n] t1))"

definition AllocateEntry :: "KHandleTable \<Rightarrow> int \<times> KHandleTable" where
  "AllocateEntry t =
     (let index = m_free_head_index t;
          c = inc16 (m_count t)
      in (index,
          t\<lparr>m_free_head_index := GetNextFreeIndex (m_entry_infos t ! nat index),
            m_count := c,
            m_max_count := max (m_max_count t) c\<rparr>))"

definition FreeEntry :: "KHandleTable \<Rightarrow> nat \<Rightarrow> KHandleTable" where
  "FreeEntry t index =
     t\<lparr>m_objects := (m_objects t)[index := None],
       m_entry_infos := (m_entry_infos t)[index := word_of_int (m_free_head_index t)],
       m_free_head_index := int index,
       m_count := dec16 (m_count t)\<rparr>"

definition AllocateLinearId :: "KHandleTable \<Rightarrow> nat \<times> KHandleTable" where
  "AllocateLinearId t =
     (let id = m_next_linear_id t; nx = inc16 id
      in (id, t\<lparr>m_next_linear_id := (if nx > MaxLinearId then MinLinearId else nx)\<rparr>))"

definition IsValidHandle :: "KHandleTable \<Rightarrow> Handle \<Rightarrow> bool" where
  "IsValidHandle t h =
     (let index = pack_index h; linear_id = pack_linear_id h in
      if h = 0 then False
      else if linear_id = 0 then False
      else if index \<ge> m_table_size t then False
      else if m_objects t ! index = None then False
      else if GetLinearId (m_entry_infos t ! index) \<noteq> linear_id then False
      else True)"

definition GetObjectImpl :: "KHandleTable \<Rightarrow> Handle \<Rightarrow> kobject option" where
  "GetObjectImpl t h =
     (if pack_reserved h \<noteq> 0 then None
      else if IsValidHandle t h then m_objects t ! pack_index h
      else None)"

definition GetObjectByIndexImpl :: "KHandleTable \<Rightarrow> nat \<Rightarrow> (Handle \<times> kobject) option" where
  "GetObjectByIndexImpl t index =
     (if index \<ge> m_table_size t then None
      else case m_objects t ! index of
             None \<Rightarrow> None
           | Some ob \<Rightarrow>
               Some (EncodeHandle index (GetLinearId (m_entry_infos t ! index)), ob))"

text \<open>A returned scoped object opens a reference; \<open>is_a\<close> stands for the class test of
  \<open>DynamicCast\<close>.\<close>

definition scoped_object :: "KObjects \<Rightarrow> kobject option \<Rightarrow> kobject option \<times> KObjects" where
  "scoped_object ks r = (case r of None \<Rightarrow> (None, ks) | Some ob \<Rightarrow> (Some ob, snd (Open ks ob)))"

definition GetObjectWithoutPseudoHandle ::
  "(kobject \<Rightarrow> bool) \<Rightarrow> KHandleTable \<Rightarrow> KObjects \<Rightarrow> Handle \<Rightarrow> kobject option \<times> KObjects" where
  "GetObjectWithoutPseudoHandle is_a t ks h =
     (case GetObjectImpl t h of
        None \<Rightarrow> (None, ks)
      | Some ob \<Rightarrow> if is_a ob then scoped_object ks (Some ob) else (None, ks))"

definition GetObjectForIpc ::
  "KHandleTable \<Rightarrow> KObjects \<Rightarrow> Handle \<Rightarrow> kobject \<Rightarrow> kobject \<Rightarrow> kobject option \<times> KObjects" where
  "GetObjectForIpc t ks h cur_thread owner_process =
     (if h = CurrentProcess then scoped_object ks (Some owner_process)
      else if h = CurrentThread then scoped_object ks (Some cur_thread)
      else scoped_object ks (GetObjectImpl t h))"

fun open_handles ::
  "(kobject \<Rightarrow> bool) \<Rightarrow> KHandleTable \<Rightarrow> KObjects \<Rightarrow> Handle list \<Rightarrow> kobject list \<times> KObjects" where
  "open_handles is_a t ks [] = ([], ks)"
| "open_handles is_a t ks (h # hs) =
     (case GetObjectImpl t h of
        None \<Rightarrow> ([], ks)
      | Some ob \<Rightarrow>
          if is_a ob then
            (case open_handles is_a t (snd (Open ks ob)) hs of (out, ks') \<Rightarrow> (ob # out, ks'))
          else ([], ks))"

definition GetMultipleObjects ::
  "(kobject \<Rightarrow> bool) \<Rightarrow> KHandleTable \<Rightarrow> KObjects \<Rightarrow> Handle list \<Rightarrow> bool \<times> kobject list \<times> KObjects"
where
  "GetMultipleObjects is_a t ks hs =
     (let (out, ks') = open_handles is_a t ks hs in
      if length out = length hs then (True, out, ks')
      else (False, out, fold (\<lambda>ob k. Close k ob) out ks'))"

definition Remove :: "KHandleTable \<Rightarrow> KObjects \<Rightarrow> Handle \<Rightarrow> bool \<times> KHandleTable \<times> KObjects" where
  "Remove t ks h =
     (if IsPseudoHandle h then (False, t, ks)
      else if pack_reserved h \<noteq> 0 then (False, t, ks)
      else if IsValidHandle t h then
        (let index = pack_index h; ob = the (m_objects t ! index)
         in (True, FreeEntry t index, Close (UnregisterInUseObject ks ob) ob))
      else (False, t, ks))"

definition Add ::
  "KHandleTable \<Rightarrow> KObjects \<Rightarrow> kobject \<Rightarrow> (Result + Handle) \<times> KHandleTable \<times> KObjects" where
  "Add t ks ob =
     (if \<not> (m_count t < m_table_size t) then (Inl ResultOutOfHandles, t, ks)
      else
        let (linear_id, t1) = AllocateLinearId t;
            (index, t2) = AllocateEntry t1;
            t3 = t2\<lparr>m_entry_infos := (m_entry_infos t2)[nat index := word_of_nat linear_id],
                    m_objects := (m_objects t2)[nat index := Some ob]\<rparr>
        in (Inr (EncodeHandle (nat index) linear_id), t3, snd (Open ks ob)))"

definition KHandleTable_Reserve :: "KHandleTable \<Rightarrow> (Result + Handle) \<times> KHandleTable" where
  "KHandleTable_Reserve t =
     (if \<not> (m_count t < m_table_size t) then (Inl ResultOutOfHandles, t)
      else
        let (index, t1) = AllocateEntry t;
            (linear_id, t2) = AllocateLinearId t1
        in (Inr (EncodeHandle (nat index) linear_id), t2))"

definition Unreserve :: "KHandleTable \<Rightarrow> Handle \<Rightarrow> KHandleTable" where
  "Unreserve t h = (if pack_index h < m_table_size t then FreeEntry t (pack_index h) else t)"

definition Register ::
  "KHandleTable \<Rightarrow> KObjects \<Rightarrow> Handle \<Rightarrow> kobject \<Rightarrow> KHandleTable \<times> KObjects" where
  "Register t ks h ob =
     (let index = pack_index h; linear_id = pack_linear_id h in
      if index < m_table_size t then
        (t\<lparr>m_entry_infos := (m_entry_infos t)[index := word_of_nat linear_id],
           m_objects := (m_objects t)[index := Some ob]\<rparr>, snd (Open ks ob))
      else (t, ks))"

definition KHandleTable_Finalize :: "KHandleTable \<Rightarrow> KObjects \<Rightarrow> Result \<times> KHandleTable \<times> KObjects" where
  "KHandleTable_Finalize t ks =
     (let saved_table_size = m_table_size t;
          close = (\<lambda>i k. case m_objects t ! i of None \<Rightarrow> k | Some ob \<Rightarrow> Close k ob)
      in (ResultSuccess, t\<lparr>m_table_size := 0\<rparr>, fold close [0..<saved_table_size] ks))"

section \<open>Handle packing\<close>

lemma pack_EncodeHandle:
  assumes "i < 32768" "l < 32768"
  shows "pack_index (EncodeHandle i l) = i"
    and "pack_linear_id (EncodeHandle i l) = l"
    and "pack_reserved (EncodeHandle i l) = 0"
proof -
  have i: "i < 2 ^ 15" and l: "l < 2 ^ 15" using assms by simp_all
  from i show "pack_index (EncodeHandle i l) = i"
    by (simp add: pack_index_def EncodeHandle_def BitField_Extract_Assign
        BitField_Extract_Assign_other unat_take_bit_word_of_nat)
  from l show "pack_linear_id (EncodeHandle i l) = l"
    by (simp add: pack_linear_id_def EncodeHandle_def BitField_Extract_Assign
        BitField_Extract_Assign_other unat_take_bit_word_of_nat)
  show "pack_reserved (EncodeHandle i l) = 0"
    by (simp add: pack_reserved_def EncodeHandle_def BitField_Extract_Assign)
qed

lemma pack_less: "pack_index h < 32768" "pack_linear_id h < 32768"
  using BitField_ExtractValue_less[of 0 15 h] BitField_ExtractValue_less[of 15 15 h]
  by (simp_all add: pack_index_def pack_linear_id_def)

lemma handle_eqI:
  assumes "pack_index g = pack_index h" "pack_linear_id g = pack_linear_id h"
    and "pack_reserved g = pack_reserved h"
  shows "g = h"
proof (rule word_eq_by_fields[where fs = "[(0, 15), (15, 15), (30, 2)]"])
  show "\<exists>(pos, bits)\<in>set [(0, 15), (15, 15), (30, 2)]. pos \<le> n \<and> n < pos + bits"
    if "n < LENGTH(32)" for n :: nat
    using that by auto
qed (use assms in \<open>auto simp: pack_index_def pack_linear_id_def pack_reserved_def
      word_unat_eq_iff[symmetric]\<close>)

lemma EncodeHandle_pack: "pack_reserved h = 0 \<Longrightarrow> EncodeHandle (pack_index h) (pack_linear_id h) = h"
  by (rule handle_eqI) (simp_all add: pack_EncodeHandle pack_less)

lemma pack_zero [simp]: "pack_linear_id 0 = 0"
  by (simp add: pack_linear_id_def BitField_ExtractValue_eq)

section \<open>The free list\<close>

fun free_chain :: "u16 list \<Rightarrow> int \<Rightarrow> nat list \<Rightarrow> bool" where
  "free_chain es i [] = (i = -1)"
| "free_chain es i (x # xs) = (i = int x \<and> free_chain es (GetNextFreeIndex (es ! x)) xs)"

fun free_list_from :: "u16 list \<Rightarrow> int \<Rightarrow> nat \<Rightarrow> nat list" where
  "free_list_from es i 0 = []"
| "free_list_from es i (Suc n) = nat i # free_list_from es (GetNextFreeIndex (es ! nat i)) n"

definition free_list :: "KHandleTable \<Rightarrow> nat list" where
  "free_list t = free_list_from (m_entry_infos t) (m_free_head_index t) (m_table_size t - m_count t)"

definition entry_inv :: "KHandleTable \<Rightarrow> nat \<Rightarrow> bool" where
  "entry_inv t i \<longleftrightarrow>
     (m_objects t ! i \<noteq> None \<longrightarrow>
        i \<notin> set (free_list t) \<and> 0 < GetLinearId (m_entry_infos t ! i) \<and>
        GetLinearId (m_entry_infos t ! i) \<le> MaxLinearId)"

definition ht_inv :: "KHandleTable \<Rightarrow> bool" where
  "ht_inv t \<longleftrightarrow>
     length (m_entry_infos t) = MaxTableSize \<and> length (m_objects t) = MaxTableSize \<and>
     m_table_size t \<le> MaxTableSize \<and> m_count t \<le> m_max_count t \<and> m_max_count t \<le> m_table_size t \<and>
     MinLinearId \<le> m_next_linear_id t \<and> m_next_linear_id t \<le> MaxLinearId \<and>
     free_chain (m_entry_infos t) (m_free_head_index t) (free_list t) \<and>
     distinct (free_list t) \<and> (\<forall>x \<in> set (free_list t). x < m_table_size t) \<and>
     (\<forall>i < m_table_size t. entry_inv t i)"

text \<open>An entry that is allocated but holds no object yet: what \<open>Reserve\<close> hands out.\<close>

definition is_reserved :: "KHandleTable \<Rightarrow> nat \<Rightarrow> bool" where
  "is_reserved t i \<longleftrightarrow> i < m_table_size t \<and> m_objects t ! i = None \<and> i \<notin> set (free_list t)"

lemma free_chain_from:
  "free_chain es i xs \<Longrightarrow> free_list_from es i (length xs) = xs"
  by (induction xs arbitrary: i) auto

lemma free_chain_update:
  "free_chain es i xs \<Longrightarrow> x \<notin> set xs \<Longrightarrow> free_chain (es[x := v]) i xs"
  by (induction xs arbitrary: i) auto

lemma length_free_list_from [simp]: "length (free_list_from es i n) = n"
  by (induction n arbitrary: i) auto

lemma length_free_list [simp]: "length (free_list t) = m_table_size t - m_count t"
  by (simp add: free_list_def)

lemma free_listI:
  assumes "free_chain (m_entry_infos t) (m_free_head_index t) xs"
    and "length xs = m_table_size t - m_count t"
  shows "free_list t = xs"
  using free_chain_from[OF assms(1)] assms(2) by (simp add: free_list_def)

lemma ht_invI:
  assumes "free_chain (m_entry_infos t) (m_free_head_index t) fl"
    and "length fl = m_table_size t - m_count t" "distinct fl" "\<And>x. x \<in> set fl \<Longrightarrow> x < m_table_size t"
    and "length (m_entry_infos t) = MaxTableSize" "length (m_objects t) = MaxTableSize"
    and "m_table_size t \<le> MaxTableSize" "m_count t \<le> m_max_count t" "m_max_count t \<le> m_table_size t"
    and "MinLinearId \<le> m_next_linear_id t" "m_next_linear_id t \<le> MaxLinearId"
    and "\<And>i. i < m_table_size t \<Longrightarrow> m_objects t ! i \<noteq> None \<Longrightarrow> i \<notin> set fl \<and>
       0 < GetLinearId (m_entry_infos t ! i) \<and> GetLinearId (m_entry_infos t ! i) \<le> MaxLinearId"
  shows "ht_inv t" "free_list t = fl"
proof -
  show "free_list t = fl" by (rule free_listI[OF assms(1,2)])
  with assms show "ht_inv t" by (auto simp: ht_inv_def entry_inv_def)
qed

lemma ht_invD:
  assumes "ht_inv t"
  shows "length (m_entry_infos t) = MaxTableSize" "length (m_objects t) = MaxTableSize"
    "m_table_size t \<le> MaxTableSize" "m_count t \<le> m_table_size t" "m_count t \<le> m_max_count t"
    "m_max_count t \<le> m_table_size t"
    "MinLinearId \<le> m_next_linear_id t" "m_next_linear_id t \<le> MaxLinearId"
    "free_chain (m_entry_infos t) (m_free_head_index t) (free_list t)"
    "distinct (free_list t)" "\<And>x. x \<in> set (free_list t) \<Longrightarrow> x < m_table_size t"
    "\<And>i. i < m_table_size t \<Longrightarrow> entry_inv t i"
  using assms by (auto simp: ht_inv_def)

section \<open>Every operation keeps the invariant\<close>

lemma sint_u16_small: "- 32768 \<le> i \<Longrightarrow> i < 32768 \<Longrightarrow> sint (word_of_int i :: u16) = i"
  by (simp add: signed_of_int signed_take_bit_int_eq_self)

lemma unat_u16_small: "n < 65536 \<Longrightarrow> unat (word_of_nat n :: u16) = n"
  by (simp add: unsigned_of_nat take_bit_nat_eq_self)

lemma inc16_eq: "n < 65535 \<Longrightarrow> inc16 n = n + 1"
  by (simp add: inc16_def)

lemma dec16_eq: "0 < n \<Longrightarrow> n < 65536 \<Longrightarrow> dec16 n = n - 1"
  by (simp add: dec16_def mod_if)

lemma fold_Initialize_entry:
  assumes "n \<le> MaxTableSize" "length (m_entry_infos t) = MaxTableSize"
    "length (m_objects t) = MaxTableSize" "m_free_head_index t = -1"
  defines "t' \<equiv> fold (\<lambda>i tt. Initialize_entry tt i) [0..<n] t"
  shows "m_free_head_index t' = int n - 1"
    "length (m_entry_infos t') = MaxTableSize" "length (m_objects t') = MaxTableSize"
    "\<forall>i < n. m_objects t' ! i = None \<and> m_entry_infos t' ! i = word_of_int (int i - 1)"
    "m_table_size t' = m_table_size t" "m_max_count t' = m_max_count t" "m_count t' = m_count t"
    "m_next_linear_id t' = m_next_linear_id t"
  using assms(1-4) unfolding t'_def
  by (induction n) (auto simp: Initialize_entry_def nth_list_update_if less_Suc_eq)

lemma free_chain_rev_upt:
  assumes "n \<le> MaxTableSize" "\<forall>i < n. es ! i = word_of_int (int i - 1)"
  shows "free_chain es (int n - 1) (rev [0..<n])"
  using assms
proof (induction n)
  case (Suc n)
  then have "GetNextFreeIndex (es ! n) = int n - 1"
    using sint_u16_small[of "int n - 1"] by (simp add: GetNextFreeIndex_def)
  with Suc show ?case by simp
qed simp

lemma ht_inv_Initialize:
  assumes "length (m_entry_infos t) = MaxTableSize" "length (m_objects t) = MaxTableSize"
    and "sz \<le> int MaxTableSize"
  shows "ht_inv (snd (KHandleTable_Initialize t sz))"
    and "m_count (snd (KHandleTable_Initialize t sz)) = 0"
    and "m_table_size (snd (KHandleTable_Initialize t sz)) = (if sz \<le> 0 then MaxTableSize else nat sz)"
proof -
  define n where "n = (if sz \<le> 0 then MaxTableSize else nat sz)"
  define t1 where "t1 = t\<lparr>m_max_count := 0, m_table_size := n, m_next_linear_id := MinLinearId,
                   m_count := 0, m_free_head_index := -1\<rparr>"
  have n: "n \<le> MaxTableSize" using assms(3) by (auto simp: n_def)
  have eq: "snd (KHandleTable_Initialize t sz) = fold (\<lambda>i tt. Initialize_entry tt i) [0..<n] t1"
    using assms(3) by (simp add: KHandleTable_Initialize_def n_def t1_def Let_def)
  note f = fold_Initialize_entry[OF n, of t1]
  have f': "length (m_entry_infos t1) = MaxTableSize" "length (m_objects t1) = MaxTableSize"
    "m_free_head_index t1 = -1" using assms by (simp_all add: t1_def)
  note g = f[OF f']
  show "ht_inv (snd (KHandleTable_Initialize t sz))"
    unfolding eq
    by (rule ht_invI(1)[where fl = "rev [0..<n]"])
       (use g n in \<open>auto simp: t1_def intro: free_chain_rev_upt\<close>)
  show "m_count (snd (KHandleTable_Initialize t sz)) = 0"
    "m_table_size (snd (KHandleTable_Initialize t sz)) = (if sz \<le> 0 then MaxTableSize else nat sz)"
    unfolding eq using g by (simp_all add: t1_def n_def)
qed

text \<open>With the invariant, a table that is not full has a free entry at its head.\<close>

lemma free_head:
  assumes "ht_inv t" "m_count t < m_table_size t"
  obtains x xs where "free_list t = x # xs" "m_free_head_index t = int x"
    "free_chain (m_entry_infos t) (GetNextFreeIndex (m_entry_infos t ! x)) xs"
    "x < m_table_size t" "x < MaxTableSize" "x \<notin> set xs" "distinct xs" "m_objects t ! x = None"
    "length xs = m_table_size t - (m_count t + 1)"
proof -
  note inv = ht_invD[OF assms(1)]
  have "length (free_list t) \<noteq> 0" using assms(2) by simp
  then obtain x xs where fl: "free_list t = x # xs" by (cases "free_list t") auto
  have x: "x < m_table_size t" using inv(11)[of x] fl by simp
  have "m_objects t ! x = None"
    using inv(12)[OF x] fl by (auto simp: entry_inv_def)
  moreover have "length xs = m_table_size t - (m_count t + 1)"
    using length_free_list[of t] fl by simp
  ultimately show thesis using that inv(3,9,10) fl x by auto
qed

lemma AllocateLinearId_range:
  assumes "ht_inv t" "AllocateLinearId t = (l, t')"
  shows "MinLinearId \<le> l" "l \<le> MaxLinearId" "MinLinearId \<le> m_next_linear_id t'"
    "m_next_linear_id t' \<le> MaxLinearId" "t' = t\<lparr>m_next_linear_id := m_next_linear_id t'\<rparr>"
    "l = m_next_linear_id t" "m_next_linear_id t' = l mod MaxLinearId + 1"
proof -
  have r: "MinLinearId \<le> m_next_linear_id t" "m_next_linear_id t \<le> MaxLinearId"
    using ht_invD(7,8)[OF assms(1)] .
  have nx: "m_next_linear_id t' = (if inc16 l > MaxLinearId then MinLinearId else inc16 l)"
    and l: "l = m_next_linear_id t" and t': "t' = t\<lparr>m_next_linear_id := m_next_linear_id t'\<rparr>"
    using assms(2) by (auto simp: AllocateLinearId_def Let_def)
  show "l = m_next_linear_id t" "t' = t\<lparr>m_next_linear_id := m_next_linear_id t'\<rparr>"
    by (fact l t')+
  show "MinLinearId \<le> l" "l \<le> MaxLinearId" using r l by auto
  show m: "m_next_linear_id t' = l mod MaxLinearId + 1"
    using r nx l by (cases "l = MaxLinearId") (auto simp: inc16_def)
  have "l mod MaxLinearId < MaxLinearId" by simp
  then show "MinLinearId \<le> m_next_linear_id t'" "m_next_linear_id t' \<le> MaxLinearId"
    unfolding m by linarith+
qed

text \<open>The table after \<open>Add\<close> or \<open>Reserve\<close> took the head entry \<open>x\<close>.\<close>

definition alloc_state :: "KHandleTable \<Rightarrow> nat \<Rightarrow> KHandleTable" where
  "alloc_state t x =
     t\<lparr>m_next_linear_id := m_next_linear_id t mod MaxLinearId + 1,
       m_free_head_index := GetNextFreeIndex (m_entry_infos t ! x),
       m_count := m_count t + 1, m_max_count := max (m_max_count t) (m_count t + 1)\<rparr>"

lemma AllocateEntry_eq:
  assumes "ht_inv t" "m_count t < m_table_size t" "m_free_head_index t = int x"
  shows "AllocateEntry t =
    (int x, t\<lparr>m_free_head_index := GetNextFreeIndex (m_entry_infos t ! x),
       m_count := m_count t + 1, m_max_count := max (m_max_count t) (m_count t + 1)\<rparr>)"
proof -
  have "m_count t < 65535" using assms(2) ht_invD(3)[OF assms(1)] by simp
  then show ?thesis using assms(3) by (simp add: AllocateEntry_def Let_def inc16_eq)
qed

lemma AllocateLinearId_eq:
  assumes "ht_inv t"
  shows "AllocateLinearId t =
    (m_next_linear_id t, t\<lparr>m_next_linear_id := m_next_linear_id t mod MaxLinearId + 1\<rparr>)"
proof -
  obtain l t' where a: "AllocateLinearId t = (l, t')" by force
  from AllocateLinearId_range(5-7)[OF assms a] a show ?thesis by simp
qed

lemma ht_inv_linear_id [simp]:
  "MinLinearId \<le> n \<Longrightarrow> n \<le> MaxLinearId \<Longrightarrow> ht_inv t \<Longrightarrow> ht_inv (t\<lparr>m_next_linear_id := n\<rparr>)"
  by (simp add: ht_inv_def entry_inv_def free_list_def)

lemma next_id_range: "MinLinearId \<le> n mod MaxLinearId + 1" "n mod MaxLinearId + 1 \<le> MaxLinearId"
proof -
  have "n mod MaxLinearId < MaxLinearId" by simp
  then show "MinLinearId \<le> n mod MaxLinearId + 1" "n mod MaxLinearId + 1 \<le> MaxLinearId"
    by linarith+
qed

lemma KHandleTable_Reserve_eq:
  assumes "ht_inv t" "m_count t < m_table_size t" "m_free_head_index t = int x"
  shows "KHandleTable_Reserve t = (Inr (EncodeHandle x (m_next_linear_id t)), alloc_state t x)"
proof -
  let ?t1 = "t\<lparr>m_free_head_index := GetNextFreeIndex (m_entry_infos t ! x),
       m_count := m_count t + 1, m_max_count := max (m_max_count t) (m_count t + 1)\<rparr>"
  have "AllocateLinearId ?t1 = (m_next_linear_id t, ?t1\<lparr>m_next_linear_id :=
      m_next_linear_id t mod MaxLinearId + 1\<rparr>)"
    using arg_cong[OF AllocateLinearId_eq[OF assms(1)], of "\<lambda>p. m_next_linear_id (snd p)"]
    by (simp add: AllocateLinearId_def Let_def)
  then show ?thesis
    using assms(2) by (simp add: KHandleTable_Reserve_def AllocateEntry_eq[OF assms] alloc_state_def)
qed

lemma Add_eq:
  assumes "ht_inv t" "m_count t < m_table_size t" "m_free_head_index t = int x"
  shows "Add t ks ob = (Inr (EncodeHandle x (m_next_linear_id t)),
    (alloc_state t x)\<lparr>m_entry_infos := (m_entry_infos t)[x := word_of_nat (m_next_linear_id t)],
       m_objects := (m_objects t)[x := Some ob]\<rparr>, snd (Open ks ob))"
proof -
  let ?t1 = "t\<lparr>m_next_linear_id := m_next_linear_id t mod MaxLinearId + 1\<rparr>"
  have "AllocateEntry ?t1 = (int x, ?t1\<lparr>m_free_head_index := GetNextFreeIndex (m_entry_infos t ! x),
       m_count := m_count t + 1, m_max_count := max (m_max_count t) (m_count t + 1)\<rparr>)"
    using AllocateEntry_eq[of ?t1 x] assms next_id_range by simp
  then show ?thesis
    using assms(2) by (simp add: Add_def AllocateLinearId_eq[OF assms(1)] alloc_state_def)
qed

lemma ht_inv_alloc:
  assumes inv: "ht_inv t" and c: "m_count t < m_table_size t"
    and fl: "free_list t = x # xs"
  shows "ht_inv (alloc_state t x)" "free_list (alloc_state t x) = xs"
proof -
  note I = ht_invD[OF inv]
  obtain "x < m_table_size t" "x \<notin> set xs" "distinct xs"
    "free_chain (m_entry_infos t) (GetNextFreeIndex (m_entry_infos t ! x)) xs"
    "length xs = m_table_size t - (m_count t + 1)"
    using free_head[OF inv c] fl by (metis list.inject)
  note F = this
  have set_xs: "y < m_table_size t" if "y \<in> set xs" for y using I(11)[of y] fl that by simp
  have obj: "i \<notin> set xs \<and> 0 < GetLinearId (m_entry_infos t ! i)
      \<and> GetLinearId (m_entry_infos t ! i) \<le> MaxLinearId"
    if "i < m_table_size t" "m_objects t ! i \<noteq> None" for i
    using I(12)[OF that(1)] that(2) fl by (auto simp: entry_inv_def)
  have "MinLinearId \<le> m_next_linear_id (alloc_state t x)"
    "m_next_linear_id (alloc_state t x) \<le> MaxLinearId"
    using next_id_range by (simp_all add: alloc_state_def)
  then show "ht_inv (alloc_state t x)"
    by (intro ht_invI(1)[where fl = xs])
       (use F set_xs obj I(1-6) c in \<open>auto simp: alloc_state_def\<close>)
  show "free_list (alloc_state t x) = xs"
    by (rule free_listI) (use F in \<open>auto simp: alloc_state_def\<close>)
qed

lemma ht_inv_store:
  fixes ob :: kobject
  assumes inv: "ht_inv t" and r: "is_reserved t x" and l: "MinLinearId \<le> l" "l \<le> MaxLinearId"
  defines "t' \<equiv> t\<lparr>m_entry_infos := (m_entry_infos t)[x := word_of_nat l],
       m_objects := (m_objects t)[x := Some ob]\<rparr>"
  shows "ht_inv t'" "free_list t' = free_list t"
proof -
  note I = ht_invD[OF inv]
  have x: "x < m_table_size t" "x \<notin> set (free_list t)" "x < MaxTableSize"
    using r I(3) by (auto simp: is_reserved_def)
  have ul: "unat (word_of_nat l :: u16) = l" using l by (intro unat_u16_small) simp
  have obj: "i \<notin> set (free_list t) \<and> 0 < GetLinearId (m_entry_infos t' ! i)
      \<and> GetLinearId (m_entry_infos t' ! i) \<le> MaxLinearId"
    if "i < m_table_size t" "m_objects t' ! i \<noteq> None" for i
    using I(1,2) I(12)[OF that(1)] that(2) x l ul
    by (cases "i = x") (auto simp: t'_def entry_inv_def GetLinearId_def)
  have ch: "free_chain (m_entry_infos t') (m_free_head_index t') (free_list t)"
    using free_chain_update[OF I(9) x(2)] by (simp add: t'_def)
  show "ht_inv t'"
    by (rule ht_invI(1)[OF ch]) (use I(1-8,10,11) obj in \<open>auto simp: t'_def\<close>)
  show "free_list t' = free_list t"
    by (rule free_listI[OF ch]) (simp add: t'_def)
qed

lemma ht_inv_FreeEntry:
  assumes inv: "ht_inv t" and x: "x < m_table_size t" "x \<notin> set (free_list t)"
  shows "ht_inv (FreeEntry t x)" "free_list (FreeEntry t x) = x # free_list t" "0 < m_count t"
proof -
  note I = ht_invD[OF inv]
  have hd: "- 32768 \<le> m_free_head_index t" "m_free_head_index t < 32768"
    using I(9) I(11)[of "hd (free_list t)"] I(3) by (cases "free_list t"; simp)+
  have xM: "x < length (m_entry_infos t)" using I(1,3) x by simp
  have "card (insert x (set (free_list t))) \<le> card {..<m_table_size t}"
    by (rule card_mono) (use I(11) x in auto)
  then have cnt: "0 < m_count t"
    using I(4) x(2) distinct_card[OF I(10)] by simp
  then show "0 < m_count t" .
  have dec: "dec16 (m_count t) = m_count t - 1"
    using cnt I(3,4) by (intro dec16_eq) auto
  have ch: "free_chain (m_entry_infos (FreeEntry t x)) (m_free_head_index (FreeEntry t x))
      (x # free_list t)"
    using free_chain_update[OF I(9) x(2)] hd xM
    by (simp add: FreeEntry_def GetNextFreeIndex_def sint_u16_small)
  have obj: "i \<notin> set (x # free_list t) \<and> 0 < GetLinearId (m_entry_infos (FreeEntry t x) ! i)
      \<and> GetLinearId (m_entry_infos (FreeEntry t x) ! i) \<le> MaxLinearId"
    if "i < m_table_size t" "m_objects (FreeEntry t x) ! i \<noteq> None" for i
    using I(1,2) I(12)[OF that(1)] that(2) xM
    by (cases "i = x") (auto simp: FreeEntry_def entry_inv_def)
  have len: "length (x # free_list t) = m_table_size (FreeEntry t x) - m_count (FreeEntry t x)"
    using cnt dec I(4) by (simp add: FreeEntry_def)
  show "ht_inv (FreeEntry t x)"
    by (rule ht_invI(1)[OF ch len])
       (use I(1-8,10,11) obj x cnt dec in \<open>auto simp: FreeEntry_def\<close>)
  show "free_list (FreeEntry t x) = x # free_list t"
    by (rule free_listI[OF ch len])
qed

lemma IsValidHandle_live:
  assumes "ht_inv t" "IsValidHandle t h"
  shows "pack_index h < m_table_size t" "pack_index h \<notin> set (free_list t)"
    "m_objects t ! pack_index h \<noteq> None"
  using assms ht_invD(12)[OF assms(1), of "pack_index h"]
  by (auto simp: IsValidHandle_def Let_def entry_inv_def split: if_splits)

section \<open>Lookup\<close>

lemma GetObjectImpl_iff:
  assumes "ht_inv t"
  shows "GetObjectImpl t h = Some ob \<longleftrightarrow>
    pack_reserved h = 0 \<and> pack_index h < m_table_size t \<and> m_objects t ! pack_index h = Some ob
    \<and> GetLinearId (m_entry_infos t ! pack_index h) = pack_linear_id h"
  using ht_invD(12)[OF assms, of "pack_index h"]
  by (auto simp: GetObjectImpl_def IsValidHandle_def Let_def entry_inv_def split: if_splits)

lemma GetObjectImpl_None_index:
  "m_objects t ! pack_index h = None \<Longrightarrow> GetObjectImpl t h = None"
  by (simp add: GetObjectImpl_def)

lemma GetObjectImpl_cong:
  assumes "m_table_size t' = m_table_size t"
    and "m_objects t' ! pack_index h = m_objects t ! pack_index h"
    and "m_entry_infos t' ! pack_index h = m_entry_infos t ! pack_index h"
  shows "GetObjectImpl t' h = GetObjectImpl t h"
  using assms by (simp add: GetObjectImpl_def IsValidHandle_def Let_def)

lemma GetObjectImpl_store:
  fixes ob :: kobject
  assumes inv: "ht_inv t" and r: "is_reserved t x" and l: "MinLinearId \<le> l" "l \<le> MaxLinearId"
  defines "t' \<equiv> t\<lparr>m_entry_infos := (m_entry_infos t)[x := word_of_nat l],
       m_objects := (m_objects t)[x := Some ob]\<rparr>"
  shows "GetObjectImpl t (EncodeHandle x l) = None"
    "GetObjectImpl t' = (GetObjectImpl t)(EncodeHandle x l := Some ob)"
proof -
  note I = ht_invD[OF inv]
  have x: "x < m_table_size t" "x < MaxTableSize" "m_objects t ! x = None"
    using r I(3) by (auto simp: is_reserved_def)
  have xl: "x < 32768" "l < 32768" using x l by auto
  note pk = pack_EncodeHandle[OF xl]
  show "GetObjectImpl t (EncodeHandle x l) = None"
    by (rule GetObjectImpl_None_index) (simp add: pk x)
  have inv': "ht_inv t'" unfolding t'_def by (rule ht_inv_store[OF inv r l])
  have ul: "unat (word_of_nat l :: u16) = l" using l by (intro unat_u16_small) simp
  show "GetObjectImpl t' = (GetObjectImpl t)(EncodeHandle x l := Some ob)"
  proof
    fix h
    show "GetObjectImpl t' h = ((GetObjectImpl t)(EncodeHandle x l := Some ob)) h"
    proof (cases "pack_index h = x")
      case False
      then have "h \<noteq> EncodeHandle x l" using pk by auto
      moreover have "GetObjectImpl t' h = GetObjectImpl t h"
        by (rule GetObjectImpl_cong) (use False in \<open>auto simp: t'_def\<close>)
      ultimately show ?thesis by simp
    next
      case True
      then have none: "GetObjectImpl t h = None" using x by (intro GetObjectImpl_None_index) simp
      have some: "GetObjectImpl t' h = Some b \<longleftrightarrow> h = EncodeHandle x l \<and> b = ob" for b
        unfolding GetObjectImpl_iff[OF inv']
        using True x I(1,2) ul pk EncodeHandle_pack[of h]
        by (auto simp: t'_def GetLinearId_def)
      show ?thesis
        using none some by (cases "GetObjectImpl t' h") auto
    qed
  qed
qed

lemma GetObjectImpl_FreeEntry:
  assumes inv: "ht_inv t" and v: "IsValidHandle t h" "pack_reserved h = 0"
  shows "GetObjectImpl (FreeEntry t (pack_index h)) = (GetObjectImpl t)(h := None)"
proof
  fix g
  note I = ht_invD[OF inv]
  note live = IsValidHandle_live[OF inv v(1)]
  have xM: "pack_index h < MaxTableSize" using live(1) I(3) by simp
  show "GetObjectImpl (FreeEntry t (pack_index h)) g = ((GetObjectImpl t)(h := None)) g"
  proof (cases "pack_index g = pack_index h")
    case False
    then have "GetObjectImpl (FreeEntry t (pack_index h)) g = GetObjectImpl t g"
      by (intro GetObjectImpl_cong) (auto simp: FreeEntry_def)
    then show ?thesis using False by auto
  next
    case True
    then have "GetObjectImpl (FreeEntry t (pack_index h)) g = None"
      using I(2) xM by (intro GetObjectImpl_None_index) (simp add: FreeEntry_def)
    moreover have "GetObjectImpl t g = None" if "g \<noteq> h"
    proof -
      have "g = h" if "GetObjectImpl t g = Some b" for b
        using that True v by (intro handle_eqI)
          (auto simp: GetObjectImpl_iff[OF inv] IsValidHandle_def Let_def split: if_splits)
      with that show ?thesis by (cases "GetObjectImpl t g") auto
    qed
    ultimately show ?thesis by simp
  qed
qed

lemma is_reserved_alloc:
  assumes inv: "ht_inv t" and c: "m_count t < m_table_size t" and fl: "free_list t = x # xs"
  shows "is_reserved (alloc_state t x) x"
proof -
  obtain "x < m_table_size t" "x \<notin> set xs" "m_objects t ! x = None"
    using free_head[OF inv c] fl by (metis list.inject)
  then show ?thesis
    using ht_inv_alloc(2)[OF assms] by (simp add: is_reserved_def alloc_state_def)
qed

lemma GetObjectImpl_alloc [simp]: "GetObjectImpl (alloc_state t x) = GetObjectImpl t"
  by (rule ext, rule GetObjectImpl_cong) (simp_all add: alloc_state_def)

lemma Add_spec:
  assumes inv: "ht_inv t" and res: "Add t ks ob = (Inr h, t', ks')"
  shows "ht_inv t'" "GetObjectImpl t h = None" "GetObjectImpl t' = (GetObjectImpl t)(h := Some ob)"
    "ks' = snd (Open ks ob)" "m_count t' = m_count t + 1" "pack_reserved h = 0"
    "pack_linear_id h = m_next_linear_id t"
    "m_next_linear_id t' = m_next_linear_id t mod MaxLinearId + 1"
proof -
  have c: "m_count t < m_table_size t" using res by (auto simp: Add_def split: if_splits)
  obtain x xs where fl: "free_list t = x # xs" and hd: "m_free_head_index t = int x"
    and xM: "x < MaxTableSize"
    using free_head[OF inv c] by metis
  let ?l = "m_next_linear_id t" and ?a = "alloc_state t x"
  have l: "MinLinearId \<le> ?l" "?l \<le> MaxLinearId" using ht_invD(7,8)[OF inv] .
  have xl: "x < 32768" "?l < 32768" using xM l by auto
  have eqs: "h = EncodeHandle x ?l" "ks' = snd (Open ks ob)"
    "t' = ?a\<lparr>m_entry_infos := (m_entry_infos ?a)[x := word_of_nat ?l],
           m_objects := (m_objects ?a)[x := Some ob]\<rparr>"
    using res unfolding Add_eq[OF inv c hd] by (auto simp: alloc_state_def)
  note r = is_reserved_alloc[OF inv c fl] and ia = ht_inv_alloc(1)[OF inv c fl]
  show "ht_inv t'" unfolding eqs(3) by (rule ht_inv_store(1)[OF ia r l])
  show "GetObjectImpl t h = None" using GetObjectImpl_store(1)[OF ia r l] eqs by simp
  show "GetObjectImpl t' = (GetObjectImpl t)(h := Some ob)"
    unfolding eqs(3) GetObjectImpl_store(2)[OF ia r l] by (simp add: eqs(1))
  show "ks' = snd (Open ks ob)" by (fact eqs)
  show "m_count t' = m_count t + 1"
    "m_next_linear_id t' = m_next_linear_id t mod MaxLinearId + 1"
    by (simp_all add: eqs alloc_state_def)
  show "pack_reserved h = 0" "pack_linear_id h = ?l" using pack_EncodeHandle[OF xl] eqs by auto
qed

lemma pseudo_reserved: "IsPseudoHandle h \<Longrightarrow> pack_reserved h \<noteq> 0"
proof -
  have "pack_reserved CurrentProcess = 3" "pack_reserved CurrentThread = 3"
    by code_simp+
  then show "IsPseudoHandle h \<Longrightarrow> pack_reserved h \<noteq> 0" by (auto simp: IsPseudoHandle_def)
qed

lemma Remove_spec:
  assumes inv: "ht_inv t"
  shows "(\<exists>ob. GetObjectImpl t h = Some ob \<and>
      Remove t ks h = (True, FreeEntry t (pack_index h), Close (UnregisterInUseObject ks ob) ob) \<and>
      ht_inv (FreeEntry t (pack_index h)) \<and>
      GetObjectImpl (FreeEntry t (pack_index h)) = (GetObjectImpl t)(h := None) \<and>
      m_count (FreeEntry t (pack_index h)) = m_count t - 1)
    \<or> (GetObjectImpl t h = None \<and> Remove t ks h = (False, t, ks))"
proof (cases "GetObjectImpl t h")
  case None
  then have "pack_reserved h \<noteq> 0 \<or> \<not> IsValidHandle t h"
    using IsValidHandle_live(3)[OF inv, of h] by (auto simp: GetObjectImpl_def)
  with None show ?thesis by (auto simp: Remove_def)
next
  case (Some ob)
  then have v: "IsValidHandle t h" "pack_reserved h = 0" "m_objects t ! pack_index h = Some ob"
    by (auto simp: GetObjectImpl_def split: if_splits)
  note live = IsValidHandle_live[OF inv v(1)]
  note fr = ht_inv_FreeEntry[OF inv live(1,2)]
  have "m_count t < 65536" using ht_invD(3,4)[OF inv] by simp
  then have "m_count (FreeEntry t (pack_index h)) = m_count t - 1"
    using fr(3) by (simp add: FreeEntry_def dec16_eq)
  with Some v fr GetObjectImpl_FreeEntry[OF inv v(1,2)] pseudo_reserved[of h] show ?thesis
    by (auto simp: Remove_def Let_def)
qed

section \<open>The table as an abstract map\<close>

locale object_table =
  fixes insert :: "'t \<Rightarrow> 'o \<Rightarrow> ('h \<times> 't) option"
    and delete :: "'t \<Rightarrow> 'h \<Rightarrow> 't option"
    and lookup :: "'t \<Rightarrow> 'h \<Rightarrow> 'o option"
    and inv :: "'t \<Rightarrow> bool"
  assumes insert_law: "inv t \<Longrightarrow> insert t ob = Some (h, t') \<Longrightarrow>
      inv t' \<and> lookup t h = None \<and> lookup t' = (lookup t)(h := Some ob)"
    and delete_law: "inv t \<Longrightarrow> delete t h = Some t' \<Longrightarrow>
      inv t' \<and> lookup t h \<noteq> None \<and> lookup t' = (lookup t)(h := None)"
    and delete_defined: "inv t \<Longrightarrow> (delete t h = None) = (lookup t h = None)"
begin

lemma delete_insert:
  assumes "inv t" "insert t ob = Some (h, t')"
  obtains t'' where "delete t' h = Some t''" "inv t''" "lookup t'' = lookup t"
proof -
  from insert_law[OF assms] have i: "inv t'" and n: "lookup t h = None"
    and l: "lookup t' = (lookup t)(h := Some ob)" by auto
  with delete_defined[OF i, of h] obtain t'' where d: "delete t' h = Some t''" by auto
  from delete_law[OF i d] l n have "lookup t'' = lookup t" by (auto simp: fun_eq_iff)
  with d delete_law[OF i d] that show thesis by blast
qed

lemma insert_distinct:
  assumes "inv t" "insert t ob = Some (h, t')" "insert t' ob' = Some (h', t'')"
  shows "h' \<noteq> h"
  using insert_law[OF assms(1,2)] insert_law[OF _ assms(3)] by auto

lemma delete_again:
  assumes "inv t" "delete t h = Some t'"
  shows "delete t' h = None"
  using delete_law[OF assms] delete_defined[of t' h] by auto

end

definition table_insert ::
  "KHandleTable \<times> KObjects \<Rightarrow> kobject \<Rightarrow> (Handle \<times> KHandleTable \<times> KObjects) option" where
  "table_insert s ob =
     (case Add (fst s) (snd s) ob of (Inr h, t', ks') \<Rightarrow> Some (h, t', ks') | _ \<Rightarrow> None)"

definition table_delete ::
  "KHandleTable \<times> KObjects \<Rightarrow> Handle \<Rightarrow> (KHandleTable \<times> KObjects) option" where
  "table_delete s h =
     (case Remove (fst s) (snd s) h of (True, t', ks') \<Rightarrow> Some (t', ks') | _ \<Rightarrow> None)"

interpretation ht: object_table
  table_insert table_delete "\<lambda>s. GetObjectImpl (fst s)" "\<lambda>s. ht_inv (fst s)"
proof unfold_locales
  fix t :: "KHandleTable \<times> KObjects" and ob h t'
  assume "ht_inv (fst t)" "table_insert t ob = Some (h, t')"
  then show "ht_inv (fst t') \<and> GetObjectImpl (fst t) h = None \<and>
      GetObjectImpl (fst t') = (GetObjectImpl (fst t))(h := Some ob)"
    using Add_spec(1-3)[of "fst t" "snd t" ob h "fst t'" "snd t'"]
    by (auto simp: table_insert_def split: prod.splits sum.splits)
next
  fix t :: "KHandleTable \<times> KObjects" and h t'
  assume "ht_inv (fst t)" "table_delete t h = Some t'"
  then show "ht_inv (fst t') \<and> GetObjectImpl (fst t) h \<noteq> None \<and>
      GetObjectImpl (fst t') = (GetObjectImpl (fst t))(h := None)"
    using Remove_spec[of "fst t" h "snd t"] by (auto simp: table_delete_def)
next
  fix t :: "KHandleTable \<times> KObjects" and h
  assume "ht_inv (fst t)"
  then show "(table_delete t h = None) = (GetObjectImpl (fst t) h = None)"
    using Remove_spec[of "fst t" h "snd t"] by (auto simp: table_delete_def)
qed

section \<open>Runs of operations\<close>

datatype ht_op =
    HAdd kobject
  | HRemove Handle
  | HReserve
  | HRegister Handle kobject
  | HUnreserve Handle

fun ht_apply :: "KHandleTable \<times> KObjects \<Rightarrow> ht_op \<Rightarrow> KHandleTable \<times> KObjects" where
  "ht_apply (t, ks) (HAdd ob) = snd (Add t ks ob)"
| "ht_apply (t, ks) (HRemove h) = snd (Remove t ks h)"
| "ht_apply (t, ks) HReserve = (snd (KHandleTable_Reserve t), ks)"
| "ht_apply (t, ks) (HRegister h ob) = Register t ks h ob"
| "ht_apply (t, ks) (HUnreserve h) = (Unreserve t h, ks)"

text \<open>The handles an operation issues.\<close>

fun ht_issues :: "KHandleTable \<times> KObjects \<Rightarrow> ht_op \<Rightarrow> Handle list" where
  "ht_issues (t, ks) (HAdd ob) = (case fst (Add t ks ob) of Inr h \<Rightarrow> [h] | Inl e \<Rightarrow> [])"
| "ht_issues (t, ks) HReserve = (case fst (KHandleTable_Reserve t) of Inr h \<Rightarrow> [h] | Inl e \<Rightarrow> [])"
| "ht_issues s _ = []"

text \<open>The callers' discipline: only a reserved entry is registered or unreserved.\<close>

fun ht_op_ok :: "KHandleTable \<times> KObjects \<Rightarrow> ht_op \<Rightarrow> bool" where
  "ht_op_ok (t, ks) (HRegister h ob) = (is_reserved t (pack_index h) \<and> 0 < pack_linear_id h)"
| "ht_op_ok (t, ks) (HUnreserve h) = is_reserved t (pack_index h)"
| "ht_op_ok s _ = True"

fun ht_run_ok :: "KHandleTable \<times> KObjects \<Rightarrow> ht_op list \<Rightarrow> bool" where
  "ht_run_ok s [] = True"
| "ht_run_ok s (x # xs) = (ht_op_ok s x \<and> ht_run_ok (ht_apply s x) xs)"

fun ht_run :: "KHandleTable \<times> KObjects \<Rightarrow> ht_op list \<Rightarrow> KHandleTable \<times> KObjects" where
  "ht_run s [] = s"
| "ht_run s (x # xs) = ht_run (ht_apply s x) xs"

fun ht_issued :: "KHandleTable \<times> KObjects \<Rightarrow> ht_op list \<Rightarrow> Handle list" where
  "ht_issued s [] = []"
| "ht_issued s (x # xs) = ht_issues s x @ ht_issued (ht_apply s x) xs"

lemma Reserve_spec:
  assumes inv: "ht_inv t" and res: "KHandleTable_Reserve t = (Inr h, t')"
  shows "ht_inv t'" "is_reserved t' (pack_index h)" "pack_linear_id h = m_next_linear_id t"
    "GetObjectImpl t' = GetObjectImpl t" "pack_reserved h = 0"
    "m_next_linear_id t' = m_next_linear_id t mod MaxLinearId + 1"
    "free_list t = pack_index h # free_list t'"
proof -
  have c: "m_count t < m_table_size t"
    using res by (auto simp: KHandleTable_Reserve_def split: if_splits)
  obtain x xs where fl: "free_list t = x # xs" and hd: "m_free_head_index t = int x"
    and xM: "x < MaxTableSize"
    using free_head[OF inv c] by metis
  have l: "MinLinearId \<le> m_next_linear_id t" "m_next_linear_id t \<le> MaxLinearId"
    using ht_invD(7,8)[OF inv] .
  have xl: "x < 32768" "m_next_linear_id t < 32768" using xM l by auto
  have eqs: "h = EncodeHandle x (m_next_linear_id t)" "t' = alloc_state t x"
    using res unfolding KHandleTable_Reserve_eq[OF inv c hd] by auto
  show "ht_inv t'" "is_reserved t' (pack_index h)" "pack_linear_id h = m_next_linear_id t"
    "GetObjectImpl t' = GetObjectImpl t" "pack_reserved h = 0"
    "m_next_linear_id t' = m_next_linear_id t mod MaxLinearId + 1"
    "free_list t = pack_index h # free_list t'"
    using ht_inv_alloc[OF inv c fl] is_reserved_alloc[OF inv c fl] pack_EncodeHandle[OF xl] fl
    unfolding eqs by (simp_all, simp add: alloc_state_def)
qed

lemma Register_spec:
  assumes inv: "ht_inv t" and r: "is_reserved t (pack_index h)" and l: "0 < pack_linear_id h"
  shows "ht_inv (fst (Register t ks h ob))" "snd (Register t ks h ob) = snd (Open ks ob)"
    "m_next_linear_id (fst (Register t ks h ob)) = m_next_linear_id t"
    "pack_reserved h = 0 \<Longrightarrow>
       GetObjectImpl (fst (Register t ks h ob)) = (GetObjectImpl t)(h := Some ob)"
proof -
  have i: "pack_index h < m_table_size t" using r by (simp add: is_reserved_def)
  have l': "MinLinearId \<le> pack_linear_id h" "pack_linear_id h \<le> MaxLinearId"
    using l pack_less(2)[of h] by simp_all
  have eq: "Register t ks h ob =
      (t\<lparr>m_entry_infos := (m_entry_infos t)[pack_index h := word_of_nat (pack_linear_id h)],
         m_objects := (m_objects t)[pack_index h := Some ob]\<rparr>, snd (Open ks ob))"
    using i by (simp add: Register_def Let_def)
  show "ht_inv (fst (Register t ks h ob))"
    unfolding eq fst_conv by (rule ht_inv_store(1)[OF inv r l'])
  show "snd (Register t ks h ob) = snd (Open ks ob)"
    "m_next_linear_id (fst (Register t ks h ob)) = m_next_linear_id t"
    by (simp_all add: eq)
  assume "pack_reserved h = 0"
  then show "GetObjectImpl (fst (Register t ks h ob)) = (GetObjectImpl t)(h := Some ob)"
    unfolding eq fst_conv GetObjectImpl_store(2)[OF inv r l'] by (simp add: EncodeHandle_pack)
qed

lemma Unreserve_inv:
  assumes "ht_inv t" "is_reserved t (pack_index h)"
  shows "ht_inv (Unreserve t h)" "free_list (Unreserve t h) = pack_index h # free_list t"
  using assms ht_inv_FreeEntry[OF assms(1), of "pack_index h"]
  by (simp_all add: Unreserve_def is_reserved_def)

lemma ht_issues_cases:
  assumes "ht_inv t"
  shows "ht_issues (t, ks) x = [] \<or> (\<exists>h. ht_issues (t, ks) x = [h] \<and>
    pack_linear_id h = m_next_linear_id t \<and> pack_reserved h = 0)"
proof (cases x)
  case (HAdd ob)
  obtain r t' ks' where a: "Add t ks ob = (r, t', ks')" by (metis prod_cases3)
  show ?thesis
  proof (cases r)
    case (Inr h)
    with Add_spec(6,7)[OF assms] a HAdd show ?thesis by auto
  qed (use a HAdd in auto)
next
  case HReserve
  obtain r t' where a: "KHandleTable_Reserve t = (r, t')" by force
  show ?thesis
  proof (cases r)
    case (Inr h)
    with Reserve_spec(3,5)[OF assms] a HReserve show ?thesis by auto
  qed (use a HReserve in auto)
qed auto

lemma ht_apply_step:
  assumes inv: "ht_inv t" and ok: "ht_op_ok (t, ks) x"
  shows "ht_inv (fst (ht_apply (t, ks) x)) \<and> m_next_linear_id (fst (ht_apply (t, ks) x)) =
      (if ht_issues (t, ks) x = [] then m_next_linear_id t else m_next_linear_id t mod MaxLinearId + 1)"
proof (cases x)
  case (HAdd ob)
  obtain r t' ks' where a: "Add t ks ob = (r, t', ks')" by (metis prod_cases3)
  show ?thesis
  proof (cases r)
    case (Inl e)
    with a inv HAdd show ?thesis by (auto simp: Add_def Let_def split: if_splits prod.splits)
  next
    case (Inr h)
    with Add_spec(1,8)[OF inv] a HAdd show ?thesis by auto
  qed
next
  case (HRemove h)
  with Remove_spec[OF inv, of h ks] inv
  show ?thesis
    by (auto simp: FreeEntry_def)
next
  case HReserve
  obtain r t' where a: "KHandleTable_Reserve t = (r, t')" by force
  show ?thesis
  proof (cases r)
    case (Inl e)
    with a inv HReserve show ?thesis
      by (auto simp: KHandleTable_Reserve_def Let_def split: if_splits prod.splits)
  next
    case (Inr h)
    with Reserve_spec(1,6)[OF inv] a HReserve show ?thesis by auto
  qed
next
  case (HRegister h ob)
  with ok Register_spec(1,3)[OF inv, of h ks ob]
  show ?thesis
    by auto
next
  case (HUnreserve h)
  with ok Unreserve_inv(1)[OF inv, of h]
  show ?thesis
    by (auto simp: Unreserve_def FreeEntry_def)
qed

lemmas ht_apply_inv = ht_apply_step[THEN conjunct1] ht_apply_step[THEN conjunct2]

lemma ht_run_inv: "ht_inv (fst s) \<Longrightarrow> ht_run_ok s xs \<Longrightarrow> ht_inv (fst (ht_run s xs))"
proof (induction xs arbitrary: s)
  case (Cons x xs)
  then show ?case using ht_apply_inv(1)[of "fst s" "snd s" x] by simp
qed simp

text \<open>The linear ids of the issued handles count up from the table's next id, modulo 32767.\<close>

lemma next_id_shift:
  "((l mod MaxLinearId + 1) + (MaxLinearId - 1) + k) mod MaxLinearId + 1
    = (l + (MaxLinearId - 1) + Suc k) mod MaxLinearId + 1"
proof -
  have "((l mod MaxLinearId) + (MaxLinearId + k)) mod MaxLinearId
      = (l + (MaxLinearId + k)) mod MaxLinearId"
    by (rule mod_add_left_eq)
  then show ?thesis by (simp add: algebra_simps)
qed

lemma issued_linear_ids:
  assumes "ht_inv (fst s)" "ht_run_ok s xs" "m_next_linear_id (fst s) = l"
  shows "map pack_linear_id (ht_issued s xs)
    = map (\<lambda>k. (l + (MaxLinearId - 1) + k) mod MaxLinearId + 1) [0..<length (ht_issued s xs)]"
  using assms
proof (induction xs arbitrary: s l)
  case (Cons x xs)
  obtain t ks where s: "s = (t, ks)" by (cases s)
  have inv: "ht_inv t" and ok: "ht_op_ok (t, ks) x" using Cons.prems s by auto
  let ?s' = "ht_apply s x"
  have inv': "ht_inv (fst ?s')" and ok': "ht_run_ok ?s' xs"
    using ht_apply_inv(1)[OF inv ok] Cons.prems s by auto
  note IH = Cons.IH[OF inv' ok' refl]
  have l: "l = m_next_linear_id t" "1 \<le> l" "l \<le> MaxLinearId"
    using Cons.prems(3) s ht_invD(7,8)[OF inv] by auto
  consider "ht_issues s x = []" | h where "ht_issues s x = [h]" "pack_linear_id h = l"
    using ht_issues_cases[OF inv, of ks x] s l by auto
  then show ?case
  proof cases
    case 1
    then have "m_next_linear_id (fst ?s') = l" using ht_apply_inv(2)[OF inv ok] s l by simp
    with IH 1 show ?thesis by simp
  next
    case 2
    then have nx: "m_next_linear_id (fst ?s') = l mod MaxLinearId + 1"
      using ht_apply_inv(2)[OF inv ok] s l by simp
    have first: "(l + (MaxLinearId - 1) + 0) mod MaxLinearId + 1 = l"
    proof (cases "l = MaxLinearId")
      case False
      with l(2,3) have "l + (MaxLinearId - 1) = MaxLinearId + (l - 1)" "l - 1 < MaxLinearId" by auto
      then have "(l + (MaxLinearId - 1)) mod MaxLinearId = l - 1"
        by (simp only: mod_add_self1 mod_less)
      then show ?thesis using l(2) by simp
    qed simp
    let ?n = "length (ht_issued ?s' xs)"
    have "[0..<Suc ?n] = 0 # map Suc [0..<?n]" by (simp add: map_Suc_upt upt_conv_Cons del: upt_Suc)
    then show ?thesis
      using IH 2 unfolding nx next_id_shift
      by (simp only: ht_issued.simps append_Cons append_Nil list.map length_Cons first map_map
          comp_def)
  qed
qed simp

lemma length_ht_issues: "length (ht_issues s x) \<le> 1"
  by (cases s; cases x) (auto split: sum.splits)

lemma length_ht_issued: "length (ht_issued s xs) \<le> length xs"
proof (induction xs arbitrary: s)
  case (Cons x xs)
  from Cons.IH[of "ht_apply s x"] length_ht_issues[of s x] show ?case by simp
qed simp

lemma mod_shift_inj:
  assumes "i < n" "j < n" "(c + i) mod n = (c + j) mod (n::nat)"
  shows "i = j"
proof -
  have le: "y = x" if "x \<le> y" "y < n" "(c + y) mod n = (c + x) mod n" for x y
  proof -
    from that(1) have "c + x \<le> c + y" by simp
    from mod_eq_dvd_iff_nat[OF this, of n] that(3) have "n dvd (c + y) - (c + x)" by simp
    then have "n dvd y - x" by simp
    moreover have "y - x < n" using that(2) by linarith
    ultimately have "y - x = 0" using nat_dvd_not_less[of "y - x" n] by blast
    with that(1) show ?thesis by linarith
  qed
  show ?thesis
  proof (cases "i \<le> j")
    case True
    from le[OF this assms(2) assms(3)[symmetric]] show ?thesis ..
  next
    case False
    then have "j \<le> i" by simp
    from le[OF this assms(1,3)] show ?thesis .
  qed
qed

lemma issued_distinct:
  assumes "ht_inv (fst s)" "ht_run_ok s xs" "length (ht_issued s xs) \<le> MaxLinearId"
  shows "distinct (ht_issued s xs)"
proof -
  let ?f = "\<lambda>k. (m_next_linear_id (fst s) + (MaxLinearId - 1) + k) mod MaxLinearId + 1"
  have "inj_on ?f {0..<length (ht_issued s xs)}"
    using assms(3) by (intro inj_onI) (auto intro: mod_shift_inj[of _ MaxLinearId])
  then have "distinct (map ?f [0..<length (ht_issued s xs)])"
    by (simp add: distinct_map)
  then have "distinct (map pack_linear_id (ht_issued s xs))"
    unfolding issued_linear_ids[OF assms(1,2) refl] .
  then show ?thesis by (simp add: distinct_map)
qed

section \<open>Reference counts of a group of handles\<close>

definition refs_ok :: "KObjects \<Rightarrow> nat \<Rightarrow> kobject \<Rightarrow> bool" where
  "refs_ok ks n ob \<longleftrightarrow> 0 < m_ref_count ks ob \<and> m_ref_count ks ob + n < 2 ^ 32"

definition add_refs :: "KObjects \<Rightarrow> kobject list \<Rightarrow> KObjects" where
  "add_refs ks out = ks\<lparr>m_ref_count := (\<lambda>ob. m_ref_count ks ob + count_list out ob)\<rparr>"

lemma Open_refs: "refs_ok ks (Suc n) ob \<Longrightarrow> snd (Open ks ob) = add_refs ks [ob]"
  by (auto simp: Open_def add_refs_def refs_ok_def fun_eq_iff intro!: arg_cong[where f = "\<lambda>f. ks\<lparr>m_ref_count := f\<rparr>"])

lemma refs_ok_add: "refs_ok ks (Suc n) ob \<Longrightarrow> refs_ok (add_refs ks [x]) n ob"
  by (auto simp: refs_ok_def add_refs_def)

lemma add_refs_append: "add_refs (add_refs ks xs) ys = add_refs ks (xs @ ys)"
  by (simp add: add_refs_def add.assoc)

lemma Close_refs:
  assumes "0 < m_ref_count ks x" "m_ref_count ks x + count_list out x + 1 < 2 ^ 32"
  shows "Close (add_refs ks (x # out)) x = add_refs ks out"
proof -
  let ?n = "m_ref_count ks x + count_list out x"
  have "(Suc ?n + (2 ^ 32 - 1)) mod 2 ^ 32 = ?n"
    using assms(2) by (simp add: mod_if)
  then show ?thesis
    using assms by (auto simp: Close_def Let_def add_refs_def fun_eq_iff
        intro!: arg_cong[where f = "\<lambda>f. ks\<lparr>m_ref_count := f\<rparr>"])
qed

lemma fold_Close_refs:
  assumes "\<forall>x \<in> set out. refs_ok ks (length out) x"
  shows "fold (\<lambda>ob k. Close k ob) out (add_refs ks out) = add_refs ks []"
  using assms
proof (induction out)
  case (Cons x xs)
  have "count_list xs x \<le> length xs" by (rule count_le_length)
  with Cons.prems have "Close (add_refs ks (x # xs)) x = add_refs ks xs"
    by (intro Close_refs) (auto simp: refs_ok_def)
  moreover have "\<forall>y \<in> set xs. refs_ok ks (length xs) y"
    using Cons.prems by (auto simp: refs_ok_def)
  ultimately show ?case using Cons.IH by simp
qed simp

lemma open_handles_spec:
  assumes "\<forall>h \<in> set hs. \<forall>ob. GetObjectImpl t h = Some ob \<longrightarrow> refs_ok ks (length hs) ob"
    and "open_handles is_a t ks hs = (out, ks')"
  shows "ks' = add_refs ks out"
    and "\<exists>n \<le> length hs. map Some out = map (GetObjectImpl t) (take n hs) \<and>
      (n < length hs \<longrightarrow> (\<forall>ob. GetObjectImpl t (hs ! n) = Some ob \<longrightarrow> \<not> is_a ob)) \<and>
      (\<forall>h \<in> set (take n hs). \<exists>ob. GetObjectImpl t h = Some ob \<and> is_a ob)"
proof (atomize(full), use assms in \<open>induction hs arbitrary: ks out\<close>)
  case Nil
  then show ?case by (simp add: add_refs_def)
next
  case (Cons h hs)
  show ?case
  proof (cases "\<exists>ob. GetObjectImpl t h = Some ob \<and> is_a ob")
    case True
    then obtain ob where ob: "GetObjectImpl t h = Some ob" "is_a ob" by blast
    then obtain o2 where o2: "open_handles is_a t (snd (Open ks ob)) hs = (o2, ks')"
      and out: "out = ob # o2"
      using Cons.prems(2) by (auto split: prod.splits)
    have r: "refs_ok ks (Suc (length hs)) ob" using Cons.prems(1) ob by simp
    have op: "snd (Open ks ob) = add_refs ks [ob]" by (rule Open_refs[OF r])
    have "\<forall>h \<in> set hs. \<forall>b. GetObjectImpl t h = Some b \<longrightarrow> refs_ok (add_refs ks [ob]) (length hs) b"
      using Cons.prems(1) by (auto intro: refs_ok_add)
    from Cons.IH[OF this o2[unfolded op]] obtain n where n: "n \<le> length hs"
      "map Some o2 = map (GetObjectImpl t) (take n hs)"
      "n < length hs \<longrightarrow> (\<forall>b. GetObjectImpl t (hs ! n) = Some b \<longrightarrow> \<not> is_a b)"
      "\<forall>h \<in> set (take n hs). \<exists>b. GetObjectImpl t h = Some b \<and> is_a b"
      and ks': "ks' = add_refs (add_refs ks [ob]) o2" by blast
    show ?thesis
      using n ob ks' out by (intro conjI exI[of _ "Suc n"]) (auto simp: add_refs_append)
  next
    case False
    with Cons.prems(2) have "out = [] \<and> ks' = ks" by (auto split: option.splits if_splits)
    with False show ?thesis by (intro conjI exI[of _ 0]) (auto simp: add_refs_def)
  qed
qed

section \<open>Properties\<close>

text \<open>C11: after \<open>Initialize\<close> and any sequence of \<open>Add\<close>, \<open>Remove\<close>, \<open>Reserve\<close>,
  \<open>Register\<close> and \<open>Unreserve\<close> in which only reserved entries are registered or unreserved,
  the table's count never exceeds its size, its free list is a chain of exactly
  \<open>size - count\<close> distinct in-range entries ending in \<open>-1\<close>, and no entry that holds an object
  is on it.\<close>

theorem handle_table_free_list_exact:
  assumes "sz \<le> 1024" and "ht_run_ok (snd (KHandleTable_Initialize KHandleTable_new sz), ks) ops"
  shows "let t = fst (ht_run (snd (KHandleTable_Initialize KHandleTable_new sz), ks) ops) in
    m_count t \<le> m_table_size t \<and>
    free_chain (m_entry_infos t) (m_free_head_index t) (free_list t) \<and>
    length (free_list t) = m_table_size t - m_count t \<and> distinct (free_list t) \<and>
    (\<forall>i \<in> set (free_list t). i < m_table_size t \<and> m_objects t ! i = None)"
proof -
  let ?t0 = "snd (KHandleTable_Initialize KHandleTable_new sz)"
  have "ht_inv ?t0" using assms(1) by (intro ht_inv_Initialize) (simp_all add: KHandleTable_new_def)
  then have "ht_inv (fst (ht_run (?t0, ks) ops))" using assms(2) by (intro ht_run_inv) simp_all
  note I = ht_invD[OF this]
  show ?thesis
    using I(4,9,10,11) I(12) by (fastforce simp: Let_def entry_inv_def)
qed

theorem handle_table_free_list_exact_witness:
  "m_count (fst (ht_run (snd (KHandleTable_Initialize KHandleTable_new 2),
      \<lparr>m_ref_count = (\<lambda>_. 1), destroyed = [], registered_in_use_objects = {}\<rparr>)
      [HAdd 7, HReserve, HAdd 8])) \<le> 1024"
  using handle_table_free_list_exact[of 2
      "\<lparr>m_ref_count = (\<lambda>_. 1), destroyed = [], registered_in_use_objects = {}\<rparr>"
      "[HAdd 7, HReserve, HAdd 8]"]
    ht_invD(3)[OF ht_run_inv[of "(snd (KHandleTable_Initialize KHandleTable_new 2),
      \<lparr>m_ref_count = (\<lambda>_. 1), destroyed = [], registered_in_use_objects = {}\<rparr>)"
      "[HAdd 7, HReserve, HAdd 8]"]]
    ht_inv_Initialize(1)[of KHandleTable_new 2]
  by (simp add: Let_def KHandleTable_new_def)

text \<open>\<open>Add\<close> on a table with room hands out a non-zero handle with clear reserved bits
  that named nothing before; afterwards exactly that handle names the new object, every other
  handle resolves as before and one reference to the object is opened. On a full table it returns
  \<open>ResultOutOfHandles\<close> and changes nothing.\<close>

theorem add_issues_fresh_handle:
  assumes "ht_inv t"
  shows "if m_count t < m_table_size t
    then \<exists>h t'. Add t ks ob = (Inr h, t', snd (Open ks ob)) \<and> h \<noteq> 0 \<and> pack_reserved h = 0 \<and>
      GetObjectImpl t h = None \<and> GetObjectImpl t' = (GetObjectImpl t)(h := Some ob) \<and>
      m_count t' = m_count t + 1
    else Add t ks ob = (Inl ResultOutOfHandles, t, ks)"
proof (cases "m_count t < m_table_size t")
  case True
  obtain x where "m_free_head_index t = int x" using free_head[OF assms True] by metis
  from Add_eq[OF assms True this] obtain h t' where a: "Add t ks ob = (Inr h, t', snd (Open ks ob))"
    by blast
  note sp = Add_spec[OF assms a]
  have "h \<noteq> 0" using sp(7) ht_invD(7)[OF assms] by auto
  with True a sp show ?thesis by auto
qed (simp add: Add_def)

theorem add_issues_fresh_handle_witness:
  "\<exists>h t'. Add (snd (KHandleTable_Initialize KHandleTable_new 5))
      \<lparr>m_ref_count = (\<lambda>_. 1), destroyed = [], registered_in_use_objects = {}\<rparr> 42 =
      (Inr h, t', snd (Open \<lparr>m_ref_count = (\<lambda>_. 1), destroyed = [],
        registered_in_use_objects = {}\<rparr> 42)) \<and> GetObjectImpl t' h = Some 42"
proof -
  let ?t = "snd (KHandleTable_Initialize KHandleTable_new 5)"
  have inv: "ht_inv ?t" and sz: "m_table_size ?t = 5" "m_count ?t = 0"
    using ht_inv_Initialize[of KHandleTable_new 5] by (simp_all add: KHandleTable_new_def)
  from add_issues_fresh_handle[OF inv, of "\<lparr>m_ref_count = (\<lambda>_. 1), destroyed = [],
      registered_in_use_objects = {}\<rparr>" 42] sz show ?thesis by auto
qed

text \<open>\<open>Remove\<close> succeeds exactly on handles that name an object; it then unregisters and
  closes that object, forgets this handle and no other, and removing the same handle again fails.
  On any other value, pseudo-handles included, it returns false and changes nothing.\<close>

theorem remove_forgets_exactly_one_handle:
  assumes "ht_inv t"
  shows "case GetObjectImpl t h of
      None \<Rightarrow> Remove t ks h = (False, t, ks)
    | Some ob \<Rightarrow> \<exists>t'. Remove t ks h = (True, t', Close (UnregisterInUseObject ks ob) ob) \<and>
        ht_inv t' \<and> GetObjectImpl t' = (GetObjectImpl t)(h := None) \<and> m_count t' = m_count t - 1 \<and>
        fst (Remove t' ks h) = False"
proof (cases "GetObjectImpl t h")
  case None
  with Remove_spec[OF assms, of h ks] show ?thesis by auto
next
  case (Some ob)
  with Remove_spec[OF assms, of h ks] obtain t' where
    r: "Remove t ks h = (True, t', Close (UnregisterInUseObject ks ob) ob)" "ht_inv t'"
      "GetObjectImpl t' = (GetObjectImpl t)(h := None)" "m_count t' = m_count t - 1" by auto
  have "table_delete (t', ks) h = None"
    using ht.delete_again[of "(t, ks)" h "(t', Close (UnregisterInUseObject ks ob) ob)"]
      assms r ht.delete_defined[of "(t', ks)" h] by (simp add: table_delete_def)
  then have "fst (Remove t' ks h) = False"
    by (auto simp: table_delete_def split: prod.splits bool.splits)
  with Some r show ?thesis by auto
qed

theorem remove_forgets_exactly_one_handle_witness:
  "case GetObjectImpl (snd (KHandleTable_Initialize KHandleTable_new 5)) CurrentProcess of
      None \<Rightarrow> fst (Remove (snd (KHandleTable_Initialize KHandleTable_new 5))
        \<lparr>m_ref_count = (\<lambda>_. 1), destroyed = [], registered_in_use_objects = {}\<rparr> CurrentProcess) = False
    | Some ob \<Rightarrow> False"
proof -
  let ?t = "snd (KHandleTable_Initialize KHandleTable_new 5)"
  have inv: "ht_inv ?t"
    using ht_inv_Initialize[of KHandleTable_new 5] by (simp_all add: KHandleTable_new_def)
  have n: "GetObjectImpl ?t CurrentProcess = None"
    using pseudo_reserved[of CurrentProcess] by (simp add: GetObjectImpl_def IsPseudoHandle_def)
  from remove_forgets_exactly_one_handle[OF inv, where h = CurrentProcess and
      ks = "\<lparr>m_ref_count = (\<lambda>_. 1), destroyed = [], registered_in_use_objects = {}\<rparr>"] n
  show ?thesis by simp
qed

text \<open>C28: a handle value is not reused while up to 32767 handles are issued: all handles that
  \<open>Add\<close> and \<open>Reserve\<close> return during such a run are different, whatever entries are freed
  and taken again in between, so a stale handle cannot come to name another object.\<close>

theorem handles_not_reused:
  assumes "ht_inv t" and "ht_run_ok (t, ks) ops" and "length (ht_issued (t, ks) ops) \<le> 32767"
  shows "distinct (ht_issued (t, ks) ops)"
  using issued_distinct[of "(t, ks)" ops] assms by simp

theorem handles_not_reused_witness:
  "distinct (ht_issued (snd (KHandleTable_Initialize KHandleTable_new 1),
     \<lparr>m_ref_count = (\<lambda>_. 1), destroyed = [], registered_in_use_objects = {}\<rparr>)
     [HAdd 3, HRemove (EncodeHandle 0 1), HAdd 4])"
proof (rule handles_not_reused)
  show "ht_inv (snd (KHandleTable_Initialize KHandleTable_new 1))"
    using ht_inv_Initialize[of KHandleTable_new 1] by (simp add: KHandleTable_new_def)
  show "length (ht_issued (snd (KHandleTable_Initialize KHandleTable_new 1),
     \<lparr>m_ref_count = (\<lambda>_. 1), destroyed = [], registered_in_use_objects = {}\<rparr>)
     [HAdd 3, HRemove (EncodeHandle 0 1), HAdd 4]) \<le> 32767"
    by (rule order_trans[OF length_ht_issued]) simp
qed simp

text \<open>reserving an entry and registering an object in it later gives the same handle, the
  same table and the same reference counts as adding the object at once.\<close>

theorem reserve_register_is_add:
  assumes "ht_inv t" and "KHandleTable_Reserve t = (Inr h, t1)"
  shows "Add t ks ob = (Inr h, Register t1 ks h ob)"
proof -
  have c: "m_count t < m_table_size t"
    using assms(2) by (auto simp: KHandleTable_Reserve_def split: if_splits)
  obtain x where hd: "m_free_head_index t = int x" and xM: "x < m_table_size t" "x < MaxTableSize"
    using free_head[OF assms(1) c] by metis
  have "m_next_linear_id t < 32768" using ht_invD(8)[OF assms(1)] by simp
  with xM have pk: "pack_index h = x" "pack_linear_id h = m_next_linear_id t"
    and t1: "t1 = alloc_state t x" "h = EncodeHandle x (m_next_linear_id t)"
    using assms(2) pack_EncodeHandle[of x "m_next_linear_id t"]
    unfolding KHandleTable_Reserve_eq[OF assms(1) c hd] by auto
  show ?thesis
    unfolding Add_eq[OF assms(1) c hd] Register_def t1(1)
    using xM pk by (simp add: Let_def alloc_state_def t1(2)[symmetric])
qed

theorem reserve_register_is_add_witness:
  "\<exists>h t1. KHandleTable_Reserve (snd (KHandleTable_Initialize KHandleTable_new 3)) = (Inr h, t1) \<and>
     Add (snd (KHandleTable_Initialize KHandleTable_new 3))
       \<lparr>m_ref_count = (\<lambda>_. 1), destroyed = [], registered_in_use_objects = {}\<rparr> 9
     = (Inr h, Register t1 \<lparr>m_ref_count = (\<lambda>_. 1), destroyed = [],
          registered_in_use_objects = {}\<rparr> h 9)"
proof -
  let ?t = "snd (KHandleTable_Initialize KHandleTable_new 3)"
  have inv: "ht_inv ?t" and sz: "m_table_size ?t = 3" "m_count ?t = 0"
    using ht_inv_Initialize[of KHandleTable_new 3] by (simp_all add: KHandleTable_new_def)
  have c: "m_count ?t < m_table_size ?t" using sz by simp
  obtain x where "m_free_head_index ?t = int x" using free_head[OF inv c] by metis
  from KHandleTable_Reserve_eq[OF inv c this] reserve_register_is_add[OF inv] show ?thesis by blast
qed

text \<open>\<open>GetMultipleObjects\<close> is all or nothing: it succeeds exactly when every handle
  names an object of the wanted class, and then returns those objects in order with one more
  reference each; otherwise every reference it opened is closed again and no object is
  destroyed.\<close>

theorem get_multiple_objects_atomic:
  assumes "\<forall>h \<in> set hs. \<forall>ob. GetObjectImpl t h = Some ob \<longrightarrow> refs_ok ks (length hs) ob"
    and "GetMultipleObjects is_a t ks hs = (ok, out, ks')"
  shows "ok = (\<forall>h \<in> set hs. \<exists>ob. GetObjectImpl t h = Some ob \<and> is_a ob)
    \<and> (if ok then map Some out = map (GetObjectImpl t) hs
           \<and> (\<forall>ob. m_ref_count ks' ob = m_ref_count ks ob + count_list out ob)
           \<and> destroyed ks' = destroyed ks
       else ks' = ks)"
proof -
  obtain out2 ks2 where o: "open_handles is_a t ks hs = (out2, ks2)" by force
  note sp = open_handles_spec[OF assms(1) o]
  from sp(2) obtain n where n: "n \<le> length hs" "map Some out2 = map (GetObjectImpl t) (take n hs)"
    "n < length hs \<longrightarrow> (\<forall>ob. GetObjectImpl t (hs ! n) = Some ob \<longrightarrow> \<not> is_a ob)"
    "\<forall>h \<in> set (take n hs). \<exists>ob. GetObjectImpl t h = Some ob \<and> is_a ob" by blast
  have len: "length out2 = n" using arg_cong[OF n(2), of length] n(1) by simp
  show ?thesis
  proof (cases "n = length hs")
    case True
    with assms(2) o len sp(1) n show ?thesis
      by (auto simp: GetMultipleObjects_def add_refs_def)
  next
    case False
    then have lt: "n < length hs" using n(1) by simp
    have "refs_ok ks (length out2) x" if "x \<in> set out2" for x
    proof -
      from that have "Some x \<in> set (map (GetObjectImpl t) (take n hs))" using n(2)[symmetric] by simp
      then obtain h where "h \<in> set hs" "GetObjectImpl t h = Some x" by (auto dest: in_set_takeD)
      then show ?thesis using assms(1) n(1) len by (fastforce simp: refs_ok_def)
    qed
    then have "fold (\<lambda>ob k. Close k ob) out2 ks2 = add_refs ks []"
      unfolding sp(1) by (intro fold_Close_refs) blast
    moreover have "hs ! n \<in> set hs" using lt by simp
    ultimately show ?thesis
      using assms(2) o len lt n(3) by (auto simp: GetMultipleObjects_def add_refs_def)
  qed
qed

theorem get_multiple_objects_atomic_witness:
  "GetMultipleObjects (\<lambda>_. True) KHandleTable_new
     \<lparr>m_ref_count = (\<lambda>_. 1), destroyed = [], registered_in_use_objects = {}\<rparr> [3]
   = (False, [], \<lparr>m_ref_count = (\<lambda>_. 1), destroyed = [], registered_in_use_objects = {}\<rparr>)"
proof -
  let ?ks = "\<lparr>m_ref_count = (\<lambda>_::nat. 1::nat), destroyed = [], registered_in_use_objects = {}\<rparr>"
  obtain ok out ks' where g: "GetMultipleObjects (\<lambda>_. True) KHandleTable_new ?ks [3] = (ok, out, ks')"
    by (metis prod_cases3)
  have none: "GetObjectImpl KHandleTable_new 3 = None"
    by (simp add: GetObjectImpl_def IsValidHandle_def KHandleTable_new_def Let_def)
  then have "out = []" using g by (simp add: GetMultipleObjects_def)
  with get_multiple_objects_atomic[OF _ g] none g show ?thesis by simp
qed

end
