(* ===== verification/K_Memory_Block.thy ===== *)
theory K_Memory_Block
  imports Yuzu_Prelude
begin

text \<open>
  \<open>KMemoryBlock\<close> and the flag enumerations of
  \<open>src/core/hle/kernel/k_memory_block.h\<close>: memory states, permissions, attributes, and every
  operation on a single block (merge test, merge, property update, split, device sharing, IPC
  locking). Flag enumerations are words; the sixteen-bit counters are \<open>16 word\<close>, so that
  increments and decrements wrap as in the source. Addresses and page counts are natural
  numbers with 64-bit arithmetic.
\<close>

section \<open>Memory states\<close>

datatype SvcMemoryState =
    Free | Io | Static | Code | CodeData | Normal | Shared | Alias | AliasCode | AliasCodeData
  | Ipc | Stack | ThreadLocal | Transfered | SharedTransfered | SharedCode | Inaccessible
  | NonSecureIpc | NonDeviceIpc | Kernel | GeneratedCode | CodeOut | Coverage | Insecure

fun SvcMemoryState_value :: "SvcMemoryState \<Rightarrow> u32" where
  "SvcMemoryState_value Free = 0x00"
| "SvcMemoryState_value Io = 0x01"
| "SvcMemoryState_value Static = 0x02"
| "SvcMemoryState_value Code = 0x03"
| "SvcMemoryState_value CodeData = 0x04"
| "SvcMemoryState_value Normal = 0x05"
| "SvcMemoryState_value Shared = 0x06"
| "SvcMemoryState_value Alias = 0x07"
| "SvcMemoryState_value AliasCode = 0x08"
| "SvcMemoryState_value AliasCodeData = 0x09"
| "SvcMemoryState_value Ipc = 0x0A"
| "SvcMemoryState_value Stack = 0x0B"
| "SvcMemoryState_value ThreadLocal = 0x0C"
| "SvcMemoryState_value Transfered = 0x0D"
| "SvcMemoryState_value SharedTransfered = 0x0E"
| "SvcMemoryState_value SharedCode = 0x0F"
| "SvcMemoryState_value Inaccessible = 0x10"
| "SvcMemoryState_value NonSecureIpc = 0x11"
| "SvcMemoryState_value NonDeviceIpc = 0x12"
| "SvcMemoryState_value Kernel = 0x13"
| "SvcMemoryState_value GeneratedCode = 0x14"
| "SvcMemoryState_value CodeOut = 0x15"
| "SvcMemoryState_value Coverage = 0x16"
| "SvcMemoryState_value Insecure = 0x17"

type_synonym KMemoryState = u32

abbreviation (input) state_flag :: "nat \<Rightarrow> KMemoryState" where "state_flag n \<equiv> push_bit n 1"

definition FlagCanReprotect :: KMemoryState where "FlagCanReprotect = state_flag 8"
definition FlagCanDebug :: KMemoryState where "FlagCanDebug = state_flag 9"
definition FlagCanUseIpc :: KMemoryState where "FlagCanUseIpc = state_flag 10"
definition FlagCanUseNonDeviceIpc :: KMemoryState where "FlagCanUseNonDeviceIpc = state_flag 11"
definition FlagCanUseNonSecureIpc :: KMemoryState where "FlagCanUseNonSecureIpc = state_flag 12"
definition FlagMapped :: KMemoryState where "FlagMapped = state_flag 13"
definition FlagCode :: KMemoryState where "FlagCode = state_flag 14"
definition FlagCanAlias :: KMemoryState where "FlagCanAlias = state_flag 15"
definition FlagCanCodeAlias :: KMemoryState where "FlagCanCodeAlias = state_flag 16"
definition FlagCanTransfer :: KMemoryState where "FlagCanTransfer = state_flag 17"
definition FlagCanQueryPhysical :: KMemoryState where "FlagCanQueryPhysical = state_flag 18"
definition FlagCanDeviceMap :: KMemoryState where "FlagCanDeviceMap = state_flag 19"
definition FlagCanAlignedDeviceMap :: KMemoryState where "FlagCanAlignedDeviceMap = state_flag 20"
definition FlagCanIpcUserBuffer :: KMemoryState where "FlagCanIpcUserBuffer = state_flag 21"
definition FlagReferenceCounted :: KMemoryState where "FlagReferenceCounted = state_flag 22"
definition FlagCanMapProcess :: KMemoryState where "FlagCanMapProcess = state_flag 23"
definition FlagCanChangeAttribute :: KMemoryState where "FlagCanChangeAttribute = state_flag 24"
definition FlagCanCodeMemory :: KMemoryState where "FlagCanCodeMemory = state_flag 25"
definition FlagLinearMapped :: KMemoryState where "FlagLinearMapped = state_flag 26"

lemmas state_flag_defs =
  FlagCanReprotect_def FlagCanDebug_def FlagCanUseIpc_def FlagCanUseNonDeviceIpc_def
  FlagCanUseNonSecureIpc_def FlagMapped_def FlagCode_def FlagCanAlias_def FlagCanCodeAlias_def
  FlagCanTransfer_def FlagCanQueryPhysical_def FlagCanDeviceMap_def FlagCanAlignedDeviceMap_def
  FlagCanIpcUserBuffer_def FlagReferenceCounted_def FlagCanMapProcess_def
  FlagCanChangeAttribute_def FlagCanCodeMemory_def FlagLinearMapped_def

definition FlagsData :: KMemoryState where
  "FlagsData = FlagCanReprotect OR FlagCanUseIpc OR FlagCanUseNonDeviceIpc OR FlagCanUseNonSecureIpc
     OR FlagMapped OR FlagCanAlias OR FlagCanTransfer OR FlagCanQueryPhysical OR FlagCanDeviceMap
     OR FlagCanAlignedDeviceMap OR FlagCanIpcUserBuffer OR FlagReferenceCounted
     OR FlagCanChangeAttribute OR FlagLinearMapped"

definition FlagsCode :: KMemoryState where
  "FlagsCode = FlagCanDebug OR FlagCanUseIpc OR FlagCanUseNonDeviceIpc OR FlagCanUseNonSecureIpc
     OR FlagMapped OR FlagCode OR FlagCanQueryPhysical OR FlagCanDeviceMap
     OR FlagCanAlignedDeviceMap OR FlagReferenceCounted OR FlagLinearMapped"

definition FlagsMisc :: KMemoryState where
  "FlagsMisc = FlagMapped OR FlagReferenceCounted OR FlagCanQueryPhysical OR FlagCanDeviceMap
     OR FlagLinearMapped"

text \<open>The kernel state of each mapping kind; \<open>Alias\<close> has none since 1.0.0.\<close>

fun KMemoryState_of :: "SvcMemoryState \<Rightarrow> KMemoryState option" where
  "KMemoryState_of Free = Some (SvcMemoryState_value Free)"
| "KMemoryState_of Io = Some (SvcMemoryState_value Io OR FlagMapped OR FlagCanDeviceMap OR
     FlagCanAlignedDeviceMap)"
| "KMemoryState_of Static = Some (SvcMemoryState_value Static OR FlagMapped OR FlagCanQueryPhysical)"
| "KMemoryState_of Code = Some (SvcMemoryState_value Code OR FlagsCode OR FlagCanMapProcess)"
| "KMemoryState_of CodeData = Some (SvcMemoryState_value CodeData OR FlagsData OR FlagCanMapProcess
     OR FlagCanCodeMemory)"
| "KMemoryState_of Normal = Some (SvcMemoryState_value Normal OR FlagsData OR FlagCanCodeMemory)"
| "KMemoryState_of Shared = Some (SvcMemoryState_value Shared OR FlagMapped OR FlagReferenceCounted
     OR FlagLinearMapped)"
| "KMemoryState_of Alias = None"
| "KMemoryState_of AliasCode = Some (SvcMemoryState_value AliasCode OR FlagsCode OR
     FlagCanMapProcess OR FlagCanCodeAlias)"
| "KMemoryState_of AliasCodeData = Some (SvcMemoryState_value AliasCodeData OR FlagsData OR
     FlagCanMapProcess OR FlagCanCodeAlias OR FlagCanCodeMemory)"
| "KMemoryState_of Ipc = Some (SvcMemoryState_value Ipc OR FlagsMisc OR FlagCanAlignedDeviceMap OR
     FlagCanUseIpc OR FlagCanUseNonSecureIpc OR FlagCanUseNonDeviceIpc)"
| "KMemoryState_of Stack = Some (SvcMemoryState_value Stack OR FlagsMisc OR FlagCanAlignedDeviceMap
     OR FlagCanUseIpc OR FlagCanUseNonSecureIpc OR FlagCanUseNonDeviceIpc)"
| "KMemoryState_of ThreadLocal = Some (SvcMemoryState_value ThreadLocal OR FlagMapped OR
     FlagLinearMapped)"
| "KMemoryState_of Transfered = Some (SvcMemoryState_value Transfered OR FlagsMisc OR
     FlagCanAlignedDeviceMap OR FlagCanChangeAttribute OR FlagCanUseIpc OR FlagCanUseNonSecureIpc OR
     FlagCanUseNonDeviceIpc)"
| "KMemoryState_of SharedTransfered = Some (SvcMemoryState_value SharedTransfered OR FlagsMisc OR
     FlagCanAlignedDeviceMap OR FlagCanUseNonSecureIpc OR FlagCanUseNonDeviceIpc)"
| "KMemoryState_of SharedCode = Some (SvcMemoryState_value SharedCode OR FlagMapped OR
     FlagReferenceCounted OR FlagLinearMapped OR FlagCanUseNonSecureIpc OR FlagCanUseNonDeviceIpc)"
| "KMemoryState_of Inaccessible = Some (SvcMemoryState_value Inaccessible)"
| "KMemoryState_of NonSecureIpc = Some (SvcMemoryState_value NonSecureIpc OR FlagsMisc OR
     FlagCanAlignedDeviceMap OR FlagCanUseNonSecureIpc OR FlagCanUseNonDeviceIpc)"
| "KMemoryState_of NonDeviceIpc = Some (SvcMemoryState_value NonDeviceIpc OR FlagsMisc OR
     FlagCanUseNonDeviceIpc)"
| "KMemoryState_of Kernel = Some (SvcMemoryState_value Kernel OR FlagMapped)"
| "KMemoryState_of GeneratedCode = Some (SvcMemoryState_value GeneratedCode OR FlagMapped OR
     FlagReferenceCounted OR FlagCanDebug OR FlagLinearMapped)"
| "KMemoryState_of CodeOut = Some (SvcMemoryState_value CodeOut OR FlagMapped OR
     FlagReferenceCounted OR FlagLinearMapped)"
| "KMemoryState_of Coverage = Some (SvcMemoryState_value Coverage OR FlagMapped)"
| "KMemoryState_of Insecure = Some (SvcMemoryState_value Insecure OR FlagMapped OR
     FlagReferenceCounted OR FlagLinearMapped OR FlagCanChangeAttribute OR FlagCanDeviceMap OR
     FlagCanAlignedDeviceMap OR FlagCanUseNonSecureIpc OR FlagCanUseNonDeviceIpc)"

definition KMemoryState_Free :: KMemoryState where "KMemoryState_Free = 0"
definition KMemoryState_Mask :: KMemoryState where "KMemoryState_Mask = 0xFF"

section \<open>Permissions and attributes\<close>

type_synonym KMemoryPermission = u8

definition KernelShift :: nat where "KernelShift = 3"
definition Svc_Read :: u8 where "Svc_Read = 1"
definition Svc_Write :: u8 where "Svc_Write = 2"
definition Svc_Execute :: u8 where "Svc_Execute = 4"
definition KernelRead :: KMemoryPermission where "KernelRead = push_bit KernelShift Svc_Read"
definition KernelWrite :: KMemoryPermission where "KernelWrite = push_bit KernelShift Svc_Write"
definition KernelExecute :: KMemoryPermission where "KernelExecute = push_bit KernelShift Svc_Execute"
definition NotMapped :: KMemoryPermission where "NotMapped = push_bit (2 * KernelShift) 1"
definition UserRead :: KMemoryPermission where "UserRead = Svc_Read OR KernelRead"
definition UserWrite :: KMemoryPermission where "UserWrite = Svc_Write OR KernelWrite"
definition UserExecute :: KMemoryPermission where "UserExecute = Svc_Execute"
definition UserReadWrite :: KMemoryPermission where "UserReadWrite = UserRead OR UserWrite"
definition UserMask :: KMemoryPermission where "UserMask = Svc_Read OR Svc_Write OR Svc_Execute"
definition IpcLockChangeMask :: KMemoryPermission where
  "IpcLockChangeMask = NotMapped OR UserReadWrite"

lemmas perm_defs =
  KernelShift_def Svc_Read_def Svc_Write_def Svc_Execute_def KernelRead_def KernelWrite_def
  KernelExecute_def NotMapped_def UserRead_def UserWrite_def UserExecute_def UserReadWrite_def
  UserMask_def IpcLockChangeMask_def

definition ConvertToKMemoryPermission :: "u32 \<Rightarrow> KMemoryPermission" where
  "ConvertToKMemoryPermission perm =
     (let p = (ucast perm :: u8) in
      (p AND UserMask) OR KernelRead OR push_bit KernelShift (p AND UserWrite) OR
      (if perm = 0 then NotMapped else 0))"

type_synonym KMemoryAttribute = u8

definition Locked :: KMemoryAttribute where "Locked = 1"
definition IpcLocked :: KMemoryAttribute where "IpcLocked = 2"
definition DeviceShared :: KMemoryAttribute where "DeviceShared = 4"
definition Uncached :: KMemoryAttribute where "Uncached = 8"

type_synonym KMemoryBlockDisableMergeAttribute = u8

definition DM_Normal :: u8 where "DM_Normal = 1"
definition DM_DeviceLeft :: u8 where "DM_DeviceLeft = 2"
definition DM_IpcLeft :: u8 where "DM_IpcLeft = 4"
definition DM_Locked :: u8 where "DM_Locked = 8"
definition DM_DeviceRight :: u8 where "DM_DeviceRight = 16"
definition DM_AllLeft :: u8 where "DM_AllLeft = DM_Normal OR DM_DeviceLeft OR DM_IpcLeft OR DM_Locked"
definition DM_AllRight :: u8 where "DM_AllRight = DM_DeviceRight"

lemmas attr_defs = Locked_def IpcLocked_def DeviceShared_def Uncached_def
lemmas dm_defs =
  DM_Normal_def DM_DeviceLeft_def DM_IpcLeft_def DM_Locked_def DM_DeviceRight_def DM_AllLeft_def
  DM_AllRight_def

section \<open>Blocks\<close>

record KMemoryBlock =
  m_device_disable_merge_left_count :: u16
  m_device_disable_merge_right_count :: u16
  m_address :: nat
  m_num_pages :: nat
  m_memory_state :: KMemoryState
  m_ipc_lock_count :: u16
  m_device_use_count :: u16
  m_ipc_disable_merge_count :: u16
  m_permission :: KMemoryPermission
  m_original_permission :: KMemoryPermission
  m_attribute :: KMemoryAttribute
  m_disable_merge_attribute :: KMemoryBlockDisableMergeAttribute

definition GetAddress :: "KMemoryBlock \<Rightarrow> nat" where
  "GetAddress b = m_address b"

definition GetNumPages :: "KMemoryBlock \<Rightarrow> nat" where
  "GetNumPages b = m_num_pages b"

definition GetSize :: "KMemoryBlock \<Rightarrow> nat" where
  "GetSize b = mul64 (GetNumPages b) PageSize"

definition GetEndAddress :: "KMemoryBlock \<Rightarrow> nat" where
  "GetEndAddress b = add64 (GetAddress b) (GetSize b)"

definition GetLastAddress :: "KMemoryBlock \<Rightarrow> nat" where
  "GetLastAddress b = sub64 (GetEndAddress b) 1"

definition Compare :: "KMemoryBlock \<Rightarrow> KMemoryBlock \<Rightarrow> int" where
  "Compare lhs rhs =
     (if GetAddress lhs < GetAddress rhs then -1
      else if GetAddress lhs \<le> GetLastAddress rhs then 0
      else 1)"

definition KMemoryBlock_new ::
  "nat \<Rightarrow> nat \<Rightarrow> KMemoryState \<Rightarrow> KMemoryPermission \<Rightarrow> KMemoryAttribute \<Rightarrow> KMemoryBlock" where
  "KMemoryBlock_new addr np ms p attr =
     \<lparr>m_device_disable_merge_left_count = 0, m_device_disable_merge_right_count = 0,
      m_address = addr, m_num_pages = np, m_memory_state = ms, m_ipc_lock_count = 0,
      m_device_use_count = 0, m_ipc_disable_merge_count = 0, m_permission = p,
      m_original_permission = 0, m_attribute = attr, m_disable_merge_attribute = 0\<rparr>"

definition KMemoryBlock_Initialize ::
  "KMemoryBlock \<Rightarrow> nat \<Rightarrow> nat \<Rightarrow> KMemoryState \<Rightarrow> KMemoryPermission \<Rightarrow> KMemoryAttribute
    \<Rightarrow> KMemoryBlock" where
  "KMemoryBlock_Initialize b addr np ms p attr =
     b\<lparr>m_device_disable_merge_left_count := 0, m_device_disable_merge_right_count := 0,
       m_address := addr, m_num_pages := np, m_memory_state := ms, m_ipc_lock_count := 0,
       m_device_use_count := 0, m_permission := p, m_original_permission := 0,
       m_attribute := attr, m_disable_merge_attribute := 0\<rparr>"

definition HasProperties ::
  "KMemoryBlock \<Rightarrow> KMemoryState \<Rightarrow> KMemoryPermission \<Rightarrow> KMemoryAttribute \<Rightarrow> bool" where
  "HasProperties b s p a \<longleftrightarrow>
     m_memory_state b = s \<and> m_permission b = p \<and>
     m_attribute b OR (IpcLocked OR DeviceShared) = a OR (IpcLocked OR DeviceShared)"

definition HasSameProperties :: "KMemoryBlock \<Rightarrow> KMemoryBlock \<Rightarrow> bool" where
  "HasSameProperties b rhs \<longleftrightarrow>
     m_memory_state b = m_memory_state rhs \<and> m_permission b = m_permission rhs \<and>
     m_original_permission b = m_original_permission rhs \<and> m_attribute b = m_attribute rhs \<and>
     m_ipc_lock_count b = m_ipc_lock_count rhs \<and> m_device_use_count b = m_device_use_count rhs"

definition CanMergeWith :: "KMemoryBlock \<Rightarrow> KMemoryBlock \<Rightarrow> bool" where
  "CanMergeWith b rhs \<longleftrightarrow>
     HasSameProperties b rhs \<and> m_disable_merge_attribute b AND DM_AllRight = 0 \<and>
     m_disable_merge_attribute rhs AND DM_AllLeft = 0"

definition Contains :: "KMemoryBlock \<Rightarrow> nat \<Rightarrow> bool" where
  "Contains b addr \<longleftrightarrow> GetAddress b \<le> addr \<and> addr \<le> GetEndAddress b"

definition KMemoryBlock_Add :: "KMemoryBlock \<Rightarrow> KMemoryBlock \<Rightarrow> KMemoryBlock" where
  "KMemoryBlock_Add b added =
     b\<lparr>m_num_pages := add64 (m_num_pages b) (GetNumPages added),
       m_disable_merge_attribute := m_disable_merge_attribute b OR m_disable_merge_attribute added,
       m_device_disable_merge_right_count := m_device_disable_merge_right_count added\<rparr>"

definition KMemoryBlock_Update ::
  "KMemoryBlock \<Rightarrow> KMemoryState \<Rightarrow> KMemoryPermission \<Rightarrow> KMemoryAttribute \<Rightarrow> bool \<Rightarrow> u8 \<Rightarrow> u8
    \<Rightarrow> KMemoryBlock" where
  "KMemoryBlock_Update b s p a set_disable_merge_attr set_mask clear_mask =
     (let b1 = b\<lparr>m_memory_state := s, m_permission := p,
                 m_attribute := a OR (m_attribute b AND (IpcLocked OR DeviceShared))\<rparr>;
          b2 = (if set_disable_merge_attr \<and> set_mask \<noteq> 0
                then b1\<lparr>m_disable_merge_attribute := m_disable_merge_attribute b1 OR set_mask\<rparr>
                else b1)
      in if clear_mask \<noteq> 0
         then b2\<lparr>m_disable_merge_attribute := m_disable_merge_attribute b2 AND NOT clear_mask\<rparr>
         else b2)"

text \<open>\<open>Split\<close> fills a fresh block with the part below \<open>addr\<close> and keeps the rest.\<close>

definition Split :: "KMemoryBlock \<Rightarrow> nat \<Rightarrow> KMemoryBlock \<times> KMemoryBlock" where
  "Split b addr =
     (let np = sub64 addr (GetAddress b) div PageSize;
          block = \<lparr>m_device_disable_merge_left_count = m_device_disable_merge_left_count b,
                   m_device_disable_merge_right_count = 0,
                   m_address = m_address b, m_num_pages = np,
                   m_memory_state = m_memory_state b, m_ipc_lock_count = m_ipc_lock_count b,
                   m_device_use_count = m_device_use_count b,
                   m_ipc_disable_merge_count = m_ipc_disable_merge_count b,
                   m_permission = m_permission b,
                   m_original_permission = m_original_permission b,
                   m_attribute = m_attribute b,
                   m_disable_merge_attribute = m_disable_merge_attribute b AND DM_AllLeft\<rparr>
      in (block,
          b\<lparr>m_address := addr, m_num_pages := sub64 (m_num_pages b) np,
            m_ipc_disable_merge_count := 0, m_device_disable_merge_left_count := 0,
            m_disable_merge_attribute := m_disable_merge_attribute b AND DM_AllRight\<rparr>))"

section \<open>Device sharing and IPC locking\<close>

definition UpdateDeviceDisableMergeStateForShareLeft ::
  "KMemoryBlock \<Rightarrow> KMemoryPermission \<Rightarrow> bool \<Rightarrow> bool \<Rightarrow> KMemoryBlock" where
  "UpdateDeviceDisableMergeStateForShareLeft b new_perm left right =
     (if left then
        b\<lparr>m_disable_merge_attribute := m_disable_merge_attribute b OR DM_DeviceLeft,
          m_device_disable_merge_left_count := m_device_disable_merge_left_count b + 1\<rparr>
      else b)"

definition UpdateDeviceDisableMergeStateForShareRight ::
  "KMemoryBlock \<Rightarrow> KMemoryPermission \<Rightarrow> bool \<Rightarrow> bool \<Rightarrow> KMemoryBlock" where
  "UpdateDeviceDisableMergeStateForShareRight b new_perm left right =
     (if right then
        b\<lparr>m_disable_merge_attribute := m_disable_merge_attribute b OR DM_DeviceRight,
          m_device_disable_merge_right_count := m_device_disable_merge_right_count b + 1\<rparr>
      else b)"

definition UpdateDeviceDisableMergeStateForShare ::
  "KMemoryBlock \<Rightarrow> KMemoryPermission \<Rightarrow> bool \<Rightarrow> bool \<Rightarrow> KMemoryBlock" where
  "UpdateDeviceDisableMergeStateForShare b new_perm left right =
     UpdateDeviceDisableMergeStateForShareRight
       (UpdateDeviceDisableMergeStateForShareLeft b new_perm left right) new_perm left right"

definition ShareToDevice ::
  "KMemoryBlock \<Rightarrow> KMemoryPermission \<Rightarrow> bool \<Rightarrow> bool \<Rightarrow> KMemoryBlock" where
  "ShareToDevice b new_perm left right =
     (let b1 = b\<lparr>m_device_use_count := m_device_use_count b + 1,
                 m_attribute := m_attribute b OR DeviceShared\<rparr>
      in UpdateDeviceDisableMergeStateForShare b1 new_perm left right)"

definition UpdateDeviceDisableMergeStateForUnshareLeft ::
  "KMemoryBlock \<Rightarrow> KMemoryPermission \<Rightarrow> bool \<Rightarrow> bool \<Rightarrow> KMemoryBlock" where
  "UpdateDeviceDisableMergeStateForUnshareLeft b new_perm left right =
     (if left \<and> m_device_disable_merge_left_count b = 0 then b
      else
        let c1 = (if left then m_device_disable_merge_left_count b - 1
                  else m_device_disable_merge_left_count b);
            c2 = min c1 (m_device_use_count b);
            b1 = b\<lparr>m_device_disable_merge_left_count := c2\<rparr>
        in if c2 = 0
           then b1\<lparr>m_disable_merge_attribute := m_disable_merge_attribute b1 AND NOT DM_DeviceLeft\<rparr>
           else b1)"

definition UpdateDeviceDisableMergeStateForUnshareRight ::
  "KMemoryBlock \<Rightarrow> KMemoryPermission \<Rightarrow> bool \<Rightarrow> bool \<Rightarrow> KMemoryBlock" where
  "UpdateDeviceDisableMergeStateForUnshareRight b new_perm left right =
     (if right then
        let old = m_device_disable_merge_right_count b;
            b1 = b\<lparr>m_device_disable_merge_right_count := old - 1\<rparr>
        in if old = 1
           then b1\<lparr>m_disable_merge_attribute := m_disable_merge_attribute b1 AND NOT DM_DeviceRight\<rparr>
           else b1
      else b)"

definition UpdateDeviceDisableMergeStateForUnshare ::
  "KMemoryBlock \<Rightarrow> KMemoryPermission \<Rightarrow> bool \<Rightarrow> bool \<Rightarrow> KMemoryBlock" where
  "UpdateDeviceDisableMergeStateForUnshare b new_perm left right =
     UpdateDeviceDisableMergeStateForUnshareRight
       (UpdateDeviceDisableMergeStateForUnshareLeft b new_perm left right) new_perm left right"

definition device_release :: "KMemoryBlock \<Rightarrow> KMemoryBlock" where
  "device_release b =
     (let old = m_device_use_count b;
          b1 = b\<lparr>m_device_use_count := old - 1\<rparr>
      in if old = 1 then b1\<lparr>m_attribute := m_attribute b1 AND NOT DeviceShared\<rparr> else b1)"

definition UnshareToDevice ::
  "KMemoryBlock \<Rightarrow> KMemoryPermission \<Rightarrow> bool \<Rightarrow> bool \<Rightarrow> KMemoryBlock" where
  "UnshareToDevice b new_perm left right =
     UpdateDeviceDisableMergeStateForUnshare (device_release b) new_perm left right"

definition UnshareToDeviceRight ::
  "KMemoryBlock \<Rightarrow> KMemoryPermission \<Rightarrow> bool \<Rightarrow> bool \<Rightarrow> KMemoryBlock" where
  "UnshareToDeviceRight b new_perm left right =
     UpdateDeviceDisableMergeStateForUnshareRight (device_release b) new_perm left right"

definition LockForIpc ::
  "KMemoryBlock \<Rightarrow> KMemoryPermission \<Rightarrow> bool \<Rightarrow> bool \<Rightarrow> KMemoryBlock" where
  "LockForIpc b new_perm left right =
     (let n = m_ipc_lock_count b + 1;
          b1 = b\<lparr>m_ipc_lock_count := n\<rparr>;
          b2 = (if n = 1 then
                  b1\<lparr>m_original_permission := m_permission b1,
                     m_permission := (new_perm AND IpcLockChangeMask) OR
                       (m_permission b1 AND NOT IpcLockChangeMask)\<rparr>
                else b1);
          b3 = b2\<lparr>m_attribute := m_attribute b2 OR IpcLocked\<rparr>
      in if left then
           b3\<lparr>m_disable_merge_attribute := m_disable_merge_attribute b3 OR DM_IpcLeft,
              m_ipc_disable_merge_count := m_ipc_disable_merge_count b3 + 1\<rparr>
         else b3)"

definition UnlockForIpc ::
  "KMemoryBlock \<Rightarrow> KMemoryPermission \<Rightarrow> bool \<Rightarrow> bool \<Rightarrow> KMemoryBlock" where
  "UnlockForIpc b new_perm left right =
     (let old = m_ipc_lock_count b;
          b1 = b\<lparr>m_ipc_lock_count := old - 1\<rparr>;
          b2 = (if old = 1 then
                  b1\<lparr>m_permission := m_original_permission b1, m_original_permission := 0,
                     m_attribute := m_attribute b1 AND NOT IpcLocked\<rparr>
                else b1)
      in if left then
           let oldm = m_ipc_disable_merge_count b2;
               b3 = b2\<lparr>m_ipc_disable_merge_count := oldm - 1\<rparr>
           in if oldm = 1
              then b3\<lparr>m_disable_merge_attribute := m_disable_merge_attribute b3 AND NOT DM_IpcLeft\<rparr>
              else b3
         else b2)"

section \<open>What user mode sees\<close>

record SvcMemoryInfo =
  base_address :: nat
  info_size :: nat
  info_state :: u32
  info_attribute :: u32
  info_permission :: u32
  ipc_count :: u32
  device_count :: u32

definition GetSvcMemoryInfo :: "KMemoryBlock \<Rightarrow> SvcMemoryInfo" where
  "GetSvcMemoryInfo b =
     \<lparr>base_address = GetAddress b, info_size = GetSize b,
      info_state = m_memory_state b AND KMemoryState_Mask,
      info_attribute = ucast (m_attribute b), info_permission = ucast (m_permission b AND UserMask),
      ipc_count = ucast (m_ipc_lock_count b), device_count = ucast (m_device_use_count b)\<rparr>"

section \<open>Lemmas on flags\<close>

lemma dm_disjoint: "DM_AllLeft AND DM_AllRight = 0"
  by (simp add: dm_defs)

lemma and_and_zero: "(x :: 'a::len word) AND y = 0 \<Longrightarrow> (z AND x) AND y = 0"
  by (simp add: and.assoc)

lemma or_and_zero_iff: "((x :: 'a::len word) OR y) AND m = 0 \<longleftrightarrow> x AND m = 0 \<and> y AND m = 0"
  by (auto simp: bit_eq_iff bit_simps)

lemma and_or_split_id: "x AND NOT (m OR n) = 0 \<Longrightarrow> (x AND m) OR (x AND n) = (x :: 'a::len word)"
  by (auto simp: bit_eq_iff bit_simps)

lemma or_and_not_restore: "x AND m = 0 \<Longrightarrow> (x OR m) AND NOT m = (x :: 'a::len word)"
  by (auto simp: bit_eq_iff bit_simps)

lemma or_absorb: "x AND m = m \<Longrightarrow> x OR m = (x :: 'a::len word)"
  by (auto simp: bit_eq_iff bit_simps)

lemma word_one_eq: "(n :: 'a::len word) + 1 = 1 \<longleftrightarrow> n = 0"
  by simp

section \<open>Splitting and merging\<close>

definition valid_dm :: "KMemoryBlock \<Rightarrow> bool" where
  "valid_dm b \<longleftrightarrow> m_disable_merge_attribute b AND NOT (DM_AllLeft OR DM_AllRight) = 0"

lemma Split_CanMergeWith: "Split b addr = (l, r) \<Longrightarrow> CanMergeWith l r"
  by (auto simp: Split_def Let_def CanMergeWith_def HasSameProperties_def and.assoc dm_disjoint
      and.commute[of DM_AllRight DM_AllLeft])

lemma Split_pages:
  assumes "Split b addr = (l, r)" "m_address b < addr" "addr < m_address b + m_num_pages b * PageSize"
    and "PageSize dvd (addr - m_address b)" "addr < two64" "m_num_pages b < two64"
  shows "m_address l = m_address b" "m_address r = addr"
    "m_address l + m_num_pages l * PageSize = addr"
    "m_num_pages l + m_num_pages r = m_num_pages b" "0 < m_num_pages l" "0 < m_num_pages r"
proof -
  let ?n = "(addr - m_address b) div PageSize"
  have sub: "sub64 addr (m_address b) = addr - m_address b"
    using assms(2,5) by (simp add: sub64_eq)
  have mult: "?n * PageSize = addr - m_address b" using assms(4) by simp
  have "?n * PageSize < m_num_pages b * PageSize" unfolding mult using assms(2,3) by linarith
  then have lt: "?n < m_num_pages b" by simp
  then have sub2: "sub64 (m_num_pages b) ?n = m_num_pages b - ?n"
    using assms(6) by (simp add: sub64_eq)
  have lr: "m_num_pages l = ?n" "m_num_pages r = m_num_pages b - ?n"
    using assms(1) sub sub2 by (auto simp: Split_def Let_def GetAddress_def)
  show "m_address l = m_address b" "m_address r = addr"
    using assms(1) by (auto simp: Split_def Let_def)
  with lr mult lt assms(2) show "m_address l + m_num_pages l * PageSize = addr"
    "m_num_pages l + m_num_pages r = m_num_pages b" "0 < m_num_pages r" by auto
  have "0 < addr - m_address b" using assms(2) by simp
  with mult show "0 < m_num_pages l" unfolding lr by (cases "?n = 0") auto
qed

lemma Split_props:
  assumes "Split b addr = (l, r)"
  shows "HasSameProperties l b" "HasSameProperties r b"
    "m_disable_merge_attribute l = m_disable_merge_attribute b AND DM_AllLeft"
    "m_disable_merge_attribute r = m_disable_merge_attribute b AND DM_AllRight"
    "m_device_disable_merge_right_count r = m_device_disable_merge_right_count b"
    "m_device_disable_merge_left_count l = m_device_disable_merge_left_count b"
    "m_ipc_disable_merge_count l = m_ipc_disable_merge_count b"
  using assms by (auto simp: Split_def Let_def HasSameProperties_def)

section \<open>Consistency of the counters with the flags\<close>

text \<open>What the assertions of the lock operations expect of a block.\<close>

definition ipc_consistent :: "KMemoryBlock \<Rightarrow> bool" where
  "ipc_consistent b \<longleftrightarrow>
     (if m_ipc_lock_count b = 0
      then m_attribute b AND IpcLocked = 0 \<and> m_original_permission b = 0
      else m_attribute b AND IpcLocked = IpcLocked) \<and>
     (if m_ipc_disable_merge_count b = 0
      then m_disable_merge_attribute b AND DM_IpcLeft = 0
      else m_disable_merge_attribute b AND DM_IpcLeft = DM_IpcLeft)"

definition device_consistent :: "KMemoryBlock \<Rightarrow> bool" where
  "device_consistent b \<longleftrightarrow>
     (if m_device_use_count b = 0
      then m_attribute b AND DeviceShared = 0
      else m_attribute b AND DeviceShared = DeviceShared) \<and>
     m_device_disable_merge_left_count b \<le> m_device_use_count b \<and>
     (if m_device_disable_merge_left_count b = 0
      then m_disable_merge_attribute b AND DM_DeviceLeft = 0
      else m_disable_merge_attribute b AND DM_DeviceLeft = DM_DeviceLeft) \<and>
     (if m_device_disable_merge_right_count b = 0
      then m_disable_merge_attribute b AND DM_DeviceRight = 0
      else m_disable_merge_attribute b AND DM_DeviceRight = DM_DeviceRight)"

lemma u16_inc_nonzero: "(n :: u16) \<noteq> -1 \<Longrightarrow> n + 1 \<noteq> 0"
  by (metis add_eq_0_iff2)

lemma or_and_not_frame:
  "(x :: 'a::len word) AND m = 0 \<Longrightarrow> x AND NOT m = x"
  by (auto simp: bit_eq_iff bit_simps)

lemma or_or_and_not:
  "x AND m = 0 \<Longrightarrow> m AND n = 0 \<Longrightarrow> ((x OR m) OR n) AND NOT m = x OR (n :: 'a::len word)"
  "x AND m = 0 \<Longrightarrow> m AND n = 0 \<Longrightarrow> (x OR n) AND NOT m = x OR n"
  by (auto simp: bit_eq_iff bit_simps)

lemma dm_device_disjoint: "DM_DeviceLeft AND DM_DeviceRight = 0"
  by (simp add: dm_defs)

section \<open>Properties\<close>

text \<open>Every kernel memory state carries its user-visible state in the low byte: reporting
  a block through \<open>GetSvcMemoryInfo\<close> recovers exactly the mapping kind the state was built
  from, and distinct kinds have distinct kernel states.\<close>

theorem svc_info_recovers_state:
  assumes "KMemoryState_of k = Some st"
  shows "info_state (GetSvcMemoryInfo (KMemoryBlock_new addr np st p a)) = SvcMemoryState_value k
    \<and> (\<forall>k'. KMemoryState_of k' = Some st \<longrightarrow> k' = k)"
proof -
  have low: "st' AND KMemoryState_Mask = SvcMemoryState_value k'" if "KMemoryState_of k' = Some st'"
    for k' st'
    using that
    by (cases k') (auto simp: KMemoryState_Mask_def FlagsData_def FlagsCode_def FlagsMisc_def
        state_flag_defs)
  have inj: "k' = k" if "SvcMemoryState_value k' = SvcMemoryState_value k" for k'
    using that by (cases k; cases k'; simp)
  have "k' = k" if "KMemoryState_of k' = Some st" for k'
    using low[OF that] low[OF assms] by (intro inj) simp
  then show ?thesis
    using low[OF assms] by (simp add: GetSvcMemoryInfo_def KMemoryBlock_new_def)
qed

theorem svc_info_recovers_state_witness:
  "info_state (GetSvcMemoryInfo (KMemoryBlock_new 4096 1 0x77EBD05 0 0)) = 5"
proof -
  have "KMemoryState_of Normal = Some 0x77EBD05"
    by (simp add: FlagsData_def state_flag_defs)
  from svc_info_recovers_state[OF this, of 4096 1 0 0] show ?thesis by simp
qed

text \<open>The composed state constants have the values the source asserts statically.\<close>

lemma memory_state_constants:
  "map KMemoryState_of [Free, Io, Static, Code, CodeData, Normal, Shared, AliasCode,
     AliasCodeData, Ipc, Stack, ThreadLocal, Transfered, SharedTransfered, SharedCode, Inaccessible,
     NonSecureIpc, NonDeviceIpc, Kernel, GeneratedCode, CodeOut, Coverage, Insecure]
   = map Some [0x00000000, 0x00182001, 0x00042002, 0x04DC7E03, 0x07FEBD04, 0x077EBD05, 0x04402006,
     0x04DD7E08, 0x07FFBD09, 0x045C3C0A, 0x045C3C0B, 0x0400200C, 0x055C3C0D, 0x045C380E, 0x0440380F,
     0x00000010, 0x045C3811, 0x044C2812, 0x00002013, 0x04402214, 0x04402015, 0x00002016, 0x05583817]"
  by (simp add: FlagsData_def FlagsCode_def FlagsMisc_def state_flag_defs)

text \<open>Splitting a block at a page boundary inside it and merging the two halves again
  gives the block back, and the halves always satisfy the merge test.\<close>

theorem split_then_merge:
  assumes "m_address b < addr" and "addr < m_address b + m_num_pages b * PageSize"
    and "PageSize dvd (addr - m_address b)" and "addr < two64" and "m_num_pages b < two64"
    and "valid_dm b"
  shows "case Split b addr of (l, r) \<Rightarrow> CanMergeWith l r \<and> KMemoryBlock_Add l r = b"
proof -
  obtain l r where s: "Split b addr = (l, r)" by force
  note pg = Split_pages[OF s assms(1-5)]
  note pr = Split_props[OF s]
  have np: "add64 (m_num_pages l) (m_num_pages r) = m_num_pages b"
    using pg(4) assms(5) by (simp add: add64_eq)
  have dm: "m_disable_merge_attribute l OR m_disable_merge_attribute r = m_disable_merge_attribute b"
    unfolding pr(3,4) using assms(6) by (intro and_or_split_id) (simp add: valid_dm_def)
  have "KMemoryBlock_Add l r = b"
    unfolding KMemoryBlock_Add_def
    using np dm pg(1) pr by (intro KMemoryBlock.equality)
      (simp_all add: GetNumPages_def HasSameProperties_def)
  then show ?thesis using s Split_CanMergeWith[OF s] by simp
qed

theorem split_then_merge_witness:
  "case Split (KMemoryBlock_new 8192 3 0 0 0) 12288 of
     (l, r) \<Rightarrow> KMemoryBlock_Add l r = KMemoryBlock_new 8192 3 0 0 0"
  using split_then_merge[of "KMemoryBlock_new 8192 3 0 0 0" 12288]
  by (simp add: KMemoryBlock_new_def PageSize_def two64_def valid_dm_def split: prod.splits)

text \<open>Unlocking a block for IPC undoes locking it: permissions, attributes, lock counts and
  merge restrictions are exactly what they were, whether or not the block was locked before.\<close>

theorem ipc_lock_unlock:
  assumes "ipc_consistent b" and "m_ipc_lock_count b \<noteq> -1" and "m_ipc_disable_merge_count b \<noteq> -1"
  shows "UnlockForIpc (LockForIpc b perm left right) perm left right = b"
proof -
  have lock: "m_ipc_lock_count b \<noteq> 0 \<Longrightarrow> m_attribute b OR IpcLocked = m_attribute b"
    and unlock: "m_ipc_lock_count b = 0 \<Longrightarrow>
      (m_attribute b OR IpcLocked) AND NOT IpcLocked = m_attribute b"
    using assms(1) by (auto simp: ipc_consistent_def or_absorb or_and_not_restore)
  have lm: "m_ipc_disable_merge_count b \<noteq> 0 \<Longrightarrow>
      m_disable_merge_attribute b OR DM_IpcLeft = m_disable_merge_attribute b"
    and um: "m_ipc_disable_merge_count b = 0 \<Longrightarrow>
      (m_disable_merge_attribute b OR DM_IpcLeft) AND NOT DM_IpcLeft = m_disable_merge_attribute b"
    using assms(1) by (auto simp: ipc_consistent_def or_absorb or_and_not_restore split: if_splits)
  have orig: "m_ipc_lock_count b = 0 \<Longrightarrow> m_original_permission b = 0"
    using assms(1) by (auto simp: ipc_consistent_def)
  show ?thesis
    by (intro KMemoryBlock.equality; cases "m_ipc_lock_count b = 0";
        cases "m_ipc_disable_merge_count b = 0"; cases left)
       (simp_all add: LockForIpc_def UnlockForIpc_def Let_def lock unlock lm um orig)
qed

theorem ipc_lock_unlock_witness:
  "UnlockForIpc (LockForIpc (KMemoryBlock_new 4096 2 0x77EBD05 UserReadWrite 0) UserRead True False)
     UserRead True False = KMemoryBlock_new 4096 2 0x77EBD05 UserReadWrite 0"
  by (rule ipc_lock_unlock) (simp_all add: ipc_consistent_def KMemoryBlock_new_def)

text \<open>Unsharing a block from a device undoes sharing it, merge restrictions included.\<close>

theorem device_share_unshare:
  assumes "device_consistent b" and "m_device_use_count b \<noteq> -1"
    and "m_device_disable_merge_right_count b \<noteq> -1"
  shows "UnshareToDevice (ShareToDevice b perm left right) perm left right = b"
proof -
  have left: "m_device_disable_merge_left_count b \<le> m_device_use_count b"
    using assms(1) by (simp add: device_consistent_def)
  have nmax: "m_device_disable_merge_left_count b \<noteq> -1"
    using left assms(2) by (metis antisym word_order.extremum)
  have inc: "m_device_disable_merge_left_count b + 1 \<noteq> 0"
    by (rule u16_inc_nonzero[OF nmax])
  have mn: "min (m_device_disable_merge_left_count b) (m_device_use_count b)
      = m_device_disable_merge_left_count b"
    using left by (simp add: min_def)
  have lu: "m_device_use_count b = 0 \<Longrightarrow> m_device_disable_merge_left_count b = 0"
    using left by simp
  have sh: "m_device_use_count b \<noteq> 0 \<Longrightarrow> m_attribute b OR DeviceShared = m_attribute b"
    and un: "m_device_use_count b = 0 \<Longrightarrow>
      (m_attribute b OR DeviceShared) AND NOT DeviceShared = m_attribute b"
    using assms(1) by (auto simp: device_consistent_def or_absorb or_and_not_restore)
  let ?dm = "m_disable_merge_attribute b"
  have l1: "m_device_disable_merge_left_count b \<noteq> 0 \<Longrightarrow> ?dm OR DM_DeviceLeft = ?dm"
    and l0: "m_device_disable_merge_left_count b = 0 \<Longrightarrow> ?dm AND DM_DeviceLeft = 0"
    and r1: "m_device_disable_merge_right_count b \<noteq> 0 \<Longrightarrow> ?dm OR DM_DeviceRight = ?dm"
    and r0: "m_device_disable_merge_right_count b = 0 \<Longrightarrow> ?dm AND DM_DeviceRight = 0"
    using assms(1) by (auto simp: device_consistent_def or_absorb split: if_splits)
  note w1 = or_and_not_restore[of _ DM_DeviceLeft] or_and_not_restore[of _ DM_DeviceRight]
    or_and_not_frame[of _ DM_DeviceLeft] or_or_and_not[OF _ dm_device_disjoint]
  show ?thesis
    by (intro KMemoryBlock.equality; cases "m_device_use_count b = 0";
        cases "m_device_disable_merge_left_count b = 0";
        cases "m_device_disable_merge_right_count b = 0"; cases left; cases right)
       (simp_all add: ShareToDevice_def UnshareToDevice_def device_release_def Let_def
         UpdateDeviceDisableMergeStateForShare_def UpdateDeviceDisableMergeStateForShareLeft_def
         UpdateDeviceDisableMergeStateForShareRight_def UpdateDeviceDisableMergeStateForUnshare_def
         UpdateDeviceDisableMergeStateForUnshareLeft_def
         UpdateDeviceDisableMergeStateForUnshareRight_def sh un inc mn lu l0 l1 r0 r1 w1)
qed

theorem device_share_unshare_witness:
  "UnshareToDevice (ShareToDevice (KMemoryBlock_new 4096 2 0x77EBD05 UserReadWrite 0) 0 True True)
     0 True True = KMemoryBlock_new 4096 2 0x77EBD05 UserReadWrite 0"
  by (rule device_share_unshare) (simp_all add: device_consistent_def KMemoryBlock_new_def)

end
