(* ===== verification/K_Dynamic_Slab_Heap.thy ===== *)
theory K_Dynamic_Slab_Heap
  imports Yuzu_Prelude
begin

text \<open>
  The slab heap the kernel's memory blocks come from: the free list of
  \<open>src/core/hle/kernel/k_slab_heap.h\<close>, \<open>KDynamicSlabHeap\<close> of
  \<open>src/core/hle/kernel/k_dynamic_slab_heap.h\<close> and \<open>KDynamicResourceManager\<close> of
  \<open>src/core/hle/kernel/k_dynamic_resource_manager.h\<close>.

  Objects are the addresses at which they are constructed. The free list is the list of node
  addresses from \<open>m_head\<close> on. The page allocator appears as the sequence of pages it is going
  to hand out (\<open>KDynamicPageManager::Allocate\<close> picks a random free page, so the order is
  arbitrary); the slab heap never gives a page back. \<open>sz\<close> is the object size of the
  instantiated template. Constructing the object and the spin lock are not state of the heap.
\<close>

section \<open>State\<close>

record KDynamicSlabHeap =
  m_head :: "nat list"
  m_used :: nat
  m_peak :: nat
  m_count :: nat
  slab_address :: nat
  slab_size :: nat

record KDynamicPages =
  pages_address :: nat
  pages_size :: nat
  pages_free :: "nat list"

definition slab_empty :: KDynamicSlabHeap where
  "slab_empty = \<lparr>m_head = [], m_used = 0, m_peak = 0, m_count = 0, slab_address = 0, slab_size = 0\<rparr>"

section \<open>Operations\<close>

definition Pages_Allocate :: "KDynamicPages \<Rightarrow> nat option \<times> KDynamicPages" where
  "Pages_Allocate p =
     (case pages_free p of [] \<Rightarrow> (None, p) | a # as \<Rightarrow> (Some a, p\<lparr>pages_free := as\<rparr>))"

definition SlabImpl_Allocate :: "KDynamicSlabHeap \<Rightarrow> nat option \<times> KDynamicSlabHeap" where
  "SlabImpl_Allocate h =
     (case m_head h of [] \<Rightarrow> (None, h) | n # ns \<Rightarrow> (Some n, h\<lparr>m_head := ns\<rparr>))"

definition SlabImpl_Free :: "nat \<Rightarrow> KDynamicSlabHeap \<Rightarrow> KDynamicSlabHeap" where
  "SlabImpl_Free obj h = h\<lparr>m_head := obj # m_head h\<rparr>"

definition slab_free_all :: "nat list \<Rightarrow> KDynamicSlabHeap \<Rightarrow> KDynamicSlabHeap" where
  "slab_free_all objs h = fold SlabImpl_Free objs h"

text \<open>The objects of a page at \<open>page\<close>, from index \<open>i\<close> on.\<close>

definition page_objects :: "nat \<Rightarrow> nat \<Rightarrow> nat \<Rightarrow> nat list" where
  "page_objects sz page i = map (\<lambda>k. page + k * sz) [i ..< PageSize div sz]"

function slab_fill ::
  "nat \<Rightarrow> nat \<Rightarrow> KDynamicPages \<Rightarrow> KDynamicSlabHeap \<Rightarrow> (KDynamicPages \<times> KDynamicSlabHeap) option" where
  "slab_fill sz num_objects p h =
     (if m_count h < num_objects then
        case Pages_Allocate p of
          (None, _) \<Rightarrow> None
        | (Some a, p') \<Rightarrow>
            slab_fill sz num_objects p'
              ((slab_free_all (page_objects sz a 0) h)\<lparr>m_count := m_count h + PageSize div sz\<rparr>)
      else Some (p, h))"
  by pat_completeness auto
termination
  by (relation "measure (\<lambda>(sz, n, p, h). length (pages_free p))")
     (auto simp: Pages_Allocate_def split: list.splits)

declare slab_fill.simps [simp del]

definition Slab_Initialize ::
  "nat \<Rightarrow> KDynamicPages \<Rightarrow> nat \<Rightarrow> KDynamicSlabHeap \<Rightarrow> (KDynamicPages \<times> KDynamicSlabHeap) option" where
  "Slab_Initialize sz p num_objects h =
     slab_fill sz num_objects p (h\<lparr>slab_address := pages_address p, slab_size := pages_size p\<rparr>)"

definition slab_track :: "KDynamicSlabHeap \<Rightarrow> KDynamicSlabHeap" where
  "slab_track h = (let used = m_used h + 1 in h\<lparr>m_used := used, m_peak := max (m_peak h) used\<rparr>)"

definition Slab_Allocate ::
  "nat \<Rightarrow> KDynamicPages option \<Rightarrow> KDynamicSlabHeap
    \<Rightarrow> nat option \<times> KDynamicPages option \<times> KDynamicSlabHeap" where
  "Slab_Allocate sz page_allocator h =
     (case SlabImpl_Allocate h of
        (Some n, h1) \<Rightarrow> (Some n, page_allocator, slab_track h1)
      | (None, h1) \<Rightarrow>
          (case page_allocator of
             None \<Rightarrow> (None, None, h1)
           | Some p \<Rightarrow>
               (case Pages_Allocate p of
                  (None, p') \<Rightarrow> (None, Some p', h1)
                | (Some a, p') \<Rightarrow>
                    (Some a, Some p', slab_track
                       ((slab_free_all (page_objects sz a 1) h1)
                          \<lparr>m_count := m_count h1 + PageSize div sz\<rparr>)))))"

definition Slab_Free :: "nat \<Rightarrow> KDynamicSlabHeap \<Rightarrow> KDynamicSlabHeap" where
  "Slab_Free t h = (let h1 = SlabImpl_Free t h in h1\<lparr>m_used := (if m_used h1 = 0 then two64 - 1 else m_used h1 - 1)\<rparr>)"

definition IsInRange :: "KDynamicSlabHeap \<Rightarrow> nat \<Rightarrow> bool" where
  "IsInRange h addr \<longleftrightarrow>
     slab_address h \<le> addr \<and> addr \<le> sub64 (add64 (slab_address h) (slab_size h)) 1"

section \<open>Resource manager\<close>

record KDynamicResourceManager =
  m_object_size :: nat
  m_page_allocator :: "KDynamicPages option"
  m_slab_heap :: KDynamicSlabHeap

definition ResourceManager_Allocate ::
  "KDynamicResourceManager \<Rightarrow> nat option \<times> KDynamicResourceManager" where
  "ResourceManager_Allocate m =
     (case Slab_Allocate (m_object_size m) (m_page_allocator m) (m_slab_heap m) of
        (r, p, h) \<Rightarrow> (r, m\<lparr>m_page_allocator := p, m_slab_heap := h\<rparr>))"

definition ResourceManager_Free ::
  "nat \<Rightarrow> KDynamicResourceManager \<Rightarrow> KDynamicResourceManager" where
  "ResourceManager_Free t m = m\<lparr>m_slab_heap := Slab_Free t (m_slab_heap m)\<rparr>"

section \<open>Accounting\<close>

text \<open>
  The invariant relates the heap to the list of objects that are out: free and live objects are
  different, the counters count them, and every object lies in a page not offered again.
\<close>

definition page_overlap :: "nat \<Rightarrow> nat \<Rightarrow> bool" where
  "page_overlap a b \<longleftrightarrow> a < b + PageSize \<and> b < a + PageSize"

fun pages_apart :: "nat list \<Rightarrow> bool" where
  "pages_apart [] = True"
| "pages_apart (p # ps) \<longleftrightarrow> list_all (\<lambda>q. \<not> page_overlap p q) ps \<and> pages_apart ps"

definition object_in_page :: "nat \<Rightarrow> nat \<Rightarrow> bool" where
  "object_in_page page obj \<longleftrightarrow> page \<le> obj \<and> obj < page + PageSize"

definition page_supply :: "KDynamicPages option \<Rightarrow> nat list" where
  "page_supply p = (case p of None \<Rightarrow> [] | Some q \<Rightarrow> pages_free q)"

definition slab_inv :: "nat list \<Rightarrow> KDynamicPages option \<Rightarrow> KDynamicSlabHeap \<Rightarrow> bool" where
  "slab_inv live p h \<longleftrightarrow>
     distinct (live @ m_head h) \<and> length live = m_used h \<and>
     length live + length (m_head h) = m_count h \<and> m_used h \<le> m_peak h \<and> m_peak h \<le> m_count h \<and>
     pages_apart (page_supply p) \<and>
     list_all (\<lambda>obj. list_all (\<lambda>page. \<not> object_in_page page obj) (page_supply p)) (live @ m_head h)"

lemma slab_free_all_simps [simp]:
  "m_head (slab_free_all objs h) = rev objs @ m_head h"
  "m_used (slab_free_all objs h) = m_used h"
  "m_peak (slab_free_all objs h) = m_peak h"
  "m_count (slab_free_all objs h) = m_count h"
proof -
  have "m_head (slab_free_all objs h) = rev objs @ m_head h \<and>
    m_used (slab_free_all objs h) = m_used h \<and> m_peak (slab_free_all objs h) = m_peak h \<and>
    m_count (slab_free_all objs h) = m_count h"
    by (induction objs arbitrary: h) (auto simp: slab_free_all_def SlabImpl_Free_def)
  then show "m_head (slab_free_all objs h) = rev objs @ m_head h"
    "m_used (slab_free_all objs h) = m_used h" "m_peak (slab_free_all objs h) = m_peak h"
    "m_count (slab_free_all objs h) = m_count h" by auto
qed

lemma page_objects_bounds:
  assumes "obj \<in> set (page_objects sz page i)"
  shows "object_in_page page obj"
proof -
  from assms obtain k where k: "obj = page + k * sz" "k < PageSize div sz"
    unfolding page_objects_def by fastforce
  then have "Suc k * sz \<le> PageSize"
    using mult_le_mono1[of "Suc k" "PageSize div sz" sz] div_times_less_eq_dividend[of PageSize sz]
    by linarith
  moreover have "0 < sz" using k(2) by (cases sz) auto
  ultimately show ?thesis using k(1) by (auto simp: object_in_page_def)
qed

lemma page_objects_distinct: "distinct (page_objects sz page i)"
  by (cases "sz = 0") (auto simp: page_objects_def distinct_map inj_on_def)

lemma page_objects_Cons:
  "0 < sz \<Longrightarrow> sz \<le> PageSize \<Longrightarrow> page_objects sz page 0 = page # page_objects sz page 1"
  using div_greater_zero_iff[of PageSize sz] by (auto simp: page_objects_def upt_conv_Cons)

lemma length_page_objects: "length (page_objects sz page i) = PageSize div sz - i"
  by (simp add: page_objects_def)

lemma object_in_page_overlap:
  "object_in_page p obj \<Longrightarrow> object_in_page q obj \<Longrightarrow> page_overlap p q"
  by (auto simp: object_in_page_def page_overlap_def)

text \<open>Adding all objects of the next page to the free list.\<close>

lemma slab_inv_new_page:
  assumes inv: "slab_inv live (Some p) h" and pg: "pages_free p = a # as"
  shows "slab_inv live (Some (p\<lparr>pages_free := as\<rparr>))
    ((slab_free_all (page_objects sz a 0) h)\<lparr>m_count := m_count h + PageSize div sz\<rparr>)"
proof -
  have apart: "list_all (\<lambda>q. \<not> page_overlap a q) as" "pages_apart as"
    using inv pg by (auto simp: slab_inv_def page_supply_def)
  have old: "\<not> object_in_page q obj" if "obj \<in> set (live @ m_head h)" "q \<in> set (a # as)" for obj q
    using inv pg that by (auto simp: slab_inv_def page_supply_def list_all_iff)
  have new: "\<not> object_in_page q obj" if "obj \<in> set (page_objects sz a 0)" "q \<in> set as" for obj q
    using apart that object_in_page_overlap[OF page_objects_bounds[OF that(1)]]
    by (auto simp: list_all_iff)
  have "set (page_objects sz a 0) \<inter> set (live @ m_head h) = {}"
    using page_objects_bounds old by fastforce
  with inv apart old new show ?thesis
    by (auto simp: slab_inv_def page_supply_def list_all_iff page_objects_distinct length_page_objects)
qed

lemma slab_inv_pop:
  assumes "slab_inv live p h" and "m_head h = n # ns"
  shows "slab_inv (n # live) p (slab_track (h\<lparr>m_head := ns\<rparr>))"
  using assms by (auto simp: slab_inv_def slab_track_def Let_def)

lemma slab_inv_Slab_Free:
  assumes "slab_inv live p h" "t \<in> set live"
  shows "slab_inv (remove1 t live) p (Slab_Free t h)"
proof -
  from assms(2) have "length (remove1 t live) = length live - 1" "0 < length live"
    by (auto simp: length_remove1)
  with assms show ?thesis
    by (auto simp: slab_inv_def Slab_Free_def SlabImpl_Free_def list_all_iff dest: notin_set_remove1)
qed

lemma slab_fill_inv:
  assumes "slab_inv live (Some p) h" "slab_fill sz n p h = Some (p', h')"
  shows "slab_inv live (Some p') h' \<and> n \<le> m_count h'"
  using assms
proof (induction sz n p h rule: slab_fill.induct)
  case (1 sz n p h)
  show ?case
  proof (cases "m_count h < n")
    case True
    with 1(3) obtain a as where pg: "pages_free p = a # as"
      by (subst (asm) slab_fill.simps) (auto simp: Pages_Allocate_def split: list.splits)
    then have al: "Pages_Allocate p = (Some a, p\<lparr>pages_free := as\<rparr>)"
      by (simp add: Pages_Allocate_def)
    with 1(3) True have "slab_fill sz n (p\<lparr>pages_free := as\<rparr>)
        ((slab_free_all (page_objects sz a 0) h)\<lparr>m_count := m_count h + PageSize div sz\<rparr>)
        = Some (p', h')"
      by (subst (asm) slab_fill.simps) simp
    from 1(1)[OF True al[symmetric] refl slab_inv_new_page[OF 1(2) pg] this] show ?thesis .
  next
    case False
    with 1(2,3) show ?thesis by (subst (asm) slab_fill.simps) auto
  qed
qed

section \<open>Runs of the heap\<close>

datatype slab_op = SlabAllocate | SlabFree nat

text \<open>One operation of a client that frees only what it holds; the first component lists the
  objects it holds.\<close>

fun slab_step ::
  "nat \<Rightarrow> slab_op \<Rightarrow> nat list \<times> KDynamicPages option \<times> KDynamicSlabHeap
    \<Rightarrow> nat list \<times> KDynamicPages option \<times> KDynamicSlabHeap" where
  "slab_step sz SlabAllocate (live, p, h) =
     (case Slab_Allocate sz p h of
        (None, p', h') \<Rightarrow> (live, p', h') | (Some n, p', h') \<Rightarrow> (n # live, p', h'))"
| "slab_step sz (SlabFree t) (live, p, h) =
     (if t \<in> set live then (remove1 t live, p, Slab_Free t h) else (live, p, h))"

definition slab_run ::
  "nat \<Rightarrow> slab_op list \<Rightarrow> nat list \<times> KDynamicPages option \<times> KDynamicSlabHeap
    \<Rightarrow> nat list \<times> KDynamicPages option \<times> KDynamicSlabHeap" where
  "slab_run sz ops s = fold (slab_step sz) ops s"

lemma Slab_Allocate_cases:
  assumes inv: "slab_inv live p h" and sz: "0 < sz" "sz \<le> PageSize"
    and r: "Slab_Allocate sz p h = (r, p', h')"
  shows "case r of None \<Rightarrow> m_head h = [] \<and> page_supply p = [] \<and> p' = p \<and> h' = h
    | Some n \<Rightarrow> n \<notin> set live \<and> slab_inv (n # live) p' h'"
proof (cases "m_head h")
  case (Cons n ns)
  then show ?thesis
    using r slab_inv_pop[OF inv Cons] inv
    by (auto simp: Slab_Allocate_def SlabImpl_Allocate_def slab_inv_def)
next
  case Nil
  show ?thesis
  proof (cases "page_supply p")
    case Nil2: Nil
    with Nil r show ?thesis
      by (auto simp: Slab_Allocate_def SlabImpl_Allocate_def Pages_Allocate_def page_supply_def
          split: option.splits)
  next
    case Cons2: (Cons a as)
    then obtain q where q: "p = Some q" "pages_free q = a # as"
      by (auto simp: page_supply_def split: option.splits)
    let ?h = "(slab_free_all (page_objects sz a 0) h)\<lparr>m_count := m_count h + PageSize div sz\<rparr>"
    let ?h1 = "(slab_free_all (page_objects sz a 1) h)\<lparr>m_count := m_count h + PageSize div sz\<rparr>"
    let ?q = "Some (q\<lparr>pages_free := as\<rparr>)"
    have inv2: "slab_inv live ?q ?h" using slab_inv_new_page[of live q h a as sz] inv q by simp
    have hd: "m_head ?h = rev (page_objects sz a 1) @ [a]"
      using Nil page_objects_Cons[OF sz, of a] by simp
    have out: "r = Some a" "p' = ?q" "h' = slab_track ?h1"
      using r Nil q by (auto simp: Slab_Allocate_def SlabImpl_Allocate_def Pages_Allocate_def)
    have "slab_inv (a # live) ?q (slab_track ?h1)"
      using inv2 hd Nil by (auto simp: slab_inv_def slab_track_def Let_def list_all_iff)
    with out show ?thesis by (auto simp: slab_inv_def)
  qed
qed

lemma slab_step_inv:
  assumes "0 < sz" "sz \<le> PageSize"
  shows "case s of (live, p, h) \<Rightarrow> slab_inv live p h
    \<Longrightarrow> case slab_step sz op s of (live, p, h) \<Rightarrow> slab_inv live p h"
proof (cases s; cases op)
  fix live p h assume s: "s = (live, p, h)" and inv: "case s of (live, p, h) \<Rightarrow> slab_inv live p h"
    and op: "op = SlabAllocate"
  obtain r p' h' where r: "Slab_Allocate sz p h = (r, p', h')" using prod_cases3 by blast
  with Slab_Allocate_cases[OF _ assms r, of live] s inv op show ?thesis
    by (auto split: option.splits)
qed (auto simp: slab_inv_Slab_Free)

lemma slab_run_inv:
  assumes "0 < sz" "sz \<le> PageSize" "case s of (live, p, h) \<Rightarrow> slab_inv live p h"
  shows "case slab_run sz ops s of (live, p, h) \<Rightarrow> slab_inv live p h"
  using assms(3) unfolding slab_run_def
  by (induction ops arbitrary: s) (simp_all add: slab_step_inv[OF assms(1,2)])

section \<open>Properties\<close>

text \<open>C33: after \<open>Initialize\<close> and any run of allocations and frees of held objects, an
  allocation fails only when the free list and the page allocator are both exhausted, and
  otherwise returns an object nobody holds; the counters count the held objects.\<close>

theorem slab_allocate_fresh:
  assumes "0 < sz" and "sz \<le> PageSize" and "pages_apart (pages_free pm)"
    and "Slab_Initialize sz pm num_objects slab_empty = Some (pm', h0)"
    and "slab_run sz ops ([], Some pm', h0) = (live, p, h)"
  shows "m_used h = length live \<and> m_used h + length (m_head h) = m_count h \<and> m_used h \<le> m_peak h
    \<and> (case Slab_Allocate sz p h of
         (None, p', h') \<Rightarrow> m_head h = [] \<and> page_supply p = [] \<and> p' = p \<and> h' = h
       | (Some n, p', h') \<Rightarrow> n \<notin> set live \<and> m_used h' = length live + 1)"
proof -
  have "slab_inv [] (Some pm) (slab_empty\<lparr>slab_address := pages_address pm,
      slab_size := pages_size pm\<rparr>)"
    using assms(3) by (simp add: slab_inv_def slab_empty_def page_supply_def)
  then have "slab_inv [] (Some pm') h0"
    using assms(4) slab_fill_inv unfolding Slab_Initialize_def by blast
  then have inv: "slab_inv live p h"
    using slab_run_inv[OF assms(1,2), of "([], Some pm', h0)" ops] assms(5) by simp
  obtain r p' h' where r: "Slab_Allocate sz p h = (r, p', h')" using prod_cases3 by blast
  show ?thesis
    using Slab_Allocate_cases[OF inv assms(1,2) r] r inv
    by (auto simp: slab_inv_def split: option.splits)
qed

theorem slab_allocate_fresh_witness:
  "case Slab_Allocate 2048 (Some \<lparr>pages_address = 0, pages_size = 8192, pages_free = [4096]\<rparr>)
     (slab_empty\<lparr>slab_size := 8192, m_head := [2048, 0], m_count := 2\<rparr>) of
     (None, _) \<Rightarrow> False | (Some n, _, h') \<Rightarrow> m_used h' = 1"
proof -
  let ?pm = "\<lparr>pages_address = 0, pages_size = 8192, pages_free = [0, 4096]\<rparr>"
  let ?pm' = "\<lparr>pages_address = 0, pages_size = 8192, pages_free = [4096]\<rparr>"
  let ?h = "slab_empty\<lparr>slab_size := 8192, m_head := [2048, 0], m_count := 2\<rparr>"
  have i: "Slab_Initialize 2048 ?pm 2 slab_empty = Some (?pm', ?h)"
    by (simp add: Slab_Initialize_def slab_fill.simps Pages_Allocate_def slab_free_all_def
        SlabImpl_Free_def page_objects_def slab_empty_def PageSize_def upt_rec numeral_2_eq_2)
  have "m_head ?h \<noteq> []" by simp
  with slab_allocate_fresh[OF _ _ _ i, of "[]" "[]" "Some ?pm'" ?h] show ?thesis
    by (auto simp: slab_run_def page_overlap_def PageSize_def split: option.splits prod.splits)
qed

end
