(* ===== verification/K_Memory_Block_Manager.thy ===== *)
theory K_Memory_Block_Manager
  imports K_Memory_Block K_Dynamic_Slab_Heap
begin

text \<open>
  \<open>KMemoryBlockManager\<close> and its update allocator
  (\<open>src/core/hle/kernel/k_memory_block_manager.h\<close> and \<open>.cpp\<close>).

  The intrusive red-black tree is the list of its nodes in order; a node is the address of a
  block object together with the block. \<open>FindIterator\<close> and \<open>insert\<close> search with \<open>Compare\<close>
  the way the tree does; an iterator is an index, and the length of the list stands for
  \<open>end()\<close>. Where the C++ would use an end iterator or a null block the operation has no
  result (\<open>None\<close>); the properties show that this never happens on well-formed trees.
\<close>

section \<open>The update allocator\<close>

definition MaxBlocks :: nat where
  "MaxBlocks = 2"

record UpdateAllocator =
  ua_blocks :: "nat option list"
  ua_index :: nat
  ua_slab :: KDynamicResourceManager

function ua_fill :: "nat \<Rightarrow> nat \<Rightarrow> UpdateAllocator \<Rightarrow> Result \<times> UpdateAllocator" where
  "ua_fill i num_blocks ua =
     (if i < num_blocks \<and> i < MaxBlocks then
        case ResourceManager_Allocate (ua_slab ua) of
          (r, sm) \<Rightarrow>
            let ua' = ua\<lparr>ua_blocks := (ua_blocks ua)[add64 (ua_index ua) i := r], ua_slab := sm\<rparr>
            in if r = None then (ResultOutOfResource, ua') else ua_fill (Suc i) num_blocks ua'
      else (ResultSuccess, ua))"
  by pat_completeness auto
termination
  by (relation "measure (\<lambda>(i, n, ua). MaxBlocks - i)") auto

declare ua_fill.simps [simp del]

definition UpdateAllocator_new :: "KDynamicResourceManager \<Rightarrow> nat \<Rightarrow> Result \<times> UpdateAllocator" where
  "UpdateAllocator_new sm num_blocks =
     ua_fill 0 num_blocks
       \<lparr>ua_blocks = replicate MaxBlocks None, ua_index = sub64 MaxBlocks num_blocks, ua_slab = sm\<rparr>"

definition UpdateAllocator_destroy :: "UpdateAllocator \<Rightarrow> KDynamicResourceManager" where
  "UpdateAllocator_destroy ua =
     fold (\<lambda>b sm. case b of None \<Rightarrow> sm | Some p \<Rightarrow> ResourceManager_Free p sm) (ua_blocks ua) (ua_slab ua)"

definition ua_Allocate :: "UpdateAllocator \<Rightarrow> (nat \<times> UpdateAllocator) option" where
  "ua_Allocate ua =
     (if ua_index ua < MaxBlocks then
        case ua_blocks ua ! ua_index ua of
          None \<Rightarrow> None
        | Some p \<Rightarrow> Some (p, ua\<lparr>ua_blocks := (ua_blocks ua)[ua_index ua := None],
                               ua_index := ua_index ua + 1\<rparr>)
      else None)"

definition ua_Free :: "nat \<Rightarrow> UpdateAllocator \<Rightarrow> UpdateAllocator" where
  "ua_Free p ua =
     (if ua_index ua = 0 then ua\<lparr>ua_slab := ResourceManager_Free p (ua_slab ua)\<rparr>
      else ua\<lparr>ua_blocks := (ua_blocks ua)[ua_index ua - 1 := Some p], ua_index := ua_index ua - 1\<rparr>)"

section \<open>The tree of blocks\<close>

type_synonym node = "nat \<times> KMemoryBlock"

definition tree_position :: "KMemoryBlock \<Rightarrow> node list \<Rightarrow> nat" where
  "tree_position b t = length (takeWhile (\<lambda>n. Compare b (snd n) > 0) t)"

definition tree_find :: "KMemoryBlock \<Rightarrow> node list \<Rightarrow> nat" where
  "tree_find b t =
     (let i = tree_position b t
      in if i < length t \<and> Compare b (snd (t ! i)) = 0 then i else length t)"

definition tree_insert :: "node \<Rightarrow> node list \<Rightarrow> (node list \<times> nat) option" where
  "tree_insert n t =
     (let i = tree_position (snd n) t
      in if i < length t \<and> Compare (snd n) (snd (t ! i)) = 0 then None
         else Some (take i t @ n # drop i t, i))"

definition tree_erase :: "nat \<Rightarrow> node list \<Rightarrow> node list" where
  "tree_erase i t = take i t @ drop (Suc i) t"

record KMemoryBlockManager =
  m_memory_block_tree :: "node list"
  m_start_address :: nat
  m_end_address :: nat

definition FindIterator :: "KMemoryBlockManager \<Rightarrow> nat \<Rightarrow> nat" where
  "FindIterator m address =
     tree_find (KMemoryBlock_new address 1 KMemoryState_Free 0 0) (m_memory_block_tree m)"

definition FindBlock :: "KMemoryBlockManager \<Rightarrow> nat \<Rightarrow> KMemoryBlock option" where
  "FindBlock m address =
     (let i = FindIterator m address
      in if i < length (m_memory_block_tree m) then Some (snd (m_memory_block_tree m ! i)) else None)"

text \<open>\<open>KMemoryInfo::GetNumPages\<close> is computed from the byte size.\<close>

definition Info_GetNumPages :: "KMemoryBlock \<Rightarrow> nat" where
  "Info_GetNumPages b = GetSize b div PageSize"

section \<open>Construction and destruction\<close>

definition Manager_Initialize ::
  "KMemoryBlockManager \<Rightarrow> nat \<Rightarrow> nat \<Rightarrow> KDynamicResourceManager
    \<Rightarrow> (Result \<times> KMemoryBlockManager \<times> KDynamicResourceManager) option" where
  "Manager_Initialize m st nd slab_manager =
     (case ResourceManager_Allocate slab_manager of
        (None, sm) \<Rightarrow> Some (ResultOutOfResource, m, sm)
      | (Some p, sm) \<Rightarrow>
          let b = KMemoryBlock_Initialize (KMemoryBlock_new 0 0 0 0 0) st
                    (sub64 nd st div PageSize) KMemoryState_Free 0 0
          in case tree_insert (p, b) (m_memory_block_tree m) of
               None \<Rightarrow> None
             | Some (t, _) \<Rightarrow>
                 Some (ResultSuccess,
                       \<lparr>m_memory_block_tree = t, m_start_address = st, m_end_address = nd\<rparr>, sm))"

text \<open>\<open>Finalize\<close> returns the ranges it passes to the unmap callback, in order.\<close>

fun finalize_loop ::
  "node list \<Rightarrow> KDynamicResourceManager \<Rightarrow> (nat \<times> nat) list \<times> KDynamicResourceManager" where
  "finalize_loop [] sm = ([], sm)"
| "finalize_loop ((p, b) # t) sm =
     (case finalize_loop t (ResourceManager_Free p sm) of
        (unmaps, sm') \<Rightarrow> ((GetAddress b, GetSize b) # unmaps, sm'))"

definition Manager_Finalize ::
  "KMemoryBlockManager \<Rightarrow> KDynamicResourceManager
    \<Rightarrow> KMemoryBlockManager \<times> (nat \<times> nat) list \<times> KDynamicResourceManager" where
  "Manager_Finalize m sm =
     (case finalize_loop (m_memory_block_tree m) sm of
        (unmaps, sm') \<Rightarrow> (m\<lparr>m_memory_block_tree := []\<rparr>, unmaps, sm'))"

section \<open>Searching for free space\<close>

definition candidate_area :: "KMemoryBlock \<Rightarrow> nat \<Rightarrow> nat \<Rightarrow> nat \<Rightarrow> nat \<Rightarrow> nat" where
  "candidate_area info region_start alignment offset guard_pages =
     (let area0 = (if GetAddress info \<le> region_start then region_start else GetAddress info);
          area1 = add64 area0 (mul64 guard_pages PageSize);
          offset_area = add64 (AlignDown area1 alignment) offset
      in if area1 \<le> offset_area then offset_area else add64 offset_area alignment)"

fun find_free_area_loop ::
  "node list \<Rightarrow> nat \<Rightarrow> nat \<Rightarrow> nat \<Rightarrow> nat \<Rightarrow> nat \<Rightarrow> nat \<Rightarrow> nat" where
  "find_free_area_loop [] region_start region_last num_pages alignment offset guard_pages = 0"
| "find_free_area_loop (n # t) region_start region_last num_pages alignment offset guard_pages =
     (let info = snd n in
      if region_last < GetAddress info then 0
      else if m_memory_state info \<noteq> KMemoryState_Free then
        find_free_area_loop t region_start region_last num_pages alignment offset guard_pages
      else
        let area = candidate_area info region_start alignment offset guard_pages;
            area_end = add64 (add64 area (mul64 num_pages PageSize)) (mul64 guard_pages PageSize);
            area_last = sub64 area_end 1
        in if GetAddress info \<le> area \<and> area < area_last \<and> area_last \<le> region_last \<and>
              area_last \<le> GetLastAddress info
           then area
           else find_free_area_loop t region_start region_last num_pages alignment offset
                  guard_pages)"

definition FindFreeArea ::
  "KMemoryBlockManager \<Rightarrow> nat \<Rightarrow> nat \<Rightarrow> nat \<Rightarrow> nat \<Rightarrow> nat \<Rightarrow> nat \<Rightarrow> nat" where
  "FindFreeArea m region_start region_num_pages num_pages alignment offset guard_pages =
     (if num_pages > 0 then
        let region_end = add64 region_start (mul64 region_num_pages PageSize);
            region_last = sub64 region_end 1
        in find_free_area_loop (drop (FindIterator m region_start) (m_memory_block_tree m))
             region_start region_last num_pages alignment offset guard_pages
      else 0)"

section \<open>Coalescing\<close>

function coalesce_loop ::
  "nat \<Rightarrow> UpdateAllocator \<Rightarrow> node list \<Rightarrow> nat \<Rightarrow> (UpdateAllocator \<times> node list) option" where
  "coalesce_loop limit ua t it =
     (if length t \<le> it then None
      else
        let prev = it; it1 = Suc it in
        if it1 = length t then Some (ua, t)
        else
          case (if CanMergeWith (snd (t ! prev)) (snd (t ! it1))
                then (ua_Free (fst (t ! it1)) ua,
                      tree_erase it1 (t[prev := (fst (t ! prev),
                        KMemoryBlock_Add (snd (t ! prev)) (snd (t ! it1)))]),
                      prev)
                else (ua, t, it1)) of
            (ua', t', it2) \<Rightarrow>
              if limit < GetEndAddress (snd (t' ! it2)) then Some (ua', t')
              else coalesce_loop limit ua' t' it2)"
  by pat_completeness auto
termination
  by (relation "measure (\<lambda>(limit, ua, t, it). length t - it)")
     (auto simp: tree_erase_def split: if_splits)

declare coalesce_loop.simps [simp del]

definition CoalesceForUpdate ::
  "KMemoryBlockManager \<Rightarrow> UpdateAllocator \<Rightarrow> nat \<Rightarrow> nat \<Rightarrow> (UpdateAllocator \<times> KMemoryBlockManager) option"
  where
  "CoalesceForUpdate m ua address num_pages =
     (let it = FindIterator m address;
          limit = add64 address (mul64 num_pages PageSize)
      in if address \<noteq> m_start_address m \<and> it = 0 then None
         else case coalesce_loop limit ua (m_memory_block_tree m)
                     (if address \<noteq> m_start_address m then it - 1 else it) of
                None \<Rightarrow> None
              | Some (ua', t) \<Rightarrow> Some (ua', m\<lparr>m_memory_block_tree := t\<rparr>))"

section \<open>Updating a range\<close>

record update_state =
  us_alloc :: UpdateAllocator
  us_tree :: "node list"
  us_it :: nat
  us_cur :: nat
  us_rem :: nat

definition split_before :: "update_state \<Rightarrow> update_state option" where
  "split_before st =
     (let (p, b) = us_tree st ! us_it st in
      if GetAddress b = us_cur st then Some st
      else
        case ua_Allocate (us_alloc st) of
          None \<Rightarrow> None
        | Some (q, ua) \<Rightarrow>
            (case Split b (us_cur st) of
               (new_block, rest) \<Rightarrow>
                 (case tree_insert (q, new_block) ((us_tree st)[us_it st := (p, rest)]) of
                    None \<Rightarrow> None
                  | Some (t, i) \<Rightarrow>
                      if Suc i < length t then
                        Some (st\<lparr>us_alloc := ua, us_tree := t, us_it := Suc i,
                                 us_cur := GetAddress (snd (t ! Suc i))\<rparr>)
                      else None)))"

definition split_after :: "nat \<Rightarrow> update_state \<Rightarrow> update_state option" where
  "split_after remaining_size st =
     (let (p, b) = us_tree st ! us_it st in
      if GetSize b \<le> remaining_size then Some st
      else
        case ua_Allocate (us_alloc st) of
          None \<Rightarrow> None
        | Some (q, ua) \<Rightarrow>
            (case Split b (add64 (us_cur st) remaining_size) of
               (new_block, rest) \<Rightarrow>
                 (case tree_insert (q, new_block) ((us_tree st)[us_it st := (p, rest)]) of
                    None \<Rightarrow> None
                  | Some (t, i) \<Rightarrow> Some (st\<lparr>us_alloc := ua, us_tree := t, us_it := i\<rparr>))))"

definition skip_block :: "nat \<Rightarrow> update_state \<Rightarrow> update_state" where
  "skip_block remaining_size st =
     (let b = snd (us_tree st ! us_it st) in
      if add64 (us_cur st) remaining_size < GetEndAddress b then
        st\<lparr>us_rem := 0, us_cur := add64 (us_cur st) remaining_size\<rparr>
      else
        st\<lparr>us_rem := sub64 (add64 (us_cur st) remaining_size) (GetEndAddress b) div PageSize,
           us_cur := GetEndAddress b\<rparr>)"

definition change_block ::
  "(nat \<Rightarrow> KMemoryBlock \<Rightarrow> KMemoryBlock) \<Rightarrow> update_state \<Rightarrow> update_state" where
  "change_block f st =
     (let (p, b) = us_tree st ! us_it st in
      st\<lparr>us_tree := (us_tree st)[us_it st := (p, f (us_cur st) b)],
         us_cur := add64 (us_cur st) (GetSize b),
         us_rem := sub64 (us_rem st) (Info_GetNumPages b)\<rparr>)"

text \<open>
  One iteration of the update loops. \<open>change\<close> says whether the block under the iterator has to be
  changed, \<open>f\<close> is the change, given the current address.
\<close>

definition visit ::
  "(KMemoryBlock \<Rightarrow> bool) \<Rightarrow> (nat \<Rightarrow> KMemoryBlock \<Rightarrow> KMemoryBlock) \<Rightarrow> update_state \<Rightarrow> update_state option"
  where
  "visit change f st =
     (let remaining_size = mul64 (us_rem st) PageSize in
      if us_it st < length (us_tree st) then
        if change (snd (us_tree st ! us_it st)) then
          case split_before st of
            None \<Rightarrow> None
          | Some st1 \<Rightarrow>
              (case split_after remaining_size st1 of
                 None \<Rightarrow> None
               | Some st2 \<Rightarrow>
                   let st3 = change_block f st2 in Some (st3\<lparr>us_it := Suc (us_it st3)\<rparr>))
        else
          let st1 = skip_block remaining_size st in Some (st1\<lparr>us_it := Suc (us_it st1)\<rparr>)
      else None)"

lemma ua_Allocate_index:
  "ua_Allocate ua = Some (p, ua') \<Longrightarrow> ua_index ua < MaxBlocks \<and> ua_index ua' = Suc (ua_index ua)"
  by (auto simp: ua_Allocate_def split: if_splits option.splits)

definition update_order :: "(update_state \<times> update_state) set" where
  "update_order = measures [\<lambda>st. MaxBlocks - ua_index (us_alloc st),
     \<lambda>st. length (us_tree st) - us_it st]"

lemma split_before_order:
  "split_before st = Some st' \<Longrightarrow> st' = st \<or>
     ua_index (us_alloc st) < MaxBlocks \<and> ua_index (us_alloc st') = Suc (ua_index (us_alloc st))"
  by (auto simp: split_before_def Let_def dest: ua_Allocate_index
      split: if_splits option.splits prod.splits)

lemma split_after_order:
  "split_after n st = Some st' \<Longrightarrow> st' = st \<or>
     ua_index (us_alloc st) < MaxBlocks \<and> ua_index (us_alloc st') = Suc (ua_index (us_alloc st))"
  by (auto simp: split_after_def Let_def dest: ua_Allocate_index
      split: if_splits option.splits prod.splits)

lemma change_block_simps [simp]:
  "us_alloc (change_block f st) = us_alloc st" "us_it (change_block f st) = us_it st"
  "length (us_tree (change_block f st)) = length (us_tree st)"
  by (auto simp: change_block_def Let_def split: prod.splits)

lemma skip_block_simps [simp]:
  "us_alloc (skip_block n st) = us_alloc st" "us_it (skip_block n st) = us_it st"
  "us_tree (skip_block n st) = us_tree st"
  by (auto simp: skip_block_def Let_def)

lemma visit_order: "visit change f st = Some st' \<Longrightarrow> (st', st) \<in> update_order"
  unfolding visit_def Let_def update_order_def
  by (auto split: if_splits option.splits dest!: split_before_order split_after_order)

function update_loop ::
  "(KMemoryBlock \<Rightarrow> bool) \<Rightarrow> (nat \<Rightarrow> KMemoryBlock \<Rightarrow> KMemoryBlock) \<Rightarrow> update_state \<Rightarrow> update_state option"
  where
  "update_loop change f st =
     (if us_rem st = 0 then Some st
      else case visit change f st of None \<Rightarrow> None | Some st' \<Rightarrow> update_loop change f st')"
  by pat_completeness auto
termination
proof (relation "inv_image update_order (\<lambda>(change, f, st). st)")
  show "wf (inv_image update_order
      (\<lambda>(change :: KMemoryBlock \<Rightarrow> bool, f :: nat \<Rightarrow> KMemoryBlock \<Rightarrow> KMemoryBlock, st). st))"
    by (simp add: update_order_def)
qed (simp add: visit_order)

declare update_loop.simps [simp del]

definition update_range ::
  "KMemoryBlockManager \<Rightarrow> UpdateAllocator \<Rightarrow> nat \<Rightarrow> nat \<Rightarrow> (KMemoryBlock \<Rightarrow> bool)
    \<Rightarrow> (nat \<Rightarrow> KMemoryBlock \<Rightarrow> KMemoryBlock) \<Rightarrow> (UpdateAllocator \<times> KMemoryBlockManager) option" where
  "update_range m ua address num_pages change f =
     (case update_loop change f
             \<lparr>us_alloc = ua, us_tree = m_memory_block_tree m, us_it = FindIterator m address,
              us_cur = address, us_rem = num_pages\<rparr> of
        None \<Rightarrow> None
      | Some st \<Rightarrow>
          CoalesceForUpdate (m\<lparr>m_memory_block_tree := us_tree st\<rparr>) (us_alloc st) address num_pages)"

definition Manager_Update ::
  "KMemoryBlockManager \<Rightarrow> UpdateAllocator \<Rightarrow> nat \<Rightarrow> nat \<Rightarrow> KMemoryState \<Rightarrow> KMemoryPermission
    \<Rightarrow> KMemoryAttribute \<Rightarrow> u8 \<Rightarrow> u8 \<Rightarrow> (UpdateAllocator \<times> KMemoryBlockManager) option" where
  "Manager_Update m ua address num_pages state perm attr set_disable_attr clear_disable_attr =
     update_range m ua address num_pages
       (\<lambda>b. \<not> HasProperties b state perm attr)
       (\<lambda>cur b. KMemoryBlock_Update b state perm attr (cur = address) set_disable_attr
          clear_disable_attr)"

definition Manager_UpdateIfMatch ::
  "KMemoryBlockManager \<Rightarrow> UpdateAllocator \<Rightarrow> nat \<Rightarrow> nat \<Rightarrow> KMemoryState \<Rightarrow> KMemoryPermission
    \<Rightarrow> KMemoryAttribute \<Rightarrow> KMemoryState \<Rightarrow> KMemoryPermission \<Rightarrow> KMemoryAttribute
    \<Rightarrow> (UpdateAllocator \<times> KMemoryBlockManager) option" where
  "Manager_UpdateIfMatch m ua address num_pages test_state test_perm test_attr state perm attr =
     update_range m ua address num_pages
       (\<lambda>b. HasProperties b test_state test_perm test_attr \<and> \<not> HasProperties b state perm attr)
       (\<lambda>cur b. KMemoryBlock_Update b state perm attr False 0 0)"

definition Manager_UpdateLock ::
  "KMemoryBlockManager \<Rightarrow> UpdateAllocator \<Rightarrow> nat \<Rightarrow> nat
    \<Rightarrow> (KMemoryBlock \<Rightarrow> KMemoryPermission \<Rightarrow> bool \<Rightarrow> bool \<Rightarrow> KMemoryBlock) \<Rightarrow> KMemoryPermission
    \<Rightarrow> (UpdateAllocator \<times> KMemoryBlockManager) option" where
  "Manager_UpdateLock m ua address num_pages lock_func perm =
     (let end_address = add64 address (mul64 num_pages PageSize) in
      update_range m ua address num_pages
        (\<lambda>b. True)
        (\<lambda>cur b. lock_func b perm (GetAddress b = address) (GetEndAddress b = end_address)))"

section \<open>The auditor\<close>

definition flags_counted :: "KMemoryBlock \<Rightarrow> bool" where
  "flags_counted b \<longleftrightarrow>
     \<not> (m_attribute b AND IpcLocked \<noteq> 0 \<and> m_ipc_lock_count b = 0) \<and>
     \<not> (m_attribute b AND DeviceShared \<noteq> 0 \<and> m_device_use_count b = 0)"

fun check_state_loop :: "KMemoryBlock \<Rightarrow> KMemoryBlock list \<Rightarrow> bool" where
  "check_state_loop prev [] = flags_counted prev"
| "check_state_loop prev (cur # bs) \<longleftrightarrow>
     \<not> CanMergeWith prev cur \<and> GetEndAddress prev = GetAddress cur \<and> flags_counted cur \<and>
     check_state_loop cur bs"

definition CheckState :: "KMemoryBlockManager \<Rightarrow> bool" where
  "CheckState m =
     (case map snd (m_memory_block_tree m) of [] \<Rightarrow> True | b # bs \<Rightarrow> check_state_loop b bs)"

end
