(* ===== verification/Memory_Block_Refinement.thy ===== *)
theory Memory_Block_Refinement
  imports K_Memory_Block_Manager
begin

text \<open>
  The block manager against its abstract specification. A tree of blocks that are contiguous from
  the start to the end of the address space describes a map from addresses to page properties
  (\<open>page_at\<close>). The update loops split blocks at the ends of the range, change the blocks inside
  and coalesce; the abstract operation changes the properties of the addresses in the range and
  of no other.
\<close>

section \<open>Contiguous block lists\<close>

definition block_end :: "KMemoryBlock \<Rightarrow> nat" where
  "block_end b = m_address b + m_num_pages b * PageSize"

fun contig :: "nat \<Rightarrow> KMemoryBlock list \<Rightarrow> nat \<Rightarrow> bool" where
  "contig s [] e \<longleftrightarrow> s = e"
| "contig s (b # bs) e \<longleftrightarrow> m_address b = s \<and> 0 < m_num_pages b \<and> contig (block_end b) bs e"

lemma contig_append: "contig s (xs @ ys) e \<longleftrightarrow> (\<exists>m. contig s xs m \<and> contig m ys e)"
  by (induction xs arbitrary: s) auto

lemma block_end_gt: "0 < m_num_pages b \<Longrightarrow> m_address b < block_end b"
  by (simp add: block_end_def)

lemma contig_le: "contig s bs e \<Longrightarrow> s \<le> e"
proof (induction bs arbitrary: s)
  case (Cons b bs)
  then show ?case using block_end_gt[of b] by fastforce
qed simp

lemma contig_member:
  "contig s bs e \<Longrightarrow> b \<in> set bs
    \<Longrightarrow> s \<le> m_address b \<and> block_end b \<le> e \<and> 0 < m_num_pages b \<and> m_address b < block_end b"
proof (induction bs arbitrary: s)
  case (Cons x xs)
  have "m_address x < block_end x" by (rule block_end_gt) (use Cons.prems in simp)
  moreover have "block_end x \<le> e" using Cons.prems contig_le by auto
  ultimately show ?case using Cons by fastforce
qed simp

lemma contig_dvd: "contig s bs e \<Longrightarrow> PageSize dvd s \<Longrightarrow> PageSize dvd e"
  by (induction bs arbitrary: s) (auto simp: block_end_def)

lemma contig_member_dvd:
  "contig s bs e \<Longrightarrow> PageSize dvd s \<Longrightarrow> b \<in> set bs \<Longrightarrow> PageSize dvd m_address b"
  by (induction bs arbitrary: s) (auto simp: block_end_def)

lemma block_end_dvd: "PageSize dvd m_address b \<Longrightarrow> PageSize dvd block_end b"
  by (simp add: block_end_def)

lemma block_getters:
  assumes "block_end b < two64" "0 < m_num_pages b"
  shows "GetSize b = m_num_pages b * PageSize" "GetEndAddress b = block_end b"
    "GetLastAddress b = block_end b - 1" "GetAddress b = m_address b"
    "Info_GetNumPages b = m_num_pages b" "m_num_pages b < two64"
proof -
  have lt: "m_num_pages b * PageSize < two64" "m_address b + m_num_pages b * PageSize < two64"
    using assms(1) by (auto simp: block_end_def)
  show sz: "GetSize b = m_num_pages b * PageSize"
    using lt by (simp add: GetSize_def GetNumPages_def mul64_eq)
  show en: "GetEndAddress b = block_end b"
    using lt sz by (simp add: GetEndAddress_def GetAddress_def add64_eq block_end_def)
  show "GetLastAddress b = block_end b - 1"
    using en assms block_end_gt[OF assms(2)] by (simp add: GetLastAddress_def sub64_eq)
  show "GetAddress b = m_address b" by (simp add: GetAddress_def)
  show "Info_GetNumPages b = m_num_pages b" using sz by (simp add: Info_GetNumPages_def)
  show "m_num_pages b < two64" using lt by (simp add: PageSize_def)
qed

section \<open>Page properties\<close>

type_synonym page_props =
  "KMemoryState \<times> KMemoryPermission \<times> KMemoryPermission \<times> KMemoryAttribute \<times> u16 \<times> u16"

definition props :: "KMemoryBlock \<Rightarrow> page_props" where
  "props b = (m_memory_state b, m_permission b, m_original_permission b, m_attribute b,
     m_ipc_lock_count b, m_device_use_count b)"

lemma HasSameProperties_props: "HasSameProperties x y \<longleftrightarrow> props x = props y"
  by (auto simp: HasSameProperties_def props_def)

definition covers :: "KMemoryBlock \<Rightarrow> nat \<Rightarrow> bool" where
  "covers b a \<longleftrightarrow> m_address b \<le> a \<and> a < block_end b"

definition page_at :: "KMemoryBlock list \<Rightarrow> nat \<Rightarrow> page_props option" where
  "page_at bs a = map_option props (find (\<lambda>b. covers b a) bs)"

lemma page_at_Nil [simp]: "page_at [] a = None"
  by (simp add: page_at_def)

lemma page_at_Cons: "page_at (b # bs) a = (if covers b a then Some (props b) else page_at bs a)"
  by (simp add: page_at_def)

lemma page_at_append:
  "page_at (xs @ ys) a = (case page_at xs a of None \<Rightarrow> page_at ys a | Some p \<Rightarrow> Some p)"
  by (induction xs) (auto simp: page_at_Cons)

lemma page_at_outside: "contig s bs e \<Longrightarrow> a < s \<or> e \<le> a \<Longrightarrow> page_at bs a = None"
proof (induction bs arbitrary: s)
  case (Cons b bs)
  have "m_address b < block_end b" by (rule block_end_gt) (use Cons.prems in simp)
  moreover have "block_end b \<le> e" using Cons.prems contig_le by auto
  ultimately show ?case using Cons by (auto simp: page_at_Cons covers_def)
qed simp

lemma page_at_inside: "contig s bs e \<Longrightarrow> s \<le> a \<Longrightarrow> a < e \<Longrightarrow> page_at bs a \<noteq> None"
proof (induction bs arbitrary: s)
  case (Cons b bs)
  then show ?case by (cases "a < block_end b") (auto simp: page_at_Cons covers_def)
qed simp

lemma page_at_split:
  assumes "contig s (xs @ b # ys) e"
  shows "page_at (xs @ b # ys) a =
    (if a < m_address b then page_at xs a else if a < block_end b then Some (props b)
     else page_at ys a)"
proof -
  from assms obtain m where c: "contig s xs m" "contig m (b # ys) e" by (auto simp: contig_append)
  then have "m = m_address b" "contig (block_end b) ys e" "m_address b < block_end b"
    using block_end_gt by auto
  with c page_at_outside[OF c(1), of a] show ?thesis
    using page_at_outside[of "block_end b" ys e a]
    by (auto simp: page_at_append page_at_Cons covers_def split: option.splits)
qed

section \<open>Merge boundaries\<close>

text \<open>Neighbours that meet outside the range \<open>A .. B\<close> cannot be merged.\<close>

definition apart :: "nat \<Rightarrow> nat \<Rightarrow> KMemoryBlock \<Rightarrow> KMemoryBlock \<Rightarrow> bool" where
  "apart A B x y \<longleftrightarrow> (A \<le> m_address y \<and> m_address y \<le> B) \<or> \<not> CanMergeWith x y"

definition merged :: "KMemoryBlock list \<Rightarrow> bool" where
  "merged bs \<longleftrightarrow> successively (\<lambda>x y. \<not> CanMergeWith x y) bs"

lemma successively_middle:
  "successively P (xs @ y # ys) \<longleftrightarrow>
     successively P xs \<and> (xs \<noteq> [] \<longrightarrow> P (last xs) y) \<and> (ys \<noteq> [] \<longrightarrow> P y (hd ys)) \<and> successively P ys"
  by (auto simp: successively_append_iff successively_Cons)

text \<open>
  What the loops keep: the blocks stay contiguous, the neighbours outside the range stay unmergeable,
  and the properties are those of \<open>pg\<close>.
\<close>

definition tree_inv ::
  "nat \<Rightarrow> nat \<Rightarrow> nat \<Rightarrow> nat \<Rightarrow> (nat \<Rightarrow> page_props option) \<Rightarrow> node list \<Rightarrow> bool" where
  "tree_inv s e A B pg t \<longleftrightarrow>
     contig s (map snd t) e \<and> successively (apart A B) (map snd t) \<and> page_at (map snd t) = pg"

lemma CanMergeWith_left_half:
  assumes "Split b c = (l, r)"
  shows "CanMergeWith x l = CanMergeWith x b" "CanMergeWith r y = CanMergeWith b y"
  using Split_props[OF assms]
  by (auto simp: CanMergeWith_def HasSameProperties_def and.assoc)

lemma tree_inv_split:
  assumes inv: "tree_inv s e A B pg (ds @ (p, b) # rs)" and "e < two64"
    and c: "m_address b < c" "c < block_end b" "A \<le> c" "c \<le> B" "PageSize dvd (c - m_address b)"
    and sp: "Split b c = (l, r)"
  shows "tree_inv s e A B pg (ds @ (q, l) # (q', r) # rs)"
    "m_address l = m_address b" "block_end l = c" "m_address r = c" "block_end r = block_end b"
    "0 < m_num_pages l" "0 < m_num_pages r" "props l = props b" "props r = props b"
proof -
  have ct: "contig s (map snd (ds @ (p, b) # rs)) e" using inv by (simp add: tree_inv_def)
  then have mem: "block_end b \<le> e" "0 < m_num_pages b"
    using contig_member[OF ct, of b] by auto
  have lt: "m_num_pages b < two64" "c < two64"
    using block_getters(6)[of b] mem assms(2) c(2) by auto
  note pg = Split_pages[OF sp c(1) _ c(5) lt(2,1)]
  have le: "c < m_address b + m_num_pages b * PageSize" using c(2) by (simp add: block_end_def)
  note pg = pg[OF le]
  show g: "m_address l = m_address b" "block_end l = c" "m_address r = c"
    "0 < m_num_pages l" "0 < m_num_pages r"
    using pg by (simp_all add: block_end_def)
  show be: "block_end r = block_end b"
    using pg(1-4) unfolding block_end_def by (metis add.assoc add_mult_distrib)
  show pr: "props l = props b" "props r = props b"
    using Split_props[OF sp] by (simp_all add: HasSameProperties_props)
  have ct2: "contig s (map snd (ds @ (q, l) # (q', r) # rs)) e"
    using ct g be by (auto simp: contig_append)
  have "page_at (map snd (ds @ (q, l) # (q', r) # rs)) = page_at (map snd (ds @ (p, b) # rs))"
    using g be pr c(1,2) by (intro ext) (auto simp: page_at_append page_at_Cons covers_def split: option.splits)
  moreover have "successively (apart A B) (map snd (ds @ (q, l) # (q', r) # rs))"
    using inv c(3,4) g CanMergeWith_left_half[OF sp]
    by (auto simp: tree_inv_def successively_middle successively_Cons apart_def hd_map last_map)
  ultimately show "tree_inv s e A B pg (ds @ (q, l) # (q', r) # rs)"
    using inv ct2 by (simp add: tree_inv_def)
qed

lemma tree_inv_change:
  assumes inv: "tree_inv s e A B pg (ds @ (p, b) # rs)"
    and g: "m_address b' = m_address b" "m_num_pages b' = m_num_pages b"
    and r: "A \<le> m_address b" "block_end b \<le> B"
  shows "tree_inv s e A B (\<lambda>a. if covers b a then Some (props b') else pg a) (ds @ (p, b') # rs)"
proof -
  have ct: "contig s (map snd ds @ b # map snd rs) e" using inv by (simp add: tree_inv_def)
  have be: "block_end b' = block_end b" using g by (simp add: block_end_def)
  have ct2: "contig s (map snd ds @ b' # map snd rs) e"
    using ct g be by (auto simp: contig_append)
  have pg: "page_at (map snd ds @ b # map snd rs) = pg" using inv by (simp add: tree_inv_def)
  have "page_at (map snd ds @ b' # map snd rs) = (\<lambda>a. if covers b a then Some (props b') else pg a)"
    by (intro ext) (auto simp: page_at_split[OF ct2] pg[symmetric] page_at_split[OF ct] covers_def g be)
  moreover have "successively (apart A B) (map snd ds @ b' # map snd rs)"
  proof -
    have nx: "rs \<noteq> [] \<Longrightarrow> m_address (snd (hd rs)) = block_end b"
      using ct by (cases rs) (auto simp: contig_append)
    have "m_address b < block_end b" using contig_member[OF ct, of b] by auto
    then show ?thesis
      using inv r nx g by (auto simp: tree_inv_def successively_middle apart_def hd_map last_map)
  qed
  ultimately show ?thesis using ct2 by (simp add: tree_inv_def)
qed

section \<open>Searching the tree\<close>

lemma Compare_key:
  assumes "block_end b < two64" "0 < m_num_pages b"
  shows "Compare (KMemoryBlock_new a 1 st pm at) b =
    (if a < m_address b then -1 else if a < block_end b then 0 else 1)"
  using block_getters[OF assms] block_end_gt[OF assms(2)]
  by (auto simp: Compare_def KMemoryBlock_new_def GetAddress_def)

lemma takeWhile_upto: "(\<And>x. x \<in> set xs \<Longrightarrow> P x) \<Longrightarrow> \<not> P y \<Longrightarrow> takeWhile P (xs @ y # ys) = xs"
  by (simp add: takeWhile_tail takeWhile_eq_all_conv)

lemma tree_find_at:
  assumes ct: "contig s (map snd (ds @ (p, b) # rs)) e" and "e < two64" and "covers b a"
  shows "tree_find (KMemoryBlock_new a 1 st pm at) (ds @ (p, b) # rs) = length ds"
proof -
  let ?k = "KMemoryBlock_new a 1 st pm at"
  obtain m where m: "contig s (map snd ds) m" "m_address b = m"
    using ct by (auto simp: contig_append)
  have cmp: "Compare ?k x = (if a < m_address x then -1 else if a < block_end x then 0 else 1)"
    if "x \<in> set (map snd (ds @ (p, b) # rs))" for x
    using contig_member[OF ct that] assms(2) by (intro Compare_key) auto
  have "Compare ?k b = 0" using cmp[of b] assms(3) by (simp add: covers_def)
  moreover have "Compare ?k (snd x) > 0" if "x \<in> set ds" for x
    using cmp[of "snd x"] contig_member[OF m(1), of "snd x"] that assms(3) m(2)
    by (auto simp: covers_def)
  ultimately show ?thesis
    using takeWhile_upto[of ds "\<lambda>n. Compare ?k (snd n) > 0" "(p, b)" rs]
    by (simp add: tree_find_def tree_position_def)
qed

lemma tree_insert_at:
  assumes ct: "contig s (map snd ds) (m_address l)" and "m_address l < two64"
    and lt: "m_address l < m_address r"
  shows "tree_insert (q, l) (ds @ (p, r) # rs) = Some (ds @ (q, l) # (p, r) # rs, length ds)"
proof -
  have cr: "Compare l r = -1" using lt by (simp add: Compare_def GetAddress_def)
  have "Compare l (snd x) > 0" if "x \<in> set ds" for x
  proof -
    have g: "block_end (snd x) \<le> m_address l" "0 < m_num_pages (snd x)"
      "m_address (snd x) < block_end (snd x)"
      using contig_member[OF ct, of "snd x"] that by auto
    with block_getters(3)[of "snd x"] assms(2) show ?thesis
      by (auto simp: Compare_def GetAddress_def)
  qed
  with cr show ?thesis
    using takeWhile_upto[of ds "\<lambda>n. Compare l (snd n) > 0" "(p, r)" rs]
    by (simp add: tree_insert_def tree_position_def)
qed

section \<open>The update allocator\<close>

definition alloc_ready :: "UpdateAllocator \<Rightarrow> bool" where
  "alloc_ready ua \<longleftrightarrow> length (ua_blocks ua) = MaxBlocks \<and> ua_index ua \<le> MaxBlocks \<and>
     (\<forall>i<MaxBlocks. ua_blocks ua ! i \<noteq> None \<longleftrightarrow> ua_index ua \<le> i)"

definition ua_left :: "UpdateAllocator \<Rightarrow> nat" where
  "ua_left ua = MaxBlocks - ua_index ua"

lemma ua_Allocate_ready:
  assumes "alloc_ready ua" "0 < ua_left ua"
  obtains p ua' where "ua_Allocate ua = Some (p, ua')" "alloc_ready ua'" "ua_left ua' = ua_left ua - 1"
proof -
  have i: "ua_index ua < MaxBlocks" using assms(2) by (simp add: ua_left_def)
  then obtain p where p: "ua_blocks ua ! ua_index ua = Some p"
    using assms(1) by (auto simp: alloc_ready_def)
  let ?ua = "ua\<lparr>ua_blocks := (ua_blocks ua)[ua_index ua := None], ua_index := ua_index ua + 1\<rparr>"
  have "alloc_ready ?ua" using assms(1) i by (auto simp: alloc_ready_def nth_list_update)
  moreover have "ua_left ?ua = ua_left ua - 1" by (simp add: ua_left_def)
  moreover have "ua_Allocate ua = Some (p, ?ua)" using i p by (simp add: ua_Allocate_def)
  ultimately show ?thesis using that by blast
qed

lemma alloc_ready_Free: "alloc_ready ua \<Longrightarrow> alloc_ready (ua_Free p ua)"
  by (auto simp: alloc_ready_def ua_Free_def nth_list_update split: if_splits)

section \<open>Splitting at the ends of the range\<close>

definition interior :: "KMemoryBlock list \<Rightarrow> nat \<Rightarrow> bool" where
  "interior bs a \<longleftrightarrow> list_ex (\<lambda>b. m_address b < a \<and> a < block_end b) bs"

definition needed :: "node list \<Rightarrow> nat \<Rightarrow> nat" where
  "needed t a = (if interior (map snd t) a then 1 else 0)"

lemma interior_append: "interior (xs @ ys) a \<longleftrightarrow> interior xs a \<or> interior ys a"
  by (simp add: interior_def)

lemma not_interior_block_start:
  assumes "contig s (xs @ b # ys) e"
  shows "\<not> interior (xs @ b # ys) (m_address b)"
proof -
  obtain m where c: "contig s xs m" "m_address b = m" "contig (block_end b) ys e"
    using assms by (auto simp: contig_append)
  have "m_address b < block_end b" using contig_member[OF assms, of b] by simp
  then show ?thesis
    using contig_member[OF c(1)] contig_member[OF c(3)] c(2)
    by (fastforce simp: interior_def list_ex_iff)
qed

lemma split_before_ok:
  assumes inv: "tree_inv s e A B pg (us_tree st)" "e < two64" "PageSize dvd s"
    and cur: "PageSize dvd us_cur st" "A \<le> us_cur st" "us_cur st \<le> B"
    and t: "us_tree st = ds @ (p, b) # rs" "us_it st = length ds" "covers b (us_cur st)"
    and al: "alloc_ready (us_alloc st)"
      "needed (us_tree st) (us_cur st) + needed (us_tree st) B \<le> ua_left (us_alloc st)"
  obtains ua' ds' b' where
    "split_before st = Some (st\<lparr>us_alloc := ua', us_tree := ds' @ (p, b') # rs, us_it := length ds'\<rparr>)"
    "tree_inv s e A B pg (ds' @ (p, b') # rs)" "m_address b' = us_cur st"
    "block_end b' = block_end b" "0 < m_num_pages b'" "props b' = props b" "alloc_ready ua'"
    "needed (ds' @ (p, b') # rs) B \<le> ua_left ua'" "\<exists>xs. ds' = ds @ xs"
proof (cases "m_address b = us_cur st")
  case True
  then have "split_before st = Some st"
    using t by (simp add: split_before_def GetAddress_def)
  moreover have "st = st\<lparr>us_alloc := us_alloc st, us_tree := ds @ (p, b) # rs, us_it := length ds\<rparr>"
    using t by simp
  moreover have "0 < m_num_pages b"
    using inv(1) t contig_member[of s _ e b] by (auto simp: tree_inv_def)
  ultimately show ?thesis using that[where ua' = "us_alloc st" and ds' = ds and b' = b] True inv t al by simp
next
  case False
  let ?c = "us_cur st"
  have c: "m_address b < ?c" "?c < block_end b" using t(3) False by (auto simp: covers_def)
  have ct: "contig s (map snd (ds @ (p, b) # rs)) e" using inv(1) t by (simp add: tree_inv_def)
  then have "PageSize dvd m_address b" using contig_member_dvd[OF ct inv(3), of b] by simp
  then have dv: "PageSize dvd ?c - m_address b" using cur(1) by simp
  have "needed (us_tree st) ?c = 1" using c t by (simp add: needed_def interior_def)
  then have left: "0 < ua_left (us_alloc st)" "needed (us_tree st) B \<le> ua_left (us_alloc st) - 1"
    using al(2) by auto
  from ua_Allocate_ready[OF al(1) left(1)] obtain q ua'
    where ua: "ua_Allocate (us_alloc st) = Some (q, ua')" "alloc_ready ua'"
      "ua_left ua' = ua_left (us_alloc st) - 1" by blast
  obtain l r where sp: "Split b ?c = (l, r)" by force
  note sl = tree_inv_split[OF inv(1)[unfolded t(1)] inv(2) c cur(2,3) dv sp]
  have "contig s (map snd ds) (m_address l)" using ct sl(2) by (auto simp: contig_append)
  moreover have "m_address l < two64"
    using sl(2) c contig_member[OF ct, of b] inv(2) by auto
  ultimately have ins: "tree_insert (q, l) (ds @ (p, r) # rs) = Some (ds @ (q, l) # (p, r) # rs, length ds)"
    using tree_insert_at[of s ds l r q p rs] sl(2,4) c(1) by simp
  have nth: "(ds @ (q, l) # (p, r) # rs) ! Suc (length ds) = (p, r)"
    by (metis append.assoc append_Cons append_Nil length_append_singleton nth_append_length)
  have up: "(us_tree st)[us_it st := (p, r)] = ds @ (p, r) # rs" using t by simp
  have "split_before st = Some (st\<lparr>us_alloc := ua', us_tree := ds @ (q, l) # (p, r) # rs,
      us_it := Suc (length ds), us_cur := ?c\<rparr>)"
    using t False ua sp ins nth up sl(4) by (simp add: split_before_def GetAddress_def)
  moreover have "needed (ds @ (q, l) # (p, r) # rs) B \<le> needed (us_tree st) B"
    using t(1) sl(2-5) c by (auto simp: needed_def interior_def)
  ultimately show ?thesis
    using that[where ua' = ua' and ds' = "ds @ [(q, l)]" and b' = r] sl ua left by simp
qed

lemma split_after_ok:
  assumes inv: "tree_inv s e A B pg (us_tree st)" "e < two64" "PageSize dvd s"
    and cur: "A \<le> us_cur st" "B = us_cur st + us_rem st * PageSize" "0 < us_rem st" "B \<le> e"
    and t: "us_tree st = ds @ (p, b) # rs" "us_it st = length ds" "m_address b = us_cur st"
    and al: "alloc_ready (us_alloc st)" "needed (us_tree st) B \<le> ua_left (us_alloc st)"
  obtains ua' p' b' rs' where
    "split_after (us_rem st * PageSize) st =
       Some (st\<lparr>us_alloc := ua', us_tree := ds @ (p', b') # rs', us_it := length ds\<rparr>)"
    "tree_inv s e A B pg (ds @ (p', b') # rs')" "m_address b' = us_cur st"
    "block_end b' = min (block_end b) B" "0 < m_num_pages b'" "props b' = props b" "alloc_ready ua'"
    "block_end b' < B \<longrightarrow> needed (ds @ (p', b') # rs') B \<le> ua_left ua'"
proof -
  have ct: "contig s (map snd (ds @ (p, b) # rs)) e" using inv(1) t by (simp add: tree_inv_def)
  have mem: "block_end b \<le> e" "0 < m_num_pages b" using contig_member[OF ct, of b] by auto
  have sz: "GetSize b = m_num_pages b * PageSize" "block_end b = us_cur st + m_num_pages b * PageSize"
    using block_getters(1)[of b] mem inv(2) t(3) by (auto simp: block_end_def)
  show ?thesis
  proof (cases "m_num_pages b * PageSize \<le> us_rem st * PageSize")
    case True
    then have "split_after (us_rem st * PageSize) st = Some st"
      using t sz by (simp add: split_after_def)
    moreover have "st = st\<lparr>us_alloc := us_alloc st, us_tree := ds @ (p, b) # rs, us_it := length ds\<rparr>"
      using t by simp
    ultimately show ?thesis
      using that[where ua' = "us_alloc st" and p' = p and b' = b and rs' = rs] True inv t al mem sz cur(2) by simp
  next
    case False
    then have c: "m_address b < B" "B < block_end b" using cur(2,3) t(3) sz by auto
    have dv: "PageSize dvd B - m_address b" using cur(2) t(3) by simp
    have add: "add64 (us_cur st) (us_rem st * PageSize) = B"
      using cur(2,4) inv(2) by (simp add: add64_eq)
    have "needed (us_tree st) B = 1" using c t by (simp add: needed_def interior_def)
    then have left: "0 < ua_left (us_alloc st)" using al(2) by simp
    from ua_Allocate_ready[OF al(1) left] obtain q ua'
      where ua: "ua_Allocate (us_alloc st) = Some (q, ua')" "alloc_ready ua'" by blast
    obtain l r where sp: "Split b B = (l, r)" by force
    have AB: "A \<le> B" using cur(1,2) by simp
    note sl = tree_inv_split[OF inv(1)[unfolded t(1)] inv(2) c AB order_refl dv sp]
    have "contig s (map snd ds) (m_address l)" using ct sl(2) by (auto simp: contig_append)
    moreover have "m_address l < two64"
      using sl(2) c mem inv(2) by auto
    ultimately have ins: "tree_insert (q, l) (ds @ (p, r) # rs)
        = Some (ds @ (q, l) # (p, r) # rs, length ds)"
      using tree_insert_at[of s ds l r q p rs] sl(2,4) c(1) by simp
    have up: "(us_tree st)[us_it st := (p, r)] = ds @ (p, r) # rs" using t by simp
    have "split_after (us_rem st * PageSize) st = Some (st\<lparr>us_alloc := ua',
        us_tree := ds @ (q, l) # (p, r) # rs, us_it := length ds\<rparr>)"
      using t False ua sp ins up sz add by (simp add: split_after_def)
    then show ?thesis using that[where ua' = ua' and p' = q and b' = l and rs' = "(p, r) # rs"] sl ua c t(3) by simp
  qed
qed

section \<open>Coalescing\<close>

lemma KMemoryBlock_Add_simps:
  assumes "block_end c < two64" "m_address c = block_end b"
  shows "m_address (KMemoryBlock_Add b c) = m_address b"
    "block_end (KMemoryBlock_Add b c) = block_end c"
    "m_num_pages (KMemoryBlock_Add b c) = m_num_pages b + m_num_pages c"
    "props (KMemoryBlock_Add b c) = props b"
proof -
  have "(m_num_pages b + m_num_pages c) * PageSize \<le> block_end c"
    using assms(2) by (simp add: block_end_def algebra_simps)
  then have "(m_num_pages b + m_num_pages c) * PageSize < two64" using assms(1) by simp
  then have np: "m_num_pages b + m_num_pages c < two64" by (simp add: PageSize_def)
  then show "m_num_pages (KMemoryBlock_Add b c) = m_num_pages b + m_num_pages c"
    by (simp add: KMemoryBlock_Add_def GetNumPages_def add64_eq)
  with assms(2) show "block_end (KMemoryBlock_Add b c) = block_end c"
    by (simp add: KMemoryBlock_Add_def block_end_def algebra_simps)
qed (simp_all add: KMemoryBlock_Add_def props_def)

lemma CanMergeWith_Add:
  assumes "CanMergeWith b c"
  shows "CanMergeWith x (KMemoryBlock_Add b c) = CanMergeWith x b"
    "CanMergeWith (KMemoryBlock_Add b c) d = CanMergeWith c d"
  using assms
  by (auto simp: CanMergeWith_def HasSameProperties_def KMemoryBlock_Add_def or_and_zero_iff)

lemma coalesce_merge_tree:
  assumes "t = ls @ (p, b) # (q, c) # rs"
  shows "tree_erase (Suc (length ls)) (t[length ls := (p, x)]) = ls @ (p, x) # rs"
    "t ! length ls = (p, b)" "t ! Suc (length ls) = (q, c)"
  using assms by (simp_all add: tree_erase_def nth_append)

lemma merged_above:
  "contig (block_end b) bs e \<Longrightarrow> B < block_end b \<Longrightarrow> successively (apart 0 B) (b # bs) \<Longrightarrow> merged (b # bs)"
proof (induction bs arbitrary: b)
  case (Cons c bs)
  then have "block_end b < block_end c" by (metis block_end_gt contig.simps(2))
  with Cons show ?case by (auto simp: merged_def apart_def)
qed (simp add: merged_def)

lemma merged_below:
  "contig s bs e \<Longrightarrow> successively (apart A B) bs \<Longrightarrow> length bs \<le> 1 \<or> m_address (last bs) < A \<Longrightarrow> merged bs"
proof (induction bs arbitrary: s rule: induct_list012)
  case (3 x y zs)
  have "m_address y \<le> m_address (last (y # zs))"
    using 3(3) contig_member[of "m_address y" "y # zs" e "last (y # zs)"] by fastforce
  with 3 show ?case by (fastforce simp: merged_def apart_def)
qed (simp_all add: merged_def)

lemma coalesce_loop_ok:
  assumes "contig s (map snd (ls @ (p, b) # rs)) e" "e < two64" "alloc_ready ua"
    and "merged (map snd (ls @ [(p, b)]))" "successively (apart 0 B) (map snd ((p, b) # rs))"
  shows "\<exists>ua' t'. coalesce_loop B ua (ls @ (p, b) # rs) (length ls) = Some (ua', t') \<and>
    contig s (map snd t') e \<and> merged (map snd t') \<and>
    page_at (map snd t') = page_at (map snd (ls @ (p, b) # rs)) \<and> alloc_ready ua'"
  using assms
proof (induction rs arbitrary: ls p b ua)
  case Nil
  then show ?case by (auto simp: coalesce_loop.simps)
next
  case (Cons n rs)
  obtain q c where n: "n = (q, c)" by force
  let ?t = "ls @ (p, b) # (q, c) # rs"
  have ct: "contig s (map snd ?t) e" using Cons.prems(1) n by simp
  have mem: "block_end c \<le> e" "m_address c = block_end b" "0 < m_num_pages c" "0 < m_num_pages b"
    using contig_member[OF ct, of c] ct by (auto simp: contig_append)
  have lt: "block_end c < two64" using mem(1) Cons.prems(2) by simp
  have stop: "merged (map snd (ls' @ (p', b') # rs))"
    if "merged (map snd (ls' @ [(p', b')]))" "successively (apart 0 B) (map snd ((p', b') # rs))"
      and "contig s (map snd (ls' @ (p', b') # rs)) e" and "B < block_end b'" for ls' p' b'
    using that merged_above[of b' "map snd rs" e B]
    by (auto simp: merged_def successively_middle successively_Cons contig_append)
  show ?case
  proof (cases "CanMergeWith b c")
    case True
    let ?x = "KMemoryBlock_Add b c"
    note ax = KMemoryBlock_Add_simps[OF lt mem(2)]
    have ct': "contig s (map snd (ls @ (p, ?x) # rs)) e"
      using ct ax mem by (auto simp: contig_append)
    have "merged (map snd (ls @ [(p, ?x)]))"
      using Cons.prems(4) CanMergeWith_Add(1)[OF True] by (auto simp: merged_def successively_middle)
    moreover have "successively (apart 0 B) (map snd ((p, ?x) # rs))"
      using Cons.prems(5) CanMergeWith_Add(2)[OF True] n by (cases rs) (auto simp: apart_def)
    moreover have pg: "page_at (map snd (ls @ (p, ?x) # rs)) = page_at (map snd ?t)"
      using True ax mem block_end_gt[of b] block_end_gt[of c]
      by (intro ext) (auto simp: page_at_append page_at_Cons covers_def CanMergeWith_def
          HasSameProperties_props split: option.splits)
    moreover have "coalesce_loop B ua ?t (length ls) =
        (if B < block_end c then Some (ua_Free q ua, ls @ (p, ?x) # rs)
         else coalesce_loop B (ua_Free q ua) (ls @ (p, ?x) # rs) (length ls))"
      using True coalesce_merge_tree(1)[of ?t ls p b q c rs ?x] coalesce_merge_tree(2,3)[of ?t ls p b q c rs] ax block_getters(2)[of ?x] lt mem
      by (subst coalesce_loop.simps) (simp add: nth_append)
    ultimately show ?thesis
      using stop[of ls p ?x] Cons.IH[OF ct' Cons.prems(2) alloc_ready_Free[OF Cons.prems(3), of q]] ct' ax n
        alloc_ready_Free[OF Cons.prems(3), of q]
      by (cases "B < block_end c") auto
  next
    case False
    have ct': "contig s (map snd ((ls @ [(p, b)]) @ (q, c) # rs)) e" using ct by simp
    have mg: "merged (map snd ((ls @ [(p, b)]) @ [(q, c)]))"
      using Cons.prems(4) False by (auto simp: merged_def successively_middle successively_append_iff)
    have su: "successively (apart 0 B) (map snd ((q, c) # rs))"
      using Cons.prems(5) n by (auto simp: successively_Cons)
    have "coalesce_loop B ua ?t (length ls) =
        (if B < block_end c then Some (ua, ?t) else coalesce_loop B ua ?t (Suc (length ls)))"
      using False coalesce_merge_tree(2,3)[of ?t ls p b q c rs] block_getters(2)[of c] lt mem
      by (subst coalesce_loop.simps) simp
    with stop[OF mg su ct'] Cons.IH[OF ct' Cons.prems(2,3) mg su] ct' Cons.prems(3) n show ?thesis
      by (cases "B < block_end c") auto
  qed
qed

lemma covering_block:
  assumes "contig s (map snd t) e" "s \<le> a" "a < e"
  obtains ds p b rs where "t = ds @ (p, b) # rs" "covers b a"
proof -
  have "\<exists>n\<in>set t. covers (snd n) a"
    using page_at_inside[OF assms] by (auto simp: page_at_def find_Some_iff in_set_conv_nth)
      (metis (no_types, lifting) find_None_iff2 nth_mem)
  then show ?thesis using that by (metis in_set_conv_decomp prod.collapse)
qed

lemma CoalesceForUpdate_ok:
  assumes inv: "tree_inv s e A B pg (m_memory_block_tree m)" and "m_start_address m = s"
    and r: "s \<le> A" "A < e" "A + n * PageSize = B" "B \<le> e" "e < two64"
    and fr: "A = s \<or> block_end (snd (hd (m_memory_block_tree m))) \<le> A" and ua: "alloc_ready ua"
  shows "\<exists>ua' t'. CoalesceForUpdate m ua A n = Some (ua', m\<lparr>m_memory_block_tree := t'\<rparr>) \<and>
    contig s (map snd t') e \<and> merged (map snd t') \<and> page_at (map snd t') = pg \<and> alloc_ready ua'"
proof -
  let ?t = "m_memory_block_tree m"
  have ct: "contig s (map snd ?t) e" and su: "successively (apart A B) (map snd ?t)"
    and pg: "page_at (map snd ?t) = pg" using inv by (auto simp: tree_inv_def)
  obtain ds p b rs where t: "?t = ds @ (p, b) # rs" "covers b A" using covering_block[OF ct r(1,2)] .
  have it: "FindIterator m A = length ds"
    using tree_find_at[of s ds p b rs e A] ct t r(5) by (simp add: FindIterator_def)
  have B: "add64 A (mul64 n PageSize) = B" using r by (simp add: mul64_eq add64_eq)
  obtain ls q c rs' where i: "?t = ls @ (q, c) # rs'" "ls = [] \<or> m_address c < A"
    "(if A \<noteq> s then length ds - 1 else length ds) = length ls" "A \<noteq> s \<Longrightarrow> length ds \<noteq> 0"
  proof (cases "A = s")
    case True
    then have "ds = []" using t ct contig_member[of s "map snd ds" "m_address b"]
      by (cases ds) (fastforce simp: contig_append covers_def)+
    with True t show ?thesis using that[of "[]" p b rs] by simp
  next
    case False
    then have "ds \<noteq> []" using fr t by (cases ds) (auto simp: covers_def)
    then obtain ls q c where ds: "ds = ls @ [(q, c)]" by (metis rev_exhaust surj_pair)
    then have "block_end c = m_address b" "m_address c < block_end c"
      using ct t contig_member[OF ct, of c] by (auto simp: contig_append)
    with ds False t show ?thesis using that[of ls q c "(p, b) # rs"] by (simp add: covers_def)
  qed
  have "merged (map snd (ls @ [(q, c)]))"
  proof (rule merged_below)
    show "contig s (map snd (ls @ [(q, c)])) (block_end c)" using ct i(1) by (auto simp: contig_append)
    show "successively (apart A B) (map snd (ls @ [(q, c)]))"
      using su i(1) by (auto simp: successively_middle)
    show "length (map snd (ls @ [(q, c)])) \<le> 1 \<or> m_address (last (map snd (ls @ [(q, c)]))) < A"
      using i(2) by auto
  qed
  moreover have "successively (apart 0 B) (map snd ((q, c) # rs'))"
  proof -
    have "successively (apart A B) (map snd ((q, c) # rs'))"
      using su i(1) by (auto simp: successively_middle successively_Cons)
    then show ?thesis by (rule successively_mono) (auto simp: apart_def)
  qed
  ultimately obtain ua' t' where res: "coalesce_loop B ua ?t (length ls) = Some (ua', t')"
    "contig s (map snd t') e" "merged (map snd t')" "page_at (map snd t') = pg" "alloc_ready ua'"
    using coalesce_loop_ok[of s ls q c rs' e ua B] ct i(1) r(5) ua pg by auto
  have "CoalesceForUpdate m ua A n = Some (ua', m\<lparr>m_memory_block_tree := t'\<rparr>)"
    unfolding CoalesceForUpdate_def Let_def it B assms(2) i(3) using i(4) res(1) by auto
  with res show ?thesis by blast
qed

section \<open>The update loop\<close>

lemma update_order_wf: "wf update_order"
  by (simp add: update_order_def)

definition range_map ::
  "nat \<Rightarrow> nat \<Rightarrow> (page_props \<Rightarrow> page_props) \<Rightarrow> (nat \<Rightarrow> page_props option) \<Rightarrow> nat \<Rightarrow> page_props option"
  where
  "range_map A B F pg a = (if A \<le> a \<and> a < B then map_option F (pg a) else pg a)"

text \<open>
  The coalescing pass steps back one block unless the range starts the address space, so the
  range must not begin inside the first block unless that block is going to be split there.
\<close>

definition front :: "nat \<Rightarrow> nat \<Rightarrow> (KMemoryBlock \<Rightarrow> bool) \<Rightarrow> update_state \<Rightarrow> bool" where
  "front s A change st \<longleftrightarrow> A = s \<or> block_end (snd (hd (us_tree st))) \<le> A \<or>
     (us_cur st = A \<and> 0 < us_rem st \<and> change (snd (us_tree st ! us_it st)))"

definition visit_inv ::
  "nat \<Rightarrow> nat \<Rightarrow> nat \<Rightarrow> nat \<Rightarrow> (KMemoryBlock \<Rightarrow> bool) \<Rightarrow> (page_props \<Rightarrow> page_props) \<Rightarrow> (nat \<Rightarrow> page_props option)
    \<Rightarrow> update_state \<Rightarrow> bool" where
  "visit_inv s e A B change F pg st \<longleftrightarrow>
     tree_inv s e A B (range_map A (us_cur st) F pg) (us_tree st) \<and>
     us_cur st + us_rem st * PageSize = B \<and> A \<le> us_cur st \<and> PageSize dvd us_cur st \<and>
     alloc_ready (us_alloc st) \<and> front s A change st \<and>
     (0 < us_rem st \<longrightarrow>
        us_it st < length (us_tree st) \<and> covers (snd (us_tree st ! us_it st)) (us_cur st) \<and>
        needed (us_tree st) (us_cur st) + needed (us_tree st) B \<le> ua_left (us_alloc st))"

text \<open>A visit behind the first block leaves the first block alone.\<close>

definition keeps_first :: "update_state \<Rightarrow> update_state \<Rightarrow> bool" where
  "keeps_first st st' \<longleftrightarrow> (0 < us_it st \<longrightarrow> 0 < us_it st' \<and> hd (us_tree st') = hd (us_tree st))"

text \<open>
  What the loop needs of the test and of the change: both depend only on the properties of a block,
  and the change leaves the extent of the block alone.
\<close>

locale block_change =
  fixes change :: "KMemoryBlock \<Rightarrow> bool"
    and f :: "nat \<Rightarrow> KMemoryBlock \<Rightarrow> KMemoryBlock"
    and F :: "page_props \<Rightarrow> page_props"
  assumes change_props: "props x = props y \<Longrightarrow> change x = change y"
    and geometry: "m_address (f c x) = m_address x" "m_num_pages (f c x) = m_num_pages x"
    and changed: "change x \<Longrightarrow> props (f c x) = F (props x)"
    and unchanged: "\<not> change x \<Longrightarrow> F (props x) = props x"
begin

text \<open>The block after the current one, when pages remain.\<close>

lemma next_block:
  assumes ct: "contig s (map snd (ds @ (p, b) # rs)) e" and "block_end b < B" "B \<le> e"
  shows "Suc (length ds) < length (ds @ (p, b) # rs)"
    "covers (snd ((ds @ (p, b) # rs) ! Suc (length ds))) (block_end b)"
    "needed (ds @ (p, b) # rs) (block_end b) = 0"
proof -
  have "contig (block_end b) (map snd rs) e" using ct by (auto simp: contig_append)
  then obtain q c rs' where rs: "rs = (q, c) # rs'" "m_address c = block_end b" "0 < m_num_pages c"
    using assms(2,3) by (cases rs) auto
  then have "\<not> interior (map snd (ds @ [(p, b)]) @ c # map snd rs') (m_address c)"
    using ct by (intro not_interior_block_start) simp
  then show "needed (ds @ (p, b) # rs) (block_end b) = 0" using rs by (simp add: needed_def)
  show "Suc (length ds) < length (ds @ (p, b) # rs)" using rs by simp
  have "(ds @ (p, b) # (q, c) # rs') ! Suc (length ds) = (q, c)"
    by (metis append.assoc append_Cons append_Nil length_append_singleton nth_append_length)
  then show "covers (snd ((ds @ (p, b) # rs) ! Suc (length ds))) (block_end b)"
    using rs block_end_gt[of c] by (simp add: covers_def)
qed

lemma visit_skip:
  assumes inv: "visit_inv s e A B change F pg st" "e < two64" "B \<le> e" "PageSize dvd s"
    and t: "us_tree st = ds @ (p, b) # rs" "us_it st = length ds" "0 < us_rem st" "\<not> change b"
  shows "\<exists>st'. visit change f st = Some st' \<and> visit_inv s e A B change F pg st' \<and> keeps_first st st'"
proof -
  let ?c = "us_cur st" and ?n = "us_rem st * PageSize"
  have I: "tree_inv s e A B (range_map A ?c F pg) (us_tree st)" "?c + ?n = B" "A \<le> ?c"
    "PageSize dvd ?c" "alloc_ready (us_alloc st)" "covers b ?c"
    "needed (us_tree st) ?c + needed (us_tree st) B \<le> ua_left (us_alloc st)"
    using inv(1) t by (auto simp: visit_inv_def)
  have ct: "contig s (map snd (ds @ (p, b) # rs)) e" using I(1) t by (simp add: tree_inv_def)
  have mem: "block_end b \<le> e" "0 < m_num_pages b" using contig_member[OF ct, of b] by auto
  have g: "GetEndAddress b = block_end b" using block_getters[of b] mem inv(2) by simp
  have n: "mul64 (us_rem st) PageSize = ?n" "add64 ?c ?n = B"
    using I(2) inv(2,3) by (simp_all add: mul64_eq add64_eq)
  have pgb: "pg a = Some (props b)" if "?c \<le> a" "covers b a" for a
  proof -
    have "range_map A ?c F pg a = page_at (map snd (us_tree st)) a" using I(1) by (simp add: tree_inv_def)
    also have "\<dots> = Some (props b)"
      using page_at_split[of s "map snd ds" b "map snd rs" e a] ct t that(2) by (simp add: covers_def)
    finally show ?thesis using that(1) by (simp add: range_map_def)
  qed
  have same: "range_map A c' F pg = range_map A ?c F pg" if "?c \<le> c'" "c' \<le> block_end b" for c'
    using pgb that unchanged[OF t(4)] I(3,6) by (auto simp: range_map_def fun_eq_iff covers_def)
  have fr: "A = s \<or> block_end (snd (hd (us_tree st))) \<le> A"
    using inv(1) t by (auto simp: visit_inv_def front_def)
  have v: "visit change f st = Some ((skip_block ?n st)\<lparr>us_it := Suc (length ds)\<rparr>)"
    using t n by (simp add: visit_def)
  show ?thesis
  proof (cases "B < block_end b")
    case True
    have "skip_block ?n st = st\<lparr>us_rem := 0, us_cur := B\<rparr>"
      using True t n g by (simp add: skip_block_def)
    moreover have "PageSize dvd B" using I(2,4) by (metis dvd_add dvd_triv_right)
    ultimately show ?thesis
      using v I same[of B] True fr by (auto simp: visit_inv_def front_def keeps_first_def)
  next
    case False
    have sub: "sub64 B (block_end b) = B - block_end b" using False inv by (simp add: sub64_eq)
    have sk: "skip_block ?n st = st\<lparr>us_rem := (B - block_end b) div PageSize, us_cur := block_end b\<rparr>"
      using False t n g sub by (simp add: skip_block_def)
    have ce: "?c < block_end b" using I(6) by (simp add: covers_def)
    have "m_address b \<le> ?c" using I(6) by (simp add: covers_def)
    have "PageSize dvd B" using I(2,4) by (metis dvd_add dvd_triv_right)
    then have dv: "PageSize dvd block_end b" "PageSize dvd B - block_end b"
      using block_end_dvd contig_member_dvd[OF ct inv(4), of b] by auto
    have nx: "block_end b < B \<Longrightarrow> Suc (length ds) < length (us_tree st)"
      "block_end b < B \<Longrightarrow> covers (snd (us_tree st ! Suc (length ds))) (block_end b)"
      "block_end b < B \<Longrightarrow> needed (us_tree st) (block_end b) = 0"
      using next_block[OF ct _ inv(3)] t by auto
    have pos: "block_end b < B" if "0 < (B - block_end b) div PageSize"
      by (rule ccontr) (use that in simp)
    have "visit_inv s e A B change F pg (st\<lparr>us_rem := (B - block_end b) div PageSize,
        us_cur := block_end b, us_it := Suc (length ds)\<rparr>)"
      using I same[of "block_end b"] ce dv nx[OF pos] False fr by (simp add: visit_inv_def front_def)
    then show ?thesis using v sk by (simp add: keeps_first_def)
  qed
qed

lemma visit_change:
  assumes inv: "visit_inv s e A B change F pg st" "e < two64" "B \<le> e" "PageSize dvd s"
    and t: "us_tree st = ds @ (p, b) # rs" "us_it st = length ds" "0 < us_rem st" "change b"
  shows "\<exists>st'. visit change f st = Some st' \<and> visit_inv s e A B change F pg st' \<and> keeps_first st st'"
proof -
  let ?c = "us_cur st" and ?n = "us_rem st * PageSize" and ?pg = "range_map A (us_cur st) F pg"
  have I: "tree_inv s e A B ?pg (us_tree st)" "?c + ?n = B" "A \<le> ?c"
    "PageSize dvd ?c" "alloc_ready (us_alloc st)" "covers b ?c" "?c \<le> B"
    "needed (us_tree st) ?c + needed (us_tree st) B \<le> ua_left (us_alloc st)"
    using inv(1) t by (auto simp: visit_inv_def)
  have n: "mul64 (us_rem st) PageSize = ?n" using I(2) inv(2,3) by (simp add: mul64_eq)
  from split_before_ok[OF I(1) inv(2,4) I(4,3,7) t(1,2) I(6,5,8)] obtain ua1 ds1 b1 where 1:
    "split_before st = Some (st\<lparr>us_alloc := ua1, us_tree := ds1 @ (p, b1) # rs, us_it := length ds1\<rparr>)"
    "tree_inv s e A B ?pg (ds1 @ (p, b1) # rs)" "m_address b1 = ?c" "block_end b1 = block_end b"
    "0 < m_num_pages b1" "props b1 = props b" "alloc_ready ua1"
    "needed (ds1 @ (p, b1) # rs) B \<le> ua_left ua1" "\<exists>xs. ds1 = ds @ xs" by metis
  let ?st1 = "st\<lparr>us_alloc := ua1, us_tree := ds1 @ (p, b1) # rs, us_it := length ds1\<rparr>"
  have h: "tree_inv s e A B ?pg (us_tree ?st1)" "A \<le> us_cur ?st1"
    "B = us_cur ?st1 + us_rem ?st1 * PageSize" "0 < us_rem ?st1"
    "us_tree ?st1 = ds1 @ (p, b1) # rs" "us_it ?st1 = length ds1" "m_address b1 = us_cur ?st1"
    "alloc_ready (us_alloc ?st1)" "needed (us_tree ?st1) B \<le> ua_left (us_alloc ?st1)"
    using 1 I t(3) by simp_all
  have rc: "us_rem ?st1 = us_rem st" "us_cur ?st1 = ?c" by simp_all
  from split_after_ok[OF h(1) inv(2,4) h(2-4) inv(3) h(5-9), unfolded rc]
  obtain ua2 p2 b2 rs2 where 2: "split_after ?n ?st1 =
       Some (?st1\<lparr>us_alloc := ua2, us_tree := ds1 @ (p2, b2) # rs2, us_it := length ds1\<rparr>)"
    "tree_inv s e A B ?pg (ds1 @ (p2, b2) # rs2)" "m_address b2 = ?c"
    "block_end b2 = min (block_end b1) B" "0 < m_num_pages b2" "props b2 = props b1"
    "alloc_ready ua2" "block_end b2 < B \<longrightarrow> needed (ds1 @ (p2, b2) # rs2) B \<le> ua_left ua2"
    by metis
  let ?e2 = "block_end b2" and ?t3 = "ds1 @ (p2, f ?c b2) # rs2"
  have ct: "contig s (map snd (ds1 @ (p2, b2) # rs2)) e" using 2(2) by (simp add: tree_inv_def)
  have le: "?e2 \<le> B" "?e2 < two64" using 2(4) inv(2,3) by auto
  note g = block_getters[OF le(2) 2(5)]
  have e2: "?c + m_num_pages b2 * PageSize = ?e2" using 2(3) by (simp add: block_end_def)
  have "m_num_pages b2 * PageSize \<le> us_rem st * PageSize" using e2 le(1) I(2) by linarith
  then have np: "m_num_pages b2 \<le> us_rem st" by simp
  have ch: "change b2" using change_props[of b2 b] 1(6) 2(6) t(4) by simp
  have v: "visit change f st = Some (st\<lparr>us_alloc := ua2, us_tree := ?t3, us_it := Suc (length ds1),
      us_cur := ?e2, us_rem := us_rem st - m_num_pages b2\<rparr>)"
  proof -
    have "us_rem st < two64" using I(2) inv(2,3) by (simp add: PageSize_def)
    with np have "sub64 (us_rem st) (m_num_pages b2) = us_rem st - m_num_pages b2"
      by (simp add: sub64_eq)
    with t n 1(1) 2(1) g e2 le show ?thesis
      by (simp add: visit_def change_block_def add64_eq)
  qed
  have pg2: "pg a = Some (props b2)" if "covers b2 a" for a
  proof -
    have "?pg a = page_at (map snd (ds1 @ (p2, b2) # rs2)) a" using 2(2) by (simp add: tree_inv_def)
    also have "\<dots> = Some (props b2)"
      using page_at_split[of s "map snd ds1" b2 "map snd rs2" e a] ct that by (simp add: covers_def)
    finally show ?thesis using that 2(3) by (simp add: range_map_def covers_def)
  qed
  have "(\<lambda>a. if covers b2 a then Some (props (f ?c b2)) else ?pg a) = range_map A ?e2 F pg"
    using pg2 changed[OF ch] 2(3) I(3) e2
    by (auto simp: range_map_def fun_eq_iff covers_def)
  with tree_inv_change[OF 2(2), of "f ?c b2"] geometry 2(3) I(3) le(1)
  have inv3: "tree_inv s e A B (range_map A ?e2 F pg) ?t3" by simp
  have fr: "A = s \<or> block_end (snd (hd ?t3)) \<le> A"
  proof (cases "ds1 = []")
    case True
    then have "?c = s" using ct 2(3) by simp
    moreover have "s \<le> A"
      using inv(1) t(1) True 1(9) I(6) by (auto simp: visit_inv_def front_def covers_def \<open>?c = s\<close>)
    ultimately show ?thesis using I(3) by simp
  next
    case False
    then obtain m where "contig s (map snd ds1) m" "m = ?c" using ct 2(3) by (auto simp: contig_append)
    then have "block_end (snd (hd ds1)) \<le> ?c"
      using contig_member[of s "map snd ds1" m "snd (hd ds1)"] False by simp
    moreover have "hd ?t3 = hd ds1" using False by simp
    moreover have "hd (us_tree st) = hd ds1" if "ds \<noteq> []" using that 1(9) t(1) by auto
    moreover have "ds \<noteq> []" if "block_end (snd (hd (us_tree st))) \<le> A"
      using that t(1) I(3,6) by (cases ds) (auto simp: covers_def)
    ultimately show ?thesis using inv(1) by (auto simp: visit_inv_def front_def)
  qed
  have "PageSize dvd ?e2" using e2 I(4) by (metis dvd_add dvd_triv_right)
  moreover have "?e2 + (us_rem st - m_num_pages b2) * PageSize = B"
    using e2 np I(2) by (simp add: diff_mult_distrib)
  moreover have "?e2 < B \<Longrightarrow> Suc (length ds1) < length ?t3 \<and> covers (snd (?t3 ! Suc (length ds1))) ?e2
      \<and> needed ?t3 ?e2 = 0 \<and> needed ?t3 B \<le> ua_left ua2"
  proof -
    assume lt: "?e2 < B"
    have ct3: "contig s (map snd ?t3) e" using inv3 by (simp add: tree_inv_def)
    have be: "block_end (f ?c b2) = ?e2" using geometry by (simp add: block_end_def)
    have "needed ?t3 B = needed (ds1 @ (p2, b2) # rs2) B"
      using geometry be by (simp add: needed_def interior_def)
    with lt next_block[OF ct3 _ inv(3)] be 2(8) show ?thesis by auto
  qed
  ultimately have "visit_inv s e A B change F pg (st\<lparr>us_alloc := ua2, us_tree := ?t3, us_it := Suc (length ds1),
      us_cur := ?e2, us_rem := us_rem st - m_num_pages b2\<rparr>)"
    using inv3 I(3) e2 2(7) le(1) fr by (auto simp: visit_inv_def front_def)
  moreover have "hd ?t3 = hd (us_tree st)" if "ds \<noteq> []" using that 1(9) t(1) by (cases ds) auto
  ultimately show ?thesis using v t(2) by (auto simp: keeps_first_def)
qed

lemma visit_ok:
  assumes "visit_inv s e A B change F pg st" "e < two64" "B \<le> e" "PageSize dvd s" "0 < us_rem st"
  shows "\<exists>st'. visit change f st = Some st' \<and> visit_inv s e A B change F pg st' \<and> keeps_first st st'"
proof -
  have "us_it st < length (us_tree st)" using assms(1,5) by (simp add: visit_inv_def)
  then obtain ds p b rs where "us_tree st = ds @ (p, b) # rs" "us_it st = length ds"
    by (metis id_take_nth_drop length_take min.absorb4 surj_pair)
  then show ?thesis
    using visit_skip[OF assms(1-4)] visit_change[OF assms(1-4)] assms(5) by blast
qed

lemma update_loop_ok:
  assumes "visit_inv s e A B change F pg st" "e < two64" "B \<le> e" "PageSize dvd s"
  shows "\<exists>st'. update_loop change f st = Some st' \<and> visit_inv s e A B change F pg st' \<and> us_rem st' = 0 \<and> keeps_first st st'"
  using assms(1)
proof (induction st rule: wf_induct_rule[OF update_order_wf])
  case (1 st)
  show ?case
  proof (cases "us_rem st = 0")
    case True
    with 1(2) show ?thesis by (auto simp: update_loop.simps keeps_first_def)
  next
    case False
    with visit_ok[OF 1(2) assms(2-4)] obtain st'
      where st': "visit change f st = Some st'" "visit_inv s e A B change F pg st'" "keeps_first st st'" by auto
    with 1(1)[OF visit_order[OF st'(1)] st'(2)] False show ?thesis
      by (auto simp: update_loop.simps[of _ _ st] keeps_first_def)
  qed
qed

lemma update_range_ok:
  assumes wf: "contig s (map snd (m_memory_block_tree m)) e" "merged (map snd (m_memory_block_tree m))"
      "m_start_address m = s" "PageSize dvd s" "e < two64"
    and r: "s \<le> A" "0 < n" "A + n * PageSize \<le> e" "PageSize dvd A"
    and ua: "alloc_ready ua" "needed (m_memory_block_tree m) A
      + needed (m_memory_block_tree m) (A + n * PageSize) \<le> ua_left ua"
    and fr: "A = s \<or> block_end (snd (hd (m_memory_block_tree m))) \<le> A
      \<or> change (the (FindBlock m A))"
  shows "\<exists>ua' t'. update_range m ua A n change f = Some (ua', m\<lparr>m_memory_block_tree := t'\<rparr>) \<and>
    contig s (map snd t') e \<and> merged (map snd t') \<and> alloc_ready ua' \<and>
    page_at (map snd t') = range_map A (A + n * PageSize) F (page_at (map snd (m_memory_block_tree m)))"
proof -
  let ?t = "m_memory_block_tree m" and ?B = "A + n * PageSize"
  let ?st = "\<lparr>us_alloc = ua, us_tree = ?t, us_it = FindIterator m A, us_cur = A, us_rem = n\<rparr>"
  have lt: "A < e" using r by (metis add_gr_0 less_add_same_cancel1 nat_0_less_mult_iff order_less_le_trans PageSize_pos)
  obtain ds p b rs where t: "?t = ds @ (p, b) # rs" "covers b A" using covering_block[OF wf(1) r(1) lt] .
  have it: "FindIterator m A = length ds"
    using tree_find_at[of s ds p b rs e A] wf(1,5) t by (simp add: FindIterator_def)
  have fb: "FindBlock m A = Some b" using it t by (simp add: FindBlock_def)
  have "successively (apart A ?B) (map snd ?t)"
    using wf(2) unfolding merged_def by (rule successively_mono) (simp add: apart_def)
  moreover have "range_map A A F pg = pg" for pg
    by (auto simp: range_map_def fun_eq_iff)
  ultimately have "visit_inv s e A ?B change F (page_at (map snd ?t)) ?st"
    using wf(1) r ua t it fr fb by (auto simp: visit_inv_def tree_inv_def front_def)
  from update_loop_ok[OF this wf(5) r(3) wf(4)] obtain st' where
    st': "update_loop change f ?st = Some st'" "us_rem st' = 0"
      "visit_inv s e A ?B change F (page_at (map snd ?t)) st'" by blast
  let ?m = "m\<lparr>m_memory_block_tree := us_tree st'\<rparr>"
  have fin: "us_cur st' = ?B" "alloc_ready (us_alloc st')"
    "A = s \<or> block_end (snd (hd (us_tree st'))) \<le> A"
    "tree_inv s e A ?B (range_map A ?B F (page_at (map snd ?t))) (m_memory_block_tree ?m)"
    using st' by (auto simp: visit_inv_def front_def)
  have "update_range m ua A n change f = CoalesceForUpdate ?m (us_alloc st') A n"
    using st'(1) by (simp add: update_range_def)
  moreover have "m_start_address ?m = s" "A = s \<or> block_end (snd (hd (m_memory_block_tree ?m))) \<le> A"
    using wf(3) fin(3) by simp_all
  note CoalesceForUpdate_ok[OF fin(4) this(1) r(1) lt refl r(3) wf(5) this(2) fin(2)]
  ultimately show ?thesis by (simp, blast)
qed

end

section \<open>The three update operations\<close>

definition reserved_attr :: KMemoryAttribute where
  "reserved_attr = IpcLocked OR DeviceShared"

fun props_match :: "KMemoryState \<Rightarrow> KMemoryPermission \<Rightarrow> KMemoryAttribute \<Rightarrow> page_props \<Rightarrow> bool" where
  "props_match s p a (st, pm, op, at, ic, dc) \<longleftrightarrow>
     st = s \<and> pm = p \<and> at OR reserved_attr = a OR reserved_attr"

fun props_set :: "KMemoryState \<Rightarrow> KMemoryPermission \<Rightarrow> KMemoryAttribute \<Rightarrow> page_props \<Rightarrow> page_props" where
  "props_set s p a (st, pm, op, at, ic, dc) = (s, p, op, a OR (at AND reserved_attr), ic, dc)"

lemma HasProperties_props: "HasProperties b s p a \<longleftrightarrow> props_match s p a (props b)"
  by (simp add: HasProperties_def props_def reserved_attr_def)

lemma KMemoryBlock_Update_simps:
  "m_address (KMemoryBlock_Update b s p a d sm cm) = m_address b"
  "m_num_pages (KMemoryBlock_Update b s p a d sm cm) = m_num_pages b"
  "props (KMemoryBlock_Update b s p a d sm cm) = props_set s p a (props b)"
  by (simp_all add: KMemoryBlock_Update_def Let_def props_def reserved_attr_def)

lemma props_set_match:
  "a AND reserved_attr = 0 \<Longrightarrow> props_match s p a x \<Longrightarrow> props_set s p a x = x"
proof (cases x)
  case (fields st pm op at ic dc)
  assume z: "a AND reserved_attr = 0" and "props_match s p a x"
  then have "st = s" "pm = p" and eq: "at OR reserved_attr = a OR reserved_attr"
    using fields by auto
  moreover have "a OR (at AND reserved_attr) = at"
  proof (rule bit_eqI)
    fix n
    have "bit (at OR reserved_attr) n = bit (a OR reserved_attr) n"
      "\<not> (bit a n \<and> bit reserved_attr n)"
      using eq z by (metis, metis bit_and_iff bit_0_eq bot_apply bot_bool_def z)
    then show "bit (a OR (at AND reserved_attr)) n = bit at n"
      by (auto simp: bit_and_iff bit_or_iff)
  qed
  ultimately show ?thesis using fields by simp
qed

interpretation update: block_change
  "\<lambda>b. \<not> HasProperties b state perm attr"
  "\<lambda>cur b. KMemoryBlock_Update b state perm attr (cur = address) sm cm"
  "\<lambda>x. if props_match state perm attr x then x else props_set state perm attr x"
  for state perm attr address sm cm
  by unfold_locales (simp_all add: HasProperties_props KMemoryBlock_Update_simps)

interpretation match: block_change
  "\<lambda>b. HasProperties b ts tp ta \<and> \<not> HasProperties b state perm attr"
  "\<lambda>cur b. KMemoryBlock_Update b state perm attr False 0 0"
  "\<lambda>x. if props_match ts tp ta x \<and> \<not> props_match state perm attr x
       then props_set state perm attr x else x"
  for ts tp ta state perm attr
  by unfold_locales (auto simp: HasProperties_props KMemoryBlock_Update_simps)

text \<open>A lock function acts on the properties of every block of its range.\<close>

locale lock_function =
  fixes lock_func :: "KMemoryBlock \<Rightarrow> KMemoryPermission \<Rightarrow> bool \<Rightarrow> bool \<Rightarrow> KMemoryBlock"
    and G :: "KMemoryPermission \<Rightarrow> page_props \<Rightarrow> page_props"
  assumes lock_geometry: "m_address (lock_func b perm l r) = m_address b"
      "m_num_pages (lock_func b perm l r) = m_num_pages b"
    and lock_props: "props (lock_func b perm l r) = G perm (props b)"

sublocale lock_function \<subseteq> lock: block_change "\<lambda>b. True"
  "\<lambda>cur b. lock_func b perm (GetAddress b = address) (GetEndAddress b = end_address)" "G perm"
  for perm address end_address
  by unfold_locales (simp_all add: lock_geometry lock_props)

fun props_lock_ipc :: "KMemoryPermission \<Rightarrow> page_props \<Rightarrow> page_props" where
  "props_lock_ipc np (st, pm, op, at, ic, dc) =
     (if ic + 1 = 1
      then (st, (np AND IpcLockChangeMask) OR (pm AND NOT IpcLockChangeMask), pm, at OR IpcLocked, ic + 1, dc)
      else (st, pm, op, at OR IpcLocked, ic + 1, dc))"

fun props_unlock_ipc :: "KMemoryPermission \<Rightarrow> page_props \<Rightarrow> page_props" where
  "props_unlock_ipc np (st, pm, op, at, ic, dc) =
     (if ic = 1 then (st, op, 0, at AND NOT IpcLocked, ic - 1, dc) else (st, pm, op, at, ic - 1, dc))"

fun props_share :: "KMemoryPermission \<Rightarrow> page_props \<Rightarrow> page_props" where
  "props_share np (st, pm, op, at, ic, dc) = (st, pm, op, at OR DeviceShared, ic, dc + 1)"

fun props_unshare :: "KMemoryPermission \<Rightarrow> page_props \<Rightarrow> page_props" where
  "props_unshare np (st, pm, op, at, ic, dc) =
     (st, pm, op, if dc = 1 then at AND NOT DeviceShared else at, ic, dc - 1)"

interpretation ipc_lock: lock_function LockForIpc props_lock_ipc
  by unfold_locales (auto simp: LockForIpc_def Let_def props_def)

interpretation ipc_unlock: lock_function UnlockForIpc props_unlock_ipc
  by unfold_locales (auto simp: UnlockForIpc_def Let_def props_def)

lemmas device_defs =
  ShareToDevice_def UnshareToDevice_def device_release_def Let_def
  UpdateDeviceDisableMergeStateForShare_def UpdateDeviceDisableMergeStateForShareLeft_def
  UpdateDeviceDisableMergeStateForShareRight_def UpdateDeviceDisableMergeStateForUnshare_def
  UpdateDeviceDisableMergeStateForUnshareLeft_def UpdateDeviceDisableMergeStateForUnshareRight_def

interpretation device_share: lock_function ShareToDevice props_share
  by unfold_locales (auto simp: device_defs props_def)

interpretation device_unshare: lock_function UnshareToDevice props_unshare
  by unfold_locales (auto simp: device_defs props_def)

section \<open>Well-formed managers\<close>

fun props_flags :: "page_props \<Rightarrow> bool" where
  "props_flags (st, pm, op, at, ic, dc) \<longleftrightarrow>
     \<not> (at AND IpcLocked \<noteq> 0 \<and> ic = 0) \<and> \<not> (at AND DeviceShared \<noteq> 0 \<and> dc = 0)"

lemma flags_counted_props: "flags_counted b = props_flags (props b)"
  by (simp add: flags_counted_def props_def)

declare props_flags.simps [simp del]

definition manager_wf :: "KMemoryBlockManager \<Rightarrow> bool" where
  "manager_wf m \<longleftrightarrow>
     contig (m_start_address m) (map snd (m_memory_block_tree m)) (m_end_address m) \<and>
     PageSize dvd m_start_address m \<and> m_end_address m < two64 \<and>
     merged (map snd (m_memory_block_tree m)) \<and>
     list_all flags_counted (map snd (m_memory_block_tree m))"

definition manager_pages :: "KMemoryBlockManager \<Rightarrow> nat \<Rightarrow> page_props option" where
  "manager_pages m = page_at (map snd (m_memory_block_tree m))"

text \<open>The range lies in the address space, and enough blocks are at hand to split at its ends.\<close>

definition range_ok :: "KMemoryBlockManager \<Rightarrow> UpdateAllocator \<Rightarrow> nat \<Rightarrow> nat \<Rightarrow> bool" where
  "range_ok m ua A n \<longleftrightarrow>
     m_start_address m \<le> A \<and> 0 < n \<and> A + n * PageSize \<le> m_end_address m \<and> PageSize dvd A \<and>
     alloc_ready ua \<and>
     needed (m_memory_block_tree m) A + needed (m_memory_block_tree m) (A + n * PageSize) \<le> ua_left ua"

definition not_in_first_block :: "KMemoryBlockManager \<Rightarrow> nat \<Rightarrow> bool" where
  "not_in_first_block m A \<longleftrightarrow>
     A = m_start_address m \<or> block_end (snd (hd (m_memory_block_tree m))) \<le> A"

lemma check_state_loop_wf:
  "contig s (b # bs) e \<Longrightarrow> e < two64 \<Longrightarrow> merged (b # bs) \<Longrightarrow> list_all flags_counted (b # bs)
    \<Longrightarrow> check_state_loop b bs"
proof (induction bs arbitrary: s b)
  case (Cons c bs)
  have "block_end b < two64" "0 < m_num_pages b"
    using contig_member[OF Cons.prems(1), of b] Cons.prems(2) by auto
  then have "GetEndAddress b = block_end b" by (rule block_getters)
  with Cons.IH[of "block_end b" c] Cons.prems show ?case
    by (auto simp: merged_def GetAddress_def)
qed simp

lemma manager_wf_CheckState: "manager_wf m \<Longrightarrow> CheckState m"
  by (auto simp: manager_wf_def CheckState_def intro: check_state_loop_wf split: list.splits)

lemma flags_from_pages:
  assumes "contig s bs e"
  shows "list_all flags_counted bs \<longleftrightarrow> (\<forall>a x. page_at bs a = Some x \<longrightarrow> props_flags x)"
proof
  assume all: "list_all flags_counted bs"
  have "props_flags x" if "page_at bs a = Some x" for a x
  proof -
    from that obtain b where "b \<in> set bs" "x = props b"
      by (auto simp: page_at_def find_Some_iff in_set_conv_nth)
    with all show ?thesis by (simp add: list_all_iff flags_counted_props)
  qed
  then show "\<forall>a x. page_at bs a = Some x \<longrightarrow> props_flags x" by blast
next
  assume a: "\<forall>a x. page_at bs a = Some x \<longrightarrow> props_flags x"
  have "flags_counted b" if b: "b \<in> set bs" for b
  proof -
    from b obtain xs ys where l: "bs = xs @ b # ys" by (metis in_set_conv_decomp)
    have "m_address b < block_end b" using contig_member[OF assms b] by simp
    then have "page_at bs (m_address b) = Some (props b)"
      using page_at_split[of s xs b ys e "m_address b"] assms l by simp
    with a show ?thesis unfolding flags_counted_props by blast
  qed
  then show "list_all flags_counted bs" by (simp add: list_all_iff)
qed

context block_change
begin

lemma update_range_refines:
  assumes "manager_wf m" "range_ok m ua A n"
    and "not_in_first_block m A \<or> change (the (FindBlock m A))"
    and "\<And>a x. A \<le> a \<Longrightarrow> a < A + n * PageSize \<Longrightarrow> manager_pages m a = Some x \<Longrightarrow> props_flags x
      \<Longrightarrow> props_flags (F x)"
  shows "\<exists>ua' m'. update_range m ua A n change f = Some (ua', m') \<and> manager_wf m' \<and> alloc_ready ua' \<and>
    m_start_address m' = m_start_address m \<and> m_end_address m' = m_end_address m \<and>
    manager_pages m' = range_map A (A + n * PageSize) F (manager_pages m)"
proof -
  let ?t = "m_memory_block_tree m" and ?pg = "page_at (map snd (m_memory_block_tree m))"
  obtain ua' t' where r: "update_range m ua A n change f = Some (ua', m\<lparr>m_memory_block_tree := t'\<rparr>)"
    "contig (m_start_address m) (map snd t') (m_end_address m)" "merged (map snd t')" "alloc_ready ua'"
    "page_at (map snd t') = range_map A (A + n * PageSize) F ?pg"
    using update_range_ok[of "m_start_address m" m "m_end_address m" A n ua] assms(1-3)
    unfolding manager_wf_def range_ok_def not_in_first_block_def by blast
  have old: "props_flags x" if "?pg a = Some x" for a x
    using that assms(1) flags_from_pages[of "m_start_address m" "map snd ?t" "m_end_address m"]
    unfolding manager_wf_def by blast
  have "props_flags x" if "page_at (map snd t') a = Some x" for a x
  proof (cases "A \<le> a \<and> a < A + n * PageSize")
    case True
    then have "map_option F (?pg a) = Some x" using that unfolding r(5) range_map_def by simp
    then obtain y where "?pg a = Some y" "x = F y" unfolding map_option_eq_Some by blast
    with True assms(4)[of a y] old show ?thesis by (simp add: manager_pages_def)
  next
    case False
    with that r(5) old show ?thesis by (auto simp: range_map_def)
  qed
  then have "list_all flags_counted (map snd t')" using flags_from_pages[OF r(2)] by simp
  with r assms(1) show ?thesis by (auto simp: manager_wf_def manager_pages_def)
qed

text \<open>A range that begins inside a first block which is not to be changed: the block stays first, and coalescing steps back from it.\<close>

lemma loop_behind_first:
  assumes wf: "manager_wf m" and r: "range_ok m ua A n" and t: "m_memory_block_tree m = (p, b) # rs" and a: "m_address b < A" "A < block_end b"
    and B: "block_end b \<le> A + n * PageSize"
  shows "\<exists>st'. update_loop change f \<lparr>us_alloc = ua, us_tree = m_memory_block_tree m, us_it = 1, us_cur = block_end b,
      us_rem = (A + n * PageSize - block_end b) div PageSize\<rparr> = Some st' \<and>
    hd (us_tree st') = (p, b) \<and> contig (m_start_address m) (map snd (us_tree st')) (m_end_address m)"
proof -
  let ?t = "m_memory_block_tree m" and ?A = "block_end b" and ?B = "A + n * PageSize"
  let ?s = "m_start_address m" and ?e = "m_end_address m"
  let ?st = "\<lparr>us_alloc = ua, us_tree = ?t, us_it = 1, us_cur = ?A, us_rem = (?B - ?A) div PageSize\<rparr>"
  have w: "contig ?s (map snd ([] @ (p, b) # rs)) ?e" "PageSize dvd ?s" "?e < two64" "merged (map snd ?t)" using wf t by (simp_all add: manager_wf_def)
  have ro: "?B \<le> ?e" "PageSize dvd A" "alloc_ready ua" "needed ?t A + needed ?t ?B \<le> ua_left ua" using r by (simp_all add: range_ok_def)
  have dv: "PageSize dvd ?A" "PageSize dvd ?B - ?A"
    using block_end_dvd contig_member_dvd[OF w(1,2), of b] ro(2) by (auto intro: dvd_diff_nat)
  have pos: "?A < ?B" if "0 < (?B - ?A) div PageSize" by (rule ccontr) (use that in simp)
  have "successively (apart ?A ?B) (map snd ?t)" using w(4) unfolding merged_def by (rule successively_mono) (simp add: apart_def)
  moreover have "range_map ?A ?A F pg = pg" for pg by (auto simp: range_map_def fun_eq_iff)
  ultimately have "visit_inv ?s ?e ?A ?B change F (page_at (map snd ?t)) ?st"
    using w(1) ro dv B next_block[OF w(1) pos ro(1)] t by (auto simp: visit_inv_def tree_inv_def front_def)
  from update_loop_ok[OF this w(3) ro(1) w(2)] show ?thesis using t by (auto simp: visit_inv_def tree_inv_def keeps_first_def)
qed

lemma update_range_first_block:
  assumes wf: "manager_wf m" and r: "range_ok m ua A n" and t: "m_memory_block_tree m = (p, b) # rs" and a: "m_address b < A" "A < block_end b"
    and ch: "\<not> change b"
  shows "update_range m ua A n change f = None"
proof -
  let ?t = "m_memory_block_tree m" and ?B = "A + n * PageSize" and ?s = "m_start_address m" and ?e = "m_end_address m"
  let ?st = "\<lparr>us_alloc = ua, us_tree = ?t, us_it = 0, us_cur = A, us_rem = n\<rparr>"
  have w: "contig ?s (map snd ([] @ (p, b) # rs)) ?e" "?e < two64" "m_address b = ?s" using wf t by (simp_all add: manager_wf_def)
  have ro: "?B \<le> ?e" "0 < n" using r by (simp_all add: range_ok_def)
  have b: "block_end b < two64" "0 < m_num_pages b" using contig_member[OF w(1), of b] w(2) by auto
  have n: "mul64 n PageSize = n * PageSize" "add64 A (n * PageSize) = ?B" using ro w(2) by (simp_all add: mul64_eq add64_eq)
  have at: "FindIterator m' A = 0" if "m_memory_block_tree m' = (p, b) # rs'" "contig ?s (map snd ((p, b) # rs')) ?e" for m' rs'
    using tree_find_at[of ?s "[]" p b rs' ?e A] that w(2) a by (simp add: FindIterator_def covers_def)
  have "\<exists>st'. update_loop change f ?st = Some st' \<and> hd (us_tree st') = (p, b) \<and> contig ?s (map snd (us_tree st')) ?e"
  proof (cases "?B < block_end b")
    case True
    then have "visit change f ?st = Some (?st\<lparr>us_it := 1, us_cur := ?B, us_rem := 0\<rparr>)"
      using t ch n block_getters(2)[OF b] by (simp add: visit_def skip_block_def)
    then show ?thesis using ro(2) t w(1) by (simp add: update_loop.simps)
  next
    case False
    then have "visit change f ?st = Some (?st\<lparr>us_it := 1, us_cur := block_end b, us_rem := (?B - block_end b) div PageSize\<rparr>)"
      using t ch n ro w(2) block_getters(2)[OF b] by (simp add: visit_def skip_block_def sub64_eq)
    then show ?thesis using loop_behind_first[OF wf r t a] False ro(2) by (subst update_loop.simps) simp
  qed
  then obtain st where st: "update_loop change f ?st = Some st" "hd (us_tree st) = (p, b)" "contig ?s (map snd (us_tree st)) ?e" by blast
  have "us_tree st \<noteq> []" using st(3) w(1) b(2) contig_member[OF w(1), of b] by (cases "us_tree st") auto
  then obtain rs' where rs': "us_tree st = (p, b) # rs'" using st(2) by (cases "us_tree st") auto
  have "FindIterator m A = 0" "FindIterator (m\<lparr>m_memory_block_tree := us_tree st\<rparr>) A = 0" using at t w(1) rs' st(3) by auto
  then show ?thesis using st(1) a(1) w(3) by (simp add: update_range_def CoalesceForUpdate_def)
qed

end

lemma props_set_flags:
  "a AND reserved_attr = 0 \<Longrightarrow> props_flags x \<Longrightarrow> props_flags (props_set s p a x)"
proof (cases x)
  case (fields st pm op at ic dc)
  assume "a AND reserved_attr = 0"
  then have "a AND IpcLocked = 0" "a AND DeviceShared = 0"
    unfolding reserved_attr_def by (metis and_zero_eq or_and_zero_iff and.commute)+
  then have z: "(a OR (at AND reserved_attr)) AND IpcLocked = at AND IpcLocked"
    "(a OR (at AND reserved_attr)) AND DeviceShared = at AND DeviceShared"
    by (simp_all add: bit.conj_disj_distrib2 and.assoc reserved_attr_def IpcLocked_def DeviceShared_def)
  assume "props_flags x"
  with z fields show ?thesis by (simp add: props_flags.simps)
qed

lemma alloc_ready_new:
  assumes "n \<le> 2" "UpdateAllocator_new sm n = (ResultSuccess, ua)"
  shows "alloc_ready ua \<and> ua_left ua = n"
proof -
  have sub: "sub64 MaxBlocks n = 2 - n" using assms(1) by (simp add: sub64_eq MaxBlocks_def two64_def)
  have add: "add64 (2 - n) i = 2 - n + i" if "i < 2" for i
    using that by (simp add: add64_eq two64_def)
  consider "n = 0" | "n = 1" | "n = 2" using assms(1) by linarith
  then show ?thesis
    using assms(2) sub add[of 0] add[of 1]
    by cases (auto simp: UpdateAllocator_new_def MaxBlocks_def ua_fill.simps Let_def alloc_ready_def
        ua_left_def less_Suc_eq numeral_2_eq_2 split: prod.splits if_splits)
qed

lemma needed_le: "needed t a \<le> 1"
  by (simp add: needed_def)

lemma range_map_cong:
  "(\<And>x. F x = G x) \<Longrightarrow> range_map A B F pg = range_map A B G pg"
  by (metis ext)

lemma range_map_twice:
  assumes "\<And>a x. A \<le> a \<Longrightarrow> a < B \<Longrightarrow> pg a = Some x \<Longrightarrow> G (F x) = x"
  shows "range_map A B G (range_map A B F pg) = pg"
  using assms by (auto simp: range_map_def fun_eq_iff option.map_comp intro!: map_option_idI)

definition ipc_lockable :: "page_props \<Rightarrow> bool" where
  "ipc_lockable x = (case x of (st, pm, op, at, ic, dc) \<Rightarrow>
     ic \<noteq> -1 \<and> (ic = 0 \<longrightarrow> op = 0 \<and> at AND IpcLocked = 0) \<and> (ic \<noteq> 0 \<longrightarrow> at AND IpcLocked = IpcLocked))"

lemma ipc_unlock_lock_props:
  "ipc_lockable x \<Longrightarrow> props_unlock_ipc p (props_lock_ipc p x) = x"
  by (cases x) (auto simp: ipc_lockable_def or_and_not_restore or_absorb)

lemma props_lock_ipc_flags:
  assumes "ipc_lockable x" "props_flags x"
  shows "props_flags (props_lock_ipc p x)"
proof (cases x)
  case (fields st pm op at ic dc)
  have "(at OR IpcLocked) AND DeviceShared = at AND DeviceShared"
    by (simp add: bit.conj_disj_distrib2 IpcLocked_def DeviceShared_def)
  moreover have "ic + 1 \<noteq> 0" using assms(1) fields u16_inc_nonzero by (simp add: ipc_lockable_def)
  ultimately show ?thesis using assms(2) fields by (simp add: props_flags.simps)
qed

lemma props_unlock_ipc_flags: "props_flags x \<Longrightarrow> props_flags (props_unlock_ipc p x)"
proof (cases x)
  case (fields st pm op at ic dc)
  have "(at AND NOT IpcLocked) AND DeviceShared = at AND DeviceShared"
    "(at AND NOT IpcLocked) AND IpcLocked = 0"
    by (simp_all add: and.assoc IpcLocked_def DeviceShared_def)
  moreover assume "props_flags x"
  ultimately show ?thesis using fields by (auto simp: props_flags.simps)
qed

lemma find_free_area_loop_result:
  "find_free_area_loop t rs rl np al off g = r \<Longrightarrow> r \<noteq> 0 \<Longrightarrow>
    \<exists>n\<in>set t. m_memory_state (snd n) = KMemoryState_Free \<and> r = candidate_area (snd n) rs al off g \<and>
      GetAddress (snd n) \<le> r \<and>
      (let last = sub64 (add64 (add64 r (mul64 np PageSize)) (mul64 g PageSize)) 1
       in r < last \<and> last \<le> rl \<and> last \<le> GetLastAddress (snd n))"
proof (induction t)
  case (Cons n t)
  then show ?case by (auto simp: Let_def split: if_splits)
qed simp

lemma candidate_area_bounds:
  assumes "GetAddress b + rs + g * PageSize + off + 2 * al < two64" "0 < al"
  shows "max rs (GetAddress b) + g * PageSize \<le> candidate_area b rs al off g"
    "candidate_area b rs al off g mod al = off mod al"
proof -
  let ?a0 = "max rs (GetAddress b)"
  let ?a1 = "?a0 + g * PageSize"
  let ?o = "AlignDown ?a1 al + off"
  have d: "AlignDown ?a1 al \<le> ?a1" "?a1 < AlignDown ?a1 al + al"
    using AlignDown_le AlignDown_gt[OF assms(2)] by auto
  have eq: "candidate_area b rs al off g = (if ?a1 \<le> ?o then ?o else ?o + al)"
    using assms(1) d by (auto simp: candidate_area_def Let_def max_def mul64_eq add64_eq)
  then show "?a1 \<le> candidate_area b rs al off g" using d by auto
  obtain k where "AlignDown ?a1 al = al * k" using AlignDown_dvd by blast
  then show "candidate_area b rs al off g mod al = off mod al" using eq by simp
qed

section \<open>A small address space\<close>

text \<open>Used to instantiate the properties: eight free pages from \<open>4096\<close> on, two spare blocks.\<close>

definition sample_manager :: KMemoryBlockManager where
  "sample_manager =
     \<lparr>m_memory_block_tree = [(100, KMemoryBlock_new 4096 8 KMemoryState_Free 0 0)],
      m_start_address = 4096, m_end_address = 36864\<rparr>"

definition sample_slab :: KDynamicResourceManager where
  "sample_slab = \<lparr>m_object_size = 64, m_page_allocator = None,
     m_slab_heap = slab_empty\<lparr>m_head := [1, 2], m_count := 2\<rparr>\<rparr>"

definition sample_allocator :: UpdateAllocator where
  "sample_allocator = snd (UpdateAllocator_new sample_slab 2)"

lemma sample_allocator_new: "UpdateAllocator_new sample_slab MaxBlocks = (ResultSuccess, sample_allocator)"
  by (simp add: sample_allocator_def sample_slab_def UpdateAllocator_new_def MaxBlocks_def ua_fill.simps
      ResourceManager_Allocate_def Slab_Allocate_def SlabImpl_Allocate_def slab_track_def Let_def)

lemma sample_wf: "manager_wf sample_manager"
  by (simp add: manager_wf_def sample_manager_def merged_def flags_counted_def KMemoryBlock_new_def
      block_end_def PageSize_def two64_def)

lemma sample_range:
  assumes "n \<le> 6" "0 < n"
  shows "range_ok sample_manager sample_allocator 8192 n"
proof -
  have "alloc_ready sample_allocator" "ua_left sample_allocator = 2"
    using alloc_ready_new[of 2 sample_slab sample_allocator] sample_allocator_new
    by (auto simp: MaxBlocks_def)
  moreover have "needed t a + needed t b \<le> 2" for t a b
    using needed_le[of t a] needed_le[of t b] by simp
  ultimately show ?thesis
    using assms by (simp add: range_ok_def sample_manager_def PageSize_def)
qed

lemma sample_find: "FindBlock sample_manager 8192 = Some (KMemoryBlock_new 4096 8 KMemoryState_Free 0 0)"
  by (simp add: FindBlock_def FindIterator_def tree_find_def tree_position_def sample_manager_def
      Compare_key block_end_def KMemoryBlock_new_def PageSize_def two64_def)
    (simp add: Compare_def KMemoryBlock_new_def GetAddress_def GetLastAddress_def GetEndAddress_def
      GetSize_def GetNumPages_def PageSize_def mul64_def add64_def sub64_def two64_def)

section \<open>Properties\<close>

text \<open>\<open>Initialize\<close> covers the whole address space with free pages and leaves a tree that
  passes the auditor.\<close>

theorem manager_initialize_all_free:
  assumes "st < nd" and "nd < two64" and "PageSize dvd st" and "PageSize dvd nd"
    and "fst (ResourceManager_Allocate sm) \<noteq> None" and "m_memory_block_tree m0 = []"
  shows "\<exists>m sm'. Manager_Initialize m0 st nd sm = Some (ResultSuccess, m, sm') \<and> manager_wf m \<and>
    CheckState m \<and> manager_pages m =
      (\<lambda>a. if st \<le> a \<and> a < nd then Some (KMemoryState_Free, 0, 0, 0, 0, 0) else None)"
proof -
  obtain p sm' where p: "ResourceManager_Allocate sm = (Some p, sm')"
    using assms(5) by (cases "ResourceManager_Allocate sm") auto
  let ?b = "KMemoryBlock_Initialize (KMemoryBlock_new 0 0 0 0 0) st (sub64 nd st div PageSize) 0 0 0"
  let ?m = "\<lparr>m_memory_block_tree = [(p, ?b)], m_start_address = st, m_end_address = nd\<rparr>"
  have "PageSize dvd nd - st" using assms(3,4) by simp
  then have be: "block_end ?b = nd" "0 < m_num_pages ?b" "m_address ?b = st"
    using assms(1,2) by (auto simp: block_end_def KMemoryBlock_Initialize_def KMemoryBlock_new_def
        sub64_eq div_greater_zero_iff dvd_imp_le)
  have "manager_wf ?m"
    using be assms by (simp add: manager_wf_def merged_def flags_counted_def)
      (simp add: KMemoryBlock_Initialize_def)
  moreover have "manager_pages ?m =
      (\<lambda>a. if st \<le> a \<and> a < nd then Some (KMemoryState_Free, 0, 0, 0, 0, 0) else None)"
    using be by (auto simp: manager_pages_def page_at_Cons covers_def props_def fun_eq_iff
        KMemoryBlock_Initialize_def KMemoryState_Free_def)
  moreover have "Manager_Initialize m0 st nd sm = Some (ResultSuccess, ?m, sm')"
    using p assms(6) by (simp add: Manager_Initialize_def tree_insert_def tree_position_def
        KMemoryState_Free_def)
  ultimately show ?thesis using manager_wf_CheckState by blast
qed

theorem manager_initialize_all_free_witness:
  "\<exists>m sm'. Manager_Initialize \<lparr>m_memory_block_tree = [], m_start_address = 0, m_end_address = 0\<rparr>
     4096 36864 sample_slab = Some (ResultSuccess, m, sm') \<and> CheckState m"
proof -
  have "\<exists>m sm'. Manager_Initialize \<lparr>m_memory_block_tree = [], m_start_address = 0, m_end_address = 0\<rparr>
      4096 36864 sample_slab = Some (ResultSuccess, m, sm') \<and> manager_wf m \<and> CheckState m \<and>
      manager_pages m = (\<lambda>a. if 4096 \<le> a \<and> a < 36864 then Some (KMemoryState_Free, 0, 0, 0, 0, 0) else None)"
    by (rule manager_initialize_all_free)
      (simp_all add: PageSize_def two64_def sample_slab_def ResourceManager_Allocate_def
        Slab_Allocate_def SlabImpl_Allocate_def)
  then show ?thesis by blast
qed

text \<open>C2: \<open>Update\<close> changes exactly the pages of its range to the new state, permission and
  attributes (keeping the lock flags and counts of each page), touches no other page,
  returns with the blocks it was given, and leaves a well-formed, fully merged tree. This holds for every
  range of the address space that does not begin strictly inside the first block, and for one that does if this block has not
  yet the requested properties; in the remaining case \<open>Update\<close> is undefined
  (\<open>update_range_first_block\<close>). The range lies in the address space, the allocator holds a block for each of its ends that is not a
  block boundary, and the attributes are none of the two lock flags, as the assertion of the code demands.\<close>

theorem memory_update_refines:
  assumes "manager_wf m" and "range_ok m ua address num_pages" and "attr AND reserved_attr = 0"
    and "not_in_first_block m address \<or> \<not> HasProperties (the (FindBlock m address)) state perm attr"
  shows "\<exists>ua' m'. Manager_Update m ua address num_pages state perm attr sm cm = Some (ua', m') \<and>
    manager_wf m' \<and> CheckState m' \<and>
    manager_pages m' =
      range_map address (address + num_pages * PageSize) (props_set state perm attr) (manager_pages m)"
proof -
  let ?F = "\<lambda>x. if props_match state perm attr x then x else props_set state perm attr x"
  have F: "?F x = props_set state perm attr x" for x using props_set_match[OF assms(3)] by simp
  obtain ua' m' where "Manager_Update m ua address num_pages state perm attr sm cm = Some (ua', m')"
    "manager_wf m'" "manager_pages m' = range_map address (address + num_pages * PageSize) ?F (manager_pages m)"
    using update.update_range_refines[OF assms(1,2), of state perm attr address sm cm] assms(4)
      props_set_flags[OF assms(3)] unfolding Manager_Update_def F by blast
  then show ?thesis using manager_wf_CheckState range_map_cong[OF F] by auto
qed

theorem memory_update_refines_witness:
  "\<exists>ua' m'. Manager_Update sample_manager sample_allocator 8192 2 0x77EBD05 UserReadWrite 0 0 0
     = Some (ua', m') \<and> CheckState m'"
proof -
  have "\<not> HasProperties (the (FindBlock sample_manager 8192)) 0x77EBD05 UserReadWrite 0"
    by (simp add: sample_find HasProperties_def KMemoryBlock_new_def KMemoryState_Free_def)
  from memory_update_refines[OF sample_wf sample_range, where attr = 0 and state = "0x77EBD05"
      and perm = UserReadWrite and num_pages = 2 and sm = 0 and cm = 0] this
  show ?thesis by auto
qed

text \<open>\<open>UpdateIfMatch\<close> changes exactly the pages of its range that have the tested state,
  permission and attributes.\<close>

theorem memory_update_if_match_refines:
  assumes "manager_wf m" and "range_ok m ua address num_pages" and "attr AND reserved_attr = 0"
    and "not_in_first_block m address \<or>
      (HasProperties (the (FindBlock m address)) test_state test_perm test_attr \<and>
       \<not> HasProperties (the (FindBlock m address)) state perm attr)"
  shows "\<exists>ua' m'. Manager_UpdateIfMatch m ua address num_pages test_state test_perm test_attr state
      perm attr = Some (ua', m') \<and> manager_wf m' \<and> CheckState m' \<and>
    manager_pages m' = range_map address (address + num_pages * PageSize)
      (\<lambda>x. if props_match test_state test_perm test_attr x then props_set state perm attr x else x)
      (manager_pages m)"
proof -
  let ?F = "\<lambda>x. if props_match test_state test_perm test_attr x \<and> \<not> props_match state perm attr x
    then props_set state perm attr x else x"
  let ?G = "\<lambda>x. if props_match test_state test_perm test_attr x then props_set state perm attr x else x"
  have F: "?F x = ?G x" for x using props_set_match[OF assms(3)] by auto
  have fl: "props_flags x \<Longrightarrow> props_flags (?G x)" for x using props_set_flags[OF assms(3)] by simp
  obtain ua' m' where "Manager_UpdateIfMatch m ua address num_pages test_state test_perm test_attr
      state perm attr = Some (ua', m')" "manager_wf m'"
    "manager_pages m' = range_map address (address + num_pages * PageSize) ?F (manager_pages m)"
    using match.update_range_refines[OF assms(1,2), of test_state test_perm test_attr state perm attr]
      assms(4) fl unfolding Manager_UpdateIfMatch_def F by blast
  then show ?thesis using manager_wf_CheckState range_map_cong[OF F] by auto
qed

theorem memory_update_if_match_refines_witness:
  "\<exists>ua' m'. Manager_UpdateIfMatch sample_manager sample_allocator 8192 2 0 0 0 0x77EBD05 UserReadWrite 0
     = Some (ua', m') \<and> CheckState m'"
proof -
  have "HasProperties (the (FindBlock sample_manager 8192)) 0 0 0 \<and>
      \<not> HasProperties (the (FindBlock sample_manager 8192)) 0x77EBD05 UserReadWrite 0"
    by (simp add: sample_find HasProperties_def KMemoryBlock_new_def KMemoryState_Free_def)
  from memory_update_if_match_refines[OF sample_wf sample_range, where attr = 0
      and state = "0x77EBD05" and perm = UserReadWrite and num_pages = 2 and test_state = 0
      and test_perm = 0 and test_attr = 0] this
  show ?thesis by auto
qed

text \<open>C27: locking a range for IPC and unlocking it again with fresh allocators restores every page,
  and in between exactly the pages of the range are locked. The lock flag of each page agrees with its
  lock count, and the count can still grow.\<close>

theorem ipc_lock_range_roundtrip:
  assumes "manager_wf m" and "range_ok m ua1 address num_pages"
    and "UpdateAllocator_new sm MaxBlocks = (ResultSuccess, ua2)"
    and "\<forall>a x. address \<le> a \<and> a < address + num_pages * PageSize \<and> manager_pages m a = Some x
      \<longrightarrow> ipc_lockable x"
  shows "\<exists>ua1' m1 ua2' m2.
    Manager_UpdateLock m ua1 address num_pages LockForIpc perm = Some (ua1', m1) \<and>
    manager_pages m1 = range_map address (address + num_pages * PageSize) (props_lock_ipc perm)
      (manager_pages m) \<and>
    Manager_UpdateLock m1 ua2 address num_pages UnlockForIpc perm = Some (ua2', m2) \<and>
    manager_pages m2 = manager_pages m \<and> CheckState m1 \<and> CheckState m2"
proof -
  let ?e = "add64 address (mul64 num_pages PageSize)" and ?B = "address + num_pages * PageSize"
  have lk: "ipc_lockable x" if "address \<le> a" "a < ?B" "manager_pages m a = Some x" for a x
    using assms(4) that by blast
  obtain ua1' m1 where 1: "Manager_UpdateLock m ua1 address num_pages LockForIpc perm = Some (ua1', m1)"
    "manager_wf m1" "m_start_address m1 = m_start_address m" "m_end_address m1 = m_end_address m"
    "manager_pages m1 = range_map address ?B (props_lock_ipc perm) (manager_pages m)"
    using ipc_lock.lock.update_range_refines[OF assms(1,2), of perm address ?e] lk
      props_lock_ipc_flags unfolding Manager_UpdateLock_def Let_def by blast
  have "alloc_ready ua2" "ua_left ua2 = 2"
    using alloc_ready_new[of MaxBlocks sm ua2] assms(3) by (auto simp: MaxBlocks_def)
  then have "range_ok m1 ua2 address num_pages"
    using assms(2) 1(3,4) needed_le[of "m_memory_block_tree m1" address]
      needed_le[of "m_memory_block_tree m1" ?B]
    by (simp add: range_ok_def)
  from ipc_unlock.lock.update_range_refines[OF 1(2) this, of perm address ?e]
  obtain ua2' m2 where 2: "Manager_UpdateLock m1 ua2 address num_pages UnlockForIpc perm = Some (ua2', m2)"
    "manager_wf m2" "manager_pages m2 = range_map address ?B (props_unlock_ipc perm) (manager_pages m1)"
    using props_unlock_ipc_flags unfolding Manager_UpdateLock_def Let_def by blast
  have "manager_pages m2 = manager_pages m"
    unfolding 2(3) 1(5) by (rule range_map_twice) (use lk ipc_unlock_lock_props in blast)
  with 1 2 show ?thesis using manager_wf_CheckState by blast
qed

theorem ipc_lock_range_roundtrip_witness:
  "\<exists>ua1' m1 ua2' m2.
    Manager_UpdateLock sample_manager sample_allocator 8192 2 LockForIpc UserRead = Some (ua1', m1) \<and>
    Manager_UpdateLock m1 sample_allocator 8192 2 UnlockForIpc UserRead = Some (ua2', m2) \<and>
    manager_pages m2 = manager_pages sample_manager"
proof -
  have "\<forall>a x. 8192 \<le> a \<and> a < 8192 + 2 * PageSize \<and> manager_pages sample_manager a = Some x
      \<longrightarrow> ipc_lockable x"
    by (auto simp: manager_pages_def sample_manager_def page_at_Cons props_def KMemoryBlock_new_def
        ipc_lockable_def split: if_splits)
  from ipc_lock_range_roundtrip[OF sample_wf sample_range[of 2] sample_allocator_new this, of UserRead]
  show ?thesis by auto
qed

text \<open>an address returned by \<open>FindFreeArea\<close> has the requested offset modulo the alignment, and
  the requested pages together with the guard pages on both sides lie in the region and are free.\<close>

theorem find_free_area_sound:
  assumes "manager_wf m" and "m_end_address m \<le> 2 ^ 62" and "region_start \<le> 2 ^ 62"
    and "0 < region_num_pages" and "region_num_pages * PageSize \<le> 2 ^ 62" and "num_pages * PageSize \<le> 2 ^ 62"
    and "guard_pages * PageSize \<le> 2 ^ 62" and "offset < alignment" and "alignment \<le> 2 ^ 60"
    and "FindFreeArea m region_start region_num_pages num_pages alignment offset guard_pages = area"
    and "area \<noteq> 0"
  shows "area mod alignment = offset \<and> region_start + guard_pages * PageSize \<le> area \<and>
    area + (num_pages + guard_pages) * PageSize \<le> region_start + region_num_pages * PageSize \<and>
    (\<forall>a. area - guard_pages * PageSize \<le> a \<and> a < area + (num_pages + guard_pages) * PageSize
      \<longrightarrow> (\<exists>x. manager_pages m a = Some x \<and> fst x = KMemoryState_Free))"
proof -
  let ?t = "m_memory_block_tree m" and ?N = "num_pages * PageSize" and ?G = "guard_pages * PageSize"
  have np: "0 < num_pages" using assms(10,11) by (auto simp: FindFreeArea_def split: if_splits)
  define rl where "rl = sub64 (add64 region_start (mul64 region_num_pages PageSize)) 1"
  have "find_free_area_loop (drop (FindIterator m region_start) ?t) region_start rl num_pages
      alignment offset guard_pages = area"
    using assms(10) np by (simp add: FindFreeArea_def rl_def Let_def)
  from find_free_area_loop_result[OF this assms(11)] obtain n where n: "n \<in> set ?t"
    "m_memory_state (snd n) = KMemoryState_Free"
    "area = candidate_area (snd n) region_start alignment offset guard_pages"
    "GetAddress (snd n) \<le> area"
    "area < sub64 (add64 (add64 area (mul64 num_pages PageSize)) (mul64 guard_pages PageSize)) 1"
    "sub64 (add64 (add64 area (mul64 num_pages PageSize)) (mul64 guard_pages PageSize)) 1 \<le> rl"
    "sub64 (add64 (add64 area (mul64 num_pages PageSize)) (mul64 guard_pages PageSize)) 1
      \<le> GetLastAddress (snd n)"
    by (auto simp: Let_def dest!: in_set_dropD)
  let ?b = "snd n"
  have ct: "contig (m_start_address m) (map snd ?t) (m_end_address m)"
    using assms(1) by (simp add: manager_wf_def)
  have b: "?b \<in> set (map snd ?t)" using n(1) by auto
  have be: "block_end ?b \<le> 2 ^ 62" "0 < m_num_pages ?b" "m_address ?b < block_end ?b"
    using contig_member[OF ct b] assms(2) by auto
  then have g: "GetLastAddress ?b = block_end ?b - 1" "GetAddress ?b = m_address ?b"
    using block_getters[of ?b] by (auto simp: two64_def)
  have cb: "max region_start (GetAddress ?b) + ?G \<le> area" "area mod alignment = offset mod alignment"
    using candidate_area_bounds[of ?b region_start guard_pages offset alignment] assms(3,7,8,9) be g n(3)
    by (auto simp: two64_def)
  have N: "0 < ?N" using np by simp
  have lt: "area < block_end ?b" using n(5,7) g be by linarith
  then have sz: "mul64 num_pages PageSize = ?N" "mul64 guard_pages PageSize = ?G"
    "add64 (add64 area ?N) ?G = area + ?N + ?G"
    using assms(6,7) be(1) by (simp_all add: mul64_eq add64_eq two64_def)
  have last: "sub64 (area + ?N + ?G) 1 = area + ?N + ?G - 1"
    using N lt be(1) assms(6,7) by (intro sub64_eq) (linarith, simp add: two64_def)
  have R: "0 < region_num_pages * PageSize" using assms(4) by simp
  have "mul64 region_num_pages PageSize = region_num_pages * PageSize"
    "add64 region_start (region_num_pages * PageSize) = region_start + region_num_pages * PageSize"
    using assms(3,5) by (simp_all add: mul64_eq add64_eq two64_def)
  moreover have "sub64 (region_start + region_num_pages * PageSize) 1
      = region_start + region_num_pages * PageSize - 1"
    using R assms(3,5) by (intro sub64_eq) (linarith, simp add: two64_def)
  ultimately have rl: "rl = region_start + region_num_pages * PageSize - 1" by (simp add: rl_def)
  have fit: "area + ?N + ?G \<le> region_start + region_num_pages * PageSize"
    using n(6) N R unfolding sz last rl by linarith
  have top: "area + ?N + ?G \<le> block_end ?b"
    using n(7) N be(3) unfolding sz last g by linarith
  obtain xs ys where l: "map snd ?t = xs @ ?b # ys" using b by (metis in_set_conv_decomp)
  have "\<exists>x. manager_pages m a = Some x \<and> fst x = KMemoryState_Free"
    if "area - ?G \<le> a" "a < area + (num_pages + guard_pages) * PageSize" for a
  proof -
    have "m_address ?b \<le> a" using that(1) cb(1) g by linarith
    moreover have "a < block_end ?b" using that(2) top by (simp add: algebra_simps)
    ultimately have "manager_pages m a = Some (props ?b)"
      using page_at_split[of "m_start_address m" xs ?b ys "m_end_address m" a] ct l
      by (simp add: manager_pages_def)
    then show ?thesis using n(2) by (simp add: props_def)
  qed
  moreover have "area mod alignment = offset" using cb(2) assms(8) by simp
  moreover have "region_start + ?G \<le> area" using cb(1) by linarith
  ultimately show ?thesis using fit by (simp add: algebra_simps)
qed

theorem find_free_area_sound_witness:
  "\<exists>x. manager_pages sample_manager 16384 = Some x \<and> fst x = KMemoryState_Free"
proof -
  have f: "FindFreeArea sample_manager 4096 8 2 4096 0 1 = 8192"
    by (simp add: FindFreeArea_def FindIterator_def tree_find_def tree_position_def sample_manager_def
        candidate_area_def AlignDown_def Compare_def KMemoryBlock_new_def GetAddress_def
        GetLastAddress_def GetEndAddress_def GetSize_def GetNumPages_def PageSize_def mul64_def
        add64_def sub64_def two64_def Let_def)
  from find_free_area_sound[OF sample_wf _ _ _ _ _ _ _ _ f] show ?thesis
    by (auto simp: sample_manager_def PageSize_def)
qed

text \<open>C34: the case that the refinement above excludes: when a range begins strictly inside the first block, and this block
  already has the requested properties, \<open>Update\<close> does not split it, whatever comes behind it in the range. The first block stays
  first, the coalescing pass steps back from it, and the update has no defined result.\<close>

theorem update_inside_matching_first_block:
  assumes "manager_wf m" and "range_ok m ua address num_pages" and "m_memory_block_tree m = (p, b) # rs"
    and "m_address b < address" and "address < block_end b" and "HasProperties b state perm attr"
  shows "Manager_Update m ua address num_pages state perm attr sm cm = None"
  unfolding Manager_Update_def
  by (rule update.update_range_first_block[OF assms(1-5)]) (simp add: assms(6))

theorem update_inside_matching_first_block_witness:
  "Manager_Update sample_manager sample_allocator 8192 2 KMemoryState_Free 0 0 0 0 = None"
  by (rule update_inside_matching_first_block[OF sample_wf sample_range,
        where b = "KMemoryBlock_new 4096 8 KMemoryState_Free 0 0" and p = 100 and rs = "[]"])
    (simp_all add: sample_manager_def KMemoryBlock_new_def HasProperties_def block_end_def PageSize_def)

end
