(* ===== verification/Tiny_MT.thy ===== *)
theory Tiny_MT
  imports Yuzu_Prelude
begin

text \<open>
  \<open>Common::TinyMT\<close> (\<open>src/common/tiny_mt.h\<close>), the kernel's random generator. The state is the list
  of its four words; every operation takes the state and returns it updated. The buffer that
  \<open>GenerateRandomBytes\<close> fills is part of a memory, a map from addresses to bytes, and words are
  stored little-endian. The floating-point results are given by their exact numerators over
  \<open>2 ^ 24\<close> and \<open>2 ^ 53\<close>.
\<close>

section \<open>Parameters\<close>

definition ParamMat1 :: u32 where "ParamMat1 = 0x8F7011EE"
definition ParamMat2 :: u32 where "ParamMat2 = 0xFC78FF1F"
definition ParamTmat :: u32 where "ParamTmat = 0x3793FDFF"
definition ParamMult :: u32 where "ParamMult = 0x6C078965"
definition ParamPlus :: u32 where "ParamPlus = 0x0019660D"
definition ParamXor :: u32 where "ParamXor = 0x5D588B65"
definition TopBitmask :: u32 where "TopBitmask = 0x7FFFFFFF"
definition MinimumInitIterations :: nat where "MinimumInitIterations = 8"
definition NumDiscardedInitOutputs :: nat where "NumDiscardedInitOutputs = 8"
definition NumStateWords :: nat where "NumStateWords = 4"

definition XorByShifted27 :: "u32 \<Rightarrow> u32" where
  "XorByShifted27 value = value XOR drop_bit 27 value"

definition XorByShifted30 :: "u32 \<Rightarrow> u32" where
  "XorByShifted30 value = value XOR drop_bit 30 value"

section \<open>Drawing\<close>

type_synonym TinyMT = "u32 list"

definition GenerateRandomU32 :: "TinyMT \<Rightarrow> u32 \<times> TinyMT" where
  "GenerateRandomU32 st =
     (let x0 = (st ! 0 AND TopBitmask) XOR st ! 1 XOR st ! 2;
          y0 = st ! 3;
          x1 = x0 XOR push_bit 1 x0;
          y1 = y0 XOR drop_bit 1 y0 XOR x1;
          state0 = st ! 1;
          state1 = st ! 2;
          state2 = x1 XOR push_bit 10 y1;
          state3 = y1;
          odd_y = y1 AND 1 \<noteq> 0;
          state1 = (if odd_y then state1 XOR ParamMat1 else state1);
          state2 = (if odd_y then state2 XOR ParamMat2 else state2);
          t1 = state0 + drop_bit 8 state2;
          t0 = state3 XOR t1;
          t0 = (if t1 AND 1 \<noteq> 0 then t0 XOR ParamTmat else t0)
      in (t0, [state0, state1, state2, state3]))"

definition GenerateRandomU24 :: "TinyMT \<Rightarrow> u32 \<times> TinyMT" where
  "GenerateRandomU24 st = (let (r, st') = GenerateRandomU32 st in (drop_bit 8 r, st'))"

definition GenerateRandomU64 :: "TinyMT \<Rightarrow> u64 \<times> TinyMT" where
  "GenerateRandomU64 st =
     (let (lo, st1) = GenerateRandomU32 st;
          (hi, st2) = GenerateRandomU32 st1
      in (push_bit 32 (ucast hi) OR ucast lo, st2))"

definition GenerateRandomF32 :: "TinyMT \<Rightarrow> nat \<times> TinyMT" where
  "GenerateRandomF32 st = (let (r, st') = GenerateRandomU24 st in (unat r, st'))"

definition GenerateRandomF64 :: "TinyMT \<Rightarrow> nat \<times> TinyMT" where
  "GenerateRandomF64 st =
     (let shift1 = (64 - 53) div 2;
          shift2 = (64 - 53) - shift1;
          (r1, st1) = GenerateRandomU32 st;
          (r2, st2) = GenerateRandomU32 st1
      in (unat (drop_bit shift1 r1) * 2 ^ (32 - shift2) + unat (drop_bit shift2 r2), st2))"

section \<open>Initialization\<close>

fun discard_outputs :: "nat \<Rightarrow> TinyMT \<Rightarrow> TinyMT" where
  "discard_outputs 0 st = st"
| "discard_outputs (Suc n) st = discard_outputs n (snd (GenerateRandomU32 st))"

definition FinalizeInitialization :: "TinyMT \<Rightarrow> TinyMT" where
  "FinalizeInitialization st =
     (let st1 = (if st ! 0 AND TopBitmask = 0 \<and> st ! 1 = 0 \<and> st ! 2 = 0 \<and> st ! 3 = 0
                 then [0x54, 0x49, 0x4E, 0x59] else st)
      in discard_outputs NumDiscardedInitOutputs st1)"

definition GenerateInitialValuePlus :: "TinyMT \<Rightarrow> nat \<Rightarrow> u32 \<Rightarrow> TinyMT" where
  "GenerateInitialValuePlus st index value =
     (let i0 = index mod NumStateWords;
          i1 = (index + 1) mod NumStateWords;
          i2 = (index + 2) mod NumStateWords;
          i3 = (index + 3) mod NumStateWords;
          x = XorByShifted27 (st ! i0 XOR st ! i1 XOR st ! i3) * ParamPlus;
          y = x + word_of_nat index + value
      in st[i0 := y, i1 := st ! i1 + x, i2 := st ! i2 + y])"

definition GenerateInitialValueXor :: "TinyMT \<Rightarrow> nat \<Rightarrow> TinyMT" where
  "GenerateInitialValueXor st index =
     (let i0 = index mod NumStateWords;
          i1 = (index + 1) mod NumStateWords;
          i2 = (index + 2) mod NumStateWords;
          i3 = (index + 3) mod NumStateWords;
          x = XorByShifted27 (st ! i0 + st ! i1 + st ! i3) * ParamXor;
          y = x - word_of_nat index
      in st[i0 := y, i1 := st ! i1 XOR x, i2 := st ! i2 XOR y])"

definition initialize_mix :: "nat \<Rightarrow> TinyMT \<Rightarrow> TinyMT" where
  "initialize_mix i st =
     (let mixed = XorByShifted30 (st ! ((i - 1) mod NumStateWords))
      in st[i mod NumStateWords := st ! (i mod NumStateWords) XOR (mixed * ParamMult + word_of_nat i)])"

definition TinyMT_Initialize :: "u32 \<Rightarrow> TinyMT" where
  "TinyMT_Initialize seed =
     FinalizeInitialization
       (fold initialize_mix [1 ..< MinimumInitIterations] [seed, ParamMat1, ParamMat2, ParamTmat])"

definition TinyMT_Initialize_array :: "u32 list \<Rightarrow> TinyMT" where
  "TinyMT_Initialize_array seed =
     (let seed_count = length seed;
          num_init_iterations = max (seed_count + 1) MinimumInitIterations - 1;
          st0 = [0, ParamMat1, ParamMat2, ParamTmat];
          st1 = GenerateInitialValuePlus st0 0 (word_of_nat seed_count);
          st2 = fold (\<lambda>i st. GenerateInitialValuePlus st ((i + 1) mod NumStateWords)
                       (if i < seed_count then seed ! i else 0)) [0 ..< num_init_iterations] st1;
          st3 = fold (\<lambda>i st. GenerateInitialValueXor st ((i + 1 + num_init_iterations) mod NumStateWords))
                  [0 ..< NumStateWords] st2
      in FinalizeInitialization st3)"

section \<open>Filling a buffer\<close>

type_synonym bytes = "nat \<Rightarrow> u8"

definition word_bytes :: "u32 \<Rightarrow> u8 list" where
  "word_bytes w = map (\<lambda>i. ucast (drop_bit (8 * i) w)) [0 ..< 4]"

definition memcpy :: "nat \<Rightarrow> u8 list \<Rightarrow> bytes \<Rightarrow> bytes" where
  "memcpy dst bs mem a = (if dst \<le> a \<and> a < dst + length bs then bs ! (a - dst) else mem a)"

function write_words :: "nat \<Rightarrow> nat \<Rightarrow> TinyMT \<Rightarrow> bytes \<Rightarrow> TinyMT \<times> bytes" where
  "write_words cur_dst end_dst st mem =
     (if cur_dst < end_dst then
        let (r, st') = GenerateRandomU32 st
        in write_words (cur_dst + 4) end_dst st' (memcpy cur_dst (word_bytes r) mem)
      else (st, mem))"
  by pat_completeness auto
termination
  by (relation "measure (\<lambda>(c, e, st, mem). e - c)") auto

declare write_words.simps [simp del]

definition GenerateRandomBytes :: "TinyMT \<Rightarrow> nat \<Rightarrow> nat \<Rightarrow> bytes \<Rightarrow> TinyMT \<times> bytes" where
  "GenerateRandomBytes st dst len mem =
     (let end_addr = add64 dst len;
          aligned_start = AlignUp dst 4;
          aligned_end = AlignDown end_addr 4;
          (st1, mem1) =
            (if dst < aligned_start then
               let (rnd, st') = GenerateRandomU32 st
               in (st', memcpy dst (take (aligned_start - dst) (word_bytes rnd)) mem)
             else (st, mem));
          (st2, mem2) = write_words aligned_start aligned_end st1 mem1
      in if aligned_end < end_addr then
           let (rnd, st') = GenerateRandomU32 st2
           in (st', memcpy aligned_end (take (end_addr - aligned_end) (word_bytes rnd)) mem2)
         else (st2, mem2))"

section \<open>The state never degenerates\<close>

text \<open>The top bit of the first word is ignored: 127 bits are the state proper.\<close>

definition degenerate :: "TinyMT \<Rightarrow> bool" where
  "degenerate st \<longleftrightarrow> st ! 0 AND TopBitmask = 0 \<and> st ! 1 = 0 \<and> st ! 2 = 0 \<and> st ! 3 = 0"

lemma xor_zero_eq: "x XOR y = 0 \<Longrightarrow> x = (y :: 'a::len word)"
proof (rule bit_eqI)
  fix n assume "x XOR y = 0"
  then have "\<not> bit (x XOR y) n" by simp
  then show "bit x n = bit y n" by (simp add: bit_xor_iff)
qed

lemma xor_push_bit_eq_0: "x XOR push_bit 1 x = 0 \<Longrightarrow> x = (0 :: u32)"
proof -
  assume a: "x XOR push_bit 1 x = 0"
  have "\<not> bit x n" for n
  proof (induction n)
    case 0
    have "bit (x XOR push_bit 1 x) 0 = bit x 0"
      unfolding bit_xor_iff bit_push_bit_iff by simp
    with a show ?case by simp
  next
    case (Suc n)
    show ?case
    proof (cases "Suc n < 32")
      case True
      then have "bit (x XOR push_bit 1 x) (Suc n) = (bit x (Suc n) \<noteq> bit x n)"
        unfolding bit_xor_iff bit_push_bit_iff by simp
      with a Suc show ?thesis by simp
    qed (auto dest: bit_imp_le_length)
  qed
  then show ?thesis by (simp add: bit_eq_iff)
qed

lemma xor_drop_bit_eq_0: "x XOR drop_bit 1 x = 0 \<Longrightarrow> x = (0 :: u32)"
proof -
  assume a: "x XOR drop_bit 1 x = 0"
  have b: "bit x n = bit x (Suc n)" for n
  proof -
    have "bit (x XOR drop_bit 1 x) n = (bit x n \<noteq> bit x (Suc n))" by (simp add: bit_simps)
    with a show ?thesis by simp
  qed
  have "bit x n = bit x (n + k)" for n k
  proof (induction k)
    case (Suc k)
    then show ?case using b[of "n + k"] by simp
  qed simp
  moreover have "\<not> bit x (n + 32)" for n by (auto dest: bit_imp_le_length)
  ultimately have "\<not> bit x n" for n by blast
  then show ?thesis by (simp add: bit_eq_iff)
qed

lemma top_mask_split: "x AND TopBitmask = 0 \<Longrightarrow> y AND TopBitmask = x \<Longrightarrow> x = 0"
proof -
  assume z: "x AND TopBitmask = 0" and eq: "y AND TopBitmask = x"
  have "y AND TopBitmask = (y AND TopBitmask) AND TopBitmask" by (simp only: and.assoc and.idem)
  then show ?thesis unfolding eq z .
qed

lemma GenerateRandomU32_state:
  "length (snd (GenerateRandomU32 st)) = 4"
  by (simp add: GenerateRandomU32_def Let_def)

lemma GenerateRandomU32_not_degenerate:
  assumes "\<not> degenerate st"
  shows "\<not> degenerate (snd (GenerateRandomU32 st))"
proof
  assume d: "degenerate (snd (GenerateRandomU32 st))"
  define x0 where "x0 = (st ! 0 AND TopBitmask) XOR st ! 1 XOR st ! 2"
  define x1 where "x1 = x0 XOR push_bit 1 x0"
  define y1 where "y1 = st ! 3 XOR drop_bit 1 (st ! 3) XOR x1"
  have next_state: "snd (GenerateRandomU32 st) =
    [st ! 1, if y1 AND 1 \<noteq> 0 then st ! 2 XOR ParamMat1 else st ! 2,
     if y1 AND 1 \<noteq> 0 then (x1 XOR push_bit 10 y1) XOR ParamMat2 else x1 XOR push_bit 10 y1, y1]"
    by (simp only: GenerateRandomU32_def Let_def snd_conv x0_def x1_def y1_def)
  have z: "y1 = 0" using d unfolding next_state by (simp add: degenerate_def numeral_3_eq_3)
  have s2: "st ! 2 = 0" and "x1 = 0" and s1: "st ! 1 AND TopBitmask = 0"
    using d unfolding next_state by (simp_all add: degenerate_def z numeral_2_eq_2)
  then have x0: "x0 = 0" using xor_push_bit_eq_0[of x0] by (simp only: x1_def)
  have "st ! 3 XOR drop_bit 1 (st ! 3) = 0"
    using z unfolding y1_def \<open>x1 = 0\<close> by (simp only: xor.right_neutral)
  then have y0: "st ! 3 = 0" by (rule xor_drop_bit_eq_0)
  have eq: "st ! 0 AND TopBitmask = st ! 1"
    using x0 unfolding x0_def s2 xor.right_neutral by (rule xor_zero_eq)
  then have "st ! 1 = 0" using s1 top_mask_split by blast
  with eq s2 y0 assms show False by (simp add: degenerate_def)
qed

lemma discard_outputs_not_degenerate:
  "\<not> degenerate st \<Longrightarrow> \<not> degenerate (discard_outputs n st)"
  by (induction n arbitrary: st) (auto dest: GenerateRandomU32_not_degenerate)

lemma FinalizeInitialization_not_degenerate: "\<not> degenerate (FinalizeInitialization st)"
proof -
  have "\<not> degenerate [0x54, 0x49, 0x4E, 0x59]" by (simp add: degenerate_def)
  then have "\<not> degenerate (if degenerate st then [0x54, 0x49, 0x4E, 0x59] else st)" by simp
  then show ?thesis
    unfolding FinalizeInitialization_def Let_def degenerate_def[of st, symmetric]
    by (rule discard_outputs_not_degenerate)
qed

section \<open>Writes of the buffer fill\<close>

lemma length_word_bytes [simp]: "length (word_bytes w) = 4"
  by (simp add: word_bytes_def)

lemma memcpy_outside: "a < dst \<or> dst + length bs \<le> a \<Longrightarrow> memcpy dst bs mem a = mem a"
  by (auto simp: memcpy_def)

lemma write_words_outside:
  "4 dvd (e - c) \<Longrightarrow> a < c \<or> e \<le> a \<Longrightarrow> snd (write_words c e st mem) a = mem a"
proof (induction c e st mem rule: write_words.induct)
  case (1 c e st mem)
  show ?case
  proof (cases "c < e")
    case True
    obtain r st' where r: "GenerateRandomU32 st = (r, st')" by force
    have "4 \<le> e - c" using True 1(2) by (intro dvd_imp_le) auto
    then have le: "c + 4 \<le> e" by simp
    then have "4 dvd (e - (c + 4))" using 1(2) by (metis diff_diff_left dvd_diff_nat dvd_refl)
    with 1(1)[OF True r[symmetric] refl] 1(3) le True r show ?thesis
      by (auto simp: write_words.simps[of c] memcpy_outside)
  qed (simp add: write_words.simps[of c])
qed

lemma align4_gap:
  "AlignUp dst 4 \<le> e \<Longrightarrow> dst + 4 < two64 \<Longrightarrow> AlignUp dst 4 \<le> AlignDown e 4 \<and> 4 dvd (AlignDown e 4 - AlignUp dst 4)"
proof -
  assume le: "AlignUp dst 4 \<le> e" and lt: "dst + 4 < two64"
  have "AlignDown dst 4 + 4 < two64" using lt AlignDown_le[of dst 4] by linarith
  then have d: "4 dvd AlignUp dst 4" by (rule AlignUp_dvd)
  then obtain k where k: "AlignUp dst 4 = 4 * k" by blast
  have "AlignDown e 4 = 4 * (e div 4)" by (simp add: AlignDown_def minus_mod_eq_mult_div)
  moreover have "k \<le> e div 4" using le k by simp
  ultimately show ?thesis using d AlignDown_dvd[of 4 e] k by (simp add: dvd_diff_nat)
qed

lemma AlignUp4_bounds: "dst + 4 < two64 \<Longrightarrow> dst \<le> AlignUp dst 4 \<and> AlignUp dst 4 < dst + 4"
proof -
  assume lt: "dst + 4 < two64"
  have le: "AlignDown dst 4 + 4 < two64" using lt AlignDown_le[of dst 4] by linarith
  show ?thesis
  proof (cases "4 dvd dst")
    case False
    then have "AlignDown dst 4 \<noteq> dst" using AlignDown_dvd[of 4 dst] by metis
    with False le show ?thesis
      using AlignUp_unaligned[OF False le] AlignDown_le[of dst 4] AlignDown_gt[of 4 dst] by simp
  qed (simp add: AlignUp_aligned)
qed

section \<open>Properties\<close>

text \<open>whatever the seeds, the generator never reaches the all-zero state from which it could not
  leave: after initialization and any number of draws the 127 state bits are not all zero.\<close>

theorem tiny_mt_never_degenerate:
  "\<not> degenerate (discard_outputs n (TinyMT_Initialize seed)) \<and>
   \<not> degenerate (discard_outputs n (TinyMT_Initialize_array seeds))"
  by (simp add: TinyMT_Initialize_def TinyMT_Initialize_array_def Let_def
      discard_outputs_not_degenerate FinalizeInitialization_not_degenerate)

text \<open>C35: filling a buffer that contains a word boundary (or starts at one) changes no byte outside
  the buffer.\<close>

theorem random_bytes_stay_in_buffer:
  assumes "AlignUp dst 4 \<le> dst + len" and "dst + len + 4 < two64"
    and "a < dst \<or> dst + len \<le> a"
  shows "snd (GenerateRandomBytes st dst len mem) a = mem a"
proof -
  let ?s = "AlignUp dst 4" and ?e = "AlignDown (dst + len) 4"
  have e: "add64 dst len = dst + len" using assms(2) by (simp add: add64_eq)
  have g: "?s \<le> ?e" "4 dvd ?e - ?s" using align4_gap[OF assms(1)] assms(2) by auto
  have b: "dst \<le> ?s" "?s < dst + 4" using AlignUp4_bounds[of dst] assms(2) by auto
  have ee: "?e \<le> dst + len" "dst + len < ?e + 4" using AlignDown_le AlignDown_gt[of 4] by auto
  have w: "snd (write_words ?s ?e st' m) a = m a" for st' m
    using write_words_outside[OF g(2)] assms(3) b ee g(1) by auto
  have first: "memcpy dst (take (?s - dst) (word_bytes r)) m a = m a" for r m
    using assms(1,3) b by (intro memcpy_outside) auto
  have last: "memcpy ?e (take (dst + len - ?e) (word_bytes r)) m a = m a" for r m
    using assms(3) b g ee by (intro memcpy_outside) auto
  show ?thesis
    unfolding GenerateRandomBytes_def Let_def e
    using w first last by (auto split: prod.splits)
      (metis snd_conv w first last)+
qed

theorem random_bytes_stay_in_buffer_witness:
  "snd (GenerateRandomBytes [1, 2, 3, 4] 102 9 (\<lambda>a. 0)) 111 = 0"
  by (rule random_bytes_stay_in_buffer) (simp_all add: AlignUp_def add64_def two64_def)

text \<open>a buffer that lies strictly inside one word is overrun: the bytes from its end up to the
  next word boundary are overwritten with generator output.\<close>

theorem random_bytes_overrun_small_buffer:
  assumes "dst + len \<le> a" and "a < AlignUp dst 4" and "dst + len + 4 < two64"
  shows "snd (GenerateRandomBytes st dst len mem) a = word_bytes (fst (GenerateRandomU32 st)) ! (a - dst)"
proof -
  let ?s = "AlignUp dst 4" and ?e = "AlignDown (dst + len) 4"
  have e: "add64 dst len = dst + len" using assms(3) by (simp add: add64_eq)
  have b: "?s < dst + 4" using AlignUp4_bounds[of dst] assms(3) by simp
  have lt: "dst < ?s" "?e \<le> dst + len" "dst + len < ?s" using assms AlignDown_le by auto
  obtain r st' where r: "GenerateRandomU32 st = (r, st')" by force
  have "memcpy dst (take (?s - dst) (word_bytes r)) mem a = word_bytes r ! (a - dst)"
    using assms b by (auto simp: memcpy_def)
  moreover have "memcpy ?e (take (dst + len - ?e) (word_bytes q)) m a = m a" for q m
    using assms(1) lt by (intro memcpy_outside) auto
  moreover have "\<not> ?s < ?e" using lt by simp
  ultimately show ?thesis
    unfolding GenerateRandomBytes_def Let_def e
    using lt(1) r by (auto simp: write_words.simps split: prod.splits)
qed

theorem random_bytes_overrun_small_buffer_witness:
  "snd (GenerateRandomBytes [1, 2, 3, 4] 101 1 (\<lambda>a. 0)) 102
     = word_bytes (fst (GenerateRandomU32 [1, 2, 3, 4])) ! 1"
  using random_bytes_overrun_small_buffer[of 101 1 102 "[1, 2, 3, 4]" "\<lambda>a. 0"]
  by (simp add: AlignUp_def add64_def two64_def)

end
