(* ===== verification/Bit_Set.thy ===== *)
theory Bit_Set
  imports Yuzu_Prelude
begin

text \<open>
  Bit counting of the C++ library (\<open>std::countl_zero\<close>, \<open>std::countr_zero\<close>) and the bit sets of
  \<open>src/common/bit_set.h\<close> with 64-bit storage, which number their bits from the most significant
  one. A set is the list of its words. The lemmas read a set as the set of its elements: setting and
  clearing change one element, counting leading zeros finds the least element, \<open>GetNextSet\<close> the
  least one above its argument.
\<close>

section \<open>Counting zeros\<close>

definition countl_zero :: "u64 \<Rightarrow> nat" where
  "countl_zero w = length (takeWhile (\<lambda>i. \<not> bit w i) (rev [0 ..< 64]))"

definition countr_zero :: "u64 \<Rightarrow> nat" where
  "countr_zero w = length (takeWhile (\<lambda>i. \<not> bit w i) [0 ..< 64])"

section \<open>Bit sets\<close>

definition GetBitMask :: "nat \<Rightarrow> u64" where
  "GetBitMask i = push_bit (63 - i) 1"

definition BitSet_SetBit :: "nat \<Rightarrow> u64 list \<Rightarrow> u64 list option" where
  "BitSet_SetBit i ws =
     (if i div 64 < length ws then Some (ws[i div 64 := ws ! (i div 64) OR GetBitMask (i mod 64)]) else None)"

definition BitSet_ClearBit :: "nat \<Rightarrow> u64 list \<Rightarrow> u64 list option" where
  "BitSet_ClearBit i ws =
     (if i div 64 < length ws then Some (ws[i div 64 := ws ! (i div 64) AND NOT (GetBitMask (i mod 64))])
      else None)"

fun CountLeadingZero :: "u64 list \<Rightarrow> nat" where
  "CountLeadingZero [] = 0"
| "CountLeadingZero (w # ws) = (if w \<noteq> 0 then countl_zero w else 64 + CountLeadingZero ws)"

fun next_set_loop :: "nat list \<Rightarrow> nat \<Rightarrow> u64 list \<Rightarrow> nat" where
  "next_set_loop [] n ws = 64 * length ws"
| "next_set_loop (i # is) n ws =
     (let word = (if (n + 1) mod 64 \<noteq> 0 then ws ! i AND (GetBitMask (n mod 64) - 1) else ws ! i)
      in if word \<noteq> 0 then 64 * i + countl_zero word else next_set_loop is n ws)"

definition GetNextSet :: "nat \<Rightarrow> u64 list \<Rightarrow> nat" where
  "GetNextSet n ws = next_set_loop [(n + 1) div 64 ..< length ws] n ws"

section \<open>Lemmas\<close>

lemma countr_zero_set: "w \<noteq> 0 \<Longrightarrow> bit w (countr_zero w) \<and> countr_zero w < 64"
proof -
  assume "w \<noteq> 0"
  then obtain n where "bit w n" by (auto simp: bit_eq_iff)
  then have "n < 64" by (auto dest: bit_imp_le_length)
  let ?k = "countr_zero w"
  have k: "?k < length [0 ..< 64]"
  proof (rule ccontr)
    assume "\<not> ?k < length [0 ..< 64]"
    then have "takeWhile (\<lambda>i. \<not> bit w i) [0 ..< 64] = [0 ..< 64]"
      unfolding countr_zero_def by (metis length_takeWhile_le linorder_le_less_linear nat_less_le
          takeWhile_eq_take take_all_iff)
    then have "\<forall>i\<in>set [0 ..< 64]. \<not> bit w i" by (metis takeWhile_eq_all_conv)
    with \<open>bit w n\<close> \<open>n < 64\<close> show False by auto
  qed
  then have "bit w ([0 ..< 64] ! ?k)"
    using nth_length_takeWhile[of "\<lambda>i. \<not> bit w i" "[0 ..< 64]"] by (simp add: countr_zero_def)
  with k show ?thesis by simp
qed

lemma bit_u64_less: "bit (w :: u64) n \<Longrightarrow> n < 64"
  by (auto dest: bit_imp_le_length)

lemma countl_zero_set:
  assumes "w \<noteq> 0"
  shows "countl_zero w < 64" "bit w (63 - countl_zero w)" "j < countl_zero w \<Longrightarrow> \<not> bit w (63 - j)"
proof -
  let ?P = "\<lambda>i. \<not> bit w i" and ?xs = "rev [0 ..< 64] :: nat list"
  have xs: "?xs ! k = 63 - k" if "k < 64" for k using that by (simp add: rev_nth)
  obtain n where n: "bit w n" "n < 64" using assms bit_u64_less by (auto simp: bit_eq_iff)
  then have "takeWhile ?P ?xs \<noteq> ?xs" by (auto simp: takeWhile_eq_all_conv)
  then have "length (takeWhile ?P ?xs) < length ?xs"
    by (metis le_neq_implies_less length_takeWhile_le takeWhile_eq_take take_all_iff order_refl)
  then show k: "countl_zero w < 64" by (simp add: countl_zero_def)
  then show "bit w (63 - countl_zero w)"
    using nth_length_takeWhile[of ?P ?xs] xs[of "countl_zero w"] by (simp add: countl_zero_def)
  assume j: "j < countl_zero w"
  then have "?P (takeWhile ?P ?xs ! j)" 
    using nth_mem[of j "takeWhile ?P ?xs"] set_takeWhileD[of _ ?P ?xs] unfolding countl_zero_def by blast
  then show "\<not> bit w (63 - j)"
    using j k xs[of j] takeWhile_nth[of j ?P ?xs] by (simp add: countl_zero_def)
qed

definition bits_set :: "u64 list \<Rightarrow> nat set" where
  "bits_set ws = {i. i div 64 < length ws \<and> bit (ws ! (i div 64)) (63 - i mod 64)}"

lemma bit_GetBitMask: "i < 64 \<Longrightarrow> bit (GetBitMask i) k \<longleftrightarrow> k = 63 - i"
  by (auto simp: GetBitMask_def bit_exp_iff)

lemma mirror_eq: "i < 64 \<Longrightarrow> j < 64 \<Longrightarrow> 63 - i = 63 - (j :: nat) \<longleftrightarrow> i = j"
  by auto

lemma bits_set_SetBit:
  assumes "i div 64 < length ws"
  shows "\<exists>ws'. BitSet_SetBit i ws = Some ws' \<and> length ws' = length ws \<and> bits_set ws' = insert i (bits_set ws)"
proof -
  let ?m = "GetBitMask (i mod 64)"
  have "bit (ws[i div 64 := ws ! (i div 64) OR ?m] ! (j div 64)) (63 - j mod 64) \<longleftrightarrow>
      bit (ws ! (j div 64)) (63 - j mod 64) \<or> j = i" if "j div 64 < length ws" for j
    using assms that by (cases "j div 64 = i div 64")
      (auto simp: bit_or_iff bit_GetBitMask mirror_eq, metis div_mult_mod_eq)
  then show ?thesis using assms by (auto simp: BitSet_SetBit_def bits_set_def)
qed

lemma bits_set_ClearBit:
  assumes "i div 64 < length ws"
  shows "\<exists>ws'. BitSet_ClearBit i ws = Some ws' \<and> length ws' = length ws \<and> bits_set ws' = bits_set ws - {i}"
proof -
  let ?m = "GetBitMask (i mod 64)"
  have "bit (ws[i div 64 := ws ! (i div 64) AND NOT ?m] ! (j div 64)) (63 - j mod 64) \<longleftrightarrow>
      bit (ws ! (j div 64)) (63 - j mod 64) \<and> j \<noteq> i" if "j div 64 < length ws" for j
    using assms that by (cases "j div 64 = i div 64")
      (auto simp: bit_and_iff bit_not_iff bit_GetBitMask mirror_eq dest: bit_u64_less, metis div_mult_mod_eq)
  then show ?thesis using assms by (auto simp: BitSet_ClearBit_def bits_set_def)
qed

lemma bits_set_single: "bits_set [w] = {i. i < 64 \<and> bit w (63 - i)}"
  by (auto simp: bits_set_def div_less_iff_less_mult)

lemma CountLeadingZero_least:
  assumes "length ws = 1"
  shows "if bits_set ws = {} then CountLeadingZero ws = 64
    else CountLeadingZero ws \<in> bits_set ws \<and> (\<forall>j\<in>bits_set ws. CountLeadingZero ws \<le> j)"
proof -
  obtain w where ws: "ws = [w]" using assms by (cases ws) auto
  show ?thesis
  proof (cases "w = 0")
    case False
    note c = countl_zero_set[OF False]
    then show ?thesis using ws False unfolding ws bits_set_single by (auto simp: not_less[symmetric])
  qed (simp add: ws bits_set_single)
qed

lemma bit_below_mask: "n < 64 \<Longrightarrow> bit (GetBitMask n - 1) k \<longleftrightarrow> k < 63 - n"
proof -
  have "GetBitMask n - 1 = mask (63 - n)" by (simp add: GetBitMask_def mask_eq_exp_minus_1 push_bit_of_1)
  then show ?thesis by (simp add: bit_mask_iff) linarith
qed

lemma GetNextSet_least:
  assumes "length ws = 1" "n < 64"
  shows "if \<exists>j\<in>bits_set ws. n < j then n < GetNextSet n ws \<and> GetNextSet n ws \<in> bits_set ws \<and>
      (\<forall>j\<in>bits_set ws. n < j \<longrightarrow> GetNextSet n ws \<le> j)
    else GetNextSet n ws = 64"
proof -
  obtain w where ws: "ws = [w]" using assms by (cases ws) auto
  show ?thesis
  proof (cases "n = 63")
    case True
    then show ?thesis unfolding ws bits_set_single by (auto simp: GetNextSet_def)
  next
    case False
    define v where "v = w AND (GetBitMask n - 1)"
    have n: "n + 1 < 64" using False assms(2) by simp
    have bv: "bit v (63 - j) \<longleftrightarrow> bit w (63 - j) \<and> n < j" if "j < 64" for j
      using that assms(2) by (auto simp: v_def bit_and_iff bit_below_mask)
    have bw: "{i. i < 64 \<and> bit v (63 - i)} = {i \<in> bits_set ws. n < i}" using bv unfolding ws bits_set_single by auto
    have g: "GetNextSet n ws = (if v \<noteq> 0 then countl_zero v else 64)"
      using n by (simp add: GetNextSet_def ws v_def Let_def)
    have "length [v] = 1" by simp
    from CountLeadingZero_least[OF this, unfolded bits_set_single bw] g
    show ?thesis by (auto split: if_splits)
  qed
qed

end
