(* ===== verification/K_Page_Bitmap.thy ===== *)
theory K_Page_Bitmap
  imports Tiny_MT Bit_Set
begin

text \<open>
  \<open>KPageBitmap\<close> (\<open>src/core/hle/kernel/k_page_bitmap.h\<close>): a tree of 64-bit words in which a bit of
  one level says whether the word below it is non-zero. The storages are a list of levels, from
  the single top word (depth 0) to the leaves; reading or writing outside a level, and the shifts
  and divisions C++ leaves undefined, have no result (\<open>None\<close>). The random bit generator draws from
  \<open>Tiny_MT\<close>. \<open>KDynamicPageManager\<close> (\<open>src/core/hle/kernel/k_dynamic_page_manager.h\<close>) is the page
  allocator built on the bitmap; the contents of pages are not modelled.
\<close>

section \<open>Random bits\<close>

record RandomBitGenerator =
  rg_rng :: TinyMT
  rg_entropy :: u32
  rg_bits_available :: nat

definition RefreshEntropy :: "RandomBitGenerator \<Rightarrow> RandomBitGenerator" where
  "RefreshEntropy g =
     (let (e, st) = GenerateRandomU32 (rg_rng g)
      in g\<lparr>rg_rng := st, rg_entropy := e, rg_bits_available := 32\<rparr>)"

definition GenerateRandomBit :: "RandomBitGenerator \<Rightarrow> bool \<times> RandomBitGenerator" where
  "GenerateRandomBit g =
     (let g1 = (if rg_bits_available g = 0 then RefreshEntropy g else g)
      in (rg_entropy g1 AND 1 \<noteq> 0,
          g1\<lparr>rg_entropy := drop_bit 1 (rg_entropy g1), rg_bits_available := rg_bits_available g1 - 1\<rparr>))"

function random_bits_loop :: "nat \<Rightarrow> u64 \<Rightarrow> RandomBitGenerator \<Rightarrow> u64 \<times> RandomBitGenerator" where
  "random_bits_loop num_bits result g =
     (if num_bits > 0 then
        let g1 = (if rg_bits_available g = 0 then RefreshEntropy g else g);
            cur_bits = min num_bits (rg_bits_available g1);
            m = push_bit cur_bits 1 - (1 :: u64);
            result' = push_bit cur_bits result OR (ucast (rg_entropy g1) AND m);
            g2 = g1\<lparr>rg_entropy := (if cur_bits < 32 then drop_bit cur_bits (rg_entropy g1)
                                  else rg_entropy g1),
                    rg_bits_available := rg_bits_available g1 - cur_bits\<rparr>
        in random_bits_loop (num_bits - cur_bits) result' g2
      else (result, g))"
  by pat_completeness auto
termination
  by (relation "measure (\<lambda>(n, r, g). n)") (auto simp: RefreshEntropy_def Let_def split: prod.splits)

declare random_bits_loop.simps [simp del]

definition GenerateRandomBits :: "nat \<Rightarrow> RandomBitGenerator \<Rightarrow> u64 \<times> RandomBitGenerator" where
  "GenerateRandomBits num_bits g = random_bits_loop num_bits 0 g"

definition GenerateRandom :: "u64 \<Rightarrow> RandomBitGenerator \<Rightarrow> u64 \<times> RandomBitGenerator" where
  "GenerateRandom mx g =
     (let bits_needed = 1 + (64 - countl_zero mx);
          (rnd, g') = GenerateRandomBits bits_needed g
      in (rnd - (rnd div mx) * mx, g'))"

fun select_loop :: "nat list \<Rightarrow> u64 \<Rightarrow> nat \<Rightarrow> RandomBitGenerator \<Rightarrow> u64 \<times> nat \<times> RandomBitGenerator" where
  "select_loop [] bitmap selected g = (bitmap, selected, g)"
| "select_loop (cur_num_bits # ns) bitmap selected g =
     (let high = drop_bit cur_num_bits bitmap;
          low = bitmap AND NOT (push_bit cur_num_bits (-1));
          (take_high, g') =
            (if high \<noteq> 0 then if low = 0 then (True, g) else GenerateRandomBit g else (False, g))
      in if take_high then select_loop ns high (selected + cur_num_bits) g'
         else select_loop ns low selected g')"

definition SelectRandomBit :: "u64 \<Rightarrow> RandomBitGenerator \<Rightarrow> nat \<times> RandomBitGenerator" where
  "SelectRandomBit bitmap g =
     (let (_, selected, g') = select_loop [32, 16, 8, 4, 2, 1] bitmap 0 g in (selected, g'))"

section \<open>The bitmap\<close>

record KPageBitmap =
  m_bit_storages :: "u64 list list"
  m_rng :: RandomBitGenerator
  m_num_bits :: nat

function GetRequiredDepth :: "nat \<Rightarrow> nat" where
  "GetRequiredDepth region_size =
     (let r = region_size div 64 in if r = 0 then 1 else Suc (GetRequiredDepth r))"
  by pat_completeness auto
termination
  by (relation "measure id") auto

declare GetRequiredDepth.simps [simp del]

fun overhead_loop :: "nat \<Rightarrow> nat \<Rightarrow> nat \<Rightarrow> nat" where
  "overhead_loop 0 region_size overhead_bits = overhead_bits"
| "overhead_loop (Suc depth) region_size overhead_bits =
     (let r = AlignUp region_size 64 div 64 in overhead_loop depth r (overhead_bits + r))"

definition CalculateManagementOverheadSize :: "nat \<Rightarrow> nat" where
  "CalculateManagementOverheadSize region_size =
     overhead_loop (GetRequiredDepth region_size) region_size 0 * 8"

text \<open>\<open>Initialize\<close> cuts the levels, leaves first, from the storage it is given and returns the rest.\<close>

fun cut_levels :: "nat \<Rightarrow> nat \<Rightarrow> u64 list \<Rightarrow> u64 list list \<Rightarrow> (u64 list list \<times> u64 list) option" where
  "cut_levels 0 sz storage levels = Some (levels, storage)"
| "cut_levels (Suc depth) sz storage levels =
     (let n = AlignUp sz 64 div 64
      in if n \<le> length storage
         then cut_levels depth n (drop n storage) (take n storage # levels)
         else None)"

definition MaxDepth :: nat where
  "MaxDepth = 4"

text \<open>The levels are kept in arrays of \<open>MaxDepth\<close> pointers; a deeper bitmap would write behind their ends.\<close>

definition KPageBitmap_Initialize ::
  "u64 list \<Rightarrow> nat \<Rightarrow> RandomBitGenerator \<Rightarrow> (KPageBitmap \<times> u64 list) option" where
  "KPageBitmap_Initialize storage sz g =
     (if GetRequiredDepth sz > MaxDepth then None
      else case cut_levels (GetRequiredDepth sz) sz storage [] of
        None \<Rightarrow> None
      | Some (levels, rest) \<Rightarrow> Some (\<lparr>m_bit_storages = levels, m_rng = g, m_num_bits = 0\<rparr>, rest))"

definition level_read :: "u64 list list \<Rightarrow> nat \<Rightarrow> nat \<Rightarrow> u64 option" where
  "level_read L depth ind =
     (if depth < length L \<and> ind < length (L ! depth) then Some (L ! depth ! ind) else None)"

definition level_write :: "u64 list list \<Rightarrow> nat \<Rightarrow> nat \<Rightarrow> u64 \<Rightarrow> u64 list list" where
  "level_write L depth ind v = L[depth := (L ! depth)[ind := v]]"

text \<open>The loops over the levels count the depth down to -1; \<open>n\<close> is the depth plus one.\<close>

fun set_bit_at :: "nat \<Rightarrow> nat \<Rightarrow> u64 list list \<Rightarrow> u64 list list option" where
  "set_bit_at 0 offset L = Some L"
| "set_bit_at (Suc depth) offset L =
     (let ind = offset div 64; m = push_bit (offset mod 64) 1 in
      case level_read L depth ind of
        None \<Rightarrow> None
      | Some v \<Rightarrow>
          let L' = level_write L depth ind (v OR m)
          in if v \<noteq> 0 then Some L' else set_bit_at depth ind L')"

fun clear_bit_at :: "nat \<Rightarrow> nat \<Rightarrow> u64 list list \<Rightarrow> u64 list list option" where
  "clear_bit_at 0 offset L = Some L"
| "clear_bit_at (Suc depth) offset L =
     (let ind = offset div 64; m = push_bit (offset mod 64) 1 in
      case level_read L depth ind of
        None \<Rightarrow> None
      | Some v \<Rightarrow>
          let v' = v AND NOT m; L' = level_write L depth ind v'
          in if v' \<noteq> 0 then Some L' else clear_bit_at depth ind L')"

definition SetBit :: "nat \<Rightarrow> KPageBitmap \<Rightarrow> KPageBitmap option" where
  "SetBit offset pb =
     map_option (\<lambda>L. pb\<lparr>m_bit_storages := L, m_num_bits := add64 (m_num_bits pb) 1\<rparr>)
       (set_bit_at (length (m_bit_storages pb)) offset (m_bit_storages pb))"

definition ClearBit :: "nat \<Rightarrow> KPageBitmap \<Rightarrow> KPageBitmap option" where
  "ClearBit offset pb =
     map_option (\<lambda>L. pb\<lparr>m_bit_storages := L, m_num_bits := sub64 (m_num_bits pb) 1\<rparr>)
       (clear_bit_at (length (m_bit_storages pb)) offset (m_bit_storages pb))"

text \<open>\<open>FindFreeBlock\<close>: the answer \<open>-1\<close> is the inner \<open>None\<close>. \<open>fuel\<close> counts the levels still to visit.\<close>

fun find_block_loop ::
  "nat \<Rightarrow> bool \<Rightarrow> nat \<Rightarrow> nat \<Rightarrow> u64 list list \<Rightarrow> RandomBitGenerator
    \<Rightarrow> (nat option \<times> RandomBitGenerator) option" where
  "find_block_loop 0 random depth offset L g = Some (Some offset, g)"
| "find_block_loop (Suc fuel) random depth offset L g =
     (case level_read L depth offset of
        None \<Rightarrow> None
      | Some v \<Rightarrow>
          if v = 0 then Some (None, g)
          else
            let (i, g') = (if random then SelectRandomBit v g else (countr_zero v, g))
            in find_block_loop fuel random (Suc depth) (offset * 64 + i) L g')"

definition FindFreeBlock :: "bool \<Rightarrow> KPageBitmap \<Rightarrow> (nat option \<times> KPageBitmap) option" where
  "FindFreeBlock random pb =
     map_option (\<lambda>(r, g). (r, pb\<lparr>m_rng := g\<rparr>))
       (find_block_loop (length (m_bit_storages pb)) random 0 0 (m_bit_storages pb) (m_rng pb))"

fun range_options ::
  "nat \<Rightarrow> nat \<Rightarrow> nat \<Rightarrow> nat \<Rightarrow> u64 \<Rightarrow> u64 \<Rightarrow> u64 \<times> nat option \<times> RandomBitGenerator
    \<Rightarrow> u64 \<times> nat option \<times> RandomBitGenerator" where
  "range_options 0 option storage_index count free_mask storage (valid, chosen, g) = (valid, chosen, g)"
| "range_options (Suc n) option storage_index count free_mask storage (valid, chosen, g) =
     (let st' =
        (if storage AND free_mask = free_mask then
           let valid' = valid + 1;
               (r, g') = (if valid' = 1 then (0, g) else GenerateRandom valid' g)
           in (valid', if valid' = 1 \<or> r = 0 then Some (storage_index * 64 + option * count) else chosen, g')
         else (valid, chosen, g))
      in range_options n (Suc option) storage_index count free_mask (drop_bit count storage) st')"

fun range_storages ::
  "u64 list \<Rightarrow> nat \<Rightarrow> nat \<Rightarrow> nat \<Rightarrow> u64 \<Rightarrow> u64 \<times> nat option \<times> RandomBitGenerator
    \<Rightarrow> u64 \<times> nat option \<times> RandomBitGenerator" where
  "range_storages [] storage_index options count free_mask s = s"
| "range_storages (storage # ws) storage_index options count free_mask s =
     range_storages ws (Suc storage_index) options count free_mask
       (range_options options 0 storage_index count free_mask storage s)"

definition FindFreeRange :: "nat \<Rightarrow> KPageBitmap \<Rightarrow> (nat option \<times> KPageBitmap) option" where
  "FindFreeRange count pb =
     (let leaves = last (m_bit_storages pb) in
      if \<not> (leaves \<noteq> [] \<and> count \<le> 64) then Some (None, pb)
      else if count = 0 \<or> count = 64 then None
      else
        let options_per_storage = max (64 div count) 1;
            free_mask = push_bit count 1 - 1;
            (_, chosen, g) = range_storages leaves 0 options_per_storage count free_mask (0, None, m_rng pb)
        in Some (chosen, pb\<lparr>m_rng := g\<rparr>))"

function all_set_words :: "nat \<Rightarrow> nat \<Rightarrow> nat \<Rightarrow> u64 list list \<Rightarrow> bool option" where
  "all_set_words depth ind remaining L =
     (case level_read L depth ind of
        None \<Rightarrow> None
      | Some v \<Rightarrow>
          if v \<noteq> -1 then Some False
          else if remaining \<le> 64 then Some True
          else all_set_words depth (Suc ind) (remaining - 64) L)"
  by pat_completeness auto
termination
  by (relation "measure (\<lambda>(d, i, r, L). r)") auto

declare all_set_words.simps [simp del]

function clear_words :: "nat \<Rightarrow> nat \<Rightarrow> nat \<Rightarrow> u64 list list \<Rightarrow> u64 list list option" where
  "clear_words depth ind remaining L =
     (case level_read L depth ind of
        None \<Rightarrow> None
      | Some _ \<Rightarrow>
          (case clear_bit_at depth ind (level_write L depth ind 0) of
             None \<Rightarrow> None
           | Some L' \<Rightarrow> if remaining \<le> 64 then Some L'
                       else clear_words depth (Suc ind) (remaining - 64) L'))"
  by pat_completeness auto
termination
  by (relation "measure (\<lambda>(d, i, r, L). r)") auto

declare clear_words.simps [simp del]

text \<open>
  \<open>ClearRange\<close> requires (by assertion) that a short range does not cross a word and that a long one
  covers whole words; \<open>remaining\<close> would wrap for a long range that does not, so that case has no
  result.
\<close>

definition ClearRange :: "nat \<Rightarrow> nat \<Rightarrow> KPageBitmap \<Rightarrow> (bool \<times> KPageBitmap) option" where
  "ClearRange offset count pb =
     (let L = m_bit_storages pb; depth = length L - 1; bit_ind = offset div 64;
          done = (\<lambda>L'. (True, pb\<lparr>m_bit_storages := L', m_num_bits := sub64 (m_num_bits pb) count\<rparr>))
      in if count < 64 then
           let m = push_bit (offset mod 64) (push_bit count 1 - 1) in
           case level_read L depth bit_ind of
             None \<Rightarrow> None
           | Some v \<Rightarrow>
               if v AND m \<noteq> m then Some (False, pb)
               else
                 let v' = v AND NOT m; L' = level_write L depth bit_ind v'
                 in if v' = 0 then map_option done (clear_bit_at depth bit_ind L') else Some (done L')
         else if count mod 64 \<noteq> 0 then None
         else
           case all_set_words depth bit_ind count L of
             None \<Rightarrow> None
           | Some False \<Rightarrow> Some (False, pb)
           | Some True \<Rightarrow> map_option done (clear_words depth bit_ind count L))"

section \<open>The page manager\<close>

record KDynamicPageManager =
  dpm_bitmap :: KPageBitmap
  dpm_used :: nat
  dpm_peak :: nat
  dpm_count :: nat
  dpm_address :: nat
  dpm_aligned_address :: nat
  dpm_size :: nat
  dpm_backing :: nat

fun free_pages :: "nat list \<Rightarrow> nat \<Rightarrow> nat \<Rightarrow> KPageBitmap \<Rightarrow> KPageBitmap option" where
  "free_pages [] addr aligned pb = Some pb"
| "free_pages (i # is) addr aligned pb =
     (case SetBit (sub64 (add64 addr (i * PageSize)) aligned div PageSize) pb of
        None \<Rightarrow> None | Some pb' \<Rightarrow> free_pages is addr aligned pb')"

definition PageManager_Initialize ::
  "nat \<Rightarrow> nat \<Rightarrow> nat \<Rightarrow> nat \<Rightarrow> RandomBitGenerator \<Rightarrow> (Result \<times> KDynamicPageManager option) option" where
  "PageManager_Initialize backing memory sz align g =
     (if sz = 0 then Some (ResultOutOfMemory, None)
      else
        let aligned = AlignDown memory align;
            managed_size = sub64 (add64 memory sz) aligned;
            overhead_size = AlignUp (CalculateManagementOverheadSize (managed_size div PageSize)) PageSize
        in if \<not> overhead_size < sz then Some (ResultOutOfMemory, None)
           else
             let m_size = AlignDown (sz - overhead_size) PageSize;
                 count = m_size div PageSize;
                 allocatable = sub64 (sub64 (add64 memory sz) overhead_size) aligned
             in case KPageBitmap_Initialize (replicate (overhead_size div 8) 0)
                       (allocatable div PageSize) g of
                  None \<Rightarrow> None
                | Some (pb, _) \<Rightarrow>
                    (case free_pages [0 ..< count] memory aligned pb of
                       None \<Rightarrow> None
                     | Some pb' \<Rightarrow>
                         Some (ResultSuccess,
                           Some \<lparr>dpm_bitmap = pb', dpm_used = 0, dpm_peak = 0, dpm_count = count,
                                 dpm_address = memory, dpm_aligned_address = aligned,
                                 dpm_size = m_size, dpm_backing = backing\<rparr>)))"

text \<open>Pages are host pointers into the backing memory.\<close>

definition PageManager_GetPointer :: "KDynamicPageManager \<Rightarrow> nat \<Rightarrow> nat" where
  "PageManager_GetPointer pm addr = add64 (dpm_backing pm) (sub64 addr (dpm_address pm))"

definition page_pointer :: "KDynamicPageManager \<Rightarrow> nat \<Rightarrow> nat" where
  "page_pointer pm offset =
     add64 (PageManager_GetPointer pm (dpm_aligned_address pm)) (mul64 offset PageSize)"

definition PageManager_Allocate :: "KDynamicPageManager \<Rightarrow> (nat option \<times> KDynamicPageManager) option" where
  "PageManager_Allocate pm =
     (case FindFreeBlock True (dpm_bitmap pm) of
        None \<Rightarrow> None
      | Some (None, pb) \<Rightarrow> Some (None, pm\<lparr>dpm_bitmap := pb\<rparr>)
      | Some (Some offset, pb) \<Rightarrow>
          (case ClearBit offset pb of
             None \<Rightarrow> None
           | Some pb' \<Rightarrow>
               Some (Some (page_pointer pm offset), pm\<lparr>dpm_bitmap := pb', dpm_used := dpm_used pm + 1,
                                    dpm_peak := max (dpm_peak pm) (dpm_used pm + 1)\<rparr>)))"

definition PageManager_AllocateRange ::
  "nat \<Rightarrow> KDynamicPageManager \<Rightarrow> (nat option \<times> KDynamicPageManager) option" where
  "PageManager_AllocateRange count pm =
     (case FindFreeRange count (dpm_bitmap pm) of
        None \<Rightarrow> None
      | Some (None, pb) \<Rightarrow> Some (None, pm\<lparr>dpm_bitmap := pb\<rparr>)
      | Some (Some offset, pb) \<Rightarrow>
          (case ClearRange offset count pb of
             None \<Rightarrow> None
           | Some (_, pb') \<Rightarrow>
               Some (Some (page_pointer pm offset), pm\<lparr>dpm_bitmap := pb', dpm_used := dpm_used pm + count,
                                    dpm_peak := max (dpm_peak pm) (dpm_used pm + count)\<rparr>)))"

definition PageManager_Free :: "nat \<Rightarrow> KDynamicPageManager \<Rightarrow> KDynamicPageManager option" where
  "PageManager_Free page pm =
     (let offset = sub64 page (dpm_aligned_address pm) div PageSize
      in map_option (\<lambda>pb. pm\<lparr>dpm_bitmap := pb, dpm_used := sub64 (dpm_used pm) 1\<rparr>)
           (SetBit offset (dpm_bitmap pm)))"

section \<open>Selecting a bit\<close>

lemma u64_split_zero: "drop_bit n b = 0 \<Longrightarrow> take_bit n b = 0 \<Longrightarrow> b = (0 :: u64)"
  by (metis bits_ident push_bit_of_0 add.right_neutral)

lemma select_loop_step:
  assumes "select_loop (n # ns) b k g = r" "b \<noteq> 0"
  obtains g1 where "select_loop ns (drop_bit n b) (k + n) g1 = r" "drop_bit n b \<noteq> 0"
  | g1 where "select_loop ns (take_bit n b) k g1 = r" "take_bit n b \<noteq> 0"
  using assms u64_split_zero[of n b]
  by (auto simp: Let_def take_bit_eq_mask split: if_splits prod.splits)

text \<open>The loop keeps a non-zero part of the word, halving its width, at an offset it accumulates.\<close>

lemma select_loop_ok:
  assumes "select_loop ns b k g = (b', k', g')" "b \<noteq> 0"
    and "\<And>j. bit b j \<Longrightarrow> bit w (k + j)"
  shows "b' \<noteq> 0 \<and> (\<forall>j. bit b' j \<longrightarrow> bit w (k' + j))"
  using assms
proof (induction ns arbitrary: b k g)
  case (Cons n ns)
  let ?hi = "drop_bit n b" and ?lo = "take_bit n b"
  have hi: "bit w (k + n + j)" if "bit ?hi j" for j
    using that Cons.prems(3)[of "n + j"] by (simp add: bit_drop_bit_eq add.assoc)
  have lo: "bit w (k + j)" if "bit ?lo j" for j
    using that Cons.prems(3)[of j] by (simp add: bit_take_bit_iff)
  show ?case
    using Cons.prems(1,2) by (rule select_loop_step) (use Cons.IH hi lo in blast)+
qed auto

fun halving :: "nat list \<Rightarrow> bool" where
  "halving [] = True"
| "halving (n # ns) \<longleftrightarrow> n = sum_list ns + 1 \<and> halving ns"

lemma select_loop_width:
  assumes "select_loop ns b k g = (b', k', g')" "b \<noteq> 0" "take_bit (sum_list ns + 1) b = b" "halving ns"
  shows "take_bit 1 b' = b'"
  using assms
proof (induction ns arbitrary: b k g)
  case (Cons n ns)
  have n: "n = sum_list ns + 1" "halving ns" using Cons.prems(4) by auto
  have lo: "take_bit (sum_list ns + 1) (take_bit n b) = take_bit n b" using n by simp
  have "drop_bit n b = drop_bit n (take_bit (n + n) b)" using Cons.prems(3) n by simp
  then have hi: "take_bit (sum_list ns + 1) (drop_bit n b) = drop_bit n b"
    using n by (simp add: drop_bit_take_bit)
  show ?case
    using Cons.prems(1,2) by (rule select_loop_step) (use Cons.IH hi lo n(2) in blast)+
qed auto

lemma SelectRandomBit_set:
  assumes "SelectRandomBit w g = (i, g')" "w \<noteq> 0"
  shows "bit w i"
proof -
  obtain b' where s: "select_loop [32, 16, 8, 4, 2, 1] w 0 g = (b', i, g')"
    using assms(1) by (auto simp: SelectRandomBit_def split: prod.splits)
  have nz: "b' \<noteq> 0" and b: "\<And>j. bit b' j \<Longrightarrow> bit w (i + j)"
    using select_loop_ok[OF s assms(2), of w] by auto
  have "take_bit 1 b' = b'"
    by (rule select_loop_width[OF s assms(2)]) (simp_all add: take_bit_word_eq_self)
  then have "bit b' n \<Longrightarrow> n = 0" for n by (metis bit_take_bit_iff less_one)
  moreover obtain n where "bit b' n" using nz by (auto simp: bit_eq_iff)
  ultimately show ?thesis using b[of 0] by fastforce
qed

section \<open>The summary invariant\<close>

definition bit_at :: "u64 list list \<Rightarrow> nat \<Rightarrow> nat \<Rightarrow> bool" where
  "bit_at L k i = bit (L ! k ! (i div 64)) (i mod 64)"

text \<open>A bit of a level says whether the word below is non-zero, except at the places in \<open>X\<close>.\<close>

definition summary :: "u64 list list \<Rightarrow> (nat \<times> nat) set \<Rightarrow> bool" where
  "summary L X \<longleftrightarrow>
     (\<forall>k i. Suc k < length L \<and> i < 64 * length (L ! k) \<and> (k, i) \<notin> X \<longrightarrow>
        bit_at L k i = (i < length (L ! Suc k) \<and> L ! Suc k ! i \<noteq> 0))"

definition shape :: "u64 list list \<Rightarrow> bool" where
  "shape L \<longleftrightarrow> L \<noteq> [] \<and> length (L ! 0) = 1 \<and>
     (\<forall>k. Suc k < length L \<longrightarrow> length (L ! Suc k) \<le> 64 * length (L ! k))"

lemma summaryD:
  "summary L X \<Longrightarrow> Suc k < length L \<Longrightarrow> i < 64 * length (L ! k) \<Longrightarrow> (k, i) \<notin> X
    \<Longrightarrow> bit_at L k i = (i < length (L ! Suc k) \<and> L ! Suc k ! i \<noteq> 0)"
  by (simp add: summary_def)

lemma level_write_nth:
  "d < length L \<Longrightarrow> level_write L d ind v ! k = (if k = d then (L ! d)[ind := v] else L ! k)"
  by (simp add: level_write_def nth_list_update)

lemma level_write_length [simp]:
  "length (level_write L d ind v) = length L"
  "length (level_write L d ind v ! k) = length (L ! k)"
  by (simp add: level_write_def)
    (cases "d < length L", auto simp: level_write_def nth_list_update not_less list_update_beyond)

lemma shape_write: "shape (level_write L d ind v) = shape L"
  by (simp add: shape_def) (metis length_greater_0_conv level_write_length(1))

lemma bit_at_write:
  assumes "d < length L" "off < 64 * length (L ! d)" "i < 64 * length (L ! k)"
    and "\<And>j. j < 64 \<Longrightarrow> bit v' j = (if j = off mod 64 then tgt else bit (L ! d ! (off div 64)) j)"
  shows "bit_at (level_write L d (off div 64) v') k i = (if k = d \<and> i = off then tgt else bit_at L k i)"
proof (cases "k = d \<and> i div 64 = off div 64")
  case True
  then have "off div 64 < length (L ! d)" using assms(2) by auto
  moreover have "i = off \<longleftrightarrow> i mod 64 = off mod 64"
    using True by (metis div_mult_mod_eq)
  ultimately show ?thesis
    using True assms(1) assms(4)[of "i mod 64"] by (simp add: bit_at_def level_write_nth)
next
  case False
  then have "\<not> (k = d \<and> i = off)" by auto
  then show ?thesis using False assms(1) by (auto simp: bit_at_def level_write_nth)
qed

lemma summary_write:
  assumes S: "summary L {(d, off)}" and d: "d < length L" "off < 64 * length (L ! d)"
    and bits: "\<And>j. j < 64 \<Longrightarrow> bit v' j = (if j = off mod 64 then tgt else bit (L ! d ! (off div 64)) j)"
    and tgt: "Suc d < length L \<Longrightarrow> tgt = (off < length (L ! Suc d) \<and> L ! Suc d ! off \<noteq> 0)"
  shows "summary (level_write L d (off div 64) v')
    (if d = 0 \<or> (v' \<noteq> 0 \<longleftrightarrow> L ! d ! (off div 64) \<noteq> 0) then {} else {(d - 1, off div 64)})"
    (is "summary ?L ?X")
  unfolding summary_def
proof (intro allI impI)
  fix k i assume a: "Suc k < length ?L \<and> i < 64 * length (?L ! k) \<and> (k, i) \<notin> ?X"
  then have k: "Suc k < length L" "i < 64 * length (L ! k)" "(k, i) \<notin> ?X" by auto
  have b: "bit_at ?L k i = (if k = d \<and> i = off then tgt else bit_at L k i)"
    by (rule bit_at_write[OF d k(2) bits])
  have ind: "off div 64 < length (L ! d)" using d(2) by auto
  consider "k = d" | "Suc k = d" | "k \<noteq> d" "Suc k \<noteq> d" by blast
  then show "bit_at ?L k i = (i < length (?L ! Suc k) \<and> ?L ! Suc k ! i \<noteq> 0)"
  proof cases
    case 1
    then have "?L ! Suc k = L ! Suc k" using d(1) by (simp add: level_write_nth)
    then show ?thesis
      using b tgt k 1 summaryD[OF S k(1,2)] by (cases "i = off") auto
  next
    case 2
    then have "?L ! Suc k = (L ! d)[off div 64 := v']" using d(1) by (simp add: level_write_nth)
    moreover have "i = off div 64 \<Longrightarrow> (v' \<noteq> 0) = (L ! d ! (off div 64) \<noteq> 0)"
      using k(3) 2 by (auto split: if_splits)
    ultimately show ?thesis
      using b 2 ind summaryD[OF S k(1,2)] by (auto simp: nth_list_update)
  next
    case 3
    then have "?L ! Suc k = L ! Suc k" using d(1) by (simp add: level_write_nth)
    then show ?thesis using b 3 summaryD[OF S k(1,2)] by simp
  qed
qed

lemma set_bit_word: "j < 64 \<Longrightarrow> o' < 64 \<Longrightarrow>
  bit (v OR push_bit o' (1 :: u64)) j = (if j = o' then True else bit v j)"
  by (auto simp: bit_or_iff bit_exp_iff)

lemma clear_bit_word: "j < 64 \<Longrightarrow> o' < 64 \<Longrightarrow>
  bit (v AND NOT (push_bit o' (1 :: u64))) j = (if j = o' then False else bit v j)"
  by (auto simp: bit_and_iff bit_not_iff bit_exp_iff)

declare set_bit_at.simps(2) [simp del] clear_bit_at.simps(2) [simp del]

lemma set_bit_at_ok:
  assumes "summary L {(d, off)}" "shape L" "d < length L" "off < 64 * length (L ! d)"
    and "Suc d < length L \<Longrightarrow> off < length (L ! Suc d) \<and> L ! Suc d ! off \<noteq> 0"
  shows "\<exists>L'. set_bit_at (Suc d) off L = Some L' \<and> shape L' \<and> summary L' {} \<and> length L' = length L \<and>
    (\<forall>k>d. L' ! k = L ! k) \<and>
    L' ! d = (L ! d)[off div 64 := L ! d ! (off div 64) OR push_bit (off mod 64) 1]"
  using assms
proof (induction d arbitrary: off L)
  case (0 off L)
  let ?v = "L ! 0 ! (off div 64)"
  let ?L = "level_write L 0 (off div 64) (?v OR push_bit (off mod 64) 1)"
  have "summary ?L {}"
    using summary_write[OF 0(1,3,4), of "?v OR push_bit (off mod 64) 1" True] 0(5) set_bit_word
    by simp
  moreover have "set_bit_at (Suc 0) off L = Some ?L"
    using 0(3,4) by (simp add: set_bit_at.simps(2) level_read_def Let_def less_mult_imp_div_less mult.commute)
  ultimately show ?case using 0 by (auto simp: shape_write level_write_nth)
next
  case (Suc d off L)
  define ind where "ind = off div 64"
  define v where "v = L ! Suc d ! ind"
  define v' where "v' = v OR push_bit (off mod 64) 1"
  let ?L = "level_write L (Suc d) ind v'"
  have ind: "ind < length (L ! Suc d)" using Suc.prems(4) by (auto simp: ind_def)
  have step: "set_bit_at (Suc (Suc d)) off L = (if v \<noteq> 0 then Some ?L else set_bit_at (Suc d) ind ?L)"
    using Suc.prems(3) ind by (simp add: set_bit_at.simps(2)[of "Suc d"] level_read_def Let_def v'_def v_def ind_def)
  have bits: "bit v' j = (if j = off mod 64 then True else bit (L ! Suc d ! (off div 64)) j)" if "j < 64" for j
    unfolding v'_def v_def ind_def using that by (intro set_bit_word) simp_all
  have nz: "v' \<noteq> 0" using bits[of "off mod 64"] by auto
  have "summary ?L (if Suc d = 0 \<or> (v' \<noteq> 0) = (L ! Suc d ! (off div 64) \<noteq> 0) then {}
      else {(Suc d - 1, off div 64)})"
    unfolding ind_def by (rule summary_write[OF Suc.prems(1,3,4) bits]) (use Suc.prems(5) in auto)
  then have sm: "summary ?L (if v \<noteq> 0 then {} else {(d, ind)})"
    using nz unfolding v_def[symmetric] ind_def[symmetric] by (cases "v = 0") simp_all
  show ?case
  proof (cases "v = 0")
    case False
    then show ?thesis using step sm Suc.prems
      by (auto simp: shape_write level_write_nth v'_def v_def ind_def)
  next
    case True
    have "length (L ! Suc d) \<le> 64 * length (L ! d)" using Suc.prems(2,3) by (simp add: shape_def)
    then have "ind < 64 * length (?L ! d)" using ind by simp
    moreover have "ind < length (?L ! Suc d) \<and> ?L ! Suc d ! ind \<noteq> 0"
      using ind nz Suc.prems(3) by (simp add: level_write_nth)
    ultimately obtain L' where "set_bit_at (Suc d) ind ?L = Some L'" "shape L'" "summary L' {}"
      "length L' = length ?L" "\<forall>k>d. L' ! k = ?L ! k"
      using Suc.IH[of ?L ind] sm True Suc.prems(2,3) by (auto simp: shape_write)
    then show ?thesis using step True Suc.prems(3)
      by (auto simp: level_write_nth v'_def v_def ind_def)
  qed
qed

lemma clear_bit_at_ok:
  assumes "summary L {(d, off)}" "shape L" "d < length L" "off < 64 * length (L ! d)"
    and "Suc d < length L \<Longrightarrow> \<not> (off < length (L ! Suc d) \<and> L ! Suc d ! off \<noteq> 0)"
  shows "\<exists>L'. clear_bit_at (Suc d) off L = Some L' \<and> shape L' \<and> summary L' {} \<and> length L' = length L \<and>
    (\<forall>k>d. L' ! k = L ! k) \<and>
    L' ! d = (L ! d)[off div 64 := L ! d ! (off div 64) AND NOT (push_bit (off mod 64) 1)]"
  using assms
proof (induction d arbitrary: off L)
  case (0 off L)
  let ?v = "L ! 0 ! (off div 64)"
  let ?L = "level_write L 0 (off div 64) (?v AND NOT (push_bit (off mod 64) 1))"
  have "summary ?L {}"
    using summary_write[OF 0(1,3,4), of "?v AND NOT (push_bit (off mod 64) 1)" False] 0(5) clear_bit_word
    by simp
  moreover have "clear_bit_at (Suc 0) off L = Some ?L"
    using 0(3,4) by (simp add: clear_bit_at.simps(2) level_read_def Let_def less_mult_imp_div_less mult.commute)
  ultimately show ?case using 0 by (auto simp: shape_write level_write_nth)
next
  case (Suc d off L)
  define ind where "ind = off div 64"
  define v where "v = L ! Suc d ! ind"
  define v' where "v' = v AND NOT (push_bit (off mod 64) 1)"
  let ?L = "level_write L (Suc d) ind v'"
  have ind: "ind < length (L ! Suc d)" using Suc.prems(4) by (auto simp: ind_def)
  have step: "clear_bit_at (Suc (Suc d)) off L = (if v' \<noteq> 0 then Some ?L else clear_bit_at (Suc d) ind ?L)"
    using Suc.prems(3) ind by (simp add: clear_bit_at.simps(2)[of "Suc d"] level_read_def Let_def v'_def v_def ind_def)
  have bits: "bit v' j = (if j = off mod 64 then False else bit (L ! Suc d ! (off div 64)) j)" if "j < 64" for j
    unfolding v'_def v_def ind_def using that by (intro clear_bit_word) simp_all
  have "summary ?L (if Suc d = 0 \<or> (v' \<noteq> 0) = (L ! Suc d ! (off div 64) \<noteq> 0) then {}
      else {(Suc d - 1, off div 64)})"
    unfolding ind_def by (rule summary_write[OF Suc.prems(1,3,4) bits]) (use Suc.prems(5) in auto)
  then have sm: "summary ?L (if (v' \<noteq> 0) = (v \<noteq> 0) then {} else {(d, ind)})"
    unfolding v_def[symmetric] ind_def[symmetric] by (cases "(v' = 0) = (v = 0)") simp_all
  show ?case
  proof (cases "v' = 0")
    case False
    then have "v \<noteq> 0" by (auto simp: v'_def)
    with False show ?thesis using step sm Suc.prems
      by (auto simp: shape_write level_write_nth v'_def v_def ind_def)
  next
    case True
    have "summary ?L {(d, ind)}" using sm by (auto simp: summary_def split: if_splits)
    moreover have "length (L ! Suc d) \<le> 64 * length (L ! d)" using Suc.prems(2,3) by (simp add: shape_def)
    then have "ind < 64 * length (?L ! d)" using ind by simp
    moreover have "\<not> (ind < length (?L ! Suc d) \<and> ?L ! Suc d ! ind \<noteq> 0)"
      using ind True Suc.prems(3) by (simp add: level_write_nth)
    ultimately obtain L' where "clear_bit_at (Suc d) ind ?L = Some L'" "shape L'" "summary L' {}"
      "length L' = length ?L" "\<forall>k>d. L' ! k = ?L ! k"
      using Suc.IH[of ?L ind] Suc.prems(2,3) by (auto simp: shape_write)
    then show ?thesis using step True Suc.prems(3)
      by (auto simp: level_write_nth v'_def v_def ind_def)
  qed
qed

section \<open>The set of free blocks\<close>

definition leaf_count :: "u64 list list \<Rightarrow> nat" where
  "leaf_count L = 64 * length (last L)"

definition leaf_bits :: "u64 list list \<Rightarrow> nat set" where
  "leaf_bits L = {i. i < leaf_count L \<and> bit_at L (length L - 1) i}"

definition bitmap_wf :: "KPageBitmap \<Rightarrow> bool" where
  "bitmap_wf pb \<longleftrightarrow> shape (m_bit_storages pb) \<and> summary (m_bit_storages pb) {} \<and>
     m_num_bits pb = card (leaf_bits (m_bit_storages pb)) \<and> leaf_count (m_bit_storages pb) < two64"

abbreviation free_blocks :: "KPageBitmap \<Rightarrow> nat set" where
  "free_blocks pb \<equiv> leaf_bits (m_bit_storages pb)"

lemma leaf_bits_finite [simp]: "finite (leaf_bits L)"
  by (simp add: leaf_bits_def)

lemma card_leaf_bits: "card (leaf_bits L) \<le> leaf_count L"
proof -
  have "leaf_bits L \<subseteq> {..< leaf_count L}" by (auto simp: leaf_bits_def)
  from card_mono[OF _ this] show ?thesis by simp
qed

lemma summary_weaken: "summary L {} \<Longrightarrow> summary L X"
  by (simp add: summary_def)

lemma last_level: "L \<noteq> [] \<Longrightarrow> last L = L ! (length L - 1)"
  by (simp add: last_conv_nth)

lemma leaf_bits_update:
  assumes "L \<noteq> []" "length L' = length L" "off < leaf_count L"
    and "L' ! (length L - 1) = (L ! (length L - 1))[off div 64 := v']"
    and "\<And>j. j < 64 \<Longrightarrow> bit v' j = (if j = off mod 64 then tgt else bit (L ! (length L - 1) ! (off div 64)) j)"
  shows "leaf_bits L' = (if tgt then insert off (leaf_bits L) else leaf_bits L - {off})"
    "leaf_count L' = leaf_count L"
proof -
  let ?d = "length L - 1"
  let ?L = "level_write L ?d (off div 64) v'"
  have ne: "L' \<noteq> []" "?d < length L" using assms(1,2) by auto
  show lc: "leaf_count L' = leaf_count L"
    using assms(1,2,4) ne(1) by (simp add: leaf_count_def last_level)
  have eq: "bit_at L' ?d i = bit_at ?L ?d i" for i
    using assms(4) ne by (simp add: bit_at_def level_write_nth)
  have "bit_at ?L ?d i = (if i = off then tgt else bit_at L ?d i)" if "i < leaf_count L" for i
    using bit_at_write[OF ne(2) _ _ assms(5), of i ?d] that assms(1,3) by (simp add: leaf_count_def last_level)
  then show "leaf_bits L' = (if tgt then insert off (leaf_bits L) else leaf_bits L - {off})"
    using lc eq assms(2,3) by (auto simp: leaf_bits_def split: if_splits)
qed

lemma SetBit_ok:
  assumes "bitmap_wf pb" "off < leaf_count (m_bit_storages pb)" "off \<notin> free_blocks pb"
  shows "\<exists>pb'. SetBit off pb = Some pb' \<and> bitmap_wf pb' \<and> free_blocks pb' = insert off (free_blocks pb) \<and>
    leaf_count (m_bit_storages pb') = leaf_count (m_bit_storages pb) \<and> m_rng pb' = m_rng pb"
proof -
  let ?L = "m_bit_storages pb"
  have ne: "?L \<noteq> []" and d: "length ?L = Suc (length ?L - 1)"
    using assms(1) by (auto simp: bitmap_wf_def shape_def)
  have "\<exists>L'. set_bit_at (length ?L) off ?L = Some L' \<and> shape L' \<and> summary L' {} \<and> length L' = length ?L \<and>
    L' ! (length ?L - 1) = (?L ! (length ?L - 1))[off div 64 :=
      ?L ! (length ?L - 1) ! (off div 64) OR push_bit (off mod 64) 1]"
    using set_bit_at_ok[of ?L "length ?L - 1" off] assms(1,2) ne d
    by (auto simp: bitmap_wf_def summary_weaken leaf_count_def last_level)
  then obtain L' where L: "set_bit_at (length ?L) off ?L = Some L'" "shape L'" "summary L' {}"
    "length L' = length ?L" "L' ! (length ?L - 1) = (?L ! (length ?L - 1))[off div 64 :=
      ?L ! (length ?L - 1) ! (off div 64) OR push_bit (off mod 64) 1]" by blast
  have up: "leaf_bits L' = insert off (leaf_bits ?L)" "leaf_count L' = leaf_count ?L"
    using leaf_bits_update[OF ne L(4) assms(2) L(5), of True] set_bit_word by auto
  have "card (leaf_bits L') = Suc (card (leaf_bits ?L))" using up assms(3) by simp
  moreover have "card (leaf_bits L') < two64"
    using card_leaf_bits[of L'] up assms(1) by (simp add: bitmap_wf_def)
  ultimately have "add64 (m_num_bits pb) 1 = card (leaf_bits L')"
    using assms(1) by (simp add: bitmap_wf_def add64_eq)
  with L up assms(1) show ?thesis by (auto simp: SetBit_def bitmap_wf_def)
qed

lemma ClearBit_ok:
  assumes "bitmap_wf pb" "off \<in> free_blocks pb"
  shows "\<exists>pb'. ClearBit off pb = Some pb' \<and> bitmap_wf pb' \<and> free_blocks pb' = free_blocks pb - {off} \<and>
    leaf_count (m_bit_storages pb') = leaf_count (m_bit_storages pb) \<and> m_rng pb' = m_rng pb"
proof -
  let ?L = "m_bit_storages pb"
  have ne: "?L \<noteq> []" and d: "length ?L = Suc (length ?L - 1)"
    using assms(1) by (auto simp: bitmap_wf_def shape_def)
  have off: "off < leaf_count ?L" using assms(2) by (simp add: leaf_bits_def)
  have "\<exists>L'. clear_bit_at (length ?L) off ?L = Some L' \<and> shape L' \<and> summary L' {} \<and> length L' = length ?L \<and>
    L' ! (length ?L - 1) = (?L ! (length ?L - 1))[off div 64 :=
      ?L ! (length ?L - 1) ! (off div 64) AND NOT (push_bit (off mod 64) 1)]"
    using clear_bit_at_ok[of ?L "length ?L - 1" off] assms(1) off ne d
    by (auto simp: bitmap_wf_def summary_weaken leaf_count_def last_level)
  then obtain L' where L: "clear_bit_at (length ?L) off ?L = Some L'" "shape L'" "summary L' {}"
    "length L' = length ?L" "L' ! (length ?L - 1) = (?L ! (length ?L - 1))[off div 64 :=
      ?L ! (length ?L - 1) ! (off div 64) AND NOT (push_bit (off mod 64) 1)]" by blast
  have up: "leaf_bits L' = leaf_bits ?L - {off}" "leaf_count L' = leaf_count ?L"
    using leaf_bits_update[OF ne L(4) off L(5), of False] clear_bit_word by auto
  have pos: "0 < card (leaf_bits ?L)" using assms(2) by (auto simp: card_gt_0_iff)
  have lt: "card (leaf_bits ?L) < two64" using card_leaf_bits[of ?L] assms(1) by (simp add: bitmap_wf_def)
  have "card (leaf_bits L') = card (leaf_bits ?L) - 1" using up assms(2) by simp
  then have "sub64 (m_num_bits pb) 1 = card (leaf_bits L')"
    using assms(1) pos lt by (simp add: bitmap_wf_def sub64_eq)
  with L up assms(1) show ?thesis by (auto simp: ClearBit_def bitmap_wf_def)
qed

text \<open>Every non-zero word is announced by the words above it.\<close>

lemma word_announced:
  assumes "shape L" "summary L {}" "k < length L" "i < length (L ! k)" "L ! k ! i \<noteq> 0"
  shows "L ! 0 ! 0 \<noteq> 0"
  using assms(3-5)
proof (induction k arbitrary: i)
  case 0
  then show ?case using assms(1) by (simp add: shape_def)
next
  case (Suc k)
  have le: "i < 64 * length (L ! k)" using assms(1) Suc.prems by (auto simp: shape_def)
  then have "bit_at L k i" using summaryD[OF assms(2) Suc.prems(1) le] Suc.prems by simp
  then have "L ! k ! (i div 64) \<noteq> 0" by (auto simp: bit_at_def)
  moreover have "i div 64 < length (L ! k)" using le by auto
  ultimately show ?case using Suc.IH[of "i div 64"] Suc.prems(1) by simp
qed

lemma find_block_loop_ok:
  assumes "summary L {}" "fuel + depth = length L" "fuel > 0" "off < length (L ! depth)"
    and "depth > 0 \<Longrightarrow> L ! depth ! off \<noteq> 0"
  shows "\<exists>r g'. find_block_loop fuel random depth off L g = Some (r, g') \<and>
    (case r of None \<Rightarrow> depth = 0 \<and> L ! depth ! off = 0 | Some i \<Rightarrow> i \<in> leaf_bits L)"
  using assms(2-5)
proof (induction fuel arbitrary: depth off g)
  case (Suc fuel)
  let ?v = "L ! depth ! off"
  have rd: "level_read L depth off = Some ?v" using Suc.prems by (simp add: level_read_def)
  show ?case
  proof (cases "?v = 0")
    case True
    then show ?thesis using Suc.prems(4) rd by auto
  next
    case False
    obtain i g' where sel: "(if random then SelectRandomBit ?v g else (countr_zero ?v, g)) = (i, g')" by force
    have bi: "bit ?v i" "i < 64"
      using sel SelectRandomBit_set[of ?v g i g'] countr_zero_set[of ?v] False
      by (auto split: if_splits dest: bit_imp_le_length)
    have step: "find_block_loop (Suc fuel) random depth off L g
        = find_block_loop fuel random (Suc depth) (off * 64 + i) L g'"
      using rd False sel by simp
    have ba: "bit_at L depth (off * 64 + i)" using bi by (simp add: bit_at_def)
    have lt: "off * 64 + i < 64 * length (L ! depth)" using bi(2) Suc.prems(3) by linarith
    show ?thesis
    proof (cases "fuel = 0")
      case True
      then have "depth = length L - 1" "L \<noteq> []" using Suc.prems(1) by auto
      then have "off * 64 + i \<in> leaf_bits L"
        using ba lt by (simp add: leaf_bits_def leaf_count_def last_level)
      then show ?thesis using step True by auto
    next
      case False
      then have "Suc depth < length L" using Suc.prems(1) by simp
      with summaryD[OF assms(1) this lt] ba have "off * 64 + i < length (L ! Suc depth)"
        "L ! Suc depth ! (off * 64 + i) \<noteq> 0" by auto
      with Suc.IH[of "Suc depth" "off * 64 + i" g'] False Suc.prems(1) step show ?thesis
        by (auto split: option.splits)
    qed
  qed
qed simp

lemma FindFreeBlock_ok:
  assumes "bitmap_wf pb"
  shows "\<exists>r g'. FindFreeBlock random pb = Some (r, pb\<lparr>m_rng := g'\<rparr>) \<and>
    (case r of None \<Rightarrow> free_blocks pb = {} | Some i \<Rightarrow> i \<in> free_blocks pb)"
proof -
  let ?L = "m_bit_storages pb"
  have wf: "shape ?L" "summary ?L {}" "?L \<noteq> []" "length (?L ! 0) = 1"
    using assms by (auto simp: bitmap_wf_def shape_def)
  from find_block_loop_ok[OF wf(2), of "length ?L" 0 0 random "m_rng pb"] wf(3,4)
  obtain r g' where r: "find_block_loop (length ?L) random 0 0 ?L (m_rng pb) = Some (r, g')"
    "case r of None \<Rightarrow> ?L ! 0 ! 0 = 0 | Some i \<Rightarrow> i \<in> leaf_bits ?L" by (auto split: option.splits)
  have "free_blocks pb = {}" if "?L ! 0 ! 0 = 0"
  proof (rule ccontr)
    assume "free_blocks pb \<noteq> {}"
    then obtain i where i: "i < leaf_count ?L" "bit_at ?L (length ?L - 1) i" by (auto simp: leaf_bits_def)
    then have "?L ! (length ?L - 1) ! (i div 64) \<noteq> 0" by (auto simp: bit_at_def)
    moreover have "i div 64 < length (?L ! (length ?L - 1))"
      using i(1) wf(3) by (auto simp: leaf_count_def last_level)
    ultimately show False using word_announced[OF wf(1,2), of "length ?L - 1" "i div 64"] wf(3) that by simp
  qed
  with r show ?thesis by (auto simp: FindFreeBlock_def split: option.splits)
qed

section \<open>Free ranges\<close>

lemma range_mask_match:
  "count < 64 \<Longrightarrow> storage AND (push_bit count 1 - 1) = push_bit count 1 - (1 :: u64)
    \<longleftrightarrow> (\<forall>j<count. bit storage j)"
proof -
  assume c: "count < 64"
  have m: "push_bit count 1 - (1 :: u64) = mask count" by (simp add: mask_eq_exp_minus_1)
  show ?thesis
    unfolding m by (simp add: bit_eq_iff bit_and_iff bit_mask_iff) (meson c order.strict_trans)
qed

lemma range_subset_iff: "{a ..< a + n} \<subseteq> S \<longleftrightarrow> (\<forall>j<n. (a :: nat) + j \<in> S)"
  by (auto simp: subset_iff) (metis le_add_diff_inverse add_less_cancel_left)

lemma range_options_ok:
  assumes "range_options n opt si count fm storage (valid, chosen, g) = (valid', chosen', g')"
    and "chosen = None \<Longrightarrow> valid = 0"
  shows "(chosen' = None \<longrightarrow> valid' = 0 \<and> chosen = None \<and>
      (\<forall>k<n. drop_bit (k * count) storage AND fm \<noteq> fm)) \<and>
    (\<forall>x. chosen' = Some x \<longrightarrow> chosen = Some x \<or>
      (\<exists>k<n. x = si * 64 + (opt + k) * count \<and> drop_bit (k * count) storage AND fm = fm))"
  using assms
proof (induction n arbitrary: opt storage valid chosen g)
  case (Suc n)
  define hit where "hit \<longleftrightarrow> storage AND fm = fm"
  obtain va ch g1 where mid: "(if storage AND fm = fm then
       let valid' = valid + 1; (r, g') = (if valid' = 1 then (0, g) else GenerateRandom valid' g)
       in (valid', if valid' = 1 \<or> r = 0 then Some (si * 64 + opt * count) else chosen, g')
     else (valid, chosen, g)) = (va, ch, g1)" by (metis prod_cases3)
  have rest: "range_options n (Suc opt) si count fm (drop_bit count storage) (va, ch, g1) = (valid', chosen', g')"
    using Suc.prems(1) mid by (simp add: Let_def)
  have ch: "ch = chosen \<or> hit \<and> ch = Some (si * 64 + opt * count)" "hit \<Longrightarrow> ch \<noteq> None"
    "\<not> hit \<Longrightarrow> va = valid \<and> ch = chosen"
    using mid Suc.prems(2) by (auto simp: hit_def Let_def split: if_splits prod.splits)
  have va: "ch = None \<Longrightarrow> va = 0" using ch Suc.prems(2) by auto
  have shift: "drop_bit (k * count) (drop_bit count storage) = drop_bit (Suc k * count) storage" for k
    by (simp add: drop_bit_drop_bit add.commute)
  note ih = Suc.IH[OF rest va, unfolded shift]
  show ?case
  proof (intro conjI impI allI)
    assume n: "chosen' = None"
    with ih have "valid' = 0" "ch = None" "\<forall>k<n. drop_bit (Suc k * count) storage AND fm \<noteq> fm" by auto
    then show "valid' = 0" "chosen = None" using ch by auto
    fix k assume "k < Suc n"
    then show "drop_bit (k * count) storage AND fm \<noteq> fm"
      using \<open>ch = None\<close> ch(2) \<open>\<forall>k<n. _\<close> by (cases k) (auto simp: hit_def)
  next
    fix x assume "chosen' = Some x"
    with ih consider "ch = Some x"
      | k where "k < n" "x = si * 64 + (Suc opt + k) * count" "drop_bit (Suc k * count) storage AND fm = fm"
      by blast
    then show "chosen = Some x \<or> (\<exists>k<Suc n. x = si * 64 + (opt + k) * count \<and>
        drop_bit (k * count) storage AND fm = fm)"
    proof cases
      case 1
      then show ?thesis using ch(1) by (auto simp: hit_def intro!: exI[of _ 0])
    next
      case 2
      then show ?thesis by (intro disjI2 exI[of _ "Suc k"]) simp
    qed
  qed
qed auto

lemma range_storages_ok:
  assumes "range_storages ws si n count fm (valid, chosen, g) = (valid', chosen', g')"
    and "chosen = None \<Longrightarrow> valid = 0"
  shows "(chosen' = None \<longrightarrow> chosen = None \<and>
      (\<forall>i<length ws. \<forall>k<n. drop_bit (k * count) (ws ! i) AND fm \<noteq> fm)) \<and>
    (\<forall>x. chosen' = Some x \<longrightarrow> chosen = Some x \<or> (\<exists>i<length ws. \<exists>k<n.
      x = (si + i) * 64 + k * count \<and> drop_bit (k * count) (ws ! i) AND fm = fm))"
  using assms
proof (induction ws arbitrary: si valid chosen g)
  case (Cons w ws)
  obtain va ch g1 where mid: "range_options n 0 si count fm w (valid, chosen, g) = (va, ch, g1)"
    by (metis prod_cases3)
  note opt = range_options_ok[OF mid Cons.prems(2)]
  have "range_storages ws (Suc si) n count fm (va, ch, g1) = (valid', chosen', g')"
    using Cons.prems(1) mid by simp
  note ih = Cons.IH[OF this]
  show ?case
  proof (intro conjI impI allI)
    assume n: "chosen' = None"
    then show "chosen = None" using ih opt by blast
    fix i k assume "i < length (w # ws)" "k < n"
    with n ih opt show "drop_bit (k * count) ((w # ws) ! i) AND fm \<noteq> fm" by (cases i) auto
  next
    fix x assume "chosen' = Some x"
    with ih opt consider "ch = Some x"
      | i k where "i < length ws" "k < n" "x = (Suc si + i) * 64 + k * count"
        "drop_bit (k * count) (ws ! i) AND fm = fm" by blast
    then show "chosen = Some x \<or> (\<exists>i<length (w # ws). \<exists>k<n. x = (si + i) * 64 + k * count \<and>
        drop_bit (k * count) ((w # ws) ! i) AND fm = fm)"
    proof cases
      case 1
      with opt consider "chosen = Some x"
        | k where "k < n" "x = si * 64 + (0 + k) * count" "drop_bit (k * count) w AND fm = fm" by blast
      then show ?thesis
      proof cases
        case 2
        then show ?thesis by (intro disjI2 exI[of _ 0]) auto
      qed simp
    next
      case 2
      then show ?thesis by (intro disjI2 exI[of _ "Suc i"]) auto
    qed
  qed
qed auto

lemma leaf_bit_word:
  assumes "L \<noteq> []" "j < 64"
  shows "i * 64 + j \<in> leaf_bits L \<longleftrightarrow> i < length (last L) \<and> bit (last L ! i) j"
  using assms by (auto simp: leaf_bits_def leaf_count_def bit_at_def last_level)

lemma FindFreeRange_ok:
  assumes "bitmap_wf pb" "0 < count" "count < 64"
  shows "\<exists>r g'. FindFreeRange count pb = Some (r, pb\<lparr>m_rng := g'\<rparr>) \<and>
    (case r of
       None \<Rightarrow> \<forall>i k. i * 64 < leaf_count (m_bit_storages pb) \<and> (k + 1) * count \<le> 64
         \<longrightarrow> \<not> {i * 64 + k * count ..< i * 64 + k * count + count} \<subseteq> free_blocks pb
     | Some off \<Rightarrow> off mod 64 + count \<le> 64 \<and> {off ..< off + count} \<subseteq> free_blocks pb)"
proof -
  let ?L = "m_bit_storages pb" and ?fm = "push_bit count 1 - (1 :: u64)" and ?n = "max (64 div count) 1"
  have ne: "?L \<noteq> []" using assms(1) by (simp add: bitmap_wf_def shape_def)
  have fit: "k < ?n \<longleftrightarrow> (k + 1) * count \<le> 64" for k
  proof -
    have "1 \<le> 64 div count" using assms(2,3) by (simp add: div_greater_zero_iff Suc_le_eq)
    then have "k < ?n \<longleftrightarrow> k + 1 \<le> 64 div count" by auto
    also have "\<dots> \<longleftrightarrow> (k + 1) * count \<le> 64" using assms(2) by (simp add: less_eq_div_iff_mult_less_eq)
    finally show ?thesis .
  qed
  have hit: "drop_bit (k * count) (last ?L ! i) AND ?fm = ?fm \<longleftrightarrow>
      {i * 64 + k * count ..< i * 64 + k * count + count} \<subseteq> free_blocks pb"
    if "i < length (last ?L)" "k < ?n" for i k
  proof -
    have le: "k * count + count \<le> 64" using fit that(2) by simp
    have "drop_bit (k * count) (last ?L ! i) AND ?fm = ?fm \<longleftrightarrow>
        (\<forall>j<count. bit (last ?L ! i) (k * count + j))"
      using range_mask_match[OF assms(3)] by (simp add: bit_drop_bit_eq)
    also have "\<dots> \<longleftrightarrow> (\<forall>j<count. i * 64 + k * count + j \<in> free_blocks pb)"
      using leaf_bit_word[OF ne, of "k * count + _" i] that(1) le by (auto simp: add.assoc)
    also have "\<dots> \<longleftrightarrow> {i * 64 + k * count ..< i * 64 + k * count + count} \<subseteq> free_blocks pb"
      by (simp add: range_subset_iff)
    finally show ?thesis .
  qed
  show ?thesis
  proof (cases "last ?L = []")
    case True
    then show ?thesis
      by (intro exI[of _ None] exI[of _ "m_rng pb"]) (simp add: FindFreeRange_def leaf_count_def)
  next
    case False
    obtain va ch g' where r: "range_storages (last ?L) 0 ?n count ?fm (0, None, m_rng pb) = (va, ch, g')"
      by (metis prod_cases3)
    note ok = range_storages_ok[OF r]
    have eq: "FindFreeRange count pb = Some (ch, pb\<lparr>m_rng := g'\<rparr>)"
      using False assms(2,3) r by (simp add: FindFreeRange_def Let_def)
    show ?thesis
    proof (intro exI conjI)
      show "FindFreeRange count pb = Some (ch, pb\<lparr>m_rng := g'\<rparr>)" by (rule eq)
      show "case ch of None \<Rightarrow> \<forall>i k. i * 64 < leaf_count ?L \<and> (k + 1) * count \<le> 64
          \<longrightarrow> \<not> {i * 64 + k * count ..< i * 64 + k * count + count} \<subseteq> free_blocks pb
        | Some off \<Rightarrow> off mod 64 + count \<le> 64 \<and> {off ..< off + count} \<subseteq> free_blocks pb"
      proof (cases ch)
        case None
        have "\<not> {i * 64 + k * count ..< i * 64 + k * count + count} \<subseteq> free_blocks pb"
          if "i * 64 < leaf_count ?L" "(k + 1) * count \<le> 64" for i k
          using ok None hit[of i k] fit[of k] that by (auto simp: leaf_count_def)
        with None show ?thesis by simp
      next
        case (Some off)
        with ok obtain i k where ik: "i < length (last ?L)" "k < ?n" "off = i * 64 + k * count"
          "drop_bit (k * count) (last ?L ! i) AND ?fm = ?fm" by fastforce
        then have "k * count + count \<le> 64" using fit[of k] by simp
        moreover have "off mod 64 = k * count"
          using ik(3) calculation assms(2) by simp
        ultimately show ?thesis using Some hit[OF ik(1,2)] ik by simp
      qed
    qed
  qed
qed

section \<open>Clearing ranges\<close>

lemma summary_write_leaf:
  assumes S: "summary L {}" and d: "d = length L - 1" "L \<noteq> []" "ind < length (L ! d)"
  shows "summary (level_write L d ind v') {(d - 1, ind)}"
    "(v' \<noteq> 0) = (L ! d ! ind \<noteq> 0) \<Longrightarrow> summary (level_write L d ind v') {}"
proof -
  have dl: "d < length L" using d by simp
  have same: "bit_at (level_write L d ind v') k i = bit_at L k i" if "Suc k < length L" for k i
    using that d by (auto simp: bit_at_def level_write_nth)
  have word: "level_write L d ind v' ! Suc k ! i = L ! Suc k ! i"
    if "Suc k < length L" "(k, i) \<noteq> (d - 1, ind)" for k i
    using that dl by (auto simp: level_write_nth nth_list_update)
  show "summary (level_write L d ind v') {(d - 1, ind)}"
    using S same word by (auto simp: summary_def)
  assume eq: "(v' \<noteq> 0) = (L ! d ! ind \<noteq> 0)"
  have "(level_write L d ind v' ! Suc k ! i \<noteq> 0) = (L ! Suc k ! i \<noteq> 0)" if "Suc k < length L" for k i
    using word[OF that, of i] eq dl d(3) by (cases "(k, i) = (d - 1, ind)") (auto simp: level_write_nth nth_list_update that)
  with S same show "summary (level_write L d ind v') {}" by (simp add: summary_def)
qed

lemma leaf_bits_word_update:
  assumes "L \<noteq> []" "length L' = length L" "L' ! (length L - 1) = (L ! (length L - 1))[ind := v']"
    and "ind < length (last L)"
    and "\<And>j. j < 64 \<Longrightarrow> bit v' j = (bit (last L ! ind) j \<and> ind * 64 + j \<notin> R)"
    and "R \<subseteq> {ind * 64 ..< ind * 64 + 64}"
  shows "leaf_bits L' = leaf_bits L - R" "leaf_count L' = leaf_count L"
proof -
  have ne: "L' \<noteq> []" using assms(1,2) by auto
  have ll: "last L' = (last L)[ind := v']" using assms(1-3) ne by (simp add: last_level)
  then show "leaf_count L' = leaf_count L" by (simp add: leaf_count_def)
  have "x \<in> leaf_bits L' \<longleftrightarrow> x \<in> leaf_bits L - R" for x
  proof -
    define i j where "i = x div 64" and "j = x mod 64"
    have x: "x = i * 64 + j" "j < 64" by (simp_all add: i_def j_def)
    have r: "i \<noteq> ind \<Longrightarrow> x \<notin> R" using assms(6) x by auto
    show ?thesis
      unfolding x(1) using leaf_bit_word[OF ne x(2)] leaf_bit_word[OF assms(1) x(2)] ll assms(4,5) x r
      by (auto simp: nth_list_update)
  qed
  then show "leaf_bits L' = leaf_bits L - R" by blast
qed

lemma clear_mask_bit:
  assumes "sh + count \<le> 64" "j < 64"
  shows "bit (push_bit sh (push_bit count 1 - (1 :: u64))) j \<longleftrightarrow> sh \<le> j \<and> j < sh + count"
proof -
  have "push_bit count 1 - (1 :: u64) = mask count" by (simp add: mask_eq_exp_minus_1)
  then show ?thesis using assms by (auto simp: bit_push_bit_iff bit_mask_iff)
qed

lemma ClearRange_refused:
  assumes "bitmap_wf pb" "count < 64" "off mod 64 + count \<le> 64" "off < leaf_count (m_bit_storages pb)"
    and "\<not> {off ..< off + count} \<subseteq> free_blocks pb"
  shows "ClearRange off count pb = Some (False, pb)"
proof -
  let ?L = "m_bit_storages pb"
  define ind sh where "ind = off div 64" and "sh = off mod 64"
  let ?m = "push_bit sh (push_bit count 1 - (1 :: u64))" and ?v = "last ?L ! ind"
  have ne: "?L \<noteq> []" using assms(1) by (simp add: bitmap_wf_def shape_def)
  have off: "off = ind * 64 + sh" "sh + count \<le> 64" using assms(3) by (simp_all add: ind_def sh_def)
  have ind: "ind < length (last ?L)" using assms(4) by (auto simp: leaf_count_def ind_def)
  obtain j where j: "j < count" "off + j \<notin> free_blocks pb" using assms(5) by (auto simp: range_subset_iff)
  then have "\<not> bit ?v (sh + j)"
    using leaf_bit_word[OF ne, of "sh + j" ind] off ind by (auto simp: add.assoc)
  moreover have "bit ?m (sh + j)" using clear_mask_bit[OF off(2), of "sh + j"] j(1) off(2) by simp
  ultimately have "?v AND ?m \<noteq> ?m" by (metis bit_and_iff)
  moreover have "level_read ?L (length ?L - 1) ind = Some ?v"
    using ne ind by (simp add: level_read_def last_level)
  ultimately show ?thesis
    using assms(2) unfolding ClearRange_def Let_def ind_def[symmetric] sh_def[symmetric] by simp
qed

lemma ClearRange_ok:
  assumes wf: "bitmap_wf pb" and c: "0 < count" "count < 64" "off mod 64 + count \<le> 64"
    and sub: "{off ..< off + count} \<subseteq> free_blocks pb"
  shows "\<exists>pb'. ClearRange off count pb = Some (True, pb') \<and> bitmap_wf pb' \<and>
    free_blocks pb' = free_blocks pb - {off ..< off + count} \<and>
    leaf_count (m_bit_storages pb') = leaf_count (m_bit_storages pb)"
proof -
  let ?L = "m_bit_storages pb"
  define d ind sh where "d = length ?L - 1" and "ind = off div 64" and "sh = off mod 64"
  define v where "v = last ?L ! ind"
  define m where "m = push_bit sh (push_bit count 1 - (1 :: u64))"
  define v' where "v' = v AND NOT m"
  let ?L1 = "level_write ?L d ind v'" and ?R = "{off ..< off + count}"
  have ne: "?L \<noteq> []" and sm: "summary ?L {}" and shp: "shape ?L"
    using wf by (auto simp: bitmap_wf_def shape_def)
  have lst: "?L ! d = last ?L" using ne by (simp add: d_def last_level)
  have off: "off = ind * 64 + sh" "sh + count \<le> 64" using c(3) by (simp_all add: ind_def sh_def)
  have mem: "ind * 64 + (sh + j) \<in> free_blocks pb" if "j < count" for j
    using sub that off(1) by auto
  have ind: "ind < length (last ?L)" using mem[of 0] leaf_bit_word[OF ne, of sh ind] c off by auto
  have mb: "bit m j \<longleftrightarrow> sh \<le> j \<and> j < sh + count" if "j < 64" for j
    unfolding m_def by (rule clear_mask_bit[OF off(2) that])
  have vb: "bit v j" if "sh \<le> j" "j < sh + count" for j
    using mem[of "j - sh"] leaf_bit_word[OF ne, of j ind] that off(2) by (simp add: v_def)
  have vm: "v AND m = m"
  proof (rule bit_eqI)
    fix n assume "possible_bit TYPE(64 word) n"
    then show "bit (v AND m) n = bit m n" using mb vb by (auto simp: bit_and_iff)
  qed
  have "v \<noteq> 0" using vb[of sh] c by auto
  have rd: "level_read ?L d ind = Some v"
    using ne ind lst by (simp add: level_read_def v_def d_def)
  have R: "?R = {x. ind * 64 + sh \<le> x \<and> x < ind * 64 + sh + count}" using off by auto
  have fin: "\<exists>L'. (if v' = 0 then clear_bit_at d ind ?L1 else Some ?L1) = Some L' \<and> shape L' \<and>
    summary L' {} \<and> length L' = length ?L \<and> L' ! d = ?L1 ! d"
  proof (cases "v' = 0")
    case False
    then show ?thesis
      using summary_write_leaf(2)[OF sm d_def ne, of ind v'] ind lst \<open>v \<noteq> 0\<close> shp
      by (simp add: shape_write v_def)
  next
    case True
    note sm1 = summary_write_leaf(1)[OF sm d_def ne, of ind v']
    show ?thesis
    proof (cases d)
      case 0
      then have "summary ?L1 {}" using ne by (auto simp: summary_def d_def)
      with True 0 shp show ?thesis by (simp add: shape_write)
    next
      case (Suc d')
      have len: "length ?L = Suc (Suc d')" using Suc d_def by simp
      then have "length (?L ! Suc d') \<le> 64 * length (?L ! d')" using shp by (simp add: shape_def)
      then have "ind < 64 * length (?L1 ! d')" using ind lst Suc by simp
      moreover have "?L1 ! Suc d' ! ind = 0"
        using True Suc ind lst ne by (simp add: level_write_nth d_def)
      ultimately have "\<exists>L'. clear_bit_at (Suc d') ind ?L1 = Some L' \<and> shape L' \<and> summary L' {} \<and>
          length L' = length ?L1 \<and> (\<forall>k>d'. L' ! k = ?L1 ! k)"
        using clear_bit_at_ok[of ?L1 d' ind] sm1 ind lst Suc shp len
        by (auto simp: shape_write)
      then show ?thesis using True Suc by auto
    qed
  qed
  then obtain L' where L': "(if v' = 0 then clear_bit_at d ind ?L1 else Some ?L1) = Some L'"
    "shape L'" "summary L' {}" "length L' = length ?L" "L' ! d = ?L1 ! d" by blast
  have "L' ! (length ?L - 1) = (?L ! (length ?L - 1))[ind := v']"
    using L'(5) ne by (simp add: level_write_nth d_def)
  moreover have "bit v' j = (bit (last ?L ! ind) j \<and> ind * 64 + j \<notin> ?R)" if "j < 64" for j
    using mb[OF that] that unfolding v'_def v_def R by (auto simp: bit_and_iff bit_not_iff)
  ultimately have up: "leaf_bits L' = leaf_bits ?L - ?R" "leaf_count L' = leaf_count ?L"
    using leaf_bits_word_update[OF ne L'(4) _ ind, of v' ?R] off by auto
  have le: "count \<le> card (leaf_bits ?L)" using card_mono[OF leaf_bits_finite sub] by simp
  have "card (leaf_bits ?L) < two64" using card_leaf_bits[of ?L] wf by (simp add: bitmap_wf_def)
  then have nb: "sub64 (m_num_bits pb) count = card (leaf_bits L')"
    using wf le up sub by (simp add: bitmap_wf_def sub64_eq card_Diff_subset)
  have "ClearRange off count pb = Some (True, pb\<lparr>m_bit_storages := L', m_num_bits := sub64 (m_num_bits pb) count\<rparr>)"
    using L'(1) rd vm c(2) unfolding ClearRange_def Let_def ind_def[symmetric] sh_def[symmetric]
      d_def[symmetric] m_def[symmetric]
    by (cases "v' = 0") (simp_all add: v'_def)
  with L' up nb wf show ?thesis by (auto simp: bitmap_wf_def)
qed

section \<open>Initialization\<close>

lemma ceil64: "sz + 64 < two64 \<Longrightarrow> AlignUp sz 64 div 64 = (sz + 63) div 64"
proof -
  assume lt: "sz + 64 < two64"
  define q r where "q = sz div 64" and "r = sz mod 64"
  have sz: "sz = 64 * q + r" "r < 64" by (simp_all add: q_def r_def)
  have "AlignUp sz 64 = (if r = 0 then 64 * q else 64 * q + 64)"
    using lt sz by (simp add: AlignUp_def Let_def add64_eq r_def[symmetric])
  moreover have "(sz + 63) div 64 = (if r = 0 then q else Suc q)"
    using sz by (intro div_nat_eqI) auto
  ultimately show ?thesis by simp
qed

lemma required_depth_bound: "n < 64 ^ GetRequiredDepth n"
proof (induction n rule: GetRequiredDepth.induct)
  case (1 n)
  show ?case
  proof (cases "n div 64 = 0")
    case True
    then show ?thesis by (subst GetRequiredDepth.simps) (simp add: Let_def div_eq_0_iff)
  next
    case False
    then have "GetRequiredDepth n = Suc (GetRequiredDepth (n div 64))"
      by (subst GetRequiredDepth.simps) (simp add: Let_def)
    with 1 False show ?thesis by (simp add: less_mult_imp_div_less div_less_iff_less_mult mult.commute)
  qed
qed

fun chain :: "u64 list list \<Rightarrow> bool" where
  "chain (x # y # L) \<longleftrightarrow> length y \<le> 64 * length x \<and> chain (y # L)"
| "chain _ = True"

lemma chain_nth: "chain L \<Longrightarrow> Suc k < length L \<Longrightarrow> length (L ! Suc k) \<le> 64 * length (L ! k)"
  by (induction L arbitrary: k rule: chain.induct) (auto simp: nth_Cons split: nat.splits)

lemma cut_levels_ok:
  assumes "cut_levels d sz st acc = Some (L, rest)" "\<forall>w\<in>set st. w = 0" "1 \<le> sz" "sz \<le> 64 ^ d"
    and "sz + 64 < two64" "\<forall>l\<in>set acc. \<forall>w\<in>set l. w = 0" "chain acc"
    and "acc = [] \<Longrightarrow> 0 < d" "acc \<noteq> [] \<Longrightarrow> length (hd acc) = sz"
  shows "L \<noteq> [] \<and> length (L ! 0) = 1 \<and> chain L \<and> (\<forall>l\<in>set L. \<forall>w\<in>set l. w = 0) \<and>
    (if acc = [] then length (last L) = (sz + 63) div 64 else last L = last acc)"
  using assms
proof (induction d arbitrary: sz st acc)
  case 0
  then have "sz = 1" "acc \<noteq> []" "L = acc" by auto
  with 0 show ?case by (auto simp: hd_conv_nth)
next
  case (Suc d)
  define n where "n = (sz + 63) div 64"
  have al: "AlignUp sz 64 div 64 = n" using ceil64[OF Suc.prems(5)] by (simp add: n_def)
  have n: "1 \<le> n" "n \<le> 64 ^ d" "sz \<le> 64 * n" "n \<le> sz" using Suc.prems(3,4) by (auto simp: n_def)
  have len: "n \<le> length st" "cut_levels d n (drop n st) (take n st # acc) = Some (L, rest)"
    using Suc.prems(1) by (auto simp: Let_def al split: if_splits)
  have zero: "\<forall>w\<in>set (drop n st). w = 0" "\<forall>l\<in>set (take n st # acc). \<forall>w\<in>set l. w = 0"
    using Suc.prems(2,6) by (auto dest: in_set_dropD in_set_takeD)
  have "chain (take n st # acc)"
    using Suc.prems(7,9) len(1) n(3) by (cases acc) auto
  from Suc.IH[OF len(2) zero(1) n(1,2) _ zero(2) this] n(4) len(1) Suc.prems(5)
  show ?case by (auto simp: n_def)
qed

lemma Initialize_ok:
  assumes "KPageBitmap_Initialize (replicate N 0) n g = Some (pb, rest)" "1 \<le> n" "n + 128 < two64"
  shows "bitmap_wf pb \<and> free_blocks pb = {} \<and> n \<le> leaf_count (m_bit_storages pb)"
proof -
  obtain L where L: "cut_levels (GetRequiredDepth n) n (replicate N 0) [] = Some (L, rest)"
    "pb = \<lparr>m_bit_storages = L, m_rng = g, m_num_bits = 0\<rparr>"
    using assms(1) by (auto simp: KPageBitmap_Initialize_def split: if_splits option.splits prod.splits)
  have "0 < GetRequiredDepth n" by (subst GetRequiredDepth.simps) (simp add: Let_def)
  then have c: "L \<noteq> []" "length (L ! 0) = 1" "chain L" "\<forall>l\<in>set L. \<forall>w\<in>set l. w = 0"
    "length (last L) = (n + 63) div 64"
    using cut_levels_ok[OF L(1)] required_depth_bound[of n] assms(2,3) by (auto simp: less_imp_le)
  have z: "L ! k ! i = 0" if "k < length L" "i < length (L ! k)" for k i
    using c(4) that by (meson nth_mem)
  have b: "\<not> bit_at L k i" if "k < length L" "i < 64 * length (L ! k)" for k i
    using z[of k "i div 64"] that by (auto simp: bit_at_def)
  have "shape L" using c chain_nth by (auto simp: shape_def)
  moreover have "summary L {}" using b z by (auto simp: summary_def)
  moreover have lb: "leaf_bits L = {}" using b[of "length L - 1"] c(1) by (auto simp: leaf_bits_def leaf_count_def last_level)
  moreover have "n \<le> leaf_count L" "leaf_count L < two64" using c(5) assms(3) by (auto simp: leaf_count_def)
  ultimately show ?thesis using L(2) by (simp add: bitmap_wf_def)
qed

section \<open>What a client relies on\<close>

locale free_block_map =
  fixes wf :: "'b \<Rightarrow> bool" and blocks :: "'b \<Rightarrow> nat set" and capacity :: "'b \<Rightarrow> nat"
    and set_block clear_block :: "nat \<Rightarrow> 'b \<Rightarrow> 'b option"
    and find_block :: "'b \<Rightarrow> (nat option \<times> 'b) option"
  assumes set_law: "wf b \<Longrightarrow> off < capacity b \<Longrightarrow> off \<notin> blocks b \<Longrightarrow>
      \<exists>b'. set_block off b = Some b' \<and> wf b' \<and> blocks b' = insert off (blocks b) \<and> capacity b' = capacity b"
    and clear_law: "wf b \<Longrightarrow> off \<in> blocks b \<Longrightarrow>
      \<exists>b'. clear_block off b = Some b' \<and> wf b' \<and> blocks b' = blocks b - {off} \<and> capacity b' = capacity b"
    and find_law: "wf b \<Longrightarrow> \<exists>r b'. find_block b = Some (r, b') \<and> wf b' \<and> blocks b' = blocks b \<and>
      capacity b' = capacity b \<and> (case r of None \<Rightarrow> blocks b = {} | Some i \<Rightarrow> i \<in> blocks b)"
    and finite_blocks: "finite (blocks b)"
    and blocks_bound: "wf b \<Longrightarrow> i \<in> blocks b \<Longrightarrow> i < capacity b"
begin

text \<open>Finding and claiming a block, and giving it back.\<close>

lemma claim:
  assumes "wf b" "blocks b \<noteq> {}"
  shows "\<exists>i b1 b2. find_block b = Some (Some i, b1) \<and> clear_block i b1 = Some b2 \<and> wf b2 \<and>
    i \<in> blocks b \<and> blocks b2 = blocks b - {i} \<and> capacity b2 = capacity b \<and>
    Suc (card (blocks b2)) = card (blocks b)"
proof -
  obtain r b1 where r: "find_block b = Some (r, b1)" "wf b1" "blocks b1 = blocks b" "capacity b1 = capacity b"
    "case r of None \<Rightarrow> blocks b = {} | Some i \<Rightarrow> i \<in> blocks b" using find_law[OF assms(1)] by blast
  then obtain i where i: "r = Some i" "i \<in> blocks b" using assms(2) by (cases r) auto
  obtain b2 where "clear_block i b1 = Some b2" "wf b2" "blocks b2 = blocks b - {i}" "capacity b2 = capacity b"
    using clear_law[OF r(2), of i] i r(3,4) by auto
  moreover have "Suc (card (blocks b - {i})) = card (blocks b)"
    using i(2) finite_blocks by (intro card_Suc_Diff1)
  ultimately show ?thesis using r i by auto
qed

lemma give_back:
  assumes "wf b" "i \<in> blocks b"
  shows "\<exists>b1 b2. clear_block i b = Some b1 \<and> set_block i b1 = Some b2 \<and> wf b2 \<and> blocks b2 = blocks b"
proof -
  obtain b1 where 1: "clear_block i b = Some b1" "wf b1" "blocks b1 = blocks b - {i}" "capacity b1 = capacity b"
    using clear_law[OF assms] by blast
  obtain b2 where "set_block i b1 = Some b2" "wf b2" "blocks b2 = insert i (blocks b1)"
    using set_law[OF 1(2), of i] 1(3,4) blocks_bound[OF assms] by auto
  with 1 assms(2) show ?thesis by auto
qed

end

interpretation page_bitmap: free_block_map bitmap_wf free_blocks "\<lambda>pb. leaf_count (m_bit_storages pb)"
  SetBit ClearBit "FindFreeBlock random" for random
proof
  fix b :: KPageBitmap
  assume wf: "bitmap_wf b"
  have "bitmap_wf (b\<lparr>m_rng := g\<rparr>)" for g using wf by (simp add: bitmap_wf_def)
  then show "\<exists>r b'. FindFreeBlock random b = Some (r, b') \<and> bitmap_wf b' \<and> free_blocks b' = free_blocks b \<and>
      leaf_count (m_bit_storages b') = leaf_count (m_bit_storages b) \<and>
      (case r of None \<Rightarrow> free_blocks b = {} | Some i \<Rightarrow> i \<in> free_blocks b)"
    using FindFreeBlock_ok[OF wf, of random] by fastforce
  show "\<exists>b'. SetBit off b = Some b' \<and> bitmap_wf b' \<and> free_blocks b' = insert off (free_blocks b) \<and>
      leaf_count (m_bit_storages b') = leaf_count (m_bit_storages b)"
    if "off < leaf_count (m_bit_storages b)" "off \<notin> free_blocks b" for off
    using SetBit_ok[OF wf that] by blast
  show "\<exists>b'. ClearBit off b = Some b' \<and> bitmap_wf b' \<and> free_blocks b' = free_blocks b - {off} \<and>
      leaf_count (m_bit_storages b') = leaf_count (m_bit_storages b)"
    if "off \<in> free_blocks b" for off
    using ClearBit_ok[OF wf that] by blast
  show "i < leaf_count (m_bit_storages b)" if "i \<in> free_blocks b" for i
    using that by (simp add: leaf_bits_def)
qed simp

section \<open>The page manager\<close>

definition pm_wf :: "KDynamicPageManager \<Rightarrow> bool" where
  "pm_wf pm \<longleftrightarrow> bitmap_wf (dpm_bitmap pm) \<and>
     dpm_used pm + card (free_blocks (dpm_bitmap pm)) = dpm_count pm \<and>
     dpm_used pm \<le> dpm_peak pm \<and> dpm_peak pm \<le> dpm_count pm"

lemma free_pages_ok:
  assumes "bitmap_wf pb" "distinct is" "aligned \<le> addr"
    and "\<And>i. i \<in> set is \<Longrightarrow> addr + i * PageSize < two64 \<and>
      (addr - aligned) div PageSize + i < leaf_count (m_bit_storages pb) \<and>
      (addr - aligned) div PageSize + i \<notin> free_blocks pb"
  shows "\<exists>pb'. free_pages is addr aligned pb = Some pb' \<and> bitmap_wf pb' \<and>
    free_blocks pb' = free_blocks pb \<union> (\<lambda>i. (addr - aligned) div PageSize + i) ` set is"
  using assms
proof (induction "is" arbitrary: pb)
  case (Cons i "is")
  let ?o = "(addr - aligned) div PageSize + i"
  have lt: "addr + i * PageSize < two64" using Cons.prems(4) by simp
  then have "sub64 (add64 addr (i * PageSize)) aligned = addr + i * PageSize - aligned"
    using Cons.prems(3) by (simp add: add64_eq sub64_eq)
  also have "\<dots> = (addr - aligned) + i * PageSize" using Cons.prems(3) by simp
  finally have off: "sub64 (add64 addr (i * PageSize)) aligned div PageSize = ?o" by simp
  obtain pb1 where 1: "SetBit ?o pb = Some pb1" "bitmap_wf pb1" "free_blocks pb1 = insert ?o (free_blocks pb)"
    "leaf_count (m_bit_storages pb1) = leaf_count (m_bit_storages pb)"
    using page_bitmap.set_law[OF Cons.prems(1), of ?o] Cons.prems(4)[of i] by auto
  have "\<exists>pb'. free_pages is addr aligned pb1 = Some pb' \<and> bitmap_wf pb' \<and>
    free_blocks pb' = free_blocks pb1 \<union> (\<lambda>i. (addr - aligned) div PageSize + i) ` set is"
    by (rule Cons.IH) (use 1 Cons.prems in auto)
  with 1 off show ?case by auto
qed auto

lemma PageManager_Initialize_ok:
  assumes "PageManager_Initialize backing memory sz align g = Some (ResultSuccess, Some pm)"
    and "memory + sz + 128 < two64" and "0 < dpm_count pm"
  shows "pm_wf pm \<and> card (free_blocks (dpm_bitmap pm)) = dpm_count pm \<and> dpm_count pm * PageSize \<le> sz"
proof -
  define aligned where "aligned = AlignDown memory align"
  define over where "over = AlignUp (CalculateManagementOverheadSize
    (sub64 (add64 memory sz) aligned div PageSize)) PageSize"
  define count where "count = AlignDown (sz - over) PageSize div PageSize"
  define n where "n = sub64 (sub64 (add64 memory sz) over) aligned div PageSize"
  have le: "aligned \<le> memory" by (simp add: aligned_def AlignDown_le)
  have sz: "sz \<noteq> 0" "over < sz"
    using assms(1) unfolding PageManager_Initialize_def Let_def aligned_def[symmetric] over_def[symmetric]
    by (auto split: if_splits)
  obtain pb0 rest pb where p: "KPageBitmap_Initialize (replicate (over div 8) 0) n g = Some (pb0, rest)"
    "free_pages [0 ..< count] memory aligned pb0 = Some pb" "dpm_bitmap pm = pb" "dpm_used pm = 0"
    "dpm_peak pm = 0" "dpm_count pm = count"
    using assms(1) sz unfolding PageManager_Initialize_def Let_def aligned_def[symmetric] over_def[symmetric]
      count_def[symmetric] n_def[symmetric]
    by (auto split: option.splits prod.splits)
  have cnt: "count * PageSize \<le> sz - over"
    using AlignDown_le[of "sz - over" PageSize] by (simp add: count_def) (meson div_times_less_eq_dividend order_trans)
  have "sub64 (sub64 (add64 memory sz) over) aligned = memory - aligned + (sz - over)"
    using sz le assms(2) by (simp add: add64_eq sub64_eq)
  then have n: "n = (memory - aligned + (sz - over)) div PageSize" by (simp add: n_def)
  have room: "(memory - aligned) div PageSize + count \<le> n"
  proof -
    have "(memory - aligned + count * PageSize) div PageSize \<le> n"
      unfolding n using cnt by (intro div_le_mono) simp
    then show ?thesis by simp
  qed
  have "n \<le> memory - aligned + (sz - over)" unfolding n by (rule div_le_dividend)
  then have "n + 128 < two64" "1 \<le> n" using assms(2,3) p(6) room sz by auto
  with Initialize_ok[OF p(1)] have wf: "bitmap_wf pb0" "free_blocks pb0 = {}"
    "n \<le> leaf_count (m_bit_storages pb0)" by auto
  have bound: "memory + i * PageSize < two64" if "i < count" for i
  proof -
    have "i * PageSize \<le> count * PageSize" using that by (intro mult_le_mono1) simp
    then show ?thesis using cnt assms(2) by linarith
  qed
  have "\<exists>pb'. free_pages [0 ..< count] memory aligned pb0 = Some pb' \<and> bitmap_wf pb' \<and>
    free_blocks pb' = free_blocks pb0 \<union> (\<lambda>i. (memory - aligned) div PageSize + i) ` set [0 ..< count]"
    by (rule free_pages_ok) (use wf le bound room in auto)
  then have pb: "bitmap_wf pb" "free_blocks pb = (\<lambda>i. (memory - aligned) div PageSize + i) ` {0 ..< count}"
    using p(2) wf(2) by auto
  have "card (free_blocks pb) = count" unfolding pb(2) by (subst card_image) (auto simp: inj_on_def)
  with p pb(1) cnt show ?thesis by (auto simp: pm_wf_def)
qed

section \<open>Properties\<close>

text \<open>C29: a search for a free block, random or not, always returns, finds a free block whenever there is
  one and reports failure only when there is none; no block changes.\<close>

theorem find_free_block_complete:
  assumes "bitmap_wf pb"
  shows "\<exists>r pb'. FindFreeBlock random pb = Some (r, pb') \<and> free_blocks pb' = free_blocks pb \<and>
    bitmap_wf pb' \<and> (r = None \<longleftrightarrow> free_blocks pb = {}) \<and> (\<forall>i. r = Some i \<longrightarrow> i \<in> free_blocks pb)"
proof -
  from page_bitmap.find_law[OF assms, of random] obtain r pb' where
    "FindFreeBlock random pb = Some (r, pb')" "bitmap_wf pb'" "free_blocks pb' = free_blocks pb"
    "case r of None \<Rightarrow> free_blocks pb = {} | Some i \<Rightarrow> i \<in> free_blocks pb" by blast
  then show ?thesis by (cases r) auto
qed

definition sample_rng :: RandomBitGenerator where
  "sample_rng = \<lparr>rg_rng = [1, 2, 3, 4], rg_entropy = 0, rg_bits_available = 0\<rparr>"

definition sample_bitmap :: KPageBitmap where
  "sample_bitmap = \<lparr>m_bit_storages = [[0], [0, 0]], m_rng = sample_rng, m_num_bits = 0\<rparr>"

lemma sample_bitmap_wf: "bitmap_wf sample_bitmap" "free_blocks sample_bitmap = {}"
  "leaf_count (m_bit_storages sample_bitmap) = 128"
proof -
  have "AlignUp 100 64 = 128" "AlignUp 2 64 = 64" by (simp_all add: AlignUp_def add64_def two64_def)
  moreover have "GetRequiredDepth 100 = 2"
    by (simp add: GetRequiredDepth.simps[of 100] GetRequiredDepth.simps[of "Suc 0"] numeral_2_eq_2)
  ultimately have "KPageBitmap_Initialize (replicate 3 0) 100 sample_rng = Some (sample_bitmap, [])"
    by (simp add: KPageBitmap_Initialize_def MaxDepth_def sample_bitmap_def numeral_2_eq_2 numeral_3_eq_3)
  from Initialize_ok[OF this] show "bitmap_wf sample_bitmap" "free_blocks sample_bitmap = {}"
    by (simp_all add: two64_def)
  show "leaf_count (m_bit_storages sample_bitmap) = 128"
    by (simp add: leaf_count_def sample_bitmap_def)
qed

theorem find_free_block_complete_witness:
  "\<exists>pb'. FindFreeBlock True sample_bitmap = Some (None, pb')"
  using find_free_block_complete[OF sample_bitmap_wf(1), of True] sample_bitmap_wf(2) by auto

text \<open>Setting a block and clearing it again changes exactly that block both times, keeps the summary
  levels right and leaves the count equal to the number of free blocks.\<close>

theorem set_then_clear_bit:
  assumes "bitmap_wf pb" and "off < leaf_count (m_bit_storages pb)" and "off \<notin> free_blocks pb"
  shows "\<exists>pb1 pb2. SetBit off pb = Some pb1 \<and> bitmap_wf pb1 \<and>
    free_blocks pb1 = insert off (free_blocks pb) \<and> m_num_bits pb1 = m_num_bits pb + 1 \<and>
    ClearBit off pb1 = Some pb2 \<and> bitmap_wf pb2 \<and> free_blocks pb2 = free_blocks pb \<and>
    m_num_bits pb2 = m_num_bits pb"
proof -
  obtain pb1 where 1: "SetBit off pb = Some pb1" "bitmap_wf pb1" "free_blocks pb1 = insert off (free_blocks pb)"
    using page_bitmap.set_law[OF assms] by blast
  obtain pb2 where 2: "ClearBit off pb1 = Some pb2" "bitmap_wf pb2" "free_blocks pb2 = free_blocks pb1 - {off}"
    using page_bitmap.clear_law[OF 1(2), of off] 1(3) by blast
  have "free_blocks pb2 = free_blocks pb" using 1(3) 2(3) assms(3) by auto
  with 1 2 assms show ?thesis by (auto simp: bitmap_wf_def)
qed

theorem set_then_clear_bit_witness:
  "\<exists>pb1 pb2. SetBit 70 sample_bitmap = Some pb1 \<and> free_blocks pb1 = {70} \<and>
     ClearBit 70 pb1 = Some pb2 \<and> free_blocks pb2 = {}"
  using set_then_clear_bit[OF sample_bitmap_wf(1), of 70] sample_bitmap_wf(2,3) by auto

text \<open>A range search returns free blocks that lie in one word whenever some aligned choice is free,
  and claiming the range removes exactly those blocks.\<close>

theorem find_and_clear_range:
  assumes "bitmap_wf pb" and "0 < count" and "count < 64"
  shows "\<exists>r pb'. FindFreeRange count pb = Some (r, pb') \<and> free_blocks pb' = free_blocks pb \<and>
    (case r of
       None \<Rightarrow> \<forall>i k. i * 64 < leaf_count (m_bit_storages pb) \<and> (k + 1) * count \<le> 64
         \<longrightarrow> \<not> {i * 64 + k * count ..< i * 64 + k * count + count} \<subseteq> free_blocks pb
     | Some off \<Rightarrow> {off ..< off + count} \<subseteq> free_blocks pb \<and>
         (\<exists>pb2. ClearRange off count pb' = Some (True, pb2) \<and> bitmap_wf pb2 \<and>
            free_blocks pb2 = free_blocks pb - {off ..< off + count}))"
proof -
  obtain r g' where r: "FindFreeRange count pb = Some (r, pb\<lparr>m_rng := g'\<rparr>)"
    "case r of None \<Rightarrow> \<forall>i k. i * 64 < leaf_count (m_bit_storages pb) \<and> (k + 1) * count \<le> 64
         \<longrightarrow> \<not> {i * 64 + k * count ..< i * 64 + k * count + count} \<subseteq> free_blocks pb
     | Some off \<Rightarrow> off mod 64 + count \<le> 64 \<and> {off ..< off + count} \<subseteq> free_blocks pb"
    using FindFreeRange_ok[OF assms] by blast
  have wf: "bitmap_wf (pb\<lparr>m_rng := g'\<rparr>)" using assms(1) by (simp add: bitmap_wf_def)
  show ?thesis
  proof (cases r)
    case None
    with r show ?thesis by auto
  next
    case (Some off)
    with r ClearRange_ok[OF wf assms(2,3), of off] show ?thesis by auto
  qed
qed

theorem find_and_clear_range_witness:
  "\<exists>pb'. FindFreeRange 4 sample_bitmap = Some (None, pb')"
  using find_and_clear_range[OF sample_bitmap_wf(1), of 4] sample_bitmap_wf(2)
  by (auto split: option.splits)

text \<open>The page manager starts with exactly the pages of its region free; an allocation hands out a
  free page and takes it out of the free set, and fails only when no page is free, so a page is never
  handed out twice.\<close>

theorem page_manager_allocates_each_page_once:
  assumes "PageManager_Initialize backing memory sz align g = Some (ResultSuccess, Some pm0)"
    and "0 < align" and "memory + sz + 128 < two64" and "0 < dpm_count pm0"
  shows "pm_wf pm0 \<and> card (free_blocks (dpm_bitmap pm0)) = dpm_count pm0 \<and>
    dpm_count pm0 * PageSize \<le> sz \<and>
    (\<forall>pm. pm_wf pm \<longrightarrow> (\<exists>r pm'. PageManager_Allocate pm = Some (r, pm') \<and> pm_wf pm' \<and>
       (case r of
          None \<Rightarrow> free_blocks (dpm_bitmap pm) = {} \<and> dpm_used pm = dpm_count pm
        | Some page \<Rightarrow> \<exists>off \<in> free_blocks (dpm_bitmap pm). page = page_pointer pm off \<and>
            free_blocks (dpm_bitmap pm') = free_blocks (dpm_bitmap pm) - {off} \<and>
            dpm_used pm' = dpm_used pm + 1)))"
proof -
  have init: "pm_wf pm0 \<and> card (free_blocks (dpm_bitmap pm0)) = dpm_count pm0 \<and> dpm_count pm0 * PageSize \<le> sz"
    by (rule PageManager_Initialize_ok[OF assms(1,3,4)])
  have alloc: "\<exists>r pm'. PageManager_Allocate pm = Some (r, pm') \<and> pm_wf pm' \<and>
       (case r of
          None \<Rightarrow> free_blocks (dpm_bitmap pm) = {} \<and> dpm_used pm = dpm_count pm
        | Some page \<Rightarrow> \<exists>off \<in> free_blocks (dpm_bitmap pm). page = page_pointer pm off \<and>
            free_blocks (dpm_bitmap pm') = free_blocks (dpm_bitmap pm) - {off} \<and>
            dpm_used pm' = dpm_used pm + 1)" if wf: "pm_wf pm" for pm
  proof (cases "free_blocks (dpm_bitmap pm) = {}")
    case True
    have bw: "bitmap_wf (dpm_bitmap pm)" using wf by (simp add: pm_wf_def)
    obtain r pb where r: "FindFreeBlock True (dpm_bitmap pm) = Some (r, pb)" "bitmap_wf pb"
      "free_blocks pb = free_blocks (dpm_bitmap pm)"
      "case r of None \<Rightarrow> free_blocks (dpm_bitmap pm) = {} | Some i \<Rightarrow> i \<in> free_blocks (dpm_bitmap pm)"
      using page_bitmap.find_law[OF bw, of True] by blast
    with True have "r = None" by (cases r) auto
    with r True wf show ?thesis by (auto simp: PageManager_Allocate_def pm_wf_def)
  next
    case False
    have bw: "bitmap_wf (dpm_bitmap pm)" using wf by (simp add: pm_wf_def)
    from page_bitmap.claim[OF bw False, of True] obtain i b1 b2 where
      "FindFreeBlock True (dpm_bitmap pm) = Some (Some i, b1)" "ClearBit i b1 = Some b2" "bitmap_wf b2"
      "i \<in> free_blocks (dpm_bitmap pm)" "free_blocks b2 = free_blocks (dpm_bitmap pm) - {i}"
      "Suc (card (free_blocks b2)) = card (free_blocks (dpm_bitmap pm))" by blast
    with wf show ?thesis by (auto simp: PageManager_Allocate_def pm_wf_def)
  qed
  show ?thesis using init alloc by blast
qed

theorem page_manager_allocates_each_page_once_witness:
  "\<exists>r pm'. PageManager_Initialize 0 0 16384 4096 sample_rng = Some (ResultSuccess, Some pm') \<and>
     pm_wf pm' \<and> card (free_blocks (dpm_bitmap pm')) = 3"
proof -
  have a: "AlignUp 4 64 = 64" "AlignUp 8 PageSize = 4096" "AlignUp 3 64 = 64"
    by (simp_all add: AlignUp_def add64_def two64_def PageSize_def)
  have d: "GetRequiredDepth 4 = 1" "GetRequiredDepth 3 = 1" by (simp_all add: GetRequiredDepth.simps)
  have o8: "CalculateManagementOverheadSize 4 = 8"
    using a d by (simp add: CalculateManagementOverheadSize_def)
  let ?pb = "\<lambda>v n. \<lparr>m_bit_storages = [[v]], m_rng = sample_rng, m_num_bits = n\<rparr>"
  have "SetBit 0 (?pb 0 0) = Some (?pb 1 1)" "SetBit 1 (?pb 1 1) = Some (?pb 3 2)"
    "SetBit 2 (?pb 3 2) = Some (?pb 7 3)"
    by (simp_all add: SetBit_def set_bit_at.simps(2) level_read_def level_write_def add64_def two64_def)
  moreover have "[0 ..< 3] = [0, 1, 2 :: nat]" by (simp add: upt_rec)
  ultimately have f: "free_pages [0 ..< 3] 0 0 (?pb 0 0) = Some (?pb 7 3)"
    by (simp add: PageSize_def add64_def sub64_def two64_def)
  define pm where "pm = \<lparr>dpm_bitmap = ?pb 7 3, dpm_used = 0, dpm_peak = 0, dpm_count = 3, dpm_address = 0,
    dpm_aligned_address = 0, dpm_size = 12288, dpm_backing = 0\<rparr>"
  have i: "PageManager_Initialize 0 0 16384 4096 sample_rng = Some (ResultSuccess, Some pm)"
    using a d o8 f by (simp add: PageManager_Initialize_def KPageBitmap_Initialize_def MaxDepth_def AlignDown_def
        PageSize_def add64_def sub64_def two64_def pm_def)
  from page_manager_allocates_each_page_once[OF i] have "pm_wf pm \<and> card (free_blocks (dpm_bitmap pm)) = 3"
    by (simp add: two64_def pm_def)
  with i show ?thesis by blast
qed

end
