(* ===== verification/K_Page_Heap.thy ===== *)
theory K_Page_Heap
  imports K_Page_Bitmap "HOL-Library.Monad_Syntax"
begin

text \<open>
  \<open>KPageHeap\<close> (\<open>src/core/hle/kernel/k_page_heap.h\<close> and \<open>.cpp\<close>): the buddy allocator of physical
  pages. A heap has one free-block bitmap per block size; freeing a block merges it with its
  neighbours into the next size when all of them are free, allocating splits a larger block and
  frees the rest. The address 0 stands for \<open>no block\<close>, as in the source. The generators of the
  bitmaps and of the heap are given to \<open>Initialize\<close>. The loops of \<open>Free\<close> step
  addresses without wrap-around: a heap ends at least one block before the end of the address space.
\<close>

section \<open>Blocks of one size\<close>

definition MemoryBlockPageShifts :: "nat list" where
  "MemoryBlockPageShifts = [0xC, 0x10, 0x15, 0x16, 0x19, 0x1D, 0x1E]"

definition NumMemoryBlockPageShifts :: nat where
  "NumMemoryBlockPageShifts = 7"

record Block =
  b_bitmap :: KPageBitmap
  b_heap_address :: nat
  b_end_offset :: nat
  b_block_shift :: nat
  b_next_block_shift :: nat

definition Block_GetSize :: "Block \<Rightarrow> nat" where
  "Block_GetSize b = 2 ^ b_block_shift b"

definition Block_GetNumPages :: "Block \<Rightarrow> nat" where
  "Block_GetNumPages b = Block_GetSize b div PageSize"

definition Block_GetNumFreeBlocks :: "Block \<Rightarrow> nat" where
  "Block_GetNumFreeBlocks b = m_num_bits (b_bitmap b)"

definition Block_GetNumFreePages :: "Block \<Rightarrow> nat" where
  "Block_GetNumFreePages b = mul64 (Block_GetNumFreeBlocks b) (Block_GetNumPages b)"

definition Block_Initialize ::
  "nat \<Rightarrow> nat \<Rightarrow> nat \<Rightarrow> nat \<Rightarrow> u64 list \<Rightarrow> RandomBitGenerator \<Rightarrow> (Block \<times> u64 list) option" where
  "Block_Initialize addr sz bs nbs bit_storage g =
     (let end_addr = add64 addr sz;
          align = (if nbs \<noteq> 0 then 2 ^ nbs else 2 ^ bs);
          addr' = AlignDown addr align;
          end' = AlignUp end_addr align;
          end_offset = sub64 end' addr' div 2 ^ bs
      in do {
        (pb, rest) \<leftarrow> KPageBitmap_Initialize bit_storage end_offset g;
        Some (\<lparr>b_bitmap = pb, b_heap_address = addr', b_end_offset = end_offset, b_block_shift = bs,
               b_next_block_shift = nbs\<rparr>, rest)
      })"

definition PushBlock :: "nat \<Rightarrow> Block \<Rightarrow> (nat \<times> Block) option" where
  "PushBlock address b =
     (let offset = sub64 address (b_heap_address b) div 2 ^ b_block_shift b in
      do {
        pb \<leftarrow> SetBit offset (b_bitmap b);
        (if b_next_block_shift b \<noteq> 0 then
           let diff = 2 ^ (b_next_block_shift b - b_block_shift b);
               offset' = AlignDown offset diff
           in do {
             (cleared, pb') \<leftarrow> ClearRange offset' diff pb;
             Some (if cleared then add64 (b_heap_address b) (mul64 offset' (2 ^ b_block_shift b)) else 0,
                   b\<lparr>b_bitmap := pb'\<rparr>)
           }
         else Some (0, b\<lparr>b_bitmap := pb\<rparr>))
      })"

definition PopBlock :: "bool \<Rightarrow> Block \<Rightarrow> (nat \<times> Block) option" where
  "PopBlock random b =
     do {
       (r, pb) \<leftarrow> FindFreeBlock random (b_bitmap b);
       (case r of
          None \<Rightarrow> Some (0, b\<lparr>b_bitmap := pb\<rparr>)
        | Some offset \<Rightarrow> do {
            pb' \<leftarrow> ClearBit offset pb;
            Some (add64 (b_heap_address b) (mul64 offset (2 ^ b_block_shift b)), b\<lparr>b_bitmap := pb'\<rparr>)
          })
     }"

definition Block_CalculateManagementOverheadSize :: "nat \<Rightarrow> nat \<Rightarrow> nat \<Rightarrow> nat" where
  "Block_CalculateManagementOverheadSize region_size cur_block_shift next_block_shift =
     (let cur_block_size = 2 ^ cur_block_shift;
          next_block_size = 2 ^ next_block_shift;
          align = (if next_block_shift \<noteq> 0 then next_block_size else cur_block_size)
      in CalculateManagementOverheadSize
           (add64 (mul64 align 2) (AlignUp region_size align) div cur_block_size))"

section \<open>The heap\<close>

record KPageHeap =
  h_heap_address :: nat
  h_heap_size :: nat
  h_initial_used_size :: nat
  h_num_blocks :: nat
  h_blocks :: "Block list"
  h_rng :: RandomBitGenerator

definition PageHeap_GetEndAddress :: "KPageHeap \<Rightarrow> nat" where
  "PageHeap_GetEndAddress h = add64 (h_heap_address h) (h_heap_size h)"

definition GetPageOffset :: "KPageHeap \<Rightarrow> nat \<Rightarrow> nat" where
  "GetPageOffset h block = sub64 block (h_heap_address h) div PageSize"

definition GetPageOffsetToEnd :: "KPageHeap \<Rightarrow> nat \<Rightarrow> nat" where
  "GetPageOffsetToEnd h block = sub64 (PageHeap_GetEndAddress h) block div PageSize"

fun initialize_blocks ::
  "nat list \<Rightarrow> nat \<Rightarrow> nat \<Rightarrow> u64 list \<Rightarrow> RandomBitGenerator list \<Rightarrow> Block list option" where
  "initialize_blocks [] address sz storage gs = Some []"
| "initialize_blocks (s # shifts) address sz storage gs =
     (case gs of
        [] \<Rightarrow> None
      | g # gs' \<Rightarrow> do {
          (b, rest) \<leftarrow> Block_Initialize address sz s (if shifts = [] then 0 else hd shifts) storage g;
          bs \<leftarrow> initialize_blocks shifts address sz rest gs';
          Some (b # bs)
        })"

definition PageHeap_Initialize ::
  "nat \<Rightarrow> nat \<Rightarrow> nat \<Rightarrow> nat list \<Rightarrow> RandomBitGenerator list \<Rightarrow> RandomBitGenerator \<Rightarrow> KPageHeap option" where
  "PageHeap_Initialize address sz management_size block_shifts gs g =
     do {
       bs \<leftarrow> initialize_blocks block_shifts address sz (replicate (management_size div 8) 0) gs;
       Some \<lparr>h_heap_address = address, h_heap_size = sz, h_initial_used_size = 0,
             h_num_blocks = length block_shifts, h_blocks = bs, h_rng = g\<rparr>
     }"

definition GetNumFreePages :: "KPageHeap \<Rightarrow> nat" where
  "GetNumFreePages h =
     fold (\<lambda>b n. add64 n (Block_GetNumFreePages b)) (take (h_num_blocks h) (h_blocks h)) 0"

definition PageHeap_GetFreeSize :: "KPageHeap \<Rightarrow> nat" where
  "PageHeap_GetFreeSize h = mul64 (GetNumFreePages h) PageSize"

definition SetInitialUsedSize :: "nat \<Rightarrow> KPageHeap \<Rightarrow> KPageHeap" where
  "SetInitialUsedSize reserved_size h =
     (let free_size = mul64 (GetNumFreePages h) PageSize
      in h\<lparr>h_initial_used_size := sub64 (sub64 (h_heap_size h) free_size) reserved_size\<rparr>)"

definition GetAlignedBlockIndex :: "nat \<Rightarrow> nat \<Rightarrow> nat option" where
  "GetAlignedBlockIndex num_pages align_pages =
     (let target_pages = max num_pages align_pages
      in find (\<lambda>i. target_pages \<le> 2 ^ (MemoryBlockPageShifts ! i) div PageSize)
           [0 ..< NumMemoryBlockPageShifts])"

definition GetBlockIndex :: "nat \<Rightarrow> nat option" where
  "GetBlockIndex num_pages =
     find (\<lambda>i. num_pages \<ge> 2 ^ (MemoryBlockPageShifts ! i) div PageSize)
       (rev [0 ..< NumMemoryBlockPageShifts])"

definition GetBlockSize :: "nat \<Rightarrow> nat" where
  "GetBlockSize index = 2 ^ (MemoryBlockPageShifts ! index)"

definition GetBlockNumPages :: "nat \<Rightarrow> nat" where
  "GetBlockNumPages index = GetBlockSize index div PageSize"

definition PageHeap_CalculateManagementOverheadSize :: "nat \<Rightarrow> nat list \<Rightarrow> nat" where
  "PageHeap_CalculateManagementOverheadSize region_size block_shifts =
     AlignUp
       (fold (\<lambda>i n. add64 n (Block_CalculateManagementOverheadSize region_size (block_shifts ! i)
                (if i \<noteq> length block_shifts - 1 then block_shifts ! (i + 1) else 0)))
          [0 ..< length block_shifts] 0)
       PageSize"

section \<open>Freeing\<close>

function FreeBlock :: "nat \<Rightarrow> nat \<Rightarrow> Block list \<Rightarrow> Block list option" where
  "FreeBlock block index bs =
     (if index < length bs then
        case PushBlock block (bs ! index) of
          None \<Rightarrow> None
        | Some (block', b') \<Rightarrow>
            if block' \<noteq> 0 then FreeBlock block' (Suc index) (bs[index := b']) else Some (bs[index := b'])
      else None)"
  by pat_completeness auto
termination
  by (relation "measure (\<lambda>(block, index, bs). length bs - index)") auto

declare FreeBlock.simps [simp del]

text \<open>The for loop over big blocks; a zero step cannot occur since block sizes are powers of two.\<close>

function free_big :: "nat \<Rightarrow> nat \<Rightarrow> nat \<Rightarrow> nat \<Rightarrow> Block list \<Rightarrow> Block list option" where
  "free_big block big_end block_size index bs =
     (if block < big_end \<and> 0 < block_size then
        case FreeBlock block index bs of
          None \<Rightarrow> None | Some bs' \<Rightarrow> free_big (block + block_size) big_end block_size index bs'
      else Some bs)"
  by pat_completeness auto
termination
  by (relation "measure (\<lambda>(block, e, s, i, bs). e - block)") auto

declare free_big.simps [simp del]

function free_before :: "nat \<Rightarrow> nat \<Rightarrow> nat \<Rightarrow> nat \<Rightarrow> Block list \<Rightarrow> (nat \<times> Block list) option" where
  "free_before before_start before_end block_size i bs =
     (if before_start + block_size \<le> before_end \<and> 0 < block_size then
        case FreeBlock (before_end - block_size) i bs of
          None \<Rightarrow> None
        | Some bs' \<Rightarrow> free_before before_start (before_end - block_size) block_size i bs'
      else Some (before_end, bs))"
  by pat_completeness auto
termination
  by (relation "measure (\<lambda>(s, e, sz, i, bs). e)") auto

declare free_before.simps [simp del]

function free_after :: "nat \<Rightarrow> nat \<Rightarrow> nat \<Rightarrow> nat \<Rightarrow> Block list \<Rightarrow> (nat \<times> Block list) option" where
  "free_after after_start after_end block_size i bs =
     (if after_start + block_size \<le> after_end \<and> 0 < block_size then
        case FreeBlock after_start i bs of
          None \<Rightarrow> None
        | Some bs' \<Rightarrow> free_after (after_start + block_size) after_end block_size i bs'
      else Some (after_start, bs))"
  by pat_completeness auto
termination
  by (relation "measure (\<lambda>(s, e, sz, i, bs). e - s)") auto

declare free_after.simps [simp del]

fun free_before_all :: "nat \<Rightarrow> nat \<Rightarrow> nat \<Rightarrow> Block list \<Rightarrow> Block list option" where
  "free_before_all 0 before_start before_end bs = Some bs"
| "free_before_all (Suc i) before_start before_end bs =
     do {
       (e, bs') \<leftarrow> free_before before_start before_end (Block_GetSize (bs ! i)) i bs;
       free_before_all i before_start e bs'
     }"

fun free_after_all :: "nat \<Rightarrow> nat \<Rightarrow> nat \<Rightarrow> Block list \<Rightarrow> Block list option" where
  "free_after_all 0 after_start after_end bs = Some bs"
| "free_after_all (Suc i) after_start after_end bs =
     do {
       (s, bs') \<leftarrow> free_after after_start after_end (Block_GetSize (bs ! i)) i bs;
       free_after_all i s after_end bs'
     }"

text \<open>The largest block size of which a whole block fits; \<open>n\<close> is \<open>big_index\<close> plus one.\<close>

fun find_big :: "nat \<Rightarrow> nat \<Rightarrow> nat \<Rightarrow> Block list \<Rightarrow> nat option" where
  "find_big 0 start end_addr bs = None"
| "find_big (Suc i) start end_addr bs =
     (let block_size = Block_GetSize (bs ! i) in
      if AlignUp start block_size < AlignDown end_addr block_size then Some i
      else find_big i start end_addr bs)"

definition free_pages_in :: "nat \<Rightarrow> nat \<Rightarrow> nat \<Rightarrow> Block list \<Rightarrow> Block list option" where
  "free_pages_in addr num_pages num_blocks bs =
     (if num_pages = 0 then Some bs
      else
        let end_addr = add64 addr (mul64 num_pages PageSize) in
        case find_big num_blocks addr end_addr bs of
          None \<Rightarrow> Some bs
        | Some big_index \<Rightarrow>
            let block_size = Block_GetSize (bs ! big_index);
                big_start = AlignUp addr block_size;
                big_end = AlignDown end_addr block_size
            in do {
              bs1 \<leftarrow> free_big big_start big_end block_size big_index bs;
              bs2 \<leftarrow> free_before_all big_index addr big_start bs1;
              free_after_all big_index big_end end_addr bs2
            })"

definition PageHeap_Free :: "nat \<Rightarrow> nat \<Rightarrow> KPageHeap \<Rightarrow> KPageHeap option" where
  "PageHeap_Free addr num_pages h =
     map_option (\<lambda>bs. h\<lparr>h_blocks := bs\<rparr>) (free_pages_in addr num_pages (h_num_blocks h) (h_blocks h))"

section \<open>Allocating\<close>

function linear_search :: "nat \<Rightarrow> nat \<Rightarrow> KPageHeap \<Rightarrow> (nat \<times> KPageHeap) option" where
  "linear_search i needed_size h =
     (if i < h_num_blocks h \<and> i < length (h_blocks h) then
        case PopBlock False (h_blocks h ! i) of
          None \<Rightarrow> None
        | Some (addr, b) \<Rightarrow>
            let h1 = h\<lparr>h_blocks := (h_blocks h)[i := b]\<rparr>; allocated_size = Block_GetSize b in
            if addr \<noteq> 0 then
              if allocated_size > needed_size then
                map_option (\<lambda>h2. (addr, h2))
                  (PageHeap_Free (add64 addr needed_size) ((allocated_size - needed_size) div PageSize) h1)
              else Some (addr, h1)
            else linear_search (Suc i) needed_size h1
      else Some (0, h))"
  by pat_completeness auto
termination
  by (relation "measure (\<lambda>(i, n, h). h_num_blocks h - i)") auto

declare linear_search.simps [simp del]

definition AllocateByLinearSearch :: "nat \<Rightarrow> KPageHeap \<Rightarrow> (nat \<times> KPageHeap) option" where
  "AllocateByLinearSearch index h =
     (if index < length (h_blocks h)
      then linear_search index (Block_GetSize (h_blocks h ! index)) h else None)"

definition alignments_of :: "nat \<Rightarrow> nat \<Rightarrow> Block \<Rightarrow> nat" where
  "alignments_of needed_size align_shift b =
     mul64 (add64 1 (sub64 (Block_GetSize b) needed_size div 2 ^ align_shift)) (Block_GetNumFreeBlocks b)"

fun count_alignments :: "nat list \<Rightarrow> nat \<Rightarrow> nat \<Rightarrow> nat \<Rightarrow> Block list \<Rightarrow> nat \<Rightarrow> nat \<times> nat" where
  "count_alignments [] needed_size align_shift possible bs max_blocks = (possible, max_blocks)"
| "count_alignments (i # is) needed_size align_shift possible bs max_blocks =
     (let possible' = add64 possible (alignments_of needed_size align_shift (bs ! i))
      in if possible' \<ge> 4 then (possible', i + 1)
         else count_alignments is needed_size align_shift possible' bs max_blocks)"

fun pick_block :: "nat list \<Rightarrow> nat \<Rightarrow> nat \<Rightarrow> nat \<Rightarrow> nat \<Rightarrow> Block list \<Rightarrow> nat \<Rightarrow> nat" where
  "pick_block [] needed_size align_shift rnd possible bs index = index"
| "pick_block (i # is) needed_size align_shift rnd possible bs index =
     (let possible' = add64 possible (alignments_of needed_size align_shift (bs ! i))
      in if rnd < possible' then i
         else pick_block is needed_size align_shift rnd possible' bs index)"

definition AllocateByRandom :: "nat \<Rightarrow> nat \<Rightarrow> nat \<Rightarrow> KPageHeap \<Rightarrow> (nat \<times> KPageHeap) option" where
  "AllocateByRandom index num_pages align_pages h =
     (let needed_size = mul64 num_pages PageSize;
          align_size = mul64 align_pages PageSize;
          align_shift = countr_zero (word_of_nat align_size);
          bs = h_blocks h;
          (possible, max_blocks) =
            count_alignments [index ..< h_num_blocks h] needed_size align_shift 0 bs (h_num_blocks h);
          (index', g) =
            (if possible > 0 \<and> index + 1 < max_blocks then
               let (rnd, g) = GenerateRandom (word_of_nat possible) (h_rng h)
               in (pick_block [index ..< max_blocks] needed_size align_shift (unat rnd) 0 bs index, g)
             else (index, h_rng h))
      in if \<not> index' < length bs then None
         else do {
           (addr, b) \<leftarrow> PopBlock True (bs ! index');
           let h1 = h\<lparr>h_blocks := bs[index' := b], h_rng := g\<rparr>;
           (if addr \<noteq> 0 then
              let leftover_size = sub64 (Block_GetSize b) needed_size in
              if leftover_size > 0 then
                let (r, g') = GenerateRandom (word_of_nat (add64 1 (leftover_size div 2 ^ align_shift))) g;
                    random_offset = mul64 (unat r) (2 ^ align_shift);
                    addr' = add64 addr random_offset
                in do {
                  h2 \<leftarrow> (if random_offset \<noteq> 0
                         then PageHeap_Free addr (random_offset div PageSize) (h1\<lparr>h_rng := g'\<rparr>)
                         else Some (h1\<lparr>h_rng := g'\<rparr>));
                  h3 \<leftarrow> (if random_offset \<noteq> leftover_size
                         then PageHeap_Free (add64 addr' needed_size)
                                (sub64 leftover_size random_offset div PageSize) h2
                         else Some h2);
                  Some (addr', h3)
                }
              else Some (addr, h1)
            else Some (0, h1))
         })"

definition AllocateBlock :: "nat \<Rightarrow> bool \<Rightarrow> KPageHeap \<Rightarrow> (nat \<times> KPageHeap) option" where
  "AllocateBlock index random h =
     (if random then
        (if index < length (h_blocks h) then
           let block_pages = Block_GetNumPages (h_blocks h ! index)
           in AllocateByRandom index block_pages block_pages h
         else None)
      else AllocateByLinearSearch index h)"

definition AllocateAligned :: "nat \<Rightarrow> nat \<Rightarrow> nat \<Rightarrow> KPageHeap \<Rightarrow> (nat \<times> KPageHeap) option" where
  "AllocateAligned index num_pages align_pages h = AllocateByRandom index num_pages align_pages h"

section \<open>Free memory\<close>

text \<open>The addresses that lie in a free block of one size, and of all sizes.\<close>

definition blk_free :: "Block \<Rightarrow> nat set" where
  "blk_free b = {x. b_heap_address b \<le> x \<and>
     (x - b_heap_address b) div 2 ^ b_block_shift b \<in> free_blocks (b_bitmap b)}"

definition heap_free :: "Block list \<Rightarrow> nat set" where
  "heap_free bs = (\<Union>b\<in>set bs. blk_free b)"

text \<open>No blocks of one size that together make a block of the next size are all free.\<close>

definition merged :: "Block \<Rightarrow> bool" where
  "merged b \<longleftrightarrow> b_next_block_shift b \<noteq> 0 \<longrightarrow>
     (\<forall>o'. 2 ^ (b_next_block_shift b - b_block_shift b) dvd o' \<longrightarrow>
        \<not> {o' ..< o' + 2 ^ (b_next_block_shift b - b_block_shift b)} \<subseteq> free_blocks (b_bitmap b))"

definition level_ok :: "nat \<Rightarrow> nat \<Rightarrow> Block \<Rightarrow> bool" where
  "level_ok lo hi b \<longleftrightarrow>
     bitmap_wf (b_bitmap b) \<and> merged b \<and> 12 \<le> b_block_shift b \<and> b_heap_address b \<le> lo \<and>
     hi \<le> b_heap_address b + leaf_count (m_bit_storages (b_bitmap b)) * 2 ^ b_block_shift b \<and>
     2 ^ b_block_shift b dvd b_heap_address b \<and> hi + 2 ^ b_block_shift b < two64 \<and>
     (b_next_block_shift b \<noteq> 0 \<longrightarrow> b_block_shift b < b_next_block_shift b \<and>
        b_next_block_shift b - b_block_shift b < 6 \<and> 2 ^ b_next_block_shift b dvd b_heap_address b)"

definition blocks_wf :: "nat \<Rightarrow> nat \<Rightarrow> Block list \<Rightarrow> bool" where
  "blocks_wf lo hi bs \<longleftrightarrow>
     list_all (level_ok lo hi) bs \<and>
     (\<forall>i. i < length bs \<longrightarrow>
        b_next_block_shift (bs ! i) = (if Suc i < length bs then b_block_shift (bs ! Suc i) else 0)) \<and>
     heap_free bs \<subseteq> {lo ..< hi} \<and>
     (\<forall>i j. i < j \<and> j < length bs \<longrightarrow> blk_free (bs ! i) \<inter> blk_free (bs ! j) = {}) \<and>
     0 < lo \<and> hi < two64"

lemma div_in_range:
  fixes H :: nat
  assumes "0 < w" "H \<le> x"
  shows "(x - H) div w \<in> {k ..< k + d} \<longleftrightarrow> H + k * w \<le> x \<and> x < H + k * w + d * w"
proof -
  have "k \<le> (x - H) div w \<longleftrightarrow> k * w \<le> x - H" using assms(1) by (simp add: less_eq_div_iff_mult_less_eq)
  moreover have "(x - H) div w < k + d \<longleftrightarrow> x - H < (k + d) * w"
    using assms(1) by (simp add: div_less_iff_less_mult)
  ultimately show ?thesis using assms(2) by (auto simp: algebra_simps)
qed

lemma blk_free_range:
  assumes "0 < d"
  shows "{b_heap_address b + k * 2 ^ b_block_shift b ..<
      b_heap_address b + k * 2 ^ b_block_shift b + d * 2 ^ b_block_shift b}
    = {x. b_heap_address b \<le> x \<and> (x - b_heap_address b) div 2 ^ b_block_shift b \<in> {k ..< k + d}}"
proof (intro set_eqI iffI)
  let ?H = "b_heap_address b" and ?w = "2 ^ b_block_shift b :: nat"
  fix x assume "x \<in> {?H + k * ?w ..< ?H + k * ?w + d * ?w}"
  then have "?H \<le> x" "?H + k * ?w \<le> x \<and> x < ?H + k * ?w + d * ?w" by auto
  then show "x \<in> {x. ?H \<le> x \<and> (x - ?H) div ?w \<in> {k ..< k + d}}"
    using div_in_range[of ?w ?H x k d] by simp
next
  let ?H = "b_heap_address b" and ?w = "2 ^ b_block_shift b :: nat"
  fix x assume "x \<in> {x. ?H \<le> x \<and> (x - ?H) div ?w \<in> {k ..< k + d}}"
  then show "x \<in> {?H + k * ?w ..< ?H + k * ?w + d * ?w}"
    using div_in_range[of ?w ?H x k d] by simp
qed

text \<open>The block of a level at an aligned address.\<close>

lemma block_offset:
  assumes ok: "level_ok lo hi b" and hi: "hi < two64" and al: "2 ^ b_block_shift b dvd a"
    and sub: "{a ..< a + 2 ^ b_block_shift b} \<subseteq> {lo ..< hi}"
  defines "off \<equiv> (a - b_heap_address b) div 2 ^ b_block_shift b"
  shows "a = b_heap_address b + off * 2 ^ b_block_shift b"
    "sub64 a (b_heap_address b) div 2 ^ b_block_shift b = off"
    "off < leaf_count (m_bit_storages (b_bitmap b))" "lo \<le> a" "a < hi"
proof -
  let ?w = "2 ^ b_block_shift b :: nat"
  have "a \<in> {a ..< a + ?w}" by simp
  then have lo: "lo \<le> a" "a < hi" using sub by (meson atLeastLessThan_iff subsetD)+
  then show "lo \<le> a" "a < hi" .
  have H: "b_heap_address b \<le> a" using ok lo by (simp add: level_ok_def)
  have "?w dvd a - b_heap_address b" using al ok by (simp add: level_ok_def)
  then show eq: "a = b_heap_address b + off * ?w" using H by (simp add: off_def)
  have "hi \<le> b_heap_address b + leaf_count (m_bit_storages (b_bitmap b)) * ?w"
    using ok by (simp add: level_ok_def)
  then have "off * ?w < leaf_count (m_bit_storages (b_bitmap b)) * ?w" using eq lo(2) by linarith
  then show "off < leaf_count (m_bit_storages (b_bitmap b))" by simp
  show "sub64 a (b_heap_address b) div ?w = off" using H lo hi by (simp add: off_def sub64_eq)
qed

lemma blk_free_insert:
  "free_blocks pb' = insert off (free_blocks (b_bitmap b)) \<Longrightarrow>
    blk_free (b\<lparr>b_bitmap := pb'\<rparr>) = blk_free b \<union>
      {b_heap_address b + off * 2 ^ b_block_shift b ..<
       b_heap_address b + off * 2 ^ b_block_shift b + 2 ^ b_block_shift b}"
  using blk_free_range[of 1 b off] by (auto simp: blk_free_def)

lemma blk_free_remove:
  "0 < d \<Longrightarrow> free_blocks pb' = free_blocks (b_bitmap b) - {off ..< off + d} \<Longrightarrow>
    blk_free (b\<lparr>b_bitmap := pb'\<rparr>) = blk_free b -
      {b_heap_address b + off * 2 ^ b_block_shift b ..<
       b_heap_address b + off * 2 ^ b_block_shift b + d * 2 ^ b_block_shift b}"
  using blk_free_range[of d b off] by (auto simp: blk_free_def)

lemma level_ok_bitmap:
  "level_ok lo hi b \<Longrightarrow> bitmap_wf pb' \<Longrightarrow>
    leaf_count (m_bit_storages pb') = leaf_count (m_bit_storages (b_bitmap b)) \<Longrightarrow>
    merged (b\<lparr>b_bitmap := pb'\<rparr>) \<Longrightarrow> level_ok lo hi (b\<lparr>b_bitmap := pb'\<rparr>)"
  by (simp add: level_ok_def)

lemma aligned_apart:
  fixes d :: nat
  assumes "d dvd a" "d dvd b" "x \<in> {a ..< a + d}" "x \<in> {b ..< b + d}"
  shows "a = b"
proof -
  obtain k m where k: "a = d * k" "b = d * m" using assms(1,2) by blast
  have d: "0 < d" using assms(3) by auto
  have "d * k < d * (m + 1)" "d * m < d * (k + 1)" using assms(3,4) k by auto
  then have "k < m + 1" "m < k + 1" using d by (simp_all only: nat_mult_less_cancel1)
  then show ?thesis using k by simp
qed

lemma merged_remove:
  "merged b \<Longrightarrow> free_blocks pb' \<subseteq> free_blocks (b_bitmap b) \<Longrightarrow> merged (b\<lparr>b_bitmap := pb'\<rparr>)"
  unfolding merged_def by simp blast

text \<open>A new free block can only complete the group it lies in.\<close>

lemma merged_insert:
  assumes m: "merged b" and sub: "free_blocks pb' \<subseteq> insert off (free_blocks (b_bitmap b))"
    and d: "d = 2 ^ (b_next_block_shift b - b_block_shift b)" "d dvd o'" "off \<in> {o' ..< o' + d}"
    and no: "\<not> {o' ..< o' + d} \<subseteq> free_blocks pb'"
  shows "merged (b\<lparr>b_bitmap := pb'\<rparr>)"
  unfolding merged_def
proof (clarsimp simp flip: d(1))
  fix p assume n: "0 < b_next_block_shift b" and p: "d dvd p" "{p ..< p + d} \<subseteq> free_blocks pb'"
  show False
  proof (cases "off \<in> {p ..< p + d}")
    case True
    then have "p = o'" using aligned_apart[OF p(1) d(2) True d(3)] by simp
    then show False using p(2) no by simp
  next
    case False
    then have "{p ..< p + d} \<subseteq> free_blocks (b_bitmap b)" using p(2) sub by blast
    then show False using m n p(1) d(1) by (simp add: merged_def)
  qed
qed

text \<open>Pushing a block adds it, unless it completes a block of the next size, which is then taken out
  whole and returned.\<close>

lemma PushBlock_ok:
  assumes ok: "level_ok lo hi b" and hi: "0 < lo" "hi < two64" and al: "2 ^ b_block_shift b dvd a"
    and sub: "{a ..< a + 2 ^ b_block_shift b} \<subseteq> {lo ..< hi}"
    and disj: "{a ..< a + 2 ^ b_block_shift b} \<inter> blk_free b = {}"
    and free: "blk_free b \<subseteq> {lo ..< hi}"
  defines "F \<equiv> blk_free b \<union> {a ..< a + 2 ^ b_block_shift b}"
  shows "(\<exists>pb'. PushBlock a b = Some (0, b\<lparr>b_bitmap := pb'\<rparr>) \<and> level_ok lo hi (b\<lparr>b_bitmap := pb'\<rparr>) \<and>
      blk_free (b\<lparr>b_bitmap := pb'\<rparr>) = F) \<or>
    (\<exists>A pb'. PushBlock a b = Some (A, b\<lparr>b_bitmap := pb'\<rparr>) \<and> A \<noteq> 0 \<and> b_next_block_shift b \<noteq> 0 \<and>
      level_ok lo hi (b\<lparr>b_bitmap := pb'\<rparr>) \<and> 2 ^ b_next_block_shift b dvd A \<and>
      {A ..< A + 2 ^ b_next_block_shift b} \<subseteq> F \<and>
      blk_free (b\<lparr>b_bitmap := pb'\<rparr>) = F - {A ..< A + 2 ^ b_next_block_shift b})"
proof -
  let ?H = "b_heap_address b" and ?s = "b_block_shift b" and ?n = "b_next_block_shift b"
  define off where "off = (a - ?H) div 2 ^ ?s"
  note o = block_offset[OF ok hi(2) al sub, folded off_def]
  have "a \<in> {a ..< a + 2 ^ ?s}" by simp
  then have "a \<notin> blk_free b" using disj by blast
  then have nf: "off \<notin> free_blocks (b_bitmap b)" using o(1) by (simp add: blk_free_def)
  have wf: "bitmap_wf (b_bitmap b)" using ok by (simp add: level_ok_def)
  obtain pb where pb: "SetBit off (b_bitmap b) = Some pb" "bitmap_wf pb"
    "free_blocks pb = insert off (free_blocks (b_bitmap b))"
    "leaf_count (m_bit_storages pb) = leaf_count (m_bit_storages (b_bitmap b))"
    using SetBit_ok[OF wf o(3) nf] by blast
  have F1: "blk_free (b\<lparr>b_bitmap := pb\<rparr>) = F" using blk_free_insert[OF pb(3)] o(1) by (simp add: F_def)
  note ok1 = level_ok_bitmap[OF ok pb(2,4)]
  have mg: "merged b" using ok by (simp add: level_ok_def)
  show ?thesis
  proof (cases "?n = 0")
    case True
    then show ?thesis using pb(1) o(2) F1 ok1 by (intro disjI1 exI[of _ pb]) (simp add: PushBlock_def merged_def)
  next
    case False
    define d where "d = (2 :: nat) ^ (?n - ?s)"
    define o' where "o' = AlignDown off d"
    have sn: "?s < ?n" "?n - ?s < 6" "2 ^ ?n dvd ?H" using ok False by (auto simp: level_ok_def)
    have d: "0 < d" "d < 64" "d dvd 64" "d * 2 ^ ?s = 2 ^ ?n"
    proof -
      have "(2 :: nat) ^ (?n - ?s) < 2 ^ 6" using sn(2) by (intro power_strict_increasing) auto
      then show "d < 64" by (simp add: d_def)
      have "(2 :: nat) ^ (?n - ?s) dvd 2 ^ 6" using sn(2) by (intro le_imp_power_dvd) simp
      then show "d dvd 64" by (simp add: d_def)
      show "d * 2 ^ ?s = 2 ^ ?n" using sn(1) by (simp add: d_def flip: power_add)
    qed (simp add: d_def)
    have o'd: "d dvd o'" "o' \<le> off" "off < o' + d"
      using AlignDown_dvd AlignDown_le AlignDown_gt[OF d(1)] by (auto simp: o'_def)
    have fit: "o' mod 64 + d \<le> 64"
    proof -
      have "d dvd o' mod 64" using o'd(1) d(3) by (simp add: dvd_mod)
      then obtain k where k: "o' mod 64 = d * k" by blast
      obtain m where m: "64 = d * m" using d(3) by blast
      have "d * k < d * m" using k m by (metis mod_less_divisor zero_less_numeral)
      then have "k < m" by simp
      then have "d * (k + 1) \<le> d * m" by (intro mult_le_mono2) simp
      then show ?thesis using k m by simp
    qed
    have o'lt: "o' < leaf_count (m_bit_storages pb)" using o'd(2) o(3) pb(4) by simp
    have step: "PushBlock a b = (case ClearRange o' d pb of None \<Rightarrow> None
      | Some (cleared, pb') \<Rightarrow> Some (if cleared then add64 ?H (mul64 o' (2 ^ ?s)) else 0, b\<lparr>b_bitmap := pb'\<rparr>))"
      using False pb(1) o(2) unfolding PushBlock_def Let_def d_def[symmetric] o'_def[symmetric]
      by (auto simp: o'_def d_def split: option.splits bind_splits)
    show ?thesis
    proof (cases "{o' ..< o' + d} \<subseteq> free_blocks pb")
      case no: False
      have "PushBlock a b = Some (0, b\<lparr>b_bitmap := pb\<rparr>)"
        using step ClearRange_refused[OF pb(2) d(2) fit o'lt no] by simp
      moreover have "merged (b\<lparr>b_bitmap := pb\<rparr>)"
        by (rule merged_insert[OF mg _ d_def o'd(1) _ no]) (use pb(3) o'd in auto)
      ultimately show ?thesis using F1 ok1 by blast
    next
      case yes: True
      obtain pb' where pb': "ClearRange o' d pb = Some (True, pb')" "bitmap_wf pb'"
        "free_blocks pb' = free_blocks pb - {o' ..< o' + d}"
        "leaf_count (m_bit_storages pb') = leaf_count (m_bit_storages pb)"
        using ClearRange_ok[OF pb(2) d(1,2) fit yes] by blast
      let ?A = "?H + o' * 2 ^ ?s"
      have rng: "{?A ..< ?A + 2 ^ ?n} \<subseteq> F"
        using blk_free_range[OF d(1), of b o'] yes d(4) unfolding F1[symmetric] by (auto simp: blk_free_def)
      have "F \<subseteq> {lo ..< hi}" using free sub by (simp add: F_def)
      moreover have "?A \<in> {?A ..< ?A + 2 ^ ?n}" by simp
      ultimately have A: "lo \<le> ?A" "?A < hi" using rng by (meson atLeastLessThan_iff subsetD)+
      then have wrap: "add64 ?H (mul64 o' (2 ^ ?s)) = ?A" using hi(2) by (simp add: add64_eq mul64_eq)
      have "2 ^ ?n dvd ?A"
      proof -
        obtain k where "o' = d * k" using o'd(1) by blast
        then have "o' * 2 ^ ?s = 2 ^ ?n * k" using d(4) by (metis mult.assoc mult.commute)
        then show ?thesis using sn(3) by simp
      qed
      moreover have "blk_free (b\<lparr>b_bitmap := pb'\<rparr>) = F - {?A ..< ?A + 2 ^ ?n}"
        using blk_free_remove[OF d(1), of pb' "b\<lparr>b_bitmap := pb\<rparr>" o'] pb'(3) F1 d(4) by simp
      moreover have "level_ok lo hi (b\<lparr>b_bitmap := pb'\<rparr>)"
      proof (rule level_ok_bitmap[OF ok pb'(2)])
        have "o' \<in> {o' ..< o' + d}" using d(1) by simp
        then have no: "\<not> {o' ..< o' + d} \<subseteq> free_blocks pb'" using pb'(3) by blast
        show "merged (b\<lparr>b_bitmap := pb'\<rparr>)"
          by (rule merged_insert[OF mg _ d_def o'd(1) _ no]) (use pb(3) pb'(3) o'd in auto)
      qed (use pb'(4) pb(4) in simp)
      moreover have "PushBlock a b = Some (?A, b\<lparr>b_bitmap := pb'\<rparr>)" using step pb'(1) wrap by simp
      moreover have "?A \<noteq> 0" using A(1) hi(1) by linarith
      ultimately show ?thesis using rng False by (intro disjI2 exI[of _ ?A] exI[of _ pb']) simp
    qed
  qed
qed

section \<open>Freeing merges upwards\<close>

lemma blocks_wfD:
  assumes "blocks_wf lo hi bs" "i < length bs"
  shows "level_ok lo hi (bs ! i)" "blk_free (bs ! i) \<subseteq> {lo ..< hi}"
    "blk_free (bs ! i) \<subseteq> heap_free bs"
proof -
  show "level_ok lo hi (bs ! i)" using assms by (simp add: blocks_wf_def list_all_length)
  show sub: "blk_free (bs ! i) \<subseteq> heap_free bs"
    unfolding heap_free_def using nth_mem[OF assms(2)] by (rule UN_upper)
  have "heap_free bs \<subseteq> {lo ..< hi}" using assms(1) by (simp add: blocks_wf_def)
  with sub show "blk_free (bs ! i) \<subseteq> {lo ..< hi}" by (rule subset_trans)
qed

lemma blocks_wf_disjoint:
  assumes "blocks_wf lo hi bs" "i < length bs" "j < length bs" "j \<noteq> i"
  shows "blk_free (bs ! i) \<inter> blk_free (bs ! j) = {}"
proof -
  have "blk_free (bs ! min i j) \<inter> blk_free (bs ! max i j) = {}"
    using assms by (simp add: blocks_wf_def min_def max_def)
  then show ?thesis by (cases "i \<le> j") (simp_all add: min_def max_def Int_commute)
qed

lemma heap_free_update:
  assumes "i < length bs"
  shows "heap_free (bs[i := b]) = (\<Union>j\<in>{..< length bs} - {i}. blk_free (bs ! j)) \<union> blk_free b"
  using assms by (auto simp: heap_free_def set_conv_nth nth_list_update split: if_splits)

lemma heap_free_nth: "heap_free bs = (\<Union>j\<in>{..< length bs}. blk_free (bs ! j))"
  by (auto simp: heap_free_def set_conv_nth)

text \<open>Replacing one level by one with the same geometry.\<close>

lemma blocks_wf_update:
  assumes wf: "blocks_wf lo hi bs" and i: "i < length bs"
    and ok: "level_ok lo hi ((bs ! i)\<lparr>b_bitmap := pb\<rparr>)"
    and new: "blk_free ((bs ! i)\<lparr>b_bitmap := pb\<rparr>) \<subseteq> blk_free (bs ! i) \<union> R" "R \<subseteq> {lo ..< hi}"
      "R \<inter> heap_free bs = {}"
  shows "blocks_wf lo hi (bs[i := (bs ! i)\<lparr>b_bitmap := pb\<rparr>])"
proof -
  let ?b = "(bs ! i)\<lparr>b_bitmap := pb\<rparr>" and ?bs = "bs[i := (bs ! i)\<lparr>b_bitmap := pb\<rparr>]"
  have sub: "blk_free (?bs ! j) \<subseteq> blk_free (bs ! j) \<union> (if j = i then R else {})" if "j < length bs" for j
    using new(1) i that by (simp add: nth_list_update)
  have old: "blk_free (bs ! j) \<subseteq> heap_free bs" if "j < length bs" for j
    using blocks_wfD(3)[OF wf that] .
  have "blk_free (?bs ! j) \<inter> blk_free (?bs ! k) = {}" if "j < k" "k < length bs" for j k
  proof -
    have "blk_free (bs ! j) \<inter> blk_free (bs ! k) = {}" using wf that by (simp add: blocks_wf_def)
    then show ?thesis using sub[of j] sub[of k] old[of j] old[of k] new(3) that
      by (auto split: if_splits; blast)
  qed
  moreover have "heap_free ?bs \<subseteq> {lo ..< hi}"
    using wf new(1,2) i old unfolding heap_free_update[OF i] by (fastforce simp: blocks_wf_def heap_free_nth)
  moreover have "list_all (level_ok lo hi) ?bs"
    using wf ok by (auto simp: blocks_wf_def intro: list_all_nth_update)
  moreover have "b_next_block_shift (?bs ! j) = (if Suc j < length ?bs then b_block_shift (?bs ! Suc j) else 0)"
    if "j < length bs" for j
  proof -
    have "b_next_block_shift (?bs ! j) = b_next_block_shift (bs ! j)" using i by (simp add: nth_list_update)
    moreover have "b_block_shift (?bs ! Suc j) = b_block_shift (bs ! Suc j)" using i by (simp add: nth_list_update)
    ultimately show ?thesis using wf that by (simp add: blocks_wf_def)
  qed
  ultimately show ?thesis using wf by (simp add: blocks_wf_def)
qed

definition same_shifts :: "Block list \<Rightarrow> Block list \<Rightarrow> bool" where
  "same_shifts bs bs' \<longleftrightarrow> map b_block_shift bs' = map b_block_shift bs"

lemma same_shiftsD: "same_shifts bs bs' \<Longrightarrow> length bs' = length bs"
  "same_shifts bs bs' \<Longrightarrow> i < length bs \<Longrightarrow> b_block_shift (bs' ! i) = b_block_shift (bs ! i)"
  unfolding same_shifts_def by (metis length_map, metis length_map nth_map)

lemma FreeBlock_ok:
  assumes "blocks_wf lo hi bs" "index < length bs" "2 ^ b_block_shift (bs ! index) dvd a"
    and "{a ..< a + 2 ^ b_block_shift (bs ! index)} \<subseteq> {lo ..< hi}"
    and "{a ..< a + 2 ^ b_block_shift (bs ! index)} \<inter> heap_free bs = {}"
  shows "\<exists>bs'. FreeBlock a index bs = Some bs' \<and> blocks_wf lo hi bs' \<and> same_shifts bs bs' \<and>
    heap_free bs' = heap_free bs \<union> {a ..< a + 2 ^ b_block_shift (bs ! index)}"
  using assms
proof (induction a index bs rule: FreeBlock.induct)
  case (1 a index bs)
  let ?b = "bs ! index"
  let ?R = "{a ..< a + 2 ^ b_block_shift ?b}" and ?n = "b_next_block_shift ?b"
  note wf = blocks_wfD[OF "1.prems"(1,2)]
  have lohi: "0 < lo" "hi < two64" using "1.prems"(1) by (auto simp: blocks_wf_def)
  have disj: "?R \<inter> blk_free ?b = {}" using "1.prems"(5) wf(3) by blast
  define F where "F = blk_free ?b \<union> ?R"
  note push = PushBlock_ok[OF wf(1) lohi "1.prems"(3,4) disj wf(2), folded F_def]
  have others: "heap_free (bs[index := ?b\<lparr>b_bitmap := pb\<rparr>]) \<union> X = heap_free bs \<union> ?R"
    if "blk_free (?b\<lparr>b_bitmap := pb\<rparr>) \<union> X = F" for pb X
    using that "1.prems"(2) unfolding heap_free_update[OF "1.prems"(2)] heap_free_nth[of bs] F_def
    by (auto split: if_splits)
  have upd: "blocks_wf lo hi (bs[index := ?b\<lparr>b_bitmap := pb\<rparr>])"
    if "level_ok lo hi (?b\<lparr>b_bitmap := pb\<rparr>)" "blk_free (?b\<lparr>b_bitmap := pb\<rparr>) \<subseteq> F" for pb
    using blocks_wf_update[OF "1.prems"(1,2) that(1) _ "1.prems"(4,5)] that(2) by (simp add: F_def)
  have shifts: "same_shifts bs (bs[index := ?b\<lparr>b_bitmap := pb\<rparr>])" for pb
    using "1.prems"(2) by (simp add: same_shifts_def list_eq_iff_nth_eq nth_list_update)
  from push show ?case
  proof (elim disjE exE conjE)
    fix pb assume p: "PushBlock a ?b = Some (0, ?b\<lparr>b_bitmap := pb\<rparr>)"
      "level_ok lo hi (?b\<lparr>b_bitmap := pb\<rparr>)" "blk_free (?b\<lparr>b_bitmap := pb\<rparr>) = F"
    then have "FreeBlock a index bs = Some (bs[index := ?b\<lparr>b_bitmap := pb\<rparr>])"
      using "1.prems"(2) by (simp add: FreeBlock.simps[of a])
    then show ?thesis using upd[OF p(2)] p(3) shifts others[of pb "{}"] by auto
  next
    fix A pb assume p: "PushBlock a ?b = Some (A, ?b\<lparr>b_bitmap := pb\<rparr>)" "A \<noteq> 0" "?n \<noteq> 0"
      "level_ok lo hi (?b\<lparr>b_bitmap := pb\<rparr>)" "2 ^ ?n dvd A" "{A ..< A + 2 ^ ?n} \<subseteq> F"
      "blk_free (?b\<lparr>b_bitmap := pb\<rparr>) = F - {A ..< A + 2 ^ ?n}"
    let ?bs = "bs[index := ?b\<lparr>b_bitmap := pb\<rparr>]" and ?A = "{A ..< A + 2 ^ ?n}"
    have nx: "Suc index < length bs" "b_block_shift (?bs ! Suc index) = ?n"
      using "1.prems"(1,2) p(3) by (auto simp: blocks_wf_def split: if_splits)
    have FR: "F \<subseteq> heap_free bs \<union> ?R" using wf(3) by (auto simp: F_def)
    have "heap_free bs \<subseteq> {lo ..< hi}" using "1.prems"(1) by (simp add: blocks_wf_def)
    then have A1: "?A \<subseteq> {lo ..< hi}" using p(6) FR "1.prems"(4) by blast
    have A2: "?A \<inter> heap_free ?bs = {}"
    proof -
      have "?A \<inter> blk_free (bs ! j) = {}" if "j < length bs" "j \<noteq> index" for j
      proof -
        have "blk_free ?b \<inter> blk_free (bs ! j) = {}"
          using blocks_wf_disjoint[OF "1.prems"(1,2) that(1)] that(2) by blast
        moreover have "?R \<inter> blk_free (bs ! j) = {}" using "1.prems"(5) blocks_wfD(3)[OF "1.prems"(1) that(1)] by blast
        ultimately show ?thesis using p(6) by (auto simp: F_def)
      qed
      then show ?thesis using p(7) unfolding heap_free_update[OF "1.prems"(2)] by auto
    qed
    have step: "FreeBlock a index bs = FreeBlock A (Suc index) ?bs"
      using "1.prems"(2) p(1,2) by (simp add: FreeBlock.simps[of a])
    have "\<exists>bs'. FreeBlock A (Suc index) ?bs = Some bs' \<and> blocks_wf lo hi bs' \<and> same_shifts ?bs bs' \<and>
      heap_free bs' = heap_free ?bs \<union> {A ..< A + 2 ^ b_block_shift (?bs ! Suc index)}"
    proof (rule "1.IH"[OF "1.prems"(2) p(1)])
      show "blocks_wf lo hi ?bs" using upd[OF p(4)] p(7) by blast
    qed (use p nx A1 A2 in simp_all)
    then obtain bs' where r: "FreeBlock A (Suc index) ?bs = Some bs'" "blocks_wf lo hi bs'"
      "same_shifts ?bs bs'" "heap_free bs' = heap_free ?bs \<union> ?A" using nx(2) by auto
    have "blk_free (?b\<lparr>b_bitmap := pb\<rparr>) \<union> ?A = F" using p(6,7) by blast
    from others[OF this] r(4) have "heap_free bs' = heap_free bs \<union> ?R" by simp
    moreover have "same_shifts bs bs'" using shifts[of pb] r(3) by (simp add: same_shifts_def)
    ultimately show ?thesis using step r(1,2) by simp
  qed
qed

section \<open>Freeing a range\<close>

text \<open>What each of the loops does to the blocks: they stay well-formed and gain the addresses \<open>R\<close>.\<close>

definition gains :: "nat \<Rightarrow> nat \<Rightarrow> Block list \<Rightarrow> nat set \<Rightarrow> Block list \<Rightarrow> bool" where
  "gains lo hi bs R bs' \<longleftrightarrow> blocks_wf lo hi bs' \<and> same_shifts bs bs' \<and> heap_free bs' = heap_free bs \<union> R"

lemma gains_refl: "blocks_wf lo hi bs \<Longrightarrow> gains lo hi bs {} bs"
  by (simp add: gains_def same_shifts_def)

lemma gains_trans:
  "gains lo hi bs R bs1 \<Longrightarrow> gains lo hi bs1 S bs2 \<Longrightarrow> T = R \<union> S \<Longrightarrow> gains lo hi bs T bs2"
  by (auto simp: gains_def same_shifts_def)

lemma gainsD:
  assumes "gains lo hi bs R bs'"
  shows "blocks_wf lo hi bs'" "length bs' = length bs" "heap_free bs' = heap_free bs \<union> R"
    "i < length bs \<Longrightarrow> b_block_shift (bs' ! i) = b_block_shift (bs ! i)"
  using assms same_shiftsD by (auto simp: gains_def)

text \<open>A range that can be freed.\<close>

definition freeable :: "nat \<Rightarrow> nat \<Rightarrow> Block list \<Rightarrow> nat \<Rightarrow> nat \<Rightarrow> bool" where
  "freeable lo hi bs a e \<longleftrightarrow> {a ..< e} \<subseteq> {lo ..< hi} \<and> {a ..< e} \<inter> heap_free bs = {}"

lemma freeable_gains:
  assumes "freeable lo hi bs a e" "gains lo hi bs R bs'" "R \<inter> {a' ..< e'} = {}" "a \<le> a'" "e' \<le> e"
  shows "freeable lo hi bs' a' e'"
proof -
  have "{a' ..< e'} \<subseteq> {a ..< e}" using assms(4,5) by auto
  with assms(1-3) show ?thesis unfolding freeable_def gains_def by blast
qed

lemma freeable_mono:
  assumes "freeable lo hi bs a e" "a \<le> a'" "e' \<le> e"
  shows "freeable lo hi bs a' e'"
proof -
  have "{a' ..< e'} \<subseteq> {a ..< e}" using assms(2,3) by auto
  with assms(1) show ?thesis unfolding freeable_def by blast
qed

lemma FreeBlock_gains:
  assumes "blocks_wf lo hi bs" "i < length bs" "w = 2 ^ b_block_shift (bs ! i)" "w dvd a"
    and "freeable lo hi bs a (a + w)"
  shows "\<exists>bs'. FreeBlock a i bs = Some bs' \<and> gains lo hi bs {a ..< a + w} bs'"
  using FreeBlock_ok[OF assms(1,2)] assms(3-5) by (auto simp: gains_def freeable_def)

lemma aligned_step: "(w :: nat) dvd a \<Longrightarrow> w dvd e \<Longrightarrow> a < e \<Longrightarrow> a + w \<le> e"
proof -
  assume "w dvd a" "w dvd e" "a < e"
  then have "w dvd e - a" "0 < e - a" by auto
  then have "w \<le> e - a" by (rule dvd_imp_le)
  then show ?thesis using \<open>a < e\<close> by simp
qed

lemma free_big_ok:
  assumes "blocks_wf lo hi bs" "i < length bs" "w = 2 ^ b_block_shift (bs ! i)" "w dvd a" "w dvd e" "a \<le> e"
    and "freeable lo hi bs a e"
  shows "\<exists>bs'. free_big a e w i bs = Some bs' \<and> gains lo hi bs {a ..< e} bs'"
  using assms
proof (induction a e w i bs rule: free_big.induct)
  case (1 a e w i bs)
  show ?case
  proof (cases "a < e")
    case False
    then show ?thesis using "1.prems"(6) gains_refl[OF "1.prems"(1)] by (simp add: free_big.simps[of e e])
  next
    case True
    have le: "a + w \<le> e" using aligned_step "1.prems"(4,5) True by blast
    then have "freeable lo hi bs a (a + w)" using freeable_mono[OF "1.prems"(7)] by simp
    then obtain bs1 where b: "FreeBlock a i bs = Some bs1" "gains lo hi bs {a ..< a + w} bs1"
      using FreeBlock_gains[OF "1.prems"(1-4)] by blast
    note g = gainsD[OF b(2)]
    have c: "a < e \<and> 0 < w" using True "1.prems"(3) by simp
    have "\<exists>bs'. free_big (a + w) e w i bs1 = Some bs' \<and> gains lo hi bs1 {a + w ..< e} bs'"
      by (rule "1.IH"[OF c b(1)])
        (use g "1.prems" le freeable_gains[OF "1.prems"(7) b(2), of "a + w" e] in auto)
    then obtain bs' where "free_big (a + w) e w i bs1 = Some bs'" "gains lo hi bs1 {a + w ..< e} bs'" by blast
    moreover have "{a ..< e} = {a ..< a + w} \<union> {a + w ..< e}" using le by auto
    ultimately show ?thesis using b c gains_trans[OF b(2)] by (simp add: free_big.simps[of a])
  qed
qed

lemma free_before_ok:
  assumes "blocks_wf lo hi bs" "i < length bs" "w = 2 ^ b_block_shift (bs ! i)" "w dvd e" "s \<le> e"
    and "freeable lo hi bs s e"
  shows "\<exists>e' bs'. free_before s e w i bs = Some (e', bs') \<and> gains lo hi bs {e' ..< e} bs' \<and>
    s \<le> e' \<and> e' < s + w \<and> e' \<le> e \<and> w dvd e'"
  using assms
proof (induction s e w i bs rule: free_before.induct)
  case (1 s e w i bs)
  have w: "0 < w" using "1.prems"(3) by simp
  show ?case
  proof (cases "s + w \<le> e")
    case False
    then show ?thesis using "1.prems"(4,5) gains_refl[OF "1.prems"(1)] by (simp add: free_before.simps[of s e])
  next
    case True
    have "freeable lo hi bs (e - w) (e - w + w)" using freeable_mono[OF "1.prems"(6)] True by simp
    moreover have "w dvd e - w" using "1.prems"(4) by simp
    ultimately obtain bs1 where b: "FreeBlock (e - w) i bs = Some bs1" "gains lo hi bs {e - w ..< e - w + w} bs1"
      using FreeBlock_gains[OF "1.prems"(1-3)] by blast
    note g = gainsD[OF b(2)]
    have c: "s + w \<le> e \<and> 0 < w" using True w by simp
    have "\<exists>e' bs'. free_before s (e - w) w i bs1 = Some (e', bs') \<and> gains lo hi bs1 {e' ..< e - w} bs' \<and>
        s \<le> e' \<and> e' < s + w \<and> e' \<le> e - w \<and> w dvd e'"
      by (rule "1.IH"[OF c b(1)])
        (use g "1.prems" True freeable_gains[OF "1.prems"(6) b(2), of s "e - w"] in auto)
    then obtain e' bs' where r: "free_before s (e - w) w i bs1 = Some (e', bs')"
      "gains lo hi bs1 {e' ..< e - w} bs'" "s \<le> e'" "e' < s + w" "e' \<le> e - w" "w dvd e'" by blast
    have "{e' ..< e} = {e - w ..< e - w + w} \<union> {e' ..< e - w}" using True r(5) by auto
    from gains_trans[OF b(2) r(2) this] r c b(1) show ?thesis
      by (simp add: free_before.simps[of s])
  qed
qed

lemma free_after_ok:
  assumes "blocks_wf lo hi bs" "i < length bs" "w = 2 ^ b_block_shift (bs ! i)" "w dvd s" "s \<le> e"
    and "freeable lo hi bs s e"
  shows "\<exists>s' bs'. free_after s e w i bs = Some (s', bs') \<and> gains lo hi bs {s ..< s'} bs' \<and>
    s \<le> s' \<and> s' \<le> e \<and> e < s' + w \<and> w dvd s'"
  using assms
proof (induction s e w i bs rule: free_after.induct)
  case (1 s e w i bs)
  have w: "0 < w" using "1.prems"(3) by simp
  show ?case
  proof (cases "s + w \<le> e")
    case False
    then show ?thesis using "1.prems"(4,5) gains_refl[OF "1.prems"(1)] by (simp add: free_after.simps[of s e])
  next
    case True
    have "freeable lo hi bs s (s + w)" using freeable_mono[OF "1.prems"(6)] True by simp
    then obtain bs1 where b: "FreeBlock s i bs = Some bs1" "gains lo hi bs {s ..< s + w} bs1"
      using FreeBlock_gains[OF "1.prems"(1-4)] by blast
    note g = gainsD[OF b(2)]
    have c: "s + w \<le> e \<and> 0 < w" using True w by simp
    have "\<exists>s' bs'. free_after (s + w) e w i bs1 = Some (s', bs') \<and> gains lo hi bs1 {s + w ..< s'} bs' \<and>
        s + w \<le> s' \<and> s' \<le> e \<and> e < s' + w \<and> w dvd s'"
      by (rule "1.IH"[OF c b(1)])
        (use g "1.prems" True freeable_gains[OF "1.prems"(6) b(2), of "s + w" e] in auto)
    then obtain s' bs' where r: "free_after (s + w) e w i bs1 = Some (s', bs')"
      "gains lo hi bs1 {s + w ..< s'} bs'" "s + w \<le> s'" "s' \<le> e" "e < s' + w" "w dvd s'" by blast
    have "{s ..< s'} = {s ..< s + w} \<union> {s + w ..< s'}" using r(3) by auto
    from gains_trans[OF b(2) r(2) this] r c b(1) show ?thesis
      by (auto simp: free_after.simps[of s])
  qed
qed

text \<open>The rest of the range before and after the big blocks, down to the smallest size.\<close>

definition sizes_ok :: "nat \<Rightarrow> nat \<Rightarrow> Block list \<Rightarrow> bool" where
  "sizes_ok lo hi bs \<longleftrightarrow> blocks_wf lo hi bs \<and> bs \<noteq> [] \<and> b_block_shift (bs ! 0) = 12"

lemma sizes_ok_gains: "sizes_ok lo hi bs \<Longrightarrow> gains lo hi bs R bs' \<Longrightarrow> sizes_ok lo hi bs'"
  using gainsD[of lo hi bs R bs'] by (auto simp: sizes_ok_def)

lemma size_dvd_next:
  assumes "blocks_wf lo hi bs" "Suc i < length bs"
  shows "(2 :: nat) ^ b_block_shift (bs ! i) dvd 2 ^ b_block_shift (bs ! Suc i)"
proof -
  have "b_next_block_shift (bs ! i) = b_block_shift (bs ! Suc i)" using assms by (simp add: blocks_wf_def)
  moreover have "0 < b_next_block_shift (bs ! i) \<Longrightarrow> b_block_shift (bs ! i) < b_next_block_shift (bs ! i)"
    using blocks_wfD(1)[OF assms(1), of i] assms(2) by (simp add: level_ok_def)
  moreover have "0 < b_block_shift (bs ! Suc i)"
    using blocks_wfD(1)[OF assms] by (simp add: level_ok_def)
  ultimately show ?thesis by (intro le_imp_power_dvd) auto
qed

lemma size_dvd:
  assumes "blocks_wf lo hi bs" "i \<le> j" "j < length bs"
  shows "(2 :: nat) ^ b_block_shift (bs ! i) dvd 2 ^ b_block_shift (bs ! j)"
  using assms(2,3)
proof (induction rule: dec_induct)
  case (step n)
  then show ?case using size_dvd_next[OF assms(1), of n] dvd_trans by auto
qed simp

lemma free_before_all_ok:
  assumes "sizes_ok lo hi bs" "n \<le> length bs" "s \<le> e" "PageSize dvd s" "freeable lo hi bs s e"
    and "if n = 0 then e = s else 2 ^ b_block_shift (bs ! (n - 1)) dvd e"
  shows "\<exists>bs'. free_before_all n s e bs = Some bs' \<and> gains lo hi bs {s ..< e} bs'"
  using assms
proof (induction n arbitrary: e bs)
  case 0
  then show ?case using gains_refl[of lo hi bs] by (simp add: sizes_ok_def)
next
  case (Suc i)
  let ?w = "2 ^ b_block_shift (bs ! i) :: nat"
  have wf: "blocks_wf lo hi bs" and i: "i < length bs" using Suc.prems by (auto simp: sizes_ok_def)
  obtain e' bs1 where r: "free_before s e ?w i bs = Some (e', bs1)" "gains lo hi bs {e' ..< e} bs1"
    "s \<le> e'" "e' < s + ?w" "e' \<le> e" "?w dvd e'"
    using free_before_ok[OF wf i refl _ Suc.prems(3,5)] Suc.prems(6) by auto
  note g = gainsD[OF r(2)]
  have "if i = 0 then e' = s else 2 ^ b_block_shift (bs1 ! (i - 1)) dvd e'"
  proof (cases i)
    case 0
    then have "?w = PageSize" using Suc.prems(1) by (simp add: sizes_ok_def PageSize_def)
    then show ?thesis using 0 aligned_step[of PageSize s e'] Suc.prems(4) r(3,4,6) by force
  next
    case (Suc k)
    then show ?thesis using size_dvd_next[OF wf, of k] i g(4)[of k] r(6) dvd_trans by auto
  qed
  then have "\<exists>bs'. free_before_all i s e' bs1 = Some bs' \<and> gains lo hi bs1 {s ..< e'} bs'"
    using Suc.IH[of bs1 e'] Suc.prems(1,2,4,5) g(2) r(2,3,5) sizes_ok_gains
      freeable_gains[OF Suc.prems(5) r(2), of s e'] by auto
  then obtain bs' where b: "free_before_all i s e' bs1 = Some bs'" "gains lo hi bs1 {s ..< e'} bs'" by blast
  have "{s ..< e} = {e' ..< e} \<union> {s ..< e'}" using r(3,5) by auto
  from gains_trans[OF r(2) b(2) this] b(1) r(1) show ?case by (simp add: Block_GetSize_def)
qed

lemma free_after_all_ok:
  assumes "sizes_ok lo hi bs" "n \<le> length bs" "s \<le> e" "PageSize dvd e" "freeable lo hi bs s e"
    and "if n = 0 then e = s else 2 ^ b_block_shift (bs ! (n - 1)) dvd s"
  shows "\<exists>bs'. free_after_all n s e bs = Some bs' \<and> gains lo hi bs {s ..< e} bs'"
  using assms
proof (induction n arbitrary: s bs)
  case 0
  then show ?case using gains_refl[of lo hi bs] by (simp add: sizes_ok_def)
next
  case (Suc i)
  let ?w = "2 ^ b_block_shift (bs ! i) :: nat"
  have wf: "blocks_wf lo hi bs" and i: "i < length bs" using Suc.prems by (auto simp: sizes_ok_def)
  obtain s' bs1 where r: "free_after s e ?w i bs = Some (s', bs1)" "gains lo hi bs {s ..< s'} bs1"
    "s \<le> s'" "s' \<le> e" "e < s' + ?w" "?w dvd s'"
    using free_after_ok[OF wf i refl _ Suc.prems(3,5)] Suc.prems(6) by auto
  note g = gainsD[OF r(2)]
  have "if i = 0 then e = s' else 2 ^ b_block_shift (bs1 ! (i - 1)) dvd s'"
  proof (cases i)
    case 0
    then have "?w = PageSize" using Suc.prems(1) by (simp add: sizes_ok_def PageSize_def)
    then show ?thesis using 0 aligned_step[of PageSize s' e] Suc.prems(4) r(4,5,6) by force
  next
    case (Suc k)
    then show ?thesis using size_dvd_next[OF wf, of k] i g(4)[of k] r(6) dvd_trans by auto
  qed
  then have "\<exists>bs'. free_after_all i s' e bs1 = Some bs' \<and> gains lo hi bs1 {s' ..< e} bs'"
    using Suc.IH[of bs1 s'] Suc.prems(1,2,4,5) g(2) r(2,3,4) sizes_ok_gains
      freeable_gains[OF Suc.prems(5) r(2), of s' e] by auto
  then obtain bs' where b: "free_after_all i s' e bs1 = Some bs'" "gains lo hi bs1 {s' ..< e} bs'" by blast
  have "{s ..< e} = {s ..< s'} \<union> {s' ..< e}" using r(3,4) by auto
  from gains_trans[OF r(2) b(2) this] b(1) r(1) show ?case by (simp add: Block_GetSize_def)
qed

lemma find_big_ok:
  assumes "0 < n" "b_block_shift (bs ! 0) = 12" "PageSize dvd s" "PageSize dvd e" "s < e"
  shows "\<exists>i<n. find_big n s e bs = Some i \<and>
    AlignUp s (2 ^ b_block_shift (bs ! i)) < AlignDown e (2 ^ b_block_shift (bs ! i))"
  using assms
proof (induction n)
  case (Suc i)
  have zero: "AlignUp s (2 ^ 12) = s" "AlignDown e (2 ^ 12) = e"
    using Suc.prems(3,4) AlignUp_aligned AlignDown_aligned by (simp_all add: PageSize_def)
  show ?case
  proof (cases "AlignUp s (2 ^ b_block_shift (bs ! i)) < AlignDown e (2 ^ b_block_shift (bs ! i))")
    case True
    then show ?thesis by (intro exI[of _ i]) (simp add: Let_def Block_GetSize_def)
  next
    case False
    then have "i \<noteq> 0" using zero Suc.prems(2,5) by (cases i) auto
    then show ?thesis using Suc.IH Suc.prems False by (auto simp: Let_def Block_GetSize_def intro: less_SucI)
  qed
qed simp

lemma align_inside:
  fixes w :: nat
  assumes "0 < w" "e + w < two64" "s \<le> e"
  shows "s \<le> AlignUp s w" "w dvd AlignUp s w" "w dvd AlignDown e w" "AlignDown e w \<le> e"
proof -
  have e: "AlignDown e w \<le> e" by (rule AlignDown_le)
  have s: "AlignDown s w + w < two64" using AlignDown_le[of s w] assms(2,3) by linarith
  show "s \<le> AlignUp s w" "w dvd AlignUp s w" using AlignUp_ge[OF assms(1) s] AlignUp_dvd[OF s] by auto
  show "w dvd AlignDown e w" by (rule AlignDown_dvd)
  show "AlignDown e w \<le> e" by (rule e)
qed

lemma free_pages_in_ok:
  assumes ok: "sizes_ok lo hi bs" and n: "n = length bs" and al: "PageSize dvd addr"
    and fr: "freeable lo hi bs addr (addr + num_pages * PageSize)"
  shows "\<exists>bs'. free_pages_in addr num_pages n bs = Some bs' \<and>
    gains lo hi bs {addr ..< addr + num_pages * PageSize} bs'"
proof (cases "num_pages = 0")
  case True
  then show ?thesis using gains_refl[of lo hi bs] ok by (simp add: free_pages_in_def sizes_ok_def)
next
  case False
  define e where "e = addr + num_pages * PageSize"
  have wf: "blocks_wf lo hi bs" using ok by (simp add: sizes_ok_def)
  have lt: "addr < e" using False by (simp add: e_def)
  have "{addr ..< e} \<subseteq> {lo ..< hi}" using fr by (simp add: freeable_def e_def)
  then have e: "lo \<le> addr" "e \<le> hi" using lt by (simp_all add: atLeastLessThan_subset_iff)
  have "e < two64" using e(2) wf by (simp add: blocks_wf_def)
  then have ea: "add64 addr (mul64 num_pages PageSize) = e" by (simp add: e_def add64_eq mul64_eq)
  have ed: "PageSize dvd e" using al by (simp add: e_def)
  have fr': "freeable lo hi bs addr e" using fr by (simp add: e_def)
  obtain i where i: "i < n" "find_big n addr e bs = Some i"
    "AlignUp addr (2 ^ b_block_shift (bs ! i)) < AlignDown e (2 ^ b_block_shift (bs ! i))"
    using find_big_ok[OF _ _ al ed lt, of n bs] ok n by (auto simp: sizes_ok_def)
  define w where "w = (2 :: nat) ^ b_block_shift (bs ! i)"
  define p q where "p = AlignUp addr w" and "q = AlignDown e w"
  have w: "0 < w" "e + w < two64"
    using blocks_wfD(1)[OF wf, of i] i(1) n e(2) by (auto simp: level_ok_def w_def)
  note pq = align_inside[OF w less_imp_le[OF lt], folded p_def q_def]
  have lpq: "p < q" using i(3) by (simp add: p_def q_def w_def)
  have fst: "w = PageSize" if "i = 0" using that ok by (simp add: sizes_ok_def w_def PageSize_def)
  have prev: "2 ^ b_block_shift (bs ! (i - 1)) dvd w" if "i \<noteq> 0"
    using size_dvd[OF wf, of "i - 1" i] i(1) n by (simp add: w_def)
  obtain bs1 where b1: "free_big p q w i bs = Some bs1" "gains lo hi bs {p ..< q} bs1"
    using free_big_ok[OF wf _ w_def pq(2,3) less_imp_le[OF lpq] freeable_mono[OF fr' pq(1,4)]] i(1) n by auto
  note g1 = gainsD[OF b1(2)]
  have "\<exists>bs2. free_before_all i addr p bs1 = Some bs2 \<and> gains lo hi bs1 {addr ..< p} bs2"
  proof (rule free_before_all_ok[OF sizes_ok_gains[OF ok b1(2)] _ pq(1) al])
    show "freeable lo hi bs1 addr p" by (rule freeable_gains[OF fr' b1(2)]) (use lpq pq in auto)
    show "if i = 0 then p = addr else 2 ^ b_block_shift (bs1 ! (i - 1)) dvd p"
      using fst prev g1(4)[of "i - 1"] i(1) n pq(2) AlignUp_aligned[OF al] dvd_trans by (auto simp: p_def)
  qed (use i(1) n g1(2) in simp)
  then obtain bs2 where b2: "free_before_all i addr p bs1 = Some bs2" "gains lo hi bs1 {addr ..< p} bs2" by blast
  note g2 = gainsD[OF b2(2)]
  have g12: "gains lo hi bs {addr ..< q} bs2"
    by (rule gains_trans[OF b1(2) b2(2)]) (use lpq pq(1) in auto)
  have "\<exists>bs3. free_after_all i q e bs2 = Some bs3 \<and> gains lo hi bs2 {q ..< e} bs3"
  proof (rule free_after_all_ok[OF sizes_ok_gains[OF ok g12] _ pq(4) ed])
    show "freeable lo hi bs2 q e" by (rule freeable_gains[OF fr' g12]) (use lpq pq in auto)
    show "if i = 0 then e = q else 2 ^ b_block_shift (bs2 ! (i - 1)) dvd q"
      using fst prev gainsD(4)[OF g12, of "i - 1"] i(1) n pq(3) AlignDown_aligned[OF ed] dvd_trans
      by (auto simp: q_def)
  qed (use i(1) n g1(2) g2(2) in simp)
  then obtain bs3 where b3: "free_after_all i q e bs2 = Some bs3" "gains lo hi bs2 {q ..< e} bs3" by blast
  have g: "gains lo hi bs {addr ..< e} bs3"
    by (rule gains_trans[OF g12 b3(2)]) (use lpq pq in auto)
  have "free_pages_in addr num_pages n bs = Some bs3"
    using False i(2) b1(1) b2(1) b3(1) unfolding free_pages_in_def ea Let_def Block_GetSize_def
    by (simp flip: w_def add: p_def[symmetric] q_def[symmetric])
  then show ?thesis using g by (simp add: e_def)
qed

section \<open>Allocating takes out one block\<close>

lemma PopBlock_ok:
  assumes ok: "level_ok lo hi b" and lohi: "0 < lo" "hi < two64" and sub: "blk_free b \<subseteq> {lo ..< hi}"
  shows "\<exists>a pb'. PopBlock random b = Some (a, b\<lparr>b_bitmap := pb'\<rparr>) \<and> level_ok lo hi (b\<lparr>b_bitmap := pb'\<rparr>) \<and>
    (if blk_free b = {} then a = 0 \<and> blk_free (b\<lparr>b_bitmap := pb'\<rparr>) = {}
     else a \<noteq> 0 \<and> 2 ^ b_block_shift b dvd a \<and> {a ..< a + 2 ^ b_block_shift b} \<subseteq> blk_free b \<and>
       blk_free (b\<lparr>b_bitmap := pb'\<rparr>) = blk_free b - {a ..< a + 2 ^ b_block_shift b})"
proof -
  let ?H = "b_heap_address b" and ?w = "2 ^ b_block_shift b :: nat"
  have wf: "bitmap_wf (b_bitmap b)" "merged b" "?w dvd ?H" using ok by (auto simp: level_ok_def)
  obtain r g where r: "FindFreeBlock random (b_bitmap b) = Some (r, b_bitmap b\<lparr>m_rng := g\<rparr>)"
    "case r of None \<Rightarrow> free_blocks (b_bitmap b) = {} | Some i \<Rightarrow> i \<in> free_blocks (b_bitmap b)"
    using FindFreeBlock_ok[OF wf(1), of random] by blast
  let ?pb = "b_bitmap b\<lparr>m_rng := g\<rparr>"
  have wf': "bitmap_wf ?pb" using wf(1) by (simp add: bitmap_wf_def)
  show ?thesis
  proof (cases r)
    case None
    then have "blk_free b = {}" "blk_free (b\<lparr>b_bitmap := ?pb\<rparr>) = {}" using r(2) by (simp_all add: blk_free_def)
    moreover have "level_ok lo hi (b\<lparr>b_bitmap := ?pb\<rparr>)"
      by (rule level_ok_bitmap[OF ok wf']) (use merged_remove[OF wf(2)] in simp_all)
    ultimately show ?thesis using None r(1)
      by (intro exI[of _ 0] exI[of _ ?pb]) (simp add: PopBlock_def)
  next
    case (Some off)
    then have off: "off \<in> free_blocks ?pb" using r(2) by simp
    obtain pb' where p: "ClearBit off ?pb = Some pb'" "bitmap_wf pb'"
      "free_blocks pb' = free_blocks ?pb - {off}"
      "leaf_count (m_bit_storages pb') = leaf_count (m_bit_storages ?pb)"
      using ClearBit_ok[OF wf' off] by blast
    let ?a = "?H + off * ?w"
    have rg: "{?a ..< ?a + ?w} \<subseteq> blk_free b"
      using blk_free_range[of 1 b off] off by (auto simp: blk_free_def)
    moreover have in1: "?a \<in> {?a ..< ?a + ?w}" by simp
    ultimately have a: "lo \<le> ?a" "?a < hi" using sub by (meson atLeastLessThan_iff subsetD)+
    then have wrap: "add64 ?H (mul64 off ?w) = ?a" using lohi(2) by (simp add: add64_eq mul64_eq)
    have "PopBlock random b = Some (?a, b\<lparr>b_bitmap := pb'\<rparr>)"
      using r(1) Some p(1) wrap by (simp add: PopBlock_def)
    moreover have "level_ok lo hi (b\<lparr>b_bitmap := pb'\<rparr>)"
      by (rule level_ok_bitmap[OF ok p(2)]) (use p(3,4) merged_remove[OF wf(2)] in auto)
    moreover have "blk_free (b\<lparr>b_bitmap := pb'\<rparr>) = blk_free b - {?a ..< ?a + ?w}"
      using blk_free_remove[of 1 pb' b off] p(3) by simp
    moreover have "blk_free b \<noteq> {}" using rg in1 by blast
    moreover have "?a \<noteq> 0" using a(1) lohi(1) by linarith
    moreover have "?w dvd ?a" using wf(3) by simp
    ultimately show ?thesis using rg by (intro exI[of _ ?a] exI[of _ pb']) simp
  qed
qed

text \<open>A heap in order: its blocks cover the heap's memory, the sizes start at a page.\<close>

definition heap_wf :: "KPageHeap \<Rightarrow> bool" where
  "heap_wf h \<longleftrightarrow> sizes_ok (h_heap_address h) (h_heap_address h + h_heap_size h) (h_blocks h) \<and>
     h_num_blocks h = length (h_blocks h)"

lemma PageHeap_Free_ok:
  assumes "heap_wf h" "PageSize dvd addr"
    and "freeable (h_heap_address h) (h_heap_address h + h_heap_size h) (h_blocks h) addr
      (addr + num_pages * PageSize)"
  shows "\<exists>bs'. PageHeap_Free addr num_pages h = Some (h\<lparr>h_blocks := bs'\<rparr>) \<and> heap_wf (h\<lparr>h_blocks := bs'\<rparr>) \<and>
    heap_free bs' = heap_free (h_blocks h) \<union> {addr ..< addr + num_pages * PageSize} \<and>
    same_shifts (h_blocks h) bs'"
proof -
  let ?lo = "h_heap_address h" and ?hi = "h_heap_address h + h_heap_size h"
  have ok: "sizes_ok ?lo ?hi (h_blocks h)" and n: "h_num_blocks h = length (h_blocks h)"
    using assms(1) by (auto simp: heap_wf_def)
  obtain bs' where b: "free_pages_in addr num_pages (h_num_blocks h) (h_blocks h) = Some bs'"
    "gains ?lo ?hi (h_blocks h) {addr ..< addr + num_pages * PageSize} bs'"
    using free_pages_in_ok[OF ok n assms(2,3)] by blast
  then show ?thesis using sizes_ok_gains[OF ok b(2)] gainsD[OF b(2)] n
    by (auto simp: PageHeap_Free_def heap_wf_def gains_def)
qed

lemma heap_wf_remove:
  assumes wf: "heap_wf h" and i: "i < length (h_blocks h)"
    and ok: "level_ok (h_heap_address h) (h_heap_address h + h_heap_size h) ((h_blocks h ! i)\<lparr>b_bitmap := pb\<rparr>)"
    and R: "R \<subseteq> blk_free (h_blocks h ! i)"
    and new: "blk_free ((h_blocks h ! i)\<lparr>b_bitmap := pb\<rparr>) = blk_free (h_blocks h ! i) - R"
  defines "bs' \<equiv> (h_blocks h)[i := (h_blocks h ! i)\<lparr>b_bitmap := pb\<rparr>]"
  shows "heap_wf (h\<lparr>h_blocks := bs'\<rparr>)" "heap_free bs' = heap_free (h_blocks h) - R"
    "same_shifts (h_blocks h) bs'"
proof -
  let ?bs = "h_blocks h"
  have bw: "blocks_wf (h_heap_address h) (h_heap_address h + h_heap_size h) ?bs"
    using wf by (simp add: heap_wf_def sizes_ok_def)
  show sh: "same_shifts ?bs bs'" using i by (simp add: bs'_def same_shifts_def list_eq_iff_nth_eq nth_list_update)
  have "blocks_wf (h_heap_address h) (h_heap_address h + h_heap_size h) bs'"
    unfolding bs'_def by (rule blocks_wf_update[OF bw i ok, of "{}"]) (use new in auto)
  then show "heap_wf (h\<lparr>h_blocks := bs'\<rparr>)"
    using wf same_shiftsD[OF sh] by (auto simp: heap_wf_def sizes_ok_def)
  have "R \<inter> blk_free (?bs ! j) = {}" if "j < length ?bs" "j \<noteq> i" for j
    using blocks_wf_disjoint[OF bw i that] R by blast
  then show "heap_free bs' = heap_free ?bs - R"
    using i new unfolding bs'_def heap_free_update[OF i] heap_free_nth[of ?bs] by auto
qed

text \<open>Cutting the unused tail off an allocated block and freeing it.\<close>

lemma free_tail:
  assumes wf: "heap_wf h" and i: "i < length (h_blocks h)"
    and ok: "level_ok (h_heap_address h) (h_heap_address h + h_heap_size h) ((h_blocks h ! i)\<lparr>b_bitmap := pb\<rparr>)"
    and a: "PageSize dvd a" "a \<le> p" "PageSize dvd p - a"
      "{a ..< a + w} \<subseteq> blk_free (h_blocks h ! i)" "w = 2 ^ b_block_shift (h_blocks h ! i)"
    and new: "blk_free ((h_blocks h ! i)\<lparr>b_bitmap := pb\<rparr>) = blk_free (h_blocks h ! i) - {a ..< a + w}"
    and n: "p + n * PageSize \<le> a + w"
  defines "h1 \<equiv> h\<lparr>h_blocks := (h_blocks h)[i := (h_blocks h ! i)\<lparr>b_bitmap := pb\<rparr>]\<rparr>"
  shows "\<exists>bs'. PageHeap_Free p n h1 = Some (h1\<lparr>h_blocks := bs'\<rparr>) \<and> heap_wf (h1\<lparr>h_blocks := bs'\<rparr>) \<and>
    heap_free bs' = heap_free (h_blocks h) - {a ..< a + w} \<union> {p ..< p + n * PageSize} \<and>
    same_shifts (h_blocks h) bs'"
proof -
  note r = heap_wf_remove[OF wf i ok a(4) new]
  have bw: "blocks_wf (h_heap_address h) (h_heap_address h + h_heap_size h) (h_blocks h)"
    using wf by (simp add: heap_wf_def sizes_ok_def)
  have al: "PageSize dvd p" using dvd_add[OF a(1,3)] a(2) by simp
  have sub: "{p ..< p + n * PageSize} \<subseteq> {a ..< a + w}" using a(2) n by auto
  have h1: "h_heap_address h1 = h_heap_address h" "h_heap_size h1 = h_heap_size h"
    "heap_free (h_blocks h1) = heap_free (h_blocks h) - {a ..< a + w}" using r(2) by (simp_all add: h1_def)
  have "freeable (h_heap_address h1) (h_heap_address h1 + h_heap_size h1) (h_blocks h1) p (p + n * PageSize)"
    unfolding freeable_def h1 using sub subset_trans[OF a(4) blocks_wfD(2)[OF bw i]] by blast
  from PageHeap_Free_ok[OF r(1)[folded h1_def] al this] r(2,3) show ?thesis
    by (auto simp: h1_def same_shifts_def)
qed

lemma page_dvd_size:
  assumes "blocks_wf lo hi bs" "i < length bs"
  shows "PageSize dvd 2 ^ b_block_shift (bs ! i)"
proof -
  have "12 \<le> b_block_shift (bs ! i)" using blocks_wfD(1)[OF assms] by (simp add: level_ok_def)
  then have "(2 :: nat) ^ 12 dvd 2 ^ b_block_shift (bs ! i)" by (rule le_imp_power_dvd)
  then show ?thesis by (simp add: PageSize_def)
qed

lemma linear_search_ok:
  assumes "heap_wf h" "index \<le> i" "index < length (h_blocks h)"
    and "w = 2 ^ b_block_shift (h_blocks h ! index)"
  shows "\<exists>a bs'. linear_search i w h = Some (a, h\<lparr>h_blocks := bs'\<rparr>) \<and> heap_wf (h\<lparr>h_blocks := bs'\<rparr>) \<and>
    same_shifts (h_blocks h) bs' \<and>
    (if \<forall>j. i \<le> j \<and> j < length (h_blocks h) \<longrightarrow> blk_free (h_blocks h ! j) = {}
     then a = 0 \<and> heap_free bs' = heap_free (h_blocks h)
     else a \<noteq> 0 \<and> w dvd a \<and> {a ..< a + w} \<subseteq> heap_free (h_blocks h) \<and>
       heap_free bs' = heap_free (h_blocks h) - {a ..< a + w})"
  using assms
proof (induction "length (h_blocks h) - i" arbitrary: i h)
  case 0
  then have "\<not> i < length (h_blocks h)" by simp
  then show ?case using 0(2)
    by (intro exI[of _ 0] exI[of _ "h_blocks h"]) (auto simp: linear_search.simps[of i] same_shifts_def)
next
  case (Suc k)
  let ?bs = "h_blocks h" and ?lo = "h_heap_address h" and ?hi = "h_heap_address h + h_heap_size h"
  have i: "i < length ?bs" "i < h_num_blocks h" using Suc(2,3) by (auto simp: heap_wf_def)
  have bw: "blocks_wf ?lo ?hi ?bs" using Suc(3) by (simp add: heap_wf_def sizes_ok_def)
  then have lohi: "0 < ?lo" "?hi < two64" by (auto simp: blocks_wf_def)
  note wf = blocks_wfD[OF bw i(1)]
  let ?W = "2 ^ b_block_shift (?bs ! i) :: nat"
  obtain a pb where p: "PopBlock False (?bs ! i) = Some (a, (?bs ! i)\<lparr>b_bitmap := pb\<rparr>)"
    "level_ok ?lo ?hi ((?bs ! i)\<lparr>b_bitmap := pb\<rparr>)"
    "if blk_free (?bs ! i) = {} then a = 0 \<and> blk_free ((?bs ! i)\<lparr>b_bitmap := pb\<rparr>) = {}
     else a \<noteq> 0 \<and> ?W dvd a \<and> {a ..< a + ?W} \<subseteq> blk_free (?bs ! i) \<and>
       blk_free ((?bs ! i)\<lparr>b_bitmap := pb\<rparr>) = blk_free (?bs ! i) - {a ..< a + ?W}"
    using PopBlock_ok[OF wf(1) lohi wf(2), of False] by blast
  let ?h1 = "h\<lparr>h_blocks := ?bs[i := (?bs ! i)\<lparr>b_bitmap := pb\<rparr>]\<rparr>"
  show ?case
  proof (cases "blk_free (?bs ! i) = {}")
    case True
    then have e: "a = 0" "blk_free ((?bs ! i)\<lparr>b_bitmap := pb\<rparr>) = blk_free (?bs ! i) - {}" using p(3) by auto
    note r = heap_wf_remove[OF Suc(3) i(1) p(2) _ e(2)]
    have same: "blk_free (h_blocks ?h1 ! j) = blk_free (?bs ! j)" if "j < length ?bs" for j
      using e(2) i(1) that by (cases "j = i") simp_all
    have step: "linear_search i w h = linear_search (Suc i) w ?h1"
      using i p(1) e(1) by (simp add: linear_search.simps[of i] Let_def)
    have shift: "w = 2 ^ b_block_shift (h_blocks ?h1 ! index)" using Suc(5,6) same_shiftsD(2)[OF r(3)] by simp
    have all: "(\<forall>j. Suc i \<le> j \<and> j < length (h_blocks ?h1) \<longrightarrow> blk_free (h_blocks ?h1 ! j) = {}) \<longleftrightarrow>
      (\<forall>j. i \<le> j \<and> j < length ?bs \<longrightarrow> blk_free (?bs ! j) = {})"
      (is "(\<forall>j. ?L j) \<longleftrightarrow> (\<forall>j. ?R j)")
    proof (intro iff_allI)
      fix j show "?L j = ?R j"
      proof (cases "j = i")
        case False
        then have "Suc i \<le> j \<longleftrightarrow> i \<le> j" by auto
        then show ?thesis using same[of j] by auto
      qed (use True in simp)
    qed
    have k: "k = length (h_blocks ?h1) - Suc i" and le: "index \<le> Suc i" "index < length (h_blocks ?h1)"
      using Suc(2,4,5) by simp_all
    define C where "C \<longleftrightarrow> (\<forall>j. i \<le> j \<and> j < length ?bs \<longrightarrow> blk_free (?bs ! j) = {})"
    obtain a' bs' where x: "linear_search (Suc i) w ?h1 = Some (a', ?h1\<lparr>h_blocks := bs'\<rparr>)"
      "heap_wf (?h1\<lparr>h_blocks := bs'\<rparr>)" "same_shifts (h_blocks ?h1) bs'"
      "if C then a' = 0 \<and> heap_free bs' = heap_free (h_blocks ?h1)
       else a' \<noteq> 0 \<and> w dvd a' \<and> {a' ..< a' + w} \<subseteq> heap_free (h_blocks ?h1) \<and>
         heap_free bs' = heap_free (h_blocks ?h1) - {a' ..< a' + w}"
      using Suc(1)[OF k r(1) le shift, unfolded all, folded C_def] by blast
    show ?thesis unfolding step C_def[symmetric]
      using x r(2,3) by (intro exI[of _ a'] exI[of _ bs']) (cases C; simp add: same_shifts_def)
  next
    case False
    then have q: "a \<noteq> 0" "?W dvd a" "{a ..< a + ?W} \<subseteq> blk_free (?bs ! i)"
      "blk_free ((?bs ! i)\<lparr>b_bitmap := pb\<rparr>) = blk_free (?bs ! i) - {a ..< a + ?W}" using p(3) by auto
    have wd: "w dvd ?W" using size_dvd[OF bw Suc(4) i(1)] Suc(6) by simp
    then have wle: "w \<le> ?W" by (simp add: dvd_imp_le)
    have pw: "PageSize dvd w" "PageSize dvd ?W" using page_dvd_size[OF bw] Suc(5,6) i(1) by auto
    have sub: "{a ..< a + ?W} \<subseteq> heap_free ?bs" using q(3) wf(3) by blast
    have ne: "\<not> (\<forall>j. i \<le> j \<and> j < length ?bs \<longrightarrow> blk_free (?bs ! j) = {})" using False i(1) by blast
    have asub: "{a ..< a + w} \<subseteq> {a ..< a + ?W}" using wle by auto
    define n where "n = (?W - w) div PageSize"
    have nP: "n * PageSize = ?W - w" using pw by (simp add: n_def)
    have "0 < ?W" by simp
    then have "a + (?W - 1) \<in> {a ..< a + ?W}" unfolding atLeastLessThan_iff by linarith
    then have "a + (?W - 1) < ?hi" using q(3) wf(2) by (meson atLeastLessThan_iff subsetD)
    then have "a + w < two64" using wle lohi(2) by linarith
    then have wrap: "add64 a w = a + w" by (rule add64_eq)
    show ?thesis
    proof (cases "w < ?W")
      case True
      obtain bs' where f: "PageHeap_Free (a + w) n ?h1 = Some (?h1\<lparr>h_blocks := bs'\<rparr>)"
        "heap_wf (?h1\<lparr>h_blocks := bs'\<rparr>)"
        "heap_free bs' = heap_free ?bs - {a ..< a + ?W} \<union> {a + w ..< a + w + n * PageSize}"
        "same_shifts ?bs bs'"
        using free_tail[OF Suc(3) i(1) p(2) _ _ _ q(3) refl q(4), of "a + w" n] pw q(2) nP wle dvd_trans
        by auto
      have "heap_free bs' = heap_free ?bs - {a ..< a + w}" using f(3) nP wle sub by auto
      moreover have "linear_search i w h = Some (a, h\<lparr>h_blocks := bs'\<rparr>)"
        using i p(1) q(1) True f(1) wrap by (simp add: linear_search.simps[of i] Let_def Block_GetSize_def n_def)
      ultimately show ?thesis using f(2,4) q(1) ne dvd_trans[OF wd q(2)] subset_trans[OF asub sub]
        by (intro exI[of _ a] exI[of _ bs'] conjI) (simp_all only: if_False simp_thms, simp)
    next
      case eq: False
      then have W: "w = ?W" using wle by simp
      note r = heap_wf_remove[OF Suc(3) i(1) p(2) q(3,4)]
      have "linear_search i w h = Some (a, ?h1)"
        using i p(1) q(1) W by (simp add: linear_search.simps[of i] Let_def Block_GetSize_def)
      then show ?thesis using r q(1,2) ne sub W
        by (intro exI[of _ a] exI[of _ "h_blocks ?h1"]) auto
    qed
  qed
qed

section \<open>Allocating at a random place\<close>

lemma PageHeap_Free_none: "PageHeap_Free p 0 h = Some h"
  by (simp add: PageHeap_Free_def free_pages_in_def)

lemma carve_ok:
  assumes wf: "heap_wf h" and al: "PageSize dvd a" "PageSize dvd ro" "PageSize dvd w" "PageSize dvd W"
    and le: "ro + w \<le> W"
    and fr: "freeable (h_heap_address h) (h_heap_address h + h_heap_size h) (h_blocks h) a (a + W)"
  shows "\<exists>h2 bs'. PageHeap_Free a (ro div PageSize) h = Some h2 \<and>
    PageHeap_Free (a + ro + w) ((W - w - ro) div PageSize) h2 = Some (h\<lparr>h_blocks := bs'\<rparr>) \<and>
    heap_wf (h\<lparr>h_blocks := bs'\<rparr>) \<and> same_shifts (h_blocks h) bs' \<and>
    heap_free bs' = heap_free (h_blocks h) \<union> ({a ..< a + W} - {a + ro ..< a + ro + w})"
proof -
  let ?lo = "h_heap_address h" and ?hi = "h_heap_address h + h_heap_size h"
  have ro: "ro div PageSize * PageSize = ro" using al(2) by simp
  have rest: "(W - w - ro) div PageSize * PageSize = W - w - ro" using al by simp
  have fr1: "freeable ?lo ?hi (h_blocks h) a (a + ro div PageSize * PageSize)"
    by (rule freeable_mono[OF fr]) (use le ro in auto)
  obtain bs1 where b1: "PageHeap_Free a (ro div PageSize) h = Some (h\<lparr>h_blocks := bs1\<rparr>)"
    "heap_wf (h\<lparr>h_blocks := bs1\<rparr>)" "heap_free bs1 = heap_free (h_blocks h) \<union> {a ..< a + ro}"
    "same_shifts (h_blocks h) bs1" using PageHeap_Free_ok[OF wf al(1) fr1] ro by auto
  have sub: "{a + ro + w ..< a + W} \<subseteq> {a ..< a + W}" by auto
  have "{a + ro + w ..< a + W} \<inter> {a ..< a + ro} = {}" by auto
  then have "freeable ?lo ?hi bs1 (a + ro + w) (a + W)"
    using fr sub unfolding freeable_def b1(3) by blast
  moreover have "a + ro + w + (W - w - ro) div PageSize * PageSize = a + W" using rest le by simp
  ultimately obtain bs2 where b2: "PageHeap_Free (a + ro + w) ((W - w - ro) div PageSize) (h\<lparr>h_blocks := bs1\<rparr>)
      = Some (h\<lparr>h_blocks := bs2\<rparr>)" "heap_wf (h\<lparr>h_blocks := bs2\<rparr>)"
    "heap_free bs2 = heap_free bs1 \<union> {a + ro + w ..< a + W}" "same_shifts bs1 bs2"
    using PageHeap_Free_ok[OF b1(2), of "a + ro + w" "(W - w - ro) div PageSize"] al by auto
  have "{a ..< a + ro} \<union> {a + ro + w ..< a + W} = {a ..< a + W} - {a + ro ..< a + ro + w}" using le by auto
  then have "heap_free bs2 = heap_free (h_blocks h) \<union> ({a ..< a + W} - {a + ro ..< a + ro + w})"
    using b1(3) b2(3) by auto
  then show ?thesis using b1(1,4) b2(1,2,4) by (auto simp: same_shifts_def)
qed

lemma GenerateRandom_less:
  assumes "m < two64" "0 < m" "GenerateRandom (word_of_nat m) g = (r, g')"
  shows "unat r < m"
proof -
  obtain x where "r = x - (x div word_of_nat m) * word_of_nat m"
    using assms(3) by (auto simp: GenerateRandom_def Let_def split: prod.splits)
  then have "r = x mod word_of_nat m" by (simp add: minus_div_mult_eq_mod)
  moreover have "unat (word_of_nat m :: u64) = m" using assms(1) by (simp add: unat_of_nat two64_def)
  ultimately show ?thesis using assms(2) by (simp add: unat_mod)
qed

lemma pick_block_in: "pick_block is n sh rnd p bs index \<in> insert index (set is)"
  by (induction "is" arbitrary: p) (auto simp: Let_def)

lemma count_alignments_le:
  "count_alignments is n sh p bs m = (q, m') \<Longrightarrow> (\<And>i. i \<in> set is \<Longrightarrow> i < m) \<Longrightarrow> m' \<le> m"
  by (induction "is" arbitrary: p) (auto simp: Let_def Suc_le_eq split: if_splits)

text \<open>The choice of a level stays among the levels at or above the requested one.\<close>

lemma chosen_level:
  assumes "index < n" "count_alignments [index ..< n] w sh 0 bs n = (possible, mx)"
    and "(if possible > 0 \<and> index + 1 < mx
          then let (rnd, g') = GenerateRandom (word_of_nat possible) g
               in (pick_block [index ..< mx] w sh (unat rnd) 0 bs index, g')
          else (index, g)) = (i, g1)"
  shows "index \<le> i \<and> i < n"
proof -
  have "mx \<le> n" using count_alignments_le[OF assms(2)] by simp
  moreover have "i \<in> insert index (set [index ..< mx])"
    using assms(3) pick_block_in by (force split: if_splits prod.splits)
  ultimately show ?thesis using assms(1) by auto
qed

lemma heap_wf_rng [simp]: "heap_wf (h\<lparr>h_rng := g\<rparr>) = heap_wf h"
  by (simp add: heap_wf_def)

lemma random_carve_ok:
  assumes wf: "heap_wf h1" and al: "PageSize dvd a" "2 ^ sh dvd a" "PageSize dvd 2 ^ sh" "PageSize dvd w" "PageSize dvd W"
    and le: "w \<le> W" "0 < W" and hi: "W + (h_heap_address h1 + h_heap_size h1) < two64"
    and fr: "freeable (h_heap_address h1) (h_heap_address h1 + h_heap_size h1) (h_blocks h1) a (a + W)"
  shows "\<exists>a' g' bs'.
    (if sub64 W w > 0 then
       let (r, g') = GenerateRandom (word_of_nat (add64 1 (sub64 W w div 2 ^ sh))) g;
           ro = mul64 (unat r) (2 ^ sh); a' = add64 a ro
       in do {
         h2 \<leftarrow> (if ro \<noteq> 0 then PageHeap_Free a (ro div PageSize) (h1\<lparr>h_rng := g'\<rparr>) else Some (h1\<lparr>h_rng := g'\<rparr>));
         h3 \<leftarrow> (if ro \<noteq> sub64 W w then PageHeap_Free (add64 a' w) (sub64 (sub64 W w) ro div PageSize) h2 else Some h2);
         Some (a', h3)
       }
     else Some (a, h1)) = Some (a', h1\<lparr>h_rng := g', h_blocks := bs'\<rparr>) \<and>
    a \<le> a' \<and> a' + w \<le> a + W \<and> 2 ^ sh dvd a' \<and> heap_wf (h1\<lparr>h_rng := g', h_blocks := bs'\<rparr>) \<and>
    same_shifts (h_blocks h1) bs' \<and>
    heap_free bs' = heap_free (h_blocks h1) \<union> ({a ..< a + W} - {a' ..< a' + w})"
proof -
  let ?hi = "h_heap_address h1 + h_heap_size h1"
  have sub: "sub64 W w = W - w" using le hi by (simp add: sub64_eq)
  show ?thesis
  proof (cases "W - w = 0")
    case True
    then have "W = w" using le by simp
    then show ?thesis using True sub wf al(2)
      by (intro exI[of _ a] exI[of _ "h_rng h1"] exI[of _ "h_blocks h1"]) (simp add: same_shifts_def)
  next
    case False
    define m where "m = 1 + (W - w) div 2 ^ sh"
    obtain r g' where r: "GenerateRandom (word_of_nat m) g = (r, g')" by fastforce
    have "(W - w) div 2 ^ sh \<le> W - w" by simp
    have "(4096 :: nat) \<le> 2 ^ sh" using dvd_imp_le[OF al(3)] by (simp add: PageSize_def)
    then have "(W - w) div 2 ^ sh \<le> (W - w) div 4096" by (intro div_le_mono2) auto
    then have m: "m < two64" using hi by (simp add: m_def two64_def)
    have rm: "unat r < m" by (rule GenerateRandom_less[OF m _ r]) (simp add: m_def)
    define ro where "ro = unat r * 2 ^ sh"
    have "unat r \<le> (W - w) div 2 ^ sh" using rm by (simp add: m_def)
    then have "ro \<le> (W - w) div 2 ^ sh * 2 ^ sh" unfolding ro_def by (rule mult_le_mono1)
    then have ro: "ro \<le> W - w" by (meson div_times_less_eq_dividend le_trans)
    have "a + (W - 1) \<in> {a ..< a + W}" using le(2) by simp
    then have "a + (W - 1) < ?hi" using fr unfolding freeable_def by (meson atLeastLessThan_iff subsetD)
    then have aW: "a + W < two64" using hi by linarith
    have e: "mul64 (unat r) (2 ^ sh) = ro" "add64 a ro = a + ro" "add64 (a + ro) w = a + ro + w"
      "sub64 (W - w) ro = W - w - ro" "add64 1 ((W - w) div 2 ^ sh) = m"
      using ro aW le m by (simp_all add: mul64_eq add64_eq sub64_eq ro_def[symmetric] m_def)
    have rod: "PageSize dvd ro" "2 ^ sh dvd ro" using al(3) by (auto simp: ro_def)
    have wf': "heap_wf (h1\<lparr>h_rng := g'\<rparr>)" using wf by simp
    have rw: "ro + w \<le> W" using ro le(1) by simp
    obtain h2 bs' where c: "PageHeap_Free a (ro div PageSize) (h1\<lparr>h_rng := g'\<rparr>) = Some h2"
      "PageHeap_Free (a + ro + w) ((W - w - ro) div PageSize) h2 = Some (h1\<lparr>h_rng := g', h_blocks := bs'\<rparr>)"
      "heap_wf (h1\<lparr>h_rng := g', h_blocks := bs'\<rparr>)" "same_shifts (h_blocks h1) bs'"
      "heap_free bs' = heap_free (h_blocks h1) \<union> ({a ..< a + W} - {a + ro ..< a + ro + w})"
      using carve_ok[OF wf' al(1) rod(1) al(4,5) rw] fr by auto
    have e2: "(if ro \<noteq> 0 then PageHeap_Free a (ro div PageSize) (h1\<lparr>h_rng := g'\<rparr>) else Some (h1\<lparr>h_rng := g'\<rparr>)) = Some h2"
      using c(1) PageHeap_Free_none[of a] by auto
    have e3: "(if ro \<noteq> W - w then PageHeap_Free (a + ro + w) ((W - w - ro) div PageSize) h2 else Some h2)
      = Some (h1\<lparr>h_rng := g', h_blocks := bs'\<rparr>)"
      using c(2) PageHeap_Free_none[of "a + ro + w"] by auto
    have pos: "(0 < W - w) = True" using False by simp
    show ?thesis
      by (intro exI[of _ "a + ro"] exI[of _ g'] exI[of _ bs'] conjI)
        (simp_all only: sub e r Let_def prod.case e2 e3 Option.bind.simps pos if_True,
          use rw c(3,4,5) rod(2) al(2) in auto)
  qed
qed

lemma AllocateByRandom_ok:
  assumes wf: "heap_wf h" and ix: "index < length (h_blocks h)"
    and w: "w = num_pages * PageSize" "w \<le> 2 ^ b_block_shift (h_blocks h ! index)"
    and sh: "sh = countr_zero (word_of_nat (mul64 align_pages PageSize))" "12 \<le> sh"
      "sh \<le> b_block_shift (h_blocks h ! index)"
  shows "\<exists>a g bs'. AllocateByRandom index num_pages align_pages h = Some (a, h\<lparr>h_rng := g, h_blocks := bs'\<rparr>) \<and>
    heap_wf (h\<lparr>h_rng := g, h_blocks := bs'\<rparr>) \<and> same_shifts (h_blocks h) bs' \<and>
    (a = 0 \<and> heap_free bs' = heap_free (h_blocks h) \<or>
     a \<noteq> 0 \<and> 2 ^ sh dvd a \<and> {a ..< a + w} \<subseteq> heap_free (h_blocks h) \<and>
       heap_free bs' = heap_free (h_blocks h) - {a ..< a + w})"
proof -
  let ?bs = "h_blocks h" and ?lo = "h_heap_address h" and ?hi = "h_heap_address h + h_heap_size h"
  have n: "h_num_blocks h = length ?bs" and bw: "blocks_wf ?lo ?hi ?bs"
    using wf by (auto simp: heap_wf_def sizes_ok_def)
  have lohi: "0 < ?lo" "?hi < two64" using bw by (auto simp: blocks_wf_def)
  obtain possible mx where c: "count_alignments [index ..< length ?bs] w sh 0 ?bs (length ?bs) = (possible, mx)"
    by fastforce
  obtain i g where p: "(if possible > 0 \<and> index + 1 < mx
      then let (rnd, g') = GenerateRandom (word_of_nat possible) (h_rng h)
           in (pick_block [index ..< mx] w sh (unat rnd) 0 ?bs index, g')
      else (index, h_rng h)) = (i, g)" by fastforce
  have i: "index \<le> i" "i < length ?bs" using chosen_level[OF ix c p] by auto
  define W where "W = (2 :: nat) ^ b_block_shift (?bs ! i)"
  have WI: "2 ^ b_block_shift (?bs ! index) dvd W" using size_dvd[OF bw i] by (simp add: W_def)
  have shW: "2 ^ sh dvd W" by (rule dvd_trans[OF le_imp_power_dvd[OF sh(3)] WI])
  have W: "w \<le> W" "W + ?hi < two64" "PageSize dvd W" "PageSize dvd w" "PageSize dvd 2 ^ sh"
  proof -
    have "2 ^ b_block_shift (?bs ! index) \<le> W" by (rule dvd_imp_le[OF WI]) (simp add: W_def)
    then show "w \<le> W" using w(2) by simp
    show "W + ?hi < two64" using blocks_wfD(1)[OF bw i(2)] by (simp add: level_ok_def W_def add.commute)
    show "PageSize dvd W" using page_dvd_size[OF bw i(2)] by (simp add: W_def)
    show "PageSize dvd 2 ^ sh" using le_imp_power_dvd[OF sh(2), of "2 :: nat"] by (simp add: PageSize_def)
  qed (simp add: w(1))
  have w64: "mul64 num_pages PageSize = w" using w(1) W(1,2) by (simp add: mul64_eq)
  note lv = blocks_wfD[OF bw i(2)]
  obtain a pb where pop: "PopBlock True (?bs ! i) = Some (a, (?bs ! i)\<lparr>b_bitmap := pb\<rparr>)"
    "level_ok ?lo ?hi ((?bs ! i)\<lparr>b_bitmap := pb\<rparr>)"
    "if blk_free (?bs ! i) = {} then a = 0 \<and> blk_free ((?bs ! i)\<lparr>b_bitmap := pb\<rparr>) = {}
     else a \<noteq> 0 \<and> W dvd a \<and> {a ..< a + W} \<subseteq> blk_free (?bs ! i) \<and>
       blk_free ((?bs ! i)\<lparr>b_bitmap := pb\<rparr>) = blk_free (?bs ! i) - {a ..< a + W}"
    using PopBlock_ok[OF lv(1) lohi lv(2), of True] unfolding W_def by blast
  let ?bs1 = "?bs[i := (?bs ! i)\<lparr>b_bitmap := pb\<rparr>]"
  let ?h1 = "h\<lparr>h_blocks := ?bs1, h_rng := g\<rparr>"
  have GS: "Block_GetSize ((?bs ! i)\<lparr>b_bitmap := pb\<rparr>) = W" by (simp add: Block_GetSize_def W_def)
  have red: "AllocateByRandom index num_pages align_pages h =
    (if a \<noteq> 0 then
       if sub64 W w > 0 then
         let (r, g') = GenerateRandom (word_of_nat (add64 1 (sub64 W w div 2 ^ sh))) g;
             ro = mul64 (unat r) (2 ^ sh); a' = add64 a ro
         in do {
           h2 \<leftarrow> (if ro \<noteq> 0 then PageHeap_Free a (ro div PageSize) (?h1\<lparr>h_rng := g'\<rparr>) else Some (?h1\<lparr>h_rng := g'\<rparr>));
           h3 \<leftarrow> (if ro \<noteq> sub64 W w then PageHeap_Free (add64 a' w) (sub64 (sub64 W w) ro div PageSize) h2 else Some h2);
           Some (a', h3)
         }
       else Some (a, ?h1)
     else Some (0, ?h1))"
    unfolding AllocateByRandom_def Let_def w64 n sh(1)[symmetric] c prod.case p[unfolded Let_def]
    by (simp only: i(2) pop(1) GS Option.bind.simps prod.case simp_thms if_False)
  show ?thesis
  proof (cases "blk_free (?bs ! i) = {}")
    case True
    then have e: "a = 0" "blk_free ((?bs ! i)\<lparr>b_bitmap := pb\<rparr>) = blk_free (?bs ! i) - {}" using pop(3) by auto
    note r = heap_wf_remove[OF wf i(2) pop(2) _ e(2)]
    show ?thesis using red e(1) r by (intro exI[of _ 0] exI[of _ g] exI[of _ ?bs1]) (auto simp: heap_wf_def)
  next
    case False
    then have q: "a \<noteq> 0" "W dvd a" "{a ..< a + W} \<subseteq> blk_free (?bs ! i)"
      "blk_free ((?bs ! i)\<lparr>b_bitmap := pb\<rparr>) = blk_free (?bs ! i) - {a ..< a + W}" using pop(3) by auto
    note r = heap_wf_remove[OF wf i(2) pop(2) q(3,4)]
    have sub: "{a ..< a + W} \<subseteq> heap_free ?bs" using q(3) lv(3) by (rule subset_trans)
    have wf1: "heap_wf ?h1" using r(1) by (simp add: heap_wf_def)
    have fr: "freeable ?lo ?hi ?bs1 a (a + W)"
      using subset_trans[OF q(3) lv(2)] r(2) unfolding freeable_def by blast
    obtain a' g' bs' where c: "(if sub64 W w > 0 then
         let (r, g') = GenerateRandom (word_of_nat (add64 1 (sub64 W w div 2 ^ sh))) g;
             ro = mul64 (unat r) (2 ^ sh); a' = add64 a ro
         in do {
           h2 \<leftarrow> (if ro \<noteq> 0 then PageHeap_Free a (ro div PageSize) (?h1\<lparr>h_rng := g'\<rparr>) else Some (?h1\<lparr>h_rng := g'\<rparr>));
           h3 \<leftarrow> (if ro \<noteq> sub64 W w then PageHeap_Free (add64 a' w) (sub64 (sub64 W w) ro div PageSize) h2 else Some h2);
           Some (a', h3)
         }
       else Some (a, ?h1)) = Some (a', ?h1\<lparr>h_rng := g', h_blocks := bs'\<rparr>)"
      "a \<le> a'" "a' + w \<le> a + W" "2 ^ sh dvd a'" "heap_wf (?h1\<lparr>h_rng := g', h_blocks := bs'\<rparr>)"
      "same_shifts ?bs1 bs'" "heap_free bs' = heap_free ?bs1 \<union> ({a ..< a + W} - {a' ..< a' + w})"
      using random_carve_ok[OF wf1 _ dvd_trans[OF shW q(2)] W(5,4,3,1), of g] W(2) fr
        dvd_trans[OF W(3) q(2)] W_def by auto
    have "heap_free bs' = heap_free ?bs - {a' ..< a' + w}" using c(2,3,7) r(2) sub by auto
    moreover have "{a' ..< a' + w} \<subseteq> heap_free ?bs" using sub c(2,3) by (rule_tac subset_trans) auto
    moreover have "same_shifts ?bs bs'" using c(6) r(3) by (simp add: same_shifts_def)
    moreover have "AllocateByRandom index num_pages align_pages h = Some (a', h\<lparr>h_rng := g', h_blocks := bs'\<rparr>)"
      using red q(1) c(1) by simp
    moreover have "heap_wf (h\<lparr>h_rng := g', h_blocks := bs'\<rparr>)" using c(5) by (simp add: heap_wf_def)
    moreover have "a' \<noteq> 0" using q(1) c(2) by linarith
    ultimately show ?thesis using c(4) by blast
  qed
qed

section \<open>A merged heap misses no block\<close>

text \<open>A free block of a level that meets an aligned range of that level's size is that range.\<close>

lemma blk_free_aligned:
  assumes ok: "level_ok lo hi b" and al: "2 ^ b_block_shift b dvd a" and a: "lo \<le> a"
    and x: "x \<in> {a ..< a + 2 ^ b_block_shift b}" "x \<in> blk_free b"
  shows "(a - b_heap_address b) div 2 ^ b_block_shift b \<in> free_blocks (b_bitmap b)"
proof -
  let ?H = "b_heap_address b" and ?w = "2 ^ b_block_shift b :: nat"
  have H: "?H \<le> a" "?w dvd ?H" using ok a by (auto simp: level_ok_def)
  obtain k where k: "a = ?H + k * ?w"
    using al H by (metis dvd_diff_nat dvd_div_mult_self le_add_diff_inverse)
  have "(x - ?H) div ?w = k" using div_in_range[of ?w ?H x k 1] x(1) H(1) k by (simp; linarith)
  then show ?thesis using x(2) k by (simp add: blk_free_def)
qed

lemma no_free_block_above:
  assumes wf: "blocks_wf lo hi bs"
  shows "k < length bs \<Longrightarrow> 2 ^ b_block_shift (bs ! k) dvd a \<Longrightarrow>
    {a ..< a + 2 ^ b_block_shift (bs ! k)} \<subseteq> heap_free bs \<Longrightarrow>
    \<exists>j. k \<le> j \<and> j < length bs \<and> blk_free (bs ! j) \<inter> {a ..< a + 2 ^ b_block_shift (bs ! k)} \<noteq> {}"
proof (induction k arbitrary: a)
  case 0
  have "a \<in> heap_free bs" using 0(3) by auto
  then show ?case using 0 by (force simp: heap_free_nth)
next
  case (Suc k)
  let ?b = "bs ! k" and ?W = "2 ^ b_block_shift (bs ! Suc k) :: nat" and ?w = "2 ^ b_block_shift (bs ! k) :: nat"
  let ?d = "2 ^ (b_block_shift (bs ! Suc k) - b_block_shift ?b) :: nat"
  show ?case
  proof (rule ccontr)
    assume none: "\<not> ?case"
    have kl: "k < length bs" using Suc.prems(1) by simp
    have ok: "level_ok lo hi ?b" using blocks_wfD(1)[OF wf kl] .
    have nx: "b_next_block_shift ?b = b_block_shift (bs ! Suc k)" using wf kl Suc.prems(1) by (simp add: blocks_wf_def)
    have sh: "b_block_shift ?b < b_block_shift (bs ! Suc k)" "0 < b_block_shift (bs ! Suc k)"
      using ok nx blocks_wfD(1)[OF wf Suc.prems(1)] by (auto simp: level_ok_def)
    have dw: "?d * ?w = ?W" using sh(1) by (simp flip: power_add)
    let ?H = "b_heap_address ?b"
    have "a \<in> heap_free bs" using Suc.prems(3) by auto
    then have lo: "lo \<le> a" using wf by (auto simp: blocks_wf_def)
    have H: "?H \<le> a" "?W dvd ?H" using ok nx sh(2) lo by (auto simp: level_ok_def)
    obtain m where m: "a = ?H + m * ?W"
      using Suc.prems(2) H by (metis dvd_diff_nat dvd_div_mult_self le_add_diff_inverse)
    have "m * ?d + q \<in> free_blocks (b_bitmap ?b)" if q: "q < ?d" for q
    proof -
      let ?a = "a + q * ?w"
      have "(q + 1) * ?w \<le> ?d * ?w" using q by (intro mult_le_mono1) simp
      then have sub: "{?a ..< ?a + ?w} \<subseteq> {a ..< a + ?W}" using dw by auto
      have al: "?w dvd ?a" using size_dvd_next[OF wf Suc.prems(1)] Suc.prems(2) dvd_trans by (intro dvd_add) auto
      obtain j where j: "k \<le> j" "j < length bs" "blk_free (bs ! j) \<inter> {?a ..< ?a + ?w} \<noteq> {}"
        using Suc.IH[OF kl al subset_trans[OF sub Suc.prems(3)]] by blast
      have "j = k" using none j sub by (cases "j = k") (auto 4 4 simp: Suc_le_eq)
      then obtain x where x: "x \<in> {?a ..< ?a + ?w}" "x \<in> blk_free ?b" using j(3) by blast
      have "(?a - ?H) div ?w \<in> free_blocks (b_bitmap ?b)"
        by (rule blk_free_aligned[OF ok al _ x]) (use lo in simp)
      moreover have "?a - ?H = (m * ?d + q) * ?w" using m by (simp add: algebra_simps flip: dw)
      ultimately show ?thesis by simp
    qed
    then have "{m * ?d ..< m * ?d + ?d} \<subseteq> free_blocks (b_bitmap ?b)"
      by (auto simp: range_subset_iff)
    moreover have "merged ?b" using ok by (simp add: level_ok_def)
    ultimately show False using sh(2) nx by (auto simp: merged_def)
  qed
qed

section \<open>Initialization\<close>

lemma cut_levels_rest:
  "cut_levels n sz storage L = Some (L', rest) \<Longrightarrow> set rest \<subseteq> set storage"
proof (induction n sz storage L rule: cut_levels.induct)
  case (2 depth sz storage levels)
  then show ?case using set_drop_subset by (fastforce simp: Let_def split: if_splits)
qed simp

lemma Initialize_rest:
  assumes "KPageBitmap_Initialize (replicate N 0) sz g = Some (pb, rest)"
  shows "rest = replicate (length rest) 0"
proof -
  have "set rest \<subseteq> {0}"
    using assms cut_levels_rest by (fastforce simp: KPageBitmap_Initialize_def split: if_splits option.splits prod.splits)
  then show ?thesis by (intro replicate_eqI) auto
qed

lemma Block_Initialize_ok:
  assumes init: "Block_Initialize addr sz s n (replicate N 0) g = Some (b, rest)"
    and s: "12 \<le> s" "s \<le> 30" "n = 0 \<or> s < n \<and> n < s + 6 \<and> n \<le> 30"
    and a: "0 < sz" "addr + sz + 2 ^ 31 < two64"
  shows "level_ok addr (addr + sz) b" "blk_free b = {}" "b_block_shift b = s" "b_next_block_shift b = n"
    "rest = replicate (length rest) 0"
proof -
  define al where "al = (if n \<noteq> 0 then 2 ^ n else 2 ^ s :: nat)"
  define H E where "H = AlignDown addr al" and "E = AlignUp (addr + sz) al"
  define eo where "eo = (E - H) div 2 ^ s"
  have pow: "(2 :: nat) ^ k \<le> 2 ^ 30" if "k \<le> 30" for k :: nat using that by (rule power_increasing) simp
  have "al \<le> 2 ^ 30" "(2 :: nat) ^ s \<le> 2 ^ 30" using s pow[of s] pow[of n] by (auto simp: al_def)
  then have al: "0 < al" "al \<le> 2 ^ 30" "2 ^ s dvd al" "(2 :: nat) ^ s \<le> 2 ^ 30"
    using s by (auto simp: al_def intro: le_imp_power_dvd)
  have E0: "AlignDown (addr + sz) al + al < two64"
    using AlignDown_le[of "addr + sz" al] al(2) a(2) by simp
  have E: "al dvd E" "addr + sz \<le> E" "E < two64"
    using AlignUp_dvd[OF E0] AlignUp_ge[OF al(1) E0] E0 AlignUp_aligned[of al "addr + sz"]
      AlignUp_unaligned[OF _ E0] a(2) by (auto simp: E_def) (cases "al dvd addr + sz"; simp)
  have H: "al dvd H" "H \<le> addr" by (auto simp: H_def AlignDown_dvd AlignDown_le)
  have dvdEH: "2 ^ s dvd E - H" "2 ^ s dvd H" using E(1) H(1) al(3) dvd_trans by (auto intro: dvd_diff_nat)
  then have eoE: "H + eo * 2 ^ s = E" using H(2) E(2) by (simp add: eo_def)
  have lt: "H < E" using H(2) E(2) a(1) by linarith
  have eo: "1 \<le> eo" using eoE lt by (cases eo) auto
  have "eo * 4096 \<le> eo * 2 ^ s" using power_increasing[OF s(1), of "2 :: nat"] by simp
  then have "eo * 4096 \<le> E" using eoE by linarith
  then have eo2: "eo + 128 < two64" using E(3) unfolding two64_def by linarith
  have "add64 addr sz = addr + sz" using a(2) by (simp add: add64_eq)
  moreover have "sub64 E H = E - H" using lt E(3) by (simp add: sub64_eq)
  ultimately obtain pb where pb: "KPageBitmap_Initialize (replicate N 0) eo g = Some (pb, rest)"
    "b = \<lparr>b_bitmap = pb, b_heap_address = H, b_end_offset = eo, b_block_shift = s, b_next_block_shift = n\<rparr>"
    using init by (auto simp: Block_Initialize_def Let_def eo_def E_def H_def al_def split: bind_splits prod.splits if_splits)
  note p = Initialize_ok[OF pb(1) eo eo2]
  show "b_block_shift b = s" "b_next_block_shift b = n" by (simp_all add: pb(2))
  show "blk_free b = {}" using p by (simp add: blk_free_def pb(2))
  show "rest = replicate (length rest) 0" by (rule Initialize_rest[OF pb(1)])
  have "merged b" using p by (auto simp: merged_def pb(2))
  moreover have "addr + sz \<le> H + leaf_count (m_bit_storages pb) * 2 ^ s"
  proof -
    have "eo * 2 ^ s \<le> leaf_count (m_bit_storages pb) * 2 ^ s" using p by (intro mult_le_mono1) simp
    then show ?thesis using eoE E(2) by linarith
  qed
  moreover have "n \<noteq> 0 \<Longrightarrow> 2 ^ n dvd H" using H(1) by (simp add: al_def)
  moreover have "addr + sz + 2 ^ s < two64" using al(4) a(2) by simp
  ultimately show "level_ok addr (addr + sz) b"
    using p s H(2) dvdEH(2) by (auto simp: level_ok_def pb(2))
qed

text \<open>Block shifts as the constant table has them: increasing by less than six, at most 30.\<close>

fun shifts_ok :: "nat list \<Rightarrow> bool" where
  "shifts_ok [] \<longleftrightarrow> True"
| "shifts_ok [s] \<longleftrightarrow> 12 \<le> s \<and> s \<le> 30"
| "shifts_ok (s # n # ss) \<longleftrightarrow> 12 \<le> s \<and> s < n \<and> n < s + 6 \<and> shifts_ok (n # ss)"

lemma shifts_ok_hd: "shifts_ok (s # ss) \<Longrightarrow> 12 \<le> s \<and> s \<le> 30"
  by (induction ss arbitrary: s) fastforce+

lemma shifts_ok_Cons:
  assumes "shifts_ok (s # ss)"
  shows "12 \<le> s" "s \<le> 30" "shifts_ok ss"
    "(if ss = [] then 0 else hd ss) = 0 \<or>
     s < (if ss = [] then 0 else hd ss) \<and> (if ss = [] then 0 else hd ss) < s + 6 \<and> (if ss = [] then 0 else hd ss) \<le> 30"
  using assms shifts_ok_hd[OF assms] shifts_ok_hd[of "hd ss" "tl ss"] by (cases ss; auto)+

lemma initialize_blocks_ok:
  assumes "initialize_blocks shifts addr sz (replicate N 0) gs = Some bs" "shifts_ok shifts"
    and "0 < sz" "addr + sz + 2 ^ 31 < two64"
  shows "length bs = length shifts \<and> (\<forall>i<length bs. level_ok addr (addr + sz) (bs ! i) \<and>
    blk_free (bs ! i) = {} \<and> b_block_shift (bs ! i) = shifts ! i \<and>
    b_next_block_shift (bs ! i) = (if Suc i < length shifts then shifts ! Suc i else 0))"
  using assms
proof (induction shifts arbitrary: N gs bs)
  case (Cons s ss)
  obtain g gs' b rest bs' where r: "gs = g # gs'"
    "Block_Initialize addr sz s (if ss = [] then 0 else hd ss) (replicate N 0) g = Some (b, rest)"
    "initialize_blocks ss addr sz rest gs' = Some bs'" "bs = b # bs'"
    using Cons.prems(1) by (auto split: list.splits bind_splits)
  note sh = shifts_ok_Cons[OF Cons.prems(2)]
  note b = Block_Initialize_ok[OF r(2) sh(1,2,4) Cons.prems(3,4)]
  have "initialize_blocks ss addr sz (replicate (length rest) 0) gs' = Some bs'" using r(3) b(5) by metis
  note ih = Cons.IH[OF this sh(3) Cons.prems(3,4)]
  show ?case unfolding r(4)
  proof (intro conjI allI impI)
    show "length (b # bs') = length (s # ss)" using ih by simp
    fix i assume i: "i < length (b # bs')"
    have "(if Suc i < length (s # ss) then (s # ss) ! Suc i else 0) = (if ss = [] then 0 else hd ss)" if "i = 0"
      using that by (cases ss) auto
    then show "level_ok addr (addr + sz) ((b # bs') ! i)" "blk_free ((b # bs') ! i) = {}"
      "b_block_shift ((b # bs') ! i) = (s # ss) ! i"
      "b_next_block_shift ((b # bs') ! i) = (if Suc i < length (s # ss) then (s # ss) ! Suc i else 0)"
      using b(1-4) ih i by (cases i; auto)+
  qed
qed simp

lemma PageHeap_Initialize_ok:
  assumes "PageHeap_Initialize addr sz m shifts gs g = Some h" "shifts_ok shifts" "shifts \<noteq> []" "hd shifts = 12"
    and "0 < addr" "0 < sz" "addr + sz + 2 ^ 31 < two64"
  shows "heap_wf h" "heap_free (h_blocks h) = {}" "h_heap_address h = addr" "h_heap_size h = sz"
    "map b_block_shift (h_blocks h) = shifts"
proof -
  obtain bs where bs: "initialize_blocks shifts addr sz (replicate (m div 8) 0) gs = Some bs"
    "h = \<lparr>h_heap_address = addr, h_heap_size = sz, h_initial_used_size = 0,
          h_num_blocks = length shifts, h_blocks = bs, h_rng = g\<rparr>"
    using assms(1) by (auto simp: PageHeap_Initialize_def split: bind_splits)
  note ok = initialize_blocks_ok[OF bs(1) assms(2,6,7)]
  then have len: "length bs = length shifts" by simp
  have empty: "heap_free bs = {}" using ok by (simp add: heap_free_nth)
  have "blocks_wf addr (addr + sz) bs"
    using ok empty assms(5,7) by (auto simp: blocks_wf_def list_all_length)
  moreover have "b_block_shift (bs ! 0) = 12" "bs \<noteq> []"
    using ok assms(3,4) by (auto simp: hd_conv_nth)
  ultimately show "heap_wf h" by (simp add: heap_wf_def sizes_ok_def bs(2) len)
  show "heap_free (h_blocks h) = {}" using empty by (simp add: bs(2))
  show "map b_block_shift (h_blocks h) = shifts" using ok by (simp add: bs(2) list_eq_iff_nth_eq)
qed (use assms(1) in \<open>auto simp: PageHeap_Initialize_def split: bind_splits\<close>)

section \<open>Allocating a block\<close>

lemma countr_zero_pow: "s < 64 \<Longrightarrow> countr_zero (word_of_nat (2 ^ s)) = s"
proof -
  assume s: "s < 64"
  have w: "(word_of_nat (2 ^ s) :: u64) = 2 ^ s" by simp
  have "bit (2 ^ s :: u64) s" using s by (simp add: bit_exp_iff)
  then have "(2 ^ s :: u64) \<noteq> 0" by force
  then have "bit (2 ^ s :: u64) (countr_zero (2 ^ s))" using countr_zero_set by blast
  then show ?thesis unfolding w by (simp add: bit_exp_iff)
qed

lemma AllocateBlock_ok:
  assumes wf: "heap_wf h" and ix: "index < length (h_blocks h)"
    and w: "w = 2 ^ b_block_shift (h_blocks h ! index)"
  shows "\<exists>a h'. AllocateBlock index random h = Some (a, h') \<and> heap_wf h' \<and>
    h_heap_address h' = h_heap_address h \<and> h_heap_size h' = h_heap_size h \<and>
    same_shifts (h_blocks h) (h_blocks h') \<and>
    (a = 0 \<and> heap_free (h_blocks h') = heap_free (h_blocks h) \<or>
     a \<noteq> 0 \<and> w dvd a \<and> {a ..< a + w} \<subseteq> heap_free (h_blocks h) \<and>
       heap_free (h_blocks h') = heap_free (h_blocks h) - {a ..< a + w})"
proof (cases random)
  case True
  let ?b = "h_blocks h ! index"
  have bw: "blocks_wf (h_heap_address h) (h_heap_address h + h_heap_size h) (h_blocks h)"
    using wf by (simp add: heap_wf_def sizes_ok_def)
  have b: "12 \<le> b_block_shift ?b" "w < two64"
    using blocks_wfD(1)[OF bw ix] w by (auto simp: level_ok_def)
  then have "(2 :: nat) ^ b_block_shift ?b < 2 ^ 64" using w unfolding two64_pow by simp
  then have s64: "b_block_shift ?b < 64" by (rule power_less_imp_less_exp[rotated]) simp
  have np: "Block_GetNumPages ?b * PageSize = w"
    using page_dvd_size[OF bw ix] by (simp add: Block_GetNumPages_def Block_GetSize_def w)
  then have "mul64 (Block_GetNumPages ?b) PageSize = w" using b(2) by (simp add: mul64_eq)
  then have sh: "b_block_shift ?b = countr_zero (word_of_nat (mul64 (Block_GetNumPages ?b) PageSize))"
    using countr_zero_pow[OF s64] w by simp
  obtain a g bs' where "AllocateByRandom index (Block_GetNumPages ?b) (Block_GetNumPages ?b) h
      = Some (a, h\<lparr>h_rng := g, h_blocks := bs'\<rparr>)" "heap_wf (h\<lparr>h_rng := g, h_blocks := bs'\<rparr>)"
    "same_shifts (h_blocks h) bs'"
    "a = 0 \<and> heap_free bs' = heap_free (h_blocks h) \<or>
     a \<noteq> 0 \<and> w dvd a \<and> {a ..< a + w} \<subseteq> heap_free (h_blocks h) \<and>
       heap_free bs' = heap_free (h_blocks h) - {a ..< a + w}"
    using AllocateByRandom_ok[OF wf ix np[symmetric] _ sh b(1) order_refl] w by auto
  then show ?thesis using True ix by (simp add: AllocateBlock_def Let_def)
next
  case False
  obtain a bs' where r: "linear_search index w h = Some (a, h\<lparr>h_blocks := bs'\<rparr>)" "heap_wf (h\<lparr>h_blocks := bs'\<rparr>)"
    "a = 0 \<and> heap_free bs' = heap_free (h_blocks h) \<or>
     a \<noteq> 0 \<and> w dvd a \<and> {a ..< a + w} \<subseteq> heap_free (h_blocks h) \<and>
       heap_free bs' = heap_free (h_blocks h) - {a ..< a + w}" "same_shifts (h_blocks h) bs'"
    using linear_search_ok[OF wf order_refl ix w] by (auto split: if_splits)
  then show ?thesis using False ix w
    by (simp add: AllocateBlock_def AllocateByLinearSearch_def Block_GetSize_def)
qed

text \<open>A linear search that finds nothing leaves no aligned free range of the requested size.\<close>

lemma linear_search_complete:
  assumes wf: "heap_wf h" and ix: "index < length (h_blocks h)"
    and w: "w = 2 ^ b_block_shift (h_blocks h ! index)"
    and none: "AllocateBlock index False h = Some (0, h')" and a: "w dvd a"
  shows "\<not> {a ..< a + w} \<subseteq> heap_free (h_blocks h)"
proof
  assume sub: "{a ..< a + w} \<subseteq> heap_free (h_blocks h)"
  have bw: "blocks_wf (h_heap_address h) (h_heap_address h + h_heap_size h) (h_blocks h)"
    using wf by (simp add: heap_wf_def sizes_ok_def)
  have "linear_search index w h = Some (0, h')"
    using none ix w by (simp add: AllocateBlock_def AllocateByLinearSearch_def Block_GetSize_def)
  then have "\<forall>j. index \<le> j \<and> j < length (h_blocks h) \<longrightarrow> blk_free (h_blocks h ! j) = {}"
    using linear_search_ok[OF wf order_refl ix w] by (auto split: if_splits)
  then show False using no_free_block_above[OF bw ix] a sub w by blast
qed

section \<open>Clients of the heap\<close>

text \<open>A client asks for blocks by size index and gives back blocks it holds.\<close>

datatype heap_op = AllocateOp nat bool | FreeOp nat

definition heap_step ::
  "(nat \<Rightarrow> bool \<Rightarrow> 's \<Rightarrow> (nat \<times> 's) option) \<Rightarrow> (nat \<Rightarrow> nat \<Rightarrow> 's \<Rightarrow> 's option) \<Rightarrow> heap_op \<Rightarrow>
   's \<times> (nat \<times> nat) list \<Rightarrow> ('s \<times> (nat \<times> nat) list) option" where
  "heap_step alloc release op st =
     (let (s, held) = st in
      case op of
        AllocateOp i random \<Rightarrow>
          map_option (\<lambda>(a, s'). (s', if a = 0 then held else (a, i) # held)) (alloc i random s)
      | FreeOp k \<Rightarrow>
          (if k < length held
           then map_option (\<lambda>s'. (s', take k held @ drop (Suc k) held))
                  (release (fst (held ! k)) (snd (held ! k)) s)
           else Some (s, held)))"

fun heap_run ::
  "(nat \<Rightarrow> bool \<Rightarrow> 's \<Rightarrow> (nat \<times> 's) option) \<Rightarrow> (nat \<Rightarrow> nat \<Rightarrow> 's \<Rightarrow> 's option) \<Rightarrow> heap_op list \<Rightarrow>
   's \<times> (nat \<times> nat) list \<Rightarrow> ('s \<times> (nat \<times> nat) list) option" where
  "heap_run alloc release [] st = Some st"
| "heap_run alloc release (op # ops) st =
     (case heap_step alloc release op st of None \<Rightarrow> None | Some st' \<Rightarrow> heap_run alloc release ops st')"

definition span :: "(nat \<Rightarrow> nat) \<Rightarrow> nat \<times> nat \<Rightarrow> nat set" where
  "span width x = {fst x ..< fst x + width (snd x)}"

fun apart :: "(nat \<Rightarrow> nat) \<Rightarrow> (nat \<times> nat) list \<Rightarrow> bool" where
  "apart width [] \<longleftrightarrow> True"
| "apart width (x # xs) \<longleftrightarrow> span width x \<inter> (\<Union>y\<in>set xs. span width y) = {} \<and> apart width xs"

lemma apart_split:
  "apart width (xs @ x # ys) \<longleftrightarrow>
     span width x \<inter> (\<Union>y\<in>set (xs @ ys). span width y) = {} \<and> apart width (xs @ ys)"
  by (induction xs) auto

text \<open>What a client relies on: an allocation takes a free range out, a release puts a range back.\<close>

locale range_heap =
  fixes wf :: "'s \<Rightarrow> bool" and avail :: "'s \<Rightarrow> nat set" and space :: "nat set"
    and count :: nat and width :: "nat \<Rightarrow> nat"
    and alloc :: "nat \<Rightarrow> bool \<Rightarrow> 's \<Rightarrow> (nat \<times> 's) option"
    and release :: "nat \<Rightarrow> nat \<Rightarrow> 's \<Rightarrow> 's option"
  assumes avail_in: "wf s \<Longrightarrow> avail s \<subseteq> space"
    and alloc_law: "wf s \<Longrightarrow> i < count \<Longrightarrow> \<exists>a s'. alloc i random s = Some (a, s') \<and> wf s' \<and>
      (a = 0 \<and> avail s' = avail s \<or>
       a \<noteq> 0 \<and> width i dvd a \<and> span width (a, i) \<subseteq> avail s \<and> avail s' = avail s - span width (a, i))"
    and release_law: "wf s \<Longrightarrow> i < count \<Longrightarrow> width i dvd a \<Longrightarrow> span width (a, i) \<subseteq> space \<Longrightarrow>
      span width (a, i) \<inter> avail s = {} \<Longrightarrow>
      \<exists>s'. release a i s = Some s' \<and> wf s' \<and> avail s' = avail s \<union> span width (a, i)"
begin

definition conserved :: "nat set \<Rightarrow> 's \<times> (nat \<times> nat) list \<Rightarrow> bool" where
  "conserved T st \<longleftrightarrow>
     (case st of (s, held) \<Rightarrow> wf s \<and> (\<forall>x\<in>set held. snd x < count \<and> width (snd x) dvd fst x) \<and>
        apart width held \<and> avail s \<inter> (\<Union>x\<in>set held. span width x) = {} \<and>
        avail s \<union> (\<Union>x\<in>set held. span width x) = T \<and> T \<subseteq> space)"

lemma step_conserves:
  assumes c: "conserved T (s, held)" and op: "\<And>i r. op = AllocateOp i r \<Longrightarrow> i < count"
  shows "\<exists>st'. heap_step alloc release op (s, held) = Some st' \<and> conserved T st'"
proof (cases op)
  case (AllocateOp i r)
  obtain a s' where a: "alloc i r s = Some (a, s')" "wf s'"
    "a = 0 \<and> avail s' = avail s \<or>
     a \<noteq> 0 \<and> width i dvd a \<and> span width (a, i) \<subseteq> avail s \<and> avail s' = avail s - span width (a, i)"
    using alloc_law[of s i r] c op[OF AllocateOp] by (auto simp: conserved_def)
  have st: "heap_step alloc release op (s, held) = Some (s', if a = 0 then held else (a, i) # held)"
    using a(1) AllocateOp by (simp add: heap_step_def)
  show ?thesis using a(3)
  proof (elim disjE conjE)
    assume "a = 0" "avail s' = avail s"
    then show ?thesis using st c a(2) by (simp add: conserved_def)
  next
    assume b: "a \<noteq> 0" "width i dvd a" "span width (a, i) \<subseteq> avail s" "avail s' = avail s - span width (a, i)"
    have "conserved T (s', (a, i) # held)"
      using c a(2) b op[OF AllocateOp] by (auto simp: conserved_def)
    then show ?thesis using st b(1) by simp
  qed
next
  case (FreeOp k)
  show ?thesis
  proof (cases "k < length held")
    case True
    obtain xs x ys where h: "held = xs @ x # ys" "take k held = xs" "drop (Suc k) held = ys" "held ! k = x"
      using id_take_nth_drop[OF True] by blast
    have xs: "span width x \<inter> avail s = {}" "snd x < count" "width (snd x) dvd fst x" "span width x \<subseteq> space"
      using c h(1) by (auto simp: conserved_def)
    obtain s' where s': "release (fst x) (snd x) s = Some s'" "wf s'" "avail s' = avail s \<union> span width x"
      using release_law[of s "snd x" "fst x"] c xs by (auto simp: conserved_def)
    define U where "U = (\<Union>y\<in>set (xs @ ys). span width y)"
    have U: "(\<Union>y\<in>set held. span width y) = span width x \<union> U" unfolding h(1) U_def by auto
    have "apart width (xs @ x # ys)" using c h(1) by (simp add: conserved_def)
    then have "span width x \<inter> U = {}" "apart width (xs @ ys)" unfolding apart_split U_def by auto
    moreover have "\<forall>y\<in>set (xs @ ys). snd y < count \<and> width (snd y) dvd fst y"
      using c unfolding conserved_def h(1) by auto
    moreover have "avail s \<inter> (span width x \<union> U) = {}" "avail s \<union> (span width x \<union> U) = T" "T \<subseteq> space"
      using c by (auto simp: conserved_def U simp del: UN_simps)
    ultimately have "conserved T (s', xs @ ys)"
      using s'(2,3) unfolding conserved_def prod.case U_def[symmetric] by (intro conjI) blast+
    then show ?thesis using FreeOp True h s'(1) by (simp add: heap_step_def)
  qed (use FreeOp c in \<open>simp add: heap_step_def\<close>)
qed

lemma run_conserves:
  assumes "conserved T st" "\<And>i r. AllocateOp i r \<in> set ops \<Longrightarrow> i < count"
  shows "\<exists>st'. heap_run alloc release ops st = Some st' \<and> conserved T st'"
  using assms
proof (induction ops arbitrary: st)
  case (Cons op ops)
  obtain st' where s: "heap_step alloc release op st = Some st'" "conserved T st'"
    using step_conserves[of T "fst st" "snd st" op] Cons.prems by auto
  show ?case using Cons.IH[OF s(2)] Cons.prems(2) s(1) by auto
qed simp

end

text \<open>The page heap with the constant table of sizes, at one address and size.\<close>

definition page_heap_at :: "nat \<Rightarrow> nat \<Rightarrow> KPageHeap \<Rightarrow> bool" where
  "page_heap_at addr sz h \<longleftrightarrow> heap_wf h \<and> h_heap_address h = addr \<and> h_heap_size h = sz \<and>
     map b_block_shift (h_blocks h) = MemoryBlockPageShifts"

definition release_block :: "nat \<Rightarrow> nat \<Rightarrow> KPageHeap \<Rightarrow> KPageHeap option" where
  "release_block a index h = PageHeap_Free a (GetBlockNumPages index) h"

lemma page_heap_at_shift:
  assumes "page_heap_at addr sz h" "i < NumMemoryBlockPageShifts"
  shows "length (h_blocks h) = NumMemoryBlockPageShifts" "2 ^ b_block_shift (h_blocks h ! i) = GetBlockSize i"
proof -
  have m: "map b_block_shift (h_blocks h) = MemoryBlockPageShifts" using assms(1) by (simp add: page_heap_at_def)
  then have "length (h_blocks h) = length MemoryBlockPageShifts" by (metis length_map)
  then show l: "length (h_blocks h) = NumMemoryBlockPageShifts"
    by (simp add: MemoryBlockPageShifts_def NumMemoryBlockPageShifts_def)
  have "b_block_shift (h_blocks h ! i) = MemoryBlockPageShifts ! i" using m l assms(2) by (metis nth_map)
  then show "2 ^ b_block_shift (h_blocks h ! i) = GetBlockSize i" by (simp add: GetBlockSize_def)
qed

lemma page_dvd_BlockSize: "i < NumMemoryBlockPageShifts \<Longrightarrow> PageSize dvd GetBlockSize i"
proof -
  assume i: "i < NumMemoryBlockPageShifts"
  have "list_all (\<lambda>s. 12 \<le> s) MemoryBlockPageShifts" by (simp add: MemoryBlockPageShifts_def)
  then have "12 \<le> MemoryBlockPageShifts ! i"
    using i by (simp add: list_all_length MemoryBlockPageShifts_def NumMemoryBlockPageShifts_def)
  then have "(2 :: nat) ^ 12 dvd GetBlockSize i" unfolding GetBlockSize_def by (rule le_imp_power_dvd)
  then show ?thesis by (simp add: PageSize_def)
qed

interpretation page_heap: range_heap "page_heap_at addr sz" "\<lambda>h. heap_free (h_blocks h)" "{addr ..< addr + sz}"
  NumMemoryBlockPageShifts GetBlockSize AllocateBlock release_block
proof
  fix h assume "page_heap_at addr sz h"
  then show "heap_free (h_blocks h) \<subseteq> {addr ..< addr + sz}"
    unfolding page_heap_at_def heap_wf_def sizes_ok_def blocks_wf_def by blast
next
  fix h i random assume h: "page_heap_at addr sz h" and i: "i < NumMemoryBlockPageShifts"
  note sh = page_heap_at_shift[OF h i]
  from AllocateBlock_ok[of h i "GetBlockSize i" random] h i sh
  show "\<exists>a s'. AllocateBlock i random h = Some (a, s') \<and> page_heap_at addr sz s' \<and>
      (a = 0 \<and> heap_free (h_blocks s') = heap_free (h_blocks h) \<or>
       a \<noteq> 0 \<and> GetBlockSize i dvd a \<and> span GetBlockSize (a, i) \<subseteq> heap_free (h_blocks h) \<and>
       heap_free (h_blocks s') = heap_free (h_blocks h) - span GetBlockSize (a, i))"
    by (auto simp: page_heap_at_def span_def same_shifts_def)
next
  fix h i a assume h: "page_heap_at addr sz h" and i: "i < NumMemoryBlockPageShifts" and d: "GetBlockSize i dvd a"
    and sp: "span GetBlockSize (a, i) \<subseteq> {addr ..< addr + sz}" "span GetBlockSize (a, i) \<inter> heap_free (h_blocks h) = {}"
  have n: "GetBlockNumPages i * PageSize = GetBlockSize i"
    using page_dvd_BlockSize[OF i] by (simp add: GetBlockNumPages_def)
  have "PageSize dvd a" using dvd_trans[OF page_dvd_BlockSize[OF i] d] .
  from PageHeap_Free_ok[OF _ this, of h "GetBlockNumPages i"] h sp n
  show "\<exists>s'. release_block a i h = Some s' \<and> page_heap_at addr sz s' \<and>
      heap_free (h_blocks s') = heap_free (h_blocks h) \<union> span GetBlockSize (a, i)"
    by (auto simp: page_heap_at_def span_def same_shifts_def release_block_def freeable_def)
qed

section \<open>Properties\<close>

text \<open>C13: starting from an initialized heap to which one page-aligned range of its memory was freed,
  and whatever sequence of block allocations (of any size, at a random place or not) and releases of
  held blocks follows, every call returns, the blocks held are aligned to their size and do not overlap,
  and the free memory is exactly the range less the held blocks: nothing is leaked and nothing is
  handed out twice.\<close>

theorem page_heap_conserves_memory:
  assumes "PageHeap_Initialize addr sz m MemoryBlockPageShifts gs g = Some h0"
    and "0 < addr" "0 < sz" "addr + sz + 2 ^ 31 < two64"
    and "PageSize dvd first" "{first ..< first + n * PageSize} \<subseteq> {addr ..< addr + sz}"
    and "\<forall>i r. AllocateOp i r \<in> set ops \<longrightarrow> i < NumMemoryBlockPageShifts"
  shows "\<exists>h1 h held. PageHeap_Free first n h0 = Some h1 \<and>
    heap_run AllocateBlock release_block ops (h1, []) = Some (h, held) \<and>
    (\<forall>x\<in>set held. GetBlockSize (snd x) dvd fst x) \<and> apart GetBlockSize held \<and>
    heap_free (h_blocks h) \<inter> (\<Union>x\<in>set held. span GetBlockSize x) = {} \<and>
    heap_free (h_blocks h) \<union> (\<Union>x\<in>set held. span GetBlockSize x) = {first ..< first + n * PageSize}"
proof -
  let ?T = "{first ..< first + n * PageSize}"
  have sh: "shifts_ok MemoryBlockPageShifts" "MemoryBlockPageShifts \<noteq> []" "hd MemoryBlockPageShifts = 12"
    by (simp_all add: MemoryBlockPageShifts_def)
  note i = PageHeap_Initialize_ok[OF assms(1) sh assms(2-4)]
  have "freeable (h_heap_address h0) (h_heap_address h0 + h_heap_size h0) (h_blocks h0) first (first + n * PageSize)"
    using assms(6) i(2) unfolding freeable_def i(3,4) by blast
  from PageHeap_Free_ok[OF i(1) assms(5) this]
  obtain bs where f: "PageHeap_Free first n h0 = Some (h0\<lparr>h_blocks := bs\<rparr>)" "heap_wf (h0\<lparr>h_blocks := bs\<rparr>)"
    "heap_free bs = ?T" "same_shifts (h_blocks h0) bs" using i(2) by auto
  have "page_heap_at addr sz (h0\<lparr>h_blocks := bs\<rparr>)"
    using f(2,4) i(3-5) by (simp add: page_heap_at_def same_shifts_def)
  then have c: "page_heap.conserved addr sz ?T (h0\<lparr>h_blocks := bs\<rparr>, [])"
    using f(3) assms(6) unfolding page_heap.conserved_def by auto
  from page_heap.run_conserves[OF c, of ops] assms(7)
  obtain h held where r: "heap_run AllocateBlock release_block ops (h0\<lparr>h_blocks := bs\<rparr>, []) = Some (h, held)"
    "page_heap.conserved addr sz ?T (h, held)" by auto
  then show ?thesis using f(1) by (auto simp: page_heap.conserved_def)
qed

text \<open>A heap of sixteen pages.\<close>

definition sample_block :: "nat \<Rightarrow> nat \<Rightarrow> nat \<Rightarrow> Block" where
  "sample_block eo s n = \<lparr>b_bitmap = \<lparr>m_bit_storages = [[0]], m_rng = sample_rng, m_num_bits = 0\<rparr>,
     b_heap_address = 1073741824, b_end_offset = eo, b_block_shift = s, b_next_block_shift = n\<rparr>"

definition sample_heap :: KPageHeap where
  "sample_heap = \<lparr>h_heap_address = 1073741824, h_heap_size = 65536, h_initial_used_size = 0,
     h_num_blocks = 7,
     h_blocks = [sample_block 16 12 16, sample_block 32 16 21, sample_block 2 21 22,
       sample_block 8 22 25, sample_block 16 25 29, sample_block 2 29 30, sample_block 1 30 0],
     h_rng = sample_rng\<rparr>"

lemma sample_block_init:
  assumes "sub64 (AlignUp (add64 1073741824 65536) (2 ^ (if n \<noteq> 0 then n else s)))
      (AlignDown 1073741824 (2 ^ (if n \<noteq> 0 then n else s))) div 2 ^ s = eo"
    and "AlignDown 1073741824 (2 ^ (if n \<noteq> 0 then n else s)) = 1073741824" "0 < eo" "eo < 64"
  shows "Block_Initialize 1073741824 65536 s n (0 # ws) sample_rng = Some (sample_block eo s n, ws)"
proof -
  have "GetRequiredDepth eo = 1" using assms(4) by (subst GetRequiredDepth.simps) simp
  moreover have "AlignUp eo 64 div 64 = 1" using assms(3,4) ceil64[of eo] by (simp add: two64_def)
  ultimately have "KPageBitmap_Initialize (0 # ws) eo sample_rng
      = Some (\<lparr>m_bit_storages = [[0]], m_rng = sample_rng, m_num_bits = 0\<rparr>, ws)"
    by (simp add: KPageBitmap_Initialize_def MaxDepth_def)
  then show ?thesis using assms(1,2)
    by (cases "n = 0") (simp_all add: Block_Initialize_def Let_def sample_block_def)
qed

lemma sample_heap_init:
  "PageHeap_Initialize 1073741824 65536 56 MemoryBlockPageShifts (replicate 7 sample_rng) sample_rng
    = Some sample_heap"
proof -
  have r7: "replicate 7 x = [x, x, x, x, x, x, x]" for x :: 'a by (simp add: numeral_eq_Suc)
  have r7': "replicate 7 x = [x, x, x, x, x, x, x]" for x :: u64 by (simp add: numeral_eq_Suc)
  note arith = AlignUp_def AlignDown_def add64_def sub64_def two64_def Let_def
  have b: "Block_Initialize 1073741824 65536 12 16 (0 # ws) sample_rng = Some (sample_block 16 12 16, ws)"
    "Block_Initialize 1073741824 65536 16 21 (0 # ws) sample_rng = Some (sample_block 32 16 21, ws)"
    "Block_Initialize 1073741824 65536 21 22 (0 # ws) sample_rng = Some (sample_block 2 21 22, ws)"
    "Block_Initialize 1073741824 65536 22 25 (0 # ws) sample_rng = Some (sample_block 8 22 25, ws)"
    "Block_Initialize 1073741824 65536 25 29 (0 # ws) sample_rng = Some (sample_block 16 25 29, ws)"
    "Block_Initialize 1073741824 65536 29 30 (0 # ws) sample_rng = Some (sample_block 2 29 30, ws)"
    "Block_Initialize 1073741824 65536 30 0 (0 # ws) sample_rng = Some (sample_block 1 30 0, ws)" for ws
    by (rule sample_block_init; simp add: arith)+
  show ?thesis
    by (simp add: PageHeap_Initialize_def MemoryBlockPageShifts_def r7' r7[of sample_rng] b sample_heap_def)
qed

lemma sample_heap_ok:
  "heap_wf sample_heap" "heap_free (h_blocks sample_heap) = {}"
  "h_heap_address sample_heap = 1073741824" "h_heap_size sample_heap = 65536"
proof -
  have sh: "shifts_ok MemoryBlockPageShifts" "MemoryBlockPageShifts \<noteq> []" "hd MemoryBlockPageShifts = 12"
    by (simp_all add: MemoryBlockPageShifts_def)
  note i = PageHeap_Initialize_ok[OF sample_heap_init sh]
  show "heap_wf sample_heap" "heap_free (h_blocks sample_heap) = {}"
    "h_heap_address sample_heap = 1073741824" "h_heap_size sample_heap = 65536"
    using i by (simp_all add: two64_def)
qed

theorem page_heap_conserves_memory_witness:
  "\<exists>h1 h held. PageHeap_Free 1073741824 16 sample_heap = Some h1 \<and>
    heap_run AllocateBlock release_block [AllocateOp 0 False, AllocateOp 0 True, FreeOp 1, AllocateOp 1 False] (h1, [])
      = Some (h, held) \<and>
    (\<forall>x\<in>set held. GetBlockSize (snd x) dvd fst x) \<and> apart GetBlockSize held \<and>
    heap_free (h_blocks h) \<inter> (\<Union>x\<in>set held. span GetBlockSize x) = {} \<and>
    heap_free (h_blocks h) \<union> (\<Union>x\<in>set held. span GetBlockSize x) = {1073741824 ..< 1073741824 + 16 * PageSize}"
  by (rule page_heap_conserves_memory[OF sample_heap_init])
    (auto simp: two64_def PageSize_def NumMemoryBlockPageShifts_def)

text \<open>freeing a page-aligned range of the heap's memory that is not free, of any length, makes
  exactly that range free in addition, however it is cut into blocks and merged with its neighbours;
  the heap stays in order: the sizes' free blocks do not overlap, and no group of blocks is left
  unmerged.\<close>

theorem page_heap_free_exact:
  assumes "heap_wf h" "PageSize dvd addr"
    and "{addr ..< addr + num_pages * PageSize} \<subseteq> {h_heap_address h ..< h_heap_address h + h_heap_size h}"
    and "{addr ..< addr + num_pages * PageSize} \<inter> heap_free (h_blocks h) = {}"
  shows "\<exists>h'. PageHeap_Free addr num_pages h = Some h' \<and> heap_wf h' \<and>
    heap_free (h_blocks h') = heap_free (h_blocks h) \<union> {addr ..< addr + num_pages * PageSize}"
proof -
  have "freeable (h_heap_address h) (h_heap_address h + h_heap_size h) (h_blocks h) addr
      (addr + num_pages * PageSize)" using assms(3,4) unfolding freeable_def by blast
  from PageHeap_Free_ok[OF assms(1,2) this] show ?thesis by auto
qed

theorem page_heap_free_exact_witness:
  "\<exists>h'. PageHeap_Free 1073745920 7 sample_heap = Some h' \<and> heap_wf h' \<and>
    heap_free (h_blocks h') = heap_free (h_blocks sample_heap) \<union> {1073745920 ..< 1073745920 + 7 * PageSize}"
  by (rule page_heap_free_exact[OF sample_heap_ok(1)])
    (auto simp: sample_heap_ok PageSize_def)

text \<open>an allocation of a block of a given size, at a random place or not, either returns a block
  aligned to its size that was free and takes exactly that block out of the free memory, or returns 0
  and leaves the free memory as it was; without randomness it returns 0 only if no aligned block of that
  size is free anywhere in the heap.\<close>

theorem page_heap_allocate_block:
  assumes "heap_wf h" "index < length (h_blocks h)"
  shows "\<exists>a h'. AllocateBlock index random h = Some (a, h') \<and> heap_wf h' \<and>
    (if a = 0 then heap_free (h_blocks h') = heap_free (h_blocks h) \<and>
       (\<not> random \<longrightarrow> (\<forall>p. Block_GetSize (h_blocks h ! index) dvd p \<longrightarrow>
          \<not> {p ..< p + Block_GetSize (h_blocks h ! index)} \<subseteq> heap_free (h_blocks h)))
     else Block_GetSize (h_blocks h ! index) dvd a \<and>
       {a ..< a + Block_GetSize (h_blocks h ! index)} \<subseteq> heap_free (h_blocks h) \<and>
       heap_free (h_blocks h') = heap_free (h_blocks h) - {a ..< a + Block_GetSize (h_blocks h ! index)})"
proof -
  obtain a h' where r: "AllocateBlock index random h = Some (a, h')" "heap_wf h'"
    "a = 0 \<and> heap_free (h_blocks h') = heap_free (h_blocks h) \<or>
     a \<noteq> 0 \<and> Block_GetSize (h_blocks h ! index) dvd a \<and>
       {a ..< a + Block_GetSize (h_blocks h ! index)} \<subseteq> heap_free (h_blocks h) \<and>
       heap_free (h_blocks h') = heap_free (h_blocks h) - {a ..< a + Block_GetSize (h_blocks h ! index)}"
    using AllocateBlock_ok[OF assms Block_GetSize_def, of random] by blast
  moreover have "\<not> {p ..< p + Block_GetSize (h_blocks h ! index)} \<subseteq> heap_free (h_blocks h)"
    if "a = 0" "\<not> random" "Block_GetSize (h_blocks h ! index) dvd p" for p
    using linear_search_complete[OF assms Block_GetSize_def _ that(3), of h'] r(1) that(1,2) by simp
  ultimately show ?thesis by auto
qed

theorem page_heap_allocate_block_witness:
  "\<exists>a h'. AllocateBlock 1 False sample_heap = Some (a, h') \<and> heap_wf h' \<and>
    (if a = 0 then heap_free (h_blocks h') = heap_free (h_blocks sample_heap) \<and>
       (\<not> False \<longrightarrow> (\<forall>p. Block_GetSize (h_blocks sample_heap ! 1) dvd p \<longrightarrow>
          \<not> {p ..< p + Block_GetSize (h_blocks sample_heap ! 1)} \<subseteq> heap_free (h_blocks sample_heap)))
     else Block_GetSize (h_blocks sample_heap ! 1) dvd a \<and>
       {a ..< a + Block_GetSize (h_blocks sample_heap ! 1)} \<subseteq> heap_free (h_blocks sample_heap) \<and>
       heap_free (h_blocks h') = heap_free (h_blocks sample_heap) - {a ..< a + Block_GetSize (h_blocks sample_heap ! 1)})"
  by (rule page_heap_allocate_block[OF sample_heap_ok(1)]) (simp add: sample_heap_def)

end
