(* ===== verification/K_Priority_Queue.thy ===== *)
theory K_Priority_Queue
  imports Bit_Set "HOL-Library.Monad_Syntax"
begin

text \<open>
  \<open>KPriorityQueue\<close> (\<open>src/core/hle/kernel/k_priority_queue.h\<close>), the scheduler's run queues, with the
  affinity masks of \<open>k_affinity_mask.h\<close> and the queue entries of \<open>k_thread.h\<close>. A thread is a number;
  every thread has one queue entry per core, shared by the scheduled and the suggested queues of that
  core, so the entries are an explicit store that all queues update. A link is \<open>None\<close> where the
  source has a null pointer; the root entry of a queue stands for both ends of its list. Changing
  a queue whose priority or core is out of range has no result; the read-only getters leave it
  unspecified, and their theorems are about cores in range.

  The lemmas about these definitions are in \<open>Run_Queues\<close>.
\<close>

section \<open>Entries and per-core queues\<close>

record QueueEntry =
  qe_prev :: "nat option"
  qe_next :: "nat option"

definition QueueEntry_Initialize :: QueueEntry where
  "QueueEntry_Initialize = \<lparr>qe_prev = None, qe_next = None\<rparr>"

type_synonym links = "QueueEntry \<times> (nat \<Rightarrow> QueueEntry)"

text \<open>Writing a link of the entry of a thread, or of the root when there is none.\<close>

definition set_prev :: "nat option \<Rightarrow> nat option \<Rightarrow> links \<Rightarrow> links" where
  "set_prev r v l =
     (case r of None \<Rightarrow> ((fst l)\<lparr>qe_prev := v\<rparr>, snd l)
      | Some t \<Rightarrow> (fst l, (snd l)(t := (snd l t)\<lparr>qe_prev := v\<rparr>)))"

definition set_next :: "nat option \<Rightarrow> nat option \<Rightarrow> links \<Rightarrow> links" where
  "set_next r v l =
     (case r of None \<Rightarrow> ((fst l)\<lparr>qe_next := v\<rparr>, snd l)
      | Some t \<Rightarrow> (fst l, (snd l)(t := (snd l t)\<lparr>qe_next := v\<rparr>)))"

definition PerCore_GetFront :: "links \<Rightarrow> nat option" where
  "PerCore_GetFront l = qe_next (fst l)"

definition PerCore_PushBack :: "nat \<Rightarrow> links \<Rightarrow> bool \<times> links" where
  "PerCore_PushBack member l =
     (let tail = qe_prev (fst l);
          l1 = set_prev (Some member) tail l;
          l2 = set_next (Some member) None l1;
          l3 = set_next tail (Some member) l2;
          l4 = set_prev None (Some member) l3
      in (tail = None, l4))"

definition PerCore_PushFront :: "nat \<Rightarrow> links \<Rightarrow> bool \<times> links" where
  "PerCore_PushFront member l =
     (let head = qe_next (fst l);
          l1 = set_prev (Some member) None l;
          l2 = set_next (Some member) head l1;
          l3 = set_prev head (Some member) l2;
          l4 = set_next None (Some member) l3
      in (head = None, l4))"

definition PerCore_Remove :: "nat \<Rightarrow> links \<Rightarrow> bool \<times> links" where
  "PerCore_Remove member l =
     (let prev = qe_prev (snd l member);
          next = qe_next (snd l member);
          l1 = set_next prev next l;
          l2 = set_prev next prev l1
      in (PerCore_GetFront l2 = None, l2))"

section \<open>The queues of all priorities and cores\<close>

definition LowestPriority :: int where
  "LowestPriority = 63"

definition HighestPriority :: int where
  "HighestPriority = 0"

definition NumCores :: int where
  "NumCores = 4"

definition IsValidCore :: "int \<Rightarrow> bool" where
  "IsValidCore core \<longleftrightarrow> 0 \<le> core \<and> core < NumCores"

definition IsValidPriority :: "int \<Rightarrow> bool" where
  "IsValidPriority priority \<longleftrightarrow> HighestPriority \<le> priority \<and> priority \<le> LowestPriority + 1"

record KPriorityQueueImpl =
  q_roots :: "nat \<Rightarrow> nat \<Rightarrow> QueueEntry"
  q_available :: "nat \<Rightarrow> u64 list"

type_synonym entries = "nat \<Rightarrow> nat \<Rightarrow> QueueEntry"

definition KPriorityQueueImpl_new :: KPriorityQueueImpl where
  "KPriorityQueueImpl_new = \<lparr>q_roots = \<lambda>p c. QueueEntry_Initialize, q_available = \<lambda>c. [0]\<rparr>"

text \<open>The links of the queue of one priority and core, and the array accesses that must be in range.\<close>

definition in_range :: "int \<Rightarrow> int \<Rightarrow> bool" where
  "in_range priority core \<longleftrightarrow> 0 \<le> priority \<and> priority \<le> LowestPriority \<and> IsValidCore core"

definition links_of :: "int \<Rightarrow> int \<Rightarrow> KPriorityQueueImpl \<times> entries \<Rightarrow> links" where
  "links_of priority core s = (q_roots (fst s) (nat priority) (nat core), snd s (nat core))"

definition put_links :: "int \<Rightarrow> int \<Rightarrow> links \<Rightarrow> KPriorityQueueImpl \<times> entries \<Rightarrow> KPriorityQueueImpl \<times> entries" where
  "put_links priority core l s =
     ((fst s)\<lparr>q_roots := (q_roots (fst s))(nat priority := (q_roots (fst s) (nat priority))(nat core := fst l))\<rparr>,
      (snd s)(nat core := snd l))"

definition put_available :: "int \<Rightarrow> u64 list \<Rightarrow> KPriorityQueueImpl \<times> entries \<Rightarrow> KPriorityQueueImpl \<times> entries" where
  "put_available core ws s = ((fst s)\<lparr>q_available := (q_available (fst s))(nat core := ws)\<rparr>, snd s)"

definition Impl_PushBack ::
  "int \<Rightarrow> int \<Rightarrow> nat \<Rightarrow> KPriorityQueueImpl \<times> entries \<Rightarrow> (KPriorityQueueImpl \<times> entries) option" where
  "Impl_PushBack priority core member s =
     (if priority > LowestPriority then Some s
      else if \<not> in_range priority core then None
      else let (first, l) = PerCore_PushBack member (links_of priority core s);
               s' = put_links priority core l s
           in if first then
                map_option (\<lambda>ws. put_available core ws s')
                  (BitSet_SetBit (nat priority) (q_available (fst s') (nat core)))
              else Some s')"

definition Impl_PushFront ::
  "int \<Rightarrow> int \<Rightarrow> nat \<Rightarrow> KPriorityQueueImpl \<times> entries \<Rightarrow> (KPriorityQueueImpl \<times> entries) option" where
  "Impl_PushFront priority core member s =
     (if priority > LowestPriority then Some s
      else if \<not> in_range priority core then None
      else let (first, l) = PerCore_PushFront member (links_of priority core s);
               s' = put_links priority core l s
           in if first then
                map_option (\<lambda>ws. put_available core ws s')
                  (BitSet_SetBit (nat priority) (q_available (fst s') (nat core)))
              else Some s')"

definition Impl_Remove ::
  "int \<Rightarrow> int \<Rightarrow> nat \<Rightarrow> KPriorityQueueImpl \<times> entries \<Rightarrow> (KPriorityQueueImpl \<times> entries) option" where
  "Impl_Remove priority core member s =
     (if priority > LowestPriority then Some s
      else if \<not> in_range priority core then None
      else let (empty, l) = PerCore_Remove member (links_of priority core s);
               s' = put_links priority core l s
           in if empty then
                map_option (\<lambda>ws. put_available core ws s')
                  (BitSet_ClearBit (nat priority) (q_available (fst s') (nat core)))
              else Some s')"

definition Impl_GetFront :: "int \<Rightarrow> KPriorityQueueImpl \<times> entries \<Rightarrow> nat option" where
  "Impl_GetFront core s =
     (let priority = int (CountLeadingZero (q_available (fst s) (nat core)))
      in if priority \<le> LowestPriority then PerCore_GetFront (links_of priority core s) else None)"

definition Impl_GetFront_at :: "int \<Rightarrow> int \<Rightarrow> KPriorityQueueImpl \<times> entries \<Rightarrow> nat option" where
  "Impl_GetFront_at priority core s =
     (if priority \<le> LowestPriority then PerCore_GetFront (links_of priority core s) else None)"

text \<open>\<open>priority\<close> is the priority of \<open>member\<close>.\<close>

definition Impl_GetNext :: "int \<Rightarrow> int \<Rightarrow> nat \<Rightarrow> KPriorityQueueImpl \<times> entries \<Rightarrow> nat option" where
  "Impl_GetNext core priority member s =
     (case qe_next (snd s (nat core) member) of
        Some t \<Rightarrow> Some t
      | None \<Rightarrow>
          let p = int (GetNextSet (nat priority) (q_available (fst s) (nat core)))
          in if p \<le> LowestPriority then PerCore_GetFront (links_of p core s) else None)"

definition Impl_MoveToFront ::
  "int \<Rightarrow> int \<Rightarrow> nat \<Rightarrow> KPriorityQueueImpl \<times> entries \<Rightarrow> (KPriorityQueueImpl \<times> entries) option" where
  "Impl_MoveToFront priority core member s =
     (if priority \<le> LowestPriority then
        if \<not> in_range priority core then None
        else
          let l1 = snd (PerCore_Remove member (links_of priority core s));
              l2 = snd (PerCore_PushFront member l1)
          in Some (put_links priority core l2 s)
      else Some s)"

definition Impl_MoveToBack ::
  "int \<Rightarrow> int \<Rightarrow> nat \<Rightarrow> KPriorityQueueImpl \<times> entries \<Rightarrow>
   (nat option \<times> (KPriorityQueueImpl \<times> entries)) option" where
  "Impl_MoveToBack priority core member s =
     (if priority \<le> LowestPriority then
        if \<not> in_range priority core then None
        else
          let l1 = snd (PerCore_Remove member (links_of priority core s));
              l2 = snd (PerCore_PushBack member l1)
          in Some (PerCore_GetFront l2, put_links priority core l2 s)
      else Some (None, s))"

section \<open>Threads and the two queues\<close>

text \<open>What the queues read of a thread; \<open>t_affinity\<close> is the mask of its \<open>KAffinityMask\<close>.\<close>

record KThreadInfo =
  t_priority :: int
  t_active_core :: int
  t_affinity :: u64
  t_dummy :: bool

definition GetAffinity :: "u64 \<Rightarrow> int \<Rightarrow> bool" where
  "GetAffinity m core \<longleftrightarrow> m AND push_bit (nat core) 1 \<noteq> 0"

definition SetAffinity :: "int \<Rightarrow> bool \<Rightarrow> u64 \<Rightarrow> u64" where
  "SetAffinity core b m =
     (if b then m OR push_bit (nat core) 1 else m AND NOT (push_bit (nat core) 1))"

datatype queue_kind = Scheduled | Suggested

record KPriorityQueue =
  m_scheduled_queue :: KPriorityQueueImpl
  m_suggested_queue :: KPriorityQueueImpl
  m_entries :: entries

definition KPriorityQueue_new :: "entries \<Rightarrow> KPriorityQueue" where
  "KPriorityQueue_new e =
     \<lparr>m_scheduled_queue = KPriorityQueueImpl_new, m_suggested_queue = KPriorityQueueImpl_new, m_entries = e\<rparr>"

text \<open>One of the two queues together with the entries it links.\<close>

definition view :: "queue_kind \<Rightarrow> KPriorityQueue \<Rightarrow> KPriorityQueueImpl \<times> entries" where
  "view k q = (case k of Scheduled \<Rightarrow> m_scheduled_queue q | Suggested \<Rightarrow> m_suggested_queue q, m_entries q)"

definition put_view :: "queue_kind \<Rightarrow> KPriorityQueue \<Rightarrow> KPriorityQueueImpl \<times> entries \<Rightarrow> KPriorityQueue" where
  "put_view k q s =
     (case k of
        Scheduled \<Rightarrow> q\<lparr>m_scheduled_queue := fst s, m_entries := snd s\<rparr>
      | Suggested \<Rightarrow> q\<lparr>m_suggested_queue := fst s, m_entries := snd s\<rparr>)"

definition on_queue ::
  "queue_kind \<Rightarrow> (KPriorityQueueImpl \<times> entries \<Rightarrow> (KPriorityQueueImpl \<times> entries) option) \<Rightarrow>
   KPriorityQueue \<Rightarrow> KPriorityQueue option" where
  "on_queue k f q = map_option (put_view k q) (f (view k q))"

definition ClearAffinityBit :: "int \<Rightarrow> u64 \<Rightarrow> u64" where
  "ClearAffinityBit core affinity = affinity AND NOT (push_bit (nat core) 1)"

definition GetNextCore :: "u64 \<Rightarrow> int \<times> u64" where
  "GetNextCore affinity =
     (let core = int (countr_zero affinity) in (core, ClearAffinityBit core affinity))"

lemma clear_bit_less: "bit (w :: u64) k \<Longrightarrow> unat (w AND NOT (2 ^ k)) < unat w"
proof -
  assume k: "bit w k"
  have "\<not> bit (w AND NOT (2 ^ k)) k" using k bit_u64_less[OF k] by (simp add: bit_and_iff bit_not_iff bit_exp_iff)
  then have "w AND NOT (2 ^ k) \<noteq> w" using k by metis
  moreover have "w AND NOT (2 ^ k) \<le> w" by (rule word_and_le2)
  ultimately have "w AND NOT (2 ^ k) < w" by (simp only: order_less_le simp_thms)
  then show ?thesis by (simp only: word_less_nat_alt)
qed

text \<open>The loop over the cores left in the mask, lowest first.\<close>

function for_affinity ::
  "(int \<Rightarrow> KPriorityQueue \<Rightarrow> KPriorityQueue option) \<Rightarrow> u64 \<Rightarrow> KPriorityQueue \<Rightarrow> KPriorityQueue option" where
  "for_affinity f affinity q =
     (if affinity = 0 then Some q
      else case f (fst (GetNextCore affinity)) q of
             None \<Rightarrow> None
           | Some q' \<Rightarrow> for_affinity f (snd (GetNextCore affinity)) q')"
  by pat_completeness auto
termination
  by (relation "measure (\<lambda>(f, a, q). unat a)")
    (simp_all add: GetNextCore_def ClearAffinityBit_def clear_bit_less countr_zero_set)

declare for_affinity.simps [simp del]

definition PushBack_priority :: "int \<Rightarrow> KThreadInfo \<Rightarrow> nat \<Rightarrow> KPriorityQueue \<Rightarrow> KPriorityQueue option" where
  "PushBack_priority priority t member q =
     (let core = t_active_core t in
      do {
        q1 \<leftarrow> (if core \<ge> 0 then on_queue Scheduled (Impl_PushBack priority core member) q else Some q);
        for_affinity (\<lambda>c. on_queue Suggested (Impl_PushBack priority c member))
          (if core \<ge> 0 then ClearAffinityBit core (t_affinity t) else t_affinity t) q1
      })"

definition PushFront_priority :: "int \<Rightarrow> KThreadInfo \<Rightarrow> nat \<Rightarrow> KPriorityQueue \<Rightarrow> KPriorityQueue option" where
  "PushFront_priority priority t member q =
     (let core = t_active_core t in
      do {
        q1 \<leftarrow> (if core \<ge> 0 then on_queue Scheduled (Impl_PushFront priority core member) q else Some q);
        for_affinity (\<lambda>c. on_queue Suggested (Impl_PushBack priority c member))
          (if core \<ge> 0 then ClearAffinityBit core (t_affinity t) else t_affinity t) q1
      })"

definition Remove_priority :: "int \<Rightarrow> KThreadInfo \<Rightarrow> nat \<Rightarrow> KPriorityQueue \<Rightarrow> KPriorityQueue option" where
  "Remove_priority priority t member q =
     (let core = t_active_core t in
      do {
        q1 \<leftarrow> (if core \<ge> 0 then on_queue Scheduled (Impl_Remove priority core member) q else Some q);
        for_affinity (\<lambda>c. on_queue Suggested (Impl_Remove priority c member))
          (if core \<ge> 0 then ClearAffinityBit core (t_affinity t) else t_affinity t) q1
      })"

definition GetScheduledFront :: "int \<Rightarrow> KPriorityQueue \<Rightarrow> nat option" where
  "GetScheduledFront core q = Impl_GetFront core (view Scheduled q)"

definition GetScheduledFront_at :: "int \<Rightarrow> int \<Rightarrow> KPriorityQueue \<Rightarrow> nat option" where
  "GetScheduledFront_at core priority q = Impl_GetFront_at priority core (view Scheduled q)"

definition GetSuggestedFront :: "int \<Rightarrow> KPriorityQueue \<Rightarrow> nat option" where
  "GetSuggestedFront core q = Impl_GetFront core (view Suggested q)"

definition GetSuggestedFront_at :: "int \<Rightarrow> int \<Rightarrow> KPriorityQueue \<Rightarrow> nat option" where
  "GetSuggestedFront_at core priority q = Impl_GetFront_at priority core (view Suggested q)"

definition GetScheduledNext :: "int \<Rightarrow> KThreadInfo \<Rightarrow> nat \<Rightarrow> KPriorityQueue \<Rightarrow> nat option" where
  "GetScheduledNext core t member q = Impl_GetNext core (t_priority t) member (view Scheduled q)"

definition GetSuggestedNext :: "int \<Rightarrow> KThreadInfo \<Rightarrow> nat \<Rightarrow> KPriorityQueue \<Rightarrow> nat option" where
  "GetSuggestedNext core t member q = Impl_GetNext core (t_priority t) member (view Suggested q)"

definition GetSamePriorityNext :: "int \<Rightarrow> nat \<Rightarrow> KPriorityQueue \<Rightarrow> nat option" where
  "GetSamePriorityNext core member q = qe_next (m_entries q (nat core) member)"

definition KPriorityQueue_PushBack :: "KThreadInfo \<Rightarrow> nat \<Rightarrow> KPriorityQueue \<Rightarrow> KPriorityQueue option" where
  "KPriorityQueue_PushBack t member q =
     (if t_dummy t then Some q else PushBack_priority (t_priority t) t member q)"

definition KPriorityQueue_Remove :: "KThreadInfo \<Rightarrow> nat \<Rightarrow> KPriorityQueue \<Rightarrow> KPriorityQueue option" where
  "KPriorityQueue_Remove t member q =
     (if t_dummy t then Some q else Remove_priority (t_priority t) t member q)"

definition MoveToScheduledFront :: "KThreadInfo \<Rightarrow> nat \<Rightarrow> KPriorityQueue \<Rightarrow> KPriorityQueue option" where
  "MoveToScheduledFront t member q =
     (if t_dummy t then Some q
      else on_queue Scheduled (Impl_MoveToFront (t_priority t) (t_active_core t) member) q)"

definition MoveToScheduledBack ::
  "KThreadInfo \<Rightarrow> nat \<Rightarrow> KPriorityQueue \<Rightarrow> (nat option \<times> KPriorityQueue) option" where
  "MoveToScheduledBack t member q =
     (if t_dummy t then Some (None, q)
      else map_option (\<lambda>(r, s). (r, put_view Scheduled q s))
             (Impl_MoveToBack (t_priority t) (t_active_core t) member (view Scheduled q)))"

text \<open>The next three run after the thread has its new priority, mask or core: \<open>t\<close> is the new state.\<close>

definition ChangePriority ::
  "int \<Rightarrow> bool \<Rightarrow> KThreadInfo \<Rightarrow> nat \<Rightarrow> KPriorityQueue \<Rightarrow> KPriorityQueue option" where
  "ChangePriority prev_priority is_running t member q =
     (if t_dummy t then Some q
      else do {
        q1 \<leftarrow> Remove_priority prev_priority t member q;
        (if is_running then PushFront_priority (t_priority t) t member q1
         else PushBack_priority (t_priority t) t member q1)
      })"

fun for_cores ::
  "(int \<Rightarrow> KPriorityQueue \<Rightarrow> KPriorityQueue option) \<Rightarrow> int list \<Rightarrow> KPriorityQueue \<Rightarrow> KPriorityQueue option" where
  "for_cores f [] q = Some q"
| "for_cores f (c # cs) q = (case f c q of None \<Rightarrow> None | Some q' \<Rightarrow> for_cores f cs q')"

definition ChangeAffinityMask ::
  "int \<Rightarrow> u64 \<Rightarrow> KThreadInfo \<Rightarrow> nat \<Rightarrow> KPriorityQueue \<Rightarrow> KPriorityQueue option" where
  "ChangeAffinityMask prev_core prev_affinity t member q =
     (if t_dummy t then Some q
      else
        let priority = t_priority t; new_core = t_active_core t in
        do {
          q1 \<leftarrow> for_cores (\<lambda>core q.
                   if GetAffinity prev_affinity core then
                     on_queue (if core = prev_core then Scheduled else Suggested) (Impl_Remove priority core member) q
                   else Some q) [0 .. NumCores - 1] q;
          for_cores (\<lambda>core q.
                   if GetAffinity (t_affinity t) core then
                     on_queue (if core = new_core then Scheduled else Suggested) (Impl_PushBack priority core member) q
                   else Some q) [0 .. NumCores - 1] q1
        })"

definition ChangeCore ::
  "int \<Rightarrow> KThreadInfo \<Rightarrow> nat \<Rightarrow> bool \<Rightarrow> KPriorityQueue \<Rightarrow> KPriorityQueue option" where
  "ChangeCore prev_core t member to_front q =
     (if t_dummy t then Some q
      else
        let new_core = t_active_core t; priority = t_priority t in
        if prev_core \<noteq> new_core then
          do {
            q1 \<leftarrow> (if prev_core \<ge> 0 then on_queue Scheduled (Impl_Remove priority prev_core member) q else Some q);
            q2 \<leftarrow> (if new_core \<ge> 0 then
                     do {
                       q' \<leftarrow> on_queue Suggested (Impl_Remove priority new_core member) q1;
                       on_queue Scheduled
                         (if to_front then Impl_PushFront priority new_core member
                          else Impl_PushBack priority new_core member) q'
                     }
                   else Some q1);
            (if prev_core \<ge> 0 then on_queue Suggested (Impl_PushBack priority prev_core member) q2 else Some q2)
          }
        else Some q)"

end
