(* ===== verification/Run_Queues.thy ===== *)
theory Run_Queues
  imports K_Priority_Queue
begin

text \<open>
  Correctness of the run queues of \<open>K_Priority_Queue\<close>. The abstraction reads every linked queue as a
  list of threads (\<open>linked\<close>) and the whole structure as the lists of all priorities and cores (\<open>rep\<close>).
  The lemmas show that the pointer operations are the list operations, that the bit sets name the
  non-empty priorities, and that every operation leaves each thread exactly in the queues its
  priority, core and affinity say (\<open>holds\<close>). The locale \<open>run_queue\<close> is the interface the scheduler
  uses; it is interpreted on the queues.
\<close>

section \<open>Linked queues are lists\<close>

text \<open>The ends of a list between two neighbours, and the entries linking the threads between them.\<close>

definition first_of :: "nat list \<Rightarrow> nat option \<Rightarrow> nat option" where
  "first_of xs n = (if xs = [] then n else Some (hd xs))"

definition last_of :: "nat list \<Rightarrow> nat option \<Rightarrow> nat option" where
  "last_of xs p = (if xs = [] then p else Some (last xs))"

lemma ends_simps [simp]:
  "first_of [] n = n" "first_of (x # xs) n = Some x" "last_of [] p = p" "last_of (xs @ ys) p = last_of ys (last_of xs p)"
  "first_of (xs @ ys) n = first_of xs (first_of ys n)" "last_of (x # xs) p = last_of xs (Some x)"
  by (auto simp: first_of_def last_of_def)

fun dll :: "(nat \<Rightarrow> QueueEntry) \<Rightarrow> nat option \<Rightarrow> nat list \<Rightarrow> nat option \<Rightarrow> bool" where
  "dll e p [] n \<longleftrightarrow> True"
| "dll e p (x # xs) n \<longleftrightarrow> qe_prev (e x) = p \<and> qe_next (e x) = first_of xs n \<and> dll e (Some x) xs n"

lemma dll_append [simp]:
  "dll e p (xs @ ys) n \<longleftrightarrow> dll e p xs (first_of ys n) \<and> dll e (last_of xs p) ys n"
  by (induction xs arbitrary: p) auto

lemma dll_frame: "dll e p xs n \<Longrightarrow> (\<And>t. t \<in> set xs \<Longrightarrow> e' t = e t) \<Longrightarrow> dll e' p xs n"
  by (induction xs arbitrary: p) auto

definition linked :: "links \<Rightarrow> nat list \<Rightarrow> bool" where
  "linked l xs \<longleftrightarrow> distinct xs \<and> qe_next (fst l) = first_of xs None \<and> qe_prev (fst l) = last_of xs None \<and>
     dll (snd l) None xs None"

lemma linked_frame:
  "linked (r, e) xs \<Longrightarrow> (\<And>t. t \<in> set xs \<Longrightarrow> e' t = e t) \<Longrightarrow> linked (r, e') xs"
  by (auto simp: linked_def intro: dll_frame)

lemma linked_empty: "linked (QueueEntry_Initialize, e) []"
  by (simp add: linked_def QueueEntry_Initialize_def)

lemmas link_defs = Let_def set_prev_def set_next_def PerCore_GetFront_def

lemma linked_PushBack:
  assumes l: "linked l xs" and m: "m \<notin> set xs"
  shows "fst (PerCore_PushBack m l) \<longleftrightarrow> xs = []" "linked (snd (PerCore_PushBack m l)) (xs @ [m])"
    "t \<notin> set xs \<Longrightarrow> t \<noteq> m \<Longrightarrow> snd (snd (PerCore_PushBack m l)) t = snd l t"
proof -
  show "fst (PerCore_PushBack m l) \<longleftrightarrow> xs = []"
    using l by (simp add: PerCore_PushBack_def Let_def linked_def last_of_def)
  show "t \<notin> set xs \<Longrightarrow> t \<noteq> m \<Longrightarrow> snd (snd (PerCore_PushBack m l)) t = snd l t"
    using l by (auto simp: PerCore_PushBack_def link_defs linked_def last_of_def)
  show "linked (snd (PerCore_PushBack m l)) (xs @ [m])"
  proof (cases xs rule: rev_cases)
    case Nil
    then show ?thesis using l by (simp add: PerCore_PushBack_def linked_def link_defs)
  next
    case (snoc ys x)
    then have d: "distinct (ys @ [x])" "m \<noteq> x" "m \<notin> set ys" "dll (snd l) None ys (Some x)"
      "qe_prev (snd l x) = last_of ys None" "qe_next (fst l) = first_of ys (Some x)"
      "qe_prev (fst l) = Some x" using l m by (auto simp: linked_def)
    have "dll (snd (snd (PerCore_PushBack m l))) None ys (Some x)"
      by (rule dll_frame[OF d(4)]) (use d in \<open>auto simp: PerCore_PushBack_def link_defs\<close>)
    then show ?thesis using d snoc by (auto simp: linked_def PerCore_PushBack_def link_defs)
  qed
qed

lemma linked_PushFront:
  assumes l: "linked l xs" and m: "m \<notin> set xs"
  shows "fst (PerCore_PushFront m l) \<longleftrightarrow> xs = []" "linked (snd (PerCore_PushFront m l)) (m # xs)"
    "t \<notin> set xs \<Longrightarrow> t \<noteq> m \<Longrightarrow> snd (snd (PerCore_PushFront m l)) t = snd l t"
proof -
  show "fst (PerCore_PushFront m l) \<longleftrightarrow> xs = []"
    using l by (simp add: PerCore_PushFront_def Let_def linked_def first_of_def)
  show "t \<notin> set xs \<Longrightarrow> t \<noteq> m \<Longrightarrow> snd (snd (PerCore_PushFront m l)) t = snd l t"
    using l by (auto simp: PerCore_PushFront_def link_defs linked_def first_of_def)
  show "linked (snd (PerCore_PushFront m l)) (m # xs)"
  proof (cases xs)
    case Nil
    then show ?thesis using l by (simp add: PerCore_PushFront_def linked_def link_defs)
  next
    case (Cons x ys)
    then have d: "distinct (x # ys)" "m \<noteq> x" "m \<notin> set ys" "dll (snd l) (Some x) ys None"
      "qe_next (snd l x) = first_of ys None" "qe_next (fst l) = Some x"
      "qe_prev (fst l) = last_of ys (Some x)" using l m by (auto simp: linked_def)
    have "dll (snd (snd (PerCore_PushFront m l))) (Some x) ys None"
      by (rule dll_frame[OF d(4)]) (use d in \<open>auto simp: PerCore_PushFront_def link_defs\<close>)
    then show ?thesis using d Cons
      by (auto simp: linked_def PerCore_PushFront_def link_defs last_of_def)
  qed
qed

lemma linked_Remove:
  assumes l: "linked l (ys @ m # zs)"
  shows "fst (PerCore_Remove m l) \<longleftrightarrow> ys @ zs = []" "linked (snd (PerCore_Remove m l)) (ys @ zs)"
    "t \<notin> set (ys @ zs) \<Longrightarrow> snd (snd (PerCore_Remove m l)) t = snd l t"
proof -
  let ?l = "snd (PerCore_Remove m l)"
  have d: "distinct (ys @ m # zs)" "dll (snd l) None ys (Some m)" "dll (snd l) (Some m) zs None"
    "qe_prev (snd l m) = last_of ys None" "qe_next (snd l m) = first_of zs None"
    "qe_next (fst l) = first_of ys (Some m)" "qe_prev (fst l) = last_of zs (Some m)"
    using l by (auto simp: linked_def last_of_def)
  show lk: "linked ?l (ys @ zs)"
  proof (cases ys rule: rev_cases)
    case Nil
    show ?thesis
    proof (cases zs)
      case Nil
      then show ?thesis using d \<open>ys = []\<close> by (simp add: linked_def PerCore_Remove_def link_defs)
    next
      case (Cons z zs')
      have "dll (snd ?l) (Some z) zs' None"
        by (rule dll_frame[of "snd l"]) (use d Cons \<open>ys = []\<close> in \<open>auto simp: PerCore_Remove_def link_defs\<close>)
      then show ?thesis using d Cons \<open>ys = []\<close> by (auto simp: linked_def PerCore_Remove_def link_defs)
    qed
  next
    case (snoc ys' y)
    then have y: "distinct (ys' @ y # m # zs)" "dll (snd l) None ys' (Some y)"
      "qe_prev (snd l y) = last_of ys' None" "qe_prev (snd l m) = Some y" "qe_next (fst l) = first_of ys' (Some y)"
      using d by auto
    show ?thesis
    proof (cases zs)
      case Nil
      have L: "?l = ((fst l)\<lparr>qe_prev := Some y\<rparr>, (snd l)(y := (snd l y)\<lparr>qe_next := None\<rparr>))"
        using Nil y(4) d(5) by (simp add: PerCore_Remove_def link_defs)
      have "dll (snd ?l) None ys' (Some y)" by (rule dll_frame[OF y(2)]) (use y(1) in \<open>auto simp: L\<close>)
      then show ?thesis unfolding linked_def snoc Nil using y(1,3,5) by (simp add: L)
    next
      case (Cons z zs')
      have z: "dll (snd l) (Some z) zs' None" "qe_next (snd l m) = Some z" "qe_next (snd l z) = first_of zs' None"
        "qe_prev (fst l) = last_of zs' (Some z)" "distinct (ys' @ y # m # z # zs')" using d y(1) Cons by auto
      have L: "?l = (fst l, (snd l)(y := (snd l y)\<lparr>qe_next := Some z\<rparr>, z := (snd l z)\<lparr>qe_prev := Some y\<rparr>))"
        using y(4) z(2,5) by (simp add: PerCore_Remove_def link_defs)
      have "dll (snd ?l) None ys' (Some y)" by (rule dll_frame[OF y(2)]) (use z(5) in \<open>auto simp: L\<close>)
      moreover have "dll (snd ?l) (Some z) zs' None" by (rule dll_frame[OF z(1)]) (use z(5) in \<open>auto simp: L\<close>)
      ultimately show ?thesis unfolding linked_def snoc Cons using y(3,5) z by (simp add: L)
    qed
  qed
  have "fst (PerCore_Remove m l) \<longleftrightarrow> qe_next (fst ?l) = None"
    by (simp add: PerCore_Remove_def Let_def PerCore_GetFront_def)
  then show "fst (PerCore_Remove m l) \<longleftrightarrow> ys @ zs = []"
    using lk by (simp add: linked_def first_of_def split: if_splits)
  assume t: "t \<notin> set (ys @ zs)"
  have "t \<noteq> y" if "last_of ys None = Some y" for y using t that by (auto simp: last_of_def split: if_splits)
  moreover have "t \<noteq> z" if "first_of zs None = Some z" for z using t that by (auto simp: first_of_def split: if_splits)
  ultimately show "snd (snd (PerCore_Remove m l)) t = snd l t"
    using d(4,5) by (simp add: PerCore_Remove_def link_defs split: option.splits)
qed

section \<open>The contents of all queues\<close>

type_synonym contents = "queue_kind \<Rightarrow> nat \<Rightarrow> nat \<Rightarrow> nat list"

definition avail :: "queue_kind \<Rightarrow> nat \<Rightarrow> KPriorityQueue \<Rightarrow> u64 list" where
  "avail k c q = q_available (fst (view k q)) c"

definition core_rep :: "nat \<Rightarrow> KPriorityQueue \<Rightarrow> contents \<Rightarrow> bool" where
  "core_rep c q A \<longleftrightarrow>
     (\<forall>k. \<forall>p<64. linked (q_roots (fst (view k q)) p c, m_entries q c) (A k p c)) \<and>
     (\<forall>k. length (avail k c q) = 1 \<and> bits_set (avail k c q) = {p. p < 64 \<and> A k p c \<noteq> []}) \<and>
     (\<forall>k p k' p'. p < 64 \<and> p' < 64 \<and> (k, p) \<noteq> (k', p') \<longrightarrow> set (A k p c) \<inter> set (A k' p' c) = {})"

definition rep :: "KPriorityQueue \<Rightarrow> contents \<Rightarrow> bool" where
  "rep q A \<longleftrightarrow> (\<forall>c<4. core_rep c q A)"

definition upd :: "contents \<Rightarrow> queue_kind \<Rightarrow> nat \<Rightarrow> nat \<Rightarrow> nat list \<Rightarrow> contents" where
  "upd A k p c xs = (\<lambda>k' p' c'. if k' = k \<and> p' = p \<and> c' = c then xs else A k' p' c')"

lemma upd_same [simp]: "upd A k p c xs k p c = xs"
  by (simp add: upd_def)

lemma upd_other [simp]: "(k', p', c') \<noteq> (k, p, c) \<Longrightarrow> upd A k p c xs k' p' c' = A k' p' c'"
  by (auto simp: upd_def)

text \<open>The state after one queue got new links and its core new available priorities.\<close>

definition relinked :: "queue_kind \<Rightarrow> nat \<Rightarrow> nat \<Rightarrow> links \<Rightarrow> u64 list \<Rightarrow> KPriorityQueue \<Rightarrow> KPriorityQueue" where
  "relinked k p c l ws q =
     put_view k q (put_available (int c) ws (put_links (int p) (int c) l (view k q)))"

lemma relinked_simps:
  "m_entries (relinked k p c l ws q) c' = (if c' = c then snd l else m_entries q c')"
  "avail k' c' (relinked k p c l ws q) = (if k' = k \<and> c' = c then ws else avail k' c' q)"
  "q_roots (fst (view k' (relinked k p c l ws q))) p' c'
    = (if k' = k \<and> p' = p \<and> c' = c then fst l else q_roots (fst (view k' q)) p' c')"
  by (auto simp: relinked_def put_view_def put_available_def put_links_def avail_def view_def
      split: queue_kind.splits)

lemma rep_relinked:
  assumes rep: "rep q A" and pc: "p < 64" "c < 4" and l: "linked l xs"
    and m: "\<And>k' p'. p' < 64 \<Longrightarrow> (k', p') \<noteq> (k, p) \<Longrightarrow> m \<notin> set (A k' p' c)"
    and xs: "set xs \<subseteq> insert m (set (A k p c))"
    and frame: "\<And>t. t \<notin> set (A k p c) \<Longrightarrow> t \<noteq> m \<Longrightarrow> snd l t = m_entries q c t"
    and ws: "length ws = 1" "bits_set ws = (if xs = [] then bits_set (avail k c q) - {p} else insert p (bits_set (avail k c q)))"
  shows "rep (relinked k p c l ws q) (upd A k p c xs)"
  unfolding rep_def
proof (intro allI impI)
  fix c' :: nat assume c': "c' < 4"
  have R: "core_rep c' q A" using rep c' by (simp add: rep_def)
  show "core_rep c' (relinked k p c l ws q) (upd A k p c xs)"
  proof (cases "c' = c")
    case False
    then show ?thesis using R by (simp add: core_rep_def relinked_simps upd_def)
  next
    case True
    have dis: "set (A k1 p1 c) \<inter> set (A k2 p2 c) = {}" if "p1 < 64" "p2 < 64" "(k1, p1) \<noteq> (k2, p2)" for k1 p1 k2 p2
      using R True that unfolding core_rep_def by blast
    have "linked (q_roots (fst (view k' (relinked k p c l ws q))) p' c, m_entries (relinked k p c l ws q) c)
        (upd A k p c xs k' p' c)" if p': "p' < 64" for k' p'
    proof (cases "(k', p') = (k, p)")
      case True
      then show ?thesis using l by (simp add: relinked_simps)
    next
      case other: False
      have "linked (q_roots (fst (view k' q)) p' c, m_entries q c) (A k' p' c)"
        using R True p' by (simp add: core_rep_def)
      then have "linked (q_roots (fst (view k' q)) p' c, snd l) (A k' p' c)"
        by (rule linked_frame) (use dis[OF pc(1) p', of k k'] m[OF p' other] other frame in auto)
      then show ?thesis using other by (auto simp: relinked_simps)
    qed
    moreover have "length (avail k' c (relinked k p c l ws q)) = 1 \<and>
        bits_set (avail k' c (relinked k p c l ws q)) = {p'. p' < 64 \<and> upd A k p c xs k' p' c \<noteq> []}" for k'
      using R True ws pc(1) by (auto simp: core_rep_def relinked_simps upd_def split: if_splits)
    moreover have "set (upd A k p c xs k1 p1 c) \<inter> set (upd A k p c xs k2 p2 c) = {}"
      if t: "p1 < 64" "p2 < 64" "(k1, p1) \<noteq> (k2, p2)" for k1 p1 k2 p2
    proof -
      have new: "set xs \<inter> set (A k' p' c) = {}" if "p' < 64" "(k', p') \<noteq> (k, p)" for k' p'
        using xs m[OF that] dis[OF pc(1) that(1), of k k'] that(2) by auto
      show ?thesis
        using dis[OF t] new[OF t(1)] new[OF t(2)] t(3)
        by (cases "(k1, p1) = (k, p)"; cases "(k2, p2) = (k, p)") (auto simp: upd_def Int_commute)
    qed
    ultimately show ?thesis using True unfolding core_rep_def by simp
  qed
qed

lemma in_range_nat: "p < 64 \<Longrightarrow> c < 4 \<Longrightarrow> in_range (int p) (int c)"
  by (simp add: in_range_def LowestPriority_def IsValidCore_def NumCores_def)

lemma not_above_lowest: "p < 64 \<Longrightarrow> \<not> LowestPriority < int p"
  by (simp add: LowestPriority_def)

lemma relinked_same:
  "relinked k p c l (avail k c q) q = put_view k q (put_links (int p) (int c) l (view k q))"
  by (simp add: relinked_def put_available_def put_links_def avail_def)

lemmas impl_step = on_queue_def in_range_nat not_above_lowest links_of_def Let_def relinked_same
  relinked_def[symmetric] avail_def[symmetric]

lemma core_repD:
  assumes "rep q A" "p < 64" "c < 4"
  shows "linked (q_roots (fst (view k q)) p c, m_entries q c) (A k p c)"
    "length (avail k c q) = 1" "bits_set (avail k c q) = {p. p < 64 \<and> A k p c \<noteq> []}"
  using assms by (auto simp: rep_def core_rep_def)

lemma snd_view [simp]: "snd (view k q) = m_entries q"
  by (simp add: view_def)

lemma avail_put_links [simp]:
  "q_available (fst (put_links (int p) (int c) l s)) = q_available (fst s)"
  by (simp add: put_links_def)

lemma push_rep:
  assumes rep: "rep q A" and pc: "p < 64" "c < 4"
    and m: "\<And>k' p'. p' < 64 \<Longrightarrow> m \<notin> set (A k' p' c)"
  shows "\<exists>q'. on_queue k (Impl_PushBack (int p) (int c) m) q = Some q' \<and> rep q' (upd A k p c (A k p c @ [m]))"
    "\<exists>q'. on_queue k (Impl_PushFront (int p) (int c) m) q = Some q' \<and> rep q' (upd A k p c (m # A k p c))"
proof -
  let ?l = "(q_roots (fst (view k q)) p c, m_entries q c)" and ?ws = "avail k c q"
  note R = core_repD[OF rep pc, of k]
  note B = linked_PushBack[OF R(1) m[OF pc(1)]] and F = linked_PushFront[OF R(1) m[OF pc(1)]]
  obtain ws where ws: "BitSet_SetBit p ?ws = Some ws" "length ws = 1" "bits_set ws = insert p (bits_set ?ws)"
    using bits_set_SetBit[of p ?ws] R(2) pc(1) by auto
  have idem: "insert p (bits_set ?ws) = bits_set ?ws" if "A k p c \<noteq> []" using that R(3) pc(1) by auto
  have 1: "on_queue k (Impl_PushBack (int p) (int c) m) q
      = Some (relinked k p c (snd (PerCore_PushBack m ?l)) (if A k p c = [] then ws else ?ws) q)"
    using pc ws(1) B(1) by (cases "PerCore_PushBack m ?l"; cases "A k p c = []"; simp add: impl_step Impl_PushBack_def)
  have 2: "on_queue k (Impl_PushFront (int p) (int c) m) q
      = Some (relinked k p c (snd (PerCore_PushFront m ?l)) (if A k p c = [] then ws else ?ws) q)"
    using pc ws(1) F(1) by (cases "PerCore_PushFront m ?l"; cases "A k p c = []"; simp add: impl_step Impl_PushFront_def)
  have "rep (relinked k p c (snd (PerCore_PushBack m ?l)) (if A k p c = [] then ws else ?ws) q)
      (upd A k p c (A k p c @ [m]))"
    by (rule rep_relinked[OF rep pc B(2), of k m]) (use m B(3) ws R(2) idem in auto)
  moreover have "rep (relinked k p c (snd (PerCore_PushFront m ?l)) (if A k p c = [] then ws else ?ws) q)
      (upd A k p c (m # A k p c))"
    by (rule rep_relinked[OF rep pc F(2), of k m]) (use m F(3) ws R(2) idem in auto)
  ultimately show "\<exists>q'. on_queue k (Impl_PushBack (int p) (int c) m) q = Some q' \<and> rep q' (upd A k p c (A k p c @ [m]))"
    "\<exists>q'. on_queue k (Impl_PushFront (int p) (int c) m) q = Some q' \<and> rep q' (upd A k p c (m # A k p c))"
    using 1 2 by auto
qed

lemma remove_rep:
  assumes rep: "rep q A" and pc: "p < 64" "c < 4" and m: "m \<in> set (A k p c)"
  shows "\<exists>q'. on_queue k (Impl_Remove (int p) (int c) m) q = Some q' \<and> rep q' (upd A k p c (remove1 m (A k p c)))"
proof -
  let ?l = "(q_roots (fst (view k q)) p c, m_entries q c)" and ?ws = "avail k c q"
  note R = core_repD[OF rep pc, of k]
  obtain ys zs where s: "A k p c = ys @ m # zs" "m \<notin> set ys" using split_list_first[OF m] by blast
  have rm: "remove1 m (A k p c) = ys @ zs" using s by (simp add: remove1_append)
  note B = linked_Remove[OF R(1)[unfolded s(1)]]
  have other: "m \<notin> set (A k' p' c)" if "p' < 64" "(k', p') \<noteq> (k, p)" for k' p'
    using rep pc m that unfolding rep_def core_rep_def by blast
  obtain ws where ws: "BitSet_ClearBit p ?ws = Some ws" "length ws = 1" "bits_set ws = bits_set ?ws - {p}"
    using bits_set_ClearBit[of p ?ws] R(2) pc(1) by auto
  have idem: "insert p (bits_set ?ws) = bits_set ?ws" unfolding R(3) using s(1) pc(1) by auto
  define e where "e \<longleftrightarrow> ys @ zs = []"
  have "on_queue k (Impl_Remove (int p) (int c) m) q
      = Some (relinked k p c (snd (PerCore_Remove m ?l)) (if e then ws else ?ws) q)"
    using pc ws(1) B(1)[folded e_def] by (cases "PerCore_Remove m ?l"; cases e; simp add: impl_step Impl_Remove_def)
  moreover have "rep (relinked k p c (snd (PerCore_Remove m ?l)) (if e then ws else ?ws) q)
      (upd A k p c (ys @ zs))"
    by (rule rep_relinked[OF rep pc B(2), of k m])
      (use other B(3) ws R(2) idem s(1) in \<open>auto simp: e_def split: if_splits\<close>)
  ultimately show ?thesis using rm by simp
qed

section \<open>All queues of one thread\<close>

lemma rep_cong: "(\<And>k p c. p < 64 \<Longrightarrow> c < 4 \<Longrightarrow> A k p c = A' k p c) \<Longrightarrow> rep q A \<longleftrightarrow> rep q A'"
proof -
  assume eq: "\<And>k p c. p < 64 \<Longrightarrow> c < 4 \<Longrightarrow> A k p c = A' k p c"
  have "core_rep c q A \<longleftrightarrow> core_rep c q A'" if "c < 4" for c
    unfolding core_rep_def using eq[OF _ that] by (simp cong: conj_cong)
  then show ?thesis by (simp add: rep_def)
qed

lemma bit_ClearAffinityBit: "c < 64 \<Longrightarrow> bit (ClearAffinityBit (int c) a) j \<longleftrightarrow> bit a j \<and> j \<noteq> c"
  by (auto simp: ClearAffinityBit_def bit_and_iff bit_not_iff bit_exp_iff dest: bit_u64_less)

text \<open>What one queue operation does to the contents, when the lists of its core satisfy \<open>pre\<close>.\<close>

definition acts ::
  "queue_kind \<Rightarrow> nat \<Rightarrow> (int \<Rightarrow> KPriorityQueue \<Rightarrow> KPriorityQueue option) \<Rightarrow>
   ((queue_kind \<Rightarrow> nat \<Rightarrow> nat list) \<Rightarrow> bool) \<Rightarrow> (nat list \<Rightarrow> nat list) \<Rightarrow> bool" where
  "acts k p f pre h \<longleftrightarrow> (\<forall>q A c. rep q A \<and> c < 4 \<and> pre (\<lambda>k p. A k p c) \<longrightarrow>
     (\<exists>q'. f (int c) q = Some q' \<and> rep q' (upd A k p c (h (A k p c)))))"

lemma actsD:
  "acts k p f pre h \<Longrightarrow> rep q A \<Longrightarrow> c < 4 \<Longrightarrow> pre (\<lambda>k p. A k p c) \<Longrightarrow>
    \<exists>q'. f (int c) q = Some q' \<and> rep q' (upd A k p c (h (A k p c)))"
  by (simp add: acts_def)

lemma acts_push:
  assumes "p < 64"
  shows "acts k p (\<lambda>c. on_queue k (Impl_PushBack (int p) c m)) (\<lambda>L. \<forall>k p. p < 64 \<longrightarrow> m \<notin> set (L k p)) (\<lambda>xs. xs @ [m])"
    "acts k p (\<lambda>c. on_queue k (Impl_PushFront (int p) c m)) (\<lambda>L. \<forall>k p. p < 64 \<longrightarrow> m \<notin> set (L k p)) ((#) m)"
    "acts k p (\<lambda>c. on_queue k (Impl_Remove (int p) c m)) (\<lambda>L. m \<in> set (L k p)) (remove1 m)"
  using push_rep remove_rep assms by (simp_all add: acts_def)

lemma for_affinity_acts:
  assumes "acts k p f pre h" "rep q A" "\<And>c. bit a c \<Longrightarrow> c < 4 \<and> pre (\<lambda>k p. A k p c)"
  shows "\<exists>q'. for_affinity f a q = Some q' \<and>
    rep q' (\<lambda>k' p' c. if k' = k \<and> p' = p \<and> bit a c then h (A k p c) else A k' p' c)"
  using assms
proof (induction f a q arbitrary: A rule: for_affinity.induct)
  case (1 f a q)
  show ?case
  proof (cases "a = 0")
    case True
    then show ?thesis using "1.prems"(2) by (simp add: for_affinity.simps[of f 0])
  next
    case False
    define c where "c = countr_zero a"
    have c: "bit a c" "c < 64" using countr_zero_set[OF False] by (auto simp: c_def)
    have nc: "GetNextCore a = (int c, ClearAffinityBit (int c) a)" by (simp add: GetNextCore_def c_def Let_def)
    obtain q1 where q1: "f (int c) q = Some q1" "rep q1 (upd A k p c (h (A k p c)))"
      using actsD[OF "1.prems"(1,2)] "1.prems"(3)[OF c(1)] by blast
    let ?a = "ClearAffinityBit (int c) a" and ?A = "upd A k p c (h (A k p c))"
    have fq: "f (fst (GetNextCore a)) q = Some q1" using q1(1) nc by simp
    have "\<exists>q'. for_affinity f (snd (GetNextCore a)) q1 = Some q' \<and>
        rep q' (\<lambda>k' p' c'. if k' = k \<and> p' = p \<and> bit (snd (GetNextCore a)) c' then h (?A k p c') else ?A k' p' c')"
      by (rule "1.IH"[OF False fq "1.prems"(1) q1(2)])
        (use "1.prems"(3) c(2) nc in \<open>auto simp: bit_ClearAffinityBit upd_def\<close>)
    moreover have "(\<lambda>k' p' c'. if k' = k \<and> p' = p \<and> bit ?a c' then h (?A k p c') else ?A k' p' c')
      = (\<lambda>k' p' c'. if k' = k \<and> p' = p \<and> bit a c' then h (A k p c') else A k' p' c')"
      using c by (auto simp: fun_eq_iff bit_ClearAffinityBit upd_def)
    ultimately show ?thesis using False fq nc by (simp add: for_affinity.simps[of f a])
  qed
qed

lemma for_affinity_idle: "for_affinity (\<lambda>c q. Some q) a q = Some q"
proof (induction "unat a" arbitrary: a rule: less_induct)
  case less
  have "unat (snd (GetNextCore a)) < unat a" if "a \<noteq> 0"
    using clear_bit_less countr_zero_set[OF that] by (simp add: GetNextCore_def ClearAffinityBit_def Let_def)
  then show ?case using less by (subst for_affinity.simps) simp
qed

lemma above_lowest_idle:
  assumes "LowestPriority < p"
  shows "(\<lambda>c. on_queue k (Impl_PushBack p c m)) = (\<lambda>c q. Some q)" "(\<lambda>c. on_queue k (Impl_PushFront p c m)) = (\<lambda>c q. Some q)"
    "(\<lambda>c. on_queue k (Impl_Remove p c m)) = (\<lambda>c q. Some q)"
  using assms by (auto simp: fun_eq_iff on_queue_def Impl_PushBack_def Impl_PushFront_def Impl_Remove_def
      put_view_def view_def split: queue_kind.splits)

text \<open>Where a thread belongs.\<close>

definition wanted :: "KThreadInfo \<Rightarrow> queue_kind \<Rightarrow> nat \<Rightarrow> bool" where
  "wanted t k c \<longleftrightarrow> (case k of Scheduled \<Rightarrow> t_active_core t = int c
     | Suggested \<Rightarrow> bit (t_affinity t) c \<and> t_active_core t \<noteq> int c)"

definition valid_thread :: "KThreadInfo \<Rightarrow> bool" where
  "valid_thread t \<longleftrightarrow> IsValidPriority (t_priority t) \<and> -1 \<le> t_active_core t \<and> t_active_core t < NumCores \<and>
     t_affinity t AND NOT (mask 4) = 0 \<and> (0 \<le> t_active_core t \<longrightarrow> GetAffinity (t_affinity t) (t_active_core t))"

lemma GetAffinity_bit: "GetAffinity a (int c) \<longleftrightarrow> bit a c"
  by (simp add: GetAffinity_def and_exp_eq_0_iff_not_bit)

lemma valid_threadD:
  assumes "valid_thread t"
  shows "bit (t_affinity t) c \<Longrightarrow> c < 4" "wanted t k c \<Longrightarrow> c < 4"
    "t_active_core t = -1 \<or> (\<exists>c<4. t_active_core t = int c \<and> bit (t_affinity t) c)"
proof -
  have b: "c < 4" if "bit (t_affinity t) c" for c
  proof (rule ccontr)
    assume "\<not> c < 4"
    then have "bit (t_affinity t AND NOT (mask 4)) c"
      using that bit_u64_less[OF that] by (simp add: bit_and_iff bit_not_iff bit_mask_iff)
    then show False using assms by (simp add: valid_thread_def)
  qed
  then show "bit (t_affinity t) c \<Longrightarrow> c < 4" .
  show "wanted t k c \<Longrightarrow> c < 4"
    using b assms by (auto simp: wanted_def valid_thread_def NumCores_def split: queue_kind.splits)
  show "t_active_core t = -1 \<or> (\<exists>c<4. t_active_core t = int c \<and> bit (t_affinity t) c)"
  proof (cases "0 \<le> t_active_core t")
    case True
    then obtain c where c: "t_active_core t = int c" by (metis nonneg_int_cases)
    then have "c < 4" using assms by (simp add: valid_thread_def NumCores_def)
    then show ?thesis using assms c True GetAffinity_bit by (auto simp: valid_thread_def)
  qed (use assms in \<open>auto simp: valid_thread_def\<close>)
qed

definition placing :: "(queue_kind \<Rightarrow> nat list \<Rightarrow> nat list) \<Rightarrow> KThreadInfo \<Rightarrow> nat \<Rightarrow> contents \<Rightarrow> contents" where
  "placing h t p A = (\<lambda>k p' c. if p' = p \<and> wanted t k c then h k (A k p' c) else A k p' c)"

text \<open>The common shape of enqueueing and dequeueing: the scheduled queue of the thread's core, then the
  suggested queues of its other cores.\<close>

lemma spread_rep:
  assumes t: "valid_thread t" and rep: "rep q A"
    and fS: "acts Scheduled p fS preS (h Scheduled)" and fG: "acts Suggested p fG preG (h Suggested)"
    and pre: "\<And>c. wanted t Scheduled c \<Longrightarrow> preS (\<lambda>k p. A k p c)" "\<And>c. wanted t Suggested c \<Longrightarrow> preG (\<lambda>k p. A k p c)"
  shows "\<exists>q'. do { q1 \<leftarrow> (if t_active_core t \<ge> 0 then fS (t_active_core t) q else Some q);
      for_affinity fG (if t_active_core t \<ge> 0 then ClearAffinityBit (t_active_core t) (t_affinity t) else t_affinity t) q1 }
    = Some q' \<and> rep q' (placing h t p A)"
proof (cases "t_active_core t = -1")
  case True
  have "\<exists>q'. for_affinity fG (t_affinity t) q = Some q' \<and>
    rep q' (\<lambda>k' p' c. if k' = Suggested \<and> p' = p \<and> bit (t_affinity t) c then h Suggested (A Suggested p c) else A k' p' c)"
    by (rule for_affinity_acts[OF fG rep])
      (use True pre valid_threadD(1)[OF t] in \<open>auto simp: wanted_def\<close>)
  moreover have "(\<lambda>k' p' c. if k' = Suggested \<and> p' = p \<and> bit (t_affinity t) c then h Suggested (A Suggested p c) else A k' p' c)
      = placing h t p A"
    using True by (auto simp: placing_def wanted_def fun_eq_iff split: queue_kind.splits)
  ultimately show ?thesis using True by simp
next
  case False
  then obtain c where c: "c < 4" "t_active_core t = int c" using valid_threadD(3)[OF t] by blast
  obtain q1 where q1: "fS (int c) q = Some q1" "rep q1 (upd A Scheduled p c (h Scheduled (A Scheduled p c)))"
    using actsD[OF fS rep c(1)] pre(1)[of c] c(2) by (auto simp: wanted_def)
  let ?a = "ClearAffinityBit (int c) (t_affinity t)" and ?A = "upd A Scheduled p c (h Scheduled (A Scheduled p c))"
  have a: "bit ?a j \<longleftrightarrow> wanted t Suggested j" for j
    using c by (auto simp: bit_ClearAffinityBit wanted_def)
  have "\<exists>q'. for_affinity fG ?a q1 = Some q' \<and>
    rep q' (\<lambda>k' p' j. if k' = Suggested \<and> p' = p \<and> bit ?a j then h Suggested (?A Suggested p j) else ?A k' p' j)"
    by (rule for_affinity_acts[OF fG q1(2)])
      (use pre(2) valid_threadD(1)[OF t] c(2) in \<open>auto simp: a upd_def wanted_def\<close>)
  moreover have "(\<lambda>k' p' j. if k' = Suggested \<and> p' = p \<and> bit ?a j then h Suggested (?A Suggested p j) else ?A k' p' j)
      = placing h t p A"
    using c(2) unfolding a by (auto simp: placing_def wanted_def upd_def fun_eq_iff split: queue_kind.splits)
  ultimately show ?thesis using c(2) q1(1) by simp
qed

section \<open>Every thread where it belongs\<close>

text \<open>The queues hold exactly the threads of \<open>T\<close>, each where its state \<open>I\<close> says: a thread that is not
  a dummy and has a real priority stands in the scheduled queue of its core and in the suggested queues
  of the other cores of its mask.\<close>

definition belongs :: "(nat \<Rightarrow> KThreadInfo) \<Rightarrow> nat set \<Rightarrow> queue_kind \<Rightarrow> nat \<Rightarrow> nat \<Rightarrow> nat set" where
  "belongs I T k p c = {m \<in> T. \<not> t_dummy (I m) \<and> t_priority (I m) = int p \<and> wanted (I m) k c}"

definition holds :: "KPriorityQueue \<Rightarrow> (nat \<Rightarrow> KThreadInfo) \<Rightarrow> nat set \<Rightarrow> contents \<Rightarrow> bool" where
  "holds q I T A \<longleftrightarrow> rep q A \<and> (\<forall>m\<in>T. valid_thread (I m)) \<and>
     (\<forall>k p c. p < 64 \<longrightarrow> c < 4 \<longrightarrow> set (A k p c) = belongs I T k p c)"

definition queued :: "KThreadInfo \<Rightarrow> bool" where
  "queued t \<longleftrightarrow> \<not> t_dummy t \<and> t_priority t \<le> LowestPriority"

definition placing_if :: "(queue_kind \<Rightarrow> nat list \<Rightarrow> nat list) \<Rightarrow> KThreadInfo \<Rightarrow> contents \<Rightarrow> contents" where
  "placing_if h t A = (if queued t then placing h t (nat (t_priority t)) A else A)"

lemma queued_priority: "valid_thread t \<Longrightarrow> queued t \<Longrightarrow> \<exists>p<64. t_priority t = int p"
  by (rule exI[of _ "nat (t_priority t)"])
    (auto simp: valid_thread_def queued_def IsValidPriority_def LowestPriority_def HighestPriority_def)

lemma holds_notin:
  "holds q I T A \<Longrightarrow> m \<notin> T \<Longrightarrow> p < 64 \<Longrightarrow> c < 4 \<Longrightarrow> m \<notin> set (A k p c)"
  by (simp add: holds_def belongs_def)

lemma holds_in:
  "holds q I T A \<Longrightarrow> p < 64 \<Longrightarrow> c < 4 \<Longrightarrow> m \<in> set (A k p c) \<longleftrightarrow>
    m \<in> T \<and> \<not> t_dummy (I m) \<and> t_priority (I m) = int p \<and> wanted (I m) k c"
  by (simp add: holds_def belongs_def)

lemma holds_distinct: "holds q I T A \<Longrightarrow> p < 64 \<Longrightarrow> c < 4 \<Longrightarrow> distinct (A k p c)"
  using core_repD(1) by (auto simp: holds_def linked_def)

lemma holds_other_thread:
  assumes "m \<notin> T" shows "holds q (I(m := t)) T A \<longleftrightarrow> holds q I T A"
proof -
  have "belongs (I(m := t)) T k p c = belongs I T k p c" for k p c using assms by (auto simp: belongs_def)
  moreover have "(\<forall>x\<in>T. valid_thread ((I(m := t)) x)) \<longleftrightarrow> (\<forall>x\<in>T. valid_thread (I x))" using assms by auto
  ultimately show ?thesis by (simp add: holds_def)
qed

lemma idle_ops:
  assumes "LowestPriority < p"
  shows "PushBack_priority p t m q = Some q" "PushFront_priority p t m q = Some q" "Remove_priority p t m q = Some q"
proof -
  note e = above_lowest_idle[OF assms]
  note p = fun_cong[OF fun_cong[OF e(1)]] fun_cong[OF fun_cong[OF e(2)]] fun_cong[OF fun_cong[OF e(3)]]
  show "PushBack_priority p t m q = Some q" "PushFront_priority p t m q = Some q" "Remove_priority p t m q = Some q"
    unfolding PushBack_priority_def PushFront_priority_def Remove_priority_def Let_def e
    by (simp_all add: for_affinity_idle p)
qed

lemma belongs_insert:
  "m \<notin> T \<Longrightarrow> belongs I (insert m T) k p c = (if \<not> t_dummy (I m) \<and> t_priority (I m) = int p \<and> wanted (I m) k c
     then insert m (belongs I T k p c) else belongs I T k p c)"
  by (auto simp: belongs_def)

lemma belongs_remove:
  "belongs I (T - {m}) k p c = belongs I T k p c - {m}"
  by (auto simp: belongs_def)

lemma not_queued_belongs:
  "\<not> queued (I m) \<Longrightarrow> p < 64 \<Longrightarrow> belongs I (insert m T) k p c = belongs I (T - {m}) k p c"
  by (auto simp: belongs_def queued_def LowestPriority_def)

lemma holds_not_queued:
  assumes "\<not> queued (I m)" "valid_thread (I m)" "holds q I T A"
  shows "holds q I (insert m T) A" "holds q I (T - {m}) A"
proof -
  have "belongs I (insert m T) k p c = belongs I T k p c" "belongs I (T - {m}) k p c = belongs I T k p c" if "p < 64" for k p c
    using assms(1) that by (auto simp: belongs_def queued_def LowestPriority_def)
  then show "holds q I (insert m T) A" "holds q I (T - {m}) A" using assms(2,3) by (auto simp: holds_def)
qed

text \<open>Putting a thread in with any placement that only adds it, and taking it out.\<close>

lemma holds_add:
  assumes h: "holds q I T A" and m: "m \<notin> T" "valid_thread (I m)" "queued (I m)"
    and rep: "rep q' (placing g (I m) (nat (t_priority (I m))) A)"
    and g: "\<And>k xs. set (g k xs) = insert m (set xs)"
  shows "holds q' I (insert m T) (placing_if g (I m) A)"
proof -
  obtain p0 where p0: "p0 < 64" "t_priority (I m) = int p0" using queued_priority[OF m(2,3)] by blast
  have "set (placing_if g (I m) A k p c) = belongs I (insert m T) k p c" if "p < 64" "c < 4" for k p c
  proof -
    have "set (A k p c) = belongs I T k p c" using h that by (simp add: holds_def)
    then show ?thesis using m(1,3) p0 g by (auto simp: placing_if_def placing_def belongs_insert queued_def)
  qed
  then show ?thesis using h m(2,3) rep by (auto simp: holds_def placing_if_def)
qed

lemma holds_drop:
  assumes h: "holds q I T A" and m: "m \<in> T" "queued (I m)"
    and rep: "rep q' (placing (\<lambda>k. remove1 m) (I m) (nat (t_priority (I m))) A)"
  shows "holds q' I (T - {m}) (placing_if (\<lambda>k. remove1 m) (I m) A)"
proof -
  obtain p0 where p0: "p0 < 64" "t_priority (I m) = int p0" 
    using queued_priority[OF _ m(2)] m(1) h by (auto simp: holds_def)
  have "set (placing_if (\<lambda>k. remove1 m) (I m) A k p c) = belongs I (T - {m}) k p c" if "p < 64" "c < 4" for k p c
  proof -
    have e: "set (A k p c) = belongs I T k p c" using h that by (simp add: holds_def)
    have "m \<notin> belongs I T k p c" if "\<not> (p = p0 \<and> wanted (I m) k c)" using that p0 by (auto simp: belongs_def)
    then show ?thesis using m(2) p0 holds_distinct[OF h that, of k] e
      by (auto simp: placing_if_def placing_def belongs_remove set_remove1_eq)
  qed
  then show ?thesis using h m(2) rep by (auto simp: holds_def placing_if_def)
qed

lemma spread_eqs:
  "PushBack_priority p t m q = do { q1 \<leftarrow> (if t_active_core t \<ge> 0 then on_queue Scheduled (Impl_PushBack p (t_active_core t) m) q else Some q);
      for_affinity (\<lambda>c. on_queue Suggested (Impl_PushBack p c m)) (if t_active_core t \<ge> 0 then ClearAffinityBit (t_active_core t) (t_affinity t) else t_affinity t) q1 }"
  "PushFront_priority p t m q = do { q1 \<leftarrow> (if t_active_core t \<ge> 0 then on_queue Scheduled (Impl_PushFront p (t_active_core t) m) q else Some q);
      for_affinity (\<lambda>c. on_queue Suggested (Impl_PushBack p c m)) (if t_active_core t \<ge> 0 then ClearAffinityBit (t_active_core t) (t_affinity t) else t_affinity t) q1 }"
  "Remove_priority p t m q = do { q1 \<leftarrow> (if t_active_core t \<ge> 0 then on_queue Scheduled (Impl_Remove p (t_active_core t) m) q else Some q);
      for_affinity (\<lambda>c. on_queue Suggested (Impl_Remove p c m)) (if t_active_core t \<ge> 0 then ClearAffinityBit (t_active_core t) (t_affinity t) else t_affinity t) q1 }"
  by (simp_all only: PushBack_priority_def PushFront_priority_def Remove_priority_def Let_def)

lemma attach_holds:
  assumes h: "holds q I T A" and m: "m \<notin> T" "valid_thread (I m)" "\<not> t_dummy (I m)"
  shows "\<exists>q'. PushBack_priority (t_priority (I m)) (I m) m q = Some q' \<and>
      holds q' I (insert m T) (placing_if (\<lambda>k xs. xs @ [m]) (I m) A)"
    "\<exists>q'. PushFront_priority (t_priority (I m)) (I m) m q = Some q' \<and>
      holds q' I (insert m T) (placing_if (\<lambda>k xs. if k = Scheduled then m # xs else xs @ [m]) (I m) A)"
proof -
  have "(\<exists>q'. PushBack_priority (t_priority (I m)) (I m) m q = Some q' \<and>
      holds q' I (insert m T) (placing_if (\<lambda>k xs. xs @ [m]) (I m) A)) \<and>
    (\<exists>q'. PushFront_priority (t_priority (I m)) (I m) m q = Some q' \<and>
      holds q' I (insert m T) (placing_if (\<lambda>k xs. if k = Scheduled then m # xs else xs @ [m]) (I m) A))"
  proof (cases "queued (I m)")
    case False
    then have "LowestPriority < t_priority (I m)" using m(3) by (simp add: queued_def)
    then show ?thesis using idle_ops holds_not_queued(1)[OF False m(2) h] False by (simp add: placing_if_def)
  next
    case True
    obtain p where p: "p < 64" "t_priority (I m) = int p" using queued_priority[OF m(2) True] by blast
    have rep: "rep q A" using h by (simp add: holds_def)
    have pre: "\<forall>k p. p < 64 \<longrightarrow> m \<notin> set (A k p c)" if "wanted (I m) k c" for k c
      using holds_notin[OF h m(1) _ valid_threadD(2)[OF m(2) that]] by blast
    let ?b = "\<lambda>k :: queue_kind. \<lambda>xs. xs @ [m]" and ?f = "\<lambda>k xs. if k = Scheduled then m # xs else xs @ [m]"
    have b: "\<exists>q'. PushBack_priority (int p) (I m) m q = Some q' \<and> rep q' (placing ?b (I m) p A)"
      unfolding spread_eqs
      by (rule spread_rep[OF m(2) rep acts_push(1)[OF p(1)] acts_push(1)[OF p(1)]]) (use pre in auto)
    have f: "\<exists>q'. PushFront_priority (int p) (I m) m q = Some q' \<and> rep q' (placing ?f (I m) p A)"
      unfolding spread_eqs
      by (rule spread_rep[OF m(2) rep, where h = ?f and fS = "\<lambda>c. on_queue Scheduled (Impl_PushFront (int p) c m)"
            and fG = "\<lambda>c. on_queue Suggested (Impl_PushBack (int p) c m)"
            and preS = "\<lambda>L. \<forall>k p. p < 64 \<longrightarrow> m \<notin> set (L k p)" and preG = "\<lambda>L. \<forall>k p. p < 64 \<longrightarrow> m \<notin> set (L k p)"])
        (use pre acts_push(1)[OF p(1), of Suggested m] acts_push(2)[OF p(1), of Scheduled m] in auto)
    show ?thesis
      using b f holds_add[OF h m(1,2) True, of _ ?b] holds_add[OF h m(1,2) True, of _ ?f] p(2) by auto
  qed
  then show "\<exists>q'. PushBack_priority (t_priority (I m)) (I m) m q = Some q' \<and>
      holds q' I (insert m T) (placing_if (\<lambda>k xs. xs @ [m]) (I m) A)"
    "\<exists>q'. PushFront_priority (t_priority (I m)) (I m) m q = Some q' \<and>
      holds q' I (insert m T) (placing_if (\<lambda>k xs. if k = Scheduled then m # xs else xs @ [m]) (I m) A)" by auto
qed

lemma detach_holds:
  assumes h: "holds q I T A" and m: "m \<in> T" "\<not> t_dummy (I m)"
  shows "\<exists>q'. Remove_priority (t_priority (I m)) (I m) m q = Some q' \<and>
      holds q' I (T - {m}) (placing_if (\<lambda>k. remove1 m) (I m) A)"
proof (cases "queued (I m)")
  case False
  have v: "valid_thread (I m)" using h m(1) by (simp add: holds_def)
  have "LowestPriority < t_priority (I m)" using m(2) False by (simp add: queued_def)
  then show ?thesis using idle_ops holds_not_queued(2)[OF False v h] False by (simp add: placing_if_def)
next
  case True
  have v: "valid_thread (I m)" and rep: "rep q A" using h m(1) by (auto simp: holds_def)
  obtain p where p: "p < 64" "t_priority (I m) = int p" using queued_priority[OF v True] by blast
  have pre: "m \<in> set (A k p c)" if "wanted (I m) k c" for k c
    using holds_in[OF h p(1) valid_threadD(2)[OF v that], of m k] m p(2) that by simp
  have "\<exists>q'. Remove_priority (int p) (I m) m q = Some q' \<and> rep q' (placing (\<lambda>k. remove1 m) (I m) p A)"
    unfolding spread_eqs
    by (rule spread_rep[OF v rep acts_push(3)[OF p(1)] acts_push(3)[OF p(1)]]) (use pre in auto)
  then show ?thesis using holds_drop[OF h m(1) True] p(2) by auto
qed

text \<open>The operations on a thread, as transitions of the set of queued threads and their states.\<close>

lemma PushBack_holds:
  assumes "holds q I T A" "m \<notin> T" "valid_thread (I m)"
  shows "\<exists>q'. KPriorityQueue_PushBack (I m) m q = Some q' \<and>
    holds q' I (insert m T) (placing_if (\<lambda>k xs. xs @ [m]) (I m) A)"
proof (cases "t_dummy (I m)")
  case True
  then have "\<not> queued (I m)" by (simp add: queued_def)
  then show ?thesis using True holds_not_queued(1)[OF _ assms(3,1)]
    by (simp add: KPriorityQueue_PushBack_def placing_if_def)
qed (use attach_holds(1)[OF assms] in \<open>simp add: KPriorityQueue_PushBack_def\<close>)

lemma Remove_holds:
  assumes "holds q I T A" "m \<in> T"
  shows "\<exists>q'. KPriorityQueue_Remove (I m) m q = Some q' \<and>
    holds q' I (T - {m}) (placing_if (\<lambda>k. remove1 m) (I m) A)"
proof (cases "t_dummy (I m)")
  case True
  have "valid_thread (I m)" using assms by (simp add: holds_def)
  moreover have "\<not> queued (I m)" using True by (simp add: queued_def)
  ultimately show ?thesis using True holds_not_queued(2)[of I m q T A] assms(1)
    by (simp add: KPriorityQueue_Remove_def placing_if_def)
qed (use detach_holds[OF assms] in \<open>simp add: KPriorityQueue_Remove_def\<close>)

lemma same_core_affinity:
  "t_active_core t' = t_active_core t \<Longrightarrow> t_affinity t' = t_affinity t \<Longrightarrow>
    Remove_priority p t' m q = Remove_priority p t m q"
  by (simp only: Remove_priority_def)

lemma ChangePriority_holds:
  assumes h: "holds q I T A" and m: "m \<in> T" and t: "t = (I m)\<lparr>t_priority := p\<rparr>" "valid_thread t"
  shows "\<exists>q'. ChangePriority (t_priority (I m)) running t m q = Some q' \<and>
    holds q' (I(m := t)) T (placing_if (\<lambda>k xs. if running \<and> k = Scheduled then m # xs else xs @ [m]) t
      (placing_if (\<lambda>k. remove1 m) (I m) A))"
proof (cases "t_dummy (I m)")
  case True
  have v: "valid_thread (I m)" using h m by (simp add: holds_def)
  have nq: "\<not> queued (I m)" "\<not> queued ((I(m := t)) m)" using True t(1) by (auto simp: queued_def)
  have "holds q I (T - {m}) A" by (rule holds_not_queued(2)[OF nq(1) v h])
  then have "holds q (I(m := t)) (T - {m}) A" by (simp add: holds_other_thread)
  from holds_not_queued(1)[OF nq(2) _ this] have "holds q (I(m := t)) T A" using t(2) m by (simp add: insert_absorb)
  then show ?thesis using True t(1) nq by (simp add: ChangePriority_def placing_if_def queued_def)
next
  case False
  let ?A1 = "placing_if (\<lambda>k. remove1 m) (I m) A"
  define J where "J = I(m := t)"
  obtain q1 where q1: "Remove_priority (t_priority (I m)) (I m) m q = Some q1" "holds q1 I (T - {m}) ?A1"
    using detach_holds[OF h m False] by blast
  have h1: "holds q1 J (T - {m}) ?A1" using q1(2) by (simp add: holds_other_thread J_def)
  have rm: "Remove_priority (t_priority (I m)) t m q = Some q1"
    using q1(1) same_core_affinity[of t "I m"] t(1) by simp
  have ins: "insert m (T - {m}) = T" using m by auto
  have d: "\<not> t_dummy (J m)" "J m = t" "m \<notin> T - {m}" "valid_thread (J m)" using False t by (auto simp: J_def)
  note at = attach_holds[OF h1 d(3,4,1), unfolded d(2) ins]
  show ?thesis unfolding J_def[symmetric]
  proof (cases running)
    case True
    then show "\<exists>q'. ChangePriority (t_priority (I m)) running t m q = Some q' \<and> holds q' J T
        (placing_if (\<lambda>k xs. if running \<and> k = Scheduled then m # xs else xs @ [m]) t ?A1)"
      using at(2) rm d(1,2) by (auto simp: ChangePriority_def)
  next
    case nr: False
    then show "\<exists>q'. ChangePriority (t_priority (I m)) running t m q = Some q' \<and> holds q' J T
        (placing_if (\<lambda>k xs. if running \<and> k = Scheduled then m # xs else xs @ [m]) t ?A1)"
      using at(1) rm d(1,2) by (auto simp: ChangePriority_def)
  qed
qed

lemma for_cores_acts:
  assumes "\<And>k. acts k p (\<lambda>c. on_queue k (opr c)) (pre k) h" "rep q A" "distinct cs"
    and "\<And>c. c \<in> set cs \<Longrightarrow> c < 4 \<and> (S (int c) \<longrightarrow> pre (kind (int c)) (\<lambda>k p. A k p c))"
  shows "\<exists>q'. for_cores (\<lambda>core q. if S core then on_queue (kind core) (opr core) q else Some q) (map int cs) q = Some q' \<and>
    rep q' (\<lambda>k p' c. if p' = p \<and> c \<in> set cs \<and> S (int c) \<and> k = kind (int c) then h (A k p' c) else A k p' c)"
  using assms(2-4)
proof (induction cs arbitrary: q A)
  case (Cons c cs)
  define A1 where "A1 = (if S (int c) then upd A (kind (int c)) p c (h (A (kind (int c)) p c)) else A)"
  have c4: "c < 4" and pre: "S (int c) \<longrightarrow> pre (kind (int c)) (\<lambda>k p. A k p c)" using Cons.prems(3)[of c] by auto
  obtain q1 where q1: "(if S (int c) then on_queue (kind (int c)) (opr (int c)) q else Some q) = Some q1" "rep q1 A1"
    using actsD[OF assms(1) Cons.prems(1) c4, of "kind (int c)"] pre Cons.prems(1)
    by (cases "S (int c)") (auto simp: A1_def)
  have nc: "c \<notin> set cs" "distinct cs" using Cons.prems(2) by auto
  have same: "A1 k p' c' = A k p' c'" if "c' \<noteq> c" for k p' c' using that by (simp add: A1_def upd_def)
  have "\<exists>q'. for_cores (\<lambda>core q. if S core then on_queue (kind core) (opr core) q else Some q) (map int cs) q1 = Some q' \<and>
    rep q' (\<lambda>k p' c'. if p' = p \<and> c' \<in> set cs \<and> S (int c') \<and> k = kind (int c') then h (A1 k p' c') else A1 k p' c')"
  proof (rule Cons.IH[OF q1(2) nc(2)])
    fix c' assume c': "c' \<in> set cs"
    then have "c' \<noteq> c" using nc(1) by auto
    then have "(\<lambda>k p. A1 k p c') = (\<lambda>k p. A k p c')" using same by simp
    then show "c' < 4 \<and> (S (int c') \<longrightarrow> pre (kind (int c')) (\<lambda>k p. A1 k p c'))" using Cons.prems(3)[of c'] c' by auto
  qed
  moreover have "(\<lambda>k p' c'. if p' = p \<and> c' \<in> set cs \<and> S (int c') \<and> k = kind (int c') then h (A1 k p' c') else A1 k p' c')
    = (\<lambda>k p' c'. if p' = p \<and> c' \<in> set (c # cs) \<and> S (int c') \<and> k = kind (int c') then h (A k p' c') else A k p' c')"
    using nc(1) by (auto simp: fun_eq_iff A1_def upd_def)
  ultimately show ?case using q1(1) by simp
qed simp

lemma all_cores: "[0 .. NumCores - 1] = map int [0, 1, 2, 3]"
  by (simp add: NumCores_def upto_rec1)

text \<open>Over all cores of a thread's mask this is the placement of that thread.\<close>

lemma mask_loop_rep:
  assumes acts: "\<And>k. acts k p (\<lambda>c. on_queue k (opr c)) (pre k) h" and rep: "rep q A" and t: "valid_thread t"
    and pre: "\<And>k c. wanted t k c \<Longrightarrow> pre k (\<lambda>k p. A k p c)"
  shows "\<exists>q'. for_cores (\<lambda>core q. if GetAffinity (t_affinity t) core
      then on_queue (if core = t_active_core t then Scheduled else Suggested) (opr core) q else Some q) [0 .. NumCores - 1] q = Some q' \<and>
    rep q' (placing (\<lambda>k. h) t p A)"
proof -
  let ?kind = "\<lambda>core. if core = t_active_core t then Scheduled else Suggested"
  have w: "wanted t k c \<longleftrightarrow> bit (t_affinity t) c \<and> k = ?kind (int c)" for k c
    using valid_threadD(3)[OF t] by (cases k) (auto simp: wanted_def)
  have "\<exists>q'. for_cores (\<lambda>core q. if GetAffinity (t_affinity t) core then on_queue (?kind core) (opr core) q else Some q)
      (map int [0, 1, 2, 3]) q = Some q' \<and>
    rep q' (\<lambda>k p' c. if p' = p \<and> c \<in> set [0, 1, 2, 3] \<and> GetAffinity (t_affinity t) (int c) \<and> k = ?kind (int c)
      then h (A k p' c) else A k p' c)"
    by (rule for_cores_acts[OF acts rep]) (use pre w in \<open>auto simp: GetAffinity_bit\<close>)
  moreover have "(\<lambda>k p' c. if p' = p \<and> c \<in> set [0, 1, 2, 3] \<and> GetAffinity (t_affinity t) (int c) \<and> k = ?kind (int c)
      then h (A k p' c) else A k p' c) = placing (\<lambda>k. h) t p A"
  proof -
    have "c \<in> set [0, 1, 2, 3]" if "bit (t_affinity t) c" for c using valid_threadD(1)[OF t that] by auto
    then show ?thesis unfolding placing_def w GetAffinity_bit by (auto simp: fun_eq_iff)
  qed
  ultimately show ?thesis unfolding all_cores by simp
qed

lemma for_cores_idle: "(\<And>c q. f c q = Some q) \<Longrightarrow> for_cores f cs q = Some q"
  by (induction cs) (simp_all del: for_cores.simps add: for_cores.simps)

lemma ChangeAffinityMask_holds:
  assumes h: "holds q I T A" and m: "m \<in> T"
    and t: "t_priority t = t_priority (I m)" "t_dummy t = t_dummy (I m)" "valid_thread t"
  shows "\<exists>q'. ChangeAffinityMask (t_active_core (I m)) (t_affinity (I m)) t m q = Some q' \<and>
    holds q' (I(m := t)) T (placing_if (\<lambda>k xs. xs @ [m]) t (placing_if (\<lambda>k. remove1 m) (I m) A))"
proof (cases "queued (I m)")
  case False
  have v: "valid_thread (I m)" using h m by (simp add: holds_def)
  define J where "J = I(m := t)"
  have nq: "\<not> queued (J m)" "\<not> queued t" using False t(1,2) by (auto simp: queued_def J_def)
  have "holds q J (T - {m}) A" using holds_not_queued(2)[OF False v h] by (simp add: holds_other_thread J_def)
  from holds_not_queued(1)[OF nq(1) _ this] have hJ: "holds q J T A" using t(3) m by (simp add: insert_absorb J_def)
  have "ChangeAffinityMask (t_active_core (I m)) (t_affinity (I m)) t m q = Some q"
  proof (cases "t_dummy t")
    case nd: False
    then have "LowestPriority < t_priority t" using nq(2) by (simp add: queued_def)
    note e = above_lowest_idle[OF this]
    note p = fun_cong[OF fun_cong[OF e(1)]] fun_cong[OF fun_cong[OF e(3)]]
    have "for_cores (\<lambda>core q. if S core then on_queue (K core) (Impl_Remove (t_priority t) core m) q else Some q) cs q = Some q"
      "for_cores (\<lambda>core q. if S core then on_queue (K core) (Impl_PushBack (t_priority t) core m) q else Some q) cs q = Some q"
      for S K cs q by (rule for_cores_idle, simp add: p)+
    then show ?thesis using nd by (simp add: ChangeAffinityMask_def Let_def)
  qed (simp add: ChangeAffinityMask_def)
  then show ?thesis using hJ False nq(2) by (simp add: placing_if_def J_def)
next
  case True
  have v: "valid_thread (I m)" and rep: "rep q A" using h m by (auto simp: holds_def)
  obtain p where p: "p < 64" "t_priority (I m) = int p" using queued_priority[OF v True] by blast
  have pre: "m \<in> set (A k p c)" if "wanted (I m) k c" for k c
    using holds_in[OF h p(1) valid_threadD(2)[OF v that], of m k] m p(2) that True by (simp add: queued_def)
  define A1 where "A1 = placing_if (\<lambda>k. remove1 m) (I m) A"
  define J where "J = I(m := t)"
  obtain q1 where q1: "for_cores (\<lambda>core q. if GetAffinity (t_affinity (I m)) core
      then on_queue (if core = t_active_core (I m) then Scheduled else Suggested) (Impl_Remove (int p) core m) q else Some q)
      [0 .. NumCores - 1] q = Some q1" "rep q1 (placing (\<lambda>k. remove1 m) (I m) p A)"
    using mask_loop_rep[OF acts_push(3)[OF p(1)] rep v, of m] pre by blast
  have "holds q1 I (T - {m}) A1"
    using holds_drop[OF h m True] q1(2) p(2) by (simp add: A1_def)
  then have h1: "holds q1 J (T - {m}) A1" by (simp add: J_def holds_other_thread)
  have qt: "queued (J m)" "valid_thread (J m)" "J m = t" "t_priority t = int p" using True t p(2) by (auto simp: queued_def J_def)
  have rep1: "rep q1 A1" using h1 by (simp add: holds_def)
  have nin: "\<forall>k p. p < 64 \<longrightarrow> m \<notin> set (A1 k p c)" if "wanted t k c" for k c
    using holds_notin[OF h1 _ _ valid_threadD(2)[OF t(3) that]] by simp
  obtain q2 where q2: "for_cores (\<lambda>core q. if GetAffinity (t_affinity t) core
      then on_queue (if core = t_active_core t then Scheduled else Suggested) (Impl_PushBack (int p) core m) q else Some q)
      [0 .. NumCores - 1] q1 = Some q2" "rep q2 (placing (\<lambda>k xs. xs @ [m]) t p A1)"
    using mask_loop_rep[OF acts_push(1)[OF p(1)] rep1 t(3), of m] nin by blast
  have "holds q2 J (insert m (T - {m})) (placing_if (\<lambda>k xs. xs @ [m]) (J m) A1)"
    by (rule holds_add[OF h1 _ qt(2,1)]) (use q2(2) qt(3,4) in auto)
  then have "holds q2 J T (placing_if (\<lambda>k xs. xs @ [m]) t A1)" using m qt(3) by (simp add: insert_absorb)
  moreover have "ChangeAffinityMask (t_active_core (I m)) (t_affinity (I m)) t m q = Some q2"
    using q1(1) q2(1) qt True t(2) by (simp add: ChangeAffinityMask_def Let_def queued_def)
  ultimately show ?thesis by (simp add: J_def A1_def)
qed

text \<open>Moving a thread to another core of its mask: first out of the scheduled queue of the old core,
  then from the suggested to the scheduled queue of the new one, then into the suggested queue of the
  old one.\<close>

lemma leave_scheduled:
  assumes rep: "rep q A" and p: "p < 64" and prev: "prev = -1 \<or> (\<exists>c<4. prev = int c \<and> m \<in> set (A Scheduled p c))"
  shows "\<exists>q1 A1. (if prev \<ge> 0 then on_queue Scheduled (Impl_Remove (int p) prev m) q else Some q) = Some q1 \<and> rep q1 A1 \<and>
    (\<forall>k p' c. A1 k p' c = (if k = Scheduled \<and> p' = p \<and> int c = prev then remove1 m (A k p' c) else A k p' c))"
proof (cases "prev = -1")
  case False
  then obtain c where c: "c < 4" "prev = int c" "m \<in> set (A Scheduled p c)" using prev by blast
  obtain q1 where q1: "on_queue Scheduled (Impl_Remove (int p) (int c) m) q = Some q1"
    "rep q1 (upd A Scheduled p c (remove1 m (A Scheduled p c)))" using remove_rep[OF rep p c(1,3)] by blast
  show ?thesis unfolding c(2)
    by (rule exI[of _ q1], rule exI[of _ "upd A Scheduled p c (remove1 m (A Scheduled p c))"])
      (use q1 in \<open>auto simp: upd_def\<close>)
qed (use rep in auto)

lemma enter_suggested:
  assumes rep: "rep q A" and p: "p < 64" and prev: "prev = -1 \<or> (\<exists>c<4. prev = int c \<and> (\<forall>k p'. p' < 64 \<longrightarrow> m \<notin> set (A k p' c)))"
  shows "\<exists>q1 A1. (if prev \<ge> 0 then on_queue Suggested (Impl_PushBack (int p) prev m) q else Some q) = Some q1 \<and> rep q1 A1 \<and>
    (\<forall>k p' c. A1 k p' c = (if k = Suggested \<and> p' = p \<and> int c = prev then A k p' c @ [m] else A k p' c))"
proof (cases "prev = -1")
  case False
  then obtain c where c: "c < 4" "prev = int c" "\<forall>k p'. p' < 64 \<longrightarrow> m \<notin> set (A k p' c)" using prev by blast
  obtain q1 where q1: "on_queue Suggested (Impl_PushBack (int p) (int c) m) q = Some q1"
    "rep q1 (upd A Suggested p c (A Suggested p c @ [m]))" using push_rep(1)[OF rep p c(1), of m Suggested] c(3) by blast
  show ?thesis unfolding c(2)
    by (rule exI[of _ q1], rule exI[of _ "upd A Suggested p c (A Suggested p c @ [m])"])
      (use q1 in \<open>auto simp: upd_def\<close>)
qed (use rep in auto)

lemma enter_scheduled:
  assumes rep: "rep q A" and p: "p < 64"
    and new: "new = -1 \<or> (\<exists>c<4. new = int c \<and> m \<in> set (A Suggested p c) \<and> distinct (A Suggested p c) \<and>
      (\<forall>k p'. p' < 64 \<and> (k, p') \<noteq> (Suggested, p) \<longrightarrow> m \<notin> set (A k p' c)))"
  shows "\<exists>q1 A1. (if new \<ge> 0 then do { q' \<leftarrow> on_queue Suggested (Impl_Remove (int p) new m) q;
        on_queue Scheduled (if front then Impl_PushFront (int p) new m else Impl_PushBack (int p) new m) q' }
      else Some q) = Some q1 \<and> rep q1 A1 \<and>
    (\<forall>k p' c. A1 k p' c = (if p' = p \<and> int c = new
      then (case k of Suggested \<Rightarrow> remove1 m (A k p' c) | Scheduled \<Rightarrow> if front then m # A k p' c else A k p' c @ [m])
      else A k p' c))"
proof (cases "new = -1")
  case False
  then obtain c where c: "c < 4" "new = int c" "m \<in> set (A Suggested p c)" "distinct (A Suggested p c)"
    "\<forall>k p'. p' < 64 \<and> (k, p') \<noteq> (Suggested, p) \<longrightarrow> m \<notin> set (A k p' c)" using new by blast
  let ?A = "upd A Suggested p c (remove1 m (A Suggested p c))"
  obtain q' where q': "on_queue Suggested (Impl_Remove (int p) (int c) m) q = Some q'" "rep q' ?A"
    using remove_rep[OF rep p c(1,3)] by blast
  have nin: "m \<notin> set (?A k p' c)" if "p' < 64" for k p'
    using c(4,5) that by (cases "k = Suggested \<and> p' = p") (auto simp: upd_def)
  obtain q1 where q1: "on_queue Scheduled (if front then Impl_PushFront (int p) (int c) m else Impl_PushBack (int p) (int c) m) q' = Some q1"
    "rep q1 (upd ?A Scheduled p c (if front then m # A Scheduled p c else A Scheduled p c @ [m]))"
    using push_rep[OF q'(2) p c(1), of m Scheduled] nin by (cases front) (auto simp: upd_def)
  show ?thesis unfolding c(2)
    by (rule exI[of _ q1], rule exI[of _ "upd ?A Scheduled p c (if front then m # A Scheduled p c else A Scheduled p c @ [m])"])
      (use q'(1) q1 c(4) in \<open>auto simp: upd_def split: queue_kind.splits\<close>)
qed (use rep in auto)

definition moved :: "nat \<Rightarrow> KThreadInfo \<Rightarrow> int \<Rightarrow> bool \<Rightarrow> contents \<Rightarrow> contents" where
  "moved m t new front A =
     (if queued t \<and> t_active_core t \<noteq> new then
        (\<lambda>k p c.
           if int p = t_priority t then
             (case k of
                Scheduled \<Rightarrow> if int c = t_active_core t then remove1 m (A k p c)
                  else if int c = new then (if front then m # A k p c else A k p c @ [m]) else A k p c
              | Suggested \<Rightarrow> if int c = new then remove1 m (A k p c)
                  else if int c = t_active_core t then A k p c @ [m] else A k p c)
           else A k p c)
      else A)"

lemma ChangeCore_holds:
  assumes h: "holds q I T A" and m: "m \<in> T" and t: "t = (I m)\<lparr>t_active_core := c\<rparr>" "valid_thread t"
  shows "\<exists>q'. ChangeCore (t_active_core (I m)) t m front q = Some q' \<and>
    holds q' (I(m := t)) T (moved m (I m) c front A)"
proof (cases "queued (I m) \<and> t_active_core (I m) \<noteq> c")
  case False
  have v: "valid_thread (I m)" using h m by (simp add: holds_def)
  define J where "J = I(m := t)"
  have hJ: "holds q J T A"
  proof (cases "t_active_core (I m) = c")
    case True
    then have "J = I" using t(1) by (auto simp: J_def)
    then show ?thesis using h by simp
  next
    case c: False
    then have nq: "\<not> queued (I m)" "\<not> queued (J m)" using False t(1) by (auto simp: queued_def J_def)
    have "holds q J (T - {m}) A" using holds_not_queued(2)[OF nq(1) v h] by (simp add: holds_other_thread J_def)
    from holds_not_queued(1)[OF nq(2) _ this] show ?thesis using t(2) m by (simp add: insert_absorb J_def)
  qed
  have "ChangeCore (t_active_core (I m)) t m front q = Some q"
  proof (cases "t_dummy t \<or> t_active_core (I m) = c")
    case nd: False
    then have "LowestPriority < t_priority t" using False t(1) by (auto simp: queued_def)
    note e = above_lowest_idle[OF this]
    note p = fun_cong[OF fun_cong[OF e(1)]] fun_cong[OF fun_cong[OF e(2)]] fun_cong[OF fun_cong[OF e(3)]]
    show ?thesis by (simp add: ChangeCore_def Let_def p)
  qed (use t(1) in \<open>auto simp: ChangeCore_def Let_def\<close>)
  then show ?thesis using hJ False by (auto simp: J_def moved_def)
next
  case True
  have v: "valid_thread (I m)" and rep: "rep q A" using h m by (auto simp: holds_def)
  obtain p where p: "p < 64" "t_priority (I m) = int p" using queued_priority[OF v] True by blast
  define prev where "prev = t_active_core (I m)"
  have nd: "\<not> t_dummy (I m)" using True by (simp add: queued_def)
  have inA: "m \<in> set (A k p' j) \<longleftrightarrow> p' = p \<and> wanted (I m) k j" if "p' < 64" "j < 4" for k p' j
    using holds_in[OF h that, of m k] m nd p(2) by auto
  have prev: "prev = -1 \<or> (\<exists>j<4. prev = int j \<and> bit (t_affinity (I m)) j)"
    and new: "c = -1 \<or> (\<exists>j<4. c = int j \<and> bit (t_affinity (I m)) j)"
    using valid_threadD(3)[OF v] valid_threadD(3)[OF t(2)] t(1) by (auto simp: prev_def)
  have pc: "prev \<noteq> c" using True by (simp add: prev_def)
  have "prev = -1 \<or> (\<exists>j<4. prev = int j \<and> m \<in> set (A Scheduled p j))"
    using prev inA p(1) by (auto simp: wanted_def prev_def)
  from leave_scheduled[OF rep p(1) this] obtain q1 A1 where 1:
    "(if prev \<ge> 0 then on_queue Scheduled (Impl_Remove (int p) prev m) q else Some q) = Some q1" "rep q1 A1"
    "\<And>k p' j. A1 k p' j = (if k = Scheduled \<and> p' = p \<and> int j = prev then remove1 m (A k p' j) else A k p' j)"
    by blast
  have in1: "m \<in> set (A1 k p' j) \<longleftrightarrow> p' = p \<and> wanted (I m) k j \<and> k = Suggested" if "p' < 64" "j < 4" for k p' j
    using inA[OF that, of k] holds_distinct[OF h that, of k] unfolding 1(3)
    by (cases k) (auto simp: wanted_def prev_def)
  have "c = -1 \<or> (\<exists>j<4. c = int j \<and> m \<in> set (A1 Suggested p j) \<and> distinct (A1 Suggested p j) \<and>
      (\<forall>k p'. p' < 64 \<and> (k, p') \<noteq> (Suggested, p) \<longrightarrow> m \<notin> set (A1 k p' j)))"
    using new in1 p(1) pc core_repD(1)[OF 1(2) p(1)] by (auto simp: wanted_def prev_def linked_def)
  from enter_scheduled[OF 1(2) p(1) this, of front] obtain q2 A2 where 2:
    "(if c \<ge> 0 then do { q' \<leftarrow> on_queue Suggested (Impl_Remove (int p) c m) q1;
        on_queue Scheduled (if front then Impl_PushFront (int p) c m else Impl_PushBack (int p) c m) q' }
      else Some q1) = Some q2" "rep q2 A2"
    "\<And>k p' j. A2 k p' j = (if p' = p \<and> int j = c
      then (case k of Suggested \<Rightarrow> remove1 m (A1 k p' j) | Scheduled \<Rightarrow> if front then m # A1 k p' j else A1 k p' j @ [m])
      else A1 k p' j)"
    by blast
  have "prev = -1 \<or> (\<exists>j<4. prev = int j \<and> (\<forall>k p'. p' < 64 \<longrightarrow> m \<notin> set (A2 k p' j)))"
    using prev in1 pc unfolding 2(3) by (auto simp: wanted_def prev_def)
  from enter_suggested[OF 2(2) p(1) this] obtain q3 A3 where 3:
    "(if prev \<ge> 0 then on_queue Suggested (Impl_PushBack (int p) prev m) q2 else Some q2) = Some q3" "rep q3 A3"
    "\<And>k p' j. A3 k p' j = (if k = Suggested \<and> p' = p \<and> int j = prev then A2 k p' j @ [m] else A2 k p' j)"
    by blast
  have d1: "distinct (A1 Suggested p' j)" if "p' < 64" "j < 4" for p' j
    using core_repD(1)[OF 1(2) that, of Suggested] by (simp add: linked_def)
  have rest: "x \<in> set (A3 k p' j) \<longleftrightarrow> x \<in> set (A k p' j)" if "x \<noteq> m" for x k p' j
    using that in_set_remove1[of x m "A k p' j"] unfolding 3(3) 2(3) 1(3) by (auto split: queue_kind.splits)
  have mine: "m \<in> set (A3 k p' j) \<longleftrightarrow> p' = p \<and> wanted t k j" if "p' < 64" "j < 4" for k p' j
  proof -
    have aff: "int j = prev \<Longrightarrow> bit (t_affinity (I m)) j" "int j = c \<Longrightarrow> bit (t_affinity (I m)) j" using prev new by auto
    have i1: "m \<in> set (A1 k p' j) \<longleftrightarrow> p' = p \<and> bit (t_affinity (I m)) j \<and> prev \<noteq> int j \<and> k = Suggested" for k
      using in1[OF that, of k] by (cases k) (simp_all add: wanted_def prev_def)
    have wt: "wanted t Scheduled j \<longleftrightarrow> c = int j" "wanted t Suggested j \<longleftrightarrow> bit (t_affinity (I m)) j \<and> c \<noteq> int j"
      using t(1) by (simp_all add: wanted_def)
    show ?thesis
    proof (cases k)
      case Scheduled
      show ?thesis unfolding Scheduled 3(3) 2(3) wt using i1[of Scheduled] by auto
    next
      case Suggested
      show ?thesis unfolding Suggested 3(3) 2(3) wt using i1[of Suggested] aff pc d1[OF that]
        by (cases "int j = prev"; cases "int j = c"; cases "p' = p") simp_all
    qed
  qed
  have "set (A3 k p' j) = belongs (I(m := t)) T k p' j" if b: "p' < 64" "j < 4" for k p' j
  proof (rule set_eqI)
    fix x show "x \<in> set (A3 k p' j) \<longleftrightarrow> x \<in> belongs (I(m := t)) T k p' j"
      using rest[of x k p' j] mine[OF b, of k] holds_in[OF h b, of x k] m nd p(2) t(1)
      by (cases "x = m") (auto simp: belongs_def)
  qed
  moreover have "ChangeCore prev t m front q = Some q3"
    using 1(1) 2(1) 3(1) pc nd t(1) p(2) by (simp add: ChangeCore_def Let_def)
  moreover have "A3 = moved m (I m) c front A"
    using True p(2) pc unfolding prev_def
    by (auto simp: fun_eq_iff moved_def 3(3) 2(3) 1(3) prev_def split: queue_kind.splits)
  ultimately show ?thesis using 3(2) h t(2) by (auto simp: holds_def prev_def)
qed

section \<open>Rotating a queue\<close>

lemma move_rep:
  assumes rep: "rep q A" and pc: "p < 64" "c < 4" and m: "m \<in> set (A Scheduled p c)"
  shows "\<exists>q'. on_queue Scheduled (Impl_MoveToFront (int p) (int c) m) q = Some q' \<and>
      rep q' (upd A Scheduled p c (m # remove1 m (A Scheduled p c)))"
    "\<exists>s. Impl_MoveToBack (int p) (int c) m (view Scheduled q)
        = Some (Some (hd (remove1 m (A Scheduled p c) @ [m])), s) \<and>
      rep (put_view Scheduled q s) (upd A Scheduled p c (remove1 m (A Scheduled p c) @ [m]))"
proof -
  let ?l = "(q_roots (fst (view Scheduled q)) p c, m_entries q c)" and ?ws = "avail Scheduled c q"
  note R = core_repD[OF rep pc, of Scheduled]
  obtain ys zs where s: "A Scheduled p c = ys @ m # zs" "m \<notin> set ys" using split_list_first[OF m] by blast
  have "distinct (ys @ m # zs)" using R(1) s(1) by (simp add: linked_def)
  then have nin: "m \<notin> set (ys @ zs)" by auto
  have rm: "remove1 m (A Scheduled p c) = ys @ zs" using s by (simp add: remove1_append)
  let ?l1 = "snd (PerCore_Remove m ?l)"
  note B = linked_Remove[OF R(1)[unfolded s(1)]]
  note P = linked_PushBack[OF B(2) nin] and F = linked_PushFront[OF B(2) nin]
  have other: "m \<notin> set (A k' p' c)" if "p' < 64" "(k', p') \<noteq> (Scheduled, p)" for k' p'
    using rep pc m that unfolding rep_def core_rep_def by blast
  have ws: "length ?ws = 1" "insert p (bits_set ?ws) = bits_set ?ws" using R(2) unfolding R(3) using s(1) pc(1) by auto
  have f: "rep (relinked Scheduled p c (snd (PerCore_PushFront m ?l1)) ?ws q) (upd A Scheduled p c (m # ys @ zs))"
    by (rule rep_relinked[OF rep pc F(2), of Scheduled m]) (use other B(3) F(3) ws s(1) in auto)
  have b: "rep (relinked Scheduled p c (snd (PerCore_PushBack m ?l1)) ?ws q) (upd A Scheduled p c ((ys @ zs) @ [m]))"
    by (rule rep_relinked[OF rep pc P(2), of Scheduled m]) (use other B(3) P(3) ws s(1) in auto)
  show "\<exists>q'. on_queue Scheduled (Impl_MoveToFront (int p) (int c) m) q = Some q' \<and>
      rep q' (upd A Scheduled p c (m # remove1 m (A Scheduled p c)))"
    using f pc rm by (simp add: impl_step Impl_MoveToFront_def LowestPriority_def)
  have "PerCore_GetFront (snd (PerCore_PushBack m ?l1)) = Some (hd ((ys @ zs) @ [m]))"
    using P(2) by (auto simp: linked_def PerCore_GetFront_def first_of_def hd_append)
  then show "\<exists>s. Impl_MoveToBack (int p) (int c) m (view Scheduled q)
        = Some (Some (hd (remove1 m (A Scheduled p c) @ [m])), s) \<and>
      rep (put_view Scheduled q s) (upd A Scheduled p c (remove1 m (A Scheduled p c) @ [m]))"
    using b pc rm by (simp add: impl_step Impl_MoveToBack_def LowestPriority_def)
qed

section \<open>The front of the queues and the order of traversal\<close>

text \<open>The threads of a core, in order of priority and, within a priority, of the queue.\<close>

definition in_order :: "contents \<Rightarrow> queue_kind \<Rightarrow> nat \<Rightarrow> nat list" where
  "in_order A k c = concat (map (\<lambda>p. A k p c) [0 ..< 64])"

lemma upt_at: "a \<le> r \<Longrightarrow> r < n \<Longrightarrow> [a ..< n] = [a ..< r] @ r # [Suc r ..< n]"
  using upt_add_eq_append[of a r "n - r"] by (simp add: upt_conv_Cons)

lemma first_of_concat:
  assumes "a \<le> r" "r < n" "L r \<noteq> []" "\<And>p. a \<le> p \<Longrightarrow> p < r \<Longrightarrow> L p = []"
  shows "first_of (concat (map L [a ..< n])) None = Some (hd (L r))"
proof -
  have e: "concat (map L [a ..< r]) = []" using assms(4) by simp
  show ?thesis unfolding upt_at[OF assms(1,2)] map_append concat_append e
    using assms(3) by (simp add: first_of_def)
qed

lemma GetFront_in_order:
  assumes rep: "rep q A" and c: "c < 4"
  shows "Impl_GetFront (int c) (view k q) = first_of (in_order A k c) None"
proof -
  let ?r = "CountLeadingZero (avail k c q)"
  note R = core_repD[OF rep _ c, of _ k]
  have bits: "bits_set (avail k c q) = {p. p < 64 \<and> A k p c \<noteq> []}" using R(3)[of 0] by simp
  have least: "if bits_set (avail k c q) = {} then ?r = 64
    else ?r \<in> bits_set (avail k c q) \<and> (\<forall>j\<in>bits_set (avail k c q). ?r \<le> j)"
    by (rule CountLeadingZero_least) (use R(2)[of 0] in simp)
  have front: "Impl_GetFront (int c) (view k q)
      = (if ?r < 64 then qe_next (q_roots (fst (view k q)) ?r c) else None)"
    by (simp add: Impl_GetFront_def Let_def LowestPriority_def links_of_def PerCore_GetFront_def avail_def)
  show ?thesis
  proof (cases "bits_set (avail k c q) = {}")
    case True
    then have e: "concat (map (\<lambda>p. A k p c) [0 ..< 64]) = []" using bits by auto
    show ?thesis unfolding in_order_def e using front least True by simp
  next
    case False
    then have ri: "?r \<in> bits_set (avail k c q)" and le: "\<forall>j\<in>bits_set (avail k c q). ?r \<le> j"
      using least by simp_all
    have r: "?r < 64" "A k ?r c \<noteq> []" using ri unfolding bits by simp_all
    have e: "A k j c = []" if "j < ?r" for j
    proof (rule ccontr)
      assume "A k j c \<noteq> []"
      then have "j \<in> bits_set (avail k c q)" using bits that r(1) by simp
      then have "?r \<le> j" using le by simp
      then show False using that by simp
    qed
    have "qe_next (q_roots (fst (view k q)) ?r c) = Some (hd (A k ?r c))"
      using R(1)[OF r(1)] r(2) by (simp add: linked_def first_of_def)
    then show ?thesis
      using front r e first_of_concat[of 0 ?r 64 "\<lambda>p. A k p c"] by (simp add: in_order_def)
  qed
qed

lemma GetNext_in_order:
  assumes rep: "rep q A" and c: "c < 4" and m: "m \<in> set (A k p c)" "p < 64"
  shows "\<exists>us vs. in_order A k c = us @ m # vs \<and> Impl_GetNext (int c) (int p) m (view k q) = first_of vs None"
proof -
  obtain ys zs where s: "A k p c = ys @ m # zs" using split_list[OF m(1)] by blast
  let ?r = "GetNextSet p (avail k c q)" and ?rest = "concat (map (\<lambda>p. A k p c) [Suc p ..< 64])"
  note R = core_repD[OF rep _ c, of _ k]
  have bits: "bits_set (avail k c q) = {p. p < 64 \<and> A k p c \<noteq> []}" using R(3)[of 0] by simp
  have nx: "qe_next (m_entries q c m) = first_of zs None"
    using R(1)[OF m(2)] s by (simp add: linked_def)
  have ord: "in_order A k c = (concat (map (\<lambda>p. A k p c) [0 ..< p]) @ ys) @ m # (zs @ ?rest)"
    unfolding in_order_def upt_at[OF le0 m(2)] using s by simp
  have "Impl_GetNext (int c) (int p) m (view k q) = first_of (zs @ ?rest) None"
  proof (cases zs)
    case (Cons z zs')
    then show ?thesis using nx by (simp add: Impl_GetNext_def)
  next
    case Nil
    have step: "Impl_GetNext (int c) (int p) m (view k q)
        = (if ?r < 64 then qe_next (q_roots (fst (view k q)) ?r c) else None)"
      using Nil nx by (simp add: Impl_GetNext_def Let_def LowestPriority_def links_of_def PerCore_GetFront_def avail_def)
    have least: "if \<exists>j\<in>bits_set (avail k c q). p < j then p < ?r \<and> ?r \<in> bits_set (avail k c q) \<and>
        (\<forall>j\<in>bits_set (avail k c q). p < j \<longrightarrow> ?r \<le> j) else ?r = 64"
      by (rule GetNextSet_least[OF _ m(2)]) (use R(2)[of 0] in simp)
    show ?thesis
    proof (cases "\<exists>j\<in>bits_set (avail k c q). p < j")
      case True
      then have r: "p < ?r" "?r < 64" "A k ?r c \<noteq> []" and le: "\<forall>j\<in>bits_set (avail k c q). p < j \<longrightarrow> ?r \<le> j"
        using least bits by auto
      have e: "A k j c = []" if "Suc p \<le> j" "j < ?r" for j
      proof (rule ccontr)
        assume "A k j c \<noteq> []"
        then have "j \<in> bits_set (avail k c q)" using bits that(2) r(2) by simp
        then have "?r \<le> j" using le that(1) by simp
        then show False using that(2) by simp
      qed
      have "qe_next (q_roots (fst (view k q)) ?r c) = Some (hd (A k ?r c))"
        using R(1)[OF r(2)] r(3) by (simp add: linked_def first_of_def)
      then show ?thesis
        using step r Nil e first_of_concat[of "Suc p" ?r 64 "\<lambda>p. A k p c"] by simp
    next
      case False
      then have e: "?rest = []" using bits by auto
      show ?thesis unfolding e Nil using step least False by simp
    qed
  qed
  then show ?thesis using ord by blast
qed

lemma rep_new: "rep (KPriorityQueue_new e) (\<lambda>k p c. [])"
  by (auto simp: rep_def core_rep_def KPriorityQueue_new_def view_def avail_def KPriorityQueueImpl_new_def
      linked_empty bits_set_single split: queue_kind.splits)

lemma holds_new: "holds (KPriorityQueue_new e) I {} (\<lambda>k p c. [])"
  using rep_new by (simp add: holds_def belongs_def)

section \<open>The interface of the run queues\<close>

lemma singleton_list: "set xs = {m} \<Longrightarrow> distinct xs \<Longrightarrow> xs = [m]"
proof -
  assume s: "set xs = {m}" and d: "distinct xs"
  have "length xs = 1" using distinct_card[OF d] s by simp
  then obtain x where "xs = [x]" by (auto simp: length_Suc_conv)
  then show ?thesis using s by simp
qed

text \<open>What a scheduler relies on: per core and kind an ordered list of exactly the threads that belong
  there, sorted by priority, whose front and successors the queries return; and that a thread changes
  core without disturbing the order of the others.\<close>

locale run_queue =
  fixes R :: "'q \<Rightarrow> (nat \<Rightarrow> KThreadInfo) \<Rightarrow> nat set \<Rightarrow> (queue_kind \<Rightarrow> nat \<Rightarrow> nat list) \<Rightarrow> bool"
    and front :: "queue_kind \<Rightarrow> int \<Rightarrow> 'q \<Rightarrow> nat option"
    and succ :: "queue_kind \<Rightarrow> int \<Rightarrow> KThreadInfo \<Rightarrow> nat \<Rightarrow> 'q \<Rightarrow> nat option"
    and change_core :: "int \<Rightarrow> KThreadInfo \<Rightarrow> nat \<Rightarrow> bool \<Rightarrow> 'q \<Rightarrow> 'q option"
  assumes members: "R q I T L \<Longrightarrow> c < 4 \<Longrightarrow> distinct (L k c) \<and> set (L k c) = {m \<in> T. queued (I m) \<and> wanted (I m) k c}"
    and valid: "R q I T L \<Longrightarrow> m \<in> T \<Longrightarrow> valid_thread (I m)"
    and ordered: "R q I T L \<Longrightarrow> c < 4 \<Longrightarrow> sorted_wrt (\<lambda>x y. t_priority (I x) \<le> t_priority (I y)) (L k c)"
    and front_law: "R q I T L \<Longrightarrow> c < 4 \<Longrightarrow> front k (int c) q = first_of (L k c) None"
    and succ_law: "R q I T L \<Longrightarrow> c < 4 \<Longrightarrow> L k c = us @ m # vs \<Longrightarrow> succ k (int c) (I m) m q = first_of vs None"
    and change_core_law: "R q I T L \<Longrightarrow> m \<in> T \<Longrightarrow> queued (I m) \<Longrightarrow> t_active_core (I m) \<noteq> n \<Longrightarrow>
      t = (I m)\<lparr>t_active_core := n\<rparr> \<Longrightarrow> valid_thread t \<Longrightarrow>
      \<exists>q' L'. change_core (t_active_core (I m)) t m b q = Some q' \<and> R q' (I(m := t)) T L' \<and>
        (\<forall>j<4. int j \<noteq> n \<longrightarrow> L' Scheduled j = remove1 m (L Scheduled j))"
begin

text \<open>The front of a core's scheduled queue is a thread of that core with the best priority.\<close>

lemma front_best:
  assumes r: "R q I T L" and c: "c < 4"
  shows "case front Scheduled (int c) q of
      None \<Rightarrow> \<forall>m\<in>T. queued (I m) \<longrightarrow> t_active_core (I m) \<noteq> int c
    | Some m \<Rightarrow> m \<in> T \<and> queued (I m) \<and> t_active_core (I m) = int c \<and>
        (\<forall>m'\<in>T. queued (I m') \<and> t_active_core (I m') = int c \<longrightarrow> t_priority (I m) \<le> t_priority (I m'))"
proof -
  have set: "set (L Scheduled c) = {m \<in> T. queued (I m) \<and> t_active_core (I m) = int c}"
    using members[OF r c, of Scheduled] by (simp add: wanted_def)
  show ?thesis
  proof (cases "L Scheduled c")
    case Nil
    then show ?thesis using set front_law[OF r c, of Scheduled] by auto
  next
    case (Cons m ms)
    then have m: "m \<in> T" "queued (I m)" "t_active_core (I m) = int c" using set by auto
    have "t_priority (I m) \<le> t_priority (I m')" if "m' \<in> T" "queued (I m')" "t_active_core (I m') = int c" for m'
      using ordered[OF r c, of Scheduled] set Cons that by (cases "m' = m") auto
    then show ?thesis using m Cons front_law[OF r c, of Scheduled] by simp
  qed
qed

text \<open>An idle core that takes over a thread has just that thread.\<close>

lemma takeover:
  assumes "R q I T L" "c < 4" "L Scheduled c = []" "R q' (I(m := t)) T L'" "m \<in> T" "queued t" "t_active_core t = int c"
  shows "L' Scheduled c = [m]"
proof -
  have e: "\<not> (queued (I x) \<and> t_active_core (I x) = int c)" if "x \<in> T" for x
    using members[OF assms(1,2), of Scheduled] assms(3) that by (auto simp: wanted_def)
  have "set (L' Scheduled c) = {m}"
    using members[OF assms(4,2), of Scheduled] e assms(5-7) by (auto simp: wanted_def)
  moreover have "distinct (L' Scheduled c)" using members[OF assms(4,2)] by blast
  ultimately show ?thesis by (rule singleton_list)
qed

end

definition front_of :: "queue_kind \<Rightarrow> int \<Rightarrow> KPriorityQueue \<Rightarrow> nat option" where
  "front_of k c q = (case k of Scheduled \<Rightarrow> GetScheduledFront c q | Suggested \<Rightarrow> GetSuggestedFront c q)"

definition next_of :: "queue_kind \<Rightarrow> int \<Rightarrow> KThreadInfo \<Rightarrow> nat \<Rightarrow> KPriorityQueue \<Rightarrow> nat option" where
  "next_of k c t m q = (case k of Scheduled \<Rightarrow> GetScheduledNext c t m q | Suggested \<Rightarrow> GetSuggestedNext c t m q)"

definition lists_of :: "KPriorityQueue \<Rightarrow> (nat \<Rightarrow> KThreadInfo) \<Rightarrow> nat set \<Rightarrow> (queue_kind \<Rightarrow> nat \<Rightarrow> nat list) \<Rightarrow> bool" where
  "lists_of q I T L \<longleftrightarrow> (\<exists>A. holds q I T A \<and> (\<forall>k c. c < 4 \<longrightarrow> L k c = in_order A k c))"

lemma concat_remove1:
  assumes "distinct ps" "\<And>p p'. p \<in> set ps \<Longrightarrow> p' \<in> set ps \<Longrightarrow> m \<in> set (F p) \<Longrightarrow> m \<in> set (F p') \<Longrightarrow> p = p'"
  shows "concat (map (\<lambda>p. remove1 m (F p)) ps) = remove1 m (concat (map F ps))"
  using assms
proof (induction ps)
  case (Cons p ps)
  have "m \<notin> set (concat (map F ps))" if "m \<in> set (F p)" using Cons.prems that by auto
  moreover have "concat (map (\<lambda>p. remove1 m (F p)) ps) = remove1 m (concat (map F ps))"
    using Cons.IH Cons.prems by auto
  ultimately show ?case by (auto simp: remove1_append remove1_idem)
qed simp

lemma set_in_order:
  assumes h: "holds q I T A" and c: "c < 4"
  shows "set (in_order A k c) = {m \<in> T. queued (I m) \<and> wanted (I m) k c}"
proof -
  have "set (in_order A k c) = (\<Union>p<64. set (A k p c))" by (auto simp: in_order_def)
  also have "\<dots> = (\<Union>p<64. belongs I T k p c)" using h c by (auto simp: holds_def)
  also have "\<dots> = {m \<in> T. queued (I m) \<and> wanted (I m) k c}"
  proof -
    have "queued (I m) \<Longrightarrow> \<exists>p<64. t_priority (I m) = int p" if "m \<in> T" for m
      using queued_priority h that by (auto simp: holds_def)
    moreover have "\<not> t_dummy (I m) \<Longrightarrow> t_priority (I m) = int p \<Longrightarrow> p < 64 \<Longrightarrow> queued (I m)" for m p
      by (simp add: queued_def LowestPriority_def)
    ultimately show ?thesis unfolding belongs_def by (force simp: queued_def)
  qed
  finally show ?thesis .
qed

lemma distinct_concat_map:
  assumes "distinct ps" "\<And>p. p \<in> set ps \<Longrightarrow> distinct (F p)"
    "\<And>p p'. p \<in> set ps \<Longrightarrow> p' \<in> set ps \<Longrightarrow> p \<noteq> p' \<Longrightarrow> set (F p) \<inter> set (F p') = {}"
  shows "distinct (concat (map F ps))"
  using assms
proof (induction ps)
  case (Cons p ps)
  have "distinct (concat (map F ps))" using Cons.IH Cons.prems by (meson distinct.simps(2) list.set_intros(2))
  moreover have "set (F p) \<inter> set (F p') = {}" if "p' \<in> set ps" for p'
    using Cons.prems(1) Cons.prems(3)[of p p'] that by auto
  ultimately show ?case using Cons.prems(2)[of p] by auto
qed simp

lemma levels_apart:
  "rep q A \<Longrightarrow> c < 4 \<Longrightarrow> p < 64 \<Longrightarrow> p' < 64 \<Longrightarrow> p \<noteq> p' \<Longrightarrow> set (A k p c) \<inter> set (A k p' c) = {}"
  unfolding rep_def core_rep_def by blast

lemma distinct_in_order:
  assumes h: "holds q I T A" and c: "c < 4"
  shows "distinct (in_order A k c)"
proof -
  have rep: "rep q A" using h by (simp add: holds_def)
  show ?thesis unfolding in_order_def
    by (rule distinct_concat_map) (use holds_distinct[OF h _ c] levels_apart[OF rep c] in simp_all)
qed

lemma sorted_in_order:
  assumes h: "holds q I T A" and c: "c < 4"
  shows "sorted_wrt (\<lambda>x y. t_priority (I x) \<le> t_priority (I y)) (in_order A k c)"
proof -
  have pr: "t_priority (I x) = int p" if "p < 64" "x \<in> set (A k p c)" for p x
    using holds_in[OF h that(1) c, of x k] that(2) by simp
  have "sorted_wrt (\<lambda>x y. t_priority (I x) \<le> t_priority (I y)) (concat (map (\<lambda>p. A k p c) [a ..< n]))" if "n \<le> 64" for a n
    using that
  proof (induction n)
    case (Suc n)
    have one: "sorted_wrt (\<lambda>x y. t_priority (I x) \<le> t_priority (I y)) (A k n c)"
      unfolding sorted_wrt_iff_nth_less using pr[of n] Suc.prems by simp
    have "t_priority (I x) \<le> t_priority (I y)" if "x \<in> set (concat (map (\<lambda>p. A k p c) [a ..< n]))" "y \<in> set (A k n c)" for x y
    proof -
      obtain p where p: "p < n" "x \<in> set (A k p c)" using \<open>x \<in> _\<close> by auto
      show ?thesis using pr[of p x] pr[of n y] p \<open>y \<in> _\<close> Suc.prems by simp
    qed
    then show ?case using Suc one by (cases "a \<le> n") (auto simp: sorted_wrt_append)
  qed simp
  then show ?thesis by (simp add: in_order_def)
qed

lemma moved_in_order:
  assumes h: "holds q I T A" and m: "queued (I m)" "t_active_core (I m) \<noteq> n" and j: "j < 4" "int j \<noteq> n"
  shows "in_order (moved m (I m) n b A) Scheduled j = remove1 m (in_order A Scheduled j)"
proof -
  have pr: "m \<in> set (A Scheduled p j) \<longleftrightarrow> m \<in> T \<and> \<not> t_dummy (I m) \<and> t_priority (I m) = int p \<and> t_active_core (I m) = int j"
    if "p < 64" for p using holds_in[OF h that j(1), of m Scheduled] by (simp add: wanted_def)
  have "moved m (I m) n b A Scheduled p j = remove1 m (A Scheduled p j)" if "p < 64" for p
    using pr[OF that] m j by (auto simp: moved_def remove1_idem)
  then have "in_order (moved m (I m) n b A) Scheduled j = concat (map (\<lambda>p. remove1 m (A Scheduled p j)) [0 ..< 64])"
    unfolding in_order_def by (intro arg_cong[of _ _ concat] map_cong) auto
  also have "\<dots> = remove1 m (in_order A Scheduled j)"
    unfolding in_order_def by (rule concat_remove1) (use pr in auto)
  finally show ?thesis .
qed

interpretation rq: run_queue lists_of front_of next_of ChangeCore
proof
  fix q I T L k and c :: nat assume "lists_of q I T L" and c: "c < 4"
  then obtain A where A: "holds q I T A" "\<And>k c. c < 4 \<Longrightarrow> L k c = in_order A k c" by (auto simp: lists_of_def)
  show "distinct (L k c) \<and> set (L k c) = {m \<in> T. queued (I m) \<and> wanted (I m) k c}"
    using distinct_in_order[OF A(1) c] set_in_order[OF A(1) c] A(2)[OF c] by simp
  show "sorted_wrt (\<lambda>x y. t_priority (I x) \<le> t_priority (I y)) (L k c)"
    using sorted_in_order[OF A(1) c] A(2)[OF c] by simp
  show "front_of k (int c) q = first_of (L k c) None"
    using GetFront_in_order[OF _ c, of q A k] A(1) A(2)[OF c, of k]
    by (cases k) (simp_all add: front_of_def GetScheduledFront_def GetSuggestedFront_def holds_def)
next
  fix q I T L m assume "lists_of q I T L" "m \<in> T"
  then show "valid_thread (I m)" by (auto simp: lists_of_def holds_def)
next
  fix q I T L k us m vs and c :: nat
  assume "lists_of q I T L" and c: "c < 4" and L: "L k c = us @ m # vs"
  then obtain A where A: "holds q I T A" "L k c = in_order A k c" by (auto simp: lists_of_def)
  have "m \<in> set (in_order A k c)" using L A(2) by (metis in_set_conv_decomp)
  then obtain p where p: "p < 64" "m \<in> set (A k p c)" by (auto simp: in_order_def)
  then have pr: "t_priority (I m) = int p" using holds_in[OF A(1) p(1) c] by simp
  have rep: "rep q A" using A(1) by (simp add: holds_def)
  obtain us' vs' where g: "in_order A k c = us' @ m # vs'"
    "Impl_GetNext (int c) (int p) m (view k q) = first_of vs' None" using GetNext_in_order[OF rep c p(2,1)] by blast
  have "distinct (us @ m # vs)" using distinct_in_order[OF A(1) c, of k] L A(2) by simp
  then have "m \<notin> set us" "m \<notin> set vs" by auto
  moreover have "us @ m # vs = us' @ m # vs'" using g(1) L A(2) by simp
  ultimately have "us' = us \<and> vs' = vs" using append_Cons_eq_iff[of m us vs us' vs'] by simp
  then show "next_of k (int c) (I m) m q = first_of vs None"
    using g(2) pr by (cases k) (simp_all add: next_of_def GetScheduledNext_def GetSuggestedNext_def)
next
  fix q I T L m n t b
  assume "lists_of q I T L" and m: "m \<in> T" "queued (I m)" "t_active_core (I m) \<noteq> n"
    and t: "t = (I m)\<lparr>t_active_core := n\<rparr>" "valid_thread t"
  then obtain A where A: "holds q I T A" "\<And>k c. c < 4 \<Longrightarrow> L k c = in_order A k c" by (auto simp: lists_of_def)
  obtain q' where q': "ChangeCore (t_active_core (I m)) t m b q = Some q'" "holds q' (I(m := t)) T (moved m (I m) n b A)"
    using ChangeCore_holds[OF A(1) m(1) t] by blast
  have "lists_of q' (I(m := t)) T (in_order (moved m (I m) n b A))" using q'(2) by (auto simp: lists_of_def)
  moreover have "\<forall>j<4. int j \<noteq> n \<longrightarrow> in_order (moved m (I m) n b A) Scheduled j = remove1 m (L Scheduled j)"
    using moved_in_order[OF A(1) m(2,3)] A(2) by simp
  ultimately show "\<exists>q' L'. ChangeCore (t_active_core (I m)) t m b q = Some q' \<and> lists_of q' (I(m := t)) T L' \<and>
      (\<forall>j<4. int j \<noteq> n \<longrightarrow> L' Scheduled j = remove1 m (L Scheduled j))" using q'(1) by blast
qed

section \<open>Reachable queues\<close>

text \<open>The calls the kernel makes, each under its contract, on queues \<open>q\<close> that hold the threads \<open>T\<close> with
  the states \<open>I\<close>. A thread that is not queued may change its state freely.\<close>

inductive pq_reachable :: "KPriorityQueue \<Rightarrow> (nat \<Rightarrow> KThreadInfo) \<Rightarrow> nat set \<Rightarrow> bool" where
  pq_new: "pq_reachable (KPriorityQueue_new e) I {}"
| pq_state: "pq_reachable q I T \<Longrightarrow> m \<notin> T \<Longrightarrow> pq_reachable q (I(m := t)) T"
| pq_push: "pq_reachable q I T \<Longrightarrow> m \<notin> T \<Longrightarrow> valid_thread (I m) \<Longrightarrow>
    KPriorityQueue_PushBack (I m) m q = Some q' \<Longrightarrow> pq_reachable q' I (insert m T)"
| pq_remove: "pq_reachable q I T \<Longrightarrow> m \<in> T \<Longrightarrow>
    KPriorityQueue_Remove (I m) m q = Some q' \<Longrightarrow> pq_reachable q' I (T - {m})"
| pq_priority: "pq_reachable q I T \<Longrightarrow> m \<in> T \<Longrightarrow> t = (I m)\<lparr>t_priority := p\<rparr> \<Longrightarrow> valid_thread t \<Longrightarrow>
    ChangePriority (t_priority (I m)) running t m q = Some q' \<Longrightarrow> pq_reachable q' (I(m := t)) T"
| pq_affinity: "pq_reachable q I T \<Longrightarrow> m \<in> T \<Longrightarrow> t = (I m)\<lparr>t_affinity := a, t_active_core := c\<rparr> \<Longrightarrow>
    valid_thread t \<Longrightarrow> ChangeAffinityMask (t_active_core (I m)) (t_affinity (I m)) t m q = Some q' \<Longrightarrow>
    pq_reachable q' (I(m := t)) T"
| pq_core: "pq_reachable q I T \<Longrightarrow> m \<in> T \<Longrightarrow> t = (I m)\<lparr>t_active_core := c\<rparr> \<Longrightarrow> valid_thread t \<Longrightarrow>
    ChangeCore (t_active_core (I m)) t m front q = Some q' \<Longrightarrow> pq_reachable q' (I(m := t)) T"
| pq_front: "pq_reachable q I T \<Longrightarrow> m \<in> T \<Longrightarrow> 0 \<le> t_active_core (I m) \<Longrightarrow>
    MoveToScheduledFront (I m) m q = Some q' \<Longrightarrow> pq_reachable q' I T"
| pq_back: "pq_reachable q I T \<Longrightarrow> m \<in> T \<Longrightarrow> 0 \<le> t_active_core (I m) \<Longrightarrow>
    MoveToScheduledBack (I m) m q = Some (r, q') \<Longrightarrow> pq_reachable q' I T"

lemma holds_reorder:
  assumes h: "holds q I T A" and pc: "p < 64" "c < 4" and rep: "rep q' (upd A k p c xs)" and xs: "set xs = set (A k p c)"
  shows "holds q' I T (upd A k p c xs)"
proof -
  have "set (upd A k p c xs k' p' c') = set (A k' p' c')" for k' p' c' using xs by (simp add: upd_def)
  then show ?thesis using h rep by (simp add: holds_def)
qed

lemma scheduled_place:
  assumes h: "holds q I T A" and m: "m \<in> T" "queued (I m)" "0 \<le> t_active_core (I m)"
  obtains p c where "p < 64" "c < 4" "t_priority (I m) = int p" "t_active_core (I m) = int c" "m \<in> set (A Scheduled p c)"
proof -
  have v: "valid_thread (I m)" using h m(1) by (simp add: holds_def)
  obtain p where p: "p < 64" "t_priority (I m) = int p" using queued_priority[OF v m(2)] by blast
  obtain c where c: "c < 4" "t_active_core (I m) = int c" using valid_threadD(3)[OF v] m(3) by auto
  have "m \<in> set (A Scheduled p c)"
    using holds_in[OF h p(1) c(1), of m Scheduled] m(1,2) p(2) c(2) by (simp add: wanted_def queued_def)
  then show thesis using that p c by blast
qed

lemma set_rotate1: "m \<in> set xs \<Longrightarrow> set (m # remove1 m xs) = set xs" "m \<in> set xs \<Longrightarrow> set (remove1 m xs @ [m]) = set xs"
  by (induction xs) auto

lemma MoveToScheduledFront_holds:
  assumes h: "holds q I T A" and m: "m \<in> T" "0 \<le> t_active_core (I m)"
  shows "\<exists>q' A'. MoveToScheduledFront (I m) m q = Some q' \<and> holds q' I T A'"
proof (cases "queued (I m)")
  case True
  obtain p c where pc: "p < 64" "c < 4" "t_priority (I m) = int p" "t_active_core (I m) = int c" "m \<in> set (A Scheduled p c)"
    using scheduled_place[OF h m(1) True m(2)] .
  have rep: "rep q A" using h by (simp add: holds_def)
  from move_rep(1)[OF rep pc(1,2,5)] obtain q' where q':
    "on_queue Scheduled (Impl_MoveToFront (int p) (int c) m) q = Some q'"
    "rep q' (upd A Scheduled p c (m # remove1 m (A Scheduled p c)))" by blast
  have "holds q' I T (upd A Scheduled p c (m # remove1 m (A Scheduled p c)))"
    by (rule holds_reorder[OF h pc(1,2) q'(2)]) (rule set_rotate1[OF pc(5)])
  then show ?thesis using q'(1) True pc(3,4) by (auto simp: MoveToScheduledFront_def queued_def)
next
  case False
  have "MoveToScheduledFront (I m) m q = Some q"
    using False by (auto simp: MoveToScheduledFront_def queued_def on_queue_def Impl_MoveToFront_def put_view_def view_def)
  then show ?thesis using h by blast
qed

text \<open>Rotation: the thread goes behind its equals, and the thread now in front of them is returned.\<close>

lemma MoveToScheduledBack_holds:
  assumes h: "holds q I T A" and m: "m \<in> T" "0 \<le> t_active_core (I m)"
  shows "\<exists>r q' A'. MoveToScheduledBack (I m) m q = Some (r, q') \<and> holds q' I T A' \<and>
    (queued (I m) \<longrightarrow> (let p = nat (t_priority (I m)); c = nat (t_active_core (I m)) in
      A' = upd A Scheduled p c (remove1 m (A Scheduled p c) @ [m]) \<and> r = first_of (A' Scheduled p c) None))"
proof (cases "queued (I m)")
  case True
  obtain p c where pc: "p < 64" "c < 4" "t_priority (I m) = int p" "t_active_core (I m) = int c" "m \<in> set (A Scheduled p c)"
    using scheduled_place[OF h m(1) True m(2)] .
  have rep: "rep q A" using h by (simp add: holds_def)
  let ?xs = "remove1 m (A Scheduled p c) @ [m]"
  from move_rep(2)[OF rep pc(1,2,5)] obtain s where s:
    "Impl_MoveToBack (int p) (int c) m (view Scheduled q) = Some (Some (hd ?xs), s)"
    "rep (put_view Scheduled q s) (upd A Scheduled p c ?xs)" by blast
  have "holds (put_view Scheduled q s) I T (upd A Scheduled p c ?xs)"
    by (rule holds_reorder[OF h pc(1,2) s(2)]) (rule set_rotate1[OF pc(5)])
  then show ?thesis using s(1) True pc(3,4)
    by (intro exI[of _ "Some (hd ?xs)"] exI[of _ "put_view Scheduled q s"] exI[of _ "upd A Scheduled p c ?xs"])
      (simp add: MoveToScheduledBack_def queued_def first_of_def)
next
  case False
  have "MoveToScheduledBack (I m) m q = Some (None, q)"
    using False by (auto simp: MoveToScheduledBack_def queued_def Impl_MoveToBack_def put_view_def view_def)
  then show ?thesis using h False by blast
qed

lemma pq_reachable_holds: "pq_reachable q I T \<Longrightarrow> \<exists>A. holds q I T A"
proof (induction rule: pq_reachable.induct)
  case (pq_new e I)
  then show ?case using holds_new by blast
next
  case (pq_state q I T m t)
  then show ?case using holds_other_thread[OF pq_state.hyps(2)] by blast
next
  case (pq_push q I T m q')
  then show ?case using PushBack_holds by fastforce
next
  case (pq_remove q I T m q')
  then show ?case using Remove_holds by fastforce
next
  case (pq_priority q I T m t p running q')
  then obtain A where "holds q I T A" by blast
  from ChangePriority_holds[OF this pq_priority.hyps(2-4), of running] obtain q2 A2 where
    "ChangePriority (t_priority (I m)) running t m q = Some q2" "holds q2 (I(m := t)) T A2" by blast
  then show ?case using pq_priority.hyps(5) by (simp del: fun_upd_apply) blast
next
  case (pq_affinity q I T m t a c q')
  then obtain A where "holds q I T A" by blast
  moreover have "t_priority t = t_priority (I m)" "t_dummy t = t_dummy (I m)" using pq_affinity.hyps(3) by simp_all
  ultimately obtain q2 A2 where
    "ChangeAffinityMask (t_active_core (I m)) (t_affinity (I m)) t m q = Some q2" "holds q2 (I(m := t)) T A2"
    using ChangeAffinityMask_holds[of q I T A m t] pq_affinity.hyps(2,4) by blast
  then show ?case using pq_affinity.hyps(5) by (simp del: fun_upd_apply) blast
next
  case (pq_core q I T m t c front q')
  then obtain A where "holds q I T A" by blast
  from ChangeCore_holds[OF this pq_core.hyps(2-4), of front] obtain q2 A2 where
    "ChangeCore (t_active_core (I m)) t m front q = Some q2" "holds q2 (I(m := t)) T A2" by blast
  then show ?case using pq_core.hyps(5) by (simp del: fun_upd_apply) blast
next
  case (pq_front q I T m q')
  then show ?case using MoveToScheduledFront_holds by fastforce
next
  case (pq_back q I T m r q')
  then show ?case using MoveToScheduledBack_holds by fastforce
qed

section \<open>Properties\<close>

text \<open>C14: in every state the kernel's calls can reach, each operation on the run queues within its
  contract is defined (no pointer or index leaves its structure) and keeps the queues exact: there are
  doubly linked lists for all priorities and cores, each holding exactly the queued threads of that
  priority that are scheduled or suggested there, pairwise disjoint per core, and the bit sets name the
  non-empty ones.\<close>

theorem run_queues_exact:
  assumes "pq_reachable q I T"
  shows "\<exists>A. holds q I T A \<and>
    (\<forall>m. m \<notin> T \<and> valid_thread (I m) \<longrightarrow> (\<exists>q'. KPriorityQueue_PushBack (I m) m q = Some q' \<and>
       holds q' I (insert m T) (placing_if (\<lambda>k xs. xs @ [m]) (I m) A))) \<and>
    (\<forall>m\<in>T. (\<exists>q'. KPriorityQueue_Remove (I m) m q = Some q' \<and>
         holds q' I (T - {m}) (placing_if (\<lambda>k. remove1 m) (I m) A)) \<and>
       (\<forall>p running. valid_thread ((I m)\<lparr>t_priority := p\<rparr>) \<longrightarrow>
         (\<exists>q' A'. ChangePriority (t_priority (I m)) running ((I m)\<lparr>t_priority := p\<rparr>) m q = Some q' \<and>
           holds q' (I(m := (I m)\<lparr>t_priority := p\<rparr>)) T A')) \<and>
       (\<forall>c front. valid_thread ((I m)\<lparr>t_active_core := c\<rparr>) \<longrightarrow>
         (\<exists>q' A'. ChangeCore (t_active_core (I m)) ((I m)\<lparr>t_active_core := c\<rparr>) m front q = Some q' \<and>
           holds q' (I(m := (I m)\<lparr>t_active_core := c\<rparr>)) T A')) \<and>
       (\<forall>a c. valid_thread ((I m)\<lparr>t_affinity := a, t_active_core := c\<rparr>) \<longrightarrow>
         (\<exists>q' A'. ChangeAffinityMask (t_active_core (I m)) (t_affinity (I m)) ((I m)\<lparr>t_affinity := a, t_active_core := c\<rparr>) m q
             = Some q' \<and> holds q' (I(m := (I m)\<lparr>t_affinity := a, t_active_core := c\<rparr>)) T A')))"
proof -
  obtain A where h: "holds q I T A" using pq_reachable_holds[OF assms] by blast
  have af: "\<exists>q' A'. ChangeAffinityMask (t_active_core (I m)) (t_affinity (I m)) ((I m)\<lparr>t_affinity := a, t_active_core := c\<rparr>) m q
      = Some q' \<and> holds q' (I(m := (I m)\<lparr>t_affinity := a, t_active_core := c\<rparr>)) T A'"
    if "m \<in> T" "valid_thread ((I m)\<lparr>t_affinity := a, t_active_core := c\<rparr>)" for m a c
    using ChangeAffinityMask_holds[OF h that(1) _ _ that(2)] by (simp del: fun_upd_apply) blast
  have co: "\<exists>q' A'. ChangeCore (t_active_core (I m)) ((I m)\<lparr>t_active_core := c\<rparr>) m front q = Some q' \<and>
      holds q' (I(m := (I m)\<lparr>t_active_core := c\<rparr>)) T A'" if "m \<in> T" "valid_thread ((I m)\<lparr>t_active_core := c\<rparr>)" for m c front
    using ChangeCore_holds[OF h that(1) refl that(2)] by blast
  have pr: "\<exists>q' A'. ChangePriority (t_priority (I m)) running ((I m)\<lparr>t_priority := p\<rparr>) m q = Some q' \<and>
      holds q' (I(m := (I m)\<lparr>t_priority := p\<rparr>)) T A'" if "m \<in> T" "valid_thread ((I m)\<lparr>t_priority := p\<rparr>)" for m p running
    using ChangePriority_holds[OF h that(1) refl that(2)] by blast
  show ?thesis using h af co pr PushBack_holds[OF h] Remove_holds[OF h] by blast
qed

text \<open>Three threads: two of priority 44 on core 0 (one of them also allowed on core 1), one of priority 20.\<close>

definition sample_threads :: "nat \<Rightarrow> KThreadInfo" where
  "sample_threads m = \<lparr>t_priority = (if m = 2 then 20 else 44), t_active_core = 0,
     t_affinity = (if m = 1 then 3 else 1), t_dummy = False\<rparr>"

lemma sample_threads_valid: "valid_thread (sample_threads m)"
proof -
  have "(1 :: u64) AND NOT (mask 4) = 0" "(3 :: u64) AND NOT (mask 4) = 0" by (simp_all add: mask_eq_exp_minus_1)
  then show ?thesis
    by (simp add: valid_thread_def sample_threads_def IsValidPriority_def HighestPriority_def LowestPriority_def
        NumCores_def GetAffinity_def)
qed

lemma sample_reachable: "\<exists>q. pq_reachable q sample_threads {0, 1, 2}"
proof -
  have add: "\<exists>q'. pq_reachable q' sample_threads (insert m T)" if r: "pq_reachable q sample_threads T" and n: "m \<notin> T" for q m T
  proof -
    obtain A where "holds q sample_threads T A" using pq_reachable_holds[OF r] by blast
    then obtain q' where "KPriorityQueue_PushBack (sample_threads m) m q = Some q'"
      using PushBack_holds[of q sample_threads T A, OF _ n sample_threads_valid] by blast
    then show ?thesis using pq_push[OF r n sample_threads_valid] by blast
  qed
  obtain q1 where "pq_reachable q1 sample_threads {2}"
    using add[OF pq_new[of "\<lambda>c m. QueueEntry_Initialize" sample_threads], of 2] by auto
  then obtain q2 where "pq_reachable q2 sample_threads {1, 2}" using add[of q1 "{2}" 1] by auto
  then show ?thesis using add[of q2 "{1, 2}" 0] by auto
qed

theorem run_queues_exact_witness:
  "\<exists>q. pq_reachable q sample_threads {0, 1, 2} \<and> (\<exists>A. holds q sample_threads {0, 1, 2} A)"
  using sample_reachable run_queues_exact by blast

text \<open>the front of a core's scheduled queue, which the scheduler runs, is null exactly if no queued
  thread has that core, and otherwise a queued thread of that core whose priority no other thread of the
  core beats.\<close>

theorem scheduled_front_is_best:
  assumes "pq_reachable q I T" "c < 4"
  shows "case GetScheduledFront (int c) q of
      None \<Rightarrow> \<forall>m\<in>T. queued (I m) \<longrightarrow> t_active_core (I m) \<noteq> int c
    | Some m \<Rightarrow> m \<in> T \<and> queued (I m) \<and> t_active_core (I m) = int c \<and>
        (\<forall>m'\<in>T. queued (I m') \<and> t_active_core (I m') = int c \<longrightarrow> t_priority (I m) \<le> t_priority (I m'))"
proof -
  obtain A where "holds q I T A" using pq_reachable_holds[OF assms(1)] by blast
  then have "lists_of q I T (in_order A)" by (auto simp: lists_of_def)
  from rq.front_best[OF this assms(2)] show ?thesis by (simp add: front_of_def)
qed

theorem scheduled_front_is_best_witness:
  "\<exists>q. pq_reachable q sample_threads {0, 1, 2} \<and> GetScheduledFront 0 q = Some 2"
proof -
  obtain q where q: "pq_reachable q sample_threads {0, 1, 2}" using sample_reachable by blast
  from scheduled_front_is_best[OF q, of 0] have "GetScheduledFront 0 q = Some 2"
    by (auto simp: sample_threads_def queued_def LowestPriority_def split: option.splits if_splits)
  then show ?thesis using q by blast
qed

text \<open>starting at the front of a core's scheduled or suggested queue and following the successors
  visits exactly the queued threads that belong there, each once, in order of their priority.\<close>

theorem traversal_in_priority_order:
  assumes "pq_reachable q I T" "c < 4"
  shows "\<exists>xs. distinct xs \<and> set xs = {m \<in> T. queued (I m) \<and> wanted (I m) k c} \<and>
    sorted_wrt (\<lambda>x y. t_priority (I x) \<le> t_priority (I y)) xs \<and> front_of k (int c) q = first_of xs None \<and>
    (\<forall>us m vs. xs = us @ m # vs \<longrightarrow> next_of k (int c) (I m) m q = first_of vs None)"
proof -
  obtain A where "holds q I T A" using pq_reachable_holds[OF assms(1)] by blast
  then have l: "lists_of q I T (in_order A)" by (auto simp: lists_of_def)
  show ?thesis
    using rq.members[OF l assms(2)] rq.ordered[OF l assms(2)] rq.front_law[OF l assms(2)] rq.succ_law[OF l assms(2)]
    by (intro exI[of _ "in_order A k c"]) blast
qed

theorem traversal_in_priority_order_witness:
  "\<exists>q xs. pq_reachable q sample_threads {0, 1, 2} \<and> distinct xs \<and> set xs = {0, 1, 2 :: nat} \<and> hd xs = 2 \<and>
    front_of Scheduled 0 q = Some 2"
proof -
  obtain q where q: "pq_reachable q sample_threads {0, 1, 2}" using sample_reachable by blast
  have all: "{m \<in> {0, 1, 2}. queued (sample_threads m) \<and> wanted (sample_threads m) Scheduled 0} = {0, 1, 2}"
    by (auto simp: sample_threads_def queued_def LowestPriority_def wanted_def)
  obtain xs where xs: "distinct xs" "set xs = {0, 1, 2}"
    "sorted_wrt (\<lambda>x y. t_priority (sample_threads x) \<le> t_priority (sample_threads y)) xs"
    "front_of Scheduled (int 0) q = first_of xs None"
    using traversal_in_priority_order[OF q, of 0 Scheduled] unfolding all by auto
  obtain x ys where x: "xs = x # ys" using xs(2) by (cases xs) auto
  have "x = 2"
  proof (rule ccontr)
    assume "x \<noteq> 2"
    then have "2 \<in> set ys" using xs(2) x by auto
    then have "t_priority (sample_threads x) \<le> t_priority (sample_threads 2)" using xs(3) x by auto
    then show False using \<open>x \<noteq> 2\<close> by (simp add: sample_threads_def)
  qed
  then show ?thesis using q xs(1,2,4) x by (intro exI[of _ q] exI[of _ xs]) (simp add: first_of_def)
qed

end
