(* ===== verification/K_Scheduler.thy ===== *)
theory K_Scheduler
  imports K_Priority_Queue
begin

text \<open>
  \<open>KScheduler\<close> (\<open>src/core/hle/kernel/k_scheduler.cpp\<close>), the global scheduler context
  (\<open>global_scheduler_context.cpp\<close>) and the scheduler lock (\<open>k_scheduler_lock.h\<close>), over the run
  queues of \<open>K_Priority_Queue\<close>. Threads, processes and cores are numbers and the kernel is one record:
  the fields of threads and processes the scheduler reads and writes, the four schedulers, the queues and
  the global context. One call sees one value of the host's clock. A null pointer that is dereferenced, an
  array index out of range and a loop that does not end are all \<open>None\<close>; counters that only grow
  (schedule counts and times, \<open>s64\<close> in the source) are unbounded.

  Switching fibers ends a call for the thread that makes it: \<open>ScheduleImpl\<close> says whether control left the
  thread, and what the fiber then does is \<open>ScheduleImplFiber\<close>. Saving and loading the guest's registers
  and sending the interrupt itself are not modelled; the interrupted cores are recorded.
\<close>

section \<open>State\<close>

definition ThreadState_Initialized :: u16 where
  "ThreadState_Initialized = 0"

definition ThreadState_Waiting :: u16 where
  "ThreadState_Waiting = 1"

definition ThreadState_Runnable :: u16 where
  "ThreadState_Runnable = 2"

definition ThreadState_Terminated :: u16 where
  "ThreadState_Terminated = 3"

definition ThreadState_Mask :: u16 where
  "ThreadState_Mask = 15"

text \<open>The fields of a thread other than those the queues read (\<open>KThreadInfo\<close>).\<close>

record KThread =
  th_state :: u16
  th_parent :: "nat option"
  th_last_scheduled_tick :: int
  th_schedule_count :: int
  th_num_kernel_waiters :: int
  th_current_core :: int
  th_cpu_time :: int
  th_disable_count :: int
  th_termination_requested :: bool
  th_dpc_terminated :: bool
  th_dummy_runnable :: bool
  th_context_locked :: bool
  th_suspend_request_flags :: u32
  th_suspend_allowed_flags :: u32
  th_is_pinned :: bool
  th_num_core_migration_disables :: int
  th_virtual_ideal_core :: int
  th_virtual_affinity :: u64
  th_physical_ideal_core :: int
  th_original_physical_ideal_core :: int
  th_original_affinity :: u64

record KProcess =
  pr_schedule_count :: int
  pr_running_threads :: "nat \<Rightarrow> nat option"
  pr_running_thread_idle_counts :: "nat \<Rightarrow> u64"
  pr_pinned_threads :: "nat \<Rightarrow> nat option"
  pr_running_time_ticks :: int

record KScheduler =
  sc_needs_scheduling :: bool
  sc_interrupt_task_runnable :: bool
  sc_should_count_idle :: bool
  sc_idle_count :: u64
  sc_highest_priority_thread :: "nat option"
  sc_prev_thread :: "nat option"
  sc_is_active :: bool
  sc_core_id :: nat
  sc_last_context_switch_time :: int
  sc_idle_thread :: "nat option"
  sc_current_thread :: "nat option"
  sc_switch_cur_thread :: "nat option"
  sc_switch_highest_priority_thread :: "nat option"
  sc_switch_from_schedule :: bool

record KernelCore =
  k_info :: "nat \<Rightarrow> KThreadInfo"
  k_thread :: "nat \<Rightarrow> KThread"
  k_process :: "nat \<Rightarrow> KProcess"
  k_scheduler :: "nat \<Rightarrow> KScheduler"
  k_queue :: KPriorityQueue
  k_update_needed :: bool
  k_woken_dummy_threads :: "nat set"
  k_thread_list :: "nat list"
  k_lock_count :: int
  k_lock_owner :: "nat option"
  k_current_thread :: nat
  k_current_core :: "nat option"
  k_phantom_mode :: bool
  k_cpu_ticks :: int
  k_interrupted :: "nat set"

definition on_thread :: "nat \<Rightarrow> (KThread \<Rightarrow> KThread) \<Rightarrow> KernelCore \<Rightarrow> KernelCore" where
  "on_thread m f k = k\<lparr>k_thread := (k_thread k)(m := f (k_thread k m))\<rparr>"

definition on_process :: "nat \<Rightarrow> (KProcess \<Rightarrow> KProcess) \<Rightarrow> KernelCore \<Rightarrow> KernelCore" where
  "on_process p f k = k\<lparr>k_process := (k_process k)(p := f (k_process k p))\<rparr>"

definition on_scheduler :: "nat \<Rightarrow> (KScheduler \<Rightarrow> KScheduler) \<Rightarrow> KernelCore \<Rightarrow> KernelCore" where
  "on_scheduler c f k = k\<lparr>k_scheduler := (k_scheduler k)(c := f (k_scheduler k c))\<rparr>"

definition HighestCoreMigrationAllowedPriority :: int where
  "HighestCoreMigrationAllowedPriority = 2"

definition SetSchedulerUpdateNeeded :: "KernelCore \<Rightarrow> KernelCore" where
  "SetSchedulerUpdateNeeded k = k\<lparr>k_update_needed := True\<rparr>"

definition ClearSchedulerUpdateNeeded :: "KernelCore \<Rightarrow> KernelCore" where
  "ClearSchedulerUpdateNeeded k = k\<lparr>k_update_needed := False\<rparr>"

definition IncrementScheduledCount :: "nat \<Rightarrow> KernelCore \<Rightarrow> KernelCore" where
  "IncrementScheduledCount m k =
     (case th_parent (k_thread k m) of
        None \<Rightarrow> k
      | Some p \<Rightarrow> on_process p (\<lambda>pr. pr\<lparr>pr_schedule_count := pr_schedule_count pr + 1\<rparr>) k)"

definition SetRunningThread :: "nat \<Rightarrow> nat \<Rightarrow> u64 \<Rightarrow> KProcess \<Rightarrow> KProcess" where
  "SetRunningThread core m idle_count pr =
     pr\<lparr>pr_running_threads := (pr_running_threads pr)(core := Some m),
        pr_running_thread_idle_counts := (pr_running_thread_idle_counts pr)(core := idle_count)\<rparr>"

definition GetRawState :: "nat \<Rightarrow> KernelCore \<Rightarrow> u16" where
  "GetRawState m k = th_state (k_thread k m)"

definition IsTerminationRequested :: "KThread \<Rightarrow> bool" where
  "IsTerminationRequested th \<longleftrightarrow> th_termination_requested th \<or> th_state th = ThreadState_Terminated"

definition DisableDispatch :: "nat \<Rightarrow> KernelCore \<Rightarrow> KernelCore" where
  "DisableDispatch m = on_thread m (\<lambda>th. th\<lparr>th_disable_count := th_disable_count th + 1\<rparr>)"

definition EnableDispatch :: "nat \<Rightarrow> KernelCore \<Rightarrow> KernelCore" where
  "EnableDispatch m = on_thread m (\<lambda>th. th\<lparr>th_disable_count := th_disable_count th - 1\<rparr>)"

text \<open>Assigning a thread a core and moving it there in the queues, as every migration does.\<close>

definition migrate :: "int \<Rightarrow> nat \<Rightarrow> bool \<Rightarrow> KernelCore \<Rightarrow> KernelCore option" where
  "migrate core m to_front k =
     (let t = (k_info k m)\<lparr>t_active_core := core\<rparr>
      in map_option (\<lambda>q. k\<lparr>k_info := (k_info k)(m := t), k_queue := q\<rparr>)
           (ChangeCore (t_active_core (k_info k m)) t m to_front (k_queue k)))"

section \<open>Selecting the thread of each core\<close>

definition UpdateHighestPriorityThread :: "nat \<Rightarrow> nat option \<Rightarrow> KernelCore \<Rightarrow> u64 \<times> KernelCore" where
  "UpdateHighestPriorityThread core highest_thread k =
     (let sc = k_scheduler k core; prev_highest_thread = sc_highest_priority_thread sc in
      if prev_highest_thread \<noteq> highest_thread then
        let k1 = (case prev_highest_thread of
                    None \<Rightarrow> k
                  | Some m \<Rightarrow> on_thread m (\<lambda>th. th\<lparr>th_last_scheduled_tick := k_cpu_ticks k\<rparr>) (IncrementScheduledCount m k));
            k2 = (if sc_should_count_idle sc then
                    case highest_thread of
                      Some m \<Rightarrow>
                        (case th_parent (k_thread k1 m) of
                           None \<Rightarrow> k1
                         | Some p \<Rightarrow> on_process p (SetRunningThread (sc_core_id sc) m (sc_idle_count sc)) k1)
                    | None \<Rightarrow> on_scheduler core (\<lambda>s. s\<lparr>sc_idle_count := sc_idle_count s + 1\<rparr>) k1
                  else k1);
            k3 = on_scheduler core (\<lambda>s. s\<lparr>sc_highest_priority_thread := highest_thread, sc_needs_scheduling := True\<rparr>) k2
        in (push_bit (sc_core_id sc) 1, k3)
      else (0, k))"

text \<open>The thread a core would run: the front of its queue, unless its process has pinned another one.\<close>

definition select_top :: "nat \<Rightarrow> KernelCore \<Rightarrow> nat option" where
  "select_top core k =
     (case GetScheduledFront (int core) (k_queue k) of
        None \<Rightarrow> None
      | Some top_thread \<Rightarrow>
          (case th_parent (k_thread k top_thread) of
             None \<Rightarrow> Some top_thread
           | Some p \<Rightarrow>
               (case pr_pinned_threads (k_process k p) core of
                  None \<Rightarrow> Some top_thread
                | Some pinned \<Rightarrow>
                    if pinned \<noteq> top_thread \<and> th_num_kernel_waiters (k_thread k top_thread) = 0 then
                      if GetRawState pinned k = ThreadState_Runnable then Some pinned else None
                    else Some top_thread)))"

type_synonym tops = "nat \<Rightarrow> nat option"

type_synonym update_acc = "u64 \<times> tops \<times> KernelCore"

definition note_top :: "nat \<Rightarrow> nat option \<Rightarrow> update_acc \<Rightarrow> update_acc" where
  "note_top core top_thread acc =
     (case acc of (cores, tops, k) \<Rightarrow>
        case UpdateHighestPriorityThread core top_thread k of (b, k') \<Rightarrow> (cores OR b, tops(core := top_thread), k'))"

fun select_tops :: "nat list \<Rightarrow> u64 \<Rightarrow> update_acc \<Rightarrow> u64 \<times> update_acc" where
  "select_tops [] idle acc = (idle, acc)"
| "select_tops (core # cs) idle acc =
     (let k = snd (snd acc);
          idle' = (if GetScheduledFront (int core) (k_queue k) = None then idle OR push_bit core 1 else idle)
      in select_tops cs idle' (note_top core (select_top core k) acc))"

text \<open>Looking for a suggested thread to migrate to an idle core. The result is the last suggestion
  (\<open>None\<close> when they ran out) and the cores noted as candidates, an array of four entries.\<close>

partial_function (option) try_suggested ::
  "nat \<Rightarrow> nat option \<Rightarrow> int list \<Rightarrow> update_acc \<Rightarrow> (nat option \<times> int list \<times> update_acc) option" where
  "try_suggested core suggested cands acc =
     (case suggested of
        None \<Rightarrow> Some (None, cands, acc)
      | Some m \<Rightarrow>
          let tops = fst (snd acc); k = snd (snd acc);
              suggested_core = t_active_core (k_info k m);
              top_thread = (if 0 \<le> suggested_core then tops (nat suggested_core) else None)
          in if NumCores \<le> suggested_core then None
             else if top_thread \<noteq> Some m then
               if top_thread \<noteq> None \<and> t_priority (k_info k (the top_thread)) < HighestCoreMigrationAllowedPriority
               then Some (Some m, cands, acc)
               else
                 map_option (\<lambda>k'. (Some m, cands, note_top core (Some m) (fst acc, tops, k'))) (migrate (int core) m False k)
             else if int (length cands) \<ge> NumCores then None
             else try_suggested core (GetSuggestedNext (int core) (k_info k m) m (k_queue k)) (cands @ [suggested_core]) acc)"

fun try_candidates :: "nat \<Rightarrow> int list \<Rightarrow> update_acc \<Rightarrow> update_acc option" where
  "try_candidates core [] acc = Some acc"
| "try_candidates core (candidate # cs) acc =
     (let tops = fst (snd acc); k = snd (snd acc) in
      case tops (nat candidate) of
        None \<Rightarrow> None
      | Some m \<Rightarrow>
          (case GetScheduledNext candidate (k_info k m) m (k_queue k) of
             None \<Rightarrow> try_candidates core cs acc
           | Some next_on_candidate_core \<Rightarrow>
               (case note_top (nat candidate) (Some next_on_candidate_core) acc of
                  (cores, tops', k') \<Rightarrow>
                    map_option (\<lambda>k2. note_top core (Some m) (cores, tops', k2)) (migrate (int core) m False k'))))"

definition fill_idle_core :: "nat \<Rightarrow> update_acc \<Rightarrow> update_acc option" where
  "fill_idle_core core acc =
     (case GetSuggestedFront (int core) (k_queue (snd (snd acc))) of
        None \<Rightarrow> Some acc
      | Some m \<Rightarrow>
          (case try_suggested core (Some m) [] acc of
             None \<Rightarrow> None
           | Some (rest, cands, acc') \<Rightarrow>
               if rest = None then try_candidates core cands acc' else Some acc'))"

function fill_idle_cores :: "u64 \<Rightarrow> update_acc \<Rightarrow> update_acc option" where
  "fill_idle_cores idle acc =
     (if idle = 0 then Some acc
      else case fill_idle_core (countr_zero idle) acc of
             None \<Rightarrow> None
           | Some acc' \<Rightarrow> fill_idle_cores (idle AND NOT (push_bit (countr_zero idle) 1)) acc')"
  by pat_completeness auto
termination
  by (relation "measure (\<lambda>(idle, acc). unat idle)") (simp_all add: clear_bit_less countr_zero_set)

declare fill_idle_cores.simps [simp del]

definition WakeupWaitingDummyThreads :: "KernelCore \<Rightarrow> KernelCore" where
  "WakeupWaitingDummyThreads k =
     k\<lparr>k_thread := (\<lambda>m. if m \<in> k_woken_dummy_threads k then (k_thread k m)\<lparr>th_dummy_runnable := True\<rparr> else k_thread k m),
       k_woken_dummy_threads := {}\<rparr>"

definition RequestDummyThreadWait :: "nat \<Rightarrow> KernelCore \<Rightarrow> KernelCore" where
  "RequestDummyThreadWait m = on_thread m (\<lambda>th. th\<lparr>th_dummy_runnable := False\<rparr>)"

definition UpdateHighestPriorityThreadsImpl :: "KernelCore \<Rightarrow> (u64 \<times> KernelCore) option" where
  "UpdateHighestPriorityThreadsImpl k =
     (case select_tops [0, 1, 2, 3] 0 (0, \<lambda>c. None, ClearSchedulerUpdateNeeded k) of
        (idle_cores, acc) \<Rightarrow>
          (case fill_idle_cores idle_cores acc of
             None \<Rightarrow> None
           | Some (cores_needing_scheduling, tops, k1) \<Rightarrow>
               let k2 = WakeupWaitingDummyThreads k1; cur = k_current_thread k2
               in Some (cores_needing_scheduling,
                        if t_dummy (k_info k2 cur) \<and> GetRawState cur k2 AND ThreadState_Mask \<noteq> ThreadState_Runnable
                        then RequestDummyThreadWait cur k2 else k2)))"

definition UpdateHighestPriorityThreads :: "KernelCore \<Rightarrow> (u64 \<times> KernelCore) option" where
  "UpdateHighestPriorityThreads k = (if k_update_needed k then UpdateHighestPriorityThreadsImpl k else Some (0, k))"

section \<open>Changes of a thread\<close>

definition RegisterDummyThreadForWakeup :: "nat \<Rightarrow> KernelCore \<Rightarrow> KernelCore" where
  "RegisterDummyThreadForWakeup m k = k\<lparr>k_woken_dummy_threads := insert m (k_woken_dummy_threads k)\<rparr>"

definition UnregisterDummyThreadForWakeup :: "nat \<Rightarrow> KernelCore \<Rightarrow> KernelCore" where
  "UnregisterDummyThreadForWakeup m k = k\<lparr>k_woken_dummy_threads := k_woken_dummy_threads k - {m}\<rparr>"

definition AddThread :: "nat \<Rightarrow> KernelCore \<Rightarrow> KernelCore" where
  "AddThread m k = k\<lparr>k_thread_list := k_thread_list k @ [m]\<rparr>"

definition RemoveThread :: "nat \<Rightarrow> KernelCore \<Rightarrow> KernelCore" where
  "RemoveThread m k = k\<lparr>k_thread_list := filter (\<lambda>t. t \<noteq> m) (k_thread_list k)\<rparr>"

definition ClearPreviousThread :: "nat \<Rightarrow> KernelCore \<Rightarrow> KernelCore" where
  "ClearPreviousThread m k =
     fold (\<lambda>c. on_scheduler c (\<lambda>s. if sc_prev_thread s = Some m then s\<lparr>sc_prev_thread := None\<rparr> else s)) [0, 1, 2, 3] k"

text \<open>These run after the thread's field has its new value; the old one is an argument.\<close>

definition OnThreadStateChanged :: "nat \<Rightarrow> u16 \<Rightarrow> KernelCore \<Rightarrow> KernelCore option" where
  "OnThreadStateChanged m old_state k =
     (let cur_state = GetRawState m k; t = k_info k m in
      if cur_state = old_state then Some k
      else if old_state = ThreadState_Runnable then
        map_option (\<lambda>q.
            let k' = SetSchedulerUpdateNeeded (IncrementScheduledCount m (k\<lparr>k_queue := q\<rparr>))
            in if t_dummy t then UnregisterDummyThreadForWakeup m k' else k')
          (KPriorityQueue_Remove t m (k_queue k))
      else if cur_state = ThreadState_Runnable then
        map_option (\<lambda>q.
            let k' = SetSchedulerUpdateNeeded (IncrementScheduledCount m (k\<lparr>k_queue := q\<rparr>))
            in if t_dummy t then RegisterDummyThreadForWakeup m k' else k')
          (KPriorityQueue_PushBack t m (k_queue k))
      else Some k)"

definition OnThreadPriorityChanged :: "nat \<Rightarrow> int \<Rightarrow> KernelCore \<Rightarrow> KernelCore option" where
  "OnThreadPriorityChanged m old_priority k =
     (if GetRawState m k = ThreadState_Runnable then
        map_option (\<lambda>q. SetSchedulerUpdateNeeded (IncrementScheduledCount m (k\<lparr>k_queue := q\<rparr>)))
          (ChangePriority old_priority (m = k_current_thread k) (k_info k m) m (k_queue k))
      else Some k)"

definition OnThreadAffinityMaskChanged :: "nat \<Rightarrow> u64 \<Rightarrow> int \<Rightarrow> KernelCore \<Rightarrow> KernelCore option" where
  "OnThreadAffinityMaskChanged m old_affinity old_core k =
     (if GetRawState m k = ThreadState_Runnable then
        map_option (\<lambda>q. SetSchedulerUpdateNeeded (IncrementScheduledCount m (k\<lparr>k_queue := q\<rparr>)))
          (ChangeAffinityMask old_core old_affinity (k_info k m) m (k_queue k))
      else Some k)"

section \<open>Rotation and yielding\<close>

text \<open>The front of the scheduled queue of a suggestion's core, null when it has none.\<close>

definition top_on_core :: "int \<Rightarrow> KernelCore \<Rightarrow> nat option" where
  "top_on_core core k = (if 0 \<le> core then GetScheduledFront core (k_queue k) else None)"

definition may_displace :: "nat option \<Rightarrow> KernelCore \<Rightarrow> bool" where
  "may_displace running k \<longleftrightarrow>
     (case running of None \<Rightarrow> True | Some t \<Rightarrow> HighestCoreMigrationAllowedPriority \<le> t_priority (k_info k t))"

partial_function (option) rotate_same_priority ::
  "int \<Rightarrow> nat option \<Rightarrow> nat option \<Rightarrow> nat option \<Rightarrow> KernelCore \<Rightarrow> KernelCore option" where
  "rotate_same_priority core top_thread next_thread suggested k =
     (case suggested of
        None \<Rightarrow> Some k
      | Some m \<Rightarrow>
          let suggested_core = t_active_core (k_info k m); top_there = top_on_core suggested_core k in
          if top_there \<noteq> Some m \<and> top_thread \<noteq> next_thread \<and> next_thread \<noteq> None \<and>
             th_last_scheduled_tick (k_thread k (the next_thread)) < th_last_scheduled_tick (k_thread k m)
          then Some k
          else if top_there \<noteq> Some m \<and> may_displace top_there k
          then map_option (IncrementScheduledCount m) (migrate core m True k)
          else rotate_same_priority core top_thread next_thread (GetSamePriorityNext core m (k_queue k)) k)"

partial_function (option) rotate_better ::
  "int \<Rightarrow> nat \<Rightarrow> nat option \<Rightarrow> KernelCore \<Rightarrow> KernelCore option" where
  "rotate_better core best_thread suggested k =
     (case suggested of
        None \<Rightarrow> Some k
      | Some m \<Rightarrow>
          let suggested_core = t_active_core (k_info k m); top_there = top_on_core suggested_core k in
          if t_priority (k_info k best_thread) \<le> t_priority (k_info k m) then Some k
          else if top_there \<noteq> Some m \<and> may_displace top_there k
          then map_option (IncrementScheduledCount m) (migrate core m True k)
          else rotate_better core best_thread (GetSuggestedNext core (k_info k m) m (k_queue k)) k)"

definition rotate_front :: "int \<Rightarrow> int \<Rightarrow> KernelCore \<Rightarrow> (nat option \<times> nat option \<times> KernelCore) option" where
  "rotate_front core_id priority k =
     (case GetScheduledFront_at core_id priority (k_queue k) of
        None \<Rightarrow> Some (None, None, k)
      | Some top_thread \<Rightarrow>
          (case MoveToScheduledBack (k_info k top_thread) top_thread (k_queue k) of
             None \<Rightarrow> None
           | Some (next_thread, q) \<Rightarrow>
               let k1 = k\<lparr>k_queue := q\<rparr> in
               if next_thread = Some top_thread then Some (Some top_thread, next_thread, k1)
               else
                 (case next_thread of
                    None \<Rightarrow> None
                  | Some n \<Rightarrow> Some (Some top_thread, next_thread, IncrementScheduledCount n (IncrementScheduledCount top_thread k1)))))"

definition RotateScheduledQueue :: "int \<Rightarrow> int \<Rightarrow> KernelCore \<Rightarrow> KernelCore option" where
  "RotateScheduledQueue core_id priority k =
     do {
       (top_thread, next_thread, k1) \<leftarrow> rotate_front core_id priority k;
       k2 \<leftarrow> rotate_same_priority core_id top_thread next_thread (GetSuggestedFront_at core_id priority (k_queue k1)) k1;
       let front = GetScheduledFront core_id (k_queue k2);
       let best_thread = (if front = Some (k_current_thread k2)
                          then GetScheduledNext core_id (k_info k2 (k_current_thread k2)) (k_current_thread k2) (k_queue k2)
                          else front);
       k3 \<leftarrow> (case best_thread of
                Some b \<Rightarrow> if priority \<le> t_priority (k_info k2 b)
                          then rotate_better core_id b (GetSuggestedFront core_id (k_queue k2)) k2 else Some k2
              | None \<Rightarrow> Some k2);
       Some (SetSchedulerUpdateNeeded k3)
     }"

definition preemption_priorities :: "(nat \<times> int) list" where
  "preemption_priorities = [(0, 59), (1, 59), (2, 59), (3, 63)]"

fun rotate_all :: "(nat \<times> int) list \<Rightarrow> KernelCore \<Rightarrow> KernelCore option" where
  "rotate_all [] k = Some k"
| "rotate_all ((core, priority) # ps) k =
     (case RotateScheduledQueue (int core) priority k of None \<Rightarrow> None | Some k' \<Rightarrow> rotate_all ps k')"

definition PreemptThreads :: "KernelCore \<Rightarrow> KernelCore option" where
  "PreemptThreads k = rotate_all preemption_priorities k"

definition SetYieldScheduleCount :: "nat \<Rightarrow> nat \<Rightarrow> KernelCore \<Rightarrow> KernelCore" where
  "SetYieldScheduleCount m p k = on_thread m (\<lambda>th. th\<lparr>th_schedule_count := pr_schedule_count (k_process k p)\<rparr>) k"

text \<open>The bodies of the yield calls, under the scheduler lock, for the current thread and its process.\<close>

definition yield_without_migration :: "nat \<Rightarrow> KernelCore \<Rightarrow> KernelCore option" where
  "yield_without_migration p k =
     (let cur = k_current_thread k in
      if GetRawState cur k \<noteq> ThreadState_Runnable then Some k
      else
        (case MoveToScheduledBack (k_info k cur) cur (k_queue k) of
           None \<Rightarrow> None
         | Some (next_thread, q) \<Rightarrow>
             let k1 = IncrementScheduledCount cur (k\<lparr>k_queue := q\<rparr>)
             in Some (if next_thread \<noteq> Some cur then SetSchedulerUpdateNeeded k1 else SetYieldScheduleCount cur p k1)))"

text \<open>The result says whether a suggestion was found and whether to check again on a later yield.\<close>

partial_function (option) yield_suggested ::
  "int \<Rightarrow> nat option \<Rightarrow> bool \<Rightarrow> nat option \<Rightarrow> KernelCore \<Rightarrow> (nat option \<times> bool \<times> KernelCore) option" where
  "yield_suggested core next_thread recheck suggested k =
     (case suggested of
        None \<Rightarrow> Some (None, recheck, k)
      | Some m \<Rightarrow>
          let cur = k_current_thread k; suggested_core = t_active_core (k_info k m) in
          if NumCores \<le> suggested_core then None
          else
            let running = (if 0 \<le> suggested_core then sc_highest_priority_thread (k_scheduler k (nat suggested_core)) else None) in
            if running = Some m then
              yield_suggested core next_thread recheck (GetSuggestedNext core (k_info k m) m (k_queue k)) k
            else if t_priority (k_info k m) = t_priority (k_info k cur) \<and> next_thread = None then None
            else if t_priority (k_info k cur) < t_priority (k_info k m) \<or>
                t_priority (k_info k m) = t_priority (k_info k cur) \<and> next_thread \<noteq> Some cur \<and>
                th_last_scheduled_tick (k_thread k (the next_thread)) < th_last_scheduled_tick (k_thread k m)
            then Some (None, recheck, k)
            else if may_displace running k then
              map_option (\<lambda>k'. (Some m, recheck, IncrementScheduledCount m k')) (migrate core m True k)
            else yield_suggested core next_thread True (GetSuggestedNext core (k_info k m) m (k_queue k)) k)"

definition yield_with_migration :: "nat \<Rightarrow> KernelCore \<Rightarrow> KernelCore option" where
  "yield_with_migration p k =
     (let cur = k_current_thread k in
      if GetRawState cur k \<noteq> ThreadState_Runnable then Some k
      else
        let core_id = t_active_core (k_info k cur) in
        case MoveToScheduledBack (k_info k cur) cur (k_queue k) of
          None \<Rightarrow> None
        | Some (next_thread, q) \<Rightarrow>
            let k1 = IncrementScheduledCount cur (k\<lparr>k_queue := q\<rparr>) in
            (case yield_suggested core_id next_thread False (GetSuggestedFront core_id (k_queue k1)) k1 of
               None \<Rightarrow> None
             | Some (suggested, recheck, k2) \<Rightarrow>
                 Some (if suggested \<noteq> None \<or> next_thread \<noteq> Some cur then SetSchedulerUpdateNeeded k2
                       else if \<not> recheck then SetYieldScheduleCount cur p k2 else k2)))"

partial_function (option) yield_any_suggested ::
  "int \<Rightarrow> nat option \<Rightarrow> KernelCore \<Rightarrow> (nat option \<times> KernelCore) option" where
  "yield_any_suggested core suggested k =
     (case suggested of
        None \<Rightarrow> Some (None, k)
      | Some m \<Rightarrow>
          let suggested_core = t_active_core (k_info k m); top_there = top_on_core suggested_core k in
          if top_there \<noteq> Some m then
            if may_displace top_there k
            then map_option (\<lambda>k'. (Some m, IncrementScheduledCount m k')) (migrate core m False k)
            else Some (Some m, k)
          else yield_any_suggested core (GetSuggestedNext core (k_info k m) m (k_queue k)) k)"

definition yield_to_any :: "nat \<Rightarrow> KernelCore \<Rightarrow> KernelCore option" where
  "yield_to_any p k =
     (let cur = k_current_thread k in
      if GetRawState cur k \<noteq> ThreadState_Runnable then Some k
      else
        let core_id = t_active_core (k_info k cur) in
        case migrate (-1) cur False k of
          None \<Rightarrow> None
        | Some k0 \<Rightarrow>
            let k1 = IncrementScheduledCount cur k0 in
            if GetScheduledFront core_id (k_queue k1) = None then
              (case yield_any_suggested core_id (GetSuggestedFront core_id (k_queue k1)) k1 of
                 None \<Rightarrow> None
               | Some (suggested, k2) \<Rightarrow>
                   Some (if suggested \<noteq> Some cur then SetSchedulerUpdateNeeded k2 else SetYieldScheduleCount cur p k2))
            else Some (SetSchedulerUpdateNeeded k1))"

section \<open>Switching threads\<close>

definition RescheduleCores :: "u64 \<Rightarrow> KernelCore \<Rightarrow> KernelCore" where
  "RescheduleCores core_mask k =
     k\<lparr>k_interrupted := k_interrupted k \<union> Set.filter (\<lambda>i. core_mask AND push_bit i 1 \<noteq> 0) {0, 1, 2, 3}\<rparr>"

definition RescheduleOtherCores :: "nat \<Rightarrow> u64 \<Rightarrow> KernelCore \<Rightarrow> KernelCore" where
  "RescheduleOtherCores core cores_needing_scheduling k =
     (let core_mask = cores_needing_scheduling AND NOT (push_bit (sc_core_id (k_scheduler k core)) 1)
      in if core_mask \<noteq> 0 then RescheduleCores core_mask k else k)"

definition ScheduleImpl :: "nat \<Rightarrow> KernelCore \<Rightarrow> bool \<times> KernelCore" where
  "ScheduleImpl core k =
     (let k1 = on_scheduler core (\<lambda>s. s\<lparr>sc_needs_scheduling := False\<rparr>) k;
          cur_thread = k_current_thread k1; sc = k_scheduler k1 core;
          highest_priority_thread = (if sc_interrupt_task_runnable sc then None else sc_highest_priority_thread sc)
      in if highest_priority_thread = Some cur_thread then (False, k1)
         else (True, on_scheduler core (\<lambda>s. s\<lparr>sc_switch_cur_thread := Some cur_thread,
                       sc_switch_highest_priority_thread := highest_priority_thread,
                       sc_switch_from_schedule := True\<rparr>) k1))"

definition RescheduleCurrentCoreImpl :: "nat \<Rightarrow> KernelCore \<Rightarrow> bool \<times> KernelCore" where
  "RescheduleCurrentCoreImpl core k =
     (if sc_needs_scheduling (k_scheduler k core) then
        case ScheduleImpl core (DisableDispatch (k_current_thread k) k) of
          (left, k') \<Rightarrow> (left, if left then k' else EnableDispatch (k_current_thread k') k')
      else (False, k))"

definition RescheduleCurrentCore :: "nat \<Rightarrow> KernelCore \<Rightarrow> bool \<times> KernelCore" where
  "RescheduleCurrentCore core k =
     (let k1 = EnableDispatch (k_current_thread k) k
      in if sc_needs_scheduling (k_scheduler k1 core) then RescheduleCurrentCoreImpl core k1 else (False, k1))"

text \<open>A host thread that waits for its wake-up blocks here; the call then has no result.\<close>

definition RescheduleCurrentHLEThread :: "KernelCore \<Rightarrow> KernelCore option" where
  "RescheduleCurrentHLEThread k =
     (let cur = k_current_thread k in
      if t_dummy (k_info k cur) \<and> \<not> k_phantom_mode k \<and> \<not> th_dummy_runnable (k_thread k cur) then None
      else Some (EnableDispatch cur k))"

definition EnableScheduling :: "u64 \<Rightarrow> KernelCore \<Rightarrow> (bool \<times> KernelCore) option" where
  "EnableScheduling cores_needing_scheduling k =
     (case (if k_phantom_mode k then None else k_current_core k) of
        None \<Rightarrow> map_option (Pair False) (RescheduleCurrentHLEThread (RescheduleCores cores_needing_scheduling k))
      | Some core \<Rightarrow>
          let k1 = RescheduleOtherCores core cores_needing_scheduling k; cur = k_current_thread k1
          in Some (if 1 < th_disable_count (k_thread k1 cur) then (False, EnableDispatch cur k1)
                   else RescheduleCurrentCore core k1))"

definition DisableScheduling :: "KernelCore \<Rightarrow> KernelCore" where
  "DisableScheduling k = DisableDispatch (k_current_thread k) k"

text \<open>The lock is taken when it is free or held by the current thread; otherwise the call is still waiting.\<close>

definition SchedulerLock_Lock :: "KernelCore \<Rightarrow> KernelCore option" where
  "SchedulerLock_Lock k =
     (let cur = k_current_thread k in
      if k_lock_owner k = Some cur then Some (k\<lparr>k_lock_count := k_lock_count k + 1\<rparr>)
      else if k_lock_owner k = None then
        Some ((DisableScheduling k)\<lparr>k_lock_owner := Some cur, k_lock_count := k_lock_count k + 1\<rparr>)
      else None)"

definition SchedulerLock_Unlock :: "KernelCore \<Rightarrow> (bool \<times> KernelCore) option" where
  "SchedulerLock_Unlock k =
     (let k1 = k\<lparr>k_lock_count := k_lock_count k - 1\<rparr> in
      if k_lock_count k1 = 0 then
        (case UpdateHighestPriorityThreads k1 of
           None \<Rightarrow> None
         | Some (cores_needing_scheduling, k2) \<Rightarrow> EnableScheduling cores_needing_scheduling (k2\<lparr>k_lock_owner := None\<rparr>))
      else Some (False, k1))"

definition under_lock :: "(KernelCore \<Rightarrow> KernelCore option) \<Rightarrow> KernelCore \<Rightarrow> (bool \<times> KernelCore) option" where
  "under_lock body k = do { k1 \<leftarrow> SchedulerLock_Lock k; k2 \<leftarrow> body k1; SchedulerLock_Unlock k2 }"

definition yield_call :: "(nat \<Rightarrow> KernelCore \<Rightarrow> KernelCore option) \<Rightarrow> KernelCore \<Rightarrow> (bool \<times> KernelCore) option" where
  "yield_call body k =
     (let cur = k_current_thread k in
      case th_parent (k_thread k cur) of
        None \<Rightarrow> None
      | Some p \<Rightarrow>
          if th_schedule_count (k_thread k cur) = pr_schedule_count (k_process k p) then Some (False, k)
          else under_lock (body p) k)"

definition YieldWithoutCoreMigration :: "KernelCore \<Rightarrow> (bool \<times> KernelCore) option" where
  "YieldWithoutCoreMigration = yield_call yield_without_migration"

definition YieldWithCoreMigration :: "KernelCore \<Rightarrow> (bool \<times> KernelCore) option" where
  "YieldWithCoreMigration = yield_call yield_with_migration"

definition YieldToAnyThread :: "KernelCore \<Rightarrow> (bool \<times> KernelCore) option" where
  "YieldToAnyThread = yield_call yield_to_any"

definition SwitchThread :: "nat \<Rightarrow> nat option \<Rightarrow> KernelCore \<Rightarrow> KernelCore option" where
  "SwitchThread core next_thread k =
     (case (if next_thread = None then sc_idle_thread (k_scheduler k core) else next_thread) of
        None \<Rightarrow> None
      | Some m \<Rightarrow>
          let sc = k_scheduler k core; core_id = int (sc_core_id sc); cur = k_current_thread k;
              cur_process = th_parent (k_thread k cur);
              k1 = (if th_current_core (k_thread k m) \<noteq> core_id
                    then on_thread m (\<lambda>th. th\<lparr>th_current_core := core_id\<rparr>) k else k)
          in if m = cur then Some k1
             else
               let tick_diff = k_cpu_ticks k - sc_last_context_switch_time sc;
                   k2 = on_thread cur (\<lambda>th. th\<lparr>th_cpu_time := th_cpu_time th + tick_diff\<rparr>) k1;
                   k3 = (case cur_process of None \<Rightarrow> k2
                         | Some p \<Rightarrow> on_process p (\<lambda>pr. pr\<lparr>pr_running_time_ticks := pr_running_time_ticks pr + tick_diff\<rparr>) k2);
                   k4 = on_scheduler core (\<lambda>s. s\<lparr>sc_last_context_switch_time := k_cpu_ticks k\<rparr>) k3;
                   k5 = (if cur_process = None then k4
                         else on_scheduler core (\<lambda>s. s\<lparr>sc_prev_thread :=
                                (if \<not> IsTerminationRequested (k_thread k4 cur) \<and> t_active_core (k_info k4 cur) = core_id
                                 then Some cur else None)\<rparr>) k4)
               in Some (on_scheduler core (\<lambda>s. s\<lparr>sc_current_thread := Some m\<rparr>) (k5\<lparr>k_current_thread := m\<rparr>)))"

definition set_guard :: "bool \<Rightarrow> nat \<Rightarrow> KernelCore \<Rightarrow> KernelCore" where
  "set_guard b m = on_thread m (\<lambda>th. th\<lparr>th_context_locked := b\<rparr>)"

definition Unload :: "nat \<Rightarrow> KernelCore \<Rightarrow> KernelCore" where
  "Unload m k = (if th_dpc_terminated (k_thread k m) then k else set_guard False m k)"

text \<open>The other cores run between the steps of a switch: \<open>env i\<close> is what they do before the \<open>i\<close>-th
  access to shared state. Taking a thread's context fails while another core holds it, and gives up when
  the core needs scheduling again; the result says whether the context was taken.\<close>

type_synonym interference = "nat \<Rightarrow> KernelCore \<Rightarrow> KernelCore"

partial_function (option) take_context ::
  "nat \<Rightarrow> interference \<Rightarrow> nat \<Rightarrow> nat \<Rightarrow> KernelCore \<Rightarrow> (bool \<times> nat \<times> KernelCore) option" where
  "take_context core env m i k =
     (let k1 = env i k in
      if \<not> th_context_locked (k_thread k1 m) then Some (True, Suc i, set_guard True m k1)
      else
        let k2 = env (Suc i) k1 in
        if sc_needs_scheduling (k_scheduler k2 core) then Some (False, Suc (Suc i), k2)
        else take_context core env m (Suc (Suc i)) k2)"

definition retry_switch :: "nat \<Rightarrow> interference \<Rightarrow> nat \<Rightarrow> KernelCore \<Rightarrow> nat option \<times> nat \<times> KernelCore" where
  "retry_switch core env i k =
     (let k1 = env (Suc i) (on_scheduler core (\<lambda>s. s\<lparr>sc_needs_scheduling := False\<rparr>) (env i k))
      in (sc_highest_priority_thread (k_scheduler k1 core), Suc (Suc i), k1))"

partial_function (option) switch_loop ::
  "nat \<Rightarrow> interference \<Rightarrow> nat option \<times> nat \<times> KernelCore \<Rightarrow> (nat \<times> KernelCore) option" where
  "switch_loop core env s =
     (case s of (highest, i, k) \<Rightarrow>
        case (if highest = None then sc_idle_thread (k_scheduler k core) else highest) of
          None \<Rightarrow> None
        | Some m \<Rightarrow>
            (case take_context core env m i k of
               None \<Rightarrow> None
             | Some (taken, i1, k1) \<Rightarrow>
                 if \<not> taken then switch_loop core env (retry_switch core env i1 k1)
                 else
                   (case SwitchThread core (Some m) k1 of
                      None \<Rightarrow> None
                    | Some k2 \<Rightarrow>
                        let k3 = env i1 k2 in
                        if sc_needs_scheduling (k_scheduler k3 core)
                        then switch_loop core env (retry_switch core env (Suc i1) (set_guard False m k3))
                        else Some (m, k3))))"

definition ScheduleImplFiber :: "nat \<Rightarrow> interference \<Rightarrow> KernelCore \<Rightarrow> (nat \<times> KernelCore) option" where
  "ScheduleImplFiber core env k =
     (let sc = k_scheduler k core in
      if \<not> sc_switch_from_schedule sc then switch_loop core env (retry_switch core env 0 k)
      else
        case sc_switch_cur_thread sc of
          None \<Rightarrow> None
        | Some cur \<Rightarrow>
            switch_loop core env (sc_switch_highest_priority_thread sc, 0,
              Unload cur (on_scheduler core (\<lambda>s. s\<lparr>sc_switch_from_schedule := False\<rparr>) k)))"

section \<open>The scheduler object\<close>

definition KScheduler_new :: KScheduler where
  "KScheduler_new =
     \<lparr>sc_needs_scheduling = True, sc_interrupt_task_runnable = False, sc_should_count_idle = False, sc_idle_count = 0,
      sc_highest_priority_thread = None, sc_prev_thread = None, sc_is_active = False, sc_core_id = 0,
      sc_last_context_switch_time = 0, sc_idle_thread = None, sc_current_thread = None, sc_switch_cur_thread = None,
      sc_switch_highest_priority_thread = None, sc_switch_from_schedule = False\<rparr>"

definition KScheduler_Initialize :: "nat \<Rightarrow> nat \<Rightarrow> nat \<Rightarrow> KScheduler \<Rightarrow> KScheduler" where
  "KScheduler_Initialize main_thread idle_thread core_id s =
     s\<lparr>sc_core_id := core_id, sc_idle_thread := Some idle_thread, sc_current_thread := Some main_thread\<rparr>"

definition Activate :: "nat \<Rightarrow> KernelCore \<Rightarrow> bool \<times> KernelCore" where
  "Activate core k = RescheduleCurrentCore core (on_scheduler core (\<lambda>s. s\<lparr>sc_is_active := True\<rparr>) k)"

definition SetInterruptTaskRunnable :: "KScheduler \<Rightarrow> KScheduler" where
  "SetInterruptTaskRunnable s = s\<lparr>sc_interrupt_task_runnable := True, sc_needs_scheduling := True\<rparr>"

definition CanSchedule :: "KernelCore \<Rightarrow> bool" where
  "CanSchedule k \<longleftrightarrow> th_disable_count (k_thread k (k_current_thread k)) = 0"

definition ScheduleOnInterrupt :: "nat \<Rightarrow> KernelCore \<Rightarrow> bool \<times> KernelCore" where
  "ScheduleOnInterrupt core k =
     (case ScheduleImpl core (DisableDispatch (k_current_thread k) k) of
        (left, k') \<Rightarrow> (left, if left then k' else EnableDispatch (k_current_thread k') k'))"

definition RequestScheduleOnInterrupt :: "nat \<Rightarrow> KernelCore \<Rightarrow> bool \<times> KernelCore" where
  "RequestScheduleOnInterrupt core k =
     (let k1 = on_scheduler core (\<lambda>s. s\<lparr>sc_needs_scheduling := True\<rparr>) k
      in if CanSchedule k1 then ScheduleOnInterrupt core k1 else (False, k1))"

definition OnThreadStart :: "KernelCore \<Rightarrow> KernelCore" where
  "OnThreadStart k = EnableDispatch (k_current_thread k) k"

end
