(* ===== verification/K_Thread.thy ===== *)
theory K_Thread
  imports K_Scheduler
begin

text \<open>
  The operations of \<open>KThread\<close> (\<open>src/core/hle/kernel/k_thread.cpp\<close>) that change what the scheduler
  reads: the thread's state with its suspension flags, its priority, its core mask and pinning. Each tells
  the scheduler afterwards. The physical affinity mask of a thread is the \<open>t_affinity\<close> the queues read.
  Shifting by a negative core number is \<open>None\<close>. Waiting for a thread to leave a core (the second half of
  \<open>SetCoreMask\<close> and \<open>SetActivity\<close>) and waking the threads that wait for an unpinned one belong to the
  wait queues and are not modelled.
\<close>

section \<open>State and suspension\<close>

datatype SuspendType = Suspend_Process | Suspend_Thread | Suspend_Debug | Suspend_Backtrace | Suspend_Init

primrec suspend_bit :: "SuspendType \<Rightarrow> u32" where
  "suspend_bit Suspend_Process = 16"
| "suspend_bit Suspend_Thread = 32"
| "suspend_bit Suspend_Debug = 64"
| "suspend_bit Suspend_Backtrace = 128"
| "suspend_bit Suspend_Init = 256"

definition GetSuspendFlags :: "KThread \<Rightarrow> u32" where
  "GetSuspendFlags th = th_suspend_allowed_flags th AND th_suspend_request_flags th"

definition IsSuspended :: "KThread \<Rightarrow> bool" where
  "IsSuspended th \<longleftrightarrow> GetSuspendFlags th \<noteq> 0"

definition IsSuspendRequested_type :: "SuspendType \<Rightarrow> KThread \<Rightarrow> bool" where
  "IsSuspendRequested_type ty th \<longleftrightarrow> th_suspend_request_flags th AND suspend_bit ty \<noteq> 0"

definition GetState :: "KThread \<Rightarrow> u16" where
  "GetState th = th_state th AND ThreadState_Mask"

definition store_state :: "nat \<Rightarrow> u16 \<Rightarrow> KernelCore \<Rightarrow> KernelCore" where
  "store_state m s = on_thread m (\<lambda>th. th\<lparr>th_state := s\<rparr>)"

definition UpdateState :: "nat \<Rightarrow> KernelCore \<Rightarrow> KernelCore option" where
  "UpdateState m k =
     (let old_state = GetRawState m k;
          new_state = ucast (GetSuspendFlags (k_thread k m)) OR (old_state AND ThreadState_Mask);
          k1 = store_state m new_state k
      in if new_state \<noteq> old_state then OnThreadStateChanged m old_state k1 else Some k1)"

definition Continue :: "nat \<Rightarrow> KernelCore \<Rightarrow> KernelCore option" where
  "Continue m k =
     (let old_state = GetRawState m k
      in OnThreadStateChanged m old_state (store_state m (old_state AND ThreadState_Mask) k))"

definition set_state :: "nat \<Rightarrow> u16 \<Rightarrow> KernelCore \<Rightarrow> KernelCore option" where
  "set_state m state k =
     (let old_state = GetRawState m k;
          k1 = store_state m ((old_state AND NOT ThreadState_Mask) OR (state AND ThreadState_Mask)) k
      in if GetRawState m k1 \<noteq> old_state then OnThreadStateChanged m old_state k1 else Some k1)"

definition SetState :: "nat \<Rightarrow> u16 \<Rightarrow> KernelCore \<Rightarrow> (bool \<times> KernelCore) option" where
  "SetState m state = under_lock (set_state m state)"

definition TrySuspend :: "nat \<Rightarrow> KernelCore \<Rightarrow> KernelCore option" where
  "TrySuspend m k = (if 0 < th_num_kernel_waiters (k_thread k m) then Some k else UpdateState m k)"

definition request_suspend :: "nat \<Rightarrow> SuspendType \<Rightarrow> KernelCore \<Rightarrow> KernelCore option" where
  "request_suspend m ty k =
     TrySuspend m (on_thread m (\<lambda>th. th\<lparr>th_suspend_request_flags := th_suspend_request_flags th OR suspend_bit ty\<rparr>) k)"

definition RequestSuspend :: "nat \<Rightarrow> SuspendType \<Rightarrow> KernelCore \<Rightarrow> (bool \<times> KernelCore) option" where
  "RequestSuspend m ty = under_lock (request_suspend m ty)"

definition resume :: "nat \<Rightarrow> SuspendType \<Rightarrow> KernelCore \<Rightarrow> KernelCore option" where
  "resume m ty k =
     UpdateState m (on_thread m (\<lambda>th. th\<lparr>th_suspend_request_flags := th_suspend_request_flags th AND NOT (suspend_bit ty)\<rparr>) k)"

definition Resume :: "nat \<Rightarrow> SuspendType \<Rightarrow> KernelCore \<Rightarrow> (bool \<times> KernelCore) option" where
  "Resume m ty = under_lock (resume m ty)"

definition ContinueIfHasKernelWaiters :: "nat \<Rightarrow> KernelCore \<Rightarrow> KernelCore option" where
  "ContinueIfHasKernelWaiters m k = (if 0 < th_num_kernel_waiters (k_thread k m) then Continue m k else Some k)"

section \<open>Priority\<close>

definition change_priority :: "nat \<Rightarrow> int \<Rightarrow> KernelCore \<Rightarrow> KernelCore option" where
  "change_priority m new_priority k =
     (let old_priority = t_priority (k_info k m)
      in OnThreadPriorityChanged m old_priority
           (k\<lparr>k_info := (k_info k)(m := (k_info k m)\<lparr>t_priority := new_priority\<rparr>)\<rparr>))"

section \<open>Core masks\<close>

definition VirtualToPhysicalCoreMap :: "nat \<Rightarrow> int" where
  "VirtualToPhysicalCoreMap v = (if v < 4 then int v else if v = 63 then 3 else 0)"

function ConvertVirtualCoreMaskToPhysical :: "u64 \<Rightarrow> u64 \<Rightarrow> u64" where
  "ConvertVirtualCoreMaskToPhysical v_core_mask p_core_mask =
     (if v_core_mask = 0 then p_core_mask
      else
        let n = countr_zero v_core_mask
        in ConvertVirtualCoreMaskToPhysical (v_core_mask AND NOT (push_bit n 1))
             (p_core_mask OR push_bit (nat (VirtualToPhysicalCoreMap n)) 1))"
  by pat_completeness auto
termination
  by (relation "measure (\<lambda>(v, p). unat v)") (simp_all add: clear_bit_less countr_zero_set)

declare ConvertVirtualCoreMaskToPhysical.simps [simp del]

definition set_mask :: "nat \<Rightarrow> u64 \<Rightarrow> int \<Rightarrow> KernelCore \<Rightarrow> KernelCore" where
  "set_mask m affinity core k = k\<lparr>k_info := (k_info k)(m := (k_info k m)\<lparr>t_affinity := affinity, t_active_core := core\<rparr>)\<rparr>"

definition Pin :: "nat \<Rightarrow> nat \<Rightarrow> KernelCore \<Rightarrow> KernelCore option" where
  "Pin m current_core k =
     (let old_affinity = t_affinity (k_info k m); active_core = t_active_core (k_info k m);
          new_affinity = push_bit current_core 1;
          k1 = on_thread m (\<lambda>th. th\<lparr>th_is_pinned := True,
                 th_num_core_migration_disables := th_num_core_migration_disables th + 1,
                 th_original_physical_ideal_core := th_physical_ideal_core th,
                 th_original_affinity := old_affinity, th_physical_ideal_core := int current_core\<rparr>) k;
          k2 = set_mask m new_affinity (int current_core) k1
      in do {
           k3 \<leftarrow> (if active_core \<noteq> int current_core \<or> new_affinity \<noteq> old_affinity
                  then OnThreadAffinityMaskChanged m old_affinity active_core k2 else Some k2);
           UpdateState m (on_thread m (\<lambda>th. th\<lparr>th_suspend_allowed_flags :=
             th_suspend_allowed_flags th AND NOT (suspend_bit Suspend_Thread)\<rparr>) k3)
         })"

text \<open>The core of a mask: the ideal one if there is one, the highest otherwise.\<close>

definition core_of_mask :: "int \<Rightarrow> u64 \<Rightarrow> int" where
  "core_of_mask ideal affinity = (if 0 \<le> ideal then ideal else 63 - int (countl_zero affinity))"

definition Unpin :: "nat \<Rightarrow> KernelCore \<Rightarrow> KernelCore option" where
  "Unpin m k =
     (let old_mask = t_affinity (k_info k m); active_core = t_active_core (k_info k m);
          new_mask = th_original_affinity (k_thread k m); ideal = th_original_physical_ideal_core (k_thread k m);
          k1 = on_thread m (\<lambda>th. th\<lparr>th_is_pinned := False,
                 th_num_core_migration_disables := th_num_core_migration_disables th - 1,
                 th_physical_ideal_core := ideal\<rparr>) k
      in do {
           k2 \<leftarrow> (if new_mask \<noteq> old_mask then
                    if active_core < 0 then None
                    else OnThreadAffinityMaskChanged m old_mask active_core
                           (set_mask m new_mask
                              (if GetAffinity new_mask active_core then active_core else core_of_mask ideal new_mask) k1)
                  else Some k1);
           (if IsTerminationRequested (k_thread k2 m) then Some k2
            else UpdateState m (on_thread m (\<lambda>th. th\<lparr>th_suspend_allowed_flags :=
                   th_suspend_allowed_flags th OR suspend_bit Suspend_Thread\<rparr>) k2))
         })"

definition GetPhysicalCoreMask :: "nat \<Rightarrow> KernelCore \<Rightarrow> int \<times> u64" where
  "GetPhysicalCoreMask m k =
     (let th = k_thread k m
      in if th_num_core_migration_disables th = 0 then (th_physical_ideal_core th, t_affinity (k_info k m))
         else (th_original_physical_ideal_core th, th_original_affinity th))"

definition GetCoreMask :: "nat \<Rightarrow> KernelCore \<Rightarrow> int \<times> u64" where
  "GetCoreMask m k = (th_virtual_ideal_core (k_thread k m), th_virtual_affinity (k_thread k m))"

definition IdealCoreNoUpdate :: int where
  "IdealCoreNoUpdate = -3"

text \<open>The update of \<open>SetCoreMask\<close>, under the scheduler lock.\<close>

definition apply_core_mask :: "nat \<Rightarrow> int \<Rightarrow> u64 \<Rightarrow> KernelCore \<Rightarrow> KernelCore option" where
  "apply_core_mask m core_id p_affinity_mask k =
     (if th_num_core_migration_disables (k_thread k m) = 0 then
        let old_mask = t_affinity (k_info k m); active_core = t_active_core (k_info k m);
            k1 = on_thread m (\<lambda>th. th\<lparr>th_physical_ideal_core := core_id\<rparr>) k
        in if p_affinity_mask \<noteq> old_mask then
             OnThreadAffinityMaskChanged m old_mask active_core
               (set_mask m p_affinity_mask
                  (if 0 \<le> active_core \<and> \<not> GetAffinity p_affinity_mask active_core
                   then core_of_mask core_id p_affinity_mask else active_core) k1)
           else Some k1
      else Some (on_thread m (\<lambda>th. th\<lparr>th_original_physical_ideal_core := core_id, th_original_affinity := p_affinity_mask\<rparr>) k))"

definition set_core_mask :: "nat \<Rightarrow> int \<Rightarrow> u64 \<Rightarrow> KernelCore \<Rightarrow> (Result \<times> KernelCore) option" where
  "set_core_mask m core_id v_affinity_mask k =
     (let no_update = (core_id = IdealCoreNoUpdate);
          ideal = (if no_update then th_virtual_ideal_core (k_thread k m) else core_id)
      in if no_update \<and> (ideal < 0 \<or> 64 \<le> ideal) then None
         else if no_update \<and> push_bit (nat ideal) 1 AND v_affinity_mask = 0 then Some (ResultInvalidCombination, k)
         else if 64 \<le> ideal then None
         else
           map_option (Pair ResultSuccess)
             (apply_core_mask m (if 0 \<le> ideal then VirtualToPhysicalCoreMap (nat ideal) else ideal)
                (ConvertVirtualCoreMaskToPhysical v_affinity_mask 0)
                (on_thread m (\<lambda>th. th\<lparr>th_virtual_ideal_core := ideal, th_virtual_affinity := v_affinity_mask\<rparr>) k)))"

end
