(* ===== verification/Scheduling.thy ===== *)
theory Scheduling
  imports Run_Queues K_Thread
begin

text \<open>
  Correctness of the scheduler of \<open>K_Scheduler\<close>, as a client of the run queues: the facts \<open>rq.*\<close> of
  the interface \<open>run_queue\<close> are all it uses of the queues' order. Every call of the scheduler returns and
  keeps the queues exactly the runnable threads; selecting threads gives every core the best of its
  queue; and a core never ends a switch with a thread that is no longer its selection.
\<close>

section \<open>The invariant and what leaves it alone\<close>

definition runnable :: "KernelCore \<Rightarrow> nat set" where
  "runnable k = {m. GetRawState m k = ThreadState_Runnable}"

definition queues :: "KernelCore \<Rightarrow> (queue_kind \<Rightarrow> nat \<Rightarrow> nat list) \<Rightarrow> bool" where
  "queues k L \<longleftrightarrow> lists_of (k_queue k) (k_info k) (runnable k) L"

definition sched_inv :: "KernelCore \<Rightarrow> bool" where
  "sched_inv k \<longleftrightarrow> (\<exists>L. queues k L) \<and> (\<forall>c<4. sc_core_id (k_scheduler k c) = c)"

text \<open>What bookkeeping leaves as it was: the queues, what they read, the thread states and core numbers.\<close>

definition frame :: "KernelCore \<Rightarrow> KernelCore \<Rightarrow> bool" where
  "frame k k' \<longleftrightarrow> k_queue k' = k_queue k \<and> k_info k' = k_info k \<and>
     (\<forall>m. th_state (k_thread k' m) = th_state (k_thread k m)) \<and>
     (\<forall>c. sc_core_id (k_scheduler k' c) = sc_core_id (k_scheduler k c)) \<and>
     (\<forall>p. pr_pinned_threads (k_process k' p) = pr_pinned_threads (k_process k p)) \<and>
     k_current_thread k' = k_current_thread k"

named_theorems frames \<open>bookkeeping that keeps the queues\<close>

lemma frame_refl [frames]: "frame k k"
  by (simp add: frame_def)

lemma frame_trans: "frame k k1 \<Longrightarrow> frame k1 k2 \<Longrightarrow> frame k k2"
  by (simp add: frame_def)

lemma frame_queues: "frame k k' \<Longrightarrow> queues k' L = queues k L"
  by (simp add: frame_def queues_def runnable_def GetRawState_def)

lemma frame_inv: "frame k k' \<Longrightarrow> sched_inv k' = sched_inv k"
  by (simp add: sched_inv_def frame_queues) (simp add: frame_def)

lemma frame_on_thread [frames]: "(\<And>th. th_state (f th) = th_state th) \<Longrightarrow> frame k (on_thread m f k)"
  by (simp add: frame_def on_thread_def)

lemma frame_on_process [frames]: "(\<And>pr. pr_pinned_threads (f pr) = pr_pinned_threads pr) \<Longrightarrow> frame k (on_process p f k)"
  by (simp add: frame_def on_process_def)

lemma frame_on_scheduler [frames]: "(\<And>s. sc_core_id (f s) = sc_core_id s) \<Longrightarrow> frame k (on_scheduler c f k)"
  by (simp add: frame_def on_scheduler_def)

lemma frame_count [frames]: "frame k (IncrementScheduledCount m k)"
  by (simp add: IncrementScheduledCount_def frames split: option.split)

lemma frame_flags [frames]: "frame k (SetSchedulerUpdateNeeded k)" "frame k (ClearSchedulerUpdateNeeded k)"
  "frame k (RegisterDummyThreadForWakeup m k)" "frame k (UnregisterDummyThreadForWakeup m k)"
  "frame k (WakeupWaitingDummyThreads k)" "frame k (RequestDummyThreadWait m k)" "frame k (SetYieldScheduleCount m p k)"
  by (simp_all add: frame_def SetSchedulerUpdateNeeded_def ClearSchedulerUpdateNeeded_def RegisterDummyThreadForWakeup_def
      UnregisterDummyThreadForWakeup_def WakeupWaitingDummyThreads_def RequestDummyThreadWait_def SetYieldScheduleCount_def
      on_thread_def)

lemma frame_dispatch [frames]: "frame k (EnableDispatch m k)" "frame k (DisableDispatch m k)" "frame k (RescheduleCores w k)"
  "frame k (RescheduleOtherCores c w k)"
  by (simp_all add: frame_def EnableDispatch_def DisableDispatch_def on_thread_def RescheduleCores_def
      RescheduleOtherCores_def Let_def)

lemma frame_lock: "frame k (k\<lparr>k_lock_count := n\<rparr>)" "frame k (k\<lparr>k_lock_owner := w\<rparr>)"
  by (simp_all add: frame_def)

text \<open>The selection of one core.\<close>

lemma UpdateHighestPriorityThread_cases:
  assumes "UpdateHighestPriorityThread c w k = (b, k')"
  shows "frame k k' \<and>
    (sc_highest_priority_thread (k_scheduler k c) = w \<and> b = 0 \<and> k' = k \<or>
     sc_highest_priority_thread (k_scheduler k c) \<noteq> w \<and> b = push_bit (sc_core_id (k_scheduler k c)) 1 \<and>
     sc_highest_priority_thread (k_scheduler k' c) = w \<and> sc_needs_scheduling (k_scheduler k' c)) \<and>
    (\<forall>j. j \<noteq> c \<longrightarrow> k_scheduler k' j = k_scheduler k j)"
proof (cases "sc_highest_priority_thread (k_scheduler k c) = w")
  case True
  then show ?thesis using assms by (simp add: UpdateHighestPriorityThread_def frame_refl)
next
  case False
  define k1 where "k1 = (case sc_highest_priority_thread (k_scheduler k c) of
      None \<Rightarrow> k | Some m \<Rightarrow> on_thread m (\<lambda>th. th\<lparr>th_last_scheduled_tick := k_cpu_ticks k\<rparr>) (IncrementScheduledCount m k))"
  define k2 where "k2 = (if sc_should_count_idle (k_scheduler k c) then
      case w of Some m \<Rightarrow> (case th_parent (k_thread k1 m) of None \<Rightarrow> k1
          | Some p \<Rightarrow> on_process p (SetRunningThread (sc_core_id (k_scheduler k c)) m (sc_idle_count (k_scheduler k c))) k1)
      | None \<Rightarrow> on_scheduler c (\<lambda>s. s\<lparr>sc_idle_count := sc_idle_count s + 1\<rparr>) k1
    else k1)"
  have "UpdateHighestPriorityThread c w k = (push_bit (sc_core_id (k_scheduler k c)) 1,
      on_scheduler c (\<lambda>s. s\<lparr>sc_highest_priority_thread := w, sc_needs_scheduling := True\<rparr>) k2)"
    unfolding UpdateHighestPriorityThread_def Let_def k2_def k1_def by (simp only: False if_True not_False_eq_True)
  then have e: "b = push_bit (sc_core_id (k_scheduler k c)) 1"
    "k' = on_scheduler c (\<lambda>s. s\<lparr>sc_highest_priority_thread := w, sc_needs_scheduling := True\<rparr>) k2"
    using assms by simp_all
  have s1: "frame k k1" "k_scheduler k1 = k_scheduler k"
    unfolding k1_def by (auto simp: frames IncrementScheduledCount_def on_thread_def on_process_def frame_def split: option.split)
  have s2: "frame k1 k2" "\<forall>j. j \<noteq> c \<longrightarrow> k_scheduler k2 j = k_scheduler k1 j"
    unfolding k2_def by (auto simp: frames SetRunningThread_def on_process_def on_scheduler_def frame_def split: option.split)
  have "frame k2 k'" unfolding e(2) by (rule frame_on_scheduler) simp
  with frame_trans[OF s1(1) s2(1)] have "frame k k'" by (rule frame_trans)
  moreover have "sc_highest_priority_thread (k_scheduler k' c) = w" "sc_needs_scheduling (k_scheduler k' c)"
    "\<forall>j. j \<noteq> c \<longrightarrow> k_scheduler k' j = k_scheduler k j"
    using s1(2) s2(2) by (simp_all add: e(2) on_scheduler_def)
  ultimately show ?thesis using False e(1) by simp
qed

section \<open>Migration\<close>

lemma queued_core [simp]: "queued (t\<lparr>t_active_core := c\<rparr>) = queued t"
  by (simp add: queued_def)

lemma wanted_Suggested: "wanted t Suggested c \<longleftrightarrow> bit (t_affinity t) c \<and> t_active_core t \<noteq> int c"
  by (simp add: wanted_def)

lemma suggested_valid:
  "valid_thread t \<Longrightarrow> wanted t Suggested c \<Longrightarrow> valid_thread (t\<lparr>t_active_core := int c\<rparr>)"
  using valid_threadD(1)[of t c]
  by (auto simp: valid_thread_def wanted_Suggested GetAffinity_bit NumCores_def)

lemma suggestedD:
  assumes "queues k L" "c < 4" "m \<in> set (L Suggested c)"
  shows "m \<in> runnable k" "queued (k_info k m)" "wanted (k_info k m) Suggested c" "valid_thread (k_info k m)"
    "t_active_core (k_info k m) < NumCores" "t_active_core (k_info k m) \<noteq> int c"
proof -
  show m: "m \<in> runnable k" "queued (k_info k m)" "wanted (k_info k m) Suggested c"
    using rq.members[OF assms(1)[unfolded queues_def] assms(2), of Suggested] assms(3) by auto
  show v: "valid_thread (k_info k m)" using rq.valid[OF assms(1)[unfolded queues_def] m(1)] .
  then show "t_active_core (k_info k m) < NumCores" by (simp add: valid_thread_def)
  show "t_active_core (k_info k m) \<noteq> int c" using m(3) by (simp add: wanted_Suggested)
qed

text \<open>Moving a suggested thread to the core it was suggested for: it leaves its old core's queue, and
  nothing else there moves.\<close>

lemma migrate_suggested:
  assumes q: "queues k L" and c: "c < 4" and m: "m \<in> set (L Suggested c)"
  shows "\<exists>q' L'. migrate (int c) m b k =
        Some (k\<lparr>k_info := (k_info k)(m := (k_info k m)\<lparr>t_active_core := int c\<rparr>), k_queue := q'\<rparr>) \<and>
      queues (k\<lparr>k_info := (k_info k)(m := (k_info k m)\<lparr>t_active_core := int c\<rparr>), k_queue := q'\<rparr>) L' \<and>
      (\<forall>j<4. j \<noteq> c \<longrightarrow> L' Scheduled j = remove1 m (L Scheduled j)) \<and>
      (L Scheduled c = [] \<longrightarrow> L' Scheduled c = [m])"
proof -
  note d = suggestedD[OF q c m]
  let ?t = "(k_info k m)\<lparr>t_active_core := int c\<rparr>"
  obtain q' L' where q': "ChangeCore (t_active_core (k_info k m)) ?t m b (k_queue k) = Some q'"
    "lists_of q' ((k_info k)(m := ?t)) (runnable k) L'" "\<forall>j<4. int j \<noteq> int c \<longrightarrow> L' Scheduled j = remove1 m (L Scheduled j)"
    using rq.change_core_law[OF q[unfolded queues_def] d(1,2,6) refl suggested_valid[OF d(4,3)]] by blast
  have "L Scheduled c = [] \<Longrightarrow> L' Scheduled c = [m]"
    using rq.takeover[OF q[unfolded queues_def] c _ q'(2) d(1)] d(2) by simp
  moreover have "runnable (k\<lparr>k_info := (k_info k)(m := ?t), k_queue := q'\<rparr>) = runnable k"
    by (simp add: runnable_def GetRawState_def)
  ultimately show ?thesis using q' by (intro exI[of _ q'] exI[of _ L']) (simp add: migrate_def queues_def)
qed

section \<open>Selecting the threads\<close>

text \<open>The state of a selection that began in \<open>k0\<close>: the schedulers of the cores \<open>S\<close> have their selected
  threads, and every core whose selection has changed is flagged and asked to reschedule.\<close>

definition selecting :: "nat set \<Rightarrow> KernelCore \<Rightarrow> update_acc \<Rightarrow> bool" where
  "selecting S k0 acc \<longleftrightarrow> (case acc of (cores, tops, k) \<Rightarrow>
     (\<forall>c<4. sc_core_id (k_scheduler k c) = c) \<and>
     (\<forall>c\<in>S. sc_highest_priority_thread (k_scheduler k c) = tops c) \<and>
     (\<forall>c<4. sc_highest_priority_thread (k_scheduler k c) \<noteq> sc_highest_priority_thread (k_scheduler k0 c) \<longrightarrow>
        bit cores c \<and> sc_needs_scheduling (k_scheduler k c)) \<and>
     k_current_thread k = k_current_thread k0 \<and> runnable k = runnable k0)"

lemma note_top_selecting:
  assumes s: "selecting S k0 acc" and c: "c < 4"
  shows "selecting (insert c S) k0 (note_top c w acc)" "frame (snd (snd acc)) (snd (snd (note_top c w acc)))"
    "fst (snd (note_top c w acc)) = (fst (snd acc))(c := w)"
proof -
  obtain cores tops k where acc: "acc = (cores, tops, k)" by (metis prod_cases3)
  obtain b k' where u: "UpdateHighestPriorityThread c w k = (b, k')" by fastforce
  note uc = UpdateHighestPriorityThread_cases[OF u]
  have n: "note_top c w acc = (cores OR b, tops(c := w), k')" by (simp add: note_top_def acc u)
  show "frame (snd (snd acc)) (snd (snd (note_top c w acc)))" "fst (snd (note_top c w acc)) = (fst (snd acc))(c := w)"
    using uc unfolding n by (simp_all add: acc)
  have f: "frame k k'" using uc by simp
  have s': "\<forall>c<4. sc_core_id (k_scheduler k c) = c"
    "\<And>c. c \<in> S \<Longrightarrow> sc_highest_priority_thread (k_scheduler k c) = tops c"
    "\<And>c. c < 4 \<Longrightarrow> sc_highest_priority_thread (k_scheduler k c) \<noteq> sc_highest_priority_thread (k_scheduler k0 c) \<Longrightarrow>
        bit cores c \<and> sc_needs_scheduling (k_scheduler k c)"
    "k_current_thread k = k_current_thread k0" "runnable k = runnable k0"
    using s by (auto simp: selecting_def acc)
  have h: "sc_highest_priority_thread (k_scheduler k' c) = w" using uc by auto
  have o: "k_scheduler k' j = k_scheduler k j" if "j \<noteq> c" for j using uc that by blast
  have flag: "bit (cores OR b) j \<and> sc_needs_scheduling (k_scheduler k' j)"
    if j: "j < 4" "sc_highest_priority_thread (k_scheduler k' j) \<noteq> sc_highest_priority_thread (k_scheduler k0 j)" for j
  proof (cases "j = c \<and> sc_highest_priority_thread (k_scheduler k c) \<noteq> w")
    case True
    then have "b = push_bit c 1" "sc_needs_scheduling (k_scheduler k' c)" using uc s'(1) c by auto
    then show ?thesis using True c by (simp add: bit_or_iff bit_exp_iff)
  next
    case False
    then have "k_scheduler k' j = k_scheduler k j" using uc o by (cases "j = c") auto
    then show ?thesis using s'(3)[OF j(1)] j(2) by (simp add: bit_or_iff)
  qed
  have ids: "sc_core_id (k_scheduler k' j) = sc_core_id (k_scheduler k j)" "k_current_thread k' = k_current_thread k"
    "runnable k' = runnable k" for j
    using f by (simp_all add: frame_def runnable_def GetRawState_def)
  have "sc_highest_priority_thread (k_scheduler k' j) = (tops(c := w)) j" if "j \<in> insert c S" for j
    using h o s'(2) that by (cases "j = c") auto
  then show "selecting (insert c S) k0 (note_top c w acc)"
    unfolding n selecting_def using ids s'(1,4,5) flag by simp
qed

lemma selecting_kernel:
  "selecting S k0 (cores, tops, k) \<Longrightarrow> k_scheduler k' = k_scheduler k \<Longrightarrow> k_current_thread k' = k_current_thread k \<Longrightarrow>
    runnable k' = runnable k \<Longrightarrow> selecting S k0 (cores, tops, k')"
  by (simp add: selecting_def)

lemma select_tops_selecting:
  assumes "selecting S k0 acc" "\<forall>c\<in>set cs. c < 4"
  shows "selecting (S \<union> set cs) k0 (snd (select_tops cs idle acc)) \<and>
    frame (snd (snd acc)) (snd (snd (snd (select_tops cs idle acc))))"
  using assms
proof (induction cs arbitrary: S idle acc)
  case Nil
  then show ?case by (simp add: frame_refl)
next
  case (Cons c cs)
  let ?acc = "note_top c (select_top c (snd (snd acc))) acc"
  have n: "selecting (insert c S) k0 ?acc" "frame (snd (snd acc)) (snd (snd ?acc))"
    using note_top_selecting[OF Cons.prems(1)] Cons.prems(2) by auto
  have cs: "\<forall>c\<in>set cs. c < 4" using Cons.prems(2) by simp
  show ?case using Cons.IH[OF n(1) cs] frame_trans[OF n(2)] by (simp add: Let_def)
qed

text \<open>Every core's selection is the front of its scheduled queue.\<close>

definition at_front :: "tops \<Rightarrow> (queue_kind \<Rightarrow> nat \<Rightarrow> nat list) \<Rightarrow> bool" where
  "at_front tops L \<longleftrightarrow> (\<forall>c<4. tops c = first_of (L Scheduled c) None)"

lemma first_of_remove1: "first_of xs None \<noteq> Some m \<Longrightarrow> first_of (remove1 m xs) None = first_of xs None"
  by (cases xs) (auto simp: first_of_def)

text \<open>A finished attempt to fill core \<open>c\<close>: the queues still hold the runnable threads, and if every
  selection was the front of its queue and \<open>c\<close> was idle, every selection still is, and no idle core
  became busy but \<open>c\<close>.\<close>

definition filled :: "nat \<Rightarrow> KernelCore \<Rightarrow> tops \<Rightarrow> (queue_kind \<Rightarrow> nat \<Rightarrow> nat list) \<Rightarrow> update_acc \<Rightarrow> bool" where
  "filled c k0 tops L acc' \<longleftrightarrow> selecting {..<4} k0 acc' \<and> (\<exists>L'. queues (snd (snd acc')) L' \<and>
     (at_front tops L \<and> L Scheduled c = [] \<longrightarrow> at_front (fst (snd acc')) L' \<and>
       (\<forall>j<4. j \<noteq> c \<and> L Scheduled j = [] \<longrightarrow> L' Scheduled j = [])))"

lemma filled_same: "selecting {..<4} k0 acc \<Longrightarrow> queues (snd (snd acc)) L \<Longrightarrow> filled c k0 (fst (snd acc)) L acc"
  by (auto simp: filled_def)

lemma fill_by_migration:
  assumes s: "selecting {..<4} k0 (cores, tops', k)" and q: "queues k L" and c: "c < 4" and m: "m \<in> set (L Suggested c)"
    and tops': "at_front tops L \<Longrightarrow> \<forall>j<4. j \<noteq> c \<longrightarrow> tops' j = first_of (remove1 m (L Scheduled j)) None"
  shows "\<exists>k'. migrate (int c) m False k = Some k' \<and> filled c k0 tops L (note_top c (Some m) (cores, tops', k'))"
proof -
  obtain q' L' where k': "migrate (int c) m False k =
        Some (k\<lparr>k_info := (k_info k)(m := (k_info k m)\<lparr>t_active_core := int c\<rparr>), k_queue := q'\<rparr>)"
      "queues (k\<lparr>k_info := (k_info k)(m := (k_info k m)\<lparr>t_active_core := int c\<rparr>), k_queue := q'\<rparr>) L'"
    and L': "\<forall>j<4. j \<noteq> c \<longrightarrow> L' Scheduled j = remove1 m (L Scheduled j)" "L Scheduled c = [] \<longrightarrow> L' Scheduled c = [m]"
    using migrate_suggested[OF q c m, of False] by blast
  define k1 where "k1 = k\<lparr>k_info := (k_info k)(m := (k_info k m)\<lparr>t_active_core := int c\<rparr>), k_queue := q'\<rparr>"
  have "selecting {..<4} k0 (cores, tops', k1)"
    by (rule selecting_kernel[OF s]) (simp_all add: k1_def runnable_def GetRawState_def)
  note n = note_top_selecting[OF this c, of "Some m"]
  have "insert c {..<4} = {..<4}" using c by auto
  then have sel: "selecting {..<4} k0 (note_top c (Some m) (cores, tops', k1))" using n(1) by simp
  have qs: "queues (snd (snd (note_top c (Some m) (cores, tops', k1)))) L'"
    using frame_queues[OF n(2)] k'(2) by (simp add: k1_def)
  have "at_front (tops'(c := Some m)) L'" if "at_front tops L" "L Scheduled c = []"
    using tops'[OF that(1)] L' that(2) by (auto simp: at_front_def first_of_def)
  moreover have "L' Scheduled j = []" if "j < 4" "j \<noteq> c" "L Scheduled j = []" for j using L'(1) that by simp
  ultimately have "filled c k0 tops L (note_top c (Some m) (cores, tops', k1))"
    unfolding filled_def n(3) using sel qs by (intro conjI exI[of _ L']) auto
  then show ?thesis using k'(1) by (simp add: k1_def)
qed

text \<open>Walking the suggestions. The threads passed over are the selections of their cores, so their cores
  differ and the candidates fit their array.\<close>

lemma candidates_bounded:
  assumes "distinct (us @ [m])" "\<forall>x\<in>set (us @ [m]). 0 \<le> f x \<and> f x < 4 \<and> tops (nat (f x)) = Some x"
  shows "length us < 4"
proof -
  have "inj_on f (set (us @ [m]))"
    by (rule inj_onI) (metis assms(2) option.inject)
  then have "card (f ` set (us @ [m])) = length (us @ [m])" using assms(1) by (simp add: card_image distinct_card)
  moreover have "f ` set (us @ [m]) \<subseteq> {0 ..< 4 :: int}" using assms(2) by auto
  then have "card (f ` set (us @ [m])) \<le> card {0 ..< 4 :: int}" by (intro card_mono) auto
  ultimately show ?thesis by simp
qed

lemma try_suggested_ok:
  assumes s: "selecting {..<4} k0 (cores, tops, k)" and q: "queues k L" and c: "c < 4"
    and L: "L Suggested c = us @ vs"
    and us: "\<forall>x\<in>set us. 0 \<le> t_active_core (k_info k x) \<and> tops (nat (t_active_core (k_info k x))) = Some x"
  shows "\<exists>r. try_suggested c (first_of vs None) (map (\<lambda>x. t_active_core (k_info k x)) us) (cores, tops, k) = Some r \<and>
    ((\<exists>m cands acc'. r = (Some m, cands, acc') \<and> filled c k0 tops L acc') \<or>
     r = (None, map (\<lambda>x. t_active_core (k_info k x)) (L Suggested c), (cores, tops, k)) \<and>
     (\<forall>x\<in>set (L Suggested c). 0 \<le> t_active_core (k_info k x) \<and> tops (nat (t_active_core (k_info k x))) = Some x))"
  using L us
proof (induction vs arbitrary: us)
  case Nil
  have "try_suggested c None (map (\<lambda>x. t_active_core (k_info k x)) us) (cores, tops, k) =
      Some (None, map (\<lambda>x. t_active_core (k_info k x)) us, (cores, tops, k))"
    by (subst try_suggested.simps) simp
  then show ?case using Nil by (simp add: first_of_def)
next
  case (Cons m vs)
  have m: "m \<in> set (L Suggested c)" using Cons.prems(1) by simp
  note d = suggestedD[OF q c m]
  let ?core = "t_active_core (k_info k m)"
  let ?cands = "map (\<lambda>x. t_active_core (k_info k x)) us"
  define tp where "tp = (if 0 \<le> ?core then tops (nat ?core) else None)"
  have f: "first_of (m # vs) None = Some m" by (simp add: first_of_def)
  show ?case
  proof (cases "tp = Some m")
    case True
    have top: "0 \<le> ?core" "tops (nat ?core) = Some m" using True by (auto simp: tp_def split: if_splits)
    have us': "\<forall>x\<in>set (us @ [m]). 0 \<le> t_active_core (k_info k x) \<and> tops (nat (t_active_core (k_info k x))) = Some x"
      using Cons.prems(2) top by simp
    have "t_active_core (k_info k x) < 4" if "x \<in> set (us @ [m])" for x
      using suggestedD(5)[OF q c, of x] Cons.prems(1) that by (auto simp: NumCores_def)
    moreover have "distinct (us @ [m])"
      using rq.members[OF q[unfolded queues_def] c, of Suggested] Cons.prems(1) by auto
    ultimately have "length us < 4" using candidates_bounded[of us m "\<lambda>x. t_active_core (k_info k x)" tops] us' by blast
    then have "try_suggested c (Some m) ?cands (cores, tops, k) =
        try_suggested c (GetSuggestedNext (int c) (k_info k m) m (k_queue k)) (?cands @ [?core]) (cores, tops, k)"
      using True d(5) by (subst try_suggested.simps) (simp add: tp_def NumCores_def)
    moreover have "GetSuggestedNext (int c) (k_info k m) m (k_queue k) = first_of vs None"
      using rq.succ_law[OF q[unfolded queues_def] c Cons.prems(1)] by (simp add: next_of_def)
    ultimately show ?thesis using Cons.IH[of "us @ [m]"] Cons.prems(1) us' f by simp
  next
    case False
    note step = try_suggested.simps[of c "Some m" ?cands "(cores, tops, k)"]
    show ?thesis
    proof (cases "tp \<noteq> None \<and> t_priority (k_info k (the tp)) < HighestCoreMigrationAllowedPriority")
      case True
      then have "try_suggested c (Some m) ?cands (cores, tops, k) = Some (Some m, ?cands, (cores, tops, k))"
        using False d(5) by (subst step) (auto simp: tp_def Let_def split: if_splits)
      then show ?thesis using filled_same[OF s, of L c] q f by auto
    next
      case ok: False
      have "tops j = first_of (remove1 m (L Scheduled j)) None" if "at_front tops L" "j < 4" for j
      proof (cases "m \<in> set (L Scheduled j)")
        case True
        then have "?core = int j" using rq.members[OF q[unfolded queues_def] that(2), of Scheduled] by (simp add: wanted_def)
        then have "tops j \<noteq> Some m" using \<open>tp \<noteq> Some m\<close> by (simp add: tp_def)
        then show ?thesis using that first_of_remove1 by (simp add: at_front_def)
      qed (use that in \<open>simp add: at_front_def remove1_idem\<close>)
      then obtain k' where k': "migrate (int c) m False k = Some k'" "filled c k0 tops L (note_top c (Some m) (cores, tops, k'))"
        using fill_by_migration[OF s q c m] by blast
      then have "try_suggested c (Some m) ?cands (cores, tops, k) = Some (Some m, ?cands, note_top c (Some m) (cores, tops, k'))"
        using False ok d(5) by (subst step) (auto simp: tp_def Let_def)
      then show ?thesis unfolding f using k'(2) by blast
    qed
  qed
qed

lemma try_candidates_ok:
  assumes s: "selecting {..<4} k0 (cores, tops, k)" and q: "queues k L" and c: "c < 4"
    and ms: "set ms \<subseteq> set (L Suggested c)"
      "\<forall>x\<in>set ms. 0 \<le> t_active_core (k_info k x) \<and> tops (nat (t_active_core (k_info k x))) = Some x"
  shows "\<exists>acc'. try_candidates c (map (\<lambda>x. t_active_core (k_info k x)) ms) (cores, tops, k) = Some acc' \<and>
    filled c k0 tops L acc'"
  using ms
proof (induction ms)
  case Nil
  then show ?case using filled_same[OF s, of L c] q by simp
next
  case (Cons m ms)
  have m: "m \<in> set (L Suggested c)" using Cons.prems(1) by simp
  note d = suggestedD[OF q c m]
  obtain j where j: "t_active_core (k_info k m) = int j" "j < 4" "j \<noteq> c" "tops j = Some m"
    using Cons.prems(2) d(5,6) by (auto simp: NumCores_def elim!: nonneg_int_cases)
  have "m \<in> set (L Scheduled j)"
    using rq.members[OF q[unfolded queues_def] j(2), of Scheduled] d(1,2) j(1) by (simp add: wanted_def)
  then obtain us vs where L: "L Scheduled j = us @ m # vs" by (meson split_list)
  have nx: "GetScheduledNext (int j) (k_info k m) m (k_queue k) = first_of vs None"
    using rq.succ_law[OF q[unfolded queues_def] j(2) L] by (simp add: next_of_def)
  show ?case
  proof (cases vs)
    case Nil
    then have "try_candidates c (map (\<lambda>x. t_active_core (k_info k x)) (m # ms)) (cores, tops, k) =
        try_candidates c (map (\<lambda>x. t_active_core (k_info k x)) ms) (cores, tops, k)"
      using j nx by (simp add: first_of_def)
    then show ?thesis using Cons.IH Cons.prems by simp
  next
    case (Cons n vs')
    obtain cores1 tops1 k1 where n: "note_top j (Some n) (cores, tops, k) = (cores1, tops1, k1)" by (metis prod_cases3)
    note nt = note_top_selecting[OF s j(2), of "Some n", unfolded n]
    have "insert j {..<4} = {..<4 :: nat}" using j(2) by auto
    then have sel: "selecting {..<4} k0 (cores1, tops1, k1)" using nt(1) by simp
    have fr: "frame k k1" "queues k1 L" "tops1 = tops(j := Some n)" using nt(2,3) frame_queues[of k k1] q by simp_all
    have new: "tops1 i = first_of (remove1 m (L Scheduled i)) None" if "at_front tops L" "i < 4" for i
    proof (cases "i = j")
      case True
      have "first_of (L Scheduled j) None = Some m" using that(1) j(2,4) by (simp add: at_front_def)
      moreover have "distinct (L Scheduled j)" using rq.members[OF q[unfolded queues_def] j(2)] by blast
      ultimately have "us = []" using L by (cases us) (auto simp: first_of_def)
      then show ?thesis using True L Cons fr(3) by (simp add: first_of_def)
    next
      case False
      then have "m \<notin> set (L Scheduled i)"
        using rq.members[OF q[unfolded queues_def] that(2), of Scheduled] j(1) by (simp add: wanted_def)
      then show ?thesis using False that fr(3) by (simp add: at_front_def remove1_idem)
    qed
    obtain k' where "migrate (int c) m False k1 = Some k'" "filled c k0 tops L (note_top c (Some m) (cores1, tops1, k'))"
      using fill_by_migration[OF sel fr(2) c m] new by blast
    then show ?thesis using j nx Cons n by (simp add: first_of_def)
  qed
qed

lemma fill_idle_core_ok:
  assumes s: "selecting {..<4} k0 acc" and q: "queues (snd (snd acc)) L" and c: "c < 4"
  shows "\<exists>acc'. fill_idle_core c acc = Some acc' \<and> filled c k0 (fst (snd acc)) L acc'"
proof -
  obtain cores tops k where acc: "acc = (cores, tops, k)" by (metis prod_cases3)
  have s': "selecting {..<4} k0 (cores, tops, k)" and q': "queues k L" using s q acc by simp_all
  have front: "GetSuggestedFront (int c) (k_queue k) = first_of (L Suggested c) None"
    using rq.front_law[OF q'[unfolded queues_def] c, of Suggested] by (simp add: front_of_def)
  show ?thesis
  proof (cases "L Suggested c")
    case Nil
    then have "fill_idle_core c acc = Some acc" using front by (simp add: fill_idle_core_def acc first_of_def)
    then show ?thesis using filled_same[OF s q] by simp
  next
    case (Cons m ms)
    then have "GetSuggestedFront (int c) (k_queue k) = Some m" using front by (simp add: first_of_def)
    then have e: "fill_idle_core c acc = (case try_suggested c (first_of (L Suggested c) None) [] (cores, tops, k) of
        None \<Rightarrow> None | Some (rest, cands, acc') \<Rightarrow> if rest = None then try_candidates c cands acc' else Some acc')"
      by (simp add: fill_idle_core_def acc Cons first_of_def)
    obtain r where r: "try_suggested c (first_of (L Suggested c) None) [] (cores, tops, k) = Some r"
      "(\<exists>m cands acc'. r = (Some m, cands, acc') \<and> filled c k0 tops L acc') \<or>
       r = (None, map (\<lambda>x. t_active_core (k_info k x)) (L Suggested c), (cores, tops, k)) \<and>
       (\<forall>x\<in>set (L Suggested c). 0 \<le> t_active_core (k_info k x) \<and> tops (nat (t_active_core (k_info k x))) = Some x)"
      using try_suggested_ok[OF s' q' c, of "[]"] by auto
    from r(2) show ?thesis
    proof
      assume "\<exists>m cands acc'. r = (Some m, cands, acc') \<and> filled c k0 tops L acc'"
      then show ?thesis using e r(1) acc by auto
    next
      assume a: "r = (None, map (\<lambda>x. t_active_core (k_info k x)) (L Suggested c), (cores, tops, k)) \<and>
       (\<forall>x\<in>set (L Suggested c). 0 \<le> t_active_core (k_info k x) \<and> tops (nat (t_active_core (k_info k x))) = Some x)"
      then show ?thesis using try_candidates_ok[OF s' q' c subset_refl] e r(1) acc by simp
    qed
  qed
qed

lemma fill_idle_cores_ok:
  assumes "selecting {..<4} k0 acc" "queues (snd (snd acc)) L" "\<forall>b. bit idle b \<longrightarrow> b < 4"
  shows "\<exists>acc'. fill_idle_cores idle acc = Some acc' \<and> selecting {..<4} k0 acc' \<and> (\<exists>L'. queues (snd (snd acc')) L' \<and>
    (at_front (fst (snd acc)) L \<and> (\<forall>b. bit idle b \<longrightarrow> L Scheduled b = []) \<longrightarrow> at_front (fst (snd acc')) L'))"
  using assms
proof (induction idle acc arbitrary: L rule: fill_idle_cores.induct)
  case (1 idle acc)
  show ?case
  proof (cases "idle = 0")
    case True
    then show ?thesis using 1 by (subst fill_idle_cores.simps) auto
  next
    case False
    let ?c = "countr_zero idle" and ?rest = "idle AND NOT (push_bit (countr_zero idle) 1)"
    have b: "bit idle ?c" using countr_zero_set[OF False] by simp
    then have c: "?c < 4" using 1 by blast
    obtain acc' where a: "fill_idle_core ?c acc = Some acc'" "filled ?c k0 (fst (snd acc)) L acc'"
      using fill_idle_core_ok[OF 1(2,3) c] by blast
    then obtain L' where L': "selecting {..<4} k0 acc'" "queues (snd (snd acc')) L'"
      "at_front (fst (snd acc)) L \<and> L Scheduled ?c = [] \<longrightarrow> at_front (fst (snd acc')) L' \<and>
        (\<forall>j<4. j \<noteq> ?c \<and> L Scheduled j = [] \<longrightarrow> L' Scheduled j = [])" by (auto simp: filled_def)
    have rest: "bit ?rest j \<longleftrightarrow> bit idle j \<and> j \<noteq> ?c" for j
      using bit_u64_less[of idle j] by (auto simp: bit_and_iff bit_not_iff bit_exp_iff)
    have "\<exists>acc''. fill_idle_cores ?rest acc' = Some acc'' \<and> selecting {..<4} k0 acc'' \<and> (\<exists>L''. queues (snd (snd acc'')) L'' \<and>
        (at_front (fst (snd acc')) L' \<and> (\<forall>b. bit ?rest b \<longrightarrow> L' Scheduled b = []) \<longrightarrow> at_front (fst (snd acc'')) L''))"
      by (rule "1.IH"[OF False a(1) L'(1,2)]) (use 1(4) rest in blast)
    moreover have "at_front (fst (snd acc')) L' \<and> (\<forall>b. bit ?rest b \<longrightarrow> L' Scheduled b = [])"
      if "at_front (fst (snd acc)) L" "\<forall>b. bit idle b \<longrightarrow> L Scheduled b = []"
      using L'(3) that b rest 1(4) by blast
    moreover have "fill_idle_cores idle acc = fill_idle_cores ?rest acc'"
      using False a(1) by (subst fill_idle_cores.simps) simp
    ultimately show ?thesis by metis
  qed
qed

definition no_pins :: "KernelCore \<Rightarrow> bool" where
  "no_pins k \<longleftrightarrow> (\<forall>p c. pr_pinned_threads (k_process k p) c = None)"

lemma select_top_front: "no_pins k \<Longrightarrow> select_top c k = GetScheduledFront (int c) (k_queue k)"
  by (simp add: select_top_def no_pins_def split: option.split)

lemma select_tops_front:
  assumes "selecting S k0 acc" "\<forall>c\<in>set cs. c < 4" "distinct cs" "queues (snd (snd acc)) L"
  shows "(\<forall>b. bit (fst (select_tops cs idle acc)) b \<longleftrightarrow> bit idle b \<or> b \<in> set cs \<and> L Scheduled b = []) \<and>
    (\<forall>c. c \<notin> set cs \<longrightarrow> fst (snd (snd (select_tops cs idle acc))) c = fst (snd acc) c) \<and>
    (no_pins (snd (snd acc)) \<longrightarrow> (\<forall>c\<in>set cs. fst (snd (snd (select_tops cs idle acc))) c = first_of (L Scheduled c) None))"
  using assms
proof (induction cs arbitrary: S idle acc)
  case Nil
  then show ?case by simp
next
  case (Cons c cs)
  let ?k = "snd (snd acc)"
  define acc1 where "acc1 = note_top c (select_top c ?k) acc"
  define idle1 where "idle1 = (if GetScheduledFront (int c) (k_queue ?k) = None then idle OR push_bit c 1 else idle)"
  have e: "select_tops (c # cs) idle acc = select_tops cs idle1 acc1" by (simp add: Let_def acc1_def idle1_def)
  have c: "c < 4" "\<forall>c\<in>set cs. c < 4" "distinct cs" "c \<notin> set cs" using Cons.prems(2,3) by auto
  have n: "selecting (insert c S) k0 acc1" "frame ?k (snd (snd acc1))" "fst (snd acc1) = (fst (snd acc))(c := select_top c ?k)"
    using note_top_selecting[OF Cons.prems(1) c(1)] by (simp_all add: acc1_def)
  have fr: "GetScheduledFront (int c) (k_queue ?k) = first_of (L Scheduled c) None"
    using rq.front_law[OF Cons.prems(4)[unfolded queues_def] c(1), of Scheduled] by (simp add: front_of_def)
  have q1: "queues (snd (snd acc1)) L" using frame_queues[OF n(2)] Cons.prems(4) by simp
  have p1: "no_pins (snd (snd acc1)) = no_pins ?k" using n(2) by (simp add: no_pins_def frame_def)
  have i1: "bit idle1 b \<longleftrightarrow> bit idle b \<or> b = c \<and> L Scheduled c = []" for b
    using c(1) fr by (auto simp: idle1_def bit_or_iff bit_exp_iff first_of_def split: if_splits list.splits)
  from Cons.IH[OF n(1) c(2,3) q1, of idle1]
  show ?case unfolding e using i1 p1 n(3) c(4) fr select_top_front[of ?k c] by auto
qed

lemma UpdateHighestPriorityThreadsImpl_ok:
  assumes "sched_inv k"
  shows "\<exists>cores k'. UpdateHighestPriorityThreadsImpl k = Some (cores, k') \<and> sched_inv k' \<and> runnable k' = runnable k \<and>
    k_current_thread k' = k_current_thread k \<and>
    (\<forall>c<4. sc_highest_priority_thread (k_scheduler k' c) \<noteq> sc_highest_priority_thread (k_scheduler k c) \<longrightarrow>
       bit cores c \<and> sc_needs_scheduling (k_scheduler k' c)) \<and>
    (no_pins k \<longrightarrow> (\<forall>c<4. sc_highest_priority_thread (k_scheduler k' c) = GetScheduledFront (int c) (k_queue k')))"
proof -
  obtain L where q: "queues k L" and ids: "\<forall>c<4. sc_core_id (k_scheduler k c) = c" using assms by (auto simp: sched_inv_def)
  define k0 where "k0 = ClearSchedulerUpdateNeeded k"
  have f0: "frame k k0" by (simp add: k0_def frames)
  have same0: "k_scheduler k0 = k_scheduler k" by (simp add: k0_def ClearSchedulerUpdateNeeded_def)
  have q0: "queues k0 L" using frame_queues[OF f0] q by simp
  define cs where "cs = [0, 1, 2, 3 :: nat]"
  have cs: "set cs = {..<4}" "distinct cs" by (auto simp: cs_def)
  obtain idle acc where sel: "select_tops cs 0 (0, \<lambda>c. None, k0) = (idle, acc)" by (rule prod.exhaust)
  have s0: "selecting {} k0 (0, \<lambda>c. None, k0)" using ids by (simp add: selecting_def same0)
  have acc: "selecting {..<4} k0 acc" "frame k0 (snd (snd acc))"
    using select_tops_selecting[OF s0, of cs 0] sel cs by simp_all
  have "no_pins k0 = no_pins k" using f0 by (simp add: no_pins_def frame_def)
  then have fr: "\<forall>b. bit idle b \<longleftrightarrow> b < 4 \<and> L Scheduled b = []" "no_pins k \<Longrightarrow> at_front (fst (snd acc)) L"
    using select_tops_front[OF s0, of cs L 0] q0 sel cs by (simp_all add: at_front_def)
  obtain cores tops k1 L1 where fill: "fill_idle_cores idle acc = Some (cores, tops, k1)"
    "selecting {..<4} k0 (cores, tops, k1)" "queues k1 L1" "at_front (fst (snd acc)) L \<longrightarrow> at_front tops L1"
    using fill_idle_cores_ok[OF acc(1), of L idle] frame_queues[OF acc(2)] q0 fr(1) by auto
  define k2 where "k2 = WakeupWaitingDummyThreads k1"
  define k3 where "k3 = (if t_dummy (k_info k2 (k_current_thread k2)) \<and>
      GetRawState (k_current_thread k2) k2 AND ThreadState_Mask \<noteq> ThreadState_Runnable
    then RequestDummyThreadWait (k_current_thread k2) k2 else k2)"
  have upd: "UpdateHighestPriorityThreadsImpl k = Some (cores, k3)"
    unfolding UpdateHighestPriorityThreadsImpl_def k0_def[symmetric] cs_def[symmetric] sel prod.case fill(1) option.case
      Let_def k3_def k2_def ..
  have "frame k1 k2" "frame k2 k3" by (simp_all add: k2_def k3_def frames)
  then have f3: "frame k1 k3" by (rule frame_trans)
  have sc3: "k_scheduler k3 = k_scheduler k1"
    by (simp add: k2_def k3_def WakeupWaitingDummyThreads_def RequestDummyThreadWait_def on_thread_def)
  have q3: "queues k3 L1" using frame_queues[OF f3] fill(3) by simp
  have "GetScheduledFront (int c) (k_queue k3) = first_of (L1 Scheduled c) None" if "c < 4" for c
    using rq.front_law[OF q3[unfolded queues_def] that, of Scheduled] by (simp add: front_of_def)
  then have "no_pins k \<longrightarrow> (\<forall>c<4. sc_highest_priority_thread (k_scheduler k3 c) = GetScheduledFront (int c) (k_queue k3))"
    using fr(2) fill(2,4) sc3 by (auto simp: at_front_def selecting_def)
  moreover have "sched_inv k3" using q3 fill(2) sc3 by (auto simp: sched_inv_def selecting_def)
  moreover have "runnable k3 = runnable k" "k_current_thread k3 = k_current_thread k"
    using f3 f0 fill(2) by (simp_all add: runnable_def GetRawState_def frame_def selecting_def)
  ultimately show ?thesis using upd fill(2) sc3 same0 by (auto simp: selecting_def)
qed

section \<open>Rotation and yielding return\<close>

lemma front_at:
  assumes "rep q A" "p < 64" "c < 4"
  shows "GetScheduledFront_at (int c) (int p) q = first_of (A Scheduled p c) None"
    "GetSuggestedFront_at (int c) (int p) q = first_of (A Suggested p c) None"
    "A k p c = us @ m # vs \<Longrightarrow> GetSamePriorityNext (int c) m q = first_of vs None"
  using core_repD(1)[OF assms, of Scheduled] core_repD(1)[OF assms, of Suggested] core_repD(1)[OF assms, of k] assms(2)
  by (auto simp: GetScheduledFront_at_def GetSuggestedFront_at_def Impl_GetFront_at_def PerCore_GetFront_def links_of_def
      linked_def LowestPriority_def GetSamePriorityNext_def)

text \<open>What a call leaves when it ends: the invariant, the same runnable threads and the same current thread.\<close>

definition settled :: "KernelCore \<Rightarrow> KernelCore \<Rightarrow> bool" where
  "settled k k' \<longleftrightarrow> sched_inv k' \<and> runnable k' = runnable k \<and> k_current_thread k' = k_current_thread k"

lemma settledD: "settled k k' \<Longrightarrow> sched_inv k'"
  by (simp add: settled_def)

lemma settled_trans: "settled k k1 \<Longrightarrow> settled k1 k2 \<Longrightarrow> settled k k2"
  by (simp add: settled_def)

lemma settled_frame: "sched_inv k \<Longrightarrow> frame k k' \<Longrightarrow> settled k k'"
  using frame_inv[of k k'] by (simp add: settled_def runnable_def GetRawState_def frame_def)

lemma settled_queue:
  assumes "sched_inv k" "holds q (k_info k) (runnable k) A"
  shows "settled k (k\<lparr>k_queue := q\<rparr>)"
proof -
  have "queues (k\<lparr>k_queue := q\<rparr>) (in_order A)"
    using assms(2) by (auto simp: queues_def lists_of_def runnable_def GetRawState_def)
  then show ?thesis using assms(1) by (auto simp: settled_def sched_inv_def runnable_def GetRawState_def)
qed

lemma migrate_settled:
  assumes "sched_inv k" "queues k L" "c < 4" "m \<in> set (L Suggested c)"
  shows "\<exists>k'. migrate (int c) m b k = Some k' \<and> settled k k'"
proof -
  obtain q' L' where k': "migrate (int c) m b k =
        Some (k\<lparr>k_info := (k_info k)(m := (k_info k m)\<lparr>t_active_core := int c\<rparr>), k_queue := q'\<rparr>)"
      "queues (k\<lparr>k_info := (k_info k)(m := (k_info k m)\<lparr>t_active_core := int c\<rparr>), k_queue := q'\<rparr>) L'"
    using migrate_suggested[OF assms(2-4), of b] by blast
  then show ?thesis using assms(1) by (auto simp: settled_def sched_inv_def runnable_def GetRawState_def)
qed

lemma migrate_counted:
  assumes "sched_inv k" "queues k L" "c < 4" "m \<in> set (L Suggested c)"
  shows "\<exists>k'. migrate (int c) m b k = Some k' \<and> settled k (IncrementScheduledCount n k')"
  using migrate_settled[OF assms, of b] settled_frame[OF _ frame_count] settled_trans by (meson settledD)

lemma suggested_next:
  "queues k L \<Longrightarrow> c < 4 \<Longrightarrow> L Suggested c = us @ m # vs \<Longrightarrow>
    GetSuggestedNext (int c) (k_info k m) m (k_queue k) = first_of vs None"
  using rq.succ_law[of "k_queue k" "k_info k" "runnable k" L c Suggested us m vs] by (simp add: next_of_def queues_def)

lemma suggested_front: "queues k L \<Longrightarrow> c < 4 \<Longrightarrow> GetSuggestedFront (int c) (k_queue k) = first_of (L Suggested c) None"
  using rq.front_law[of "k_queue k" "k_info k" "runnable k" L c Suggested] by (simp add: front_of_def queues_def)

lemma rotate_better_ok:
  assumes i: "sched_inv k" and q: "queues k L" and c: "c < 4" and L: "L Suggested c = us @ vs"
  shows "\<exists>k'. rotate_better (int c) b (first_of vs None) k = Some k' \<and> settled k k'"
  using L
proof (induction vs arbitrary: us)
  case Nil
  show ?case using settled_frame[OF i frame_refl] by (subst rotate_better.simps) simp
next
  case (Cons m vs)
  have m: "m \<in> set (L Suggested c)" using Cons.prems by simp
  obtain k1 where k1: "migrate (int c) m True k = Some k1" "settled k (IncrementScheduledCount m k1)"
    using migrate_counted[OF i q c m] by blast
  have nx: "GetSuggestedNext (int c) (k_info k m) m (k_queue k) = first_of vs None" using suggested_next[OF q c Cons.prems] .
  have rest: "\<exists>k'. rotate_better (int c) b (first_of vs None) k = Some k' \<and> settled k k'"
    using Cons.IH[of "us @ [m]"] Cons.prems by simp
  show ?case using k1 rest nx settled_frame[OF i frame_refl] by (subst rotate_better.simps) (simp add: Let_def)
qed

lemma rotate_same_priority_ok:
  assumes i: "sched_inv k" and h: "holds (k_queue k) (k_info k) (runnable k) A" and c: "c < 4" and p: "p < 64"
    and L: "A Suggested p c = us @ vs"
  shows "\<exists>k'. rotate_same_priority (int c) t n (first_of vs None) k = Some k' \<and> settled k k'"
  using L
proof (induction vs arbitrary: us)
  case Nil
  show ?case using settled_frame[OF i frame_refl] by (subst rotate_same_priority.simps) simp
next
  case (Cons m vs)
  have q: "queues k (in_order A)" using h by (auto simp: queues_def lists_of_def)
  have m: "m \<in> set (in_order A Suggested c)" using Cons.prems p by (auto simp: in_order_def intro!: bexI[of _ p])
  obtain k1 where k1: "migrate (int c) m True k = Some k1" "settled k (IncrementScheduledCount m k1)"
    using migrate_counted[OF i q c m] by blast
  have nx: "GetSamePriorityNext (int c) m (k_queue k) = first_of vs None"
    using front_at(3)[of "k_queue k" A p c Suggested us m vs] p c Cons.prems h by (simp add: holds_def)
  have rest: "\<exists>k'. rotate_same_priority (int c) t n (first_of vs None) k = Some k' \<and> settled k k'"
    using Cons.IH[of "us @ [m]"] Cons.prems by simp
  show ?case using k1 rest nx settled_frame[OF i frame_refl] by (subst rotate_same_priority.simps) (auto simp: Let_def)
qed

lemma yield_any_suggested_ok:
  assumes i: "sched_inv k" and q: "queues k L" and c: "c < 4" and L: "L Suggested c = us @ vs"
  shows "\<exists>r k'. yield_any_suggested (int c) (first_of vs None) k = Some (r, k') \<and> settled k k'"
  using L
proof (induction vs arbitrary: us)
  case Nil
  show ?case using settled_frame[OF i frame_refl] by (subst yield_any_suggested.simps) simp
next
  case (Cons m vs)
  have m: "m \<in> set (L Suggested c)" using Cons.prems by simp
  obtain k1 where k1: "migrate (int c) m False k = Some k1" "settled k (IncrementScheduledCount m k1)"
    using migrate_counted[OF i q c m] by blast
  have nx: "GetSuggestedNext (int c) (k_info k m) m (k_queue k) = first_of vs None" using suggested_next[OF q c Cons.prems] .
  have rest: "\<exists>r k'. yield_any_suggested (int c) (first_of vs None) k = Some (r, k') \<and> settled k k'"
    using Cons.IH[of "us @ [m]"] Cons.prems by simp
  show ?case using k1 rest nx settled_frame[OF i frame_refl] by (subst yield_any_suggested.simps) (simp add: Let_def)
qed

lemma yield_suggested_ok:
  assumes i: "sched_inv k" and q: "queues k L" and c: "c < 4" and n: "n \<noteq> None" and L: "L Suggested c = us @ vs"
  shows "\<exists>r f k'. yield_suggested (int c) n rc (first_of vs None) k = Some (r, f, k') \<and> settled k k'"
  using L
proof (induction vs arbitrary: us rc)
  case Nil
  show ?case using settled_frame[OF i frame_refl] by (subst yield_suggested.simps) simp
next
  case (Cons m vs)
  have m: "m \<in> set (L Suggested c)" using Cons.prems by simp
  obtain k1 where k1: "migrate (int c) m True k = Some k1" "settled k (IncrementScheduledCount m k1)"
    using migrate_counted[OF i q c m] by blast
  have nx: "GetSuggestedNext (int c) (k_info k m) m (k_queue k) = first_of vs None" using suggested_next[OF q c Cons.prems] .
  have rest: "\<exists>r f k'. yield_suggested (int c) n rc' (first_of vs None) k = Some (r, f, k') \<and> settled k k'" for rc'
    using Cons.IH[of "us @ [m]"] Cons.prems by simp
  have lt: "\<not> NumCores \<le> t_active_core (k_info k m)" using suggestedD(5)[OF q c m] by simp
  obtain n' where n': "n = Some n'" using n by blast
  show ?case using k1 rest[of rc] rest[of True] nx lt settled_frame[OF i frame_refl]
    by (subst yield_suggested.simps) (auto simp: Let_def n')
qed

lemma inv_holds:
  "sched_inv k \<Longrightarrow> \<exists>A. holds (k_queue k) (k_info k) (runnable k) A"
  by (auto simp: sched_inv_def queues_def lists_of_def)

lemma holds_queues: "holds (k_queue k) (k_info k) (runnable k) A \<Longrightarrow> queues k (in_order A)"
  by (auto simp: queues_def lists_of_def)

lemma rotate_front_ok:
  assumes i: "sched_inv k" and c: "c < 4" and p: "p < 64"
  shows "\<exists>t n k'. rotate_front (int c) (int p) k = Some (t, n, k') \<and> settled k k'"
proof -
  obtain A where h: "holds (k_queue k) (k_info k) (runnable k) A" using inv_holds[OF i] by blast
  have f: "GetScheduledFront_at (int c) (int p) (k_queue k) = first_of (A Scheduled p c) None"
    using front_at(1)[OF _ p c] h by (simp add: holds_def)
  show ?thesis
  proof (cases "A Scheduled p c")
    case Nil
    then show ?thesis using f settled_frame[OF i frame_refl] by (simp add: rotate_front_def)
  next
    case (Cons m ms)
    have m: "m \<in> runnable k" "t_active_core (k_info k m) = int c" "queued (k_info k m)" "t_priority (k_info k m) = int p"
      using holds_in[OF h p c, of m Scheduled] Cons p by (auto simp: wanted_def queued_def LowestPriority_def)
    obtain r q' A' where q': "MoveToScheduledBack (k_info k m) m (k_queue k) = Some (r, q')" "holds q' (k_info k) (runnable k) A'"
      "r = first_of (A' Scheduled p c) None" "A' = upd A Scheduled p c (remove1 m (A Scheduled p c) @ [m])"
      using MoveToScheduledBack_holds[OF h m(1)] m(2-4) by (auto simp: Let_def)
    have s: "settled k (k\<lparr>k_queue := q'\<rparr>)" using settled_queue[OF i q'(2)] .
    have s2: "settled k (IncrementScheduledCount n (IncrementScheduledCount m (k\<lparr>k_queue := q'\<rparr>)))" for n
      using settled_trans[OF s settled_frame[OF settledD[OF s] frame_trans[OF frame_count frame_count]]] .
    have "r \<noteq> None" using q'(3,4) by (cases "remove1 m (A Scheduled p c)") auto
    then show ?thesis using f Cons q'(1) s s2 by (auto simp: rotate_front_def Let_def)
  qed
qed

lemma RotateScheduledQueue_ok:
  assumes i: "sched_inv k" and c: "c < 4" and p: "p < 64"
  shows "\<exists>k'. RotateScheduledQueue (int c) (int p) k = Some k' \<and> settled k k'"
proof -
  obtain t n k1 where k1: "rotate_front (int c) (int p) k = Some (t, n, k1)" "settled k k1" using rotate_front_ok[OF assms] by blast
  obtain A where A: "holds (k_queue k1) (k_info k1) (runnable k1) A" using inv_holds[OF settledD[OF k1(2)]] by blast
  have f1: "GetSuggestedFront_at (int c) (int p) (k_queue k1) = first_of (A Suggested p c) None"
    using front_at(2)[OF _ p c] A by (simp add: holds_def)
  obtain k2 where k2: "rotate_same_priority (int c) t n (first_of (A Suggested p c) None) k1 = Some k2" "settled k1 k2"
    using rotate_same_priority_ok[OF settledD[OF k1(2)] A c p, of "[]" "A Suggested p c" t n] by auto
  obtain B where "holds (k_queue k2) (k_info k2) (runnable k2) B" using inv_holds[OF settledD[OF k2(2)]] by blast
  note q2 = holds_queues[OF this]
  have better: "\<exists>k3. rotate_better (int c) b (GetSuggestedFront (int c) (k_queue k2)) k2 = Some k3 \<and> settled k2 k3" for b
    using rotate_better_ok[OF settledD[OF k2(2)] q2 c, of "[]"] suggested_front[OF q2 c] by simp
  define best where "best = (if GetScheduledFront (int c) (k_queue k2) = Some (k_current_thread k2)
      then GetScheduledNext (int c) (k_info k2 (k_current_thread k2)) (k_current_thread k2) (k_queue k2)
      else GetScheduledFront (int c) (k_queue k2))"
  have "\<exists>k3. (case best of
        Some b \<Rightarrow> if int p \<le> t_priority (k_info k2 b)
                  then rotate_better (int c) b (GetSuggestedFront (int c) (k_queue k2)) k2 else Some k2
      | None \<Rightarrow> Some k2) = Some k3 \<and> settled k2 k3"
    using better settled_frame[OF settledD[OF k2(2)] frame_refl] by (simp split: option.split)
  then obtain k3 where k3: "(case best of
        Some b \<Rightarrow> if int p \<le> t_priority (k_info k2 b)
                  then rotate_better (int c) b (GetSuggestedFront (int c) (k_queue k2)) k2 else Some k2
      | None \<Rightarrow> Some k2) = Some k3" "settled k2 k3" by blast
  have "RotateScheduledQueue (int c) (int p) k = Some (SetSchedulerUpdateNeeded k3)"
    unfolding RotateScheduledQueue_def k1(1) by (simp add: f1 k2(1) Let_def best_def[symmetric] k3(1))
  moreover have "settled k3 (SetSchedulerUpdateNeeded k3)" using settled_frame[OF settledD[OF k3(2)] frame_flags(1)] .
  ultimately show ?thesis using k1(2) k2(2) k3(2) settled_trans by blast
qed

lemma rotate_all_ok:
  assumes "sched_inv k" "\<forall>(c, p)\<in>set ps. c < 4 \<and> 0 \<le> p \<and> p < 64"
  shows "\<exists>k'. rotate_all ps k = Some k' \<and> settled k k'"
  using assms
proof (induction ps arbitrary: k)
  case Nil
  then show ?case using settled_frame[OF _ frame_refl] by simp
next
  case (Cons cp ps)
  obtain c p where cp: "cp = (c, int p)" "c < 4" "p < 64"
    using Cons.prems(2) by (cases cp) (auto elim!: nonneg_int_cases)
  obtain k1 where k1: "RotateScheduledQueue (int c) (int p) k = Some k1" "settled k k1"
    using RotateScheduledQueue_ok[OF Cons.prems(1) cp(2,3)] by blast
  then show ?case using Cons.IH[OF settledD[OF k1(2)]] Cons.prems(2) cp(1) settled_trans[OF k1(2)] by auto
qed

lemma PreemptThreads_ok: "sched_inv k \<Longrightarrow> \<exists>k'. PreemptThreads k = Some k' \<and> settled k k'"
  unfolding PreemptThreads_def by (rule rotate_all_ok) (auto simp: preemption_priorities_def)

text \<open>The current thread of a core: queued there unless it has stopped being runnable.\<close>

definition on_core :: "KernelCore \<Rightarrow> bool" where
  "on_core k \<longleftrightarrow> (let t = k_info k (k_current_thread k) in
     k_current_thread k \<in> runnable k \<longrightarrow> queued t \<and> 0 \<le> t_active_core t)"

lemma on_core_back:
  assumes i: "sched_inv k" and o: "on_core k" and r: "k_current_thread k \<in> runnable k"
  shows "\<exists>n q c. MoveToScheduledBack (k_info k (k_current_thread k)) (k_current_thread k) (k_queue k) = Some (Some n, q) \<and>
    c < 4 \<and> t_active_core (k_info k (k_current_thread k)) = int c \<and>
    settled k (IncrementScheduledCount (k_current_thread k) (k\<lparr>k_queue := q\<rparr>))"
proof -
  let ?m = "k_current_thread k"
  obtain A where h: "holds (k_queue k) (k_info k) (runnable k) A" using inv_holds[OF i] by blast
  have m: "queued (k_info k ?m)" "0 \<le> t_active_core (k_info k ?m)" using o r by (auto simp: on_core_def Let_def)
  have v: "valid_thread (k_info k ?m)" using h r by (simp add: holds_def)
  obtain c where c: "c < 4" "t_active_core (k_info k ?m) = int c" using valid_threadD(3)[OF v] m(2) by auto
  obtain q' A' n where q': "MoveToScheduledBack (k_info k ?m) ?m (k_queue k) = Some (n, q')" "holds q' (k_info k) (runnable k) A'"
    "n = first_of (remove1 ?m (A Scheduled (nat (t_priority (k_info k ?m))) c) @ [?m]) None"
    using MoveToScheduledBack_holds[OF h r m(2)] m(1) c(2) by (auto simp: Let_def simp del: ends_simps)
  have s: "settled k (k\<lparr>k_queue := q'\<rparr>)" using settled_queue[OF i q'(2)] .
  obtain n' where "n = Some n'" using q'(3) by (cases "remove1 ?m (A Scheduled (nat (t_priority (k_info k ?m))) c)") auto
  then show ?thesis using q'(1) c settled_trans[OF s settled_frame[OF settledD[OF s] frame_count]] by blast
qed

lemma settled_then: "settled k k1 \<Longrightarrow> frame k1 k2 \<Longrightarrow> settled k k2"
  using settled_trans settled_frame settledD by blast

lemma yield_without_migration_ok:
  assumes i: "sched_inv k" and o: "on_core k"
  shows "\<exists>k'. yield_without_migration p k = Some k' \<and> settled k k'"
proof (cases "k_current_thread k \<in> runnable k")
  case True
  from on_core_back[OF i o True] settled_then show ?thesis using True
    by (auto simp: yield_without_migration_def Let_def runnable_def frames)
next
  case False
  then show ?thesis using settled_frame[OF i frame_refl] by (simp add: yield_without_migration_def runnable_def Let_def)
qed

lemma yield_with_migration_ok:
  assumes i: "sched_inv k" and o: "on_core k"
  shows "\<exists>k'. yield_with_migration p k = Some k' \<and> settled k k'"
proof (cases "k_current_thread k \<in> runnable k")
  case True
  let ?m = "k_current_thread k"
  obtain n q c where b: "MoveToScheduledBack (k_info k ?m) ?m (k_queue k) = Some (Some n, q)" "c < 4"
    "t_active_core (k_info k ?m) = int c" "settled k (IncrementScheduledCount ?m (k\<lparr>k_queue := q\<rparr>))"
    using on_core_back[OF i o True] by blast
  define k1 where "k1 = IncrementScheduledCount ?m (k\<lparr>k_queue := q\<rparr>)"
  have i1: "sched_inv k1" using settledD[OF b(4)] by (simp add: k1_def)
  obtain A where "holds (k_queue k1) (k_info k1) (runnable k1) A" using inv_holds[OF i1] by blast
  note q1 = holds_queues[OF this]
  obtain r f k2 where k2: "yield_suggested (int c) (Some n) False (GetSuggestedFront (int c) (k_queue k1)) k1 = Some (r, f, k2)" "settled k1 k2"
    using yield_suggested_ok[OF i1 q1 b(2), of "Some n" "[]" "in_order A Suggested c" False] suggested_front[OF q1 b(2)] by auto
  have s: "settled k k2" using settled_trans[OF b(4)] k2(2) by (simp add: k1_def)
  have "yield_with_migration p k = Some (if r \<noteq> None \<or> Some n \<noteq> Some ?m then SetSchedulerUpdateNeeded k2
      else if \<not> f then SetYieldScheduleCount ?m p k2 else k2)"
    unfolding yield_with_migration_def Let_def b(1,3) k1_def[symmetric] using True k2(1) b(1) by (simp add: runnable_def k1_def)
  then show ?thesis using settled_then[OF s] by (simp add: frames)
next
  case False
  then show ?thesis using settled_frame[OF i frame_refl] by (simp add: yield_with_migration_def runnable_def Let_def)
qed

lemma yield_to_any_ok:
  assumes i: "sched_inv k" and o: "on_core k"
  shows "\<exists>k'. yield_to_any p k = Some k' \<and> settled k k'"
proof (cases "k_current_thread k \<in> runnable k")
  case True
  let ?m = "k_current_thread k"
  let ?t = "(k_info k ?m)\<lparr>t_active_core := -1\<rparr>"
  obtain L where q: "queues k L" using i by (auto simp: sched_inv_def)
  have m: "queued (k_info k ?m)" "0 \<le> t_active_core (k_info k ?m)" using o True by (auto simp: on_core_def Let_def)
  have v: "valid_thread (k_info k ?m)" using rq.valid[OF q[unfolded queues_def] True] .
  obtain c where c: "c < 4" "t_active_core (k_info k ?m) = int c" using valid_threadD(3)[OF v] m(2) by auto
  have vt: "valid_thread ?t" using v by (simp add: valid_thread_def NumCores_def)
  obtain q' L' where q': "ChangeCore (int c) ?t ?m False (k_queue k) = Some q'"
    "lists_of q' ((k_info k)(?m := ?t)) (runnable k) L'"
    using rq.change_core_law[OF q[unfolded queues_def] True m(1) _ refl vt, of False] c(2) by auto
  define k1 where "k1 = IncrementScheduledCount ?m (k\<lparr>k_info := (k_info k)(?m := ?t), k_queue := q'\<rparr>)"
  have "queues (k\<lparr>k_info := (k_info k)(?m := ?t), k_queue := q'\<rparr>) L'"
    using q'(2) by (simp add: queues_def runnable_def GetRawState_def)
  then have "settled k (k\<lparr>k_info := (k_info k)(?m := ?t), k_queue := q'\<rparr>)"
    using i by (auto simp: settled_def sched_inv_def runnable_def GetRawState_def)
  then have s1: "settled k k1" unfolding k1_def by (rule settled_then) (rule frame_count)
  obtain A where "holds (k_queue k1) (k_info k1) (runnable k1) A" using inv_holds[OF settledD[OF s1]] by blast
  note q1 = holds_queues[OF this]
  obtain r k2 where k2: "yield_any_suggested (int c) (GetSuggestedFront (int c) (k_queue k1)) k1 = Some (r, k2)" "settled k1 k2"
    using yield_any_suggested_ok[OF settledD[OF s1] q1 c(1), of "[]" "in_order A Suggested c"] suggested_front[OF q1 c(1)] by auto
  have "migrate (-1) ?m False k = Some (k\<lparr>k_info := (k_info k)(?m := ?t), k_queue := q'\<rparr>)"
    using q'(1) c(2) by (simp add: migrate_def Let_def)
  then have "yield_to_any p k = Some (if GetScheduledFront (int c) (k_queue k1) = None
      then if r \<noteq> Some ?m then SetSchedulerUpdateNeeded k2 else SetYieldScheduleCount ?m p k2 else SetSchedulerUpdateNeeded k1)"
    using True k2(1) c(2) by (simp add: yield_to_any_def Let_def runnable_def k1_def)
  then show ?thesis using settled_then[OF s1] settled_then[OF settled_trans[OF s1 k2(2)]] by (simp add: frames)
next
  case False
  then show ?thesis using settled_frame[OF i frame_refl] by (simp add: yield_to_any_def runnable_def Let_def)
qed

lemma UpdateHighestPriorityThreads_ok: "sched_inv k \<Longrightarrow> \<exists>cores k'. UpdateHighestPriorityThreads k = Some (cores, k') \<and> settled k k'"
  using UpdateHighestPriorityThreadsImpl_ok[of k] settled_frame[OF _ frame_refl]
  by (auto simp: UpdateHighestPriorityThreads_def settled_def)

text \<open>The lock: taking it counts and disables dispatch, releasing it selects threads and reschedules.\<close>

lemma frame_schedule [frames]: "frame k (snd (ScheduleImpl c k))" "frame k (snd (RescheduleCurrentCoreImpl c k))"
  "frame k (snd (RescheduleCurrentCore c k))"
proof -
  show s: "frame k (snd (ScheduleImpl c k))" for k
    by (simp add: ScheduleImpl_def Let_def frame_def on_scheduler_def)
  have r: "frame k (snd (RescheduleCurrentCoreImpl c k))" for k
    using frame_trans[OF frame_dispatch(2) s] frame_trans[OF frame_trans[OF frame_dispatch(2) s] frame_dispatch(1)]
    by (simp add: RescheduleCurrentCoreImpl_def frame_refl split: prod.split) (metis snd_conv)
  show "frame k (snd (RescheduleCurrentCoreImpl c k))" using r .
  show "frame k (snd (RescheduleCurrentCore c k))"
    using frame_trans[OF frame_dispatch(1) r] by (simp add: RescheduleCurrentCore_def Let_def frame_dispatch)
qed

lemma EnableScheduling_frame: "EnableScheduling w k = Some (b, k') \<Longrightarrow> frame k k'"
  using frame_trans[OF frame_dispatch(3) frame_dispatch(1)] frame_trans[OF frame_dispatch(4)] frame_schedule(3) frame_dispatch(1)
  by (auto simp: EnableScheduling_def RescheduleCurrentHLEThread_def Let_def split: option.splits if_splits)
    (metis snd_conv)+

lemma Lock_ok: "SchedulerLock_Lock k = Some k' \<Longrightarrow> frame k k'"
  by (auto simp: SchedulerLock_Lock_def Let_def DisableScheduling_def DisableDispatch_def on_thread_def frame_def split: if_splits)

lemma Unlock_ok:
  assumes i: "sched_inv k" and u: "SchedulerLock_Unlock k = Some (b, k')"
  shows "settled k k'"
proof -
  define k1 where "k1 = k\<lparr>k_lock_count := k_lock_count k - 1\<rparr>"
  have s1: "settled k k1" unfolding k1_def by (rule settled_frame[OF i frame_lock(1)])
  show ?thesis
  proof (cases "k_lock_count k1 = 0")
    case True
    obtain cores k2 where k2: "UpdateHighestPriorityThreads k1 = Some (cores, k2)" "settled k1 k2"
      using UpdateHighestPriorityThreads_ok[OF settledD[OF s1]] by blast
    then have "EnableScheduling cores (k2\<lparr>k_lock_owner := None\<rparr>) = Some (b, k')"
      using u True by (simp add: SchedulerLock_Unlock_def Let_def k1_def)
    then show ?thesis using settled_then[OF settled_trans[OF s1 k2(2)] frame_trans[OF frame_lock(2) EnableScheduling_frame]] by blast
  next
    case False
    then show ?thesis using u s1 by (simp add: SchedulerLock_Unlock_def Let_def k1_def)
  qed
qed

section \<open>Changes of a thread\<close>

text \<open>A thread changed what the queues read of it, and the queues followed.\<close>

lemma changed_inv:
  assumes i: "sched_inv k" and h: "holds q' (k_info k') (runnable k') A" and q: "k_queue k' = q'"
    and s: "\<And>c. sc_core_id (k_scheduler k' c) = sc_core_id (k_scheduler k c)"
  shows "sched_inv k'"
proof -
  have "queues k' (in_order A)" using h q by (auto simp: queues_def lists_of_def)
  then show ?thesis using i s by (auto simp: sched_inv_def)
qed

lemma runnable_store: "runnable (store_state m s k) = (if s = ThreadState_Runnable then insert m (runnable k) else runnable k - {m})"
  by (auto simp: runnable_def GetRawState_def store_state_def on_thread_def)

lemma store_state_fields [simp]: "k_queue (store_state m s k) = k_queue k" "k_info (store_state m s k) = k_info k"
  "k_scheduler (store_state m s k) = k_scheduler k" "GetRawState m (store_state m s k) = s"
  "k_current_thread (store_state m s k) = k_current_thread k" "k_process (store_state m s k) = k_process k"
  by (simp_all add: store_state_def on_thread_def GetRawState_def)

text \<open>What a change of the state of \<open>m\<close> to \<open>s\<close> leaves.\<close>

definition restated :: "nat \<Rightarrow> u16 \<Rightarrow> KernelCore \<Rightarrow> KernelCore \<Rightarrow> bool" where
  "restated m s k k' \<longleftrightarrow> sched_inv k' \<and> GetRawState m k' = s \<and> k_info k' = k_info k \<and>
     k_current_thread k' = k_current_thread k \<and>
     runnable k' = (if s = ThreadState_Runnable then insert m (runnable k) else runnable k - {m}) \<and>
     k_thread k' = (k_thread k)(m := (k_thread k m)\<lparr>th_state := s\<rparr>) \<and>
     (\<forall>p. pr_pinned_threads (k_process k' p) = pr_pinned_threads (k_process k p))"

lemma counted_same_thread: "k_thread (IncrementScheduledCount m k) = k_thread k"
  by (simp add: IncrementScheduledCount_def on_process_def split: option.split)

lemma state_hook_ok:
  assumes i: "sched_inv k" and v: "valid_thread (k_info k m)"
  shows "\<exists>k'. OnThreadStateChanged m (GetRawState m k) (store_state m s k) = Some k' \<and> restated m s k k'"
proof -
  define k1 where "k1 = store_state m s k"
  obtain A where h: "holds (k_queue k) (k_info k) (runnable k) A" using inv_holds[OF i] by blast
  have r1: "runnable k1 = (if s = ThreadState_Runnable then insert m (runnable k) else runnable k - {m})"
    by (simp add: k1_def runnable_store)
  have same: "k_queue k1 = k_queue k" "k_info k1 = k_info k" "k_scheduler k1 = k_scheduler k" "GetRawState m k1 = s"
    "k_current_thread k1 = k_current_thread k" "k_process k1 = k_process k" by (simp_all add: k1_def)
  have m: "m \<in> runnable k \<longleftrightarrow> GetRawState m k = ThreadState_Runnable" by (simp add: runnable_def)
  have th: "k_thread k1 = (k_thread k)(m := (k_thread k m)\<lparr>th_state := s\<rparr>)"
    by (simp add: k1_def store_state_def on_thread_def)
  have fin: "restated m s k k'" if "holds (k_queue k') (k_info k) (runnable k1) B" "k_info k' = k_info k"
    "k_scheduler k' = k_scheduler k" "k_thread k' = k_thread k1" "k_current_thread k' = k_current_thread k"
    "\<forall>p. pr_pinned_threads (k_process k' p) = pr_pinned_threads (k_process k p)" for k' B
  proof -
    have r: "runnable k' = runnable k1" "GetRawState m k' = s" using that(4) same(4) by (simp_all add: runnable_def GetRawState_def)
    show ?thesis unfolding restated_def using changed_inv[OF i, of "k_queue k'" k' B] that r r1 th by simp
  qed
  have keep: "restated m s k (let k' = SetSchedulerUpdateNeeded (IncrementScheduledCount m (k1\<lparr>k_queue := q2\<rparr>))
        in if t_dummy (k_info k m) then w m k' else k')"
    if "w = RegisterDummyThreadForWakeup \<or> w = UnregisterDummyThreadForWakeup" "holds q2 (k_info k) (runnable k1) B" for q2 w B
    using that fin same
    by (auto simp: Let_def SetSchedulerUpdateNeeded_def IncrementScheduledCount_def on_process_def
        RegisterDummyThreadForWakeup_def UnregisterDummyThreadForWakeup_def split: option.split)
  consider "s = GetRawState m k" | "s \<noteq> GetRawState m k" "m \<in> runnable k"
    | "s \<noteq> GetRawState m k" "m \<notin> runnable k" "s = ThreadState_Runnable"
    | "m \<notin> runnable k" "s \<noteq> ThreadState_Runnable" by blast
  then show ?thesis
  proof cases
    case 1
    have "runnable k1 = runnable k" using r1 m 1 by auto
    then have "restated m s k k1" using fin[of k1 A] h same by simp
    then show ?thesis using 1 same by (simp add: OnThreadStateChanged_def k1_def)
  next
    case 2
    then have r2: "runnable k1 = runnable k - {m}" using r1 m by auto
    obtain q2 B where q2: "KPriorityQueue_Remove (k_info k m) m (k_queue k) = Some q2" "holds q2 (k_info k) (runnable k1) B"
      using Remove_holds[OF h 2(2)] r2 by auto
    show ?thesis using 2 m q2 keep[of UnregisterDummyThreadForWakeup q2 B] same
      by (auto simp: OnThreadStateChanged_def k1_def[symmetric] Let_def)
  next
    case 3
    then have r3: "runnable k1 = insert m (runnable k)" using r1 by auto
    obtain q2 B where q2: "KPriorityQueue_PushBack (k_info k m) m (k_queue k) = Some q2" "holds q2 (k_info k) (runnable k1) B"
      using PushBack_holds[OF h 3(2) v] r3 by auto
    show ?thesis unfolding k1_def[symmetric] using 3 m q2 keep[of RegisterDummyThreadForWakeup q2 B] same
      by (auto simp: OnThreadStateChanged_def Let_def)
  next
    case 4
    have "runnable k1 = runnable k" using r1 4 by auto
    then have "restated m s k k1" using fin[of k1 A] h same by simp
    then show ?thesis using 4 m same by (auto simp: OnThreadStateChanged_def k1_def[symmetric] Let_def)
  qed
qed

lemma state_unchanged:
  assumes i: "sched_inv k" and v: "valid_thread (k_info k m)" and s: "s = GetRawState m k"
  shows "restated m s k (store_state m s k)"
  using state_hook_ok[OF i v, of s] s by (simp add: OnThreadStateChanged_def)

lemma set_state_ok:
  assumes "sched_inv k" "valid_thread (k_info k m)"
  shows "\<exists>k'. set_state m s k = Some k' \<and>
    restated m ((GetRawState m k AND NOT ThreadState_Mask) OR (s AND ThreadState_Mask)) k k'"
  using state_hook_ok[OF assms] state_unchanged[OF assms] by (simp add: set_state_def Let_def)

lemma UpdateState_ok:
  assumes "sched_inv k" "valid_thread (k_info k m)"
  shows "\<exists>k'. UpdateState m k = Some k' \<and>
    restated m (ucast (GetSuspendFlags (k_thread k m)) OR (GetRawState m k AND ThreadState_Mask)) k k'"
  using state_hook_ok[OF assms] state_unchanged[OF assms] by (simp add: UpdateState_def Let_def)

lemma Continue_ok:
  assumes "sched_inv k" "valid_thread (k_info k m)"
  shows "\<exists>k'. Continue m k = Some k' \<and> restated m (GetRawState m k AND ThreadState_Mask) k k'"
  using state_hook_ok[OF assms] by (simp add: Continue_def Let_def)

lemma restated_inv: "restated m s k k' \<Longrightarrow> sched_inv k'"
  by (simp add: restated_def)

lemma restated_frame:
  assumes "restated m s k1 k'" "frame k k1"
  shows "sched_inv k'" "GetRawState m k' = s" "k_info k' = k_info k"
    "runnable k' = (if s = ThreadState_Runnable then insert m (runnable k) else runnable k - {m})"
    "k_current_thread k' = k_current_thread k"
  using assms by (auto simp: restated_def frame_def runnable_def GetRawState_def)

lemma frame_suspend_flags: "frame k (on_thread m (\<lambda>th. th\<lparr>th_suspend_request_flags := f th\<rparr>) k)"
  "frame k (on_thread m (\<lambda>th. th\<lparr>th_suspend_allowed_flags := f th\<rparr>) k)"
  by (rule frame_on_thread, simp)+

lemma change_priority_ok:
  assumes i: "sched_inv k" and v: "valid_thread ((k_info k m)\<lparr>t_priority := p\<rparr>)"
  shows "\<exists>k'. change_priority m p k = Some k' \<and> settled k k' \<and> k_info k' = (k_info k)(m := (k_info k m)\<lparr>t_priority := p\<rparr>)"
proof -
  let ?t = "(k_info k m)\<lparr>t_priority := p\<rparr>"
  define k1 where "k1 = k\<lparr>k_info := (k_info k)(m := ?t)\<rparr>"
  have same: "k_queue k1 = k_queue k" "k_scheduler k1 = k_scheduler k" "runnable k1 = runnable k" "GetRawState m k1 = GetRawState m k"
    "k_info k1 = (k_info k)(m := ?t)" "k_current_thread k1 = k_current_thread k"
    by (simp_all add: k1_def runnable_def GetRawState_def)
  obtain A where h: "holds (k_queue k) (k_info k) (runnable k) A" using inv_holds[OF i] by blast
  show ?thesis
  proof (cases "m \<in> runnable k")
    case True
    obtain q2 B where q2: "ChangePriority (t_priority (k_info k m)) (m = k_current_thread k) ?t m (k_queue k) = Some q2"
      "holds q2 ((k_info k)(m := ?t)) (runnable k) B"
      using ChangePriority_holds[OF h True refl v] by blast
    define k2 where "k2 = SetSchedulerUpdateNeeded (IncrementScheduledCount m (k1\<lparr>k_queue := q2\<rparr>))"
    have f: "frame (k1\<lparr>k_queue := q2\<rparr>) k2" unfolding k2_def by (rule frame_trans[OF frame_count frame_flags(1)])
    have "sched_inv (k1\<lparr>k_queue := q2\<rparr>)" by (rule changed_inv[OF i, where A = B]) (use q2 same in \<open>simp_all add: runnable_def GetRawState_def\<close>)
    then have "settled k k2" using frame_inv[OF f] f same by (simp add: settled_def runnable_def GetRawState_def frame_def)
    moreover have "k_info k2 = (k_info k)(m := ?t)" using f same by (simp add: frame_def)
    moreover have "change_priority m p k = Some k2"
      using True q2(1) same by (simp add: change_priority_def Let_def k1_def[symmetric] OnThreadPriorityChanged_def k2_def runnable_def)
    ultimately show ?thesis by blast
  next
    case False
    have "holds (k_queue k) ((k_info k)(m := ?t)) (runnable k) A" using h by (simp add: holds_other_thread[OF False])
    then have "sched_inv k1" using changed_inv[OF i, of "k_queue k1" k1 A] same by simp
    then have "settled k k1" using same by (simp add: settled_def)
    moreover have "change_priority m p k = Some k1"
      using False same by (simp add: change_priority_def Let_def k1_def[symmetric] OnThreadPriorityChanged_def runnable_def)
    ultimately show ?thesis using same by auto
  qed
qed

lemma mask_hook_ok:
  assumes i: "sched_inv k" and v: "valid_thread ((k_info k m)\<lparr>t_affinity := a, t_active_core := c\<rparr>)"
  shows "\<exists>k'. OnThreadAffinityMaskChanged m (t_affinity (k_info k m)) (t_active_core (k_info k m)) (set_mask m a c k) = Some k' \<and>
    settled k k' \<and> k_info k' = (k_info k)(m := (k_info k m)\<lparr>t_affinity := a, t_active_core := c\<rparr>) \<and> k_thread k' = k_thread k"
proof -
  let ?t = "(k_info k m)\<lparr>t_affinity := a, t_active_core := c\<rparr>"
  define k1 where "k1 = set_mask m a c k"
  have same: "k_queue k1 = k_queue k" "k_scheduler k1 = k_scheduler k" "runnable k1 = runnable k" "GetRawState m k1 = GetRawState m k"
    "k_info k1 = (k_info k)(m := ?t)" "k_current_thread k1 = k_current_thread k" "k_thread k1 = k_thread k"
    by (simp_all add: k1_def set_mask_def runnable_def GetRawState_def)
  obtain A where h: "holds (k_queue k) (k_info k) (runnable k) A" using inv_holds[OF i] by blast
  show ?thesis
  proof (cases "m \<in> runnable k")
    case True
    obtain q2 B where q2: "ChangeAffinityMask (t_active_core (k_info k m)) (t_affinity (k_info k m)) ?t m (k_queue k) = Some q2"
      "holds q2 ((k_info k)(m := ?t)) (runnable k) B"
      using ChangeAffinityMask_holds[OF h True _ _ v] by auto
    define k2 where "k2 = SetSchedulerUpdateNeeded (IncrementScheduledCount m (k1\<lparr>k_queue := q2\<rparr>))"
    have f: "frame (k1\<lparr>k_queue := q2\<rparr>) k2" unfolding k2_def by (rule frame_trans[OF frame_count frame_flags(1)])
    have "sched_inv (k1\<lparr>k_queue := q2\<rparr>)" by (rule changed_inv[OF i, where A = B]) (use q2 same in \<open>simp_all add: runnable_def GetRawState_def\<close>)
    then have "settled k k2" using frame_inv[OF f] f same by (simp add: settled_def runnable_def GetRawState_def frame_def)
    moreover have "k_info k2 = (k_info k)(m := ?t)" using f same by (simp add: frame_def)
    moreover have "k_thread k2 = k_thread k"
      using same by (simp add: k2_def SetSchedulerUpdateNeeded_def counted_same_thread)
    moreover have "OnThreadAffinityMaskChanged m (t_affinity (k_info k m)) (t_active_core (k_info k m)) k1 = Some k2"
      using True q2(1) same by (simp add: OnThreadAffinityMaskChanged_def k2_def runnable_def)
    ultimately show ?thesis unfolding k1_def by blast
  next
    case False
    have "holds (k_queue k) ((k_info k)(m := ?t)) (runnable k) A" using h by (simp add: holds_other_thread[OF False])
    then have "sched_inv k1" using changed_inv[OF i, of "k_queue k1" k1 A] same by simp
    then have "settled k k1" using same by (simp add: settled_def)
    moreover have "OnThreadAffinityMaskChanged m (t_affinity (k_info k m)) (t_active_core (k_info k m)) k1 = Some k1"
      using False same by (simp add: OnThreadAffinityMaskChanged_def runnable_def)
    ultimately show ?thesis using same unfolding k1_def by blast
  qed
qed

text \<open>The bodies of the thread operations, for a thread whose state is one the queues accept.\<close>

lemma core_bit: "c < 4 \<Longrightarrow> bit (push_bit c 1 :: u64) b \<longleftrightarrow> b = c"
  by (auto simp: bit_exp_iff)

lemma core_bit_valid:
  assumes "valid_thread t" "c < 4"
  shows "valid_thread (t\<lparr>t_affinity := push_bit c 1, t_active_core := int c\<rparr>)"
proof -
  have "push_bit c 1 AND NOT (mask 4) = (0 :: u64)"
    using assms(2) by (intro bit_word_eqI) (auto simp: bit_and_iff bit_not_iff bit_mask_iff bit_exp_iff)
  then show ?thesis using assms GetAffinity_bit[of "push_bit c 1" c] core_bit[OF assms(2)]
    by (simp add: valid_thread_def NumCores_def)
qed

lemma request_suspend_ok:
  assumes "sched_inv k" "valid_thread (k_info k m)"
  shows "\<exists>k'. request_suspend m ty k = Some k' \<and> sched_inv k'"
proof -
  let ?k1 = "on_thread m (\<lambda>th. th\<lparr>th_suspend_request_flags := th_suspend_request_flags th OR suspend_bit ty\<rparr>) k"
  have f: "frame k ?k1" by (rule frame_suspend_flags)
  then have "sched_inv ?k1" "valid_thread (k_info ?k1 m)" using frame_inv[OF f] assms by (simp_all add: frame_def)
  from UpdateState_ok[OF this] this(1) show ?thesis by (auto simp: request_suspend_def TrySuspend_def restated_def)
qed

lemma resume_ok:
  assumes "sched_inv k" "valid_thread (k_info k m)"
  shows "\<exists>k'. resume m ty k = Some k' \<and> sched_inv k'"
proof -
  let ?k1 = "on_thread m (\<lambda>th. th\<lparr>th_suspend_request_flags := th_suspend_request_flags th AND NOT (suspend_bit ty)\<rparr>) k"
  have f: "frame k ?k1" by (rule frame_suspend_flags)
  then have "sched_inv ?k1" "valid_thread (k_info ?k1 m)" using frame_inv[OF f] assms by (simp_all add: frame_def)
  from UpdateState_ok[OF this] show ?thesis by (auto simp: resume_def restated_def)
qed

lemma UpdateState_after:
  assumes "sched_inv k" "valid_thread (k_info k m)" "\<And>th. th_state (f th) = th_state th"
  shows "\<exists>k'. UpdateState m (on_thread m f k) = Some k' \<and> sched_inv k' \<and> k_info k' = k_info k"
proof -
  have f: "frame k (on_thread m f k)" by (rule frame_on_thread) (rule assms(3))
  then have "sched_inv (on_thread m f k)" "valid_thread (k_info (on_thread m f k) m)"
    using frame_inv[OF f] assms by (simp_all add: frame_def)
  from UpdateState_ok[OF this] show ?thesis using f by (auto simp: restated_def frame_def)
qed

lemma same_mask: "t_affinity t = a \<Longrightarrow> t_active_core t = c \<Longrightarrow> t\<lparr>t_affinity := a, t_active_core := c\<rparr> = t"
  by (cases t) simp

lemma same_masks: "t_affinity (I m) = a \<Longrightarrow> t_active_core (I m) = c \<Longrightarrow> I(m := (I m)\<lparr>t_affinity := a, t_active_core := c\<rparr>) = I"
  by (simp only: same_mask fun_upd_triv)

lemma set_mask_same: "t_affinity (k_info k m) = a \<Longrightarrow> t_active_core (k_info k m) = c \<Longrightarrow> set_mask m a c k = k"
  unfolding set_mask_def by (simp only: same_masks) simp

lemma Pin_ok:
  assumes i: "sched_inv k" and v: "valid_thread (k_info k m)" and c: "c < 4"
  shows "\<exists>k'. Pin m c k = Some k' \<and> sched_inv k' \<and>
    k_info k' = (k_info k)(m := (k_info k m)\<lparr>t_affinity := push_bit c 1, t_active_core := int c\<rparr>)"
proof -
  define k1 where "k1 = on_thread m (\<lambda>th. th\<lparr>th_is_pinned := True,
      th_num_core_migration_disables := th_num_core_migration_disables th + 1,
      th_original_physical_ideal_core := th_physical_ideal_core th,
      th_original_affinity := t_affinity (k_info k m), th_physical_ideal_core := int c\<rparr>) k"
  let ?t = "(k_info k m)\<lparr>t_affinity := push_bit c 1, t_active_core := int c\<rparr>"
  have f: "frame k k1" unfolding k1_def by (rule frame_on_thread) simp
  have i1: "sched_inv k1" "k_info k1 = k_info k" using frame_inv[OF f] i f by (simp_all add: frame_def)
  have vt: "valid_thread ?t" by (rule core_bit_valid[OF v c])
  obtain k3 where k3: "OnThreadAffinityMaskChanged m (t_affinity (k_info k m)) (t_active_core (k_info k m))
      (set_mask m (push_bit c 1) (int c) k1) = Some k3" "settled k1 k3" "k_info k3 = (k_info k)(m := ?t)"
    using mask_hook_ok[OF i1(1), where m = m and a = "push_bit c 1" and c = "int c"] vt i1(2) by auto
  have k3': "\<exists>k3. (if t_active_core (k_info k m) \<noteq> int c \<or> push_bit c 1 \<noteq> t_affinity (k_info k m)
      then OnThreadAffinityMaskChanged m (t_affinity (k_info k m)) (t_active_core (k_info k m)) (set_mask m (push_bit c 1) (int c) k1)
      else Some (set_mask m (push_bit c 1) (int c) k1)) = Some k3 \<and> sched_inv k3 \<and> k_info k3 = (k_info k)(m := ?t)"
  proof (cases "t_active_core (k_info k m) \<noteq> int c \<or> push_bit c 1 \<noteq> t_affinity (k_info k m)")
    case True
    then show ?thesis using k3 settledD by auto
  next
    case False
    then have "set_mask m (push_bit c 1) (int c) k1 = k1" using i1(2) by (intro set_mask_same) simp_all
    moreover have "(k_info k)(m := ?t) = k_info k"
      by (rule same_masks) (use False in simp_all)
    ultimately show ?thesis using False i1 by auto
  qed
  then obtain k3 where s: "(if t_active_core (k_info k m) \<noteq> int c \<or> push_bit c 1 \<noteq> t_affinity (k_info k m)
      then OnThreadAffinityMaskChanged m (t_affinity (k_info k m)) (t_active_core (k_info k m)) (set_mask m (push_bit c 1) (int c) k1)
      else Some (set_mask m (push_bit c 1) (int c) k1)) = Some k3" "sched_inv k3" "k_info k3 = (k_info k)(m := ?t)" by blast
  have v3: "valid_thread (k_info k3 m)" using s(3) vt by simp
  from UpdateState_after[OF s(2) v3, of "\<lambda>th. th\<lparr>th_suspend_allowed_flags := th_suspend_allowed_flags th AND NOT (suspend_bit Suspend_Thread)\<rparr>"]
  show ?thesis using s(3) unfolding Pin_def Let_def k1_def[symmetric] s(1) by simp
qed

text \<open>A mask a thread may get: cores that exist, at least one, the ideal core among them.\<close>

definition good_mask :: "int \<Rightarrow> u64 \<Rightarrow> bool" where
  "good_mask ideal a \<longleftrightarrow> a \<noteq> 0 \<and> a AND NOT (mask 4) = 0 \<and> (0 \<le> ideal \<longrightarrow> GetAffinity a ideal)"

lemma core_of_mask_valid:
  assumes g: "good_mask ideal a" and v: "valid_thread t"
  shows "valid_thread (t\<lparr>t_affinity := a, t_active_core := core_of_mask ideal a\<rparr>)"
    "0 \<le> c \<Longrightarrow> GetAffinity a c \<Longrightarrow> c < 4 \<Longrightarrow> valid_thread (t\<lparr>t_affinity := a, t_active_core := c\<rparr>)"
    "c = -1 \<Longrightarrow> valid_thread (t\<lparr>t_affinity := a, t_active_core := c\<rparr>)"
proof -
  have small: "b < 4" if "bit a b" for b
  proof (rule ccontr)
    assume "\<not> b < 4"
    then have "bit (a AND NOT (mask 4)) b" using that bit_u64_less[OF that] by (simp add: bit_and_iff bit_not_iff bit_mask_iff)
    then show False using g by (simp add: good_mask_def)
  qed
  show ok: "valid_thread (t\<lparr>t_affinity := a, t_active_core := c\<rparr>)" if "0 \<le> c" "GetAffinity a c" "c < 4" for c
    using that v g by (simp add: valid_thread_def NumCores_def good_mask_def)
  show "c = -1 \<Longrightarrow> valid_thread (t\<lparr>t_affinity := a, t_active_core := c\<rparr>)"
    using v g by (simp add: valid_thread_def NumCores_def good_mask_def)
  have core: "\<exists>b<4. core_of_mask ideal a = int b \<and> bit a b"
  proof (cases "0 \<le> ideal")
    case True
    then obtain b where b: "ideal = int b" by (metis nonneg_int_cases)
    then have "bit a b" using g True by (simp add: good_mask_def GetAffinity_bit)
    then show ?thesis using small b by (auto simp: core_of_mask_def)
  next
    case False
    have "a \<noteq> 0" using g by (simp add: good_mask_def)
    then have "countl_zero a < 64 \<and> bit a (63 - countl_zero a)" using countl_zero_set by simp
    then show ?thesis using False small by (intro exI[of _ "63 - countl_zero a"]) (auto simp: core_of_mask_def)
  qed
  then show "valid_thread (t\<lparr>t_affinity := a, t_active_core := core_of_mask ideal a\<rparr>)" using ok GetAffinity_bit by auto
qed

lemma Unpin_ok:
  assumes i: "sched_inv k" and v: "valid_thread (k_info k m)" and a: "0 \<le> t_active_core (k_info k m)"
    and g: "good_mask (th_original_physical_ideal_core (k_thread k m)) (th_original_affinity (k_thread k m))"
  shows "\<exists>k'. Unpin m k = Some k' \<and> sched_inv k' \<and> t_affinity (k_info k' m) = th_original_affinity (k_thread k m)"
proof -
  let ?ideal = "th_original_physical_ideal_core (k_thread k m)" and ?new = "th_original_affinity (k_thread k m)"
  let ?core = "t_active_core (k_info k m)"
  let ?to = "if GetAffinity ?new ?core then ?core else core_of_mask ?ideal ?new"
  define k1 where "k1 = on_thread m (\<lambda>th. th\<lparr>th_is_pinned := False,
      th_num_core_migration_disables := th_num_core_migration_disables th - 1, th_physical_ideal_core := ?ideal\<rparr>) k"
  have f: "frame k k1" unfolding k1_def by (rule frame_on_thread) simp
  have i1: "sched_inv k1" "k_info k1 = k_info k" using frame_inv[OF f] i f by (simp_all add: frame_def)
  have "?core < 4" using v by (simp add: valid_thread_def NumCores_def)
  then have vt: "valid_thread ((k_info k m)\<lparr>t_affinity := ?new, t_active_core := ?to\<rparr>)"
    using core_of_mask_valid(1)[OF g v] core_of_mask_valid(2)[OF g v a] by simp
  obtain k3 where k3: "OnThreadAffinityMaskChanged m (t_affinity (k_info k m)) ?core (set_mask m ?new ?to k1) = Some k3"
    "settled k1 k3" "k_info k3 = (k_info k)(m := (k_info k m)\<lparr>t_affinity := ?new, t_active_core := ?to\<rparr>)"
    using mask_hook_ok[OF i1(1), where m = m and a = ?new and c = ?to] vt i1(2) by auto
  have "\<exists>k2. (if ?new \<noteq> t_affinity (k_info k m) then if ?core < 0 then None
        else OnThreadAffinityMaskChanged m (t_affinity (k_info k m)) ?core (set_mask m ?new ?to k1) else Some k1) = Some k2 \<and>
      sched_inv k2 \<and> t_affinity (k_info k2 m) = ?new \<and> valid_thread (k_info k2 m)"
    using k3 settledD[OF k3(2)] i1 a vt v by auto
  then obtain k2 where s: "(if ?new \<noteq> t_affinity (k_info k m) then if ?core < 0 then None
        else OnThreadAffinityMaskChanged m (t_affinity (k_info k m)) ?core (set_mask m ?new ?to k1) else Some k1) = Some k2"
    "sched_inv k2" "t_affinity (k_info k2 m) = ?new" "valid_thread (k_info k2 m)" by blast
  from UpdateState_after[OF s(2,4), of "\<lambda>th. th\<lparr>th_suspend_allowed_flags := th_suspend_allowed_flags th OR suspend_bit Suspend_Thread\<rparr>"]
  show ?thesis using s(2,3) unfolding Unpin_def Let_def k1_def[symmetric] s(1) by auto
qed

lemma apply_core_mask_ok:
  assumes i: "sched_inv k" and v: "valid_thread (k_info k m)" and g: "good_mask ideal a"
  shows "\<exists>k'. apply_core_mask m ideal a k = Some k' \<and> sched_inv k'"
proof -
  let ?core = "t_active_core (k_info k m)"
  let ?to = "if 0 \<le> ?core \<and> \<not> GetAffinity a ?core then core_of_mask ideal a else ?core"
  define k1 where "k1 = on_thread m (\<lambda>th. th\<lparr>th_physical_ideal_core := ideal\<rparr>) k"
  define k0 where "k0 = on_thread m (\<lambda>th. th\<lparr>th_original_physical_ideal_core := ideal, th_original_affinity := a\<rparr>) k"
  have f: "frame k k1" "frame k k0" unfolding k1_def k0_def by (rule frame_on_thread, simp)+
  have i1: "sched_inv k1" "sched_inv k0" "k_info k1 = k_info k" using frame_inv[OF f(1)] frame_inv[OF f(2)] i f by (simp_all add: frame_def)
  have "-1 \<le> ?core" "?core < 4" using v by (simp_all add: valid_thread_def NumCores_def)
  then have "?to = core_of_mask ideal a \<or> ?to = -1 \<or> 0 \<le> ?to \<and> GetAffinity a ?to \<and> ?to < 4" by auto
  then consider "?to = core_of_mask ideal a" | "?to = -1" | "0 \<le> ?to" "GetAffinity a ?to" "?to < 4" by blast
  then have vt: "valid_thread ((k_info k m)\<lparr>t_affinity := a, t_active_core := ?to\<rparr>)"
  proof cases
    case 1
    show ?thesis unfolding 1 by (rule core_of_mask_valid(1)[OF g v])
  next
    case 2
    then show ?thesis by (rule core_of_mask_valid(3)[OF g v])
  next
    case 3
    then show ?thesis by (rule core_of_mask_valid(2)[OF g v])
  qed
  from mask_hook_ok[OF i1(1), where m = m and a = a and c = ?to] vt i1(3) obtain k3 where
    "OnThreadAffinityMaskChanged m (t_affinity (k_info k m)) ?core (set_mask m a ?to k1) = Some k3" "settled k1 k3" by auto
  then show ?thesis using i1(1,2) settledD unfolding apply_core_mask_def Let_def k1_def[symmetric] k0_def[symmetric] by auto
qed

end
