(* ===== verification/Thread_Switch.thy ===== *)
theory Thread_Switch
  imports Scheduling
begin

text \<open>
  Reachable states of the scheduler, the switch of a core to its selected thread under interference by
  other cores, and the properties of scheduling as a whole.
\<close>

section \<open>Switching under interference\<close>

text \<open>What other cores may do to core \<open>core\<close>: change its selection, but then also ask it to reschedule,
  as \<open>UpdateHighestPriorityThread\<close> does.\<close>

definition evolves :: "nat \<Rightarrow> KernelCore \<Rightarrow> KernelCore \<Rightarrow> bool" where
  "evolves core k k' \<longleftrightarrow> (let s = k_scheduler k core; s' = k_scheduler k' core in
     k_current_thread k' = k_current_thread k \<and> sc_idle_thread s' = sc_idle_thread s \<and>
     sc_current_thread s' = sc_current_thread s \<and> (sc_needs_scheduling s \<longrightarrow> sc_needs_scheduling s') \<and>
     (sc_highest_priority_thread s' \<noteq> sc_highest_priority_thread s \<longrightarrow> sc_needs_scheduling s'))"

definition env_ok :: "nat \<Rightarrow> interference \<Rightarrow> bool" where
  "env_ok core env \<longleftrightarrow> (\<forall>i k. evolves core k (env i k))"

lemma evolves_refl: "evolves core k k"
  by (simp add: evolves_def)

lemma evolves_trans: "evolves core k k1 \<Longrightarrow> evolves core k1 k2 \<Longrightarrow> evolves core k k2"
  by (auto simp: evolves_def Let_def)

lemma evolves_guard: "evolves core k (set_guard b m k)"
  by (simp add: evolves_def set_guard_def on_thread_def)

lemma UpdateHighestPriorityThread_evolves:
  "sc_core_id (k_scheduler k c) = c \<Longrightarrow> evolves core k (snd (UpdateHighestPriorityThread c w k))"
proof -
  obtain b k' where u: "UpdateHighestPriorityThread c w k = (b, k')" by fastforce
  have "sc_idle_thread (k_scheduler k' core) = sc_idle_thread (k_scheduler k core) \<and>
      sc_current_thread (k_scheduler k' core) = sc_current_thread (k_scheduler k core) \<and>
      (sc_needs_scheduling (k_scheduler k core) \<longrightarrow> sc_needs_scheduling (k_scheduler k' core))"
    using u by (auto simp: UpdateHighestPriorityThread_def Let_def on_scheduler_def on_thread_def on_process_def
        IncrementScheduledCount_def split: if_splits option.splits)
  then show ?thesis using UpdateHighestPriorityThread_cases[OF u] u
    by (cases "core = c") (auto simp: evolves_def Let_def frame_def)
qed

lemma take_context_evolves:
  assumes "env_ok core env" "take_context core env m i k = Some r"
  shows "evolves core k (snd (snd r)) \<and> (\<not> fst r \<longrightarrow> sc_needs_scheduling (k_scheduler (snd (snd r)) core))"
proof -
  have "env_ok core env \<longrightarrow> evolves core k (snd (snd r)) \<and> (\<not> fst r \<longrightarrow> sc_needs_scheduling (k_scheduler (snd (snd r)) core))"
  proof (rule take_context.raw_induct[of "\<lambda>core env m i k r. env_ok core env \<longrightarrow>
      evolves core k (snd (snd r)) \<and> (\<not> fst r \<longrightarrow> sc_needs_scheduling (k_scheduler (snd (snd r)) core))", OF _ assms(2)], rule impI)
    fix f core env m i k r
    assume IH: "\<And>core env m i k r. f core env m i k = Some r \<Longrightarrow> env_ok core env \<longrightarrow>
        evolves core k (snd (snd r)) \<and> (\<not> fst r \<longrightarrow> sc_needs_scheduling (k_scheduler (snd (snd r)) core))"
      and step: "(let k1 = env i k in
        if \<not> th_context_locked (k_thread k1 m) then Some (True, Suc i, set_guard True m k1)
        else let k2 = env (Suc i) k1 in
          if sc_needs_scheduling (k_scheduler k2 core) then Some (False, Suc (Suc i), k2)
          else f core env m (Suc (Suc i)) k2) = Some r"
      and env: "env_ok core env"
    define k1 where "k1 = env i k"
    define k2 where "k2 = env (Suc i) k1"
    have e1: "evolves core k k1" using env by (simp add: env_ok_def k1_def)
    moreover have "evolves core k1 k2" using env by (simp add: env_ok_def k2_def)
    ultimately have e2: "evolves core k k2" by (rule evolves_trans)
    show "evolves core k (snd (snd r)) \<and> (\<not> fst r \<longrightarrow> sc_needs_scheduling (k_scheduler (snd (snd r)) core))"
    proof (cases "th_context_locked (k_thread k1 m)")
      case False
      then have "r = (True, Suc i, set_guard True m k1)" using step by (simp add: k1_def)
      then show ?thesis using evolves_trans[OF e1 evolves_guard] by simp
    next
      case True
      then have t: "(if sc_needs_scheduling (k_scheduler k2 core) then Some (False, Suc (Suc i), k2)
          else f core env m (Suc (Suc i)) k2) = Some r" using step by (simp add: k1_def k2_def Let_def split: if_splits)
      show ?thesis
      proof (cases "sc_needs_scheduling (k_scheduler k2 core)")
        case True
        then have "r = (False, Suc (Suc i), k2)" using t by simp
        then show ?thesis using e2 True by simp
      next
        case False
        then have "f core env m (Suc (Suc i)) k2 = Some r" using t by simp
        then show ?thesis using IH env evolves_trans[OF e2] by blast
      qed
    qed
  qed
  then show ?thesis using assms(1) by blast
qed

lemma SwitchThread_current:
  assumes "SwitchThread core (Some m) k = Some k'" "sc_current_thread (k_scheduler k core) = Some (k_current_thread k)"
  shows "k_current_thread k' = m" "sc_current_thread (k_scheduler k' core) = Some m"
    "sc_needs_scheduling (k_scheduler k' core) = sc_needs_scheduling (k_scheduler k core)"
    "sc_highest_priority_thread (k_scheduler k' core) = sc_highest_priority_thread (k_scheduler k core)"
    "sc_idle_thread (k_scheduler k' core) = sc_idle_thread (k_scheduler k core)"
  using assms by (auto simp: SwitchThread_def Let_def on_thread_def on_process_def on_scheduler_def split: if_splits option.splits)

text \<open>The loop's state: the core's record of its current thread is right, and the thread it is about to
  take is the selection unless the core must reschedule anyway.\<close>

definition switching :: "nat \<Rightarrow> nat option \<times> nat \<times> KernelCore \<Rightarrow> bool" where
  "switching core s \<longleftrightarrow> (case s of (highest, i, k) \<Rightarrow>
     sc_current_thread (k_scheduler k core) = Some (k_current_thread k) \<and>
     (sc_needs_scheduling (k_scheduler k core) \<or> highest = sc_highest_priority_thread (k_scheduler k core)))"

definition switched :: "nat \<Rightarrow> nat \<Rightarrow> KernelCore \<Rightarrow> bool" where
  "switched core m k \<longleftrightarrow> (let s = k_scheduler k core in
     \<not> sc_needs_scheduling s \<and> sc_current_thread s = Some m \<and> k_current_thread k = m \<and>
     (if sc_highest_priority_thread s = None then sc_idle_thread s else sc_highest_priority_thread s) = Some m)"

lemma retry_switching:
  assumes "env_ok core env" "sc_current_thread (k_scheduler k core) = Some (k_current_thread k)"
  shows "switching core (retry_switch core env i k)"
proof -
  define k1 where "k1 = env i k"
  define k2 where "k2 = on_scheduler core (\<lambda>s. s\<lparr>sc_needs_scheduling := False\<rparr>) k1"
  have "evolves core k k1" "evolves core k2 (env (Suc i) k2)" using assms(1) by (simp_all add: env_ok_def k1_def)
  then show ?thesis using assms(2)
    by (simp add: retry_switch_def Let_def k1_def[symmetric] k2_def[symmetric] switching_def)
      (simp add: evolves_def Let_def k2_def on_scheduler_def)
qed

lemma switch_loop_switched:
  assumes "env_ok core env" "switch_loop core env s = Some r" "switching core s"
  shows "switched core (fst r) (snd r)"
proof -
  have "env_ok core env \<longrightarrow> switching core s \<longrightarrow> switched core (fst r) (snd r)"
  proof (rule switch_loop.raw_induct[of "\<lambda>core env s r. env_ok core env \<longrightarrow> switching core s \<longrightarrow> switched core (fst r) (snd r)",
      OF _ assms(2)], intro impI)
    fix f core env s r
    assume IH: "\<And>core env s r. f core env s = Some r \<Longrightarrow> env_ok core env \<longrightarrow> switching core s \<longrightarrow> switched core (fst r) (snd r)"
      and step: "(case s of (highest, i, k) \<Rightarrow>
        case (if highest = None then sc_idle_thread (k_scheduler k core) else highest) of
          None \<Rightarrow> None
        | Some m \<Rightarrow>
            (case take_context core env m i k of
               None \<Rightarrow> None
             | Some (taken, i1, k1) \<Rightarrow>
                 if \<not> taken then f core env (retry_switch core env i1 k1)
                 else
                   (case SwitchThread core (Some m) k1 of
                      None \<Rightarrow> None
                    | Some k2 \<Rightarrow>
                        let k3 = env i1 k2 in
                        if sc_needs_scheduling (k_scheduler k3 core)
                        then f core env (retry_switch core env (Suc i1) (set_guard False m k3))
                        else Some (m, k3)))) = Some r"
      and env: "env_ok core env" and sw: "switching core s"
    obtain highest i k where sk: "s = (highest, i, k)" by (rule prod_cases3)
    from step obtain m taken i1 k1 where
      m: "(if highest = None then sc_idle_thread (k_scheduler k core) else highest) = Some m"
      and t: "take_context core env m i k = Some (taken, i1, k1)"
      unfolding sk by (auto split: option.splits)
    note ev = take_context_evolves[OF env t, simplified]
    have cur: "sc_current_thread (k_scheduler k1 core) = Some (k_current_thread k1)"
      using sw ev by (simp add: sk switching_def evolves_def Let_def)
    show "switched core (fst r) (snd r)"
    proof (cases taken)
      case False
      then have "f core env (retry_switch core env i1 k1) = Some r" using step unfolding sk by (simp add: m t)
      then show ?thesis using IH env retry_switching[OF env cur] by blast
    next
      case True
      obtain k2 where k2: "SwitchThread core (Some m) k1 = Some k2"
        using step True unfolding sk by (simp add: m t split: option.splits)
      note s2 = SwitchThread_current[OF k2 cur]
      define k3 where "k3 = env i1 k2"
      have e3: "evolves core k2 k3" using env by (simp add: env_ok_def k3_def)
      show ?thesis
      proof (cases "sc_needs_scheduling (k_scheduler k3 core)")
        case True
        then have "f core env (retry_switch core env (Suc i1) (set_guard False m k3)) = Some r"
          using step \<open>taken\<close> unfolding sk by (simp add: m t k2 k3_def)
        moreover have "sc_current_thread (k_scheduler (set_guard False m k3) core) = Some (k_current_thread (set_guard False m k3))"
          using s2(1,2) e3 by (simp add: evolves_def Let_def set_guard_def on_thread_def)
        ultimately show ?thesis using IH env retry_switching[OF env] by blast
      next
        case False
        then have r: "r = (m, k3)" using step \<open>taken\<close> unfolding sk by (simp add: m t k2 k3_def)
        have "\<not> sc_needs_scheduling (k_scheduler k core)" "highest = sc_highest_priority_thread (k_scheduler k core)"
          "sc_highest_priority_thread (k_scheduler k3 core) = sc_highest_priority_thread (k_scheduler k core)"
          "sc_idle_thread (k_scheduler k3 core) = sc_idle_thread (k_scheduler k core)"
          using sw ev e3 s2(3-5) False by (auto simp: sk switching_def evolves_def Let_def)
        then show ?thesis using m s2(1,2) e3 False by (auto simp: r switched_def evolves_def Let_def split: if_splits)
      qed
    qed
  qed
  then show ?thesis using assms(1,3) by blast
qed

text \<open>Where the fiber starts after \<open>ScheduleImpl\<close>.\<close>

definition fiber_state :: "nat \<Rightarrow> KernelCore \<Rightarrow> KernelCore" where
  "fiber_state core k1 = Unload (the (sc_switch_cur_thread (k_scheduler k1 core)))
     (on_scheduler core (\<lambda>s. s\<lparr>sc_switch_from_schedule := False\<rparr>) k1)"

lemma fiber_start:
  assumes "sc_current_thread (k_scheduler k core) = Some (k_current_thread k)"
    "\<not> sc_interrupt_task_runnable (k_scheduler k core)" "ScheduleImpl core k = (True, k1)"
  shows "ScheduleImplFiber core env k1 = switch_loop core env (sc_highest_priority_thread (k_scheduler k core), 0, fiber_state core k1)"
    "switching core (sc_highest_priority_thread (k_scheduler k core), 0, fiber_state core k1)"
    "\<not> sc_needs_scheduling (k_scheduler (fiber_state core k1) core)"
    "sc_idle_thread (k_scheduler (fiber_state core k1) core) = sc_idle_thread (k_scheduler k core)"
    "th_context_locked (k_thread (fiber_state core k1) m) \<longrightarrow> th_context_locked (k_thread k m)"
  using assms
  by (auto simp: ScheduleImpl_def ScheduleImplFiber_def Let_def on_scheduler_def Unload_def set_guard_def on_thread_def
      switching_def fiber_state_def split: if_splits)

lemma SwitchThread_some: "\<exists>k'. SwitchThread core (Some m) k = Some k'"
  by (cases "m = k_current_thread k") (simp_all add: SwitchThread_def Let_def)

lemma quiet_switch:
  assumes "(if highest = None then sc_idle_thread (k_scheduler k core) else highest) = Some m"
    "\<not> th_context_locked (k_thread k m)" "\<not> sc_needs_scheduling (k_scheduler k core)"
    "sc_current_thread (k_scheduler k core) = Some (k_current_thread k)"
  shows "\<exists>k'. switch_loop core (\<lambda>i k. k) (highest, 0, k) = Some (m, k')"
proof -
  have t: "take_context core (\<lambda>i k. k) m 0 k = Some (True, 1, set_guard True m k)"
    using assms(2) by (subst take_context.simps) simp
  let ?k = "set_guard True m k"
  obtain k2 where k2: "SwitchThread core (Some m) ?k = Some k2" using SwitchThread_some by blast
  have "\<not> sc_needs_scheduling (k_scheduler k2 core)"
    using SwitchThread_current(3)[OF k2] assms(3,4) by (simp add: set_guard_def on_thread_def)
  then show ?thesis using assms(1) by (subst switch_loop.simps) (simp add: t k2)
qed

section \<open>Reachable states\<close>

text \<open>A kernel after boot, and the steps of the calls that run under the scheduler lock. A thread that is
  not runnable may be set up freely; every other step is a call within its contract.\<close>

definition booted :: "KernelCore \<Rightarrow> bool" where
  "booted k \<longleftrightarrow> (\<exists>e. k_queue k = KPriorityQueue_new e) \<and> runnable k = {} \<and> (\<forall>c<4. sc_core_id (k_scheduler k c) = c)"

inductive sched_step :: "KernelCore \<Rightarrow> KernelCore \<Rightarrow> bool" where
  ss_setup: "m \<notin> runnable k \<Longrightarrow> sched_step k (k\<lparr>k_info := (k_info k)(m := t)\<rparr>)"
| ss_bookkeeping: "frame k k' \<Longrightarrow> sched_step k k'"
| ss_state: "valid_thread (k_info k m) \<Longrightarrow> set_state m s k = Some k' \<Longrightarrow> sched_step k k'"
| ss_continue: "valid_thread (k_info k m) \<Longrightarrow> Continue m k = Some k' \<Longrightarrow> sched_step k k'"
| ss_suspend: "valid_thread (k_info k m) \<Longrightarrow> request_suspend m ty k = Some k' \<Longrightarrow> sched_step k k'"
| ss_resume: "valid_thread (k_info k m) \<Longrightarrow> resume m ty k = Some k' \<Longrightarrow> sched_step k k'"
| ss_priority: "valid_thread ((k_info k m)\<lparr>t_priority := p\<rparr>) \<Longrightarrow> change_priority m p k = Some k' \<Longrightarrow> sched_step k k'"
| ss_pin: "valid_thread (k_info k m) \<Longrightarrow> c < 4 \<Longrightarrow> Pin m c k = Some k' \<Longrightarrow> sched_step k k'"
| ss_unpin: "valid_thread (k_info k m) \<Longrightarrow> 0 \<le> t_active_core (k_info k m) \<Longrightarrow>
    good_mask (th_original_physical_ideal_core (k_thread k m)) (th_original_affinity (k_thread k m)) \<Longrightarrow>
    Unpin m k = Some k' \<Longrightarrow> sched_step k k'"
| ss_core_mask: "valid_thread (k_info k m) \<Longrightarrow> good_mask ideal a \<Longrightarrow> apply_core_mask m ideal a k = Some k' \<Longrightarrow> sched_step k k'"
| ss_rotate: "c < 4 \<Longrightarrow> p < 64 \<Longrightarrow> RotateScheduledQueue (int c) (int p) k = Some k' \<Longrightarrow> sched_step k k'"
| ss_preempt: "PreemptThreads k = Some k' \<Longrightarrow> sched_step k k'"
| ss_yield: "on_core k \<Longrightarrow> yield_without_migration p k = Some k' \<Longrightarrow> sched_step k k'"
| ss_yield_migrating: "on_core k \<Longrightarrow> yield_with_migration p k = Some k' \<Longrightarrow> sched_step k k'"
| ss_yield_any: "on_core k \<Longrightarrow> yield_to_any p k = Some k' \<Longrightarrow> sched_step k k'"
| ss_select: "UpdateHighestPriorityThreads k = Some (w, k') \<Longrightarrow> sched_step k k'"
| ss_unlock: "SchedulerLock_Unlock k = Some (b, k') \<Longrightarrow> sched_step k k'"

inductive sched_reachable :: "KernelCore \<Rightarrow> bool" where
  sr_boot: "booted k \<Longrightarrow> sched_reachable k"
| sr_step: "sched_reachable k \<Longrightarrow> sched_step k k' \<Longrightarrow> sched_reachable k'"

lemma booted_inv: "booted k \<Longrightarrow> sched_inv k"
proof -
  assume b: "booted k"
  then obtain e where "k_queue k = KPriorityQueue_new e" "runnable k = {}" by (auto simp: booted_def)
  then have "queues k (in_order (\<lambda>k p c. []))"
    using holds_new[of e "k_info k"] by (auto simp: queues_def lists_of_def)
  then show ?thesis using b by (auto simp: sched_inv_def booted_def)
qed

lemma setup_inv:
  assumes "sched_inv k" "m \<notin> runnable k"
  shows "sched_inv (k\<lparr>k_info := (k_info k)(m := t)\<rparr>)"
proof -
  obtain A where "holds (k_queue k) (k_info k) (runnable k) A" using inv_holds[OF assms(1)] by blast
  then have "holds (k_queue k) ((k_info k)(m := t)) (runnable k) A" using holds_other_thread[OF assms(2)] by blast
  then show ?thesis
    using changed_inv[OF assms(1), of "k_queue k" "k\<lparr>k_info := (k_info k)(m := t)\<rparr>" A]
    by (simp add: runnable_def GetRawState_def)
qed

lemma sched_step_inv: "sched_step k k' \<Longrightarrow> sched_inv k \<Longrightarrow> sched_inv k'"
proof (induction rule: sched_step.induct)
  case (ss_setup m k t)
  then show ?case using setup_inv by blast
next
  case (ss_bookkeeping k k')
  then show ?case using frame_inv by blast
next
  case (ss_state k m s k')
  then show ?case using set_state_ok[of k m s] restated_inv by fastforce
next
  case (ss_continue k m k')
  then show ?case using Continue_ok[of k m] restated_inv by fastforce
next
  case (ss_suspend k m ty k')
  then show ?case using request_suspend_ok[of k m ty] by fastforce
next
  case (ss_resume k m ty k')
  then show ?case using resume_ok[of k m ty] by fastforce
next
  case (ss_priority p k m k')
  then show ?case using change_priority_ok[of k p m] settledD by fastforce
next
  case (ss_pin k m c k')
  then show ?case using Pin_ok[of k m c] by fastforce
next
  case (ss_unpin k m k')
  then show ?case using Unpin_ok[of k m] by fastforce
next
  case (ss_core_mask k m ideal a k')
  then show ?case using apply_core_mask_ok[of k m] by fastforce
next
  case (ss_rotate c p k k')
  then show ?case using RotateScheduledQueue_ok[of k c p] settledD by fastforce
next
  case (ss_preempt k k')
  then show ?case using PreemptThreads_ok[of k] settledD by fastforce
next
  case (ss_yield k p k')
  then show ?case using yield_without_migration_ok[of k p] settledD by fastforce
next
  case (ss_yield_migrating k p k')
  then show ?case using yield_with_migration_ok[of k p] settledD by fastforce
next
  case (ss_yield_any k p k')
  then show ?case using yield_to_any_ok[of k p] settledD by fastforce
next
  case (ss_select k w k')
  then show ?case using UpdateHighestPriorityThreads_ok[of k] settledD by fastforce
next
  case (ss_unlock k b k')
  then show ?case using Unlock_ok settledD by blast
qed

lemma reachable_inv: "sched_reachable k \<Longrightarrow> sched_inv k"
  by (induction rule: sched_reachable.induct) (use booted_inv sched_step_inv in blast)+

section \<open>Properties\<close>

text \<open>C12: after any run of the kernel's calls, selecting the threads of the cores returns; if no process
  has pinned a thread, every core's selected thread is then the front of its queue, that is a runnable
  thread of the core that no other runnable thread of it beats, or none if there is none; and every core
  whose selection changed is among the cores returned and asked to reschedule.\<close>

theorem selection_is_best:
  assumes "sched_reachable k"
  shows "\<exists>cores k'. UpdateHighestPriorityThreadsImpl k = Some (cores, k') \<and> runnable k' = runnable k \<and>
    (\<forall>c<4. sc_highest_priority_thread (k_scheduler k' c) \<noteq> sc_highest_priority_thread (k_scheduler k c) \<longrightarrow>
       bit cores c \<and> sc_needs_scheduling (k_scheduler k' c)) \<and>
    (no_pins k \<longrightarrow> (\<forall>c<4.
       case sc_highest_priority_thread (k_scheduler k' c) of
         None \<Rightarrow> \<forall>m\<in>runnable k. queued (k_info k' m) \<longrightarrow> t_active_core (k_info k' m) \<noteq> int c
       | Some m \<Rightarrow> m \<in> runnable k \<and> queued (k_info k' m) \<and> t_active_core (k_info k' m) = int c \<and>
           (\<forall>m'\<in>runnable k. queued (k_info k' m') \<and> t_active_core (k_info k' m') = int c \<longrightarrow>
              t_priority (k_info k' m) \<le> t_priority (k_info k' m'))))"
proof -
  obtain cores k' where k': "UpdateHighestPriorityThreadsImpl k = Some (cores, k')" "sched_inv k'" "runnable k' = runnable k"
    "\<forall>c<4. sc_highest_priority_thread (k_scheduler k' c) \<noteq> sc_highest_priority_thread (k_scheduler k c) \<longrightarrow>
       bit cores c \<and> sc_needs_scheduling (k_scheduler k' c)"
    "no_pins k \<longrightarrow> (\<forall>c<4. sc_highest_priority_thread (k_scheduler k' c) = GetScheduledFront (int c) (k_queue k'))"
    using UpdateHighestPriorityThreadsImpl_ok[OF reachable_inv[OF assms]] by blast
  obtain L where L: "lists_of (k_queue k') (k_info k') (runnable k) L" using k'(2,3) by (auto simp: sched_inv_def queues_def)
  have "case sc_highest_priority_thread (k_scheduler k' c) of
         None \<Rightarrow> \<forall>m\<in>runnable k. queued (k_info k' m) \<longrightarrow> t_active_core (k_info k' m) \<noteq> int c
       | Some m \<Rightarrow> m \<in> runnable k \<and> queued (k_info k' m) \<and> t_active_core (k_info k' m) = int c \<and>
           (\<forall>m'\<in>runnable k. queued (k_info k' m') \<and> t_active_core (k_info k' m') = int c \<longrightarrow>
              t_priority (k_info k' m) \<le> t_priority (k_info k' m'))" if "no_pins k" "c < 4" for c
    using rq.front_best[OF L that(2)] k'(5) that by (simp add: front_of_def)
  then show ?thesis using k'(1,3,4) by blast
qed

text \<open>A kernel with the threads of \<open>sample_threads\<close>, none of them runnable yet.\<close>

definition sample_thread :: KThread where
  "sample_thread = \<lparr>th_state = ThreadState_Initialized, th_parent = None, th_last_scheduled_tick = 0, th_schedule_count = 0,
     th_num_kernel_waiters = 0, th_current_core = 0, th_cpu_time = 0, th_disable_count = 0, th_termination_requested = False,
     th_dpc_terminated = False, th_dummy_runnable = False, th_context_locked = False, th_suspend_request_flags = 0,
     th_suspend_allowed_flags = 496, th_is_pinned = False, th_num_core_migration_disables = 0, th_virtual_ideal_core = 0,
     th_virtual_affinity = 1, th_physical_ideal_core = 0, th_original_physical_ideal_core = 0, th_original_affinity = 1\<rparr>"

definition sample_kernel :: KernelCore where
  "sample_kernel = \<lparr>k_info = sample_threads, k_thread = \<lambda>m. sample_thread,
     k_process = \<lambda>p. \<lparr>pr_schedule_count = 0, pr_running_threads = \<lambda>c. None, pr_running_thread_idle_counts = \<lambda>c. 0,
        pr_pinned_threads = \<lambda>c. None, pr_running_time_ticks = 0\<rparr>,
     k_scheduler = \<lambda>c. KScheduler_Initialize 10 (20 + c) c KScheduler_new,
     k_queue = KPriorityQueue_new (\<lambda>c m. QueueEntry_Initialize), k_update_needed = False, k_woken_dummy_threads = {},
     k_thread_list = [], k_lock_count = 0, k_lock_owner = None, k_current_thread = 10, k_current_core = Some 0,
     k_phantom_mode = False, k_cpu_ticks = 0, k_interrupted = {}\<rparr>"

lemma sample_booted: "booted sample_kernel"
  by (auto simp: booted_def sample_kernel_def KScheduler_Initialize_def runnable_def GetRawState_def sample_thread_def
      ThreadState_Initialized_def ThreadState_Runnable_def)

text \<open>Starting threads one after the other.\<close>

lemma start_reachable:
  assumes "sched_reachable k" "valid_thread (k_info k m)" "GetRawState m k = ThreadState_Initialized"
  shows "\<exists>k'. sched_reachable k' \<and> set_state m ThreadState_Runnable k = Some k' \<and> restated m ThreadState_Runnable k k'"
proof -
  have "(GetRawState m k AND NOT ThreadState_Mask) OR (ThreadState_Runnable AND ThreadState_Mask) = ThreadState_Runnable"
    using assms(3) by (simp add: ThreadState_Initialized_def ThreadState_Runnable_def ThreadState_Mask_def)
  then obtain k' where "set_state m ThreadState_Runnable k = Some k'" "restated m ThreadState_Runnable k k'"
    using set_state_ok[OF reachable_inv[OF assms(1)] assms(2), of ThreadState_Runnable] by auto
  then show ?thesis using sr_step[OF assms(1) ss_state[OF assms(2)]] by blast
qed

lemma sample_started:
  "\<exists>k. sched_reachable k \<and> runnable k = {1, 2} \<and> k_info k = sample_threads \<and> no_pins k"
proof -
  have r0: "sched_reachable sample_kernel" using sample_booted by (rule sr_boot)
  have i0: "k_info sample_kernel = sample_threads" "runnable sample_kernel = {}" "\<And>m. GetRawState m sample_kernel = ThreadState_Initialized"
    using sample_booted by (simp_all add: sample_kernel_def booted_def GetRawState_def sample_thread_def)
  obtain k1 where k1: "sched_reachable k1" "restated 2 ThreadState_Runnable sample_kernel k1"
    using start_reachable[OF r0, of 2] i0 sample_threads_valid by auto
  have i1: "k_info k1 = sample_threads" "runnable k1 = {2}" "GetRawState 1 k1 = ThreadState_Initialized"
    using k1(2) i0 by (simp_all add: restated_def GetRawState_def)
  obtain k2 where k2: "sched_reachable k2" "restated 1 ThreadState_Runnable k1 k2"
    using start_reachable[OF k1(1), of 1] i1 sample_threads_valid by auto
  have "runnable k2 = {1, 2}" "k_info k2 = sample_threads" using k2(2) i1 by (simp_all add: restated_def insert_commute)
  moreover have "no_pins k2" using k1(2) k2(2) by (simp add: restated_def no_pins_def sample_kernel_def)
  ultimately show ?thesis using k2(1) by blast
qed

theorem selection_is_best_witness:
  "\<exists>k cores k'. sched_reachable k \<and> runnable k = {1, 2} \<and> no_pins k \<and> UpdateHighestPriorityThreadsImpl k = Some (cores, k')"
  using sample_started selection_is_best by metis

text \<open>C26: after any run of the kernel's calls every scheduler call returns: the loops over suggestions
  end, no candidate array overflows and no null thread is used. Each leaves the queues exactly the
  runnable threads again, rotation, preemption and yielding keep the set of runnable threads, and a change
  of a thread's state adds it to or removes it from them as its new state says.\<close>

theorem scheduler_calls_return:
  assumes "sched_reachable k"
  shows "(\<forall>c p. c < 4 \<longrightarrow> p < 64 \<longrightarrow> (\<exists>k'. RotateScheduledQueue (int c) (int p) k = Some k' \<and> settled k k')) \<and>
    (\<exists>k'. PreemptThreads k = Some k' \<and> settled k k') \<and>
    (\<exists>cores k'. UpdateHighestPriorityThreads k = Some (cores, k') \<and> settled k k') \<and>
    (on_core k \<longrightarrow> (\<forall>p. (\<exists>k'. yield_without_migration p k = Some k' \<and> settled k k') \<and>
       (\<exists>k'. yield_with_migration p k = Some k' \<and> settled k k') \<and> (\<exists>k'. yield_to_any p k = Some k' \<and> settled k k'))) \<and>
    (\<forall>m s. valid_thread (k_info k m) \<longrightarrow> (\<exists>k'. set_state m s k = Some k' \<and> sched_inv k' \<and>
       (let s' = (GetRawState m k AND NOT ThreadState_Mask) OR (s AND ThreadState_Mask) in GetRawState m k' = s' \<and>
        runnable k' = (if s' = ThreadState_Runnable then insert m (runnable k) else runnable k - {m})))) \<and>
    (\<forall>m p. valid_thread ((k_info k m)\<lparr>t_priority := p\<rparr>) \<longrightarrow> (\<exists>k'. change_priority m p k = Some k' \<and> settled k k')) \<and>
    (\<forall>m c. valid_thread (k_info k m) \<longrightarrow> c < 4 \<longrightarrow> (\<exists>k'. Pin m c k = Some k' \<and> sched_inv k'))"
proof -
  note i = reachable_inv[OF assms]
  have st: "\<exists>k'. set_state m s k = Some k' \<and> sched_inv k' \<and>
       (let s' = (GetRawState m k AND NOT ThreadState_Mask) OR (s AND ThreadState_Mask) in GetRawState m k' = s' \<and>
        runnable k' = (if s' = ThreadState_Runnable then insert m (runnable k) else runnable k - {m}))"
    if "valid_thread (k_info k m)" for m s
    using set_state_ok[OF i that, of s] unfolding Let_def restated_def by blast
  show ?thesis
    using RotateScheduledQueue_ok[OF i] PreemptThreads_ok[OF i] UpdateHighestPriorityThreads_ok[OF i]
      yield_without_migration_ok[OF i] yield_with_migration_ok[OF i] yield_to_any_ok[OF i] st
      change_priority_ok[OF i] Pin_ok[OF i]
    by (intro conjI allI impI) blast+
qed

theorem scheduler_calls_return_witness:
  "\<exists>k k'. sched_reachable k \<and> runnable k = {1, 2} \<and> PreemptThreads k = Some k' \<and> runnable k' = {1, 2}"
proof -
  obtain k where k: "sched_reachable k" "runnable k = {1, 2}" using sample_started by blast
  then obtain k' where "PreemptThreads k = Some k'" "settled k k'" using scheduler_calls_return[OF k(1)] by blast
  then show ?thesis using k by (auto simp: settled_def)
qed

text \<open>C25: whatever other cores do to a core while it switches, as long as they ask it to reschedule
  whenever they change its selection, a switch that ends leaves the core running its selected thread (the
  idle thread if none is selected) with nothing left to reschedule; and a switch that is not interfered
  with, to a thread no core is running, ends.\<close>

theorem switch_ends_with_selection:
  assumes "sc_current_thread (k_scheduler k core) = Some (k_current_thread k)"
    and "\<not> sc_interrupt_task_runnable (k_scheduler k core)" and "ScheduleImpl core k = (True, k1)"
  shows "(\<forall>env m k'. env_ok core env \<and> ScheduleImplFiber core env k1 = Some (m, k') \<longrightarrow> switched core m k') \<and>
    (\<forall>m. (if sc_highest_priority_thread (k_scheduler k core) = None then sc_idle_thread (k_scheduler k core)
        else sc_highest_priority_thread (k_scheduler k core)) = Some m \<and> \<not> th_context_locked (k_thread k m) \<longrightarrow>
      (\<exists>k'. ScheduleImplFiber core (\<lambda>i k. k) k1 = Some (m, k')))"
proof -
  let ?h = "sc_highest_priority_thread (k_scheduler k core)" and ?k = "fiber_state core k1"
  note f = fiber_start[OF assms(1-3)]
  have cur: "sc_current_thread (k_scheduler ?k core) = Some (k_current_thread ?k)" using f(2) by (simp add: switching_def)
  have "switched core m k'" if "env_ok core env" "ScheduleImplFiber core env k1 = Some (m, k')" for env m k'
    using switch_loop_switched[OF that(1) _ f(2), of "(m, k')"] that(2) f(1)[of env] by simp
  moreover have "\<exists>k'. ScheduleImplFiber core (\<lambda>i k. k) k1 = Some (m, k')"
    if "(if ?h = None then sc_idle_thread (k_scheduler k core) else ?h) = Some m" "\<not> th_context_locked (k_thread k m)" for m
  proof -
    have "(if ?h = None then sc_idle_thread (k_scheduler ?k core) else ?h) = Some m" "\<not> th_context_locked (k_thread ?k m)"
      using that f(4) f(5)[of m] by auto
    from quiet_switch[OF this f(3) cur] show ?thesis using f(1)[of "\<lambda>i k. k"] by simp
  qed
  ultimately show ?thesis by blast
qed

text \<open>Core 0 of the sample kernel, whose selected thread is 2, switches to it from its idle thread.\<close>

definition switching_kernel :: KernelCore where
  "switching_kernel = sample_kernel\<lparr>k_current_thread := 20, k_scheduler := (k_scheduler sample_kernel)(0 :=
     (k_scheduler sample_kernel 0)\<lparr>sc_current_thread := Some 20, sc_highest_priority_thread := Some 2\<rparr>)\<rparr>"

theorem switch_ends_with_selection_witness:
  "\<exists>k1 k'. ScheduleImpl 0 switching_kernel = (True, k1) \<and> ScheduleImplFiber 0 (\<lambda>i k. k) k1 = Some (2, k') \<and> switched 0 2 k'"
proof -
  have s: "sc_current_thread (k_scheduler switching_kernel 0) = Some (k_current_thread switching_kernel)"
    "\<not> sc_interrupt_task_runnable (k_scheduler switching_kernel 0)"
    "sc_highest_priority_thread (k_scheduler switching_kernel 0) = Some 2" "\<not> th_context_locked (k_thread switching_kernel 2)"
    by (simp_all add: switching_kernel_def sample_kernel_def sample_thread_def KScheduler_Initialize_def KScheduler_new_def)
  have "fst (ScheduleImpl 0 switching_kernel)"
    by (simp add: ScheduleImpl_def Let_def on_scheduler_def switching_kernel_def sample_kernel_def KScheduler_Initialize_def KScheduler_new_def)
  then obtain k1 where k1: "ScheduleImpl 0 switching_kernel = (True, k1)" by (metis (full_types) prod.collapse)
  note t = switch_ends_with_selection[OF s(1,2) k1]
  obtain k' where k': "ScheduleImplFiber 0 (\<lambda>i k. k) k1 = Some (2, k')" using t s(3,4) by auto
  have "env_ok 0 (\<lambda>i k. k)" by (simp add: env_ok_def evolves_refl)
  then show ?thesis using t k1 k' by blast
qed

text \<open>The flags of a suspension, as they appear in the state.\<close>

lemma suspended_state:
  "(ucast (suspend_bit ty) OR (ThreadState_Runnable AND ThreadState_Mask) :: u16) \<noteq> ThreadState_Runnable"
  "((ucast (suspend_bit ty) OR (ThreadState_Runnable AND ThreadState_Mask) :: u16) AND ThreadState_Mask) = ThreadState_Runnable"
  by (cases ty; simp add: ThreadState_Runnable_def ThreadState_Mask_def)+

lemma flags_and:
  assumes "allowed AND req = (0 :: u32)" "allowed AND b = b" "req AND b = 0"
  shows "allowed AND (req OR b) = b" "(req OR b) AND NOT b = req"
proof -
  have a: "bit allowed n \<Longrightarrow> bit req n \<Longrightarrow> False" "bit b n \<Longrightarrow> bit allowed n" "bit req n \<Longrightarrow> bit b n \<Longrightarrow> False" for n
    using assms by (metis bit_and_iff bit_0_eq bot_apply bot_bool_def)+
  show "allowed AND (req OR b) = b" by (rule bit_eqI) (use a in \<open>auto simp: bit_and_iff bit_or_iff\<close>)
  show "(req OR b) AND NOT b = req" by (rule bit_word_eqI) (use a in \<open>auto simp: bit_and_iff bit_or_iff bit_not_iff\<close>)
qed

text \<open>suspending a runnable thread that is allowed to be suspended and has no kernel waiters takes
  it out of the runnable threads, and resuming it puts it back with every field as it was.\<close>

theorem suspend_resume_roundtrip:
  assumes "sched_reachable k" "valid_thread (k_info k m)" "m \<in> runnable k" "th_num_kernel_waiters (k_thread k m) = 0"
    and "GetSuspendFlags (k_thread k m) = 0" "\<not> IsSuspendRequested_type ty (k_thread k m)"
    and "th_suspend_allowed_flags (k_thread k m) AND suspend_bit ty = suspend_bit ty"
  shows "\<exists>k1 k2. request_suspend m ty k = Some k1 \<and> runnable k1 = runnable k - {m} \<and> sched_inv k1 \<and>
    resume m ty k1 = Some k2 \<and> runnable k2 = runnable k \<and> sched_inv k2 \<and> k_thread k2 = k_thread k \<and> k_info k2 = k_info k"
proof -
  let ?th = "k_thread k m" and ?b = "suspend_bit ty"
  have raw: "GetRawState m k = ThreadState_Runnable" using assms(3) by (simp add: runnable_def)
  note fl = flags_and[of "th_suspend_allowed_flags ?th" "th_suspend_request_flags ?th" ?b]
  have fl': "th_suspend_allowed_flags ?th AND (th_suspend_request_flags ?th OR ?b) = ?b"
    "(th_suspend_request_flags ?th OR ?b) AND NOT ?b = th_suspend_request_flags ?th"
    using fl assms(5-7) by (simp_all add: GetSuspendFlags_def IsSuspendRequested_type_def)
  define ka where "ka = on_thread m (\<lambda>th. th\<lparr>th_suspend_request_flags := th_suspend_request_flags th OR ?b\<rparr>) k"
  have fa: "frame k ka" unfolding ka_def by (rule frame_suspend_flags)
  have a: "sched_inv ka" "valid_thread (k_info ka m)" "k_info ka = k_info k" "runnable ka = runnable k" "GetRawState m ka = GetRawState m k"
    using frame_inv[OF fa] reachable_inv[OF assms(1)] fa assms(2) by (simp_all add: frame_def runnable_def GetRawState_def)
  let ?s = "ucast ?b OR (ThreadState_Runnable AND ThreadState_Mask)"
  have sa: "GetSuspendFlags (k_thread ka m) = ?b" using fl'(1) by (simp add: ka_def on_thread_def GetSuspendFlags_def)
  obtain k1 where k1: "UpdateState m ka = Some k1" "restated m ?s ka k1" using UpdateState_ok[OF a(1,2)] raw a(5) sa by auto
  have r1: "runnable k1 = runnable k - {m}" "sched_inv k1" "k_info k1 = k_info k" "GetRawState m k1 = ?s"
    "k_thread k1 = (k_thread ka)(m := (k_thread ka m)\<lparr>th_state := ?s\<rparr>)"
    using k1(2) a(3,4) suspended_state(1)[of ty] by (simp_all add: restated_def)
  define kb where "kb = on_thread m (\<lambda>th. th\<lparr>th_suspend_request_flags := th_suspend_request_flags th AND NOT ?b\<rparr>) k1"
  have fb: "frame k1 kb" unfolding kb_def by (rule frame_suspend_flags)
  have b: "sched_inv kb" "valid_thread (k_info kb m)" "k_info kb = k_info k" "runnable kb = runnable k - {m}" "GetRawState m kb = ?s"
    using frame_inv[OF fb] r1 fb assms(2) by (simp_all add: frame_def runnable_def GetRawState_def)
  have sb: "GetSuspendFlags (k_thread kb m) = 0"
    using fl'(2) assms(5) r1(5) by (simp add: kb_def ka_def on_thread_def GetSuspendFlags_def)
  obtain k2 where k2: "UpdateState m kb = Some k2" "restated m ThreadState_Runnable kb k2"
    using UpdateState_ok[OF b(1,2)] b(5) sb suspended_state(2)[of ty] by auto
  have "runnable k2 = runnable k" "sched_inv k2" "k_info k2 = k_info k" using k2(2) b(3,4) assms(3) by (auto simp: restated_def)
  moreover have "k_thread k2 = k_thread k"
  proof
    fix x
    show "k_thread k2 x = k_thread k x"
      using k2(2) r1(5) fl'(2) raw by (cases "x = m") (auto simp: restated_def kb_def ka_def on_thread_def GetRawState_def)
  qed
  moreover have "request_suspend m ty k = Some k1"
    using k1(1) assms(4) by (simp add: request_suspend_def TrySuspend_def ka_def on_thread_def)
  moreover have "resume m ty k1 = Some k2" using k2(1) by (simp add: resume_def kb_def)
  ultimately show ?thesis using r1(1,2) by blast
qed

theorem suspend_resume_roundtrip_witness:
  "\<exists>k k1 k2. sched_reachable k \<and> 1 \<in> runnable k \<and> request_suspend 1 Suspend_Thread k = Some k1 \<and> 1 \<notin> runnable k1 \<and>
    resume 1 Suspend_Thread k1 = Some k2 \<and> k_thread k2 = k_thread k"
proof -
  have r0: "sched_reachable sample_kernel" using sample_booted by (rule sr_boot)
  have i0: "k_info sample_kernel = sample_threads" "GetRawState 1 sample_kernel = ThreadState_Initialized"
    "k_thread sample_kernel 1 = sample_thread" by (simp_all add: sample_kernel_def GetRawState_def sample_thread_def)
  obtain k where k: "sched_reachable k" "restated 1 ThreadState_Runnable sample_kernel k"
    using start_reachable[OF r0, of 1] i0 sample_threads_valid by auto
  have c: "valid_thread (k_info k 1)" "1 \<in> runnable k" "k_thread k 1 = sample_thread\<lparr>th_state := ThreadState_Runnable\<rparr>"
    using k(2) i0(1,3) sample_threads_valid by (simp_all add: restated_def)
  have d: "th_num_kernel_waiters (k_thread k 1) = 0" "GetSuspendFlags (k_thread k 1) = 0"
    "\<not> IsSuspendRequested_type Suspend_Thread (k_thread k 1)"
    "th_suspend_allowed_flags (k_thread k 1) AND suspend_bit Suspend_Thread = suspend_bit Suspend_Thread"
    unfolding c(3) by (simp_all add: sample_thread_def GetSuspendFlags_def IsSuspendRequested_type_def)
  from suspend_resume_roundtrip[OF k(1) c(1,2) d] show ?thesis using k(1) c(2) by blast
qed

end
