(* ===== verification/Macro_Interpreter.thy ===== *)
theory Macro_Interpreter
  imports Bit_Field "HOL-Library.Monad_Syntax"
begin

text \<open>
  The GPU macro interpreter (\<open>src/video_core/macro/macro_interpreter.cpp\<close>) with its instruction
  encoding (\<open>macro.h\<close>). The 3D engine the macro drives is a parameter: what a method call does to its
  state and what a register read returns. A method call that starts another macro is part of what the
  engine does. Reading code or parameters out of range, and shifting by 32 or more, are \<open>None\<close>; so is a
  macro that never exits. Failed assertions and unimplemented operations log and go on.
\<close>

section \<open>Instructions\<close>

datatype Operation = ALU | AddImmediate | ExtractInsert | ExtractShiftLeftImmediate | ExtractShiftLeftRegister
  | Read_Operation | Unused_Operation | Branch

definition Operation_of :: "u32 \<Rightarrow> Operation" where
  "Operation_of v = [ALU, AddImmediate, ExtractInsert, ExtractShiftLeftImmediate, ExtractShiftLeftRegister,
     Read_Operation, Unused_Operation, Branch] ! unat v"

datatype ALUOperation = Add | AddWithCarry | Subtract | SubtractWithBorrow | Xor | Or | And | AndNot | Nand
  | Other_ALU u32

definition ALUOperation_of :: "u32 \<Rightarrow> ALUOperation" where
  "ALUOperation_of v =
     (if v = 0 then Add else if v = 1 then AddWithCarry else if v = 2 then Subtract else if v = 3 then SubtractWithBorrow
      else if v = 8 then Xor else if v = 9 then Or else if v = 10 then And else if v = 11 then AndNot
      else if v = 12 then Nand else Other_ALU v)"

datatype ResultOperation = IgnoreAndFetch | Move | MoveAndSetMethod | FetchAndSend | MoveAndSend | FetchAndSetMethod
  | MoveAndSetMethodFetchAndSend | MoveAndSetMethodSend

definition ResultOperation_of :: "u32 \<Rightarrow> ResultOperation" where
  "ResultOperation_of v = [IgnoreAndFetch, Move, MoveAndSetMethod, FetchAndSend, MoveAndSend, FetchAndSetMethod,
     MoveAndSetMethodFetchAndSend, MoveAndSetMethodSend] ! unat v"

datatype BranchCondition = Zero | NotZero

definition BranchCondition_of :: "u32 \<Rightarrow> BranchCondition" where
  "BranchCondition_of v = (if v = 0 then Zero else NotZero)"

type_synonym Opcode = u32

definition op_operation :: "Opcode \<Rightarrow> Operation" where
  "op_operation w = Operation_of (BitField_ExtractValue 0 3 w)"

definition op_result_operation :: "Opcode \<Rightarrow> ResultOperation" where
  "op_result_operation w = ResultOperation_of (BitField_ExtractValue 4 3 w)"

definition op_branch_condition :: "Opcode \<Rightarrow> BranchCondition" where
  "op_branch_condition w = BranchCondition_of (BitField_ExtractValue 4 1 w)"

definition op_branch_annul :: "Opcode \<Rightarrow> bool" where
  "op_branch_annul w \<longleftrightarrow> BitField_ExtractValue 5 1 w \<noteq> 0"

definition op_is_exit :: "Opcode \<Rightarrow> bool" where
  "op_is_exit w \<longleftrightarrow> BitField_ExtractValue 7 1 w \<noteq> 0"

definition op_dst :: "Opcode \<Rightarrow> u32" where
  "op_dst w = BitField_ExtractValue 8 3 w"

definition op_src_a :: "Opcode \<Rightarrow> u32" where
  "op_src_a w = BitField_ExtractValue 11 3 w"

definition op_src_b :: "Opcode \<Rightarrow> u32" where
  "op_src_b w = BitField_ExtractValue 14 3 w"

definition op_immediate :: "Opcode \<Rightarrow> u32" where
  "op_immediate w = BitField_ExtractSigned 14 18 w"

definition op_alu_operation :: "Opcode \<Rightarrow> ALUOperation" where
  "op_alu_operation w = ALUOperation_of (BitField_ExtractValue 17 5 w)"

definition op_bf_src_bit :: "Opcode \<Rightarrow> nat" where
  "op_bf_src_bit w = unat (BitField_ExtractValue 17 5 w)"

definition op_bf_size :: "Opcode \<Rightarrow> nat" where
  "op_bf_size w = unat (BitField_ExtractValue 22 5 w)"

definition op_bf_dst_bit :: "Opcode \<Rightarrow> nat" where
  "op_bf_dst_bit w = unat (BitField_ExtractValue 27 5 w)"

text \<open>The source computes the mask in a signed \<open>int\<close>; for a size of 31 its subtraction wraps round to the same mask.\<close>

definition GetBitfieldMask :: "Opcode \<Rightarrow> u32" where
  "GetBitfieldMask w = push_bit (op_bf_size w) 1 - 1"

definition GetBranchTarget :: "Opcode \<Rightarrow> u32" where
  "GetBranchTarget w = op_immediate w * 4"

definition method_address_address :: "u32 \<Rightarrow> u32" where
  "method_address_address w = BitField_ExtractValue 0 12 w"

definition method_address_increment :: "u32 \<Rightarrow> u32" where
  "method_address_increment w = BitField_ExtractValue 12 6 w"

section \<open>The interpreter\<close>

record 'e Maxwell3D =
  CallMethod :: "u32 \<Rightarrow> u32 \<Rightarrow> 'e \<Rightarrow> 'e"
  GetRegisterValue :: "u32 \<Rightarrow> 'e \<Rightarrow> u32"

record 'e MacroInterpreterImpl =
  mi_pc :: u32
  mi_delayed_pc :: "u32 option"
  mi_registers :: "u32 list"
  mi_method_address :: u32
  mi_parameters :: "u32 list"
  mi_num_parameters :: nat
  mi_next_parameter_index :: u32
  mi_carry_flag :: bool
  mi_engine :: 'e

type_synonym 'e macro = "'e MacroInterpreterImpl"

definition NUM_MACRO_REGISTERS :: nat where
  "NUM_MACRO_REGISTERS = 8"

definition GetRegister :: "u32 \<Rightarrow> 'e macro \<Rightarrow> u32 option" where
  "GetRegister register_id s =
     (if unat register_id < length (mi_registers s) then Some (mi_registers s ! unat register_id) else None)"

definition SetRegister :: "u32 \<Rightarrow> u32 \<Rightarrow> 'e macro \<Rightarrow> 'e macro option" where
  "SetRegister register_id value s =
     (if register_id = 0 then Some s
      else if unat register_id < length (mi_registers s)
      then Some (s\<lparr>mi_registers := (mi_registers s)[unat register_id := value]\<rparr>) else None)"

definition SetMethodAddress :: "u32 \<Rightarrow> 'e macro \<Rightarrow> 'e macro" where
  "SetMethodAddress address s = s\<lparr>mi_method_address := address\<rparr>"

definition Send :: "'e Maxwell3D \<Rightarrow> u32 \<Rightarrow> 'e macro \<Rightarrow> 'e macro" where
  "Send gpu value s =
     (let a = mi_method_address s
      in s\<lparr>mi_engine := CallMethod gpu (method_address_address a) value (mi_engine s),
           mi_method_address := BitField_Assign 0 12 a (method_address_address a + method_address_increment a)\<rparr>)"

definition Read_method :: "'e Maxwell3D \<Rightarrow> u32 \<Rightarrow> 'e macro \<Rightarrow> u32" where
  "Read_method gpu m s = GetRegisterValue gpu m (mi_engine s)"

definition FetchParameter :: "'e macro \<Rightarrow> (u32 \<times> 'e macro) option" where
  "FetchParameter s =
     (let i = mi_next_parameter_index s
      in if unat i < length (mi_parameters s)
         then Some (mi_parameters s ! unat i, s\<lparr>mi_next_parameter_index := i + 1\<rparr>) else None)"

definition GetALUResult :: "ALUOperation \<Rightarrow> u32 \<Rightarrow> u32 \<Rightarrow> 'e macro \<Rightarrow> u32 \<times> 'e macro" where
  "GetALUResult operation src_a src_b s =
     (let a = ucast src_a :: u64; b = ucast src_b :: u64 in
      case operation of
        Add \<Rightarrow> (let result = a + b in (ucast result, s\<lparr>mi_carry_flag := result > 0xffffffff\<rparr>))
      | AddWithCarry \<Rightarrow>
          (let result = a + b + (if mi_carry_flag s then 1 else 0) in (ucast result, s\<lparr>mi_carry_flag := result > 0xffffffff\<rparr>))
      | Subtract \<Rightarrow> (let result = a - b in (ucast result, s\<lparr>mi_carry_flag := result < 0x100000000\<rparr>))
      | SubtractWithBorrow \<Rightarrow>
          (let result = a - b - (if mi_carry_flag s then 0 else 1) in (ucast result, s\<lparr>mi_carry_flag := result < 0x100000000\<rparr>))
      | Xor \<Rightarrow> (src_a XOR src_b, s)
      | Or \<Rightarrow> (src_a OR src_b, s)
      | And \<Rightarrow> (src_a AND src_b, s)
      | AndNot \<Rightarrow> (src_a AND NOT src_b, s)
      | Nand \<Rightarrow> (NOT (src_a AND src_b), s)
      | Other_ALU v \<Rightarrow> (0, s))"

definition ProcessResult :: "'e Maxwell3D \<Rightarrow> ResultOperation \<Rightarrow> u32 \<Rightarrow> u32 \<Rightarrow> 'e macro \<Rightarrow> 'e macro option" where
  "ProcessResult gpu operation reg result s =
     (case operation of
        IgnoreAndFetch \<Rightarrow> do { (v, s1) \<leftarrow> FetchParameter s; SetRegister reg v s1 }
      | Move \<Rightarrow> SetRegister reg result s
      | MoveAndSetMethod \<Rightarrow> map_option (SetMethodAddress result) (SetRegister reg result s)
      | FetchAndSend \<Rightarrow> do { (v, s1) \<leftarrow> FetchParameter s; s2 \<leftarrow> SetRegister reg v s1; Some (Send gpu result s2) }
      | MoveAndSend \<Rightarrow> map_option (Send gpu result) (SetRegister reg result s)
      | FetchAndSetMethod \<Rightarrow>
          do { (v, s1) \<leftarrow> FetchParameter s; s2 \<leftarrow> SetRegister reg v s1; Some (SetMethodAddress result s2) }
      | MoveAndSetMethodFetchAndSend \<Rightarrow>
          do { s1 \<leftarrow> SetRegister reg result s; (v, s2) \<leftarrow> FetchParameter (SetMethodAddress result s1); Some (Send gpu v s2) }
      | MoveAndSetMethodSend \<Rightarrow>
          map_option (\<lambda>s1. Send gpu (drop_bit 12 result AND 63) (SetMethodAddress result s1)) (SetRegister reg result s))"

definition EvaluateBranchCondition :: "BranchCondition \<Rightarrow> u32 \<Rightarrow> bool" where
  "EvaluateBranchCondition c value = (case c of Zero \<Rightarrow> value = 0 | NotZero \<Rightarrow> value \<noteq> 0)"

definition GetOpcode :: "u32 list \<Rightarrow> 'e macro \<Rightarrow> Opcode option" where
  "GetOpcode code s = (let i = unat (mi_pc s) div 4 in if i < length code then Some (code ! i) else None)"

definition shl :: "u32 \<Rightarrow> u32 \<Rightarrow> u32 option" where
  "shl v n = (if unat n < 32 then Some (push_bit (unat n) v) else None)"

definition shr :: "u32 \<Rightarrow> u32 \<Rightarrow> u32 option" where
  "shr v n = (if unat n < 32 then Some (drop_bit (unat n) v) else None)"

text \<open>What an instruction that is not a branch computes and does with its result.\<close>

definition compute :: "'e Maxwell3D \<Rightarrow> Opcode \<Rightarrow> 'e macro \<Rightarrow> 'e macro option" where
  "compute gpu w s =
     do {
       src_a \<leftarrow> GetRegister (op_src_a w) s;
       src_b \<leftarrow> GetRegister (op_src_b w) s;
       (case op_operation w of
          ALU \<Rightarrow>
            (case GetALUResult (op_alu_operation w) src_a src_b s of
               (result, s1) \<Rightarrow> ProcessResult gpu (op_result_operation w) (op_dst w) result s1)
        | AddImmediate \<Rightarrow> ProcessResult gpu (op_result_operation w) (op_dst w) (src_a + op_immediate w) s
        | ExtractInsert \<Rightarrow>
            (let src = drop_bit (op_bf_src_bit w) src_b AND GetBitfieldMask w;
                 dst = src_a AND NOT (push_bit (op_bf_dst_bit w) (GetBitfieldMask w))
             in ProcessResult gpu (op_result_operation w) (op_dst w) (dst OR push_bit (op_bf_dst_bit w) src) s)
        | ExtractShiftLeftImmediate \<Rightarrow>
            do { v \<leftarrow> shr src_b src_a;
                 ProcessResult gpu (op_result_operation w) (op_dst w) (push_bit (op_bf_dst_bit w) (v AND GetBitfieldMask w)) s }
        | ExtractShiftLeftRegister \<Rightarrow>
            do { v \<leftarrow> shl (drop_bit (op_bf_src_bit w) src_b AND GetBitfieldMask w) src_a;
                 ProcessResult gpu (op_result_operation w) (op_dst w) v s }
        | Read_Operation \<Rightarrow>
            ProcessResult gpu (op_result_operation w) (op_dst w) (Read_method gpu (src_a + op_immediate w) s) s
        | Unused_Operation \<Rightarrow> Some s
        | Branch \<Rightarrow> Some s)
     }"

text \<open>Fetching an instruction and moving the program counter on, past a pending delay slot if there is one.\<close>

definition advance :: "'e macro \<Rightarrow> 'e macro" where
  "advance s =
     (case mi_delayed_pc s of
        None \<Rightarrow> s\<lparr>mi_pc := mi_pc s + 4\<rparr>
      | Some d \<Rightarrow> s\<lparr>mi_pc := d, mi_delayed_pc := None\<rparr>)"

definition branch_taken :: "Opcode \<Rightarrow> 'e macro \<Rightarrow> bool option" where
  "branch_taken w s =
     (if op_operation w = Branch
      then map_option (EvaluateBranchCondition (op_branch_condition w)) (GetRegister (op_src_a w) s) else Some False)"

text \<open>The result is whether to keep running.\<close>

partial_function (option) Step :: "'e Maxwell3D \<Rightarrow> u32 list \<Rightarrow> bool \<Rightarrow> 'e macro \<Rightarrow> (bool \<times> 'e macro) option" where
  "Step gpu code is_delay_slot s =
     do {
       w \<leftarrow> GetOpcode code s;
       let base_address = mi_pc s;
       let s1 = advance s;
       taken \<leftarrow> branch_taken w s1;
       if taken then
         if op_branch_annul w then Some (True, s1\<lparr>mi_pc := base_address + GetBranchTarget w\<rparr>)
         else Step gpu code True (s1\<lparr>mi_delayed_pc := Some (base_address + GetBranchTarget w)\<rparr>)
       else do {
         s2 \<leftarrow> compute gpu w s1;
         if op_is_exit w \<and> \<not> is_delay_slot then
           do { (keep, s3) \<leftarrow> Step gpu code True s2; Some (False, s3) }
         else Some (True, s2)
       }
     }"

partial_function (option) run_macro :: "'e Maxwell3D \<Rightarrow> u32 list \<Rightarrow> 'e macro \<Rightarrow> 'e macro option" where
  "run_macro gpu code s =
     do {
       (keep_executing, s1) \<leftarrow> Step gpu code False s;
       if keep_executing then run_macro gpu code s1 else Some s1
     }"

definition Reset :: "'e macro \<Rightarrow> 'e macro" where
  "Reset s = s\<lparr>mi_registers := replicate NUM_MACRO_REGISTERS 0, mi_pc := 0, mi_delayed_pc := None, mi_method_address := 0,
     mi_num_parameters := 0, mi_next_parameter_index := 1, mi_carry_flag := False\<rparr>"

definition load_parameters :: "u32 list \<Rightarrow> 'e macro \<Rightarrow> 'e macro" where
  "load_parameters params s =
     s\<lparr>mi_num_parameters := length params,
       mi_parameters := (if length params > length (mi_parameters s) then params
                         else params @ drop (length params) (mi_parameters s))\<rparr>"

definition Macro_Execute :: "'e Maxwell3D \<Rightarrow> u32 list \<Rightarrow> u32 list \<Rightarrow> 'e macro \<Rightarrow> 'e macro option" where
  "Macro_Execute gpu code params s =
     (case params of
        [] \<Rightarrow> None
      | p # ps \<Rightarrow>
          (let s1 = Reset s
           in run_macro gpu code (load_parameters params (s1\<lparr>mi_registers := (mi_registers s1)[1 := p]\<rparr>))))"

section \<open>Arithmetic with carry\<close>

lemma uint_u32_less: "uint (a :: u32) < 4294967296" "0 \<le> uint a"
  using uint_lt2p[of a] by simp_all

lemma add_u64:
  fixes a b :: u32 and c :: bool
  defines "r \<equiv> (ucast a :: u64) + ucast b + (if c then 1 else 0)"
  shows "uint r = uint a + uint b + (if c then 1 else 0)"
proof -
  note l = uint_u32_less[of a] uint_u32_less[of b]
  have "uint a mod 18446744073709551616 = uint a" "uint b mod 18446744073709551616 = uint b"
    "(uint a + uint b) mod 18446744073709551616 = uint a + uint b"
    "(uint a + uint b + 1) mod 18446744073709551616 = uint a + uint b + 1"
    by (rule mod_pos_pos_trivial; use l in linarith)+
  then show ?thesis by (simp add: r_def uint_word_ariths unsigned_ucast_eq take_bit_eq_mod)
qed

lemma sub_u64:
  fixes a b :: u32 and c :: bool
  defines "r \<equiv> (ucast a :: u64) - ucast b - (if c then 0 else 1)"
  shows "uint r = (uint a - uint b - (if c then 0 else 1)) mod 18446744073709551616"
  by (simp add: r_def uint_word_ariths unsigned_ucast_eq take_bit_eq_mod mod_simps)

lemma uint_low: "uint (ucast (r :: u64) :: u32) = uint r mod 4294967296"
  by (simp add: unsigned_ucast_eq take_bit_eq_mod)

lemma carry_word: "(r :: u64) > 0xffffffff \<longleftrightarrow> 4294967296 \<le> uint r" "(r :: u64) < 0x100000000 \<longleftrightarrow> uint r < 4294967296"
  by (auto simp: word_less_def)

text \<open>The results of the four arithmetic operations and the carry they leave.\<close>

lemma alu_add:
  assumes "op = Add \<and> c = False \<or> op = AddWithCarry \<and> c = mi_carry_flag s" "GetALUResult op a b s = (r, s')"
  shows "uint r = (uint a + uint b + of_bool c) mod 4294967296" "mi_carry_flag s' \<longleftrightarrow> 4294967296 \<le> uint a + uint b + of_bool c"
  using assms add_u64[of a b c]
  by (auto simp: GetALUResult_def Let_def uint_low carry_word split: if_splits)

lemma alu_sub:
  assumes "op = Subtract \<and> c = True \<or> op = SubtractWithBorrow \<and> c = mi_carry_flag s" "GetALUResult op a b s = (r, s')"
  shows "uint r = (uint a - uint b - of_bool (\<not> c)) mod 4294967296" "mi_carry_flag s' \<longleftrightarrow> 0 \<le> uint a - uint b - of_bool (\<not> c)"
proof -
  define d where "d = uint a - uint b - of_bool (\<not> c)"
  have "(of_bool (\<not> c) :: int) = 0 \<or> (of_bool (\<not> c) :: int) = 1" by simp
  then have bounds: "-4294967296 \<le> d" "d < 4294967296"
    using uint_u32_less[of a] uint_u32_less[of b] unfolding d_def by linarith+
  define w where "w = (ucast a :: u64) - ucast b - (if c then 0 else 1)"
  have u: "uint w = d mod 18446744073709551616" using sub_u64[of a b c] by (auto simp: w_def d_def)
  have e: "r = ucast w" "mi_carry_flag s' \<longleftrightarrow> w < 0x100000000"
    using assms by (auto simp: GetALUResult_def Let_def w_def)
  have "(4294967296 :: int) dvd 18446744073709551616" by (rule dvdI[of _ _ 4294967296]) simp
  then have "uint w mod 4294967296 = d mod 4294967296" unfolding u by (rule mod_mod_cancel)
  then show "uint r = (uint a - uint b - of_bool (\<not> c)) mod 4294967296" by (simp add: e(1) uint_low d_def)
  have "d mod 18446744073709551616 = (if 0 \<le> d then d else d + 18446744073709551616)"
  proof (cases "0 \<le> d")
    case False
    have "d mod 18446744073709551616 = (d + 18446744073709551616) mod 18446744073709551616" by simp
    also have "\<dots> = d + 18446744073709551616" using False bounds by (intro mod_pos_pos_trivial) auto
    finally show ?thesis using False by simp
  qed (use bounds in simp)
  then show "mi_carry_flag s' \<longleftrightarrow> 0 \<le> uint a - uint b - of_bool (\<not> c)"
    using bounds by (auto simp: e(2) carry_word u d_def[symmetric])
qed

text \<open>Two halves of a number, with the carry between them: \<open>e\<close> is the carry (or borrow) out of the low half.\<close>

lemma halves:
  fixes h l e :: int
  assumes "0 \<le> l + e * 4294967296" "l + e * 4294967296 < 4294967296"
  shows "(h - e) mod 4294967296 * 4294967296 + l mod 4294967296 = (h * 4294967296 + l) mod 18446744073709551616"
    "l mod 4294967296 = l + e * 4294967296"
proof -
  have "l mod 4294967296 = (l + e * 4294967296) mod 4294967296" by simp
  also have "\<dots> = l + e * 4294967296" using assms by (rule mod_pos_pos_trivial)
  finally show l: "l mod 4294967296 = l + e * 4294967296" .
  let ?q = "(h - e) div 4294967296" and ?r = "(h - e) mod 4294967296"
  have r: "0 \<le> ?r" "?r < 4294967296" by simp_all
  have "h - e = ?q * 4294967296 + ?r" by simp
  then have "h * 4294967296 + l = ?q * 18446744073709551616 + (?r * 4294967296 + (l + e * 4294967296))" by linarith
  moreover have "0 \<le> ?r * 4294967296 + (l + e * 4294967296)" "?r * 4294967296 + (l + e * 4294967296) < 18446744073709551616"
    using r assms by linarith+
  ultimately have "(h * 4294967296 + l) mod 18446744073709551616 = ?r * 4294967296 + (l + e * 4294967296)"
    by (simp only: mod_mult_self3 mod_pos_pos_trivial)
  then show "(h - e) mod 4294967296 * 4294967296 + l mod 4294967296 = (h * 4294967296 + l) mod 18446744073709551616" using l by simp
qed

lemma carry_out:
  fixes h l e :: int
  assumes "0 \<le> l + e * 4294967296" "l + e * 4294967296 < 4294967296"
  shows "4294967296 \<le> h - e \<longleftrightarrow> 18446744073709551616 \<le> h * 4294967296 + l" "0 \<le> h - e \<longleftrightarrow> 0 \<le> h * 4294967296 + l"
proof -
  have "4294967296 \<le> h - e \<Longrightarrow> 18446744073709551616 \<le> h * 4294967296 + l" using assms by linarith
  moreover have "18446744073709551616 \<le> h * 4294967296 + l \<Longrightarrow> 4294967296 \<le> h - e" using assms by linarith
  ultimately show "4294967296 \<le> h - e \<longleftrightarrow> 18446744073709551616 \<le> h * 4294967296 + l" by blast
  have "0 \<le> h - e \<Longrightarrow> 0 \<le> h * 4294967296 + l" using assms by linarith
  moreover have "0 \<le> h * 4294967296 + l \<Longrightarrow> 0 \<le> h - e" using assms by linarith
  ultimately show "0 \<le> h - e \<longleftrightarrow> 0 \<le> h * 4294967296 + l" by blast
qed

text \<open>C37: adding two 64-bit numbers held in register pairs with \<open>Add\<close> and \<open>AddWithCarry\<close>, and
  subtracting them with \<open>Subtract\<close> and \<open>SubtractWithBorrow\<close>, gives the 64-bit result modulo \<open>2 ^ 64\<close>; the
  carry left is the carry out of the sum, or that the difference did not borrow.\<close>

theorem macro_64bit_arithmetic:
  fixes ah al bh bl :: u32 and s :: "'e macro"
  shows "let A = uint ah * 4294967296 + uint al; B = uint bh * 4294967296 + uint bl in
    (case GetALUResult Add al bl s of (rl, s1) \<Rightarrow> case GetALUResult AddWithCarry ah bh s1 of (rh, s2) \<Rightarrow>
      uint rh * 4294967296 + uint rl = (A + B) mod 18446744073709551616 \<and>
      (mi_carry_flag s2 \<longleftrightarrow> 18446744073709551616 \<le> A + B)) \<and>
    (case GetALUResult Subtract al bl s of (rl, s1) \<Rightarrow> case GetALUResult SubtractWithBorrow ah bh s1 of (rh, s2) \<Rightarrow>
      uint rh * 4294967296 + uint rl = (A - B) mod 18446744073709551616 \<and> (mi_carry_flag s2 \<longleftrightarrow> B \<le> A))"
proof -
  define A where "A = uint ah * 4294967296 + uint al"
  define B where "B = uint bh * 4294967296 + uint bl"
  obtain rl s1 rh s2 where a: "GetALUResult Add al bl s = (rl, s1)" "GetALUResult AddWithCarry ah bh s1 = (rh, s2)" by (metis surj_pair)
  obtain dl t1 dh t2 where d: "GetALUResult Subtract al bl s = (dl, t1)" "GetALUResult SubtractWithBorrow ah bh t1 = (dh, t2)" by (metis surj_pair)
  define c where "c = (of_bool (mi_carry_flag s1) :: int)"
  define e where "e = (of_bool (\<not> mi_carry_flag t1) :: int)"
  have sum: "uint rl = (uint al + uint bl) mod 4294967296" "c = of_bool (4294967296 \<le> uint al + uint bl)"
    "uint rh = (uint ah + uint bh + c) mod 4294967296" "mi_carry_flag s2 \<longleftrightarrow> 4294967296 \<le> uint ah + uint bh + c"
    using alu_add[OF _ a(1), of False] alu_add[OF _ a(2), of "mi_carry_flag s1"] by (simp_all add: c_def)
  have diff: "uint dl = (uint al - uint bl) mod 4294967296" "e = of_bool (uint al - uint bl < 0)"
    "uint dh = (uint ah - uint bh - e) mod 4294967296" "mi_carry_flag t2 \<longleftrightarrow> 0 \<le> uint ah - uint bh - e"
    using alu_sub[OF _ d(1), of True] alu_sub[OF _ d(2), of "mi_carry_flag t1"] by (simp_all add: e_def not_le)
  note b = uint_u32_less[of ah] uint_u32_less[of "al"] uint_u32_less[of bh] uint_u32_less[of bl]
  have lo: "0 \<le> uint al + uint bl + (- c) * 4294967296" "uint al + uint bl + (- c) * 4294967296 < 4294967296"
    using b sum(2) by (cases "4294967296 \<le> uint al + uint bl"; simp only: of_bool_eq; linarith)+
  have ld: "0 \<le> uint al - uint bl + e * 4294967296" "uint al - uint bl + e * 4294967296 < 4294967296"
    using b diff(2) by (cases "uint al - uint bl < 0"; simp only: of_bool_eq; linarith)+
  have S: "A + B = (uint ah + uint bh) * 4294967296 + (uint al + uint bl)" and
    D: "A - B = (uint ah - uint bh) * 4294967296 + (uint al - uint bl)" by (simp_all add: A_def B_def algebra_simps)
  have "uint rh * 4294967296 + uint rl = (A + B) mod 18446744073709551616"
    using halves(1)[OF lo, of "uint ah + uint bh"] by (simp add: S sum(1,3))
  moreover have "mi_carry_flag s2 \<longleftrightarrow> 18446744073709551616 \<le> A + B" using carry_out(1)[OF lo, of "uint ah + uint bh"] by (simp add: S sum(4))
  moreover have "uint dh * 4294967296 + uint dl = (A - B) mod 18446744073709551616"
    using halves(1)[OF ld, of "uint ah - uint bh"] by (simp add: D diff(1,3))
  moreover have "mi_carry_flag t2 \<longleftrightarrow> 0 \<le> A - B" using carry_out(2)[OF ld, of "uint ah - uint bh"] by (simp only: D diff(4))
  ultimately show ?thesis unfolding Let_def A_def[symmetric] B_def[symmetric] using a d by simp
qed

section \<open>Registers\<close>

definition regs_ok :: "'e macro \<Rightarrow> bool" where
  "regs_ok s \<longleftrightarrow> length (mi_registers s) = NUM_MACRO_REGISTERS \<and> mi_registers s ! 0 = 0"

text \<open>What computing an instruction leaves alone, and that it moves at most one parameter on.\<close>

definition follows :: "'e macro \<Rightarrow> 'e macro \<Rightarrow> bool" where
  "follows s s' \<longleftrightarrow> mi_pc s' = mi_pc s \<and> mi_delayed_pc s' = mi_delayed_pc s \<and> mi_parameters s' = mi_parameters s \<and>
     (mi_next_parameter_index s' = mi_next_parameter_index s \<or> mi_next_parameter_index s' = mi_next_parameter_index s + 1)"

lemma SetRegister_ok:
  assumes "regs_ok s" "SetRegister r v s = Some s'"
  shows "regs_ok s'" "\<exists>rs. s' = s\<lparr>mi_registers := rs\<rparr>"
proof -
  show "\<exists>rs. s' = s\<lparr>mi_registers := rs\<rparr>" using assms(2)
    by (auto simp: SetRegister_def split: if_splits intro: exI[of _ "mi_registers s"])
  show "regs_ok s'" using assms
    by (auto simp: SetRegister_def regs_ok_def nth_list_update unat_eq_zero split: if_splits)
qed

lemma SetRegister_some: "regs_ok s \<Longrightarrow> unat r < 8 \<Longrightarrow> \<exists>s'. SetRegister r v s = Some s'"
  by (simp add: SetRegister_def regs_ok_def NUM_MACRO_REGISTERS_def)

lemma ProcessResult_ok:
  assumes "regs_ok s" "ProcessResult gpu op r v s = Some s'"
  shows "regs_ok s' \<and> follows s s'"
proof -
  have f: "regs_ok t \<and> mi_parameters t = mi_parameters s \<and> mi_pc t = mi_pc s \<and> mi_delayed_pc t = mi_delayed_pc s \<and>
      mi_next_parameter_index t = mi_next_parameter_index s + 1" if "FetchParameter s = Some (x, t)" for x t
    using that assms(1) by (auto simp: FetchParameter_def Let_def regs_ok_def split: if_splits)
  have k: "regs_ok (SetMethodAddress a t) = regs_ok t" "regs_ok (Send gpu a t) = regs_ok t" for a t
    by (simp_all add: SetMethodAddress_def Send_def Let_def regs_ok_def)
  have fs: "regs_ok t2 \<and> follows s t2" if "FetchParameter s = Some (x, t1)" "SetRegister r x t1 = Some t2" for x t1 t2
    using f[OF that(1)] SetRegister_ok[of t1 r x t2] that(2) by (auto simp: follows_def)
  have ms: "regs_ok t \<and> follows s t \<and> mi_next_parameter_index t = mi_next_parameter_index s" if "SetRegister r x s = Some t" for x t
    using SetRegister_ok[OF assms(1) that] by (auto simp: follows_def)
  have fl: "follows s (SetMethodAddress a t) = follows s t" "follows s (Send gpu a t) = follows s t" for a t
    by (simp_all add: SetMethodAddress_def Send_def Let_def follows_def)
  have mf: "regs_ok t2 \<and> follows s t2"
    if "SetRegister r x s = Some t" "FetchParameter (SetMethodAddress a t) = Some (y, t2)" for x y a t t2
    using ms[OF that(1)] that(2) by (auto simp: FetchParameter_def Let_def SetMethodAddress_def regs_ok_def follows_def split: if_splits)
  show ?thesis using assms(2) fs ms mf k fl
    by (cases op) (auto simp: ProcessResult_def split: bind_splits)
qed

lemma GetALUResult_ok: "GetALUResult op a b s = (r, s') \<Longrightarrow> \<exists>c. s' = s\<lparr>mi_carry_flag := c\<rparr>"
  by (auto simp: GetALUResult_def Let_def split: ALUOperation.splits intro: exI[of _ "mi_carry_flag s"])

lemma regs_ok_carry [simp]: "regs_ok (s\<lparr>mi_carry_flag := c\<rparr>) = regs_ok s" "regs_ok (s\<lparr>mi_pc := p\<rparr>) = regs_ok s"
  "regs_ok (s\<lparr>mi_delayed_pc := d\<rparr>) = regs_ok s"
  by (simp_all add: regs_ok_def)

lemma compute_ok:
  assumes "regs_ok s" "compute gpu w s = Some s'"
  shows "regs_ok s' \<and> follows s s'"
proof -
  obtain a b where ab: "GetRegister (op_src_a w) s = Some a" "GetRegister (op_src_b w) s = Some b"
    using assms(2) by (auto simp: compute_def split: bind_splits)
  have same: "regs_ok s \<and> follows s s" using assms(1) by (simp add: follows_def)
  have c: "regs_ok s' \<and> follows s s'" if "ProcessResult gpu op r v (s\<lparr>mi_carry_flag := x\<rparr>) = Some s'" for op r v x
    using ProcessResult_ok[OF _ that] assms(1) by (simp add: follows_def)
  have alu: "regs_ok s' \<and> follows s s'"
    if "(case GetALUResult op a b s of (v, t) \<Rightarrow> ProcessResult gpu rop r v t) = Some s'" for op rop r
    using that c GetALUResult_ok[of op a b s] by (cases "GetALUResult op a b s") auto
  show ?thesis using assms(2) ab same alu ProcessResult_ok[OF assms(1)]
    by (cases "op_operation w") (auto simp: compute_def split: bind_splits)
qed

lemma regs_ok_advance: "regs_ok (advance s) = regs_ok s"
  by (simp add: advance_def regs_ok_def split: option.split)

lemma Step_regs:
  assumes "Step gpu code d s = Some r" "regs_ok s"
  shows "regs_ok (snd r)"
proof -
  have "regs_ok s \<longrightarrow> regs_ok (snd r)"
  proof (rule Step.raw_induct[of "\<lambda>gpu code d s r. regs_ok s \<longrightarrow> regs_ok (snd r)", OF _ assms(1)], rule impI)
    fix f gpu code d s r
    assume IH: "\<And>gpu code d s r. f gpu code d s = Some r \<Longrightarrow> regs_ok s \<longrightarrow> regs_ok (snd r)"
      and step: "do {
         w \<leftarrow> GetOpcode code s;
         let base_address = mi_pc s;
         let s1 = advance s;
         taken \<leftarrow> branch_taken w s1;
         if taken then
           if op_branch_annul w then Some (True, s1\<lparr>mi_pc := base_address + GetBranchTarget w\<rparr>)
           else f gpu code True (s1\<lparr>mi_delayed_pc := Some (base_address + GetBranchTarget w)\<rparr>)
         else do {
           s2 \<leftarrow> compute gpu w s1;
           if op_is_exit w \<and> \<not> d then do { (keep, s3) \<leftarrow> f gpu code True s2; Some (False, s3) } else Some (True, s2)
         }
       } = Some r"
      and s: "regs_ok s"
    have s1: "regs_ok (advance s)" using s by (simp add: regs_ok_advance)
    obtain w taken where w: "GetOpcode code s = Some w" "branch_taken w (advance s) = Some taken"
      using step by (auto simp: Let_def split: bind_splits)
    show "regs_ok (snd r)"
    proof (cases taken)
      case True
      then show ?thesis using step w s1 IH[of gpu code True] by (auto simp: Let_def split: if_splits)
    next
      case False
      then obtain s2 where s2: "compute gpu w (advance s) = Some s2" using step w by (auto simp: Let_def split: bind_splits)
      have "regs_ok s2" using compute_ok[OF s1 s2] by simp
      then show ?thesis using step w s2 False IH[of gpu code True s2] by (auto simp: Let_def split: if_splits bind_splits)
    qed
  qed
  then show ?thesis using assms(2) by blast
qed

lemma run_macro_regs:
  assumes "run_macro gpu code s = Some r" "regs_ok s"
  shows "regs_ok r"
proof -
  have "regs_ok s \<longrightarrow> regs_ok r"
  proof (rule run_macro.raw_induct[of "\<lambda>gpu code s r. regs_ok s \<longrightarrow> regs_ok r", OF _ assms(1)], rule impI)
    fix f gpu code s r
    assume IH: "\<And>gpu code s r. f gpu code s = Some r \<Longrightarrow> regs_ok s \<longrightarrow> regs_ok r"
      and step: "Step gpu code False s \<bind> (\<lambda>(keep, s1). if keep then f gpu code s1 else Some s1) = Some r"
      and s: "regs_ok s"
    obtain keep s1 where k: "Step gpu code False s = Some (keep, s1)" using step by (auto split: bind_splits)
    have "regs_ok s1" using Step_regs[OF k s] by simp
    then show "regs_ok r" using step k IH[of gpu code s1 r] by (auto split: if_splits)
  qed
  then show ?thesis using assms(2) by blast
qed

definition macro_start :: "u32 list \<Rightarrow> 'e macro \<Rightarrow> 'e macro" where
  "macro_start params s = load_parameters params ((Reset s)\<lparr>mi_registers := (mi_registers (Reset s))[1 := hd params]\<rparr>)"

lemma Macro_Execute_start: "params \<noteq> [] \<Longrightarrow> Macro_Execute gpu code params s = run_macro gpu code (macro_start params s)"
  by (cases params) (simp_all add: Macro_Execute_def macro_start_def Let_def)

lemma macro_start_ok: "regs_ok (macro_start params s)" "mi_pc (macro_start params s) = 0" "mi_delayed_pc (macro_start params s) = None"
  "length params \<le> length (mi_parameters (macro_start params s))" "mi_next_parameter_index (macro_start params s) = 1"
  by (simp_all add: macro_start_def Reset_def load_parameters_def regs_ok_def NUM_MACRO_REGISTERS_def)

text \<open>C36: whatever macro is executed, with whatever parameters and engine, if it ends it ends with eight
  registers of which the first is zero.\<close>

theorem macro_registers_typed:
  assumes "Macro_Execute gpu code params s = Some s'"
  shows "length (mi_registers s') = 8 \<and> mi_registers s' ! 0 = 0 \<and> params \<noteq> []"
proof -
  have p: "params \<noteq> []" using assms by (auto simp: Macro_Execute_def)
  then have "run_macro gpu code (macro_start params s) = Some s'" using assms Macro_Execute_start by metis
  from run_macro_regs[OF this macro_start_ok(1)] show ?thesis using p by (simp add: regs_ok_def NUM_MACRO_REGISTERS_def)
qed

section \<open>Straight-line macros\<close>

text \<open>The reference: one instruction after the other.\<close>

primrec exec_all :: "'e Maxwell3D \<Rightarrow> Opcode list \<Rightarrow> 'e macro \<Rightarrow> 'e macro option" where
  "exec_all gpu [] s = Some s"
| "exec_all gpu (w # ws) s = compute gpu w (s\<lparr>mi_pc := mi_pc s + 4\<rparr>) \<bind> exec_all gpu ws"

lemma Step_plain:
  assumes "mi_pc s = word_of_nat (4 * n)" "4 * n < 4294967296" "n < length code" "mi_delayed_pc s = None" "op_operation (code ! n) \<noteq> Branch"
  shows "Step gpu code d s = compute gpu (code ! n) (s\<lparr>mi_pc := mi_pc s + 4\<rparr>) \<bind> (\<lambda>s2.
    if op_is_exit (code ! n) \<and> \<not> d then Step gpu code True s2 \<bind> (\<lambda>(keep, s3). Some (False, s3)) else Some (True, s2))"
proof -
  have "unat (mi_pc s) = 4 * n" unfolding assms(1) unsigned_of_nat using assms(2) by (simp add: take_bit_nat_eq_self)
  then have "GetOpcode code s = Some (code ! n)" using assms(3) by (simp add: GetOpcode_def Let_def)
  then show ?thesis using assms(4,5) by (subst Step.simps) (simp add: advance_def branch_taken_def Let_def)
qed

lemma run_straight:
  assumes "code = pre @ front @ w # d # rest" "4 * length code < 4294967296" "regs_ok s" "mi_delayed_pc s = None"
    "mi_pc s = word_of_nat (4 * length pre)" "\<forall>x\<in>set front. op_operation x \<noteq> Branch \<and> \<not> op_is_exit x"
    "op_operation w \<noteq> Branch" "op_is_exit w" "op_operation d \<noteq> Branch"
  shows "run_macro gpu code s = exec_all gpu (front @ [w, d]) s"
  using assms
proof (induction front arbitrary: pre s)
  case Nil
  have code: "code ! length pre = w" "code ! Suc (length pre) = d" "Suc (length pre) < length code" using Nil.prems(1) by (simp_all add: nth_append)
  have e: "Step gpu code False s = compute gpu w (s\<lparr>mi_pc := mi_pc s + 4\<rparr>) \<bind> (\<lambda>s2.
      Step gpu code True s2 \<bind> (\<lambda>(keep, s3). Some (False, s3)))"
    using Step_plain[OF Nil.prems(5), of code gpu False] Nil.prems code by simp
  show ?case
  proof (cases "compute gpu w (s\<lparr>mi_pc := mi_pc s + 4\<rparr>)")
    case None
    then show ?thesis using e by (subst run_macro.simps) simp
  next
    case (Some s2)
    have s2: "regs_ok s2" "follows (s\<lparr>mi_pc := mi_pc s + 4\<rparr>) s2" using compute_ok[OF _ Some] Nil.prems(3) by simp_all
    have pc: "mi_pc s2 = word_of_nat (4 * Suc (length pre))" "mi_delayed_pc s2 = None"
      using s2(2) Nil.prems(4,5) by (simp_all add: follows_def add.commute)
    have d: "Step gpu code True s2 = compute gpu d (s2\<lparr>mi_pc := mi_pc s2 + 4\<rparr>) \<bind> (\<lambda>s3. Some (True, s3))"
      using Step_plain[OF pc(1), of code gpu True] Nil.prems(2,9) code pc(2) by simp
    show ?thesis using e Some d by (subst run_macro.simps) (cases "compute gpu d (s2\<lparr>mi_pc := mi_pc s2 + 4\<rparr>)"; simp)
  qed
next
  case (Cons x front)
  have code: "code ! length pre = x" "length pre < length code" using Cons.prems(1) by (simp_all add: nth_append)
  have x: "op_operation x \<noteq> Branch" "\<not> op_is_exit x" using Cons.prems(6) by simp_all
  have e: "Step gpu code False s = compute gpu x (s\<lparr>mi_pc := mi_pc s + 4\<rparr>) \<bind> (\<lambda>s2. Some (True, s2))"
    using Step_plain[OF Cons.prems(5), of code gpu False] Cons.prems(2,4) code x by simp
  show ?case
  proof (cases "compute gpu x (s\<lparr>mi_pc := mi_pc s + 4\<rparr>)")
    case None
    then show ?thesis using e by (subst run_macro.simps) simp
  next
    case (Some s2)
    have s2: "regs_ok s2" "follows (s\<lparr>mi_pc := mi_pc s + 4\<rparr>) s2" using compute_ok[OF _ Some] Cons.prems(3) by simp_all
    have pc: "mi_pc s2 = word_of_nat (4 * length (pre @ [x]))" "mi_delayed_pc s2 = None"
      using s2(2) Cons.prems(4,5) by (simp_all add: follows_def add.commute)
    have "run_macro gpu code s2 = exec_all gpu (front @ [w, d]) s2"
      by (rule Cons.IH[OF _ Cons.prems(2) s2(1) pc(2,1)]) (use Cons.prems in simp_all)
    then show ?thesis using e Some by (subst run_macro.simps) simp
  qed
qed

text \<open>Instructions whose shift amounts are immediate are always defined while parameters last.\<close>

lemma ProcessResult_some:
  assumes "regs_ok s" "unat r < 8" "unat (mi_next_parameter_index s) < length (mi_parameters s)"
  shows "\<exists>s'. ProcessResult gpu op r v s = Some s'"
proof -
  have set: "\<exists>t'. SetRegister r x t = Some t'" if "regs_ok t" for x and t :: "'a macro" using SetRegister_some[OF that assms(2)] .
  obtain p t where p: "FetchParameter s = Some (p, t)" "regs_ok t"
    using assms(1,3) by (auto simp: FetchParameter_def Let_def regs_ok_def)
  obtain t1 where t1: "SetRegister r p t = Some t1" using set[OF p(2)] by blast
  obtain s1 where s1: "SetRegister r v s = Some s1" using set[OF assms(1)] by blast
  have "\<exists>p2 t2. FetchParameter (SetMethodAddress v s1) = Some (p2, t2)"
    using SetRegister_ok(2)[OF assms(1) s1] assms(3) by (auto simp: FetchParameter_def Let_def SetMethodAddress_def)
  then show ?thesis using p(1) t1 s1 by (cases op) (auto simp: ProcessResult_def)
qed

definition register_shift :: "Opcode \<Rightarrow> bool" where
  "register_shift w \<longleftrightarrow> op_operation w = ExtractShiftLeftImmediate \<or> op_operation w = ExtractShiftLeftRegister"

lemma compute_some:
  assumes "regs_ok s" "\<not> register_shift w" "unat (mi_next_parameter_index s) < length (mi_parameters s)"
  shows "\<exists>s'. compute gpu w s = Some s'"
proof -
  have r: "unat (op_src_a w) < 8" "unat (op_src_b w) < 8" "unat (op_dst w) < 8"
    using BitField_ExtractValue_less[of 11 3 w] BitField_ExtractValue_less[of 14 3 w] BitField_ExtractValue_less[of 8 3 w]
    by (simp_all add: op_src_a_def op_src_b_def op_dst_def)
  obtain a b where ab: "GetRegister (op_src_a w) s = Some a" "GetRegister (op_src_b w) s = Some b"
    using assms(1) r by (simp add: GetRegister_def regs_ok_def NUM_MACRO_REGISTERS_def)
  note pr = ProcessResult_some[OF _ r(3), of _ gpu]
  obtain v t where v: "GetALUResult (op_alu_operation w) a b s = (v, t)" by fastforce
  then obtain c where "t = s\<lparr>mi_carry_flag := c\<rparr>" using GetALUResult_ok by blast
  then have "\<exists>s'. ProcessResult gpu op (op_dst w) v t = Some s'" for op using pr[of t op v] assms(1,3) by simp
  then show ?thesis using ab v pr[of s] assms(1,3)
    by (cases "op_operation w") (use assms(2) in \<open>auto simp: compute_def register_shift_def Let_def\<close>)
qed

lemma exec_all_some:
  assumes "regs_ok s" "\<forall>w\<in>set ws. \<not> register_shift w" "unat (mi_next_parameter_index s) + length ws \<le> length (mi_parameters s)"
    "length (mi_parameters s) < 4294967296"
  shows "\<exists>s'. exec_all gpu ws s = Some s'"
  using assms
proof (induction ws arbitrary: s)
  case (Cons w ws)
  let ?s = "s\<lparr>mi_pc := mi_pc s + 4\<rparr>"
  obtain s2 where s2: "compute gpu w ?s = Some s2" using compute_some[of ?s w gpu] Cons.prems by auto
  have ok: "regs_ok s2" "follows ?s s2" using compute_ok[OF _ s2] Cons.prems(1) by simp_all
  have "unat (mi_next_parameter_index s2) \<le> Suc (unat (mi_next_parameter_index s))"
    using ok(2) by (auto simp: follows_def unat_word_ariths mod_Suc_le_divisor split: if_splits)
  then have "\<exists>s'. exec_all gpu ws s2 = Some s'" using Cons.IH[OF ok(1)] Cons.prems ok(2) by (auto simp: follows_def)
  then show ?case using s2 by simp
qed simp

text \<open>C30: a macro without branches runs its instructions in order up to and including the one behind
  its exit, and nothing else; it ends whenever none of them shifts by a register and there is a
  parameter for each.\<close>

theorem straight_line_macro:
  assumes "code = front @ w # d # rest" "length code < 1073741824" "params \<noteq> []"
    and "\<forall>x\<in>set front. op_operation x \<noteq> Branch \<and> \<not> op_is_exit x"
    and "op_operation w \<noteq> Branch" "op_is_exit w" "op_operation d \<noteq> Branch"
  shows "Macro_Execute gpu code params s = exec_all gpu (front @ [w, d]) (macro_start params s) \<and>
    ((\<forall>x\<in>set (front @ [w, d]). \<not> register_shift x) \<and> length front + 2 < length params \<and>
       length (mi_parameters (macro_start params s)) < 4294967296 \<longrightarrow>
     (\<exists>s'. Macro_Execute gpu code params s = Some s'))"
proof -
  note st = macro_start_ok[of params s]
  have "run_macro gpu code (macro_start params s) = exec_all gpu (front @ [w, d]) (macro_start params s)"
    by (rule run_straight[of code "[]" front w d rest]) (use assms st in simp_all)
  then have e: "Macro_Execute gpu code params s = exec_all gpu (front @ [w, d]) (macro_start params s)"
    using Macro_Execute_start[OF assms(3), of gpu code s] by simp
  moreover have "\<exists>s'. exec_all gpu (front @ [w, d]) (macro_start params s) = Some s'"
    if "\<forall>x\<in>set (front @ [w, d]). \<not> register_shift x" "length front + 2 < length params"
      "length (mi_parameters (macro_start params s)) < 4294967296"
    by (rule exec_all_some[OF st(1) that(1) _ that(3)]) (use st(4,5) that(2) in simp)
  ultimately show ?thesis by auto
qed

text \<open>\<open>$r2 := $r1 + 5\<close>, then \<open>exit $r3 := $r1 + $r2\<close> with an empty delay slot, on the parameter 7.\<close>

definition sample_macro :: "u32 list" where
  "sample_macro = [0x14A11, 0x8B90, 6]"

definition idle_macro :: "unit macro" where
  "idle_macro = \<lparr>mi_pc = 0, mi_delayed_pc = None, mi_registers = [], mi_method_address = 0, mi_parameters = [],
     mi_num_parameters = 0, mi_next_parameter_index = 0, mi_carry_flag = False, mi_engine = ()\<rparr>"

definition sample_gpu :: "unit Maxwell3D" where
  "sample_gpu = \<lparr>CallMethod = \<lambda>m v e. e, GetRegisterValue = \<lambda>m e. 0\<rparr>"

lemma sample_exec:
  "map_option mi_registers (exec_all sample_gpu [0x14A11, 0x8B90, 6] (macro_start [7] idle_macro)) = Some [0, 7, 12, 19, 0, 0, 0, 0]"
  by code_simp

theorem straight_line_macro_witness:
  "map_option mi_registers (Macro_Execute sample_gpu sample_macro [7] idle_macro) = Some [0, 7, 12, 19, 0, 0, 0, 0]"
proof -
  have d: "op_operation 0x14A11 \<noteq> Branch" "\<not> op_is_exit 0x14A11" "op_operation 0x8B90 \<noteq> Branch" "op_is_exit 0x8B90"
    "op_operation 6 \<noteq> Branch" by code_simp+
  have "Macro_Execute sample_gpu sample_macro [7] idle_macro = exec_all sample_gpu ([0x14A11] @ [0x8B90, 6]) (macro_start [7] idle_macro)"
    using straight_line_macro[of sample_macro "[0x14A11]" "0x8B90" 6 "[]" "[7]" sample_gpu idle_macro] d
    by (simp add: sample_macro_def)
  then show ?thesis using sample_exec by simp
qed

theorem macro_registers_typed_witness:
  "\<exists>s'. Macro_Execute sample_gpu sample_macro [7] idle_macro = Some s' \<and> length (mi_registers s') = 8 \<and> mi_registers s' ! 0 = 0"
proof -
  have e: "exec_all sample_gpu [0x14A11, 0x8B90, 6] (macro_start [7] idle_macro) \<noteq> None" using sample_exec by auto
  have d: "op_operation 0x14A11 \<noteq> Branch" "\<not> op_is_exit 0x14A11" "op_operation 0x8B90 \<noteq> Branch" "op_is_exit 0x8B90"
    "op_operation 6 \<noteq> Branch" by code_simp+
  have "run_macro sample_gpu sample_macro (macro_start [7] idle_macro) = exec_all sample_gpu ([0x14A11] @ [0x8B90, 6]) (macro_start [7] idle_macro)"
    by (rule run_straight[of sample_macro "[]" "[0x14A11]" "0x8B90" 6 "[]"]) (use d macro_start_ok[of "[7]" idle_macro] in \<open>simp_all add: sample_macro_def\<close>)
  then obtain s' where "Macro_Execute sample_gpu sample_macro [7] idle_macro = Some s'" using e Macro_Execute_start[of "[7]" sample_gpu sample_macro idle_macro] by auto
  then show ?thesis using macro_registers_typed by blast
qed

end
