(* ===== verification/Macro_Engine.thy ===== *)
theory Macro_Engine
  imports Macro_Interpreter "HOL-Library.AList"
begin

text \<open>
  \<open>MacroEngine\<close> (\<open>src/video_core/macro/macro.cpp\<close>): uploading macro code, compiling a macro when it is
  first called and executing it, with the interpreter of \<open>Macro_Interpreter\<close> as the compiler. The uploaded
  code is an association list, in the order in which the hash table iterates over it. A compiled macro
  refers to the uploaded code of its method, so it sees words uploaded later. Hashing, the built-in
  replacements of known macros and re-reading the parameters from memory are parameters. Dumping macros
  to files and the x64 compiler are not modelled.
\<close>

section \<open>The engine\<close>

record 'e MacroHost =
  mh_gpu :: "'e Maxwell3D"
  mh_hash :: "u32 list \<Rightarrow> u64"
  mh_GetHLEProgram :: "u64 \<Rightarrow> (u32 list \<Rightarrow> u32 \<Rightarrow> 'e \<Rightarrow> 'e) option"
  mh_RefreshParameters :: "u32 list \<Rightarrow> 'e \<Rightarrow> u32 list \<times> 'e"
  mh_disable_macro_hle :: bool

record 'e CacheInfo =
  ci_lle_program :: "'e macro"
  ci_hash :: u64
  ci_has_hle_program :: bool

record 'e MacroEngine =
  me_macro_cache :: "u32 \<rightharpoonup> 'e CacheInfo"
  me_uploaded_macro_code :: "(u32 \<times> u32 list) list"

definition MacroEngine_new :: "'e MacroEngine" where
  "MacroEngine_new = \<lparr>me_macro_cache = Map.empty, me_uploaded_macro_code = []\<rparr>"

definition AddCode :: "u32 \<Rightarrow> u32 \<Rightarrow> 'e MacroEngine \<Rightarrow> 'e MacroEngine" where
  "AddCode m data me =
     (let old = (case map_of (me_uploaded_macro_code me) m of None \<Rightarrow> [] | Some c \<Rightarrow> c)
      in me\<lparr>me_uploaded_macro_code := AList.update m (old @ [data]) (me_uploaded_macro_code me)\<rparr>)"

definition ClearCode :: "u32 \<Rightarrow> 'e MacroEngine \<Rightarrow> 'e MacroEngine" where
  "ClearCode m me = me\<lparr>me_macro_cache := (me_macro_cache me)(m := None),
     me_uploaded_macro_code := AList.delete m (me_uploaded_macro_code me)\<rparr>"

definition Compile :: "'e \<Rightarrow> 'e macro" where
  "Compile e = \<lparr>mi_pc = 0, mi_delayed_pc = None, mi_registers = replicate NUM_MACRO_REGISTERS 0, mi_method_address = 0,
     mi_parameters = [], mi_num_parameters = 0, mi_next_parameter_index = 0, mi_carry_flag = False, mi_engine = e\<rparr>"

text \<open>Running the interpreted program of a cache entry, and its replacement.\<close>

definition execute_lle :: "'e MacroHost \<Rightarrow> u32 \<Rightarrow> u32 list \<Rightarrow> 'e MacroEngine \<times> 'e \<Rightarrow> ('e MacroEngine \<times> 'e) option" where
  "execute_lle host m parameters st =
     (case st of (me, e) \<Rightarrow>
        case (me_macro_cache me m, map_of (me_uploaded_macro_code me) m, mh_RefreshParameters host parameters e) of
          (Some ci, Some code, (params, e1)) \<Rightarrow>
            map_option (\<lambda>p. (me\<lparr>me_macro_cache := (me_macro_cache me)(m \<mapsto> ci\<lparr>ci_lle_program := p\<rparr>)\<rparr>, mi_engine p))
              (Macro_Execute (mh_gpu host) code params ((ci_lle_program ci)\<lparr>mi_engine := e1\<rparr>))
        | _ \<Rightarrow> None)"

definition execute_hle :: "'e MacroHost \<Rightarrow> u64 \<Rightarrow> u32 \<Rightarrow> u32 list \<Rightarrow> 'e MacroEngine \<times> 'e \<Rightarrow> ('e MacroEngine \<times> 'e) option" where
  "execute_hle host hash m parameters st =
     map_option (\<lambda>program. (fst st, program parameters m (snd st))) (mh_GetHLEProgram host hash)"

definition contains_method :: "u32 \<Rightarrow> u32 \<times> u32 list \<Rightarrow> bool" where
  "contains_method m bc \<longleftrightarrow> fst bc \<le> m \<and> unat (m - fst bc) < length (snd bc)"

text \<open>The code of a method: its own, or the rest of a macro it lies inside, which becomes its own.\<close>

definition find_code :: "u32 \<Rightarrow> 'e MacroEngine \<Rightarrow> (u32 list \<times> 'e MacroEngine) option" where
  "find_code m me =
     (case map_of (me_uploaded_macro_code me) m of
        Some code \<Rightarrow> Some (code, me)
      | None \<Rightarrow>
          (case find (contains_method m) (me_uploaded_macro_code me) of
             None \<Rightarrow> None
           | Some (mid_method, macro_cached) \<Rightarrow>
               let code = drop (unat (m - mid_method)) macro_cached
               in Some (code, me\<lparr>me_uploaded_macro_code := AList.update m code (me_uploaded_macro_code me)\<rparr>)))"

definition MacroEngine_Execute ::
  "'e MacroHost \<Rightarrow> u32 \<Rightarrow> u32 list \<Rightarrow> 'e MacroEngine \<times> 'e \<Rightarrow> ('e MacroEngine \<times> 'e) option" where
  "MacroEngine_Execute host m parameters st =
     (case st of (me, e) \<Rightarrow>
        case me_macro_cache me m of
          Some ci \<Rightarrow> if ci_has_hle_program ci then execute_hle host (ci_hash ci) m parameters st
                     else execute_lle host m parameters st
        | None \<Rightarrow>
            (case find_code m me of
               None \<Rightarrow> Some st
             | Some (code, me1) \<Rightarrow>
                 let hash = mh_hash host code;
                     use_hle = (mh_GetHLEProgram host hash \<noteq> None \<and> \<not> mh_disable_macro_hle host);
                     ci = \<lparr>ci_lle_program = Compile e, ci_hash = hash, ci_has_hle_program = use_hle\<rparr>;
                     me2 = me1\<lparr>me_macro_cache := (me_macro_cache me1)(m \<mapsto> ci)\<rparr>
                 in if use_hle then execute_hle host hash m parameters (me2, e)
                    else execute_lle host m parameters (me2, e)))"

text \<open>The calls a guest makes to upload a macro through the \<open>load_mme\<close> registers: it is cleared, then its words are added.\<close>

definition UploadCode :: "u32 \<Rightarrow> u32 list \<Rightarrow> 'e MacroEngine \<Rightarrow> 'e MacroEngine" where
  "UploadCode m words me = fold (AddCode m) words (ClearCode m me)"

section \<open>Uploading and executing\<close>

lemma AddCode_map: "map_of (me_uploaded_macro_code (AddCode m w me)) =
    (map_of (me_uploaded_macro_code me))(m \<mapsto> (case map_of (me_uploaded_macro_code me) m of None \<Rightarrow> [] | Some c \<Rightarrow> c) @ [w])"
  "me_macro_cache (AddCode m w me) = me_macro_cache me"
  by (simp_all add: AddCode_def Let_def update_conv')

lemma fold_AddCode:
  "words \<noteq> [] \<Longrightarrow> map_of (me_uploaded_macro_code (fold (AddCode m) words me)) =
    (map_of (me_uploaded_macro_code me))(m \<mapsto> (case map_of (me_uploaded_macro_code me) m of None \<Rightarrow> [] | Some c \<Rightarrow> c) @ words)"
  "me_macro_cache (fold (AddCode m) words me) = me_macro_cache me"
proof (induction words arbitrary: me)
  case (Cons w ws)
  { case 1
    show ?case
    proof (cases "ws = []")
      case True
      then show ?thesis by (simp add: AddCode_map)
    next
      case False
      show ?thesis using Cons.IH(1)[OF False, of "AddCode m w me"] by (auto simp: AddCode_map fun_eq_iff)
    qed
  next
    case 2
    show ?case using Cons.IH(2)[of "AddCode m w me"] by (simp add: AddCode_map)
  }
qed simp_all

lemma uploaded:
  assumes "words \<noteq> []"
  shows "map_of (me_uploaded_macro_code (UploadCode m words me)) m = Some words" "me_macro_cache (UploadCode m words me) m = None"
    "x \<noteq> m \<Longrightarrow> map_of (me_uploaded_macro_code (UploadCode m words me)) x = map_of (me_uploaded_macro_code me) x"
    "x \<noteq> m \<Longrightarrow> me_macro_cache (UploadCode m words me) x = me_macro_cache me x"
proof -
  have c: "map_of (me_uploaded_macro_code (ClearCode m me)) = (map_of (me_uploaded_macro_code me))(m := None)"
    "me_macro_cache (ClearCode m me) = (me_macro_cache me)(m := None)" by (simp_all add: ClearCode_def delete_conv')
  note f = fold_AddCode(1)[OF assms, of m "ClearCode m me"] fold_AddCode(2)[of m words "ClearCode m me"]
  show "map_of (me_uploaded_macro_code (UploadCode m words me)) m = Some words" "me_macro_cache (UploadCode m words me) m = None"
    "x \<noteq> m \<Longrightarrow> map_of (me_uploaded_macro_code (UploadCode m words me)) x = map_of (me_uploaded_macro_code me) x"
    "x \<noteq> m \<Longrightarrow> me_macro_cache (UploadCode m words me) x = me_macro_cache me x"
    by (simp_all add: UploadCode_def f c)
qed

text \<open>What a call does when the method has code and when it has been compiled.\<close>

definition no_replacement :: "'e MacroHost \<Rightarrow> u32 list \<Rightarrow> bool" where
  "no_replacement host code \<longleftrightarrow> mh_GetHLEProgram host (mh_hash host code) = None \<or> mh_disable_macro_hle host"

lemma execute_compiled:
  assumes "me_macro_cache me m = Some ci" "\<not> ci_has_hle_program ci" "map_of (me_uploaded_macro_code me) m = Some code"
    and "mh_RefreshParameters host params e = (p, e1)"
  shows "MacroEngine_Execute host m params (me, e) =
    map_option (\<lambda>q. (me\<lparr>me_macro_cache := (me_macro_cache me)(m \<mapsto> ci\<lparr>ci_lle_program := q\<rparr>)\<rparr>, mi_engine q))
      (Macro_Execute (mh_gpu host) code p ((ci_lle_program ci)\<lparr>mi_engine := e1\<rparr>))"
  using assms by (simp add: MacroEngine_Execute_def execute_lle_def)

lemma execute_first:
  assumes "me_macro_cache me m = None" "find_code m me = Some (code, me1)" "no_replacement host code"
    and "mh_RefreshParameters host params e = (p, e1)"
  shows "MacroEngine_Execute host m params (me, e) =
    map_option (\<lambda>q. (me1\<lparr>me_macro_cache := (me_macro_cache me1)(m \<mapsto>
        \<lparr>ci_lle_program = q, ci_hash = mh_hash host code, ci_has_hle_program = False\<rparr>)\<rparr>, mi_engine q))
      (Macro_Execute (mh_gpu host) code p (Compile e1))"
proof -
  have "map_of (me_uploaded_macro_code me1) m = Some code"
    using assms(2) by (auto simp: find_code_def Let_def update_conv' split: option.splits)
  then show ?thesis using assms
    by (auto simp: MacroEngine_Execute_def Let_def execute_lle_def no_replacement_def Compile_def)
qed

lemma execute_first_replaced:
  assumes "me_macro_cache me m = None" "find_code m me = Some (code, me1)" "\<not> mh_disable_macro_hle host"
    and "mh_GetHLEProgram host (mh_hash host code) = Some program"
  shows "map_option snd (MacroEngine_Execute host m params (me, e)) = Some (program params m e)"
  using assms by (simp add: MacroEngine_Execute_def Let_def execute_hle_def)

text \<open>C31: after a macro has been uploaded, whatever the engine held before, calling its method runs the built-in replacement for
  the hash of the uploaded words, with the given parameters, if there is one and replacements are not disabled; otherwise it
  runs exactly the uploaded words from the first one, on a cleared interpreter and with the parameters re-read.\<close>

theorem macro_upload_execute:
  assumes "words \<noteq> []" "mh_RefreshParameters host params e = (p, e1)"
  shows "map_option snd (MacroEngine_Execute host m params (UploadCode m words me, e)) =
    (case mh_GetHLEProgram host (mh_hash host words) of
       Some program \<Rightarrow> if mh_disable_macro_hle host then map_option mi_engine (Macro_Execute (mh_gpu host) words p (Compile e1))
         else Some (program params m e)
     | None \<Rightarrow> map_option mi_engine (Macro_Execute (mh_gpu host) words p (Compile e1)))"
proof -
  note u = uploaded(1,2)[OF assms(1), of m me]
  have f: "find_code m (UploadCode m words me) = Some (words, UploadCode m words me)" using u(1) by (simp add: find_code_def)
  have "map_option snd (MacroEngine_Execute host m params (UploadCode m words me, e)) =
      map_option mi_engine (Macro_Execute (mh_gpu host) words p (Compile e1))" if "no_replacement host words"
    using execute_first[OF u(2) f that assms(2)] by (simp add: option.map_comp comp_def)
  then show ?thesis using execute_first_replaced[OF u(2) f] by (auto simp: no_replacement_def split: option.split)
qed

text \<open>a method inside an uploaded macro keeps the code it was first called with: uploading the
  macro anew does not change what a later call of that method runs.\<close>

theorem mid_method_keeps_old_code:
  assumes "me_macro_cache me m = None" "map_of (me_uploaded_macro_code me) m = None"
    and "find (contains_method m) (me_uploaded_macro_code me) = Some (base, old)"
    and "no_replacement host (drop (unat (m - base)) old)"
    and "MacroEngine_Execute host m params (me, e) = Some (me', e')" "words \<noteq> []"
    and "mh_RefreshParameters host params2 e2 = (p, e3)"
  shows "\<exists>prev. map_option snd (MacroEngine_Execute host m params2 (UploadCode base words me', e2)) =
    map_option mi_engine (Macro_Execute (mh_gpu host) (drop (unat (m - base)) old) p (prev\<lparr>mi_engine := e3\<rparr>))"
proof -
  let ?code = "drop (unat (m - base)) old"
  obtain q eq where r: "mh_RefreshParameters host params e = (q, eq)" by fastforce
  have "(base, old) \<in> set (me_uploaded_macro_code me)" using assms(3) by (auto simp: find_Some_iff)
  then have ne: "m \<noteq> base" using assms(2) by (force simp: map_of_eq_None_iff)
  define me1 where "me1 = me\<lparr>me_uploaded_macro_code := AList.update m ?code (me_uploaded_macro_code me)\<rparr>"
  have "find_code m me = Some (?code, me1)" using assms(2,3) by (simp add: find_code_def me1_def Let_def)
  from execute_first[OF assms(1) this assms(4) r] have "map_option (\<lambda>q. (me1\<lparr>me_macro_cache := (me_macro_cache me1)(m \<mapsto>
      \<lparr>ci_lle_program = q, ci_hash = mh_hash host ?code, ci_has_hle_program = False\<rparr>)\<rparr>, mi_engine q))
      (Macro_Execute (mh_gpu host) ?code q (Compile eq)) = Some (me', e')" using assms(5) by simp
  then
  obtain prog where me': "me' = me1\<lparr>me_macro_cache := (me_macro_cache me1)(m \<mapsto>
      \<lparr>ci_lle_program = prog, ci_hash = mh_hash host ?code, ci_has_hle_program = False\<rparr>)\<rparr>" unfolding map_option_eq_Some by blast
  have "map_of (me_uploaded_macro_code me') m = Some ?code" by (simp add: me' me1_def update_conv')
  moreover have "me_macro_cache me' m = Some \<lparr>ci_lle_program = prog, ci_hash = mh_hash host ?code, ci_has_hle_program = False\<rparr>"
    by (simp add: me')
  ultimately have "map_of (me_uploaded_macro_code (UploadCode base words me')) m = Some ?code"
    "me_macro_cache (UploadCode base words me') m = Some \<lparr>ci_lle_program = prog, ci_hash = mh_hash host ?code, ci_has_hle_program = False\<rparr>"
    using uploaded(3,4)[OF assms(6) ne, of me'] by simp_all
  from execute_compiled[OF this(2) _ this(1) assms(7)] show ?thesis by (auto simp: option.map_comp comp_def)
qed

text \<open>A host with an engine that records the last value sent, and the macro that sends \<open>$r1 + 5\<close>.\<close>

definition sample_host :: "u32 MacroHost" where
  "sample_host = \<lparr>mh_gpu = \<lparr>CallMethod = \<lambda>m v e. v, GetRegisterValue = \<lambda>m e. e\<rparr>, mh_hash = \<lambda>code. 0,
     mh_GetHLEProgram = \<lambda>h. None, mh_RefreshParameters = \<lambda>ps e. (ps, e), mh_disable_macro_hle = False\<rparr>"

definition send_macro :: "u32 list" where
  "send_macro = [0x14AC1, 6]"

lemma send_macro_decode:
  "op_operation 0x14AC1 = AddImmediate" "op_is_exit 0x14AC1" "op_src_a 0x14AC1 = 1" "unat (op_src_b 0x14AC1) = 5"
  "op_dst 0x14AC1 = 2" "op_immediate 0x14AC1 = 5" "op_result_operation 0x14AC1 = MoveAndSend"
  "op_operation 6 = Unused_Operation" "unat (op_src_a 6) = 0" "unat (op_src_b 6) = 0"
  by code_simp+

lemma send_macro_runs: "map_option mi_engine (Macro_Execute (mh_gpu sample_host) send_macro [7] s) = Some 12"
proof -
  have "Macro_Execute (mh_gpu sample_host) send_macro [7] s = exec_all (mh_gpu sample_host) [0x14AC1, 6] (macro_start [7] s)"
    using run_straight[of send_macro "[]" "[]" "0x14AC1" 6 "[]" "macro_start [7] s" "mh_gpu sample_host"] send_macro_decode
      macro_start_ok[of "[7]" s] Macro_Execute_start[of "[7]" "mh_gpu sample_host" send_macro s]
    by (simp add: send_macro_def)
  also have "map_option mi_engine \<dots> = Some 12"
    by (simp add: compute_def send_macro_decode GetRegister_def macro_start_def Reset_def load_parameters_def NUM_MACRO_REGISTERS_def
        ProcessResult_def SetRegister_def Send_def Let_def sample_host_def)
  finally show ?thesis .
qed

theorem macro_upload_execute_witness:
  "map_option snd (MacroEngine_Execute sample_host 0 [7] (UploadCode 0 send_macro MacroEngine_new, 0)) = Some 12"
  using macro_upload_execute[of send_macro sample_host "[7]" 0 "[7]" 0 0 MacroEngine_new] send_macro_runs
  by (simp add: send_macro_def sample_host_def)

text \<open>Method 1 lies inside the macro at 0; after both words of that macro are replaced it still sends 12.\<close>

theorem mid_method_keeps_old_code_witness:
  "\<exists>me' e'. MacroEngine_Execute sample_host 1 [7] (UploadCode 0 (6 # send_macro) MacroEngine_new, 0) = Some (me', e') \<and>
    map_option snd (MacroEngine_Execute sample_host 1 [7] (UploadCode 0 [6, 6] me', 0)) = Some 12"
proof -
  let ?me = "UploadCode 0 (6 # send_macro) MacroEngine_new :: u32 MacroEngine"
  have me: "?me = \<lparr>me_macro_cache = Map.empty, me_uploaded_macro_code = [(0, 6 # send_macro)]\<rparr>"
    by (simp add: UploadCode_def ClearCode_def MacroEngine_new_def AddCode_def send_macro_def)
  have find: "find (contains_method 1) (me_uploaded_macro_code ?me) = Some (0, 6 # send_macro)"
    unfolding me by (simp add: contains_method_def send_macro_def)
  have start: "me_macro_cache ?me 1 = None" "map_of (me_uploaded_macro_code ?me) 1 = None" by (simp_all add: me)
  have none: "no_replacement sample_host c" and refresh: "mh_RefreshParameters sample_host ps x = (ps, x)" for c ps x
    by (simp_all add: no_replacement_def sample_host_def)
  define me1 where "me1 = ?me\<lparr>me_uploaded_macro_code := AList.update 1 send_macro (me_uploaded_macro_code ?me)\<rparr>"
  have drop1: "drop (unat (1 - 0 :: u32)) (6 # send_macro) = send_macro" by simp
  have "find_code 1 ?me = Some (send_macro, me1)" unfolding find_code_def start find me1_def Let_def by (simp only: option.case prod.case drop1)
  from execute_first[OF start(1) this none refresh] send_macro_runs
  obtain me' e' where run: "MacroEngine_Execute sample_host 1 [7] (?me, 0) = Some (me', e')" by fastforce
  have "map_option snd (MacroEngine_Execute sample_host 1 [7] (UploadCode 0 [6, 6] me', 0)) = Some 12"
    using mid_method_keeps_old_code[OF start find none run _ refresh[of "[7]" 0], of "[6, 6]"] send_macro_runs unfolding drop1
    by (metis list.distinct(1))
  with run show ?thesis by blast
qed

end
