(* ===== verification/K_Page_Group.thy ===== *)
theory K_Page_Group
  imports K_Dynamic_Slab_Heap "HOL-Library.Monad_Syntax"
begin

text \<open>
  \<open>KBlockInfo\<close> and \<open>KPageGroup\<close> (\<open>src/core/hle/kernel/k_page_group.h\<close> and \<open>.cpp\<close>): lists of physical
  page ranges. The singly linked list of blocks is the list of its nodes in order; a node is the address
  of the block object, which the block info manager handed out, together with the block. Page index and
  page count are 32 bits wide. Opening and closing the references of a group is in \<open>K_Memory_Manager\<close>.
\<close>

section \<open>Blocks\<close>

definition two32 :: nat where
  "two32 = 4294967296"

record KBlockInfo =
  bi_page_index :: nat
  bi_num_pages :: nat

definition BlockInfo_Initialize :: "nat \<Rightarrow> nat \<Rightarrow> KBlockInfo" where
  "BlockInfo_Initialize addr np =
     \<lparr>bi_page_index = addr div PageSize mod two32, bi_num_pages = np mod two32\<rparr>"

definition BlockInfo_GetAddress :: "KBlockInfo \<Rightarrow> nat" where
  "BlockInfo_GetAddress b = bi_page_index b * PageSize"

definition BlockInfo_GetNumPages :: "KBlockInfo \<Rightarrow> nat" where
  "BlockInfo_GetNumPages b = bi_num_pages b"

definition BlockInfo_GetSize :: "KBlockInfo \<Rightarrow> nat" where
  "BlockInfo_GetSize b = BlockInfo_GetNumPages b * PageSize"

definition BlockInfo_GetEndAddress :: "KBlockInfo \<Rightarrow> nat" where
  "BlockInfo_GetEndAddress b = (bi_page_index b + bi_num_pages b) mod two32 * PageSize"

definition BlockInfo_GetLastAddress :: "KBlockInfo \<Rightarrow> nat" where
  "BlockInfo_GetLastAddress b = sub64 (BlockInfo_GetEndAddress b) 1"

definition BlockInfo_IsEquivalentTo :: "KBlockInfo \<Rightarrow> KBlockInfo \<Rightarrow> bool" where
  "BlockInfo_IsEquivalentTo b rhs \<longleftrightarrow>
     bi_page_index b = bi_page_index rhs \<and> bi_num_pages b = bi_num_pages rhs"

definition IsStrictlyBefore :: "KBlockInfo \<Rightarrow> nat \<Rightarrow> bool" where
  "IsStrictlyBefore b addr \<longleftrightarrow>
     (let end_addr = BlockInfo_GetEndAddress b
      in \<not> (bi_page_index b \<noteq> 0 \<and> end_addr = 0) \<and> end_addr < addr)"

definition TryConcatenate :: "nat \<Rightarrow> nat \<Rightarrow> KBlockInfo \<Rightarrow> KBlockInfo option" where
  "TryConcatenate addr np b =
     (if addr \<noteq> 0 \<and> addr = BlockInfo_GetEndAddress b
      then Some (b\<lparr>bi_num_pages := (bi_num_pages b + np mod two32) mod two32\<rparr>) else None)"

section \<open>Groups\<close>

type_synonym KPageGroup = "(nat \<times> KBlockInfo) list"

definition PageGroup_GetNumPages :: "KPageGroup \<Rightarrow> nat" where
  "PageGroup_GetNumPages pg = fold (\<lambda>n total. add64 total (BlockInfo_GetNumPages (snd n))) pg 0"

definition AddBlock ::
  "nat \<Rightarrow> nat \<Rightarrow> KPageGroup \<Rightarrow> KDynamicResourceManager \<Rightarrow> Result \<times> KPageGroup \<times> KDynamicResourceManager" where
  "AddBlock addr num_pages pg manager =
     (if num_pages = 0 then (ResultSuccess, pg, manager)
      else
        case (if pg = [] then None else TryConcatenate addr num_pages (snd (last pg))) of
          Some b \<Rightarrow> (ResultSuccess, butlast pg @ [(fst (last pg), b)], manager)
        | None \<Rightarrow>
            (case ResourceManager_Allocate manager of
               (None, manager') \<Rightarrow> (ResultOutOfResource, pg, manager')
             | (Some p, manager') \<Rightarrow> (ResultSuccess, pg @ [(p, BlockInfo_Initialize addr num_pages)], manager')))"

definition PageGroup_Finalize :: "KPageGroup \<Rightarrow> KDynamicResourceManager \<Rightarrow> KDynamicResourceManager" where
  "PageGroup_Finalize pg manager = fold (\<lambda>n. ResourceManager_Free (fst n)) pg manager"

fun PageGroup_IsEquivalentTo :: "KPageGroup \<Rightarrow> KPageGroup \<Rightarrow> bool" where
  "PageGroup_IsEquivalentTo (l # ls) (r # rs) \<longleftrightarrow>
     BlockInfo_IsEquivalentTo (snd l) (snd r) \<and> PageGroup_IsEquivalentTo ls rs"
| "PageGroup_IsEquivalentTo ls rs \<longleftrightarrow> ls = [] \<and> rs = []"

section \<open>The pages of a group\<close>

definition range_pages :: "nat \<Rightarrow> nat \<Rightarrow> nat list" where
  "range_pages addr np = map (\<lambda>i. addr + i * PageSize) [0 ..< np]"

definition block_pages :: "KBlockInfo \<Rightarrow> nat list" where
  "block_pages b = range_pages (BlockInfo_GetAddress b) (BlockInfo_GetNumPages b)"

definition group_pages :: "KPageGroup \<Rightarrow> nat list" where
  "group_pages pg = concat (map (block_pages \<circ> snd) pg)"

text \<open>Blocks that hold what they were made from: the range ends inside the 44 bits a block can express.\<close>

definition block_fits :: "KBlockInfo \<Rightarrow> bool" where
  "block_fits b \<longleftrightarrow> 0 < bi_num_pages b \<and> bi_page_index b + bi_num_pages b < two32"

definition group_fits :: "KPageGroup \<Rightarrow> bool" where
  "group_fits pg \<longleftrightarrow> (\<forall>n\<in>set pg. block_fits (snd n))"

lemma range_pages_simps [simp]: "range_pages a 0 = []" "length (range_pages a n) = n"
  by (simp_all add: range_pages_def)

lemma range_pages_append: "range_pages a n @ range_pages (a + n * PageSize) k = range_pages a (n + k)"
proof -
  have "map (\<lambda>i. a + n * PageSize + i * PageSize) [0 ..< k] = map (\<lambda>i. a + i * PageSize) [n ..< n + k]"
    by (rule nth_equalityI) (simp_all add: algebra_simps)
  then show ?thesis unfolding range_pages_def upt_add_eq_append[of 0 n k, simplified] by simp
qed

lemma range_pages_Suc: "range_pages a (Suc n) = a # range_pages (a + PageSize) n"
proof -
  have "range_pages a 1 = [a]" by (simp add: range_pages_def)
  then show ?thesis using range_pages_append[of a 1 n] by simp
qed

lemma group_pages_append [simp]: "group_pages (xs @ ys) = group_pages xs @ group_pages ys"
  by (simp add: group_pages_def)

lemma group_pages_simps [simp]: "group_pages [] = []" "group_pages (n # pg) = block_pages (snd n) @ group_pages pg"
  by (simp_all add: group_pages_def)

lemma group_fits_simps [simp]:
  "group_fits []" "group_fits (n # pg) \<longleftrightarrow> block_fits (snd n) \<and> group_fits pg"
  "group_fits (xs @ ys) \<longleftrightarrow> group_fits xs \<and> group_fits ys"
  by (auto simp: group_fits_def)

lemma BlockInfo_Initialize_fits:
  assumes "PageSize dvd addr" "addr + np * PageSize < two32 * PageSize" "0 < np"
  shows "block_fits (BlockInfo_Initialize addr np)" "BlockInfo_GetAddress (BlockInfo_Initialize addr np) = addr"
    "BlockInfo_GetNumPages (BlockInfo_Initialize addr np) = np"
proof -
  obtain k where k: "addr = k * PageSize" using assms(1) by (metis dvdE mult.commute)
  with assms(2) have "(k + np) * PageSize < two32 * PageSize" by (simp add: algebra_simps)
  then have "k + np < two32" by simp
  then show "block_fits (BlockInfo_Initialize addr np)" "BlockInfo_GetAddress (BlockInfo_Initialize addr np) = addr"
    "BlockInfo_GetNumPages (BlockInfo_Initialize addr np) = np" using assms(3) k
    by (simp_all add: BlockInfo_Initialize_def block_fits_def BlockInfo_GetAddress_def BlockInfo_GetNumPages_def)
qed

lemma TryConcatenate_fits:
  assumes "TryConcatenate addr np b = Some b'" "block_fits b" "addr + np * PageSize < two32 * PageSize"
  shows "block_fits b'" "block_pages b' = block_pages b @ range_pages addr np"
proof -
  have a: "addr = (bi_page_index b + bi_num_pages b) * PageSize"
    using assms(1,2) by (auto simp: TryConcatenate_def BlockInfo_GetEndAddress_def block_fits_def split: if_splits)
  with assms(3) have "(bi_page_index b + bi_num_pages b + np) * PageSize < two32 * PageSize" by (simp add: algebra_simps)
  then have lt: "bi_page_index b + bi_num_pages b + np < two32" by simp
  then have b': "b' = b\<lparr>bi_num_pages := bi_num_pages b + np\<rparr>"
    using assms(1) by (auto simp: TryConcatenate_def split: if_splits)
  then show "block_fits b'" using lt assms(2) by (simp add: block_fits_def)
  show "block_pages b' = block_pages b @ range_pages addr np"
    using range_pages_append[of "BlockInfo_GetAddress b" "bi_num_pages b" np] a
    by (simp add: b' block_pages_def BlockInfo_GetAddress_def BlockInfo_GetNumPages_def algebra_simps)
qed

text \<open>A block is added completely or not at all.\<close>

lemma AddBlock_pages:
  assumes "AddBlock addr np pg bm = (r, pg', bm')" "group_fits pg" "PageSize dvd addr" "addr + np * PageSize < two32 * PageSize"
  shows "group_fits pg'" "r = ResultSuccess \<Longrightarrow> group_pages pg' = group_pages pg @ range_pages addr np"
    "r \<noteq> ResultSuccess \<Longrightarrow> r = ResultOutOfResource \<and> pg' = pg \<and> 0 < np"
proof -
  have "group_fits pg' \<and> (r = ResultSuccess \<longrightarrow> group_pages pg' = group_pages pg @ range_pages addr np) \<and>
    (r \<noteq> ResultSuccess \<longrightarrow> r = ResultOutOfResource \<and> pg' = pg \<and> 0 < np)"
  proof (cases "np = 0")
    case True
    then show ?thesis using assms by (simp add: AddBlock_def)
  next
    case False
    show ?thesis
    proof (cases "if pg = [] then None else TryConcatenate addr np (snd (last pg))")
      case None
      then show ?thesis
        using assms False BlockInfo_Initialize_fits[OF assms(3,4)]
        by (auto simp: AddBlock_def block_pages_def split: prod.splits option.splits)
    next
      case (Some b)
      then have ne: "pg \<noteq> []" and t: "TryConcatenate addr np (snd (last pg)) = Some b" by (auto split: if_splits)
      obtain xs n where pg: "pg = xs @ [n]" using ne by (metis rev_exhaust)
      have e: "r = ResultSuccess" "pg' = xs @ [(fst n, b)]"
        using assms(1) False Some pg by (auto simp: AddBlock_def)
      then show ?thesis using TryConcatenate_fits[OF t _ assms(4)] assms(2) pg by simp
    qed
  qed
  then show "group_fits pg'" "r = ResultSuccess \<Longrightarrow> group_pages pg' = group_pages pg @ range_pages addr np"
    "r \<noteq> ResultSuccess \<Longrightarrow> r = ResultOutOfResource \<and> pg' = pg \<and> 0 < np" by auto
qed

end
