(* ===== verification/K_Memory_Manager.thy ===== *)
theory K_Memory_Manager
  imports K_Page_Group K_Page_Heap
begin

text \<open>
  \<open>KMemoryManager\<close> (\<open>src/core/hle/kernel/k_memory_manager.h\<close> and \<open>.cpp\<close>): the physical memory of the
  system, divided into managers that own one page heap and one reference count per page each. The managers
  of a pool are linked in a list. Which manager owns an address is looked up in the memory layout, which is
  built at boot and is a field of the state here. Accesses beyond the reference counts, an address of no
  manager and a loop that never ends are \<open>None\<close>; the locks of the pools and the contents of pages are not
  modelled, and neither is the optimized memory of a process, which the source does not implement.
\<close>

section \<open>Managers\<close>

datatype Pool = Application | Applet | System_Pool | SystemNonSecure

definition Pool_value :: "Pool \<Rightarrow> u32" where
  "Pool_value p = (case p of Application \<Rightarrow> 0 | Applet \<Rightarrow> 1 | System_Pool \<Rightarrow> 2 | SystemNonSecure \<Rightarrow> 3)"

datatype Direction = FromFront | FromBack

definition Direction_value :: "Direction \<Rightarrow> u32" where
  "Direction_value d = (case d of FromFront \<Rightarrow> 0 | FromBack \<Rightarrow> 1)"

definition EncodeOption :: "Pool \<Rightarrow> Direction \<Rightarrow> u32" where
  "EncodeOption pool dir = push_bit 4 (Pool_value pool) OR push_bit 0 (Direction_value dir)"

text \<open>Values that name no pool index past the end of the arrays; a direction other than \<open>FromBack\<close> goes forward.\<close>

definition GetPool :: "u32 \<Rightarrow> Pool option" where
  "GetPool option' =
     (let v = drop_bit 4 (option' AND 0xF0)
      in if v = 0 then Some Application else if v = 1 then Some Applet else if v = 2 then Some System_Pool
         else if v = 3 then Some SystemNonSecure else None)"

definition GetDirection :: "u32 \<Rightarrow> Direction" where
  "GetDirection option' = (if drop_bit 0 (option' AND 0xF) = 1 then FromBack else FromFront)"

record MemoryManagerImpl =
  mi_heap :: KPageHeap
  mi_page_reference_counts :: "u16 list"
  mi_pool :: Pool

definition Impl_Free :: "nat \<Rightarrow> nat \<Rightarrow> MemoryManagerImpl \<Rightarrow> MemoryManagerImpl option" where
  "Impl_Free addr num_pages im =
     map_option (\<lambda>h. im\<lparr>mi_heap := h\<rparr>) (PageHeap_Free addr num_pages (mi_heap im))"

definition Impl_AllocateBlock :: "nat \<Rightarrow> bool \<Rightarrow> MemoryManagerImpl \<Rightarrow> (nat \<times> MemoryManagerImpl) option" where
  "Impl_AllocateBlock index random im =
     map_option (\<lambda>(a, h). (a, im\<lparr>mi_heap := h\<rparr>)) (AllocateBlock index random (mi_heap im))"

definition Impl_AllocateAligned :: "nat \<Rightarrow> nat \<Rightarrow> nat \<Rightarrow> MemoryManagerImpl \<Rightarrow> (nat \<times> MemoryManagerImpl) option" where
  "Impl_AllocateAligned index num_pages align_pages im =
     map_option (\<lambda>(a, h). (a, im\<lparr>mi_heap := h\<rparr>)) (AllocateAligned index num_pages align_pages (mi_heap im))"

definition Impl_GetEndAddress :: "MemoryManagerImpl \<Rightarrow> nat" where
  "Impl_GetEndAddress im = PageHeap_GetEndAddress (mi_heap im)"

definition Impl_GetFreeSize :: "MemoryManagerImpl \<Rightarrow> nat" where
  "Impl_GetFreeSize im = PageHeap_GetFreeSize (mi_heap im)"

definition Impl_GetPageOffset :: "MemoryManagerImpl \<Rightarrow> nat \<Rightarrow> nat" where
  "Impl_GetPageOffset im address = GetPageOffset (mi_heap im) address"

definition Impl_GetPageOffsetToEnd :: "MemoryManagerImpl \<Rightarrow> nat \<Rightarrow> nat" where
  "Impl_GetPageOffsetToEnd im address = GetPageOffsetToEnd (mi_heap im) address"

text \<open>The first argument of the loops counts the iterations up to \<open>end\<close>.\<close>

fun open_refs :: "nat \<Rightarrow> nat \<Rightarrow> u16 list \<Rightarrow> u16 list option" where
  "open_refs 0 index refs = Some refs"
| "open_refs (Suc n) index refs =
     (if index < length refs then open_refs n (Suc index) (refs[index := refs ! index + 1]) else None)"

definition Impl_OpenFirst :: "nat \<Rightarrow> nat \<Rightarrow> MemoryManagerImpl \<Rightarrow> MemoryManagerImpl option" where
  "Impl_OpenFirst address num_pages im =
     (let index = Impl_GetPageOffset im address; end_index = add64 index num_pages
      in map_option (\<lambda>refs. im\<lparr>mi_page_reference_counts := refs\<rparr>)
           (open_refs (end_index - index) index (mi_page_reference_counts im)))"

text \<open>\<open>Open\<close> differs from \<open>OpenFirst\<close> only in the count it asserts.\<close>

definition Impl_Open :: "nat \<Rightarrow> nat \<Rightarrow> MemoryManagerImpl \<Rightarrow> MemoryManagerImpl option" where
  "Impl_Open address num_pages im =
     (let index = Impl_GetPageOffset im address; end_index = add64 index num_pages
      in map_option (\<lambda>refs. im\<lparr>mi_page_reference_counts := refs\<rparr>)
           (open_refs (end_index - index) index (mi_page_reference_counts im)))"

definition free_counted :: "nat \<Rightarrow> nat \<Rightarrow> MemoryManagerImpl \<Rightarrow> MemoryManagerImpl option" where
  "free_counted free_start free_count im =
     (if free_count > 0
      then Impl_Free (add64 (h_heap_address (mi_heap im)) (mul64 free_start PageSize)) free_count im
      else Some im)"

fun close_refs :: "nat \<Rightarrow> nat \<Rightarrow> nat \<Rightarrow> nat \<Rightarrow> MemoryManagerImpl \<Rightarrow> MemoryManagerImpl option" where
  "close_refs 0 index free_start free_count im = free_counted free_start free_count im"
| "close_refs (Suc n) index free_start free_count im =
     (if index < length (mi_page_reference_counts im) then
        let ref_count = mi_page_reference_counts im ! index - 1;
            im1 = im\<lparr>mi_page_reference_counts := (mi_page_reference_counts im)[index := ref_count]\<rparr>
        in if ref_count = 0 then
             if free_count > 0 then close_refs n (Suc index) free_start (Suc free_count) im1
             else close_refs n (Suc index) index 1 im1
           else do {
             im2 \<leftarrow> free_counted free_start free_count im1;
             close_refs n (Suc index) free_start 0 im2
           }
      else None)"

definition Impl_Close :: "nat \<Rightarrow> nat \<Rightarrow> MemoryManagerImpl \<Rightarrow> MemoryManagerImpl option" where
  "Impl_Close address num_pages im =
     (let index = Impl_GetPageOffset im address; end_index = add64 index num_pages
      in close_refs (end_index - index) index 0 0 im)"

section \<open>The memory manager\<close>

record KMemoryManager =
  mm_managers :: "MemoryManagerImpl list"
  mm_pool_managers :: "Pool \<Rightarrow> nat list"
  mm_region_attributes :: "nat \<Rightarrow> nat"

definition GetManager :: "KMemoryManager \<Rightarrow> nat \<Rightarrow> nat option" where
  "GetManager mm address =
     (let i = mm_region_attributes mm address in if i < length (mm_managers mm) then Some i else None)"

text \<open>The managers that \<open>GetFirstManager\<close> and \<open>GetNextManager\<close> run through.\<close>

definition managers_of :: "KMemoryManager \<Rightarrow> Pool \<Rightarrow> Direction \<Rightarrow> nat list" where
  "managers_of mm pool dir =
     (case dir of FromFront \<Rightarrow> mm_pool_managers mm pool | FromBack \<Rightarrow> rev (mm_pool_managers mm pool))"

definition with_manager ::
  "nat \<Rightarrow> (MemoryManagerImpl \<Rightarrow> ('a \<times> MemoryManagerImpl) option) \<Rightarrow> KMemoryManager \<Rightarrow> ('a \<times> KMemoryManager) option" where
  "with_manager i f mm =
     (if i < length (mm_managers mm)
      then map_option (\<lambda>(x, im). (x, mm\<lparr>mm_managers := (mm_managers mm)[i := im]\<rparr>)) (f (mm_managers mm ! i))
      else None)"

text \<open>The loops of \<open>Open\<close>, \<open>OpenFirst\<close> and \<open>Close\<close>, which differ in what they do to each manager.\<close>

partial_function (option) each_manager ::
  "(nat \<Rightarrow> nat \<Rightarrow> MemoryManagerImpl \<Rightarrow> MemoryManagerImpl option) \<Rightarrow> nat \<Rightarrow> nat \<Rightarrow> KMemoryManager \<Rightarrow> KMemoryManager option" where
  "each_manager f address num_pages mm =
     (if num_pages = 0 then Some mm
      else do {
        i \<leftarrow> GetManager mm address;
        let cur_pages = min num_pages (Impl_GetPageOffsetToEnd (mm_managers mm ! i) address);
        im \<leftarrow> f address cur_pages (mm_managers mm ! i);
        each_manager f (add64 address (mul64 cur_pages PageSize)) (num_pages - cur_pages)
          (mm\<lparr>mm_managers := (mm_managers mm)[i := im]\<rparr>)
      })"

definition mm_Open :: "nat \<Rightarrow> nat \<Rightarrow> KMemoryManager \<Rightarrow> KMemoryManager option" where
  "mm_Open = each_manager Impl_Open"

definition mm_OpenFirst :: "nat \<Rightarrow> nat \<Rightarrow> KMemoryManager \<Rightarrow> KMemoryManager option" where
  "mm_OpenFirst = each_manager Impl_OpenFirst"

definition mm_Close :: "nat \<Rightarrow> nat \<Rightarrow> KMemoryManager \<Rightarrow> KMemoryManager option" where
  "mm_Close = each_manager Impl_Close"

fun try_aligned :: "nat list \<Rightarrow> nat \<Rightarrow> nat \<Rightarrow> nat \<Rightarrow> KMemoryManager \<Rightarrow> (nat \<times> nat \<times> KMemoryManager) option" where
  "try_aligned [] heap_index num_pages align_pages mm = Some (0, 0, mm)"
| "try_aligned (i # is) heap_index num_pages align_pages mm =
     do {
       (a, mm1) \<leftarrow> with_manager i (Impl_AllocateAligned heap_index num_pages align_pages) mm;
       if a \<noteq> 0 then Some (a, i, mm1) else try_aligned is heap_index num_pages align_pages mm1
     }"

text \<open>A request larger than every block size has no heap index; the source passes on -1.\<close>

definition AllocateAndOpenContinuous :: "nat \<Rightarrow> nat \<Rightarrow> u32 \<Rightarrow> KMemoryManager \<Rightarrow> (nat \<times> KMemoryManager) option" where
  "AllocateAndOpenContinuous num_pages align_pages option' mm =
     (if num_pages = 0 then Some (0, mm)
      else do {
        pool \<leftarrow> GetPool option';
        heap_index \<leftarrow> GetAlignedBlockIndex num_pages align_pages;
        (a, i, mm1) \<leftarrow> try_aligned (managers_of mm pool (GetDirection option')) heap_index num_pages align_pages mm;
        if a = 0 then Some (0, mm1)
        else do {
          (_, mm2) \<leftarrow> with_manager i (\<lambda>im. map_option (Pair ()) (Impl_OpenFirst a num_pages im)) mm1;
          Some (a, mm2)
        }
      })"

text \<open>Allocating a page group. The state of the loops: the group, its block infos, the pages still missing.\<close>

record group_state =
  gs_group :: KPageGroup
  gs_block_infos :: KDynamicResourceManager
  gs_missing :: nat
  gs_manager :: KMemoryManager

function alloc_blocks :: "nat \<Rightarrow> nat \<Rightarrow> bool \<Rightarrow> nat \<Rightarrow> group_state \<Rightarrow> (Result \<times> group_state) option" where
  "alloc_blocks index pages_per_alloc random i st =
     (if 0 < pages_per_alloc \<and> pages_per_alloc \<le> gs_missing st then do {
        (a, mm1) \<leftarrow> with_manager i (Impl_AllocateBlock index random) (gs_manager st);
        if a = 0 then Some (ResultSuccess, st\<lparr>gs_manager := mm1\<rparr>)
        else
          (case AddBlock a pages_per_alloc (gs_group st) (gs_block_infos st) of
             (r, pg, bm) \<Rightarrow>
               if r = ResultSuccess then
                 alloc_blocks index pages_per_alloc random i
                   (st\<lparr>gs_group := pg, gs_block_infos := bm, gs_manager := mm1, gs_missing := gs_missing st - pages_per_alloc\<rparr>)
               else do {
                 (_, mm2) \<leftarrow> with_manager i (\<lambda>im. map_option (Pair ()) (Impl_Free a pages_per_alloc im)) mm1;
                 Some (r, st\<lparr>gs_group := pg, gs_block_infos := bm, gs_manager := mm2\<rparr>)
               })
      } else Some (ResultSuccess, st))"
  by pat_completeness auto
termination
  by (relation "measure (\<lambda>(index, ppa, random, i, st). gs_missing st)") auto

declare alloc_blocks.simps [simp del]

fun alloc_managers :: "nat list \<Rightarrow> nat \<Rightarrow> bool \<Rightarrow> group_state \<Rightarrow> (Result \<times> group_state) option" where
  "alloc_managers [] index random st = Some (ResultSuccess, st)"
| "alloc_managers (i # is) index random st =
     do {
       (r, st1) \<leftarrow> alloc_blocks index (GetBlockNumPages index) random i st;
       if r = ResultSuccess then alloc_managers is index random st1 else Some (r, st1)
     }"

fun alloc_sizes :: "nat \<Rightarrow> nat list \<Rightarrow> bool \<Rightarrow> group_state \<Rightarrow> (Result \<times> group_state) option" where
  "alloc_sizes 0 is random st = Some (ResultSuccess, st)"
| "alloc_sizes (Suc index) is random st =
     (if gs_missing st > 0 then do {
        (r, st1) \<leftarrow> alloc_managers is index random st;
        if r = ResultSuccess then alloc_sizes index is random st1 else Some (r, st1)
      } else Some (ResultSuccess, st))"

fun free_group :: "KPageGroup \<Rightarrow> KMemoryManager \<Rightarrow> KMemoryManager option" where
  "free_group [] mm = Some mm"
| "free_group (n # pg) mm =
     (let addr = BlockInfo_GetAddress (snd n) in
      do {
        i \<leftarrow> GetManager mm addr;
        (_, mm1) \<leftarrow> with_manager i (\<lambda>im. map_option (Pair ())
          (Impl_Free addr (min (BlockInfo_GetNumPages (snd n)) (sub64 (Impl_GetEndAddress im) addr div PageSize)) im)) mm;
        free_group pg mm1
      })"

definition AllocatePageGroupImpl ::
  "KPageGroup \<Rightarrow> KDynamicResourceManager \<Rightarrow> nat \<Rightarrow> Pool \<Rightarrow> Direction \<Rightarrow> bool \<Rightarrow> KMemoryManager
    \<Rightarrow> (Result \<times> KPageGroup \<times> KDynamicResourceManager \<times> KMemoryManager) option" where
  "AllocatePageGroupImpl out bm num_pages pool dir random mm =
     (case GetBlockIndex num_pages of
        None \<Rightarrow> Some (ResultOutOfMemory, out, bm, mm)
      | Some heap_index \<Rightarrow> do {
          (r, st) \<leftarrow> alloc_sizes (Suc heap_index) (managers_of mm pool dir) random
            \<lparr>gs_group = out, gs_block_infos = bm, gs_missing = num_pages, gs_manager = mm\<rparr>;
          let result = (if r \<noteq> ResultSuccess then r else if gs_missing st = 0 then ResultSuccess else ResultOutOfMemory);
          if result = ResultSuccess then Some (ResultSuccess, gs_group st, gs_block_infos st, gs_manager st)
          else do {
            mm1 \<leftarrow> free_group (gs_group st) (gs_manager st);
            Some (result, [], PageGroup_Finalize (gs_group st) (gs_block_infos st), mm1)
          }
        })"

definition group_each ::
  "(nat \<Rightarrow> nat \<Rightarrow> KMemoryManager \<Rightarrow> KMemoryManager option) \<Rightarrow> KPageGroup \<Rightarrow> KMemoryManager \<Rightarrow> KMemoryManager option" where
  "group_each f pg mm =
     fold (\<lambda>n r. r \<bind> f (BlockInfo_GetAddress (snd n)) (BlockInfo_GetNumPages (snd n))) pg (Some mm)"

definition PageGroup_Open :: "KPageGroup \<Rightarrow> KMemoryManager \<Rightarrow> KMemoryManager option" where
  "PageGroup_Open = group_each mm_Open"

definition PageGroup_OpenFirst :: "KPageGroup \<Rightarrow> KMemoryManager \<Rightarrow> KMemoryManager option" where
  "PageGroup_OpenFirst = group_each mm_OpenFirst"

definition PageGroup_Close :: "KPageGroup \<Rightarrow> KMemoryManager \<Rightarrow> KMemoryManager option" where
  "PageGroup_Close = group_each mm_Close"

definition PageGroup_CloseAndReset ::
  "KPageGroup \<Rightarrow> KDynamicResourceManager \<Rightarrow> KMemoryManager \<Rightarrow> (KDynamicResourceManager \<times> KMemoryManager) option" where
  "PageGroup_CloseAndReset pg bm mm = map_option (Pair (PageGroup_Finalize pg bm)) (PageGroup_Close pg mm)"

definition AllocateAndOpen ::
  "KPageGroup \<Rightarrow> KDynamicResourceManager \<Rightarrow> nat \<Rightarrow> u32 \<Rightarrow> KMemoryManager
    \<Rightarrow> (Result \<times> KPageGroup \<times> KDynamicResourceManager \<times> KMemoryManager) option" where
  "AllocateAndOpen out bm num_pages option' mm =
     (if num_pages = 0 then Some (ResultSuccess, out, bm, mm)
      else do {
        pool \<leftarrow> GetPool option';
        (r, pg, bm1, mm1) \<leftarrow> AllocatePageGroupImpl out bm num_pages pool (GetDirection option') True mm;
        if r \<noteq> ResultSuccess then Some (r, pg, bm1, mm1)
        else do { mm2 \<leftarrow> PageGroup_OpenFirst pg mm1; Some (ResultSuccess, pg, bm1, mm2) }
      })"

text \<open>The pages are left without a reference; the caller opens them when it maps them.\<close>

definition AllocateForProcess ::
  "KPageGroup \<Rightarrow> KDynamicResourceManager \<Rightarrow> nat \<Rightarrow> u32 \<Rightarrow> KMemoryManager
    \<Rightarrow> (Result \<times> KPageGroup \<times> KDynamicResourceManager \<times> KMemoryManager) option" where
  "AllocateForProcess out bm num_pages option' mm =
     do {
       pool \<leftarrow> GetPool option';
       AllocatePageGroupImpl out bm num_pages pool (GetDirection option') False mm
     }"

definition mm_GetFreeSize :: "KMemoryManager \<Rightarrow> nat" where
  "mm_GetFreeSize mm = fold (\<lambda>im total. add64 total (Impl_GetFreeSize im)) (mm_managers mm) 0"

definition mm_GetFreeSize_pool :: "Pool \<Rightarrow> KMemoryManager \<Rightarrow> nat option" where
  "mm_GetFreeSize_pool pool mm =
     fold (\<lambda>i r. r \<bind> (\<lambda>total. if i < length (mm_managers mm)
         then Some (add64 total (Impl_GetFreeSize (mm_managers mm ! i))) else None))
       (managers_of mm pool FromFront) (Some 0)"

end
