(* ===== verification/K_Page_Table.thy ===== *)
theory K_Page_Table
  imports K_Memory_Manager K_Memory_Block_Manager K_Resource_Limit
begin

text \<open>
  \<open>KPageTable\<close> (\<open>src/core/hle/kernel/k_page_table.h\<close> and \<open>.cpp\<close>): the address space of a process. This
  theory has its state, the set-up of the regions, the queries, the checks of memory states, the page
  table entries (\<open>src/common/page_table.cpp\<close>, \<open>src/core/memory.cpp\<close>) and page groups of mapped memory; the
  operations are in \<open>Page_Table_Operations\<close>.

  The state holds what the table owns and what it points to: the memory block manager with its slab, the
  block infos, the resource limit and the memory manager. An entry of the table is the difference of
  physical and virtual address, zero when the page is not mapped. Which physical addresses belong to the
  heap is a lookup in the memory layout, and is a field of the state here. Permissions are recorded in the
  memory blocks only: the operations that change permissions do nothing to the entries. Locks, the
  contents of pages, host pointers and GPU invalidation are not modelled; reading past the end of the
  entries or of the memory blocks is \<open>None\<close>.
\<close>

section \<open>Address space layouts\<close>

datatype AddressSpaceType = MapSmall | MapLarge | Map39Bit | HeapSpace | StackSpace | AliasSpace

definition MiB :: nat where
  "MiB = 1048576"

definition GiB :: nat where
  "GiB = 1073741824"

definition Size_Invalid :: nat where
  "Size_Invalid = two64 - 1"

definition AddressSpaceInfos :: "(nat \<times> nat \<times> nat \<times> AddressSpaceType) list" where
  "AddressSpaceInfos =
     [(32, 2 * MiB, GiB - 2 * MiB, MapSmall), (32, GiB, 4 * GiB - GiB, MapLarge),
      (32, Size_Invalid, GiB, AliasSpace), (32, Size_Invalid, GiB, HeapSpace),
      (36, 128 * MiB, 2 * GiB - 128 * MiB, MapSmall), (36, 2 * GiB, 64 * GiB - 2 * GiB, MapLarge),
      (36, Size_Invalid, 8 * GiB, HeapSpace), (36, Size_Invalid, 6 * GiB, AliasSpace),
      (39, 128 * MiB, 512 * GiB - 128 * MiB, Map39Bit), (39, Size_Invalid, 64 * GiB, MapSmall),
      (39, Size_Invalid, 8 * GiB, HeapSpace), (39, Size_Invalid, 64 * GiB, AliasSpace),
      (39, Size_Invalid, 2 * GiB, StackSpace)]"

definition GetAddressSpaceInfo :: "nat \<Rightarrow> AddressSpaceType \<Rightarrow> (nat \<times> nat) option" where
  "GetAddressSpaceInfo width type =
     map_option (\<lambda>(w, a, s, t). (a, s)) (find (\<lambda>(w, a, s, t). w = width \<and> t = type) AddressSpaceInfos)"

definition GetAddressSpaceStart :: "nat \<Rightarrow> AddressSpaceType \<Rightarrow> nat option" where
  "GetAddressSpaceStart width type = map_option fst (GetAddressSpaceInfo width type)"

definition GetAddressSpaceSize :: "nat \<Rightarrow> AddressSpaceType \<Rightarrow> nat option" where
  "GetAddressSpaceSize width type = map_option snd (GetAddressSpaceInfo width type)"

datatype ProgramAddressSpaceType = Is32Bit | Is36Bit | Is32BitNoMap | Is39Bit

definition GetAddressSpaceWidthFromType :: "ProgramAddressSpaceType \<Rightarrow> nat" where
  "GetAddressSpaceWidthFromType as_type = (case as_type of Is36Bit \<Rightarrow> 36 | Is39Bit \<Rightarrow> 39 | _ \<Rightarrow> 32)"

text \<open>
  \<open>GenerateUniformRange\<close> draws until a value falls into the range that can be reduced without bias; the
  values drawn are the argument, and running out of them is \<open>None\<close>.
\<close>

fun draw_below :: "nat \<Rightarrow> nat list \<Rightarrow> (nat \<times> nat list) option" where
  "draw_below effective_max [] = None"
| "draw_below effective_max (r # rs) = (if r < effective_max then Some (r, rs) else draw_below effective_max rs)"

definition GenerateUniformRange :: "nat \<Rightarrow> nat \<Rightarrow> nat list \<Rightarrow> (nat \<times> nat list) option" where
  "GenerateUniformRange lo hi draws =
     (if hi = two64 - 1 \<and> lo = 0 then (case draws of [] \<Rightarrow> None | r # rs \<Rightarrow> Some (r, rs))
      else
        let range_size = sub64 (add64 hi 1) lo; effective_max = (two64 - 1) div range_size * range_size
        in map_option (\<lambda>(r, rs). (add64 lo (r mod range_size), rs)) (draw_below effective_max draws))"

section \<open>State\<close>

record KPageTable =
  pt_address_space_start :: nat
  pt_address_space_end :: nat
  pt_heap_region_start :: nat
  pt_heap_region_end :: nat
  pt_current_heap_end :: nat
  pt_alias_region_start :: nat
  pt_alias_region_end :: nat
  pt_stack_region_start :: nat
  pt_stack_region_end :: nat
  pt_kernel_map_region_start :: nat
  pt_kernel_map_region_end :: nat
  pt_code_region_start :: nat
  pt_code_region_end :: nat
  pt_alias_code_region_start :: nat
  pt_alias_code_region_end :: nat
  pt_max_heap_size :: nat
  pt_mapped_physical_memory_size :: nat
  pt_address_space_width :: nat
  pt_blocks :: KMemoryBlockManager
  pt_allocate_option :: u32
  pt_is_kernel :: bool
  pt_enable_aslr :: bool
  pt_enable_device_address_space_merge :: bool
  pt_slab :: KDynamicResourceManager
  pt_block_infos :: KDynamicResourceManager
  pt_resource_limit :: KResourceLimit
  pt_memory_pool :: Pool
  pt_allocation_option :: Direction
  pt_backing_addr :: "nat \<Rightarrow> nat"
  pt_num_entries :: nat
  pt_memory_manager :: KMemoryManager
  pt_is_heap_address :: "nat \<Rightarrow> bool"

definition IsHeapPhysicalAddress :: "KPageTable \<Rightarrow> nat \<Rightarrow> bool" where
  "IsHeapPhysicalAddress pt phys_addr = pt_is_heap_address pt phys_addr"

definition GetHeapSize :: "KPageTable \<Rightarrow> nat" where
  "GetHeapSize pt = sub64 (pt_current_heap_end pt) (pt_heap_region_start pt)"

definition GetNormalMemorySize :: "KPageTable \<Rightarrow> nat" where
  "GetNormalMemorySize pt = add64 (GetHeapSize pt) (pt_mapped_physical_memory_size pt)"

definition GetNumGuardPages :: "KPageTable \<Rightarrow> nat" where
  "GetNumGuardPages pt = (if pt_is_kernel pt then 1 else 4)"

definition Contains_range :: "KPageTable \<Rightarrow> nat \<Rightarrow> nat \<Rightarrow> bool" where
  "Contains_range pt addr sz \<longleftrightarrow>
     pt_address_space_start pt \<le> addr \<and> addr < add64 addr sz \<and>
     sub64 (add64 addr sz) 1 \<le> sub64 (pt_address_space_end pt) 1"

definition IsInsideAddressSpace :: "KPageTable \<Rightarrow> nat \<Rightarrow> nat \<Rightarrow> bool" where
  "IsInsideAddressSpace pt address sz \<longleftrightarrow>
     pt_address_space_start pt \<le> address \<and> sub64 (add64 address sz) 1 \<le> sub64 (pt_address_space_end pt) 1"

definition IsOutsideAliasRegion :: "KPageTable \<Rightarrow> nat \<Rightarrow> nat \<Rightarrow> bool" where
  "IsOutsideAliasRegion pt address sz \<longleftrightarrow>
     pt_alias_region_start pt > address \<or> sub64 (add64 address sz) 1 > sub64 (pt_alias_region_end pt) 1"

definition IsOutsideStackRegion :: "KPageTable \<Rightarrow> nat \<Rightarrow> nat \<Rightarrow> bool" where
  "IsOutsideStackRegion pt address sz \<longleftrightarrow>
     pt_stack_region_start pt > address \<or> sub64 (add64 address sz) 1 > sub64 (pt_stack_region_end pt) 1"

definition IsInvalidRegion :: "KPageTable \<Rightarrow> nat \<Rightarrow> nat \<Rightarrow> bool" where
  "IsInvalidRegion pt address sz \<longleftrightarrow>
     sub64 (add64 address sz) 1 >
       sub64 (add64 (pt_alias_code_region_start pt) (sub64 (pt_alias_code_region_end pt) (pt_alias_code_region_start pt))) 1"

definition IsInsideHeapRegion :: "KPageTable \<Rightarrow> nat \<Rightarrow> nat \<Rightarrow> bool" where
  "IsInsideHeapRegion pt address sz \<longleftrightarrow>
     add64 address sz > pt_heap_region_start pt \<and> pt_heap_region_end pt > address"

definition IsInsideAliasRegion :: "KPageTable \<Rightarrow> nat \<Rightarrow> nat \<Rightarrow> bool" where
  "IsInsideAliasRegion pt address sz \<longleftrightarrow>
     add64 address sz > pt_alias_region_start pt \<and> pt_alias_region_end pt > address"

definition IsOutsideASLRRegion :: "KPageTable \<Rightarrow> nat \<Rightarrow> nat \<Rightarrow> bool" where
  "IsOutsideASLRRegion pt address sz \<longleftrightarrow>
     IsInvalidRegion pt address sz \<or> IsInsideHeapRegion pt address sz \<or> IsInsideAliasRegion pt address sz"

definition IsInsideASLRRegion :: "KPageTable \<Rightarrow> nat \<Rightarrow> nat \<Rightarrow> bool" where
  "IsInsideASLRRegion pt address sz \<longleftrightarrow> \<not> IsOutsideASLRRegion pt address sz"

section \<open>Regions of memory states\<close>

definition all_states :: "SvcMemoryState list" where
  "all_states =
     [Free, Io, Static, Code, CodeData, Normal, Shared, Alias, AliasCode, AliasCodeData, Ipc, Stack, ThreadLocal,
      Transfered, SharedTransfered, SharedCode, Inaccessible, NonSecureIpc, NonDeviceIpc, Kernel, GeneratedCode,
      CodeOut, Coverage, Insecure]"

text \<open>The \<open>switch\<close> over a memory state: the mapping kind the value stands for, if any.\<close>

definition state_kind :: "KMemoryState \<Rightarrow> SvcMemoryState option" where
  "state_kind v = find (\<lambda>k. KMemoryState_of k = Some v) all_states"

text \<open>The state of a mapping kind; \<open>Alias\<close>, which has none, is never used.\<close>

definition KState :: "SvcMemoryState \<Rightarrow> KMemoryState" where
  "KState k = (case KMemoryState_of k of Some v \<Rightarrow> v | None \<Rightarrow> 0)"

fun state_region :: "SvcMemoryState \<Rightarrow> KPageTable \<Rightarrow> (nat \<times> nat) option" where
  "state_region k pt =
     (if k \<in> {Free, Kernel} then Some (pt_address_space_start pt, pt_address_space_end pt)
      else if k = Normal then Some (pt_heap_region_start pt, pt_heap_region_end pt)
      else if k \<in> {Ipc, NonSecureIpc, NonDeviceIpc} then Some (pt_alias_region_start pt, pt_alias_region_end pt)
      else if k = Stack then Some (pt_stack_region_start pt, pt_stack_region_end pt)
      else if k \<in> {Static, ThreadLocal} then Some (pt_kernel_map_region_start pt, pt_kernel_map_region_end pt)
      else if k \<in> {Io, Shared, AliasCode, AliasCodeData, Transfered, SharedTransfered, SharedCode, GeneratedCode, CodeOut,
                     Coverage, Insecure} then Some (pt_alias_code_region_start pt, pt_alias_code_region_end pt)
      else if k \<in> {Code, CodeData} then Some (pt_code_region_start pt, pt_code_region_end pt)
      else None)"

declare state_region.simps [simp del]

definition GetRegionAddress :: "KPageTable \<Rightarrow> KMemoryState \<Rightarrow> nat option" where
  "GetRegionAddress pt state = do { k \<leftarrow> state_kind state; (s, e) \<leftarrow> state_region k pt; Some s }"

definition GetRegionSize :: "KPageTable \<Rightarrow> KMemoryState \<Rightarrow> nat option" where
  "GetRegionSize pt state = do { k \<leftarrow> state_kind state; (s, e) \<leftarrow> state_region k pt; Some (sub64 e s) }"

definition CanContain :: "KPageTable \<Rightarrow> nat \<Rightarrow> nat \<Rightarrow> KMemoryState \<Rightarrow> bool option" where
  "CanContain pt addr sz state =
     (let end_addr = add64 addr sz; last_addr = sub64 end_addr 1 in
      do {
        region_start \<leftarrow> GetRegionAddress pt state;
        region_size \<leftarrow> GetRegionSize pt state;
        k \<leftarrow> state_kind state;
        let is_in_region =
          (region_start \<le> addr \<and> addr < end_addr \<and> last_addr \<le> sub64 (add64 region_start region_size) 1);
        let is_in_heap =
          (\<not> (end_addr \<le> pt_heap_region_start pt \<or> pt_heap_region_end pt \<le> addr \<or> pt_heap_region_start pt = pt_heap_region_end pt));
        let is_in_alias =
          (\<not> (end_addr \<le> pt_alias_region_start pt \<or> pt_alias_region_end pt \<le> addr \<or> pt_alias_region_start pt = pt_alias_region_end pt));
        Some (if k \<in> {Free, Kernel} then is_in_region
              else if k = Normal then is_in_region \<and> \<not> is_in_alias
              else if k \<in> {Ipc, NonSecureIpc, NonDeviceIpc} then is_in_region \<and> \<not> is_in_heap
              else is_in_region \<and> \<not> is_in_heap \<and> \<not> is_in_alias)
      })"

section \<open>Page table entries\<close>

definition GetPhysicalAddr :: "KPageTable \<Rightarrow> nat \<Rightarrow> nat option" where
  "GetPhysicalAddr pt addr =
     (let page = addr div PageSize
      in if page < pt_num_entries pt then Some (add64 (pt_backing_addr pt page) addr) else None)"

text \<open>
  \<open>Memory::MapPages\<close>: \<open>n\<close> entries from index \<open>base\<close> on; target zero unmaps them. Both loops of the source
  are one here.
\<close>

fun MapPages_entries :: "nat \<Rightarrow> nat \<Rightarrow> nat \<Rightarrow> KPageTable \<Rightarrow> KPageTable option" where
  "MapPages_entries 0 base target pt = Some pt"
| "MapPages_entries (Suc n) base target pt =
     (if base < pt_num_entries pt then
        let backing = (if target = 0 then 0 else sub64 target (mul64 base PageSize))
        in MapPages_entries n (add64 base 1) (if target = 0 then 0 else add64 target PageSize)
             (pt\<lparr>pt_backing_addr := (pt_backing_addr pt)(base := backing)\<rparr>)
      else None)"

definition MapMemoryRegion :: "nat \<Rightarrow> nat \<Rightarrow> nat \<Rightarrow> KPageTable \<Rightarrow> KPageTable option" where
  "MapMemoryRegion base sz target = MapPages_entries (sz div PageSize) (base div PageSize) target"

definition UnmapRegion :: "nat \<Rightarrow> nat \<Rightarrow> KPageTable \<Rightarrow> KPageTable option" where
  "UnmapRegion base sz = MapPages_entries (sz div PageSize) (base div PageSize) 0"

text \<open>Traversal of the entries: the context is the next page and the next offset.\<close>

definition BeginTraversal :: "KPageTable \<Rightarrow> nat \<Rightarrow> (nat \<times> nat \<times> nat) option" where
  "BeginTraversal pt address =
     (let page = address div PageSize in
      if page \<ge> pt_num_entries pt \<or> pt_backing_addr pt page = 0 then None
      else Some (add64 (pt_backing_addr pt page) address, page + 1, add64 address PageSize))"

definition ContinueTraversal :: "KPageTable \<Rightarrow> nat \<times> nat \<Rightarrow> (nat \<times> nat \<times> nat) option" where
  "ContinueTraversal pt ctx =
     (case ctx of (page, offset) \<Rightarrow>
        if page \<ge> pt_num_entries pt \<or> pt_backing_addr pt page = 0 then None
        else Some (add64 (pt_backing_addr pt page) offset, page + 1, add64 offset PageSize))"

section \<open>Page groups of mapped memory\<close>

text \<open>The result of adding a block is ignored, so a page for which there is no block info is left out.\<close>

partial_function (option) add_region_loop ::
  "KPageTable \<Rightarrow> nat \<Rightarrow> nat \<Rightarrow> KPageGroup \<Rightarrow> KDynamicResourceManager \<Rightarrow> (KPageGroup \<times> KDynamicResourceManager) option" where
  "add_region_loop pt addr end pg bm =
     (if addr < end then do {
        paddr \<leftarrow> GetPhysicalAddr pt addr;
        (case AddBlock paddr 1 pg bm of (r, pg', bm') \<Rightarrow> add_region_loop pt (add64 addr PageSize) end pg' bm')
      } else Some (pg, bm))"

definition AddRegionToPages ::
  "KPageTable \<Rightarrow> nat \<Rightarrow> nat \<Rightarrow> KPageGroup \<Rightarrow> KDynamicResourceManager \<Rightarrow> (KPageGroup \<times> KDynamicResourceManager) option" where
  "AddRegionToPages pt start num_pages pg bm =
     add_region_loop pt start (add64 start (mul64 num_pages PageSize)) pg bm"

text \<open>The last block of a traversal is cut to the requested size.\<close>

definition make_group_last ::
  "KPageTable \<Rightarrow> nat \<Rightarrow> nat \<Rightarrow> nat \<Rightarrow> nat \<Rightarrow> KPageGroup \<Rightarrow> KDynamicResourceManager
    \<Rightarrow> Result \<times> KPageGroup \<times> KDynamicResourceManager" where
  "make_group_last pt sz cur_addr cur_size tot_size pg bm =
     (let cur_size = (if tot_size > sz then sub64 cur_size (tot_size - sz) else cur_size) in
      if \<not> IsHeapPhysicalAddress pt cur_addr then (ResultInvalidCurrentMemory, pg, bm)
      else AddBlock cur_addr (cur_size div PageSize) pg bm)"

function make_group_loop ::
  "KPageTable \<Rightarrow> nat \<Rightarrow> nat \<times> nat \<Rightarrow> nat \<Rightarrow> nat \<Rightarrow> nat \<Rightarrow> KPageGroup \<Rightarrow> KDynamicResourceManager
    \<Rightarrow> Result \<times> KPageGroup \<times> KDynamicResourceManager" where
  "make_group_loop pt sz ctx cur_addr cur_size tot_size pg bm =
     (if tot_size < sz then
        case ContinueTraversal pt ctx of
          None \<Rightarrow> (ResultInvalidCurrentMemory, pg, bm)
        | Some (phys_addr, ctx') \<Rightarrow>
            if phys_addr \<noteq> add64 cur_addr cur_size then
              if \<not> IsHeapPhysicalAddress pt cur_addr then (ResultInvalidCurrentMemory, pg, bm)
              else
                (case AddBlock cur_addr (cur_size div PageSize) pg bm of
                   (r, pg', bm') \<Rightarrow>
                     if r \<noteq> ResultSuccess then (r, pg', bm')
                     else make_group_loop pt sz ctx' phys_addr PageSize (add64 tot_size PageSize) pg' bm')
            else make_group_loop pt sz ctx' cur_addr (add64 cur_size PageSize) (add64 tot_size PageSize) pg bm
      else make_group_last pt sz cur_addr cur_size tot_size pg bm)"
  by pat_completeness auto
termination
  by (relation "measure (\<lambda>(pt, sz, ctx, _). pt_num_entries pt - fst ctx)")
    (auto simp: ContinueTraversal_def split: if_splits)

declare make_group_loop.simps [simp del]

definition MakePageGroup ::
  "KPageTable \<Rightarrow> KPageGroup \<Rightarrow> nat \<Rightarrow> nat \<Rightarrow> KDynamicResourceManager \<Rightarrow> Result \<times> KPageGroup \<times> KDynamicResourceManager" where
  "MakePageGroup pt pg addr num_pages bm =
     (let sz = mul64 num_pages PageSize in
      if pg \<noteq> [] then (ResultInvalidCurrentMemory, pg, bm)
      else
        case BeginTraversal pt addr of
          None \<Rightarrow> (ResultInvalidCurrentMemory, pg, bm)
        | Some (cur_addr, ctx) \<Rightarrow>
            let cur_size = PageSize - cur_addr mod PageSize
            in make_group_loop pt sz ctx cur_addr cur_size cur_size pg bm)"

text \<open>\<open>UpdateCurrentIterator\<close> of \<open>IsValidPageGroup\<close>: the blocks after the current one, its address and pages.\<close>

definition update_iterator :: "KPageGroup \<times> nat \<times> nat \<Rightarrow> (KPageGroup \<times> nat \<times> nat) option" where
  "update_iterator it =
     (case it of (rest, block_addr, block_np) \<Rightarrow>
        if block_np = 0 then
          (case rest of [] \<Rightarrow> None | n # rest' \<Rightarrow> Some (rest', BlockInfo_GetAddress (snd n), BlockInfo_GetNumPages (snd n)))
        else Some it)"

function valid_group_loop :: "KPageTable \<Rightarrow> nat \<Rightarrow> nat \<times> nat \<Rightarrow> nat \<Rightarrow> nat \<Rightarrow> nat \<Rightarrow> KPageGroup \<times> nat \<times> nat \<Rightarrow> bool" where
  "valid_group_loop pt sz ctx cur_addr cur_size tot_size it =
     (if tot_size < sz then
        case ContinueTraversal pt ctx of
          None \<Rightarrow> False
        | Some (phys_addr, ctx') \<Rightarrow>
            if phys_addr \<noteq> add64 cur_addr cur_size then
              let cur_pages = cur_size div PageSize in
              IsHeapPhysicalAddress pt cur_addr \<and>
              (case update_iterator it of
                 None \<Rightarrow> False
               | Some (rest, block_addr, block_np) \<Rightarrow>
                   \<not> (block_addr \<noteq> cur_addr \<or> block_np < cur_pages) \<and>
                   valid_group_loop pt sz ctx' phys_addr PageSize (add64 tot_size PageSize)
                     (rest, add64 block_addr cur_size, block_np - cur_pages))
            else valid_group_loop pt sz ctx' cur_addr (add64 cur_size PageSize) (add64 tot_size PageSize) it
      else
        let cur_size = (if tot_size > sz then sub64 cur_size (tot_size - sz) else cur_size) in
        IsHeapPhysicalAddress pt cur_addr \<and>
        (case update_iterator it of
           None \<Rightarrow> False
         | Some (rest, block_addr, block_np) \<Rightarrow> block_addr = cur_addr \<and> block_np = cur_size div PageSize))"
  by pat_completeness auto
termination
  by (relation "measure (\<lambda>(pt, sz, ctx, _). pt_num_entries pt - fst ctx)")
    (auto simp: ContinueTraversal_def split: if_splits)

declare valid_group_loop.simps [simp del]

definition IsValidPageGroup :: "KPageTable \<Rightarrow> KPageGroup \<Rightarrow> nat \<Rightarrow> nat \<Rightarrow> bool" where
  "IsValidPageGroup pt pg addr num_pages =
     (let sz = mul64 num_pages PageSize in
      case pg of
        [] \<Rightarrow> False
      | n # rest \<Rightarrow>
          (case BeginTraversal pt addr of
             None \<Rightarrow> False
           | Some (cur_addr, ctx) \<Rightarrow>
               let cur_size = PageSize - cur_addr mod PageSize
               in valid_group_loop pt sz ctx cur_addr cur_size cur_size
                    (rest, BlockInfo_GetAddress (snd n), BlockInfo_GetNumPages (snd n))))"

section \<open>Checking memory states\<close>

definition State_All :: KMemoryState where "State_All = 0xFFFFFFFF"
definition Perm_All :: KMemoryPermission where "Perm_All = 0xFF"
definition Attr_All :: KMemoryAttribute where "Attr_All = 0xFF"
definition Attr_SetMask :: KMemoryAttribute where "Attr_SetMask = Uncached"
definition KernelReadWrite :: KMemoryPermission where "KernelReadWrite = KernelRead OR KernelWrite"

definition DefaultMemoryIgnoreAttr :: KMemoryAttribute where
  "DefaultMemoryIgnoreAttr = IpcLocked OR DeviceShared"

text \<open>What a check compares: masks and expected values for state, permission and attribute.\<close>

record memory_check =
  mc_state_mask :: KMemoryState
  mc_state :: KMemoryState
  mc_perm_mask :: KMemoryPermission
  mc_perm :: KMemoryPermission
  mc_attr_mask :: KMemoryAttribute
  mc_attr :: KMemoryAttribute

definition CheckMemoryState_info :: "memory_check \<Rightarrow> KMemoryBlock \<Rightarrow> Result" where
  "CheckMemoryState_info c info =
     (if m_memory_state info AND mc_state_mask c \<noteq> mc_state c then ResultInvalidCurrentMemory
      else if m_permission info AND mc_perm_mask c \<noteq> mc_perm c then ResultInvalidCurrentMemory
      else if m_attribute info AND mc_attr_mask c \<noteq> mc_attr c then ResultInvalidCurrentMemory
      else ResultSuccess)"

text \<open>The loops over the blocks of a range: an error, or the last block looked at.\<close>

fun check_contiguous_loop :: "memory_check \<Rightarrow> nat \<Rightarrow> node list \<Rightarrow> (Result + KMemoryBlock) option" where
  "check_contiguous_loop c last_addr [] = None"
| "check_contiguous_loop c last_addr (n # ns) =
     (let info = snd n; r = CheckMemoryState_info c info in
      if r \<noteq> ResultSuccess then Some (Inl r)
      else if last_addr \<le> GetLastAddress info then Some (Inr info)
      else check_contiguous_loop c last_addr ns)"

definition blocks_for_start :: "nat \<Rightarrow> KMemoryBlock \<Rightarrow> nat" where
  "blocks_for_start addr info = (if AlignDown addr PageSize \<noteq> GetAddress info then 1 else 0)"

definition blocks_for_end :: "nat \<Rightarrow> nat \<Rightarrow> KMemoryBlock \<Rightarrow> nat" where
  "blocks_for_end addr sz info = (if AlignUp (add64 addr sz) PageSize \<noteq> GetEndAddress info then 1 else 0)"

definition nodes_from :: "KPageTable \<Rightarrow> nat \<Rightarrow> node list" where
  "nodes_from pt addr = drop (FindIterator (pt_blocks pt) addr) (m_memory_block_tree (pt_blocks pt))"

definition CheckMemoryStateContiguous :: "KPageTable \<Rightarrow> nat \<Rightarrow> nat \<Rightarrow> memory_check \<Rightarrow> (Result + nat) option" where
  "CheckMemoryStateContiguous pt addr sz c =
     (let last_addr = sub64 (add64 addr sz) 1 in
      case nodes_from pt addr of
        [] \<Rightarrow> None
      | n # ns \<Rightarrow>
          map_option (map_sum id (\<lambda>info. blocks_for_start addr (snd n) + blocks_for_end addr sz info))
            (check_contiguous_loop c last_addr (n # ns)))"

fun check_uniform_loop ::
  "memory_check \<Rightarrow> KMemoryAttribute \<Rightarrow> KMemoryBlock \<Rightarrow> nat \<Rightarrow> node list \<Rightarrow> (Result + KMemoryBlock) option" where
  "check_uniform_loop c ignore_attr first last_addr [] = None"
| "check_uniform_loop c ignore_attr first last_addr (n # ns) =
     (let info = snd n; r = CheckMemoryState_info c info in
      if m_memory_state info \<noteq> m_memory_state first then Some (Inl ResultInvalidCurrentMemory)
      else if m_permission info \<noteq> m_permission first then Some (Inl ResultInvalidCurrentMemory)
      else if m_attribute info OR ignore_attr \<noteq> m_attribute first OR ignore_attr then Some (Inl ResultInvalidCurrentMemory)
      else if r \<noteq> ResultSuccess then Some (Inl r)
      else if last_addr \<le> GetLastAddress info then Some (Inr info)
      else check_uniform_loop c ignore_attr first last_addr ns)"

text \<open>What a successful check writes to its output parameters.\<close>

record memory_checked =
  out_state :: KMemoryState
  out_perm :: KMemoryPermission
  out_attr :: KMemoryAttribute
  out_blocks_needed :: nat

definition CheckMemoryState ::
  "KPageTable \<Rightarrow> nat \<Rightarrow> nat \<Rightarrow> memory_check \<Rightarrow> KMemoryAttribute \<Rightarrow> (Result + memory_checked) option" where
  "CheckMemoryState pt addr sz c ignore_attr =
     (let last_addr = sub64 (add64 addr sz) 1 in
      case nodes_from pt addr of
        [] \<Rightarrow> None
      | n # ns \<Rightarrow>
          let first = snd n in
          map_option (map_sum id (\<lambda>info.
              \<lparr>out_state = m_memory_state first, out_perm = m_permission first,
               out_attr = m_attribute first AND NOT ignore_attr,
               out_blocks_needed = blocks_for_start addr first + blocks_for_end addr sz info\<rparr>))
            (check_uniform_loop c ignore_attr first last_addr (n # ns)))"

text \<open>The check that a range is unmapped, which many operations begin with.\<close>

definition check_free :: memory_check where
  "check_free = \<lparr>mc_state_mask = State_All, mc_state = KState Free, mc_perm_mask = 0, mc_perm = 0, mc_attr_mask = 0, mc_attr = 0\<rparr>"

record KMemoryInfo =
  mi_address :: nat
  mi_size :: nat
  mi_state :: KMemoryState
  mi_device_disable_merge_left_count :: u16
  mi_device_disable_merge_right_count :: u16
  mi_ipc_lock_count :: u16
  mi_device_use_count :: u16
  mi_ipc_disable_merge_count :: u16
  mi_permission :: KMemoryPermission
  mi_attribute :: KMemoryAttribute
  mi_original_permission :: KMemoryPermission
  mi_disable_merge_attribute :: KMemoryBlockDisableMergeAttribute

definition GetMemoryInfo :: "KMemoryBlock \<Rightarrow> KMemoryInfo" where
  "GetMemoryInfo b =
     \<lparr>mi_address = GetAddress b, mi_size = GetSize b, mi_state = m_memory_state b,
      mi_device_disable_merge_left_count = m_device_disable_merge_left_count b,
      mi_device_disable_merge_right_count = m_device_disable_merge_right_count b,
      mi_ipc_lock_count = m_ipc_lock_count b, mi_device_use_count = m_device_use_count b,
      mi_ipc_disable_merge_count = m_ipc_disable_merge_count b, mi_permission = m_permission b,
      mi_attribute = m_attribute b, mi_original_permission = m_original_permission b,
      mi_disable_merge_attribute = m_disable_merge_attribute b\<rparr>"

definition QueryInfoImpl :: "KPageTable \<Rightarrow> nat \<Rightarrow> KMemoryInfo option" where
  "QueryInfoImpl pt addr = map_option GetMemoryInfo (FindBlock (pt_blocks pt) addr)"

definition QueryInfo :: "KPageTable \<Rightarrow> nat \<Rightarrow> KMemoryInfo option" where
  "QueryInfo pt addr =
     (if \<not> Contains_range pt addr 1 then
        Some \<lparr>mi_address = pt_address_space_end pt, mi_size = sub64 0 (pt_address_space_end pt),
          mi_state = SvcMemoryState_value Inaccessible, mi_device_disable_merge_left_count = 0,
          mi_device_disable_merge_right_count = 0, mi_ipc_lock_count = 0, mi_device_use_count = 0,
          mi_ipc_disable_merge_count = 0, mi_permission = 0, mi_attribute = 0, mi_original_permission = 0,
          mi_disable_merge_attribute = 0\<rparr>
      else QueryInfoImpl pt addr)"

section \<open>Set-up\<close>

definition shift_region :: "nat \<Rightarrow> nat \<times> nat \<Rightarrow> nat \<times> nat" where
  "shift_region d r = (add64 (fst r) d, add64 (snd r) d)"

text \<open>Of two regions, the one placed later moves up by the size of the other.\<close>

definition push_apart :: "bool \<Rightarrow> nat \<Rightarrow> nat \<Rightarrow> (nat \<times> nat) \<times> (nat \<times> nat) \<Rightarrow> (nat \<times> nat) \<times> (nat \<times> nat)" where
  "push_apart first_before first_size second_size rs =
     (if first_before then (fst rs, shift_region first_size (snd rs)) else (shift_region second_size (fst rs), snd rs))"

record region_plan =
  rp_alias :: "nat \<times> nat"
  rp_heap :: "nat \<times> nat"
  rp_stack :: "nat \<times> nat"
  rp_kmap :: "nat \<times> nat"

text \<open>
  Placing the regions; the sizes and the random offsets come in the order alias, heap, stack, kernel map.
  A stack or kernel map region of size zero keeps its place \<open>stack0\<close> or \<open>kmap0\<close>.
\<close>

definition place_regions ::
  "nat \<Rightarrow> nat \<times> nat \<times> nat \<times> nat \<Rightarrow> nat \<times> nat \<times> nat \<times> nat \<Rightarrow> nat \<times> nat \<Rightarrow> nat \<times> nat \<Rightarrow> region_plan" where
  "place_regions alloc_start sizes rnds stack0 kmap0 =
     (case sizes of (alias_size, heap_size, stack_size, kmap_size) \<Rightarrow>
      case rnds of (alias_rnd, heap_rnd, stack_rnd, kmap_rnd) \<Rightarrow>
      let at = (\<lambda>rnd sz. let st = add64 alloc_start rnd in (st, add64 st sz));
          (alias1, heap1) =
            push_apart (alias_rnd \<le> heap_rnd) alias_size heap_size (at alias_rnd alias_size, at heap_rnd heap_size);
          (alias2, heap2, stack2) =
            (if stack_size \<noteq> 0 then
               let (alias', stack') = push_apart (alias_rnd < stack_rnd) alias_size stack_size (alias1, at stack_rnd stack_size);
                   (heap', stack'') = push_apart (heap_rnd < stack_rnd) heap_size stack_size (heap1, stack')
               in (alias', heap', stack'')
             else (alias1, heap1, stack0))
      in if kmap_size \<noteq> 0 then
           let (alias', kmap') = push_apart (alias_rnd < kmap_rnd) alias_size kmap_size (alias2, at kmap_rnd kmap_size);
               (heap', kmap'') = push_apart (heap_rnd < kmap_rnd) heap_size kmap_size (heap2, kmap');
               (stack', kmap3) = (if stack_size \<noteq> 0 then push_apart (stack_rnd < kmap_rnd) stack_size kmap_size (stack2, kmap'')
                                  else (stack2, kmap''))
           in \<lparr>rp_alias = alias', rp_heap = heap', rp_stack = stack', rp_kmap = kmap3\<rparr>
         else \<lparr>rp_alias = alias2, rp_heap = heap2, rp_stack = stack2, rp_kmap = kmap0\<rparr>)"

definition RegionAlignment :: nat where
  "RegionAlignment = 2 * MiB"

definition random_offsets :: "bool \<Rightarrow> nat \<Rightarrow> nat list \<Rightarrow> (nat \<times> nat \<times> nat \<times> nat) option" where
  "random_offsets enable_aslr remaining_size draws =
     (if enable_aslr then do {
        let n = remaining_size div RegionAlignment;
        (a, draws) \<leftarrow> GenerateUniformRange 0 n draws;
        (h, draws) \<leftarrow> GenerateUniformRange 0 n draws;
        (s, draws) \<leftarrow> GenerateUniformRange 0 n draws;
        (k, draws) \<leftarrow> GenerateUniformRange 0 n draws;
        Some (mul64 a RegionAlignment, mul64 h RegionAlignment, mul64 s RegionAlignment, mul64 k RegionAlignment)
      } else Some (0, 0, 0, 0))"

text \<open>The code regions, the extent of the process code, and the sizes of the regions that are placed.\<close>

definition setup_code_regions ::
  "ProgramAddressSpaceType \<Rightarrow> nat \<Rightarrow> nat \<Rightarrow> KPageTable \<Rightarrow> ((nat \<times> nat) \<times> (nat \<times> nat \<times> nat \<times> nat) \<times> KPageTable) option" where
  "setup_code_regions as_type code_addr code_size pt =
     (let width = GetAddressSpaceWidthFromType as_type in
      do {
        alias_size0 \<leftarrow> GetAddressSpaceSize width AliasSpace;
        heap_size0 \<leftarrow> GetAddressSpaceSize width HeapSpace;
        let (alias_size, heap_size) =
          (if as_type = Is32BitNoMap then (0, add64 heap_size0 alias_size0) else (alias_size0, heap_size0));
        if width = 39 then do {
          stack_size \<leftarrow> GetAddressSpaceSize width StackSpace;
          kmap_size \<leftarrow> GetAddressSpaceSize width MapSmall;
          code_start \<leftarrow> GetAddressSpaceStart width Map39Bit;
          map_size \<leftarrow> GetAddressSpaceSize width Map39Bit;
          let code_end = add64 code_start map_size;
          Some ((AlignDown code_addr RegionAlignment, AlignUp (add64 code_addr code_size) RegionAlignment),
            (alias_size0, heap_size0, stack_size, kmap_size),
            pt\<lparr>pt_address_space_width := width, pt_code_region_start := code_start, pt_code_region_end := code_end,
              pt_alias_code_region_start := code_start, pt_alias_code_region_end := code_end\<rparr>)
        } else do {
          code_start \<leftarrow> GetAddressSpaceStart width MapSmall;
          small_size \<leftarrow> GetAddressSpaceSize width MapSmall;
          large_start \<leftarrow> GetAddressSpaceStart width MapLarge;
          large_size \<leftarrow> GetAddressSpaceSize width MapLarge;
          let code_end = add64 code_start small_size;
          Some ((code_start, code_end), (alias_size, heap_size, 0, 0),
            pt\<lparr>pt_address_space_width := width, pt_code_region_start := code_start, pt_code_region_end := code_end,
              pt_stack_region_start := code_start, pt_stack_region_end := code_end,
              pt_alias_code_region_start := code_start, pt_alias_code_region_end := add64 large_start large_size,
              pt_kernel_map_region_start := code_start, pt_kernel_map_region_end := code_end\<rparr>)
        }
      })"

text \<open>The part of the address space below or above the process code, whichever is larger.\<close>

definition alloc_extent :: "nat \<Rightarrow> nat \<times> nat \<Rightarrow> nat \<Rightarrow> nat \<times> nat" where
  "alloc_extent code_start process_code end_addr =
     (case process_code of (process_code_start, process_code_end) \<Rightarrow>
        if sub64 process_code_start code_start \<ge> sub64 end_addr process_code_end
        then (code_start, sub64 process_code_start code_start)
        else (process_code_end, sub64 end_addr process_code_end))"

definition InitializeForProcess ::
  "ProgramAddressSpaceType \<Rightarrow> bool \<Rightarrow> bool \<Rightarrow> bool \<Rightarrow> Pool \<Rightarrow> nat \<Rightarrow> nat \<Rightarrow> KDynamicResourceManager \<Rightarrow> KDynamicResourceManager
    \<Rightarrow> KResourceLimit \<Rightarrow> nat list \<Rightarrow> KPageTable \<Rightarrow> (Result \<times> KPageTable) option" where
  "InitializeForProcess as_type enable_aslr enable_das_merge from_back pool code_addr code_size slab block_infos limit draws pt =
     do {
       (process_code, (alias_size, heap_size, stack_size, kmap_size), pt1) \<leftarrow> setup_code_regions as_type code_addr code_size pt;
       let end_addr = 2 ^ pt_address_space_width pt1;
       let pt2 = pt1\<lparr>pt_enable_aslr := enable_aslr, pt_enable_device_address_space_merge := enable_das_merge,
         pt_address_space_start := 0, pt_address_space_end := end_addr, pt_is_kernel := False,
         pt_slab := slab, pt_block_infos := block_infos, pt_resource_limit := limit\<rparr>;
       let (alloc_start, alloc_size) = alloc_extent (pt_code_region_start pt2) process_code end_addr;
       let needed_size = add64 (add64 (add64 alias_size heap_size) stack_size) kmap_size;
       if alloc_size < needed_size then Some (ResultOutOfMemory, pt2)
       else do {
         rnds \<leftarrow> random_offsets enable_aslr (sub64 alloc_size needed_size) draws;
         let rp = place_regions alloc_start (alias_size, heap_size, stack_size, kmap_size) rnds
           (pt_stack_region_start pt2, pt_stack_region_end pt2) (pt_kernel_map_region_start pt2, pt_kernel_map_region_end pt2);
         let pt3 = pt2\<lparr>pt_alias_region_start := fst (rp_alias rp), pt_alias_region_end := snd (rp_alias rp),
           pt_heap_region_start := fst (rp_heap rp), pt_heap_region_end := snd (rp_heap rp),
           pt_stack_region_start := fst (rp_stack rp), pt_stack_region_end := snd (rp_stack rp),
           pt_kernel_map_region_start := fst (rp_kmap rp), pt_kernel_map_region_end := snd (rp_kmap rp),
           pt_current_heap_end := fst (rp_heap rp), pt_max_heap_size := 0, pt_mapped_physical_memory_size := 0,
           pt_allocate_option := EncodeOption pool (if from_back then FromBack else FromFront), pt_memory_pool := pool,
           pt_backing_addr := (\<lambda>_. 0), pt_num_entries := 2 ^ (pt_address_space_width pt2 - 12)\<rparr>;
         (r, blocks, slab') \<leftarrow> Manager_Initialize (pt_blocks pt3) 0 end_addr (pt_slab pt3);
         Some (r, pt3\<lparr>pt_blocks := blocks, pt_slab := slab'\<rparr>)
       }
     }"

text \<open>Destruction unmaps the range of every memory block and drops the entries; no page reference is closed.\<close>

definition PageTable_Finalize :: "KPageTable \<Rightarrow> KPageTable option" where
  "PageTable_Finalize pt =
     (case Manager_Finalize (pt_blocks pt) (pt_slab pt) of (blocks, unmaps, slab) \<Rightarrow> do {
        pt1 \<leftarrow> fold (\<lambda>(a, sz) r. r \<bind> UnmapRegion a sz) unmaps (Some pt);
        Some (pt1\<lparr>pt_blocks := blocks, pt_slab := slab, pt_backing_addr := (\<lambda>_. 0), pt_num_entries := 0\<rparr>)
      })"

end
