(* ===== verification/Page_Table_Operations.thy ===== *)
theory Page_Table_Operations
  imports K_Page_Table
begin

text \<open>
  The operations of \<open>KPageTable\<close> (\<open>src/core/hle/kernel/k_page_table.cpp\<close>) on one address space. Each returns its
  result code and the table it leaves; reading out of range, a block list that ends too early and a
  reservation that never returns are \<open>None\<close>. \<open>Operate\<close> succeeds on every path of the source, so only its
  effect is modelled and the clean-up code for a failing \<open>Operate\<close>, which cannot run, is left out.
  Destructors run where the source runs them: a scoped allocator gives its unused blocks back, a local page
  group its block infos, a reservation that was not committed its memory.
\<close>

section \<open>Scopes\<close>

text \<open>\<open>R_TRY\<close> on a check.\<close>

definition on_checked :: "(Result + 'a) option \<Rightarrow> KPageTable \<Rightarrow> ('a \<Rightarrow> (Result \<times> KPageTable) option) \<Rightarrow> (Result \<times> KPageTable) option" where
  "on_checked c pt f = do { x \<leftarrow> c; (case x of Inl r \<Rightarrow> Some (r, pt) | Inr v \<Rightarrow> f v) }"

definition r_unless :: "bool \<Rightarrow> Result \<Rightarrow> KPageTable \<Rightarrow> (Result \<times> KPageTable) option \<Rightarrow> (Result \<times> KPageTable) option" where
  "r_unless cond r pt rest = (if cond then rest else Some (r, pt))"

text \<open>
  An update allocator for the rest of a function. Allocator and table share the slab: it is in \<open>pt_slab\<close>
  except while the allocator works.
\<close>

definition run_allocator ::
  "UpdateAllocator \<Rightarrow> (UpdateAllocator \<Rightarrow> KPageTable \<Rightarrow> (Result \<times> UpdateAllocator \<times> KPageTable) option) \<Rightarrow> KPageTable
    \<Rightarrow> (Result \<times> KPageTable) option" where
  "run_allocator ua body pt =
     do {
       (r, ua', pt') \<leftarrow> body ua (pt\<lparr>pt_slab := ua_slab ua\<rparr>);
       Some (r, pt'\<lparr>pt_slab := UpdateAllocator_destroy (ua'\<lparr>ua_slab := pt_slab pt'\<rparr>)\<rparr>)
     }"

definition with_allocator ::
  "nat \<Rightarrow> (UpdateAllocator \<Rightarrow> KPageTable \<Rightarrow> (Result \<times> UpdateAllocator \<times> KPageTable) option) \<Rightarrow> KPageTable
    \<Rightarrow> (Result \<times> KPageTable) option" where
  "with_allocator num_blocks body pt =
     (case UpdateAllocator_new (pt_slab pt) num_blocks of (r, ua) \<Rightarrow>
        if r \<noteq> ResultSuccess then Some (r, pt\<lparr>pt_slab := UpdateAllocator_destroy ua\<rparr>)
        else run_allocator ua body pt)"

definition with_allocators ::
  "nat \<Rightarrow> nat \<Rightarrow> (UpdateAllocator \<Rightarrow> UpdateAllocator \<Rightarrow> KPageTable \<Rightarrow> (Result \<times> UpdateAllocator \<times> UpdateAllocator \<times> KPageTable) option)
    \<Rightarrow> KPageTable \<Rightarrow> (Result \<times> KPageTable) option" where
  "with_allocators num_src num_dst body pt =
     (case UpdateAllocator_new (pt_slab pt) num_src of (r, src) \<Rightarrow>
        if r \<noteq> ResultSuccess then Some (r, pt\<lparr>pt_slab := UpdateAllocator_destroy src\<rparr>)
        else
          (case UpdateAllocator_new (ua_slab src) num_dst of (r', dst) \<Rightarrow>
             if r' \<noteq> ResultSuccess
             then Some (r', pt\<lparr>pt_slab := UpdateAllocator_destroy (src\<lparr>ua_slab := UpdateAllocator_destroy dst\<rparr>)\<rparr>)
             else do {
               (r'', src', dst', pt') \<leftarrow> body src dst (pt\<lparr>pt_slab := ua_slab dst\<rparr>);
               Some (r'', pt'\<lparr>pt_slab := UpdateAllocator_destroy
                 (src'\<lparr>ua_slab := UpdateAllocator_destroy (dst'\<lparr>ua_slab := pt_slab pt'\<rparr>)\<rparr>)\<rparr>)
             }))"

text \<open>An update of the memory blocks with an allocator.\<close>

definition update_blocks ::
  "(KMemoryBlockManager \<Rightarrow> UpdateAllocator \<Rightarrow> (UpdateAllocator \<times> KMemoryBlockManager) option) \<Rightarrow> UpdateAllocator \<Rightarrow> KPageTable
    \<Rightarrow> (UpdateAllocator \<times> KPageTable) option" where
  "update_blocks f ua pt =
     map_option (\<lambda>(ua', m). (ua', pt\<lparr>pt_blocks := m, pt_slab := ua_slab ua'\<rparr>)) (f (pt_blocks pt) (ua\<lparr>ua_slab := pt_slab pt\<rparr>))"

definition Update ::
  "nat \<Rightarrow> nat \<Rightarrow> KMemoryState \<Rightarrow> KMemoryPermission \<Rightarrow> KMemoryAttribute \<Rightarrow> u8 \<Rightarrow> u8 \<Rightarrow> UpdateAllocator \<Rightarrow> KPageTable
    \<Rightarrow> (UpdateAllocator \<times> KPageTable) option" where
  "Update address num_pages state perm attr set_disable clear_disable =
     update_blocks (\<lambda>m ua. Manager_Update m ua address num_pages state perm attr set_disable clear_disable)"

definition UpdateLock ::
  "nat \<Rightarrow> nat \<Rightarrow> (KMemoryBlock \<Rightarrow> KMemoryPermission \<Rightarrow> bool \<Rightarrow> bool \<Rightarrow> KMemoryBlock) \<Rightarrow> KMemoryPermission \<Rightarrow> UpdateAllocator
    \<Rightarrow> KPageTable \<Rightarrow> (UpdateAllocator \<times> KPageTable) option" where
  "UpdateLock address num_pages lock_func perm =
     update_blocks (\<lambda>m ua. Manager_UpdateLock m ua address num_pages lock_func perm)"

text \<open>A reservation from the resource limit: \<open>now\<close> is the clock, \<open>ws\<close> the wake-ups while it waits.\<close>

definition with_reservation ::
  "int \<Rightarrow> wakeup list \<Rightarrow> nat \<Rightarrow> (KPageTable \<Rightarrow> (Result \<times> bool \<times> KPageTable) option) \<Rightarrow> KPageTable \<Rightarrow> (Result \<times> KPageTable) option" where
  "with_reservation now ws amount body pt =
     do {
       (sr, rl) \<leftarrow> ScopedReservation_open (pt_resource_limit pt) True PhysicalMemoryMax (int amount) (now + DefaultTimeout) now ws;
       let pt1 = pt\<lparr>pt_resource_limit := rl\<rparr>;
       if \<not> sr_succeeded sr then Some (ResultLimitReached, pt1\<lparr>pt_resource_limit := ScopedReservation_close sr rl\<rparr>)
       else do {
         (r, commit, pt2) \<leftarrow> body pt1;
         let sr' = (if commit then ScopedReservation_Commit sr else sr);
         Some (r, pt2\<lparr>pt_resource_limit := ScopedReservation_close sr' (pt_resource_limit pt2)\<rparr>)
       }
     }"

definition release_group :: "KPageGroup \<Rightarrow> KPageTable \<Rightarrow> KPageTable" where
  "release_group pg pt = pt\<lparr>pt_block_infos := PageGroup_Finalize pg (pt_block_infos pt)\<rparr>"

section \<open>Operate\<close>

datatype OperationType = Map | MapFirst | MapGroup | Unmap | ChangePermissions | ChangePermissionsAndRefresh | Separate

fun map_nodes :: "nat \<Rightarrow> KPageGroup \<Rightarrow> KPageTable \<Rightarrow> KPageTable option" where
  "map_nodes addr [] pt = Some pt"
| "map_nodes addr (n # pg) pt =
     (let sz = mul64 (BlockInfo_GetNumPages (snd n)) PageSize in
      do {
        pt1 \<leftarrow> MapMemoryRegion addr sz (BlockInfo_GetAddress (snd n)) pt;
        map_nodes (add64 addr sz) pg pt1
      })"

text \<open>Only \<open>MapGroup\<close> does anything; the references it opens stay.\<close>

definition Operate_group :: "nat \<Rightarrow> nat \<Rightarrow> KPageGroup \<Rightarrow> OperationType \<Rightarrow> KPageTable \<Rightarrow> KPageTable option" where
  "Operate_group addr num_pages page_group operation pt =
     (if operation = MapGroup then do {
        mm \<leftarrow> PageGroup_Open page_group (pt_memory_manager pt);
        map_nodes addr page_group (pt\<lparr>pt_memory_manager := mm\<rparr>)
      } else Some pt)"

definition Operate :: "nat \<Rightarrow> nat \<Rightarrow> KMemoryPermission \<Rightarrow> OperationType \<Rightarrow> nat \<Rightarrow> KPageTable \<Rightarrow> KPageTable option" where
  "Operate addr num_pages perm operation map_addr pt =
     (case operation of
        Unmap \<Rightarrow> do {
          (pages_to_close, bm) \<leftarrow> AddRegionToPages pt addr num_pages [] (pt_block_infos pt);
          pt1 \<leftarrow> UnmapRegion addr (mul64 num_pages PageSize) (pt\<lparr>pt_block_infos := bm\<rparr>);
          (bm', mm) \<leftarrow> PageGroup_CloseAndReset pages_to_close (pt_block_infos pt1) (pt_memory_manager pt1);
          Some (pt1\<lparr>pt_block_infos := bm', pt_memory_manager := mm\<rparr>)
        }
      | MapFirst \<Rightarrow> do {
          pt1 \<leftarrow> MapMemoryRegion addr (mul64 num_pages PageSize) map_addr pt;
          if IsHeapPhysicalAddress pt1 map_addr then do {
            mm \<leftarrow> mm_OpenFirst map_addr num_pages (pt_memory_manager pt1);
            Some (pt1\<lparr>pt_memory_manager := mm\<rparr>)
          } else Some pt1
        }
      | Map \<Rightarrow> do {
          pt1 \<leftarrow> MapMemoryRegion addr (mul64 num_pages PageSize) map_addr pt;
          if IsHeapPhysicalAddress pt1 map_addr then do {
            mm \<leftarrow> mm_Open map_addr num_pages (pt_memory_manager pt1);
            Some (pt1\<lparr>pt_memory_manager := mm\<rparr>)
          } else Some pt1
        }
      | _ \<Rightarrow> Some pt)"

section \<open>Mapping pages\<close>

fun map_group_loop :: "nat \<Rightarrow> KPageGroup \<Rightarrow> KMemoryPermission \<Rightarrow> KPageTable \<Rightarrow> KPageTable option" where
  "map_group_loop cur_address [] perm pt = Some pt"
| "map_group_loop cur_address (n # pg) perm pt =
     do {
       pt1 \<leftarrow> Operate cur_address (BlockInfo_GetNumPages (snd n)) perm Map (BlockInfo_GetAddress (snd n)) pt;
       map_group_loop (add64 cur_address (BlockInfo_GetSize (snd n))) pg perm pt1
     }"

definition MapPageGroupImpl :: "nat \<Rightarrow> KPageGroup \<Rightarrow> KMemoryPermission \<Rightarrow> KPageTable \<Rightarrow> KPageTable option" where
  "MapPageGroupImpl address pg perm pt = map_group_loop address pg perm pt"

definition AllocateAndMapPagesImpl :: "nat \<Rightarrow> nat \<Rightarrow> KMemoryPermission \<Rightarrow> KPageTable \<Rightarrow> (Result \<times> KPageTable) option" where
  "AllocateAndMapPagesImpl address num_pages perm pt =
     do {
       (r, pg, bm, mm) \<leftarrow> AllocateAndOpen [] (pt_block_infos pt) num_pages (pt_allocate_option pt) (pt_memory_manager pt);
       let pt1 = pt\<lparr>pt_block_infos := bm, pt_memory_manager := mm\<rparr>;
       if r \<noteq> ResultSuccess then Some (r, release_group pg pt1)
       else do {
         pt2 \<leftarrow> Operate_group address num_pages pg MapGroup pt1;
         mm' \<leftarrow> PageGroup_Close pg (pt_memory_manager pt2);
         Some (ResultSuccess, release_group pg (pt2\<lparr>pt_memory_manager := mm'\<rparr>))
       }
     }"

definition PageTable_FindFreeArea :: "KPageTable \<Rightarrow> nat \<Rightarrow> nat \<Rightarrow> nat \<Rightarrow> nat \<Rightarrow> nat \<Rightarrow> nat \<Rightarrow> nat" where
  "PageTable_FindFreeArea pt region_start region_num_pages num_pages alignment offset guard_pages =
     (if num_pages \<le> region_num_pages
      then FindFreeArea (pt_blocks pt) region_start region_num_pages num_pages alignment offset guard_pages else 0)"

definition AllocateVirtualMemory :: "KPageTable \<Rightarrow> nat \<Rightarrow> nat \<Rightarrow> nat \<Rightarrow> nat \<Rightarrow> nat" where
  "AllocateVirtualMemory pt start region_num_pages needed_num_pages align =
     FindFreeArea (pt_blocks pt) start region_num_pages needed_num_pages align 0 (if pt_is_kernel pt then 1 else 4)"

text \<open>The body of both mapping operations once the allocator is there: map, then record the blocks.\<close>

definition MapPages_find ::
  "nat \<Rightarrow> nat \<Rightarrow> nat \<Rightarrow> bool \<Rightarrow> nat \<Rightarrow> nat \<Rightarrow> KMemoryState \<Rightarrow> KMemoryPermission \<Rightarrow> KPageTable \<Rightarrow> ((Result \<times> nat) \<times> KPageTable) option" where
  "MapPages_find num_pages alignment phys_addr is_pa_valid region_start region_num_pages state perm pt =
     do {
       ok \<leftarrow> CanContain pt region_start (mul64 region_num_pages PageSize) state;
       if \<not> ok then Some ((ResultInvalidCurrentMemory, 0), pt)
       else if \<not> (num_pages < region_num_pages) then Some ((ResultOutOfMemory, 0), pt)
       else do {
         let addr = PageTable_FindFreeArea pt region_start region_num_pages num_pages alignment 0 (GetNumGuardPages pt);
         if addr = 0 then Some ((ResultOutOfMemory, 0), pt)
         else do {
           (r, pt') \<leftarrow> with_allocator MaxBlocks (\<lambda>ua pt. do {
             (r, pt1) \<leftarrow> (if is_pa_valid then map_option (Pair ResultSuccess) (Operate addr num_pages perm Map phys_addr pt)
                          else AllocateAndMapPagesImpl addr num_pages perm pt);
             if r \<noteq> ResultSuccess then Some (r, ua, pt1)
             else map_option (Pair ResultSuccess) (Update addr num_pages state perm 0 DM_Normal 0 ua pt1)
           }) pt;
           Some ((r, if r = ResultSuccess then addr else 0), pt')
         }
       }
     }"

definition MapPages_region ::
  "nat \<Rightarrow> nat \<Rightarrow> nat \<Rightarrow> KMemoryState \<Rightarrow> KMemoryPermission \<Rightarrow> KPageTable \<Rightarrow> ((Result \<times> nat) \<times> KPageTable) option" where
  "MapPages_region num_pages alignment phys_addr state perm pt =
     do {
       region_start \<leftarrow> GetRegionAddress pt state;
       region_size \<leftarrow> GetRegionSize pt state;
       MapPages_find num_pages alignment phys_addr True region_start (region_size div PageSize) state perm pt
     }"

definition MapPages_anywhere ::
  "nat \<Rightarrow> KMemoryState \<Rightarrow> KMemoryPermission \<Rightarrow> KPageTable \<Rightarrow> ((Result \<times> nat) \<times> KPageTable) option" where
  "MapPages_anywhere num_pages state perm pt =
     do {
       region_start \<leftarrow> GetRegionAddress pt state;
       region_size \<leftarrow> GetRegionSize pt state;
       MapPages_find num_pages PageSize 0 False region_start (region_size div PageSize) state perm pt
     }"

definition MapPages :: "nat \<Rightarrow> nat \<Rightarrow> KMemoryState \<Rightarrow> KMemoryPermission \<Rightarrow> KPageTable \<Rightarrow> (Result \<times> KPageTable) option" where
  "MapPages address num_pages state perm pt =
     (let sz = mul64 num_pages PageSize in
      do {
        ok \<leftarrow> CanContain pt address sz state;
        r_unless ok ResultInvalidCurrentMemory pt
          (on_checked (CheckMemoryState pt address sz check_free DefaultMemoryIgnoreAttr) pt (\<lambda>chk.
             with_allocator (out_blocks_needed chk) (\<lambda>ua pt. do {
               (r, pt1) \<leftarrow> AllocateAndMapPagesImpl address num_pages perm pt;
               if r \<noteq> ResultSuccess then Some (r, ua, pt1)
               else map_option (Pair ResultSuccess) (Update address num_pages state perm 0 DM_Normal 0 ua pt1)
             }) pt))
      })"

definition check_unmap :: "KMemoryState \<Rightarrow> memory_check" where
  "check_unmap state = \<lparr>mc_state_mask = State_All, mc_state = state, mc_perm_mask = 0, mc_perm = 0, mc_attr_mask = Attr_All, mc_attr = 0\<rparr>"

definition UnmapPages :: "nat \<Rightarrow> nat \<Rightarrow> KMemoryState \<Rightarrow> KPageTable \<Rightarrow> (Result \<times> KPageTable) option" where
  "UnmapPages address num_pages state pt =
     (let sz = mul64 num_pages PageSize in
      r_unless (Contains_range pt address sz) ResultInvalidCurrentMemory pt
        (on_checked (CheckMemoryState pt address sz (check_unmap state) DefaultMemoryIgnoreAttr) pt (\<lambda>chk.
           with_allocator (out_blocks_needed chk) (\<lambda>ua pt. do {
             pt1 \<leftarrow> Operate address num_pages 0 Unmap 0 pt;
             map_option (Pair ResultSuccess) (Update address num_pages KMemoryState_Free 0 0 0 DM_Normal ua pt1)
           }) pt)))"

definition MapPageGroup_find ::
  "KPageGroup \<Rightarrow> nat \<Rightarrow> nat \<Rightarrow> KMemoryState \<Rightarrow> KMemoryPermission \<Rightarrow> KPageTable \<Rightarrow> ((Result \<times> nat) \<times> KPageTable) option" where
  "MapPageGroup_find pg region_start region_num_pages state perm pt =
     (let num_pages = PageGroup_GetNumPages pg in
      do {
        ok \<leftarrow> CanContain pt region_start (mul64 region_num_pages PageSize) state;
        if \<not> ok then Some ((ResultInvalidCurrentMemory, 0), pt)
        else if \<not> (num_pages < region_num_pages) then Some ((ResultOutOfMemory, 0), pt)
        else do {
          let addr = PageTable_FindFreeArea pt region_start region_num_pages num_pages PageSize 0 (GetNumGuardPages pt);
          if addr = 0 then Some ((ResultOutOfMemory, 0), pt)
          else do {
            (r, pt') \<leftarrow> with_allocator MaxBlocks (\<lambda>ua pt. do {
              pt1 \<leftarrow> MapPageGroupImpl addr pg perm pt;
              map_option (Pair ResultSuccess) (Update addr num_pages state perm 0 DM_Normal 0 ua pt1)
            }) pt;
            Some ((r, if r = ResultSuccess then addr else 0), pt')
          }
        }
      })"

definition MapPageGroup ::
  "nat \<Rightarrow> KPageGroup \<Rightarrow> KMemoryState \<Rightarrow> KMemoryPermission \<Rightarrow> KPageTable \<Rightarrow> (Result \<times> KPageTable) option" where
  "MapPageGroup addr pg state perm pt =
     (let num_pages = PageGroup_GetNumPages pg; sz = mul64 num_pages PageSize in
      do {
        ok \<leftarrow> CanContain pt addr sz state;
        r_unless ok ResultInvalidCurrentMemory pt
          (on_checked (CheckMemoryState pt addr sz check_free DefaultMemoryIgnoreAttr) pt (\<lambda>chk.
             with_allocator (out_blocks_needed chk) (\<lambda>ua pt. do {
               pt1 \<leftarrow> MapPageGroupImpl addr pg perm pt;
               map_option (Pair ResultSuccess) (Update addr num_pages state perm 0 DM_Normal 0 ua pt1)
             }) pt))
      })"

definition UnmapPageGroup :: "nat \<Rightarrow> KPageGroup \<Rightarrow> KMemoryState \<Rightarrow> KPageTable \<Rightarrow> (Result \<times> KPageTable) option" where
  "UnmapPageGroup address pg state pt =
     (let num_pages = PageGroup_GetNumPages pg; sz = mul64 num_pages PageSize in
      do {
        ok \<leftarrow> CanContain pt address sz state;
        r_unless ok ResultInvalidCurrentMemory pt
          (on_checked (CheckMemoryState pt address sz (check_unmap state) DefaultMemoryIgnoreAttr) pt (\<lambda>chk.
             r_unless (IsValidPageGroup pt pg address num_pages) ResultInvalidCurrentMemory pt
               (with_allocator (out_blocks_needed chk) (\<lambda>ua pt. do {
                  pt1 \<leftarrow> Operate address num_pages 0 Unmap 0 pt;
                  map_option (Pair ResultSuccess) (Update address num_pages KMemoryState_Free 0 0 0 DM_Normal ua pt1)
                }) pt)))
      })"

text \<open>Despite its name, no reference is opened here.\<close>

definition MakeAndOpenPageGroup ::
  "KPageGroup \<Rightarrow> nat \<Rightarrow> nat \<Rightarrow> memory_check \<Rightarrow> KPageTable \<Rightarrow> ((Result \<times> KPageGroup) \<times> KPageTable) option" where
  "MakeAndOpenPageGroup out address num_pages c pt =
     (let sz = mul64 num_pages PageSize in
      if \<not> Contains_range pt address sz then Some ((ResultInvalidCurrentMemory, out), pt)
      else do {
        x \<leftarrow> CheckMemoryState pt address sz
          (c\<lparr>mc_state_mask := mc_state_mask c OR FlagReferenceCounted, mc_state := mc_state c OR FlagReferenceCounted\<rparr>)
          DefaultMemoryIgnoreAttr;
        (case x of
           Inl r \<Rightarrow> Some ((r, out), pt)
         | Inr chk \<Rightarrow>
             (case MakePageGroup pt out address num_pages (pt_block_infos pt) of
                (r, pg, bm) \<Rightarrow> Some ((r, pg), pt\<lparr>pt_block_infos := bm\<rparr>)))
      })"

section \<open>Code memory and aliases\<close>

text \<open>The result of the allocator is not looked at, and the group's own references are never closed.\<close>

definition MapProcessCode :: "nat \<Rightarrow> nat \<Rightarrow> KMemoryState \<Rightarrow> KMemoryPermission \<Rightarrow> KPageTable \<Rightarrow> (Result \<times> KPageTable) option" where
  "MapProcessCode addr num_pages state perm pt =
     (let sz = mul64 num_pages PageSize in
      do {
        ok \<leftarrow> CanContain pt addr sz state;
        r_unless ok ResultInvalidCurrentMemory pt
          (on_checked (CheckMemoryState pt addr sz check_free DefaultMemoryIgnoreAttr) pt (\<lambda>chk.
             run_allocator (snd (UpdateAllocator_new (pt_slab pt) MaxBlocks)) (\<lambda>ua pt. do {
               (r, pg, bm, mm) \<leftarrow> AllocateAndOpen [] (pt_block_infos pt) num_pages
                 (EncodeOption Application (pt_allocation_option pt)) (pt_memory_manager pt);
               let pt1 = pt\<lparr>pt_block_infos := bm, pt_memory_manager := mm\<rparr>;
               if r \<noteq> ResultSuccess then Some (r, ua, release_group pg pt1)
               else do {
                 pt2 \<leftarrow> Operate_group addr num_pages pg MapGroup pt1;
                 (ua', pt3) \<leftarrow> Update addr num_pages state perm 0 DM_Normal 0 ua pt2;
                 Some (ResultSuccess, ua', release_group pg pt3)
               }
             }) pt))
      })"

definition perm_locked :: KMemoryPermission where
  "perm_locked = KernelRead OR NotMapped"

definition MapCodeMemory :: "nat \<Rightarrow> nat \<Rightarrow> nat \<Rightarrow> KPageTable \<Rightarrow> (Result \<times> KPageTable) option" where
  "MapCodeMemory dst_address src_address sz pt =
     do {
       ok \<leftarrow> CanContain pt dst_address sz (KState AliasCode);
       r_unless ok ResultInvalidMemoryRegion pt
         (on_checked (CheckMemoryState pt src_address sz
             \<lparr>mc_state_mask = State_All, mc_state = KState Normal, mc_perm_mask = Perm_All, mc_perm = UserReadWrite,
              mc_attr_mask = Attr_All, mc_attr = 0\<rparr> DefaultMemoryIgnoreAttr) pt (\<lambda>src.
          on_checked (CheckMemoryState pt dst_address sz check_free DefaultMemoryIgnoreAttr) pt (\<lambda>dst.
          with_allocators (out_blocks_needed src) (out_blocks_needed dst) (\<lambda>src_ua dst_ua pt. do {
            let num_pages = sz div PageSize;
            (pg, bm) \<leftarrow> AddRegionToPages pt src_address num_pages [] (pt_block_infos pt);
            pt1 \<leftarrow> Operate src_address num_pages perm_locked ChangePermissions 0 (pt\<lparr>pt_block_infos := bm\<rparr>);
            pt2 \<leftarrow> MapPageGroupImpl dst_address pg perm_locked pt1;
            (src_ua', pt3) \<leftarrow> Update src_address num_pages (out_state src) perm_locked Locked DM_Locked 0 src_ua pt2;
            (dst_ua', pt4) \<leftarrow> Update dst_address num_pages (KState AliasCode) perm_locked 0 DM_Normal 0 dst_ua pt3;
            Some (ResultSuccess, src_ua', dst_ua', release_group pg pt4)
          }) pt)))
     }"

text \<open>The loop that looks for code pages only decides whether the instruction cache is invalidated.\<close>

definition UnmapCodeMemory :: "nat \<Rightarrow> nat \<Rightarrow> nat \<Rightarrow> KPageTable \<Rightarrow> (Result \<times> KPageTable) option" where
  "UnmapCodeMemory dst_address src_address sz pt =
     do {
       ok \<leftarrow> CanContain pt dst_address sz (KState AliasCode);
       r_unless ok ResultInvalidMemoryRegion pt
         (on_checked (CheckMemoryState pt src_address sz
             \<lparr>mc_state_mask = State_All, mc_state = KState Normal, mc_perm_mask = 0, mc_perm = 0,
              mc_attr_mask = Attr_All, mc_attr = Locked\<rparr> DefaultMemoryIgnoreAttr) pt (\<lambda>src.
          on_checked (CheckMemoryStateContiguous pt dst_address sz
             \<lparr>mc_state_mask = FlagCanCodeAlias, mc_state = FlagCanCodeAlias, mc_perm_mask = 0, mc_perm = 0,
              mc_attr_mask = Attr_All, mc_attr = 0\<rparr>) pt (\<lambda>num_dst_allocator_blocks.
          with_allocators (out_blocks_needed src) num_dst_allocator_blocks (\<lambda>src_ua dst_ua pt. do {
            let num_pages = sz div PageSize;
            pt1 \<leftarrow> Operate dst_address num_pages 0 Unmap 0 pt;
            pt2 \<leftarrow> Operate src_address num_pages UserReadWrite ChangePermissions 0 pt1;
            (dst_ua', pt3) \<leftarrow> Update dst_address num_pages 0 0 0 0 DM_Normal dst_ua pt2;
            (src_ua', pt4) \<leftarrow> Update src_address num_pages (KState Normal) UserReadWrite 0 0 DM_Locked src_ua pt3;
            Some (ResultSuccess, src_ua', dst_ua', pt4)
          }) pt)))
     }"

text \<open>Of the source process only its memory blocks are read.\<close>

definition UnmapProcessMemory :: "nat \<Rightarrow> nat \<Rightarrow> KPageTable \<Rightarrow> nat \<Rightarrow> KPageTable \<Rightarrow> (Result \<times> KPageTable) option" where
  "UnmapProcessMemory dst_addr sz src_page_table src_addr pt =
     (let num_pages = sz div PageSize in
      on_checked (CheckMemoryState pt dst_addr sz
          \<lparr>mc_state_mask = State_All, mc_state = KState SharedCode, mc_perm_mask = UserReadWrite, mc_perm = UserReadWrite,
           mc_attr_mask = Attr_All, mc_attr = 0\<rparr> DefaultMemoryIgnoreAttr) pt (\<lambda>chk.
        on_checked (CheckMemoryState src_page_table src_addr sz
            \<lparr>mc_state_mask = FlagCanMapProcess, mc_state = FlagCanMapProcess, mc_perm_mask = 0, mc_perm = 0,
             mc_attr_mask = Attr_All, mc_attr = 0\<rparr> DefaultMemoryIgnoreAttr) pt (\<lambda>_.
          with_allocator (out_blocks_needed chk) (\<lambda>ua pt. do {
            pt1 \<leftarrow> Operate dst_addr num_pages 0 Unmap 0 pt;
            map_option (Pair ResultSuccess) (Update dst_addr num_pages KMemoryState_Free 0 0 0 DM_Normal ua pt1)
          }) pt)))"

definition MapMemory :: "nat \<Rightarrow> nat \<Rightarrow> nat \<Rightarrow> KPageTable \<Rightarrow> (Result \<times> KPageTable) option" where
  "MapMemory dst_address src_address sz pt =
     on_checked (CheckMemoryState pt src_address sz
         \<lparr>mc_state_mask = FlagCanAlias, mc_state = FlagCanAlias, mc_perm_mask = Perm_All, mc_perm = UserReadWrite,
          mc_attr_mask = Attr_All, mc_attr = 0\<rparr> DefaultMemoryIgnoreAttr) pt (\<lambda>src.
       on_checked (CheckMemoryState pt dst_address sz check_free DefaultMemoryIgnoreAttr) pt (\<lambda>dst.
         with_allocators (out_blocks_needed src) (out_blocks_needed dst) (\<lambda>src_ua dst_ua pt.
           let num_pages = sz div PageSize in
           case MakePageGroup pt [] src_address num_pages (pt_block_infos pt) of (r, pg, bm) \<Rightarrow>
             let pt1 = pt\<lparr>pt_block_infos := bm\<rparr> in
             if r \<noteq> ResultSuccess then Some (r, src_ua, dst_ua, release_group pg pt1)
             else do {
               pt2 \<leftarrow> Operate src_address num_pages perm_locked ChangePermissions 0 pt1;
               pt3 \<leftarrow> MapPageGroupImpl dst_address pg UserReadWrite pt2;
               (src_ua', pt4) \<leftarrow> Update src_address num_pages (out_state src) perm_locked Locked DM_Locked 0 src_ua pt3;
               (dst_ua', pt5) \<leftarrow> Update dst_address num_pages (KState Stack) UserReadWrite 0 DM_Normal 0 dst_ua pt4;
               Some (ResultSuccess, src_ua', dst_ua', release_group pg pt5)
             }) pt))"

definition UnmapMemory :: "nat \<Rightarrow> nat \<Rightarrow> nat \<Rightarrow> KPageTable \<Rightarrow> (Result \<times> KPageTable) option" where
  "UnmapMemory dst_address src_address sz pt =
     on_checked (CheckMemoryState pt src_address sz
         \<lparr>mc_state_mask = FlagCanAlias, mc_state = FlagCanAlias, mc_perm_mask = Perm_All, mc_perm = perm_locked,
          mc_attr_mask = Attr_All, mc_attr = Locked\<rparr> DefaultMemoryIgnoreAttr) pt (\<lambda>src.
       on_checked (CheckMemoryState pt dst_address sz (check_unmap (KState Stack)) DefaultMemoryIgnoreAttr) pt (\<lambda>dst.
         with_allocators (out_blocks_needed src) (out_blocks_needed dst) (\<lambda>src_ua dst_ua pt.
           let num_pages = sz div PageSize in
           case MakePageGroup pt [] dst_address num_pages (pt_block_infos pt) of (r, pg, bm) \<Rightarrow>
             let pt1 = pt\<lparr>pt_block_infos := bm\<rparr> in
             if r \<noteq> ResultSuccess then Some (r, src_ua, dst_ua, release_group pg pt1)
             else if \<not> IsValidPageGroup pt1 pg src_address num_pages
             then Some (ResultInvalidMemoryRegion, src_ua, dst_ua, release_group pg pt1)
             else do {
               pt2 \<leftarrow> Operate dst_address num_pages 0 Unmap 0 pt1;
               pt3 \<leftarrow> Operate src_address num_pages UserReadWrite ChangePermissions 0 pt2;
               (src_ua', pt4) \<leftarrow> Update src_address num_pages (out_state src) UserReadWrite 0 0 DM_Locked src_ua pt3;
               (dst_ua', pt5) \<leftarrow> Update dst_address num_pages 0 0 0 0 DM_Normal dst_ua pt4;
               Some (ResultSuccess, src_ua', dst_ua', release_group pg pt5)
             }) pt))"

section \<open>Permissions and attributes\<close>

definition SetProcessMemoryPermission :: "nat \<Rightarrow> nat \<Rightarrow> u32 \<Rightarrow> KPageTable \<Rightarrow> (Result \<times> KPageTable) option" where
  "SetProcessMemoryPermission addr sz svc_perm pt =
     (let num_pages = sz div PageSize in
      on_checked (CheckMemoryState pt addr sz
          \<lparr>mc_state_mask = FlagCode, mc_state = FlagCode, mc_perm_mask = 0, mc_perm = 0,
           mc_attr_mask = Attr_All, mc_attr = 0\<rparr> DefaultMemoryIgnoreAttr) pt (\<lambda>chk.
        let new_perm = ConvertToKMemoryPermission svc_perm;
            is_w = (new_perm AND UserWrite = UserWrite);
            was_x = (out_perm chk AND UserExecute = UserExecute);
            new_state =
              (if is_w then
                 if out_state chk = KState Code then KState CodeData
                 else if out_state chk = KState AliasCode then KState AliasCodeData
                 else out_state chk
               else out_state chk)
        in if out_perm chk = new_perm \<and> out_state chk = new_state then Some (ResultSuccess, pt)
           else
             with_allocator (out_blocks_needed chk) (\<lambda>ua pt. do {
               pt1 \<leftarrow> Operate addr num_pages new_perm (if was_x then ChangePermissionsAndRefresh else ChangePermissions) 0 pt;
               map_option (Pair ResultSuccess) (Update addr num_pages new_state new_perm 0 0 0 ua pt1)
             }) pt))"

definition SetMemoryPermission :: "nat \<Rightarrow> nat \<Rightarrow> u32 \<Rightarrow> KPageTable \<Rightarrow> (Result \<times> KPageTable) option" where
  "SetMemoryPermission addr sz svc_perm pt =
     (let num_pages = sz div PageSize in
      on_checked (CheckMemoryState pt addr sz
          \<lparr>mc_state_mask = FlagCanReprotect, mc_state = FlagCanReprotect, mc_perm_mask = 0, mc_perm = 0,
           mc_attr_mask = Attr_All, mc_attr = 0\<rparr> DefaultMemoryIgnoreAttr) pt (\<lambda>chk.
        let new_perm = ConvertToKMemoryPermission svc_perm in
        if out_perm chk = new_perm then Some (ResultSuccess, pt)
        else
          with_allocator (out_blocks_needed chk) (\<lambda>ua pt. do {
            pt1 \<leftarrow> Operate addr num_pages new_perm ChangePermissions 0 pt;
            map_option (Pair ResultSuccess) (Update addr num_pages (out_state chk) new_perm 0 0 0 ua pt1)
          }) pt))"

definition AttributeTestMask :: KMemoryAttribute where
  "AttributeTestMask = NOT (Attr_SetMask OR DeviceShared)"

definition SetMemoryAttribute :: "nat \<Rightarrow> nat \<Rightarrow> u32 \<Rightarrow> u32 \<Rightarrow> KPageTable \<Rightarrow> (Result \<times> KPageTable) option" where
  "SetMemoryAttribute addr sz msk attr pt =
     (let num_pages = sz div PageSize in
      on_checked (CheckMemoryState pt addr sz
          \<lparr>mc_state_mask = FlagCanChangeAttribute, mc_state = FlagCanChangeAttribute, mc_perm_mask = 0, mc_perm = 0,
           mc_attr_mask = AttributeTestMask, mc_attr = 0\<rparr> (NOT AttributeTestMask)) pt (\<lambda>chk.
        with_allocator (out_blocks_needed chk) (\<lambda>ua pt. do {
          let new_attr = (out_attr chk AND ucast (NOT msk)) OR ucast (attr AND msk);
          pt1 \<leftarrow> Operate addr num_pages (out_perm chk) ChangePermissionsAndRefresh 0 pt;
          map_option (Pair ResultSuccess) (Update addr num_pages (out_state chk) (out_perm chk) new_attr 0 0 ua pt1)
        }) pt))"

section \<open>The heap\<close>

definition SetMaxHeapSize :: "nat \<Rightarrow> KPageTable \<Rightarrow> Result \<times> KPageTable" where
  "SetMaxHeapSize sz pt = (ResultSuccess, pt\<lparr>pt_max_heap_size := sz\<rparr>)"

definition shrink_heap :: "nat \<Rightarrow> KPageTable \<Rightarrow> (Result \<times> KPageTable) option" where
  "shrink_heap sz pt =
     (let addr = add64 (pt_heap_region_start pt) sz in
      on_checked (CheckMemoryState pt addr (sub64 (GetHeapSize pt) sz)
          \<lparr>mc_state_mask = State_All, mc_state = KState Normal, mc_perm_mask = Perm_All, mc_perm = UserReadWrite,
           mc_attr_mask = Attr_All, mc_attr = 0\<rparr> DefaultMemoryIgnoreAttr) pt (\<lambda>chk.
        with_allocator (out_blocks_needed chk) (\<lambda>ua pt. do {
          let num_pages = sub64 (GetHeapSize pt) sz div PageSize;
          pt1 \<leftarrow> Operate addr num_pages 0 Unmap 0 pt;
          let amount = int (mul64 num_pages PageSize);
          let pt2 = pt1\<lparr>pt_resource_limit := Release (pt_resource_limit pt1) PhysicalMemoryMax amount amount\<rparr>;
          (ua', pt3) \<leftarrow> Update addr num_pages KMemoryState_Free 0 0 0 (if sz = 0 then DM_Normal else 0) ua pt2;
          Some (ResultSuccess, ua', pt3\<lparr>pt_current_heap_end := addr\<rparr>)
        }) pt))"

text \<open>The second part of growing, under the table lock: the allocated group is mapped.\<close>

definition grow_heap_map :: "nat \<Rightarrow> nat \<Rightarrow> KPageGroup \<Rightarrow> KPageTable \<Rightarrow> (Result \<times> KPageTable) option" where
  "grow_heap_map sz allocation_size pg pt =
     on_checked (CheckMemoryState pt (pt_current_heap_end pt) allocation_size check_free DefaultMemoryIgnoreAttr) pt (\<lambda>chk.
       with_allocator (out_blocks_needed chk) (\<lambda>ua pt. do {
         let num_pages = allocation_size div PageSize;
         pt1 \<leftarrow> Operate_group (pt_current_heap_end pt) num_pages pg MapGroup pt;
         (ua', pt2) \<leftarrow> Update (pt_current_heap_end pt1) num_pages (KState Normal) UserReadWrite 0
           (if pt_heap_region_start pt1 = pt_current_heap_end pt1 then DM_Normal else 0) 0 ua pt1;
         Some (ResultSuccess, ua', pt2\<lparr>pt_current_heap_end := add64 (pt_heap_region_start pt2) sz\<rparr>)
       }) pt)"

text \<open>The group's own references are never closed here either.\<close>

definition grow_heap :: "int \<Rightarrow> wakeup list \<Rightarrow> nat \<Rightarrow> KPageTable \<Rightarrow> (Result \<times> KPageTable) option" where
  "grow_heap now ws sz pt =
     (let allocation_size = sub64 sz (GetHeapSize pt) in
      with_reservation now ws allocation_size (\<lambda>pt. do {
        (r, pg, bm, mm) \<leftarrow> AllocateAndOpen [] (pt_block_infos pt) (allocation_size div PageSize)
          (EncodeOption (pt_memory_pool pt) (pt_allocation_option pt)) (pt_memory_manager pt);
        let pt1 = pt\<lparr>pt_block_infos := bm, pt_memory_manager := mm\<rparr>;
        if r \<noteq> ResultSuccess then Some (r, False, release_group pg pt1)
        else do {
          (r', pt2) \<leftarrow> grow_heap_map sz allocation_size pg pt1;
          Some (r', r' = ResultSuccess, release_group pg pt2)
        }
      }) pt)"

definition SetHeapSize :: "int \<Rightarrow> wakeup list \<Rightarrow> nat \<Rightarrow> KPageTable \<Rightarrow> ((Result \<times> nat) \<times> KPageTable) option" where
  "SetHeapSize now ws sz pt =
     (let result = (\<lambda>(r, pt'). ((r, if r = ResultSuccess then pt_heap_region_start pt' else 0), pt')) in
      if pt_is_kernel pt then Some ((ResultOutOfMemory, 0), pt)
      else if \<not> sz \<le> sub64 (pt_heap_region_end pt) (pt_heap_region_start pt) then Some ((ResultOutOfMemory, 0), pt)
      else if \<not> sz \<le> pt_max_heap_size pt then Some ((ResultOutOfMemory, 0), pt)
      else if sz < GetHeapSize pt then map_option result (shrink_heap sz pt)
      else if sz = GetHeapSize pt then Some ((ResultSuccess, pt_heap_region_start pt), pt)
      else map_option result (grow_heap now ws sz pt))"

section \<open>Device address spaces\<close>

definition check_device :: "KMemoryState \<Rightarrow> memory_check" where
  "check_device test_state =
     \<lparr>mc_state_mask = test_state, mc_state = test_state, mc_perm_mask = 0, mc_perm = 0,
      mc_attr_mask = DeviceShared OR Locked, mc_attr = DeviceShared\<rparr>"

text \<open>The output tells whether the locked memory was I/O memory.\<close>

definition LockForMapDeviceAddressSpace ::
  "nat \<Rightarrow> nat \<Rightarrow> KMemoryPermission \<Rightarrow> bool \<Rightarrow> bool \<Rightarrow> KPageTable \<Rightarrow> ((Result \<times> bool) \<times> KPageTable) option" where
  "LockForMapDeviceAddressSpace address sz perm is_aligned check_heap pt =
     (let num_pages = sz div PageSize;
          test_state = (if is_aligned then FlagCanAlignedDeviceMap else FlagCanDeviceMap) OR
            (if check_heap then FlagReferenceCounted else 0)
      in if \<not> Contains_range pt address sz then Some ((ResultInvalidCurrentMemory, False), pt)
         else do {
           x \<leftarrow> CheckMemoryState pt address sz
             \<lparr>mc_state_mask = test_state, mc_state = test_state, mc_perm_mask = perm, mc_perm = perm,
              mc_attr_mask = IpcLocked OR Locked, mc_attr = 0\<rparr> DeviceShared;
           (case x of
              Inl r \<Rightarrow> Some ((r, False), pt)
            | Inr chk \<Rightarrow>
                map_option (\<lambda>(r, pt'). ((r, r = ResultSuccess \<and> out_state chk = KState Io), pt'))
                  (with_allocator (out_blocks_needed chk) (\<lambda>ua pt.
                     map_option (Pair ResultSuccess) (UpdateLock address num_pages ShareToDevice 0 ua pt)) pt))
         })"

definition LockForUnmapDeviceAddressSpace :: "nat \<Rightarrow> nat \<Rightarrow> bool \<Rightarrow> KPageTable \<Rightarrow> (Result \<times> KPageTable) option" where
  "LockForUnmapDeviceAddressSpace address sz check_heap pt =
     (let num_pages = sz div PageSize; test_state = FlagCanDeviceMap OR (if check_heap then FlagReferenceCounted else 0)
      in r_unless (Contains_range pt address sz) ResultInvalidCurrentMemory pt
           (on_checked (CheckMemoryStateContiguous pt address sz (check_device test_state)) pt (\<lambda>num_allocator_blocks.
              with_allocator num_allocator_blocks (\<lambda>ua pt.
                map_option (Pair ResultSuccess)
                  (UpdateLock address num_pages
                     (if pt_enable_device_address_space_merge pt then UpdateDeviceDisableMergeStateForShare
                      else UpdateDeviceDisableMergeStateForShareRight) 0 ua pt)) pt)))"

definition UnlockForDeviceAddressSpace :: "nat \<Rightarrow> nat \<Rightarrow> KPageTable \<Rightarrow> (Result \<times> KPageTable) option" where
  "UnlockForDeviceAddressSpace address sz pt =
     (let num_pages = sz div PageSize in
      r_unless (Contains_range pt address sz) ResultInvalidCurrentMemory pt
        (on_checked (CheckMemoryStateContiguous pt address sz (check_device FlagCanDeviceMap)) pt (\<lambda>num_allocator_blocks.
           with_allocator num_allocator_blocks (\<lambda>ua pt.
             map_option (Pair ResultSuccess) (UpdateLock address num_pages UnshareToDevice 0 ua pt)) pt)))"

section \<open>Locking memory\<close>

text \<open>
  The output page group and the output physical address are optional; the physical address of a page that
  is not mapped is asserted only.
\<close>

definition LockMemoryAndOpen ::
  "KPageGroup option \<Rightarrow> bool \<Rightarrow> nat \<Rightarrow> nat \<Rightarrow> memory_check \<Rightarrow> KMemoryPermission \<Rightarrow> KMemoryAttribute \<Rightarrow> KPageTable
    \<Rightarrow> ((Result \<times> KPageGroup option \<times> nat option) \<times> KPageTable) option" where
  "LockMemoryAndOpen out_pg want_phys addr sz c new_perm lock_attr pt =
     (let num_pages = sz div PageSize in
      if \<not> Contains_range pt addr sz then Some ((ResultInvalidCurrentMemory, out_pg, None), pt)
      else do {
        x \<leftarrow> CheckMemoryState pt addr sz
          (c\<lparr>mc_state_mask := mc_state_mask c OR FlagReferenceCounted, mc_state := mc_state c OR FlagReferenceCounted\<rparr>)
          DefaultMemoryIgnoreAttr;
        (case x of
           Inl r \<Rightarrow> Some ((r, out_pg, None), pt)
         | Inr chk \<Rightarrow> do {
             phys \<leftarrow> (if want_phys then map_option Some (GetPhysicalAddr pt addr) else Some None);
             let (r, pg, bm) =
               (case out_pg of
                  None \<Rightarrow> (ResultSuccess, None, pt_block_infos pt)
                | Some g \<Rightarrow>
                    (case MakePageGroup pt g addr num_pages (pt_block_infos pt) of (r, g', bm) \<Rightarrow> (r, Some g', bm)));
             let pt1 = pt\<lparr>pt_block_infos := bm\<rparr>;
             if r \<noteq> ResultSuccess then Some ((r, pg, phys), pt1)
             else do {
               (r', pt2) \<leftarrow> with_allocator (out_blocks_needed chk) (\<lambda>ua pt. do {
                 let perm = (if new_perm \<noteq> 0 then new_perm else out_perm chk);
                 pt1 \<leftarrow> (if perm \<noteq> out_perm chk then Operate addr num_pages perm ChangePermissions 0 pt else Some pt);
                 map_option (Pair ResultSuccess) (Update addr num_pages (out_state chk) perm (out_attr chk OR lock_attr) DM_Locked 0 ua pt1)
               }) pt1;
               Some ((r', pg, phys), pt2)
             }
           })
      })"

definition UnlockMemory ::
  "nat \<Rightarrow> nat \<Rightarrow> memory_check \<Rightarrow> KMemoryPermission \<Rightarrow> KMemoryAttribute \<Rightarrow> KPageGroup option \<Rightarrow> KPageTable
    \<Rightarrow> (Result \<times> KPageTable) option" where
  "UnlockMemory addr sz c new_perm lock_attr pg pt =
     (let num_pages = sz div PageSize in
      r_unless (Contains_range pt addr sz) ResultInvalidCurrentMemory pt
        (on_checked (CheckMemoryState pt addr sz
            (c\<lparr>mc_state_mask := mc_state_mask c OR FlagReferenceCounted, mc_state := mc_state c OR FlagReferenceCounted\<rparr>)
            DefaultMemoryIgnoreAttr) pt (\<lambda>chk.
          r_unless (case pg of None \<Rightarrow> True | Some g \<Rightarrow> IsValidPageGroup pt g addr num_pages) ResultInvalidMemoryRegion pt
            (with_allocator (out_blocks_needed chk) (\<lambda>ua pt. do {
               let perm = (if new_perm \<noteq> 0 then new_perm else out_perm chk);
               pt1 \<leftarrow> (if perm \<noteq> out_perm chk then Operate addr num_pages perm ChangePermissions 0 pt else Some pt);
               map_option (Pair ResultSuccess)
                 (Update addr num_pages (out_state chk) perm (out_attr chk AND NOT lock_attr) 0 DM_Locked ua pt1)
             }) pt))))"

definition check_lock :: "KMemoryState \<Rightarrow> memory_check" where
  "check_lock flag =
     \<lparr>mc_state_mask = flag, mc_state = flag, mc_perm_mask = Perm_All, mc_perm = UserReadWrite, mc_attr_mask = Attr_All, mc_attr = 0\<rparr>"

definition check_unlock :: "KMemoryState \<Rightarrow> memory_check" where
  "check_unlock flag =
     \<lparr>mc_state_mask = flag, mc_state = flag, mc_perm_mask = 0, mc_perm = 0, mc_attr_mask = Attr_All, mc_attr = Locked\<rparr>"

definition LockForIpcUserBuffer :: "nat \<Rightarrow> nat \<Rightarrow> KPageTable \<Rightarrow> ((Result \<times> KPageGroup option \<times> nat option) \<times> KPageTable) option" where
  "LockForIpcUserBuffer address sz =
     LockMemoryAndOpen None True address sz (check_lock FlagCanIpcUserBuffer) (NotMapped OR KernelReadWrite) Locked"

definition UnlockForIpcUserBuffer :: "nat \<Rightarrow> nat \<Rightarrow> KPageTable \<Rightarrow> (Result \<times> KPageTable) option" where
  "UnlockForIpcUserBuffer address sz =
     UnlockMemory address sz (check_unlock FlagCanIpcUserBuffer) UserReadWrite Locked None"

definition LockForCodeMemory ::
  "KPageGroup \<Rightarrow> nat \<Rightarrow> nat \<Rightarrow> KPageTable \<Rightarrow> ((Result \<times> KPageGroup option \<times> nat option) \<times> KPageTable) option" where
  "LockForCodeMemory out addr sz =
     LockMemoryAndOpen (Some out) False addr sz (check_lock FlagCanCodeMemory) (NotMapped OR KernelReadWrite) Locked"

definition UnlockForCodeMemory :: "nat \<Rightarrow> nat \<Rightarrow> KPageGroup \<Rightarrow> KPageTable \<Rightarrow> (Result \<times> KPageTable) option" where
  "UnlockForCodeMemory addr sz pg =
     UnlockMemory addr sz (check_unlock FlagCanCodeMemory) UserReadWrite Locked (Some pg)"

section \<open>Physical memory\<close>

text \<open>The loops of \<open>MapPhysicalMemory\<close> over the blocks of a range: how much of it is mapped already,\<close>

fun mapped_size_loop :: "nat \<Rightarrow> nat \<Rightarrow> nat \<Rightarrow> node list \<Rightarrow> nat option" where
  "mapped_size_loop last_address cur_address mapped_size [] = None"
| "mapped_size_loop last_address cur_address mapped_size (n # ns) =
     (let info = snd n in
      if last_address \<le> GetLastAddress info then
        Some (if m_memory_state info \<noteq> KState Free
              then add64 mapped_size (sub64 (add64 last_address 1) cur_address) else mapped_size)
      else
        mapped_size_loop last_address (GetEndAddress info)
          (if m_memory_state info \<noteq> KState Free
           then add64 mapped_size (sub64 (GetEndAddress info) cur_address) else mapped_size) ns)"

text \<open>how many blocks an update of its free part needs,\<close>

fun blocks_needed_loop :: "nat \<Rightarrow> nat \<Rightarrow> nat \<Rightarrow> node list \<Rightarrow> nat option" where
  "blocks_needed_loop address last_address num_blocks [] = None"
| "blocks_needed_loop address last_address num_blocks (n # ns) =
     (let info = snd n; is_free = (m_memory_state info = KState Free);
          num_blocks' = num_blocks + (if is_free \<and> GetAddress info < address then 1 else 0) +
            (if is_free \<and> last_address < GetLastAddress info then 1 else 0)
      in if last_address \<le> GetLastAddress info then Some num_blocks'
         else blocks_needed_loop address last_address num_blocks' ns)"

text \<open>
  mapping the pages of a group to \<open>map_pages\<close> pages from \<open>cur_address\<close> on; the iterator is the rest of the
  group with the address and the pages left of the current block,
\<close>

function map_free_pages ::
  "KPageGroup \<Rightarrow> nat \<Rightarrow> nat \<Rightarrow> nat \<Rightarrow> nat \<Rightarrow> KPageTable \<Rightarrow> ((KPageGroup \<times> nat \<times> nat) \<times> nat \<times> KPageTable) option" where
  "map_free_pages rest phys_addr pg_pages cur_address map_pages pt =
     (if map_pages > 0 then
        (case (if pg_pages = 0 then
                 (case rest of [] \<Rightarrow> None
                  | n # rest' \<Rightarrow> Some (rest', BlockInfo_GetAddress (snd n), BlockInfo_GetNumPages (snd n)))
               else Some (rest, phys_addr, pg_pages)) of
           None \<Rightarrow> None
         | Some (rest', phys', pages') \<Rightarrow>
             let cur_pages = min pages' map_pages in
             (case Operate cur_address cur_pages UserReadWrite MapFirst phys' pt of
                None \<Rightarrow> None
              | Some pt1 \<Rightarrow>
                  map_free_pages rest' (add64 phys' (mul64 cur_pages PageSize)) (pages' - cur_pages)
                    (add64 cur_address (mul64 cur_pages PageSize)) (map_pages - cur_pages) pt1))
      else Some ((rest, phys_addr, pg_pages), cur_address, pt))"
  by pat_completeness auto
termination
  by (relation "measure (\<lambda>(rest, phys_addr, pg_pages, cur_address, map_pages, pt). length rest + map_pages)")
    (auto split: if_splits list.splits)

declare map_free_pages.simps [simp del]

text \<open>and mapping all free blocks of the range.\<close>

fun map_physical_loop :: "nat \<Rightarrow> nat \<Rightarrow> KPageGroup \<times> nat \<times> nat \<Rightarrow> node list \<Rightarrow> KPageTable \<Rightarrow> KPageTable option" where
  "map_physical_loop last_address cur_address it [] pt = None"
| "map_physical_loop last_address cur_address it (n # ns) pt =
     (let info = snd n in
      do {
        (it', _, pt1) \<leftarrow>
          (if m_memory_state info = KState Free then
             (case it of (rest, phys_addr, pg_pages) \<Rightarrow>
                map_free_pages rest phys_addr pg_pages cur_address
                  (min (sub64 (GetEndAddress info) cur_address) (sub64 (add64 last_address 1) cur_address) div PageSize) pt)
           else Some (it, cur_address, pt));
        if last_address \<le> GetLastAddress info then Some pt1
        else map_physical_loop last_address (GetEndAddress info) it' ns pt1
      })"

text \<open>
  The part under the table lock after the pages were allocated: \<open>None\<close> inside the result means that the
  mapped size has changed since it was first computed, and the operation starts again. The pages of the
  group have no reference until they are mapped, and nothing frees them when the operation fails or is
  tried again.
\<close>

definition map_physical_commit ::
  "nat \<Rightarrow> nat \<Rightarrow> nat \<Rightarrow> KPageGroup \<Rightarrow> KPageTable \<Rightarrow> (Result option \<times> KPageTable) option" where
  "map_physical_commit address sz mapped_size pg pt =
     (let last_address = sub64 (add64 address sz) 1; nodes = nodes_from pt address in
      do {
        checked_mapped_size \<leftarrow> mapped_size_loop last_address address 0 nodes;
        num_allocator_blocks \<leftarrow> blocks_needed_loop address last_address 0 nodes;
        if mapped_size \<noteq> checked_mapped_size then Some (None, pt)
        else map_option (map_prod Some id) (with_allocator num_allocator_blocks (\<lambda>ua pt. do {
          (n, rest) \<leftarrow> (case pg of [] \<Rightarrow> None | n # rest \<Rightarrow> Some (n, rest));
          pt1 \<leftarrow> map_physical_loop last_address address (rest, BlockInfo_GetAddress (snd n), BlockInfo_GetNumPages (snd n)) nodes pt;
          let pt2 = pt1\<lparr>pt_mapped_physical_memory_size := add64 (pt_mapped_physical_memory_size pt1) (sub64 sz mapped_size)\<rparr>;
          map_option (Pair ResultSuccess)
            (update_blocks (\<lambda>m ua. Manager_UpdateIfMatch m ua address (sz div PageSize) (KState Free) 0 0 (KState Normal)
               UserReadWrite 0) ua pt2)
        }) pt)
      })"

text \<open>
  Every attempt has the clock and the wake-ups of its reservation and what other threads did to the table
  between its two critical sections; an operation that needs more attempts than are given is \<open>None\<close>.
\<close>

type_synonym attempt = "int \<times> wakeup list \<times> (KPageTable \<Rightarrow> KPageTable)"

definition map_physical_attempt ::
  "attempt \<Rightarrow> nat \<Rightarrow> nat \<Rightarrow> nat \<Rightarrow> KPageTable \<Rightarrow> (Result option \<times> KPageTable) option" where
  "map_physical_attempt att address sz mapped_size pt =
     (case att of (now, ws, others) \<Rightarrow> do {
        (sr, rl) \<leftarrow> ScopedReservation_open (pt_resource_limit pt) True PhysicalMemoryMax (int (sub64 sz mapped_size))
          (now + DefaultTimeout) now ws;
        let pt1 = pt\<lparr>pt_resource_limit := rl\<rparr>;
        if \<not> sr_succeeded sr then Some (Some ResultLimitReached, pt1\<lparr>pt_resource_limit := ScopedReservation_close sr rl\<rparr>)
        else do {
          (r, pg, bm, mm) \<leftarrow> AllocateForProcess [] (pt_block_infos pt1) (sub64 sz mapped_size div PageSize)
            (pt_allocate_option pt1) (pt_memory_manager pt1);
          let pt2 = pt1\<lparr>pt_block_infos := bm, pt_memory_manager := mm\<rparr>;
          (r', pt3) \<leftarrow> (if r \<noteq> ResultSuccess then Some (Some r, pt2) else map_physical_commit address sz mapped_size pg (others pt2));
          let pt4 = release_group pg pt3;
          let sr' = (if r' = Some ResultSuccess then ScopedReservation_Commit sr else sr);
          Some (r', pt4\<lparr>pt_resource_limit := ScopedReservation_close sr' (pt_resource_limit pt4)\<rparr>)
        }
      })"

fun MapPhysicalMemory :: "nat \<Rightarrow> nat \<Rightarrow> attempt list \<Rightarrow> KPageTable \<Rightarrow> (Result \<times> KPageTable) option" where
  "MapPhysicalMemory address sz attempts pt =
     do {
       mapped_size \<leftarrow> mapped_size_loop (sub64 (add64 address sz) 1) address 0 (nodes_from pt address);
       if sz = mapped_size then Some (ResultSuccess, pt)
       else
         (case attempts of
            [] \<Rightarrow> None
          | att # attempts' \<Rightarrow> do {
              (r, pt1) \<leftarrow> map_physical_attempt att address sz mapped_size pt;
              (case r of Some r' \<Rightarrow> Some (r', pt1) | None \<Rightarrow> MapPhysicalMemory address sz attempts' pt1)
            })
     }"

declare MapPhysicalMemory.simps [simp del]

text \<open>Checking the range of \<open>UnmapPhysicalMemory\<close>: the blocks needed and the mapped size.\<close>

fun unmap_physical_check :: "nat \<Rightarrow> nat \<Rightarrow> nat \<Rightarrow> nat \<Rightarrow> nat \<Rightarrow> node list \<Rightarrow> (Result + nat \<times> nat) option" where
  "unmap_physical_check address last_address cur_address num_blocks mapped_size [] = None"
| "unmap_physical_check address last_address cur_address num_blocks mapped_size (n # ns) =
     (let info = snd n;
          is_normal = (m_memory_state info = KState Normal \<and> m_attribute info = 0);
          is_free = (m_memory_state info = KState Free);
          map_last_address = (if last_address \<ge> GetLastAddress info then GetLastAddress info else last_address);
          num_blocks' = (if is_normal then num_blocks + (if GetAddress info < address then 1 else 0) +
            (if last_address < GetLastAddress info then 1 else 0) else num_blocks);
          mapped_size' = (if is_normal then add64 mapped_size (sub64 (add64 map_last_address 1) cur_address) else mapped_size)
      in if \<not> (is_normal \<or> is_free) then Some (Inl ResultInvalidCurrentMemory)
         else if last_address \<le> GetLastAddress info then Some (Inr (num_blocks', mapped_size'))
         else unmap_physical_check address last_address (GetEndAddress info) num_blocks' mapped_size' ns)"

fun unmap_physical_loop :: "nat \<Rightarrow> nat \<Rightarrow> node list \<Rightarrow> KPageTable \<Rightarrow> KPageTable option" where
  "unmap_physical_loop last_address cur_address [] pt = None"
| "unmap_physical_loop last_address cur_address (n # ns) pt =
     (let info = snd n in
      do {
        pt1 \<leftarrow>
          (if m_memory_state info = KState Normal then
             Operate cur_address
               (min (sub64 (GetEndAddress info) cur_address) (sub64 (add64 last_address 1) cur_address) div PageSize) 0 Unmap 0 pt
           else Some pt);
        if last_address \<le> GetLastAddress info then Some pt1
        else unmap_physical_loop last_address (GetEndAddress info) ns pt1
      })"

definition UnmapPhysicalMemory :: "nat \<Rightarrow> nat \<Rightarrow> KPageTable \<Rightarrow> (Result \<times> KPageTable) option" where
  "UnmapPhysicalMemory address sz pt =
     (let last_address = sub64 (add64 address sz) 1; nodes = nodes_from pt address in
      on_checked (unmap_physical_check address last_address address 0 0 nodes) pt (\<lambda>(num_allocator_blocks, mapped_size).
        if mapped_size = 0 then Some (ResultSuccess, pt)
        else
          with_allocator num_allocator_blocks (\<lambda>ua pt. do {
            pt1 \<leftarrow> unmap_physical_loop last_address address nodes pt;
            let pt2 = pt1\<lparr>pt_mapped_physical_memory_size := sub64 (pt_mapped_physical_memory_size pt1) mapped_size,
              pt_resource_limit := Release (pt_resource_limit pt1) PhysicalMemoryMax (int mapped_size) (int mapped_size)\<rparr>;
            map_option (Pair ResultSuccess) (Update address (sz div PageSize) KMemoryState_Free 0 0 0 0 ua pt2)
          }) pt))"

end
