(* ===== verification/Memory_References.thy ===== *)
theory Memory_References
  imports K_Memory_Manager
begin

text \<open>
  The reference counts of physical pages against the page heaps (\<open>K_Memory_Manager\<close>). The invariant says
  that the free memory of a manager is exactly its pages without references, apart from pages that are
  being handed out and have no reference yet. Opening and closing references are instances of one
  interface, \<open>page_operation\<close>; its client is the loop over the managers. Allocation of page groups is
  proved to hand out free pages only, each once, and to give everything back when it fails.
\<close>

section \<open>Pages of one manager\<close>

lemma PageSize_neq_0 [simp]: "PageSize \<noteq> 0"
  by (simp add: PageSize_def)

definition page_span :: "nat \<Rightarrow> nat \<Rightarrow> nat set" where
  "page_span lo k = {lo + k * PageSize ..< lo + k * PageSize + PageSize}"

definition spans :: "nat \<Rightarrow> nat set \<Rightarrow> nat set" where
  "spans lo K = (\<Union>k\<in>K. page_span lo k)"

lemma in_page_span: "x \<in> page_span lo k \<longleftrightarrow> lo \<le> x \<and> (x - lo) div PageSize = k"
proof -
  have "(x - lo) div PageSize = k \<longleftrightarrow> k * PageSize \<le> x - lo \<and> x - lo < k * PageSize + PageSize"
    by (metis PageSize_pos add.commute div_nat_eqI dividend_less_div_times mult.commute mult_Suc_right times_div_less_eq_dividend)
  then show ?thesis unfolding page_span_def atLeastLessThan_iff by arith
qed

lemma in_spans: "x \<in> spans lo K \<longleftrightarrow> lo \<le> x \<and> (x - lo) div PageSize \<in> K"
  by (auto simp: spans_def in_page_span)

lemma spans_range: "spans lo {i ..< i + n} = {lo + i * PageSize ..< lo + i * PageSize + n * PageSize}"
proof -
  have "i \<le> x div PageSize \<and> x div PageSize < i + n \<longleftrightarrow> i * PageSize \<le> x \<and> x < (i + n) * PageSize" for x
    by (simp add: less_eq_div_iff_mult_less_eq less_mult_imp_div_less div_less_iff_less_mult)
  then show ?thesis by (force simp: in_spans algebra_simps)
qed

lemma spans_Un: "spans lo (K \<union> L) = spans lo K \<union> spans lo L"
  by (auto simp: spans_def)

lemma spans_disjoint: "K \<inter> L = {} \<Longrightarrow> spans lo K \<inter> spans lo L = {}"
  by (auto simp: in_spans)

abbreviation lo_of :: "MemoryManagerImpl \<Rightarrow> nat" where "lo_of im \<equiv> h_heap_address (mi_heap im)"

abbreviation size_of :: "MemoryManagerImpl \<Rightarrow> nat" where "size_of im \<equiv> h_heap_size (mi_heap im)"

definition page_count :: "MemoryManagerImpl \<Rightarrow> nat" where
  "page_count im = size_of im div PageSize"

definition unreferenced :: "MemoryManagerImpl \<Rightarrow> nat set" where
  "unreferenced im = {k. k < page_count im \<and> mi_page_reference_counts im ! k = 0}"

definition impl_inv :: "nat set \<Rightarrow> MemoryManagerImpl \<Rightarrow> bool" where
  "impl_inv P im \<longleftrightarrow>
     page_heap_at (lo_of im) (size_of im) (mi_heap im) \<and>
     PageSize dvd lo_of im \<and> PageSize dvd size_of im \<and> 0 < lo_of im \<and> lo_of im + size_of im < two32 * PageSize \<and>
     page_count im \<le> length (mi_page_reference_counts im) \<and>
     P \<subseteq> unreferenced im \<and> heap_free (h_blocks (mi_heap im)) = spans (lo_of im) (unreferenced im - P)"

text \<open>The manager stays where it is; only its reference counts and free pages change.\<close>

definition impl_frame :: "MemoryManagerImpl \<Rightarrow> MemoryManagerImpl \<Rightarrow> bool" where
  "impl_frame im im' \<longleftrightarrow> lo_of im' = lo_of im \<and> size_of im' = size_of im \<and> mi_pool im' = mi_pool im \<and>
     length (mi_page_reference_counts im') = length (mi_page_reference_counts im)"

lemma impl_frame_refl [simp]: "impl_frame im im"
  by (simp add: impl_frame_def)

lemma impl_frame_trans: "impl_frame a b \<Longrightarrow> impl_frame b c \<Longrightarrow> impl_frame a c"
  by (simp add: impl_frame_def)

lemma two32_bound: "x < two32 * PageSize \<Longrightarrow> x < two64"
  by (simp add: two32_def PageSize_def two64_def)

lemma page_count_mult: "impl_inv P im \<Longrightarrow> page_count im * PageSize = size_of im"
  by (simp add: impl_inv_def page_count_def)

definition range_set :: "nat \<Rightarrow> nat \<Rightarrow> (u16 \<Rightarrow> u16) \<Rightarrow> u16 list \<Rightarrow> u16 list" where
  "range_set i n g refs = map (\<lambda>k. if i \<le> k \<and> k < i + n then g (refs ! k) else refs ! k) [0 ..< length refs]"

lemma range_set_simps [simp]:
  "length (range_set i n g refs) = length refs"
  "k < length refs \<Longrightarrow> range_set i n g refs ! k = (if i \<le> k \<and> k < i + n then g (refs ! k) else refs ! k)"
  by (simp_all add: range_set_def)

lemma range_set_0 [simp]: "range_set i 0 g refs = refs"
  by (rule nth_equalityI) auto

lemma range_set_Suc:
  "i < length refs \<Longrightarrow> range_set (Suc i) n g (refs[i := g (refs ! i)]) = range_set i (Suc n) g refs"
  by (rule nth_equalityI) (auto simp: nth_list_update)

lemma open_refs_eq: "i + n \<le> length refs \<Longrightarrow> open_refs n i refs = Some (range_set i n (\<lambda>r. r + 1) refs)"
proof (induction n arbitrary: i refs)
  case (Suc n)
  then show ?case using range_set_Suc[of i refs n "\<lambda>r. r + 1"] by simp
qed simp

lemma unreferenced_range:
  assumes "{i ..< i + n} \<subseteq> unreferenced im" "n \<noteq> 0"
  shows "i + n \<le> page_count im"
proof -
  have "i + n - 1 \<in> unreferenced im" using assms by (intro subsetD[OF assms(1)]) auto
  then show ?thesis using assms(2) by (auto simp: unreferenced_def)
qed

text \<open>Freeing pending pages.\<close>

lemma Impl_Free_ok:
  assumes "impl_inv P im" "{i ..< i + n} \<subseteq> P"
  shows "\<exists>im'. Impl_Free (lo_of im + i * PageSize) n im = Some im' \<and> impl_inv (P - {i ..< i + n}) im' \<and> impl_frame im im' \<and>
    mi_page_reference_counts im' = mi_page_reference_counts im"
proof -
  let ?a = "lo_of im + i * PageSize" and ?h = "mi_heap im"
  have at: "page_heap_at (lo_of im) (size_of im) ?h" and wf: "heap_wf ?h" using assms(1) by (simp_all add: impl_inv_def page_heap_at_def)
  have sub: "{i ..< i + n} \<subseteq> unreferenced im" using assms by (auto simp: impl_inv_def)
  have free: "heap_free (h_blocks ?h) = spans (lo_of im) (unreferenced im - P)" using assms(1) by (simp add: impl_inv_def)
  have "{?a ..< ?a + n * PageSize} \<inter> heap_free (h_blocks ?h) = {}"
    unfolding free spans_range[symmetric] by (rule spans_disjoint) (use assms(2) in auto)
  moreover have "{?a ..< ?a + n * PageSize} \<subseteq> {lo_of im ..< lo_of im + size_of im}"
  proof (cases "n = 0")
    case False
    then have "i + n \<le> page_count im" using unreferenced_range[OF sub] by simp
    then have "(i + n) * PageSize \<le> size_of im" using page_count_mult[OF assms(1)] by (metis mult_le_mono1)
    then show ?thesis by (auto simp: algebra_simps)
  qed simp
  ultimately have "freeable (lo_of im) (lo_of im + size_of im) (h_blocks ?h) ?a (?a + n * PageSize)"
    by (simp add: freeable_def)
  moreover have "PageSize dvd ?a" using assms(1) by (simp add: impl_inv_def)
  ultimately obtain bs' where b: "PageHeap_Free ?a n ?h = Some (?h\<lparr>h_blocks := bs'\<rparr>)" "heap_wf (?h\<lparr>h_blocks := bs'\<rparr>)"
    "heap_free bs' = heap_free (h_blocks ?h) \<union> {?a ..< ?a + n * PageSize}" "same_shifts (h_blocks ?h) bs'"
    using PageHeap_Free_ok[OF wf] by blast
  let ?im = "im\<lparr>mi_heap := ?h\<lparr>h_blocks := bs'\<rparr>\<rparr>"
  have un: "unreferenced ?im = unreferenced im" by (simp add: unreferenced_def page_count_def)
  have "unreferenced im - (P - {i ..< i + n}) = (unreferenced im - P) \<union> {i ..< i + n}" using sub by auto
  then have "heap_free bs' = spans (lo_of im) (unreferenced im - (P - {i ..< i + n}))"
    unfolding b(3) free by (simp add: spans_Un spans_range)
  then have "impl_inv (P - {i ..< i + n}) ?im"
    using assms(1) b(2,4) un by (auto simp: impl_inv_def page_heap_at_def same_shifts_def page_count_def)
  then show ?thesis using b(1) by (auto simp: Impl_Free_def impl_frame_def)
qed

lemma free_counted_ok:
  assumes "impl_inv P im" "{fs ..< fs + fc} \<subseteq> P"
  shows "\<exists>im'. free_counted fs fc im = Some im' \<and> impl_inv (P - {fs ..< fs + fc}) im' \<and> impl_frame im im' \<and>
    mi_page_reference_counts im' = mi_page_reference_counts im"
proof (cases "fc = 0")
  case False
  have "{fs ..< fs + fc} \<subseteq> unreferenced im" using assms by (auto simp: impl_inv_def)
  from unreferenced_range[OF this] False have "fs + fc \<le> page_count im" by simp
  then have "fs * PageSize \<le> page_count im * PageSize" by simp
  then have "lo_of im + fs * PageSize < two64"
    using assms(1) page_count_mult[OF assms(1)] two32_bound[of "lo_of im + size_of im"] by (simp add: impl_inv_def)
  then have "add64 (lo_of im) (mul64 fs PageSize) = lo_of im + fs * PageSize" by (simp add: mul64_eq add64_eq)
  then show ?thesis using Impl_Free_ok[OF assms] False by (simp add: free_counted_def)
qed (use assms(1) in \<open>simp add: free_counted_def\<close>)

lemma unreferenced_dec:
  assumes "impl_inv P im" "i < page_count im" "mi_page_reference_counts im ! i \<noteq> 0"
  defines "im' \<equiv> im\<lparr>mi_page_reference_counts := (mi_page_reference_counts im)[i := mi_page_reference_counts im ! i - 1]\<rparr>"
  shows "impl_inv (if mi_page_reference_counts im ! i - 1 = 0 then insert i P else P) im'"
proof -
  let ?r = "mi_page_reference_counts im"
  have len: "i < length ?r" using assms(1,2) by (simp add: impl_inv_def)
  have un: "unreferenced im' = (if ?r ! i - 1 = 0 then insert i (unreferenced im) else unreferenced im)"
    using assms(2,3) len by (auto simp: im'_def unreferenced_def page_count_def nth_list_update)
  have i: "i \<notin> unreferenced im" "i \<notin> P" using assms(1,3) by (auto simp: unreferenced_def impl_inv_def)
  have "unreferenced im' - (if ?r ! i - 1 = 0 then insert i P else P) = unreferenced im - P" using un i by auto
  moreover have "page_count im' = page_count im" "mi_heap im' = mi_heap im" "length (mi_page_reference_counts im') = length ?r"
    by (simp_all add: im'_def page_count_def)
  ultimately show ?thesis using assms(1) un unfolding impl_inv_def by (auto split: if_splits)
qed

text \<open>The loop of \<open>Close\<close> gathers runs of pages that lost their last reference, and frees each run at once.\<close>

lemma close_refs_ok:
  assumes "impl_inv (Q \<union> {fs ..< fs + fc}) im" "fc > 0 \<Longrightarrow> fs + fc = i" "i + n \<le> page_count im" "Q \<inter> {fs ..< i + n} = {}"
    "\<forall>k. i \<le> k \<and> k < i + n \<longrightarrow> mi_page_reference_counts im ! k \<noteq> 0" "fs \<le> i"
  shows "\<exists>im'. close_refs n i fs fc im = Some im' \<and> impl_inv Q im' \<and> impl_frame im im' \<and>
    mi_page_reference_counts im' = range_set i n (\<lambda>r. r - 1) (mi_page_reference_counts im)"
  using assms
proof (induction n arbitrary: i fs fc im)
  case 0
  have "(Q \<union> {fs ..< fs + fc}) - {fs ..< fs + fc} = Q" using 0(2,4,6) by (cases "fc = 0") auto
  then show ?case using free_counted_ok[OF 0(1), of fs fc] by auto
next
  case (Suc n)
  let ?r = "mi_page_reference_counts im"
  let ?im = "im\<lparr>mi_page_reference_counts := ?r[i := ?r ! i - 1]\<rparr>"
  have i: "i < page_count im" "?r ! i \<noteq> 0" using Suc.prems(3,5) by simp_all
  have len: "i < length ?r" using i(1) Suc.prems(1) by (simp add: impl_inv_def)
  note dec = unreferenced_dec[OF Suc.prems(1) i]
  have pc: "page_count ?im = page_count im" by (simp add: page_count_def)
  have rest: "\<forall>k. Suc i \<le> k \<and> k < Suc i + n \<longrightarrow> mi_page_reference_counts ?im ! k \<noteq> 0"
    using Suc.prems(5) by (auto simp: nth_list_update)
  have fr: "impl_frame im ?im" by (simp add: impl_frame_def)
  note rs = range_set_Suc[OF len, of n "\<lambda>r. r - 1"]
  show ?case
  proof (cases "?r ! i - 1 = 0")
    case True
    define fs' where "fs' = (if fc > 0 then fs else i)"
    have run: "Q \<union> {fs' ..< fs' + Suc fc} = insert i (Q \<union> {fs ..< fs + fc})"
      using Suc.prems(2) by (auto simp: fs'_def)
    have "impl_inv (Q \<union> {fs' ..< fs' + Suc fc}) ?im" using dec True unfolding run by simp
    moreover have "fs' + Suc fc = Suc i" "Q \<inter> {fs' ..< Suc i + n} = {}" "fs' \<le> Suc i"
      using Suc.prems(2,4,6) by (auto simp: fs'_def)
    moreover have "Suc i + n \<le> page_count ?im" using Suc.prems(3) pc by simp
    ultimately obtain im' where "close_refs n (Suc i) fs' (Suc fc) ?im = Some im'" "impl_inv Q im'"
      "impl_frame ?im im'" "mi_page_reference_counts im' = range_set (Suc i) n (\<lambda>r. r - 1) (mi_page_reference_counts ?im)"
      using Suc.IH[of fs' "Suc fc" ?im "Suc i"] rest by blast
    moreover have "close_refs (Suc n) i fs fc im = close_refs n (Suc i) fs' (Suc fc) ?im"
      using len True by (cases "fc > 0") (simp_all add: Let_def fs'_def)
    ultimately show ?thesis using rs impl_frame_trans[OF fr] by auto
  next
    case False
    have inv: "impl_inv (Q \<union> {fs ..< fs + fc}) ?im" using dec False by simp
    have q: "(Q \<union> {fs ..< fs + fc}) - {fs ..< fs + fc} = Q" using Suc.prems(2,4,6) by (cases "fc = 0") auto
    obtain im2 where im2: "free_counted fs fc ?im = Some im2" "impl_inv Q im2" "impl_frame ?im im2"
      "mi_page_reference_counts im2 = mi_page_reference_counts ?im"
      using free_counted_ok[OF inv, of fs fc] q by auto
    have "impl_inv (Q \<union> {fs ..< fs + 0}) im2" using im2(2) by simp
    moreover have "Suc i + n \<le> page_count im2" using im2(3) Suc.prems(3) by (simp add: impl_frame_def page_count_def)
    moreover have "Q \<inter> {fs ..< Suc i + n} = {}" "fs \<le> Suc i" using Suc.prems(4,6) by simp_all
    moreover have "\<forall>k. Suc i \<le> k \<and> k < Suc i + n \<longrightarrow> mi_page_reference_counts im2 ! k \<noteq> 0" using rest im2(4) by simp
    ultimately obtain im' where "close_refs n (Suc i) fs 0 im2 = Some im'" "impl_inv Q im'"
      "impl_frame im2 im'" "mi_page_reference_counts im' = range_set (Suc i) n (\<lambda>r. r - 1) (mi_page_reference_counts im2)"
      using Suc.IH[of fs 0 im2 "Suc i"] by blast
    then show ?thesis using len False rs im2 impl_frame_trans[OF fr] impl_frame_trans[OF im2(3)] by (auto simp: Let_def)
  qed
qed

section \<open>All managers\<close>

abbreviation owns :: "MemoryManagerImpl \<Rightarrow> nat \<Rightarrow> bool" where
  "owns im a \<equiv> lo_of im \<le> a \<and> a < lo_of im + size_of im"

definition pending_of :: "nat set \<Rightarrow> MemoryManagerImpl \<Rightarrow> nat set" where
  "pending_of pend im = {k. k < page_count im \<and> lo_of im + k * PageSize \<in> pend}"

definition mm_inv :: "nat set \<Rightarrow> KMemoryManager \<Rightarrow> bool" where
  "mm_inv pend mm \<longleftrightarrow>
     (\<forall>i<length (mm_managers mm). impl_inv (pending_of pend (mm_managers mm ! i)) (mm_managers mm ! i) \<and>
        (\<forall>a. owns (mm_managers mm ! i) a \<longrightarrow> mm_region_attributes mm a = i)) \<and>
     (\<forall>a\<in>pend. PageSize dvd a \<and> (\<exists>i<length (mm_managers mm). owns (mm_managers mm ! i) a))"

text \<open>The reference count of a page, and whether it is in one of the heaps.\<close>

definition page_refs :: "KMemoryManager \<Rightarrow> nat \<Rightarrow> u16 option" where
  "page_refs mm a =
     (case GetManager mm a of
        None \<Rightarrow> None
      | Some i \<Rightarrow>
          let im = mm_managers mm ! i
          in if owns im a \<and> PageSize dvd a then Some (mi_page_reference_counts im ! ((a - lo_of im) div PageSize)) else None)"

definition page_available :: "KMemoryManager \<Rightarrow> nat \<Rightarrow> bool" where
  "page_available mm a \<longleftrightarrow> (\<exists>im\<in>set (mm_managers mm). a \<in> heap_free (h_blocks (mi_heap im)))"

definition mm_frame :: "KMemoryManager \<Rightarrow> KMemoryManager \<Rightarrow> bool" where
  "mm_frame mm mm' \<longleftrightarrow> mm_pool_managers mm' = mm_pool_managers mm \<and> mm_region_attributes mm' = mm_region_attributes mm \<and>
     list_all2 impl_frame (mm_managers mm) (mm_managers mm')"

lemma mm_frame_refl [simp]: "mm_frame mm mm"
  by (simp add: mm_frame_def list_all2_refl)

lemma mm_frame_trans: "mm_frame a b \<Longrightarrow> mm_frame b c \<Longrightarrow> mm_frame a c"
  unfolding mm_frame_def by (auto intro: list_all2_trans[OF impl_frame_trans])

lemma mm_invD:
  assumes "mm_inv pend mm" "i < length (mm_managers mm)"
  shows "impl_inv (pending_of pend (mm_managers mm ! i)) (mm_managers mm ! i)"
    "owns (mm_managers mm ! i) a \<Longrightarrow> GetManager mm a = Some i"
proof -
  show "impl_inv (pending_of pend (mm_managers mm ! i)) (mm_managers mm ! i)" using assms by (simp add: mm_inv_def)
  assume "owns (mm_managers mm ! i) a"
  then have "mm_region_attributes mm a = i" using assms unfolding mm_inv_def by blast
  then show "GetManager mm a = Some i" using assms(2) by (simp add: GetManager_def)
qed

lemma page_refs_Some:
  assumes "mm_inv pend mm" "page_refs mm a = Some r"
  obtains i k where "i < length (mm_managers mm)" "GetManager mm a = Some i" "a = lo_of (mm_managers mm ! i) + k * PageSize"
    "k < page_count (mm_managers mm ! i)" "r = mi_page_reference_counts (mm_managers mm ! i) ! k"
proof -
  obtain i where i: "GetManager mm a = Some i" "i < length (mm_managers mm)"
    using assms(2) by (auto simp: page_refs_def GetManager_def Let_def split: option.splits if_splits)
  let ?im = "mm_managers mm ! i"
  have o: "owns ?im a" "PageSize dvd a" "r = mi_page_reference_counts ?im ! ((a - lo_of ?im) div PageSize)"
    using assms(2) i(1) by (auto simp: page_refs_def Let_def split: if_splits)
  have inv: "impl_inv (pending_of pend ?im) ?im" using mm_invD(1)[OF assms(1) i(2)] .
  then have "PageSize dvd a - lo_of ?im" using o(2) by (simp add: impl_inv_def)
  then obtain k where k: "a = lo_of ?im + k * PageSize" using o(1) by (metis dvdE le_add_diff_inverse mult.commute)
  then have "k * PageSize < page_count ?im * PageSize" using o(1) page_count_mult[OF inv] by simp
  then have "k < page_count ?im" by simp
  moreover have "(a - lo_of ?im) div PageSize = k" using k by simp
  ultimately show ?thesis using that[OF i(2,1) k] o(3) by simp
qed

lemma page_refs_at:
  assumes "mm_inv pend mm" "i < length (mm_managers mm)" "k < page_count (mm_managers mm ! i)"
  shows "page_refs mm (lo_of (mm_managers mm ! i) + k * PageSize) = Some (mi_page_reference_counts (mm_managers mm ! i) ! k)"
proof -
  let ?im = "mm_managers mm ! i"
  note inv = mm_invD(1)[OF assms(1,2)]
  have "k * PageSize < page_count ?im * PageSize" using assms(3) by simp
  then have "owns ?im (lo_of ?im + k * PageSize)" using page_count_mult[OF inv] by simp
  then show ?thesis using mm_invD(2)[OF assms(1,2)] inv by (simp add: page_refs_def impl_inv_def)
qed

text \<open>Replacing one manager.\<close>

lemma mm_update:
  assumes inv: "mm_inv pend mm" and i: "i < length (mm_managers mm)"
    and im: "impl_inv (pending_of pend' (mm_managers mm ! i)) im'" "impl_frame (mm_managers mm ! i) im'"
    and pend: "\<And>a. \<not> owns (mm_managers mm ! i) a \<Longrightarrow> a \<in> pend' \<longleftrightarrow> a \<in> pend"
      "\<And>a. a \<in> pend' \<Longrightarrow> PageSize dvd a"
  defines "mm' \<equiv> mm\<lparr>mm_managers := (mm_managers mm)[i := im']\<rparr>"
  shows "mm_inv pend' mm'" "mm_frame mm mm'"
    "page_refs mm' a = (if owns (mm_managers mm ! i) a \<and> PageSize dvd a
       then Some (mi_page_reference_counts im' ! ((a - lo_of (mm_managers mm ! i)) div PageSize)) else page_refs mm a)"
proof -
  let ?im = "mm_managers mm ! i"
  have at: "mm_managers mm' ! j = (if j = i then im' else mm_managers mm ! j)" if "j < length (mm_managers mm)" for j
    using that by (simp add: mm'_def nth_list_update)
  have len: "length (mm_managers mm') = length (mm_managers mm)" "mm_region_attributes mm' = mm_region_attributes mm"
    by (simp_all add: mm'_def)
  have fr: "lo_of im' = lo_of ?im" "size_of im' = size_of ?im" "page_count im' = page_count ?im"
    using im(2) by (simp_all add: impl_frame_def page_count_def)
  have other: "\<not> owns ?im a" if "j < length (mm_managers mm)" "j \<noteq> i" "owns (mm_managers mm ! j) a" for j a
    using that i inv unfolding mm_inv_def by blast
  have keep: "pending_of pend' (mm_managers mm ! j) = pending_of pend (mm_managers mm ! j)" if j: "j < length (mm_managers mm)" "j \<noteq> i" for j
  proof -
    let ?jm = "mm_managers mm ! j"
    have "owns ?jm (lo_of ?jm + k * PageSize)" if "k < page_count ?jm" for k
    proof -
      have "k * PageSize < page_count ?jm * PageSize" using that by simp
      then show ?thesis using page_count_mult[OF mm_invD(1)[OF inv j(1)]] by simp
    qed
    then have "lo_of ?jm + k * PageSize \<in> pend' \<longleftrightarrow> lo_of ?jm + k * PageSize \<in> pend" if "k < page_count ?jm" for k
      using that pend(1) other[OF j] by blast
    then show ?thesis unfolding pending_of_def by blast
  qed
  have own: "owns (mm_managers mm' ! j) a = owns (mm_managers mm ! j) a" if "j < length (mm_managers mm)" for j a
    using that fr by (simp add: at)
  show "mm_inv pend' mm'"
    unfolding mm_inv_def
  proof (intro conjI allI impI ballI)
    fix j assume "j < length (mm_managers mm')"
    then have j: "j < length (mm_managers mm)" by (simp add: len)
    have "pending_of pend' im' = pending_of pend' ?im" using fr by (simp add: pending_of_def)
    then show "impl_inv (pending_of pend' (mm_managers mm' ! j)) (mm_managers mm' ! j)"
      using im(1) keep[OF j] mm_invD(1)[OF inv j] by (simp add: at j)
  next
    fix j a assume "j < length (mm_managers mm')" "owns (mm_managers mm' ! j) a"
    then show "mm_region_attributes mm' a = j" using inv own by (simp add: len mm_inv_def)
  next
    fix a assume a: "a \<in> pend'"
    show "PageSize dvd a" using pend(2)[OF a] .
    show "\<exists>j<length (mm_managers mm'). owns (mm_managers mm' ! j) a"
    proof (cases "owns ?im a")
      case True
      then show ?thesis using i own by (auto simp: len)
    next
      case False
      then obtain j where "j < length (mm_managers mm)" "owns (mm_managers mm ! j) a" using a pend(1) inv by (auto simp: mm_inv_def)
      then show ?thesis using own by (auto simp: len)
    qed
  qed
  show "mm_frame mm mm'" using im(2) i by (auto simp: mm_frame_def mm'_def list_all2_conv_all_nth nth_list_update)
  show "page_refs mm' a = (if owns ?im a \<and> PageSize dvd a
       then Some (mi_page_reference_counts im' ! ((a - lo_of ?im) div PageSize)) else page_refs mm a)"
  proof (cases "owns ?im a")
    case True
    then show ?thesis using mm_invD(2)[OF inv i True] i own[OF i] fr by (simp add: page_refs_def GetManager_def len at Let_def split: if_splits)
  next
    case False
    have "page_refs mm' a = page_refs mm a"
    proof (cases "GetManager mm a = Some i")
      case True
      then show ?thesis using False fr i by (auto simp: page_refs_def GetManager_def len at Let_def split: if_splits)
    next
      case ne: False
      then show ?thesis by (auto simp: page_refs_def GetManager_def len at Let_def split: if_splits)
    qed
    then show ?thesis using False by auto
  qed
qed

lemma set_range_pages: "set (range_pages a n) = {a + k * PageSize |k. k < n}"
  by (auto simp: range_pages_def)

lemma in_range_pages: "x \<in> set (range_pages (lo + i * PageSize) n) \<longleftrightarrow> (\<exists>k. x = lo + k * PageSize \<and> i \<le> k \<and> k < i + n)"
proof
  assume "x \<in> set (range_pages (lo + i * PageSize) n)"
  then obtain k where "x = lo + (i + k) * PageSize" "k < n" by (auto simp: set_range_pages algebra_simps)
  then show "\<exists>k. x = lo + k * PageSize \<and> i \<le> k \<and> k < i + n" by (intro exI[of _ "i + k"]) simp
next
  assume "\<exists>k. x = lo + k * PageSize \<and> i \<le> k \<and> k < i + n"
  then obtain k where k: "x = lo + k * PageSize" "i \<le> k" "k < i + n" by blast
  then have "x = lo + i * PageSize + (k - i) * PageSize" by (metis add.assoc add_mult_distrib le_add_diff_inverse)
  then show "x \<in> set (range_pages (lo + i * PageSize) n)" using k by (auto simp: set_range_pages)
qed

lemma page_offset_at:
  assumes "impl_inv P im" "k \<le> page_count im"
  shows "lo_of im + k * PageSize \<le> lo_of im + size_of im" "lo_of im + size_of im < two64"
    "Impl_GetPageOffset im (lo_of im + k * PageSize) = k"
    "Impl_GetPageOffsetToEnd im (lo_of im + k * PageSize) = page_count im - k"
proof -
  have "k * PageSize \<le> page_count im * PageSize" using assms(2) by (rule mult_le_mono1)
  then show le: "lo_of im + k * PageSize \<le> lo_of im + size_of im" using page_count_mult[OF assms(1)] by simp
  show lt: "lo_of im + size_of im < two64" using assms(1) two32_bound by (simp add: impl_inv_def)
  show "Impl_GetPageOffset im (lo_of im + k * PageSize) = k"
    using le lt by (simp add: Impl_GetPageOffset_def GetPageOffset_def sub64_eq)
  have "lo_of im + size_of im - (lo_of im + k * PageSize) = (page_count im - k) * PageSize"
    using page_count_mult[OF assms(1)] by (simp add: diff_mult_distrib)
  then show "Impl_GetPageOffsetToEnd im (lo_of im + k * PageSize) = page_count im - k"
    using le lt by (simp add: Impl_GetPageOffsetToEnd_def GetPageOffsetToEnd_def PageHeap_GetEndAddress_def add64_eq sub64_eq)
qed

text \<open>
  An operation on the pages of one manager: it applies \<open>g\<close> to the reference counts of a range of pages
  that satisfy \<open>ok\<close>, and afterwards none of them is pending.
\<close>

locale page_operation =
  fixes f :: "nat \<Rightarrow> nat \<Rightarrow> MemoryManagerImpl \<Rightarrow> MemoryManagerImpl option" and g :: "u16 \<Rightarrow> u16" and ok :: "bool \<Rightarrow> u16 \<Rightarrow> bool"
  assumes law: "impl_inv P im \<Longrightarrow> i + n \<le> page_count im \<Longrightarrow>
    (\<forall>k. i \<le> k \<and> k < i + n \<longrightarrow> ok (k \<in> P) (mi_page_reference_counts im ! k)) \<Longrightarrow>
    \<exists>im'. f (lo_of im + i * PageSize) n im = Some im' \<and> impl_inv (P - {i ..< i + n}) im' \<and> impl_frame im im' \<and>
      mi_page_reference_counts im' = range_set i n g (mi_page_reference_counts im)"
begin

definition applied :: "nat set \<Rightarrow> KMemoryManager \<Rightarrow> nat set \<Rightarrow> KMemoryManager \<Rightarrow> bool" where
  "applied pend mm S mm' \<longleftrightarrow> mm_inv (pend - S) mm' \<and> mm_frame mm mm' \<and>
     (\<forall>a. page_refs mm' a = (if a \<in> S then map_option g (page_refs mm a) else page_refs mm a))"

definition allowed :: "nat set \<Rightarrow> KMemoryManager \<Rightarrow> nat set \<Rightarrow> bool" where
  "allowed pend mm S \<longleftrightarrow> (\<forall>a\<in>S. \<exists>r. page_refs mm a = Some r \<and> ok (a \<in> pend) r)"

text \<open>The part of a range that lies in one manager.\<close>

lemma one_manager:
  assumes inv: "mm_inv pend mm" and i: "i < length (mm_managers mm)" and n: "j + n \<le> page_count (mm_managers mm ! i)"
    and al: "allowed pend mm (set (range_pages (lo_of (mm_managers mm ! i) + j * PageSize) n))"
  shows "\<exists>im'. f (lo_of (mm_managers mm ! i) + j * PageSize) n (mm_managers mm ! i) = Some im' \<and>
    applied pend mm (set (range_pages (lo_of (mm_managers mm ! i) + j * PageSize) n)) (mm\<lparr>mm_managers := (mm_managers mm)[i := im']\<rparr>)"
proof -
  let ?im = "mm_managers mm ! i" and ?S = "set (range_pages (lo_of (mm_managers mm ! i) + j * PageSize) n)"
  note iv = mm_invD(1)[OF inv i]
  have "ok (k \<in> pending_of pend ?im) (mi_page_reference_counts ?im ! k)" if "j \<le> k" "k < j + n" for k
  proof -
    have "lo_of ?im + k * PageSize \<in> ?S" using that unfolding in_range_pages by blast
    moreover have "page_refs mm (lo_of ?im + k * PageSize) = Some (mi_page_reference_counts ?im ! k)"
      using page_refs_at[OF inv i, of k] that n by simp
    ultimately show ?thesis using al that n unfolding allowed_def pending_of_def by auto
  qed
  then obtain im' where im': "f (lo_of ?im + j * PageSize) n ?im = Some im'" "impl_inv (pending_of pend ?im - {j ..< j + n}) im'"
    "impl_frame ?im im'" "mi_page_reference_counts im' = range_set j n g (mi_page_reference_counts ?im)"
    using law[OF iv n] by blast
  have own: "owns ?im a" if s: "a \<in> ?S" for a
  proof -
    obtain k where k: "a = lo_of ?im + k * PageSize" "k < j + n" using s unfolding in_range_pages by blast
    then have "k < page_count ?im" using n by simp
    moreover note k(1)
    moreover from calculation have "k * PageSize < page_count ?im * PageSize" by simp
    ultimately show ?thesis using page_count_mult[OF iv] by simp
  qed
  have "pending_of (pend - ?S) ?im = pending_of pend ?im - {j ..< j + n}"
    by (auto simp: pending_of_def in_range_pages)
  then have p: "impl_inv (pending_of (pend - ?S) ?im) im'" using im'(2) by simp
  have al': "PageSize dvd a" if "a \<in> pend - ?S" for a using that inv by (auto simp: mm_inv_def)
  have rest: "a \<in> pend - ?S \<longleftrightarrow> a \<in> pend" if "\<not> owns ?im a" for a using that own[of a] by blast
  note u = mm_update[OF inv i p im'(3) rest al']
  let ?mm = "mm\<lparr>mm_managers := (mm_managers mm)[i := im']\<rparr>"
  have r: "page_refs ?mm a = (if a \<in> ?S then map_option g (page_refs mm a) else page_refs mm a)" for a
  proof (cases "owns ?im a \<and> PageSize dvd a")
    case True
    then have "page_refs mm a = Some (mi_page_reference_counts ?im ! ((a - lo_of ?im) div PageSize))"
      using mm_invD(2)[OF inv i, of a] by (simp add: page_refs_def Let_def)
    from page_refs_Some[OF inv this] mm_invD(2)[OF inv i, of a] True
    obtain k where k: "a = lo_of ?im + k * PageSize" "k < page_count ?im" by (metis option.inject)
    then have "k < length (mi_page_reference_counts ?im)" using iv by (simp add: impl_inv_def)
    moreover have "a \<in> ?S \<longleftrightarrow> j \<le> k \<and> k < j + n" unfolding in_range_pages k(1) by auto
    moreover have "(a - lo_of ?im) div PageSize = k" using k(1) by simp
    ultimately show ?thesis using u(3)[of a] own True page_refs_at[OF inv i k(2)] k(1) im'(4) by auto
  next
    case False
    then have "page_refs ?mm a = page_refs mm a" using u(3)[of a] own by auto
    moreover have "a \<notin> ?S" using False own[of a] al by (auto simp: allowed_def page_refs_def split: option.splits if_splits)
    ultimately show ?thesis by simp
  qed
  then show ?thesis using im'(1) r u(1,2) unfolding applied_def by blast
qed

text \<open>The loop over the managers.\<close>

lemma each_manager_ok:
  assumes "mm_inv pend mm" "PageSize dvd a" "allowed pend mm (set (range_pages a n))"
  shows "\<exists>mm'. each_manager f a n mm = Some mm' \<and> applied pend mm (set (range_pages a n)) mm'"
  using assms
proof (induction n arbitrary: a mm pend rule: less_induct)
  case (less n)
  show ?case
  proof (cases "n = 0")
    case True
    then show ?thesis using less.prems(1) by (simp add: each_manager.simps[of f a 0] applied_def)
  next
    case False
    then have "a \<in> set (range_pages a n)" by (auto simp: set_range_pages)
    then obtain r where "page_refs mm a = Some r" using less.prems(3) by (auto simp: allowed_def)
    from page_refs_Some[OF less.prems(1) this] obtain i j where
      i: "i < length (mm_managers mm)" "GetManager mm a = Some i" "a = lo_of (mm_managers mm ! i) + j * PageSize"
        "j < page_count (mm_managers mm ! i)" .
    let ?im = "mm_managers mm ! i"
    define c where "c = min n (page_count ?im - j)"
    have c: "0 < c" "c \<le> n" "j + c \<le> page_count ?im" using False i(4) by (auto simp: c_def)
    note iv = mm_invD(1)[OF less.prems(1) i(1)]
    have split: "range_pages a n = range_pages a c @ range_pages (a + c * PageSize) (n - c)"
      using range_pages_append[of a c "n - c"] c(2) by simp
    have al1: "allowed pend mm (set (range_pages a c))" and al2: "allowed pend mm (set (range_pages (a + c * PageSize) (n - c)))"
      using less.prems(3) by (auto simp: allowed_def split)
    obtain im' where im': "f a c ?im = Some im'" "applied pend mm (set (range_pages a c)) (mm\<lparr>mm_managers := (mm_managers mm)[i := im']\<rparr>)"
      using one_manager[OF less.prems(1) i(1) c(3)] al1 i(3) by auto
    let ?mm = "mm\<lparr>mm_managers := (mm_managers mm)[i := im']\<rparr>"
    have ap: "mm_inv (pend - set (range_pages a c)) ?mm" "mm_frame mm ?mm"
      "\<And>b. page_refs ?mm b = (if b \<in> set (range_pages a c) then map_option g (page_refs mm b) else page_refs mm b)"
      using im'(2) by (simp_all add: applied_def)
    have dj: "b \<notin> set (range_pages a c)" if "b \<in> set (range_pages (a + c * PageSize) (n - c))" for b
      using that by (auto simp: set_range_pages simp flip: add_mult_distrib)
    have "allowed (pend - set (range_pages a c)) ?mm (set (range_pages (a + c * PageSize) (n - c)))"
      using al2 dj ap(3) by (auto simp: allowed_def)
    moreover have "PageSize dvd a + c * PageSize" using less.prems(2) by simp
    moreover have "n - c < n" using c False by simp
    ultimately obtain mm' where mm': "each_manager f (a + c * PageSize) (n - c) ?mm = Some mm'"
      "applied (pend - set (range_pages a c)) ?mm (set (range_pages (a + c * PageSize) (n - c))) mm'"
      using less.IH[OF _ ap(1)] by blast
    have "a + c * PageSize = lo_of ?im + (j + c) * PageSize" by (simp add: i(3) algebra_simps)
    then have b: "a + c * PageSize < two64" using page_offset_at(1,2)[OF iv c(3)] by simp
    then have adv: "add64 a (mul64 c PageSize) = a + c * PageSize" by (simp add: mul64_eq add64_eq)
    have "Impl_GetPageOffsetToEnd ?im a = page_count ?im - j" using page_offset_at(4)[OF iv, of j] i(3,4) by simp
    then have "each_manager f a n mm = Some mm'"
      using i(2) im'(1) mm'(1) False by (subst each_manager.simps) (simp add: c_def[symmetric] adv)
    moreover have "applied pend mm (set (range_pages a n)) mm'"
    proof -
      have "pend - set (range_pages a c) - set (range_pages (a + c * PageSize) (n - c)) = pend - set (range_pages a n)"
        unfolding split by auto
      then show ?thesis using mm'(2) ap(3) dj mm_frame_trans[OF ap(2)] unfolding applied_def by (auto simp: split)
    qed
    ultimately show ?thesis by blast
  qed
qed

text \<open>A whole group whose pages are different.\<close>

lemma group_each_ok:
  assumes "mm_inv pend mm" "group_fits pg" "distinct (group_pages pg)" "allowed pend mm (set (group_pages pg))"
  shows "\<exists>mm'. group_each (each_manager f) pg mm = Some mm' \<and> applied pend mm (set (group_pages pg)) mm'"
  using assms
proof (induction pg arbitrary: mm pend)
  case Nil
  then show ?case by (simp add: group_each_def applied_def)
next
  case (Cons n pg)
  have al1: "allowed pend mm (set (block_pages (snd n)))" and al2: "allowed pend mm (set (group_pages pg))"
    using Cons.prems(4) by (auto simp: allowed_def)
  have "PageSize dvd BlockInfo_GetAddress (snd n)" by (simp add: BlockInfo_GetAddress_def)
  from each_manager_ok[OF Cons.prems(1) this] al1
  obtain mm1 where mm1: "each_manager f (BlockInfo_GetAddress (snd n)) (BlockInfo_GetNumPages (snd n)) mm = Some mm1"
    "applied pend mm (set (block_pages (snd n))) mm1" by (auto simp: block_pages_def)
  have dj: "set (block_pages (snd n)) \<inter> set (group_pages pg) = {}" using Cons.prems(3) by simp
  have "allowed (pend - set (block_pages (snd n))) mm1 (set (group_pages pg))"
    using al2 mm1(2) dj by (fastforce simp: allowed_def applied_def)
  then obtain mm' where mm': "group_each (each_manager f) pg mm1 = Some mm'"
    "applied (pend - set (block_pages (snd n))) mm1 (set (group_pages pg)) mm'"
    using Cons.IH[of "pend - set (block_pages (snd n))" mm1] mm1(2) Cons.prems(2,3) by (auto simp: applied_def)
  have "applied pend mm (set (group_pages (n # pg))) mm'"
    using mm1(2) mm'(2) dj by (auto simp: applied_def Diff_eq Int_assoc intro: mm_frame_trans)
  then show ?case using mm1(1) mm'(1) by (simp add: group_each_def)
qed

end

definition open_ok :: "bool \<Rightarrow> u16 \<Rightarrow> bool" where
  "open_ok pending r \<longleftrightarrow> pending \<or> r \<noteq> 0 \<and> r \<noteq> 0xFFFF"

definition close_ok :: "bool \<Rightarrow> u16 \<Rightarrow> bool" where
  "close_ok pending r \<longleftrightarrow> r \<noteq> 0"

lemma u16_succ_zero: "(r :: u16) + 1 = 0 \<longleftrightarrow> r = 0xFFFF"
proof
  assume "r + 1 = 0"
  then have "r = - 1" by (metis add_eq_0_iff2)
  then show "r = 0xFFFF" by simp
qed simp

lemma open_law:
  assumes inv: "impl_inv P im" and n: "i + n \<le> page_count im"
    and ok: "\<forall>k. i \<le> k \<and> k < i + n \<longrightarrow> open_ok (k \<in> P) (mi_page_reference_counts im ! k)"
  shows "\<exists>im'. Impl_Open (lo_of im + i * PageSize) n im = Some im' \<and> impl_inv (P - {i ..< i + n}) im' \<and> impl_frame im im' \<and>
      mi_page_reference_counts im' = range_set i n (\<lambda>r. r + 1) (mi_page_reference_counts im)"
proof -
  let ?r = "mi_page_reference_counts im"
  let ?im = "im\<lparr>mi_page_reference_counts := range_set i n (\<lambda>r. r + 1) ?r\<rparr>"
  have len: "page_count im \<le> length ?r" and P: "P \<subseteq> unreferenced im" using inv by (simp_all add: impl_inv_def)
  have off: "Impl_GetPageOffset im (lo_of im + i * PageSize) = i" using page_offset_at(3)[OF inv] n by simp
  have "(i + n) * PageSize < two64" using page_offset_at(1,2)[OF inv n] by simp
  then have e: "add64 i n = i + n" by (simp add: add64_eq PageSize_def)
  have un: "unreferenced ?im = unreferenced im - {i ..< i + n}"
  proof -
    have nz: "range_set i n (\<lambda>r. r + 1) ?r ! k \<noteq> 0" if k: "i \<le> k" "k < i + n" for k
    proof -
      have "?r ! k + 1 \<noteq> 0"
      proof (cases "k \<in> P")
        case True
        then have "?r ! k = 0" using P by (auto simp: unreferenced_def)
        then show ?thesis by simp
      next
        case False
        then show ?thesis using ok k unfolding open_ok_def u16_succ_zero by blast
      qed
      then show ?thesis using k n len by simp
    qed
    have "range_set i n (\<lambda>r. r + 1) ?r ! k = 0 \<longleftrightarrow> ?r ! k = 0 \<and> \<not> (i \<le> k \<and> k < i + n)" if "k < page_count im" for k
      using that len nz[of k] by (cases "i \<le> k \<and> k < i + n") auto
    then show ?thesis by (auto simp: unreferenced_def page_count_def)
  qed
  have "unreferenced im - {i ..< i + n} - (P - {i ..< i + n}) = unreferenced im - P"
  proof -
    have "k \<in> P" if "k \<in> {i ..< i + n}" "k \<in> unreferenced im" for k using that ok by (auto simp: open_ok_def unreferenced_def)
    then show ?thesis by auto
  qed
  then have "impl_inv (P - {i ..< i + n}) ?im" using inv un P by (auto simp: impl_inv_def page_count_def)
  then show ?thesis using off e open_refs_eq[of i n ?r] n len
    by (auto simp: Impl_Open_def Let_def impl_frame_def)
qed

interpretation page_open: page_operation Impl_Open "\<lambda>r. r + 1" open_ok
  by unfold_locales (rule open_law)

lemma OpenFirst_Open: "Impl_OpenFirst = Impl_Open"
  by (simp add: fun_eq_iff Impl_OpenFirst_def Impl_Open_def)

lemma close_refs_start: "close_refs n i fs 0 im = close_refs n i fs' 0 im"
  by (induction n arbitrary: i im) (simp_all add: free_counted_def Let_def)

interpretation page_close: page_operation Impl_Close "\<lambda>r. r - 1" close_ok
proof
  fix P im i n
  assume inv: "impl_inv P im" and n: "i + n \<le> page_count im"
    and ok: "\<forall>k. i \<le> k \<and> k < i + n \<longrightarrow> close_ok (k \<in> P) (mi_page_reference_counts im ! k)"
  have off: "Impl_GetPageOffset im (lo_of im + i * PageSize) = i" using page_offset_at(3)[OF inv] n by simp
  have "(i + n) * PageSize < two64" using page_offset_at(1,2)[OF inv n] by simp
  then have e: "add64 i n = i + n" by (simp add: add64_eq PageSize_def)
  have dj: "P \<inter> {i ..< i + n} = {}" using inv ok by (auto simp: close_ok_def impl_inv_def unreferenced_def)
  then have "P - {i ..< i + n} = P" by blast
  moreover have "\<exists>im'. close_refs n i i 0 im = Some im' \<and> impl_inv P im' \<and> impl_frame im im' \<and>
    mi_page_reference_counts im' = range_set i n (\<lambda>r. r - 1) (mi_page_reference_counts im)"
    by (rule close_refs_ok) (use inv n ok dj in \<open>auto simp: close_ok_def\<close>)
  moreover have "close_refs n i 0 0 im = close_refs n i i 0 im" by (rule close_refs_start)
  ultimately show "\<exists>im'. Impl_Close (lo_of im + i * PageSize) n im = Some im' \<and> impl_inv (P - {i ..< i + n}) im' \<and> impl_frame im im' \<and>
      mi_page_reference_counts im' = range_set i n (\<lambda>r. r - 1) (mi_page_reference_counts im)"
    using off e by (simp add: Impl_Close_def)
qed

lemma available_iff:
  assumes "mm_inv pend mm" "page_refs mm a = Some r"
  shows "page_available mm a \<longleftrightarrow> r = 0 \<and> a \<notin> pend"
proof -
  obtain i k where i: "i < length (mm_managers mm)" "GetManager mm a = Some i" "a = lo_of (mm_managers mm ! i) + k * PageSize"
    "k < page_count (mm_managers mm ! i)" "r = mi_page_reference_counts (mm_managers mm ! i) ! k"
    using page_refs_Some[OF assms] .
  let ?im = "mm_managers mm ! i"
  have free: "heap_free (h_blocks (mi_heap (mm_managers mm ! j))) =
      spans (lo_of (mm_managers mm ! j)) (unreferenced (mm_managers mm ! j) - pending_of pend (mm_managers mm ! j))"
    if "j < length (mm_managers mm)" for j using mm_invD(1)[OF assms(1) that] by (simp add: impl_inv_def)
  have "j = i" if j: "j < length (mm_managers mm)" "a \<in> heap_free (h_blocks (mi_heap (mm_managers mm ! j)))" for j
  proof -
    let ?jm = "mm_managers mm ! j"
    have a: "lo_of ?jm \<le> a" "(a - lo_of ?jm) div PageSize < page_count ?jm"
      using j(2) unfolding free[OF j(1)] in_spans by (auto simp: unreferenced_def)
    from a(2) have "a - lo_of ?jm < page_count ?jm * PageSize" by (simp add: div_less_iff_less_mult)
    then have "owns ?jm a" using a(1) page_count_mult[OF mm_invD(1)[OF assms(1) j(1)]] by simp
    then show ?thesis using mm_invD(2)[OF assms(1) j(1)] i(2) by simp
  qed
  then have "page_available mm a \<longleftrightarrow> a \<in> heap_free (h_blocks (mi_heap ?im))"
    using i(1) unfolding page_available_def by (metis in_set_conv_nth)
  also have "\<dots> \<longleftrightarrow> k \<in> unreferenced ?im - pending_of pend ?im" unfolding free[OF i(1)] in_spans using i(3) by simp
  also have "\<dots> \<longleftrightarrow> r = 0 \<and> a \<notin> pend" using i(3-5) by (auto simp: unreferenced_def pending_of_def)
  finally show ?thesis .
qed

section \<open>Allocating blocks\<close>

definition in_manager :: "KMemoryManager \<Rightarrow> nat \<Rightarrow> nat \<Rightarrow> nat \<Rightarrow> bool" where
  "in_manager mm i a n \<longleftrightarrow> i < length (mm_managers mm) \<and>
     (\<exists>j. a = lo_of (mm_managers mm ! i) + j * PageSize \<and> j + n \<le> page_count (mm_managers mm ! i))"

lemma in_managerD:
  assumes "mm_inv pend mm" "in_manager mm i a n"
  shows "PageSize dvd a" "a + n * PageSize < two32 * PageSize" "0 < a" "\<And>p. p \<in> set (range_pages a n) \<Longrightarrow> owns (mm_managers mm ! i) p"
    "\<And>p. p \<in> set (range_pages a n) \<Longrightarrow> page_refs mm p \<noteq> None" "0 < n \<Longrightarrow> GetManager mm a = Some i"
    "a + n * PageSize \<le> lo_of (mm_managers mm ! i) + size_of (mm_managers mm ! i)"
proof -
  let ?im = "mm_managers mm ! i"
  obtain j where j: "i < length (mm_managers mm)" "a = lo_of ?im + j * PageSize" "j + n \<le> page_count ?im"
    using assms(2) by (auto simp: in_manager_def)
  note iv = mm_invD(1)[OF assms(1) j(1)]
  show "PageSize dvd a" "0 < a" using iv j(2) by (simp_all add: impl_inv_def)
  have "lo_of ?im + (j + n) * PageSize \<le> lo_of ?im + size_of ?im" by (rule page_offset_at(1)[OF iv j(3)])
  then show le: "a + n * PageSize \<le> lo_of ?im + size_of ?im" by (simp add: j(2) algebra_simps)
  then show "a + n * PageSize < two32 * PageSize" using iv by (simp add: impl_inv_def)
  show ow: "owns ?im p" and "page_refs mm p \<noteq> None" if p: "p \<in> set (range_pages a n)" for p
  proof -
    obtain k where k: "p = lo_of ?im + k * PageSize" "k < j + n" using p unfolding j(2) in_range_pages by blast
    then have kc: "k < page_count ?im" using j(3) by simp
    then have "k * PageSize < page_count ?im * PageSize" by simp
    then show "owns ?im p" using k(1) page_count_mult[OF iv] by simp
    show "page_refs mm p \<noteq> None" using page_refs_at[OF assms(1) j(1) kc] k(1) by simp
  qed
  assume "0 < n"
  then have "owns ?im a" using le j(2) by (intro ow) (auto simp: set_range_pages)
  then show "GetManager mm a = Some i" by (rule mm_invD(2)[OF assms(1) j(1)])
qed

lemma alloc_block_ok:
  assumes inv: "mm_inv pend mm" and i: "i < length (mm_managers mm)" and ix: "index < NumMemoryBlockPageShifts"
  defines "n \<equiv> GetBlockNumPages index"
  shows "\<exists>a mm'. with_manager i (Impl_AllocateBlock index random) mm = Some (a, mm') \<and> mm_frame mm mm' \<and> page_refs mm' = page_refs mm \<and>
    (a = 0 \<and> mm_inv pend mm' \<or>
     a \<noteq> 0 \<and> in_manager mm i a n \<and> mm_inv (pend \<union> set (range_pages a n)) mm' \<and>
       (\<forall>p\<in>set (range_pages a n). page_refs mm p = Some 0 \<and> p \<notin> pend))"
proof -
  let ?im = "mm_managers mm ! i" and ?h = "mi_heap (mm_managers mm ! i)"
  note iv = mm_invD(1)[OF inv i]
  have at: "page_heap_at (lo_of ?im) (size_of ?im) ?h" using iv by (simp add: impl_inv_def)
  have w: "GetBlockSize index = n * PageSize" using page_dvd_BlockSize[OF ix] by (simp add: n_def GetBlockNumPages_def)
  obtain a h' where r: "AllocateBlock index random ?h = Some (a, h')" "page_heap_at (lo_of ?im) (size_of ?im) h'"
    "a = 0 \<and> heap_free (h_blocks h') = heap_free (h_blocks ?h) \<or>
     a \<noteq> 0 \<and> GetBlockSize index dvd a \<and> span GetBlockSize (a, index) \<subseteq> heap_free (h_blocks ?h) \<and>
       heap_free (h_blocks h') = heap_free (h_blocks ?h) - span GetBlockSize (a, index)"
    using page_heap.alloc_law[OF at ix] by blast
  let ?im' = "?im\<lparr>mi_heap := h'\<rparr>" and ?mm = "mm\<lparr>mm_managers := (mm_managers mm)[i := ?im\<lparr>mi_heap := h'\<rparr>]\<rparr>"
  have hh: "lo_of ?im' = lo_of ?im" "size_of ?im' = size_of ?im" using r(2) by (simp_all add: page_heap_at_def)
  have fr: "impl_frame ?im ?im'" using hh by (simp add: impl_frame_def)
  have un: "unreferenced ?im' = unreferenced ?im" using hh by (simp add: unreferenced_def page_count_def)
  have wm: "with_manager i (Impl_AllocateBlock index random) mm = Some (a, ?mm)"
    using r(1) i by (simp add: with_manager_def Impl_AllocateBlock_def)
  have free: "heap_free (h_blocks ?h) = spans (lo_of ?im) (unreferenced ?im - pending_of pend ?im)" using iv by (simp add: impl_inv_def)
  have refs: "page_refs ?mm = page_refs mm" if "mm_inv pend mm" "\<And>p. page_refs ?mm p = (if owns ?im p \<and> PageSize dvd p
       then Some (mi_page_reference_counts ?im' ! ((p - lo_of ?im) div PageSize)) else page_refs mm p)"
    using that(2) mm_invD(2)[OF inv i] by (auto simp: fun_eq_iff page_refs_def[of mm] Let_def)
  show ?thesis using r(3)
  proof (elim disjE conjE)
    assume a: "a = 0" "heap_free (h_blocks h') = heap_free (h_blocks ?h)"
    have p: "impl_inv (pending_of pend ?im) ?im'" using iv r(2) a(2) un hh unfolding impl_inv_def by (simp add: page_count_def)
    have al: "PageSize dvd x" if "x \<in> pend" for x using that inv by (simp add: mm_inv_def)
    note u = mm_update[OF inv i p fr refl al]
    then show ?thesis using wm a(1) refs[OF inv u(3)] by blast
  next
    assume a: "a \<noteq> 0" "GetBlockSize index dvd a" "span GetBlockSize (a, index) \<subseteq> heap_free (h_blocks ?h)"
      "heap_free (h_blocks h') = heap_free (h_blocks ?h) - span GetBlockSize (a, index)"
    define K where "K = unreferenced ?im - pending_of pend ?im"
    have sp: "span GetBlockSize (a, index) = {a ..< a + n * PageSize}" by (simp add: span_def w)
    have "GetBlockSize index \<noteq> 0" by (simp add: GetBlockSize_def)
    then have n0: "0 < n" using w by (cases "n = 0") simp_all
    then have "a \<in> {a ..< a + n * PageSize}" by simp
    then have "a \<in> spans (lo_of ?im) K" using a(3) unfolding sp free K_def by blast
    then have lo: "lo_of ?im \<le> a" by (simp add: in_spans)
    have "PageSize dvd a" using dvd_trans[OF page_dvd_BlockSize[OF ix] a(2)] .
    moreover have "PageSize dvd lo_of ?im" using iv by (simp add: impl_inv_def)
    ultimately have "PageSize dvd a - lo_of ?im" by simp
    then obtain j where j: "a = lo_of ?im + j * PageSize" using lo by (metis dvdE le_add_diff_inverse mult.commute)
    have J: "{a ..< a + n * PageSize} = spans (lo_of ?im) {j ..< j + n}" unfolding spans_range j ..
    have sub: "{j ..< j + n} \<subseteq> K"
    proof
      fix k assume "k \<in> {j ..< j + n}"
      then have "lo_of ?im + k * PageSize \<in> spans (lo_of ?im) {j ..< j + n}" by (simp add: in_spans)
      then have "lo_of ?im + k * PageSize \<in> spans (lo_of ?im) K" using a(3) unfolding sp free K_def J by blast
      then show "k \<in> K" by (simp add: in_spans)
    qed
    have jn: "j + n \<le> page_count ?im" by (rule unreferenced_range) (use sub n0 in \<open>auto simp: K_def\<close>)
    then have im: "in_manager mm i a n" using i j by (auto simp: in_manager_def)
    note D = in_managerD[OF inv im]
    let ?S = "set (range_pages a n)"
    have pen: "pending_of (pend \<union> ?S) ?im = pending_of pend ?im \<union> {j ..< j + n}"
      using jn by (auto simp: pending_of_def j in_range_pages)
    have "spans (lo_of ?im) K - spans (lo_of ?im) {j ..< j + n} = spans (lo_of ?im) (K - {j ..< j + n})" by (auto simp: in_spans)
    then have "heap_free (h_blocks h') = spans (lo_of ?im) (unreferenced ?im - (pending_of pend ?im \<union> {j ..< j + n}))"
      using a(4) unfolding sp free J K_def by (simp add: Diff_eq Int_assoc)
    moreover have "pending_of pend ?im \<union> {j ..< j + n} \<subseteq> unreferenced ?im" using sub iv by (auto simp: K_def impl_inv_def)
    ultimately have p: "impl_inv (pending_of (pend \<union> ?S) ?im) ?im'" unfolding pen
      using iv r(2) un hh unfolding impl_inv_def by (simp add: page_count_def)
    have al: "PageSize dvd x" if "x \<in> pend \<union> ?S" for x
      using that inv \<open>PageSize dvd a\<close> by (auto simp: mm_inv_def set_range_pages)
    have rest: "x \<in> pend \<union> ?S \<longleftrightarrow> x \<in> pend" if "\<not> owns ?im x" for x using that D(4)[of x] by blast
    note u = mm_update[OF inv i p fr rest al]
    have "page_refs mm p = Some 0 \<and> p \<notin> pend" if pS: "p \<in> ?S" for p
    proof -
      obtain k where k: "p = lo_of ?im + k * PageSize" "j \<le> k" "k < j + n" using pS unfolding j in_range_pages by blast
      then have "k \<in> K" "k < page_count ?im" using sub jn by auto
      then show ?thesis using page_refs_at[OF inv i, of k] k(1) by (auto simp: K_def unreferenced_def pending_of_def)
    qed
    then show ?thesis using wm a(1) im u(1,2) refs[OF inv u(3)] by blast
  qed
qed

lemma free_block_ok:
  assumes inv: "mm_inv pend mm" and im: "in_manager mm i a n" and S: "set (range_pages a n) \<subseteq> pend"
  shows "\<exists>mm'. with_manager i (\<lambda>im. map_option (Pair ()) (Impl_Free a n im)) mm = Some ((), mm') \<and>
    mm_inv (pend - set (range_pages a n)) mm' \<and> mm_frame mm mm' \<and> page_refs mm' = page_refs mm"
proof -
  let ?im = "mm_managers mm ! i" and ?S = "set (range_pages a n)"
  obtain j where j: "i < length (mm_managers mm)" "a = lo_of ?im + j * PageSize" "j + n \<le> page_count ?im"
    using im by (auto simp: in_manager_def)
  note iv = mm_invD(1)[OF inv j(1)] and D = in_managerD[OF inv im]
  have "{j ..< j + n} \<subseteq> pending_of pend ?im" using S j(3) by (auto simp: pending_of_def j(2) in_range_pages subset_iff)
  from Impl_Free_ok[OF iv this] obtain im' where im': "Impl_Free a n ?im = Some im'"
    "impl_inv (pending_of pend ?im - {j ..< j + n}) im'" "impl_frame ?im im'"
    "mi_page_reference_counts im' = mi_page_reference_counts ?im" using j(2) by auto
  have "pending_of (pend - ?S) ?im = pending_of pend ?im - {j ..< j + n}" by (auto simp: pending_of_def j(2) in_range_pages)
  then have p: "impl_inv (pending_of (pend - ?S) ?im) im'" using im'(2) by simp
  have al: "PageSize dvd x" if "x \<in> pend - ?S" for x using that inv by (auto simp: mm_inv_def)
  have rest: "x \<in> pend - ?S \<longleftrightarrow> x \<in> pend" if "\<not> owns ?im x" for x using that D(4)[of x] by blast
  note u = mm_update[OF inv j(1) p im'(3) rest al]
  have "page_refs (mm\<lparr>mm_managers := (mm_managers mm)[i := im']\<rparr>) = page_refs mm"
    using u(3) mm_invD(2)[OF inv j(1)] im'(4) by (auto simp: fun_eq_iff page_refs_def[of mm] Let_def)
  then show ?thesis using im'(1) j(1) u(1,2) by (simp add: with_manager_def)
qed

end
