(* ===== verification/Memory_Allocation.thy ===== *)
theory Memory_Allocation
  imports Memory_References
begin

text \<open>
  Page groups allocated from the memory manager (\<open>K_Memory_Manager\<close>), and the properties of the manager:
  an allocation hands out pages that were free, each once, with one reference, or fails and leaves every
  page as it was; closing references frees exactly the pages that lose their last one.
\<close>

section \<open>Allocating page groups\<close>

lemma in_manager_frame:
  assumes "mm_frame mm mm'"
  shows "in_manager mm' i a n = in_manager mm i a n"
proof -
  have "length (mm_managers mm') = length (mm_managers mm)"
    "i < length (mm_managers mm) \<Longrightarrow> impl_frame (mm_managers mm ! i) (mm_managers mm' ! i)"
    using assms by (auto simp: mm_frame_def list_all2_conv_all_nth)
  then show ?thesis by (auto simp: in_manager_def impl_frame_def page_count_def)
qed

definition node_in :: "KMemoryManager \<Rightarrow> nat list \<Rightarrow> nat \<times> KBlockInfo \<Rightarrow> bool" where
  "node_in mm is n \<longleftrightarrow> (\<exists>i\<in>set is. in_manager mm i (BlockInfo_GetAddress (snd n)) (BlockInfo_GetNumPages (snd n)))"

text \<open>No manager of the list begins where another one ends, so that no block of a group crosses managers.\<close>

definition managers_apart :: "KMemoryManager \<Rightarrow> nat list \<Rightarrow> bool" where
  "managers_apart mm is \<longleftrightarrow> (\<forall>i\<in>set is. i < length (mm_managers mm) \<and>
     (\<forall>j\<in>set is. lo_of (mm_managers mm ! j) \<noteq> lo_of (mm_managers mm ! i) + size_of (mm_managers mm ! i)))"

lemma managers_apart_frame:
  assumes "mm_frame mm mm'"
  shows "managers_apart mm' is = managers_apart mm is"
proof -
  have "length (mm_managers mm') = length (mm_managers mm)"
    "\<And>i. i < length (mm_managers mm) \<Longrightarrow> impl_frame (mm_managers mm ! i) (mm_managers mm' ! i)"
    using assms by (auto simp: mm_frame_def list_all2_conv_all_nth)
  then show ?thesis unfolding managers_apart_def impl_frame_def by metis
qed

lemma AddBlock_cases:
  assumes "AddBlock a np pg bm = (r, pg', bm')" "0 < np"
  shows "(\<exists>p. r = ResultSuccess \<and> pg' = pg @ [(p, BlockInfo_Initialize a np)]) \<or>
    (\<exists>xs q b b'. r = ResultSuccess \<and> pg = xs @ [(q, b)] \<and> TryConcatenate a np b = Some b' \<and> pg' = xs @ [(q, b')]) \<or>
    r = ResultOutOfResource \<and> pg' = pg"
proof (cases "if pg = [] then None else TryConcatenate a np (snd (last pg))")
  case None
  then show ?thesis using assms by (auto simp: AddBlock_def split: prod.splits option.splits)
next
  case (Some b)
  then have "pg \<noteq> []" "TryConcatenate a np (snd (last pg)) = Some b" by (auto split: if_splits)
  moreover then obtain xs q c where "pg = xs @ [(q, c)]" by (metis rev_exhaust surj_pair)
  ultimately show ?thesis using assms Some by (auto simp: AddBlock_def)
qed

text \<open>A block that continues the last one of the group lies in the same manager.\<close>

lemma node_in_concat:
  assumes inv: "mm_inv pend mm" and ap: "managers_apart mm is" and b: "node_in mm is (q, b)" "block_fits b"
    and a: "j \<in> set is" "in_manager mm j a np" "0 < np" and t: "TryConcatenate a np b = Some b'"
  shows "node_in mm is (q, b')"
proof -
  obtain i where i: "i \<in> set is" "in_manager mm i (BlockInfo_GetAddress b) (BlockInfo_GetNumPages b)"
    using b(1) by (auto simp: node_in_def)
  let ?im = "mm_managers mm ! i" and ?jm = "mm_managers mm ! j" and ?A = "BlockInfo_GetAddress b" and ?N = "BlockInfo_GetNumPages b"
  note Di = in_managerD[OF inv i(2)] and Dj = in_managerD[OF inv a(2)]
  have N: "0 < ?N" using b(2) by (simp add: block_fits_def BlockInfo_GetNumPages_def)
  have e: "a = ?A + ?N * PageSize"
    using t b(2) by (auto simp: TryConcatenate_def BlockInfo_GetEndAddress_def BlockInfo_GetAddress_def BlockInfo_GetNumPages_def
        block_fits_def algebra_simps split: if_splits)
  have oj: "owns ?jm a" by (rule Dj(4)) (use a(3) in \<open>auto simp: set_range_pages\<close>)
  have oi: "owns ?im ?A" by (rule Di(4)) (use N in \<open>auto simp: set_range_pages\<close>)
  have "0 < ?N * PageSize" using N by simp
  then have pred: "owns ?im (a - 1)" using Di(7) oi e by (intro conjI; linarith)
  have eq: "i = j"
  proof (cases "a = lo_of ?jm")
    case True
    then have "a \<noteq> lo_of ?im + size_of ?im" using ap i(1) a(1) unfolding managers_apart_def by metis
    then have "owns ?im a" using Di(7) oi e by simp
    then show ?thesis using mm_invD(2)[OF inv, of i a] Dj(6)[OF a(3)] i(2) by (simp add: in_manager_def)
  next
    case False
    then have "owns ?jm (a - 1)" using oj by auto
    then show ?thesis using mm_invD(2)[OF inv, of j "a - 1"] mm_invD(2)[OF inv, of i "a - 1"] pred i(2) a(2) by (simp add: in_manager_def)
  qed
  obtain ja where ja: "a = lo_of ?im + ja * PageSize" "ja + np \<le> page_count ?im" using a(2) eq by (auto simp: in_manager_def)
  obtain jb where jb: "?A = lo_of ?im + jb * PageSize" "jb + ?N \<le> page_count ?im" using i(2) by (auto simp: in_manager_def)
  have "ja * PageSize = (jb + ?N) * PageSize" using ja(1) jb(1) e by (simp add: algebra_simps)
  then have jj: "ja = jb + ?N" by simp
  have "a + np * PageSize < two32 * PageSize" by (rule Dj(2))
  then have "(bi_page_index b + bi_num_pages b + np) * PageSize < two32 * PageSize"
    using e by (simp add: BlockInfo_GetAddress_def BlockInfo_GetNumPages_def algebra_simps)
  then have "bi_page_index b + bi_num_pages b + np < two32" by simp
  then have "b' = b\<lparr>bi_num_pages := bi_num_pages b + np\<rparr>" using t by (auto simp: TryConcatenate_def split: if_splits)
  then have "BlockInfo_GetAddress b' = ?A" "BlockInfo_GetNumPages b' = ?N + np"
    by (simp_all add: BlockInfo_GetAddress_def BlockInfo_GetNumPages_def)
  then have "in_manager mm i (BlockInfo_GetAddress b') (BlockInfo_GetNumPages b')"
    using i(2) jb(1) ja(2) jj unfolding in_manager_def by (auto intro!: exI[of _ jb])
  then show ?thesis using i(1) by (auto simp: node_in_def)
qed

text \<open>What the allocation loops keep: the pages of the group are pending, and nothing else has changed.\<close>

definition group_inv :: "KMemoryManager \<Rightarrow> nat list \<Rightarrow> nat \<Rightarrow> group_state \<Rightarrow> bool" where
  "group_inv mm is n st \<longleftrightarrow>
     mm_inv (set (group_pages (gs_group st))) (gs_manager st) \<and> mm_frame mm (gs_manager st) \<and>
     page_refs (gs_manager st) = page_refs mm \<and> group_fits (gs_group st) \<and> distinct (group_pages (gs_group st)) \<and>
     (\<forall>x\<in>set (gs_group st). node_in mm is x) \<and> length (group_pages (gs_group st)) + gs_missing st = n \<and>
     (\<forall>p\<in>set (group_pages (gs_group st)). page_refs mm p = Some 0)"

lemma alloc_blocks_ok:
  assumes "group_inv mm is n st" "managers_apart mm is" "i \<in> set is" "index < NumMemoryBlockPageShifts"
  shows "\<exists>r st'. alloc_blocks index (GetBlockNumPages index) random i st = Some (r, st') \<and> group_inv mm is n st' \<and>
    r \<in> {ResultSuccess, ResultOutOfResource}"
  using assms
proof (induction "gs_missing st" arbitrary: st rule: less_induct)
  case less
  let ?np = "GetBlockNumPages index" and ?pg = "gs_group st" and ?mm = "gs_manager st"
  note inv = less.prems(1)[unfolded group_inv_def]
  show ?case
  proof (cases "0 < ?np \<and> ?np \<le> gs_missing st")
    case False
    then show ?thesis using less.prems(1) by (subst alloc_blocks.simps) auto
  next
    case True
    have fr: "mm_frame mm ?mm" using inv by simp
    have i: "i < length (mm_managers ?mm)"
      using less.prems(2,3) managers_apart_frame[OF fr, of "is"] by (auto simp: managers_apart_def)
    obtain a mm1 where a: "with_manager i (Impl_AllocateBlock index random) ?mm = Some (a, mm1)" "mm_frame ?mm mm1"
      "page_refs mm1 = page_refs ?mm" "a = 0 \<and> mm_inv (set (group_pages ?pg)) mm1 \<or>
       a \<noteq> 0 \<and> in_manager ?mm i a ?np \<and> mm_inv (set (group_pages ?pg) \<union> set (range_pages a ?np)) mm1 \<and>
         (\<forall>p\<in>set (range_pages a ?np). page_refs ?mm p = Some 0 \<and> p \<notin> set (group_pages ?pg))"
      using alloc_block_ok[OF _ i less.prems(4), of "set (group_pages ?pg)" random] inv by blast
    show ?thesis
    proof (cases "a = 0")
      case z: True
      have "group_inv mm is n (st\<lparr>gs_manager := mm1\<rparr>)"
        using inv a z mm_frame_trans[OF fr a(2)] unfolding group_inv_def by auto
      then show ?thesis using a(1) z True by (subst alloc_blocks.simps) auto
    next
      case nz: False
      have m: "in_manager ?mm i a ?np" "mm_inv (set (group_pages ?pg) \<union> set (range_pages a ?np)) mm1"
        "\<forall>p\<in>set (range_pages a ?np). page_refs ?mm p = Some 0 \<and> p \<notin> set (group_pages ?pg)" using a(4) nz by auto
      have mi: "mm_inv (set (group_pages ?pg)) ?mm" using inv by simp
      note D = in_managerD[OF mi m(1)]
      have mm: "in_manager mm i a ?np" using m(1) in_manager_frame[OF fr] by simp
      have dist: "distinct (range_pages a ?np)" by (auto simp: range_pages_def distinct_map inj_on_def)
      obtain r pg bm where ab: "AddBlock a ?np ?pg (gs_block_infos st) = (r, pg, bm)" by (metis prod_cases3)
      have "group_fits ?pg" using inv by simp
      note P = AddBlock_pages[OF ab this D(1,2)]
      show ?thesis
      proof (cases "r = ResultSuccess")
        case True2: True
        let ?st = "st\<lparr>gs_group := pg, gs_block_infos := bm, gs_manager := mm1, gs_missing := gs_missing st - ?np\<rparr>"
        have pages: "group_pages pg = group_pages ?pg @ range_pages a ?np" by (rule P(2)[OF True2])
        have nodes: "\<forall>x\<in>set pg. node_in mm is x"
        proof -
          have old: "\<forall>x\<in>set ?pg. node_in mm is x" using inv by simp
          consider p where "pg = ?pg @ [(p, BlockInfo_Initialize a ?np)]"
            | xs q b b' where "?pg = xs @ [(q, b)]" "TryConcatenate a ?np b = Some b'" "pg = xs @ [(q, b')]"
            using AddBlock_cases[OF ab] True True2 by auto
          then show ?thesis
          proof cases
            case 1
            then show ?thesis using old mm less.prems(3) BlockInfo_Initialize_fits(2,3)[OF D(1,2)] True
              by (auto simp: node_in_def)
          next
            case 2
            have "node_in ?mm is (q, b')"
            proof (rule node_in_concat[OF mi _ _ _ less.prems(3) m(1) _ 2(2)])
              show "managers_apart ?mm is" using less.prems(2) managers_apart_frame[OF fr] by simp
              show "node_in ?mm is (q, b)" using old 2(1) in_manager_frame[OF fr] by (auto simp: node_in_def)
              show "block_fits b" using inv 2(1) by simp
              show "0 < ?np" using True by simp
            qed
            then show ?thesis using old 2(1,3) in_manager_frame[OF fr] by (auto simp: node_in_def)
          qed
        qed
        have "group_inv mm is n ?st"
          using inv m(2,3) pages nodes P(1) a(3) dist True mm_frame_trans[OF fr a(2)] unfolding group_inv_def by auto
        moreover have "gs_missing ?st < gs_missing st" using True by simp
        ultimately obtain r' st' where "alloc_blocks index ?np random i ?st = Some (r', st')" "group_inv mm is n st'"
          "r' \<in> {ResultSuccess, ResultOutOfResource}"
          using less.hyps less.prems(2-4) by blast
        then show ?thesis using a(1) nz True ab True2 by (subst alloc_blocks.simps) simp
      next
        case F: False
        have r: "r = ResultOutOfResource" "pg = ?pg" using P(3)[OF F] by auto
        have "in_manager mm1 i a ?np" using m(1) in_manager_frame[OF a(2)] by simp
        from free_block_ok[OF m(2) this] obtain mm2 where
          mm2: "with_manager i (\<lambda>im. map_option (Pair ()) (Impl_Free a ?np im)) mm1 = Some ((), mm2)"
            "mm_inv (set (group_pages ?pg) \<union> set (range_pages a ?np) - set (range_pages a ?np)) mm2" "mm_frame mm1 mm2"
            "page_refs mm2 = page_refs mm1" by auto
        have "set (group_pages ?pg) \<union> set (range_pages a ?np) - set (range_pages a ?np) = set (group_pages ?pg)"
          using m(3) by auto
        then have "group_inv mm is n (st\<lparr>gs_group := pg, gs_block_infos := bm, gs_manager := mm2\<rparr>)"
          using inv mm2 a(3) r(2) mm_frame_trans[OF fr mm_frame_trans[OF a(2) mm2(3)]] unfolding group_inv_def by auto
        then show ?thesis using a(1) nz True ab F r(1) mm2(1) by (subst alloc_blocks.simps) simp
      qed
    qed
  qed
qed

lemma alloc_managers_ok:
  assumes "group_inv mm is n st" "managers_apart mm is" "set js \<subseteq> set is" "index < NumMemoryBlockPageShifts"
  shows "\<exists>r st'. alloc_managers js index random st = Some (r, st') \<and> group_inv mm is n st' \<and> r \<in> {ResultSuccess, ResultOutOfResource}"
  using assms(1,3)
proof (induction js arbitrary: st)
  case (Cons j js)
  then obtain r st1 where 1: "alloc_blocks index (GetBlockNumPages index) random j st = Some (r, st1)" "group_inv mm is n st1"
    "r \<in> {ResultSuccess, ResultOutOfResource}" using alloc_blocks_ok[OF Cons.prems(1) assms(2) _ assms(4), of j random] by auto
  then show ?case using Cons.IH[OF 1(2)] Cons.prems(2) by auto
qed simp

lemma alloc_sizes_ok:
  assumes "group_inv mm is n st" "managers_apart mm is" "k \<le> NumMemoryBlockPageShifts"
  shows "\<exists>r st'. alloc_sizes k is random st = Some (r, st') \<and> group_inv mm is n st' \<and> r \<in> {ResultSuccess, ResultOutOfResource}"
  using assms(1,3)
proof (induction k arbitrary: st)
  case (Suc k)
  then obtain r st1 where 1: "alloc_managers is k random st = Some (r, st1)" "group_inv mm is n st1"
    "r \<in> {ResultSuccess, ResultOutOfResource}" using alloc_managers_ok[OF Suc.prems(1) assms(2) subset_refl, of k random] by auto
  then show ?case using Suc.IH[OF 1(2)] Suc.prems by auto
qed simp

text \<open>A failed allocation gives every block of the group back.\<close>

lemma free_group_ok:
  assumes "mm_inv (set (group_pages pg)) mm" "\<forall>x\<in>set pg. node_in mm is x" "distinct (group_pages pg)" "group_fits pg"
  shows "\<exists>mm'. free_group pg mm = Some mm' \<and> mm_inv {} mm' \<and> mm_frame mm mm' \<and> page_refs mm' = page_refs mm"
  using assms
proof (induction pg arbitrary: mm)
  case Nil
  then show ?case by simp
next
  case (Cons x pg)
  let ?a = "BlockInfo_GetAddress (snd x)" and ?n = "BlockInfo_GetNumPages (snd x)"
  obtain i where i: "in_manager mm i ?a ?n" using Cons.prems(2) by (auto simp: node_in_def)
  note D = in_managerD[OF Cons.prems(1) i]
  have n: "0 < ?n" using Cons.prems(4) by (simp add: block_fits_def BlockInfo_GetNumPages_def)
  let ?im = "mm_managers mm ! i"
  have il: "i < length (mm_managers mm)" using i by (simp add: in_manager_def)
  have lt: "lo_of ?im + size_of ?im < two64"
    using page_offset_at(2)[OF mm_invD(1)[OF Cons.prems(1) il] le0] .
  have "?n * PageSize \<le> lo_of ?im + size_of ?im - ?a" using D(7) by simp
  then have "?n \<le> sub64 (Impl_GetEndAddress ?im) ?a div PageSize"
    using D(7) lt by (simp add: Impl_GetEndAddress_def PageHeap_GetEndAddress_def add64_eq sub64_eq less_eq_div_iff_mult_less_eq)
  then have mn: "min ?n (sub64 (Impl_GetEndAddress ?im) ?a div PageSize) = ?n" by simp
  have sub: "set (range_pages ?a ?n) \<subseteq> set (group_pages (x # pg))" by (auto simp: block_pages_def)
  obtain mm1 where 1: "with_manager i (\<lambda>im. map_option (Pair ()) (Impl_Free ?a ?n im)) mm = Some ((), mm1)"
    "mm_inv (set (group_pages (x # pg)) - set (range_pages ?a ?n)) mm1" "mm_frame mm mm1" "page_refs mm1 = page_refs mm"
    using free_block_ok[OF Cons.prems(1) i sub] by blast
  have "set (group_pages (x # pg)) - set (range_pages ?a ?n) = set (group_pages pg)"
    using Cons.prems(3) by (auto simp: block_pages_def)
  then obtain mm' where mm': "free_group pg mm1 = Some mm'" "mm_inv {} mm'" "mm_frame mm1 mm'" "page_refs mm' = page_refs mm1"
    using Cons.IH[of mm1] 1(2) Cons.prems(2-4) in_manager_frame[OF 1(3)] by (auto simp: node_in_def)
  have "with_manager i (\<lambda>im. map_option (Pair ()) (Impl_Free ?a (min ?n (sub64 (Impl_GetEndAddress im) ?a div PageSize)) im)) mm
      = Some ((), mm1)" using 1(1) il mn by (simp add: with_manager_def)
  then show ?case using D(6)[OF n] mm' 1(4) mm_frame_trans[OF 1(3)] by auto
qed

lemma AllocatePageGroupImpl_ok:
  assumes inv: "mm_inv {} mm" and ap: "managers_apart mm (managers_of mm pool dir)" and n: "0 < n"
  shows "\<exists>r pg bm' mm'. AllocatePageGroupImpl [] bm n pool dir random mm = Some (r, pg, bm', mm') \<and> mm_frame mm mm' \<and>
    page_refs mm' = page_refs mm \<and>
    (r = ResultSuccess \<and> mm_inv (set (group_pages pg)) mm' \<and> group_fits pg \<and> distinct (group_pages pg) \<and>
       length (group_pages pg) = n \<and> (\<forall>p\<in>set (group_pages pg). page_refs mm p = Some 0) \<or>
     r \<in> {ResultOutOfMemory, ResultOutOfResource} \<and> pg = [] \<and> mm_inv {} mm')"
proof -
  have "\<exists>i<NumMemoryBlockPageShifts. 2 ^ (MemoryBlockPageShifts ! i) div PageSize \<le> n"
    by (rule exI[of _ 0]) (use n in \<open>simp add: MemoryBlockPageShifts_def NumMemoryBlockPageShifts_def PageSize_def\<close>)
  then have "GetBlockIndex n \<noteq> None" by (auto simp: GetBlockIndex_def find_None_iff)
  then obtain k where k: "GetBlockIndex n = Some k" by blast
  then have "k < NumMemoryBlockPageShifts" by (auto simp: GetBlockIndex_def find_Some_iff rev_nth)
  let ?is = "managers_of mm pool dir" and ?st = "\<lparr>gs_group = [], gs_block_infos = bm, gs_missing = n, gs_manager = mm\<rparr>"
  have "group_inv mm ?is n ?st" using inv by (simp add: group_inv_def)
  from alloc_sizes_ok[OF this ap, of "Suc k" random] \<open>k < NumMemoryBlockPageShifts\<close>
  obtain r st where s: "alloc_sizes (Suc k) ?is random ?st = Some (r, st)" "group_inv mm ?is n st"
    "r \<in> {ResultSuccess, ResultOutOfResource}" by auto
  note g = s(2)[unfolded group_inv_def]
  show ?thesis
  proof (cases "r = ResultSuccess \<and> gs_missing st = 0")
    case True
    then show ?thesis using s g k by (simp add: AllocatePageGroupImpl_def)
  next
    case False
    define result where "result = (if r \<noteq> ResultSuccess then r else if gs_missing st = 0 then ResultSuccess else ResultOutOfMemory)"
    have r: "result \<in> {ResultOutOfMemory, ResultOutOfResource}" using False s(3) by (auto simp: result_def)
    have fr: "mm_frame mm (gs_manager st)" using g by simp
    obtain mm' where mm': "free_group (gs_group st) (gs_manager st) = Some mm'" "mm_inv {} mm'" "mm_frame (gs_manager st) mm'"
      "page_refs mm' = page_refs (gs_manager st)"
      using free_group_ok[of "gs_group st" "gs_manager st" ?is] g in_manager_frame[OF fr] by (auto simp: node_in_def)
    have "AllocatePageGroupImpl [] bm n pool dir random mm =
        Some (result, [], PageGroup_Finalize (gs_group st) (gs_block_infos st), mm')"
      using k s(1) mm'(1) r unfolding AllocatePageGroupImpl_def by (auto simp: result_def[symmetric])
    then show ?thesis using r mm' g mm_frame_trans[OF fr mm'(3)] by simp
  qed
qed

lemma AllocateAndOpen_ok:
  assumes "mm_inv {} mm" "GetPool opt = Some pool" "managers_apart mm (managers_of mm pool (GetDirection opt))" "0 < n"
  shows "\<exists>r pg bm' mm'. AllocateAndOpen [] bm n opt mm = Some (r, pg, bm', mm') \<and> mm_inv {} mm' \<and> mm_frame mm mm' \<and>
    (if r = ResultSuccess
     then length (group_pages pg) = n \<and> group_fits pg \<and> distinct (group_pages pg) \<and>
       (\<forall>p\<in>set (group_pages pg). page_refs mm p = Some 0 \<and> page_available mm p) \<and>
       (\<forall>p. page_refs mm' p = (if p \<in> set (group_pages pg) then Some 1 else page_refs mm p))
     else r \<in> {ResultOutOfMemory, ResultOutOfResource} \<and> pg = [] \<and> page_refs mm' = page_refs mm)"
proof -
  obtain r pg bm1 mm1 where 1: "AllocatePageGroupImpl [] bm n pool (GetDirection opt) True mm = Some (r, pg, bm1, mm1)"
    "mm_frame mm mm1" "page_refs mm1 = page_refs mm"
    "r = ResultSuccess \<and> mm_inv (set (group_pages pg)) mm1 \<and> group_fits pg \<and> distinct (group_pages pg) \<and>
       length (group_pages pg) = n \<and> (\<forall>p\<in>set (group_pages pg). page_refs mm p = Some 0) \<or>
     r \<in> {ResultOutOfMemory, ResultOutOfResource} \<and> pg = [] \<and> mm_inv {} mm1"
    using AllocatePageGroupImpl_ok[OF assms(1,3,4), of bm True] by metis
  show ?thesis
  proof (cases "r = ResultSuccess")
    case False
    then show ?thesis using 1 assms(2,4) by (auto simp: AllocateAndOpen_def)
  next
    case True
    then have g: "mm_inv (set (group_pages pg)) mm1" "group_fits pg" "distinct (group_pages pg)" "length (group_pages pg) = n"
      "\<forall>p\<in>set (group_pages pg). page_refs mm p = Some 0" using 1(4) by auto
    have "page_open.allowed (set (group_pages pg)) mm1 (set (group_pages pg))"
      using g(5) 1(3) by (auto simp: page_open.allowed_def open_ok_def)
    from page_open.group_each_ok[OF g(1-3) this] obtain mm2 where 2: "PageGroup_OpenFirst pg mm1 = Some mm2"
      "page_open.applied (set (group_pages pg)) mm1 (set (group_pages pg)) mm2"
      by (auto simp: PageGroup_OpenFirst_def mm_OpenFirst_def OpenFirst_Open)
    have "page_available mm p" if "p \<in> set (group_pages pg)" for p
      using available_iff[OF assms(1), of p 0] g(5) that by simp
    then show ?thesis using 1(1-3) 2 True g(2-5) assms(2,4) mm_frame_trans[OF 1(2)]
      by (auto simp: AllocateAndOpen_def page_open.applied_def)
  qed
qed

section \<open>Properties\<close>

text \<open>C10: allocating a page group for a caller always returns, as long as no manager of the pool begins where another ends. When it succeeds, the group names exactly the
  requested number of different pages, none of which had a reference, and each of them has one reference
  now; when it fails, with no memory or with no block info left, the group is empty. Every other page keeps
  its count, and in both cases the pages on the heaps are again exactly the pages without references.\<close>

theorem allocate_and_open_exact:
  assumes "mm_inv {} mm" "GetPool opt = Some pool" "managers_apart mm (managers_of mm pool (GetDirection opt))" "0 < n"
  shows "\<exists>r pg bm' mm'. AllocateAndOpen [] bm n opt mm = Some (r, pg, bm', mm') \<and> mm_inv {} mm' \<and> mm_frame mm mm' \<and>
    (if r = ResultSuccess
     then length (group_pages pg) = n \<and> distinct (group_pages pg) \<and>
       (\<forall>p\<in>set (group_pages pg). page_refs mm p = Some 0 \<and> page_available mm p) \<and>
       (\<forall>p. page_refs mm' p = (if p \<in> set (group_pages pg) then Some 1 else page_refs mm p))
     else r \<in> {ResultOutOfMemory, ResultOutOfResource} \<and> pg = [] \<and> page_refs mm' = page_refs mm)"
proof -
  obtain r pg bm' mm' where "AllocateAndOpen [] bm n opt mm = Some (r, pg, bm', mm') \<and> mm_inv {} mm' \<and> mm_frame mm mm' \<and>
    (if r = ResultSuccess
     then length (group_pages pg) = n \<and> group_fits pg \<and> distinct (group_pages pg) \<and>
       (\<forall>p\<in>set (group_pages pg). page_refs mm p = Some 0 \<and> page_available mm p) \<and>
       (\<forall>p. page_refs mm' p = (if p \<in> set (group_pages pg) then Some 1 else page_refs mm p))
     else r \<in> {ResultOutOfMemory, ResultOutOfResource} \<and> pg = [] \<and> page_refs mm' = page_refs mm)"
    using AllocateAndOpen_ok[OF assms, of bm] by blast
  then show ?thesis by (intro exI[of _ r] exI[of _ pg] exI[of _ bm'] exI[of _ mm']) (auto split: if_splits)
qed

definition sample_impl :: MemoryManagerImpl where
  "sample_impl = \<lparr>mi_heap = sample_heap, mi_page_reference_counts = replicate 16 1, mi_pool = Application\<rparr>"

definition sample_mm :: KMemoryManager where
  "sample_mm = \<lparr>mm_managers = [sample_impl], mm_pool_managers = (\<lambda>_. [0]), mm_region_attributes = (\<lambda>_. 0)\<rparr>"

lemma sample_impl_ok: "impl_inv {} sample_impl" "page_count sample_impl = 16" "unreferenced sample_impl = {}"
proof -
  show pc: "page_count sample_impl = 16" by (simp add: page_count_def sample_impl_def sample_heap_ok PageSize_def)
  then show un: "unreferenced sample_impl = {}" by (auto simp: unreferenced_def) (simp add: sample_impl_def)
  have "page_heap_at 1073741824 65536 sample_heap" using sample_heap_ok
    by (simp add: page_heap_at_def) (simp add: sample_heap_def sample_block_def MemoryBlockPageShifts_def)
  then show "impl_inv {} sample_impl"
    by (simp add: impl_inv_def un pc) (simp add: sample_impl_def sample_heap_ok PageSize_def two32_def spans_def)
qed

lemma sample_mm_ok: "mm_inv {} sample_mm" "managers_apart sample_mm [0]"
  using sample_impl_ok
  by (simp_all add: mm_inv_def sample_mm_def pending_of_def managers_apart_def)
    (simp add: sample_impl_def sample_heap_ok)

lemma sample_refs: "p \<in> set (range_pages 1073741824 16) \<Longrightarrow> page_refs sample_mm p = Some 1"
  by (auto simp: set_range_pages page_refs_def GetManager_def sample_mm_def sample_impl_def sample_heap_ok PageSize_def)

lemma sample_closed:
  "\<exists>mm. mm_Close 1073741824 16 sample_mm = Some mm \<and> mm_inv {} mm \<and> managers_apart mm (managers_of mm Application FromFront) \<and>
     (\<forall>p\<in>set (range_pages 1073741824 16). page_refs mm p = Some 0)"
proof -
  have "page_close.allowed {} sample_mm (set (range_pages 1073741824 16))"
    using sample_refs by (auto simp: page_close.allowed_def close_ok_def)
  moreover have "PageSize dvd 1073741824" by (simp add: PageSize_def)
  ultimately obtain mm where mm: "mm_Close 1073741824 16 sample_mm = Some mm"
    "page_close.applied {} sample_mm (set (range_pages 1073741824 16)) mm"
    using page_close.each_manager_ok[OF sample_mm_ok(1)] unfolding mm_Close_def by blast
  then have fr: "mm_frame sample_mm mm" by (simp add: page_close.applied_def)
  then have "managers_of mm Application FromFront = [0]" by (simp add: mm_frame_def managers_of_def sample_mm_def)
  then show ?thesis using mm sample_refs managers_apart_frame[OF fr] sample_mm_ok(2) by (auto simp: page_close.applied_def)
qed

theorem allocate_and_open_exact_witness:
  "\<forall>bm. \<exists>mm. mm_Close 1073741824 16 sample_mm = Some mm \<and>
     (\<exists>r pg bm' mm'. AllocateAndOpen [] bm 5 0 mm = Some (r, pg, bm', mm') \<and> mm_inv {} mm' \<and> mm_frame mm mm' \<and>
      (if r = ResultSuccess
       then length (group_pages pg) = 5 \<and> distinct (group_pages pg) \<and>
         (\<forall>p\<in>set (group_pages pg). page_refs mm p = Some 0 \<and> page_available mm p) \<and>
         (\<forall>p. page_refs mm' p = (if p \<in> set (group_pages pg) then Some 1 else page_refs mm p))
       else r \<in> {ResultOutOfMemory, ResultOutOfResource} \<and> pg = [] \<and> page_refs mm' = page_refs mm))"
proof
  fix bm
  obtain mm where mm: "mm_Close 1073741824 16 sample_mm = Some mm" "mm_inv {} mm"
    "managers_apart mm (managers_of mm Application FromFront)" using sample_closed by blast
  moreover have o: "GetPool 0 = Some Application" "GetDirection 0 = FromFront" by (simp_all add: GetPool_def GetDirection_def)
  ultimately show "\<exists>mm. mm_Close 1073741824 16 sample_mm = Some mm \<and>
     (\<exists>r pg bm' mm'. AllocateAndOpen [] bm 5 0 mm = Some (r, pg, bm', mm') \<and> mm_inv {} mm' \<and> mm_frame mm mm' \<and>
      (if r = ResultSuccess
       then length (group_pages pg) = 5 \<and> distinct (group_pages pg) \<and>
         (\<forall>p\<in>set (group_pages pg). page_refs mm p = Some 0 \<and> page_available mm p) \<and>
         (\<forall>p. page_refs mm' p = (if p \<in> set (group_pages pg) then Some 1 else page_refs mm p))
       else r \<in> {ResultOutOfMemory, ResultOutOfResource} \<and> pg = [] \<and> page_refs mm' = page_refs mm))"
    using allocate_and_open_exact[OF mm(2) o(1), of 5 bm] o(2) by auto
qed

text \<open>C18: closing the references of a page range whose pages all have one ends, takes one reference from each
  page of the range, and puts exactly those pages back on the heaps that lost their last reference: a page
  is available afterwards if and only if it has no reference. No other page changes.\<close>

theorem close_frees_last_reference:
  assumes "mm_inv {} mm" "PageSize dvd a" "\<forall>p\<in>set (range_pages a n). \<exists>r. page_refs mm p = Some r \<and> r \<noteq> 0"
  shows "\<exists>mm'. mm_Close a n mm = Some mm' \<and> mm_inv {} mm' \<and>
    (\<forall>p. page_refs mm' p = (if p \<in> set (range_pages a n) then map_option (\<lambda>r. r - 1) (page_refs mm p) else page_refs mm p)) \<and>
    (\<forall>p r. page_refs mm' p = Some r \<longrightarrow> (page_available mm' p \<longleftrightarrow> r = 0))"
proof -
  have "page_close.allowed {} mm (set (range_pages a n))" using assms(3) by (simp add: page_close.allowed_def close_ok_def)
  from page_close.each_manager_ok[OF assms(1,2) this] obtain mm' where
    mm': "mm_Close a n mm = Some mm'" "page_close.applied {} mm (set (range_pages a n)) mm'" unfolding mm_Close_def by blast
  then have inv: "mm_inv {} mm'" by (simp add: page_close.applied_def)
  then show ?thesis using mm' available_iff[OF inv] by (auto simp: page_close.applied_def)
qed

theorem close_frees_last_reference_witness:
  "\<exists>mm'. mm_Close 1073745920 3 sample_mm = Some mm' \<and> mm_inv {} mm' \<and>
    (\<forall>p. page_refs mm' p = (if p \<in> set (range_pages 1073745920 3) then map_option (\<lambda>r. r - 1) (page_refs sample_mm p) else page_refs sample_mm p)) \<and>
    (\<forall>p r. page_refs mm' p = Some r \<longrightarrow> (page_available mm' p \<longleftrightarrow> r = 0))"
proof (rule close_frees_last_reference[OF sample_mm_ok(1)])
  have "set (range_pages 1073745920 3) \<subseteq> set (range_pages 1073741824 16)" by (auto simp: range_pages_def PageSize_def upt_rec)
  then show "\<forall>p\<in>set (range_pages 1073745920 3). \<exists>r. page_refs sample_mm p = Some r \<and> r \<noteq> 0" using sample_refs by fastforce
qed (simp add: PageSize_def)

end
