(* ===== verification/Page_Table_Checks.thy ===== *)
theory Page_Table_Checks
  imports Page_Table_Operations Memory_Block_Refinement Memory_Allocation
begin

text \<open>
  The checks that guard the operations of the page table (\<open>K_Page_Table\<close>), against the page view of the
  memory blocks (\<open>Memory_Block_Refinement\<close>): a check succeeds exactly when all pages of the range are alike
  and match, and it asks for exactly the blocks that an update of the range needs. Hence an update behind a
  check never lacks a block, and the operations that only change memory blocks are exact on pages.
\<close>

section \<open>Walking over the blocks of a range\<close>

lemma contig_unique:
  "contig s bs e \<Longrightarrow> b \<in> set bs \<Longrightarrow> b' \<in> set bs \<Longrightarrow> covers b a \<Longrightarrow> covers b' a \<Longrightarrow> b = b'"
proof (induction bs arbitrary: s)
  case (Cons c bs)
  have ct: "contig (block_end c) bs e" using Cons.prems(1) by simp
  have far: "block_end c \<le> m_address d" if "d \<in> set bs" for d using contig_member[OF ct that] by simp
  show ?case
  proof (cases "b = c \<or> b' = c")
    case True
    then show ?thesis using Cons.prems far by (fastforce simp: covers_def)
  next
    case False
    then show ?thesis using Cons.IH[OF ct] Cons.prems by auto
  qed
qed simp

lemma needed_start:
  assumes "contig s (map snd t) e" "n \<in> set t" "covers (snd n) a"
  shows "needed t a = (if a \<noteq> m_address (snd n) then 1 else 0)"
proof -
  have "interior (map snd t) a \<longleftrightarrow> a \<noteq> m_address (snd n)"
  proof
    assume "interior (map snd t) a"
    then obtain b where b: "b \<in> set (map snd t)" "m_address b < a" "a < block_end b" by (auto simp: interior_def list_ex_iff)
    then have "covers b a" by (simp add: covers_def)
    then have "b = snd n" using contig_unique[OF assms(1) b(1), of "snd n" a] assms(2,3) by simp
    then show "a \<noteq> m_address (snd n)" using b(2) by simp
  next
    assume "a \<noteq> m_address (snd n)"
    then have "m_address (snd n) < a \<and> a < block_end (snd n)" using assms(3) by (auto simp: covers_def)
    then show "interior (map snd t) a" using assms(2) by (auto simp: interior_def list_ex_iff)
  qed
  then show ?thesis by (simp add: needed_def)
qed

lemma needed_end:
  assumes "contig s (map snd t) e" "b \<in> set (map snd t)" "covers b (a - 1)" "0 < a"
  shows "needed t a = (if a \<noteq> block_end b then 1 else 0)"
proof -
  have "interior (map snd t) a \<longleftrightarrow> a \<noteq> block_end b"
  proof
    assume "interior (map snd t) a"
    then obtain c where c: "c \<in> set (map snd t)" "m_address c < a" "a < block_end c" by (auto simp: interior_def list_ex_iff)
    then have "covers c (a - 1)" by (auto simp: covers_def)
    then have "c = b" using contig_unique[OF assms(1) c(1) assms(2)] assms(3) by simp
    then show "a \<noteq> block_end b" using c(3) by simp
  next
    assume "a \<noteq> block_end b"
    then have "m_address b < a \<and> a < block_end b" using assms(3,4) by (auto simp: covers_def)
    then show "interior (map snd t) a" using assms(2) by (auto simp: interior_def list_ex_iff)
  qed
  then show ?thesis by (simp add: needed_def)
qed

text \<open>A walk tests blocks until the one that holds the last address.\<close>

locale block_walk =
  fixes walk :: "nat \<Rightarrow> node list \<Rightarrow> (Result + KMemoryBlock) option" and good :: "page_props \<Rightarrow> bool"
  assumes walk_Cons: "walk last_addr (n # ns) =
    (if \<not> good (props (snd n)) then Some (Inl ResultInvalidCurrentMemory)
     else if last_addr \<le> GetLastAddress (snd n) then Some (Inr (snd n)) else walk last_addr ns)"
begin

definition good_range :: "(nat \<Rightarrow> page_props option) \<Rightarrow> nat \<Rightarrow> nat \<Rightarrow> bool" where
  "good_range pg s last_addr \<longleftrightarrow> (\<forall>a x. s \<le> a \<and> a \<le> last_addr \<and> pg a = Some x \<longrightarrow> good x)"

lemma walk_ok:
  assumes "contig s (map snd ns) e" "e < two64" "s \<le> s'" "s' \<le> last_addr" "last_addr < e"
    "ns \<noteq> []" "covers (snd (hd ns)) s'"
  shows "if good_range (page_at (map snd ns)) s' last_addr
    then \<exists>b\<in>set (map snd ns). covers b last_addr \<and> walk last_addr ns = Some (Inr b)
    else walk last_addr ns = Some (Inl ResultInvalidCurrentMemory)"
  using assms
proof (induction ns arbitrary: s s')
  case (Cons n ns)
  let ?b = "snd n" and ?pg = "page_at (map snd (n # ns))"
  have b: "m_address ?b = s" "0 < m_num_pages ?b" "contig (block_end ?b) (map snd ns) e" using Cons.prems(1) by auto
  have be: "block_end ?b < two64" using contig_le[OF b(3)] Cons.prems(2) by simp
  have last: "GetLastAddress ?b = block_end ?b - 1" by (rule block_getters(3)[OF be b(2)])
  have s': "m_address ?b \<le> s'" "s' < block_end ?b" using Cons.prems(7) by (auto simp: covers_def)
  have first: "?pg s' = Some (props ?b)" using Cons.prems(7) by (simp add: page_at_Cons)
  show ?case
  proof (cases "good (props ?b)")
    case False
    then have "\<not> good_range ?pg s' last_addr" using first Cons.prems(4) unfolding good_range_def by blast
    then show ?thesis using False by (simp add: walk_Cons)
  next
    case True
    show ?thesis
    proof (cases "last_addr < block_end ?b")
      case l: True
      then have "good_range ?pg s' last_addr" using True s' by (auto simp: good_range_def page_at_Cons covers_def)
      moreover have "covers ?b last_addr" using l s' Cons.prems(4) by (simp add: covers_def)
      moreover have "last_addr \<le> GetLastAddress ?b" using l last by simp
      ultimately show ?thesis using True by (simp add: walk_Cons)
    next
      case l: False
      have ne: "ns \<noteq> []" using b(3) l Cons.prems(5) by auto
      then obtain m ms where ms: "ns = m # ms" by (metis neq_Nil_conv)
      then have m: "m_address (snd m) = block_end ?b" "m_address (snd m) < block_end (snd m)"
        using b(3) block_end_gt[of "snd m"] by auto
      have cov: "covers (snd (hd ns)) (block_end ?b)" using ms m by (simp add: covers_def)
      have iff: "good_range ?pg s' last_addr \<longleftrightarrow> good_range (page_at (map snd ns)) (block_end ?b) last_addr"
      proof -
        have pg: "?pg a = (if a < block_end ?b then Some (props ?b) else page_at (map snd ns) a)" if "s' \<le> a" for a
          using that s' by (auto simp: page_at_Cons covers_def)
        have s'': "s' \<le> block_end ?b" using s' by simp
        show ?thesis unfolding good_range_def
        proof (intro iffI allI impI)
          fix a x assume g: "\<forall>a x. s' \<le> a \<and> a \<le> last_addr \<and> ?pg a = Some x \<longrightarrow> good x"
            and a: "block_end ?b \<le> a \<and> a \<le> last_addr \<and> page_at (map snd ns) a = Some x"
          then have "s' \<le> a" "?pg a = Some x" using s'' pg[of a] by auto
          then show "good x" using g a by blast
        next
          fix a x assume g: "\<forall>a x. block_end ?b \<le> a \<and> a \<le> last_addr \<and> page_at (map snd ns) a = Some x \<longrightarrow> good x"
            and a: "s' \<le> a \<and> a \<le> last_addr \<and> ?pg a = Some x"
          show "good x"
          proof (cases "a < block_end ?b")
            case lt: True
            then have "x = props ?b" using a pg[of a] by auto
            then show ?thesis using True by simp
          next
            case False
            then have "page_at (map snd ns) a = Some x" using a pg[of a] by auto
            then show ?thesis using g a False by (meson not_le)
          qed
        qed
      qed
      have "\<not> last_addr \<le> GetLastAddress ?b" using l last s' by linarith
      then have w: "walk last_addr (n # ns) = walk last_addr ns" using True by (simp add: walk_Cons)
      have "if good_range (page_at (map snd ns)) (block_end ?b) last_addr
        then \<exists>b\<in>set (map snd ns). covers b last_addr \<and> walk last_addr ns = Some (Inr b)
        else walk last_addr ns = Some (Inl ResultInvalidCurrentMemory)"
        by (rule Cons.IH[OF b(3) Cons.prems(2) le_refl]) (use l ne cov Cons.prems(5) in auto)
      then show ?thesis unfolding iff w by (simp split: if_splits)
    qed
  qed
qed simp

end

fun props_check :: "memory_check \<Rightarrow> page_props \<Rightarrow> bool" where
  "props_check c (st, pm, op, at, ic, dc) \<longleftrightarrow>
     st AND mc_state_mask c = mc_state c \<and> pm AND mc_perm_mask c = mc_perm c \<and> at AND mc_attr_mask c = mc_attr c"

fun props_like :: "KMemoryAttribute \<Rightarrow> page_props \<Rightarrow> page_props \<Rightarrow> bool" where
  "props_like ign (st, pm, op, at, ic, dc) (st', pm', op', at', ic', dc') \<longleftrightarrow>
     st' = st \<and> pm' = pm \<and> at' OR ign = at OR ign"

interpretation contiguous: block_walk "check_contiguous_loop c" "props_check c" for c
  by unfold_locales (simp add: Let_def CheckMemoryState_info_def props_def)

interpretation uniform: block_walk "check_uniform_loop c ign first" "\<lambda>x. props_like ign (props first) x \<and> props_check c x"
  for c ign first
  by unfold_locales (simp add: Let_def CheckMemoryState_info_def props_def)

section \<open>What the checks accept\<close>

text \<open>The page range \<open>A .. B\<close> lies in the address space of the table.\<close>

definition in_space :: "KPageTable \<Rightarrow> nat \<Rightarrow> nat \<Rightarrow> bool" where
  "in_space pt A n \<longleftrightarrow> manager_wf (pt_blocks pt) \<and> PageSize dvd A \<and> 0 < n \<and>
     m_start_address (pt_blocks pt) \<le> A \<and> A + n * PageSize \<le> m_end_address (pt_blocks pt)"

abbreviation table_pages :: "KPageTable \<Rightarrow> nat \<Rightarrow> page_props option" where
  "table_pages pt \<equiv> manager_pages (pt_blocks pt)"

definition uniform_range :: "memory_check \<Rightarrow> KMemoryAttribute \<Rightarrow> (nat \<Rightarrow> page_props option) \<Rightarrow> nat \<Rightarrow> nat \<Rightarrow> bool" where
  "uniform_range c ign pg A B \<longleftrightarrow> (\<forall>a x. A \<le> a \<and> a < B \<and> pg a = Some x \<longrightarrow> props_like ign (the (pg A)) x \<and> props_check c x)"

definition checked_range :: "memory_check \<Rightarrow> (nat \<Rightarrow> page_props option) \<Rightarrow> nat \<Rightarrow> nat \<Rightarrow> bool" where
  "checked_range c pg A B \<longleftrightarrow> (\<forall>a x. A \<le> a \<and> a < B \<and> pg a = Some x \<longrightarrow> props_check c x)"

definition blocks_needed :: "KPageTable \<Rightarrow> nat \<Rightarrow> nat \<Rightarrow> nat" where
  "blocks_needed pt A B = needed (m_memory_block_tree (pt_blocks pt)) A + needed (m_memory_block_tree (pt_blocks pt)) B"

lemma in_spaceD:
  assumes "in_space pt A n"
  shows "A + n * PageSize < two64" "A < A + n * PageSize" "PageSize dvd A + n * PageSize"
    "add64 A (n * PageSize) = A + n * PageSize" "sub64 (A + n * PageSize) 1 = A + n * PageSize - 1"
    "n * PageSize div PageSize = n" "mul64 n PageSize = n * PageSize"
proof -
  show lt: "A + n * PageSize < two64" using assms by (auto simp: in_space_def manager_wf_def)
  show gt: "A < A + n * PageSize" using assms by (simp add: in_space_def)
  show "PageSize dvd A + n * PageSize" using assms by (simp add: in_space_def)
  show "add64 A (n * PageSize) = A + n * PageSize" using lt by (rule add64_eq)
  show "sub64 (A + n * PageSize) 1 = A + n * PageSize - 1" using lt gt by (intro sub64_eq) linarith+
  show "n * PageSize div PageSize = n" by simp
  show "mul64 n PageSize = n * PageSize" using lt by (intro mul64_eq) simp
qed

text \<open>The nodes a check walks over, and the block at its start.\<close>

lemma nodes_from_ok:
  assumes "in_space pt A n"
  obtains x ns where "nodes_from pt A = x # ns" "covers (snd x) A" "x \<in> set (m_memory_block_tree (pt_blocks pt))"
    "contig (m_address (snd x)) (map snd (x # ns)) (m_end_address (pt_blocks pt))"
    "set ns \<subseteq> set (m_memory_block_tree (pt_blocks pt))" "FindBlock (pt_blocks pt) A = Some (snd x)"
    "\<And>a. m_address (snd x) \<le> a \<Longrightarrow> table_pages pt a = page_at (map snd (x # ns)) a"
proof -
  let ?m = "pt_blocks pt" and ?t = "m_memory_block_tree (pt_blocks pt)"
  have wf: "contig (m_start_address ?m) (map snd ?t) (m_end_address ?m)" "m_end_address ?m < two64"
    using assms by (auto simp: in_space_def manager_wf_def)
  have "A < m_end_address ?m" "m_start_address ?m \<le> A" using in_spaceD(2)[OF assms] assms unfolding in_space_def by linarith+
  from covering_block[OF wf(1) this(2,1)] obtain ds p b rs where t: "?t = ds @ (p, b) # rs" "covers b A" .
  have it: "FindIterator ?m A = length ds"
    unfolding FindIterator_def t(1) by (rule tree_find_at) (use wf t in \<open>simp_all\<close>)
  have "contig (m_address b) (map snd ((p, b) # rs)) (m_end_address ?m)" using wf(1) t(1) by (auto simp: contig_append)
  moreover have "table_pages pt a = page_at (map snd ((p, b) # rs)) a" if "m_address b \<le> a" for a
    using page_at_split[of "m_start_address ?m" "map snd ds" b "map snd rs" "m_end_address ?m" a] wf(1) t(1) that
    by (simp add: manager_pages_def page_at_Cons covers_def)
  ultimately show ?thesis using that[of "(p, b)" rs] it t by (auto simp: nodes_from_def FindBlock_def)
qed

lemma blocks_for_start_ok:
  assumes "in_space pt A n" "nodes_from pt A = x # ns"
  shows "blocks_for_start A (snd x) = needed (m_memory_block_tree (pt_blocks pt)) A"
proof -
  obtain y ms where y: "nodes_from pt A = y # ms" "covers (snd y) A" "y \<in> set (m_memory_block_tree (pt_blocks pt))"
    using nodes_from_ok[OF assms(1)] by metis
  have "contig (m_start_address (pt_blocks pt)) (map snd (m_memory_block_tree (pt_blocks pt))) (m_end_address (pt_blocks pt))"
    using assms(1) by (simp add: in_space_def manager_wf_def)
  moreover have "AlignDown A PageSize = A" using assms(1) by (simp add: in_space_def AlignDown_aligned)
  moreover have "x = y" using assms(2) y(1) by simp
  ultimately show ?thesis using needed_start[OF _ y(3,2)] by (simp add: blocks_for_start_def GetAddress_def)
qed

lemma blocks_for_end_ok:
  assumes "in_space pt A n" "b \<in> set (map snd (m_memory_block_tree (pt_blocks pt)))" "covers b (A + n * PageSize - 1)"
  shows "blocks_for_end A (n * PageSize) b = needed (m_memory_block_tree (pt_blocks pt)) (A + n * PageSize)"
proof -
  have ct: "contig (m_start_address (pt_blocks pt)) (map snd (m_memory_block_tree (pt_blocks pt))) (m_end_address (pt_blocks pt))"
    "m_end_address (pt_blocks pt) < two64" using assms(1) by (auto simp: in_space_def manager_wf_def)
  have "block_end b < two64" "0 < m_num_pages b" using contig_member[OF ct(1) assms(2)] ct(2) by auto
  then have "GetEndAddress b = block_end b" by (rule block_getters(2))
  moreover have "AlignUp (A + n * PageSize) PageSize = A + n * PageSize" using in_spaceD(3)[OF assms(1)] by (rule AlignUp_aligned)
  moreover have "0 < A + n * PageSize" using in_spaceD(2)[OF assms(1)] by simp
  ultimately show ?thesis using needed_end[OF ct(1) assms(2,3)] in_spaceD(4)[OF assms(1)] by (simp add: blocks_for_end_def)
qed

lemma CheckMemoryState_ok:
  assumes sp: "in_space pt A n" and x: "table_pages pt A = Some (st, pm, op, at, ic, dc)"
  shows "CheckMemoryState pt A (n * PageSize) c ign =
    Some (if uniform_range c ign (table_pages pt) A (A + n * PageSize)
      then Inr \<lparr>out_state = st, out_perm = pm, out_attr = at AND NOT ign, out_blocks_needed = blocks_needed pt A (A + n * PageSize)\<rparr>
      else Inl ResultInvalidCurrentMemory)"
proof -
  let ?B = "A + n * PageSize"
  obtain y ns where y: "nodes_from pt A = y # ns" "covers (snd y) A" "contig (m_address (snd y)) (map snd (y # ns)) (m_end_address (pt_blocks pt))"
    "y \<in> set (m_memory_block_tree (pt_blocks pt))" "set ns \<subseteq> set (m_memory_block_tree (pt_blocks pt))"
    "\<And>a. m_address (snd y) \<le> a \<Longrightarrow> table_pages pt a = page_at (map snd (y # ns)) a"
    using nodes_from_ok[OF sp] by metis
  note D = in_spaceD[OF sp]
  have m: "m_address (snd y) \<le> A" using y(2) by (simp add: covers_def)
  have first: "props (snd y) = (st, pm, op, at, ic, dc)" using x y(2) y(6)[OF m] by (simp add: page_at_Cons)
  then have f: "m_memory_state (snd y) = st" "m_permission (snd y) = pm" "m_attribute (snd y) = at" by (simp_all add: props_def)
  have le: "m_end_address (pt_blocks pt) < two64" "A \<le> ?B - 1" "?B - 1 < m_end_address (pt_blocks pt)"
    using sp D(2) unfolding in_space_def manager_wf_def by linarith+
  have gr: "uniform.good_range ign (snd y) c (page_at (map snd (y # ns))) A (?B - 1) \<longleftrightarrow> uniform_range c ign (table_pages pt) A ?B"
  proof -
    have "a \<le> ?B - 1 \<longleftrightarrow> a < ?B" for a using D(2) by linarith
    moreover have "page_at (map snd (y # ns)) a = table_pages pt a" if "A \<le> a" for a using y(6)[of a] m that by simp
    ultimately show ?thesis unfolding uniform.good_range_def uniform_range_def
      unfolding x option.sel first by (metis (no_types, lifting))
  qed
  have w: "if uniform_range c ign (table_pages pt) A ?B
    then \<exists>b\<in>set (map snd (y # ns)). covers b (?B - 1) \<and> check_uniform_loop c ign (snd y) (?B - 1) (y # ns) = Some (Inr b)
    else check_uniform_loop c ign (snd y) (?B - 1) (y # ns) = Some (Inl ResultInvalidCurrentMemory)"
    unfolding gr[symmetric]
    by (rule uniform.walk_ok[OF y(3) _ m]) (use D y(2) le in auto)
  show ?thesis
  proof (cases "uniform_range c ign (table_pages pt) A ?B")
    case False
    then show ?thesis using w y(1) D by (simp add: CheckMemoryState_def Let_def del: check_uniform_loop.simps)
  next
    case True
    then obtain b where b: "b \<in> set (map snd (y # ns))" "covers b (?B - 1)"
      "check_uniform_loop c ign (snd y) (?B - 1) (y # ns) = Some (Inr b)" using w by auto
    have "b \<in> set (map snd (m_memory_block_tree (pt_blocks pt)))" using b(1) y(4,5) by auto
    note e = blocks_for_end_ok[OF sp this b(2)] and s = blocks_for_start_ok[OF sp y(1)]
    show ?thesis using True b(3) y(1) D e s f
      by (simp add: CheckMemoryState_def Let_def blocks_needed_def del: check_uniform_loop.simps)
  qed
qed

lemma CheckMemoryStateContiguous_ok:
  assumes sp: "in_space pt A n"
  shows "CheckMemoryStateContiguous pt A (n * PageSize) c =
    Some (if checked_range c (table_pages pt) A (A + n * PageSize) then Inr (blocks_needed pt A (A + n * PageSize))
      else Inl ResultInvalidCurrentMemory)"
proof -
  let ?B = "A + n * PageSize"
  obtain y ns where y: "nodes_from pt A = y # ns" "covers (snd y) A" "contig (m_address (snd y)) (map snd (y # ns)) (m_end_address (pt_blocks pt))"
    "y \<in> set (m_memory_block_tree (pt_blocks pt))" "set ns \<subseteq> set (m_memory_block_tree (pt_blocks pt))"
    "\<And>a. m_address (snd y) \<le> a \<Longrightarrow> table_pages pt a = page_at (map snd (y # ns)) a"
    using nodes_from_ok[OF sp] by metis
  note D = in_spaceD[OF sp]
  have m: "m_address (snd y) \<le> A" using y(2) by (simp add: covers_def)
  have le: "m_end_address (pt_blocks pt) < two64" "A \<le> ?B - 1" "?B - 1 < m_end_address (pt_blocks pt)"
    using sp D(2) unfolding in_space_def manager_wf_def by linarith+
  have gr: "contiguous.good_range c (page_at (map snd (y # ns))) A (?B - 1) \<longleftrightarrow> checked_range c (table_pages pt) A ?B"
  proof -
    have "a \<le> ?B - 1 \<longleftrightarrow> a < ?B" for a using D(2) by linarith
    moreover have "page_at (map snd (y # ns)) a = table_pages pt a" if "A \<le> a" for a using y(6)[of a] m that by simp
    ultimately show ?thesis unfolding contiguous.good_range_def checked_range_def by (metis (no_types, lifting))
  qed
  have w: "if checked_range c (table_pages pt) A ?B
    then \<exists>b\<in>set (map snd (y # ns)). covers b (?B - 1) \<and> check_contiguous_loop c (?B - 1) (y # ns) = Some (Inr b)
    else check_contiguous_loop c (?B - 1) (y # ns) = Some (Inl ResultInvalidCurrentMemory)"
    unfolding gr[symmetric]
    by (rule contiguous.walk_ok[OF y(3) _ m]) (use D y(2) le in auto)
  show ?thesis
  proof (cases "checked_range c (table_pages pt) A ?B")
    case False
    then show ?thesis using w y(1) D by (simp add: CheckMemoryStateContiguous_def Let_def del: check_contiguous_loop.simps)
  next
    case True
    then obtain b where b: "b \<in> set (map snd (y # ns))" "covers b (?B - 1)"
      "check_contiguous_loop c (?B - 1) (y # ns) = Some (Inr b)" using w by auto
    have "b \<in> set (map snd (m_memory_block_tree (pt_blocks pt)))" using b(1) y(4,5) by auto
    note e = blocks_for_end_ok[OF sp this b(2)] and s = blocks_for_start_ok[OF sp y(1)]
    show ?thesis using True b(3) y(1) D e s
      by (simp add: CheckMemoryStateContiguous_def Let_def blocks_needed_def del: check_contiguous_loop.simps)
  qed
qed

section \<open>Updates behind a check\<close>

lemma ua_fill_result: "ua_fill i k ua = (r, ua') \<Longrightarrow> r \<in> {ResultSuccess, ResultOutOfResource}"
proof (induction i k ua rule: ua_fill.induct)
  case (1 i k ua)
  then show ?case by (subst (asm) (2) ua_fill.simps) (auto simp: Let_def split: prod.splits if_splits)
qed

lemma UpdateAllocator_new_result: "UpdateAllocator_new sm k = (r, ua) \<Longrightarrow> r \<in> {ResultSuccess, ResultOutOfResource}"
  unfolding UpdateAllocator_new_def by (rule ua_fill_result)

lemma blocks_needed_le: "blocks_needed pt A B \<le> 2"
  using needed_le[of "m_memory_block_tree (pt_blocks pt)" A] needed_le[of "m_memory_block_tree (pt_blocks pt)" B]
  by (simp add: blocks_needed_def)

text \<open>The memory blocks after an update of a range, as pages.\<close>

definition updated ::
  "KPageTable \<Rightarrow> nat \<Rightarrow> nat \<Rightarrow> (page_props \<Rightarrow> page_props) \<Rightarrow> KMemoryBlockManager \<Rightarrow> bool" where
  "updated pt A n F m \<longleftrightarrow> manager_wf m \<and> m_start_address m = m_start_address (pt_blocks pt) \<and>
     m_end_address m = m_end_address (pt_blocks pt) \<and> manager_pages m = range_map A (A + n * PageSize) F (table_pages pt)"

lemma first_block_props:
  assumes "in_space pt A n"
  shows "\<exists>b. FindBlock (pt_blocks pt) A = Some b \<and> table_pages pt A = Some (props b)"
proof (rule nodes_from_ok[OF assms])
  fix x ns assume "covers (snd x) A" "FindBlock (pt_blocks pt) A = Some (snd x)"
    and "\<And>a. m_address (snd x) \<le> a \<Longrightarrow> table_pages pt a = page_at (map snd (x # ns)) a"
  then show ?thesis by (auto simp: page_at_Cons covers_def)
qed

lemma Update_ok:
  assumes sp: "in_space pt A n" and ua: "alloc_ready ua" "blocks_needed pt A (A + n * PageSize) \<le> ua_left ua"
    and at: "attr AND reserved_attr = 0"
    and first: "not_in_first_block (pt_blocks pt) A \<or> \<not> props_match state perm attr (the (table_pages pt A))"
  shows "\<exists>ua' m sl. Update A n state perm attr sm cm ua pt = Some (ua', pt\<lparr>pt_blocks := m, pt_slab := sl\<rparr>) \<and>
    updated pt A n (props_set state perm attr) m"
proof -
  let ?m = "pt_blocks pt" and ?ua = "ua\<lparr>ua_slab := pt_slab pt\<rparr>"
  let ?F = "\<lambda>x. if props_match state perm attr x then x else props_set state perm attr x"
  have F: "?F x = props_set state perm attr x" for x using props_set_match[OF at] by simp
  have "range_ok ?m ?ua A n"
    using sp ua by (simp add: in_space_def range_ok_def alloc_ready_def ua_left_def blocks_needed_def)
  moreover have "manager_wf ?m" using sp by (simp add: in_space_def)
  moreover have "not_in_first_block ?m A \<or> \<not> HasProperties (the (FindBlock ?m A)) state perm attr"
    using first first_block_props[OF sp] by (auto simp: HasProperties_props)
  ultimately obtain ua' m' where u: "Manager_Update ?m ?ua A n state perm attr sm cm = Some (ua', m')" "manager_wf m'"
    "m_start_address m' = m_start_address ?m" "m_end_address m' = m_end_address ?m"
    "manager_pages m' = range_map A (A + n * PageSize) ?F (manager_pages ?m)"
    using update.update_range_refines[of ?m ?ua A n state perm attr A sm cm] props_set_flags[OF at]
    unfolding Manager_Update_def F by blast
  then show ?thesis using range_map_cong[OF F] by (auto simp: Update_def update_blocks_def updated_def)
qed

text \<open>A guarded update with its own allocator: it happens, or there were too few blocks and nothing changes.\<close>

lemma with_allocator_ok:
  assumes sp: "in_space pt A n" and k: "k = blocks_needed pt A (A + n * PageSize)" and at: "attr AND reserved_attr = 0"
    and first: "not_in_first_block (pt_blocks pt) A \<or> \<not> props_match state perm attr (the (table_pages pt A))"
    and oper: "\<And>sl. \<exists>p. oper (pt\<lparr>pt_slab := sl\<rparr>) = Some p \<and> pt_blocks p = pt_blocks pt"
  shows "\<exists>r pt'. with_allocator k (\<lambda>ua p. do {
        p1 \<leftarrow> oper p;
        map_option (Pair ResultSuccess) (Update A n state perm attr sm cm ua p1)
      }) pt = Some (r, pt') \<and>
    (r = ResultSuccess \<and>
       (\<exists>sl p m sl'. oper (pt\<lparr>pt_slab := sl\<rparr>) = Some p \<and> pt' = p\<lparr>pt_blocks := m, pt_slab := sl'\<rparr> \<and>
          updated pt A n (props_set state perm attr) m) \<or>
     r = ResultOutOfResource \<and> fst (UpdateAllocator_new (pt_slab pt) k) = ResultOutOfResource \<and> (\<exists>sl. pt' = pt\<lparr>pt_slab := sl\<rparr>))"
proof -
  obtain r ua where u: "UpdateAllocator_new (pt_slab pt) k = (r, ua)" by (cases "UpdateAllocator_new (pt_slab pt) k")
  show ?thesis
  proof (cases "r = ResultSuccess")
    case False
    then have "r = ResultOutOfResource" using UpdateAllocator_new_result[OF u] by simp
    then show ?thesis using u by (simp add: with_allocator_def) blast
  next
    case True
    have kl: "k \<le> 2" using blocks_needed_le k by simp
    have ar: "alloc_ready ua" "ua_left ua = k" using alloc_ready_new[OF kl, of "pt_slab pt" ua] u True by auto
    obtain p where p: "oper (pt\<lparr>pt_slab := ua_slab ua\<rparr>) = Some p" "pt_blocks p = pt_blocks pt" using oper by blast
    have sp': "in_space p A n" using sp p(2) by (simp add: in_space_def)
    have bn: "blocks_needed p A (A + n * PageSize) \<le> ua_left ua" using k ar(2) p(2) by (simp add: blocks_needed_def)
    obtain ua' m sl where up: "Update A n state perm attr sm cm ua p = Some (ua', p\<lparr>pt_blocks := m, pt_slab := sl\<rparr>)"
      "updated p A n (props_set state perm attr) m" using Update_ok[OF sp' ar(1) bn at] first p(2) by metis
    have "updated pt A n (props_set state perm attr) m" using up(2) p(2) by (simp add: updated_def)
    then show ?thesis using u True p(1) up(1) by (simp add: with_allocator_def run_allocator_def) blast
  qed
qed

section \<open>A small table\<close>

text \<open>
  Used to instantiate the properties: an address space of sixteen pages, of which the pages 4 to 7 are
  \<open>Normal\<close> memory on the pages 2 to 5 of the sample manager's heap.
\<close>

definition sample_pt :: KPageTable where
  "sample_pt = \<lparr>pt_address_space_start = 0, pt_address_space_end = 65536, pt_heap_region_start = 16384,
     pt_heap_region_end = 49152, pt_current_heap_end = 32768, pt_alias_region_start = 49152, pt_alias_region_end = 53248,
     pt_stack_region_start = 53248, pt_stack_region_end = 57344, pt_kernel_map_region_start = 57344, pt_kernel_map_region_end = 61440,
     pt_code_region_start = 4096, pt_code_region_end = 16384, pt_alias_code_region_start = 4096, pt_alias_code_region_end = 16384,
     pt_max_heap_size = 0, pt_mapped_physical_memory_size = 0, pt_address_space_width = 16,
     pt_blocks = \<lparr>m_memory_block_tree = [(100, KMemoryBlock_new 0 4 KMemoryState_Free 0 0),
       (101, KMemoryBlock_new 16384 4 (KState Normal) UserReadWrite 0), (102, KMemoryBlock_new 32768 8 KMemoryState_Free 0 0)],
       m_start_address = 0, m_end_address = 65536\<rparr>,
     pt_allocate_option = EncodeOption Application FromFront, pt_is_kernel = False, pt_enable_aslr = False,
     pt_enable_device_address_space_merge = False, pt_slab = sample_slab, pt_block_infos = sample_slab,
     pt_resource_limit = KResourceLimit_new, pt_memory_pool = Application, pt_allocation_option = FromFront,
     pt_backing_addr = (\<lambda>i. if 4 \<le> i \<and> i < 8 then 1073733632 else 0), pt_num_entries = 16,
     pt_memory_manager = sample_mm, pt_is_heap_address = (\<lambda>a. 1073741824 \<le> a \<and> a < 1073807360)\<rparr>"

lemma UserReadWrite_neq: "UserReadWrite \<noteq> 0" "0 \<noteq> UserReadWrite"
  by (simp_all add: perm_defs)

lemma sample_pt_wf: "manager_wf (pt_blocks sample_pt)"
  by (simp add: CanMergeWith_def HasSameProperties_def UserReadWrite_neq manager_wf_def sample_pt_def merged_def flags_counted_def KMemoryBlock_new_def
      block_end_def PageSize_def two64_def)

lemma sample_pt_space: "in_space sample_pt 20480 2"
  unfolding in_space_def using sample_pt_wf by (simp add: sample_pt_def PageSize_def)

lemma sample_pt_pages: "table_pages sample_pt a = (if a < 16384 then Some (KMemoryState_Free, 0, 0, 0, 0, 0)
    else if a < 32768 then Some (KState Normal, UserReadWrite, 0, 0, 0, 0)
    else if a < 65536 then Some (KMemoryState_Free, 0, 0, 0, 0, 0) else None)"
  by (auto simp: manager_pages_def sample_pt_def page_at_Cons covers_def KMemoryBlock_new_def block_end_def PageSize_def props_def)

section \<open>Properties\<close>

fun set_perm :: "KMemoryPermission \<Rightarrow> page_props \<Rightarrow> page_props" where
  "set_perm p (st, pm, op, at, ic, dc) = (st, p, op, at, ic, dc)"

definition check_reprotect :: memory_check where
  "check_reprotect = \<lparr>mc_state_mask = FlagCanReprotect, mc_state = FlagCanReprotect, mc_perm_mask = 0, mc_perm = 0,
     mc_attr_mask = Attr_All, mc_attr = 0\<rparr>"

lemma and_Attr_All [simp]: "(x :: u8) AND Attr_All = x"
proof -
  have "(0xFF :: u8) = -1" by simp
  then show ?thesis unfolding Attr_All_def by (metis and.right_neutral)
qed

lemma and_0_reserved: "(0 :: u8) AND reserved_attr = 0"
  by simp

lemma range_map_eq:
  "(\<And>a x. A \<le> a \<Longrightarrow> a < B \<Longrightarrow> pg a = Some x \<Longrightarrow> F x = G x) \<Longrightarrow> range_map A B F pg = range_map A B G pg"
  by (auto simp: range_map_def fun_eq_iff intro!: option.map_cong0[OF refl] option.map_cong)

lemma in_space_first:
  assumes "in_space pt A n"
  obtains st pm op at ic dc where "table_pages pt A = Some (st, pm, op, at, ic, dc)"
  using first_block_props[OF assms] by (metis prod_cases6)

text \<open>C16: setting the permission of a page range always returns. It succeeds only if all pages of the range
  have the same state and permission, may be reprotected and carry no attribute; then exactly the
  permission of exactly these pages changes, unless there are too few spare blocks to split at the
  ends. Otherwise it reports an invalid memory state and changes nothing.\<close>

theorem set_memory_permission_exact:
  assumes "in_space pt A n"
  shows "\<exists>r pt'. SetMemoryPermission A (n * PageSize) svc_perm pt = Some (r, pt') \<and>
    (if uniform_range check_reprotect DefaultMemoryIgnoreAttr (table_pages pt) A (A + n * PageSize)
     then in_space pt' A n \<and>
       (r = ResultSuccess \<and>
          table_pages pt' = range_map A (A + n * PageSize) (set_perm (ConvertToKMemoryPermission svc_perm)) (table_pages pt) \<or>
        r = ResultOutOfResource \<and> table_pages pt' = table_pages pt \<and>
          fst (UpdateAllocator_new (pt_slab pt) (blocks_needed pt A (A + n * PageSize))) = ResultOutOfResource)
     else r = ResultInvalidCurrentMemory \<and> pt' = pt)"
proof -
  let ?B = "A + n * PageSize" and ?np = "ConvertToKMemoryPermission svc_perm"
  obtain st pm op at ic dc where x: "table_pages pt A = Some (st, pm, op, at, ic, dc)" using in_space_first[OF assms] .
  note chk = CheckMemoryState_ok[OF assms x, of check_reprotect DefaultMemoryIgnoreAttr]
  show ?thesis
  proof (cases "uniform_range check_reprotect DefaultMemoryIgnoreAttr (table_pages pt) A ?B")
    case False
    then show ?thesis using chk by (simp add: SetMemoryPermission_def on_checked_def check_reprotect_def)
  next
    case True
    have pages: "y = (st, pm, op', 0, ic', dc')" if "A \<le> a" "a < ?B" "table_pages pt a = Some y" "y = (st', pm', op', at', ic', dc')"
      for a y st' pm' op' at' ic' dc'
      using True that x unfolding uniform_range_def by (fastforce simp: check_reprotect_def)
    show ?thesis
    proof (cases "pm = ?np")
      case eq: True
      have "set_perm ?np y = y" if "A \<le> a" "a < ?B" "table_pages pt a = Some y" for a y
        using pages[OF that] eq by (cases y) auto
      then have "range_map A ?B (set_perm ?np) (table_pages pt) = range_map A ?B id (table_pages pt)" by (intro range_map_eq) simp
      moreover have "range_map A ?B id (table_pages pt) = table_pages pt" by (auto simp: range_map_def fun_eq_iff option.map_id0)
      ultimately show ?thesis using True eq chk assms
        by (simp add: SetMemoryPermission_def on_checked_def check_reprotect_def)
    next
      case ne: False
      let ?op = "Operate A n ?np ChangePermissions 0"
      have op: "\<exists>p. ?op (pt\<lparr>pt_slab := sl\<rparr>) = Some p \<and> pt_blocks p = pt_blocks pt" for sl by (simp add: Operate_def)
      have first: "not_in_first_block (pt_blocks pt) A \<or> \<not> props_match st ?np 0 (the (table_pages pt A))" using ne x by simp
      obtain r pt' where w: "with_allocator (blocks_needed pt A ?B) (\<lambda>ua p. do {
            p1 \<leftarrow> ?op p; map_option (Pair ResultSuccess) (Update A n st ?np 0 0 0 ua p1) }) pt = Some (r, pt')"
        "r = ResultSuccess \<and> (\<exists>sl p m sl'. ?op (pt\<lparr>pt_slab := sl\<rparr>) = Some p \<and> pt' = p\<lparr>pt_blocks := m, pt_slab := sl'\<rparr> \<and>
            updated pt A n (props_set st ?np 0) m) \<or>
         r = ResultOutOfResource \<and> fst (UpdateAllocator_new (pt_slab pt) (blocks_needed pt A ?B)) = ResultOutOfResource \<and>
           (\<exists>sl. pt' = pt\<lparr>pt_slab := sl\<rparr>)"
        using with_allocator_ok[where oper = ?op and sm = 0 and cm = 0, OF assms refl and_0_reserved first op] by blast
      have call: "SetMemoryPermission A (n * PageSize) svc_perm pt = Some (r, pt')"
        using chk True ne w(1) by (simp add: SetMemoryPermission_def on_checked_def check_reprotect_def)
      have "range_map A ?B (props_set st ?np 0) (table_pages pt) = range_map A ?B (set_perm ?np) (table_pages pt)"
      proof (rule range_map_eq)
        fix a y assume "A \<le> a" "a < ?B" "table_pages pt a = Some y"
        from pages[OF this] show "props_set st ?np 0 y = set_perm ?np y" by (cases y) auto
      qed
      then show ?thesis using call w(2) True assms by (auto simp: updated_def in_space_def)
    qed
  qed
qed

theorem set_memory_permission_exact_witness:
  "\<exists>pt'. SetMemoryPermission 20480 (2 * PageSize) 1 sample_pt = Some (ResultSuccess, pt') \<and>
    table_pages pt' 16384 = Some (KState Normal, UserReadWrite, 0, 0, 0, 0) \<and>
    table_pages pt' 20480 = Some (KState Normal, ConvertToKMemoryPermission 1, 0, 0, 0, 0)"
proof -
  have ur: "uniform_range check_reprotect DefaultMemoryIgnoreAttr (table_pages sample_pt) 20480 (20480 + 2 * PageSize)"
    by (simp add: uniform_range_def sample_pt_pages PageSize_def check_reprotect_def KState_def state_flag_defs FlagsData_def)
  have "blocks_needed sample_pt 20480 (20480 + 2 * PageSize) = MaxBlocks"
    by (simp add: blocks_needed_def needed_def interior_def sample_pt_def KMemoryBlock_new_def block_end_def PageSize_def MaxBlocks_def)
  moreover have "pt_slab sample_pt = sample_slab" by (simp add: sample_pt_def)
  ultimately have "fst (UpdateAllocator_new (pt_slab sample_pt) (blocks_needed sample_pt 20480 (20480 + 2 * PageSize))) = ResultSuccess"
    by (simp only: sample_allocator_new fst_conv)
  then show ?thesis using set_memory_permission_exact[OF sample_pt_space, of 1] ur
    by (auto simp: range_map_def sample_pt_pages PageSize_def)
qed

end
