(* ===== verification/Page_Table_Groups.thy ===== *)
theory Page_Table_Groups
  imports Page_Table_Checks "HOL-Library.Sublist"
begin

text \<open>
  Page groups of mapped memory (\<open>MakePageGroup\<close>, \<open>IsValidPageGroup\<close> and \<open>AddRegionToPages\<close> of
  \<open>K_Page_Table\<close>). The specification is the list of maximal runs of consecutive physical pages behind a
  range; making a group computes it, and validating a group compares with it.
\<close>

section \<open>Maximal runs of pages\<close>

definition extend :: "(nat \<times> nat) list \<Rightarrow> nat \<Rightarrow> (nat \<times> nat) list" where
  "extend rs p =
     (if rs \<noteq> [] \<and> fst (last rs) + snd (last rs) * PageSize = p
      then butlast rs @ [(fst (last rs), Suc (snd (last rs)))] else rs @ [(p, 1)])"

definition runs :: "nat list \<Rightarrow> (nat \<times> nat) list" where
  "runs ps = foldl extend [] ps"

definition run_pages :: "(nat \<times> nat) list \<Rightarrow> nat list" where
  "run_pages rs = concat (map (\<lambda>(a, k). range_pages a k) rs)"

definition maximal :: "(nat \<times> nat) list \<Rightarrow> bool" where
  "maximal rs \<longleftrightarrow> successively (\<lambda>(a, k) (b, l). a + k * PageSize \<noteq> b) rs \<and> (\<forall>(a, k)\<in>set rs. 0 < k)"

lemma runs_snoc: "runs (ps @ [p]) = extend (runs ps) p"
  by (simp add: runs_def)

lemma runs_Nil [simp]: "runs [] = []"
  by (simp add: runs_def)

lemma extend_join: "extend (rs @ [(a, k)]) (a + k * PageSize) = rs @ [(a, Suc k)]"
  by (simp add: extend_def)

lemma extend_new: "p \<noteq> a + k * PageSize \<Longrightarrow> extend (rs @ [(a, k)]) p = rs @ [(a, k), (p, 1)]"
  by (auto simp: extend_def)

lemma extend_cases:
  obtains (empty) "rs = []" "extend rs p = [(p, 1)]"
  | (join) qs a k where "rs = qs @ [(a, k)]" "p = a + k * PageSize" "extend rs p = qs @ [(a, Suc k)]"
  | (new) qs a k where "rs = qs @ [(a, k)]" "p \<noteq> a + k * PageSize" "extend rs p = qs @ [(a, k), (p, 1)]"
proof (cases rs rule: rev_cases)
  case Nil
  then show ?thesis using empty by (simp add: extend_def)
next
  case (snoc qs x)
  obtain a k where "x = (a, k)" by (cases x)
  then show ?thesis using join new snoc extend_join[of qs a k] extend_new[of p a k qs] by (cases "p = a + k * PageSize") auto
qed

lemma run_pages_simps [simp]:
  "run_pages [] = []" "run_pages (rs @ qs) = run_pages rs @ run_pages qs"
  "run_pages ((a, k) # rs) = range_pages a k @ run_pages rs"
  by (simp_all add: run_pages_def)

lemma range_pages_one: "range_pages a 1 = [a]"
  by (simp add: range_pages_def)

lemma range_pages_snoc: "range_pages a (Suc k) = range_pages a k @ [a + k * PageSize]"
  by (simp add: range_pages_def)

lemma runs_pages: "run_pages (runs ps) = ps"
proof (induction ps rule: rev_induct)
  case (snoc p ps)
  show ?case
  proof (cases "runs ps" p rule: extend_cases)
    case empty
    then show ?thesis using snoc unfolding runs_snoc empty(2) by (simp add: range_pages_one del: One_nat_def)
  next
    case (join qs a k)
    then show ?thesis using snoc unfolding runs_snoc join(3) by (auto simp: range_pages_snoc)
  next
    case (new qs a k)
    then show ?thesis using snoc unfolding runs_snoc new(3) by (simp add: range_pages_one del: One_nat_def)
  qed
qed simp

lemma runs_maximal: "maximal (runs ps)"
proof (induction ps rule: rev_induct)
  case (snoc p ps)
  show ?case
    by (cases "runs ps" p rule: extend_cases)
      (use snoc in \<open>auto simp: runs_snoc maximal_def successively_append_iff\<close>)
qed (simp add: maximal_def)

text \<open>Further pages lengthen the last run and add runs after it.\<close>

lemma runs_grow:
  assumes "runs ps = rs @ [(a, k)]"
  shows "\<exists>l qs. runs (ps @ ps') = rs @ (a, l) # qs \<and> k \<le> l"
proof (induction ps' rule: rev_induct)
  case (snoc p ps')
  then obtain l qs where IH: "runs (ps @ ps') = rs @ (a, l) # qs" "k \<le> l" by blast
  have e: "runs (ps @ ps' @ [p]) = extend (rs @ (a, l) # qs) p" using IH(1) by (simp flip: append_assoc add: runs_snoc)
  show ?case
  proof (cases qs rule: rev_cases)
    case Nil
    then show ?thesis unfolding e using IH(2) extend_join[of rs a l] extend_new[of p a l rs]
      by (cases "p = a + l * PageSize") auto
  next
    case (snoc qs' x)
    obtain b m where "x = (b, m)" by (cases x)
    then show ?thesis unfolding e using IH(2) snoc extend_join[of "rs @ (a, l) # qs'" b m] extend_new[of p b m "rs @ (a, l) # qs'"]
      by (cases "p = b + m * PageSize") auto
  qed
qed (use assms in auto)

lemma runs_neq_Nil: "ps \<noteq> [] \<Longrightarrow> runs ps \<noteq> []"
  using runs_pages[of ps] by (auto simp: run_pages_def)

section \<open>Mapped pages\<close>

definition phys_of :: "KPageTable \<Rightarrow> nat \<Rightarrow> nat" where
  "phys_of pt a = add64 (pt_backing_addr pt (a div PageSize)) a"

definition mapped :: "KPageTable \<Rightarrow> nat \<Rightarrow> bool" where
  "mapped pt a \<longleftrightarrow> a div PageSize < pt_num_entries pt \<and> pt_backing_addr pt (a div PageSize) \<noteq> 0"

definition phys_list :: "KPageTable \<Rightarrow> nat \<Rightarrow> nat \<Rightarrow> nat list" where
  "phys_list pt A n = map (\<lambda>i. phys_of pt (A + i * PageSize)) [0 ..< n]"

text \<open>Entries name page-aligned physical addresses inside the 44 bits of a block info.\<close>

definition entries_ok :: "KPageTable \<Rightarrow> bool" where
  "entries_ok pt \<longleftrightarrow> (\<forall>a. PageSize dvd a \<and> mapped pt a \<longrightarrow>
     PageSize dvd phys_of pt a \<and> 0 < phys_of pt a \<and> phys_of pt a + PageSize < two32 * PageSize)"

definition group_blocks :: "KPageGroup \<Rightarrow> (nat \<times> nat) list" where
  "group_blocks pg = map (\<lambda>n. (BlockInfo_GetAddress (snd n), BlockInfo_GetNumPages (snd n))) pg"

definition all_mapped :: "KPageTable \<Rightarrow> nat \<Rightarrow> nat \<Rightarrow> bool" where
  "all_mapped pt A n \<longleftrightarrow> (\<forall>i<n. mapped pt (A + i * PageSize))"

definition heap_runs :: "KPageTable \<Rightarrow> (nat \<times> nat) list \<Rightarrow> bool" where
  "heap_runs pt rs \<longleftrightarrow> (\<forall>(a, k)\<in>set rs. IsHeapPhysicalAddress pt a)"

lemma group_blocks_simps [simp]:
  "group_blocks [] = []" "group_blocks (xs @ ys) = group_blocks xs @ group_blocks ys"
  "group_blocks (n # pg) = (BlockInfo_GetAddress (snd n), BlockInfo_GetNumPages (snd n)) # group_blocks pg"
  "length (group_blocks pg) = length pg"
  by (simp_all add: group_blocks_def)

lemma group_pages_blocks: "group_pages pg = run_pages (group_blocks pg)"
  by (induction pg) (auto simp: run_pages_def group_blocks_def block_pages_def)

lemma phys_list_Suc: "phys_list pt A (Suc n) = phys_list pt A n @ [phys_of pt (A + n * PageSize)]"
  by (simp add: phys_list_def)

lemma all_mapped_Suc: "all_mapped pt A (Suc n) \<longleftrightarrow> all_mapped pt A n \<and> mapped pt (A + n * PageSize)"
  by (auto simp: all_mapped_def less_Suc_eq)

lemma phys_list_prefix: "i \<le> n \<Longrightarrow> \<exists>ps. phys_list pt A n = phys_list pt A i @ ps"
  by (induction n) (auto simp: phys_list_Suc le_Suc_eq)

lemma runs_of_prefix:
  assumes "runs (phys_list pt A i) = rs @ [(a, k)]" "i \<le> n"
  shows "\<exists>l qs. runs (phys_list pt A n) = rs @ (a, l) # qs"
  using runs_grow[OF assms(1)] phys_list_prefix[OF assms(2), of pt A] by metis

lemma run_fits:
  assumes "entries_ok pt" "PageSize dvd A" "all_mapped pt A n" "(a, k) \<in> set (runs (phys_list pt A n))"
  shows "PageSize dvd a" "a + k * PageSize < two32 * PageSize" "0 < k" "0 < a"
proof -
  show k: "0 < k" using assms(4) runs_maximal[of "phys_list pt A n"] by (auto simp: maximal_def)
  have pg: "p \<in> set (phys_list pt A n)" if "p \<in> set (range_pages a k)" for p
  proof -
    have "p \<in> set (run_pages (runs (phys_list pt A n)))" using that assms(4) by (force simp: run_pages_def)
    then show ?thesis by (simp add: runs_pages)
  qed
  have ok: "PageSize dvd p \<and> 0 < p \<and> p + PageSize < two32 * PageSize" if "p \<in> set (range_pages a k)" for p
    using pg[OF that] assms(1-3) by (auto simp: phys_list_def entries_ok_def all_mapped_def)
  have in_k: "a \<in> set (range_pages a k)" "a + (k - 1) * PageSize \<in> set (range_pages a k)" using k by (auto simp: range_pages_def)
  show "PageSize dvd a" "0 < a" using ok[OF in_k(1)] by auto
  obtain j where j: "k = Suc j" using k by (metis gr0_implies_Suc)
  then have "a + (k - 1) * PageSize + PageSize = a + k * PageSize" by simp
  then show "a + k * PageSize < two32 * PageSize" using ok[OF in_k(2)] by simp
qed

text \<open>Adding a run to a group whose last block does not touch it.\<close>

lemma AddBlock_run:
  assumes "AddBlock a k pg bm = (r, pg', bm')" "maximal (group_blocks pg @ [(a, k)])" "group_fits pg"
    "PageSize dvd a" "a + k * PageSize < two32 * PageSize"
  shows "r = ResultSuccess \<and> group_blocks pg' = group_blocks pg @ [(a, k)] \<and> group_fits pg' \<or> r = ResultOutOfResource"
proof -
  have k: "0 < k" using assms(2) by (simp add: maximal_def)
  have "TryConcatenate a k (snd (last pg)) = None" if ne: "pg \<noteq> []"
  proof -
    obtain q b where "last pg = (q, b)" by (cases "last pg")
    then obtain xs where pg: "pg = xs @ [(q, b)]" using append_butlast_last_id[OF ne] by metis
    have "block_fits b" using assms(3) pg by simp
    then have "BlockInfo_GetEndAddress b = BlockInfo_GetAddress b + BlockInfo_GetNumPages b * PageSize"
      by (simp add: BlockInfo_GetEndAddress_def BlockInfo_GetAddress_def BlockInfo_GetNumPages_def block_fits_def add_mult_distrib)
    moreover have "BlockInfo_GetAddress b + BlockInfo_GetNumPages b * PageSize \<noteq> a"
      using assms(2) pg by (simp add: maximal_def successively_append_iff)
    ultimately show ?thesis using pg by (simp add: TryConcatenate_def)
  qed
  then have ab: "AddBlock a k pg bm = (case ResourceManager_Allocate bm of (None, bm1) \<Rightarrow> (ResultOutOfResource, pg, bm1)
      | (Some q, bm1) \<Rightarrow> (ResultSuccess, pg @ [(q, BlockInfo_Initialize a k)], bm1))"
    using k unfolding AddBlock_def by (cases "pg = []") (simp_all only: if_False if_True option.case, simp_all)
  show ?thesis
  proof (cases "ResourceManager_Allocate bm")
    case (Pair o1 bm1)
    then show ?thesis using ab assms(1,3) BlockInfo_Initialize_fits[OF assms(4,5) k] by (cases o1) auto
  qed
qed

section \<open>Making a group\<close>

lemma ContinueTraversal_at:
  assumes "PageSize dvd A" "A + i * PageSize + PageSize < two64"
  shows "ContinueTraversal pt (A div PageSize + i, A + i * PageSize) =
    (if mapped pt (A + i * PageSize)
     then Some (phys_of pt (A + i * PageSize), A div PageSize + Suc i, A + Suc i * PageSize) else None)"
proof -
  have "(A + i * PageSize) div PageSize = A div PageSize + i" by (simp add: add.commute)
  moreover have "add64 (A + i * PageSize) PageSize = A + Suc i * PageSize" using assms(2) by (simp add: add64_eq algebra_simps)
  ultimately show ?thesis unfolding ContinueTraversal_def mapped_def phys_of_def by (auto simp del: div_mult_self1)
qed

lemma make_group_loop_ok:
  assumes ok: "entries_ok pt" "PageSize dvd A" "A + n * PageSize < two64" and i: "i \<le> n" "all_mapped pt A i"
    and rs: "runs (phys_list pt A i) = group_blocks pg @ [(a, k)]" and pg: "group_fits pg" "heap_runs pt (group_blocks pg)"
    and loop: "make_group_loop pt (n * PageSize) (A div PageSize + i, A + i * PageSize) a (k * PageSize) (i * PageSize) pg bm = (r, pg', bm')"
  shows "r = ResultSuccess \<and> all_mapped pt A n \<and> heap_runs pt (runs (phys_list pt A n)) \<and>
      group_blocks pg' = runs (phys_list pt A n) \<and> group_fits pg' \<or>
    r = ResultInvalidCurrentMemory \<and> \<not> (all_mapped pt A n \<and> heap_runs pt (runs (phys_list pt A n))) \<or>
    r = ResultOutOfResource"
  using i rs pg loop
proof (induction "n - i" arbitrary: i pg a k bm)
  case 0
  then have e: "i = n" by simp
  have "(a, k) \<in> set (runs (phys_list pt A i))" using 0(4) by simp
  note F = run_fits[OF ok(1,2) 0(3) this]
  have mx: "maximal (group_blocks pg @ [(a, k)])" using runs_maximal[of "phys_list pt A i"] 0(4) by simp
  show ?case
  proof (cases "IsHeapPhysicalAddress pt a")
    case False
    then show ?thesis using 0 e by (subst (asm) make_group_loop.simps) (auto simp: make_group_last_def heap_runs_def)
  next
    case True
    then have "AddBlock a k pg bm = (r, pg', bm')"
      using 0(7) e by (subst (asm) make_group_loop.simps) (simp add: make_group_last_def)
    from AddBlock_run[OF this mx 0(5) F(1,2)] show ?thesis using True 0(3,4,6) e by (auto simp: heap_runs_def)
  qed
next
  case (Suc d)
  then have lt: "i < n" by simp
  have "(a, k) \<in> set (runs (phys_list pt A i))" using Suc.prems(3) by simp
  note F = run_fits[OF ok(1,2) Suc.prems(2) this]
  have mx: "maximal (group_blocks pg @ [(a, k)])" using runs_maximal[of "phys_list pt A i"] Suc.prems(3) by simp
  have "Suc i * PageSize \<le> n * PageSize" using lt by (intro mult_le_mono1) simp
  then have b: "A + i * PageSize + PageSize < two64" "i * PageSize + PageSize < two64" using ok(3) by simp_all
  have k64: "a + k * PageSize < two64" "k * PageSize + PageSize < two64"
    using F(2) by (simp_all add: two32_def two64_def PageSize_def)
  have tot: "i * PageSize < n * PageSize" using lt by simp
  note ct = ContinueTraversal_at[OF ok(2) b(1), of pt]
  let ?p = "phys_of pt (A + i * PageSize)"
  have adv: "add64 (i * PageSize) PageSize = Suc i * PageSize" "add64 (k * PageSize) PageSize = Suc k * PageSize"
    "add64 a (k * PageSize) = a + k * PageSize" using b(2) k64 by (simp_all add: add64_eq)
  note step = Suc.prems(6)[unfolded make_group_loop.simps[of pt "n * PageSize" "(A div PageSize + i, A + i * PageSize)"]]
  show ?case
  proof (cases "mapped pt (A + i * PageSize)")
    case False
    then have "\<not> all_mapped pt A n" using lt by (auto simp: all_mapped_def)
    then show ?thesis using step tot ct False by simp
  next
    case True
    have am: "all_mapped pt A (Suc i)" using Suc.prems(2) True by (simp add: all_mapped_Suc)
    have d: "d = n - Suc i" "Suc i \<le> n" using Suc.hyps(2) lt by auto
    show ?thesis
    proof (cases "?p = a + k * PageSize")
      case join: True
      have "runs (phys_list pt A (Suc i)) = group_blocks pg @ [(a, Suc k)]"
        using Suc.prems(3) join extend_join by (simp add: phys_list_Suc runs_snoc)
      from Suc.hyps(1)[OF d am this Suc.prems(4,5)] step tot ct True join adv show ?thesis by simp
    next
      case new: False
      have rn: "runs (phys_list pt A (Suc i)) = (group_blocks pg @ [(a, k)]) @ [(?p, 1)]"
        using Suc.prems(3) new extend_new[OF new, of "group_blocks pg"] by (simp add: phys_list_Suc runs_snoc)
      show ?thesis
      proof (cases "IsHeapPhysicalAddress pt a")
        case False
        have "\<not> heap_runs pt (runs (phys_list pt A n))"
          using runs_of_prefix[OF Suc.prems(3,1)] False by (auto simp: heap_runs_def)
        then show ?thesis using step tot ct True new adv False by simp
      next
        case heap: True
        obtain r1 pg1 bm1 where ab: "AddBlock a k pg bm = (r1, pg1, bm1)" by (metis prod_cases3)
        from AddBlock_run[OF ab mx Suc.prems(4) F(1,2)] show ?thesis
        proof
          assume r1: "r1 = ResultSuccess \<and> group_blocks pg1 = group_blocks pg @ [(a, k)] \<and> group_fits pg1"
          have "heap_runs pt (group_blocks pg1)" using r1 Suc.prems(5) heap by (auto simp: heap_runs_def)
          moreover have "make_group_loop pt (n * PageSize) (A div PageSize + Suc i, A + Suc i * PageSize) ?p (1 * PageSize)
              (Suc i * PageSize) pg1 bm1 = (r, pg', bm')"
            using step tot ct True new adv heap ab r1 by simp
          moreover have "runs (phys_list pt A (Suc i)) = group_blocks pg1 @ [(?p, 1)]" using rn r1 by simp
          ultimately show ?thesis using Suc.hyps(1)[OF d am] r1 by blast
        next
          assume "r1 = ResultOutOfResource"
          then show ?thesis using step tot ct True new adv heap ab by simp
        qed
      qed
    qed
  qed
qed

lemma MakePageGroup_ok:
  assumes ok: "entries_ok pt" "PageSize dvd A" "A + n * PageSize < two64" "0 < n"
    and mk: "MakePageGroup pt [] A n bm = (r, pg, bm')"
  shows "r = ResultSuccess \<and> all_mapped pt A n \<and> heap_runs pt (runs (phys_list pt A n)) \<and>
      group_blocks pg = runs (phys_list pt A n) \<and> group_fits pg \<or>
    r = ResultInvalidCurrentMemory \<and> \<not> (all_mapped pt A n \<and> heap_runs pt (runs (phys_list pt A n))) \<or>
    r = ResultOutOfResource"
proof -
  have "1 * PageSize \<le> n * PageSize" using ok(4) by (intro mult_le_mono1) simp
  then have n1: "A + 0 * PageSize + PageSize < two64" using ok(3) unfolding mult_1 mult_0 by linarith
  have bt: "BeginTraversal pt A = ContinueTraversal pt (A div PageSize + 0, A + 0 * PageSize)"
    by (simp add: BeginTraversal_def ContinueTraversal_def Let_def)
  have sz: "mul64 n PageSize = n * PageSize" using ok(3) by (intro mul64_eq) simp
  note ct = ContinueTraversal_at[OF ok(2) n1, of pt, folded bt]
  show ?thesis
  proof (cases "mapped pt A")
    case False
    then have "\<not> all_mapped pt A n" using ok(4) by (auto simp: all_mapped_def)
    then show ?thesis using mk ct False by (simp add: MakePageGroup_def)
  next
    case True
    have "PageSize dvd phys_of pt A" using ok(1,2) True by (simp add: entries_ok_def)
    then have cs: "PageSize - phys_of pt A mod PageSize = PageSize" by simp
    have "runs (phys_list pt A 1) = group_blocks [] @ [(phys_of pt A, 1)]" by (simp add: phys_list_def runs_def extend_def)
    moreover have "all_mapped pt A 1" using True by (simp add: all_mapped_def)
    moreover have "make_group_loop pt (n * PageSize) (A div PageSize + 1, A + 1 * PageSize) (phys_of pt A) (1 * PageSize) (1 * PageSize) [] bm
        = (r, pg, bm')" using mk ct True cs sz by (simp add: MakePageGroup_def Let_def)
    ultimately show ?thesis
      using make_group_loop_ok[OF ok(1-3), of 1 "[]" "phys_of pt A" 1 bm r pg bm'] ok(4) by (simp add: heap_runs_def)
  qed
qed

section \<open>Validating a group\<close>

text \<open>The blocks an iterator of \<open>IsValidPageGroup\<close> has still to give.\<close>

fun pending :: "KPageGroup \<times> nat \<times> nat \<Rightarrow> (nat \<times> nat) list" where
  "pending (rest, a, k) = (if k = 0 then group_blocks rest else (a, k) # group_blocks rest)"

lemma update_iterator_pending:
  "update_iterator it = None \<longleftrightarrow> pending it = []"
  "update_iterator it = Some (rest, b, m) \<Longrightarrow> pending it = (b, m) # group_blocks rest"
  by (cases it; auto simp: update_iterator_def split: if_splits list.splits)+

lemma valid_group_loop_ok:
  assumes ok: "entries_ok pt" "PageSize dvd A" "A + n * PageSize < two64" and i: "i \<le> n" "all_mapped pt A i"
    and rs: "runs (phys_list pt A i) = rs @ [(a, k)]" and R: "R = drop (length rs) (runs (phys_list pt A n))"
  shows "valid_group_loop pt (n * PageSize) (A div PageSize + i, A + i * PageSize) a (k * PageSize) (i * PageSize) it \<longleftrightarrow>
    all_mapped pt A n \<and> heap_runs pt R \<and> prefix R (pending it)"
  using i rs R
proof (induction "n - i" arbitrary: i rs a k it R)
  case 0
  then have "R = [(a, k)]" "i = n" by simp_all
  moreover have "valid_group_loop pt (n * PageSize) (A div PageSize + n, A + n * PageSize) a (k * PageSize) (n * PageSize) it \<longleftrightarrow>
      IsHeapPhysicalAddress pt a \<and> prefix [(a, k)] (pending it)"
    by (subst valid_group_loop.simps) (auto simp: update_iterator_pending split: option.splits)
  ultimately show ?case using 0 by (simp add: heap_runs_def)
next
  case (Suc d)
  then have lt: "i < n" by simp
  have "(a, k) \<in> set (runs (phys_list pt A i))" using Suc.prems(3) by simp
  note F = run_fits[OF ok(1,2) Suc.prems(2) this]
  have "Suc i * PageSize \<le> n * PageSize" using lt by (intro mult_le_mono1) simp
  then have b: "A + i * PageSize + PageSize < two64" "i * PageSize + PageSize < two64" using ok(3) by simp_all
  have k64: "a + k * PageSize < two64" "k * PageSize + PageSize < two64"
    using F(2) by (simp_all add: two32_def two64_def PageSize_def)
  have tot: "i * PageSize < n * PageSize" using lt by simp
  note ct = ContinueTraversal_at[OF ok(2) b(1), of pt]
  let ?p = "phys_of pt (A + i * PageSize)"
  let ?loop = "valid_group_loop pt (n * PageSize) (A div PageSize + i, A + i * PageSize) a (k * PageSize) (i * PageSize) it"
  have adv: "add64 (i * PageSize) PageSize = Suc i * PageSize" "add64 (k * PageSize) PageSize = Suc k * PageSize"
    "add64 a (k * PageSize) = a + k * PageSize" using b(2) k64 by (simp_all add: add64_eq)
  note step = valid_group_loop.simps[of pt "n * PageSize" "(A div PageSize + i, A + i * PageSize)" a "k * PageSize" "i * PageSize" it]
  show ?case
  proof (cases "mapped pt (A + i * PageSize)")
    case False
    then have "\<not> all_mapped pt A n" using lt by (auto simp: all_mapped_def)
    then show ?thesis using step tot ct False by simp
  next
    case True
    have am: "all_mapped pt A (Suc i)" using Suc.prems(2) True by (simp add: all_mapped_Suc)
    have d: "d = n - Suc i" "Suc i \<le> n" using Suc.hyps(2) lt by auto
    show ?thesis
    proof (cases "?p = a + k * PageSize")
      case join: True
      have "runs (phys_list pt A (Suc i)) = rs @ [(a, Suc k)]"
        using Suc.prems(3) join extend_join by (simp add: phys_list_Suc runs_snoc)
      from Suc.hyps(1)[OF d am this Suc.prems(4)] step tot ct True join adv show ?thesis by simp
    next
      case new: False
      have rn: "runs (phys_list pt A (Suc i)) = (rs @ [(a, k)]) @ [(?p, 1)]"
        using Suc.prems(3) extend_new[OF new, of rs] by (simp add: phys_list_Suc runs_snoc)
      obtain l qs where "runs (phys_list pt A n) = (rs @ [(a, k)]) @ (?p, l) # qs"
        using runs_of_prefix[OF rn d(2)] by blast
      then have R: "R = (a, k) # (?p, l) # qs" and R': "(?p, l) # qs = drop (length (rs @ [(a, k)])) (runs (phys_list pt A n))"
        using Suc.prems(4) by simp_all
      note IH = Suc.hyps(1)[OF d am rn R']
      show ?thesis
      proof (cases "update_iterator it")
        case None
        then have "\<not> ?loop" using step tot ct True new adv by simp
        then show ?thesis using None R by (simp add: update_iterator_pending)
      next
        case (Some y)
        then obtain rest c m where y: "update_iterator it = Some (rest, c, m)" by (cases y) auto
        have L: "?loop \<longleftrightarrow> IsHeapPhysicalAddress pt a \<and> c = a \<and> k \<le> m \<and> all_mapped pt A n \<and> heap_runs pt ((?p, l) # qs) \<and>
            prefix ((?p, l) # qs) (pending (rest, a + k * PageSize, m - k))"
          using step tot ct True new adv y IH by auto
        have "k \<le> m \<and> prefix ((?p, l) # qs) (pending (rest, a + k * PageSize, m - k)) \<longleftrightarrow> m = k \<and> prefix ((?p, l) # qs) (group_blocks rest)"
          using new by auto
        then show ?thesis unfolding L R update_iterator_pending(2)[OF y] by (auto simp: heap_runs_def)
      qed
    qed
  qed
qed

text \<open>Validation accepts the groups that begin with the maximal runs behind the range.\<close>

lemma IsValidPageGroup_ok:
  assumes ok: "entries_ok pt" "PageSize dvd A" "A + n * PageSize < two64" "0 < n" and pg: "group_fits pg"
  shows "IsValidPageGroup pt pg A n \<longleftrightarrow> all_mapped pt A n \<and> heap_runs pt (runs (phys_list pt A n)) \<and>
    prefix (runs (phys_list pt A n)) (group_blocks pg)"
proof -
  have "1 * PageSize \<le> n * PageSize" using ok(4) by (intro mult_le_mono1) simp
  then have n1: "A + 0 * PageSize + PageSize < two64" using ok(3) unfolding mult_1 mult_0 by linarith
  have bt: "BeginTraversal pt A = ContinueTraversal pt (A div PageSize + 0, A + 0 * PageSize)"
    by (simp add: BeginTraversal_def ContinueTraversal_def Let_def)
  have sz: "mul64 n PageSize = n * PageSize" using ok(3) by (intro mul64_eq) simp
  note ct = ContinueTraversal_at[OF ok(2) n1, of pt, folded bt]
  have ne: "runs (phys_list pt A n) \<noteq> []" using ok(4) by (intro runs_neq_Nil) (simp add: phys_list_def)
  show ?thesis
  proof (cases pg)
    case Nil
    then show ?thesis using ne by (simp add: IsValidPageGroup_def)
  next
    case (Cons x rest)
    show ?thesis
    proof (cases "mapped pt A")
      case False
      then have "\<not> all_mapped pt A n" using ok(4) by (auto simp: all_mapped_def)
      then show ?thesis using Cons ct False by (simp add: IsValidPageGroup_def)
    next
      case True
      have "PageSize dvd phys_of pt A" using ok(1,2) True by (simp add: entries_ok_def)
      then have cs: "PageSize - phys_of pt A mod PageSize = PageSize" by simp
      have "runs (phys_list pt A 1) = [] @ [(phys_of pt A, 1)]" by (simp add: phys_list_def runs_def extend_def)
      moreover have "all_mapped pt A 1" using True by (simp add: all_mapped_def)
      moreover have "IsValidPageGroup pt pg A n = valid_group_loop pt (n * PageSize) (A div PageSize + 1, A + 1 * PageSize) (phys_of pt A)
          (1 * PageSize) (1 * PageSize) (rest, BlockInfo_GetAddress (snd x), BlockInfo_GetNumPages (snd x))"
        using Cons ct True cs sz by (simp add: IsValidPageGroup_def Let_def)
      moreover have "pending (rest, BlockInfo_GetAddress (snd x), BlockInfo_GetNumPages (snd x)) = group_blocks pg"
        using pg Cons by (auto simp: block_fits_def BlockInfo_GetNumPages_def)
      ultimately show ?thesis
        using valid_group_loop_ok[OF ok(1-3), of 1 "[]" "phys_of pt A" 1] ok(4) by simp
    qed
  qed
qed

section \<open>Locking memory\<close>

text \<open>A page that is locked for code memory.\<close>

fun lock_page :: "page_props \<Rightarrow> page_props" where
  "lock_page (st, pm, op, at, ic, dc) = (st, NotMapped OR KernelReadWrite, op, at OR Locked, ic, dc)"

definition code_lock_check :: memory_check where
  "code_lock_check = (check_lock FlagCanCodeMemory)
     \<lparr>mc_state_mask := FlagCanCodeMemory OR FlagReferenceCounted, mc_state := FlagCanCodeMemory OR FlagReferenceCounted\<rparr>"

definition code_unlock_check :: memory_check where
  "code_unlock_check = (check_unlock FlagCanCodeMemory)
     \<lparr>mc_state_mask := FlagCanCodeMemory OR FlagReferenceCounted, mc_state := FlagCanCodeMemory OR FlagReferenceCounted\<rparr>"

lemma and_Perm_All [simp]: "(x :: u8) AND Perm_All = x"
  using and_Attr_All unfolding Perm_All_def Attr_All_def .

lemma lock_values:
  "NotMapped OR KernelReadWrite \<noteq> UserReadWrite" "NotMapped OR KernelReadWrite \<noteq> 0" "UserReadWrite \<noteq> 0"
  "Locked AND reserved_attr = 0" "Locked AND NOT Locked = 0"
  "Locked AND NOT DefaultMemoryIgnoreAttr = Locked" "0 OR Locked = Locked"
  by (simp_all add: perm_defs KernelReadWrite_def Locked_def reserved_attr_def DefaultMemoryIgnoreAttr_def IpcLocked_def DeviceShared_def)

lemma code_lock_pages:
  assumes "uniform_range code_lock_check ign pg A B" "A \<le> a" "a < B" "pg a = Some y" "pg A = Some (st, pm, op, at, ic, dc)"
  shows "\<exists>op' ic' dc'. y = (st, UserReadWrite, op', 0, ic', dc')"
proof -
  have "props_like ign (st, pm, op, at, ic, dc) y \<and> props_check code_lock_check y"
    using assms unfolding uniform_range_def by (metis option.sel)
  then show ?thesis by (cases y) (simp add: code_lock_check_def check_lock_def)
qed

lemma Contains_range_cong:
  "pt_address_space_start p = pt_address_space_start q \<Longrightarrow> pt_address_space_end p = pt_address_space_end q \<Longrightarrow>
    Contains_range p A s \<longleftrightarrow> Contains_range q A s"
  by (simp add: Contains_range_def)

text \<open>What a table keeps when only its memory blocks and slabs change.\<close>

lemma mapped_cong:
  assumes "pt_backing_addr p = pt_backing_addr q" "pt_num_entries p = pt_num_entries q" "pt_is_heap_address p = pt_is_heap_address q"
  shows "phys_list p A n = phys_list q A n" "entries_ok p \<longleftrightarrow> entries_ok q" "all_mapped p A n \<longleftrightarrow> all_mapped q A n"
    "heap_runs p rs \<longleftrightarrow> heap_runs q rs"
proof -
  have m: "mapped p = mapped q" "phys_of p = phys_of q" using assms by (auto simp: mapped_def phys_of_def fun_eq_iff)
  then show "phys_list p A n = phys_list q A n" "entries_ok p \<longleftrightarrow> entries_ok q" "all_mapped p A n \<longleftrightarrow> all_mapped q A n"
    by (simp_all add: phys_list_def entries_ok_def all_mapped_def)
  show "heap_runs p rs \<longleftrightarrow> heap_runs q rs" using assms(3) by (simp add: heap_runs_def IsHeapPhysicalAddress_def)
qed

lemma LockForCodeMemory_run:
  assumes sp: "in_space pt A n" and cr: "Contains_range pt A (n * PageSize)"
    and ur: "uniform_range code_lock_check DefaultMemoryIgnoreAttr (table_pages pt) A (A + n * PageSize)"
    and mk: "MakePageGroup pt [] A n (pt_block_infos pt) = (ResultSuccess, g, bm)"
  shows "\<exists>r pt1. LockForCodeMemory [] A (n * PageSize) pt = Some ((r, Some g, None), pt1) \<and>
    (r = ResultSuccess \<and> (\<exists>m sl. pt1 = pt\<lparr>pt_block_infos := bm, pt_blocks := m, pt_slab := sl\<rparr> \<and> updated pt A n lock_page m) \<or>
     r = ResultOutOfResource \<and> fst (UpdateAllocator_new (pt_slab pt) (blocks_needed pt A (A + n * PageSize))) = ResultOutOfResource)"
proof -
  let ?B = "A + n * PageSize" and ?np = "NotMapped OR KernelReadWrite"
  obtain st pm op at ic dc where x: "table_pages pt A = Some (st, pm, op, at, ic, dc)" using in_space_first[OF sp] .
  note chk = CheckMemoryState_ok[OF sp x, of code_lock_check DefaultMemoryIgnoreAttr]
  note D = in_spaceD[OF sp]
  have pages: "\<exists>op' ic' dc'. y = (st, UserReadWrite, op', 0, ic', dc')" if "A \<le> a" "a < ?B" "table_pages pt a = Some y" for a y
    using code_lock_pages[OF ur that x] .
  have pm: "pm = UserReadWrite" "at = 0" using pages[OF le_refl D(2) x] by auto
  let ?pt = "pt\<lparr>pt_block_infos := bm\<rparr>" and ?op = "Operate A n ?np ChangePermissions 0"
  have sp': "in_space ?pt A n" using sp by (simp add: in_space_def)
  have op: "\<exists>p. ?op (?pt\<lparr>pt_slab := sl\<rparr>) = Some p \<and> pt_blocks p = pt_blocks ?pt" for sl by (simp add: Operate_def)
  have k: "blocks_needed pt A ?B = blocks_needed ?pt A ?B" by (simp add: blocks_needed_def)
  have first: "not_in_first_block (pt_blocks ?pt) A \<or> \<not> props_match st ?np Locked (the (table_pages ?pt A))"
    using pm x lock_values(1) by simp
  obtain r pt' where w: "with_allocator (blocks_needed pt A ?B) (\<lambda>ua p. do {
        p1 \<leftarrow> ?op p; map_option (Pair ResultSuccess) (Update A n st ?np Locked DM_Locked 0 ua p1) }) ?pt = Some (r, pt')"
    "r = ResultSuccess \<and> (\<exists>sl p m sl'. ?op (?pt\<lparr>pt_slab := sl\<rparr>) = Some p \<and> pt' = p\<lparr>pt_blocks := m, pt_slab := sl'\<rparr> \<and>
        updated ?pt A n (props_set st ?np Locked) m) \<or>
     r = ResultOutOfResource \<and> fst (UpdateAllocator_new (pt_slab ?pt) (blocks_needed pt A ?B)) = ResultOutOfResource"
    using with_allocator_ok[where oper = ?op and sm = DM_Locked and cm = 0, OF sp' k lock_values(4) first op] by blast
  have eq: "LockForCodeMemory [] A (n * PageSize) pt = Some ((r, Some g, None), pt')"
    using cr chk ur mk w(1) pm lock_values D(6)
    by (simp add: LockForCodeMemory_def LockMemoryAndOpen_def code_lock_check_def check_lock_def Let_def)
  have "range_map A ?B (props_set st ?np Locked) (table_pages pt) = range_map A ?B lock_page (table_pages pt)"
  proof (rule range_map_eq)
    fix a y assume "A \<le> a" "a < ?B" "table_pages pt a = Some y"
    from pages[OF this] show "props_set st ?np Locked y = lock_page y" by auto
  qed
  then have "updated ?pt A n (props_set st ?np Locked) m \<longleftrightarrow> updated pt A n lock_page m" for m by (simp add: updated_def)
  then show ?thesis using eq w(2) by (auto simp: Operate_def)
qed

lemma LockForCodeMemory_ok:
  assumes sp: "in_space pt A n"
    and lock: "LockForCodeMemory [] A (n * PageSize) pt = Some ((ResultSuccess, pg, ph), pt1)"
  obtains g bm m sl where "pg = Some g" "MakePageGroup pt [] A n (pt_block_infos pt) = (ResultSuccess, g, bm)"
    "pt1 = pt\<lparr>pt_block_infos := bm, pt_blocks := m, pt_slab := sl\<rparr>" "Contains_range pt A (n * PageSize)"
    "uniform_range code_lock_check DefaultMemoryIgnoreAttr (table_pages pt) A (A + n * PageSize)"
    "updated pt A n lock_page m"
proof -
  let ?B = "A + n * PageSize"
  obtain st pm op at ic dc where x: "table_pages pt A = Some (st, pm, op, at, ic, dc)" using in_space_first[OF sp] .
  note chk = CheckMemoryState_ok[OF sp x, of code_lock_check DefaultMemoryIgnoreAttr]
  have cr: "Contains_range pt A (n * PageSize)"
    using lock by (auto simp: LockForCodeMemory_def LockMemoryAndOpen_def split: if_splits)
  have ur: "uniform_range code_lock_check DefaultMemoryIgnoreAttr (table_pages pt) A ?B"
  proof (rule ccontr)
    assume "\<not> ?thesis"
    then show False using lock chk cr by (simp add: LockForCodeMemory_def LockMemoryAndOpen_def code_lock_check_def check_lock_def)
  qed
  obtain r g bm where mk: "MakePageGroup pt [] A n (pt_block_infos pt) = (r, g, bm)" by (metis prod_cases3)
  have r: "r = ResultSuccess"
  proof (rule ccontr)
    assume "r \<noteq> ResultSuccess"
    then show False using lock chk cr ur mk in_spaceD(6)[OF sp]
      by (simp add: LockForCodeMemory_def LockMemoryAndOpen_def code_lock_check_def check_lock_def Let_def)
  qed
  then show ?thesis using LockForCodeMemory_run[OF sp cr ur] mk lock cr ur that by auto
qed

lemma unlock_lock_page:
  "y = (st, UserReadWrite, op, 0, ic, dc) \<Longrightarrow> props_set st UserReadWrite 0 (lock_page y) = y"
  using lock_values(4) by simp

lemma UnlockForCodeMemory_ok:
  assumes sp: "in_space pt A n" and cr: "Contains_range pt A (n * PageSize)"
    and ur: "uniform_range code_lock_check DefaultMemoryIgnoreAttr pg A (A + n * PageSize)" "pg A \<noteq> None"
    and pages: "table_pages pt = range_map A (A + n * PageSize) lock_page pg"
  shows "\<exists>r pt'. UnlockForCodeMemory A (n * PageSize) g pt = Some (r, pt') \<and>
    (if IsValidPageGroup pt g A n
     then r = ResultSuccess \<and> table_pages pt' = pg \<or>
       r = ResultOutOfResource \<and> table_pages pt' = table_pages pt \<and>
         fst (UpdateAllocator_new (pt_slab pt) (blocks_needed pt A (A + n * PageSize))) = ResultOutOfResource
     else r = ResultInvalidMemoryRegion \<and> pt' = pt)"
proof -
  let ?B = "A + n * PageSize" and ?np = "NotMapped OR KernelReadWrite"
  note D = in_spaceD[OF sp]
  obtain st pm op at ic dc where y: "pg A = Some (st, pm, op, at, ic, dc)" using ur(2) by (metis option.exhaust prod_cases6)
  have old: "\<exists>op' ic' dc'. y = (st, UserReadWrite, op', 0, ic', dc')" if "A \<le> a" "a < ?B" "pg a = Some y" for a y
    using code_lock_pages[OF ur(1) that y] .
  have st: "st AND (FlagCanCodeMemory OR FlagReferenceCounted) = FlagCanCodeMemory OR FlagReferenceCounted"
    using ur(1) y D(2) unfolding uniform_range_def by (fastforce simp: code_lock_check_def check_lock_def)
  have x: "table_pages pt A = Some (st, ?np, op, Locked, ic, dc)" using pages y old[OF le_refl D(2) y] D(2) by (simp add: range_map_def)
  have new: "\<exists>op' ic' dc'. y = (st, ?np, op', Locked, ic', dc')" if "A \<le> a" "a < ?B" "table_pages pt a = Some y" for a y
    using old[OF that(1,2)] that pages by (fastforce simp: range_map_def)
  have "uniform_range code_unlock_check DefaultMemoryIgnoreAttr (table_pages pt) A ?B"
    using new st x unfolding uniform_range_def by (fastforce simp: code_unlock_check_def check_unlock_def)
  with CheckMemoryState_ok[OF sp x, of code_unlock_check DefaultMemoryIgnoreAttr] lock_values(6)
  have chk: "CheckMemoryState pt A (n * PageSize) code_unlock_check DefaultMemoryIgnoreAttr =
      Some (Inr \<lparr>out_state = st, out_perm = ?np, out_attr = Locked, out_blocks_needed = blocks_needed pt A ?B\<rparr>)" by simp
  show ?thesis
  proof (cases "IsValidPageGroup pt g A n")
    case False
    then show ?thesis using chk cr D(6)
      by (simp add: UnlockForCodeMemory_def UnlockMemory_def on_checked_def r_unless_def code_unlock_check_def check_unlock_def)
  next
    case True
    let ?op = "Operate A n UserReadWrite ChangePermissions 0"
    have op: "\<exists>p. ?op (pt\<lparr>pt_slab := sl\<rparr>) = Some p \<and> pt_blocks p = pt_blocks pt" for sl by (simp add: Operate_def)
    have first: "not_in_first_block (pt_blocks pt) A \<or> \<not> props_match st UserReadWrite 0 (the (table_pages pt A))"
      using x lock_values(1) by simp
    obtain r pt' where w: "with_allocator (blocks_needed pt A ?B) (\<lambda>ua p. do {
          p1 \<leftarrow> ?op p; map_option (Pair ResultSuccess) (Update A n st UserReadWrite 0 0 DM_Locked ua p1) }) pt = Some (r, pt')"
      "r = ResultSuccess \<and> (\<exists>sl p m sl'. ?op (pt\<lparr>pt_slab := sl\<rparr>) = Some p \<and> pt' = p\<lparr>pt_blocks := m, pt_slab := sl'\<rparr> \<and>
          updated pt A n (props_set st UserReadWrite 0) m) \<or>
       r = ResultOutOfResource \<and> fst (UpdateAllocator_new (pt_slab pt) (blocks_needed pt A ?B)) = ResultOutOfResource \<and>
         (\<exists>sl. pt' = pt\<lparr>pt_slab := sl\<rparr>)"
      using with_allocator_ok[where oper = ?op and sm = 0 and cm = DM_Locked, OF sp refl and_0_reserved first op] by blast
    have call: "UnlockForCodeMemory A (n * PageSize) g pt = Some (r, pt')"
      using chk cr D(6) True w(1) lock_values
      by (simp add: UnlockForCodeMemory_def UnlockMemory_def on_checked_def r_unless_def code_unlock_check_def check_unlock_def Let_def)
    have "range_map A ?B (props_set st UserReadWrite 0) (table_pages pt) a = pg a" for a
      using old[of a] unlock_lock_page unfolding pages by (cases "pg a") (auto simp: range_map_def simp del: lock_page.simps props_set.simps)
    then have "range_map A ?B (props_set st UserReadWrite 0) (table_pages pt) = pg" ..
    then show ?thesis using call w(2) True by (auto simp: updated_def)
  qed
qed

section \<open>Properties\<close>

lemma run_pages_positive: "\<forall>(a, k)\<in>set rs. 0 < k \<Longrightarrow> run_pages rs = [] \<Longrightarrow> rs = []"
  by (cases rs) (auto simp: range_pages_def)

lemma prefix_same_pages:
  assumes "prefix rs (group_blocks pg)" "group_fits pg" "length (group_pages pg) = length (run_pages rs)"
  shows "group_blocks pg = rs"
proof -
  obtain qs where qs: "group_blocks pg = rs @ qs" using assms(1) by (auto simp: prefix_def)
  have "\<forall>(a, k)\<in>set (group_blocks pg). 0 < k" using assms(2)
    by (auto simp: group_blocks_def group_fits_def block_fits_def BlockInfo_GetNumPages_def)
  then have pos: "\<forall>(a, k)\<in>set qs. 0 < k" using qs by auto
  have "run_pages qs = []" using assms(3) qs by (simp add: group_pages_blocks)
  then show ?thesis using run_pages_positive[OF pos] qs by simp
qed

lemma phys_list_length [simp]: "length (phys_list pt A n) = n"
  by (simp add: phys_list_def)

text \<open>C19: making a page group from a range of mapped heap memory lists the physical pages behind the range, in
  order; the group is then valid for this range, and among the groups of as many pages only those with
  the same blocks are. It fails for an unmapped page or a run outside the heap, and then no group at all
  is valid for the range, or for lack of block infos.\<close>

theorem page_group_roundtrip:
  assumes "entries_ok pt" "PageSize dvd A" "A + n * PageSize < two64" "0 < n" "MakePageGroup pt [] A n bm = (r, pg, bm')"
  shows "r = ResultSuccess \<and> group_pages pg = phys_list pt A n \<and> IsValidPageGroup pt pg A n \<and>
      (\<forall>pg'. group_fits pg' \<and> length (group_pages pg') = n \<longrightarrow> (IsValidPageGroup pt pg' A n \<longleftrightarrow> group_blocks pg' = group_blocks pg)) \<or>
    r = ResultInvalidCurrentMemory \<and> (\<forall>pg'. group_fits pg' \<longrightarrow> \<not> IsValidPageGroup pt pg' A n) \<or>
    r = ResultOutOfResource"
  using MakePageGroup_ok[OF assms]
proof (elim disjE)
  assume s: "r = ResultSuccess \<and> all_mapped pt A n \<and> heap_runs pt (runs (phys_list pt A n)) \<and>
    group_blocks pg = runs (phys_list pt A n) \<and> group_fits pg"
  then have pages: "group_pages pg = phys_list pt A n" by (simp add: group_pages_blocks runs_pages)
  have "IsValidPageGroup pt pg' A n \<longleftrightarrow> group_blocks pg' = group_blocks pg"
    if "group_fits pg'" "length (group_pages pg') = n" for pg'
    using IsValidPageGroup_ok[OF assms(1-4) that(1)] s that prefix_same_pages[of "group_blocks pg" pg'] pages
    by (auto simp: group_pages_blocks)
  then show ?thesis using s pages by (metis phys_list_length)
next
  assume "r = ResultInvalidCurrentMemory \<and> \<not> (all_mapped pt A n \<and> heap_runs pt (runs (phys_list pt A n)))"
  then show ?thesis using IsValidPageGroup_ok[OF assms(1-4)] by blast
qed simp

lemma sample_pt_entries: "entries_ok sample_pt"
  by (auto simp: entries_ok_def mapped_def phys_of_def sample_pt_def PageSize_def add64_def two64_def two32_def)

theorem page_group_roundtrip_witness:
  "\<exists>pg bm'. MakePageGroup sample_pt [] 16384 4 sample_slab = (ResultSuccess, pg, bm') \<and>
    group_pages pg = phys_list sample_pt 16384 4 \<and> IsValidPageGroup sample_pt pg 16384 4"
proof -
  obtain r pg bm' where mk: "MakePageGroup sample_pt [] 16384 4 sample_slab = (r, pg, bm')" by (metis prod_cases3)
  have "fst (MakePageGroup sample_pt [] 16384 4 sample_slab) = ResultSuccess"
    by (simp add: MakePageGroup_def BeginTraversal_def ContinueTraversal_def make_group_loop.simps make_group_last_def AddBlock_def
        sample_pt_def sample_slab_def PageSize_def add64_def mul64_def two64_def IsHeapPhysicalAddress_def ResourceManager_Allocate_def
        Slab_Allocate_def SlabImpl_Allocate_def slab_track_def Let_def)
  then have "r = ResultSuccess" using mk by simp
  then show ?thesis using page_group_roundtrip[OF sample_pt_entries _ _ _ mk] mk by (simp add: PageSize_def two64_def)
qed

text \<open>C9: locking a page range for code memory hands out the physical pages behind it and makes the range
  inaccessible to the user, nothing else. Unlocking the range with the group it handed out gives every
  page its former properties back, unless there are too few spare blocks to split at the ends; unlocking
  it with a group of as many but different blocks is refused and changes nothing.\<close>

theorem code_memory_lock_roundtrip:
  assumes "in_space pt A n" "entries_ok pt"
    "LockForCodeMemory [] A (n * PageSize) pt = Some ((ResultSuccess, pg, ph), pt1)"
  shows "\<exists>g. pg = Some g \<and> group_pages g = phys_list pt A n \<and>
    table_pages pt1 = range_map A (A + n * PageSize) lock_page (table_pages pt) \<and>
    (\<exists>r pt2. UnlockForCodeMemory A (n * PageSize) g pt1 = Some (r, pt2) \<and>
       (r = ResultSuccess \<and> table_pages pt2 = table_pages pt \<or>
        r = ResultOutOfResource \<and> table_pages pt2 = table_pages pt1 \<and>
          fst (UpdateAllocator_new (pt_slab pt1) (blocks_needed pt1 A (A + n * PageSize))) = ResultOutOfResource)) \<and>
    (\<forall>g'. group_fits g' \<and> length (group_pages g') = n \<and> group_blocks g' \<noteq> group_blocks g \<longrightarrow>
       UnlockForCodeMemory A (n * PageSize) g' pt1 = Some (ResultInvalidMemoryRegion, pt1))"
proof (rule LockForCodeMemory_ok[OF assms(1,3)])
  let ?B = "A + n * PageSize"
  fix g bm m sl
  assume g: "pg = Some g" "MakePageGroup pt [] A n (pt_block_infos pt) = (ResultSuccess, g, bm)"
    "pt1 = pt\<lparr>pt_block_infos := bm, pt_blocks := m, pt_slab := sl\<rparr>" "Contains_range pt A (n * PageSize)"
    "uniform_range code_lock_check DefaultMemoryIgnoreAttr (table_pages pt) A ?B" "updated pt A n lock_page m"
  note D = in_spaceD[OF assms(1)]
  have A: "PageSize dvd A" "0 < n" using assms(1) by (auto simp: in_space_def)
  from MakePageGroup_ok[OF assms(2) A(1) D(1) A(2) g(2)]
  have mk: "all_mapped pt A n" "heap_runs pt (runs (phys_list pt A n))" "group_blocks g = runs (phys_list pt A n)" "group_fits g"
    by auto
  then have pages: "group_pages g = phys_list pt A n" by (simp add: group_pages_blocks runs_pages)
  have cong: "phys_list pt1 A n = phys_list pt A n" "entries_ok pt1" "all_mapped pt1 A n" "heap_runs pt1 (runs (phys_list pt A n))"
    using mapped_cong[of pt1 pt] g(3) mk assms(2) by auto
  have valid: "IsValidPageGroup pt1 g' A n \<longleftrightarrow> prefix (group_blocks g) (group_blocks g')" if "group_fits g'" for g'
    using IsValidPageGroup_ok[OF cong(2) A(1) D(1) A(2) that] cong mk by simp
  have sp1: "in_space pt1 A n" using g(3,6) assms(1) by (auto simp: in_space_def updated_def)
  have cr1: "Contains_range pt1 A (n * PageSize)" using g(3,4) by (simp add: Contains_range_def)
  have p1: "table_pages pt1 = range_map A ?B lock_page (table_pages pt)" using g(3,6) by (simp add: updated_def)
  have ne: "table_pages pt A \<noteq> None" using first_block_props[OF assms(1)] by (metis option.distinct(1))
  note un = UnlockForCodeMemory_ok[OF sp1 cr1 g(5) ne p1]
  have "UnlockForCodeMemory A (n * PageSize) g' pt1 = Some (ResultInvalidMemoryRegion, pt1)"
    if g': "group_fits g'" "length (group_pages g') = n" "group_blocks g' \<noteq> group_blocks g" for g'
  proof -
    have "\<not> IsValidPageGroup pt1 g' A n" using valid[OF g'(1)] prefix_same_pages[of "group_blocks g" g'] g' pages
      by (auto simp: group_pages_blocks)
    then show ?thesis using un[of g'] by auto
  qed
  then show ?thesis using un[of g] valid[OF mk(4)] g(1) pages p1 by auto
qed

lemma sample_make: "fst (MakePageGroup sample_pt [] 20480 2 (pt_block_infos sample_pt)) = ResultSuccess"
  by (simp add: MakePageGroup_def BeginTraversal_def ContinueTraversal_def make_group_loop.simps make_group_last_def AddBlock_def
      sample_pt_def sample_slab_def PageSize_def add64_def mul64_def two64_def IsHeapPhysicalAddress_def ResourceManager_Allocate_def
      Slab_Allocate_def SlabImpl_Allocate_def slab_track_def Let_def)

lemma sample_blocks_needed:
  "fst (UpdateAllocator_new (pt_slab sample_pt) (blocks_needed sample_pt 20480 (20480 + 2 * PageSize))) = ResultSuccess"
proof -
  have "blocks_needed sample_pt 20480 (20480 + 2 * PageSize) = MaxBlocks"
    by (simp add: blocks_needed_def needed_def interior_def sample_pt_def KMemoryBlock_new_def block_end_def PageSize_def MaxBlocks_def)
  moreover have "pt_slab sample_pt = sample_slab" by (simp add: sample_pt_def)
  ultimately show ?thesis by (simp only: sample_allocator_new fst_conv)
qed

lemma sample_lock:
  "\<exists>pg ph pt1. LockForCodeMemory [] 20480 (2 * PageSize) sample_pt = Some ((ResultSuccess, pg, ph), pt1)"
proof -
  obtain g bm where mk: "MakePageGroup sample_pt [] 20480 2 (pt_block_infos sample_pt) = (ResultSuccess, g, bm)"
    using sample_make by (metis prod.collapse)
  have cr: "Contains_range sample_pt 20480 (2 * PageSize)"
    by (simp add: Contains_range_def sample_pt_def PageSize_def add64_def sub64_def two64_def)
  have ur: "uniform_range code_lock_check DefaultMemoryIgnoreAttr (table_pages sample_pt) 20480 (20480 + 2 * PageSize)"
    by (simp add: uniform_range_def sample_pt_pages PageSize_def code_lock_check_def check_lock_def KState_def state_flag_defs FlagsData_def)
  show ?thesis using LockForCodeMemory_run[OF sample_pt_space cr ur mk] sample_blocks_needed by auto
qed

theorem code_memory_lock_roundtrip_witness:
  "\<exists>g ph pt1. LockForCodeMemory [] 20480 (2 * PageSize) sample_pt = Some ((ResultSuccess, Some g, ph), pt1) \<and>
    group_pages g = [1073754112, 1073758208] \<and>
    table_pages pt1 20480 = Some (KState Normal, NotMapped OR KernelReadWrite, 0, Locked, 0, 0) \<and>
    (\<exists>r pt2. UnlockForCodeMemory 20480 (2 * PageSize) g pt1 = Some (r, pt2))"
proof -
  obtain pg ph pt1 where l: "LockForCodeMemory [] 20480 (2 * PageSize) sample_pt = Some ((ResultSuccess, pg, ph), pt1)"
    using sample_lock by blast
  have "phys_list sample_pt 20480 2 = [1073754112, 1073758208]"
    by (simp add: phys_list_def phys_of_def sample_pt_def PageSize_def add64_def two64_def upt_rec)
  then show ?thesis using code_memory_lock_roundtrip[OF sample_pt_space sample_pt_entries l] l
    by (auto simp: range_map_def sample_pt_pages PageSize_def)
qed

end
