(* ===== verification/Page_Table_Mapping.thy ===== *)
theory Page_Table_Mapping
  imports Page_Table_Groups
begin

text \<open>
  Mapping and unmapping physical memory (\<open>Operate\<close> of \<open>Page_Table_Operations\<close>) against the reference counts
  of the memory manager (\<open>Memory_References\<close>, \<open>Memory_Allocation\<close>): which entries and which counts change.
\<close>

section \<open>Entries\<close>

text \<open>The entries of \<open>n\<close> pages from index \<open>base\<close> on, after they were mapped to consecutive pages or unmapped.\<close>

definition set_entries :: "nat \<Rightarrow> nat \<Rightarrow> (nat \<Rightarrow> nat) \<Rightarrow> KPageTable \<Rightarrow> KPageTable" where
  "set_entries base n f pt = pt\<lparr>pt_backing_addr := (\<lambda>i. if base \<le> i \<and> i < base + n then f i else pt_backing_addr pt i)\<rparr>"

definition backing :: "nat \<Rightarrow> nat \<Rightarrow> nat" where
  "backing t i = sub64 t (i * PageSize)"

lemma set_entries_0 [simp]: "set_entries base 0 f pt = pt"
proof -
  have "(\<lambda>i. if base \<le> i \<and> i < base + 0 then f i else pt_backing_addr pt i) = pt_backing_addr pt" by auto
  then show ?thesis by (simp add: set_entries_def)
qed

lemma set_entries_cong:
  assumes "\<And>i. base \<le> i \<Longrightarrow> i < base + n \<Longrightarrow> f i = g i"
  shows "set_entries base n f pt = set_entries base n g pt"
proof -
  have "(\<lambda>i. if base \<le> i \<and> i < base + n then f i else pt_backing_addr pt i) =
      (\<lambda>i. if base \<le> i \<and> i < base + n then g i else pt_backing_addr pt i)" using assms by auto
  then show ?thesis by (simp add: set_entries_def)
qed

lemma set_entries_Suc:
  "set_entries (base + 1) n f (pt\<lparr>pt_backing_addr := (pt_backing_addr pt)(base := f base)\<rparr>) = set_entries base (Suc n) f pt"
  by (auto simp: set_entries_def fun_eq_iff intro!: arg_cong[where f = "\<lambda>g. pt\<lparr>pt_backing_addr := g\<rparr>"])

lemma MapPages_entries_map:
  assumes "base + n \<le> pt_num_entries pt" "pt_num_entries pt * PageSize < two64" "t \<noteq> 0" "t + n * PageSize < two64"
  shows "MapPages_entries n base t pt = Some (set_entries base n (\<lambda>i. backing (t + (i - base) * PageSize) i) pt)"
  using assms
proof (induction n arbitrary: base t pt)
  case (Suc n)
  have b: "base < pt_num_entries pt" using Suc.prems(1) by simp
  have ne: "pt_num_entries pt \<le> pt_num_entries pt * PageSize" by (simp add: PageSize_def)
  have bb: "base * PageSize \<le> pt_num_entries pt * PageSize" using b by simp
  have "t + PageSize < two64" using Suc.prems(4) by simp
  moreover have "base + 1 < two64" "base * PageSize < two64" using Suc.prems(1,2) b ne bb by linarith+
  ultimately have e: "add64 base 1 = base + 1" "mul64 base PageSize = base * PageSize" "add64 t PageSize = t + PageSize"
    by (simp_all only: add64_eq mul64_eq)
  let ?pt = "pt\<lparr>pt_backing_addr := (pt_backing_addr pt)(base := backing t base)\<rparr>"
  let ?f = "\<lambda>i. backing (t + (i - base) * PageSize) i"
  have "MapPages_entries (Suc n) base t pt = MapPages_entries n (base + 1) (t + PageSize) ?pt"
    using b Suc.prems(3) e by (simp add: backing_def Let_def)
  also have "\<dots> = Some (set_entries (base + 1) n (\<lambda>i. backing (t + PageSize + (i - (base + 1)) * PageSize) i) ?pt)"
    using Suc.prems by (intro Suc.IH) simp_all
  also have "set_entries (base + 1) n (\<lambda>i. backing (t + PageSize + (i - (base + 1)) * PageSize) i) ?pt = set_entries (base + 1) n ?f ?pt"
  proof -
    have e: "t + PageSize + (i - (base + 1)) * PageSize = t + (i - base) * PageSize" if le: "base + 1 \<le> i" for i
    proof -
      obtain j where "i = base + 1 + j" using le_Suc_ex[OF le] by blast
      then show ?thesis by simp
    qed
    show ?thesis by (rule set_entries_cong) (simp only: e)
  qed
  also have "\<dots> = set_entries base (Suc n) ?f pt" using set_entries_Suc[of base n ?f pt] by simp
  finally show ?case .
qed simp

lemma MapPages_entries_unmap:
  assumes "base + n \<le> pt_num_entries pt" "pt_num_entries pt < two64"
  shows "MapPages_entries n base 0 pt = Some (set_entries base n (\<lambda>_. 0) pt)"
  using assms
proof (induction n arbitrary: base pt)
  case (Suc n)
  have "MapPages_entries (Suc n) base 0 pt = MapPages_entries n (base + 1) 0 (pt\<lparr>pt_backing_addr := (pt_backing_addr pt)(base := 0)\<rparr>)"
    using Suc.prems by (simp add: add64_eq Let_def)
  also have "\<dots> = Some (set_entries (base + 1) n (\<lambda>_. 0) (pt\<lparr>pt_backing_addr := (pt_backing_addr pt)(base := 0)\<rparr>))"
    using Suc.prems by (intro Suc.IH) simp_all
  finally show ?case using set_entries_Suc[of base n "\<lambda>_. 0" pt] by simp
qed simp

text \<open>Mapping the blocks of a group one after the other maps the pages of the group in order.\<close>

lemma backing_phys: "t < two64 \<Longrightarrow> add64 (backing t i) (i * PageSize) = t"
proof -
  assume t: "t < two64"
  have "((t + (two64 - x mod two64)) mod two64 + x) mod two64 = t" for x
  proof -
    have "((t + (two64 - x mod two64)) mod two64 + x) mod two64 = (t + (two64 - x mod two64) + x mod two64) mod two64"
      by (simp add: mod_simps)
    also have "t + (two64 - x mod two64) + x mod two64 = t + two64"
      using mod_less_divisor[of two64 x] by (simp add: two64_def)
    finally show ?thesis using t by simp
  qed
  then show ?thesis by (simp add: backing_def add64_def sub64_def)
qed

lemma phys_of_set_entries:
  assumes "PageSize dvd a" "base \<le> a div PageSize" "a div PageSize < base + n" "f (a div PageSize) = backing t (a div PageSize)" "t < two64"
  shows "phys_of (set_entries base n f pt) a = t"
proof -
  have "a = a div PageSize * PageSize" using assms(1) by simp
  then show ?thesis using assms backing_phys[OF assms(5), of "a div PageSize"] by (simp add: phys_of_def set_entries_def)
qed

lemma set_entries_fields [simp]:
  "pt_num_entries (set_entries base n f pt) = pt_num_entries pt"
  by (simp add: set_entries_def)

lemma phys_list_append: "phys_list pt A (m + n) = phys_list pt A m @ phys_list pt (A + m * PageSize) n"
proof (rule nth_equalityI)
  fix i assume i: "i < length (phys_list pt A (m + n))"
  show "phys_list pt A (m + n) ! i = (phys_list pt A m @ phys_list pt (A + m * PageSize) n) ! i"
  proof (cases "i < m")
    case False
    then obtain j where "i = m + j" using le_Suc_ex not_less by blast
    then show ?thesis using i by (simp add: phys_list_def nth_append add_mult_distrib add.assoc)
  qed (use i in \<open>simp add: phys_list_def nth_append\<close>)
qed simp

lemma phys_list_cong:
  assumes "\<And>i. i < n \<Longrightarrow> pt_backing_addr p ((A + i * PageSize) div PageSize) = pt_backing_addr q ((A + i * PageSize) div PageSize)"
  shows "phys_list p A n = phys_list q A n"
  using assms by (simp add: phys_list_def phys_of_def)

lemma page_index: "PageSize dvd A \<Longrightarrow> (A + i * PageSize) div PageSize = A div PageSize + i"
  by simp

text \<open>What a group may be mapped to: the range lies inside the entries.\<close>

definition table_room :: "KPageTable \<Rightarrow> nat \<Rightarrow> nat \<Rightarrow> bool" where
  "table_room pt A n \<longleftrightarrow> PageSize dvd A \<and> A div PageSize + n \<le> pt_num_entries pt \<and> pt_num_entries pt * PageSize < two64"

lemma table_room_bound: "table_room pt A n \<Longrightarrow> A + n * PageSize < two64"
proof -
  assume r: "table_room pt A n"
  then have "A + n * PageSize = (A div PageSize + n) * PageSize" by (simp add: table_room_def add_mult_distrib)
  also have "\<dots> \<le> pt_num_entries pt * PageSize" using r unfolding table_room_def by (intro mult_le_mono1) simp
  finally show ?thesis using r by (simp add: table_room_def)
qed

lemma table_room_split:
  "table_room pt A (m + n) \<Longrightarrow> table_room pt A m \<and> table_room pt (A + m * PageSize) n"
  by (auto simp: table_room_def)

lemma block_bounds:
  assumes "block_fits b"
  shows "BlockInfo_GetAddress b + BlockInfo_GetNumPages b * PageSize < two64" "mul64 (BlockInfo_GetNumPages b) PageSize = BlockInfo_GetNumPages b * PageSize"
    "0 < BlockInfo_GetNumPages b"
proof -
  have "(bi_page_index b + bi_num_pages b) * PageSize < two32 * PageSize" using assms by (simp add: block_fits_def)
  then show "BlockInfo_GetAddress b + BlockInfo_GetNumPages b * PageSize < two64"
    by (simp add: BlockInfo_GetAddress_def BlockInfo_GetNumPages_def add_mult_distrib two32_def two64_def PageSize_def)
  then show "mul64 (BlockInfo_GetNumPages b) PageSize = BlockInfo_GetNumPages b * PageSize" by (intro mul64_eq) simp
  show "0 < BlockInfo_GetNumPages b" using assms by (simp add: block_fits_def BlockInfo_GetNumPages_def)
qed

text \<open>The pages of a group are not the page at address zero, whose mapping would unmap.\<close>

definition group_nonzero :: "KPageGroup \<Rightarrow> bool" where
  "group_nonzero pg \<longleftrightarrow> 0 \<notin> set (group_pages pg)"

lemma map_nodes_ok:
  assumes "group_fits pg" "group_nonzero pg" "table_room pt A (length (group_pages pg))"
  shows "\<exists>f. map_nodes A pg pt = Some (set_entries (A div PageSize) (length (group_pages pg)) f pt) \<and>
    phys_list (set_entries (A div PageSize) (length (group_pages pg)) f pt) A (length (group_pages pg)) = group_pages pg"
  using assms
proof (induction pg arbitrary: A pt)
  case Nil
  then show ?case by (simp add: phys_list_def)
next
  case (Cons x pg)
  let ?b = "snd x" and ?n = "BlockInfo_GetNumPages (snd x)" and ?m = "length (group_pages pg)" and ?P = "A div PageSize"
  note B = block_bounds[of ?b]
  have fit: "block_fits ?b" using Cons.prems(1) by simp
  have t0: "BlockInfo_GetAddress ?b \<noteq> 0"
    using Cons.prems(2) B(3)[OF fit] by (auto simp: group_nonzero_def block_pages_def set_range_pages)
  have room: "table_room pt A ?n" "table_room pt (A + ?n * PageSize) ?m" "PageSize dvd A"
    using table_room_split[of pt A ?n ?m] Cons.prems(3) by (auto simp: block_pages_def table_room_def)
  define g where "g i = backing (BlockInfo_GetAddress ?b + (i - ?P) * PageSize) i" for i
  let ?pt = "set_entries ?P ?n g pt"
  have 1: "MapMemoryRegion A (?n * PageSize) (BlockInfo_GetAddress ?b) pt = Some ?pt"
    unfolding MapMemoryRegion_def g_def using room(1) t0 B(1)[OF fit] by (simp add: MapPages_entries_map table_room_def)
  have room': "table_room ?pt (A + ?n * PageSize) ?m" using room(2) by (simp add: table_room_def)
  have nz: "group_nonzero pg" using Cons.prems(2) by (simp add: group_nonzero_def)
  obtain f where f: "map_nodes (A + ?n * PageSize) pg ?pt = Some (set_entries ((A + ?n * PageSize) div PageSize) ?m f ?pt)"
    "phys_list (set_entries ((A + ?n * PageSize) div PageSize) ?m f ?pt) (A + ?n * PageSize) ?m = group_pages pg"
    using Cons.IH[OF _ nz room'] Cons.prems(1) by auto
  have ix: "(A + ?n * PageSize) div PageSize = ?P + ?n" using room(3) by simp
  define h where "h i = (if i < ?P + ?n then g i else f i)" for i
  have eq: "set_entries (?P + ?n) ?m f ?pt = set_entries ?P (?n + ?m) h pt"
    by (auto simp: set_entries_def h_def fun_eq_iff intro!: arg_cong[where f = "\<lambda>g. pt\<lparr>pt_backing_addr := g\<rparr>"])
  have "phys_list (set_entries ?P (?n + ?m) h pt) A ?n = range_pages (BlockInfo_GetAddress ?b) ?n"
  proof -
    have "phys_of (set_entries ?P (?n + ?m) h pt) (A + i * PageSize) = BlockInfo_GetAddress ?b + i * PageSize" if "i < ?n" for i
    proof (rule phys_of_set_entries)
      have "i * PageSize \<le> ?n * PageSize" using that by simp
      then show "BlockInfo_GetAddress ?b + i * PageSize < two64" using B(1)[OF fit] by linarith
    qed (use that room(3) in \<open>simp_all add: h_def g_def\<close>)
    then show ?thesis by (simp add: phys_list_def range_pages_def)
  qed
  then have "phys_list (set_entries ?P (?n + ?m) h pt) A (?n + ?m) = group_pages (x # pg)"
    using f(2) unfolding phys_list_append ix eq by (simp add: block_pages_def)
  moreover have "add64 A (?n * PageSize) = A + ?n * PageSize" using table_room_bound[OF room(1)] by (rule add64_eq)
  ultimately show ?case using 1 f(1) B(2)[OF fit] unfolding ix eq by (auto simp: block_pages_def Let_def)
qed

section \<open>Unmapping\<close>

text \<open>Block infos for \<open>k\<close> more blocks.\<close>

fun can_allocate :: "nat \<Rightarrow> KDynamicResourceManager \<Rightarrow> bool" where
  "can_allocate 0 bm = True"
| "can_allocate (Suc k) bm = (case ResourceManager_Allocate bm of (p, bm') \<Rightarrow> p \<noteq> None \<and> can_allocate k bm')"

lemma can_allocate_mono: "can_allocate (Suc k) bm \<Longrightarrow> can_allocate k bm"
proof (induction k arbitrary: bm)
  case (Suc k)
  obtain p bm' where p: "ResourceManager_Allocate bm = (p, bm')" by (cases "ResourceManager_Allocate bm")
  then have "p \<noteq> None" "can_allocate (Suc k) bm'" using Suc.prems unfolding can_allocate.simps(2)[of "Suc k"] by auto
  then show ?case using Suc.IH p by (simp del: can_allocate.simps add: can_allocate.simps(2)[of k bm])
qed simp

lemma AddBlock_allocates:
  assumes "AddBlock a 1 pg bm = (r, pg', bm')" "can_allocate (Suc k) bm"
  shows "r = ResultSuccess" "can_allocate k bm'"
proof -
  have "r = ResultSuccess \<and> can_allocate k bm'"
  proof (cases "if pg = [] then None else TryConcatenate a 1 (snd (last pg))")
    case None
    obtain p bm1 where p: "ResourceManager_Allocate bm = (p, bm1)" by (cases "ResourceManager_Allocate bm")
    show ?thesis using None assms p by (cases p) (auto simp: AddBlock_def simp del: One_nat_def)
  next
    case (Some b)
    then show ?thesis using assms(1) can_allocate_mono[OF assms(2)] by (auto simp: AddBlock_def simp del: One_nat_def)
  qed
  then show "r = ResultSuccess" "can_allocate k bm'" by blast+
qed

definition pages_ok :: "nat list \<Rightarrow> bool" where
  "pages_ok ps \<longleftrightarrow> (\<forall>p\<in>set ps. PageSize dvd p \<and> p + PageSize < two32 * PageSize)"

lemma add_region_loop_ok:
  assumes "table_room pt A n" "pages_ok (phys_list pt A n)" "group_fits pg" "can_allocate n bm"
  shows "\<exists>pg' bm'. add_region_loop pt A (A + n * PageSize) pg bm = Some (pg', bm') \<and> group_fits pg' \<and>
    group_pages pg' = group_pages pg @ phys_list pt A n"
  using assms
proof (induction n arbitrary: A pg bm)
  case 0
  then show ?case by (subst add_region_loop.simps) (simp add: phys_list_def)
next
  case (Suc n)
  have l: "phys_list pt A (Suc n) = phys_of pt A # phys_list pt (A + PageSize) n"
    using phys_list_append[of pt A 1 n] by (simp add: phys_list_def[of pt A "Suc 0"])
  have room: "table_room pt A 1" "table_room pt (A + PageSize) n" using table_room_split[of pt A 1 n] Suc.prems(1) by auto
  have ph: "GetPhysicalAddr pt A = Some (phys_of pt A)" using room(1) by (simp add: GetPhysicalAddr_def phys_of_def table_room_def)
  obtain r pg1 bm1 where ab: "AddBlock (phys_of pt A) 1 pg bm = (r, pg1, bm1)" by (metis prod_cases3)
  have ok: "PageSize dvd phys_of pt A" "phys_of pt A + 1 * PageSize < two32 * PageSize" "pages_ok (phys_list pt (A + PageSize) n)"
    using Suc.prems(2) unfolding l by (simp_all add: pages_ok_def)
  note A1 = AddBlock_allocates[OF ab Suc.prems(4)] and P1 = AddBlock_pages[OF ab Suc.prems(3) ok(1,2)]
  have g1: "group_pages pg1 = group_pages pg @ [phys_of pt A]" using P1(2)[OF A1(1)] range_pages_one by simp
  obtain pg' bm' where IH: "add_region_loop pt (A + PageSize) (A + PageSize + n * PageSize) pg1 bm1 = Some (pg', bm')" "group_fits pg'"
    "group_pages pg' = group_pages pg1 @ phys_list pt (A + PageSize) n"
    using Suc.IH[OF room(2) ok(3) P1(1) A1(2)] by blast
  have "add64 A PageSize = A + PageSize" using table_room_bound[OF room(1)] by (intro add64_eq) simp
  then have "add_region_loop pt A (A + Suc n * PageSize) pg bm = Some (pg', bm')"
    using IH(1) ph ab by (subst add_region_loop.simps) (simp add: add.assoc)
  then show ?case using IH(2,3) g1 l by simp
qed

text \<open>Unmapping clears the entries of the range and closes one reference of every page behind it.\<close>

lemma Operate_Unmap_ok:
  assumes room: "table_room pt A n" and ok: "pages_ok (phys_list pt A n)" "distinct (phys_list pt A n)"
    and bm: "can_allocate n (pt_block_infos pt)" and inv: "mm_inv {} (pt_memory_manager pt)"
    and refs: "\<forall>p\<in>set (phys_list pt A n). \<exists>r. page_refs (pt_memory_manager pt) p = Some r \<and> r \<noteq> 0"
  shows "\<exists>bm' mm'. Operate A n perm Unmap 0 pt =
      Some (set_entries (A div PageSize) n (\<lambda>_. 0) (pt\<lparr>pt_block_infos := bm', pt_memory_manager := mm'\<rparr>)) \<and> mm_inv {} mm' \<and>
    (\<forall>p. page_refs mm' p = (if p \<in> set (phys_list pt A n) then map_option (\<lambda>r. r - 1) (page_refs (pt_memory_manager pt) p)
       else page_refs (pt_memory_manager pt) p))"
proof -
  have b: "A + n * PageSize < two64" using table_room_bound[OF room] .
  have m: "mul64 n PageSize = n * PageSize" using b by (intro mul64_eq) simp
  obtain pg bm1 where pg: "AddRegionToPages pt A n [] (pt_block_infos pt) = Some (pg, bm1)" "group_fits pg" "group_pages pg = phys_list pt A n"
    using add_region_loop_ok[OF room ok(1) _ bm, of "[]"] b m by (auto simp: AddRegionToPages_def add64_eq)
  let ?pt = "pt\<lparr>pt_block_infos := bm1\<rparr>"
  have ne: "pt_num_entries pt < two64"
  proof -
    have "pt_num_entries pt \<le> pt_num_entries pt * PageSize" by (simp add: PageSize_def)
    then show ?thesis using room unfolding table_room_def by linarith
  qed
  have un: "UnmapRegion A (n * PageSize) ?pt = Some (set_entries (A div PageSize) n (\<lambda>_. 0) ?pt)"
    unfolding UnmapRegion_def using room ne by (simp add: MapPages_entries_unmap table_room_def)
  have "page_close.allowed {} (pt_memory_manager pt) (set (group_pages pg))"
    using refs pg(3) by (simp add: page_close.allowed_def close_ok_def)
  from page_close.group_each_ok[OF inv pg(2) _ this] obtain mm' where mm': "PageGroup_Close pg (pt_memory_manager pt) = Some mm'"
    "page_close.applied {} (pt_memory_manager pt) (set (group_pages pg)) mm'"
    using ok(2) pg(3) by (auto simp: PageGroup_Close_def mm_Close_def)
  have "Operate A n perm Unmap 0 pt = Some (set_entries (A div PageSize) n (\<lambda>_. 0)
      (pt\<lparr>pt_block_infos := PageGroup_Finalize pg bm1, pt_memory_manager := mm'\<rparr>))"
    using pg(1) m un mm'(1) by (simp add: Operate_def PageGroup_CloseAndReset_def set_entries_def cong: if_cong)
  then show ?thesis using mm'(2) pg(3) unfolding page_close.applied_def by (intro exI[of _ "PageGroup_Finalize pg bm1"] exI[of _ mm']) simp
qed

text \<open>Mapping a group opens one more reference of every page of it.\<close>

lemma Operate_MapGroup_ok:
  assumes pg: "group_fits pg" "group_nonzero pg" "distinct (group_pages pg)" and room: "table_room pt A (length (group_pages pg))"
    and inv: "mm_inv {} (pt_memory_manager pt)"
    and refs: "\<forall>p\<in>set (group_pages pg). \<exists>r. page_refs (pt_memory_manager pt) p = Some r \<and> r \<noteq> 0 \<and> r \<noteq> 0xFFFF"
  shows "\<exists>f mm'. Operate_group A n pg MapGroup pt =
      Some (set_entries (A div PageSize) (length (group_pages pg)) f (pt\<lparr>pt_memory_manager := mm'\<rparr>)) \<and> mm_inv {} mm' \<and>
    mm_frame (pt_memory_manager pt) mm' \<and>
    phys_list (set_entries (A div PageSize) (length (group_pages pg)) f (pt\<lparr>pt_memory_manager := mm'\<rparr>)) A (length (group_pages pg)) = group_pages pg \<and>
    (\<forall>p. page_refs mm' p = (if p \<in> set (group_pages pg) then map_option (\<lambda>r. r + 1) (page_refs (pt_memory_manager pt) p)
       else page_refs (pt_memory_manager pt) p))"
proof -
  have "page_open.allowed {} (pt_memory_manager pt) (set (group_pages pg))"
    using refs by (simp add: page_open.allowed_def open_ok_def)
  from page_open.group_each_ok[OF inv pg(1,3) this] obtain mm' where mm': "PageGroup_Open pg (pt_memory_manager pt) = Some mm'"
    "page_open.applied {} (pt_memory_manager pt) (set (group_pages pg)) mm'" by (auto simp: PageGroup_Open_def mm_Open_def)
  have "table_room (pt\<lparr>pt_memory_manager := mm'\<rparr>) A (length (group_pages pg))" using room by (simp add: table_room_def)
  from map_nodes_ok[OF pg(1,2) this] obtain f where
    f: "map_nodes A pg (pt\<lparr>pt_memory_manager := mm'\<rparr>) =
        Some (set_entries (A div PageSize) (length (group_pages pg)) f (pt\<lparr>pt_memory_manager := mm'\<rparr>))"
      "phys_list (set_entries (A div PageSize) (length (group_pages pg)) f (pt\<lparr>pt_memory_manager := mm'\<rparr>)) A (length (group_pages pg)) = group_pages pg"
    by blast
  show ?thesis using f mm' unfolding page_open.applied_def by (intro exI[of _ f] exI[of _ mm']) (simp add: Operate_group_def)
qed

text \<open>Pages with a reference count are real pages, not the one at address zero.\<close>

lemma managed_page:
  assumes "mm_inv pend mm" "page_refs mm p = Some r"
  shows "PageSize dvd p" "p + PageSize < two32 * PageSize" "p \<noteq> 0"
proof -
  obtain i k where i: "i < length (mm_managers mm)" "p = lo_of (mm_managers mm ! i) + k * PageSize" "k < page_count (mm_managers mm ! i)"
    using page_refs_Some[OF assms] by metis
  let ?im = "mm_managers mm ! i"
  note inv = mm_invD(1)[OF assms(1) i(1)]
  have "Suc k * PageSize \<le> page_count ?im * PageSize" using i(3) by (intro mult_le_mono1) simp
  then have "k * PageSize + PageSize \<le> size_of ?im" using page_count_mult[OF inv] by simp
  moreover have "PageSize dvd lo_of ?im" "0 < lo_of ?im" "lo_of ?im + size_of ?im < two32 * PageSize" using inv by (auto simp: impl_inv_def)
  ultimately show "PageSize dvd p" "p + PageSize < two32 * PageSize" "p \<noteq> 0" unfolding i(2) by auto
qed

lemma managed_pages:
  assumes "mm_inv pend mm" "\<forall>p\<in>set ps. page_refs mm p \<noteq> None"
  shows "pages_ok ps" "0 \<notin> set ps"
proof -
  have "PageSize dvd p \<and> p + PageSize < two32 * PageSize \<and> p \<noteq> 0" if p: "p \<in> set ps" for p
  proof -
    obtain r where "page_refs mm p = Some r" using assms(2) p by blast
    from managed_page[OF assms(1) this] show ?thesis by blast
  qed
  then show "pages_ok ps" "0 \<notin> set ps" unfolding pages_ok_def by blast+
qed

section \<open>Properties\<close>

definition alloc_from :: "KPageTable \<Rightarrow> u32 \<Rightarrow> bool" where
  "alloc_from pt opt \<longleftrightarrow> mm_inv {} (pt_memory_manager pt) \<and>
     (\<exists>pool. GetPool opt = Some pool \<and> managers_apart (pt_memory_manager pt) (managers_of (pt_memory_manager pt) pool (GetDirection opt)))"

abbreviation table_refs :: "KPageTable \<Rightarrow> nat \<Rightarrow> u16 option" where
  "table_refs pt \<equiv> page_refs (pt_memory_manager pt)"

definition same_entries_outside :: "nat \<Rightarrow> nat \<Rightarrow> KPageTable \<Rightarrow> KPageTable \<Rightarrow> bool" where
  "same_entries_outside A n pt pt' \<longleftrightarrow>
     (\<forall>i. \<not> (A div PageSize \<le> i \<and> i < A div PageSize + n) \<longrightarrow> pt_backing_addr pt' i = pt_backing_addr pt i)"

text \<open>Allocating a group and mapping it.\<close>

lemma allocate_and_map:
  assumes "alloc_from pt opt" "0 < n" "table_room pt A n"
    and al: "AllocateAndOpen [] (pt_block_infos pt) n opt (pt_memory_manager pt) = Some (ResultSuccess, pg, bm, mm)"
    and pt1: "pt_memory_manager pt1 = mm" "pt_num_entries pt1 = pt_num_entries pt"
  shows "length (group_pages pg) = n" "group_fits pg" "distinct (group_pages pg)" "mm_inv {} mm"
    "\<forall>p\<in>set (group_pages pg). table_refs pt p = Some 0 \<and> page_available (pt_memory_manager pt) p"
    "\<exists>f mm'. Operate_group A n pg MapGroup pt1 = Some (set_entries (A div PageSize) n f (pt1\<lparr>pt_memory_manager := mm'\<rparr>)) \<and>
      mm_inv {} mm' \<and> phys_list (set_entries (A div PageSize) n f (pt1\<lparr>pt_memory_manager := mm'\<rparr>)) A n = group_pages pg \<and>
      (\<forall>p. page_refs mm' p = (if p \<in> set (group_pages pg) then Some 2 else table_refs pt p))"
proof -
  from AllocateAndOpen_ok[of "pt_memory_manager pt" opt _ n "pt_block_infos pt"] assms(1,2) al
  have A: "mm_inv {} mm" "length (group_pages pg) = n" "group_fits pg" "distinct (group_pages pg)"
    "\<forall>p\<in>set (group_pages pg). table_refs pt p = Some 0 \<and> page_available (pt_memory_manager pt) p"
    "\<forall>p. page_refs mm p = (if p \<in> set (group_pages pg) then Some 1 else table_refs pt p)"
    unfolding alloc_from_def by (fastforce simp del: split_paired_All)+
  then show "length (group_pages pg) = n" "group_fits pg" "distinct (group_pages pg)" "mm_inv {} mm"
    "\<forall>p\<in>set (group_pages pg). table_refs pt p = Some 0 \<and> page_available (pt_memory_manager pt) p" by blast+
  have nz: "group_nonzero pg" using managed_pages(2)[OF A(1), of "group_pages pg"] A(6) by (simp add: group_nonzero_def)
  have room: "table_room pt1 A (length (group_pages pg))" using assms(3) A(2) pt1 by (simp add: table_room_def)
  have "\<forall>p\<in>set (group_pages pg). \<exists>r. page_refs (pt_memory_manager pt1) p = Some r \<and> r \<noteq> 0 \<and> r \<noteq> 0xFFFF" using A(6) pt1 by simp
  from Operate_MapGroup_ok[OF A(3) nz A(4) room _ this, of n] A(1,2,6) pt1
  show "\<exists>f mm'. Operate_group A n pg MapGroup pt1 = Some (set_entries (A div PageSize) n f (pt1\<lparr>pt_memory_manager := mm'\<rparr>)) \<and>
      mm_inv {} mm' \<and> phys_list (set_entries (A div PageSize) n f (pt1\<lparr>pt_memory_manager := mm'\<rparr>)) A n = group_pages pg \<and>
      (\<forall>p. page_refs mm' p = (if p \<in> set (group_pages pg) then Some 2 else table_refs pt p))"
    by (fastforce simp del: split_paired_All)
qed

lemma AllocateAndMapPagesImpl_ok:
  assumes al: "alloc_from pt (pt_allocate_option pt)" "0 < n" "table_room pt A n"
  shows "\<exists>r pt1. AllocateAndMapPagesImpl A n perm pt = Some (r, pt1) \<and> mm_inv {} (pt_memory_manager pt1) \<and>
    pt_num_entries pt1 = pt_num_entries pt \<and> same_entries_outside A n pt pt1 \<and>
    (if r = ResultSuccess
     then distinct (phys_list pt1 A n) \<and>
       (\<forall>p\<in>set (phys_list pt1 A n). table_refs pt p = Some 0 \<and> page_available (pt_memory_manager pt) p) \<and>
       (\<forall>p. table_refs pt1 p = (if p \<in> set (phys_list pt1 A n) then Some 1 else table_refs pt p))
     else r \<in> {ResultOutOfMemory, ResultOutOfResource} \<and> table_refs pt1 = table_refs pt \<and> pt_backing_addr pt1 = pt_backing_addr pt)"
proof -
  let ?opt = "pt_allocate_option pt"
  obtain r pg bm mm where a: "AllocateAndOpen [] (pt_block_infos pt) n ?opt (pt_memory_manager pt) = Some (r, pg, bm, mm)" "mm_inv {} mm"
    "r \<noteq> ResultSuccess \<Longrightarrow> r \<in> {ResultOutOfMemory, ResultOutOfResource} \<and> page_refs mm = table_refs pt"
    using AllocateAndOpen_ok[of "pt_memory_manager pt" ?opt _ n "pt_block_infos pt"] al(1,2) unfolding alloc_from_def by metis
  let ?pt1 = "pt\<lparr>pt_block_infos := bm, pt_memory_manager := mm\<rparr>"
  show ?thesis
  proof (cases "r = ResultSuccess")
    case False
    then show ?thesis using a by (simp add: AllocateAndMapPagesImpl_def release_group_def same_entries_outside_def)
  next
    case True
    note M = allocate_and_map[OF al a(1)[unfolded True], of ?pt1]
    obtain f mm2 where f: "Operate_group A n pg MapGroup ?pt1 = Some (set_entries (A div PageSize) n f (?pt1\<lparr>pt_memory_manager := mm2\<rparr>))"
      "mm_inv {} mm2" "phys_list (set_entries (A div PageSize) n f (?pt1\<lparr>pt_memory_manager := mm2\<rparr>)) A n = group_pages pg"
      "\<forall>p. page_refs mm2 p = (if p \<in> set (group_pages pg) then Some 2 else table_refs pt p)" using M(6) by auto
    let ?pt2 = "set_entries (A div PageSize) n f (?pt1\<lparr>pt_memory_manager := mm2\<rparr>)"
    have "page_close.allowed {} mm2 (set (group_pages pg))" using f(4) by (simp add: page_close.allowed_def close_ok_def)
    from page_close.group_each_ok[OF f(2) M(2,3) this] obtain mm3 where 3: "PageGroup_Close pg mm2 = Some mm3"
      "page_close.applied {} mm2 (set (group_pages pg)) mm3" using M by (auto simp: PageGroup_Close_def mm_Close_def)
    let ?pt3 = "release_group pg (?pt2\<lparr>pt_memory_manager := mm3\<rparr>)"
    have ph: "phys_list ?pt3 A n = group_pages pg"
      using f(3) by (simp add: phys_list_def phys_of_def release_group_def set_entries_def)
    have "AllocateAndMapPagesImpl A n perm pt = Some (ResultSuccess, ?pt3)"
      using a(1) True f(1) 3(1) by (simp add: AllocateAndMapPagesImpl_def Let_def set_entries_def)
    moreover have "mm_inv {} (pt_memory_manager ?pt3)" using 3(2) by (simp add: release_group_def page_close.applied_def)
    moreover have "table_refs ?pt3 p = (if p \<in> set (group_pages pg) then Some 1 else table_refs pt p)" for p
      using 3(2) f(4) by (simp add: release_group_def page_close.applied_def)
    moreover have "same_entries_outside A n pt ?pt3" "pt_num_entries ?pt3 = pt_num_entries pt"
      by (simp_all add: same_entries_outside_def release_group_def set_entries_def)
    ultimately show ?thesis using M(3,5) ph by (intro exI[of _ ResultSuccess] exI[of _ ?pt3]) simp
  qed
qed

lemma unmap_allocated:
  assumes room: "table_room pt A n" and d: "distinct (phys_list pt A n)" and inv: "mm_inv {} (pt_memory_manager pt)"
    and bm: "can_allocate n (pt_block_infos pt)" and refs: "\<forall>p\<in>set (phys_list pt A n). \<exists>r. table_refs pt p = Some r \<and> r \<noteq> 0"
  shows "\<exists>pt2. Operate A n perm Unmap 0 pt = Some pt2 \<and> mm_inv {} (pt_memory_manager pt2) \<and> same_entries_outside A n pt pt2 \<and>
    (\<forall>i<n. pt_backing_addr pt2 (A div PageSize + i) = 0) \<and>
    (\<forall>p. table_refs pt2 p = (if p \<in> set (phys_list pt A n) then map_option (\<lambda>r. r - 1) (table_refs pt p) else table_refs pt p))"
proof -
  have ok: "pages_ok (phys_list pt A n)" using managed_pages(1)[OF inv] refs by blast
  from Operate_Unmap_ok[OF room ok d bm inv refs] obtain bm' mm' where
    o: "Operate A n perm Unmap 0 pt = Some (set_entries (A div PageSize) n (\<lambda>_. 0) (pt\<lparr>pt_block_infos := bm', pt_memory_manager := mm'\<rparr>))"
    "mm_inv {} mm'" "\<forall>p. page_refs mm' p = (if p \<in> set (phys_list pt A n) then map_option (\<lambda>r. r - 1) (table_refs pt p) else table_refs pt p)"
    by blast
  then show ?thesis by (intro exI[of _ "set_entries (A div PageSize) n (\<lambda>_. 0) (pt\<lparr>pt_block_infos := bm', pt_memory_manager := mm'\<rparr>)"])
      (simp add: set_entries_def same_entries_outside_def)
qed

text \<open>C8: allocating pages, from a pool of which no manager begins where another ends, and mapping them to a range always returns. When it succeeds, the range names
  different pages that were free and have one reference each now; when it fails, no count and no entry
  changes. Unmapping the range afterwards, with block infos at hand, gives every page of the memory
  manager its former count back, so that the pages are free again, and leaves the range unmapped and all
  other entries as they were.\<close>

theorem map_unmap_returns_memory:
  assumes "alloc_from pt (pt_allocate_option pt)" "0 < n" "table_room pt A n"
  shows "\<exists>r pt1. AllocateAndMapPagesImpl A n perm pt = Some (r, pt1) \<and>
    (if r = ResultSuccess
     then distinct (phys_list pt1 A n) \<and>
       (\<forall>p\<in>set (phys_list pt1 A n). page_available (pt_memory_manager pt) p \<and> \<not> page_available (pt_memory_manager pt1) p) \<and>
       (\<forall>p. table_refs pt1 p = (if p \<in> set (phys_list pt1 A n) then Some 1 else table_refs pt p)) \<and>
       (can_allocate n (pt_block_infos pt1) \<longrightarrow>
         (\<exists>pt2. Operate A n 0 Unmap 0 pt1 = Some pt2 \<and> table_refs pt2 = table_refs pt \<and>
            (\<forall>p\<in>set (phys_list pt1 A n). page_available (pt_memory_manager pt2) p) \<and>
            (\<forall>i<n. pt_backing_addr pt2 (A div PageSize + i) = 0) \<and> same_entries_outside A n pt pt2))
     else r \<in> {ResultOutOfMemory, ResultOutOfResource} \<and> table_refs pt1 = table_refs pt \<and> pt_backing_addr pt1 = pt_backing_addr pt)"
proof -
  obtain r pt1 where m: "AllocateAndMapPagesImpl A n perm pt = Some (r, pt1)" "mm_inv {} (pt_memory_manager pt1)"
    "pt_num_entries pt1 = pt_num_entries pt" "same_entries_outside A n pt pt1"
    "if r = ResultSuccess
     then distinct (phys_list pt1 A n) \<and>
       (\<forall>p\<in>set (phys_list pt1 A n). table_refs pt p = Some 0 \<and> page_available (pt_memory_manager pt) p) \<and>
       (\<forall>p. table_refs pt1 p = (if p \<in> set (phys_list pt1 A n) then Some 1 else table_refs pt p))
     else r \<in> {ResultOutOfMemory, ResultOutOfResource} \<and> table_refs pt1 = table_refs pt \<and> pt_backing_addr pt1 = pt_backing_addr pt"
    using AllocateAndMapPagesImpl_ok[OF assms] by blast
  show ?thesis
  proof (cases "r = ResultSuccess")
    case False
    then show ?thesis using m by auto
  next
    case True
    let ?L = "set (phys_list pt1 A n)"
    have L: "distinct (phys_list pt1 A n)" "\<forall>p\<in>?L. table_refs pt p = Some 0 \<and> page_available (pt_memory_manager pt) p"
      "\<forall>p. table_refs pt1 p = (if p \<in> ?L then Some 1 else table_refs pt p)" using m(5) True by simp_all
    have room: "table_room pt1 A n" using assms(3) m(3) by (simp add: table_room_def)
    have refs: "\<forall>p\<in>?L. \<exists>r. table_refs pt1 p = Some r \<and> r \<noteq> 0" using L(3) by simp
    have used: "\<not> page_available (pt_memory_manager pt1) p" if "p \<in> ?L" for p
      using available_iff[OF m(2), of p 1] L(3) that by simp
    have "\<exists>pt2. Operate A n 0 Unmap 0 pt1 = Some pt2 \<and> table_refs pt2 = table_refs pt \<and>
        (\<forall>p\<in>?L. page_available (pt_memory_manager pt2) p) \<and>
        (\<forall>i<n. pt_backing_addr pt2 (A div PageSize + i) = 0) \<and> same_entries_outside A n pt pt2"
      if bm: "can_allocate n (pt_block_infos pt1)"
    proof -
      obtain pt2 where u: "Operate A n 0 Unmap 0 pt1 = Some pt2" "mm_inv {} (pt_memory_manager pt2)" "same_entries_outside A n pt1 pt2"
        "\<forall>i<n. pt_backing_addr pt2 (A div PageSize + i) = 0"
        "\<forall>p. table_refs pt2 p = (if p \<in> ?L then map_option (\<lambda>r. r - 1) (table_refs pt1 p) else table_refs pt1 p)"
        using unmap_allocated[OF room L(1) m(2) bm refs] by blast
      have eq: "table_refs pt2 = table_refs pt" using u(5) L(2,3) by (auto simp: fun_eq_iff)
      then have "page_available (pt_memory_manager pt2) p" if "p \<in> ?L" for p
        using available_iff[OF u(2), of p 0] L(2) that by simp
      then show ?thesis using u(1,3,4) eq m(4) unfolding same_entries_outside_def by auto
    qed
    then show ?thesis using m(1) True L used by auto
  qed
qed

theorem map_unmap_returns_memory_witness:
  "\<exists>mm. mm_Close 1073741824 16 sample_mm = Some mm \<and>
    (\<exists>r pt1. AllocateAndMapPagesImpl 32768 2 UserReadWrite (sample_pt\<lparr>pt_memory_manager := mm\<rparr>) = Some (r, pt1) \<and>
      (if r = ResultSuccess
       then distinct (phys_list pt1 32768 2) \<and> (\<forall>p\<in>set (phys_list pt1 32768 2). table_refs pt1 p = Some 1)
       else r \<in> {ResultOutOfMemory, ResultOutOfResource} \<and> table_refs pt1 = page_refs mm))"
proof -
  obtain mm where mm: "mm_Close 1073741824 16 sample_mm = Some mm" "mm_inv {} mm"
    "managers_apart mm (managers_of mm Application FromFront)" using sample_closed by blast
  let ?pt = "sample_pt\<lparr>pt_memory_manager := mm\<rparr>"
  have "GetPool (pt_allocate_option ?pt) = Some Application" "GetDirection (pt_allocate_option ?pt) = FromFront"
    by (simp_all add: sample_pt_def EncodeOption_def GetPool_def GetDirection_def Pool_value_def Direction_value_def)
  then have "alloc_from ?pt (pt_allocate_option ?pt)" using mm(2,3) by (simp add: alloc_from_def)
  moreover have "table_room ?pt 32768 2" by (simp add: table_room_def sample_pt_def PageSize_def two64_def)
  ultimately show ?thesis using map_unmap_returns_memory[of ?pt 2 32768 UserReadWrite] mm(1) by (auto split: if_splits)
qed

section \<open>Growing and shrinking the heap\<close>

lemma with_allocatorD:
  assumes "with_allocator k body pt = Some (ResultSuccess, pt')"
  shows "\<exists>ua ua' p sl. body ua (pt\<lparr>pt_slab := ua_slab ua\<rparr>) = Some (ResultSuccess, ua', p) \<and> pt' = p\<lparr>pt_slab := sl\<rparr>"
  using assms by (auto simp: with_allocator_def run_allocator_def split: prod.splits if_splits bind_splits)

lemma UpdateD: "Update a n st pm at sm cm ua pt = Some (ua', pt') \<Longrightarrow> \<exists>m sl. pt' = pt\<lparr>pt_blocks := m, pt_slab := sl\<rparr>"
  by (auto simp: Update_def update_blocks_def)

lemma check_uniform_error: "check_uniform_loop c ign first last_addr ns \<noteq> Some (Inl ResultSuccess)"
  by (induction ns) (auto simp: Let_def)

lemma CheckMemoryState_error: "CheckMemoryState p a s c ign \<noteq> Some (Inl ResultSuccess)"
proof (cases "nodes_from p a")
  case (Cons n ns)
  have "check_uniform_loop c ign (snd n) (sub64 (add64 a s) 1) (n # ns) \<noteq> Some (Inl ResultSuccess)" by (rule check_uniform_error)
  then show ?thesis using Cons
    by (cases "check_uniform_loop c ign (snd n) (sub64 (add64 a s) 1) (n # ns)")
      (auto simp: CheckMemoryState_def Let_def map_sum_def simp del: check_uniform_loop.simps split: sum.splits)
qed (simp add: CheckMemoryState_def Let_def)

lemma checkedD:
  assumes "on_checked (CheckMemoryState p a s c ign) pt f = Some (ResultSuccess, pt')"
  shows "\<exists>v. f v = Some (ResultSuccess, pt')"
proof (cases "CheckMemoryState p a s c ign")
  case (Some x)
  then have "x \<noteq> Inl ResultSuccess" using CheckMemoryState_error by metis
  then show ?thesis using assms Some by (cases x) (auto simp: on_checked_def)
qed (use assms in \<open>simp add: on_checked_def\<close>)

lemma grow_heapD:
  assumes "grow_heap now ws sz pt = Some (ResultSuccess, pt1)" "sub64 sz (GetHeapSize pt) = n * PageSize"
  shows "\<exists>rl pg bm mm p m sl sl' lim.
    AllocateAndOpen [] (pt_block_infos pt) n (EncodeOption (pt_memory_pool pt) (pt_allocation_option pt)) (pt_memory_manager pt)
      = Some (ResultSuccess, pg, bm, mm) \<and>
    Operate_group (pt_current_heap_end pt) n pg MapGroup (pt\<lparr>pt_resource_limit := rl, pt_block_infos := bm, pt_memory_manager := mm, pt_slab := sl\<rparr>)
      = Some p \<and>
    pt1 = (release_group pg (p\<lparr>pt_blocks := m, pt_current_heap_end := add64 (pt_heap_region_start p) sz\<rparr>))
      \<lparr>pt_slab := sl', pt_resource_limit := lim\<rparr>"
proof -
  obtain rl pg bm mm p2 lim where g:
    "AllocateAndOpen [] (pt_block_infos pt) n (EncodeOption (pt_memory_pool pt) (pt_allocation_option pt)) (pt_memory_manager pt)
      = Some (ResultSuccess, pg, bm, mm)"
    "grow_heap_map sz (n * PageSize) pg (pt\<lparr>pt_resource_limit := rl, pt_block_infos := bm, pt_memory_manager := mm\<rparr>) = Some (ResultSuccess, p2)"
    "pt1 = (release_group pg p2)\<lparr>pt_resource_limit := lim\<rparr>"
    using assms unfolding grow_heap_def with_reservation_def Let_def
    by (auto split: bind_splits if_splits prod.splits)
  let ?p = "pt\<lparr>pt_resource_limit := rl, pt_block_infos := bm, pt_memory_manager := mm\<rparr>"
  let ?body = "\<lambda>ua pt. do {
     pt1 \<leftarrow> Operate_group (pt_current_heap_end pt) n pg MapGroup pt;
     (ua', pt2) \<leftarrow> Update (pt_current_heap_end pt1) n (KState Normal) UserReadWrite 0
       (if pt_heap_region_start pt1 = pt_current_heap_end pt1 then DM_Normal else 0) 0 ua pt1;
     Some (ResultSuccess, ua', pt2\<lparr>pt_current_heap_end := add64 (pt_heap_region_start pt2) sz\<rparr>) }"
  obtain k where "with_allocator k ?body ?p = Some (ResultSuccess, p2)"
    using checkedD[OF g(2)[unfolded grow_heap_map_def]] by auto
  from with_allocatorD[OF this] obtain ua ua' q sl where
    q: "?body ua (?p\<lparr>pt_slab := ua_slab ua\<rparr>) = Some (ResultSuccess, ua', q)" "p2 = q\<lparr>pt_slab := sl\<rparr>" by blast
  then obtain p p' where p: "Operate_group (pt_current_heap_end pt) n pg MapGroup (?p\<lparr>pt_slab := ua_slab ua\<rparr>) = Some p"
    "q = p'\<lparr>pt_current_heap_end := add64 (pt_heap_region_start p') sz\<rparr>"
    "Update (pt_current_heap_end p) n (KState Normal) UserReadWrite 0
       (if pt_heap_region_start p = pt_current_heap_end p then DM_Normal else 0) 0 ua p = Some (ua', p')"
    by (auto split: bind_splits)
  from UpdateD[OF p(3)] obtain m sl1 where "p' = p\<lparr>pt_blocks := m, pt_slab := sl1\<rparr>" by blast
  then have "pt1 = (release_group pg (p\<lparr>pt_blocks := m, pt_current_heap_end := add64 (pt_heap_region_start p) sz\<rparr>))
      \<lparr>pt_slab := sl, pt_resource_limit := lim\<rparr>" using g(3) p(2) q(2) by (simp add: release_group_def)
  then show ?thesis using g(1) p(1) by blast
qed

lemma shrink_heapD:
  assumes "shrink_heap sz pt = Some (ResultSuccess, pt2)"
  shows "\<exists>sl p. Operate (add64 (pt_heap_region_start pt) sz) (sub64 (GetHeapSize pt) sz div PageSize) 0 Unmap 0 (pt\<lparr>pt_slab := sl\<rparr>) = Some p \<and>
    pt_memory_manager pt2 = pt_memory_manager p"
proof -
  let ?n = "sub64 (GetHeapSize pt) sz div PageSize" and ?a = "add64 (pt_heap_region_start pt) sz"
  let ?body = "\<lambda>ua pt. do {
      let num_pages = sub64 (GetHeapSize pt) sz div PageSize;
      pt1 \<leftarrow> Operate ?a num_pages 0 Unmap 0 pt;
      let amount = int (mul64 num_pages PageSize);
      let pt2 = pt1\<lparr>pt_resource_limit := Release (pt_resource_limit pt1) PhysicalMemoryMax amount amount\<rparr>;
      (ua', pt3) \<leftarrow> Update ?a num_pages KMemoryState_Free 0 0 0 (if sz = 0 then DM_Normal else 0) ua pt2;
      Some (ResultSuccess, ua', pt3\<lparr>pt_current_heap_end := ?a\<rparr>) }"
  obtain k where "with_allocator k ?body pt = Some (ResultSuccess, pt2)"
    using checkedD[OF assms[unfolded shrink_heap_def Let_def]] unfolding Let_def by auto
  from with_allocatorD[OF this] obtain ua ua' q sl where
    q: "?body ua (pt\<lparr>pt_slab := ua_slab ua\<rparr>) = Some (ResultSuccess, ua', q)" "pt2 = q\<lparr>pt_slab := sl\<rparr>" by blast
  have hs: "GetHeapSize (pt\<lparr>pt_slab := ua_slab ua\<rparr>) = GetHeapSize pt" by (simp add: GetHeapSize_def)
  obtain p p' where p: "Operate ?a ?n 0 Unmap 0 (pt\<lparr>pt_slab := ua_slab ua\<rparr>) = Some p" "q = p'\<lparr>pt_current_heap_end := ?a\<rparr>"
    and up: "\<exists>lim. Update ?a ?n KMemoryState_Free 0 0 0 (if sz = 0 then DM_Normal else 0) ua (p\<lparr>pt_resource_limit := lim\<rparr>) = Some (ua', p')"
    using q(1) unfolding hs Let_def by (auto split: bind_splits)
  from up UpdateD obtain lim m sl1 where "p' = p\<lparr>pt_resource_limit := lim, pt_blocks := m, pt_slab := sl1\<rparr>" by blast
  then show ?thesis using p(1,2) q(2) by auto
qed

text \<open>
  Growing the heap leaves two references on every new page, since the references of the allocated group
  are not closed after the group was mapped. Shrinking the heap back closes one of them, and the pages
  never become free again.
\<close>

theorem heap_pages_keep_a_reference:
  assumes "alloc_from pt (EncodeOption (pt_memory_pool pt) (pt_allocation_option pt))" "0 < n"
    "pt_heap_region_start pt \<le> pt_current_heap_end pt" "table_room pt (pt_current_heap_end pt) n"
    "sz = GetHeapSize pt + n * PageSize" "grow_heap now ws sz pt = Some (ResultSuccess, pt1)"
  shows "\<forall>p\<in>set (phys_list pt1 (pt_current_heap_end pt) n). page_available (pt_memory_manager pt) p \<and> table_refs pt1 p = Some 2"
    "can_allocate n (pt_block_infos pt1) \<Longrightarrow> shrink_heap (GetHeapSize pt) pt1 = Some (ResultSuccess, pt2) \<Longrightarrow>
      \<forall>p\<in>set (phys_list pt1 (pt_current_heap_end pt) n). table_refs pt2 p = Some 1 \<and> \<not> page_available (pt_memory_manager pt2) p"
proof -
  let ?H = "pt_heap_region_start pt" and ?E = "pt_current_heap_end pt"
  let ?opt = "EncodeOption (pt_memory_pool pt) (pt_allocation_option pt)"
  note b = table_room_bound[OF assms(4)]
  have hs: "GetHeapSize pt = ?E - ?H" using assms(3) b by (simp add: GetHeapSize_def sub64_eq)
  have sz: "sz < two64" "sub64 sz (GetHeapSize pt) = n * PageSize" "add64 ?H sz = ?E + n * PageSize"
    using assms(3,5) b hs by (simp_all add: sub64_eq add64_eq)
  from grow_heapD[OF assms(6) sz(2)] obtain rl pg bm mm p m sl sl' lim where
    a: "AllocateAndOpen [] (pt_block_infos pt) n ?opt (pt_memory_manager pt) = Some (ResultSuccess, pg, bm, mm)" and
    o: "Operate_group ?E n pg MapGroup (pt\<lparr>pt_resource_limit := rl, pt_block_infos := bm, pt_memory_manager := mm, pt_slab := sl\<rparr>) = Some p" and
    pt1: "pt1 = (release_group pg (p\<lparr>pt_blocks := m, pt_current_heap_end := add64 (pt_heap_region_start p) sz\<rparr>))
      \<lparr>pt_slab := sl', pt_resource_limit := lim\<rparr>" by blast
  let ?pt = "pt\<lparr>pt_resource_limit := rl, pt_block_infos := bm, pt_memory_manager := mm, pt_slab := sl\<rparr>"
  note M = allocate_and_map[OF assms(1,2,4) a, of ?pt]
  obtain f mm2 where f: "p = set_entries (?E div PageSize) n f (?pt\<lparr>pt_memory_manager := mm2\<rparr>)" "mm_inv {} mm2"
    "phys_list p ?E n = group_pages pg" "\<forall>p. page_refs mm2 p = (if p \<in> set (group_pages pg) then Some 2 else table_refs pt p)"
    using M(6) o by auto
  have fields: "pt_memory_manager pt1 = mm2" "pt_num_entries pt1 = pt_num_entries pt" "pt_current_heap_end pt1 = ?E + n * PageSize"
    "pt_heap_region_start pt1 = ?H"
    unfolding pt1 f(1) using sz(3) by (simp_all add: release_group_def set_entries_def)
  have ph: "phys_list pt1 ?E n = group_pages pg"
    using f(3) unfolding pt1 by (simp add: phys_list_def phys_of_def release_group_def)
  show "\<forall>p\<in>set (phys_list pt1 ?E n). page_available (pt_memory_manager pt) p \<and> table_refs pt1 p = Some 2"
    using M(5) f(4) ph fields by simp
  assume bm1: "can_allocate n (pt_block_infos pt1)" and sh: "shrink_heap (GetHeapSize pt) pt1 = Some (ResultSuccess, pt2)"
  have hs1: "GetHeapSize pt1 = sz" "sub64 (GetHeapSize pt1) (GetHeapSize pt) = n * PageSize" "add64 ?H (GetHeapSize pt) = ?E"
    using fields sz assms(3,5) b hs by (simp_all add: GetHeapSize_def sub64_eq add64_eq)
  from shrink_heapD[OF sh] fields hs1 obtain sl1 p1 where un: "Operate ?E n 0 Unmap 0 (pt1\<lparr>pt_slab := sl1\<rparr>) = Some p1"
    "pt_memory_manager pt2 = pt_memory_manager p1" by auto
  let ?q = "pt1\<lparr>pt_slab := sl1\<rparr>"
  have "phys_list ?q ?E n = phys_list pt1 ?E n" by (simp add: phys_list_def phys_of_def)
  then have qs: "phys_list ?q ?E n = group_pages pg" "table_room ?q ?E n" using ph assms(4) fields by (simp_all add: table_room_def)
  have "\<forall>p\<in>set (phys_list ?q ?E n). \<exists>r. table_refs ?q p = Some r \<and> r \<noteq> 0" using f(4) fields qs by simp
  from unmap_allocated[OF qs(2) _ _ _ this, of 0] M(3) f(2,4) bm1 fields qs(1) un(1)
  have p1: "mm_inv {} (pt_memory_manager p1)" "\<forall>p\<in>set (group_pages pg). table_refs p1 p = Some 1" by auto
  show "\<forall>p\<in>set (phys_list pt1 ?E n). table_refs pt2 p = Some 1 \<and> \<not> page_available (pt_memory_manager pt2) p"
    using p1 available_iff[OF p1(1)] un(2) ph by fastforce
qed

end
