(* ===== verification/Address_Space_Layout.thy ===== *)
theory Address_Space_Layout
  imports Page_Table_Checks
begin

text \<open>
  The layout of a process address space (\<open>InitializeForProcess\<close> of \<open>K_Page_Table\<close>): wherever the random
  offsets put them, the alias, heap, stack and kernel map regions have their sizes, lie next to the process
  code inside the address space, and do not overlap.
\<close>

section \<open>Placing four regions\<close>

definition apart :: "nat \<times> nat \<Rightarrow> nat \<times> nat \<Rightarrow> bool" where
  "apart r s \<longleftrightarrow> snd r \<le> fst s \<or> snd s \<le> fst r"

definition inside :: "nat \<times> nat \<Rightarrow> nat \<times> nat \<Rightarrow> bool" where
  "inside r s \<longleftrightarrow> fst s \<le> fst r \<and> fst r \<le> snd r \<and> snd r \<le> snd s"

text \<open>The start of a region: its offset and the sizes of the regions placed before it.\<close>

definition after :: "bool \<Rightarrow> nat \<Rightarrow> nat" where
  "after b s = (if b then s else 0)"

lemma shift_region_eq: "fst r \<le> snd r \<Longrightarrow> snd r + d < two64 \<Longrightarrow> shift_region d r = (fst r + d, snd r + d)"
  by (simp add: shift_region_def add64_eq)

lemma push_apart_eq:
  assumes "fst r \<le> snd r" "fst s \<le> snd s" "snd r + n < two64" "snd s + m < two64"
  shows "push_apart b m n (r, s) = ((fst r + after (\<not> b) n, snd r + after (\<not> b) n), (fst s + after b m, snd s + after b m))"
  using assms by (simp add: push_apart_def shift_region_eq after_def)

lemma after_le: "after b s \<le> s"
  by (simp add: after_def)

lemma place_regions_eq:
  assumes "ra \<le> rem" "rh \<le> rem" "rs \<le> rem" "rk \<le> rem" "0 < ss" "0 < sk" "a + rem + sa + sh + ss + sk < two64"
  shows "place_regions a (sa, sh, ss, sk) (ra, rh, rs, rk) stack0 kmap0 =
    (let la = a + ra + after (rh < ra) sh + after (rs \<le> ra) ss + after (rk \<le> ra) sk;
         lh = a + rh + after (ra \<le> rh) sa + after (rs \<le> rh) ss + after (rk \<le> rh) sk;
         ls = a + rs + after (ra < rs) sa + after (rh < rs) sh + after (rk \<le> rs) sk;
         lk = a + rk + after (ra < rk) sa + after (rh < rk) sh + after (rs < rk) ss
     in \<lparr>rp_alias = (la, la + sa), rp_heap = (lh, lh + sh), rp_stack = (ls, ls + ss), rp_kmap = (lk, lk + sk)\<rparr>)"
proof -
  have le: "after b sa \<le> sa" "after b sh \<le> sh" "after b ss \<le> ss" "after b sk \<le> sk" for b by (rule after_le)+
  have neg: "(\<not> x \<le> y) = (y < x)" "(\<not> x < y) = (y \<le> x)" for x y :: nat by auto
  note push = push_apart_eq
  have P1: "push_apart (ra \<le> rh) sa sh ((a + ra, a + ra + sa), a + rh, a + rh + sh) =
      ((a + ra + after (rh < ra) sh, a + ra + sa + after (rh < ra) sh), (a + rh + after (ra \<le> rh) sa, a + rh + sh + after (ra \<le> rh) sa))"
    using assms by (subst push) (simp_all add: neg)
  have P2: "push_apart (ra < rs) sa ss ((a + ra + after (rh < ra) sh, a + ra + sa + after (rh < ra) sh), a + rs, a + rs + ss) =
      ((a + ra + after (rh < ra) sh + after (rs \<le> ra) ss, a + ra + sa + after (rh < ra) sh + after (rs \<le> ra) ss),
       (a + rs + after (ra < rs) sa, a + rs + ss + after (ra < rs) sa))"
    using assms le(2)[of "rh < ra"] by (subst push) (simp_all add: neg)
  have P3: "push_apart (rh < rs) sh ss ((a + rh + after (ra \<le> rh) sa, a + rh + sh + after (ra \<le> rh) sa),
        a + rs + after (ra < rs) sa, a + rs + ss + after (ra < rs) sa) =
      ((a + rh + after (ra \<le> rh) sa + after (rs \<le> rh) ss, a + rh + sh + after (ra \<le> rh) sa + after (rs \<le> rh) ss),
       (a + rs + after (ra < rs) sa + after (rh < rs) sh, a + rs + ss + after (ra < rs) sa + after (rh < rs) sh))"
    using assms le(1)[of "ra \<le> rh"] le(1)[of "ra < rs"] by (subst push) (simp_all add: neg)
  have P4: "push_apart (ra < rk) sa sk ((a + ra + after (rh < ra) sh + after (rs \<le> ra) ss, a + ra + sa + after (rh < ra) sh + after (rs \<le> ra) ss),
        a + rk, a + rk + sk) =
      ((a + ra + after (rh < ra) sh + after (rs \<le> ra) ss + after (rk \<le> ra) sk, a + ra + sa + after (rh < ra) sh + after (rs \<le> ra) ss + after (rk \<le> ra) sk),
       (a + rk + after (ra < rk) sa, a + rk + sk + after (ra < rk) sa))"
    using assms le(2)[of "rh < ra"] le(3)[of "rs \<le> ra"] by (subst push) (simp_all add: neg)
  have P5: "push_apart (rh < rk) sh sk ((a + rh + after (ra \<le> rh) sa + after (rs \<le> rh) ss, a + rh + sh + after (ra \<le> rh) sa + after (rs \<le> rh) ss),
        a + rk + after (ra < rk) sa, a + rk + sk + after (ra < rk) sa) =
      ((a + rh + after (ra \<le> rh) sa + after (rs \<le> rh) ss + after (rk \<le> rh) sk, a + rh + sh + after (ra \<le> rh) sa + after (rs \<le> rh) ss + after (rk \<le> rh) sk),
       (a + rk + after (ra < rk) sa + after (rh < rk) sh, a + rk + sk + after (ra < rk) sa + after (rh < rk) sh))"
    using assms le(1)[of "ra \<le> rh"] le(3)[of "rs \<le> rh"] le(1)[of "ra < rk"] by (subst push) (simp_all add: neg)
  have P6: "push_apart (rs < rk) ss sk ((a + rs + after (ra < rs) sa + after (rh < rs) sh, a + rs + ss + after (ra < rs) sa + after (rh < rs) sh),
        a + rk + after (ra < rk) sa + after (rh < rk) sh, a + rk + sk + after (ra < rk) sa + after (rh < rk) sh) =
      ((a + rs + after (ra < rs) sa + after (rh < rs) sh + after (rk \<le> rs) sk, a + rs + ss + after (ra < rs) sa + after (rh < rs) sh + after (rk \<le> rs) sk),
       (a + rk + after (ra < rk) sa + after (rh < rk) sh + after (rs < rk) ss, a + rk + sk + after (ra < rk) sa + after (rh < rk) sh + after (rs < rk) ss))"
    using assms le(1)[of "ra < rs"] le(2)[of "rh < rs"] le(1)[of "ra < rk"] le(2)[of "rh < rk"] by (subst push) (simp_all add: neg)
  have A: "add64 a ra = a + ra" "add64 a rh = a + rh" "add64 a rs = a + rs" "add64 a rk = a + rk"
    "add64 (a + ra) sa = a + ra + sa" "add64 (a + rh) sh = a + rh + sh" "add64 (a + rs) ss = a + rs + ss" "add64 (a + rk) sk = a + rk + sk"
    using assms by (simp_all add: add64_eq)
  show ?thesis using assms(5,6) unfolding place_regions_def Let_def by (simp add: A P1 P2 P3 P4 P5 P6)
qed

definition plan_regions :: "region_plan \<Rightarrow> (nat \<times> nat) list" where
  "plan_regions rp = [rp_alias rp, rp_heap rp, rp_stack rp, rp_kmap rp]"

fun pairwise_apart :: "(nat \<times> nat) list \<Rightarrow> bool" where
  "pairwise_apart [] = True"
| "pairwise_apart (r # rs) \<longleftrightarrow> (\<forall>s\<in>set rs. apart r s) \<and> pairwise_apart rs"

lemma place_regions_ok:
  assumes "ra \<le> rem" "rh \<le> rem" "rs \<le> rem" "rk \<le> rem" "0 < ss" "0 < sk" "a + rem + sa + sh + ss + sk < two64"
    and rp: "rp = place_regions a (sa, sh, ss, sk) (ra, rh, rs, rk) stack0 kmap0"
  shows "pairwise_apart (plan_regions rp)" "\<forall>r\<in>set (plan_regions rp). inside r (a, a + rem + sa + sh + ss + sk)"
    "map (\<lambda>r. snd r - fst r) (plan_regions rp) = [sa, sh, ss, sk]"
proof -
  let ?la = "a + ra + after (rh < ra) sh + after (rs \<le> ra) ss + after (rk \<le> ra) sk"
  let ?lh = "a + rh + after (ra \<le> rh) sa + after (rs \<le> rh) ss + after (rk \<le> rh) sk"
  let ?ls = "a + rs + after (ra < rs) sa + after (rh < rs) sh + after (rk \<le> rs) sk"
  let ?lk = "a + rk + after (ra < rk) sa + after (rh < rk) sh + after (rs < rk) ss"
  have e: "plan_regions rp = [(?la, ?la + sa), (?lh, ?lh + sh), (?ls, ?ls + ss), (?lk, ?lk + sk)]"
    unfolding rp place_regions_eq[OF assms(1-7)] by (simp add: plan_regions_def Let_def)
  show "map (\<lambda>r. snd r - fst r) (plan_regions rp) = [sa, sh, ss, sk]" unfolding e by simp
  show "\<forall>r\<in>set (plan_regions rp). inside r (a, a + rem + sa + sh + ss + sk)"
    unfolding e using assms(1-4) by (simp add: inside_def after_def)
  have "apart (?la, ?la + sa) (?lh, ?lh + sh)" by (simp add: apart_def after_def)
  moreover have "apart (?la, ?la + sa) (?ls, ?ls + ss)" by (simp add: apart_def after_def)
  moreover have "apart (?la, ?la + sa) (?lk, ?lk + sk)" by (simp add: apart_def after_def)
  moreover have "apart (?lh, ?lh + sh) (?ls, ?ls + ss)" by (simp add: apart_def after_def)
  moreover have "apart (?lh, ?lh + sh) (?lk, ?lk + sk)" by (simp add: apart_def after_def)
  moreover have "apart (?ls, ?ls + ss) (?lk, ?lk + sk)" by (simp add: apart_def after_def)
  ultimately show "pairwise_apart (plan_regions rp)" unfolding e by simp
qed

section \<open>Random offsets\<close>

definition good_draws :: "nat list \<Rightarrow> nat" where
  "good_draws draws = length (filter (\<lambda>d. d < 2 ^ 63) draws)"

lemma draw_below_ok:
  "2 ^ 63 \<le> m \<Longrightarrow> Suc k \<le> good_draws draws \<Longrightarrow> \<exists>r rs. draw_below m draws = Some (r, rs) \<and> k \<le> good_draws rs"
  by (induction draws) (auto simp: good_draws_def split: if_splits)

lemma GenerateUniformRange_ok:
  assumes "n < 2 ^ 62" "Suc k \<le> good_draws draws"
  shows "\<exists>r rs. GenerateUniformRange 0 n draws = Some (r, rs) \<and> r \<le> n \<and> k \<le> good_draws rs"
proof -
  have n1: "add64 n 1 = n + 1" "sub64 (n + 1) 0 = n + 1" using assms(1) by (simp_all add: add64_eq sub64_eq two64_def)
  have big: "2 ^ 63 \<le> q" if "two64 - 1 = q + r" "r < n + 1" for q r using that assms(1) by (simp add: two64_def)
  have "2 ^ 63 \<le> (two64 - 1) div (n + 1) * (n + 1)"
    by (rule big[OF div_mult_mod_eq[symmetric]], rule mod_less_divisor) simp
  from draw_below_ok[OF this assms(2)] obtain r rs where r: "draw_below ((two64 - 1) div (n + 1) * (n + 1)) draws = Some (r, rs)"
    "k \<le> good_draws rs" by blast
  have "r mod (n + 1) \<le> n" by simp
  moreover have "r mod (n + 1) < two64" using assms(1) by (intro le_less_trans[OF calculation]) (simp add: two64_def)
  then have "add64 0 (r mod (n + 1)) = r mod (n + 1)" by (simp add: add64_eq)
  moreover have "n \<noteq> two64 - 1" using assms(1) by (simp add: two64_def)
  ultimately show ?thesis using r n1 by (simp add: GenerateUniformRange_def Let_def)
qed

lemma random_offsets_ok:
  assumes "rem < 2 ^ 62" "aslr \<Longrightarrow> 4 \<le> good_draws draws"
  shows "\<exists>ra rh rs rk. random_offsets aslr rem draws = Some (ra, rh, rs, rk) \<and> ra \<le> rem \<and> rh \<le> rem \<and> rs \<le> rem \<and> rk \<le> rem"
proof (cases aslr)
  case False
  then show ?thesis by (simp add: random_offsets_def)
next
  case True
  let ?n = "rem div RegionAlignment"
  have n: "?n < 2 ^ 62" using assms(1) div_le_dividend[of rem RegionAlignment] by linarith
  have off: "mul64 r RegionAlignment \<le> rem" if "r \<le> ?n" for r
  proof -
    have "r * RegionAlignment \<le> ?n * RegionAlignment" using that by (rule mult_le_mono1)
    also have "\<dots> \<le> rem" by simp
    finally show ?thesis using assms(1) by (intro ord_eq_le_trans[OF mul64_eq]) (simp_all add: two64_def)
  qed
  obtain ra d1 where 1: "GenerateUniformRange 0 ?n draws = Some (ra, d1)" "ra \<le> ?n" "3 \<le> good_draws d1"
    using GenerateUniformRange_ok[OF n, of 3 draws] assms(2)[OF True] by auto
  obtain rh d2 where 2: "GenerateUniformRange 0 ?n d1 = Some (rh, d2)" "rh \<le> ?n" "2 \<le> good_draws d2"
    using GenerateUniformRange_ok[OF n, of 2 d1] 1(3) by auto
  obtain rs d3 where 3: "GenerateUniformRange 0 ?n d2 = Some (rs, d3)" "rs \<le> ?n" "1 \<le> good_draws d3"
    using GenerateUniformRange_ok[OF n, of 1 d2] 2(3) by auto
  obtain rk d4 where 4: "GenerateUniformRange 0 ?n d3 = Some (rk, d4)" "rk \<le> ?n"
    using GenerateUniformRange_ok[OF n, of 0 d3] 3(3) by auto
  show ?thesis using True 1 2 3 4 off by (simp add: random_offsets_def)
qed

section \<open>Properties\<close>

definition table_regions :: "KPageTable \<Rightarrow> (nat \<times> nat) list" where
  "table_regions pt =
     [(pt_alias_region_start pt, pt_alias_region_end pt), (pt_heap_region_start pt, pt_heap_region_end pt),
      (pt_stack_region_start pt, pt_stack_region_end pt), (pt_kernel_map_region_start pt, pt_kernel_map_region_end pt)]"

lemma setup_39:
  "setup_code_regions Is39Bit code_addr code_size pt =
    Some ((AlignDown code_addr RegionAlignment, AlignUp (add64 code_addr code_size) RegionAlignment),
      (64 * GiB, 8 * GiB, 2 * GiB, 64 * GiB),
      pt\<lparr>pt_address_space_width := 39, pt_code_region_start := 128 * MiB, pt_code_region_end := 512 * GiB,
        pt_alias_code_region_start := 128 * MiB, pt_alias_code_region_end := 512 * GiB\<rparr>)"
  by (simp add: setup_code_regions_def GetAddressSpaceWidthFromType_def GetAddressSpaceSize_def GetAddressSpaceStart_def
      GetAddressSpaceInfo_def AddressSpaceInfos_def add64_def GiB_def MiB_def two64_def)

text \<open>The extent the regions are placed in: below or above the code, and large enough.\<close>

lemma alloc_extent_39:
  assumes "128 * MiB \<le> cs" "cs \<le> ce" "ce \<le> 512 * GiB" "ce - cs \<le> 130 * GiB" "alloc_extent (128 * MiB) (cs, ce) (512 * GiB) = (a, s)"
  shows "138 * GiB \<le> s" "128 * MiB \<le> a" "a + s \<le> 512 * GiB" "a + s \<le> cs \<or> ce \<le> a"
  using assms by (auto simp: alloc_extent_def sub64_eq GiB_def MiB_def two64_def split: if_splits)

lemma code_extent:
  assumes "128 * MiB \<le> code_addr" "code_addr + code_size \<le> 512 * GiB"
  shows "128 * MiB \<le> AlignDown code_addr RegionAlignment" "AlignDown code_addr RegionAlignment \<le> code_addr"
    "code_addr + code_size \<le> AlignUp (add64 code_addr code_size) RegionAlignment"
    "AlignUp (add64 code_addr code_size) RegionAlignment \<le> 512 * GiB"
    "AlignUp (add64 code_addr code_size) RegionAlignment - AlignDown code_addr RegionAlignment \<le> code_size + 2 * RegionAlignment"
proof -
  let ?x = "code_addr + code_size"
  have R: "RegionAlignment = 2097152" "0 < RegionAlignment" by (simp_all add: RegionAlignment_def MiB_def)
  have x: "add64 code_addr code_size = ?x" using assms(2) by (intro add64_eq) (simp add: GiB_def two64_def)
  have up: "?x \<le> AlignUp ?x RegionAlignment \<and> AlignUp ?x RegionAlignment \<le> 512 * GiB \<and> AlignUp ?x RegionAlignment \<le> ?x + RegionAlignment"
  proof (cases "RegionAlignment dvd ?x")
    case True
    then show ?thesis using assms(2) by (simp add: AlignUp_aligned)
  next
    case False
    obtain k where k: "AlignDown ?x RegionAlignment = RegionAlignment * k" using AlignDown_dvd by (metis dvdE)
    have le: "AlignDown ?x RegionAlignment \<le> ?x" "AlignDown ?x RegionAlignment \<noteq> ?x" using AlignDown_le AlignDown_dvd[of RegionAlignment ?x] False by auto
    then have "AlignDown ?x RegionAlignment + RegionAlignment \<le> 512 * GiB" using assms(2) k unfolding R(1) GiB_def by simp
    moreover from this have "AlignUp ?x RegionAlignment = AlignDown ?x RegionAlignment + RegionAlignment"
      by (intro AlignUp_unaligned[OF False]) (simp add: GiB_def two64_def)
    ultimately show ?thesis using AlignDown_gt[OF R(2), of ?x] le(1) by linarith
  qed
  obtain k where k: "AlignDown code_addr RegionAlignment = RegionAlignment * k" using AlignDown_dvd by (metis dvdE)
  show "128 * MiB \<le> AlignDown code_addr RegionAlignment"
    using AlignDown_gt[OF R(2), of code_addr] k assms(1) unfolding R(1) MiB_def by simp
  show "AlignDown code_addr RegionAlignment \<le> code_addr" by (rule AlignDown_le)
  show "code_addr + code_size \<le> AlignUp (add64 code_addr code_size) RegionAlignment"
    "AlignUp (add64 code_addr code_size) RegionAlignment \<le> 512 * GiB" using up unfolding x by blast+
  show "AlignUp (add64 code_addr code_size) RegionAlignment - AlignDown code_addr RegionAlignment \<le> code_size + 2 * RegionAlignment"
    using up AlignDown_gt[OF R(2), of code_addr] unfolding x by linarith
qed

text \<open>C17: setting up the 39-bit address space of a process whose code lies in the code region succeeds, and
  whatever the random offsets are, the alias, heap, stack and kernel map regions get their sizes, do not
  overlap one another or the code, and lie inside the address space, all of whose pages are free.\<close>

theorem process_regions_disjoint:
  assumes "128 * MiB \<le> code_addr" "code_addr + code_size \<le> 512 * GiB" "code_size \<le> 128 * GiB"
    "aslr \<longrightarrow> 4 \<le> good_draws draws" "m_memory_block_tree (pt_blocks pt) = []" "fst (ResourceManager_Allocate slab) \<noteq> None"
  shows "\<exists>pt'. InitializeForProcess Is39Bit aslr merge from_back pool code_addr code_size slab block_infos limit draws pt
      = Some (ResultSuccess, pt') \<and>
    pairwise_apart ((code_addr, code_addr + code_size) # table_regions pt') \<and>
    (\<forall>r\<in>set (table_regions pt'). inside r (pt_code_region_start pt', pt_address_space_end pt')) \<and>
    map (\<lambda>r. snd r - fst r) (table_regions pt') = [64 * GiB, 8 * GiB, 2 * GiB, 64 * GiB] \<and>
    manager_wf (pt_blocks pt') \<and>
    table_pages pt' = (\<lambda>a. if a < pt_address_space_end pt' then Some (KMemoryState_Free, 0, 0, 0, 0, 0) else None)"
proof -
  let ?cs = "AlignDown code_addr RegionAlignment" and ?ce = "AlignUp (add64 code_addr code_size) RegionAlignment"
  note C = code_extent[OF assms(1,2)]
  have "?ce - ?cs \<le> 130 * GiB" using C(5) assms(3) by (simp add: RegionAlignment_def MiB_def GiB_def)
  moreover obtain a s where as: "alloc_extent (128 * MiB) (?cs, ?ce) (512 * GiB) = (a, s)" by fastforce
  ultimately have E: "138 * GiB \<le> s" "128 * MiB \<le> a" "a + s \<le> 512 * GiB" "a + s \<le> ?cs \<or> ?ce \<le> a"
    using alloc_extent_39[of ?cs ?ce a s] C by linarith+
  let ?rem = "s - 138 * GiB"
  have rem: "sub64 s (138 * GiB) = ?rem" "?rem < 2 ^ 62" using E by (simp_all add: sub64_eq GiB_def two64_def)
  obtain ra rh rs rk where r: "random_offsets aslr ?rem draws = Some (ra, rh, rs, rk)" "ra \<le> ?rem" "rh \<le> ?rem" "rs \<le> ?rem" "rk \<le> ?rem"
    using random_offsets_ok[OF rem(2), of aslr draws] assms(4) by blast
  define rp where "rp = place_regions a (64 * GiB, 8 * GiB, 2 * GiB, 64 * GiB) (ra, rh, rs, rk)
    (pt_stack_region_start pt, pt_stack_region_end pt) (pt_kernel_map_region_start pt, pt_kernel_map_region_end pt)"
  have tot: "a + ?rem + 64 * GiB + 8 * GiB + 2 * GiB + 64 * GiB = a + s" "a + s < two64" using E by (simp_all add: GiB_def two64_def)
  have P: "pairwise_apart (plan_regions rp)" "\<forall>r\<in>set (plan_regions rp). inside r (a, a + s)"
    "map (\<lambda>r. snd r - fst r) (plan_regions rp) = [64 * GiB, 8 * GiB, 2 * GiB, 64 * GiB]"
    using place_regions_ok[OF r(2-5) _ _ _ rp_def] tot by (simp_all add: GiB_def)
  have need: "add64 (add64 (add64 (64 * GiB) (8 * GiB)) (2 * GiB)) (64 * GiB) = 138 * GiB" "549755813888 = 512 * GiB"
    by (simp_all add: add64_def GiB_def two64_def)
  obtain m sm where m: "Manager_Initialize (pt_blocks pt) 0 (512 * GiB) slab = Some (ResultSuccess, m, sm)" "manager_wf m"
    "manager_pages m = (\<lambda>a. if 0 \<le> a \<and> a < 512 * GiB then Some (KMemoryState_Free, 0, 0, 0, 0, 0) else None)"
    using manager_initialize_all_free[of 0 "512 * GiB" slab "pt_blocks pt"] assms(5,6) by (auto simp: GiB_def two64_def PageSize_def)
  have i: "\<exists>pt'. InitializeForProcess Is39Bit aslr merge from_back pool code_addr code_size slab block_infos limit draws pt
      = Some (ResultSuccess, pt') \<and> table_regions pt' = plan_regions rp \<and> pt_blocks pt' = m \<and>
      pt_code_region_start pt' = 128 * MiB \<and> pt_address_space_end pt' = 512 * GiB"
    using as E(1) r(1) m(1)
    by (simp add: InitializeForProcess_def setup_39 need rem Let_def table_regions_def plan_regions_def rp_def[symmetric])
  have "inside r (128 * MiB, 512 * GiB)" "apart (code_addr, code_addr + code_size) r" if "r \<in> set (plan_regions rp)" for r
    using P(2) that E(2-4) C unfolding inside_def apart_def fst_conv snd_conv by (meson order_trans)+
  then show ?thesis using i P m(2,3) by auto
qed

theorem process_regions_disjoint_witness:
  "\<exists>pt'. InitializeForProcess Is39Bit True False False Application 134217728 4096 sample_slab sample_slab KResourceLimit_new
      [7, 18446744073709551615, 0, 5, 2 ^ 62]
      (sample_pt\<lparr>pt_blocks := \<lparr>m_memory_block_tree = [], m_start_address = 0, m_end_address = 0\<rparr>\<rparr>) = Some (ResultSuccess, pt') \<and>
    apart (134217728, 134221824) (pt_heap_region_start pt', pt_heap_region_end pt') \<and>
    apart (pt_alias_region_start pt', pt_alias_region_end pt') (pt_stack_region_start pt', pt_stack_region_end pt')"
  using process_regions_disjoint[of 134217728 4096 True "[7, 18446744073709551615, 0, 5, 2 ^ 62]"
      "sample_pt\<lparr>pt_blocks := \<lparr>m_memory_block_tree = [], m_start_address = 0, m_end_address = 0\<rparr>\<rparr>" sample_slab
      False False Application sample_slab KResourceLimit_new]
  by (auto simp: MiB_def GiB_def good_draws_def table_regions_def sample_slab_def ResourceManager_Allocate_def
      Slab_Allocate_def SlabImpl_Allocate_def)

end
