(* ===== verification/K_Thread_Locks.thy ===== *)
theory K_Thread_Locks
  imports K_Thread
begin

text \<open>
  Waiting for locks with priority inheritance (\<open>src/core/hle/kernel/k_thread.h\<close> and \<open>.cpp\<close>): lock infos with
  their waiters, the held locks of a thread, and \<open>RestorePriority\<close>, which carries a changed priority along
  the chain of lock owners; then beginning and ending a wait (\<open>k_thread_queue.cpp\<close>).

  Threads and lock infos are numbers. Lock infos live in a slab whose memory stays readable; \<open>wc_free_locks\<close>
  is its free list. The red-black trees of waiting threads are the lists of their elements in order: an
  insertion goes before the first element that compares greater, as the tree does when it is sorted; the
  operations take threads out before their key changes. All of this runs under the scheduler lock.
  Following a null pointer, and taking the front of an empty tree, are \<open>None\<close>.
\<close>

section \<open>State\<close>

record LockInfo =
  li_tree :: "nat list"
  li_address_key :: nat
  li_owner :: "nat option"
  li_waiter_count :: u32
  li_is_kernel_address_key :: bool

text \<open>The trees of a process for condition variables and for address arbitration.\<close>

datatype WaitTree = CondVarTree nat | ArbiterTree nat

text \<open>
  The wait queues of \<open>k_condition_variable.cpp\<close>, \<open>k_address_arbiter.cpp\<close> and \<open>k_light_lock.cpp\<close>, with the
  tree they were made for and whether they have a hardware timer.
\<close>

datatype KThreadQueue = WaitForAddressQueue | CondVarQueue WaitTree bool | ArbiterQueue WaitTree bool | LightLockQueue

record KThreadWait =
  w_base_priority :: int
  w_held_locks :: "nat list"
  w_waiting_lock :: "nat option"
  w_address_key :: nat
  w_address_key_value :: u32
  w_is_kernel_address_key :: bool
  w_condvar_tree :: "WaitTree option"
  w_condvar_key :: nat
  w_wait_queue :: "KThreadQueue option"
  w_wait_result :: Result

text \<open>\<open>wc_timer_tasks\<close> are the threads with a registered time-out, \<open>wc_memory\<close> the words of user memory.\<close>

record WaitCore =
  wc_kernel :: KernelCore
  wc_thread :: "nat \<Rightarrow> KThreadWait"
  wc_lock :: "nat \<Rightarrow> LockInfo"
  wc_free_locks :: "nat list"
  wc_tree :: "WaitTree \<Rightarrow> nat list"
  wc_timer_tasks :: "nat set"
  wc_memory :: "nat \<Rightarrow> u32"

definition on_wait :: "nat \<Rightarrow> (KThreadWait \<Rightarrow> KThreadWait) \<Rightarrow> WaitCore \<Rightarrow> WaitCore" where
  "on_wait t f s = s\<lparr>wc_thread := (wc_thread s)(t := f (wc_thread s t))\<rparr>"

definition on_lock :: "nat \<Rightarrow> (LockInfo \<Rightarrow> LockInfo) \<Rightarrow> WaitCore \<Rightarrow> WaitCore" where
  "on_lock l f s = s\<lparr>wc_lock := (wc_lock s)(l := f (wc_lock s l))\<rparr>"

definition on_kernel :: "(KernelCore \<Rightarrow> KernelCore) \<Rightarrow> WaitCore \<Rightarrow> WaitCore" where
  "on_kernel f s = s\<lparr>wc_kernel := f (wc_kernel s)\<rparr>"

definition try_kernel :: "(KernelCore \<Rightarrow> KernelCore option) \<Rightarrow> WaitCore \<Rightarrow> WaitCore option" where
  "try_kernel f s = map_option (\<lambda>k. s\<lparr>wc_kernel := k\<rparr>) (f (wc_kernel s))"

definition GetPriority :: "WaitCore \<Rightarrow> nat \<Rightarrow> int" where
  "GetPriority s t = t_priority (k_info (wc_kernel s) t)"

section \<open>Trees of threads\<close>

definition insert_by :: "(nat \<Rightarrow> nat \<Rightarrow> bool) \<Rightarrow> nat \<Rightarrow> nat list \<Rightarrow> nat list" where
  "insert_by lt x xs = takeWhile (\<lambda>y. \<not> lt x y) xs @ x # dropWhile (\<lambda>y. \<not> lt x y) xs"

definition lock_less :: "WaitCore \<Rightarrow> nat \<Rightarrow> nat \<Rightarrow> bool" where
  "lock_less s lhs rhs \<longleftrightarrow> GetPriority s lhs < GetPriority s rhs"

definition condvar_less :: "WaitCore \<Rightarrow> nat \<Rightarrow> nat \<Rightarrow> bool" where
  "condvar_less s lhs rhs \<longleftrightarrow>
     w_condvar_key (wc_thread s lhs) < w_condvar_key (wc_thread s rhs) \<or>
     w_condvar_key (wc_thread s lhs) = w_condvar_key (wc_thread s rhs) \<and> GetPriority s lhs < GetPriority s rhs"

definition wait_tree_add :: "WaitTree \<Rightarrow> nat \<Rightarrow> WaitCore \<Rightarrow> WaitCore" where
  "wait_tree_add T t s = s\<lparr>wc_tree := (wc_tree s)(T := insert_by (condvar_less s) t (wc_tree s T))\<rparr>"

definition wait_tree_erase :: "WaitTree \<Rightarrow> nat \<Rightarrow> WaitCore \<Rightarrow> WaitCore" where
  "wait_tree_erase T t s = s\<lparr>wc_tree := (wc_tree s)(T := remove1 t (wc_tree s T))\<rparr>"

section \<open>Lock infos\<close>

definition LockInfo_Create :: "nat \<Rightarrow> bool \<Rightarrow> WaitCore \<Rightarrow> (nat \<times> WaitCore) option" where
  "LockInfo_Create address_key is_kernel_address_key s =
     (case wc_free_locks s of
        [] \<Rightarrow> None
      | l # ls \<Rightarrow>
          Some (l, (on_lock l (\<lambda>_. \<lparr>li_tree = [], li_address_key = address_key, li_owner = None, li_waiter_count = 0,
            li_is_kernel_address_key = is_kernel_address_key\<rparr>) s)\<lparr>wc_free_locks := ls\<rparr>))"

definition LockInfo_Free :: "nat \<Rightarrow> WaitCore \<Rightarrow> WaitCore" where
  "LockInfo_Free l s = s\<lparr>wc_free_locks := l # wc_free_locks s\<rparr>"

definition LockInfo_AddWaiter :: "nat \<Rightarrow> nat \<Rightarrow> WaitCore \<Rightarrow> WaitCore" where
  "LockInfo_AddWaiter l waiter s =
     on_wait waiter (\<lambda>w. w\<lparr>w_waiting_lock := Some l\<rparr>)
       (on_lock l (\<lambda>li. li\<lparr>li_tree := insert_by (lock_less s) waiter (li_tree li), li_waiter_count := li_waiter_count li + 1\<rparr>) s)"

definition LockInfo_RemoveWaiter :: "nat \<Rightarrow> nat \<Rightarrow> WaitCore \<Rightarrow> bool \<times> WaitCore" where
  "LockInfo_RemoveWaiter l waiter s =
     (let s1 = on_wait waiter (\<lambda>w. w\<lparr>w_waiting_lock := None\<rparr>)
        (on_lock l (\<lambda>li. li\<lparr>li_tree := remove1 waiter (li_tree li), li_waiter_count := li_waiter_count li - 1\<rparr>) s)
      in (li_waiter_count (wc_lock s1 l) = 0, s1))"

definition GetHighestPriorityWaiter :: "WaitCore \<Rightarrow> nat \<Rightarrow> nat option" where
  "GetHighestPriorityWaiter s l = (case li_tree (wc_lock s l) of [] \<Rightarrow> None | t # _ \<Rightarrow> Some t)"

definition AddHeldLock :: "nat \<Rightarrow> nat \<Rightarrow> WaitCore \<Rightarrow> WaitCore" where
  "AddHeldLock owner l s =
     on_wait owner (\<lambda>w. w\<lparr>w_held_locks := l # w_held_locks w\<rparr>) (on_lock l (\<lambda>li. li\<lparr>li_owner := Some owner\<rparr>) s)"

definition FindHeldLock :: "nat \<Rightarrow> nat \<Rightarrow> bool \<Rightarrow> WaitCore \<Rightarrow> nat option" where
  "FindHeldLock owner address_key is_kernel_address_key s =
     find (\<lambda>l. li_address_key (wc_lock s l) = address_key \<and> li_is_kernel_address_key (wc_lock s l) = is_kernel_address_key)
       (w_held_locks (wc_thread s owner))"

definition GetLockOwner :: "nat \<Rightarrow> WaitCore \<Rightarrow> nat option" where
  "GetLockOwner t s =
     (case w_waiting_lock (wc_thread s t) of None \<Rightarrow> None | Some l \<Rightarrow> li_owner (wc_lock s l))"

section \<open>Waiters\<close>

definition add_kernel_waiters :: "nat \<Rightarrow> int \<Rightarrow> KernelCore \<Rightarrow> KernelCore" where
  "add_kernel_waiters owner n = on_thread owner (\<lambda>th. th\<lparr>th_num_kernel_waiters := th_num_kernel_waiters th + n\<rparr>)"

definition AddWaiterImpl :: "nat \<Rightarrow> nat \<Rightarrow> WaitCore \<Rightarrow> WaitCore option" where
  "AddWaiterImpl owner thread s =
     (let address_key = w_address_key (wc_thread s thread);
          is_kernel_address_key = w_is_kernel_address_key (wc_thread s thread);
          s1 = (if is_kernel_address_key then on_kernel (SetSchedulerUpdateNeeded \<circ> add_kernel_waiters owner 1) s else s)
      in do {
           (l, s2) \<leftarrow>
             (case FindHeldLock owner address_key is_kernel_address_key s1 of
                Some l \<Rightarrow> Some (l, s1)
              | None \<Rightarrow> map_option (\<lambda>(l, s2). (l, AddHeldLock owner l s2)) (LockInfo_Create address_key is_kernel_address_key s1));
           Some (LockInfo_AddWaiter l thread s2)
         })"

definition RemoveWaiterImpl :: "nat \<Rightarrow> nat \<Rightarrow> WaitCore \<Rightarrow> WaitCore option" where
  "RemoveWaiterImpl owner thread s =
     (let s1 = (if w_is_kernel_address_key (wc_thread s thread)
                then on_kernel (SetSchedulerUpdateNeeded \<circ> add_kernel_waiters owner (-1)) s else s)
      in do {
           l \<leftarrow> w_waiting_lock (wc_thread s1 thread);
           let (empty, s2) = LockInfo_RemoveWaiter l thread s1;
           Some (if empty
                 then LockInfo_Free l (on_wait owner (\<lambda>w. w\<lparr>w_held_locks := remove1 l (w_held_locks w)\<rparr>) s2)
                 else s2)
         })"

section \<open>Priority inheritance\<close>

text \<open>The priority a thread should have: the best of its own and of the first waiters of its locks.\<close>

fun best_priority :: "WaitCore \<Rightarrow> int \<Rightarrow> nat list \<Rightarrow> int option" where
  "best_priority s p [] = Some p"
| "best_priority s p (l # ls) =
     do { t \<leftarrow> GetHighestPriorityWaiter s l; best_priority s (min p (GetPriority s t)) ls }"

definition SetPriority :: "nat \<Rightarrow> int \<Rightarrow> WaitCore \<Rightarrow> WaitCore" where
  "SetPriority t p = on_kernel (\<lambda>k. k\<lparr>k_info := (k_info k)(t := (k_info k t)\<lparr>t_priority := p\<rparr>)\<rparr>)"

text \<open>One round of \<open>RestorePriority\<close>: nothing to do, or a new state and the next thread.\<close>

definition restore_one :: "nat \<Rightarrow> WaitCore \<Rightarrow> (nat option \<times> WaitCore) option" where
  "restore_one thread s =
     do {
       new_priority \<leftarrow> best_priority s (w_base_priority (wc_thread s thread)) (w_held_locks (wc_thread s thread));
       if new_priority = GetPriority s thread then Some (None, s)
       else do {
         let lock_owner = GetLockOwner thread s;
         s1 \<leftarrow> (case lock_owner of None \<Rightarrow> Some s | Some ow \<Rightarrow> RemoveWaiterImpl ow thread s);
         let cv_tree = w_condvar_tree (wc_thread s1 thread);
         let s2 = (case cv_tree of None \<Rightarrow> s1 | Some T \<Rightarrow> wait_tree_erase T thread s1);
         let old_priority = GetPriority s2 thread;
         let s3 = SetPriority thread new_priority s2;
         let s4 = (case cv_tree of None \<Rightarrow> s3 | Some T \<Rightarrow> wait_tree_add T thread s3);
         s5 \<leftarrow> (case lock_owner of None \<Rightarrow> Some s4 | Some ow \<Rightarrow> AddWaiterImpl ow thread s4);
         s6 \<leftarrow> try_kernel (OnThreadPriorityChanged thread old_priority) s5;
         Some (lock_owner, s6)
       }
     }"

partial_function (option) RestorePriority :: "nat \<Rightarrow> WaitCore \<Rightarrow> WaitCore option" where
  "RestorePriority thread s =
     do {
       (next, s1) \<leftarrow> restore_one thread s;
       (case next of None \<Rightarrow> Some s1 | Some thread' \<Rightarrow> RestorePriority thread' s1)
     }"

definition AddWaiter :: "nat \<Rightarrow> nat \<Rightarrow> WaitCore \<Rightarrow> WaitCore option" where
  "AddWaiter owner thread s =
     do {
       s1 \<leftarrow> AddWaiterImpl owner thread s;
       if GetPriority s1 thread < GetPriority s1 owner then RestorePriority owner s1 else Some s1
     }"

definition RemoveWaiter :: "nat \<Rightarrow> nat \<Rightarrow> WaitCore \<Rightarrow> WaitCore option" where
  "RemoveWaiter owner thread s =
     do {
       s1 \<leftarrow> RemoveWaiterImpl owner thread s;
       if GetPriority s1 owner = GetPriority s1 thread \<and> GetPriority s1 owner < w_base_priority (wc_thread s1 owner)
       then RestorePriority owner s1 else Some s1
     }"

text \<open>Handing a lock over; the result is the next owner and whether it has waiters.\<close>

definition RemoveWaiterByKey :: "nat \<Rightarrow> nat \<Rightarrow> bool \<Rightarrow> WaitCore \<Rightarrow> ((nat option \<times> bool) \<times> WaitCore) option" where
  "RemoveWaiterByKey owner key is_kernel_address_key s =
     (case FindHeldLock owner key is_kernel_address_key s of
        None \<Rightarrow> Some ((None, False), s)
      | Some l \<Rightarrow> do {
          let s1 = on_wait owner (\<lambda>w. w\<lparr>w_held_locks := remove1 l (w_held_locks w)\<rparr>) s;
          let kernel = li_is_kernel_address_key (wc_lock s1 l);
          let s2 = (if kernel
                    then on_kernel (SetSchedulerUpdateNeeded \<circ> add_kernel_waiters owner (- uint (li_waiter_count (wc_lock s1 l)))) s1
                    else s1);
          next \<leftarrow> GetHighestPriorityWaiter s2 l;
          let (empty, s3) = LockInfo_RemoveWaiter l next s2;
          let s4 =
            (if empty then LockInfo_Free l s3
             else
               let s4 = AddHeldLock next l s3
               in if kernel then on_kernel (add_kernel_waiters next (uint (li_waiter_count (wc_lock s4 l)))) s4 else s4);
          s5 \<leftarrow> (if GetPriority s4 owner = GetPriority s4 next \<and> GetPriority s4 owner < w_base_priority (wc_thread s4 owner)
                  then RestorePriority owner s4 else Some s4);
          Some ((Some next, \<not> empty), s5)
        })"

definition SetBasePriority :: "nat \<Rightarrow> int \<Rightarrow> WaitCore \<Rightarrow> WaitCore option" where
  "SetBasePriority t value s = RestorePriority t (on_wait t (\<lambda>w. w\<lparr>w_base_priority := value\<rparr>) s)"

definition IncreaseBasePriority :: "nat \<Rightarrow> int \<Rightarrow> WaitCore \<Rightarrow> WaitCore option" where
  "IncreaseBasePriority t priority s =
     (if w_base_priority (wc_thread s t) > priority
      then RestorePriority t (on_wait t (\<lambda>w. w\<lparr>w_base_priority := priority\<rparr>) s) else Some s)"

section \<open>Beginning and ending a wait\<close>

definition SetUserAddressKey :: "nat \<Rightarrow> nat \<Rightarrow> u32 \<Rightarrow> WaitCore \<Rightarrow> WaitCore" where
  "SetUserAddressKey t key val =
     on_wait t (\<lambda>w. w\<lparr>w_address_key := key, w_address_key_value := val, w_is_kernel_address_key := False\<rparr>)"

definition SetKernelAddressKey :: "nat \<Rightarrow> nat \<Rightarrow> WaitCore \<Rightarrow> WaitCore" where
  "SetKernelAddressKey t key = on_wait t (\<lambda>w. w\<lparr>w_address_key := key, w_is_kernel_address_key := True\<rparr>)"

definition BeginWait :: "nat \<Rightarrow> KThreadQueue \<Rightarrow> WaitCore \<Rightarrow> WaitCore option" where
  "BeginWait t q s =
     map_option (on_wait t (\<lambda>w. w\<lparr>w_wait_queue := Some q\<rparr>)) (try_kernel (set_state t ThreadState_Waiting) s)"

fun has_timer :: "KThreadQueue \<Rightarrow> bool" where
  "has_timer WaitForAddressQueue = False"
| "has_timer (CondVarQueue T timer) = timer"
| "has_timer (ArbiterQueue T timer) = timer"
| "has_timer LightLockQueue = False"

definition finish_wait :: "KThreadQueue \<Rightarrow> nat \<Rightarrow> Result \<Rightarrow> bool \<Rightarrow> WaitCore \<Rightarrow> WaitCore option" where
  "finish_wait q t wait_result cancel_timer_task s =
     do {
       s1 \<leftarrow> try_kernel (set_state t ThreadState_Runnable) (on_wait t (\<lambda>w. w\<lparr>w_wait_result := wait_result\<rparr>) s);
       let s2 = on_wait t (\<lambda>w. w\<lparr>w_wait_queue := None\<rparr>) s1;
       Some (if cancel_timer_task \<and> has_timer q then s2\<lparr>wc_timer_tasks := wc_timer_tasks s2 - {t}\<rparr> else s2)
     }"

definition is_waiting :: "nat \<Rightarrow> WaitCore \<Rightarrow> bool" where
  "is_waiting t s \<longleftrightarrow> GetState (k_thread (wc_kernel s) t) = ThreadState_Waiting"

definition EndWait :: "nat \<Rightarrow> Result \<Rightarrow> WaitCore \<Rightarrow> WaitCore option" where
  "EndWait t wait_result s =
     (if is_waiting t s then
        (case w_wait_queue (wc_thread s t) of None \<Rightarrow> Some s | Some q \<Rightarrow> finish_wait q t wait_result True s)
      else Some s)"

text \<open>What the queues do before the common part of cancelling.\<close>

definition leave_lock :: "nat \<Rightarrow> WaitCore \<Rightarrow> WaitCore option" where
  "leave_lock t s = (case GetLockOwner t s of None \<Rightarrow> Some s | Some ow \<Rightarrow> RemoveWaiter ow t s)"

definition leave_tree :: "WaitTree \<Rightarrow> nat \<Rightarrow> WaitCore \<Rightarrow> WaitCore" where
  "leave_tree T t s =
     (if w_condvar_tree (wc_thread s t) \<noteq> None
      then on_wait t (\<lambda>w. w\<lparr>w_condvar_tree := None\<rparr>) (wait_tree_erase T t s) else s)"

fun cancel_from :: "KThreadQueue \<Rightarrow> nat \<Rightarrow> WaitCore \<Rightarrow> WaitCore option" where
  "cancel_from WaitForAddressQueue t s = do { ow \<leftarrow> GetLockOwner t s; RemoveWaiter ow t s }"
| "cancel_from (CondVarQueue T timer) t s = map_option (leave_tree T t) (leave_lock t s)"
| "cancel_from (ArbiterQueue T timer) t s = Some (leave_tree T t s)"
| "cancel_from LightLockQueue t s = leave_lock t s"

definition CancelWait :: "nat \<Rightarrow> Result \<Rightarrow> bool \<Rightarrow> WaitCore \<Rightarrow> WaitCore option" where
  "CancelWait t wait_result cancel_timer_task s =
     (if is_waiting t s then do {
        q \<leftarrow> w_wait_queue (wc_thread s t);
        s1 \<leftarrow> cancel_from q t s;
        finish_wait q t wait_result cancel_timer_task s1
      } else Some s)"

text \<open>The part of \<open>Finalize\<close> that releases the waiters of a thread, from the front of the tree of each lock.\<close>

fun cancel_waiters :: "nat \<Rightarrow> nat list \<Rightarrow> WaitCore \<Rightarrow> WaitCore option" where
  "cancel_waiters l [] s = Some s"
| "cancel_waiters l (w # ws) s =
     do { s1 \<leftarrow> CancelWait w ResultInvalidState True (snd (LockInfo_RemoveWaiter l w s)); cancel_waiters l ws s1 }"

fun release_held_locks :: "nat \<Rightarrow> nat list \<Rightarrow> WaitCore \<Rightarrow> WaitCore option" where
  "release_held_locks t [] s = Some s"
| "release_held_locks t (l # ls) s =
     do {
       s1 \<leftarrow> cancel_waiters l (li_tree (wc_lock s l)) s;
       release_held_locks t ls (LockInfo_Free l (on_wait t (\<lambda>w. w\<lparr>w_held_locks := remove1 l (w_held_locks w)\<rparr>) s1))
     }"

definition release_waiters :: "nat \<Rightarrow> WaitCore \<Rightarrow> WaitCore option" where
  "release_waiters t s = release_held_locks t (w_held_locks (wc_thread s t)) s"

end
