(* ===== verification/K_Light_Lock.thy ===== *)
theory K_Light_Lock
  imports K_Thread_Locks
begin

text \<open>
  Light locks of the kernel (\<open>k_light_lock.cpp\<close>). The tag of a lock is a thread pointer whose lowest bit says
  that others may wait: \<open>None\<close> is zero, \<open>Some (t, b)\<close> the pointer to thread \<open>t\<close> with the bit \<open>b\<close>. The exchange
  of the fast paths is one atomic step (a failed \<open>compare_exchange_weak\<close> changes nothing and is repeated), and
  the slow paths run under the scheduler lock. \<open>addr\<close> is the address of the tag, the kernel address key of the waiters.
\<close>

section \<open>The lock\<close>

type_synonym LightTag = "(nat \<times> bool) option"

text \<open>The value the exchange loop of \<open>Lock\<close> stores, and the owner tag it passes on if the lock was taken.\<close>

fun Lock_exchange :: "nat \<Rightarrow> LightTag \<Rightarrow> LightTag" where
  "Lock_exchange cur_thread None = Some (cur_thread, False)"
| "Lock_exchange cur_thread (Some (ow, b)) = Some (ow, True)"

text \<open>The exchange of \<open>Unlock\<close>: the tag it stores, or nothing if the slow path has to do it.\<close>

definition Unlock_exchange :: "nat \<Rightarrow> LightTag \<Rightarrow> LightTag option" where
  "Unlock_exchange cur_thread tag = (if tag = Some (cur_thread, False) then Some None else None)"

definition continue_if_suspended :: "nat \<Rightarrow> WaitCore \<Rightarrow> WaitCore option" where
  "continue_if_suspended t s =
     (if IsSuspended (k_thread (wc_kernel s) t) then try_kernel (ContinueIfHasKernelWaiters t) s else Some s)"

definition LockSlowPath :: "nat \<Rightarrow> LightTag \<Rightarrow> LightTag \<Rightarrow> nat \<Rightarrow> WaitCore \<Rightarrow> (bool \<times> WaitCore) option" where
  "LockSlowPath addr tag owner_tag cur_thread s =
     (if tag \<noteq> owner_tag then Some (False, s)
      else case owner_tag of
        None \<Rightarrow> None
      | Some (owner_thread, _) \<Rightarrow> do {
          s1 \<leftarrow> AddWaiter owner_thread cur_thread (SetKernelAddressKey cur_thread addr s);
          s2 \<leftarrow> BeginWait cur_thread LightLockQueue s1;
          s3 \<leftarrow> continue_if_suspended owner_thread s2;
          Some (True, s3)
        })"

definition UnlockSlowPath :: "nat \<Rightarrow> nat \<Rightarrow> WaitCore \<Rightarrow> (LightTag \<times> WaitCore) option" where
  "UnlockSlowPath addr owner_thread s =
     do {
       ((next_owner, has_waiters), s1) \<leftarrow> RemoveWaiterByKey owner_thread addr True s;
       s2 \<leftarrow> (case next_owner of
                None \<Rightarrow> Some s1
              | Some t \<Rightarrow> do { s2 \<leftarrow> EndWait t ResultSuccess s1; continue_if_suspended t s2 });
       s3 \<leftarrow> (if IsSuspended (k_thread (wc_kernel s2) owner_thread) then try_kernel (TrySuspend owner_thread) s2 else Some s2);
       Some (map_option (\<lambda>t. (t, has_waiters)) next_owner, s3)
     }"

definition IsLockedByCurrentThread :: "nat \<Rightarrow> LightTag \<Rightarrow> bool" where
  "IsLockedByCurrentThread cur_thread tag \<longleftrightarrow> (case tag of None \<Rightarrow> False | Some (ow, _) \<Rightarrow> ow = cur_thread)"

end
