(* ===== verification/K_Condition_Variable.thy ===== *)
theory K_Condition_Variable
  imports K_Thread_Locks
begin

text \<open>
  Condition variables and address arbitration (\<open>k_condition_variable.cpp\<close>, \<open>k_address_arbiter.cpp\<close>), with the
  scoped sleep of \<open>k_scoped_scheduler_lock_and_sleep.h\<close>.

  The bodies run under the scheduler lock; guest code on other cores may still store to user memory. The
  exclusive loops take the list of words that such stores leave at the address between a load and the store
  of the loop, which then fails and tries again. \<open>threads\<close> looks up a thread in the handle table of the
  current process (\<open>K_Handle_Table\<close>). Signed words are 32-bit words compared by \<open>sint\<close>; they wrap, as the
  build asks for (\<open>-fwrapv\<close>). A call that puts the current thread to sleep ends there; the caller gets
  the wait result of the thread once it runs again. \<open>p\<close> is the process whose object it is.
\<close>

section \<open>User memory\<close>

definition HandleWaitMask :: u32 where
  "HandleWaitMask = push_bit 30 1"

definition ReadFromUser :: "nat \<Rightarrow> WaitCore \<Rightarrow> u32" where
  "ReadFromUser address s = wc_memory s address"

definition WriteToUser :: "nat \<Rightarrow> u32 \<Rightarrow> WaitCore \<Rightarrow> WaitCore" where
  "WriteToUser address v s = s\<lparr>wc_memory := (wc_memory s)(address := v)\<rparr>"

fun UpdateLockAtomic :: "u32 list \<Rightarrow> nat \<Rightarrow> u32 \<Rightarrow> u32 \<Rightarrow> WaitCore \<Rightarrow> u32 \<times> WaitCore" where
  "UpdateLockAtomic [] address if_zero new_orr_mask s =
     (let expected = ReadFromUser address s;
          val = (if expected = 0 then if_zero else expected OR new_orr_mask)
      in (expected, WriteToUser address val s))"
| "UpdateLockAtomic (v # others) address if_zero new_orr_mask s =
     UpdateLockAtomic others address if_zero new_orr_mask (WriteToUser address v s)"

fun DecrementIfLessThan :: "u32 list \<Rightarrow> nat \<Rightarrow> u32 \<Rightarrow> WaitCore \<Rightarrow> u32 \<times> WaitCore" where
  "DecrementIfLessThan others address val s =
     (let current_value = ReadFromUser address s
      in if sint current_value < sint val then
           (case others of
              [] \<Rightarrow> (current_value, WriteToUser address (current_value - 1) s)
            | v # others' \<Rightarrow> DecrementIfLessThan others' address val (WriteToUser address v s))
         else (current_value, s))"

fun UpdateIfEqual :: "u32 list \<Rightarrow> nat \<Rightarrow> u32 \<Rightarrow> u32 \<Rightarrow> WaitCore \<Rightarrow> u32 \<times> WaitCore" where
  "UpdateIfEqual others address val new_value s =
     (let current_value = ReadFromUser address s
      in if current_value = val then
           (case others of
              [] \<Rightarrow> (current_value, WriteToUser address new_value s)
            | v # others' \<Rightarrow> UpdateIfEqual others' address val new_value (WriteToUser address v s))
         else (current_value, s))"

section \<open>Sleeping\<close>

datatype WaitOutcome = Returned Result | Waiting

abbreviation current_thread :: "WaitCore \<Rightarrow> nat" where
  "current_thread s \<equiv> k_current_thread (wc_kernel s)"

definition is_terminating :: "nat \<Rightarrow> WaitCore \<Rightarrow> bool" where
  "is_terminating t s \<longleftrightarrow> IsTerminationRequested (k_thread (wc_kernel s) t)"

definition RegisterSleep :: "nat \<Rightarrow> int \<Rightarrow> WaitCore \<Rightarrow> WaitCore" where
  "RegisterSleep t timeout_tick s =
     (if timeout_tick > 0 then s\<lparr>wc_timer_tasks := insert t (wc_timer_tasks s)\<rparr> else s)"

definition SetConditionVariable :: "nat \<Rightarrow> WaitTree \<Rightarrow> nat \<Rightarrow> nat \<Rightarrow> u32 \<Rightarrow> WaitCore \<Rightarrow> WaitCore" where
  "SetConditionVariable t T address cv_key val =
     on_wait t (\<lambda>w. w\<lparr>w_condvar_tree := Some T, w_condvar_key := cv_key, w_address_key := address, w_address_key_value := val,
       w_is_kernel_address_key := False\<rparr>)"

definition SetAddressArbiter :: "nat \<Rightarrow> WaitTree \<Rightarrow> nat \<Rightarrow> WaitCore \<Rightarrow> WaitCore" where
  "SetAddressArbiter t T address = on_wait t (\<lambda>w. w\<lparr>w_condvar_tree := Some T, w_condvar_key := address\<rparr>)"

definition ClearConditionVariable :: "nat \<Rightarrow> WaitCore \<Rightarrow> WaitCore" where
  "ClearConditionVariable t = on_wait t (\<lambda>w. w\<lparr>w_condvar_tree := None\<rparr>)"

section \<open>Locks of user code\<close>

text \<open>The word a lock gets when its next owner is chosen.\<close>

definition next_tag :: "nat option \<Rightarrow> bool \<Rightarrow> WaitCore \<Rightarrow> u32" where
  "next_tag next_owner has_waiters s =
     (case next_owner of
        None \<Rightarrow> 0
      | Some t \<Rightarrow> let v = w_address_key_value (wc_thread s t) in if has_waiters then v OR HandleWaitMask else v)"

definition SignalToAddress :: "nat \<Rightarrow> WaitCore \<Rightarrow> (Result \<times> WaitCore) option" where
  "SignalToAddress addr s =
     do {
       ((next_owner, has_waiters), s1) \<leftarrow> RemoveWaiterByKey (current_thread s) addr False s;
       let s2 = WriteToUser addr (next_tag next_owner has_waiters s1) s1;
       s3 \<leftarrow> (case next_owner of None \<Rightarrow> Some s2 | Some t \<Rightarrow> EndWait t ResultSuccess s2);
       Some (ResultSuccess, s3)
     }"

definition WaitForAddress :: "(u32 \<Rightarrow> nat option) \<Rightarrow> u32 \<Rightarrow> nat \<Rightarrow> u32 \<Rightarrow> WaitCore \<Rightarrow> (WaitOutcome \<times> WaitCore) option" where
  "WaitForAddress threads handle addr val s =
     (let cur = current_thread s in
      if is_terminating cur s then Some (Returned ResultTerminationRequested, s)
      else if ReadFromUser addr s \<noteq> (handle OR HandleWaitMask) then Some (Returned ResultSuccess, s)
      else case threads handle of
        None \<Rightarrow> Some (Returned ResultInvalidHandle, s)
      | Some owner_thread \<Rightarrow> do {
          s1 \<leftarrow> AddWaiter owner_thread cur (SetUserAddressKey cur addr val s);
          s2 \<leftarrow> BeginWait cur WaitForAddressQueue s1;
          Some (Waiting, s2)
        })"

section \<open>Condition variables\<close>

definition SignalImpl :: "(u32 \<Rightarrow> nat option) \<Rightarrow> u32 list \<Rightarrow> nat \<Rightarrow> WaitCore \<Rightarrow> WaitCore option" where
  "SignalImpl threads others t s =
     (let address = w_address_key (wc_thread s t);
          own_tag = w_address_key_value (wc_thread s t);
          (prev_tag, s1) = UpdateLockAtomic others address own_tag HandleWaitMask s
      in if prev_tag = 0 then EndWait t ResultSuccess s1
         else case threads (prev_tag AND NOT HandleWaitMask) of
           Some owner_thread \<Rightarrow> AddWaiter owner_thread t s1
         | None \<Rightarrow> EndWait t ResultInvalidState s1)"

text \<open>The first element of a tree with a key of at least \<open>key\<close>, and the element after one.\<close>

definition nfind_key :: "WaitTree \<Rightarrow> nat \<Rightarrow> WaitCore \<Rightarrow> nat option" where
  "nfind_key T key s = find (\<lambda>t. key \<le> w_condvar_key (wc_thread s t)) (wc_tree s T)"

definition tree_next :: "WaitTree \<Rightarrow> nat \<Rightarrow> WaitCore \<Rightarrow> nat option" where
  "tree_next T t s = (case dropWhile (\<lambda>x. x \<noteq> t) (wc_tree s T) of _ # y # _ \<Rightarrow> Some y | _ \<Rightarrow> None)"

text \<open>\<open>others n\<close> is the interference with the signal of the \<open>n\<close>-th waiter.\<close>

partial_function (option) signal_loop ::
  "(u32 \<Rightarrow> nat option) \<Rightarrow> (nat \<Rightarrow> u32 list) \<Rightarrow> WaitTree \<Rightarrow> nat \<Rightarrow> int \<Rightarrow> nat \<Rightarrow> nat option \<Rightarrow> WaitCore \<Rightarrow> (nat option \<times> WaitCore) option" where
  "signal_loop threads others T cv_key count num_waiters it s =
     (case it of
        None \<Rightarrow> Some (None, s)
      | Some target_thread \<Rightarrow>
          if (count \<le> 0 \<or> int num_waiters < count) \<and> w_condvar_key (wc_thread s target_thread) = cv_key then do {
            let it' = tree_next T target_thread s;
            s1 \<leftarrow> SignalImpl threads (others num_waiters) target_thread (ClearConditionVariable target_thread (wait_tree_erase T target_thread s));
            signal_loop threads others T cv_key count (Suc num_waiters) it' s1
          } else Some (it, s))"

definition KConditionVariable_Signal ::
  "(u32 \<Rightarrow> nat option) \<Rightarrow> (nat \<Rightarrow> u32 list) \<Rightarrow> nat \<Rightarrow> nat \<Rightarrow> int \<Rightarrow> WaitCore \<Rightarrow> WaitCore option" where
  "KConditionVariable_Signal threads others p cv_key count s =
     do {
       (it, s1) \<leftarrow> signal_loop threads others (CondVarTree p) cv_key count 0 (nfind_key (CondVarTree p) cv_key s) s;
       Some (case it of
               None \<Rightarrow> WriteToUser cv_key 0 s1
             | Some t \<Rightarrow> if w_condvar_key (wc_thread s1 t) \<noteq> cv_key then WriteToUser cv_key 0 s1 else s1)
     }"

definition KConditionVariable_Wait :: "nat \<Rightarrow> nat \<Rightarrow> nat \<Rightarrow> u32 \<Rightarrow> int \<Rightarrow> WaitCore \<Rightarrow> (WaitOutcome \<times> WaitCore) option" where
  "KConditionVariable_Wait p addr key val timeout s =
     (let cur = current_thread s in
      if is_terminating cur s then Some (Returned ResultTerminationRequested, s)
      else do {
        ((next_owner, has_waiters), s1) \<leftarrow> RemoveWaiterByKey cur addr False s;
        let next_value = next_tag next_owner has_waiters s1;
        s2 \<leftarrow> (case next_owner of None \<Rightarrow> Some s1 | Some t \<Rightarrow> EndWait t ResultSuccess s1);
        let s3 = WriteToUser addr next_value (WriteToUser key 1 s2);
        (if timeout = 0 then Some (Returned ResultTimedOut, s3)
         else do {
           let s4 = wait_tree_add (CondVarTree p) cur (SetConditionVariable cur (CondVarTree p) addr key val s3);
           s5 \<leftarrow> BeginWait cur (CondVarQueue (CondVarTree p) (timeout > 0)) s4;
           Some (Waiting, RegisterSleep cur timeout s5)
         })
      })"

section \<open>Address arbitration\<close>

text \<open>The threads of a tree from the first with the key on; ending their waits leaves the rest in order.\<close>

definition from_key :: "WaitTree \<Rightarrow> nat \<Rightarrow> WaitCore \<Rightarrow> nat list" where
  "from_key T key s = dropWhile (\<lambda>t. w_condvar_key (wc_thread s t) < key) (wc_tree s T)"

fun arbiter_wake :: "WaitTree \<Rightarrow> nat \<Rightarrow> int \<Rightarrow> nat \<Rightarrow> nat list \<Rightarrow> WaitCore \<Rightarrow> WaitCore option" where
  "arbiter_wake T addr count num_waiters [] s = Some s"
| "arbiter_wake T addr count num_waiters (t # ts) s =
     (if (count \<le> 0 \<or> int num_waiters < count) \<and> w_condvar_key (wc_thread s t) = addr then do {
        s1 \<leftarrow> EndWait t ResultSuccess s;
        arbiter_wake T addr count (Suc num_waiters) ts (wait_tree_erase T t (ClearConditionVariable t s1))
      } else Some s)"

definition KAddressArbiter_Signal :: "nat \<Rightarrow> nat \<Rightarrow> int \<Rightarrow> WaitCore \<Rightarrow> (Result \<times> WaitCore) option" where
  "KAddressArbiter_Signal p addr count s =
     map_option (Pair ResultSuccess) (arbiter_wake (ArbiterTree p) addr count 0 (from_key (ArbiterTree p) addr s) s)"

definition SignalAndIncrementIfEqual :: "u32 list \<Rightarrow> nat \<Rightarrow> nat \<Rightarrow> u32 \<Rightarrow> int \<Rightarrow> WaitCore \<Rightarrow> (Result \<times> WaitCore) option" where
  "SignalAndIncrementIfEqual others p addr val count s =
     (let (user_value, s1) = UpdateIfEqual others addr val (val + 1) s
      in if user_value \<noteq> val then Some (ResultInvalidState, s1)
         else map_option (Pair ResultSuccess) (arbiter_wake (ArbiterTree p) addr count 0 (from_key (ArbiterTree p) addr s1) s1))"

text \<open>The waiters after the first, counted up to one more than \<open>count\<close>.\<close>

fun count_more :: "nat \<Rightarrow> int \<Rightarrow> int \<Rightarrow> nat list \<Rightarrow> WaitCore \<Rightarrow> int" where
  "count_more addr count tmp_num_waiters [] s = tmp_num_waiters"
| "count_more addr count tmp_num_waiters (t # ts) s =
     (if w_condvar_key (wc_thread s t) = addr then
        if tmp_num_waiters \<ge> count then tmp_num_waiters + 1
        else count_more addr count (tmp_num_waiters + 1) ts s
      else tmp_num_waiters)"

definition modified_value :: "nat \<Rightarrow> u32 \<Rightarrow> int \<Rightarrow> nat list \<Rightarrow> WaitCore \<Rightarrow> u32" where
  "modified_value addr val count it s =
     (case it of
        t # ts \<Rightarrow>
          if w_condvar_key (wc_thread s t) = addr then
            if count \<le> 0 then val - 2
            else if count_more addr count 0 ts s < count then val - 1 else val
          else val + 1
      | [] \<Rightarrow> val + 1)"

definition SignalAndModifyByWaitingCountIfEqual ::
  "u32 list \<Rightarrow> nat \<Rightarrow> nat \<Rightarrow> u32 \<Rightarrow> int \<Rightarrow> WaitCore \<Rightarrow> (Result \<times> WaitCore) option" where
  "SignalAndModifyByWaitingCountIfEqual others p addr val count s =
     (let it = from_key (ArbiterTree p) addr s;
          new_value = modified_value addr val count it s;
          (user_value, s1) = (if val \<noteq> new_value then UpdateIfEqual others addr val new_value s else (ReadFromUser addr s, s))
      in if user_value \<noteq> val then Some (ResultInvalidState, s1)
         else map_option (Pair ResultSuccess) (arbiter_wake (ArbiterTree p) addr count 0 it s1))"

definition arbiter_sleep :: "nat \<Rightarrow> nat \<Rightarrow> int \<Rightarrow> WaitCore \<Rightarrow> (WaitOutcome \<times> WaitCore) option" where
  "arbiter_sleep p addr timeout s =
     (let cur = current_thread s;
          s1 = wait_tree_add (ArbiterTree p) cur (SetAddressArbiter cur (ArbiterTree p) addr s)
      in map_option (\<lambda>s2. (Waiting, RegisterSleep cur timeout s2))
           (BeginWait cur (ArbiterQueue (ArbiterTree p) (timeout > 0)) s1))"

definition WaitIfLessThan :: "u32 list \<Rightarrow> nat \<Rightarrow> nat \<Rightarrow> u32 \<Rightarrow> bool \<Rightarrow> int \<Rightarrow> WaitCore \<Rightarrow> (WaitOutcome \<times> WaitCore) option" where
  "WaitIfLessThan others p addr val decrement timeout s =
     (if is_terminating (current_thread s) s then Some (Returned ResultTerminationRequested, s)
      else
        let (user_value, s1) = (if decrement then DecrementIfLessThan others addr val s else (ReadFromUser addr s, s))
        in if sint user_value \<ge> sint val then Some (Returned ResultInvalidState, s1)
           else if timeout = 0 then Some (Returned ResultTimedOut, s1)
           else arbiter_sleep p addr timeout s1)"

definition WaitIfEqual :: "nat \<Rightarrow> nat \<Rightarrow> u32 \<Rightarrow> int \<Rightarrow> WaitCore \<Rightarrow> (WaitOutcome \<times> WaitCore) option" where
  "WaitIfEqual p addr val timeout s =
     (if is_terminating (current_thread s) s then Some (Returned ResultTerminationRequested, s)
      else if val \<noteq> ReadFromUser addr s then Some (Returned ResultInvalidState, s)
      else if timeout = 0 then Some (Returned ResultTimedOut, s)
      else arbiter_sleep p addr timeout s)"

end
