(* ===== verification/Lock_Structure.thy ===== *)
theory Lock_Structure
  imports K_Thread_Locks Scheduling "HOL-Library.Product_Lexorder"
begin

text \<open>
  The data structure of waiting threads (\<open>K_Thread_Locks\<close>): when lock infos, held locks and waiting threads
  agree with one another, and what adding and removing waiters does to the relation "waits for".
\<close>

section \<open>Ordered insertion\<close>

lemma insert_by_simps [simp]:
  "insert_by lt x [] = [x]"
  "insert_by lt x (a # xs) = (if lt x a then x # a # xs else a # insert_by lt x xs)"
  by (simp_all add: insert_by_def)

lemma set_insert_by [simp]: "set (insert_by lt x xs) = insert x (set xs)"
  by (induction xs) auto

lemma distinct_insert_by: "distinct xs \<Longrightarrow> x \<notin> set xs \<Longrightarrow> distinct (insert_by lt x xs)"
  by (induction xs) auto

lemma length_insert_by [simp]: "length (insert_by lt x xs) = Suc (length xs)"
  by (induction xs) auto

lemma hd_insert_by: "hd (insert_by lt x (a # xs)) = (if lt x a then x else a)"
  by simp

lemma sorted_insert_by:
  fixes f :: "nat \<Rightarrow> 'a :: linorder"
  assumes "sorted (map f xs)" "\<And>y. y \<in> set xs \<Longrightarrow> lt x y \<longleftrightarrow> f x < f y"
  shows "sorted (map f (insert_by lt x xs))"
  using assms by (induction xs) (auto intro: order.trans less_imp_le)

lemma sorted_remove1_map: "sorted (map f xs) \<Longrightarrow> sorted (map f (remove1 x xs))"
  by (induction xs) (auto dest: notin_set_remove1 in_set_remove1[THEN iffD1, rotated] intro: set_remove1_subset[THEN subsetD])

section \<open>Well-formed locks\<close>

abbreviation held :: "WaitCore \<Rightarrow> nat \<Rightarrow> nat list" where
  "held s t \<equiv> w_held_locks (wc_thread s t)"

abbreviation waiting :: "WaitCore \<Rightarrow> nat \<Rightarrow> nat option" where
  "waiting s t \<equiv> w_waiting_lock (wc_thread s t)"

abbreviation tree_of :: "WaitCore \<Rightarrow> nat \<Rightarrow> nat list" where
  "tree_of s l \<equiv> li_tree (wc_lock s l)"

text \<open>
  The number of threads in the slab, and of lock infos in theirs (\<open>init_slab_setup.cpp\<close>, with the extra threads).
  A thread of the slab is the number of its slot; host threads are not in it.
\<close>

definition MaxThreads :: nat where
  "MaxThreads = 800 + ((1024 + 256 + 256) - 800)"

definition locks_of :: "WaitCore \<Rightarrow> nat set" where
  "locks_of s = set (wc_free_locks s) \<union> (\<Union>t. set (held s t))"

text \<open>One lock of a thread: its waiters are the threads that wait for it, in order of priority.\<close>

definition lock_ok :: "WaitCore \<Rightarrow> nat \<Rightarrow> nat \<Rightarrow> bool" where
  "lock_ok s ow l \<longleftrightarrow> li_owner (wc_lock s l) = Some ow \<and> distinct (tree_of s l) \<and>
     (\<forall>t. t \<in> set (tree_of s l) \<longleftrightarrow> waiting s t = Some l) \<and> sorted (map (GetPriority s) (tree_of s l)) \<and>
     li_waiter_count (wc_lock s l) = of_nat (length (tree_of s l)) \<and>
     (\<forall>t\<in>set (tree_of s l). li_address_key (wc_lock s l) = w_address_key (wc_thread s t) \<and>
        li_is_kernel_address_key (wc_lock s l) = w_is_kernel_address_key (wc_thread s t))"

text \<open>All locks; those in \<open>E\<close> may have no waiters.\<close>

definition locks_ok :: "nat set \<Rightarrow> WaitCore \<Rightarrow> bool" where
  "locks_ok E s \<longleftrightarrow>
     (\<forall>ow l. l \<in> set (held s ow) \<longrightarrow> lock_ok s ow l \<and> (l \<in> E \<or> tree_of s l \<noteq> [])) \<and>
     (\<forall>ow. distinct (held s ow)) \<and>
     (\<forall>t l. waiting s t = Some l \<longrightarrow> t < MaxThreads \<and> (\<exists>ow. l \<in> set (held s ow))) \<and>
     distinct (wc_free_locks s) \<and> (\<forall>l\<in>set (wc_free_locks s). \<forall>ow. l \<notin> set (held s ow)) \<and>
     MaxThreads \<le> card (locks_of s)"

lemma locks_okD:
  assumes "locks_ok E s"
  shows "l \<in> set (held s ow) \<Longrightarrow> lock_ok s ow l" "l \<in> set (held s ow) \<Longrightarrow> l \<in> E \<or> tree_of s l \<noteq> []" "distinct (held s ow)"
    "waiting s t = Some l \<Longrightarrow> t < MaxThreads" "waiting s t = Some l \<Longrightarrow> \<exists>ow. l \<in> set (held s ow)"
    "l \<in> set (wc_free_locks s) \<Longrightarrow> l \<notin> set (held s ow)" "distinct (wc_free_locks s)" "MaxThreads \<le> card (locks_of s)"
  using assms unfolding locks_ok_def by blast+

text \<open>Each lock has one owner.\<close>

lemma one_owner: "locks_ok E s \<Longrightarrow> l \<in> set (held s a) \<Longrightarrow> l \<in> set (held s b) \<Longrightarrow> a = b"
  using locks_okD(1)[of E s l a] locks_okD(1)[of E s l b] by (simp add: lock_ok_def)

definition owner_of :: "WaitCore \<Rightarrow> nat \<Rightarrow> nat option" where
  "owner_of s t = GetLockOwner t s"

lemma owner_of_waiting: "locks_ok E s \<Longrightarrow> waiting s t = Some l \<Longrightarrow> l \<in> set (held s ow) \<Longrightarrow> owner_of s t = Some ow"
  using locks_okD(1)[of E s l ow] by (simp add: owner_of_def GetLockOwner_def lock_ok_def)

lemma owner_of_None: "waiting s t = None \<Longrightarrow> owner_of s t = None"
  by (simp add: owner_of_def GetLockOwner_def)

lemma owner_of_Some:
  assumes "locks_ok E s" "owner_of s t = Some ow"
  obtains l where "waiting s t = Some l" "l \<in> set (held s ow)"
proof (cases "waiting s t")
  case None
  then show ?thesis using assms(2) owner_of_None by simp
next
  case (Some l)
  then obtain a where a: "l \<in> set (held s a)" using locks_okD(5)[OF assms(1)] by blast
  then have "owner_of s t = Some a" using owner_of_waiting[OF assms(1) Some] by simp
  then show ?thesis using that Some a assms(2) by simp
qed

lemma tree_length: "locks_ok E s \<Longrightarrow> l \<in> set (held s ow) \<Longrightarrow> length (tree_of s l) \<le> MaxThreads"
proof -
  assume a: "locks_ok E s" "l \<in> set (held s ow)"
  then have d: "distinct (tree_of s l)" "set (tree_of s l) \<subseteq> {..<MaxThreads}"
    using locks_okD(1,4)[OF a(1)] by (auto simp: lock_ok_def)
  then have "card (set (tree_of s l)) \<le> card {..<MaxThreads}" by (intro card_mono) auto
  then show ?thesis using distinct_card[OF d(1)] by simp
qed


section \<open>Steps on the structure\<close>

lemma on_wait_simps [simp]:
  "wc_thread (on_wait t f s) = (wc_thread s)(t := f (wc_thread s t))" "wc_lock (on_wait t f s) = wc_lock s"
  "wc_free_locks (on_wait t f s) = wc_free_locks s" "wc_kernel (on_wait t f s) = wc_kernel s" "wc_tree (on_wait t f s) = wc_tree s"
  "GetPriority (on_wait t f s) = GetPriority s"
  by (simp_all add: on_wait_def GetPriority_def fun_eq_iff)

lemma on_lock_simps [simp]:
  "wc_thread (on_lock l f s) = wc_thread s" "wc_lock (on_lock l f s) = (wc_lock s)(l := f (wc_lock s l))"
  "wc_free_locks (on_lock l f s) = wc_free_locks s" "wc_kernel (on_lock l f s) = wc_kernel s" "wc_tree (on_lock l f s) = wc_tree s"
  "GetPriority (on_lock l f s) = GetPriority s"
  by (simp_all add: on_lock_def GetPriority_def fun_eq_iff)

lemma on_kernel_simps [simp]:
  "wc_thread (on_kernel f s) = wc_thread s" "wc_lock (on_kernel f s) = wc_lock s"
  "wc_free_locks (on_kernel f s) = wc_free_locks s" "wc_kernel (on_kernel f s) = f (wc_kernel s)" "wc_tree (on_kernel f s) = wc_tree s"
  by (simp_all add: on_kernel_def)

text \<open>Two states with the same locks, waiting threads and priorities.\<close>

definition same_waits :: "WaitCore \<Rightarrow> WaitCore \<Rightarrow> bool" where
  "same_waits s s' \<longleftrightarrow> wc_lock s' = wc_lock s \<and> wc_free_locks s' = wc_free_locks s \<and> GetPriority s' = GetPriority s \<and>
     (\<forall>t. held s' t = held s t \<and> waiting s' t = waiting s t \<and> w_address_key (wc_thread s' t) = w_address_key (wc_thread s t) \<and>
        w_is_kernel_address_key (wc_thread s' t) = w_is_kernel_address_key (wc_thread s t))"

lemma same_waits_ok:
  assumes "same_waits s s'"
  shows "locks_ok E s' = locks_ok E s" "owner_of s' = owner_of s"
proof -
  show "locks_ok E s' = locks_ok E s" using assms unfolding same_waits_def locks_ok_def lock_ok_def locks_of_def by simp
  show "owner_of s' = owner_of s" using assms unfolding same_waits_def owner_of_def[abs_def] GetLockOwner_def by (simp cong: option.case_cong)
qed

lemma priority_kernel: "frame (wc_kernel s) k \<Longrightarrow> GetPriority (s\<lparr>wc_kernel := k\<rparr>) = GetPriority s"
  by (simp add: GetPriority_def frame_def fun_eq_iff)

lemma same_waits_kernel: "frame (wc_kernel s) (f (wc_kernel s)) \<Longrightarrow> same_waits s (on_kernel f s)"
  using priority_kernel[of s "f (wc_kernel s)"] by (simp add: same_waits_def on_kernel_def)

lemma frame_kernel_waiters [frames]: "frame k (add_kernel_waiters ow n k)"
  unfolding add_kernel_waiters_def by (rule frame_on_thread) simp

lemma frame_kernel_waiters_update: "frame k ((SetSchedulerUpdateNeeded \<circ> add_kernel_waiters ow n) k)"
  using frame_trans[OF frame_kernel_waiters frame_flags(1)] by simp

text \<open>A new lock of \<open>ow\<close>, without waiters.\<close>

lemma new_lock_ok:
  assumes ok: "locks_ok E s" and c: "LockInfo_Create key ker s = Some (l, s1)" and s2: "s2 = AddHeldLock ow l s1"
  shows "locks_ok (insert l E) s2" "l \<in> set (held s2 ow)" "tree_of s2 l = []" "li_address_key (wc_lock s2 l) = key"
    "li_is_kernel_address_key (wc_lock s2 l) = ker" "owner_of s2 = owner_of s" "waiting s2 t = waiting s t" "GetPriority s2 = GetPriority s"
proof -
  obtain ls where free: "wc_free_locks s = l # ls" and
    s1: "s1 = (on_lock l (\<lambda>_. \<lparr>li_tree = [], li_address_key = key, li_owner = None, li_waiter_count = 0, li_is_kernel_address_key = ker\<rparr>) s)\<lparr>wc_free_locks := ls\<rparr>"
    using c by (auto simp: LockInfo_Create_def split: list.splits)
  have lk: "wc_lock s2 = (wc_lock s)(l := \<lparr>li_tree = [], li_address_key = key, li_owner = Some ow, li_waiter_count = 0, li_is_kernel_address_key = ker\<rparr>)"
    "wc_free_locks s2 = ls" "wc_thread s2 = (wc_thread s)(ow := (wc_thread s ow)\<lparr>w_held_locks := l # held s ow\<rparr>)"
    unfolding s2 s1 by (simp_all add: AddHeldLock_def)
  show pr: "GetPriority s2 = GetPriority s" unfolding s2 s1 by (simp add: AddHeldLock_def GetPriority_def fun_eq_iff)
  have w: "waiting s2 t = waiting s t" "w_address_key (wc_thread s2 t) = w_address_key (wc_thread s t)"
    "w_is_kernel_address_key (wc_thread s2 t) = w_is_kernel_address_key (wc_thread s t)" for t by (simp_all add: lk)
  show "waiting s2 t = waiting s t" by (rule w)
  have fresh: "l \<notin> set (held s a)" for a using locks_okD(6)[OF ok] free by simp
  then have nw: "waiting s t \<noteq> Some l" for t using locks_okD(5)[OF ok] by blast
  have h: "held s2 a = (if a = ow then l # held s a else held s a)" for a by (simp add: lk)
  have old: "lock_ok s2 a m" if "m \<in> set (held s a)" for a m
  proof -
    have "m \<noteq> l" using that fresh by blast
    then show ?thesis using locks_okD(1)[OF ok that] w pr by (simp add: lock_ok_def lk(1))
  qed
  have new: "lock_ok s2 ow l" using nw w by (simp add: lock_ok_def lk(1))
  show "locks_ok (insert l E) s2" unfolding locks_ok_def
  proof (intro conjI allI impI ballI)
    fix a m assume "m \<in> set (held s2 a)"
    then have "m \<in> set (held s a) \<or> a = ow \<and> m = l" by (auto simp: h split: if_splits)
    then show "lock_ok s2 a m" "m \<in> insert l E \<or> tree_of s2 m \<noteq> []" using old new locks_okD(2)[OF ok] by (auto simp: lk(1))
  next
    fix t m assume "waiting s2 t = Some m"
    then show "t < MaxThreads" "\<exists>a. m \<in> set (held s2 a)" using locks_okD(4,5)[OF ok] w(1)[of t] by (fastforce simp: h)+
  next
    show "distinct (held s2 a)" for a using locks_okD(3)[OF ok] fresh by (simp add: h)
    show "distinct (wc_free_locks s2)" using locks_okD(7)[OF ok] free lk(2) by simp
    have "locks_of s2 = locks_of s" by (auto simp: locks_of_def h lk(2) free split: if_splits)
    then show "MaxThreads \<le> card (locks_of s2)" using locks_okD(8)[OF ok] by simp
    show "m \<notin> set (held s2 a)" if "m \<in> set (wc_free_locks s2)" for m a
      using that locks_okD(6,7)[OF ok] free by (auto simp: h lk(2))
  qed
  show "l \<in> set (held s2 ow)" "tree_of s2 l = []" "li_address_key (wc_lock s2 l) = key" "li_is_kernel_address_key (wc_lock s2 l) = ker"
    by (simp_all add: h lk(1))
  show "owner_of s2 = owner_of s"
    using nw w by (auto simp: owner_of_def GetLockOwner_def lk(1) fun_eq_iff split: option.splits)
qed

text \<open>A waiter more.\<close>

lemma add_to_lock_ok:
  assumes ok: "locks_ok E s" and l: "l \<in> set (held s ow)" and t: "waiting s t = None" "t < MaxThreads"
    and key: "li_address_key (wc_lock s l) = w_address_key (wc_thread s t)" "li_is_kernel_address_key (wc_lock s l) = w_is_kernel_address_key (wc_thread s t)"
    and s1: "s1 = LockInfo_AddWaiter l t s"
  shows "locks_ok (E - {l}) s1" "owner_of s1 = (owner_of s)(t := Some ow)" "GetPriority s1 = GetPriority s"
proof -
  have w: "waiting s1 a = (if a = t then Some l else waiting s a)" "held s1 a = held s a" "wc_free_locks s1 = wc_free_locks s"
    "w_address_key (wc_thread s1 a) = w_address_key (wc_thread s a)" "w_is_kernel_address_key (wc_thread s1 a) = w_is_kernel_address_key (wc_thread s a)"
    and pr: "GetPriority s1 = GetPriority s"
    and lk: "wc_lock s1 = (wc_lock s)(l := (wc_lock s l)\<lparr>li_tree := insert_by (lock_less s) t (tree_of s l), li_waiter_count := li_waiter_count (wc_lock s l) + 1\<rparr>)"
    for a unfolding s1 LockInfo_AddWaiter_def by (simp_all add: fun_eq_iff)
  show "GetPriority s1 = GetPriority s" by (rule pr)
  note L = locks_okD(1)[OF ok l, unfolded lock_ok_def]
  have nt: "t \<notin> set (tree_of s l)" using L t(1) by simp
  have new: "lock_ok s1 ow l"
    unfolding lock_ok_def using L nt key w
    by (simp add: lk pr distinct_insert_by sorted_insert_by lock_less_def)
  have old: "lock_ok s1 a m" if m: "m \<in> set (held s a)" "m \<noteq> l" for a m
  proof -
    have "x \<in> set (tree_of s m) \<longleftrightarrow> waiting s1 x = Some m" for x
      using locks_okD(1)[OF ok m(1)] m(2) t(1) by (auto simp: lock_ok_def w(1))
    then show ?thesis using locks_okD(1)[OF ok m(1)] m(2) w(4,5) pr by (simp add: lock_ok_def lk)
  qed
  show "locks_ok (E - {l}) s1" unfolding locks_ok_def
  proof (intro conjI allI impI ballI)
    fix a m assume "m \<in> set (held s1 a)"
    then have m: "m \<in> set (held s a)" by (simp add: w(2))
    then show "lock_ok s1 a m" using old new one_owner[OF ok l] by (cases "m = l") auto
    show "m \<in> E - {l} \<or> tree_of s1 m \<noteq> []"
    proof (cases "m = l")
      case True
      have "set (tree_of s1 l) \<noteq> {}" by (simp add: lk)
      then show ?thesis using True by auto
    qed (use locks_okD(2)[OF ok m] in \<open>simp add: lk\<close>)
  next
    fix x m assume "waiting s1 x = Some m"
    then show "x < MaxThreads" "\<exists>a. m \<in> set (held s1 a)" using locks_okD(4,5)[OF ok] l t(2) by (auto simp: w(1,2) split: if_splits)
  qed (use locks_okD(3,6,7,8)[OF ok] in \<open>auto simp: w(2,3) locks_of_def\<close>)
  have "li_owner (wc_lock s1 m) = li_owner (wc_lock s m)" for m by (simp add: lk)
  then show "owner_of s1 = (owner_of s)(t := Some ow)" using L unfolding owner_of_def[abs_def] GetLockOwner_def
    by (auto simp: w(1) fun_eq_iff cong: option.case_cong)
qed

text \<open>A waiter less; the lock may have none left.\<close>

lemma remove_from_lock_ok:
  assumes ok: "locks_ok E s" and l: "l \<in> set (held s ow)" and t: "waiting s t = Some l"
    and r: "LockInfo_RemoveWaiter l t s = (emp, s1)"
  shows "locks_ok (insert l E) s1" "owner_of s1 = (owner_of s)(t := None)" "GetPriority s1 = GetPriority s"
    "emp \<longleftrightarrow> tree_of s1 l = []" "tree_of s1 l = remove1 t (tree_of s l)" "waiting s1 a = (if a = t then None else waiting s a)" "held s1 a = held s a"
    "li_waiter_count (wc_lock s1 l) = of_nat (length (tree_of s1 l))" "wc_free_locks s1 = wc_free_locks s"
    "li_is_kernel_address_key (wc_lock s1 l) = li_is_kernel_address_key (wc_lock s l)"
proof -
  have e: "emp \<longleftrightarrow> li_waiter_count (wc_lock s1 l) = 0" using r by (auto simp: LockInfo_RemoveWaiter_def Let_def)
  have s1: "s1 = on_wait t (\<lambda>w. w\<lparr>w_waiting_lock := None\<rparr>)
      (on_lock l (\<lambda>li. li\<lparr>li_tree := remove1 t (li_tree li), li_waiter_count := li_waiter_count li - 1\<rparr>) s)"
    using r by (simp add: LockInfo_RemoveWaiter_def Let_def)
  have w: "waiting s1 a = (if a = t then None else waiting s a)" "held s1 a = held s a" "wc_free_locks s1 = wc_free_locks s"
    "w_address_key (wc_thread s1 a) = w_address_key (wc_thread s a)" "w_is_kernel_address_key (wc_thread s1 a) = w_is_kernel_address_key (wc_thread s a)"
    and pr: "GetPriority s1 = GetPriority s"
    and lk: "wc_lock s1 = (wc_lock s)(l := (wc_lock s l)\<lparr>li_tree := remove1 t (tree_of s l), li_waiter_count := li_waiter_count (wc_lock s l) - 1\<rparr>)"
    for a unfolding s1 by (simp_all add: fun_eq_iff)
  show "waiting s1 a = (if a = t then None else waiting s a)" "held s1 a = held s a" "GetPriority s1 = GetPriority s" "tree_of s1 l = remove1 t (tree_of s l)"
    "wc_free_locks s1 = wc_free_locks s" "li_is_kernel_address_key (wc_lock s1 l) = li_is_kernel_address_key (wc_lock s l)"
    using w pr by (simp_all add: lk)
  note L = locks_okD(1)[OF ok l, unfolded lock_ok_def]
  have mem: "t \<in> set (tree_of s l)" using L t by simp
  then have len: "length (tree_of s l) = Suc (length (remove1 t (tree_of s l)))" by (simp add: length_remove1) (metis Suc_pred length_pos_if_in_set)
  show cnt: "li_waiter_count (wc_lock s1 l) = of_nat (length (tree_of s1 l))" using L len by (simp add: lk)
  have new: "lock_ok s1 ow l" unfolding lock_ok_def using L w cnt
    by (auto simp: lk pr sorted_remove1_map)
  have old: "lock_ok s1 a m" if m: "m \<in> set (held s a)" "m \<noteq> l" for a m
  proof -
    have "x \<in> set (tree_of s m) \<longleftrightarrow> waiting s1 x = Some m" for x
      using locks_okD(1)[OF ok m(1)] m(2) t by (auto simp: lock_ok_def w(1))
    then show ?thesis using locks_okD(1)[OF ok m(1)] m(2) w(4,5) pr by (simp add: lock_ok_def lk)
  qed
  show ok1: "locks_ok (insert l E) s1" unfolding locks_ok_def
  proof (intro conjI allI impI ballI)
    fix a m assume "m \<in> set (held s1 a)"
    then have m: "m \<in> set (held s a)" by (simp add: w(2))
    then show "lock_ok s1 a m" using old new one_owner[OF ok l] by (cases "m = l") auto
    show "m \<in> insert l E \<or> tree_of s1 m \<noteq> []" using locks_okD(2)[OF ok m] by (auto simp: lk)
  next
    fix x m assume "waiting s1 x = Some m"
    then show "x < MaxThreads" "\<exists>a. m \<in> set (held s1 a)" using locks_okD(4,5)[OF ok] by (auto simp: w(1,2) split: if_splits)
  qed (use locks_okD(3,6,7,8)[OF ok] in \<open>auto simp: w(2,3) locks_of_def\<close>)
  have "li_owner (wc_lock s1 m) = li_owner (wc_lock s m)" for m by (simp add: lk)
  then show "owner_of s1 = (owner_of s)(t := None)" unfolding owner_of_def[abs_def] GetLockOwner_def by (auto simp: w(1) fun_eq_iff cong: option.case_cong)
  have "l \<in> set (held s1 ow)" using l w(2) by simp
  from tree_length[OF ok1 this] have "length (tree_of s1 l) < 2 ^ 32" by (simp add: MaxThreads_def)
  then show "emp \<longleftrightarrow> tree_of s1 l = []" unfolding e cnt by (auto simp: word_of_nat_eq_0_iff dest: dvd_imp_le)
qed

text \<open>A lock without waiters goes back to the slab.\<close>

lemma free_lock_ok:
  assumes ok: "locks_ok E s" and l: "l \<in> set (held s ow)" "tree_of s l = []"
    and s1: "s1 = LockInfo_Free l (on_wait ow (\<lambda>w. w\<lparr>w_held_locks := remove1 l (w_held_locks w)\<rparr>) s)"
  shows "locks_ok (E - {l}) s1" "owner_of s1 = owner_of s" "GetPriority s1 = GetPriority s" "wc_free_locks s1 = l # wc_free_locks s"
proof -
  have w: "waiting s1 a = waiting s a" "held s1 a = (if a = ow then remove1 l (held s a) else held s a)"
    "w_address_key (wc_thread s1 a) = w_address_key (wc_thread s a)" "w_is_kernel_address_key (wc_thread s1 a) = w_is_kernel_address_key (wc_thread s a)"
    and lk: "wc_lock s1 = wc_lock s" and fr: "wc_free_locks s1 = l # wc_free_locks s" and pr: "GetPriority s1 = GetPriority s"
    for a unfolding s1 LockInfo_Free_def by (simp_all add: GetPriority_def fun_eq_iff)
  show "GetPriority s1 = GetPriority s" "wc_free_locks s1 = l # wc_free_locks s" by (fact pr fr)+
  show "owner_of s1 = owner_of s" unfolding owner_of_def[abs_def] GetLockOwner_def by (simp add: w lk cong: option.case_cong)
  have nw: "waiting s t \<noteq> Some l" for t using locks_okD(1)[OF ok l(1)] l(2) by (simp add: lock_ok_def)
  have h: "m \<in> set (held s1 a) \<longleftrightarrow> m \<in> set (held s a) \<and> m \<noteq> l" for a m
    using locks_okD(3)[OF ok] one_owner[OF ok l(1)] by (auto simp: w(2))
  have lo: "lock_ok s1 a m \<longleftrightarrow> lock_ok s a m" for a m by (simp add: lock_ok_def lk pr w)
  show "locks_ok (E - {l}) s1" unfolding locks_ok_def
  proof (intro conjI allI impI ballI)
    fix a m assume "m \<in> set (held s1 a)"
    then have m: "m \<in> set (held s a)" "m \<noteq> l" using h by auto
    then show "lock_ok s1 a m" "m \<in> E - {l} \<or> tree_of s1 m \<noteq> []" using lo locks_okD(1,2)[OF ok m(1)] by (auto simp: lk)
  next
    show "distinct (held s1 a)" for a using locks_okD(3)[OF ok] by (simp add: w(2))
    show "distinct (wc_free_locks s1)" using locks_okD(6,7)[OF ok] l(1) by (auto simp: fr)
    show "m \<notin> set (held s1 a)" if "m \<in> set (wc_free_locks s1)" for m a using that h locks_okD(6)[OF ok] by (auto simp: fr)
    have "locks_of s1 = locks_of s" using l(1) by (auto simp: locks_of_def h fr)
    then show "MaxThreads \<le> card (locks_of s1)" using locks_okD(8)[OF ok] by simp
  next
    fix t m assume "waiting s1 t = Some m"
    then have m: "waiting s t = Some m" by (simp add: w)
    then show "t < MaxThreads" using locks_okD(4)[OF ok] by blast
    have "m \<noteq> l" using nw m by auto
    then show "\<exists>a. m \<in> set (held s1 a)" using locks_okD(5)[OF ok m] h by blast
  qed
qed

text \<open>What adding and removing waiters leaves alone.\<close>

definition waits_frame :: "WaitCore \<Rightarrow> WaitCore \<Rightarrow> bool" where
  "waits_frame s s' \<longleftrightarrow> frame (wc_kernel s) (wc_kernel s') \<and> wc_tree s' = wc_tree s \<and>
     wc_timer_tasks s' = wc_timer_tasks s \<and> wc_memory s' = wc_memory s \<and>
     (\<forall>t. \<exists>hl wl. wc_thread s' t = (wc_thread s t)\<lparr>w_held_locks := hl, w_waiting_lock := wl\<rparr>)"

lemma waits_frame_refl: "waits_frame s s"
proof -
  have "\<exists>hl wl. w = w\<lparr>w_held_locks := hl, w_waiting_lock := wl\<rparr>" for w :: KThreadWait
    by (intro exI[of _ "w_held_locks w"] exI[of _ "w_waiting_lock w"]) simp
  then show ?thesis by (simp add: waits_frame_def frame_refl)
qed

lemma waits_frame_trans: "waits_frame a b \<Longrightarrow> waits_frame b c \<Longrightarrow> waits_frame a c"
proof -
  assume ab: "waits_frame a b" and bc: "waits_frame b c"
  have "\<exists>hl wl. wc_thread c t = (wc_thread a t)\<lparr>w_held_locks := hl, w_waiting_lock := wl\<rparr>" for t
  proof -
    obtain h1 w1 h2 w2 where "wc_thread b t = (wc_thread a t)\<lparr>w_held_locks := h1, w_waiting_lock := w1\<rparr>"
      "wc_thread c t = (wc_thread b t)\<lparr>w_held_locks := h2, w_waiting_lock := w2\<rparr>" using ab bc unfolding waits_frame_def by meson
    then show ?thesis by (intro exI[of _ h2] exI[of _ w2]) simp
  qed
  then show ?thesis using ab bc frame_trans[of "wc_kernel a" "wc_kernel b" "wc_kernel c"] by (simp add: waits_frame_def)
qed

lemma waits_frame_wait:
  "(\<And>w. \<exists>hl wl. f w = w\<lparr>w_held_locks := hl, w_waiting_lock := wl\<rparr>) \<Longrightarrow> waits_frame s (on_wait t f s)"
  using waits_frame_refl[of s] unfolding waits_frame_def by (auto simp: on_wait_def frame_refl)

lemma waits_frame_other:
  "waits_frame s (on_lock l f s)" "frame (wc_kernel s) (g (wc_kernel s)) \<Longrightarrow> waits_frame s (on_kernel g s)"
  "waits_frame s (s\<lparr>wc_free_locks := ls\<rparr>)"
  using waits_frame_refl[of s] by (auto simp: waits_frame_def frame_refl on_lock_def on_kernel_def)

lemma held_update: "\<exists>hl wl. w\<lparr>w_held_locks := x\<rparr> = w\<lparr>w_held_locks := hl, w_waiting_lock := wl\<rparr>"
  "\<exists>hl wl. w\<lparr>w_waiting_lock := y\<rparr> = w\<lparr>w_held_locks := hl, w_waiting_lock := wl\<rparr>" for w :: KThreadWait
  by (intro exI[of _ x] exI[of _ "w_waiting_lock w"], simp) (intro exI[of _ "w_held_locks w"] exI[of _ y], simp)

lemma waits_frame_steps:
  "waits_frame s (LockInfo_AddWaiter l t s)" "waits_frame s (snd (LockInfo_RemoveWaiter l t s))" "waits_frame s (LockInfo_Free l s)"
  "waits_frame s (AddHeldLock ow l s)" "LockInfo_Create key ker s = Some (l, s') \<Longrightarrow> waits_frame s s'"
  "waits_frame s (on_wait ow (\<lambda>w. w\<lparr>w_held_locks := g w\<rparr>) s)"
proof -
  note wl = waits_frame_wait[OF held_update(2)] and hl = waits_frame_wait[OF held_update(1)]
  show "waits_frame s (LockInfo_AddWaiter l t s)" unfolding LockInfo_AddWaiter_def
    by (rule waits_frame_trans[OF waits_frame_other(1) wl])
  show "waits_frame s (snd (LockInfo_RemoveWaiter l t s))" unfolding LockInfo_RemoveWaiter_def Let_def snd_conv
    by (rule waits_frame_trans[OF waits_frame_other(1) wl])
  show "waits_frame s (AddHeldLock ow l s)" unfolding AddHeldLock_def by (rule waits_frame_trans[OF waits_frame_other(1) hl])
  show "waits_frame s (LockInfo_Free l s)" unfolding LockInfo_Free_def by (rule waits_frame_other)
  show "waits_frame s (on_wait ow (\<lambda>w. w\<lparr>w_held_locks := g w\<rparr>) s)" by (rule hl)
  assume "LockInfo_Create key ker s = Some (l, s')"
  then show "waits_frame s s'"
    by (auto simp: LockInfo_Create_def intro: waits_frame_trans[OF waits_frame_other(1) waits_frame_other(3)] split: list.splits)
qed

section \<open>Adding and removing waiters\<close>

lemma kernel_waiters_step:
  "same_waits s (if b then on_kernel (SetSchedulerUpdateNeeded \<circ> add_kernel_waiters ow n) s else s)"
  "waits_frame s (if b then on_kernel (SetSchedulerUpdateNeeded \<circ> add_kernel_waiters ow n) s else s)"
  using same_waits_kernel[of s "SetSchedulerUpdateNeeded \<circ> add_kernel_waiters ow n"]
    waits_frame_other(2)[of s "SetSchedulerUpdateNeeded \<circ> add_kernel_waiters ow n"]
    frame_kernel_waiters_update[of "wc_kernel s" ow n] waits_frame_refl by (simp_all add: same_waits_def)

text \<open>There is a lock info for the key of the thread, or a free one.\<close>

definition can_add :: "WaitCore \<Rightarrow> nat \<Rightarrow> nat \<Rightarrow> bool" where
  "can_add s ow t \<longleftrightarrow> wc_free_locks s \<noteq> [] \<or>
     FindHeldLock ow (w_address_key (wc_thread s t)) (w_is_kernel_address_key (wc_thread s t)) s \<noteq> None"

text \<open>As each lock has a waiter of its own, a thread that does not wait yet finds a free lock info.\<close>

lemma free_lock_left:
  assumes ok: "locks_ok {} s" and t: "waiting s t = None" "t < MaxThreads"
  shows "wc_free_locks s \<noteq> []"
proof
  assume "wc_free_locks s = []"
  then have L: "locks_of s = (\<Union>ow. set (held s ow))" by (simp add: locks_of_def)
  have w: "waiting s (hd (tree_of s l)) = Some l" if h: "l \<in> locks_of s" for l
  proof -
    obtain ow where ow: "l \<in> set (held s ow)" using h L by blast
    have "hd (tree_of s l) \<in> set (tree_of s l)" using locks_okD(2)[OF ok ow] by simp
    then show ?thesis using locks_okD(1)[OF ok ow] by (simp add: lock_ok_def)
  qed
  have "inj_on (\<lambda>l. hd (tree_of s l)) (locks_of s)" by (rule inj_onI) (metis w option.inject)
  moreover have "(\<lambda>l. hd (tree_of s l)) ` locks_of s \<subseteq> {..<MaxThreads} - {t}" using w locks_okD(4)[OF ok] t(1) by fastforce
  ultimately have "card (locks_of s) \<le> card ({..<MaxThreads} - {t})" by (meson card_inj_on_le finite_Diff finite_lessThan)
  also have "\<dots> < MaxThreads" using t(2) by simp
  finally show False using locks_okD(8)[OF ok] by simp
qed

lemma FindHeldLock_Some:
  assumes "FindHeldLock ow key ker s = Some l"
  shows "l \<in> set (held s ow)" "li_address_key (wc_lock s l) = key" "li_is_kernel_address_key (wc_lock s l) = ker"
  using assms by (auto simp: FindHeldLock_def find_Some_iff in_set_conv_nth)

lemma FindHeldLock_None: "FindHeldLock ow key ker s = None \<Longrightarrow> l \<in> set (held s ow) \<Longrightarrow>
    \<not> (li_address_key (wc_lock s l) = key \<and> li_is_kernel_address_key (wc_lock s l) = ker)"
  by (auto simp: FindHeldLock_def find_None_iff)

lemma AddWaiterImpl_ok:
  assumes ok: "locks_ok {} s" and t: "waiting s t = None" "t < MaxThreads" and c: "can_add s ow t"
  shows "\<exists>s'. AddWaiterImpl ow t s = Some s' \<and> locks_ok {} s' \<and> owner_of s' = (owner_of s)(t := Some ow) \<and>
    GetPriority s' = GetPriority s \<and> waits_frame s s'"
proof -
  let ?key = "w_address_key (wc_thread s t)" and ?ker = "w_is_kernel_address_key (wc_thread s t)"
  define s1 where "s1 = (if ?ker then on_kernel (SetSchedulerUpdateNeeded \<circ> add_kernel_waiters ow 1) s else s)"
  have sw: "same_waits s s1" unfolding s1_def by (rule kernel_waiters_step)
  have f1: "waits_frame s s1" unfolding s1_def by (rule kernel_waiters_step)
  have th: "wc_thread s1 = wc_thread s" "wc_lock s1 = wc_lock s" "wc_free_locks s1 = wc_free_locks s" by (simp_all add: s1_def)
  have ok1: "locks_ok {} s1" and ow1: "owner_of s1 = owner_of s" and p1: "GetPriority s1 = GetPriority s"
    using same_waits_ok[OF sw] ok sw by (auto simp: same_waits_def)
  show ?thesis
  proof (cases "FindHeldLock ow ?key ?ker s1")
    case (Some l)
    note F = FindHeldLock_Some[OF Some]
    let ?s2 = "LockInfo_AddWaiter l t s1"
    have "locks_ok ({} - {l}) ?s2" "owner_of ?s2 = (owner_of s1)(t := Some ow)" "GetPriority ?s2 = GetPriority s1"
      using add_to_lock_ok[OF ok1 F(1) _ t(2) _ _ refl] F(2,3) t(1) th by simp_all
    note A = this
    have "AddWaiterImpl ow t s = Some ?s2" using Some by (simp add: AddWaiterImpl_def Let_def s1_def)
    then show ?thesis using A ow1 p1 waits_frame_trans[OF f1 waits_frame_steps(1)[of s1 l t]] by auto
  next
    case None
    then have "wc_free_locks s1 \<noteq> []" using c th by (simp add: can_add_def FindHeldLock_def)
    then obtain l s2 where cr: "LockInfo_Create ?key ?ker s1 = Some (l, s2)"
      by (cases "wc_free_locks s1") (auto simp: LockInfo_Create_def)
    define s3 where "s3 = AddHeldLock ow l s2"
    note N = new_lock_ok[OF ok1 cr s3_def]
    have f3: "waits_frame s s3" unfolding s3_def
      by (rule waits_frame_trans[OF f1 waits_frame_trans[OF waits_frame_steps(5)[OF cr] waits_frame_steps(4)]])
    obtain hl wl where "wc_thread s3 t = (wc_thread s t)\<lparr>w_held_locks := hl, w_waiting_lock := wl\<rparr>"
      using f3 unfolding waits_frame_def by meson
    then have k3: "w_address_key (wc_thread s3 t) = ?key" "w_is_kernel_address_key (wc_thread s3 t) = ?ker" by simp_all
    have w3: "waiting s3 t = None" using N(7) t(1) th by simp
    let ?s4 = "LockInfo_AddWaiter l t s3"
    have "locks_ok ({l} - {l}) ?s4" "owner_of ?s4 = (owner_of s3)(t := Some ow)" "GetPriority ?s4 = GetPriority s3"
      using add_to_lock_ok[OF N(1,2) w3 t(2) _ _ refl] N(4,5) k3 by simp_all
    moreover have "AddWaiterImpl ow t s = Some ?s4" using None cr by (simp add: AddWaiterImpl_def Let_def s1_def s3_def)
    ultimately show ?thesis using N(6,8) ow1 p1 waits_frame_trans[OF f3 waits_frame_steps(1)[of s3 l t]] by auto
  qed
qed

lemma RemoveWaiterImpl_ok:
  assumes ok: "locks_ok {} s" and t: "owner_of s t = Some ow"
  shows "\<exists>s'. RemoveWaiterImpl ow t s = Some s' \<and> locks_ok {} s' \<and> owner_of s' = (owner_of s)(t := None) \<and> waiting s' t = None \<and>
    GetPriority s' = GetPriority s \<and> waits_frame s s' \<and> t < MaxThreads \<and> can_add s' ow t"
proof -
  obtain l where l: "waiting s t = Some l" "l \<in> set (held s ow)" using owner_of_Some[OF ok t] .
  let ?key = "w_address_key (wc_thread s t)" and ?ker = "w_is_kernel_address_key (wc_thread s t)"
  define s1 where "s1 = (if ?ker then on_kernel (SetSchedulerUpdateNeeded \<circ> add_kernel_waiters ow (-1)) s else s)"
  have sw: "same_waits s s1" unfolding s1_def by (rule kernel_waiters_step)
  have f1: "waits_frame s s1" unfolding s1_def by (rule kernel_waiters_step)
  have th: "wc_thread s1 = wc_thread s" "wc_lock s1 = wc_lock s" "wc_free_locks s1 = wc_free_locks s" by (simp_all add: s1_def)
  have ok1: "locks_ok {} s1" and ow1: "owner_of s1 = owner_of s" and p1: "GetPriority s1 = GetPriority s"
    using same_waits_ok[OF sw] ok sw by (auto simp: same_waits_def)
  have key: "li_address_key (wc_lock s l) = ?key" "li_is_kernel_address_key (wc_lock s l) = ?ker"
    using locks_okD(1)[OF ok l(2)] l(1) by (auto simp: lock_ok_def)
  obtain e s2 where r: "LockInfo_RemoveWaiter l t s1 = (e, s2)" by fastforce
  have l1: "l \<in> set (held s1 ow)" "waiting s1 t = Some l" using l th by simp_all
  note R = remove_from_lock_ok[OF ok1 l1 r]
  have f2: "waits_frame s s2" using waits_frame_trans[OF f1 waits_frame_steps(2)[of s1 l t]] r by simp
  have lt: "t < MaxThreads" using locks_okD(4)[OF ok l(1)] .
  have same: "w_address_key (wc_thread x t) = ?key" "w_is_kernel_address_key (wc_thread x t) = ?ker" if "waits_frame s x" for x
  proof -
    obtain hl wl where "wc_thread x t = (wc_thread s t)\<lparr>w_held_locks := hl, w_waiting_lock := wl\<rparr>"
      using \<open>waits_frame s x\<close> unfolding waits_frame_def by meson
    then show "w_address_key (wc_thread x t) = ?key" "w_is_kernel_address_key (wc_thread x t) = ?ker" by simp_all
  qed
  show ?thesis
  proof (cases e)
    case False
    then have ok2: "locks_ok {} s2" using R(1,4) unfolding locks_ok_def by blast
    have "can_add s2 ow t"
    proof -
      have "li_address_key (wc_lock s2 l) = ?key" using r key th by (auto simp: LockInfo_RemoveWaiter_def Let_def)
      then have "FindHeldLock ow ?key ?ker s2 \<noteq> None" using FindHeldLock_None[of ow ?key ?ker s2 l] R(7,10) l1 key th by auto
      then show ?thesis using same[OF f2] by (simp add: can_add_def)
    qed
    moreover have "RemoveWaiterImpl ow t s = Some s2" using False r l1 by (simp add: RemoveWaiterImpl_def Let_def s1_def)
    ultimately show ?thesis using ok2 R(2,3,6) ow1 p1 f2 lt by auto
  next
    case True
    then have e: "tree_of s2 l = []" using R(4) by simp
    define s3 where "s3 = LockInfo_Free l (on_wait ow (\<lambda>w. w\<lparr>w_held_locks := remove1 l (w_held_locks w)\<rparr>) s2)"
    have l2: "l \<in> set (held s2 ow)" using R(7) l1 by simp
    note Fr = free_lock_ok[OF R(1) l2 e s3_def]
    have f3: "waits_frame s s3" unfolding s3_def by (rule waits_frame_trans[OF f2 waits_frame_trans[OF waits_frame_steps(6) waits_frame_steps(3)]])
    have "waiting s3 t = None" using R(6) by (simp add: s3_def LockInfo_Free_def)
    moreover have "RemoveWaiterImpl ow t s = Some s3" using True r l1 by (simp add: RemoveWaiterImpl_def Let_def s1_def s3_def)
    moreover have "locks_ok {} s3" using Fr(1) by simp
    ultimately show ?thesis using Fr(2-4) R(2,3) ow1 p1 f3 lt by (auto simp: can_add_def)
  qed
qed

end
