(* ===== verification/Priority_Inheritance.thy ===== *)
theory Priority_Inheritance
  imports Lock_Structure
begin

text \<open>
  Priority inheritance is exact (\<open>RestorePriority\<close> and its callers in \<open>K_Thread_Locks\<close>): as long as no
  threads wait for one another in a circle, every thread has the best of its base priority and the
  priorities of the threads that wait for it, and this holds again after every operation on waiters.
\<close>

section \<open>The invariant\<close>

definition cv_key :: "WaitCore \<Rightarrow> nat \<Rightarrow> nat \<times> int" where
  "cv_key s t = (w_condvar_key (wc_thread s t), GetPriority s t)"

lemma condvar_less_key: "condvar_less s x y \<longleftrightarrow> cv_key s x < cv_key s y"
  by (auto simp: condvar_less_def cv_key_def less_prod_def)

definition trees_ok :: "WaitCore \<Rightarrow> bool" where
  "trees_ok s \<longleftrightarrow> (\<forall>T. distinct (wc_tree s T) \<and> sorted (map (cv_key s) (wc_tree s T)) \<and>
       (\<forall>t. t \<in> set (wc_tree s T) \<longleftrightarrow> w_condvar_tree (wc_thread s t) = Some T)) \<and>
     (\<forall>t. w_condvar_tree (wc_thread s t) \<noteq> None \<longrightarrow> waiting s t = None)"

definition base :: "WaitCore \<Rightarrow> nat \<Rightarrow> int" where
  "base s t = w_base_priority (wc_thread s t)"

definition waits_ok :: "WaitCore \<Rightarrow> bool" where
  "waits_ok s \<longleftrightarrow> locks_ok {} s \<and> trees_ok s \<and> sched_inv (wc_kernel s) \<and>
     (\<forall>t. valid_thread (k_info (wc_kernel s) t) \<and> IsValidPriority (base s t))"

definition waiters :: "WaitCore \<Rightarrow> nat \<Rightarrow> nat set" where
  "waiters s t = {w. owner_of s w = Some t}"

text \<open>The priority a thread ought to have.\<close>

definition fair :: "WaitCore \<Rightarrow> nat \<Rightarrow> int" where
  "fair s t = Min (insert (base s t) (GetPriority s ` waiters s t))"

text \<open>The chain of lock owners from a thread on ends.\<close>

inductive ends :: "(nat \<Rightarrow> nat option) \<Rightarrow> nat \<Rightarrow> bool" for f where
  last: "f t = None \<Longrightarrow> ends f t"
| wait: "f t = Some ow \<Longrightarrow> ends f ow \<Longrightarrow> ends f t"

inductive_cases endsE: "ends f t"

definition inheritance_ok :: "WaitCore \<Rightarrow> bool" where
  "inheritance_ok s \<longleftrightarrow> waits_ok s \<and> (\<forall>t. ends (owner_of s) t) \<and> (\<forall>t. GetPriority s t = fair s t)"

lemma ends_not_self: "ends f t \<Longrightarrow> f t \<noteq> Some t"
  by (induction rule: ends.induct) auto

lemma waiters_finite: "locks_ok E s \<Longrightarrow> finite (waiters s t)"
proof -
  assume ok: "locks_ok E s"
  have "waiters s t \<subseteq> {..<MaxThreads}" using locks_okD(4)[OF ok] owner_of_Some[OF ok] unfolding waiters_def by blast
  then show ?thesis by (rule finite_subset) simp
qed

section \<open>The best priority\<close>

lemma waiters_trees: "locks_ok E s \<Longrightarrow> waiters s t = (\<Union>l\<in>set (held s t). set (tree_of s l))"
proof -
  assume ok: "locks_ok E s"
  have w: "w \<in> waiters s t \<longleftrightarrow> (\<exists>l\<in>set (held s t). waiting s w = Some l)" for w
  proof
    assume "w \<in> waiters s t"
    then have "owner_of s w = Some t" by (simp add: waiters_def)
    then show "\<exists>l\<in>set (held s t). waiting s w = Some l" by (rule owner_of_Some[OF ok]) blast
  next
    assume "\<exists>l\<in>set (held s t). waiting s w = Some l"
    then show "w \<in> waiters s t" using owner_of_waiting[OF ok] by (auto simp: waiters_def)
  qed
  have "w \<in> set (tree_of s l) \<longleftrightarrow> waiting s w = Some l" if "l \<in> set (held s t)" for l w
    using locks_okD(1)[OF ok that] by (simp add: lock_ok_def)
  then show ?thesis by (auto simp: w)
qed

lemma best_priority_list:
  assumes "\<forall>l\<in>set ls. tree_of s l \<noteq> [] \<and> sorted (map (GetPriority s) (tree_of s l))"
  shows "best_priority s p ls = Some (Min (insert p (GetPriority s ` (\<Union>l\<in>set ls. set (tree_of s l)))))"
  using assms
proof (induction ls arbitrary: p)
  case (Cons l ls)
  obtain a as where a: "tree_of s l = a # as" using Cons.prems by (cases "tree_of s l") auto
  have m: "Min (insert (min p (GetPriority s a)) A) = Min (insert p (GetPriority s ` set (tree_of s l) \<union> A))" if "finite A" for A
  proof -
    have le: "\<forall>x\<in>set as. GetPriority s a \<le> GetPriority s x" using Cons.prems a by simp
    have fin: "finite (insert p (GetPriority s ` set (tree_of s l) \<union> A))" using that by simp
    show ?thesis
    proof (rule Min_eqI[OF fin, symmetric])
      fix y assume y: "y \<in> insert p (GetPriority s ` set (tree_of s l) \<union> A)"
      have "Min (insert (min p (GetPriority s a)) A) \<le> min p (GetPriority s a)" using that by (intro Min_le) auto
      then show "Min (insert (min p (GetPriority s a)) A) \<le> y" using y le a that Min_le[of "insert (min p (GetPriority s a)) A" y] by auto
    next
      have "Min (insert (min p (GetPriority s a)) A) \<in> insert (min p (GetPriority s a)) A" using that by (intro Min_in) auto
      then show "Min (insert (min p (GetPriority s a)) A) \<in> insert p (GetPriority s ` set (tree_of s l) \<union> A)"
        using a by (auto simp: min_def split: if_splits)
    qed
  qed
  have "best_priority s p (l # ls) = best_priority s (min p (GetPriority s a)) ls" using a by (simp add: GetHighestPriorityWaiter_def)
  then show ?case using Cons m by (simp add: image_Un)
qed simp

lemma best_priority_ok: "locks_ok {} s \<Longrightarrow> best_priority s (base s t) (held s t) = Some (fair s t)"
proof -
  assume ok: "locks_ok {} s"
  have "\<forall>l\<in>set (held s t). tree_of s l \<noteq> [] \<and> sorted (map (GetPriority s) (tree_of s l))"
    using locks_okD(1,2)[OF ok] unfolding lock_ok_def by blast
  from best_priority_list[OF this] show ?thesis by (simp add: fair_def waiters_trees[OF ok])
qed

section \<open>Changing one priority\<close>

lemma SetPriority_simps [simp]:
  "wc_thread (SetPriority t p s) = wc_thread s" "wc_lock (SetPriority t p s) = wc_lock s" "wc_tree (SetPriority t p s) = wc_tree s"
  "wc_free_locks (SetPriority t p s) = wc_free_locks s" "GetPriority (SetPriority t p s) = (GetPriority s)(t := p)"
  by (simp_all add: SetPriority_def GetPriority_def on_kernel_def fun_eq_iff)

lemma locks_ok_SetPriority:
  assumes ok: "locks_ok E s" and t: "waiting s t = None"
  shows "locks_ok E (SetPriority t p s)" "owner_of (SetPriority t p s) = owner_of s"
proof -
  have "lock_ok (SetPriority t p s) a l \<longleftrightarrow> lock_ok s a l" if "l \<in> set (held s a)" for a l
  proof -
    have "t \<notin> set (tree_of s l)" using locks_okD(1)[OF ok that] t by (simp add: lock_ok_def)
    then have "map ((GetPriority s)(t := p)) (tree_of s l) = map (GetPriority s) (tree_of s l)" by (intro map_cong) auto
    then show ?thesis unfolding lock_ok_def SetPriority_simps by (simp only:)
  qed
  then show "locks_ok E (SetPriority t p s)" using ok unfolding locks_ok_def locks_of_def by simp
  show "owner_of (SetPriority t p s) = owner_of s" by (simp add: owner_of_def[abs_def] GetLockOwner_def cong: option.case_cong)
qed

lemma tree_ops_simps [simp]:
  "wc_thread (wait_tree_erase T t s) = wc_thread s" "wc_thread (wait_tree_add T t s) = wc_thread s"
  "wc_lock (wait_tree_erase T t s) = wc_lock s" "wc_lock (wait_tree_add T t s) = wc_lock s"
  "wc_free_locks (wait_tree_erase T t s) = wc_free_locks s" "wc_free_locks (wait_tree_add T t s) = wc_free_locks s"
  "wc_kernel (wait_tree_erase T t s) = wc_kernel s" "wc_kernel (wait_tree_add T t s) = wc_kernel s"
  "GetPriority (wait_tree_erase T t s) = GetPriority s" "GetPriority (wait_tree_add T t s) = GetPriority s"
  by (simp_all add: wait_tree_erase_def wait_tree_add_def GetPriority_def fun_eq_iff)

lemma same_waits_tree: "same_waits s (wait_tree_erase T t s)" "same_waits s (wait_tree_add T t s)"
  by (simp_all add: same_waits_def)

text \<open>The priority of a thread that waits for no lock, with the trees kept in order.\<close>

definition move_priority :: "nat \<Rightarrow> int \<Rightarrow> WaitCore \<Rightarrow> WaitCore" where
  "move_priority t p s =
     (case w_condvar_tree (wc_thread s t) of
        None \<Rightarrow> SetPriority t p s
      | Some T \<Rightarrow> wait_tree_add T t (SetPriority t p (wait_tree_erase T t s)))"

lemma cv_key_SetPriority: "x \<noteq> t \<Longrightarrow> cv_key (SetPriority t p s) x = cv_key s x"
  by (simp add: cv_key_def)

lemma move_priority_ok:
  assumes lk: "locks_ok {} s" and tr: "trees_ok s" and t: "waiting s t = None" and s1: "s1 = move_priority t p s"
  shows "locks_ok {} s1" "trees_ok s1" "owner_of s1 = owner_of s" "GetPriority s1 = (GetPriority s)(t := p)" "wc_thread s1 = wc_thread s"
    "wc_lock s1 = wc_lock s" "wc_free_locks s1 = wc_free_locks s" "wc_timer_tasks s1 = wc_timer_tasks s" "wc_memory s1 = wc_memory s"
    "wc_kernel s1 = (wc_kernel s)\<lparr>k_info := (k_info (wc_kernel s))(t := (k_info (wc_kernel s) t)\<lparr>t_priority := p\<rparr>)\<rparr>"
    "T \<noteq> T' \<Longrightarrow> w_condvar_tree (wc_thread s t) = Some T' \<Longrightarrow> wc_tree s1 T = wc_tree s T"
proof -
  note defs = move_priority_def SetPriority_def on_kernel_def wait_tree_add_def wait_tree_erase_def
  show th: "wc_thread s1 = wc_thread s" and lks: "wc_lock s1 = wc_lock s" "wc_free_locks s1 = wc_free_locks s"
    "wc_timer_tasks s1 = wc_timer_tasks s" "wc_memory s1 = wc_memory s"
    "wc_kernel s1 = (wc_kernel s)\<lparr>k_info := (k_info (wc_kernel s))(t := (k_info (wc_kernel s) t)\<lparr>t_priority := p\<rparr>)\<rparr>"
    unfolding s1 by (auto simp: defs split: option.splits)
  show pr: "GetPriority s1 = (GetPriority s)(t := p)" unfolding s1 by (auto simp: move_priority_def split: option.splits)
  show "T \<noteq> T' \<Longrightarrow> w_condvar_tree (wc_thread s t) = Some T' \<Longrightarrow> wc_tree s1 T = wc_tree s T" unfolding s1 by (simp add: defs)
  have sw: "same_waits (SetPriority t p s) s1" using th lks pr unfolding same_waits_def by simp
  show "locks_ok {} s1" "owner_of s1 = owner_of s" using same_waits_ok[OF sw] locks_ok_SetPriority[OF lk t] by simp_all
  have T: "distinct (wc_tree s T)" "sorted (map (cv_key s) (wc_tree s T))" "x \<in> set (wc_tree s T) \<longleftrightarrow> w_condvar_tree (wc_thread s x) = Some T"
    for T x using tr unfolding trees_ok_def by blast+
  have key: "cv_key s1 x = cv_key s x" if "x \<noteq> t" for x using that th pr by (simp add: cv_key_def)
  have away: "sorted (map (cv_key s1) xs)" if "t \<notin> set xs" "sorted (map (cv_key s) xs)" for xs
  proof -
    have "cv_key s1 x = cv_key s x" if "x \<in> set xs" for x using key[of x] that \<open>t \<notin> set xs\<close> by blast
    then have "map (cv_key s1) xs = map (cv_key s) xs" by simp
    then show ?thesis using that(2) by (simp only:)
  qed
  have "distinct (wc_tree s1 U) \<and> sorted (map (cv_key s1) (wc_tree s1 U)) \<and> set (wc_tree s1 U) = set (wc_tree s U)" for U
  proof (cases "w_condvar_tree (wc_thread s t) = Some U")
    case True
    let ?s' = "SetPriority t p (wait_tree_erase U t s)"
    let ?xs = "remove1 t (wc_tree s U)"
    have tr1: "wc_tree s1 U = insert_by (condvar_less ?s') t ?xs" unfolding s1 using True by (simp add: move_priority_def wait_tree_add_def wait_tree_erase_def)
    have nt: "t \<notin> set ?xs" using T(1)[of U] by simp
    have ck: "cv_key ?s' x = cv_key s1 x" for x using th pr by (simp add: cv_key_def)
    have "sorted (map (cv_key s1) ?xs)" by (rule away[OF nt sorted_remove1_map[OF T(2)]])
    then have "sorted (map (cv_key s1) (wc_tree s1 U))" unfolding tr1 by (rule sorted_insert_by) (simp add: condvar_less_key ck)
    moreover have "distinct (wc_tree s1 U)" unfolding tr1 by (rule distinct_insert_by) (use T(1) nt in auto)
    moreover have "set (wc_tree s1 U) = set (wc_tree s U)" unfolding tr1 using T(1)[of U] T(3)[of t U] True by auto
    ultimately show ?thesis by blast
  next
    case False
    then have "t \<notin> set (wc_tree s U)" using T(3) by blast
    moreover have "wc_tree s1 U = wc_tree s U" unfolding s1 using False by (auto simp: defs split: option.splits)
    ultimately show ?thesis using T away by simp
  qed
  then show "trees_ok s1" using tr th unfolding trees_ok_def by simp
qed

section \<open>One round\<close>

text \<open>What operations on waiters keep: run states, timers, memory and all of a thread but its place in the locks.\<close>

definition kept :: "WaitCore \<Rightarrow> WaitCore \<Rightarrow> bool" where
  "kept s s' \<longleftrightarrow> settled (wc_kernel s) (wc_kernel s') \<and> (\<forall>t. th_state (k_thread (wc_kernel s') t) = th_state (k_thread (wc_kernel s) t)) \<and> wc_timer_tasks s' = wc_timer_tasks s \<and> wc_memory s' = wc_memory s \<and>
     (\<forall>t. \<exists>hl wl. wc_thread s' t = (wc_thread s t)\<lparr>w_held_locks := hl, w_waiting_lock := wl\<rparr>)"

definition restored :: "WaitCore \<Rightarrow> WaitCore \<Rightarrow> bool" where
  "restored s s' \<longleftrightarrow> kept s s' \<and> owner_of s' = owner_of s"

lemma kept_trans: "kept a b \<Longrightarrow> kept b c \<Longrightarrow> kept a c"
proof -
  assume ab: "kept a b" and bc: "kept b c"
  have "\<exists>hl wl. wc_thread c t = (wc_thread a t)\<lparr>w_held_locks := hl, w_waiting_lock := wl\<rparr>" for t
  proof -
    obtain h1 w1 h2 w2 where "wc_thread b t = (wc_thread a t)\<lparr>w_held_locks := h1, w_waiting_lock := w1\<rparr>"
      "wc_thread c t = (wc_thread b t)\<lparr>w_held_locks := h2, w_waiting_lock := w2\<rparr>" using ab bc unfolding kept_def by meson
    then show ?thesis by (intro exI[of _ h2] exI[of _ w2]) simp
  qed
  then show ?thesis using ab bc settled_trans[of "wc_kernel a" "wc_kernel b" "wc_kernel c"] by (simp add: kept_def)
qed

lemma restored_trans: "restored a b \<Longrightarrow> restored b c \<Longrightarrow> restored a c"
  using kept_trans[of a b c] by (simp add: restored_def)

lemma kept_frame: "sched_inv (wc_kernel s) \<Longrightarrow> waits_frame s s' \<Longrightarrow> kept s s'"
  using settled_frame[of "wc_kernel s" "wc_kernel s'"] by (simp add: kept_def waits_frame_def frame_def)

lemma keptE: "kept s s' \<Longrightarrow> \<exists>hl wl. wc_thread s' t = (wc_thread s t)\<lparr>w_held_locks := hl, w_waiting_lock := wl\<rparr>"
  by (simp add: kept_def)

lemma restored_refl: "sched_inv (wc_kernel s) \<Longrightarrow> restored s s"
  using kept_frame[OF _ waits_frame_refl] by (simp add: restored_def)

lemma restored_base: "restored s s' \<Longrightarrow> base s' = base s"
proof
  fix t assume "restored s s'"
  then obtain hl wl where "wc_thread s' t = (wc_thread s t)\<lparr>w_held_locks := hl, w_waiting_lock := wl\<rparr>" unfolding restored_def kept_def by meson
  then show "base s' t = base s t" by (simp add: base_def)
qed

lemma frame_condvar: "waits_frame s s' \<Longrightarrow> w_condvar_tree (wc_thread s' t) = w_condvar_tree (wc_thread s t)"
  "waits_frame s s' \<Longrightarrow> w_condvar_key (wc_thread s' t) = w_condvar_key (wc_thread s t)"
proof -
  assume "waits_frame s s'"
  then obtain hl wl where "wc_thread s' t = (wc_thread s t)\<lparr>w_held_locks := hl, w_waiting_lock := wl\<rparr>" unfolding waits_frame_def by meson
  then show "w_condvar_tree (wc_thread s' t) = w_condvar_tree (wc_thread s t)" "w_condvar_key (wc_thread s' t) = w_condvar_key (wc_thread s t)" by simp_all
qed

lemma frame_priority: "waits_frame s s' \<Longrightarrow> GetPriority s' = GetPriority s"
  by (simp add: waits_frame_def frame_def GetPriority_def fun_eq_iff)

lemma trees_ok_frame:
  assumes "trees_ok s" "waits_frame s s'" "\<And>t. w_condvar_tree (wc_thread s t) \<noteq> None \<Longrightarrow> waiting s' t = None"
  shows "trees_ok s'"
proof -
  have "cv_key s' = cv_key s" using frame_condvar[OF assms(2)] frame_priority[OF assms(2)] by (simp add: cv_key_def fun_eq_iff)
  moreover have "wc_tree s' = wc_tree s" using assms(2) by (simp add: waits_frame_def)
  ultimately show ?thesis using assms(1,3) frame_condvar[OF assms(2)] unfolding trees_ok_def by simp
qed

lemma owner_of_None_iff: "locks_ok E s \<Longrightarrow> owner_of s t = None \<longleftrightarrow> waiting s t = None"
  using owner_of_None[of s t] locks_okD(5)[of E s t] owner_of_waiting[of E s t] by (cases "waiting s t") auto

text \<open>The run queues follow the new priority.\<close>

lemma priority_hook_ok:
  assumes i: "sched_inv k" and v: "valid_thread ((k_info k t)\<lparr>t_priority := p\<rparr>)"
    and fr: "frame (k\<lparr>k_info := (k_info k)(t := (k_info k t)\<lparr>t_priority := p\<rparr>)\<rparr>) k5"
  shows "\<exists>k6. OnThreadPriorityChanged t (t_priority (k_info k t)) k5 = Some k6 \<and> settled k k6 \<and> k_info k6 = k_info k5 \<and> k_thread k6 = k_thread k5"
proof -
  have th: "k_thread k6 = k_thread k5" if "OnThreadPriorityChanged t x k5 = Some k6" for x k6
    using that by (auto simp: OnThreadPriorityChanged_def counted_same_thread SetSchedulerUpdateNeeded_def split: if_splits)
  define k0 where "k0 = k5\<lparr>k_info := k_info k\<rparr>"
  have f0: "frame k k0" using fr by (simp add: frame_def k0_def)
  have i5: "k_info k5 = (k_info k)(t := (k_info k t)\<lparr>t_priority := p\<rparr>)" using fr by (simp add: frame_def)
  have "change_priority t p k0 = OnThreadPriorityChanged t (t_priority (k_info k t)) k5"
    unfolding change_priority_def Let_def k0_def by (simp flip: i5)
  moreover have i0: "k_info k0 = k_info k" by (simp add: k0_def)
  moreover have "sched_inv k0" using i frame_inv[OF f0] by simp
  ultimately obtain k6 where k6: "OnThreadPriorityChanged t (t_priority (k_info k t)) k5 = Some k6" "settled k0 k6"
    "k_info k6 = (k_info k)(t := (k_info k t)\<lparr>t_priority := p\<rparr>)" using change_priority_ok[of k0 p t] v by auto
  then show ?thesis using settled_trans[OF settled_frame[OF i f0] k6(2)] i5 th by simp
qed

text \<open>The trees keep the order of all threads but those in \<open>X\<close>.\<close>

definition steady :: "nat set \<Rightarrow> WaitCore \<Rightarrow> WaitCore \<Rightarrow> bool" where
  "steady X s s' \<longleftrightarrow> (\<forall>T P. (\<forall>y\<in>X. \<not> P y) \<longrightarrow> filter P (wc_tree s' T) = filter P (wc_tree s T))"

lemma steady_same: "wc_tree s' = wc_tree s \<Longrightarrow> steady X s s'"
  by (simp add: steady_def)

lemma steady_trans: "steady X a b \<Longrightarrow> steady Y b c \<Longrightarrow> X \<union> Y \<subseteq> Z \<Longrightarrow> steady Z a c"
  unfolding steady_def by (metis UnCI subsetD)

lemma filter_insert_by: "\<not> P y \<Longrightarrow> filter P (insert_by lt y xs) = filter P xs"
  by (induction xs) auto

lemma steady_move: "steady {t} s (move_priority t p s)"
  unfolding steady_def move_priority_def
  by (auto simp: wait_tree_add_def wait_tree_erase_def SetPriority_def on_kernel_def filter_insert_by filter_remove1 remove1_idem split: option.splits)

text \<open>What a thread waits for, taken out and put back around a change of its priority.\<close>

definition requeue :: "nat \<Rightarrow> int \<Rightarrow> WaitCore \<Rightarrow> WaitCore option" where
  "requeue t p s =
     do {
       s1 \<leftarrow> (case owner_of s t of None \<Rightarrow> Some s | Some ow \<Rightarrow> RemoveWaiterImpl ow t s);
       (case owner_of s t of None \<Rightarrow> Some (move_priority t p s1) | Some ow \<Rightarrow> AddWaiterImpl ow t (move_priority t p s1))
     }"

lemma restore_one_requeue:
  assumes "best_priority s (base s t) (held s t) = Some p" "p \<noteq> GetPriority s t" "requeue t p s = Some s5"
    and "\<And>ow s1. owner_of s t = Some ow \<Longrightarrow> RemoveWaiterImpl ow t s = Some s1 \<Longrightarrow> GetPriority s1 t = GetPriority s t"
    and "try_kernel (OnThreadPriorityChanged t (GetPriority s t)) s5 = Some s6"
  shows "restore_one t s = Some (owner_of s t, s6)"
proof -
  obtain s1 where s1: "(case owner_of s t of None \<Rightarrow> Some s | Some ow \<Rightarrow> RemoveWaiterImpl ow t s) = Some s1"
    "(case owner_of s t of None \<Rightarrow> Some (move_priority t p s1) | Some ow \<Rightarrow> AddWaiterImpl ow t (move_priority t p s1)) = Some s5"
    using assms(3) by (auto simp: requeue_def bind_eq_Some_conv)
  have p1: "GetPriority s1 t = GetPriority s t" using s1(1) assms(4) by (auto split: option.splits)
  show ?thesis using assms(1,2,5) s1 p1
    by (cases "owner_of s t"; cases "w_condvar_tree (wc_thread s1 t)")
      (simp_all add: restore_one_def base_def owner_of_def move_priority_def)
qed

lemma requeue_ok:
  assumes lk: "locks_ok {} s" and tr: "trees_ok s"
  shows "\<exists>s5. requeue t p s = Some s5 \<and> locks_ok {} s5 \<and> trees_ok s5 \<and> owner_of s5 = owner_of s \<and>
    frame ((wc_kernel s)\<lparr>k_info := (k_info (wc_kernel s))(t := (k_info (wc_kernel s) t)\<lparr>t_priority := p\<rparr>)\<rparr>) (wc_kernel s5) \<and>
    wc_timer_tasks s5 = wc_timer_tasks s \<and> wc_memory s5 = wc_memory s \<and> steady {t} s s5 \<and>
    (\<forall>x. \<exists>hl wl. wc_thread s5 x = (wc_thread s x)\<lparr>w_held_locks := hl, w_waiting_lock := wl\<rparr>)"
proof (cases "owner_of s t")
  case None
  then have w: "waiting s t = None" using owner_of_None_iff[OF lk] by simp
  note M = move_priority_ok[OF lk tr w refl, where p = p]
  have "requeue t p s = Some (move_priority t p s)" using None by (simp add: requeue_def)
  then show ?thesis using M waits_frame_refl[of s] frame_refl steady_move by (simp add: waits_frame_def)
next
  case (Some ow)
  obtain s1 where s1: "RemoveWaiterImpl ow t s = Some s1" "locks_ok {} s1" "owner_of s1 = (owner_of s)(t := None)" "waiting s1 t = None"
    "waits_frame s s1" "t < MaxThreads" "can_add s1 ow t" using RemoveWaiterImpl_ok[OF lk Some] by blast
  have nocv: "w_condvar_tree (wc_thread s t) = None" using tr Some owner_of_None_iff[OF lk, of t] unfolding trees_ok_def by auto
  have "waiting s1 x = None" if h: "w_condvar_tree (wc_thread s x) \<noteq> None" for x
  proof -
    have "owner_of s x = None" using h tr owner_of_None_iff[OF lk] unfolding trees_ok_def by blast
    then show ?thesis using s1(3) owner_of_None_iff[OF s1(2), of x] by (simp split: if_splits)
  qed
  from trees_ok_frame[OF tr s1(5) this] have tr1: "trees_ok s1" .
  define s4 where "s4 = move_priority t p s1"
  note M = move_priority_ok[OF s1(2) tr1 s1(4) s4_def]
  have w4: "waiting s4 t = None" using M(5) s1(4) by simp
  have "can_add s4 ow t" using s1(7) M(5,6,7) by (simp add: can_add_def FindHeldLock_def)
  then obtain s5 where s5: "AddWaiterImpl ow t s4 = Some s5" "locks_ok {} s5" "owner_of s5 = (owner_of s4)(t := Some ow)" "waits_frame s4 s5"
    using AddWaiterImpl_ok[OF M(1) w4 s1(6)] by blast
  have o5: "owner_of s5 = owner_of s" using s5(3) M(3) s1(3) Some by auto
  have "waiting s5 x = None" if h: "w_condvar_tree (wc_thread s4 x) \<noteq> None" for x
  proof -
    have "w_condvar_tree (wc_thread s x) \<noteq> None" using h M(5) frame_condvar(1)[OF s1(5)] by simp
    then have "owner_of s x = None" using tr owner_of_None_iff[OF lk] unfolding trees_ok_def by blast
    then show ?thesis using o5 owner_of_None_iff[OF s5(2), of x] by simp
  qed
  from trees_ok_frame[OF M(2) s5(4) this] have tr5: "trees_ok s5" .
  let ?k = "wc_kernel s"
  have f1: "frame ?k (wc_kernel s1)" and f5: "frame (wc_kernel s4) (wc_kernel s5)" using s1(5) s5(4) by (simp_all add: waits_frame_def)
  have "frame (?k\<lparr>k_info := (k_info ?k)(t := (k_info ?k t)\<lparr>t_priority := p\<rparr>)\<rparr>) (wc_kernel s4)"
    using f1 M(10) by (simp add: frame_def)
  from frame_trans[OF this f5] have fk: "frame (?k\<lparr>k_info := (k_info ?k)(t := (k_info ?k t)\<lparr>t_priority := p\<rparr>)\<rparr>) (wc_kernel s5)" .
  have th: "\<exists>hl wl. wc_thread s5 x = (wc_thread s x)\<lparr>w_held_locks := hl, w_waiting_lock := wl\<rparr>" for x
  proof -
    obtain h1 w1 h2 w2 where "wc_thread s1 x = (wc_thread s x)\<lparr>w_held_locks := h1, w_waiting_lock := w1\<rparr>"
      "wc_thread s5 x = (wc_thread s4 x)\<lparr>w_held_locks := h2, w_waiting_lock := w2\<rparr>" using s1(5) s5(4) unfolding waits_frame_def by meson
    then show ?thesis using M(5) by (intro exI[of _ h2] exI[of _ w2]) simp
  qed
  have "requeue t p s = Some s5" using Some s1(1) s5(1) by (simp add: requeue_def s4_def)
  moreover have "steady {t} s s5"
  proof -
    have "steady {t} s s1" "steady {t} s4 s5" using s1(5) s5(4) by (simp_all add: waits_frame_def steady_same)
    moreover have "steady {t} s1 s4" unfolding s4_def by (rule steady_move)
    ultimately show ?thesis by (auto intro!: steady_trans[of "{t}" s s1 "{t}" s5 "{t}"] steady_trans[of "{t}" s1 s4 "{t}" s5 "{t}"])
  qed
  ultimately show ?thesis using s5(2) tr5 o5 fk th s1(5) s5(4) M(8,9) unfolding waits_frame_def by auto
qed

lemma restore_one_ok:
  assumes ok: "waits_ok s" and ne: "fair s t \<noteq> GetPriority s t" and v: "IsValidPriority (fair s t)"
  shows "\<exists>s'. restore_one t s = Some (owner_of s t, s') \<and> waits_ok s' \<and> restored s s' \<and> GetPriority s' = (GetPriority s)(t := fair s t) \<and>
    steady {t} s s'"
proof -
  let ?p = "fair s t" and ?k = "wc_kernel s"
  have lk: "locks_ok {} s" and tr: "trees_ok s" and i: "sched_inv ?k" and vt: "\<And>x. valid_thread (k_info ?k x)" and vb: "\<And>x. IsValidPriority (base s x)"
    using ok by (simp_all add: waits_ok_def)
  obtain s5 where s5: "requeue t ?p s = Some s5" "locks_ok {} s5" "trees_ok s5" "owner_of s5 = owner_of s"
    "frame (?k\<lparr>k_info := (k_info ?k)(t := (k_info ?k t)\<lparr>t_priority := ?p\<rparr>)\<rparr>) (wc_kernel s5)"
    "wc_timer_tasks s5 = wc_timer_tasks s" "wc_memory s5 = wc_memory s" "steady {t} s s5"
    "\<forall>x. \<exists>hl wl. wc_thread s5 x = (wc_thread s x)\<lparr>w_held_locks := hl, w_waiting_lock := wl\<rparr>" using requeue_ok[OF lk tr] by blast
  have v1: "valid_thread ((k_info ?k t)\<lparr>t_priority := ?p\<rparr>)" using vt[of t] v by (simp add: valid_thread_def)
  obtain k6 where k6: "OnThreadPriorityChanged t (GetPriority s t) (wc_kernel s5) = Some k6" "settled ?k k6" "k_info k6 = k_info (wc_kernel s5)" "k_thread k6 = k_thread (wc_kernel s5)"
    using priority_hook_ok[OF i v1 s5(5)] by (auto simp: GetPriority_def)
  define s6 where "s6 = s5\<lparr>wc_kernel := k6\<rparr>"
  have "GetPriority s1 t = GetPriority s t" if "owner_of s t = Some ow" "RemoveWaiterImpl ow t s = Some s1" for ow s1
    using RemoveWaiterImpl_ok[OF lk that(1)] that(2) by auto
  from restore_one_requeue[OF best_priority_ok[OF lk] ne s5(1) this] have r: "restore_one t s = Some (owner_of s t, s6)"
    by (simp add: try_kernel_def k6(1) s6_def)
  have inf: "k_info k6 = (k_info ?k)(t := (k_info ?k t)\<lparr>t_priority := ?p\<rparr>)" using k6(3) s5(5) by (simp add: frame_def)
  then have pr: "GetPriority s6 = (GetPriority s)(t := ?p)" "GetPriority s6 = GetPriority s5" using k6(3)
    by (simp_all add: GetPriority_def s6_def fun_eq_iff)
  have sw: "same_waits s5 s6" unfolding same_waits_def using pr(2) by (simp add: s6_def)
  have "trees_ok s6" using s5(3) pr(2) unfolding trees_ok_def cv_key_def[abs_def] by (simp add: s6_def)
  moreover have o6: "owner_of s6 = owner_of s" "locks_ok {} s6" using same_waits_ok[OF sw] s5(2,4) by simp_all
  moreover have rs: "restored s s6" unfolding restored_def kept_def using k6(2,4) o6 s5(5-7,9) by (simp add: s6_def frame_def)
  moreover have "valid_thread (k_info k6 x)" for x using inf vt[of x] v1 by simp
  moreover have "sched_inv k6" using settledD[OF k6(2)] .
  ultimately have "waits_ok s6" using restored_base[OF rs] vb by (simp add: waits_ok_def s6_def)
  moreover have "steady {t} s s6" using s5(8) by (simp add: steady_def s6_def)
  ultimately show ?thesis using r pr(1) rs by blast
qed

section \<open>The chain of owners\<close>

lemma fair_valid: "waits_ok s \<Longrightarrow> IsValidPriority (fair s t)"
proof -
  assume ok: "waits_ok s"
  have "fair s t \<in> insert (base s t) (GetPriority s ` waiters s t)"
    unfolding fair_def using waiters_finite[of "{}" s t] ok by (intro Min_in) (auto simp: waits_ok_def)
  then show ?thesis using ok by (auto simp: waits_ok_def valid_thread_def GetPriority_def)
qed

text \<open>Every thread but those in \<open>X\<close> has the priority it ought to have.\<close>

definition fair_except :: "nat set \<Rightarrow> WaitCore \<Rightarrow> bool" where
  "fair_except X s \<longleftrightarrow> (\<forall>x. x \<notin> X \<longrightarrow> GetPriority s x = fair s x)"

lemma fair_unchanged:
  assumes "waiters s' x = waiters s x" "base s' x = base s x" "\<And>w. w \<in> waiters s x \<Longrightarrow> GetPriority s' w = GetPriority s w"
  shows "fair s' x = fair s x"
proof -
  have "GetPriority s' ` waiters s x = GetPriority s ` waiters s x" using assms(3) by (rule image_cong[OF refl])
  then show ?thesis unfolding fair_def assms(1,2) by (simp only:)
qed

lemma RestorePriority_step:
  "restore_one t s = Some (None, s1) \<Longrightarrow> RestorePriority t s = Some s1"
  "restore_one t s = Some (Some ow, s1) \<Longrightarrow> RestorePriority t s = RestorePriority ow s1"
  by (subst RestorePriority.simps, simp)+

lemma restore_nothing:
  assumes "waits_ok s" "fair_except {t} s" "fair s t = GetPriority s t" "\<forall>x. ends (owner_of s) x"
  shows "RestorePriority t s = Some s" "inheritance_ok s" "restored s s"
proof -
  have "restore_one t s = Some (None, s)" using assms(1,3) best_priority_ok[of s t] by (simp add: restore_one_def waits_ok_def base_def)
  then show "RestorePriority t s = Some s" by (rule RestorePriority_step)
  have "GetPriority s x = fair s x" for x using assms(2,3) by (cases "x = t") (simp_all add: fair_except_def)
  then show "inheritance_ok s" using assms(1,4) by (simp add: inheritance_ok_def)
  show "restored s s" using assms(1) by (simp add: waits_ok_def restored_refl)
qed

lemma RestorePriority_ok:
  assumes "ends f t" "owner_of s = f" "waits_ok s" "fair_except {t} s" "\<forall>x. ends f x"
  shows "\<exists>s'. RestorePriority t s = Some s' \<and> inheritance_ok s' \<and> restored s s' \<and> steady {y. (t, y) \<in> {(a, b). f a = Some b}\<^sup>*} s s'"
  using assms
proof (induction arbitrary: s rule: ends.induct)
  case (last t)
  show ?case
  proof (cases "fair s t = GetPriority s t")
    case True
    then show ?thesis using restore_nothing[of s t] last.prems steady_same[of s s] by blast
  next
    case False
    obtain s1 where s1: "restore_one t s = Some (None, s1)" "waits_ok s1" "restored s s1" "GetPriority s1 = (GetPriority s)(t := fair s t)" "steady {t} s s1"
      using restore_one_ok[OF last.prems(2) False fair_valid[OF last.prems(2)]] last.hyps last.prems(1) by auto
    have "fair s1 x = fair s x" for x
      by (rule fair_unchanged) (use s1(3,4) restored_base[OF s1(3)] last.hyps last.prems(1) in \<open>auto simp: waiters_def restored_def\<close>)
    then have "\<forall>x. GetPriority s1 x = fair s1 x" using s1(4) last.prems(3) by (simp add: fair_except_def)
    moreover have "steady {y. (t, y) \<in> {(a, b). f a = Some b}\<^sup>*} s s1"
      by (rule steady_trans[OF s1(5) steady_same[OF refl], of "{}"]) auto
    ultimately show ?thesis using RestorePriority_step(1)[OF s1(1)] s1(2,3) last.prems(1,4) by (simp add: inheritance_ok_def restored_def)
  qed
next
  case (wait t ow)
  show ?case
  proof (cases "fair s t = GetPriority s t")
    case True
    then show ?thesis using restore_nothing[of s t] wait.prems steady_same[of s s] by blast
  next
    case False
    have ot: "owner_of s t = Some ow" using wait.hyps(1) wait.prems(1) by simp
    obtain s1 where s1: "restore_one t s = Some (Some ow, s1)" "waits_ok s1" "restored s s1" "GetPriority s1 = (GetPriority s)(t := fair s t)" "steady {t} s s1"
      using restore_one_ok[OF wait.prems(2) False fair_valid[OF wait.prems(2)]] ot by auto
    have o1: "owner_of s1 = f" using s1(3) wait.prems(1) by (simp add: restored_def)
    have nt: "ow \<noteq> t" using ends_not_self wait.prems(4) wait.hyps(1) by blast
    have "fair s1 x = fair s x" if "x \<noteq> ow" for x
      by (rule fair_unchanged) (use s1(3,4) restored_base[OF s1(3)] ot that in \<open>auto simp: waiters_def restored_def\<close>)
    then have "fair_except {ow} s1" using s1(4) wait.prems(3) nt by (simp add: fair_except_def)
    from wait.IH[OF o1 s1(2) this wait.prems(4)] obtain s' where
      s': "RestorePriority ow s1 = Some s'" "inheritance_ok s'" "restored s1 s'" "steady {y. (ow, y) \<in> {(a, b). f a = Some b}\<^sup>*} s1 s'" by blast
    have "steady {y. (t, y) \<in> {(a, b). f a = Some b}\<^sup>*} s s'"
      by (rule steady_trans[OF s1(5) s'(4)]) (use wait.hyps(1) in \<open>auto intro: converse_rtrancl_into_rtrancl\<close>)
    then show ?thesis using s' RestorePriority_step(2)[OF s1(1)] restored_trans[OF s1(3)] by auto
  qed
qed

definition waits_for :: "WaitCore \<Rightarrow> (nat \<times> nat) set" where
  "waits_for s = {(w, t). owner_of s w = Some t}"

lemma restore_if:
  assumes "waits_ok s" "fair_except {ow} s" "\<forall>x. ends (owner_of s) x" "\<not> c \<Longrightarrow> fair s ow = GetPriority s ow"
  shows "\<exists>s'. (if c then RestorePriority ow s else Some s) = Some s' \<and> inheritance_ok s' \<and> restored s s' \<and>
    steady {y. (ow, y) \<in> (waits_for s)\<^sup>*} s s'"
  using RestorePriority_ok[OF _ refl assms(1-3)] restore_nothing[OF assms(1,2) assms(4) assms(3)] assms(3) steady_same[OF refl]
  by (auto simp: waits_for_def)

lemma frame_base: "waits_frame s s' \<Longrightarrow> base s' = base s"
proof
  fix t assume "waits_frame s s'"
  then obtain hl wl where "wc_thread s' t = (wc_thread s t)\<lparr>w_held_locks := hl, w_waiting_lock := wl\<rparr>" unfolding waits_frame_def by meson
  then show "base s' t = base s t" by (simp add: base_def)
qed

lemma waits_ok_frame: "waits_ok s \<Longrightarrow> waits_frame s s' \<Longrightarrow> locks_ok {} s' \<Longrightarrow> trees_ok s' \<Longrightarrow> waits_ok s'"
  using frame_base[of s s'] frame_inv[of "wc_kernel s" "wc_kernel s'"] unfolding waits_ok_def waits_frame_def by (simp add: frame_def)

section \<open>Operations on waiters\<close>

lemma ends_without: "ends f x \<Longrightarrow> ends (f(t := None)) x"
  by (induction rule: ends.induct) (metis ends.intros fun_upd_apply)+

lemma ends_more:
  assumes all: "\<And>y. ends f y" and not: "(ow, t) \<notin> {(a, b). f a = Some b}\<^sup>*"
  shows "ends (f(t := Some ow)) x"
proof -
  let ?r = "{(a, b). f a = Some b}" and ?f = "f(t := Some ow)"
  have away: "ends ?f y" if "ends f y" "(y, t) \<notin> ?r\<^sup>*" for y
    using that
  proof (induction rule: ends.induct)
    case (last y)
    then have "y \<noteq> t" by blast
    then show ?case using last.hyps by (intro ends.last) simp
  next
    case (wait y z)
    have yz: "(y, z) \<in> ?r" using wait.hyps(1) by simp
    have "(z, t) \<notin> ?r\<^sup>*" using wait.prems converse_rtrancl_into_rtrancl[OF yz] by blast
    then have "ends ?f z" by (rule wait.IH)
    moreover have "y \<noteq> t" using wait.prems by blast
    then have "?f y = Some z" using wait.hyps(1) by simp
    ultimately show ?case by (rule ends.wait[rotated])
  qed
  have end_t: "ends ?f t" using ends.wait[of ?f t ow] away[OF all not] by simp
  show ?thesis using all[of x]
  proof (induction rule: ends.induct)
    case (last y)
    then have "y = t \<or> ?f y = None" by simp
    then show ?case using end_t ends.last[of ?f y] by blast
  next
    case (wait y z)
    then have "y = t \<or> ?f y = Some z" by simp
    then show ?case using end_t ends.wait[of ?f y z] wait.IH by blast
  qed
qed

lemma Min_insert_more: "finite A \<Longrightarrow> Min (insert (a::int) (insert b A)) = min b (Min (insert a A))"
  by (simp add: insert_commute[of a b] Min_insert)

lemma AddWaiter_ok:
  assumes ok: "inheritance_ok s" and w: "waiting s t = None" and cv: "w_condvar_tree (wc_thread s t) = None"
    and c: "t < MaxThreads" and cyc: "(ow, t) \<notin> (waits_for s)\<^sup>*"
  shows "\<exists>s'. AddWaiter ow t s = Some s' \<and> inheritance_ok s' \<and> owner_of s' = (owner_of s)(t := Some ow) \<and> base s' = base s \<and> kept s s' \<and>
    steady {y. (ow, y) \<in> (waits_for s)\<^sup>*} s s'"
proof -
  have wo: "waits_ok s" and lk: "locks_ok {} s" and tr: "trees_ok s" and en: "\<And>x. ends (owner_of s) x" and fa: "\<And>x. GetPriority s x = fair s x"
    using ok by (simp_all add: inheritance_ok_def waits_ok_def)
  obtain s1 where s1: "AddWaiterImpl ow t s = Some s1" "locks_ok {} s1" "owner_of s1 = (owner_of s)(t := Some ow)"
    "GetPriority s1 = GetPriority s" "waits_frame s s1" using AddWaiterImpl_ok[OF lk w c] free_lock_left[OF lk w c] by (auto simp: can_add_def)
  have "waiting s1 x = None" if h: "w_condvar_tree (wc_thread s x) \<noteq> None" for x
  proof -
    have "owner_of s x = None" using h tr owner_of_None_iff[OF lk] unfolding trees_ok_def by blast
    moreover have "x \<noteq> t" using h cv by auto
    ultimately show ?thesis using s1(3) owner_of_None_iff[OF s1(2), of x] by simp
  qed
  then have wo1: "waits_ok s1" using waits_ok_frame[OF wo s1(5,2)] trees_ok_frame[OF tr s1(5)] by blast
  have oN: "owner_of s t = None" using w by (rule owner_of_None)
  have en1: "\<forall>x. ends (owner_of s1) x" unfolding s1(3) using ends_more[OF en, of ow t] cyc by (simp add: waits_for_def)
  have nt: "ow \<noteq> t" using cyc by blast
  have b1: "base s1 = base s" by (rule frame_base[OF s1(5)])
  have "fair s1 x = fair s x" if "x \<noteq> ow" for x
    by (rule fair_unchanged) (use s1(3,4) b1 oN that in \<open>auto simp: waiters_def\<close>)
  then have fe: "fair_except {ow} s1" using fa s1(4) by (simp add: fair_except_def)
  have ww: "waiters s1 ow = insert t (waiters s ow)" using s1(3) oN by (auto simp: waiters_def)
  have "fair s1 ow = min (GetPriority s t) (fair s ow)"
    unfolding fair_def ww b1 s1(4) image_insert using waiters_finite[OF lk] by (intro Min_insert_more) simp
  then have "\<not> GetPriority s1 t < GetPriority s1 ow \<Longrightarrow> fair s1 ow = GetPriority s1 ow" using s1(4) fa[of ow] by simp
  from restore_if[OF wo1 fe en1 this] obtain s' where
    s': "(if GetPriority s1 t < GetPriority s1 ow then RestorePriority ow s1 else Some s1) = Some s'" "inheritance_ok s'" "restored s1 s'"
    "steady {y. (ow, y) \<in> (waits_for s1)\<^sup>*} s1 s'" by blast
  have "waits_for s1 = insert (t, ow) (waits_for s)" using s1(3) oN by (auto simp: waits_for_def split: if_splits)
  then have "(ow, y) \<in> (waits_for s1)\<^sup>* \<longleftrightarrow> (ow, y) \<in> (waits_for s)\<^sup>*" for y using cyc by (auto simp: rtrancl_insert)
  then have st: "steady {y. (ow, y) \<in> (waits_for s)\<^sup>*} s s'"
    using s'(4) s1(5) by (auto simp: steady_def waits_frame_def)
  have "AddWaiter ow t s = Some s'" using s1(1) s'(1) by (simp add: AddWaiter_def)
  moreover have "kept s s'" using kept_trans[of s s1 s'] kept_frame[OF _ s1(5)] wo s'(3) by (simp add: restored_def waits_ok_def)
  ultimately show ?thesis using st s'(2,3) s1(3) b1 restored_base[OF s'(3)] by (auto simp: restored_def)
qed

lemma Min_remove:
  assumes "finite A" "\<And>x. x \<in> B \<Longrightarrow> Min (insert a A) < x \<or> Min (insert a A) = a" "A \<subseteq> A' \<union> B" "A' \<subseteq> A"
  shows "Min (insert (a::int) A') = Min (insert a A)"
proof (rule Min_eqI)
  show "finite (insert a A')" using assms(1,4) finite_subset by auto
  show "Min (insert a A) \<le> y" if "y \<in> insert a A'" for y using that assms(1,4) by (intro Min_le) auto
  have "Min (insert a A) \<in> insert a A" using assms(1) by (intro Min_in) auto
  then show "Min (insert a A) \<in> insert a A'" using assms(2,3) by blast
qed

lemma RemoveWaiter_ok:
  assumes ok: "inheritance_ok s" and t: "owner_of s t = Some ow"
  shows "\<exists>s'. RemoveWaiter ow t s = Some s' \<and> inheritance_ok s' \<and> owner_of s' = (owner_of s)(t := None) \<and> base s' = base s \<and> kept s s'"
proof -
  have wo: "waits_ok s" and lk: "locks_ok {} s" and tr: "trees_ok s" and en: "\<And>x. ends (owner_of s) x" and fa: "\<And>x. GetPriority s x = fair s x"
    using ok by (simp_all add: inheritance_ok_def waits_ok_def)
  obtain s1 where s1: "RemoveWaiterImpl ow t s = Some s1" "locks_ok {} s1" "owner_of s1 = (owner_of s)(t := None)"
    "GetPriority s1 = GetPriority s" "waits_frame s s1" using RemoveWaiterImpl_ok[OF lk t] by blast
  have "waiting s1 x = None" if h: "w_condvar_tree (wc_thread s x) \<noteq> None" for x
  proof -
    have "owner_of s x = None" using h tr owner_of_None_iff[OF lk] unfolding trees_ok_def by blast
    then show ?thesis using s1(3) owner_of_None_iff[OF s1(2), of x] by (simp split: if_splits)
  qed
  then have wo1: "waits_ok s1" using waits_ok_frame[OF wo s1(5,2)] trees_ok_frame[OF tr s1(5)] by blast
  have en1: "\<forall>x. ends (owner_of s1) x" unfolding s1(3) using ends_without[OF en] by simp
  have b1: "base s1 = base s" by (rule frame_base[OF s1(5)])
  have "fair s1 x = fair s x" if "x \<noteq> ow" for x
    by (rule fair_unchanged) (use s1(3,4) b1 t that in \<open>auto simp: waiters_def\<close>)
  then have fe: "fair_except {ow} s1" using fa s1(4) by (simp add: fair_except_def)
  let ?c = "GetPriority s1 ow = GetPriority s1 t \<and> GetPriority s1 ow < w_base_priority (wc_thread s1 ow)"
  have "fair s1 ow = fair s ow" if nc: "\<not> ?c"
  proof -
    have fin: "finite (GetPriority s ` waiters s ow)" using waiters_finite[OF lk] by simp
    have tw: "GetPriority s t \<in> GetPriority s ` waiters s ow" using t by (simp add: waiters_def)
    have "fair s ow \<le> GetPriority s t" "fair s ow \<le> base s ow" unfolding fair_def using fin tw by (auto intro: Min_le)
    moreover have "fair s ow \<noteq> GetPriority s t \<or> fair s ow \<ge> base s ow" using nc s1(4) fa[of ow] b1 by (auto simp: base_def[symmetric])
    ultimately have "x \<in> {GetPriority s t} \<Longrightarrow> fair s ow < x \<or> fair s ow = base s ow" for x by auto
    then show ?thesis unfolding fair_def b1 s1(4)
      by (intro Min_remove[where B = "{GetPriority s t}"] fin) (use s1(3) in \<open>auto simp: waiters_def\<close>)
  qed
  then have "\<not> ?c \<Longrightarrow> fair s1 ow = GetPriority s1 ow" using s1(4) fa[of ow] by simp
  from restore_if[OF wo1 fe en1 this] obtain s' where
    s': "(if ?c then RestorePriority ow s1 else Some s1) = Some s'" "inheritance_ok s'" "restored s1 s'" by blast
  have "RemoveWaiter ow t s = Some s'" using s1(1) s'(1) by (simp add: RemoveWaiter_def)
  moreover have "kept s s'" using kept_trans[of s s1 s'] kept_frame[OF _ s1(5)] wo s'(3) by (simp add: restored_def waits_ok_def)
  ultimately show ?thesis using s'(2,3) s1(3) b1 restored_base[OF s'(3)] by (auto simp: restored_def)
qed

lemma SetBasePriority_ok:
  assumes ok: "inheritance_ok s" and v: "IsValidPriority p"
  shows "\<exists>s'. SetBasePriority t p s = Some s' \<and> inheritance_ok s' \<and> owner_of s' = owner_of s \<and> base s' = (base s)(t := p)"
proof -
  define s1 where "s1 = on_wait t (\<lambda>w. w\<lparr>w_base_priority := p\<rparr>) s"
  have b1: "base s1 = (base s)(t := p)" by (simp add: base_def[abs_def] s1_def fun_eq_iff)
  have sw: "same_waits s s1" by (simp add: same_waits_def s1_def)
  have o1: "owner_of s1 = owner_of s" "locks_ok {} s1" using same_waits_ok[OF sw] ok by (simp_all add: inheritance_ok_def waits_ok_def)
  have "cv_key s1 = cv_key s" by (simp add: cv_key_def s1_def fun_eq_iff)
  then have "trees_ok s1" using ok unfolding inheritance_ok_def waits_ok_def trees_ok_def by (simp add: s1_def)
  then have wo1: "waits_ok s1" using ok o1 b1 v by (simp add: inheritance_ok_def waits_ok_def) (simp add: s1_def)
  have "fair s1 x = fair s x" if "x \<noteq> t" for x
    by (rule fair_unchanged) (use o1 b1 that in \<open>auto simp: waiters_def s1_def\<close>)
  then have fe: "fair_except {t} s1" using ok by (simp add: fair_except_def inheritance_ok_def s1_def)
  have "\<forall>x. ends (owner_of s1) x" using ok o1 by (simp add: inheritance_ok_def)
  with RestorePriority_ok[OF _ refl wo1 fe] obtain s' where "RestorePriority t s1 = Some s'" "inheritance_ok s'" "restored s1 s'" by blast
  then show ?thesis using o1 b1 restored_base[of s1 s'] by (auto simp: SetBasePriority_def s1_def[symmetric] restored_def)
qed

end
