(* ===== verification/Lock_Handover.thy ===== *)
theory Lock_Handover
  imports Priority_Inheritance Thread_Switch
begin

text \<open>
  Handing a lock to its next owner (\<open>RemoveWaiterByKey\<close>), and what exact inheritance says of every state:
  the priority of a thread is the best base priority among the threads that wait for it, directly or not.
\<close>

section \<open>A lock changes hands\<close>

lemma waiting_tree: "locks_ok E s \<Longrightarrow> l \<in> set (held s ow) \<Longrightarrow> waiting s x = Some l \<longleftrightarrow> x \<in> set (tree_of s l)"
  using locks_okD(1)[of E s l ow] by (simp add: lock_ok_def)

lemma hand_over_ok:
  assumes ok: "locks_ok {} s" and l: "l \<in> set (held s ow)"
    and s1: "s1 = AddHeldLock nx l (on_wait ow (\<lambda>w. w\<lparr>w_held_locks := remove1 l (w_held_locks w)\<rparr>) s)"
  shows "locks_ok {} s1" "owner_of s1 x = (if waiting s x = Some l then Some nx else owner_of s x)" "GetPriority s1 = GetPriority s"
proof -
  have w: "waiting s1 a = waiting s a" "w_address_key (wc_thread s1 a) = w_address_key (wc_thread s a)"
    "w_is_kernel_address_key (wc_thread s1 a) = w_is_kernel_address_key (wc_thread s a)" "wc_free_locks s1 = wc_free_locks s"
    and pr: "GetPriority s1 = GetPriority s" and lk: "wc_lock s1 = (wc_lock s)(l := (wc_lock s l)\<lparr>li_owner := Some nx\<rparr>)" for a
    unfolding s1 AddHeldLock_def by simp_all
  show "GetPriority s1 = GetPriority s" by (rule pr)
  have h: "m \<in> set (held s1 a) \<longleftrightarrow> (if m = l then a = nx else m \<in> set (held s a))" for a m
    unfolding s1 AddHeldLock_def using locks_okD(3)[OF ok] one_owner[OF ok l] by auto
  have d: "distinct (held s1 a)" for a
    unfolding s1 AddHeldLock_def using locks_okD(3)[OF ok] one_owner[OF ok l] by auto
  show "locks_ok {} s1" unfolding locks_ok_def
  proof (intro conjI allI impI ballI)
    fix a m assume m: "m \<in> set (held s1 a)"
    then have "lock_ok s (if m = l then ow else a) m" "tree_of s m \<noteq> []" using locks_okD(1,2)[OF ok] l h by (auto split: if_splits)
    then show "lock_ok s1 a m" "m \<in> {} \<or> tree_of s1 m \<noteq> []" using m h w pr by (auto simp: lock_ok_def lk split: if_splits)
  next
    fix x m assume "waiting s1 x = Some m"
    then have m: "waiting s x = Some m" using w by simp
    then show "x < MaxThreads" "\<exists>a. m \<in> set (held s1 a)" using locks_okD(4,5)[OF ok m] h by auto
  next
    have "m \<in> locks_of s1 \<longleftrightarrow> m \<in> locks_of s" for m using l by (cases "m = l") (auto simp: locks_of_def h w(4))
    then have "locks_of s1 = locks_of s" by blast
    then show "MaxThreads \<le> card (locks_of s1)" using locks_okD(8)[OF ok] by simp
  qed (use d w locks_okD(6,7)[OF ok] l h in \<open>auto split: if_splits\<close>)
  show "owner_of s1 x = (if waiting s x = Some l then Some nx else owner_of s x)"
    unfolding owner_of_def GetLockOwner_def by (auto simp: w lk split: option.splits)
qed

text \<open>The state that \<open>RemoveWaiterByKey\<close> reaches before it restores the priority of the old owner.\<close>

definition after_hand_over :: "nat \<Rightarrow> nat \<Rightarrow> nat \<Rightarrow> bool \<Rightarrow> WaitCore \<Rightarrow> WaitCore" where
  "after_hand_over ow l nx emp s =
     (let s1 = on_wait ow (\<lambda>w. w\<lparr>w_held_locks := remove1 l (w_held_locks w)\<rparr>) (snd (LockInfo_RemoveWaiter l nx s))
      in if emp then LockInfo_Free l s1 else AddHeldLock nx l s1)"

lemma after_hand_over_ok:
  assumes ok: "locks_ok {} s" and l: "l \<in> set (held s ow)" and tr: "tree_of s l = nx # ws" and s1: "s1 = after_hand_over ow l nx (ws = []) s"
  shows "locks_ok {} s1" "GetPriority s1 = GetPriority s"
    "owner_of s1 x = (if x = nx then None else if waiting s x = Some l then Some nx else owner_of s x)"
proof -
  have wx: "waiting s x = Some l \<longleftrightarrow> x \<in> set (nx # ws)" for x using waiting_tree[OF ok l] tr by simp
  obtain e s2 where r: "LockInfo_RemoveWaiter l nx s = (e, s2)" by fastforce
  have "waiting s nx = Some l" using wx by simp
  note R = remove_from_lock_ok[OF ok l this r]
  have t2: "tree_of s2 l = ws" using R(5) tr by simp
  have l2: "l \<in> set (held s2 ow)" using R(7) l by simp
  have "locks_ok {} s1 \<and> GetPriority s1 = GetPriority s \<and> owner_of s1 x = (if x = nx then None else if waiting s x = Some l then Some nx else owner_of s x)"
  proof (cases "ws = []")
    case True
    then have "s1 = LockInfo_Free l (on_wait ow (\<lambda>w. w\<lparr>w_held_locks := remove1 l (w_held_locks w)\<rparr>) s2)"
      by (simp add: s1 after_hand_over_def r)
    from free_lock_ok[OF R(1) l2 _ this] show ?thesis using R(2,3) t2 True wx[of x] by auto
  next
    case False
    then have s1': "s1 = AddHeldLock nx l (on_wait ow (\<lambda>w. w\<lparr>w_held_locks := remove1 l (w_held_locks w)\<rparr>) s2)"
      by (simp add: s1 after_hand_over_def r)
    have "locks_ok {} s2" using R(1) t2 False unfolding locks_ok_def by blast
    from hand_over_ok[OF this l2 s1'] show ?thesis using R(2,3,6) by auto
  qed
  then show "locks_ok {} s1" "GetPriority s1 = GetPriority s"
    "owner_of s1 x = (if x = nx then None else if waiting s x = Some l then Some nx else owner_of s x)" by blast+
qed

text \<open>The code differs from it only in the numbers of kernel waiters.\<close>

lemma RemoveWaiterByKey_hand_over:
  assumes ok: "locks_ok {} s" and f: "FindHeldLock ow key ker s = Some l" and tr: "tree_of s l = nx # ws"
  shows "\<exists>s4. same_waits (after_hand_over ow l nx (ws = []) s) s4 \<and> waits_frame s s4 \<and>
    RemoveWaiterByKey ow key ker s =
      map_option (Pair (Some nx, ws \<noteq> []))
        (if GetPriority s4 ow = GetPriority s4 nx \<and> GetPriority s4 ow < w_base_priority (wc_thread s4 ow) then RestorePriority ow s4 else Some s4)"
proof -
  have l: "l \<in> set (held s ow)" using FindHeldLock_Some[OF f] by simp
  have w: "waiting s nx = Some l" using waiting_tree[OF ok l] tr by simp
  obtain e s0 where r: "LockInfo_RemoveWaiter l nx s = (e, s0)" by fastforce
  note R = remove_from_lock_ok[OF ok l w r]
  have cnt: "li_waiter_count (wc_lock s l) - 1 = 0 \<longleftrightarrow> ws = []"
    using r R(4,5) tr by (auto simp: LockInfo_RemoveWaiter_def Let_def)
  let ?n = "- uint (li_waiter_count (wc_lock s l))"
  define s1 where "s1 = on_wait ow (\<lambda>w. w\<lparr>w_held_locks := remove1 l (w_held_locks w)\<rparr>) s"
  define s2 where "s2 = (if li_is_kernel_address_key (wc_lock s l) then on_kernel (SetSchedulerUpdateNeeded \<circ> add_kernel_waiters ow ?n) s1 else s1)"
  define s3 where "s3 = snd (LockInfo_RemoveWaiter l nx s2)"
  define s3a where "s3a = AddHeldLock nx l s3"
  define s4 where "s4 = (if ws = [] then LockInfo_Free l s3
     else if li_is_kernel_address_key (wc_lock s l) then on_kernel (add_kernel_waiters nx (uint (li_waiter_count (wc_lock s3a l)))) s3a else s3a)"
  have same2: "wc_lock s2 = wc_lock s" "wc_thread s2 = wc_thread s1" "wc_free_locks s2 = wc_free_locks s" by (simp_all add: s2_def s1_def)
  have "waits_frame s s1" unfolding s1_def by (rule waits_frame_steps)
  moreover have "waits_frame s1 s2" unfolding s2_def by (rule kernel_waiters_step)
  moreover have "waits_frame s2 s3" unfolding s3_def by (rule waits_frame_steps)
  ultimately have f3: "waits_frame s s3" by (blast intro: waits_frame_trans)
  have "waits_frame s3a s4" if "ws \<noteq> []" using that waits_frame_refl[of s3a] waits_frame_other(2)[of s3a] frame_kernel_waiters[of "wc_kernel s3a"] by (simp add: s4_def)
  moreover have "waits_frame s3 s3a" unfolding s3a_def by (rule waits_frame_steps)
  moreover have "waits_frame s3 s4" if "ws = []" using that waits_frame_steps(3)[of s3 l] by (simp add: s4_def)
  ultimately have f4: "waits_frame s s4" using f3 by (cases "ws = []") (blast intro: waits_frame_trans)+
  have p4: "GetPriority s4 = GetPriority s" by (rule frame_priority[OF f4])
  have pa: "GetPriority (after_hand_over ow l nx (ws = []) s) = GetPriority s"
    using after_hand_over_ok(2)[OF ok l tr refl] .
  have "same_waits (after_hand_over ow l nx (ws = []) s) s4"
    unfolding same_waits_def p4 pa
    by (auto simp: after_hand_over_def s4_def s3a_def s3_def LockInfo_RemoveWaiter_def Let_def AddHeldLock_def LockInfo_Free_def same2 s1_def)
  moreover have "RemoveWaiterByKey ow key ker s = map_option (Pair (Some nx, ws \<noteq> []))
      (if GetPriority s4 ow = GetPriority s4 nx \<and> GetPriority s4 ow < w_base_priority (wc_thread s4 ow) then RestorePriority ow s4 else Some s4)"
  proof -
    have b: "Option.bind x (\<lambda>s5. Some ((Some nx, ws \<noteq> []), s5)) = map_option (Pair (Some nx, ws \<noteq> [])) x" for x :: "WaitCore option"
      by (cases x) simp_all
    have e2: "LockInfo_RemoveWaiter l nx s2 = (ws = [], s3)" using cnt by (simp add: s3_def LockInfo_RemoveWaiter_def Let_def same2)
    have g: "GetHighestPriorityWaiter s2 l = Some nx" using tr by (simp add: GetHighestPriorityWaiter_def same2)
    have k1: "li_is_kernel_address_key (wc_lock s1 l) = li_is_kernel_address_key (wc_lock s l)" "li_waiter_count (wc_lock s1 l) = li_waiter_count (wc_lock s l)" by (simp_all add: s1_def)
    show ?thesis unfolding RemoveWaiterByKey_def f option.case Let_def s1_def[symmetric] k1 s2_def[symmetric] g bind.bind_lunit e2 prod.case
        s3a_def[symmetric] s4_def[symmetric] b ..
  qed
  ultimately show ?thesis using f4 by blast
qed

lemma ends_hand_over:
  assumes "ends f x" "f' nx = None" "\<And>y. f' y = f y \<or> f' y = None \<or> f' y = Some nx"
  shows "ends f' x"
  using assms(1)
proof (induction rule: ends.induct)
  case (last y)
  then show ?case using assms(3)[of y] ends.last[of f'] ends.wait[of f' y nx] assms(2) by metis
next
  case (wait y z)
  then show ?case using assms(3)[of y] ends.last[of f'] ends.wait[of f' y] assms(2) by metis
qed

lemma Min_add_larger:
  assumes "finite A" "finite B" "\<And>x. x \<in> B \<Longrightarrow> Min (insert a A) \<le> x"
  shows "Min (insert (a::int) (A \<union> B)) = Min (insert a A)"
proof (rule Min_eqI)
  have "Min (insert a A) \<in> insert a A" using assms(1) by (intro Min_in) auto
  then show "Min (insert a A) \<in> insert a (A \<union> B)" by auto
  show "Min (insert a A) \<le> y" if "y \<in> insert a (A \<union> B)" for y using that assms by auto
qed (use assms in auto)

lemma fair_le: "locks_ok E s \<Longrightarrow> fair s t \<le> base s t" "locks_ok E s \<Longrightarrow> owner_of s w = Some t \<Longrightarrow> fair s t \<le> GetPriority s w"
  unfolding fair_def using waiters_finite[of E s t] by (auto simp: waiters_def intro!: Min_le)

lemma RemoveWaiterByKey_ok:
  assumes ok: "inheritance_ok s" and f: "FindHeldLock ow key ker s = Some l"
  shows "\<exists>nx ws s'. tree_of s l = nx # ws \<and> RemoveWaiterByKey ow key ker s = Some ((Some nx, ws \<noteq> []), s') \<and> inheritance_ok s' \<and>
    (\<forall>x. owner_of s' x = (if x = nx then None else if x \<in> set ws then Some nx else owner_of s x)) \<and> base s' = base s \<and>
    kept s s' \<and> (\<forall>w\<in>set ws. GetPriority s nx \<le> GetPriority s w)"
proof -
  have wo: "waits_ok s" and lk: "locks_ok {} s" and tr: "trees_ok s" and en: "\<And>x. ends (owner_of s) x" and fa: "\<And>x. GetPriority s x = fair s x"
    using ok by (simp_all add: inheritance_ok_def waits_ok_def)
  have l: "l \<in> set (held s ow)" using FindHeldLock_Some[OF f] by simp
  obtain nx ws where t: "tree_of s l = nx # ws" using locks_okD(2)[OF lk l] by (cases "tree_of s l") auto
  have low: "GetPriority s nx \<le> GetPriority s w" if "w \<in> set (nx # ws)" for w
    using locks_okD(1)[OF lk l] t that by (auto simp: lock_ok_def)
  have d: "nx \<notin> set ws" using locks_okD(1)[OF lk l] t by (simp add: lock_ok_def)
  have wl: "waiting s x = Some l \<longleftrightarrow> x \<in> set (nx # ws)" for x using waiting_tree[OF lk l, of x] t by simp
  have oo: "owner_of s x = Some ow" if "x \<in> set (nx # ws)" for x using owner_of_waiting[OF lk _ l] wl that by blast
  have nn: "nx \<noteq> ow" using ends_not_self[OF en[of nx]] oo[of nx] by auto
  obtain s4 where s4: "same_waits (after_hand_over ow l nx (ws = []) s) s4" "waits_frame s s4" and
    run: "RemoveWaiterByKey ow key ker s = map_option (Pair (Some nx, ws \<noteq> []))
      (if GetPriority s4 ow = GetPriority s4 nx \<and> GetPriority s4 ow < w_base_priority (wc_thread s4 ow) then RestorePriority ow s4 else Some s4)"
    using RemoveWaiterByKey_hand_over[OF lk f t] by blast
  note H = after_hand_over_ok[OF lk l t refl]
  have lk4: "locks_ok {} s4" using same_waits_ok[OF s4(1)] H(1) by simp
  have o4: "owner_of s4 x = (if x = nx then None else if x \<in> set ws then Some nx else owner_of s x)" for x
    using same_waits_ok(2)[OF s4(1)] H(3) wl by auto
  have p4: "GetPriority s4 = GetPriority s" and b4: "base s4 = base s" using frame_priority[OF s4(2)] frame_base[OF s4(2)] by simp_all
  have "waiting s4 x = None" if h: "w_condvar_tree (wc_thread s x) \<noteq> None" for x
  proof -
    have "waiting s x = None" using h tr unfolding trees_ok_def by blast
    then have "owner_of s4 x = None" using o4[of x] wl[of x] owner_of_None[of s x] by auto
    then show ?thesis using owner_of_None_iff[OF lk4] by blast
  qed
  then have wo4: "waits_ok s4" using waits_ok_frame[OF wo s4(2) lk4] trees_ok_frame[OF tr s4(2)] by blast
  have en4: "\<forall>x. ends (owner_of s4) x" using ends_hand_over[OF en, of "owner_of s4" nx] o4 by auto
  have other: "fair s4 x = fair s x" if "x \<noteq> ow" "x \<noteq> nx" for x
    by (rule fair_unchanged) (use p4 b4 o4 oo that in \<open>auto simp: waiters_def split: if_splits\<close>)
  have fin: "finite (GetPriority s ` waiters s x)" for x using waiters_finite[OF lk] by simp
  have "waiters s4 nx = waiters s nx \<union> set ws" using o4 oo nn d by (auto simp: waiters_def split: if_splits)
  moreover have "Min (insert (base s nx) (GetPriority s ` waiters s nx \<union> GetPriority s ` set ws)) = fair s nx"
    unfolding fair_def by (rule Min_add_larger[OF fin]) (use low fa[of nx] in \<open>auto simp: fair_def\<close>)
  ultimately have nxt: "fair s4 nx = fair s nx" unfolding fair_def[of s4] p4 b4 image_Un by (simp add: image_Un)
  have fe: "fair_except {ow} s4" using other nxt fa p4 unfolding fair_except_def by (metis singletonI)
  let ?c = "GetPriority s4 ow = GetPriority s4 nx \<and> GetPriority s4 ow < w_base_priority (wc_thread s4 ow)"
  have "fair s4 ow = fair s ow" if nc: "\<not> ?c"
  proof -
    have "fair s ow \<noteq> GetPriority s nx \<or> fair s ow \<ge> base s ow" using nc p4 fa[of ow] b4 by (auto simp: base_def[symmetric])
    then have "fair s ow < GetPriority s nx \<or> fair s ow = base s ow" using fair_le(1)[OF lk, of ow] fair_le(2)[OF lk oo[of nx]] by auto
    then have B: "x \<in> GetPriority s ` set (nx # ws) \<Longrightarrow> fair s ow < x \<or> fair s ow = base s ow" for x using low by fastforce
    have "waiters s ow \<subseteq> waiters s4 ow \<union> set (nx # ws)" "waiters s4 ow \<subseteq> waiters s ow"
      using o4 nn by (auto simp: waiters_def split: if_splits)
    then show ?thesis unfolding fair_def[of s4] fair_def[of s] b4 p4
      by (intro Min_remove[OF fin B[unfolded fair_def]]) blast+
  qed
  then have "\<not> ?c \<Longrightarrow> fair s4 ow = GetPriority s4 ow" using p4 fa[of ow] by simp
  from restore_if[OF wo4 fe en4 this] obtain s' where s': "(if ?c then RestorePriority ow s4 else Some s4) = Some s'" "inheritance_ok s'" "restored s4 s'"
    by blast
  have "RemoveWaiterByKey ow key ker s = Some ((Some nx, ws \<noteq> []), s')" using run s'(1) by simp
  moreover have "owner_of s' = owner_of s4" using s'(3) by (simp add: restored_def)
  moreover have "kept s s'" using kept_trans[of s s4 s'] kept_frame[OF _ s4(2)] wo s'(3) by (simp add: restored_def waits_ok_def)
  ultimately show ?thesis using t s'(2) o4 low restored_base[OF s'(3)] b4 by auto
qed

section \<open>Exact inheritance\<close>

lemma ends_acyclic: "(\<And>x. ends f x) \<Longrightarrow> acyclic {(a, b). f a = Some b}"
proof -
  assume all: "\<And>x. ends f x"
  have "(x, x) \<notin> {(a, b). f a = Some b}\<^sup>+" for x
    using all[of x]
  proof (induction rule: ends.induct)
    case (last x)
    then show ?case by (auto dest: tranclD)
  next
    case (wait x y)
    show ?case
    proof
      assume "(x, x) \<in> {(a, b). f a = Some b}\<^sup>+"
      then have "(y, x) \<in> {(a, b). f a = Some b}\<^sup>*" using wait.hyps(1) by (auto dest: tranclD)
      then have "(y, y) \<in> {(a, b). f a = Some b}\<^sup>+" using wait.hyps(1) by (auto intro: rtrancl_into_trancl1)
      then show False using wait.IH by blast
    qed
  qed
  then show ?thesis by (simp add: acyclic_def)
qed

lemma waits_for_wf: "inheritance_ok s \<Longrightarrow> wf (waits_for s)"
proof (rule finite_acyclic_wf)
  assume ok: "inheritance_ok s"
  then have lk: "locks_ok {} s" by (simp add: inheritance_ok_def waits_ok_def)
  have "waits_for s \<subseteq> (\<lambda>w. (w, the (owner_of s w))) ` {..<MaxThreads}"
  proof
    fix e assume "e \<in> waits_for s"
    then obtain w t where e: "e = (w, t)" "owner_of s w = Some t" by (auto simp: waits_for_def)
    then have "w < MaxThreads" using owner_of_Some[OF lk e(2)] locks_okD(4)[OF lk] by blast
    then show "e \<in> (\<lambda>w. (w, the (owner_of s w))) ` {..<MaxThreads}" using e by force
  qed
  then show "finite (waits_for s)" by (rule finite_subset) simp
  show "acyclic (waits_for s)" using ok ends_acyclic[of "owner_of s"] by (simp add: inheritance_ok_def waits_for_def)
qed

text \<open>The threads that wait for \<open>t\<close>, directly or through other owners, and \<open>t\<close> itself.\<close>

definition all_waiters :: "WaitCore \<Rightarrow> nat \<Rightarrow> nat set" where
  "all_waiters s t = {w. (w, t) \<in> (waits_for s)\<^sup>*}"

lemma priority_below: "inheritance_ok s \<Longrightarrow> w \<in> all_waiters s t \<Longrightarrow> GetPriority s t \<le> base s w"
proof -
  assume ok: "inheritance_ok s" and w: "w \<in> all_waiters s t"
  have lk: "locks_ok {} s" and fa: "\<And>x. GetPriority s x = fair s x" using ok by (simp_all add: inheritance_ok_def waits_ok_def)
  have "(w, t) \<in> (waits_for s)\<^sup>*" using w by (simp add: all_waiters_def)
  then show ?thesis
  proof (induction rule: rtrancl_induct)
    case base
    then show ?case using fair_le(1)[OF lk] fa by simp
  next
    case (step y z)
    then have "owner_of s y = Some z" by (simp add: waits_for_def)
    then have "GetPriority s z \<le> GetPriority s y" using fair_le(2)[OF lk] fa by simp
    then show ?case using step.IH by simp
  qed
qed

lemma priority_attained: "inheritance_ok s \<Longrightarrow> \<exists>w\<in>all_waiters s t. GetPriority s t = base s w"
proof -
  assume ok: "inheritance_ok s"
  have lk: "locks_ok {} s" and fa: "\<And>x. GetPriority s x = fair s x" using ok by (simp_all add: inheritance_ok_def waits_ok_def)
  show ?thesis using waits_for_wf[OF ok]
  proof (induction t rule: wf_induct_rule)
    case (less t)
    have "fair s t \<in> insert (base s t) (GetPriority s ` waiters s t)"
      unfolding fair_def using waiters_finite[OF lk] by (intro Min_in) auto
    then consider "GetPriority s t = base s t" | w where "owner_of s w = Some t" "GetPriority s t = GetPriority s w"
      using fa by (auto simp: waiters_def)
    then show ?case
    proof cases
      case 1
      then show ?thesis by (auto simp: all_waiters_def)
    next
      case (2 w)
      then have e: "(w, t) \<in> waits_for s" by (simp add: waits_for_def)
      obtain v where "v \<in> all_waiters s w" "GetPriority s w = base s v" using less[OF e] by blast
      then show ?thesis using 2(2) e by (auto simp: all_waiters_def intro: rtrancl_into_rtrancl)
    qed
  qed
qed

text \<open>The best base priority among the threads a thread holds up: what inheritance has to give it.\<close>

definition inherited :: "WaitCore \<Rightarrow> nat \<Rightarrow> int" where
  "inherited s t = Min (base s ` all_waiters s t)"

lemma all_waiters_finite: "inheritance_ok s \<Longrightarrow> finite (all_waiters s t)"
proof -
  assume ok: "inheritance_ok s"
  then have lk: "locks_ok {} s" by (simp add: inheritance_ok_def waits_ok_def)
  have "all_waiters s t \<subseteq> insert t {..<MaxThreads}"
  proof
    fix w assume "w \<in> all_waiters s t"
    then have "(w, t) \<in> (waits_for s)\<^sup>*" by (simp add: all_waiters_def)
    then show "w \<in> insert t {..<MaxThreads}"
    proof (cases rule: converse_rtranclE)
      case (step y)
      then have "owner_of s w = Some y" by (simp add: waits_for_def)
      then show ?thesis using owner_of_Some[OF lk] locks_okD(4)[OF lk] by blast
    qed simp
  qed
  then show ?thesis by (rule finite_subset) simp
qed

lemma inherited_priority: "inheritance_ok s \<Longrightarrow> GetPriority s t = inherited s t"
proof -
  assume ok: "inheritance_ok s"
  show ?thesis unfolding inherited_def
  proof (rule Min_eqI[symmetric])
    show "finite (base s ` all_waiters s t)" using all_waiters_finite[OF ok] by simp
    show "GetPriority s t \<le> y" if "y \<in> base s ` all_waiters s t" for y using that priority_below[OF ok] by auto
    show "GetPriority s t \<in> base s ` all_waiters s t" using priority_attained[OF ok, of t] by auto
  qed
qed

lemma inherited_cong: "owner_of s' = owner_of s \<Longrightarrow> base s' = base s \<Longrightarrow> inherited s' t = inherited s t"
  by (simp add: inherited_def all_waiters_def waits_for_def)

section \<open>Properties\<close>

text \<open>Two threads of the sample kernel: 2 has the better priority, 1 may own a lock.\<close>

definition sample_waits :: WaitCore where
  "sample_waits = \<lparr>wc_kernel = sample_kernel,
     wc_thread = \<lambda>t. \<lparr>w_base_priority = t_priority (sample_threads t), w_held_locks = [], w_waiting_lock = None, w_address_key = 16,
       w_address_key_value = 0, w_is_kernel_address_key = False, w_condvar_tree = None, w_condvar_key = 0, w_wait_queue = None,
       w_wait_result = ResultSuccess\<rparr>,
     wc_lock = \<lambda>l. \<lparr>li_tree = [], li_address_key = 0, li_owner = None, li_waiter_count = 0, li_is_kernel_address_key = False\<rparr>,
     wc_free_locks = [0..<MaxThreads], wc_tree = \<lambda>T. [], wc_timer_tasks = {}, wc_memory = \<lambda>a. 0\<rparr>"

lemma sample_waits_ok: "inheritance_ok sample_waits"
proof -
  have o: "owner_of sample_waits = (\<lambda>t. None)" by (simp add: owner_of_def GetLockOwner_def sample_waits_def fun_eq_iff)
  have "locks_ok {} sample_waits" "trees_ok sample_waits" by (simp_all add: locks_ok_def trees_ok_def locks_of_def sample_waits_def)
  moreover have "sched_inv (wc_kernel sample_waits)" using booted_inv[OF sample_booted] by (simp add: sample_waits_def)
  moreover have "valid_thread (k_info (wc_kernel sample_waits) t) \<and> IsValidPriority (base sample_waits t)" for t
    using sample_threads_valid[of t] by (simp add: sample_waits_def base_def sample_kernel_def valid_thread_def)
  moreover have "GetPriority sample_waits t = fair sample_waits t" for t
  proof -
    have "waiters sample_waits t = {}" by (simp add: waiters_def o)
    then show ?thesis by (simp add: fair_def GetPriority_def base_def) (simp add: sample_waits_def sample_kernel_def)
  qed
  ultimately show ?thesis using ends.last[of "\<lambda>t. None"] by (simp add: inheritance_ok_def waits_ok_def o)
qed

lemma sample_can_wait:
  "waiting sample_waits 2 = None" "w_condvar_tree (wc_thread sample_waits 2) = None" "2 < MaxThreads"
  "(1, 2) \<notin> (waits_for sample_waits)\<^sup>*"
proof -
  have "waits_for sample_waits = {}" by (simp add: waits_for_def owner_of_def GetLockOwner_def sample_waits_def)
  then show "(1, 2) \<notin> (waits_for sample_waits)\<^sup>*" by simp
qed (simp_all add: sample_waits_def MaxThreads_def)

text \<open>C3: When a thread starts to wait for a lock, \<open>AddWaiter\<close> returns and every thread then has exactly the best base priority
  among itself and the threads that wait for it directly or through other owners; in particular the owner of the lock
  is not less urgent than the new waiter. This holds from every state where it held before, if the thread is not
  waiting yet and the owner does not itself wait for the thread; a lock info is then always left.\<close>

theorem waiting_inherits_exactly:
  assumes "inheritance_ok s" "waiting s t = None" "w_condvar_tree (wc_thread s t) = None" "t < MaxThreads"
    "(ow, t) \<notin> (waits_for s)\<^sup>*"
  shows "\<exists>s'. AddWaiter ow t s = Some s' \<and> inheritance_ok s' \<and> owner_of s' = (owner_of s)(t := Some ow) \<and>
    (\<forall>x. GetPriority s' x = inherited s' x) \<and> GetPriority s' ow \<le> GetPriority s' t"
proof -
  obtain s' where s': "AddWaiter ow t s = Some s'" "inheritance_ok s'" "owner_of s' = (owner_of s)(t := Some ow)"
    using AddWaiter_ok[OF assms] by blast
  have "GetPriority s' ow \<le> GetPriority s' t"
    using s'(2,3) fair_le(2)[of "{}" s' t ow] by (simp add: inheritance_ok_def waits_ok_def)
  then show ?thesis using s' inherited_priority[OF s'(2)] by blast
qed

theorem waiting_inherits_exactly_witness:
  "\<exists>s'. AddWaiter 1 2 sample_waits = Some s' \<and> (\<forall>x. GetPriority s' x = inherited s' x) \<and> GetPriority s' 1 \<le> GetPriority s' 2"
  using waiting_inherits_exactly[OF sample_waits_ok sample_can_wait] by blast

text \<open>A wait that is cancelled leaves no trace in the priorities: after \<open>AddWaiter\<close> and \<open>RemoveWaiter\<close> of the same thread all
  threads have the priorities and the owners they had before, however far the priority had been passed on.\<close>

theorem cancelled_wait_restores_priorities:
  assumes "inheritance_ok s" "waiting s t = None" "w_condvar_tree (wc_thread s t) = None" "t < MaxThreads"
    "(ow, t) \<notin> (waits_for s)\<^sup>*"
  shows "\<exists>s1 s2. AddWaiter ow t s = Some s1 \<and> RemoveWaiter ow t s1 = Some s2 \<and>
    GetPriority s2 = GetPriority s \<and> owner_of s2 = owner_of s \<and> inheritance_ok s2"
proof -
  obtain s1 where s1: "AddWaiter ow t s = Some s1" "inheritance_ok s1" "owner_of s1 = (owner_of s)(t := Some ow)" "base s1 = base s"
    using AddWaiter_ok[OF assms] by blast
  have "owner_of s1 t = Some ow" using s1(3) by simp
  then obtain s2 where s2: "RemoveWaiter ow t s1 = Some s2" "inheritance_ok s2" "owner_of s2 = (owner_of s1)(t := None)" "base s2 = base s"
    using RemoveWaiter_ok[OF s1(2)] s1(4) by auto
  have o: "owner_of s2 = owner_of s" using s2(3) s1(3) owner_of_None[OF assms(2)] by auto
  have "GetPriority s2 x = GetPriority s x" for x
    using inherited_priority[OF s2(2)] inherited_priority[OF assms(1)] inherited_cong[OF o s2(4)] by simp
  then show ?thesis using s1(1) s2(1,2) o by (auto simp: fun_eq_iff)
qed

theorem cancelled_wait_restores_priorities_witness:
  "\<exists>s1 s2. AddWaiter 1 2 sample_waits = Some s1 \<and> RemoveWaiter 1 2 s1 = Some s2 \<and> GetPriority s2 = GetPriority sample_waits"
  using cancelled_wait_restores_priorities[OF sample_waits_ok sample_can_wait] by blast

text \<open>C4: Giving up a lock, \<open>RemoveWaiterByKey\<close> hands it to a waiter of the best priority and reports whether others still wait;
  those then wait for the new owner, nobody else is affected, and every thread again has exactly the priority it
  inherits.\<close>

theorem unlock_hands_to_best_waiter:
  assumes "inheritance_ok s" "FindHeldLock ow key is_kernel s = Some l"
  shows "\<exists>nx ws s'. li_tree (wc_lock s l) = nx # ws \<and> RemoveWaiterByKey ow key is_kernel s = Some ((Some nx, ws \<noteq> []), s') \<and>
    (\<forall>w\<in>set ws. GetPriority s nx \<le> GetPriority s w) \<and>
    (\<forall>x. owner_of s' x = (if x = nx then None else if x \<in> set ws then Some nx else owner_of s x)) \<and>
    inheritance_ok s' \<and> (\<forall>x. GetPriority s' x = inherited s' x)"
  using RemoveWaiterByKey_ok[OF assms] inherited_priority by blast

theorem unlock_hands_to_best_waiter_witness:
  "\<exists>s l nx more s'. AddWaiter 1 2 sample_waits = Some s \<and> FindHeldLock 1 16 False s = Some l \<and>
    RemoveWaiterByKey 1 16 False s = Some ((Some nx, more), s') \<and> (\<forall>x. GetPriority s' x = inherited s' x)"
proof -
  obtain s where s: "AddWaiter 1 2 sample_waits = Some s" "inheritance_ok s" "owner_of s = (owner_of sample_waits)(2 := Some 1)" "kept sample_waits s"
    using AddWaiter_ok[OF sample_waits_ok sample_can_wait] by blast
  have lk: "locks_ok {} s" using s(2) by (simp add: inheritance_ok_def waits_ok_def)
  have "owner_of s 2 = Some 1" using s(3) by simp
  then obtain l where l: "waiting s 2 = Some l" "l \<in> set (held s 1)" by (rule owner_of_Some[OF lk])
  have "w_address_key (wc_thread s 2) = 16 \<and> \<not> w_is_kernel_address_key (wc_thread s 2)"
    using keptE[OF s(4), of 2] by (auto simp: sample_waits_def)
  then have "li_address_key (wc_lock s l) = 16 \<and> li_is_kernel_address_key (wc_lock s l) = False"
    using locks_okD(1)[OF lk l(2)] waiting_tree[OF lk l(2)] l(1) unfolding lock_ok_def by fastforce
  then obtain m where m: "FindHeldLock 1 16 False s = Some m" using FindHeldLock_None[of 1 16 False s l] l(2) by (cases "FindHeldLock 1 16 False s") auto
  then show ?thesis using s(1) unlock_hands_to_best_waiter[OF s(2) m] by blast
qed

end
