(* ===== verification/Arbitration.thy ===== *)
theory Arbitration
  imports K_Condition_Variable Lock_Handover
begin

text \<open>
  Which threads a signal wakes (\<open>KAddressArbiter\<close> of \<open>K_Condition_Variable\<close>): ending a wait keeps priority
  inheritance exact, the waiters of an address are woken in order of priority, and the word of the address
  follows the number of waiters.
\<close>

declare UpdateIfEqual.simps [simp del] DecrementIfLessThan.simps [simp del]

section \<open>Ending a wait\<close>

lemma inheritance_same:
  assumes ok: "inheritance_ok s" and sw: "same_waits s s'" and tr: "wc_tree s' = wc_tree s"
    and th: "\<And>t. w_condvar_tree (wc_thread s' t) = w_condvar_tree (wc_thread s t)" "\<And>t. w_condvar_key (wc_thread s' t) = w_condvar_key (wc_thread s t)"
    and b: "base s' = base s" and k: "sched_inv (wc_kernel s')" "k_info (wc_kernel s') = k_info (wc_kernel s)"
  shows "inheritance_ok s'"
proof -
  have o: "owner_of s' = owner_of s" "locks_ok {} s' = locks_ok {} s" using same_waits_ok[OF sw] by simp_all
  have p: "GetPriority s' = GetPriority s" and w: "\<And>t. waiting s' t = waiting s t" using sw by (simp_all add: same_waits_def)
  have "cv_key s' = cv_key s" using th p by (simp add: cv_key_def fun_eq_iff)
  then have "trees_ok s' = trees_ok s" unfolding trees_ok_def tr using th w by simp
  moreover have "fair s' = fair s" by (simp add: fair_def waiters_def o b p fun_eq_iff)
  ultimately show ?thesis using ok o p b k by (simp add: inheritance_ok_def waits_ok_def)
qed

text \<open>What ending the wait of a thread does.\<close>

definition ended :: "nat \<Rightarrow> Result \<Rightarrow> WaitCore \<Rightarrow> WaitCore \<Rightarrow> bool" where
  "ended t r s s' \<longleftrightarrow> wc_lock s' = wc_lock s \<and> wc_free_locks s' = wc_free_locks s \<and> wc_tree s' = wc_tree s \<and> wc_memory s' = wc_memory s \<and>
     wc_thread s' = (wc_thread s)(t := (wc_thread s t)\<lparr>w_wait_result := r, w_wait_queue := None\<rparr>) \<and>
     k_info (wc_kernel s') = k_info (wc_kernel s) \<and> sched_inv (wc_kernel s') \<and> current_thread s' = current_thread s \<and>
     GetState (k_thread (wc_kernel s') t) = ThreadState_Runnable \<and> (\<forall>x. x \<noteq> t \<longrightarrow> k_thread (wc_kernel s') x = k_thread (wc_kernel s) x)"

lemma mask_state: "((a AND NOT m) OR (b AND m)) AND m = (b AND m :: 'a :: len word)"
  by (rule bit_word_eqI) (auto simp: bit_simps)

lemma finish_wait_ok:
  assumes "sched_inv (wc_kernel s)" "valid_thread (k_info (wc_kernel s) t)"
  shows "\<exists>s'. finish_wait q t r c s = Some s' \<and> ended t r s s'"
proof -
  let ?k = "wc_kernel s"
  obtain k' where k': "set_state t ThreadState_Runnable ?k = Some k'"
    "restated t ((GetRawState t ?k AND NOT ThreadState_Mask) OR (ThreadState_Runnable AND ThreadState_Mask)) ?k k'"
    using set_state_ok[OF assms, of ThreadState_Runnable] by blast
  have "GetState (k_thread k' t) = ThreadState_Runnable"
    using k'(2) by (simp add: restated_def GetState_def GetRawState_def mask_state) (simp add: ThreadState_Runnable_def ThreadState_Mask_def)
  then show ?thesis using k' by (auto simp: finish_wait_def try_kernel_def ended_def restated_def on_wait_def Let_def fun_eq_iff)
qed

lemma ended_ok: "inheritance_ok s \<Longrightarrow> ended t r s s' \<Longrightarrow> inheritance_ok s'"
proof (rule inheritance_same)
  assume e: "ended t r s s'"
  show "same_waits s s'" using e by (simp add: same_waits_def ended_def GetPriority_def fun_eq_iff)
  show "base s' = base s" using e by (simp add: base_def ended_def fun_eq_iff)
qed (simp_all add: ended_def)

lemma EndWait_ok:
  assumes "inheritance_ok s" "is_waiting t s" "w_wait_queue (wc_thread s t) \<noteq> None"
  shows "\<exists>s'. EndWait t r s = Some s' \<and> ended t r s s' \<and> inheritance_ok s'"
proof -
  obtain q where q: "w_wait_queue (wc_thread s t) = Some q" using assms(3) by blast
  have "sched_inv (wc_kernel s)" "valid_thread (k_info (wc_kernel s) t)" using assms(1) by (simp_all add: inheritance_ok_def waits_ok_def)
  from finish_wait_ok[OF this, of q r True] obtain s' where "finish_wait q t r True s = Some s'" "ended t r s s'" by blast
  then show ?thesis using ended_ok[OF assms(1)] q assms(2) by (auto simp: EndWait_def)
qed

section \<open>Leaving a tree\<close>

lemma leave_tree_trees:
  assumes tr: "trees_ok s" and t: "w_condvar_tree (wc_thread s t) = Some T"
    and s1: "wc_tree s1 = (wc_tree s)(T := remove1 t (wc_tree s T))" "wc_thread s1 = (wc_thread s)(t := (wc_thread s t)\<lparr>w_condvar_tree := None\<rparr>)"
      "GetPriority s1 = GetPriority s"
  shows "trees_ok s1"
proof -
  have T: "distinct (wc_tree s U)" "sorted (map (cv_key s) (wc_tree s U))" "x \<in> set (wc_tree s U) \<longleftrightarrow> w_condvar_tree (wc_thread s x) = Some U"
    for U x using tr unfolding trees_ok_def by blast+
  have ck: "cv_key s1 = cv_key s" using s1(2,3) by (simp add: cv_key_def fun_eq_iff)
  have "sorted (map (cv_key s) (remove1 t (wc_tree s T)))" by (rule sorted_remove1_map[OF T(2)])
  moreover have "x \<in> set (wc_tree s1 U) \<longleftrightarrow> w_condvar_tree (wc_thread s1 x) = Some U" for x U
    using T(1)[of T] T(3)[of x U] T(3)[of t U] t s1(1,2) by auto
  moreover have "w_condvar_tree (wc_thread s1 x) \<noteq> None \<Longrightarrow> waiting s1 x = None" for x
    using tr s1(2) unfolding trees_ok_def by (auto split: if_splits)
  ultimately show ?thesis unfolding trees_ok_def ck using s1(1) T(1,2) by simp
qed

lemma leave_tree_ok:
  assumes ok: "inheritance_ok s" and t: "w_condvar_tree (wc_thread s t) = Some T" and s1: "s1 = wait_tree_erase T t (ClearConditionVariable t s)"
  shows "inheritance_ok s1"
proof -
  have k: "wc_kernel s1 = wc_kernel s" "wc_thread s1 = (wc_thread s)(t := (wc_thread s t)\<lparr>w_condvar_tree := None\<rparr>)"
    "wc_tree s1 = (wc_tree s)(T := remove1 t (wc_tree s T))" "wc_lock s1 = wc_lock s" "wc_free_locks s1 = wc_free_locks s"
    unfolding s1 by (simp_all add: ClearConditionVariable_def wait_tree_erase_def)
  then have p: "GetPriority s1 = GetPriority s" by (simp add: GetPriority_def fun_eq_iff)
  have sw: "same_waits s s1" using k p by (simp add: same_waits_def)
  have "trees_ok s1" by (rule leave_tree_trees[OF _ t k(3,2) p]) (use ok in \<open>simp add: inheritance_ok_def waits_ok_def\<close>)
  moreover have b: "base s1 = base s" using k(2) by (simp add: base_def fun_eq_iff)
  moreover have "fair s1 = fair s" using same_waits_ok(2)[OF sw] by (simp add: fair_def waiters_def p b fun_eq_iff)
  ultimately show ?thesis using ok same_waits_ok[OF sw] k(1) p by (simp add: inheritance_ok_def waits_ok_def)
qed

section \<open>Waking waiters\<close>

text \<open>A thread in a tree sleeps in a queue.\<close>

definition sleeping :: "WaitTree \<Rightarrow> WaitCore \<Rightarrow> bool" where
  "sleeping T s \<longleftrightarrow> (\<forall>t. w_condvar_tree (wc_thread s t) = Some T \<longrightarrow> is_waiting t s \<and> w_wait_queue (wc_thread s t) \<noteq> None)"

text \<open>The threads a signal wakes, of those from the first waiter of the address on.\<close>

definition chosen :: "int \<Rightarrow> 'a list \<Rightarrow> 'a list" where
  "chosen count ws = (if count \<le> 0 then ws else take (nat count) ws)"

text \<open>The threads \<open>ws\<close> have been woken and taken out of the tree, and nothing else has changed.\<close>

definition woken :: "WaitTree \<Rightarrow> nat list \<Rightarrow> WaitCore \<Rightarrow> WaitCore \<Rightarrow> bool" where
  "woken T ws s s' \<longleftrightarrow> wc_lock s' = wc_lock s \<and> wc_free_locks s' = wc_free_locks s \<and> wc_memory s' = wc_memory s \<and>
     wc_tree s' = (wc_tree s)(T := filter (\<lambda>t. t \<notin> set ws) (wc_tree s T)) \<and> k_info (wc_kernel s') = k_info (wc_kernel s) \<and>
     (\<forall>t\<in>set ws. GetState (k_thread (wc_kernel s') t) = ThreadState_Runnable \<and>
        wc_thread s' t = (wc_thread s t)\<lparr>w_wait_result := ResultSuccess, w_wait_queue := None, w_condvar_tree := None\<rparr>) \<and>
     (\<forall>t. t \<notin> set ws \<longrightarrow> wc_thread s' t = wc_thread s t \<and> k_thread (wc_kernel s') t = k_thread (wc_kernel s) t)"

lemma woken_nothing: "woken T [] s s"
  by (simp add: woken_def)

lemma wake_one:
  assumes ok: "inheritance_ok s" "sleeping T s" and t: "w_condvar_tree (wc_thread s t) = Some T"
  shows "\<exists>s1. EndWait t ResultSuccess s = Some s1 \<and> inheritance_ok (wait_tree_erase T t (ClearConditionVariable t s1)) \<and>
    sleeping T (wait_tree_erase T t (ClearConditionVariable t s1)) \<and> woken T [t] s (wait_tree_erase T t (ClearConditionVariable t s1))"
proof -
  obtain s1 where s1: "EndWait t ResultSuccess s = Some s1" "ended t ResultSuccess s s1" "inheritance_ok s1"
    using EndWait_ok[OF ok(1), of t ResultSuccess] ok(2) t by (auto simp: sleeping_def)
  define s2 where "s2 = wait_tree_erase T t (ClearConditionVariable t s1)"
  have k: "wc_kernel s2 = wc_kernel s1" "wc_thread s2 = (wc_thread s1)(t := (wc_thread s1 t)\<lparr>w_condvar_tree := None\<rparr>)"
    "wc_tree s2 = (wc_tree s1)(T := remove1 t (wc_tree s1 T))" "wc_lock s2 = wc_lock s1" "wc_free_locks s2 = wc_free_locks s1" "wc_memory s2 = wc_memory s1"
    unfolding s2_def by (simp_all add: ClearConditionVariable_def wait_tree_erase_def on_wait_def)
  have "w_condvar_tree (wc_thread s1 t) = Some T" using s1(2) t by (simp add: ended_def)
  then have "inheritance_ok s2" using leave_tree_ok[OF s1(3)] s2_def by blast
  moreover have "sleeping T s2" using ok(2) s1(2) k(1,2) unfolding sleeping_def is_waiting_def ended_def by auto
  moreover have "woken T [t] s s2"
  proof -
    have "distinct (wc_tree s T)" using ok(1) by (simp add: inheritance_ok_def waits_ok_def trees_ok_def)
    then have "remove1 t (wc_tree s T) = filter (\<lambda>x. x \<noteq> t) (wc_tree s T)" by (simp add: distinct_remove1_removeAll removeAll_filter_not_eq eq_commute)
    then show ?thesis using s1(2) k by (simp add: woken_def ended_def)
  qed
  ultimately show ?thesis using s1(1) s2_def by blast
qed

lemma woken_trans:
  assumes "woken T [t] s s1" "woken T ws s1 s2" "t \<notin> set ws"
  shows "woken T (t # ws) s s2"
  using assms unfolding woken_def by (auto simp: fun_eq_iff filter_filter conj_commute cong: filter_cong)

lemma arbiter_wake_ok:
  assumes "inheritance_ok s" "sleeping T s" "distinct ts" "\<And>t. t \<in> set ts \<Longrightarrow> w_condvar_tree (wc_thread s t) = Some T"
    "ws = (if count \<le> 0 then id else take (nat (count - int n))) (takeWhile (\<lambda>t. w_condvar_key (wc_thread s t) = addr) ts)"
  shows "\<exists>s'. arbiter_wake T addr count n ts s = Some s' \<and> inheritance_ok s' \<and> sleeping T s' \<and> woken T ws s s'"
  using assms
proof (induction ts arbitrary: n s ws)
  case Nil
  then show ?case by (simp add: woken_nothing)
next
  case (Cons t ts)
  show ?case
  proof (cases "(count \<le> 0 \<or> int n < count) \<and> w_condvar_key (wc_thread s t) = addr")
    case False
    then have "ws = []" using Cons.prems(5) by auto
    then show ?thesis using False Cons.prems(1,2) by (auto simp: woken_nothing)
  next
    case True
    obtain s1 where s1: "EndWait t ResultSuccess s = Some s1" "inheritance_ok (wait_tree_erase T t (ClearConditionVariable t s1))"
      "sleeping T (wait_tree_erase T t (ClearConditionVariable t s1))" "woken T [t] s (wait_tree_erase T t (ClearConditionVariable t s1))"
      using wake_one[OF Cons.prems(1,2)] Cons.prems(4) by force
    define s2 where "s2 = wait_tree_erase T t (ClearConditionVariable t s1)"
    have same: "wc_thread s2 x = wc_thread s x" if "x \<in> set ts" for x using s1(4) that Cons.prems(3) by (auto simp: woken_def s2_def)
    define vs where "vs = (if count \<le> 0 then id else take (nat (count - int (Suc n)))) (takeWhile (\<lambda>t. w_condvar_key (wc_thread s2 t) = addr) ts)"
    have tw: "takeWhile (\<lambda>t. w_condvar_key (wc_thread s2 t) = addr) ts = takeWhile (\<lambda>t. w_condvar_key (wc_thread s t) = addr) ts"
      by (rule takeWhile_cong) (simp_all add: same)
    have "ws = t # vs"
    proof (cases "count \<le> 0")
      case le: False
      then have "nat (count - int n) = Suc (nat (count - int (Suc n)))" using True by linarith
      then show ?thesis using Cons.prems(5) True le tw by (simp add: vs_def)
    qed (use Cons.prems(5) True tw in \<open>simp add: vs_def\<close>)
    have "inheritance_ok s2" "sleeping T s2" "distinct ts" using s1(2,3) Cons.prems(3) by (simp_all add: s2_def)
    from Cons.IH[OF this _ vs_def] obtain s' where
      s': "arbiter_wake T addr count (Suc n) ts s2 = Some s'" "inheritance_ok s'" "sleeping T s'" "woken T vs s2 s'"
      using same Cons.prems(4) by auto
    have "set vs \<subseteq> set ts" unfolding vs_def by (auto dest: in_set_takeD set_takeWhileD)
    then have "t \<notin> set vs" using Cons.prems(3) by auto
    then have "woken T (t # vs) s s'" using woken_trans[OF s1(4)[folded s2_def] s'(4)] by blast
    then show ?thesis using True s1(1) s'(1-3) \<open>ws = t # vs\<close> by (simp add: s2_def)
  qed
qed

text \<open>The waiters of an address are together in the tree, in order of priority.\<close>

definition waiters_at :: "WaitTree \<Rightarrow> nat \<Rightarrow> WaitCore \<Rightarrow> nat list" where
  "waiters_at T addr s = filter (\<lambda>t. w_condvar_key (wc_thread s t) = addr) (wc_tree s T)"

lemma sorted_group:
  fixes f :: "'a \<Rightarrow> 'k :: linorder"
  assumes "sorted (map f xs)"
  shows "takeWhile (\<lambda>x. f x = a) (dropWhile (\<lambda>x. f x < a) xs) = filter (\<lambda>x. f x = a) xs"
  using assms
proof (induction xs)
  case (Cons x xs)
  show ?case
  proof (cases "f x < a")
    case False
    have g: "takeWhile (\<lambda>y. f y = a) ys = filter (\<lambda>y. f y = a) ys" if "sorted (map f ys)" "\<forall>y\<in>set ys. a \<le> f y" for ys
      using that
    proof (induction ys)
      case (Cons y ys)
      show ?case
      proof (cases "f y = a")
        case False
        then have "\<forall>z\<in>set (y # ys). f z \<noteq> a" using Cons.prems by force
        then have "filter (\<lambda>z. f z = a) (y # ys) = []" by (simp only: filter_empty_conv)
        then show ?thesis using False by simp
      qed (use Cons in auto)
    qed simp
    have "dropWhile (\<lambda>x. f x < a) (x # xs) = x # xs" using False by simp
    moreover have "\<forall>y\<in>set (x # xs). a \<le> f y" using False Cons.prems by auto
    ultimately show ?thesis using g[OF Cons.prems] by simp
  qed (use Cons in auto)
qed simp

lemma sorted_keys:
  assumes "trees_ok s"
  shows "sorted (map (\<lambda>t. w_condvar_key (wc_thread s t)) (wc_tree s T))" "sorted (map (GetPriority s) (waiters_at T addr s))"
proof -
  have s: "sorted (map (cv_key s) (wc_tree s T))" using assms by (simp add: trees_ok_def)
  then show "sorted (map (\<lambda>t. w_condvar_key (wc_thread s t)) (wc_tree s T))"
    by (fastforce simp: cv_key_def less_eq_prod_def sorted_map sorted_wrt_iff_nth_less)
  have "sorted (map (cv_key s) (waiters_at T addr s))" using s unfolding waiters_at_def by (rule sorted_filter)
  moreover have "map (cv_key s) (waiters_at T addr s) = map (\<lambda>t. (addr, GetPriority s t)) (waiters_at T addr s)"
    by (simp add: waiters_at_def cv_key_def)
  ultimately show "sorted (map (GetPriority s) (waiters_at T addr s))"
    by (auto simp: sorted_map sorted_wrt_iff_nth_less less_eq_prod_def)
qed

lemma from_key_waiters:
  "trees_ok s \<Longrightarrow> takeWhile (\<lambda>t. w_condvar_key (wc_thread s t) = addr) (from_key T addr s) = waiters_at T addr s"
  unfolding from_key_def waiters_at_def by (rule sorted_group[OF sorted_keys(1)])

lemma wake_from_key:
  assumes ok: "inheritance_ok s" "sleeping T s"
  shows "\<exists>s'. arbiter_wake T addr count 0 (from_key T addr s) s = Some s' \<and> inheritance_ok s' \<and> sleeping T s' \<and>
    woken T (chosen count (waiters_at T addr s)) s s'"
proof -
  have tr: "trees_ok s" using ok(1) by (simp add: inheritance_ok_def waits_ok_def)
  have d: "distinct (from_key T addr s)" using tr unfolding from_key_def by (simp add: trees_ok_def)
  have m: "w_condvar_tree (wc_thread s t) = Some T" if "t \<in> set (from_key T addr s)" for t
    using that tr set_dropWhileD[of t] unfolding from_key_def trees_ok_def by fast
  show ?thesis using arbiter_wake_ok[OF ok d m refl, where count = count and n = 0 and addr = addr] from_key_waiters[OF tr] by (auto simp: chosen_def)
qed

section \<open>Going to sleep\<close>

lemma enter_tree_trees:
  assumes tr: "trees_ok s" and t: "w_condvar_tree (wc_thread s t) = None" "waiting s t = None"
    and s1: "wc_thread s1 = (wc_thread s)(t := w)" "w_condvar_tree w = Some T" "w_waiting_lock w = None"
      "wc_tree s1 = (wc_tree s)(T := insert_by (condvar_less s1) t (wc_tree s T))" "GetPriority s1 = GetPriority s"
  shows "trees_ok s1"
proof -
  have T: "distinct (wc_tree s U)" "sorted (map (cv_key s) (wc_tree s U))" "x \<in> set (wc_tree s U) \<longleftrightarrow> w_condvar_tree (wc_thread s x) = Some U"
    for U x using tr unfolding trees_ok_def by blast+
  have nt: "t \<notin> set (wc_tree s U)" for U using T(3) t(1) by simp
  have "cv_key s1 x = cv_key s x" if "x \<noteq> t" for x using that s1(1,5) by (simp add: cv_key_def)
  then have "\<forall>x\<in>set (wc_tree s U). cv_key s1 x = cv_key s x" for U using nt[of U] by metis
  then have "map (cv_key s1) (wc_tree s U) = map (cv_key s) (wc_tree s U)" for U by simp
  then have o: "sorted (map (cv_key s1) (wc_tree s U))" for U using T(2)[of U] by (simp only:)
  have "sorted (map (cv_key s1) (wc_tree s1 U))" for U
    using o[of U] sorted_insert_by[OF o[of T], of "condvar_less s1" t] s1(4) by (simp add: condvar_less_key)
  moreover have "distinct (wc_tree s1 U)" for U using distinct_insert_by[OF T(1)[of T] nt[of T]] T(1)[of U] s1(4) by simp
  moreover have "x \<in> set (wc_tree s1 U) \<longleftrightarrow> w_condvar_tree (wc_thread s1 x) = Some U" for x U
    using T(3)[of x U] nt[of U] s1(1,2,4) by auto
  moreover have "w_condvar_tree (wc_thread s1 x) \<noteq> None \<Longrightarrow> waiting s1 x = None" for x
    using tr s1(1,3) unfolding trees_ok_def by (auto split: if_splits)
  ultimately show ?thesis unfolding trees_ok_def by blast
qed

definition idle :: "nat \<Rightarrow> WaitCore \<Rightarrow> bool" where
  "idle t s \<longleftrightarrow> waiting s t = None \<and> w_condvar_tree (wc_thread s t) = None"

lemma sleep_ok:
  assumes ok: "inheritance_ok s" and t: "idle t s"
    and s1: "s1 = wait_tree_add T t (on_wait t f s)"
    and f: "w_condvar_tree (f (wc_thread s t)) = Some T" "w_waiting_lock (f (wc_thread s t)) = None" "w_held_locks (f (wc_thread s t)) = held s t"
      "w_base_priority (f (wc_thread s t)) = base s t"
  shows "\<exists>s2. BeginWait t q s1 = Some s2 \<and> inheritance_ok s2 \<and> is_waiting t s2 \<and>
    wc_thread s2 = (wc_thread s)(t := (f (wc_thread s t))\<lparr>w_wait_queue := Some q\<rparr>) \<and>
    wc_tree s2 = (wc_tree s)(T := insert_by (condvar_less s2) t (wc_tree s T)) \<and> wc_memory s2 = wc_memory s \<and>
    k_info (wc_kernel s2) = k_info (wc_kernel s) \<and> (\<forall>x. x \<noteq> t \<longrightarrow> k_thread (wc_kernel s2) x = k_thread (wc_kernel s) x) \<and> owner_of s2 = owner_of s"
proof -
  have wo: "waits_ok s" and lk: "locks_ok {} s" and i: "sched_inv (wc_kernel s)" and v: "valid_thread (k_info (wc_kernel s) t)"
    using ok by (simp_all add: inheritance_ok_def waits_ok_def)
  obtain k' where k': "set_state t ThreadState_Waiting (wc_kernel s) = Some k'"
    "restated t ((GetRawState t (wc_kernel s) AND NOT ThreadState_Mask) OR (ThreadState_Waiting AND ThreadState_Mask)) (wc_kernel s) k'"
    using set_state_ok[OF i v, of ThreadState_Waiting] by blast
  define s2 where "s2 = on_wait t (\<lambda>w. w\<lparr>w_wait_queue := Some q\<rparr>) (s1\<lparr>wc_kernel := k'\<rparr>)"
  have k1: "wc_kernel s1 = wc_kernel s" unfolding s1 by simp
  have b: "BeginWait t q s1 = Some s2" using k'(1) k1 by (simp add: BeginWait_def try_kernel_def s2_def)
  have info: "k_info k' = k_info (wc_kernel s)" "sched_inv k'" using k'(2) by (simp_all add: restated_def)
  have th: "wc_thread s2 = (wc_thread s)(t := (f (wc_thread s t))\<lparr>w_wait_queue := Some q\<rparr>)" "wc_lock s2 = wc_lock s" "wc_free_locks s2 = wc_free_locks s"
    "wc_memory s2 = wc_memory s" "wc_kernel s2 = k'" unfolding s2_def s1 by (simp_all add: wait_tree_add_def on_wait_def fun_eq_iff)
  have p: "GetPriority s2 = GetPriority s" using info th(5) by (simp add: GetPriority_def fun_eq_iff)
  have "condvar_less (on_wait t f s) = condvar_less s2"
    using th(1) p by (simp add: condvar_less_def fun_eq_iff)
  then have tr2: "wc_tree s2 = (wc_tree s)(T := insert_by (condvar_less s2) t (wc_tree s T))" unfolding s2_def s1 by (simp add: wait_tree_add_def on_wait_def)
  have T2: "trees_ok s2" by (rule enter_tree_trees[OF _ _ _ th(1) _ _ tr2 p]) (use wo t f in \<open>simp_all add: waits_ok_def idle_def\<close>)
  have w: "waiting s2 x = waiting s x" "held s2 x = held s x" for x using t f th(1) by (auto simp: idle_def)
  have lo: "lock_ok s2 ow l" if l: "l \<in> set (held s ow)" for ow l
  proof -
    have "x \<noteq> t" if "x \<in> set (tree_of s l)" for x using that waiting_tree[OF lk l, of x] t by (auto simp: idle_def)
    then show ?thesis using locks_okD(1)[OF lk l] w p th(1,2) unfolding lock_ok_def by auto
  qed
  have L2: "locks_ok {} s2" using lk lo unfolding locks_ok_def locks_of_def w th(2,3) by blast
  have o2: "owner_of s2 = owner_of s" using w th(2) by (simp add: owner_of_def GetLockOwner_def fun_eq_iff cong: option.case_cong)
  have b2: "base s2 = base s" using th(1) f(4) by (simp add: base_def fun_eq_iff)
  have "fair s2 = fair s" by (simp add: fair_def waiters_def o2 b2 p fun_eq_iff)
  then have "inheritance_ok s2" using ok T2 L2 o2 b2 p info th(5) by (simp add: inheritance_ok_def waits_ok_def)
  moreover have "is_waiting t s2"
    using k'(2) th(5) by (simp add: is_waiting_def restated_def GetState_def GetRawState_def mask_state) (simp add: ThreadState_Waiting_def ThreadState_Mask_def)
  ultimately show ?thesis using b th tr2 info k'(2) o2 by (auto simp: restated_def)
qed

text \<open>Timers and user memory do not matter to the structure.\<close>

lemma inheritance_outside [simp]:
  "inheritance_ok (s\<lparr>wc_timer_tasks := x\<rparr>) = inheritance_ok s" "inheritance_ok (s\<lparr>wc_memory := m\<rparr>) = inheritance_ok s"
proof -
  have a: "inheritance_ok s'" if "inheritance_ok s" "s' = s\<lparr>wc_timer_tasks := x\<rparr> \<or> s' = s\<lparr>wc_memory := m\<rparr>" for s s' x m
    using inheritance_same[OF that(1), of s'] that(1,2)
    by (auto simp: same_waits_def GetPriority_def base_def fun_eq_iff inheritance_ok_def waits_ok_def)
  show "inheritance_ok (s\<lparr>wc_timer_tasks := x\<rparr>) = inheritance_ok s"
    using a[of s "s\<lparr>wc_timer_tasks := x\<rparr>"] a[of "s\<lparr>wc_timer_tasks := x\<rparr>" s "wc_timer_tasks s"] by auto
  show "inheritance_ok (s\<lparr>wc_memory := m\<rparr>) = inheritance_ok s"
    using a[of s "s\<lparr>wc_memory := m\<rparr>"] a[of "s\<lparr>wc_memory := m\<rparr>" s _ "wc_memory s"] by auto
qed

lemma sleep_registered_ok:
  assumes ok: "inheritance_ok s" "sleeping T s" and t: "idle t s"
    and f: "w_condvar_tree (f (wc_thread s t)) = Some T" "w_waiting_lock (f (wc_thread s t)) = None" "w_held_locks (f (wc_thread s t)) = held s t"
      "w_base_priority (f (wc_thread s t)) = base s t" "w_condvar_key (f (wc_thread s t)) = key"
  shows "\<exists>s'. map_option (RegisterSleep t timeout) (BeginWait t q (wait_tree_add T t (on_wait t f s))) = Some s' \<and> inheritance_ok s' \<and>
    sleeping T s' \<and> is_waiting t s' \<and> t \<in> set (waiters_at T key s') \<and> wc_memory s' = wc_memory s \<and> GetPriority s' = GetPriority s \<and>
    owner_of s' = owner_of s \<and> wc_thread s' = (wc_thread s)(t := (f (wc_thread s t))\<lparr>w_wait_queue := Some q\<rparr>) \<and>
    (\<forall>x. x \<noteq> t \<longrightarrow> k_thread (wc_kernel s') x = k_thread (wc_kernel s) x)"
proof -
  obtain s2 where s2: "BeginWait t q (wait_tree_add T t (on_wait t f s)) = Some s2" "inheritance_ok s2" "is_waiting t s2"
    "wc_thread s2 = (wc_thread s)(t := (f (wc_thread s t))\<lparr>w_wait_queue := Some q\<rparr>)"
    "wc_tree s2 = (wc_tree s)(T := insert_by (condvar_less s2) t (wc_tree s T))" "wc_memory s2 = wc_memory s"
    "k_info (wc_kernel s2) = k_info (wc_kernel s)" "\<And>x. x \<noteq> t \<Longrightarrow> k_thread (wc_kernel s2) x = k_thread (wc_kernel s) x" "owner_of s2 = owner_of s"
    using sleep_ok[where f = f and T = T and q = q, OF ok(1) t refl f(1-4)] by blast
  define s3 where "s3 = RegisterSleep t timeout s2"
  have r: "s3 = s2 \<or> (\<exists>x. s3 = s2\<lparr>wc_timer_tasks := x\<rparr>)" by (auto simp: s3_def RegisterSleep_def)
  have same: "wc_thread s3 = wc_thread s2" "wc_kernel s3 = wc_kernel s2" "wc_tree s3 = wc_tree s2" "wc_memory s3 = wc_memory s2" "wc_lock s3 = wc_lock s2" "inheritance_ok s3"
    using r s2(2) by auto
  have "sleeping T s3" unfolding sleeping_def is_waiting_def same
  proof (intro allI impI)
    fix x assume x: "w_condvar_tree (wc_thread s2 x) = Some T"
    show "GetState (k_thread (wc_kernel s2) x) = ThreadState_Waiting \<and> w_wait_queue (wc_thread s2 x) \<noteq> None"
    proof (cases "x = t")
      case True
      then show ?thesis using s2(3,4) by (simp add: is_waiting_def)
    next
      case False
      then show ?thesis using x ok(2) s2(4) s2(8)[OF False] by (simp add: sleeping_def is_waiting_def)
    qed
  qed
  moreover have "is_waiting t s3" using s2(3) same(2) by (simp add: is_waiting_def)
  moreover have "t \<in> set (waiters_at T key s3)" using s2(4,5) same(1,3) f(5) by (simp add: waiters_at_def)
  moreover have "GetPriority s3 = GetPriority s" using s2(7) same(2) by (simp add: GetPriority_def fun_eq_iff)
  moreover have "owner_of s3 = owner_of s" using s2(9) same(1,5) by (simp add: owner_of_def GetLockOwner_def fun_eq_iff cong: option.case_cong)
  ultimately show ?thesis using same(1,2,4,6) s2(1,4,6,8) by (auto simp: s3_def)
qed

lemma arbiter_sleep_ok:
  assumes ok: "inheritance_ok s" "sleeping (ArbiterTree p) s" and t: "idle (current_thread s) s"
  shows "\<exists>s'. arbiter_sleep p addr timeout s = Some (Waiting, s') \<and> inheritance_ok s' \<and> sleeping (ArbiterTree p) s' \<and>
    is_waiting (current_thread s) s' \<and> current_thread s \<in> set (waiters_at (ArbiterTree p) addr s') \<and> wc_memory s' = wc_memory s \<and>
    GetPriority s' = GetPriority s"
proof -
  let ?t = "current_thread s" and ?T = "ArbiterTree p" and ?q = "ArbiterQueue (ArbiterTree p) (timeout > 0)"
  let ?f = "\<lambda>w. w\<lparr>w_condvar_tree := Some ?T, w_condvar_key := addr\<rparr>"
  obtain s' where s': "map_option (RegisterSleep ?t timeout) (BeginWait ?t ?q (wait_tree_add ?T ?t (on_wait ?t ?f s))) = Some s'" "inheritance_ok s'"
    "sleeping ?T s'" "is_waiting ?t s'" "?t \<in> set (waiters_at ?T addr s')" "wc_memory s' = wc_memory s" "GetPriority s' = GetPriority s"
    using sleep_registered_ok[OF ok t, where f = ?f and key = addr and q = ?q and timeout = timeout] t by (auto simp: idle_def base_def)
  have "arbiter_sleep p addr timeout s = Some (Waiting, s')"
    using s'(1) by (auto simp: arbiter_sleep_def SetAddressArbiter_def Let_def option.map_comp comp_def)
  then show ?thesis using s'(2-7) by blast
qed

section \<open>The word of an address\<close>

lemma UpdateIfEqual_result:
  assumes "UpdateIfEqual others a val new_value s = (v, s1)"
  shows "\<exists>m. s1 = s\<lparr>wc_memory := m\<rparr> \<and> (\<forall>b. b \<noteq> a \<longrightarrow> m b = wc_memory s b) \<and> (v = val \<longrightarrow> m a = new_value) \<and> (v \<noteq> val \<longrightarrow> m a = v)"
  using assms
proof (induction others arbitrary: s)
  case Nil
  show ?case
  proof (cases "wc_memory s a = val")
    case True
    then show ?thesis using Nil by (intro exI[of _ "(wc_memory s)(a := new_value)"])
        (auto simp: UpdateIfEqual.simps Let_def ReadFromUser_def WriteToUser_def fun_upd_def)
  next
    case False
    then show ?thesis using Nil by (intro exI[of _ "wc_memory s"]) (auto simp: UpdateIfEqual.simps Let_def ReadFromUser_def)
  qed
next
  case (Cons x others)
  show ?case
  proof (cases "wc_memory s a = val")
    case True
    then have "UpdateIfEqual others a val new_value (WriteToUser a x s) = (v, s1)" using Cons.prems
      by (subst (asm) UpdateIfEqual.simps) (simp add: Let_def ReadFromUser_def)
    from Cons.IH[OF this] show ?thesis by (auto simp: WriteToUser_def)
  next
    case False
    then show ?thesis using Cons.prems by (intro exI[of _ "wc_memory s"])
        (subst (asm) UpdateIfEqual.simps, auto simp: Let_def ReadFromUser_def)
  qed
qed

lemma count_more_less:
  assumes "n \<le> count"
  shows "count_more addr count n ts s < count \<longleftrightarrow> n + int (length (takeWhile (\<lambda>t. w_condvar_key (wc_thread s t) = addr) ts)) < count"
  using assms by (induction ts arbitrary: n) auto

text \<open>The new word, from the number of waiters.\<close>

definition word_after :: "nat \<Rightarrow> int \<Rightarrow> u32 \<Rightarrow> u32" where
  "word_after n count val = (if n = 0 then val + 1 else if count \<le> 0 then val - 2 else if int n \<le> count then val - 1 else val)"

lemma modified_value_waiters:
  assumes "trees_ok s"
  shows "modified_value addr val count (from_key T addr s) s = word_after (length (waiters_at T addr s)) count val"
proof -
  let ?P = "\<lambda>t. w_condvar_key (wc_thread s t) = addr"
  have w: "waiters_at T addr s = takeWhile ?P (from_key T addr s)" using from_key_waiters[OF assms] by simp
  show ?thesis
  proof (cases "from_key T addr s")
    case (Cons t ts)
    then show ?thesis using count_more_less[of 0 count addr ts s] unfolding w by (auto simp: modified_value_def word_after_def)
  qed (simp add: w modified_value_def word_after_def)
qed

section \<open>Properties of arbitration\<close>

text \<open>C38: Signalling an address wakes the waiters of this address in order of priority: all of them, or the first \<open>count\<close> if \<open>count\<close> is
  positive. The woken threads have left the tree, are runnable and get success as the result of their wait; every other
  thread keeps its place and state, and priority inheritance stays exact.\<close>

theorem arbiter_signal_wakes_best:
  assumes "inheritance_ok s" "sleeping (ArbiterTree p) s"
  shows "\<exists>s'. KAddressArbiter_Signal p addr count s = Some (ResultSuccess, s') \<and> inheritance_ok s' \<and> sleeping (ArbiterTree p) s' \<and>
    woken (ArbiterTree p) (chosen count (waiters_at (ArbiterTree p) addr s)) s s' \<and>
    sorted (map (GetPriority s) (waiters_at (ArbiterTree p) addr s))"
proof -
  have "sorted (map (GetPriority s) (waiters_at (ArbiterTree p) addr s))"
    using assms(1) by (intro sorted_keys) (simp add: inheritance_ok_def waits_ok_def)
  then show ?thesis using wake_from_key[OF assms, of addr count] by (auto simp: KAddressArbiter_Signal_def)
qed

text \<open>The current thread of the sample goes to sleep at address 64.\<close>

lemma sample_sleeps:
  "\<exists>s. arbiter_sleep 0 64 5 sample_waits = Some (Waiting, s) \<and> inheritance_ok s \<and> sleeping (ArbiterTree 0) s \<and>
     10 \<in> set (waiters_at (ArbiterTree 0) 64 s) \<and> wc_memory s = (\<lambda>a. 0)"
proof -
  have "sleeping (ArbiterTree 0) sample_waits" by (simp add: sleeping_def sample_waits_def)
  moreover have "idle (current_thread sample_waits) sample_waits" by (simp add: idle_def sample_waits_def)
  moreover have "current_thread sample_waits = 10" "wc_memory sample_waits = (\<lambda>a. 0)" by (simp_all add: sample_waits_def sample_kernel_def)
  ultimately show ?thesis using arbiter_sleep_ok[OF sample_waits_ok, of 0 64 5] by auto
qed

theorem arbiter_signal_wakes_best_witness:
  "\<exists>s s'. 10 \<in> set (waiters_at (ArbiterTree 0) 64 s) \<and> KAddressArbiter_Signal 0 64 1 s = Some (ResultSuccess, s') \<and>
     woken (ArbiterTree 0) (chosen 1 (waiters_at (ArbiterTree 0) 64 s)) s s'"
  using sample_sleeps arbiter_signal_wakes_best by metis

text \<open>C39: \<open>SignalAndModifyByWaitingCountIfEqual\<close> either finds a word other than the expected one, reports an invalid state and wakes
  nobody, or leaves the word that belongs to the number of waiters: one more if there are none, two less if all are to
  be woken, one less if they are at most \<open>count\<close>, and else the same; it then wakes the chosen waiters. This holds
  whatever other cores store at the address in between.\<close>

theorem modify_by_waiting_count_exact:
  assumes "inheritance_ok s" "sleeping (ArbiterTree p) s"
  shows "\<exists>s'. (\<exists>m. wc_memory s' = m \<and> (\<forall>b. b \<noteq> addr \<longrightarrow> m b = wc_memory s b)) \<and> inheritance_ok s' \<and>
    (SignalAndModifyByWaitingCountIfEqual others p addr val count s = Some (ResultInvalidState, s') \<and>
       wc_memory s' addr \<noteq> val \<and> wc_thread s' = wc_thread s \<and> wc_tree s' = wc_tree s \<and> wc_kernel s' = wc_kernel s \<or>
     SignalAndModifyByWaitingCountIfEqual others p addr val count s = Some (ResultSuccess, s') \<and>
       wc_memory s' addr = word_after (length (waiters_at (ArbiterTree p) addr s)) count val \<and>
       (\<exists>m. woken (ArbiterTree p) (chosen count (waiters_at (ArbiterTree p) addr s)) (s\<lparr>wc_memory := m\<rparr>) s'))"
proof -
  let ?T = "ArbiterTree p"
  let ?n = "word_after (length (waiters_at ?T addr s)) count val"
  have tr: "trees_ok s" using assms(1) by (simp add: inheritance_ok_def waits_ok_def)
  obtain v s1 where r: "(if val \<noteq> ?n then UpdateIfEqual others addr val ?n s else (ReadFromUser addr s, s)) = (v, s1)" by fastforce
  obtain m where m: "s1 = s\<lparr>wc_memory := m\<rparr>" "\<And>b. b \<noteq> addr \<Longrightarrow> m b = wc_memory s b" "v = val \<Longrightarrow> m addr = ?n" "v \<noteq> val \<Longrightarrow> m addr = v"
  proof (cases "val = ?n")
    case True
    then have "s1 = s\<lparr>wc_memory := wc_memory s\<rparr>" "v = wc_memory s addr" using r by (auto simp: ReadFromUser_def)
    then show ?thesis using that[of "wc_memory s"] True by auto
  next
    case False
    then show ?thesis using r UpdateIfEqual_result[of others addr val ?n s v s1] that by auto
  qed
  have fk: "from_key ?T addr s1 = from_key ?T addr s" using m(1) by (simp add: from_key_def)
  have run: "SignalAndModifyByWaitingCountIfEqual others p addr val count s =
     (if v \<noteq> val then Some (ResultInvalidState, s1)
      else map_option (Pair ResultSuccess) (arbiter_wake ?T addr count 0 (from_key ?T addr s1) s1))"
    unfolding SignalAndModifyByWaitingCountIfEqual_def Let_def modified_value_waiters[OF tr] r prod.case fk ..
  have s1: "inheritance_ok s1" "sleeping ?T s1" "waiters_at ?T addr s1 = waiters_at ?T addr s"
    using assms m(1) by (simp_all add: sleeping_def is_waiting_def waiters_at_def)
  show ?thesis
  proof (cases "v = val")
    case False
    then show ?thesis using run s1(1) m by (intro exI[of _ s1]) auto
  next
    case True
    obtain s' where s': "arbiter_wake ?T addr count 0 (from_key ?T addr s1) s1 = Some s'" "inheritance_ok s'"
      "woken ?T (chosen count (waiters_at ?T addr s)) s1 s'" using wake_from_key[OF s1(1,2), of addr count] s1(3) by auto
    have "wc_memory s' = m" using s'(3) m(1) by (simp add: woken_def)
    then show ?thesis using run True s' m by (intro exI[of _ s']) auto
  qed
qed

theorem modify_by_waiting_count_exact_witness:
  "\<exists>s s'. length (waiters_at (ArbiterTree 0) 64 s) > 0 \<and> inheritance_ok s' \<and>
     (SignalAndModifyByWaitingCountIfEqual [7, 0] 0 64 0 1 s = Some (ResultInvalidState, s') \<or>
      SignalAndModifyByWaitingCountIfEqual [7, 0] 0 64 0 1 s = Some (ResultSuccess, s'))"
proof -
  obtain s where s: "inheritance_ok s" "sleeping (ArbiterTree 0) s" "10 \<in> set (waiters_at (ArbiterTree 0) 64 s)" using sample_sleeps by blast
  then have "length (waiters_at (ArbiterTree 0) 64 s) > 0" by (auto simp: length_pos_if_in_set)
  then show ?thesis using modify_by_waiting_count_exact[OF s(1,2), of 64 "[7, 0]" 0 1] by blast
qed

text \<open>No wake-up is lost: a thread that finds the expected word goes to sleep, and a signal of the address wakes it with success.\<close>

theorem wait_then_signal_wakes:
  assumes "inheritance_ok s" "sleeping (ArbiterTree p) s" "idle (current_thread s) s" "\<not> is_terminating (current_thread s) s"
    "wc_memory s addr = val" "timeout \<noteq> 0"
  shows "\<exists>s1 s2. WaitIfEqual p addr val timeout s = Some (Waiting, s1) \<and> is_waiting (current_thread s) s1 \<and>
    KAddressArbiter_Signal p addr 0 s1 = Some (ResultSuccess, s2) \<and>
    GetState (k_thread (wc_kernel s2) (current_thread s)) = ThreadState_Runnable \<and>
    w_wait_result (wc_thread s2 (current_thread s)) = ResultSuccess \<and> idle (current_thread s) s2"
proof -
  let ?T = "ArbiterTree p"
  obtain s1 where s1: "arbiter_sleep p addr timeout s = Some (Waiting, s1)" "inheritance_ok s1" "sleeping ?T s1" "is_waiting (current_thread s) s1"
    "current_thread s \<in> set (waiters_at ?T addr s1)" using arbiter_sleep_ok[OF assms(1-3)] by blast
  have w: "WaitIfEqual p addr val timeout s = Some (Waiting, s1)" using s1(1) assms(4-6) by (simp add: WaitIfEqual_def ReadFromUser_def)
  obtain s2 where s2: "arbiter_wake ?T addr 0 0 (from_key ?T addr s1) s1 = Some s2" "woken ?T (chosen 0 (waiters_at ?T addr s1)) s1 s2" "inheritance_ok s2"
    using wake_from_key[OF s1(2,3), of addr 0] by blast
  have e: "GetState (k_thread (wc_kernel s2) (current_thread s)) = ThreadState_Runnable"
    "wc_thread s2 (current_thread s) = (wc_thread s1 (current_thread s))\<lparr>w_wait_result := ResultSuccess, w_wait_queue := None, w_condvar_tree := None\<rparr>"
    using s2(2) s1(5) by (simp_all add: woken_def chosen_def)
  have "waiting s1 (current_thread s) = None"
    using s1(2,5) unfolding inheritance_ok_def waits_ok_def trees_ok_def waiters_at_def by auto
  then have "idle (current_thread s) s2" using e(2) by (simp add: idle_def)
  then show ?thesis using w s1(4) s2(1) e by (auto simp: KAddressArbiter_Signal_def)
qed

theorem wait_then_signal_wakes_witness:
  "\<exists>s1 s2. WaitIfEqual 0 64 0 5 sample_waits = Some (Waiting, s1) \<and> KAddressArbiter_Signal 0 64 0 s1 = Some (ResultSuccess, s2) \<and>
    GetState (k_thread (wc_kernel s2) 10) = ThreadState_Runnable"
proof -
  have "sleeping (ArbiterTree 0) sample_waits" "idle (current_thread sample_waits) sample_waits" "wc_memory sample_waits 64 = 0"
    by (simp_all add: sleeping_def idle_def sample_waits_def)
  moreover have "\<not> is_terminating (current_thread sample_waits) sample_waits" "current_thread sample_waits = 10"
    by (simp_all add: is_terminating_def sample_waits_def sample_kernel_def sample_thread_def IsTerminationRequested_def
        ThreadState_Initialized_def ThreadState_Terminated_def)
  ultimately show ?thesis using wait_then_signal_wakes[OF sample_waits_ok, of 0 64 0 5] by auto
qed

end
