(* ===== verification/Condition_Variables.thy ===== *)
theory Condition_Variables
  imports Arbitration
begin

text \<open>
  Locks and condition variables of user code (\<open>KConditionVariable\<close> of \<open>K_Condition_Variable\<close>): handing over a lock
  with its word in user memory, and what signalling a condition variable does to its waiters.
\<close>

section \<open>Handing over a user lock\<close>

lemma kept_wait:
  assumes "kept s s'"
  shows "w_address_key_value (wc_thread s' t) = w_address_key_value (wc_thread s t)" "w_address_key (wc_thread s' t) = w_address_key (wc_thread s t)"
    "w_is_kernel_address_key (wc_thread s' t) = w_is_kernel_address_key (wc_thread s t)" "w_condvar_key (wc_thread s' t) = w_condvar_key (wc_thread s t)"
    "w_wait_queue (wc_thread s' t) = w_wait_queue (wc_thread s t)" "w_condvar_tree (wc_thread s' t) = w_condvar_tree (wc_thread s t)"
    "w_wait_result (wc_thread s' t) = w_wait_result (wc_thread s t)" "is_waiting t s' = is_waiting t s" "wc_memory s' = wc_memory s"
    "current_thread s' = current_thread s"
proof -
  obtain hl wl where "wc_thread s' t = (wc_thread s t)\<lparr>w_held_locks := hl, w_waiting_lock := wl\<rparr>" using keptE[OF assms] by blast
  then show "w_address_key_value (wc_thread s' t) = w_address_key_value (wc_thread s t)" "w_address_key (wc_thread s' t) = w_address_key (wc_thread s t)"
    "w_is_kernel_address_key (wc_thread s' t) = w_is_kernel_address_key (wc_thread s t)" "w_condvar_key (wc_thread s' t) = w_condvar_key (wc_thread s t)"
    "w_wait_queue (wc_thread s' t) = w_wait_queue (wc_thread s t)" "w_condvar_tree (wc_thread s' t) = w_condvar_tree (wc_thread s t)"
    "w_wait_result (wc_thread s' t) = w_wait_result (wc_thread s t)" by simp_all
  show "is_waiting t s' = is_waiting t s" using assms by (simp add: is_waiting_def GetState_def kept_def)
  show "wc_memory s' = wc_memory s" "current_thread s' = current_thread s" using assms by (simp_all add: kept_def settled_def)
qed

lemma memory_waits [simp]:
  "owner_of (WriteToUser a v s) = owner_of s" "is_waiting t (WriteToUser a v s) = is_waiting t s" "wc_thread (WriteToUser a v s) = wc_thread s"
  "wc_lock (WriteToUser a v s) = wc_lock s" "wc_tree (WriteToUser a v s) = wc_tree s" "wc_kernel (WriteToUser a v s) = wc_kernel s"
  "inheritance_ok (WriteToUser a v s) = inheritance_ok s" "wc_memory (WriteToUser a v s) = (wc_memory s)(a := v)"
  "GetPriority (WriteToUser a v s) = GetPriority s" "wc_free_locks (WriteToUser a v s) = wc_free_locks s"
  by (simp_all add: WriteToUser_def owner_of_def GetLockOwner_def is_waiting_def GetPriority_def fun_eq_iff cong: option.case_cong)

lemma ended_owner: "ended t r s s' \<Longrightarrow> owner_of s' = owner_of s"
  by (auto simp: ended_def owner_of_def GetLockOwner_def fun_eq_iff split: option.splits)

text \<open>The word of a lock with next owner \<open>nx\<close>.\<close>

definition lock_word :: "nat \<Rightarrow> bool \<Rightarrow> WaitCore \<Rightarrow> u32" where
  "lock_word nx others_wait s = (if others_wait then w_address_key_value (wc_thread s nx) OR HandleWaitMask else w_address_key_value (wc_thread s nx))"

text \<open>The waiters of the current thread's lock at an address sleep in a queue.\<close>

definition lock_sleepers :: "nat \<Rightarrow> WaitCore \<Rightarrow> bool" where
  "lock_sleepers addr s \<longleftrightarrow> (\<forall>l t. FindHeldLock (current_thread s) addr False s = Some l \<longrightarrow> w_waiting_lock (wc_thread s t) = Some l \<longrightarrow>
     is_waiting t s \<and> w_wait_queue (wc_thread s t) \<noteq> None)"

lemma SignalToAddress_ok:
  assumes ok: "inheritance_ok s" and f: "FindHeldLock (current_thread s) addr False s = Some l"
    and sl: "lock_sleepers addr s"
  shows "\<exists>nx ws s'. tree_of s l = nx # ws \<and> SignalToAddress addr s = Some (ResultSuccess, s') \<and> inheritance_ok s' \<and>
    (\<forall>w\<in>set ws. GetPriority s nx \<le> GetPriority s w) \<and> wc_memory s' = (wc_memory s)(addr := lock_word nx (ws \<noteq> []) s) \<and>
    GetState (k_thread (wc_kernel s') nx) = ThreadState_Runnable \<and> w_wait_result (wc_thread s' nx) = ResultSuccess \<and>
    (\<forall>x. owner_of s' x = (if x = nx then None else if x \<in> set ws then Some nx else owner_of s x))"
proof -
  obtain nx ws s1 where r: "tree_of s l = nx # ws" "RemoveWaiterByKey (current_thread s) addr False s = Some ((Some nx, ws \<noteq> []), s1)"
    "inheritance_ok s1" "\<forall>x. owner_of s1 x = (if x = nx then None else if x \<in> set ws then Some nx else owner_of s x)" "kept s s1"
    "\<forall>w\<in>set ws. GetPriority s nx \<le> GetPriority s w" using RemoveWaiterByKey_ok[OF ok f] by blast
  have lk: "locks_ok {} s" using ok by (simp add: inheritance_ok_def waits_ok_def)
  have "waiting s nx = Some l" using waiting_tree[OF lk FindHeldLock_Some(1)[OF f]] r(1) by simp
  then have nx: "is_waiting nx s1" "w_wait_queue (wc_thread s1 nx) \<noteq> None" using sl f kept_wait(5,8)[OF r(5), of nx] by (simp_all add: lock_sleepers_def)
  have tag: "next_tag (Some nx) (ws \<noteq> []) s1 = lock_word nx (ws \<noteq> []) s"
    using kept_wait(1)[OF r(5)] by (simp add: next_tag_def lock_word_def Let_def)
  define s2 where "s2 = WriteToUser addr (lock_word nx (ws \<noteq> []) s) s1"
  have "inheritance_ok s2" "is_waiting nx s2" "w_wait_queue (wc_thread s2 nx) \<noteq> None" using r(3) nx by (simp_all add: s2_def)
  then obtain s3 where s3: "EndWait nx ResultSuccess s2 = Some s3" "ended nx ResultSuccess s2 s3" "inheritance_ok s3"
    using EndWait_ok[of s2 nx ResultSuccess] by blast
  have "SignalToAddress addr s = Some (ResultSuccess, s3)" using r(2) tag s3(1) by (simp add: SignalToAddress_def s2_def)
  moreover have "wc_memory s3 = (wc_memory s)(addr := lock_word nx (ws \<noteq> []) s)"
    using s3(2) kept_wait(9)[OF r(5)] by (simp add: ended_def s2_def)
  moreover have "owner_of s3 = owner_of s1" using ended_owner[OF s3(2)] by (simp add: s2_def)
  ultimately show ?thesis using r s3 by (auto simp: ended_def)
qed

section \<open>Signalling a condition variable\<close>













text \<open>What the signals of other threads leave alone.\<close>

definition undisturbed :: "nat \<Rightarrow> WaitCore \<Rightarrow> WaitCore \<Rightarrow> bool" where
  "undisturbed x s s' \<longleftrightarrow> w_condvar_tree (wc_thread s' x) = w_condvar_tree (wc_thread s x) \<and>
     w_condvar_key (wc_thread s' x) = w_condvar_key (wc_thread s x) \<and> w_address_key (wc_thread s' x) = w_address_key (wc_thread s x) \<and>
     w_address_key_value (wc_thread s' x) = w_address_key_value (wc_thread s x) \<and> w_wait_queue (wc_thread s' x) = w_wait_queue (wc_thread s x) \<and>
     w_wait_result (wc_thread s' x) = w_wait_result (wc_thread s x) \<and> owner_of s' x = owner_of s x \<and>
     th_state (k_thread (wc_kernel s') x) = th_state (k_thread (wc_kernel s) x)"





lemma sleeping_undisturbed:
  assumes "sleeping T s" "\<And>x. x \<noteq> t \<Longrightarrow> undisturbed x s s'" "w_condvar_tree (wc_thread s' t) \<noteq> Some T"
  shows "sleeping T s'"
proof -
  have "is_waiting x s' \<and> w_wait_queue (wc_thread s' x) \<noteq> None" if x: "w_condvar_tree (wc_thread s' x) = Some T" for x
  proof -
    have "x \<noteq> t" using x assms(3) by blast
    then have u: "undisturbed x s s'" by (rule assms(2))
    then have "w_condvar_tree (wc_thread s x) = Some T" using x by (simp add: undisturbed_def)
    then show ?thesis using assms(1) u by (simp add: sleeping_def undisturbed_def is_waiting_def GetState_def)
  qed
  then show ?thesis by (simp add: sleeping_def)
qed






section \<open>Waiting for a condition variable\<close>

lemma sleeping_kept: "sleeping T s \<Longrightarrow> kept s s' \<Longrightarrow> sleeping T s'"
  by (simp add: sleeping_def kept_wait)

lemma sleeping_ended:
  assumes "sleeping T s" "ended t r s s'" "w_condvar_tree (wc_thread s t) = None"
  shows "sleeping T s'"
proof -
  have "undisturbed x s s'" if "x \<noteq> t" for x using assms(2) ended_owner[OF assms(2)] that by (simp add: undisturbed_def ended_def)
  moreover have "w_condvar_tree (wc_thread s' t) \<noteq> Some T" using assms(2,3) by (simp add: ended_def)
  ultimately show ?thesis using sleeping_undisturbed[OF assms(1)] by blast
qed

lemma sleeping_memory [simp]: "sleeping T (WriteToUser a v s) = sleeping T s"
  by (simp add: sleeping_def)

text \<open>The lock of the current thread is handed over, if it has waiters; in any case the word of the lock is known.\<close>

definition released :: "nat \<Rightarrow> WaitCore \<Rightarrow> WaitCore \<Rightarrow> u32 \<Rightarrow> bool" where
  "released addr s s' v \<longleftrightarrow>
     (case FindHeldLock (current_thread s) addr False s of
        None \<Rightarrow> v = 0 \<and> owner_of s' = owner_of s
      | Some l \<Rightarrow> (\<exists>nx ws. li_tree (wc_lock s l) = nx # ws \<and> (\<forall>w\<in>set ws. GetPriority s nx \<le> GetPriority s w) \<and> v = lock_word nx (ws \<noteq> []) s \<and>
          GetState (k_thread (wc_kernel s') nx) = ThreadState_Runnable \<and> w_wait_result (wc_thread s' nx) = ResultSuccess \<and>
          (\<forall>x. owner_of s' x = (if x = nx then None else if x \<in> set ws then Some nx else owner_of s x))))"

lemma hand_over_before_sleep:
  assumes ok: "inheritance_ok s" "sleeping T s" and t: "idle (current_thread s) s"
    and sl: "lock_sleepers addr s"
  shows "\<exists>nx hw s1 s2. RemoveWaiterByKey (current_thread s) addr False s = Some ((nx, hw), s1) \<and>
    (case nx of None \<Rightarrow> Some s1 | Some t \<Rightarrow> EndWait t ResultSuccess s1) = Some s2 \<and> inheritance_ok s2 \<and> sleeping T s2 \<and>
    idle (current_thread s) s2 \<and> released addr s s2 (next_tag nx hw s1) \<and> wc_memory s2 = wc_memory s \<and> current_thread s2 = current_thread s"
proof (cases "FindHeldLock (current_thread s) addr False s")
  case None
  have r: "RemoveWaiterByKey (current_thread s) addr False s = Some ((None, False), s)" by (simp add: RemoveWaiterByKey_def None)
  have "released addr s s (next_tag None False s)" by (simp add: released_def None next_tag_def)
  then show ?thesis using r ok t by (intro exI[of _ None] exI[of _ False] exI[of _ s]) simp
next
  case (Some l)
  let ?c = "current_thread s"
  have lk: "locks_ok {} s" using ok(1) by (simp add: inheritance_ok_def waits_ok_def)
  obtain nx ws s1 where r: "tree_of s l = nx # ws" "RemoveWaiterByKey ?c addr False s = Some ((Some nx, ws \<noteq> []), s1)"
    "inheritance_ok s1" "\<forall>x. owner_of s1 x = (if x = nx then None else if x \<in> set ws then Some nx else owner_of s x)" "kept s s1"
    "\<forall>w\<in>set ws. GetPriority s nx \<le> GetPriority s w" using RemoveWaiterByKey_ok[OF ok(1) Some] by blast
  have wt: "waiting s x = Some l \<longleftrightarrow> x \<in> set (nx # ws)" for x using waiting_tree[OF lk FindHeldLock_Some(1)[OF Some], of x] r(1) by simp
  then have "waiting s nx = Some l" by simp
  moreover have "trees_ok s" using ok(1) by (simp add: inheritance_ok_def waits_ok_def)
  ultimately have nx: "is_waiting nx s1" "w_wait_queue (wc_thread s1 nx) \<noteq> None" "w_condvar_tree (wc_thread s nx) = None"
    using sl Some kept_wait(5,8)[OF r(5), of nx] unfolding trees_ok_def lock_sleepers_def by auto
  obtain s2 where s2: "EndWait nx ResultSuccess s1 = Some s2" "ended nx ResultSuccess s1 s2" "inheritance_ok s2"
    using EndWait_ok[OF r(3) nx(1,2), of ResultSuccess] by blast
  have o2: "owner_of s2 = owner_of s1" by (rule ended_owner[OF s2(2)])
  have lk2: "locks_ok {} s2" using s2(3) by (simp add: inheritance_ok_def waits_ok_def)
  have c: "?c \<notin> set (nx # ws)" using wt[of ?c] t by (simp add: idle_def)
  have "owner_of s2 ?c = None" using o2 r(4) c owner_of_None[of s ?c] t by (simp add: idle_def)
  moreover have "w_condvar_tree (wc_thread s2 ?c) = None" using s2(2) c t kept_wait(6)[OF r(5), of ?c] by (simp add: ended_def idle_def)
  ultimately have "idle ?c s2" using owner_of_None_iff[OF lk2] by (simp add: idle_def)
  moreover have "sleeping T s2" using sleeping_ended[OF sleeping_kept[OF ok(2) r(5)] s2(2)] nx(3) kept_wait(6)[OF r(5)] by simp
  moreover have "released addr s s2 (next_tag (Some nx) (ws \<noteq> []) s1)"
    using Some r s2(2) o2 kept_wait(1)[OF r(5), of nx] by (auto simp: released_def next_tag_def lock_word_def Let_def ended_def)
  moreover have "wc_memory s2 = wc_memory s" "current_thread s2 = ?c" using s2(2) kept_wait(9,10)[OF r(5)] by (simp_all add: ended_def)
  ultimately show ?thesis using r(2) s2(1,3) by (intro exI[of _ "Some nx"] exI[of _ "ws \<noteq> []"] exI[of _ s1] exI[of _ s2]) simp
qed

lemma condvar_wait_ok:
  assumes ok: "inheritance_ok s" "sleeping (CondVarTree p) s" and t: "idle (current_thread s) s" "\<not> is_terminating (current_thread s) s"
    and sl: "lock_sleepers addr s"
    and to: "timeout \<noteq> 0"
  shows "\<exists>s' v. KConditionVariable_Wait p addr key val timeout s = Some (Waiting, s') \<and> inheritance_ok s' \<and> sleeping (CondVarTree p) s' \<and>
    is_waiting (current_thread s) s' \<and> current_thread s \<in> set (waiters_at (CondVarTree p) key s') \<and>
    released addr s s' v \<and> wc_memory s' = (wc_memory s)(key := 1, addr := v)"
proof -
  let ?c = "current_thread s" and ?T = "CondVarTree p" and ?q = "CondVarQueue (CondVarTree p) (timeout > 0)"
  obtain nx hw s1 s2 where h: "RemoveWaiterByKey ?c addr False s = Some ((nx, hw), s1)"
    "(case nx of None \<Rightarrow> Some s1 | Some t \<Rightarrow> EndWait t ResultSuccess s1) = Some s2" "inheritance_ok s2" "sleeping ?T s2" "idle ?c s2"
    "released addr s s2 (next_tag nx hw s1)" "wc_memory s2 = wc_memory s" using hand_over_before_sleep[OF ok t(1) sl] by blast
  define v where "v = next_tag nx hw s1"
  define s3 where "s3 = WriteToUser addr v (WriteToUser key 1 s2)"
  let ?f = "\<lambda>w. w\<lparr>w_condvar_tree := Some ?T, w_condvar_key := key, w_address_key := addr, w_address_key_value := val, w_is_kernel_address_key := False\<rparr>"
  have ok3: "inheritance_ok s3" "sleeping ?T s3" "idle ?c s3" using h(3-5) by (simp_all add: s3_def idle_def)
  obtain s' where s': "map_option (RegisterSleep ?c timeout) (BeginWait ?c ?q (wait_tree_add ?T ?c (on_wait ?c ?f s3))) = Some s'" "inheritance_ok s'"
    "sleeping ?T s'" "is_waiting ?c s'" "?c \<in> set (waiters_at ?T key s')" "wc_memory s' = wc_memory s3" "owner_of s' = owner_of s3"
    "wc_thread s' = (wc_thread s3)(?c := (?f (wc_thread s3 ?c))\<lparr>w_wait_queue := Some ?q\<rparr>)"
    "\<And>x. x \<noteq> ?c \<Longrightarrow> k_thread (wc_kernel s') x = k_thread (wc_kernel s3) x"
    using sleep_registered_ok[OF ok3, where f = ?f and key = key and q = ?q and timeout = timeout] ok3(3) by (auto simp: idle_def base_def)
  have "released addr s s' v"
  proof (cases "FindHeldLock ?c addr False s")
    case None
    then show ?thesis using h(6) s'(7) by (simp add: released_def v_def s3_def)
  next
    case (Some l)
    have lk: "locks_ok {} s" using ok(1) by (simp add: inheritance_ok_def waits_ok_def)
    have "x \<noteq> ?c" if "x \<in> set (tree_of s l)" for x
      using that waiting_tree[OF lk FindHeldLock_Some(1)[OF Some], of x] t(1) by (auto simp: idle_def)
    then show ?thesis using h(6) Some s'(7,8,9) by (auto simp: released_def v_def s3_def)
  qed
  moreover have "wc_memory s' = (wc_memory s)(key := 1, addr := v)" using s'(6) h(7) by (simp add: s3_def)
  moreover have "KConditionVariable_Wait p addr key val timeout s = Some (Waiting, s')"
    using t(2) to h(1,2) s'(1) by (auto simp: KConditionVariable_Wait_def Let_def SetConditionVariable_def s3_def v_def bind_eq_Some_conv)
  ultimately show ?thesis using s'(2-5) by blast
qed

section \<open>Properties of condition variables\<close>

text \<open>C24: Unlocking a mutex of user code that others wait for hands it to a waiter of the best priority: the thread runs again with
  success, the word in user memory becomes its tag, with the wait mask exactly if others still wait, those wait for the
  new owner from then on, and every priority is again exactly the inherited one.\<close>

theorem user_unlock_hands_over:
  assumes "inheritance_ok s" "FindHeldLock (current_thread s) addr False s = Some l" "lock_sleepers addr s"
  shows "\<exists>nx ws s'. li_tree (wc_lock s l) = nx # ws \<and> SignalToAddress addr s = Some (ResultSuccess, s') \<and>
    (\<forall>w\<in>set ws. GetPriority s nx \<le> GetPriority s w) \<and> wc_memory s' = (wc_memory s)(addr := lock_word nx (ws \<noteq> []) s) \<and>
    GetState (k_thread (wc_kernel s') nx) = ThreadState_Runnable \<and> w_wait_result (wc_thread s' nx) = ResultSuccess \<and>
    (\<forall>x. owner_of s' x = (if x = nx then None else if x \<in> set ws then Some nx else owner_of s x)) \<and>
    inheritance_ok s' \<and> (\<forall>x. GetPriority s' x = inherited s' x)"
  using SignalToAddress_ok[OF assms] inherited_priority by blast

text \<open>In the sample thread 2 waits for a lock of thread 10, which is running.\<close>

lemma sample_contended:
  "\<exists>s l. FindHeldLock (current_thread s) 16 False s = Some l \<and> inheritance_ok s \<and> lock_sleepers 16 s"
proof -
  let ?s = sample_waits
  have wf: "waits_for ?s = {}" by (simp add: waits_for_def owner_of_def GetLockOwner_def sample_waits_def)
  have pre: "waiting ?s 2 = None" "w_condvar_tree (wc_thread ?s 2) = None" "2 < MaxThreads" using sample_can_wait by simp_all
  have "(10, 2) \<notin> (waits_for ?s)\<^sup>*" by (simp add: wf)
  from AddWaiter_ok[OF sample_waits_ok pre this] obtain s1 where
    s1: "inheritance_ok s1" "owner_of s1 = (owner_of ?s)(2 := Some 10)" "kept ?s s1" by blast
  have lk: "locks_ok {} s1" and v: "sched_inv (wc_kernel s1)" "valid_thread (k_info (wc_kernel s1) 2)" using s1(1) by (simp_all add: inheritance_ok_def waits_ok_def)
  obtain k where k: "set_state 2 ThreadState_Waiting (wc_kernel s1) = Some k"
    "restated 2 ((GetRawState 2 (wc_kernel s1) AND NOT ThreadState_Mask) OR (ThreadState_Waiting AND ThreadState_Mask)) (wc_kernel s1) k"
    using set_state_ok[OF v, of ThreadState_Waiting] by blast
  define s2 where "s2 = on_wait 2 (\<lambda>w. w\<lparr>w_wait_queue := Some WaitForAddressQueue\<rparr>) (s1\<lparr>wc_kernel := k\<rparr>)"
  have t2: "wc_kernel s2 = k" "wc_thread s2 = (wc_thread s1)(2 := (wc_thread s1 2)\<lparr>w_wait_queue := Some WaitForAddressQueue\<rparr>)" "wc_lock s2 = wc_lock s1"
    by (simp_all add: s2_def)
  have pr: "GetPriority s2 = GetPriority s1" using k(2) by (simp add: GetPriority_def s2_def restated_def fun_eq_iff)
  have "inheritance_ok s2"
    by (rule inheritance_same[OF s1(1)]) (use k(2) pr in \<open>simp_all add: s2_def same_waits_def base_def restated_def fun_eq_iff\<close>)
  moreover have "is_waiting 2 s2"
    using k(2) t2(1) by (simp add: is_waiting_def restated_def GetState_def GetRawState_def mask_state) (simp add: ThreadState_Waiting_def ThreadState_Mask_def)
  moreover have cur: "current_thread s2 = 10" using k(2) t2(1) kept_wait(10)[OF s1(3)] by (simp add: restated_def sample_waits_def sample_kernel_def)
  moreover have w: "waiting s2 t = waiting s1 t" "held s2 t = held s1 t" for t by (simp_all add: t2(2))
  have only: "t = 2" if "waiting s1 t \<noteq> None" for t
    using that s1(2) owner_of_None_iff[OF lk, of t] by (auto simp: owner_of_def GetLockOwner_def sample_waits_def split: if_splits)
  have "owner_of s1 2 = Some 10" using s1(2) by simp
  then obtain l where l: "waiting s1 2 = Some l" "l \<in> set (held s1 10)" by (rule owner_of_Some[OF lk])
  have "w_address_key (wc_thread s1 2) = 16 \<and> \<not> w_is_kernel_address_key (wc_thread s1 2)"
    using kept_wait(2,3)[OF s1(3), of 2] by (simp add: sample_waits_def)
  then have "li_address_key (wc_lock s1 l) = 16 \<and> li_is_kernel_address_key (wc_lock s1 l) = False"
    using locks_okD(1)[OF lk l(2)] waiting_tree[OF lk l(2)] l(1) unfolding lock_ok_def by fastforce
  then obtain m where "FindHeldLock 10 16 False s2 = Some m"
    using FindHeldLock_None[of 10 16 False s2 l] l(2) w t2(3) by (cases "FindHeldLock 10 16 False s2") auto
  moreover have "lock_sleepers 16 s2" using only w \<open>is_waiting 2 s2\<close> t2(2) by (auto simp: lock_sleepers_def)
  ultimately show ?thesis by (intro exI[of _ s2] exI[of _ m]) simp
qed

theorem user_unlock_hands_over_witness:
  "\<exists>s l nx ws s'. li_tree (wc_lock s l) = nx # ws \<and> SignalToAddress 16 s = Some (ResultSuccess, s') \<and>
    wc_memory s' = (wc_memory s)(16 := lock_word nx (ws \<noteq> []) s) \<and> (\<forall>x. GetPriority s' x = inherited s' x)"
proof -
  obtain s l where s: "FindHeldLock (current_thread s) 16 False s = Some l" "inheritance_ok s" "lock_sleepers 16 s" using sample_contended by blast
  show ?thesis using user_unlock_hands_over[OF s(2,1,3)] by blast
qed




end
