(* ===== verification/Light_Lock_Safety.thy ===== *)
theory Light_Lock_Safety
  imports K_Light_Lock Condition_Variables
begin

text \<open>
  Light locks under interleaving (\<open>K_Light_Lock\<close>): at most one thread is inside, a sleeping thread always has
  an owner that will take the slow path, and no step gets stuck.
\<close>

section \<open>Which lock a thread waits for\<close>

text \<open>Raising the priority of a thread that waits for nothing leaves the locks alone.\<close>

lemma restore_top:
  assumes "owner_of s ow = None" "RestorePriority ow s = Some s'"
  shows "wc_thread s' = wc_thread s \<and> wc_lock s' = wc_lock s"
proof -
  have o: "GetLockOwner ow s = None" using assms(1) by (simp add: owner_of_def)
  obtain nx s1 where r: "restore_one ow s = Some (nx, s1)" using assms(2) by (subst (asm) RestorePriority.simps) (auto simp: bind_eq_Some_conv)
  have "nx = None \<and> wc_thread s1 = wc_thread s \<and> wc_lock s1 = wc_lock s"
    using r o by (auto simp: restore_one_def bind_eq_Some_conv Let_def try_kernel_def SetPriority_def on_kernel_def wait_tree_add_def wait_tree_erase_def
        split: if_splits option.splits)
  then show ?thesis using assms(2) r by (subst (asm) RestorePriority.simps) simp
qed

lemma AddWaiterImpl_joins:
  assumes "AddWaiterImpl ow t s = Some s'" "FindHeldLock ow (w_address_key (wc_thread s t)) (w_is_kernel_address_key (wc_thread s t)) s = Some l"
  shows "waiting s' t = Some l" "x \<noteq> t \<Longrightarrow> waiting s' x = waiting s x"
proof -
  let ?s1 = "if w_is_kernel_address_key (wc_thread s t) then on_kernel (SetSchedulerUpdateNeeded \<circ> add_kernel_waiters ow 1) s else s"
  have "FindHeldLock ow (w_address_key (wc_thread s t)) (w_is_kernel_address_key (wc_thread s t)) ?s1 = Some l"
    using assms(2) by (simp add: FindHeldLock_def del: find.simps cong: if_cong) auto
  then have "s' = LockInfo_AddWaiter l t ?s1" using assms(1) by (simp add: AddWaiterImpl_def Let_def)
  then show "waiting s' t = Some l" "x \<noteq> t \<Longrightarrow> waiting s' x = waiting s x" by (simp_all add: LockInfo_AddWaiter_def)
qed

lemma AddWaiter_joins:
  assumes "AddWaiter ow t s = Some s'" "FindHeldLock ow (w_address_key (wc_thread s t)) (w_is_kernel_address_key (wc_thread s t)) s = Some l"
    and "waiting s ow = None" "ow \<noteq> t"
  shows "waiting s' t = Some l" "x \<noteq> t \<Longrightarrow> waiting s' x = waiting s x"
proof -
  obtain s1 where s1: "AddWaiterImpl ow t s = Some s1" and r: "(if GetPriority s1 t < GetPriority s1 ow then RestorePriority ow s1 else Some s1) = Some s'"
    using assms(1) by (auto simp: AddWaiter_def bind_eq_Some_conv)
  note J = AddWaiterImpl_joins[OF s1 assms(2)]
  have "owner_of s1 ow = None" using J(2)[OF assms(4)] assms(3) by (intro owner_of_None) simp
  then have "wc_thread s' = wc_thread s1" using r restore_top[of s1 ow s'] by (auto split: if_splits)
  then show "waiting s' t = Some l" "x \<noteq> t \<Longrightarrow> waiting s' x = waiting s x" using J by simp_all
qed

lemma RemoveWaiterByKey_waiting:
  assumes ok: "locks_ok {} s" and f: "FindHeldLock ow key ker s = Some l" and tr: "tree_of s l = nx # ws" and w: "waiting s ow = None"
    and r: "RemoveWaiterByKey ow key ker s = Some (res, s')"
  shows "waiting s' x = (if x = nx then None else waiting s x)"
proof -
  obtain s4 where s4: "same_waits (after_hand_over ow l nx (ws = []) s) s4" and
    run: "RemoveWaiterByKey ow key ker s = map_option (Pair (Some nx, ws \<noteq> []))
      (if GetPriority s4 ow = GetPriority s4 nx \<and> GetPriority s4 ow < w_base_priority (wc_thread s4 ow) then RestorePriority ow s4 else Some s4)"
    using RemoveWaiterByKey_hand_over[OF ok f tr] by blast
  have h: "waiting (after_hand_over ow l nx (ws = []) s) x = (if x = nx then None else waiting s x)" for x
    by (simp add: after_hand_over_def Let_def LockInfo_RemoveWaiter_def LockInfo_Free_def AddHeldLock_def)
  have w4: "waiting s4 x = (if x = nx then None else waiting s x)" for x
  proof -
    have "waiting s4 x = waiting (after_hand_over ow l nx (ws = []) s) x" using s4 by (simp add: same_waits_def)
    then show ?thesis using h by simp
  qed
  have "owner_of s4 ow = None" using w4[of ow] w by (intro owner_of_None) simp
  moreover have "RestorePriority ow s4 = Some s' \<or> s' = s4" using run r by (cases "RestorePriority ow s4") (auto split: if_splits)
  ultimately have "wc_thread s' = wc_thread s4" using restore_top[of s4 ow s'] by auto
  then show ?thesis using w4 by simp
qed

section \<open>Steps of the core\<close>

text \<open>The address key of a thread that waits for nothing.\<close>

lemma set_key_ok:
  assumes ok: "inheritance_ok s" and t: "waiting s t = None" and s1: "s1 = SetKernelAddressKey t addr s"
  shows "inheritance_ok s1" "owner_of s1 = owner_of s"
proof -
  have th: "wc_thread s1 = (wc_thread s)(t := (wc_thread s t)\<lparr>w_address_key := addr, w_is_kernel_address_key := True\<rparr>)" "wc_kernel s1 = wc_kernel s"
    "wc_lock s1 = wc_lock s" "wc_free_locks s1 = wc_free_locks s" "wc_tree s1 = wc_tree s" unfolding s1 by (simp_all add: SetKernelAddressKey_def)
  have lk: "locks_ok {} s" using ok by (simp add: inheritance_ok_def waits_ok_def)
  have w: "waiting s1 x = waiting s x" "held s1 x = held s x" for x using th(1) by simp_all
  have p: "GetPriority s1 = GetPriority s" using th(2) by (simp add: GetPriority_def fun_eq_iff)
  have lo: "lock_ok s1 ow l" if l: "l \<in> set (held s ow)" for ow l
  proof -
    have "x \<noteq> t" if "x \<in> set (tree_of s l)" for x using that waiting_tree[OF lk l, of x] t by auto
    then show ?thesis using locks_okD(1)[OF lk l] w p th(1,3) unfolding lock_ok_def by auto
  qed
  have L: "locks_ok {} s1" using lk lo unfolding locks_ok_def locks_of_def w th(3,4) by blast
  show o: "owner_of s1 = owner_of s" using w th(3) by (simp add: owner_of_def GetLockOwner_def fun_eq_iff cong: option.case_cong)
  have "cv_key s1 = cv_key s" using th(1) p by (simp add: cv_key_def fun_eq_iff)
  then have "trees_ok s1" using ok th(1,5) unfolding inheritance_ok_def waits_ok_def trees_ok_def by auto
  moreover have b: "base s1 = base s" using th(1) by (simp add: base_def fun_eq_iff)
  moreover have "fair s1 = fair s" by (simp add: fair_def waiters_def o p b fun_eq_iff)
  ultimately show "inheritance_ok s1" using ok L o p th(2) by (simp add: inheritance_ok_def waits_ok_def)
qed

text \<open>Changes of run states that keep what a thread does apart from suspension.\<close>

definition reposed :: "nat set \<Rightarrow> WaitCore \<Rightarrow> WaitCore \<Rightarrow> bool" where
  "reposed X s s' \<longleftrightarrow> wc_thread s' = wc_thread s \<and> wc_lock s' = wc_lock s \<and> wc_free_locks s' = wc_free_locks s \<and> wc_tree s' = wc_tree s \<and>
     sched_inv (wc_kernel s') \<and> k_info (wc_kernel s') = k_info (wc_kernel s) \<and>
     (\<forall>x. x \<notin> X \<longrightarrow> GetState (k_thread (wc_kernel s') x) = GetState (k_thread (wc_kernel s) x))"

lemma reposed_ok: "inheritance_ok s \<Longrightarrow> reposed X s s' \<Longrightarrow> inheritance_ok s'"
  by (rule inheritance_same) (auto simp: reposed_def same_waits_def base_def GetPriority_def fun_eq_iff)

lemma reposed_refl: "inheritance_ok s \<Longrightarrow> reposed X s s"
  by (simp add: reposed_def inheritance_ok_def waits_ok_def)

lemma reposed_kernel:
  assumes "restated t v (wc_kernel s) k" "t \<notin> X \<Longrightarrow> v AND ThreadState_Mask = GetRawState t (wc_kernel s) AND ThreadState_Mask"
  shows "reposed X s (s\<lparr>wc_kernel := k\<rparr>)"
  using assms by (auto simp: reposed_def restated_def GetState_def GetRawState_def)

lemma continue_if_suspended_ok:
  assumes ok: "inheritance_ok s"
  shows "\<exists>s'. continue_if_suspended t s = Some s' \<and> reposed {} s s'"
proof -
  have v: "sched_inv (wc_kernel s)" "valid_thread (k_info (wc_kernel s) t)" using ok by (simp_all add: inheritance_ok_def waits_ok_def)
  obtain k where k: "Continue t (wc_kernel s) = Some k" "restated t (GetRawState t (wc_kernel s) AND ThreadState_Mask) (wc_kernel s) k"
    using Continue_ok[OF v] by blast
  have "reposed {} s (s\<lparr>wc_kernel := k\<rparr>)" by (rule reposed_kernel[OF k(2)]) (simp add: and.assoc)
  then show ?thesis using k(1) reposed_refl[OF ok, of "{}"] by (auto simp: continue_if_suspended_def try_kernel_def ContinueIfHasKernelWaiters_def)
qed

lemma try_suspend_ok:
  assumes ok: "inheritance_ok s"
  shows "\<exists>s'. (if IsSuspended (k_thread (wc_kernel s) t) then try_kernel (TrySuspend t) s else Some s) = Some s' \<and> reposed {t} s s'"
proof -
  have v: "sched_inv (wc_kernel s)" "valid_thread (k_info (wc_kernel s) t)" using ok by (simp_all add: inheritance_ok_def waits_ok_def)
  obtain k v where k: "UpdateState t (wc_kernel s) = Some k" "restated t v (wc_kernel s) k" using UpdateState_ok[OF v] by blast
  have "reposed {t} s (s\<lparr>wc_kernel := k\<rparr>)" by (rule reposed_kernel[OF k(2)]) simp
  then show ?thesis using k(1) reposed_refl[OF ok, of "{t}"] by (auto simp: try_kernel_def TrySuspend_def)
qed

section \<open>Threads around one lock\<close>

text \<open>
  The threads that use one lock, each in one of a few places, and the steps they take in any order. A step of a thread is one
  exchange of the tag or one slow path under the scheduler lock. An exchange that falls between the first look of
  \<open>UnlockSlowPath\<close> at the waiters and its store of the tag leaves the tag as it was, so it may be taken to come before.

  Where a thread is: outside of the lock, past the exchange of \<open>Lock\<close> with the owner tag it saw, asleep in the slow
  path, inside the lock, or past a failed exchange of \<open>Unlock\<close>.
  A slow path is one step: it runs under the scheduler lock, and while it runs the tag has the waiting bit set, so that
  an exchange by another thread stores the value that is there.
\<close>

datatype LightPc = Outside | Contending nat | Asleep | Holding | Releasing

record LightSystem =
  ls_core :: WaitCore
  ls_tag :: LightTag
  ls_pc :: "nat \<Rightarrow> LightPc"

definition at_pc :: "nat \<Rightarrow> LightPc \<Rightarrow> LightSystem \<Rightarrow> LightSystem" where
  "at_pc t pc S = S\<lparr>ls_pc := (ls_pc S)(t := pc)\<rparr>"

inductive light_step :: "nat \<Rightarrow> nat \<Rightarrow> LightSystem \<Rightarrow> LightSystem \<Rightarrow> bool" for addr where
  take: "ls_pc S t = Outside \<Longrightarrow> t < MaxThreads \<Longrightarrow> ls_tag S = None \<Longrightarrow>
    light_step addr t S (at_pc t Holding (S\<lparr>ls_tag := Lock_exchange t (ls_tag S)\<rparr>))"
| contend: "ls_pc S t = Outside \<Longrightarrow> t < MaxThreads \<Longrightarrow> ls_tag S = Some (ow, b) \<Longrightarrow>
    light_step addr t S (at_pc t (Contending ow) (S\<lparr>ls_tag := Lock_exchange t (ls_tag S)\<rparr>))"
| retry: "ls_pc S t = Contending ow \<Longrightarrow> LockSlowPath addr (ls_tag S) (Some (ow, True)) t (ls_core S) = Some (False, s) \<Longrightarrow>
    light_step addr t S (at_pc t Outside (S\<lparr>ls_core := s\<rparr>))"
| sleep: "ls_pc S t = Contending ow \<Longrightarrow> LockSlowPath addr (ls_tag S) (Some (ow, True)) t (ls_core S) = Some (True, s) \<Longrightarrow>
    light_step addr t S (at_pc t Asleep (S\<lparr>ls_core := s\<rparr>))"
| release: "ls_pc S t = Holding \<Longrightarrow> Unlock_exchange t (ls_tag S) = Some tag \<Longrightarrow>
    light_step addr t S (at_pc t Outside (S\<lparr>ls_tag := tag\<rparr>))"
| release_slowly: "ls_pc S t = Holding \<Longrightarrow> Unlock_exchange t (ls_tag S) = None \<Longrightarrow>
    light_step addr t S (at_pc t Releasing S)"
| hand_over: "ls_pc S t = Releasing \<Longrightarrow> UnlockSlowPath addr t (ls_core S) = Some (tag, s) \<Longrightarrow>
    S' = at_pc t Outside (S\<lparr>ls_core := s, ls_tag := tag\<rparr>) \<Longrightarrow>
    light_step addr t S (case tag of None \<Rightarrow> S' | Some (nx, _) \<Rightarrow> at_pc nx Holding S')"

section \<open>The invariant\<close>

text \<open>The core with exactly the threads in \<open>A\<close> asleep, all at the lock.\<close>

definition light_core :: "nat \<Rightarrow> nat set \<Rightarrow> WaitCore \<Rightarrow> bool" where
  "light_core addr A s \<longleftrightarrow> inheritance_ok s \<and> (\<forall>t. w_condvar_tree (wc_thread s t) = None) \<and> (\<forall>t. t \<in> A \<longleftrightarrow> waiting s t \<noteq> None) \<and>
     (\<forall>t\<in>A. \<forall>u\<in>A. waiting s t = waiting s u) \<and>
     (\<forall>t\<in>A. w_address_key (wc_thread s t) = addr \<and> w_is_kernel_address_key (wc_thread s t) \<and> is_waiting t s \<and> w_wait_queue (wc_thread s t) \<noteq> None)"

definition light_inv :: "nat \<Rightarrow> LightSystem \<Rightarrow> bool" where
  "light_inv addr S \<longleftrightarrow> light_core addr {t. ls_pc S t = Asleep} (ls_core S) \<and>
     (\<forall>t. ls_pc S t = Holding \<or> ls_pc S t = Releasing \<longleftrightarrow> (\<exists>b. ls_tag S = Some (t, b))) \<and>
     (\<forall>t. ls_pc S t = Releasing \<longrightarrow> ls_tag S = Some (t, True)) \<and> (\<forall>t. ls_pc S t \<noteq> Outside \<longrightarrow> t < MaxThreads) \<and>
     (\<forall>t. ls_pc S t = Asleep \<longrightarrow> (\<exists>ow. ls_tag S = Some (ow, True) \<and> owner_of (ls_core S) t = Some ow))"

lemma light_invD:
  assumes "light_inv addr S"
  shows "inheritance_ok (ls_core S)" "w_condvar_tree (wc_thread (ls_core S) t) = None"
    "ls_pc S t = Holding \<or> ls_pc S t = Releasing \<longleftrightarrow> (\<exists>b. ls_tag S = Some (t, b))" "ls_pc S t = Releasing \<Longrightarrow> ls_tag S = Some (t, True)"
    "ls_pc S t \<noteq> Outside \<Longrightarrow> t < MaxThreads" "ls_pc S t = Asleep \<longleftrightarrow> waiting (ls_core S) t \<noteq> None"
    "ls_pc S t = Asleep \<Longrightarrow> ls_pc S u = Asleep \<Longrightarrow> waiting (ls_core S) t = waiting (ls_core S) u"
    "ls_pc S t = Asleep \<Longrightarrow> \<exists>ow. ls_tag S = Some (ow, True) \<and> owner_of (ls_core S) t = Some ow"
    "ls_pc S t = Asleep \<Longrightarrow> w_address_key (wc_thread (ls_core S) t) = addr" "ls_pc S t = Asleep \<Longrightarrow> w_is_kernel_address_key (wc_thread (ls_core S) t)"
    "ls_pc S t = Asleep \<Longrightarrow> is_waiting t (ls_core S)" "ls_pc S t = Asleep \<Longrightarrow> w_wait_queue (wc_thread (ls_core S) t) \<noteq> None"
  using assms unfolding light_inv_def light_core_def by blast+

lemma light_invI:
  assumes "light_core addr {t. ls_pc S t = Asleep} (ls_core S)" "\<And>t. ls_pc S t = Holding \<or> ls_pc S t = Releasing \<longleftrightarrow> (\<exists>b. ls_tag S = Some (t, b))"
    "\<And>t. ls_pc S t = Releasing \<Longrightarrow> ls_tag S = Some (t, True)" "\<And>t. ls_pc S t \<noteq> Outside \<Longrightarrow> t < MaxThreads"
    "\<And>t. ls_pc S t = Asleep \<Longrightarrow> \<exists>ow. ls_tag S = Some (ow, True) \<and> owner_of (ls_core S) t = Some ow"
  shows "light_inv addr S"
  using assms unfolding light_inv_def by blast

text \<open>The owner has one lock info if somebody sleeps and none otherwise.\<close>

lemma light_lock_info:
  assumes inv: "light_inv addr S" and f: "FindHeldLock ow addr True (ls_core S) = Some l"
  shows "set (tree_of (ls_core S) l) = {t. ls_pc S t = Asleep}"
proof -
  let ?s = "ls_core S"
  have lk: "locks_ok {} ?s" using light_invD(1)[OF inv] by (simp add: inheritance_ok_def waits_ok_def)
  have l: "l \<in> set (held ?s ow)" using FindHeldLock_Some[OF f] by simp
  have m: "x \<in> set (tree_of ?s l) \<longleftrightarrow> waiting ?s x = Some l" for x using waiting_tree[OF lk l, of x] by simp
  obtain u where u: "u \<in> set (tree_of ?s l)" using locks_okD(2)[OF lk l] by (cases "tree_of ?s l") auto
  have "ls_pc S x = Asleep \<longleftrightarrow> waiting ?s x = Some l" for x
    using light_invD(6)[OF inv, of x] light_invD(6)[OF inv, of u] light_invD(7)[OF inv, of x u] m[of u] u by auto
  then show ?thesis using m by auto
qed

lemma light_lock_found:
  assumes inv: "light_inv addr S" and t: "ls_pc S t = Asleep" and ow: "ls_tag S = Some (ow, b)"
  shows "\<exists>l. FindHeldLock ow addr True (ls_core S) = Some l"
proof -
  let ?s = "ls_core S"
  have lk: "locks_ok {} ?s" using light_invD(1)[OF inv] by (simp add: inheritance_ok_def waits_ok_def)
  have "owner_of ?s t = Some ow" using light_invD(8)[OF inv t] ow by auto
  then obtain l where l: "waiting ?s t = Some l" "l \<in> set (held ?s ow)" by (rule owner_of_Some[OF lk])
  have "t \<in> set (tree_of ?s l)" using waiting_tree[OF lk l(2)] l(1) by simp
  then have "li_address_key (wc_lock ?s l) = addr \<and> li_is_kernel_address_key (wc_lock ?s l) = True"
    using locks_okD(1)[OF lk l(2)] light_invD(9,10)[OF inv t] unfolding lock_ok_def by auto
  then show ?thesis using FindHeldLock_None[of ow addr True ?s l] l(2) by (cases "FindHeldLock ow addr True ?s") auto
qed

lemma nobody_waits_for_waiting: "light_inv addr S \<Longrightarrow> ls_tag S = Some (ow, b) \<Longrightarrow> waiting (ls_core S) ow = None"
  using light_invD(3,6)[of addr S ow] by auto

section \<open>The slow paths\<close>

lemma begin_wait_ok:
  assumes ok: "inheritance_ok s"
  shows "\<exists>s'. BeginWait t q s = Some s' \<and> inheritance_ok s' \<and> is_waiting t s' \<and> owner_of s' = owner_of s \<and>
    wc_thread s' = (wc_thread s)(t := (wc_thread s t)\<lparr>w_wait_queue := Some q\<rparr>) \<and>
    (\<forall>x. x \<noteq> t \<longrightarrow> GetState (k_thread (wc_kernel s') x) = GetState (k_thread (wc_kernel s) x))"
proof -
  have v: "sched_inv (wc_kernel s)" "valid_thread (k_info (wc_kernel s) t)" using ok by (simp_all add: inheritance_ok_def waits_ok_def)
  obtain k where k: "set_state t ThreadState_Waiting (wc_kernel s) = Some k"
    "restated t ((GetRawState t (wc_kernel s) AND NOT ThreadState_Mask) OR (ThreadState_Waiting AND ThreadState_Mask)) (wc_kernel s) k"
    using set_state_ok[OF v, of ThreadState_Waiting] by blast
  define s' where "s' = on_wait t (\<lambda>w. w\<lparr>w_wait_queue := Some q\<rparr>) (s\<lparr>wc_kernel := k\<rparr>)"
  have b: "BeginWait t q s = Some s'" using k(1) by (simp add: BeginWait_def try_kernel_def s'_def)
  have th: "wc_thread s' = (wc_thread s)(t := (wc_thread s t)\<lparr>w_wait_queue := Some q\<rparr>)" "wc_kernel s' = k" "wc_lock s' = wc_lock s"
    by (simp_all add: s'_def)
  have pr: "GetPriority s' = GetPriority s" using k(2) by (simp add: GetPriority_def s'_def restated_def fun_eq_iff)
  have "inheritance_ok s'"
    by (rule inheritance_same[OF ok]) (use k(2) pr in \<open>simp_all add: s'_def same_waits_def base_def restated_def fun_eq_iff\<close>)
  moreover have "is_waiting t s'"
    using k(2) th(2) by (simp add: is_waiting_def restated_def GetState_def GetRawState_def mask_state) (simp add: ThreadState_Waiting_def ThreadState_Mask_def)
  moreover have "owner_of s' = owner_of s" using th(1,3) by (auto simp: owner_of_def GetLockOwner_def fun_eq_iff split: option.splits)
  ultimately show ?thesis using b th k(2) by (auto simp: restated_def)
qed

lemma reposed_owner: "reposed X s s' \<Longrightarrow> owner_of s' = owner_of s"
  by (simp add: reposed_def owner_of_def GetLockOwner_def fun_eq_iff cong: option.case_cong)

lemma LockSlowPath_ok:
  assumes inv: "light_inv addr S" and t: "ls_pc S t = Contending ow" and tag: "ls_tag S = Some (ow, True)"
  shows "\<exists>s'. LockSlowPath addr (ls_tag S) (Some (ow, True)) t (ls_core S) = Some (True, s') \<and> inheritance_ok s' \<and>
    owner_of s' = (owner_of (ls_core S))(t := Some ow) \<and> (\<forall>x. w_condvar_tree (wc_thread s' x) = None) \<and>
    is_waiting t s' \<and> w_wait_queue (wc_thread s' t) \<noteq> None \<and> w_address_key (wc_thread s' t) = addr \<and> w_is_kernel_address_key (wc_thread s' t) \<and>
    (\<forall>x y. waiting s' x \<noteq> None \<longrightarrow> waiting s' y \<noteq> None \<longrightarrow> waiting s' x = waiting s' y) \<and>
    (\<forall>x. x \<noteq> t \<longrightarrow> is_waiting x s' = is_waiting x (ls_core S) \<and> w_wait_queue (wc_thread s' x) = w_wait_queue (wc_thread (ls_core S) x) \<and>
       w_address_key (wc_thread s' x) = w_address_key (wc_thread (ls_core S) x) \<and>
       w_is_kernel_address_key (wc_thread s' x) = w_is_kernel_address_key (wc_thread (ls_core S) x))"
proof -
  let ?s = "ls_core S"
  define s0 where "s0 = SetKernelAddressKey t addr ?s"
  have wt: "waiting ?s t = None" using light_invD(6)[OF inv, of t] t by auto
  note K = set_key_ok[OF light_invD(1)[OF inv] wt s0_def]
  have th0: "wc_thread s0 = (wc_thread ?s)(t := (wc_thread ?s t)\<lparr>w_address_key := addr, w_is_kernel_address_key := True\<rparr>)" "wc_kernel s0 = wc_kernel ?s"
    "wc_lock s0 = wc_lock ?s" by (simp_all add: s0_def SetKernelAddressKey_def)
  have wow: "waiting ?s ow = None" by (rule nobody_waits_for_waiting[OF inv tag])
  have nt: "ow \<noteq> t" using light_invD(3)[OF inv, of ow] tag t by auto
  have w0: "waiting s0 x = waiting ?s x" "held s0 x = held ?s x" for x by (simp_all add: th0(1))
  have "owner_of s0 ow = None" using wow w0 by (intro owner_of_None) simp
  then have cyc: "(ow, t) \<notin> (waits_for s0)\<^sup>*" using nt by (auto simp: waits_for_def elim: converse_rtranclE)
  have pre: "waiting s0 t = None" "w_condvar_tree (wc_thread s0 t) = None" "t < MaxThreads"
    using wt w0 light_invD(2,5)[OF inv, of t] t th0(1) by simp_all
  obtain s1 where s1: "AddWaiter ow t s0 = Some s1" "inheritance_ok s1" "owner_of s1 = (owner_of s0)(t := Some ow)" "kept s0 s1"
    using AddWaiter_ok[OF K(1) pre cyc] by blast
  have lk1: "locks_ok {} s1" using s1(2) by (simp add: inheritance_ok_def waits_ok_def)
  have one: "waiting s1 x = waiting s1 y" if "waiting s1 x \<noteq> None" "waiting s1 y \<noteq> None" for x y
  proof (cases "FindHeldLock ow addr True ?s")
    case None
    then have "ls_pc S x \<noteq> Asleep" for x using light_lock_found[OF inv _ tag] by fastforce
    then have "owner_of s0 x = None" for x using light_invD(6)[OF inv, of x] w0 by (intro owner_of_None) simp
    then have "z = t" if "waiting s1 z \<noteq> None" for z using that s1(3) owner_of_None_iff[OF lk1, of z] by (auto split: if_splits)
    then show ?thesis using that by blast
  next
    case (Some l)
    have "FindHeldLock ow (w_address_key (wc_thread s0 t)) (w_is_kernel_address_key (wc_thread s0 t)) s0 = Some l"
      using Some w0 th0 by (simp add: FindHeldLock_def)
    note J = AddWaiter_joins[OF s1(1) this _ nt]
    have l: "waiting ?s z = Some l" if "waiting ?s z \<noteq> None" for z
    proof -
      have lk: "locks_ok {} ?s" using light_invD(1)[OF inv] by (simp add: inheritance_ok_def waits_ok_def)
      have "z \<in> set (tree_of ?s l)" using light_lock_info[OF inv Some] light_invD(6)[OF inv, of z] that by blast
      then show ?thesis using waiting_tree[OF lk FindHeldLock_Some(1)[OF Some]] by simp
    qed
    have "waiting s1 z = Some l" if "waiting s1 z \<noteq> None" for z
      using J wow w0 that l[of z] by (cases "z = t") simp_all
    then show ?thesis using that by metis
  qed
  obtain s2 where s2: "BeginWait t LightLockQueue s1 = Some s2" "inheritance_ok s2" "is_waiting t s2" "owner_of s2 = owner_of s1"
    "wc_thread s2 = (wc_thread s1)(t := (wc_thread s1 t)\<lparr>w_wait_queue := Some LightLockQueue\<rparr>)"
    "\<And>x. x \<noteq> t \<Longrightarrow> GetState (k_thread (wc_kernel s2) x) = GetState (k_thread (wc_kernel s1) x)"
    using begin_wait_ok[OF s1(2), of t LightLockQueue] by blast
  obtain s3 where s3: "continue_if_suspended ow s2 = Some s3" "reposed {} s2 s3" using continue_if_suspended_ok[OF s2(2)] by blast
  have th3: "wc_thread s3 = wc_thread s2" and st3: "\<And>x. GetState (k_thread (wc_kernel s3) x) = GetState (k_thread (wc_kernel s2) x)"
    using s3(2) by (simp_all add: reposed_def)
  have run: "LockSlowPath addr (ls_tag S) (Some (ow, True)) t ?s = Some (True, s3)"
    using tag s1(1) s2(1) s3(1) by (simp add: LockSlowPath_def s0_def)
  have other: "is_waiting x s3 = is_waiting x ?s \<and> w_wait_queue (wc_thread s3 x) = w_wait_queue (wc_thread ?s x) \<and>
     w_address_key (wc_thread s3 x) = w_address_key (wc_thread ?s x) \<and> w_is_kernel_address_key (wc_thread s3 x) = w_is_kernel_address_key (wc_thread ?s x)"
    if "x \<noteq> t" for x
    using that s2(5) s2(6)[OF that] th3 st3[of x] kept_wait(2,3,5,8)[OF s1(4), of x] th0 by (simp add: is_waiting_def)
  have mine: "is_waiting t s3" "w_wait_queue (wc_thread s3 t) \<noteq> None" "w_address_key (wc_thread s3 t) = addr" "w_is_kernel_address_key (wc_thread s3 t)"
    using s2(3,5) th3 st3[of t] kept_wait(2,3)[OF s1(4), of t] th0 by (simp_all add: is_waiting_def)
  have cv: "w_condvar_tree (wc_thread s3 x) = None" for x
    using s2(5) th3 kept_wait(6)[OF s1(4), of x] th0(1) light_invD(2)[OF inv, of x] by (simp split: if_splits)
  have w3: "waiting s3 x = waiting s1 x" for x using th3 s2(5) by simp
  have one3: "\<forall>x y. waiting s3 x \<noteq> None \<longrightarrow> waiting s3 y \<noteq> None \<longrightarrow> waiting s3 x = waiting s3 y" using one unfolding w3 by blast
  have o3: "owner_of s3 = (owner_of ?s)(t := Some ow)" using reposed_owner[OF s3(2)] s2(4) s1(3) K(2) by simp
  show ?thesis using run reposed_ok[OF s2(2) s3(2)] o3 cv mine one3 other by blast
qed

lemma UnlockSlowPath_ok:
  assumes inv: "light_inv addr S" and t: "ls_pc S t = Releasing"
  shows "\<exists>tag s'. UnlockSlowPath addr t (ls_core S) = Some (tag, s') \<and> inheritance_ok s' \<and> (\<forall>x. w_condvar_tree (wc_thread s' x) = None) \<and>
    (case tag of
       None \<Rightarrow> (\<forall>x. ls_pc S x \<noteq> Asleep) \<and> (\<forall>x. waiting s' x = None)
     | Some (nx, more_wait) \<Rightarrow> ls_pc S nx = Asleep \<and> (\<forall>x. ls_pc S x = Asleep \<longrightarrow> GetPriority (ls_core S) nx \<le> GetPriority (ls_core S) x) \<and>
         more_wait = (\<exists>x. x \<noteq> nx \<and> ls_pc S x = Asleep) \<and> GetState (k_thread (wc_kernel s') nx) = ThreadState_Runnable \<and>
         (\<forall>x. waiting s' x = (if x = nx then None else waiting (ls_core S) x)) \<and>
         (\<forall>x. x \<noteq> nx \<longrightarrow> ls_pc S x = Asleep \<longrightarrow> owner_of s' x = Some nx \<and> is_waiting x s' \<and> w_wait_queue (wc_thread s' x) \<noteq> None \<and>
            w_address_key (wc_thread s' x) = addr \<and> w_is_kernel_address_key (wc_thread s' x)))"
proof (cases "FindHeldLock t addr True (ls_core S)")
  case None
  let ?s = "ls_core S"
  have tag: "ls_tag S = Some (t, True)" by (rule light_invD(4)[OF inv t])
  have no: "ls_pc S x \<noteq> Asleep" for x using light_lock_found[OF inv _ tag] None by fastforce
  have ok: "inheritance_ok ?s" by (rule light_invD(1)[OF inv])
  obtain s3 where s3: "(if IsSuspended (k_thread (wc_kernel ?s) t) then try_kernel (TrySuspend t) ?s else Some ?s) = Some s3" "reposed {t} ?s s3"
    using try_suspend_ok[OF ok] by blast
  have "UnlockSlowPath addr t ?s = Some (None, s3)" using s3(1) by (simp add: UnlockSlowPath_def RemoveWaiterByKey_def None)
  moreover have "waiting s3 x = None" for x using s3(2) no[of x] light_invD(6)[OF inv, of x] by (simp add: reposed_def)
  moreover have "w_condvar_tree (wc_thread s3 x) = None" for x using s3(2) light_invD(2)[OF inv, of x] by (simp add: reposed_def)
  ultimately show ?thesis using no reposed_ok[OF ok s3(2)] by (intro exI[of _ None] exI[of _ s3]) simp
next
  case (Some l)
  let ?s = "ls_core S"
  have ok: "inheritance_ok ?s" by (rule light_invD(1)[OF inv])
  have lk: "locks_ok {} ?s" using ok by (simp add: inheritance_ok_def waits_ok_def)
  obtain nx ws s1 where r: "tree_of ?s l = nx # ws" "RemoveWaiterByKey t addr True ?s = Some ((Some nx, ws \<noteq> []), s1)" "inheritance_ok s1"
    "\<forall>x. owner_of s1 x = (if x = nx then None else if x \<in> set ws then Some nx else owner_of ?s x)" "kept ?s s1"
    "\<forall>w\<in>set ws. GetPriority ?s nx \<le> GetPriority ?s w" using RemoveWaiterByKey_ok[OF ok Some] by blast
  have as: "ls_pc S x = Asleep \<longleftrightarrow> x \<in> set (nx # ws)" for x using light_lock_info[OF inv Some] r(1) by auto
  have d: "nx \<notin> set ws" using locks_okD(1)[OF lk FindHeldLock_Some(1)[OF Some]] r(1) by (simp add: lock_ok_def)
  have wt: "waiting ?s t = None" using light_invD(6)[OF inv, of t] t by auto
  have w1: "waiting s1 x = (if x = nx then None else waiting ?s x)" for x
    using RemoveWaiterByKey_waiting[OF lk Some r(1) wt r(2)] .
  have nx: "ls_pc S nx = Asleep" using as by simp
  have "is_waiting nx s1" "w_wait_queue (wc_thread s1 nx) \<noteq> None" using light_invD(11,12)[OF inv nx] kept_wait(5,8)[OF r(5), of nx] by simp_all
  then obtain s2 where s2: "EndWait nx ResultSuccess s1 = Some s2" "ended nx ResultSuccess s1 s2" "inheritance_ok s2" using EndWait_ok[OF r(3)] by blast
  obtain s3 where s3: "continue_if_suspended nx s2 = Some s3" "reposed {} s2 s3" using continue_if_suspended_ok[OF s2(3)] by blast
  have ok3: "inheritance_ok s3" by (rule reposed_ok[OF s2(3) s3(2)])
  obtain s4 where s4: "(if IsSuspended (k_thread (wc_kernel s3) t) then try_kernel (TrySuspend t) s3 else Some s3) = Some s4" "reposed {t} s3 s4"
    using try_suspend_ok[OF ok3] by blast
  have run: "UnlockSlowPath addr t ?s = Some (Some (nx, ws \<noteq> []), s4)" using r(2) s2(1) s3(1) s4(1) by (simp add: UnlockSlowPath_def)
  have th: "wc_thread s4 = (wc_thread s1)(nx := (wc_thread s1 nx)\<lparr>w_wait_result := ResultSuccess, w_wait_queue := None\<rparr>)"
    using s2(2) s3(2) s4(2) by (simp add: ended_def reposed_def)
  have nt: "nx \<noteq> t" using nx t by auto
  have run_nx: "GetState (k_thread (wc_kernel s4) nx) = ThreadState_Runnable" using s2(2) s3(2) s4(2) nt by (simp add: ended_def reposed_def)
  have o4: "owner_of s4 = owner_of s1" using reposed_owner[OF s4(2)] reposed_owner[OF s3(2)] ended_owner[OF s2(2)] by simp
  have st: "is_waiting x s4 = is_waiting x ?s" if "x \<noteq> nx" "x \<noteq> t" for x
    using that s2(2) s3(2) s4(2) kept_wait(8)[OF r(5), of x] by (simp add: ended_def reposed_def is_waiting_def)
  have rest: "owner_of s4 x = Some nx \<and> is_waiting x s4 \<and> w_wait_queue (wc_thread s4 x) \<noteq> None \<and>
      w_address_key (wc_thread s4 x) = addr \<and> w_is_kernel_address_key (wc_thread s4 x)" if x: "x \<noteq> nx" "ls_pc S x = Asleep" for x
  proof -
    have "x \<noteq> t" using x(2) t by auto
    moreover have "x \<in> set ws" using as[of x] x by simp
    ultimately show ?thesis using x(1) st[of x] o4 r(4) th light_invD(9-12)[OF inv x(2)] kept_wait(2,3,5)[OF r(5), of x] by simp
  qed
  have more: "(ws \<noteq> []) = (\<exists>x. x \<noteq> nx \<and> ls_pc S x = Asleep)"
  proof
    assume "ws \<noteq> []"
    then have "hd ws \<noteq> nx \<and> ls_pc S (hd ws) = Asleep" using as d by auto
    then show "\<exists>x. x \<noteq> nx \<and> ls_pc S x = Asleep" by blast
  qed (use as in auto)
  have cv: "w_condvar_tree (wc_thread s4 x) = None" for x
    using th kept_wait(6)[OF r(5), of x] light_invD(2)[OF inv, of x] by auto
  have w4: "waiting s4 x = (if x = nx then None else waiting ?s x)" for x using th w1[of x] by auto
  have best: "\<forall>x. ls_pc S x = Asleep \<longrightarrow> GetPriority ?s nx \<le> GetPriority ?s x" using as r(6) by auto
  show ?thesis using run reposed_ok[OF ok3 s4(2)] cv nx best more run_nx w4 rest
    by (intro exI[of _ "Some (nx, ws \<noteq> [])"] exI[of _ s4]) simp
qed

section \<open>Interleavings\<close>

inductive_cases light_stepE: "light_step addr t S S'"

text \<open>The lock starts free, with no thread waiting for anything.\<close>

definition light_start :: "LightSystem \<Rightarrow> bool" where
  "light_start S \<longleftrightarrow> inheritance_ok (ls_core S) \<and> ls_tag S = None \<and> (\<forall>t. ls_pc S t = Outside \<and> idle t (ls_core S))"

inductive light_reachable :: "nat \<Rightarrow> LightSystem \<Rightarrow> bool" for addr where
  start: "light_start S \<Longrightarrow> light_reachable addr S"
| step: "light_reachable addr S \<Longrightarrow> light_step addr t S S' \<Longrightarrow> light_reachable addr S'"

lemma at_pc_simps [simp]:
  "ls_core (at_pc t pc S) = ls_core S" "ls_tag (at_pc t pc S) = ls_tag S" "ls_pc (at_pc t pc S) = (ls_pc S)(t := pc)"
  by (simp_all add: at_pc_def)

lemma light_start_inv: "light_start S \<Longrightarrow> light_inv addr S"
  by (simp add: light_start_def light_inv_def light_core_def idle_def)

text \<open>A thread that is not asleep moves, and the core stays as it is.\<close>

lemma move_inv:
  assumes inv: "light_inv addr S" and t: "ls_pc S t \<noteq> Asleep" "pc \<noteq> Asleep" "t < MaxThreads"
    and h: "\<And>x. ((ls_pc S)(t := pc)) x = Holding \<or> ((ls_pc S)(t := pc)) x = Releasing \<longleftrightarrow> (\<exists>b. tag = Some (x, b))"
    and r: "\<And>x. ((ls_pc S)(t := pc)) x = Releasing \<Longrightarrow> tag = Some (x, True)"
    and sl: "\<And>x ow. ls_pc S x = Asleep \<Longrightarrow> ls_tag S = Some (ow, True) \<Longrightarrow> tag = Some (ow, True)"
  shows "light_inv addr (at_pc t pc (S\<lparr>ls_tag := tag\<rparr>))"
proof (rule light_invI)
  have "{x. ((ls_pc S)(t := pc)) x = Asleep} = {x. ls_pc S x = Asleep}" using t by auto
  then show "light_core addr {x. ls_pc (at_pc t pc (S\<lparr>ls_tag := tag\<rparr>)) x = Asleep} (ls_core (at_pc t pc (S\<lparr>ls_tag := tag\<rparr>)))"
    using inv by (simp add: light_inv_def)
  show "\<exists>ow. ls_tag (at_pc t pc (S\<lparr>ls_tag := tag\<rparr>)) = Some (ow, True) \<and> owner_of (ls_core (at_pc t pc (S\<lparr>ls_tag := tag\<rparr>))) x = Some ow"
    if "ls_pc (at_pc t pc (S\<lparr>ls_tag := tag\<rparr>)) x = Asleep" for x
  proof -
    have x: "ls_pc S x = Asleep" using that t(2) by (simp split: if_splits)
    then show ?thesis using light_invD(8)[OF inv x] sl[OF x] by auto
  qed
qed (use h r t(3) light_invD(5)[OF inv] in \<open>auto split: if_splits\<close>)

lemma exchange_inv:
  assumes inv: "light_inv addr S" and t: "ls_pc S t = Outside" "t < MaxThreads"
  shows "ls_tag S = None \<Longrightarrow> light_inv addr (at_pc t Holding (S\<lparr>ls_tag := Lock_exchange t (ls_tag S)\<rparr>))"
    "ls_tag S = Some (ow, b) \<Longrightarrow> light_inv addr (at_pc t (Contending ow) (S\<lparr>ls_tag := Lock_exchange t (ls_tag S)\<rparr>))"
proof -
  have ho: "ls_pc S x = Holding \<or> ls_pc S x = Releasing \<longleftrightarrow> (\<exists>b. ls_tag S = Some (x, b))" for x using light_invD(3)[OF inv, of x] .
  show "light_inv addr (at_pc t Holding (S\<lparr>ls_tag := Lock_exchange t (ls_tag S)\<rparr>))" if "ls_tag S = None"
    by (rule move_inv[OF inv]) (use that t ho in \<open>auto split: if_splits\<close>)
  show "light_inv addr (at_pc t (Contending ow) (S\<lparr>ls_tag := Lock_exchange t (ls_tag S)\<rparr>))" if tag: "ls_tag S = Some (ow, b)"
  proof (rule move_inv[OF inv])
    fix x
    have "(ls_pc S x = Holding \<or> ls_pc S x = Releasing) = (x = ow)" using ho[of x] tag by auto
    then show "((ls_pc S)(t := Contending ow)) x = Holding \<or> ((ls_pc S)(t := Contending ow)) x = Releasing \<longleftrightarrow>
      (\<exists>b. Lock_exchange t (ls_tag S) = Some (x, b))" using tag t(1) by auto
  qed (use tag t light_invD(4)[OF inv] in \<open>auto split: if_splits\<close>)
qed

lemma release_inv:
  assumes inv: "light_inv addr S" and t: "ls_pc S t = Holding"
  shows "Unlock_exchange t (ls_tag S) = Some tag \<Longrightarrow> light_inv addr (at_pc t Outside (S\<lparr>ls_tag := tag\<rparr>))"
    "Unlock_exchange t (ls_tag S) = None \<Longrightarrow> light_inv addr (at_pc t Releasing S)"
proof -
  obtain b where b: "ls_tag S = Some (t, b)" using light_invD(3)[OF inv, of t] t by auto
  have ho: "(ls_pc S x = Holding \<or> ls_pc S x = Releasing) = (x = t)" for x using light_invD(3)[OF inv, of x] b by auto
  have m: "t < MaxThreads" using light_invD(5)[OF inv, of t] t by simp
  show "light_inv addr (at_pc t Outside (S\<lparr>ls_tag := tag\<rparr>))" if u: "Unlock_exchange t (ls_tag S) = Some tag"
  proof -
    have tags: "tag = None" "ls_tag S = Some (t, False)" using u by (auto simp: Unlock_exchange_def split: if_splits)
    show ?thesis by (rule move_inv[OF inv]) (use tags t m ho light_invD(8)[OF inv] in \<open>auto split: if_splits\<close>)
  qed
  show "light_inv addr (at_pc t Releasing S)" if u: "Unlock_exchange t (ls_tag S) = None"
  proof -
    have tag: "ls_tag S = Some (t, True)" using u b by (auto simp: Unlock_exchange_def split: if_splits)
    have "light_inv addr (at_pc t Releasing (S\<lparr>ls_tag := ls_tag S\<rparr>))"
      by (rule move_inv[OF inv]) (use tag t m ho in \<open>auto split: if_splits\<close>)
    then show ?thesis by simp
  qed
qed

lemma sleep_inv:
  assumes inv: "light_inv addr S" and t: "ls_pc S t = Contending ow"
    and r: "LockSlowPath addr (ls_tag S) (Some (ow, True)) t (ls_core S) = Some (True, s)"
  shows "light_inv addr (at_pc t Asleep (S\<lparr>ls_core := s\<rparr>))"
proof (rule light_invI)
  have tag: "ls_tag S = Some (ow, True)" using r by (auto simp: LockSlowPath_def split: if_splits)
  have L: "inheritance_ok s" "owner_of s = (owner_of (ls_core S))(t := Some ow)" "\<forall>x. w_condvar_tree (wc_thread s x) = None"
    "is_waiting t s" "w_wait_queue (wc_thread s t) \<noteq> None" "w_address_key (wc_thread s t) = addr" "w_is_kernel_address_key (wc_thread s t)"
    "\<forall>x y. waiting s x \<noteq> None \<longrightarrow> waiting s y \<noteq> None \<longrightarrow> waiting s x = waiting s y"
    "\<forall>x. x \<noteq> t \<longrightarrow> is_waiting x s = is_waiting x (ls_core S) \<and> w_wait_queue (wc_thread s x) = w_wait_queue (wc_thread (ls_core S) x) \<and>
       w_address_key (wc_thread s x) = w_address_key (wc_thread (ls_core S) x) \<and>
       w_is_kernel_address_key (wc_thread s x) = w_is_kernel_address_key (wc_thread (ls_core S) x)"
    using LockSlowPath_ok[OF inv t tag] r by auto
  have lk: "locks_ok {} s" and lk0: "locks_ok {} (ls_core S)" using L(1) light_invD(1)[OF inv] by (simp_all add: inheritance_ok_def waits_ok_def)
  have w: "x = t \<or> ls_pc S x = Asleep \<longleftrightarrow> waiting s x \<noteq> None" for x
  proof (cases "x = t")
    case True
    then show ?thesis using owner_of_None_iff[OF lk, of x] L(2) by simp
  next
    case False
    then have "owner_of s x = owner_of (ls_core S) x" using L(2) by simp
    then show ?thesis using owner_of_None_iff[OF lk, of x] owner_of_None_iff[OF lk0, of x] light_invD(6)[OF inv, of x] False by simp
  qed
  have sl: "w_address_key (wc_thread s x) = addr \<and> w_is_kernel_address_key (wc_thread s x) \<and> is_waiting x s \<and> w_wait_queue (wc_thread s x) \<noteq> None"
    if x: "x = t \<or> ls_pc S x = Asleep" for x
  proof (cases "x = t")
    case False
    then have "ls_pc S x = Asleep" using x by simp
    then show ?thesis using L(9) False light_invD(9-12)[OF inv, of x] by simp
  qed (use L(4-7) in simp)
  have A: "{x. ls_pc (at_pc t Asleep (S\<lparr>ls_core := s\<rparr>)) x = Asleep} = {x. x = t \<or> ls_pc S x = Asleep}" by auto
  show "light_core addr {x. ls_pc (at_pc t Asleep (S\<lparr>ls_core := s\<rparr>)) x = Asleep} (ls_core (at_pc t Asleep (S\<lparr>ls_core := s\<rparr>)))"
  proof -
    have "light_core addr {x. x = t \<or> ls_pc S x = Asleep} s" unfolding light_core_def
    proof (intro conjI ballI allI)
      fix x y assume "x \<in> {x. x = t \<or> ls_pc S x = Asleep}" "y \<in> {x. x = t \<or> ls_pc S x = Asleep}"
      then show "waiting s x = waiting s y" using L(8) w by blast
    qed (use L(1,3) w sl in auto)
    then show ?thesis unfolding A by simp
  qed
  show "\<exists>ow. ls_tag (at_pc t Asleep (S\<lparr>ls_core := s\<rparr>)) = Some (ow, True) \<and> owner_of (ls_core (at_pc t Asleep (S\<lparr>ls_core := s\<rparr>))) x = Some ow"
    if "ls_pc (at_pc t Asleep (S\<lparr>ls_core := s\<rparr>)) x = Asleep" for x
    using that tag L(2) light_invD(8)[OF inv, of x] by (cases "x = t") auto
  show "ls_pc (at_pc t Asleep (S\<lparr>ls_core := s\<rparr>)) x = Holding \<or> ls_pc (at_pc t Asleep (S\<lparr>ls_core := s\<rparr>)) x = Releasing \<longleftrightarrow>
    (\<exists>b. ls_tag (at_pc t Asleep (S\<lparr>ls_core := s\<rparr>)) = Some (x, b))" for x using light_invD(3)[OF inv, of x] t by auto
qed (use light_invD(4,5)[OF inv] t in \<open>auto split: if_splits\<close>)

lemma hand_over_inv:
  assumes inv: "light_inv addr S" and t: "ls_pc S t = Releasing" and r: "UnlockSlowPath addr t (ls_core S) = Some (tag, s)"
    and S': "S' = at_pc t Outside (S\<lparr>ls_core := s, ls_tag := tag\<rparr>)"
  shows "light_inv addr (case tag of None \<Rightarrow> S' | Some (nx, _) \<Rightarrow> at_pc nx Holding S')"
proof -
  have tg: "ls_tag S = Some (t, True)" by (rule light_invD(4)[OF inv t])
  have ho: "(ls_pc S x = Holding \<or> ls_pc S x = Releasing) = (x = t)" for x using light_invD(3)[OF inv, of x] tg by auto
  have m: "ls_pc S x \<noteq> Outside \<Longrightarrow> x < MaxThreads" for x by (rule light_invD(5)[OF inv])
  have U: "inheritance_ok s" "\<forall>x. w_condvar_tree (wc_thread s x) = None" using UnlockSlowPath_ok[OF inv t] r by auto
  show ?thesis
  proof (cases tag)
    case None
    then have no: "\<forall>x. ls_pc S x \<noteq> Asleep" "\<forall>x. waiting s x = None" using UnlockSlowPath_ok[OF inv t] r by auto
    have "light_inv addr S'"
    proof (rule light_invI)
      have "{x. ls_pc S' x = Asleep} = {}" using no(1) by (simp add: S')
      then show "light_core addr {x. ls_pc S' x = Asleep} (ls_core S')" using U no(2) by (simp add: light_core_def S')
    qed (use no ho m None in \<open>auto simp: S' split: if_splits\<close>)
    then show ?thesis by (simp add: None)
  next
    case (Some p)
    obtain nx more where p: "p = (nx, more)" by fastforce
    have N: "ls_pc S nx = Asleep" "more = (\<exists>x. x \<noteq> nx \<and> ls_pc S x = Asleep)" "\<forall>x. waiting s x = (if x = nx then None else waiting (ls_core S) x)"
      "\<forall>x. x \<noteq> nx \<longrightarrow> ls_pc S x = Asleep \<longrightarrow> owner_of s x = Some nx \<and> is_waiting x s \<and> w_wait_queue (wc_thread s x) \<noteq> None \<and>
         w_address_key (wc_thread s x) = addr \<and> w_is_kernel_address_key (wc_thread s x)"
      using UnlockSlowPath_ok[OF inv t] r Some p by auto
    have nt: "nx \<noteq> t" using N(1) t by auto
    have "light_inv addr (at_pc nx Holding S')"
    proof (rule light_invI)
      have A: "{x. ls_pc (at_pc nx Holding S') x = Asleep} = {x. x \<noteq> nx \<and> ls_pc S x = Asleep}" using t by (auto simp: S')
      have "waiting (ls_core S) x = waiting (ls_core S) y" if "ls_pc S x = Asleep" "ls_pc S y = Asleep" for x y by (rule light_invD(7)[OF inv that])
      moreover have "ls_pc S x = Asleep \<longleftrightarrow> waiting (ls_core S) x \<noteq> None" for x by (rule light_invD(6)[OF inv])
      ultimately show "light_core addr {x. ls_pc (at_pc nx Holding S') x = Asleep} (ls_core (at_pc nx Holding S'))"
        unfolding A light_core_def using U N(3,4) by (simp add: S')
    next
      fix x
      show "ls_pc (at_pc nx Holding S') x = Holding \<or> ls_pc (at_pc nx Holding S') x = Releasing \<longleftrightarrow> (\<exists>b. ls_tag (at_pc nx Holding S') = Some (x, b))"
        using ho[of x] t nt N(1) by (auto simp: S' Some p)
      show "ls_pc (at_pc nx Holding S') x = Releasing \<Longrightarrow> ls_tag (at_pc nx Holding S') = Some (x, True)"
        using ho[of x] t nt by (auto simp: S' Some p split: if_splits)
      show "ls_pc (at_pc nx Holding S') x \<noteq> Outside \<Longrightarrow> x < MaxThreads" using m[of x] N(1) by (auto simp: S' split: if_splits)
      assume "ls_pc (at_pc nx Holding S') x = Asleep"
      then have x: "x \<noteq> nx" "ls_pc S x = Asleep" by (auto simp: S' split: if_splits)
      then have more using N(2) by blast
      then show "\<exists>ow. ls_tag (at_pc nx Holding S') = Some (ow, True) \<and> owner_of (ls_core (at_pc nx Holding S')) x = Some ow"
        using N(4) x by (simp add: S' Some p)
    qed
    then show ?thesis by (simp add: Some p)
  qed
qed

lemma light_step_inv: "light_step addr t S S' \<Longrightarrow> light_inv addr S \<Longrightarrow> light_inv addr S'"
proof (induction rule: light_step.induct)
  case (retry S t ow s)
  have "s = ls_core S"
  proof (cases "ls_tag S = Some (ow, True)")
    case True
    then show ?thesis using LockSlowPath_ok[OF retry.prems retry.hyps(1)] retry.hyps(2) by auto
  qed (use retry.hyps(2) in \<open>simp add: LockSlowPath_def\<close>)
  moreover have "light_inv addr (at_pc t Outside (S\<lparr>ls_tag := ls_tag S\<rparr>))"
  proof (rule move_inv[OF retry.prems])
    fix x
    show "((ls_pc S)(t := Outside)) x = Holding \<or> ((ls_pc S)(t := Outside)) x = Releasing \<longleftrightarrow> (\<exists>b. ls_tag S = Some (x, b))"
      using light_invD(3)[OF retry.prems, of x] retry.hyps(1) by auto
  qed (use retry.hyps(1) light_invD(4,5)[OF retry.prems] in \<open>auto split: if_splits\<close>)
  ultimately show ?case by simp
next
  case (take S t)
  then show ?case by (intro exchange_inv(1)) auto
next
  case (contend S t ow b)
  then show ?case by (intro exchange_inv(2)) auto
qed (auto intro: release_inv sleep_inv hand_over_inv)

lemma light_reachable_inv: "light_reachable addr S \<Longrightarrow> light_inv addr S"
  by (induction rule: light_reachable.induct) (auto intro: light_start_inv light_step_inv)

section \<open>Properties of light locks\<close>

text \<open>The thread has taken the lock and has not given it back.\<close>

definition inside :: "LightSystem \<Rightarrow> nat \<Rightarrow> bool" where
  "inside S t \<longleftrightarrow> ls_pc S t = Holding \<or> ls_pc S t = Releasing"

text \<open>Every thread that does not sleep can go on.\<close>

lemma light_progress:
  assumes inv: "light_inv addr S" and t: "t < MaxThreads" "ls_pc S t \<noteq> Asleep"
  shows "\<exists>S'. light_step addr t S S'"
proof (cases "ls_pc S t")
  case Outside
  show ?thesis
  proof (cases "ls_tag S")
    case None
    then show ?thesis using light_step.take[OF Outside t(1)] by blast
  next
    case (Some p)
    obtain ow b where "p = (ow, b)" by fastforce
    then show ?thesis using light_step.contend[OF Outside t(1)] Some by blast
  qed
next
  case (Contending ow)
  show ?thesis
  proof (cases "ls_tag S = Some (ow, True)")
    case True
    then show ?thesis using LockSlowPath_ok[OF inv Contending] light_step.sleep[OF Contending] by blast
  next
    case False
    then have "LockSlowPath addr (ls_tag S) (Some (ow, True)) t (ls_core S) = Some (False, ls_core S)" by (simp add: LockSlowPath_def)
    then show ?thesis using light_step.retry[OF Contending] by blast
  qed
next
  case Holding
  then show ?thesis using light_step.release[OF Holding] light_step.release_slowly[OF Holding] by (cases "Unlock_exchange t (ls_tag S)") blast+
next
  case Releasing
  then show ?thesis using UnlockSlowPath_ok[OF inv Releasing] light_step.hand_over[OF Releasing _ refl] by blast
qed (use t(2) in simp)

lemma sample_light_start: "light_start \<lparr>ls_core = sample_waits, ls_tag = None, ls_pc = \<lambda>t. Outside\<rparr>"
  using sample_waits_ok by (simp add: light_start_def idle_def sample_waits_def)

text \<open>Thread 1 holds the lock and thread 2 sleeps.\<close>

lemma sample_light_asleep: "\<exists>S. light_reachable 8 S \<and> ls_pc S 1 = Holding \<and> ls_pc S 2 = Asleep"
proof -
  let ?S0 = "\<lparr>ls_core = sample_waits, ls_tag = None, ls_pc = \<lambda>t. Outside\<rparr>"
  let ?S1 = "at_pc 1 Holding (?S0\<lparr>ls_tag := Lock_exchange 1 (ls_tag ?S0)\<rparr>)"
  let ?S2 = "at_pc 2 (Contending 1) (?S1\<lparr>ls_tag := Lock_exchange 2 (ls_tag ?S1)\<rparr>)"
  have "light_reachable 8 ?S0" using sample_light_start by (rule light_reachable.start)
  moreover have "light_step 8 1 ?S0 ?S1" by (rule light_step.take) (simp_all add: MaxThreads_def)
  ultimately have r1: "light_reachable 8 ?S1" by (rule light_reachable.step)
  have "light_step 8 2 ?S1 ?S2" by (rule light_step.contend[where ow = 1 and b = False]) (simp_all add: MaxThreads_def)
  with r1 have r2: "light_reachable 8 ?S2" by (rule light_reachable.step)
  have pc: "ls_pc ?S2 2 = Contending 1" "ls_tag ?S2 = Some (1, True)" by simp_all
  obtain s where s: "LockSlowPath 8 (ls_tag ?S2) (Some (1, True)) 2 (ls_core ?S2) = Some (True, s)"
    using LockSlowPath_ok[OF light_reachable_inv[OF r2] pc] by blast
  have "light_reachable 8 (at_pc 2 Asleep (?S2\<lparr>ls_core := s\<rparr>))" by (rule light_reachable.step[OF r2 light_step.sleep[OF pc(1) s]])
  then show ?thesis by (intro exI[of _ "at_pc 2 Asleep (?S2\<lparr>ls_core := s\<rparr>)"]) simp
qed

text \<open>C1: However the threads that use a light lock interleave, at most one of them is inside it, the tag names exactly this
  thread, and all priorities are exactly the inherited ones.\<close>

theorem light_lock_mutual_exclusion:
  assumes "light_reachable addr S"
  shows "(\<forall>t u. inside S t \<longrightarrow> inside S u \<longrightarrow> t = u) \<and> (\<forall>t. IsLockedByCurrentThread t (ls_tag S) \<longleftrightarrow> inside S t) \<and>
    (\<forall>t. GetPriority (ls_core S) t = inherited (ls_core S) t)"
proof -
  have inv: "light_inv addr S" by (rule light_reachable_inv[OF assms])
  have h: "inside S t \<longleftrightarrow> (\<exists>b. ls_tag S = Some (t, b))" for t using light_invD(3)[OF inv, of t] by (simp add: inside_def)
  have "IsLockedByCurrentThread t (ls_tag S) \<longleftrightarrow> inside S t" for t by (auto simp: h IsLockedByCurrentThread_def split: option.splits)
  then show ?thesis using h inherited_priority[OF light_invD(1)[OF inv]] by auto
qed

theorem light_lock_mutual_exclusion_witness:
  "\<exists>S addr. light_reachable addr S \<and> ls_pc S 1 = Holding \<and> ls_pc S 2 = Asleep \<and> (\<forall>t u. inside S t \<longrightarrow> inside S u \<longrightarrow> t = u)"
  using sample_light_asleep light_lock_mutual_exclusion by blast

text \<open>C20: No wake-up of a light lock is lost and no thread gets stuck: a sleeping thread waits for the thread inside, whose unlock
  takes the slow path; every other thread can take its next step; and the slow path of unlocking lets a sleeping thread of
  the best priority in, runnable, if there is any.\<close>

theorem light_lock_no_lost_wakeup:
  assumes "light_reachable addr S"
  shows "(\<forall>t. ls_pc S t = Asleep \<longrightarrow> (\<exists>ow. inside S ow \<and> owner_of (ls_core S) t = Some ow \<and> Unlock_exchange ow (ls_tag S) = None)) \<and>
    (\<forall>t<MaxThreads. ls_pc S t \<noteq> Asleep \<longrightarrow> (\<exists>S'. light_step addr t S S')) \<and>
    (\<forall>t S'. ls_pc S t = Releasing \<longrightarrow> light_step addr t S S' \<longrightarrow> (\<exists>x. ls_pc S x = Asleep) \<longrightarrow>
       (\<exists>nx. ls_pc S nx = Asleep \<and> inside S' nx \<and> GetState (k_thread (wc_kernel (ls_core S')) nx) = ThreadState_Runnable \<and>
          (\<forall>x. ls_pc S x = Asleep \<longrightarrow> GetPriority (ls_core S) nx \<le> GetPriority (ls_core S) x)))"
proof (intro conjI allI impI)
  have inv: "light_inv addr S" by (rule light_reachable_inv[OF assms])
  show "\<exists>ow. inside S ow \<and> owner_of (ls_core S) t = Some ow \<and> Unlock_exchange ow (ls_tag S) = None" if "ls_pc S t = Asleep" for t
    using light_invD(8)[OF inv that] light_invD(3)[OF inv] by (auto simp: inside_def Unlock_exchange_def)
  show "\<exists>S'. light_step addr t S S'" if "t < MaxThreads" "ls_pc S t \<noteq> Asleep" for t by (rule light_progress[OF inv that])
  fix t S' assume t: "ls_pc S t = Releasing" "light_step addr t S S'" "\<exists>x. ls_pc S x = Asleep"
  obtain tag s where r: "UnlockSlowPath addr t (ls_core S) = Some (tag, s)"
    "S' = (case tag of None \<Rightarrow> at_pc t Outside (S\<lparr>ls_core := s, ls_tag := tag\<rparr>) | Some (nx, _) \<Rightarrow> at_pc nx Holding (at_pc t Outside (S\<lparr>ls_core := s, ls_tag := tag\<rparr>)))"
    using t(1,2) by (auto elim!: light_stepE)
  show "\<exists>nx. ls_pc S nx = Asleep \<and> inside S' nx \<and> GetState (k_thread (wc_kernel (ls_core S')) nx) = ThreadState_Runnable \<and>
      (\<forall>x. ls_pc S x = Asleep \<longrightarrow> GetPriority (ls_core S) nx \<le> GetPriority (ls_core S) x)"
  proof (cases tag)
    case None
    then show ?thesis using UnlockSlowPath_ok[OF inv t(1)] r(1) t(3) by auto
  next
    case (Some p)
    obtain nx b where p: "p = (nx, b)" by fastforce
    show ?thesis using UnlockSlowPath_ok[OF inv t(1)] r Some p by (intro exI[of _ nx]) (auto simp: inside_def)
  qed
qed

theorem light_lock_no_lost_wakeup_witness:
  "\<exists>S ow. ls_pc S 2 = Asleep \<and> inside S ow \<and> owner_of (ls_core S) 2 = Some ow \<and> Unlock_exchange ow (ls_tag S) = None"
  using sample_light_asleep light_lock_no_lost_wakeup by blast

end
