(* ===== verification/K_Synchronization_Object.thy ===== *)
theory K_Synchronization_Object
  imports K_Thread
begin

text \<open>
  Waiting for several objects at once (\<open>src/core/hle/kernel/k_synchronization_object.h\<close> and \<open>.cpp\<close>) and the events that
  are waited for most (\<open>k_readable_event.cpp\<close>, \<open>k_event.cpp\<close>). An object keeps a singly linked list of the nodes of waiting
  threads; the nodes of a thread live on its stack, node \<open>(t, i)\<close> of thread \<open>t\<close> being linked to the \<open>i\<close>-th object it waits for.
  Bodies run under the scheduler lock. Whether an object is signalled is a flag of it, as with readable events. A call that
  puts its thread to sleep ends there; the caller gets the wait result and the synced index once it runs again.
\<close>

section \<open>State\<close>

type_synonym sync_node = "nat \<times> nat"

record ThreadListNode =
  ln_next :: "sync_node option"
  ln_thread :: nat

record SyncObject =
  so_thread_list_head :: "sync_node option"
  so_thread_list_tail :: "sync_node option"
  so_is_signaled :: bool

text \<open>\<open>ThreadQueueImplForKSynchronizationObjectWait\<close>: the objects, and whether there is a hardware timer.\<close>

record SyncQueue =
  sq_objects :: "nat list"
  sq_hardware_timer :: bool

record SyncThread =
  sy_wait_queue :: "SyncQueue option"
  sy_wait_result :: Result
  sy_synced_index :: int
  sy_cancellable :: bool
  sy_wait_cancelled :: bool

record SyncCore =
  sy_kernel :: KernelCore
  sy_thread :: "nat \<Rightarrow> SyncThread"
  sy_object :: "nat \<Rightarrow> SyncObject"
  sy_node :: "sync_node \<Rightarrow> ThreadListNode"
  sy_timer_tasks :: "nat set"

definition on_sync_thread :: "nat \<Rightarrow> (SyncThread \<Rightarrow> SyncThread) \<Rightarrow> SyncCore \<Rightarrow> SyncCore" where
  "on_sync_thread t f s = s\<lparr>sy_thread := (sy_thread s)(t := f (sy_thread s t))\<rparr>"

definition on_sync_object :: "nat \<Rightarrow> (SyncObject \<Rightarrow> SyncObject) \<Rightarrow> SyncCore \<Rightarrow> SyncCore" where
  "on_sync_object x f s = s\<lparr>sy_object := (sy_object s)(x := f (sy_object s x))\<rparr>"

definition on_sync_node :: "sync_node \<Rightarrow> (ThreadListNode \<Rightarrow> ThreadListNode) \<Rightarrow> SyncCore \<Rightarrow> SyncCore" where
  "on_sync_node n f s = s\<lparr>sy_node := (sy_node s)(n := f (sy_node s n))\<rparr>"

definition set_sync_state :: "nat \<Rightarrow> u16 \<Rightarrow> SyncCore \<Rightarrow> SyncCore option" where
  "set_sync_state t state s = map_option (\<lambda>k. s\<lparr>sy_kernel := k\<rparr>) (set_state t state (sy_kernel s))"

definition sync_waiting :: "nat \<Rightarrow> SyncCore \<Rightarrow> bool" where
  "sync_waiting t s \<longleftrightarrow> GetState (k_thread (sy_kernel s) t) = ThreadState_Waiting"

section \<open>The lists of nodes\<close>

definition LinkNode :: "nat \<Rightarrow> sync_node \<Rightarrow> SyncCore \<Rightarrow> SyncCore" where
  "LinkNode x n s =
     (let s1 = (case so_thread_list_tail (sy_object s x) of
                  None \<Rightarrow> on_sync_object x (\<lambda>ob. ob\<lparr>so_thread_list_head := Some n\<rparr>) s
                | Some m \<Rightarrow> on_sync_node m (\<lambda>nd. nd\<lparr>ln_next := Some n\<rparr>) s)
      in on_sync_object x (\<lambda>ob. ob\<lparr>so_thread_list_tail := Some n\<rparr>) s1)"

text \<open>
  The walk of \<open>UnlinkNode\<close> to the place that points to the node: the head of the list (\<open>None\<close>) or a node. The head is read as
  the \<open>next\<close> of a node at its address; \<open>tail_prev\<close> is null exactly when \<open>prev\<close> is the head, and \<open>prev\<close> itself otherwise. The
  walk runs into a null pointer when the node is not linked.
\<close>

definition next_from :: "nat \<Rightarrow> sync_node option \<Rightarrow> SyncCore \<Rightarrow> sync_node option" where
  "next_from x p s = (case p of None \<Rightarrow> so_thread_list_head (sy_object s x) | Some m \<Rightarrow> ln_next (sy_node s m))"

partial_function (option) unlink_walk :: "nat \<Rightarrow> sync_node \<Rightarrow> sync_node option \<Rightarrow> SyncCore \<Rightarrow> sync_node option option" where
  "unlink_walk x n prev s =
     (case next_from x prev s of
        None \<Rightarrow> None
      | Some m \<Rightarrow> if m = n then Some prev else unlink_walk x n (Some m) s)"

definition UnlinkNode :: "nat \<Rightarrow> sync_node \<Rightarrow> SyncCore \<Rightarrow> SyncCore option" where
  "UnlinkNode x n s =
     do {
       prev \<leftarrow> unlink_walk x n None s;
       let s1 = (if so_thread_list_tail (sy_object s x) = Some n
                 then on_sync_object x (\<lambda>ob. ob\<lparr>so_thread_list_tail := prev\<rparr>) s else s);
       let nx = ln_next (sy_node s1 n);
       Some (case prev of
               None \<Rightarrow> on_sync_object x (\<lambda>ob. ob\<lparr>so_thread_list_head := nx\<rparr>) s1
             | Some m \<Rightarrow> on_sync_node m (\<lambda>nd. nd\<lparr>ln_next := nx\<rparr>) s1)
     }"

section \<open>Ending a wait\<close>

text \<open>The common part of \<open>KThreadQueue::EndWait\<close> and \<open>KThreadQueue::CancelWait\<close>.\<close>

definition end_sync_wait :: "nat \<Rightarrow> bool \<Rightarrow> Result \<Rightarrow> bool \<Rightarrow> SyncCore \<Rightarrow> SyncCore option" where
  "end_sync_wait t hardware_timer wait_result cancel_timer_task s =
     do {
       s1 \<leftarrow> set_sync_state t ThreadState_Runnable (on_sync_thread t (\<lambda>th. th\<lparr>sy_wait_result := wait_result\<rparr>) s);
       let s2 = on_sync_thread t (\<lambda>th. th\<lparr>sy_wait_queue := None\<rparr>) s1;
       Some (if cancel_timer_task \<and> hardware_timer then s2\<lparr>sy_timer_tasks := sy_timer_tasks s2 - {t}\<rparr> else s2)
     }"

text \<open>The loop over the objects from the \<open>i\<close>-th on.\<close>

fun unlink_all :: "nat \<Rightarrow> nat \<Rightarrow> nat list \<Rightarrow> SyncCore \<Rightarrow> SyncCore option" where
  "unlink_all t i [] s = Some s"
| "unlink_all t i (x # xs) s = do { s1 \<leftarrow> UnlinkNode x (t, i) s; unlink_all t (Suc i) xs s1 }"

fun sync_index :: "nat \<Rightarrow> nat \<Rightarrow> nat list \<Rightarrow> int" where
  "sync_index signaled i [] = -1"
| "sync_index signaled i (x # xs) = (if x = signaled then int i else sync_index signaled (Suc i) xs)"

definition Queue_NotifyAvailable :: "SyncQueue \<Rightarrow> nat \<Rightarrow> nat \<Rightarrow> Result \<Rightarrow> SyncCore \<Rightarrow> SyncCore option" where
  "Queue_NotifyAvailable q t signaled wait_result s =
     do {
       s1 \<leftarrow> unlink_all t 0 (sq_objects q) s;
       let s2 = on_sync_thread t (\<lambda>th. th\<lparr>sy_synced_index := sync_index signaled 0 (sq_objects q), sy_cancellable := False\<rparr>) s1;
       end_sync_wait t (sq_hardware_timer q) wait_result True s2
     }"

definition Queue_CancelWait :: "SyncQueue \<Rightarrow> nat \<Rightarrow> Result \<Rightarrow> bool \<Rightarrow> SyncCore \<Rightarrow> SyncCore option" where
  "Queue_CancelWait q t wait_result cancel_timer_task s =
     do {
       s1 \<leftarrow> unlink_all t 0 (sq_objects q) s;
       end_sync_wait t (sq_hardware_timer q) wait_result cancel_timer_task (on_sync_thread t (\<lambda>th. th\<lparr>sy_cancellable := False\<rparr>) s1)
     }"

definition Thread_NotifyAvailable :: "nat \<Rightarrow> nat \<Rightarrow> Result \<Rightarrow> SyncCore \<Rightarrow> SyncCore option" where
  "Thread_NotifyAvailable t signaled wait_result s =
     (if sync_waiting t s then do { q \<leftarrow> sy_wait_queue (sy_thread s t); Queue_NotifyAvailable q t signaled wait_result s } else Some s)"

definition Thread_CancelWait :: "nat \<Rightarrow> Result \<Rightarrow> bool \<Rightarrow> SyncCore \<Rightarrow> SyncCore option" where
  "Thread_CancelWait t wait_result cancel_timer_task s =
     (if sync_waiting t s then do { q \<leftarrow> sy_wait_queue (sy_thread s t); Queue_CancelWait q t wait_result cancel_timer_task s } else Some s)"

definition Thread_OnTimer :: "nat \<Rightarrow> SyncCore \<Rightarrow> SyncCore option" where
  "Thread_OnTimer t = Thread_CancelWait t ResultTimedOut False"

definition WaitCancel :: "nat \<Rightarrow> SyncCore \<Rightarrow> SyncCore option" where
  "WaitCancel t s =
     (if sync_waiting t s \<and> sy_cancellable (sy_thread s t) then
        do { q \<leftarrow> sy_wait_queue (sy_thread s t);
             Queue_CancelWait q t ResultCancelled True (on_sync_thread t (\<lambda>th. th\<lparr>sy_wait_cancelled := False\<rparr>) s) }
      else Some (on_sync_thread t (\<lambda>th. th\<lparr>sy_wait_cancelled := True\<rparr>) s))"

section \<open>Notifying and waiting\<close>

text \<open>The next node is read when the thread of the current one has been notified.\<close>

partial_function (option) notify_loop :: "nat \<Rightarrow> Result \<Rightarrow> sync_node option \<Rightarrow> SyncCore \<Rightarrow> SyncCore option" where
  "notify_loop x wait_result cur s =
     (case cur of
        None \<Rightarrow> Some s
      | Some n \<Rightarrow> do { s1 \<leftarrow> Thread_NotifyAvailable (ln_thread (sy_node s n)) x wait_result s;
                       notify_loop x wait_result (ln_next (sy_node s1 n)) s1 })"

definition Object_NotifyAvailable :: "nat \<Rightarrow> Result \<Rightarrow> SyncCore \<Rightarrow> SyncCore option" where
  "Object_NotifyAvailable x wait_result s =
     (if so_is_signaled (sy_object s x) then notify_loop x wait_result (so_thread_list_head (sy_object s x)) s else Some s)"

fun link_all :: "nat \<Rightarrow> nat \<Rightarrow> nat list \<Rightarrow> SyncCore \<Rightarrow> SyncCore" where
  "link_all t i [] s = s"
| "link_all t i (x # xs) s =
     link_all t (Suc i) xs (LinkNode x (t, i) (on_sync_node (t, i) (\<lambda>nd. nd\<lparr>ln_thread := t, ln_next := None\<rparr>) s))"

datatype SyncOutcome = SyncReturned Result "nat option" | SyncWaiting

fun first_signaled :: "nat \<Rightarrow> nat list \<Rightarrow> SyncCore \<Rightarrow> nat option" where
  "first_signaled i [] s = None"
| "first_signaled i (x # xs) s = (if so_is_signaled (sy_object s x) then Some i else first_signaled (Suc i) xs s)"

text \<open>Waiting of the current thread \<open>t\<close>; the time-out is registered when the scheduler lock is released.\<close>

definition KSynchronizationObject_Wait :: "nat \<Rightarrow> nat list \<Rightarrow> int \<Rightarrow> SyncCore \<Rightarrow> (SyncOutcome \<times> SyncCore) option" where
  "KSynchronizationObject_Wait t objects timeout s =
     (if IsTerminationRequested (k_thread (sy_kernel s) t) then Some (SyncReturned ResultTerminationRequested None, s)
      else case first_signaled 0 objects s of
        Some i \<Rightarrow> Some (SyncReturned ResultSuccess (Some i), s)
      | None \<Rightarrow>
          if timeout = 0 then Some (SyncReturned ResultTimedOut None, s)
          else if sy_wait_cancelled (sy_thread s t) then
            Some (SyncReturned ResultCancelled None, on_sync_thread t (\<lambda>th. th\<lparr>sy_wait_cancelled := False\<rparr>) s)
          else do {
            let s1 = link_all t 0 objects s;
            let s2 = on_sync_thread t (\<lambda>th. th\<lparr>sy_cancellable := True, sy_synced_index := -1\<rparr>) s1;
            s3 \<leftarrow> set_sync_state t ThreadState_Waiting s2;
            let s4 = on_sync_thread t (\<lambda>th. th\<lparr>sy_wait_queue := Some \<lparr>sq_objects = objects, sq_hardware_timer = (timeout > 0)\<rparr>\<rparr>) s3;
            Some (SyncWaiting, if timeout > 0 then s4\<lparr>sy_timer_tasks := insert t (sy_timer_tasks s4)\<rparr> else s4)
          })"

section \<open>Events\<close>

definition KReadableEvent_Signal :: "nat \<Rightarrow> SyncCore \<Rightarrow> (Result \<times> SyncCore) option" where
  "KReadableEvent_Signal x s =
     (if so_is_signaled (sy_object s x) then Some (ResultSuccess, s)
      else map_option (\<lambda>s1. (ResultSuccess, s1)) (Object_NotifyAvailable x ResultSuccess (on_sync_object x (\<lambda>ob. ob\<lparr>so_is_signaled := True\<rparr>) s)))"

definition KReadableEvent_Reset :: "nat \<Rightarrow> SyncCore \<Rightarrow> Result \<times> SyncCore" where
  "KReadableEvent_Reset x s =
     (if so_is_signaled (sy_object s x) then (ResultSuccess, on_sync_object x (\<lambda>ob. ob\<lparr>so_is_signaled := False\<rparr>) s) else (ResultInvalidState, s))"

definition KReadableEvent_Clear :: "nat \<Rightarrow> SyncCore \<Rightarrow> Result \<times> SyncCore" where
  "KReadableEvent_Clear x s = (ResultSuccess, snd (KReadableEvent_Reset x s))"

text \<open>An event acts on its readable event unless that has been destroyed.\<close>

record KEvent =
  ke_readable_event :: nat
  ke_readable_event_destroyed :: bool

definition KEvent_Signal :: "KEvent \<Rightarrow> SyncCore \<Rightarrow> (Result \<times> SyncCore) option" where
  "KEvent_Signal e s = (if ke_readable_event_destroyed e then Some (ResultSuccess, s) else KReadableEvent_Signal (ke_readable_event e) s)"

definition KEvent_Clear :: "KEvent \<Rightarrow> SyncCore \<Rightarrow> Result \<times> SyncCore" where
  "KEvent_Clear e s = (if ke_readable_event_destroyed e then (ResultSuccess, s) else KReadableEvent_Clear (ke_readable_event e) s)"

end
