(* ===== verification/Synchronization.thy ===== *)
theory Synchronization
  imports K_Synchronization_Object Arbitration
begin

text \<open>
  Waiting for several objects (\<open>K_Synchronization_Object\<close>): the linked lists of the objects hold exactly the nodes of the
  waiting threads, a signal wakes exactly the threads that wait for the object, with its index, and no thread sleeps
  although one of its objects is signalled. The threads of this development that wait, wait for objects; each waits for
  different ones.
\<close>

section \<open>Linked lists\<close>

fun chain :: "('n \<Rightarrow> 'n option) \<Rightarrow> 'n option \<Rightarrow> 'n list \<Rightarrow> bool" where
  "chain nx p [] \<longleftrightarrow> p = None"
| "chain nx p (n # ns) \<longleftrightarrow> p = Some n \<and> chain nx (nx n) ns"

lemma chain_upd: "m \<notin> set ns \<Longrightarrow> chain (nx(m := v)) p ns = chain nx p ns"
  by (induction ns arbitrary: p) auto

lemma chain_cong: "(\<And>n. n \<in> set ns \<Longrightarrow> nx n = nx' n) \<Longrightarrow> chain nx p ns = chain nx' p ns"
  by (induction ns arbitrary: p) auto

lemma chain_last: "chain nx p (ns @ [n]) \<Longrightarrow> nx n = None"
  by (induction ns arbitrary: p) auto

lemma chain_unlink:
  "chain nx p (xs @ [a] @ n # ys) \<Longrightarrow> distinct (xs @ [a] @ n # ys) \<Longrightarrow> chain (nx(a := nx n)) p (xs @ [a] @ ys)"
  by (induction xs arbitrary: p) (auto simp: chain_upd)

lemma chain_link: "chain nx p (xs @ [a]) \<Longrightarrow> distinct (xs @ [a]) \<Longrightarrow> n \<notin> set (xs @ [a]) \<Longrightarrow> nx n = None \<Longrightarrow> chain (nx(a := Some n)) p (xs @ [a, n])"
  by (induction xs arbitrary: p) auto

definition node_next :: "SyncCore \<Rightarrow> sync_node \<Rightarrow> sync_node option" where
  "node_next s n = ln_next (sy_node s n)"

text \<open>The lists of all objects.\<close>

definition lists_ok :: "SyncCore \<Rightarrow> (nat \<Rightarrow> sync_node list) \<Rightarrow> bool" where
  "lists_ok s L \<longleftrightarrow> (\<forall>x. chain (node_next s) (so_thread_list_head (sy_object s x)) (L x) \<and>
     so_thread_list_tail (sy_object s x) = (if L x = [] then None else Some (last (L x))) \<and> distinct (L x) \<and>
     (\<forall>n\<in>set (L x). ln_thread (sy_node s n) = fst n)) \<and> (\<forall>x y. x \<noteq> y \<longrightarrow> set (L x) \<inter> set (L y) = {})"

lemma lists_okD:
  assumes "lists_ok s L"
  shows "chain (node_next s) (so_thread_list_head (sy_object s x)) (L x)" "so_thread_list_tail (sy_object s x) = (if L x = [] then None else Some (last (L x)))"
    "distinct (L x)" "n \<in> set (L x) \<Longrightarrow> ln_thread (sy_node s n) = fst n" "n \<in> set (L x) \<Longrightarrow> n \<in> set (L y) \<Longrightarrow> x = y"
    "x \<noteq> y \<Longrightarrow> set (L x) \<inter> set (L y) = {}"
  using assms unfolding lists_ok_def by blast+

text \<open>What linking and unlinking leaves alone.\<close>

definition same_but_lists :: "SyncCore \<Rightarrow> SyncCore \<Rightarrow> bool" where
  "same_but_lists s s' \<longleftrightarrow> sy_kernel s' = sy_kernel s \<and> sy_thread s' = sy_thread s \<and> sy_timer_tasks s' = sy_timer_tasks s \<and>
     (\<forall>x. so_is_signaled (sy_object s' x) = so_is_signaled (sy_object s x))"

lemma same_but_lists_trans: "same_but_lists s s1 \<Longrightarrow> same_but_lists s1 s2 \<Longrightarrow> same_but_lists s s2"
  by (simp add: same_but_lists_def)

lemma unlink_walk_ok:
  assumes "chain (node_next s) (next_from x p s) (xs @ n # ys)" "n \<notin> set xs"
  shows "unlink_walk x n p s = Some (if xs = [] then p else Some (last xs))"
  using assms
proof (induction xs arbitrary: p)
  case Nil
  then show ?case by (subst unlink_walk.simps) simp
next
  case (Cons a xs)
  have "next_from x (Some a) s = node_next s a" by (simp add: next_from_def node_next_def)
  then have "unlink_walk x n (Some a) s = Some (if xs = [] then Some a else Some (last xs))" using Cons.IH[of "Some a"] Cons.prems by simp
  then show ?case using Cons.prems by (subst unlink_walk.simps) auto
qed

lemma UnlinkNode_ok:
  assumes ok: "lists_ok s L" and x: "L x = xs @ n # ys"
  shows "\<exists>s'. UnlinkNode x n s = Some s' \<and> lists_ok s' (L(x := xs @ ys)) \<and> same_but_lists s s' \<and>
    (\<forall>m. m \<notin> set xs \<longrightarrow> node_next s' m = node_next s m)"
proof -
  note d = lists_okD[OF ok]
  have dist: "distinct (xs @ n # ys)" using d(3)[of x] x by simp
  have c: "chain (node_next s) (so_thread_list_head (sy_object s x)) (xs @ n # ys)" using d(1)[of x] x by simp
  have w: "unlink_walk x n None s = Some (if xs = [] then None else Some (last xs))"
    using unlink_walk_ok[of s x None xs n ys] c dist by (simp add: next_from_def)
  have tl: "so_thread_list_tail (sy_object s x) = Some n \<longleftrightarrow> ys = []" using d(2)[of x] x dist by (cases ys rule: rev_cases) auto
  show ?thesis
  proof (cases xs rule: rev_cases)
    case Nil
    let ?s' = "on_sync_object x (\<lambda>ob. ob\<lparr>so_thread_list_tail := (if ys = [] then None else so_thread_list_tail ob), so_thread_list_head := node_next s n\<rparr>) s"
    have u: "UnlinkNode x n s = Some ?s'" using w tl Nil by (auto simp: UnlinkNode_def on_sync_object_def node_next_def Let_def)
    have k: "node_next ?s' = node_next s" "sy_node ?s' = sy_node s"
      "\<And>y. sy_object ?s' y = (if y = x then (sy_object s x)\<lparr>so_thread_list_tail := (if ys = [] then None else so_thread_list_tail (sy_object s x)),
          so_thread_list_head := node_next s n\<rparr> else sy_object s y)"
      by (simp_all add: on_sync_object_def node_next_def fun_eq_iff)
    have "lists_ok ?s' (L(x := ys))"
      unfolding lists_ok_def
    proof (intro conjI allI impI)
      fix y
      show "chain (node_next ?s') (so_thread_list_head (sy_object ?s' y)) ((L(x := ys)) y)" using d(1)[of y] c Nil k by simp
      show "so_thread_list_tail (sy_object ?s' y) = (if (L(x := ys)) y = [] then None else Some (last ((L(x := ys)) y)))"
        using d(2)[of y] d(2)[of x] x Nil k by simp
      show "distinct ((L(x := ys)) y)" using d(3)[of y] dist by simp
      show "\<forall>m\<in>set ((L(x := ys)) y). ln_thread (sy_node ?s' m) = fst m" using d(4)[of _ y] x k by auto
      show "set ((L(x := ys)) y) \<inter> set ((L(x := ys)) z) = {}" if "y \<noteq> z" for z using d(6)[OF that] x by (auto simp: disjoint_iff)
    qed
    then show ?thesis using u Nil by (intro exI[of _ ?s']) (simp add: same_but_lists_def on_sync_object_def node_next_def)
  next
    case (snoc zs a)
    let ?s1 = "on_sync_object x (\<lambda>ob. ob\<lparr>so_thread_list_tail := (if ys = [] then Some a else so_thread_list_tail ob)\<rparr>) s"
    let ?s' = "on_sync_node a (\<lambda>nd. nd\<lparr>ln_next := node_next s n\<rparr>) ?s1"
    have "a \<noteq> n" using dist snoc by auto
    then have u: "UnlinkNode x n s = Some ?s'" using w tl snoc by (auto simp: UnlinkNode_def on_sync_object_def on_sync_node_def node_next_def Let_def fun_eq_iff)
    have nx: "node_next ?s' = (node_next s)(a := node_next s n)" by (simp add: node_next_def on_sync_node_def on_sync_object_def fun_eq_iff)
    have ch: "chain (node_next ?s') (so_thread_list_head (sy_object s x)) (xs @ ys)"
      using chain_unlink[of "node_next s" "so_thread_list_head (sy_object s x)" zs a n ys] c dist snoc nx by simp
    have oth: "chain (node_next ?s') (so_thread_list_head (sy_object s y)) (L y)" if "y \<noteq> x" for y
      using chain_upd[of a "L y" "node_next s"] d(1)[of y] d(5)[of a x y] that x snoc nx by auto
    have "lists_ok ?s' (L(x := xs @ ys))"
      unfolding lists_ok_def
    proof (intro conjI allI impI)
      fix y
      show "chain (node_next ?s') (so_thread_list_head (sy_object ?s' y)) ((L(x := xs @ ys)) y)"
        using ch oth by (auto simp: on_sync_node_def on_sync_object_def)
      show "so_thread_list_tail (sy_object ?s' y) = (if (L(x := xs @ ys)) y = [] then None else Some (last ((L(x := xs @ ys)) y)))"
        using d(2)[of y] x snoc by (auto simp: on_sync_node_def on_sync_object_def)
      show "distinct ((L(x := xs @ ys)) y)" using d(3)[of y] dist by auto
      show "\<forall>m\<in>set ((L(x := xs @ ys)) y). ln_thread (sy_node ?s' m) = fst m"
        using d(4)[of _ y] x by (auto simp: on_sync_node_def on_sync_object_def)
      show "set ((L(x := xs @ ys)) y) \<inter> set ((L(x := xs @ ys)) z) = {}" if "y \<noteq> z" for z
        using d(6)[OF that] x by (auto simp: disjoint_iff)
    qed
    then show ?thesis using u snoc nx
      by (intro exI[of _ ?s']) (auto simp: same_but_lists_def on_sync_node_def on_sync_object_def)
  qed
qed

lemma LinkNode_ok:
  assumes ok: "lists_ok s L" and n: "\<forall>y. n \<notin> set (L y)"
    and s1: "s1 = on_sync_node n (\<lambda>nd. nd\<lparr>ln_thread := fst n, ln_next := None\<rparr>) s"
  shows "lists_ok (LinkNode x n s1) (L(x := L x @ [n])) \<and> same_but_lists s (LinkNode x n s1)"
proof -
  note d = lists_okD[OF ok]
  have k: "sy_object s1 = sy_object s" "node_next s1 = (node_next s)(n := None)" "\<And>m. ln_thread (sy_node s1 m) = (if m = n then fst n else ln_thread (sy_node s m))"
    unfolding s1 by (auto simp: on_sync_node_def node_next_def fun_eq_iff)
  have c1: "chain (node_next s1) (so_thread_list_head (sy_object s y)) (L y)" for y using d(1)[of y] n k(2) by (simp add: chain_upd)
  let ?s' = "LinkNode x n s1"
  have nx: "node_next ?s' = (if L x = [] then node_next s1 else (node_next s1)(last (L x) := Some n))"
    using d(2)[of x] k(1) by (auto simp: LinkNode_def Let_def node_next_def on_sync_node_def on_sync_object_def fun_eq_iff)
  have hd: "so_thread_list_head (sy_object ?s' y) = (if y = x \<and> L x = [] then Some n else so_thread_list_head (sy_object s y))"
    "so_thread_list_tail (sy_object ?s' y) = (if y = x then Some n else so_thread_list_tail (sy_object s y))" for y
    using d(2)[of x] k(1) by (auto simp: LinkNode_def Let_def on_sync_node_def on_sync_object_def)
  have th: "ln_thread (sy_node ?s' m) = ln_thread (sy_node s1 m)" for m
    by (auto simp: LinkNode_def Let_def on_sync_node_def on_sync_object_def split: option.split)
  have cx: "chain (node_next ?s') (so_thread_list_head (sy_object ?s' x)) (L x @ [n])"
  proof (cases "L x" rule: rev_cases)
    case Nil
    then show ?thesis using nx hd k(2) by simp
  next
    case (snoc zs a)
    then show ?thesis using chain_link[of "node_next s1" "so_thread_list_head (sy_object s x)" zs a n] c1[of x] d(3)[of x] n[rule_format, of x] nx hd k(2) by auto
  qed
  have cy: "chain (node_next ?s') (so_thread_list_head (sy_object ?s' y)) (L y)" if "y \<noteq> x" for y
  proof (cases "L x = []")
    case False
    then have "last (L x) \<notin> set (L y)" using d(5)[of "last (L x)" x y] that by auto
    then show ?thesis using c1[of y] nx hd that False by (simp add: chain_upd)
  qed (use c1[of y] nx hd that in simp)
  have "lists_ok ?s' (L(x := L x @ [n]))"
    unfolding lists_ok_def
  proof (intro conjI allI impI)
    fix y
    show "chain (node_next ?s') (so_thread_list_head (sy_object ?s' y)) ((L(x := L x @ [n])) y)" using cx cy by simp
    show "so_thread_list_tail (sy_object ?s' y) = (if (L(x := L x @ [n])) y = [] then None else Some (last ((L(x := L x @ [n])) y)))"
      using hd d(2)[of y] by simp
    show "distinct ((L(x := L x @ [n])) y)" using d(3) n by simp
    show "\<forall>m\<in>set ((L(x := L x @ [n])) y). ln_thread (sy_node ?s' m) = fst m" using d(4)[of _ y] n th k(3) by auto
    show "set ((L(x := L x @ [n])) y) \<inter> set ((L(x := L x @ [n])) z) = {}" if "y \<noteq> z" for z using d(5)[of _ y z] n that by auto
  qed
  moreover have "same_but_lists s ?s'"
    unfolding s1 by (auto simp: same_but_lists_def LinkNode_def Let_def on_sync_node_def on_sync_object_def split: option.split)
  ultimately show ?thesis ..
qed

section \<open>All nodes of a thread\<close>

text \<open>The lists without the nodes of a thread, and with new ones.\<close>

definition without :: "nat \<Rightarrow> (nat \<Rightarrow> sync_node list) \<Rightarrow> nat \<Rightarrow> sync_node list" where
  "without t L y = filter (\<lambda>n. fst n \<noteq> t) (L y)"

definition joined :: "nat \<Rightarrow> nat \<Rightarrow> nat list \<Rightarrow> (nat \<Rightarrow> sync_node list) \<Rightarrow> nat \<Rightarrow> sync_node list" where
  "joined t i os L y = L y @ map (\<lambda>j. (t, i + j)) (filter (\<lambda>j. os ! j = y) [0..<length os])"

lemma link_all_ok:
  assumes "lists_ok s L" "\<forall>y j. i \<le> j \<longrightarrow> (t, j) \<notin> set (L y)"
  shows "\<exists>L'. lists_ok (link_all t i os s) L' \<and> same_but_lists s (link_all t i os s) \<and>
    (\<forall>y. set (L' y) = set (L y) \<union> {(t, i + j) |j. j < length os \<and> os ! j = y})"
  using assms
proof (induction os arbitrary: i s L)
  case Nil
  then show ?case by (intro exI[of _ L]) (simp add: same_but_lists_def)
next
  case (Cons x os)
  let ?s1 = "LinkNode x (t, i) (on_sync_node (t, i) (\<lambda>nd. nd\<lparr>ln_thread := t, ln_next := None\<rparr>) s)" and ?L1 = "L(x := L x @ [(t, i)])"
  have 1: "lists_ok ?s1 ?L1" "same_but_lists s ?s1" using LinkNode_ok[OF Cons.prems(1), of "(t, i)" _ x] Cons.prems(2) by auto
  have 2: "\<forall>y j. Suc i \<le> j \<longrightarrow> (t, j) \<notin> set (?L1 y)" using Cons.prems(2) by auto
  obtain L' where L': "lists_ok (link_all t (Suc i) os ?s1) L'" "same_but_lists ?s1 (link_all t (Suc i) os ?s1)"
    "\<forall>y. set (L' y) = set (?L1 y) \<union> {(t, Suc i + j) |j. j < length os \<and> os ! j = y}" using Cons.IH[OF 1(1) 2] by blast
  have "{(t, i + j) |j. j < length (x # os) \<and> (x # os) ! j = y} = (if y = x then {(t, i)} else {}) \<union> {(t, Suc i + j) |j. j < length os \<and> os ! j = y}" for y
    by (auto simp: less_Suc_eq_0_disj)
  then have "\<forall>y. set (L' y) = set (L y) \<union> {(t, i + j) |j. j < length (x # os) \<and> (x # os) ! j = y}" using L'(3) by auto
  then show ?case using L'(1) same_but_lists_trans[OF 1(2) L'(2)] by (intro exI[of _ L']) simp
qed

lemma unlink_all_ok:
  assumes "lists_ok s L" "distinct os" "\<forall>j<length os. (t, i + j) \<in> set (L (os ! j))"
  shows "\<exists>s' L'. unlink_all t i os s = Some s' \<and> lists_ok s' L' \<and> same_but_lists s s' \<and>
    (\<forall>y. L' y = filter (\<lambda>n. \<not> (\<exists>j<length os. os ! j = y \<and> n = (t, i + j))) (L y)) \<and>
    (\<forall>m. (\<forall>j<length os. m \<notin> set (takeWhile (\<lambda>n. n \<noteq> (t, i + j)) (L (os ! j)))) \<longrightarrow> node_next s' m = node_next s m)"
  using assms
proof (induction os arbitrary: i s L)
  case Nil
  then show ?case by (intro exI[of _ s] exI[of _ L]) (simp add: same_but_lists_def)
next
  case (Cons x os)
  have "(t, i) \<in> set (L x)" using Cons.prems(3) by force
  then obtain xs ys where x: "L x = xs @ (t, i) # ys" "(t, i) \<notin> set xs" by (meson split_list_first)
  obtain s1 where s1: "UnlinkNode x (t, i) s = Some s1" "lists_ok s1 (L(x := xs @ ys))" "same_but_lists s s1"
    "\<forall>m. m \<notin> set xs \<longrightarrow> node_next s1 m = node_next s m"
    using UnlinkNode_ok[OF Cons.prems(1) x(1)] by blast
  have no: "os ! j \<noteq> x" if "j < length os" for j using Cons.prems(2) that by auto
  then have 2: "\<forall>j<length os. (t, Suc i + j) \<in> set ((L(x := xs @ ys)) (os ! j))" using Cons.prems(3) by force
  obtain s' L' where s': "unlink_all t (Suc i) os s1 = Some s'" "lists_ok s' L'" "same_but_lists s1 s'"
    "\<forall>y. L' y = filter (\<lambda>n. \<not> (\<exists>j<length os. os ! j = y \<and> n = (t, Suc i + j))) ((L(x := xs @ ys)) y)"
    "\<forall>m. (\<forall>j<length os. m \<notin> set (takeWhile (\<lambda>n. n \<noteq> (t, Suc i + j)) ((L(x := xs @ ys)) (os ! j)))) \<longrightarrow> node_next s' m = node_next s1 m"
    using Cons.IH[OF s1(2) _ 2] Cons.prems(2) by auto
  have dist: "distinct (xs @ (t, i) # ys)" using lists_okD(3)[OF Cons.prems(1), of x] x by simp
  have A: "L' y = filter (\<lambda>n. \<not> (\<exists>j<length (x # os). (x # os) ! j = y \<and> n = (t, i + j))) (L y)" for y
  proof (cases "y = x")
    case True
    have f: "filter (\<lambda>n. n \<noteq> (t, i)) xs = xs" "filter (\<lambda>n. n \<noteq> (t, i)) ys = ys" using dist by (auto simp: filter_id_conv)
    have "(\<exists>j<length (x # os). (x # os) ! j = x \<and> n = (t, i + j)) \<longleftrightarrow> n = (t, i)" for n using no by (auto simp: less_Suc_eq_0_disj)
    then have "filter (\<lambda>n. \<not> (\<exists>j<length (x # os). (x # os) ! j = x \<and> n = (t, i + j))) (L x) = xs @ ys" using f x(1) by simp
    moreover have "filter (\<lambda>n. \<not> (\<exists>j<length os. os ! j = x \<and> n = (t, Suc i + j))) (xs @ ys) = xs @ ys" by (rule filter_True) (use no in blast)
    then have "L' x = xs @ ys" unfolding s'(4)[rule_format] by simp
    ultimately show ?thesis using True by simp
  next
    case False
    then have "(\<exists>j<length (x # os). (x # os) ! j = y \<and> n = (t, i + j)) \<longleftrightarrow> (\<exists>j<length os. os ! j = y \<and> n = (t, Suc i + j))" for n
      by (fastforce simp: less_Suc_eq_0_disj)
    then show ?thesis using s'(4) False by simp
  qed
  have B: "node_next s' m = node_next s m" if m: "\<forall>j<length (x # os). m \<notin> set (takeWhile (\<lambda>n. n \<noteq> (t, i + j)) (L ((x # os) ! j)))" for m
  proof -
    have "takeWhile (\<lambda>n. n \<noteq> (t, i)) (L x) = xs" using x by (simp add: takeWhile_append takeWhile_eq_all_conv)
    then have "m \<notin> set xs" using m by force
    moreover have "m \<notin> set (takeWhile (\<lambda>n. n \<noteq> (t, Suc i + j)) ((L(x := xs @ ys)) (os ! j)))" if "j < length os" for j
      using m[rule_format, of "Suc j"] no[OF that] that by simp
    ultimately show ?thesis using s'(5)[rule_format, of m] s1(4)[rule_format, of m] by simp
  qed
  have run: "unlink_all t i (x # os) s = Some s'" using s1(1) s'(1) by simp
  show ?case using run s'(2) same_but_lists_trans[OF s1(3) s'(3)] A B by blast
qed

section \<open>Waking threads\<close>

definition waits_for_object :: "SyncCore \<Rightarrow> nat \<Rightarrow> nat \<Rightarrow> nat \<Rightarrow> bool" where
  "waits_for_object s t i x \<longleftrightarrow> (\<exists>q. sy_wait_queue (sy_thread s t) = Some q \<and> i < length (sq_objects q) \<and> sq_objects q ! i = x)"

text \<open>The invariant: the lists hold exactly the nodes of waiting threads.\<close>

definition sync_ok :: "SyncCore \<Rightarrow> (nat \<Rightarrow> sync_node list) \<Rightarrow> bool" where
  "sync_ok s L \<longleftrightarrow> sched_inv (sy_kernel s) \<and> (\<forall>t. valid_thread (k_info (sy_kernel s) t)) \<and> lists_ok s L \<and>
     (\<forall>x t i. (t, i) \<in> set (L x) \<longleftrightarrow> waits_for_object s t i x) \<and>
     (\<forall>t q. sy_wait_queue (sy_thread s t) = Some q \<longrightarrow> distinct (sq_objects q)) \<and>
     (\<forall>t. sync_waiting t s \<longleftrightarrow> sy_wait_queue (sy_thread s t) \<noteq> None)"

lemma sync_okD:
  assumes "sync_ok s L"
  shows "sched_inv (sy_kernel s)" "valid_thread (k_info (sy_kernel s) t)" "lists_ok s L" "(t, i) \<in> set (L x) \<longleftrightarrow> waits_for_object s t i x"
    "sy_wait_queue (sy_thread s t) = Some q \<Longrightarrow> distinct (sq_objects q)" "sync_waiting t s \<longleftrightarrow> sy_wait_queue (sy_thread s t) \<noteq> None"
  using assms unfolding sync_ok_def by blast+

text \<open>A thread whose wait has ended; everything else is as before.\<close>

definition wait_over :: "nat \<Rightarrow> (SyncThread \<Rightarrow> SyncThread) \<Rightarrow> SyncCore \<Rightarrow> SyncCore \<Rightarrow> bool" where
  "wait_over t f s s' \<longleftrightarrow> sy_thread s' = (sy_thread s)(t := (f (sy_thread s t))\<lparr>sy_wait_queue := None\<rparr>) \<and>
     GetState (k_thread (sy_kernel s') t) = ThreadState_Runnable \<and>
     (\<forall>u. u \<noteq> t \<longrightarrow> k_thread (sy_kernel s') u = k_thread (sy_kernel s) u) \<and>
     (\<forall>x. so_is_signaled (sy_object s' x) = so_is_signaled (sy_object s x))"

lemma end_sync_wait_ok:
  assumes "sched_inv (sy_kernel s)" "valid_thread (k_info (sy_kernel s) t)"
  shows "\<exists>s'. end_sync_wait t timer r c s = Some s' \<and> wait_over t (\<lambda>th. th\<lparr>sy_wait_result := r\<rparr>) s s' \<and> sy_object s' = sy_object s \<and> sy_node s' = sy_node s \<and>
    sched_inv (sy_kernel s') \<and> k_info (sy_kernel s') = k_info (sy_kernel s)"
proof -
  let ?k = "sy_kernel s"
  obtain k' where k': "set_state t ThreadState_Runnable ?k = Some k'"
    "restated t ((GetRawState t ?k AND NOT ThreadState_Mask) OR (ThreadState_Runnable AND ThreadState_Mask)) ?k k'"
    using set_state_ok[OF assms, of ThreadState_Runnable] by blast
  have "GetState (k_thread k' t) = ThreadState_Runnable"
    using k'(2) by (simp add: restated_def GetState_def GetRawState_def mask_state) (simp add: ThreadState_Runnable_def ThreadState_Mask_def)
  then show ?thesis using k'
    by (auto simp: end_sync_wait_def set_sync_state_def on_sync_thread_def wait_over_def restated_def Let_def fun_eq_iff)
qed

lemma same_but_lists_kernel: "same_but_lists s s' \<Longrightarrow> sy_kernel s' = sy_kernel s" "same_but_lists s s' \<Longrightarrow> sy_thread s' = sy_thread s"
  "same_but_lists s s' \<Longrightarrow> so_is_signaled (sy_object s' x) = so_is_signaled (sy_object s x)"
  by (simp_all add: same_but_lists_def)

lemma lists_ok_cong: "sy_object s' = sy_object s \<Longrightarrow> sy_node s' = sy_node s \<Longrightarrow> lists_ok s' L = lists_ok s L"
  by (simp add: lists_ok_def node_next_def[abs_def])

text \<open>Unlinking the nodes of a waiting thread and ending its wait.\<close>

lemma leave_objects_ok:
  assumes ok: "sync_ok s L" and q: "sy_wait_queue (sy_thread s t) = Some q"
  shows "\<exists>s1 s'. unlink_all t 0 (sq_objects q) s = Some s1 \<and> end_sync_wait t (sq_hardware_timer q) r c (on_sync_thread t f s1) = Some s' \<and>
    sync_ok s' (without t L) \<and> wait_over t (\<lambda>th. (f th)\<lparr>sy_wait_result := r\<rparr>) s s' \<and>
    (\<forall>x i ns. L x = (t, i) # ns \<longrightarrow> node_next s' (t, i) = node_next s (t, i))"
proof -
  let ?os = "sq_objects q"
  note d = sync_okD[OF ok]
  have mem: "(t, i) \<in> set (L x) \<longleftrightarrow> i < length ?os \<and> ?os ! i = x" for i x using d(4)[of t i x] q by (simp add: waits_for_object_def)
  obtain s1 L' where s1: "unlink_all t 0 ?os s = Some s1" "lists_ok s1 L'" "same_but_lists s s1"
    "\<forall>y. L' y = filter (\<lambda>n. \<not> (\<exists>j<length ?os. ?os ! j = y \<and> n = (t, 0 + j))) (L y)"
    "\<forall>m. (\<forall>j<length ?os. m \<notin> set (takeWhile (\<lambda>n. n \<noteq> (t, 0 + j)) (L (?os ! j)))) \<longrightarrow> node_next s1 m = node_next s m"
    using unlink_all_ok[OF d(3) d(5)[OF q], of t 0] mem by auto
  have "L' y = without t L y" for y unfolding s1(4)[rule_format] without_def by (rule filter_cong) (use mem in auto)
  then have L': "L' = without t L" by blast
  note k = same_but_lists_kernel[OF s1(3)]
  let ?s2 = "on_sync_thread t f s1"
  have k2: "sy_kernel ?s2 = sy_kernel s" "sy_object ?s2 = sy_object s1" "sy_node ?s2 = sy_node s1" "sy_thread ?s2 = (sy_thread s)(t := f (sy_thread s t))"
    using k by (simp_all add: on_sync_thread_def)
  obtain s' where s': "end_sync_wait t (sq_hardware_timer q) r c ?s2 = Some s'" "wait_over t (\<lambda>th. th\<lparr>sy_wait_result := r\<rparr>) ?s2 s'" "sy_object s' = sy_object ?s2"
    "sy_node s' = sy_node ?s2" "sched_inv (sy_kernel s')" "k_info (sy_kernel s') = k_info (sy_kernel ?s2)"
    using end_sync_wait_ok[of ?s2 t "sq_hardware_timer q" r c] d(1,2) k2(1) by auto
  have w: "wait_over t (\<lambda>th. (f th)\<lparr>sy_wait_result := r\<rparr>) s s'" using s'(2) k2 k(3) by (simp add: wait_over_def)
  have lists: "lists_ok s' (without t L)" using s1(2) L' lists_ok_cong[of s' s1] s'(3,4) k2 by simp
  have qu: "sy_wait_queue (sy_thread s' u) = (if u = t then None else sy_wait_queue (sy_thread s u))" for u using w by (simp add: wait_over_def)
  have "(u, i) \<in> set (without t L x) \<longleftrightarrow> waits_for_object s' u i x" for u i x using d(4)[of u i x] qu by (auto simp: without_def waits_for_object_def)
  moreover have "sync_waiting u s' \<longleftrightarrow> sy_wait_queue (sy_thread s' u) \<noteq> None" for u
    using w d(6)[of u] qu by (cases "u = t") (auto simp: sync_waiting_def wait_over_def ThreadState_Runnable_def ThreadState_Waiting_def)
  ultimately have "sync_ok s' (without t L)" using s'(5,6) d(2,5) k2(1) lists qu by (simp add: sync_ok_def split: if_splits)
  moreover have "node_next s' (t, i) = node_next s (t, i)" if x: "L x = (t, i) # ns" for x i ns
  proof -
    have "(t, i) \<notin> set (takeWhile (\<lambda>n. n \<noteq> (t, 0 + j)) (L (?os ! j)))" if j: "j < length ?os" for j
    proof (cases "?os ! j = x")
      case True
      then have "j = i" using mem[of i x] x j d(5)[OF q] by (auto simp: nth_eq_iff_index_eq)
      then show ?thesis using True x by simp
    next
      case False
      then have "(t, i) \<notin> set (L (?os ! j))" using lists_okD(5)[OF d(3), of "(t, i)" x "?os ! j"] x by auto
      then show ?thesis using set_takeWhileD by metis
    qed
    then have "node_next s1 (t, i) = node_next s (t, i)" using s1(5) by blast
    then show ?thesis using s'(4) k2(3) by (simp add: node_next_def)
  qed
  ultimately show ?thesis using s1(1) s'(1) w by blast
qed

lemma sync_index_at: "distinct os \<Longrightarrow> j < length os \<Longrightarrow> sync_index (os ! j) i os = int (i + j)"
proof (induction os arbitrary: i j)
  case (Cons x os)
  then show ?case by (cases j) auto
qed simp

text \<open>A thread that has been told that its \<open>i\<close>-th object is available.\<close>

definition notified :: "nat \<Rightarrow> nat \<Rightarrow> Result \<Rightarrow> SyncCore \<Rightarrow> bool" where
  "notified t i r s \<longleftrightarrow> sy_wait_queue (sy_thread s t) = None \<and> sy_wait_result (sy_thread s t) = r \<and> sy_synced_index (sy_thread s t) = int i \<and>
     \<not> sy_cancellable (sy_thread s t) \<and> GetState (k_thread (sy_kernel s) t) = ThreadState_Runnable"

definition untouched :: "nat \<Rightarrow> SyncCore \<Rightarrow> SyncCore \<Rightarrow> bool" where
  "untouched t s s' \<longleftrightarrow> sy_thread s' t = sy_thread s t \<and> k_thread (sy_kernel s') t = k_thread (sy_kernel s) t"

lemma Thread_NotifyAvailable_ok:
  assumes ok: "sync_ok s L" and i: "(t, i) \<in> set (L x)"
  shows "\<exists>s'. Thread_NotifyAvailable t x r s = Some s' \<and> sync_ok s' (without t L) \<and> notified t i r s' \<and> (\<forall>u. u \<noteq> t \<longrightarrow> untouched u s s') \<and>
    (\<forall>y. so_is_signaled (sy_object s' y) = so_is_signaled (sy_object s y)) \<and> (\<forall>ns. L x = (t, i) # ns \<longrightarrow> node_next s' (t, i) = node_next s (t, i))"
proof -
  obtain q where q: "sy_wait_queue (sy_thread s t) = Some q" "i < length (sq_objects q)" "sq_objects q ! i = x"
    using i sync_okD(4)[OF ok, of t i x] by (auto simp: waits_for_object_def)
  have w: "sync_waiting t s" using sync_okD(6)[OF ok, of t] q(1) by simp
  have idx: "sync_index x 0 (sq_objects q) = int i" using sync_index_at[OF sync_okD(5)[OF ok q(1)] q(2), of 0] q(3) by simp
  let ?f = "\<lambda>th. th\<lparr>sy_synced_index := sync_index x 0 (sq_objects q), sy_cancellable := False\<rparr>"
  obtain s1 s' where s': "unlink_all t 0 (sq_objects q) s = Some s1" "end_sync_wait t (sq_hardware_timer q) r True (on_sync_thread t ?f s1) = Some s'"
    "sync_ok s' (without t L)" "wait_over t (\<lambda>th. (?f th)\<lparr>sy_wait_result := r\<rparr>) s s'"
    "\<forall>x i ns. L x = (t, i) # ns \<longrightarrow> node_next s' (t, i) = node_next s (t, i)"
    using leave_objects_ok[OF ok q(1), of r True ?f] by blast
  have "Thread_NotifyAvailable t x r s = Some s'" using w q(1) s'(1,2) by (simp add: Thread_NotifyAvailable_def Queue_NotifyAvailable_def Let_def)
  moreover have "notified t i r s'" "\<forall>u. u \<noteq> t \<longrightarrow> untouched u s s'" using s'(4) idx by (auto simp: wait_over_def notified_def untouched_def)
  ultimately show ?thesis using s'(3-5) by (auto simp: wait_over_def)
qed

lemma notify_loop_ok:
  assumes "sync_ok s L" "L x = ns"
  shows "\<exists>s'. notify_loop x r (so_thread_list_head (sy_object s x)) s = Some s' \<and>
    sync_ok s' (\<lambda>y. filter (\<lambda>n. fst n \<notin> fst ` set ns) (L y)) \<and> (\<forall>(t, i)\<in>set ns. notified t i r s') \<and> (\<forall>u. u \<notin> fst ` set ns \<longrightarrow> untouched u s s') \<and>
    (\<forall>y. so_is_signaled (sy_object s' y) = so_is_signaled (sy_object s y))"
  using assms
proof (induction ns arbitrary: s L)
  case Nil
  have "so_thread_list_head (sy_object s x) = None" using lists_okD(1)[OF sync_okD(3)[OF Nil.prems(1)], of x] Nil.prems(2) by simp
  then show ?case using Nil.prems by (subst notify_loop.simps) (simp add: untouched_def)
next
  case (Cons n ns)
  obtain t i where n: "n = (t, i)" by fastforce
  note d = sync_okD[OF Cons.prems(1)] lists_okD[OF sync_okD(3)[OF Cons.prems(1)]]
  have h: "so_thread_list_head (sy_object s x) = Some (t, i)" "chain (node_next s) (node_next s (t, i)) ns"
    using d(7)[of x] Cons.prems(2) n by auto
  have th: "ln_thread (sy_node s (t, i)) = t" using d(10)[of "(t, i)" x] Cons.prems(2) n by simp
  obtain s1 where s1: "Thread_NotifyAvailable t x r s = Some s1" "sync_ok s1 (without t L)" "notified t i r s1" "\<forall>u. u \<noteq> t \<longrightarrow> untouched u s s1"
    "\<forall>y. so_is_signaled (sy_object s1 y) = so_is_signaled (sy_object s y)" "node_next s1 (t, i) = node_next s (t, i)"
    using Thread_NotifyAvailable_ok[OF Cons.prems(1), of t i x r] Cons.prems(2) n by auto
  have only: "fst m \<noteq> t" if mem: "m \<in> set ns" for m
  proof
    assume f: "fst m = t"
    obtain j where m: "m = (t, j)" using f by (cases m) auto
    obtain q where q: "sy_wait_queue (sy_thread s t) = Some q" "i < length (sq_objects q)" "sq_objects q ! i = x" "j < length (sq_objects q)" "sq_objects q ! j = x"
      using d(4)[of t i x] d(4)[of t j x] Cons.prems(2) n m mem by (auto simp: waits_for_object_def)
    then have "i = j" using d(5)[OF q(1)] by (auto simp: nth_eq_iff_index_eq)
    then show False using d(9)[of x] Cons.prems(2) n m mem by simp
  qed
  have wx: "without t L x = ns" using only Cons.prems(2) n by (auto simp: without_def filter_id_conv)
  have cur: "ln_next (sy_node s1 (t, i)) = so_thread_list_head (sy_object s1 x)"
  proof -
    have "chain (node_next s1) (so_thread_list_head (sy_object s1 x)) ns" using lists_okD(1)[OF sync_okD(3)[OF s1(2)], of x] wx by simp
    moreover have "node_next s1 (t, i) = node_next s (t, i)" by (rule s1(6))
    ultimately show ?thesis using h(2) by (cases ns) (auto simp: node_next_def)
  qed
  obtain s' where s': "notify_loop x r (so_thread_list_head (sy_object s1 x)) s1 = Some s'"
    "sync_ok s' (\<lambda>y. filter (\<lambda>n. fst n \<notin> fst ` set ns) (without t L y))" "\<forall>(t, i)\<in>set ns. notified t i r s'" "\<forall>u. u \<notin> fst ` set ns \<longrightarrow> untouched u s1 s'"
    "\<forall>y. so_is_signaled (sy_object s' y) = so_is_signaled (sy_object s1 y)"
    using Cons.IH[OF s1(2) wx] by blast
  have run: "notify_loop x r (so_thread_list_head (sy_object s x)) s = Some s'"
    using h(1) th s1(1) s'(1) cur by (subst notify_loop.simps) simp
  have fl: "filter (\<lambda>n. fst n \<notin> fst ` set ns) (without t L y) = filter (\<lambda>m. fst m \<notin> fst ` set (n # ns)) (L y)" for y
    unfolding without_def n filter_filter by (rule filter_cong) auto
  have "t \<notin> fst ` set ns" using only by auto
  then have "notified t i r s'" using s1(3) s'(4) by (simp add: notified_def untouched_def)
  moreover have "\<forall>u. u \<notin> fst ` set (n # ns) \<longrightarrow> untouched u s s'" using s1(4) s'(4) n by (auto simp: untouched_def)
  ultimately show ?case using run s'(2,3,5) s1(5) n unfolding fl by auto
qed

section \<open>Going to sleep\<close>

lemma first_signaled_None: "first_signaled i os s = None \<longleftrightarrow> (\<forall>x\<in>set os. \<not> so_is_signaled (sy_object s x))"
  by (induction os arbitrary: i) auto

lemma first_signaled_Some:
  "first_signaled i os s = Some k \<Longrightarrow>
    i \<le> k \<and> k < i + length os \<and> so_is_signaled (sy_object s (os ! (k - i))) \<and> (\<forall>j<k - i. \<not> so_is_signaled (sy_object s (os ! j)))"
proof (induction os arbitrary: i)
  case (Cons x os)
  show ?case
  proof (cases "so_is_signaled (sy_object s x)")
    case False
    then have a: "Suc i \<le> k" "k < Suc i + length os" "so_is_signaled (sy_object s (os ! (k - Suc i)))" "\<forall>j<k - Suc i. \<not> so_is_signaled (sy_object s (os ! j))"
      using Cons.IH[of "Suc i"] Cons.prems by simp_all
    then have k: "k - i = Suc (k - Suc i)" by simp
    have "\<not> so_is_signaled (sy_object s ((x # os) ! j))" if "j < Suc (k - Suc i)" for j using that a(4) False by (cases j) auto
    then show ?thesis using a k by simp
  qed (use Cons.prems in auto)
qed simp

lemma link_all_kernel: "sy_kernel (link_all t i os s) = sy_kernel s"
  by (induction os arbitrary: i s) (simp_all add: LinkNode_def Let_def on_sync_node_def on_sync_object_def split: option.split)

text \<open>The wait of a thread that goes to sleep.\<close>

lemma Wait_sleeps:
  assumes ok: "sync_ok s L" and t: "sy_wait_queue (sy_thread s t) = None" "distinct os"
    and w: "KSynchronizationObject_Wait t os timeout s = Some (SyncWaiting, s')"
  shows "(\<exists>L'. sync_ok s' L') \<and> (\<forall>u. u \<noteq> t \<longrightarrow> untouched u s s') \<and> (\<forall>x. so_is_signaled (sy_object s' x) = so_is_signaled (sy_object s x)) \<and>
    (\<forall>x\<in>set os. \<not> so_is_signaled (sy_object s x)) \<and> map_option sq_objects (sy_wait_queue (sy_thread s' t)) = Some os"
proof -
  note d = sync_okD[OF ok]
  let ?s1 = "link_all t 0 os s"
  let ?s2 = "on_sync_thread t (\<lambda>th. th\<lparr>sy_cancellable := True, sy_synced_index := -1\<rparr>) ?s1"
  let ?q = "\<lparr>sq_objects = os, sq_hardware_timer = (timeout > 0)\<rparr>"
  have none: "\<forall>y j. 0 \<le> j \<longrightarrow> (t, j) \<notin> set (L y)" using d(4)[of t] t(1) by (auto simp: waits_for_object_def)
  obtain L' where L': "lists_ok ?s1 L'" "same_but_lists s ?s1" "\<forall>y. set (L' y) = set (L y) \<union> {(t, 0 + j) |j. j < length os \<and> os ! j = y}"
    using link_all_ok[OF d(3) none, of os] by blast
  note k = same_but_lists_kernel[OF L'(2)]
  have k2: "sy_kernel ?s2 = sy_kernel s" "sy_object ?s2 = sy_object ?s1" "sy_node ?s2 = sy_node ?s1" using k by (simp_all add: on_sync_thread_def)
  obtain k' where k': "set_state t ThreadState_Waiting (sy_kernel s) = Some k'"
    "restated t ((GetRawState t (sy_kernel s) AND NOT ThreadState_Mask) OR (ThreadState_Waiting AND ThreadState_Mask)) (sy_kernel s) k'"
    using set_state_ok[OF d(1,2), of t ThreadState_Waiting] by blast
  have fs: "first_signaled 0 os s = None" and s': "sy_kernel s' = k'" "sy_object s' = sy_object ?s1" "sy_node s' = sy_node ?s1"
    "sy_thread s' = (sy_thread s)(t := (sy_thread s t)\<lparr>sy_cancellable := True, sy_synced_index := -1, sy_wait_queue := Some ?q\<rparr>)"
    using w k' k k2 by (auto simp: KSynchronizationObject_Wait_def set_sync_state_def on_sync_thread_def Let_def split: if_splits option.splits)
  have "GetState (k_thread k' t) = ThreadState_Waiting"
    using k'(2) by (simp add: restated_def GetState_def GetRawState_def mask_state) (simp add: ThreadState_Waiting_def ThreadState_Mask_def)
  then have st: "GetState (k_thread k' t) = ThreadState_Waiting" "\<forall>u. u \<noteq> t \<longrightarrow> k_thread k' u = k_thread (sy_kernel s) u" "sched_inv k'" "k_info k' = k_info (sy_kernel s)"
    using k'(2) by (auto simp: restated_def)
  have qu: "sy_wait_queue (sy_thread s' u) = (if u = t then Some ?q else sy_wait_queue (sy_thread s u))" for u using s'(4) by simp
  have "(u, i) \<in> set (L' x) \<longleftrightarrow> waits_for_object s' u i x" for u i x
    using d(4)[of u i x] L'(3) none qu by (auto simp: waits_for_object_def)
  moreover have "sync_waiting u s' \<longleftrightarrow> sy_wait_queue (sy_thread s' u) \<noteq> None" for u using d(6)[of u] qu st s'(1) by (cases "u = t") (auto simp: sync_waiting_def)
  moreover have "lists_ok s' L'" using L'(1) lists_ok_cong[of s' ?s1] s'(2,3) by simp
  moreover have "sy_wait_queue (sy_thread s' u) = Some q \<Longrightarrow> distinct (sq_objects q)" for u q using d(5)[of u q] qu[of u] t(2) by (auto split: if_splits)
  ultimately have "sync_ok s' L'" using st(3,4) s'(1) d(2) unfolding sync_ok_def by simp
  then show ?thesis using s' st k(3) fs qu first_signaled_None[of 0 os s] by (auto simp: untouched_def)
qed

section \<open>Runs\<close>

text \<open>Threads wait for different objects, events are signalled and cleared, and waits are cancelled or time out.\<close>

inductive sync_step :: "SyncCore \<Rightarrow> SyncCore \<Rightarrow> bool" where
  wait: "sy_wait_queue (sy_thread s t) = None \<Longrightarrow> distinct os \<Longrightarrow> KSynchronizationObject_Wait t os timeout s = Some (out, s') \<Longrightarrow> sync_step s s'"
| signal: "KReadableEvent_Signal x s = Some (r, s') \<Longrightarrow> sync_step s s'"
| clear: "sync_step s (snd (KReadableEvent_Clear x s))"
| cancel: "WaitCancel t s = Some s' \<Longrightarrow> sync_step s s'"
| timer: "Thread_OnTimer t s = Some s' \<Longrightarrow> sync_step s s'"

definition sync_start :: "SyncCore \<Rightarrow> bool" where
  "sync_start s \<longleftrightarrow> sched_inv (sy_kernel s) \<and> (\<forall>t. valid_thread (k_info (sy_kernel s) t) \<and> \<not> sync_waiting t s \<and> sy_wait_queue (sy_thread s t) = None) \<and>
     (\<forall>x. so_thread_list_head (sy_object s x) = None \<and> so_thread_list_tail (sy_object s x) = None)"

inductive sync_reachable :: "SyncCore \<Rightarrow> bool" where
  start: "sync_start s \<Longrightarrow> sync_reachable s"
| step: "sync_reachable s \<Longrightarrow> sync_step s s' \<Longrightarrow> sync_reachable s'"

definition awake_if_signaled :: "SyncCore \<Rightarrow> bool" where
  "awake_if_signaled s \<longleftrightarrow> (\<forall>t i x. waits_for_object s t i x \<longrightarrow> \<not> so_is_signaled (sy_object s x))"

definition sync_inv :: "SyncCore \<Rightarrow> bool" where
  "sync_inv s \<longleftrightarrow> (\<exists>L. sync_ok s L) \<and> awake_if_signaled s"

lemma sync_start_inv: "sync_start s \<Longrightarrow> sync_inv s"
  unfolding sync_inv_def sync_start_def sync_ok_def lists_ok_def awake_if_signaled_def waits_for_object_def
  by (intro conjI exI[of _ "\<lambda>x. []"]) auto

text \<open>Steps that only change flags.\<close>

lemma sync_ok_flags:
  assumes "sync_ok s L" "sy_kernel s' = sy_kernel s" "\<And>t. sy_wait_queue (sy_thread s' t) = sy_wait_queue (sy_thread s t)" "sy_node s' = sy_node s"
    "\<And>x. so_thread_list_head (sy_object s' x) = so_thread_list_head (sy_object s x) \<and> so_thread_list_tail (sy_object s' x) = so_thread_list_tail (sy_object s x)"
  shows "sync_ok s' L"
  using assms unfolding sync_ok_def lists_ok_def waits_for_object_def sync_waiting_def node_next_def[abs_def] by simp

lemma Signal_ok:
  assumes ok: "sync_ok s L" and x: "\<not> so_is_signaled (sy_object s x)"
  shows "\<exists>s'. KReadableEvent_Signal x s = Some (ResultSuccess, s') \<and> (\<exists>L'. sync_ok s' L') \<and> so_is_signaled (sy_object s' x) \<and>
    (\<forall>y. y \<noteq> x \<longrightarrow> so_is_signaled (sy_object s' y) = so_is_signaled (sy_object s y)) \<and>
    (\<forall>t i. waits_for_object s t i x \<longrightarrow> notified t i ResultSuccess s') \<and> (\<forall>t. (\<nexists>i. waits_for_object s t i x) \<longrightarrow> untouched t s s')"
proof -
  let ?s1 = "on_sync_object x (\<lambda>ob. ob\<lparr>so_is_signaled := True\<rparr>) s"
  have ok1: "sync_ok ?s1 L" by (rule sync_ok_flags[OF ok]) (auto simp: on_sync_object_def)
  obtain s' where s': "notify_loop x ResultSuccess (so_thread_list_head (sy_object ?s1 x)) ?s1 = Some s'"
    "sync_ok s' (\<lambda>y. filter (\<lambda>n. fst n \<notin> fst ` set (L x)) (L y))" "\<forall>(t, i)\<in>set (L x). notified t i ResultSuccess s'"
    "\<forall>u. u \<notin> fst ` set (L x) \<longrightarrow> untouched u ?s1 s'" "\<forall>y. so_is_signaled (sy_object s' y) = so_is_signaled (sy_object ?s1 y)"
    using notify_loop_ok[OF ok1 refl, of x ResultSuccess] by blast
  have mem: "(t, i) \<in> set (L x) \<longleftrightarrow> waits_for_object s t i x" for t i by (rule sync_okD(4)[OF ok])
  have "KReadableEvent_Signal x s = Some (ResultSuccess, s')" using s'(1) x by (simp add: KReadableEvent_Signal_def Object_NotifyAvailable_def) (simp add: on_sync_object_def)
  moreover have "untouched t s s'" if "\<nexists>i. waits_for_object s t i x" for t
  proof -
    have "t \<notin> fst ` set (L x)" using that mem by (auto simp: image_iff)
    then have "untouched t ?s1 s'" using s'(4) by blast
    then show ?thesis by (simp add: untouched_def on_sync_object_def)
  qed
  moreover have "notified t i ResultSuccess s'" if "waits_for_object s t i x" for t i using s'(3) mem that by blast
  ultimately show ?thesis using s'(2,5) by (auto simp: on_sync_object_def)
qed

lemma CancelWait_ok:
  assumes ok: "sync_ok s L" and q: "sy_wait_queue (sy_thread s t) = Some q"
  shows "\<exists>s'. Queue_CancelWait q t r c s = Some s' \<and> sync_ok s' (without t L) \<and>
    wait_over t (\<lambda>th. (th\<lparr>sy_cancellable := False\<rparr>)\<lparr>sy_wait_result := r\<rparr>) s s'"
  using leave_objects_ok[OF ok q, of r c "\<lambda>th. th\<lparr>sy_cancellable := False\<rparr>"] unfolding Queue_CancelWait_def by force

lemma awake_less:
  assumes "awake_if_signaled s" "\<And>t. sy_wait_queue (sy_thread s' t) = None \<or> sy_wait_queue (sy_thread s' t) = sy_wait_queue (sy_thread s t)"
    "\<And>x. so_is_signaled (sy_object s' x) \<Longrightarrow> so_is_signaled (sy_object s x)"
  shows "awake_if_signaled s'"
  unfolding awake_if_signaled_def
proof (intro allI impI notI)
  fix t i x assume a: "waits_for_object s' t i x" "so_is_signaled (sy_object s' x)"
  then have "waits_for_object s t i x" using assms(2)[of t] by (auto simp: waits_for_object_def)
  then show False using assms(1) assms(3)[OF a(2)] unfolding awake_if_signaled_def by blast
qed

lemma cancelled_inv:
  assumes i: "sync_inv s" and q: "sy_wait_queue (sy_thread s t) = Some q" and r: "Queue_CancelWait q t r c s = Some s'"
  shows "sync_inv s'"
proof -
  obtain L where "sync_ok s L" using i by (auto simp: sync_inv_def)
  then have w: "sync_ok s' (without t L)" "wait_over t (\<lambda>th. (th\<lparr>sy_cancellable := False\<rparr>)\<lparr>sy_wait_result := r\<rparr>) s s'"
    using CancelWait_ok[of s L t q r c] q r by auto
  have "awake_if_signaled s'" by (rule awake_less[of s]) (use i w(2) in \<open>auto simp: sync_inv_def wait_over_def\<close>)
  then show ?thesis using w(1) by (auto simp: sync_inv_def)
qed

lemma flags_inv:
  assumes i: "sync_inv s" and s': "sy_kernel s' = sy_kernel s" "\<And>t. sy_wait_queue (sy_thread s' t) = sy_wait_queue (sy_thread s t)" "sy_node s' = sy_node s"
    "\<And>x. so_thread_list_head (sy_object s' x) = so_thread_list_head (sy_object s x) \<and> so_thread_list_tail (sy_object s' x) = so_thread_list_tail (sy_object s x)"
    "\<And>x. so_is_signaled (sy_object s' x) \<Longrightarrow> so_is_signaled (sy_object s x)"
  shows "sync_inv s'"
proof -
  obtain L where "sync_ok s L" using i by (auto simp: sync_inv_def)
  then have "sync_ok s' L" by (rule sync_ok_flags) (use s' in auto)
  moreover have "awake_if_signaled s'" by (rule awake_less[of s]) (use i s' in \<open>auto simp: sync_inv_def\<close>)
  ultimately show ?thesis by (auto simp: sync_inv_def)
qed

lemma wait_inv:
  assumes i: "sync_inv s" and t: "sy_wait_queue (sy_thread s t) = None" "distinct os" and w: "KSynchronizationObject_Wait t os timeout s = Some (out, s')"
  shows "sync_inv s'"
proof (cases out)
  case SyncWaiting
  obtain L where L: "sync_ok s L" using i by (auto simp: sync_inv_def)
  have h: "\<exists>L'. sync_ok s' L'" "\<forall>u. u \<noteq> t \<longrightarrow> untouched u s s'" "\<forall>x. so_is_signaled (sy_object s' x) = so_is_signaled (sy_object s x)"
    "\<forall>x\<in>set os. \<not> so_is_signaled (sy_object s x)" "map_option sq_objects (sy_wait_queue (sy_thread s' t)) = Some os"
    using Wait_sleeps[OF L t] w SyncWaiting by blast+
  have "\<not> so_is_signaled (sy_object s' x)" if x: "waits_for_object s' u j x" for u j x
  proof (cases "u = t")
    case True
    then show ?thesis using x h(3,4,5) by (auto simp: waits_for_object_def)
  next
    case False
    then have "waits_for_object s u j x" using x h(2) by (auto simp: waits_for_object_def untouched_def)
    then show ?thesis using i h(3) by (auto simp: sync_inv_def awake_if_signaled_def)
  qed
  then show ?thesis using h(1) by (auto simp: sync_inv_def awake_if_signaled_def)
next
  case (SyncReturned r k)
  have "s' = s \<or> s' = on_sync_thread t (\<lambda>th. th\<lparr>sy_wait_cancelled := False\<rparr>) s"
    using w SyncReturned by (auto simp: KSynchronizationObject_Wait_def Let_def bind_eq_Some_conv split: if_splits option.splits)
  then show ?thesis by (elim disjE) (auto intro: i flags_inv[OF i] simp: on_sync_thread_def)
qed

lemma signal_inv:
  assumes i: "sync_inv s" and w: "KReadableEvent_Signal x s = Some (r, s')"
  shows "sync_inv s'"
proof (cases "so_is_signaled (sy_object s x)")
  case True
  then show ?thesis using i w by (simp add: KReadableEvent_Signal_def)
next
  case False
  obtain L where L: "sync_ok s L" using i by (auto simp: sync_inv_def)
  have h: "\<exists>L'. sync_ok s' L'" "\<forall>y. y \<noteq> x \<longrightarrow> so_is_signaled (sy_object s' y) = so_is_signaled (sy_object s y)"
    "\<forall>t i. waits_for_object s t i x \<longrightarrow> notified t i ResultSuccess s'" "\<forall>t. (\<nexists>i. waits_for_object s t i x) \<longrightarrow> untouched t s s'"
    using Signal_ok[OF L False] w by auto
  have "\<not> so_is_signaled (sy_object s' y)" if y: "waits_for_object s' u j y" for u j y
  proof -
    have n: "\<nexists>i. waits_for_object s u i x"
    proof
      assume "\<exists>i. waits_for_object s u i x"
      then have "sy_wait_queue (sy_thread s' u) = None" using h(3) by (auto simp: notified_def)
      then show False using y by (simp add: waits_for_object_def)
    qed
    then have "waits_for_object s u j y" using y h(4) by (auto simp: waits_for_object_def untouched_def)
    moreover from this have "y \<noteq> x" using n by blast
    ultimately show ?thesis using i h(2) by (auto simp: sync_inv_def awake_if_signaled_def)
  qed
  then show ?thesis using h(1) by (auto simp: sync_inv_def awake_if_signaled_def)
qed

lemma sync_step_inv: "sync_step s s' \<Longrightarrow> sync_inv s \<Longrightarrow> sync_inv s'"
proof (induction rule: sync_step.induct)
  case (cancel t s s')
  let ?s1 = "on_sync_thread t (\<lambda>th. th\<lparr>sy_wait_cancelled := False\<rparr>) s"
  have c: "sync_inv ?s1" "sync_inv (on_sync_thread t (\<lambda>th. th\<lparr>sy_wait_cancelled := True\<rparr>) s)"
    by (rule flags_inv[OF cancel.prems]; simp add: on_sync_thread_def)+
  show ?case
  proof (cases "sync_waiting t s \<and> sy_cancellable (sy_thread s t)")
    case True
    then obtain q where q: "sy_wait_queue (sy_thread s t) = Some q" "Queue_CancelWait q t ResultCancelled True ?s1 = Some s'"
      using cancel.hyps by (auto simp: WaitCancel_def bind_eq_Some_conv)
    have "sy_wait_queue (sy_thread ?s1 t) = Some q" using q(1) by (simp add: on_sync_thread_def)
    then show ?thesis using cancelled_inv[OF c(1) _ q(2)] by blast
  qed (use cancel.hyps c(2) in \<open>auto simp: WaitCancel_def\<close>)
next
  case (timer t s s')
  then show ?case using cancelled_inv[OF timer.prems] by (auto simp: Thread_OnTimer_def Thread_CancelWait_def bind_eq_Some_conv split: if_splits)
next
  case (clear s x)
  show ?case by (rule flags_inv[OF clear.prems]) (auto simp: KReadableEvent_Clear_def KReadableEvent_Reset_def on_sync_object_def split: if_splits)
qed (auto intro: wait_inv signal_inv)

lemma sync_reachable_inv: "sync_reachable s \<Longrightarrow> sync_inv s"
  by (induction rule: sync_reachable.induct) (auto intro: sync_start_inv sync_step_inv)

text \<open>A kernel in which thread 1 waits for the objects 5 and 7.\<close>

definition sample_sync :: SyncCore where
  "sample_sync = \<lparr>sy_kernel = sample_kernel,
     sy_thread = \<lambda>t. \<lparr>sy_wait_queue = None, sy_wait_result = ResultSuccess, sy_synced_index = 0, sy_cancellable = False, sy_wait_cancelled = False\<rparr>,
     sy_object = \<lambda>x. \<lparr>so_thread_list_head = None, so_thread_list_tail = None, so_is_signaled = (x = 3)\<rparr>,
     sy_node = \<lambda>n. \<lparr>ln_next = None, ln_thread = 0\<rparr>, sy_timer_tasks = {}\<rparr>"

lemma sample_sync_start: "sync_reachable sample_sync"
proof (rule start)
  have "valid_thread (k_info sample_kernel t)" for t using sample_threads_valid[of t] by (simp add: sample_kernel_def)
  moreover have "\<not> sync_waiting t sample_sync" for t
    by (simp add: sync_waiting_def sample_sync_def sample_kernel_def sample_thread_def GetState_def ThreadState_Initialized_def ThreadState_Waiting_def ThreadState_Mask_def)
  ultimately show "sync_start sample_sync" using booted_inv[OF sample_booted] by (simp add: sync_start_def sample_sync_def)
qed

lemma sample_not_terminating: "\<not> IsTerminationRequested (k_thread (sy_kernel sample_sync) t)"
  by (simp add: sample_sync_def sample_kernel_def sample_thread_def IsTerminationRequested_def ThreadState_Initialized_def ThreadState_Terminated_def)

lemma sample_sync_asleep:
  "\<exists>s. sync_reachable s \<and> KSynchronizationObject_Wait 1 [5, 7] 20 sample_sync = Some (SyncWaiting, s) \<and>
    waits_for_object s 1 0 5 \<and> waits_for_object s 1 1 7 \<and> \<not> so_is_signaled (sy_object s 7)"
proof -
  obtain L where L: "sync_ok sample_sync L" using sync_reachable_inv[OF sample_sync_start] by (auto simp: sync_inv_def)
  have f: "first_signaled 0 [5, 7] sample_sync = None" "sy_wait_queue (sy_thread sample_sync 1) = None" "\<not> sy_wait_cancelled (sy_thread sample_sync 1)"
    by (simp_all add: sample_sync_def)
  obtain k where "set_state 1 ThreadState_Waiting (sy_kernel sample_sync) = Some k" using set_state_ok[OF sync_okD(1,2)[OF L]] by blast
  then obtain s where w: "KSynchronizationObject_Wait 1 [5, 7] 20 sample_sync = Some (SyncWaiting, s)"
    using f sample_not_terminating by (auto simp: link_all_kernel KSynchronizationObject_Wait_def set_sync_state_def on_sync_thread_def Let_def simp del: link_all.simps)
  have "map_option sq_objects (sy_wait_queue (sy_thread s 1)) = Some [5, 7]" "\<not> so_is_signaled (sy_object s 7)"
    using Wait_sleeps[OF L f(2) _ w] by (auto simp: sample_sync_def)
  then have "waits_for_object s 1 0 5 \<and> waits_for_object s 1 1 7 \<and> \<not> so_is_signaled (sy_object s 7)" by (auto simp: waits_for_object_def)
  moreover have "sync_reachable s" by (rule step[OF sample_sync_start wait[OF f(2) _ w]]) simp
  ultimately show ?thesis using w by blast
qed

section \<open>Properties of synchronization objects\<close>

text \<open>C22: Signalling an event always returns and wakes exactly the threads that wait for it: each of them runs again with success and
  the index of the event among the objects it waited for, and no longer waits for any object; no other thread changes. The states
  are those reached by waits for distinct objects, signals, clears, cancellations and time-outs.\<close>

theorem event_signal_wakes_waiters:
  assumes "sync_reachable s" "\<not> so_is_signaled (sy_object s x)"
  shows "\<exists>s'. KReadableEvent_Signal x s = Some (ResultSuccess, s') \<and> so_is_signaled (sy_object s' x) \<and>
    (\<forall>t i. waits_for_object s t i x \<longrightarrow> notified t i ResultSuccess s' \<and> (\<forall>j y. \<not> waits_for_object s' t j y)) \<and>
    (\<forall>t. (\<nexists>i. waits_for_object s t i x) \<longrightarrow> untouched t s s')"
proof -
  obtain L where L: "sync_ok s L" using sync_reachable_inv[OF assms(1)] by (auto simp: sync_inv_def)
  have "notified t i r s' \<Longrightarrow> \<not> waits_for_object s' t j y" for t i r s' j y by (simp add: notified_def waits_for_object_def)
  then show ?thesis using Signal_ok[OF L assms(2)] by blast
qed

theorem event_signal_wakes_waiters_witness:
  "\<exists>s s'. KSynchronizationObject_Wait 1 [5, 7] 20 sample_sync = Some (SyncWaiting, s) \<and>
    KReadableEvent_Signal 7 s = Some (ResultSuccess, s') \<and> notified 1 1 ResultSuccess s' \<and> \<not> waits_for_object s' 1 0 5"
proof -
  obtain s where s: "sync_reachable s" "KSynchronizationObject_Wait 1 [5, 7] 20 sample_sync = Some (SyncWaiting, s)"
    "waits_for_object s 1 1 7" "\<not> so_is_signaled (sy_object s 7)" using sample_sync_asleep by blast
  show ?thesis using event_signal_wakes_waiters[OF s(1,4)] s(2,3) by blast
qed

text \<open>C21: No thread sleeps although one of the objects it waits for is signalled, and the lists of the objects are exactly the nodes
  of the sleeping threads. A wait of a thread that is not to terminate for objects one of which is signalled returns at once
  with the first such object; any other wait returns or goes to sleep. The states are those reached by waits for distinct
  objects, signals, clears, cancellations and time-outs.\<close>

theorem no_sleep_on_signaled_object:
  assumes "sync_reachable s"
  shows "(\<forall>t i x. waits_for_object s t i x \<longrightarrow> \<not> so_is_signaled (sy_object s x)) \<and>
    (\<exists>L. lists_ok s L \<and> (\<forall>x t i. (t, i) \<in> set (L x) \<longleftrightarrow> waits_for_object s t i x)) \<and>
    (\<forall>t os timeout. \<not> IsTerminationRequested (k_thread (sy_kernel s) t) \<and> (\<exists>x\<in>set os. so_is_signaled (sy_object s x)) \<longrightarrow>
       (\<exists>i<length os. so_is_signaled (sy_object s (os ! i)) \<and> (\<forall>j<i. \<not> so_is_signaled (sy_object s (os ! j))) \<and> KSynchronizationObject_Wait t os timeout s = Some (SyncReturned ResultSuccess (Some i), s))) \<and>
    (\<forall>t os timeout. \<exists>out s'. KSynchronizationObject_Wait t os timeout s = Some (out, s'))"
proof -
  have i: "sync_inv s" by (rule sync_reachable_inv[OF assms])
  then obtain L where L: "sync_ok s L" by (auto simp: sync_inv_def)
  have "\<exists>i<length os. so_is_signaled (sy_object s (os ! i)) \<and> (\<forall>j<i. \<not> so_is_signaled (sy_object s (os ! j))) \<and> KSynchronizationObject_Wait t os timeout s = Some (SyncReturned ResultSuccess (Some i), s)"
    if h: "\<not> IsTerminationRequested (k_thread (sy_kernel s) t)" "\<exists>x\<in>set os. so_is_signaled (sy_object s x)" for t os timeout
  proof -
    obtain k where k: "first_signaled 0 os s = Some k" using h(2) first_signaled_None[of 0 os s] by auto
    then show ?thesis using first_signaled_Some[OF k] h(1) by (auto simp: KSynchronizationObject_Wait_def)
  qed
  moreover have "\<exists>out s'. KSynchronizationObject_Wait t os timeout s = Some (out, s')" for t os timeout
  proof -
    obtain k' where "set_state t ThreadState_Waiting (sy_kernel s) = Some k'" using set_state_ok[OF sync_okD(1,2)[OF L]] by blast
    then show ?thesis by (auto simp: link_all_kernel KSynchronizationObject_Wait_def set_sync_state_def on_sync_thread_def Let_def split: option.split)
  qed
  ultimately show ?thesis using i sync_okD(3,4)[OF L] unfolding sync_inv_def awake_if_signaled_def by blast
qed

theorem no_sleep_on_signaled_object_witness:
  "KSynchronizationObject_Wait 2 [4, 3, 5] 9 sample_sync = Some (SyncReturned ResultSuccess (Some 1), sample_sync)"
proof -
  have "\<exists>x\<in>set [4, 3, 5]. so_is_signaled (sy_object sample_sync x)" by (simp add: sample_sync_def)
  then obtain i where i: "i < length [4, 3, 5 :: nat]" "so_is_signaled (sy_object sample_sync ([4, 3, 5] ! i))"
    "KSynchronizationObject_Wait 2 [4, 3, 5] 9 sample_sync = Some (SyncReturned ResultSuccess (Some i), sample_sync)"
    using no_sleep_on_signaled_object[OF sample_sync_start] sample_not_terminating by blast
  have "[4, 3, 5] ! i = (3 :: nat)" using i(2) by (simp add: sample_sync_def)
  then have "i = 1" using i(1) by (auto simp: less_Suc_eq numeral_nat)
  then show ?thesis using i(3) by simp
qed

end
