(* ===== verification/Flat_Allocator.thy ===== *)
theory Flat_Allocator
  imports Yuzu_Prelude "HOL-Library.Monad_Syntax"
begin

text \<open>
  The address space allocator of the GPU services (\<open>src/common/address_space.h\<close> and \<open>.inc\<close>), in its only
  instantiation \<open>FlatAllocator<u32, 0, 32>\<close>: virtual addresses are 32-bit words, \<open>UnmappedVa\<close> is 0, a block is
  mapped or not (\<open>PaType\<close> is \<open>bool\<close>, \<open>UnmappedPa\<close> is \<open>false\<close>), a split block keeps its value
  (\<open>PaContigSplit\<close> is \<open>false\<close>), blocks carry no further information and there is no unmap callback.
  Iterators into the vector of blocks are indices; stepping back from the first block, dereferencing the end and
  erasing a reversed range are undefined in C++ and have no result. A failed assertion is logged and the code goes on.
\<close>

section \<open>Blocks\<close>

record FlatBlock =
  b_virt :: u32
  b_phys :: bool

definition UnmappedVa :: u32 where
  "UnmappedVa = 0"

definition UnmappedPa :: bool where
  "UnmappedPa = False"

definition Mapped :: "FlatBlock \<Rightarrow> bool" where
  "Mapped b \<longleftrightarrow> b_phys b \<noteq> UnmappedPa"

definition Unmapped :: "FlatBlock \<Rightarrow> bool" where
  "Unmapped b \<longleftrightarrow> b_phys b = UnmappedPa"

text \<open>\<open>std::lower_bound\<close> on blocks sorted by their addresses: the first block that does not lie below the address.\<close>

definition lower_bound :: "FlatBlock list \<Rightarrow> u32 \<Rightarrow> nat" where
  "lower_bound blocks va = length (takeWhile (\<lambda>b. b_virt b < va) blocks)"

definition insert_blocks :: "nat \<Rightarrow> FlatBlock list \<Rightarrow> FlatBlock list \<Rightarrow> FlatBlock list" where
  "insert_blocks i bs blocks = take i blocks @ bs @ drop i blocks"

definition erase_blocks :: "nat \<Rightarrow> nat \<Rightarrow> FlatBlock list \<Rightarrow> FlatBlock list option" where
  "erase_blocks i j blocks = (if i \<le> j \<and> j \<le> length blocks then Some (take i blocks @ drop j blocks) else None)"

text \<open>The loop over \<open>std::prev(block_start_successor)\<close>.\<close>

fun walk_start_successor :: "u32 \<Rightarrow> FlatBlock list \<Rightarrow> nat \<Rightarrow> nat option" where
  "walk_start_successor virt blocks 0 = None"
| "walk_start_successor virt blocks (Suc i) =
     (if b_virt (blocks ! i) \<ge> virt then walk_start_successor virt blocks i else Some (Suc i))"

fun walk_back_to_predecessor :: "u32 \<Rightarrow> FlatBlock list \<Rightarrow> nat \<Rightarrow> nat option" where
  "walk_back_to_predecessor virt blocks 0 = (if b_virt (blocks ! 0) \<ge> virt then None else Some 0)"
| "walk_back_to_predecessor virt blocks (Suc i) =
     (if b_virt (blocks ! Suc i) \<ge> virt then walk_back_to_predecessor virt blocks i else Some (Suc i))"

section \<open>Mapping\<close>

text \<open>The part of \<open>MapLocked\<close> behind the search for the end.\<close>

definition map_start :: "u32 \<Rightarrow> bool \<Rightarrow> u32 \<Rightarrow> nat \<Rightarrow> FlatBlock list \<Rightarrow> FlatBlock list option" where
  "map_start virt phys virt_end block_end_successor blocks =
     do {
       s \<leftarrow> walk_start_successor virt blocks block_end_successor;
       if b_virt (blocks ! s) > virt_end then Some blocks
       else if b_virt (blocks ! s) = virt_end then
         Some (insert_blocks s [\<lparr>b_virt = virt, b_phys = phys\<rparr>] blocks)
       else do {
         blocks' \<leftarrow> (if Suc s \<noteq> block_end_successor then erase_blocks (Suc s) block_end_successor blocks else Some blocks);
         Some (blocks'[s := \<lparr>b_virt = virt, b_phys = phys\<rparr>])
       }
     }"

definition MapLocked :: "u32 \<Rightarrow> bool \<Rightarrow> u32 \<Rightarrow> FlatBlock list \<Rightarrow> FlatBlock list option" where
  "MapLocked virt phys sz blocks =
     (let virt_end = virt + sz;
          es = lower_bound blocks virt_end;
          ep = es - 1
      in if es = 0 then None
         else if es < length blocks then
           if b_virt (blocks ! es) \<noteq> virt_end then
             let tailPhys = b_phys (blocks ! ep) in
             if b_virt (blocks ! ep) \<ge> virt then
               if ep = 0 then None
               else map_start virt phys virt_end ep (blocks[ep := \<lparr>b_virt = virt_end, b_phys = tailPhys\<rparr>])
             else Some (insert_blocks es [\<lparr>b_virt = virt, b_phys = phys\<rparr>, \<lparr>b_virt = virt_end, b_phys = tailPhys\<rparr>] blocks)
           else map_start virt phys virt_end es blocks
         else if ep \<noteq> 0 \<and> b_virt (blocks ! ep) \<ge> virt then
           map_start virt phys virt_end ep (blocks[ep := (blocks ! ep)\<lparr>b_virt := virt_end\<rparr>])
         else Some (insert_blocks es [\<lparr>b_virt = virt, b_phys = phys\<rparr>, \<lparr>b_virt = virt_end, b_phys = UnmappedPa\<rparr>] blocks))"

section \<open>Unmapping\<close>

definition erase_blocks_with_end_unmapped :: "u32 \<Rightarrow> nat \<Rightarrow> FlatBlock list \<Rightarrow> FlatBlock list option" where
  "erase_blocks_with_end_unmapped virt unmappedEnd blocks =
     do {
       p \<leftarrow> walk_back_to_predecessor virt blocks unmappedEnd;
       if Unmapped (blocks ! p) then erase_blocks (Suc p) (Suc unmappedEnd) blocks
       else erase_blocks (Suc p) unmappedEnd (blocks[unmappedEnd := (blocks ! unmappedEnd)\<lparr>b_virt := virt\<rparr>])
     }"

text \<open>The part of \<open>UnmapLocked\<close> behind the treatment of the end.\<close>

definition unmap_start :: "u32 \<Rightarrow> u32 \<Rightarrow> nat \<Rightarrow> nat \<Rightarrow> FlatBlock list \<Rightarrow> FlatBlock list option" where
  "unmap_start virt virt_end block_end_predecessor block_end_successor blocks =
     do {
       p \<leftarrow> walk_back_to_predecessor virt blocks block_end_successor;
       let s = Suc p;
       if s \<ge> length blocks then None
       else if b_virt (blocks ! s) > virt_end then Some blocks
       else if b_virt (blocks ! s) = virt_end then
         Some (if Mapped (blocks ! p) then insert_blocks s [\<lparr>b_virt = virt, b_phys = UnmappedPa\<rparr>] blocks else blocks)
       else if Unmapped (blocks ! p) then erase_blocks s block_end_predecessor blocks
       else do {
         blocks' \<leftarrow> (if Suc s \<noteq> block_end_successor then erase_blocks (Suc s) block_end_successor blocks else Some blocks);
         Some (blocks'[s := \<lparr>b_virt = virt, b_phys = UnmappedPa\<rparr>])
       }
     }"

definition UnmapLocked :: "u32 \<Rightarrow> u32 \<Rightarrow> FlatBlock list \<Rightarrow> FlatBlock list option" where
  "UnmapLocked virt sz blocks =
     (let virt_end = virt + sz;
          es = lower_bound blocks virt_end;
          ep = es - 1
      in if es = 0 then None
         else if Unmapped (blocks ! ep) then
           if b_virt (blocks ! ep) > virt then erase_blocks_with_end_unmapped virt ep blocks else Some blocks
         else if es \<ge> length blocks then None
         else if b_virt (blocks ! es) = virt_end \<and> Unmapped (blocks ! es) then erase_blocks_with_end_unmapped virt es blocks
         else if b_virt (blocks ! es) \<noteq> virt_end then
           let tailPhys = b_phys (blocks ! ep) in
           if b_virt (blocks ! ep) \<ge> virt then
             if ep = 0 then None
             else unmap_start virt virt_end (ep - 1) ep (blocks[ep := \<lparr>b_virt = virt_end, b_phys = tailPhys\<rparr>])
           else Some (insert_blocks es [\<lparr>b_virt = virt, b_phys = UnmappedPa\<rparr>, \<lparr>b_virt = virt_end, b_phys = tailPhys\<rparr>] blocks)
         else unmap_start virt virt_end ep es blocks)"

section \<open>The allocator\<close>

record FlatAllocator =
  fa_blocks :: "FlatBlock list"
  fa_va_limit :: u32
  fa_virt_start :: u32
  fa_current_linear_alloc_end :: u32

definition VaMaximum :: u32 where
  "VaMaximum = push_bit 31 1 + (push_bit 31 1 - 1)"

definition FlatAllocator_new :: "u32 \<Rightarrow> u32 \<Rightarrow> FlatAllocator" where
  "FlatAllocator_new virt_start va_limit =
     \<lparr>fa_blocks = [\<lparr>b_virt = UnmappedVa, b_phys = UnmappedPa\<rparr>], fa_va_limit = va_limit, fa_virt_start = virt_start,
      fa_current_linear_alloc_end = virt_start\<rparr>"

text \<open>The loop over the blocks in front of the linear end, with the blocks from \<open>alloc_end_predecessor\<close> on.\<close>

fun skip_fixed :: "u32 \<Rightarrow> u32 \<Rightarrow> FlatBlock list \<Rightarrow> u32" where
  "skip_fixed va_limit sz (p # s # bs) =
     (if b_virt s - b_virt p < sz \<or> Mapped p then b_virt p
      else if bs = [] then
        let alloc_end = b_virt s + sz in
        if alloc_end \<ge> b_virt s \<and> alloc_end \<le> va_limit then b_virt s else UnmappedVa
      else skip_fixed va_limit sz (s # bs))"
| "skip_fixed va_limit sz _ = UnmappedVa"

text \<open>The address the first, linear pass finds, or \<open>UnmappedVa\<close>.\<close>

definition linear_alloc :: "u32 \<Rightarrow> FlatAllocator \<Rightarrow> u32 option" where
  "linear_alloc sz fa =
     (let current = fa_current_linear_alloc_end fa; alloc_end = current + sz
      in if alloc_end \<ge> current \<and> alloc_end \<le> fa_va_limit fa then
           let es = lower_bound (fa_blocks fa) alloc_end in
           if es = 0 then None
           else if b_virt (fa_blocks fa ! (es - 1)) \<le> current then Some current
           else Some (skip_fixed (fa_va_limit fa) sz (drop (es - 1) (fa_blocks fa)))
         else Some UnmappedVa)"

text \<open>The search for a gap, with the blocks from \<open>search_predecessor\<close> on.\<close>

fun search_gap :: "u32 \<Rightarrow> FlatBlock list \<Rightarrow> u32 option" where
  "search_gap sz (p # s # bs) =
     (if b_virt s - b_virt p < sz \<or> Mapped p then search_gap sz (s # bs) else Some (b_virt p))"
| "search_gap sz _ = None"

definition map_allocated :: "u32 \<Rightarrow> u32 \<Rightarrow> FlatAllocator \<Rightarrow> (u32 \<times> FlatAllocator) option" where
  "map_allocated alloc_start sz fa =
     do { blocks \<leftarrow> MapLocked alloc_start True sz (fa_blocks fa); Some (alloc_start, fa\<lparr>fa_blocks := blocks\<rparr>) }"

definition FlatAllocator_Allocate :: "u32 \<Rightarrow> FlatAllocator \<Rightarrow> (u32 \<times> FlatAllocator) option" where
  "FlatAllocator_Allocate sz fa =
     do {
       alloc_start \<leftarrow> linear_alloc sz fa;
       if alloc_start \<noteq> UnmappedVa then
         map_allocated alloc_start sz (fa\<lparr>fa_current_linear_alloc_end := alloc_start + sz\<rparr>)
       else case search_gap sz (fa_blocks fa) of
         Some gap_start \<Rightarrow> map_allocated gap_start sz fa
       | None \<Rightarrow> Some (0, fa)
     }"

definition FlatAllocator_AllocateFixed :: "u32 \<Rightarrow> u32 \<Rightarrow> FlatAllocator \<Rightarrow> FlatAllocator option" where
  "FlatAllocator_AllocateFixed virt sz fa =
     map_option (\<lambda>blocks. fa\<lparr>fa_blocks := blocks\<rparr>) (MapLocked virt True sz (fa_blocks fa))"

definition FlatAllocator_Free :: "u32 \<Rightarrow> u32 \<Rightarrow> FlatAllocator \<Rightarrow> FlatAllocator option" where
  "FlatAllocator_Free virt sz fa =
     map_option (\<lambda>blocks. fa\<lparr>fa_blocks := blocks\<rparr>) (UnmapLocked virt sz (fa_blocks fa))"

end
