(* ===== verification/Gpu_Address_Space.thy ===== *)
theory Gpu_Address_Space
  imports Flat_Allocator Bit_Set
begin

text \<open>
  The address space device of the GPU services (\<open>src/core/hle/service/nvdrv/devices/nvhost_as_gpu.h\<close> and
  \<open>.cpp\<close>), which hands out GPU addresses with two allocators, one in small and one in big pages. The device's effect on
  the GPU page table is the sequence of calls it makes; the handles of nvmap are an argument. An ioctl takes its decoded
  parameters and returns its result with the state, and no result where an allocator has none. \<open>std::map\<close> is the list of
  its entries in the order of the keys.
\<close>

section \<open>State\<close>

datatype NvResult = NvSuccess | NvNotImplemented | NvInsufficientMemory | NvInvalidState | NvBadValue

definition MappingFlags_Fixed :: u32 where "MappingFlags_Fixed = 1"
definition MappingFlags_Sparse :: u32 where "MappingFlags_Sparse = 2"
definition MappingFlags_Remap :: u32 where "MappingFlags_Remap = 256"

definition has_flag :: "u32 \<Rightarrow> u32 \<Rightarrow> bool" where
  "has_flag flags f \<longleftrightarrow> flags AND f \<noteq> 0"

record GpuMapping =
  gm_ptr :: u64
  gm_offset :: u64
  gm_size :: u64
  gm_fixed :: bool
  gm_big_page :: bool
  gm_sparse_alloc :: bool

record GpuAllocation =
  ga_size :: u64
  ga_mappings :: "GpuMapping list"
  ga_page_size :: u32
  ga_sparse :: bool
  ga_big_pages :: bool

text \<open>Calls of \<open>Tegra::MemoryManager\<close>: address, CPU address, size, kind and page size.\<close>

datatype GmmuCall = GmmuMap u64 u64 u64 u8 bool | GmmuMapSparse u64 u64 bool | GmmuUnmap u64 u64

text \<open>What the device reads of a handle of nvmap.\<close>

record NvMapHandle =
  nh_address :: u64
  nh_orig_size :: u64
  nh_align :: u64

definition YUZU_PAGESIZE :: u32 where "YUZU_PAGESIZE = 0x1000"
definition PAGE_SIZE_BITS :: nat where "PAGE_SIZE_BITS = 12"
definition SUPPORTED_BIG_PAGE_SIZES :: u32 where "SUPPORTED_BIG_PAGE_SIZES = 0x30000"
definition DEFAULT_BIG_PAGE_SIZE :: u32 where "DEFAULT_BIG_PAGE_SIZE = 0x20000"
definition VA_START_SHIFT :: nat where "VA_START_SHIFT = 10"
definition DEFAULT_VA_SPLIT :: u64 where "DEFAULT_VA_SPLIT = push_bit 34 1"
definition DEFAULT_VA_RANGE :: u64 where "DEFAULT_VA_RANGE = push_bit 37 1"

record AsGpu =
  vm_big_page_size :: u32
  vm_big_page_size_bits :: nat
  vm_va_range_start :: u64
  vm_va_range_split :: u64
  vm_va_range_end :: u64
  vm_big_page_allocator :: FlatAllocator
  vm_small_page_allocator :: FlatAllocator
  vm_initialised :: bool
  as_mapping_map :: "(u64 \<times> GpuMapping) list"
  as_allocation_map :: "(u64 \<times> GpuAllocation) list"
  as_gmmu :: "GmmuCall list"

text \<open>A device before \<open>AllocAsEx\<close>; the allocators do not exist yet and are not used before they do.\<close>

definition nvhost_as_gpu_new :: AsGpu where
  "nvhost_as_gpu_new =
     \<lparr>vm_big_page_size = DEFAULT_BIG_PAGE_SIZE, vm_big_page_size_bits = 17,
      vm_va_range_start = ucast (push_bit VA_START_SHIFT DEFAULT_BIG_PAGE_SIZE), vm_va_range_split = DEFAULT_VA_SPLIT, vm_va_range_end = DEFAULT_VA_RANGE,
      vm_big_page_allocator = FlatAllocator_new 0 0, vm_small_page_allocator = FlatAllocator_new 0 0, vm_initialised = False,
      as_mapping_map = [], as_allocation_map = [], as_gmmu = []\<rparr>"

text \<open>\<open>std::map\<close>: lookup, assignment, erasing, and the entry before \<open>upper_bound\<close>.\<close>

definition map_at :: "u64 \<Rightarrow> (u64 \<times> 'a) list \<Rightarrow> 'a option" where
  "map_at k m = map_of m k"

fun map_assign :: "u64 \<Rightarrow> 'a \<Rightarrow> (u64 \<times> 'a) list \<Rightarrow> (u64 \<times> 'a) list" where
  "map_assign k v [] = [(k, v)]"
| "map_assign k v ((k', v') # m) =
     (if k < k' then (k, v) # (k', v') # m else if k = k' then (k, v) # m else (k', v') # map_assign k v m)"

definition map_erase :: "u64 \<Rightarrow> (u64 \<times> 'a) list \<Rightarrow> (u64 \<times> 'a) list" where
  "map_erase k m = filter (\<lambda>p. fst p \<noteq> k) m"

fun before_upper_bound :: "u64 \<Rightarrow> (u64 \<times> 'a) list \<Rightarrow> (u64 \<times> 'a) option" where
  "before_upper_bound k [] = None"
| "before_upper_bound k (p # m) =
     (if fst p \<le> k then case before_upper_bound k m of None \<Rightarrow> Some p | Some q \<Rightarrow> Some q else None)"

definition gmmu_call :: "GmmuCall \<Rightarrow> AsGpu \<Rightarrow> AsGpu" where
  "gmmu_call c s = s\<lparr>as_gmmu := as_gmmu s @ [c]\<rparr>"

section \<open>Pages\<close>

text \<open>The allocator and the page size that belong to small or big pages.\<close>

definition page_allocator :: "bool \<Rightarrow> AsGpu \<Rightarrow> FlatAllocator" where
  "page_allocator big s = (if big then vm_big_page_allocator s else vm_small_page_allocator s)"

definition set_page_allocator :: "bool \<Rightarrow> FlatAllocator \<Rightarrow> AsGpu \<Rightarrow> AsGpu" where
  "set_page_allocator big fa s = (if big then s\<lparr>vm_big_page_allocator := fa\<rparr> else s\<lparr>vm_small_page_allocator := fa\<rparr>)"

definition page_bits :: "bool \<Rightarrow> AsGpu \<Rightarrow> nat" where
  "page_bits big s = (if big then vm_big_page_size_bits s else PAGE_SIZE_BITS)"

definition page_sz :: "bool \<Rightarrow> AsGpu \<Rightarrow> u32" where
  "page_sz big s = (if big then vm_big_page_size s else YUZU_PAGESIZE)"

definition to_page :: "u64 \<Rightarrow> nat \<Rightarrow> u32" where
  "to_page x bits = ucast (drop_bit bits x)"

definition from_page :: "u32 \<Rightarrow> nat \<Rightarrow> u64" where
  "from_page x bits = push_bit bits (ucast x)"

definition AlignUp_size :: "u64 \<Rightarrow> u32 \<Rightarrow> u64" where
  "AlignUp_size value sz = word_of_nat (AlignUp (unat value) (unat sz))"

section \<open>Address spaces and allocations\<close>

text \<open>The number of trailing zeros of a supported big page size, a power of two.\<close>

definition has_single_bit :: "u32 \<Rightarrow> bool" where
  "has_single_bit x \<longleftrightarrow> x \<noteq> 0 \<and> x AND (x - 1) = 0"

definition big_page_bits :: "u32 \<Rightarrow> nat option" where
  "big_page_bits x = (if has_single_bit x \<and> x AND SUPPORTED_BIG_PAGE_SIZES \<noteq> 0 then Some (countr_zero (ucast x)) else None)"

definition AllocAsEx :: "u32 \<Rightarrow> u64 \<Rightarrow> u64 \<Rightarrow> u64 \<Rightarrow> AsGpu \<Rightarrow> NvResult \<times> AsGpu" where
  "AllocAsEx big_page_size va_start va_end va_split s =
     (if vm_initialised s then (NvInvalidState, s)
      else if big_page_size \<noteq> 0 \<and> big_page_bits big_page_size = None then (NvBadValue, s)
      else
        let s1 = (case big_page_bits big_page_size of
                    Some bits \<Rightarrow> s\<lparr>vm_big_page_size := big_page_size, vm_big_page_size_bits := bits,
                                   vm_va_range_start := ucast (push_bit VA_START_SHIFT big_page_size)\<rparr>
                  | None \<Rightarrow> s);
            s2 = (if va_start \<noteq> 0 then s1\<lparr>vm_va_range_start := va_start, vm_va_range_split := va_split, vm_va_range_end := va_end\<rparr> else s1);
            start_pages = to_page (vm_va_range_start s2) PAGE_SIZE_BITS;
            end_pages = to_page (vm_va_range_split s2) PAGE_SIZE_BITS;
            start_big_pages = to_page (vm_va_range_split s2) (vm_big_page_size_bits s2);
            end_big_pages = to_page (vm_va_range_end s2 - vm_va_range_split s2) (vm_big_page_size_bits s2)
        in (NvSuccess, s2\<lparr>vm_small_page_allocator := FlatAllocator_new start_pages end_pages,
                          vm_big_page_allocator := FlatAllocator_new start_big_pages end_big_pages,
                          vm_initialised := True\<rparr>))"

text \<open>The offset \<open>AllocateSpace\<close> uses: the given one, or one from the allocator, where 0 means that there is none.\<close>

definition space_offset :: "bool \<Rightarrow> bool \<Rightarrow> u64 \<Rightarrow> u32 \<Rightarrow> AsGpu \<Rightarrow> (u64 \<times> AsGpu) option" where
  "space_offset fixed big offset pages s =
     (if fixed then do {
        fa \<leftarrow> FlatAllocator_AllocateFixed (to_page offset (page_bits big s)) pages (page_allocator big s);
        Some (offset, set_page_allocator big fa s)
      }
      else do {
        (v, fa) \<leftarrow> FlatAllocator_Allocate pages (page_allocator big s);
        Some (from_page v (page_bits big s), set_page_allocator big fa s)
      })"

definition AllocateSpace :: "u32 \<Rightarrow> u32 \<Rightarrow> u32 \<Rightarrow> u64 \<Rightarrow> AsGpu \<Rightarrow> (NvResult \<times> u64 \<times> AsGpu) option" where
  "AllocateSpace pages page_size flags offset s =
     (let big = (page_size \<noteq> YUZU_PAGESIZE);
          fixed = has_flag flags MappingFlags_Fixed;
          sparse = has_flag flags MappingFlags_Sparse
      in if \<not> vm_initialised s then Some (NvBadValue, offset, s)
         else if page_size \<noteq> YUZU_PAGESIZE \<and> page_size \<noteq> vm_big_page_size s then Some (NvBadValue, offset, s)
         else if page_size \<noteq> vm_big_page_size s \<and> sparse then Some (NvNotImplemented, offset, s)
         else do {
           (offset', s1) \<leftarrow> space_offset fixed big offset pages s;
           if \<not> fixed \<and> offset' = 0 then Some (NvInsufficientMemory, offset', s1)
           else
             let sz = ucast pages * ucast page_size;
                 s2 = (if sparse then gmmu_call (GmmuMapSparse offset' sz True) s1 else s1)
             in Some (NvSuccess, offset',
                  s2\<lparr>as_allocation_map := map_assign offset'
                       \<lparr>ga_size = sz, ga_mappings = [], ga_page_size = page_size, ga_sparse = sparse, ga_big_pages = big\<rparr>
                       (as_allocation_map s2)\<rparr>)
         })"

text \<open>Giving the pages of a mapping back, and telling the GPU page table.\<close>

definition free_mapping_pages :: "GpuMapping \<Rightarrow> AsGpu \<Rightarrow> AsGpu option" where
  "free_mapping_pages m s =
     (if gm_fixed m then Some s
      else
        let big = gm_big_page m; bits = page_bits big s in
        map_option (\<lambda>fa. set_page_allocator big fa s)
          (FlatAllocator_Free (to_page (gm_offset m) bits) (to_page (gm_size m) bits) (page_allocator big s)))"

definition release_mapping :: "u64 \<Rightarrow> GpuMapping \<Rightarrow> AsGpu \<Rightarrow> AsGpu" where
  "release_mapping offset m s =
     (let s1 = (if gm_sparse_alloc m then gmmu_call (GmmuMapSparse offset (gm_size m) (gm_big_page m)) s
                else gmmu_call (GmmuUnmap offset (gm_size m)) s)
      in s1\<lparr>as_mapping_map := map_erase offset (as_mapping_map s1)\<rparr>)"

text \<open>\<open>FreeMappingLocked\<close> throws when there is no mapping at the offset (\<open>Inl\<close>).\<close>

definition FreeMappingLocked :: "u64 \<Rightarrow> AsGpu \<Rightarrow> (AsGpu + AsGpu) option" where
  "FreeMappingLocked offset s =
     (case map_at offset (as_mapping_map s) of
        None \<Rightarrow> Some (Inl s)
      | Some m \<Rightarrow> map_option (\<lambda>s1. Inr (release_mapping offset m s1)) (free_mapping_pages m s))"

fun free_mappings :: "GpuMapping list \<Rightarrow> AsGpu \<Rightarrow> (AsGpu + AsGpu) option" where
  "free_mappings [] s = Some (Inr s)"
| "free_mappings (m # ms) s =
     (case FreeMappingLocked (gm_offset m) s of
        Some (Inr s1) \<Rightarrow> free_mappings ms s1
      | r \<Rightarrow> r)"

definition default_allocation :: GpuAllocation where
  "default_allocation = \<lparr>ga_size = 0, ga_mappings = [], ga_page_size = 0, ga_sparse = False, ga_big_pages = False\<rparr>"

text \<open>The access \<open>allocation_map[params.offset]\<close> creates an empty allocation when there is none.\<close>

definition allocation_entry :: "u64 \<Rightarrow> AsGpu \<Rightarrow> GpuAllocation \<times> AsGpu" where
  "allocation_entry offset s =
     (case map_at offset (as_allocation_map s) of
        Some a \<Rightarrow> (a, s)
      | None \<Rightarrow> (default_allocation, s\<lparr>as_allocation_map := map_assign offset default_allocation (as_allocation_map s)\<rparr>))"

definition FreeSpace :: "u64 \<Rightarrow> u32 \<Rightarrow> u32 \<Rightarrow> AsGpu \<Rightarrow> (NvResult \<times> AsGpu) option" where
  "FreeSpace offset pages page_size s =
     (if \<not> vm_initialised s then Some (NvBadValue, s)
      else
        let (a, s1) = allocation_entry offset s; big = (page_size \<noteq> YUZU_PAGESIZE) in
        if ga_page_size a \<noteq> page_size \<or> ga_size a \<noteq> ucast pages * ucast page_size then Some (NvBadValue, s1)
        else do {
          r \<leftarrow> free_mappings (ga_mappings a) s1;
          case r of
            Inl s2 \<Rightarrow> Some (NvBadValue, s2)
          | Inr s2 \<Rightarrow> do {
              let s3 = (if ga_sparse a then gmmu_call (GmmuUnmap offset (ga_size a)) s2 else s2);
              fa \<leftarrow> FlatAllocator_Free (to_page offset (page_bits big s3)) (to_page (ga_size a) (page_bits big s3)) (page_allocator big s3);
              let s4 = set_page_allocator big fa s3;
              Some (NvSuccess, s4\<lparr>as_allocation_map := map_erase offset (as_allocation_map s4)\<rparr>)
            }
        })"

section \<open>Mappings\<close>

record IoctlRemapEntry =
  re_kind :: "16 word"
  re_handle :: u32
  re_handle_offset_big_pages :: u32
  re_as_offset_big_pages :: u32
  re_big_pages :: u32

fun Remap :: "(u32 \<Rightarrow> NvMapHandle option) \<Rightarrow> IoctlRemapEntry list \<Rightarrow> AsGpu \<Rightarrow> NvResult \<times> AsGpu" where
  "Remap nvmap [] s = (if vm_initialised s then NvSuccess else NvBadValue, s)"
| "Remap nvmap (e # es) s =
     (if \<not> vm_initialised s then (NvBadValue, s)
      else
        let virtual_address = from_page (re_as_offset_big_pages e) (vm_big_page_size_bits s);
            sz = from_page (re_big_pages e) (vm_big_page_size_bits s)
        in case before_upper_bound virtual_address (as_allocation_map s) of
             None \<Rightarrow> (NvBadValue, s)
           | Some (first, a) \<Rightarrow>
               if (virtual_address - first) + sz > ga_size a then (NvBadValue, s)
               else if \<not> ga_sparse a then (NvBadValue, s)
               else if re_handle e = 0 then Remap nvmap es (gmmu_call (GmmuMapSparse virtual_address sz (ga_big_pages a)) s)
               else case nvmap (re_handle e) of
                      None \<Rightarrow> (NvBadValue, s)
                    | Some h \<Rightarrow>
                        let cpu_address = nh_address h + from_page (re_handle_offset_big_pages e) (vm_big_page_size_bits s)
                        in Remap nvmap es (gmmu_call (GmmuMap virtual_address cpu_address sz (ucast (re_kind e)) (ga_big_pages a)) s))"

record IoctlMapBufferEx =
  mb_flags :: u32
  mb_kind :: u32
  mb_handle :: u32
  mb_buffer_offset :: u64
  mb_mapping_size :: u64
  mb_offset :: u64

text \<open>The branch of \<open>MapBufferEx\<close> that maps a part of an existing mapping to another address.\<close>

definition map_remap :: "IoctlMapBufferEx \<Rightarrow> AsGpu \<Rightarrow> NvResult \<times> AsGpu" where
  "map_remap p s =
     (case map_at (mb_offset p) (as_mapping_map s) of
        None \<Rightarrow> (NvBadValue, s)
      | Some m \<Rightarrow>
          if gm_size m < mb_mapping_size p then (NvBadValue, s)
          else (NvSuccess, gmmu_call (GmmuMap (mb_offset p + mb_buffer_offset p) (gm_ptr m + mb_buffer_offset p) (mb_mapping_size p)
                 (ucast (mb_kind p)) (gm_big_page m)) s))"

text \<open>The branch for a fixed offset inside an allocation.\<close>

definition map_fixed :: "IoctlMapBufferEx \<Rightarrow> u64 \<Rightarrow> u64 \<Rightarrow> bool \<Rightarrow> AsGpu \<Rightarrow> NvResult \<times> AsGpu" where
  "map_fixed p cpu_address sz big_page s =
     (case before_upper_bound (mb_offset p) (as_allocation_map s) of
        None \<Rightarrow> (NvBadValue, s)
      | Some (first, a) \<Rightarrow>
          if (mb_offset p - first) + sz > ga_size a then (NvBadValue, s)
          else
            let use_big_pages = (ga_big_pages a \<and> big_page);
                m = \<lparr>gm_ptr = cpu_address, gm_offset = mb_offset p, gm_size = sz, gm_fixed = True, gm_big_page = use_big_pages,
                     gm_sparse_alloc = ga_sparse a\<rparr>;
                s1 = gmmu_call (GmmuMap (mb_offset p) cpu_address sz (ucast (mb_kind p)) use_big_pages) s
            in (NvSuccess, s1\<lparr>as_allocation_map := map_assign first (a\<lparr>ga_mappings := ga_mappings a @ [m]\<rparr>) (as_allocation_map s1),
                              as_mapping_map := map_assign (mb_offset p) m (as_mapping_map s1)\<rparr>))"

text \<open>The branch that takes its addresses from an allocator.\<close>

definition map_anywhere :: "IoctlMapBufferEx \<Rightarrow> u64 \<Rightarrow> u64 \<Rightarrow> bool \<Rightarrow> AsGpu \<Rightarrow> (NvResult \<times> u64 \<times> AsGpu) option" where
  "map_anywhere p cpu_address sz big_page s =
     (let bits = page_bits big_page s; aligned = AlignUp_size sz (page_sz big_page s) in
      do {
        (v, fa) \<leftarrow> FlatAllocator_Allocate (to_page aligned bits) (page_allocator big_page s);
        let offset = from_page v bits;
        let s1 = set_page_allocator big_page fa s;
        if offset = 0 then Some (NvInsufficientMemory, offset, s1)
        else
          let m = \<lparr>gm_ptr = cpu_address, gm_offset = offset, gm_size = sz, gm_fixed = False, gm_big_page = big_page, gm_sparse_alloc = False\<rparr>;
              s2 = gmmu_call (GmmuMap offset cpu_address aligned (ucast (mb_kind p)) big_page) s1
          in Some (NvSuccess, offset, s2\<lparr>as_mapping_map := map_assign offset m (as_mapping_map s2)\<rparr>)
      })"

definition MapBufferEx :: "(u32 \<Rightarrow> NvMapHandle option) \<Rightarrow> IoctlMapBufferEx \<Rightarrow> AsGpu \<Rightarrow> (NvResult \<times> u64 \<times> AsGpu) option" where
  "MapBufferEx nvmap p s =
     (if \<not> vm_initialised s then Some (NvBadValue, mb_offset p, s)
      else if has_flag (mb_flags p) MappingFlags_Remap then (let (r, s1) = map_remap p s in Some (r, mb_offset p, s1))
      else case nvmap (mb_handle p) of
        None \<Rightarrow> Some (NvBadValue, mb_offset p, s)
      | Some h \<Rightarrow>
          let cpu_address = nh_address h + mb_buffer_offset p;
              sz = (if mb_mapping_size p \<noteq> 0 then mb_mapping_size p else nh_orig_size h);
              big_page = IsAligned (unat (nh_align h)) (unat (vm_big_page_size s))
          in if has_flag (mb_flags p) MappingFlags_Fixed then (let (r, s1) = map_fixed p cpu_address sz big_page s in Some (r, mb_offset p, s1))
             else map_anywhere p cpu_address sz big_page s)"

definition UnmapBuffer :: "u64 \<Rightarrow> AsGpu \<Rightarrow> (NvResult \<times> AsGpu) option" where
  "UnmapBuffer offset s =
     (if \<not> vm_initialised s then Some (NvBadValue, s)
      else case map_at offset (as_mapping_map s) of
        None \<Rightarrow> Some (NvSuccess, s)
      | Some m \<Rightarrow> map_option (\<lambda>s1. (NvSuccess, release_mapping offset m s1)) (free_mapping_pages m s))"

section \<open>Regions\<close>

record VaRegion =
  vr_offset :: u64
  vr_page_size :: u32
  vr_pages :: u64

text \<open>The regions the device reports; the shifts and differences are 32 bits wide.\<close>

definition GetVARegionsImpl :: "AsGpu \<Rightarrow> VaRegion \<times> VaRegion" where
  "GetVARegionsImpl s =
     (let small = vm_small_page_allocator s; big = vm_big_page_allocator s in
      (\<lparr>vr_offset = ucast (push_bit PAGE_SIZE_BITS (fa_virt_start small)), vr_page_size = YUZU_PAGESIZE,
        vr_pages = ucast (fa_va_limit small - fa_virt_start small)\<rparr>,
       \<lparr>vr_offset = ucast (push_bit (vm_big_page_size_bits s) (fa_virt_start big)), vr_page_size = vm_big_page_size s,
        vr_pages = ucast (fa_va_limit big - fa_virt_start big)\<rparr>))"

definition GetVARegions :: "AsGpu \<Rightarrow> NvResult \<times> (VaRegion \<times> VaRegion) option" where
  "GetVARegions s = (if vm_initialised s then (NvSuccess, Some (GetVARegionsImpl s)) else (NvBadValue, None))"

end
