(* ===== verification/Address_Space_Allocation.thy ===== *)
theory Address_Space_Allocation
  imports Flat_Allocator
begin

text \<open>
  The address space allocator against its abstract specification, the set of allocated addresses. The vector of blocks
  is cut at the ends of a range into the blocks before it, those that begin inside it and those behind it; the lemmas
  \<open>MapLocked_cut\<close> and \<open>UnmapLocked_cut\<close> give the vector after mapping and unmapping in these terms, and from
  there on the properties speak of addresses only.
\<close>

section \<open>The abstract view\<close>

definition view_from :: "bool \<Rightarrow> FlatBlock list \<Rightarrow> u32 \<Rightarrow> bool" where
  "view_from d bs a = fold (\<lambda>b r. if b_virt b \<le> a then b_phys b else r) bs d"

definition allocated_at :: "FlatBlock list \<Rightarrow> u32 \<Rightarrow> bool" where
  "allocated_at bs a = view_from UnmappedPa bs a"

abbreviation below :: "u32 \<Rightarrow> FlatBlock \<Rightarrow> bool" where
  "below v b \<equiv> b_virt b < v"

definition blocks_sorted :: "FlatBlock list \<Rightarrow> bool" where
  "blocks_sorted bs \<longleftrightarrow> sorted_wrt (<) (map b_virt bs)"

text \<open>The vector starts with the block at address 0, is sorted and ends with an unmapped block.\<close>

definition blocks_ok :: "FlatBlock list \<Rightarrow> bool" where
  "blocks_ok bs \<longleftrightarrow> bs \<noteq> [] \<and> b_virt (hd bs) = 0 \<and> Unmapped (last bs) \<and> blocks_sorted bs"

lemma view_append [simp]: "view_from d (xs @ ys) a = view_from (view_from d xs a) ys a"
  by (simp add: view_from_def)

lemma view_Nil [simp]: "view_from d [] a = d"
  by (simp add: view_from_def)

lemma view_Cons [simp]: "view_from d (b # bs) a = view_from (if b_virt b \<le> a then b_phys b else d) bs a"
  by (simp add: view_from_def)

lemma view_above: "\<forall>b\<in>set bs. a < b_virt b \<Longrightarrow> view_from d bs a = d"
  by (induction bs arbitrary: d) (auto simp: not_le)

lemma view_below: "bs \<noteq> [] \<Longrightarrow> \<forall>b\<in>set bs. b_virt b \<le> a \<Longrightarrow> view_from d bs a = b_phys (last bs)"
  by (induction bs arbitrary: d) auto

lemma view_start: "\<exists>b\<in>set bs. b_virt b \<le> a \<Longrightarrow> view_from d bs a = view_from d' bs a"
  by (induction bs arbitrary: d d') auto

lemma blocks_sorted_append: "blocks_sorted (xs @ ys) \<longleftrightarrow> blocks_sorted xs \<and> blocks_sorted ys \<and> (\<forall>x\<in>set xs. \<forall>y\<in>set ys. b_virt x < b_virt y)"
  by (auto simp: blocks_sorted_def sorted_wrt_append)

lemma blocks_sorted_Cons: "blocks_sorted (x # ys) \<longleftrightarrow> blocks_sorted ys \<and> (\<forall>y\<in>set ys. b_virt x < b_virt y)"
  by (auto simp: blocks_sorted_def)

lemma blocks_sorted_Nil [simp]: "blocks_sorted []"
  by (simp add: blocks_sorted_def)

section \<open>Cutting the vector\<close>

text \<open>The blocks before a range, inside it and behind it.\<close>

definition cut :: "u32 \<Rightarrow> u32 \<Rightarrow> FlatBlock list \<Rightarrow> FlatBlock list \<Rightarrow> FlatBlock list \<Rightarrow> bool" where
  "cut v e A B C \<longleftrightarrow> A \<noteq> [] \<and> v < e \<and> (\<forall>b\<in>set A. b_virt b < v) \<and> (\<forall>b\<in>set B. v \<le> b_virt b \<and> b_virt b < e) \<and> (\<forall>b\<in>set C. e \<le> b_virt b)"

lemma blocks_sorted_dropWhile: "blocks_sorted bs \<Longrightarrow> b \<in> set (dropWhile (below v) bs) \<Longrightarrow> v \<le> b_virt b"
  by (induction bs) (auto simp: blocks_sorted_Cons not_less intro: order_trans less_imp_le split: if_splits)

lemma blocks_sorted_dropWhile_in: "blocks_sorted bs \<Longrightarrow> blocks_sorted (dropWhile P bs)"
  using blocks_sorted_append[of "takeWhile P bs" "dropWhile P bs"] by simp

lemma cut_exists:
  assumes ok: "blocks_ok bs" and v: "0 < v" "v < e"
  shows "\<exists>A B C. bs = A @ B @ C \<and> cut v e A B C"
proof -
  let ?A = "takeWhile (below v) bs" and ?R = "dropWhile (below v) bs"
  have o: "blocks_sorted bs" using ok by (simp add: blocks_ok_def)
  have R: "blocks_sorted ?R" "\<forall>b\<in>set ?R. v \<le> b_virt b" using blocks_sorted_dropWhile_in[OF o] blocks_sorted_dropWhile[OF o] by blast+
  have "?A \<noteq> []" using ok v(1) by (cases bs) (auto simp: blocks_ok_def)
  moreover have "\<forall>b\<in>set (takeWhile (below e) ?R). v \<le> b_virt b \<and> b_virt b < e" using R(2) by (auto dest: set_takeWhileD)
  moreover have "\<forall>b\<in>set (dropWhile (below e) ?R). e \<le> b_virt b" using blocks_sorted_dropWhile[OF R(1)] by blast
  moreover have "\<forall>b\<in>set ?A. b_virt b < v" by (auto dest: set_takeWhileD)
  ultimately have "cut v e ?A (takeWhile (below e) ?R) (dropWhile (below e) ?R)" using v(2) unfolding cut_def by (intro conjI)
  then show ?thesis by (intro exI[of _ ?A] exI[of _ "takeWhile (below e) ?R"] exI[of _ "dropWhile (below e) ?R"]) simp
qed

lemma lower_bound_cut:
  assumes "cut v e A B C" shows "lower_bound (A @ B @ C) e = length A + length B"
proof -
  have "takeWhile (below e) C = []" using assms by (cases C) (auto simp: cut_def)
  moreover have "\<forall>b\<in>set (A @ B). below e b" using assms by (auto simp: cut_def)
  ultimately have "takeWhile (below e) ((A @ B) @ C) = A @ B" using takeWhile_append2[of "A @ B" "below e" C] by simp
  then show ?thesis by (simp add: lower_bound_def)
qed

lemma walk_start_successor_cut:
  assumes "A \<noteq> []" "\<forall>b\<in>set A. b_virt b < v" "\<forall>b\<in>set B. v \<le> b_virt b"
  shows "walk_start_successor v (A @ B @ C) (length A + length B) = Some (length A)"
  using assms(3)
proof (induction B arbitrary: C rule: rev_induct)
  case Nil
  obtain a A0 where A: "A = A0 @ [a]" using assms(1) by (cases A rule: rev_cases) auto
  then show ?case using assms(2) by auto
next
  case (snoc b B)
  then show ?case using snoc.IH[of "b # C"] by (simp add: nth_append)
qed

lemma walk_back_cut:
  assumes "A \<noteq> []" "\<forall>b\<in>set A. b_virt b < v" "\<forall>b\<in>set B. v \<le> b_virt b"
  shows "walk_back_to_predecessor v (A @ B @ C) (length A + length B - 1) = Some (length A - 1)"
  using assms(3)
proof (induction B arbitrary: C rule: rev_induct)
  case Nil
  obtain a A0 where A: "A = A0 @ [a]" using assms(1) by (cases A rule: rev_cases) auto
  then show ?case using assms(2) by (cases A0) (auto simp: not_le nth_append)
next
  case (snoc b B)
  obtain n where n: "length A + length B = Suc n" using assms(1) by (cases A) auto
  then show ?case using snoc.IH[of "b # C"] snoc.prems by (simp add: nth_append)
qed

declare walk_start_successor.simps [simp del] walk_back_to_predecessor.simps [simp del]

section \<open>Mapping\<close>

lemma map_start_cut:
  assumes c: "A \<noteq> []" "\<forall>b\<in>set A. b_virt b < v" "\<forall>b\<in>set B. v \<le> b_virt b \<and> b_virt b < e" and t: "b_virt t = e" "v < e"
  shows "map_start v p e (length A + length B) (A @ B @ t # C) = Some (A @ \<lparr>b_virt = v, b_phys = p\<rparr> # t # C)"
proof (cases B)
  case Nil
  then show ?thesis using walk_start_successor_cut[of A v "[]" "t # C"] c t by (simp add: map_start_def insert_blocks_def)
next
  case (Cons b B')
  have w: "walk_start_successor v (A @ B @ t # C) (length A + length B) = Some (length A)" by (rule walk_start_successor_cut) (use c in auto)
  have b: "b_virt b < e" using c(3) Cons by simp
  show ?thesis
  proof (cases "B' = []")
    case True
    then show ?thesis using w b Cons by (auto simp: map_start_def)
  next
    case False
    then show ?thesis using w b Cons by (auto simp: map_start_def erase_blocks_def)
  qed
qed

text \<open>The block that begins at the end of the range when none does yet.\<close>

definition tail_block :: "u32 \<Rightarrow> FlatBlock list \<Rightarrow> FlatBlock list \<Rightarrow> FlatBlock list" where
  "tail_block e AB C = (if C \<noteq> [] \<and> b_virt (hd C) = e then [] else [\<lparr>b_virt = e, b_phys = b_phys (last AB)\<rparr>])"

lemma MapLocked_cut:
  assumes c: "cut v (v + sz) A B C" and l: "C = [] \<Longrightarrow> Unmapped (last (A @ B))"
  shows "MapLocked v p sz (A @ B @ C) = Some (A @ \<lparr>b_virt = v, b_phys = p\<rparr> # tail_block (v + sz) (A @ B) C @ C)"
proof -
  let ?e = "v + sz" and ?bs = "A @ B @ C"
  let ?t = "\<lparr>b_virt = ?e, b_phys = b_phys (last (A @ B))\<rparr>"
  note d = c[unfolded cut_def]
  have es: "lower_bound ?bs ?e = length A + length B" by (rule lower_bound_cut[OF c])
  have ep: "?bs ! (length A + length B - 1) = last (A @ B)"
    using d last_conv_nth[of "A @ B"] nth_append[of "A @ B" C "length A + length B - 1"] by (cases A) auto
  show ?thesis
  proof (cases "C \<noteq> [] \<and> b_virt (hd C) = ?e")
    case True
    then obtain c0 C' where C: "C = c0 # C'" "b_virt c0 = ?e" by (cases C) auto
    have "map_start v p ?e (length A + length B) (A @ B @ c0 # C') = Some (A @ \<lparr>b_virt = v, b_phys = p\<rparr> # c0 # C')"
      by (rule map_start_cut) (use d C in auto)
    then show ?thesis using es C d by (simp add: MapLocked_def Let_def tail_block_def nth_append)
  next
    case False
    then have tb: "tail_block ?e (A @ B) C = [?t]" by (auto simp: tail_block_def)
    show ?thesis
    proof (cases B rule: rev_cases)
      case Nil
      have "b_virt (last A) \<ge> v \<longleftrightarrow> False" "A \<noteq> []" "C \<noteq> [] \<Longrightarrow> b_virt (hd C) \<noteq> ?e" using d False by (auto simp: not_le)
      then show ?thesis using es ep l tb Nil
        by (cases C) (auto simp: MapLocked_def Let_def insert_blocks_def nth_append Unmapped_def UnmappedPa_def)
    next
      case (snoc B0 b)
      have b: "v \<le> b_virt b" "last (A @ B) = b" using d snoc by auto
      have s: "map_start v p ?e (length A + length B0) (A @ B0 @ ?t # C) = Some (A @ \<lparr>b_virt = v, b_phys = p\<rparr> # ?t # C)"
        by (rule map_start_cut) (use d snoc in auto)
      have u: "?bs[length A + length B - 1 := ?t] = A @ B0 @ ?t # C" using snoc d by (cases A) (auto simp: list_update_append)
      have len: "length A + length B - 1 = length A + length B0" "length A + length B0 \<noteq> 0" using snoc d by auto
      have u2: "C = [] \<Longrightarrow> ?bs[length A + length B - 1 := (last (A @ B))\<lparr>b_virt := ?e\<rparr>] = A @ B0 @ ?t # C"
        using u b by (cases b) simp
      show ?thesis
      proof (cases C)
        case Nil
        then show ?thesis using es ep b s u2 tb len d by (simp add: MapLocked_def Let_def)
      next
        case (Cons c0 C')
        then show ?thesis using es ep b s u tb len d False by (simp add: MapLocked_def Let_def nth_append)
      qed
    qed
  qed
qed

text \<open>A vector of which the middle is replaced is in order again, and the view changes only between the two ends.\<close>

lemma map_view:
  assumes c: "cut v e A B C" and a: "v \<le> a \<Longrightarrow> a < e \<Longrightarrow> False"
  shows "view_from d (A @ \<lparr>b_virt = v, b_phys = p\<rparr> # tail_block e (A @ B) C @ C) a = view_from d (A @ B @ C) a"
proof (cases "a < v")
  case True
  have "\<forall>b\<in>set B. a < b_virt b" "\<forall>b\<in>set C. a < b_virt b" "\<not> e \<le> a" "\<not> v \<le> a"
    using True c unfolding cut_def by fastforce+
  then show ?thesis by (simp add: tail_block_def view_above)
next
  case False
  then have e: "v \<le> a" "e \<le> a" using a by (auto simp: not_less) (meson a not_le)
  have "view_from (view_from d A a) B a = b_phys (last (A @ B))"
    using view_below[of "A @ B" a d] c e by (fastforce simp: cut_def)
  moreover have "view_from x C a = view_from y C a" if "C \<noteq> []" "b_virt (hd C) = e" for x y
    by (rule view_start) (use that e in \<open>cases C; auto\<close>)
  ultimately show ?thesis using e by (auto simp: tail_block_def)
qed

lemma map_view_inside:
  assumes "cut v e A B C" "v \<le> a" "a < e"
  shows "view_from d (A @ \<lparr>b_virt = v, b_phys = p\<rparr> # tail_block e (A @ B) C @ C) a = p"
proof -
  have "\<forall>b\<in>set C. a < b_virt b" using assms by (auto simp: cut_def)
  then show ?thesis using assms by (auto simp: tail_block_def view_above not_le)
qed

lemma blocks_ok_cut:
  assumes ok: "blocks_ok (A @ B @ C)" and c: "cut v e A B C"
    and M: "blocks_sorted M" "\<forall>b\<in>set M. v \<le> b_virt b \<and> b_virt b \<le> e" and C': "blocks_sorted C'" "\<forall>b\<in>set C'. (e < b_virt b \<or> b_virt b = e \<and> (\<forall>m\<in>set M. b_virt m < e))"
    and l: "Unmapped (last (A @ M @ C'))"
  shows "blocks_ok (A @ M @ C')"
proof -
  have A: "A \<noteq> []" "blocks_sorted A" "b_virt (hd A) = 0" using ok c by (auto simp: blocks_ok_def cut_def blocks_sorted_append)
  moreover have "\<forall>x\<in>set A. \<forall>y\<in>set (M @ C'). b_virt x < b_virt y" using c M(2) C'(2) by (fastforce simp: cut_def)
  moreover have "\<forall>x\<in>set M. \<forall>y\<in>set C'. b_virt x < b_virt y" using M(2) C'(2) by fastforce
  ultimately show ?thesis using M(1) C'(1) l by (auto simp: blocks_ok_def blocks_sorted_append)
qed

theorem MapLocked_ok:
  assumes ok: "blocks_ok bs" and v: "0 < v" "v < v + sz"
  shows "\<exists>bs'. MapLocked v p sz bs = Some bs' \<and> blocks_ok bs' \<and> (\<forall>a. allocated_at bs' a = (if v \<le> a \<and> a < v + sz then p else allocated_at bs a)) \<and>
    (\<forall>b\<in>set bs'. b \<in> set bs \<or> b_virt b = v \<or> b_virt b = v + sz)"
proof -
  let ?e = "v + sz"
  obtain A B C where bs: "bs = A @ B @ C" and c: "cut v ?e A B C" using cut_exists[OF ok v] by blast
  have l: "Unmapped (last (A @ B))" if "C = []" using ok bs that by (simp add: blocks_ok_def)
  let ?M = "\<lparr>b_virt = v, b_phys = p\<rparr> # tail_block ?e (A @ B) C"
  have C: "\<forall>b\<in>set C. ?e < b_virt b \<or> b_virt b = ?e \<and> (\<forall>m\<in>set ?M. b_virt m < ?e)"
  proof (cases "tail_block ?e (A @ B) C = []")
    case True
    then show ?thesis using c v by (auto simp: cut_def le_less)
  next
    case False
    then have "C \<noteq> [] \<Longrightarrow> b_virt (hd C) \<noteq> ?e" by (auto simp: tail_block_def)
    then show ?thesis using c ok bs by (cases C) (auto simp: cut_def le_less blocks_ok_def blocks_sorted_append blocks_sorted_Cons)
  qed
  have "blocks_ok (A @ ?M @ C)"
  proof (rule blocks_ok_cut[OF ok[unfolded bs] c _ _ _ C])
    show "blocks_sorted ?M" "\<forall>b\<in>set ?M. v \<le> b_virt b \<and> b_virt b \<le> ?e" using v by (auto simp: tail_block_def blocks_sorted_def)
    show "blocks_sorted C" using ok bs by (simp add: blocks_ok_def blocks_sorted_append)
    show "Unmapped (last (A @ ?M @ C))" using ok bs l by (cases C) (auto simp: blocks_ok_def tail_block_def Unmapped_def)
  qed
  moreover have "allocated_at (A @ ?M @ C) a = (if v \<le> a \<and> a < ?e then p else allocated_at bs a)" for a
    using map_view[OF c, of a UnmappedPa p] map_view_inside[OF c, of a UnmappedPa p] bs by (auto simp: allocated_at_def)
  moreover have "\<forall>b\<in>set (A @ ?M @ C). b \<in> set bs \<or> b_virt b = v \<or> b_virt b = ?e" by (auto simp: bs tail_block_def)
  ultimately show ?thesis using MapLocked_cut[OF c l, of p] bs by (intro exI[of _ "A @ ?M @ C"]) auto
qed

section \<open>Unmapping\<close>

text \<open>The unmapped block that starts at the range, unless the block before is unmapped already.\<close>

definition gap_block :: "u32 \<Rightarrow> FlatBlock list \<Rightarrow> FlatBlock list" where
  "gap_block v A = (if Unmapped (last A) then [] else [\<lparr>b_virt = v, b_phys = UnmappedPa\<rparr>])"

text \<open>The last block of a range whose predecessor is unmapped and whose successor is mapped is not erased.\<close>

definition keeps_last :: "u32 \<Rightarrow> FlatBlock list \<Rightarrow> FlatBlock list \<Rightarrow> FlatBlock list \<Rightarrow> bool" where
  "keeps_last e A B C \<longleftrightarrow> Mapped (last (A @ B)) \<and> \<not> (C \<noteq> [] \<and> b_virt (hd C) = e \<and> Unmapped (hd C)) \<and> Unmapped (last A) \<and>
     (if tail_block e (A @ B) C = [] then B \<noteq> [] else butlast B \<noteq> [])"

definition after_unmap :: "u32 \<Rightarrow> u32 \<Rightarrow> FlatBlock list \<Rightarrow> FlatBlock list \<Rightarrow> FlatBlock list \<Rightarrow> FlatBlock list" where
  "after_unmap v e A B C =
     (if Unmapped (last (A @ B)) then if B \<noteq> [] \<and> v < b_virt (last B) then A @ gap_block v A @ C else A @ B @ C
      else if C \<noteq> [] \<and> b_virt (hd C) = e \<and> Unmapped (hd C) then A @ gap_block v A @ tl C
      else let tb = tail_block e (A @ B) C; B0 = (if tb = [] then B else butlast B)
           in A @ (if keeps_last e A B C then [last B0] else gap_block v A) @ tb @ C)"

lemma erase_end_cut:
  assumes c: "A \<noteq> []" "\<forall>b\<in>set A. b_virt b < v" "\<forall>b\<in>set B. v \<le> b_virt b" and u: "v \<le> b_virt u" "Unmapped u"
  shows "erase_blocks_with_end_unmapped v (length A + length B) (A @ B @ u # C) = Some (A @ gap_block v A @ C)"
proof -
  have w: "walk_back_to_predecessor v (A @ B @ u # C) (length A + length B) = Some (length A - 1)"
    using walk_back_cut[of A v "B @ [u]" C] c u(1) by simp
  have p: "(A @ B @ u # C) ! (length A - 1) = last A" "Suc (length A - 1) = length A" using c(1) by (auto simp: nth_append last_conv_nth)
  have uv: "u\<lparr>b_virt := v\<rparr> = \<lparr>b_virt = v, b_phys = UnmappedPa\<rparr>" using u(2) by (cases u) (simp add: Unmapped_def)
  show ?thesis using w p uv by (auto simp: erase_blocks_with_end_unmapped_def erase_blocks_def gap_block_def list_update_append nth_append)
qed

lemma unmap_start_cut:
  assumes c: "A \<noteq> []" "\<forall>b\<in>set A. b_virt b < v" "\<forall>b\<in>set B. v \<le> b_virt b \<and> b_virt b < e" and t: "b_virt t = e" "v < e"
  shows "unmap_start v e (length A + length B - 1) (length A + length B) (A @ B @ t # C) =
     Some (A @ (if B \<noteq> [] \<and> Unmapped (last A) then [last B] else gap_block v A) @ t # C)"
proof -
  have w: "walk_back_to_predecessor v (A @ B @ t # C) (length A + length B) = Some (length A - 1)"
    using walk_back_cut[of A v "B @ [t]" C] c t by auto
  have p: "(A @ B @ t # C) ! (length A - 1) = last A" "Suc (length A - 1) = length A" using c(1) by (auto simp: nth_append last_conv_nth)
  show ?thesis
  proof (cases B)
    case Nil
    then show ?thesis using w p t by (auto simp: unmap_start_def gap_block_def insert_blocks_def Mapped_def Unmapped_def)
  next
    case (Cons b B')
    have b: "b_virt b < e" using c(3) Cons by simp
    show ?thesis
    proof (cases "Unmapped (last A)")
      case True
      have "drop (length B') (b # B' @ t # C) = last (b # B') # t # C" by (induction B' arbitrary: b) auto
      then show ?thesis using w p b Cons True by (auto simp: unmap_start_def erase_blocks_def)
    next
      case False
      then show ?thesis using w p b Cons by (cases "B' = []") (auto simp: unmap_start_def erase_blocks_def gap_block_def)
    qed
  qed
qed

lemma UnmapLocked_cut:
  assumes c: "cut v (v + sz) A B C" and l: "C = [] \<Longrightarrow> Unmapped (last (A @ B))"
  shows "UnmapLocked v sz (A @ B @ C) = Some (after_unmap v (v + sz) A B C)"
proof -
  let ?e = "v + sz" and ?bs = "A @ B @ C" and ?n = "length A + length B"
  let ?t = "\<lparr>b_virt = ?e, b_phys = b_phys (last (A @ B))\<rparr>"
  note d = c[unfolded cut_def]
  have es: "lower_bound ?bs ?e = ?n" "?n \<noteq> 0" using lower_bound_cut[OF c] d by auto
  have ep: "?bs ! (?n - 1) = last (A @ B)"
    using d last_conv_nth[of "A @ B"] nth_append[of "A @ B" C "?n - 1"] by (cases A) auto
  have la: "b_virt (last A) < v" using d by simp
  consider (free) "Unmapped (last (A @ B))" | (next_free) c0 C' where "C = c0 # C'" "b_virt c0 = ?e" "Unmapped c0" "\<not> Unmapped (last (A @ B))"
    | (touch) c0 C' where "C = c0 # C'" "b_virt c0 = ?e" "\<not> Unmapped c0" "\<not> Unmapped (last (A @ B))"
    | (tail) c0 C' where "C = c0 # C'" "b_virt c0 \<noteq> ?e" "\<not> Unmapped (last (A @ B))"
    using l by (cases C) auto
  then show ?thesis
  proof cases
    case free
    show ?thesis
    proof (cases B rule: rev_cases)
      case Nil
      then show ?thesis using free es ep la by (auto simp: UnmapLocked_def Let_def after_unmap_def)
    next
      case (snoc B0 b)
      have "erase_blocks_with_end_unmapped v (length A + length B0) (A @ B0 @ b # C) = Some (A @ gap_block v A @ C)"
        by (rule erase_end_cut) (use d snoc free in auto)
      then show ?thesis using free es ep snoc by (auto simp: UnmapLocked_def Let_def after_unmap_def)
    qed
  next
    case next_free
    have "erase_blocks_with_end_unmapped v ?n (A @ B @ c0 # C') = Some (A @ gap_block v A @ C')"
      by (rule erase_end_cut) (use d next_free in auto)
    then show ?thesis using next_free es ep by (simp add: UnmapLocked_def Let_def after_unmap_def nth_append)
  next
    case touch
    have "unmap_start v ?e (?n - 1) ?n (A @ B @ c0 # C') = Some (A @ (if B \<noteq> [] \<and> Unmapped (last A) then [last B] else gap_block v A) @ c0 # C')"
      by (rule unmap_start_cut) (use d touch in auto)
    then show ?thesis using touch es ep
      by (auto simp: UnmapLocked_def Let_def after_unmap_def nth_append tail_block_def keeps_last_def Mapped_def Unmapped_def)
  next
    case tail
    then have tb: "tail_block ?e (A @ B) C = [?t]" by (simp add: tail_block_def)
    show ?thesis
    proof (cases B rule: rev_cases)
      case Nil
      then show ?thesis using tail tb es ep la
        by (auto simp: UnmapLocked_def Let_def after_unmap_def nth_append insert_blocks_def keeps_last_def gap_block_def Mapped_def Unmapped_def)
    next
      case (snoc B0 b)
      have b: "v \<le> b_virt b" "last (A @ B) = b" using d snoc by auto
      have s: "unmap_start v ?e (length A + length B0 - 1) (length A + length B0) (A @ B0 @ ?t # C) =
          Some (A @ (if B0 \<noteq> [] \<and> Unmapped (last A) then [last B0] else gap_block v A) @ ?t # C)"
        by (rule unmap_start_cut) (use d snoc in auto)
      have u: "?bs[?n - 1 := ?t] = A @ B0 @ ?t # C" using snoc d by (cases A) (auto simp: list_update_append)
      have len: "?n - 1 = length A + length B0" "length A + length B0 \<noteq> 0" using snoc d by auto
      have "UnmapLocked v sz ?bs = unmap_start v ?e (length A + length B0 - 1) (length A + length B0) (A @ B0 @ ?t # C)"
        using tail es ep b u len by (auto simp: UnmapLocked_def Let_def nth_append)
      then show ?thesis using s tail tb snoc b by (auto simp: after_unmap_def Let_def keeps_last_def Mapped_def Unmapped_def)
    qed
  qed
qed

text \<open>Only a range between a free and an allocated address can leave a block behind, if a block begins at its end or several do inside.\<close>

definition leaves_rest :: "u32 \<Rightarrow> u32 \<Rightarrow> FlatBlock list \<Rightarrow> bool" where
  "leaves_rest v e bs \<longleftrightarrow> \<not> allocated_at bs (v - 1) \<and> allocated_at bs (e - 1) \<and> allocated_at bs e \<and>
     ((\<exists>b\<in>set bs. b_virt b = e) \<or> (\<exists>b\<in>set bs. \<exists>b'\<in>set bs. v \<le> b_virt b \<and> b_virt b < b_virt b' \<and> b_virt b' < e))"

lemma word_pred_less: "(v::u32) < e \<Longrightarrow> v \<le> e - 1 \<and> e - 1 < e"
  by uint_arith

lemma word_less_pred: "(b::u32) < e \<Longrightarrow> b \<le> e - 1"
  by uint_arith

lemma cut_view:
  assumes "cut v e A B C" "0 < v"
  shows "allocated_at (A @ B @ C) (v - 1) = b_phys (last A)" "allocated_at (A @ B @ C) (e - 1) = b_phys (last (A @ B))"
    "allocated_at (A @ B @ C) e = view_from (b_phys (last (A @ B))) C e"
proof -
  note d = assms(1)[unfolded cut_def]
  have v: "v - 1 < v" "e - 1 < e" using word_pred_less[of 0 v] word_pred_less[of v e] assms(2) d by auto
  have "\<forall>b\<in>set B. v - 1 < b_virt b" "\<forall>b\<in>set C. v - 1 < b_virt b" using d v by fastforce+
  then have "allocated_at (A @ B @ C) (v - 1) = view_from UnmappedPa A (v - 1)" by (simp add: allocated_at_def view_above)
  then show "allocated_at (A @ B @ C) (v - 1) = b_phys (last A)" using d word_less_pred by (subst (asm) view_below) auto
  have "\<forall>b\<in>set C. e - 1 < b_virt b" using d v by fastforce
  then have "allocated_at (A @ B @ C) (e - 1) = view_from UnmappedPa (A @ B) (e - 1)" by (simp add: allocated_at_def view_above)
  moreover have "\<forall>b\<in>set (A @ B). b_virt b < e" using d by fastforce
  ultimately show "allocated_at (A @ B @ C) (e - 1) = b_phys (last (A @ B))" using d word_less_pred[of _ e] view_below[of "A @ B" "e - 1"] by simp
  have "allocated_at (A @ B @ C) e = view_from (view_from UnmappedPa (A @ B) e) C e" by (simp add: allocated_at_def)
  then show "allocated_at (A @ B @ C) e = view_from (b_phys (last (A @ B))) C e"
    using \<open>\<forall>b\<in>set (A @ B). b_virt b < e\<close> view_below[of "A @ B" e] d by (simp add: less_imp_le)
qed

lemma keeps_last_leaves_rest:
  assumes c: "cut v e A B C" and v: "0 < v" and k: "keeps_last e A B C" and ok: "blocks_ok (A @ B @ C)"
  shows "leaves_rest v e (A @ B @ C)"
proof -
  note d = c[unfolded cut_def] and k' = k[unfolded keeps_last_def]
  have C: "blocks_sorted C" "blocks_sorted B" using ok by (auto simp: blocks_ok_def blocks_sorted_append)
  have e: "allocated_at (A @ B @ C) e"
  proof (cases "C \<noteq> [] \<and> b_virt (hd C) = e")
    case True
    then obtain c0 C' where C0: "C = c0 # C'" "b_virt c0 = e" by (cases C) auto
    then have "\<forall>b\<in>set C'. e < b_virt b" using C by (simp add: blocks_sorted_Cons)
    then show ?thesis using cut_view(3)[OF c v] C0 k' by (auto simp: view_above Unmapped_def UnmappedPa_def)
  next
    case False
    then have "\<forall>b\<in>set C. e < b_virt b" using d C(1) by (cases C) (auto simp: blocks_sorted_Cons le_less)
    then show ?thesis using cut_view(3)[OF c v] k' by (simp add: view_above Mapped_def UnmappedPa_def)
  qed
  have "(\<exists>b\<in>set C. b_virt b = e) \<or> (\<exists>b\<in>set B. \<exists>b'\<in>set B. b_virt b < b_virt b')"
  proof (cases "tail_block e (A @ B) C = []")
    case True
    then have "C \<noteq> [] \<and> b_virt (hd C) = e" by (simp add: tail_block_def split: if_splits)
    then show ?thesis using hd_in_set by blast
  next
    case False
    then have "butlast B \<noteq> []" using k' by simp
    then obtain B0 b b' where B: "B = B0 @ [b, b']" by (cases B rule: rev_cases; cases "butlast B" rule: rev_cases) auto
    then have "b_virt b < b_virt b'" using C(2) by (simp add: blocks_sorted_append blocks_sorted_Cons)
    then show ?thesis using B by auto
  qed
  then have "(\<exists>b\<in>set (A @ B @ C). b_virt b = e) \<or>
      (\<exists>b\<in>set (A @ B @ C). \<exists>b'\<in>set (A @ B @ C). v \<le> b_virt b \<and> b_virt b < b_virt b' \<and> b_virt b' < e)"
    using d unfolding set_append by blast
  moreover have "\<not> b_phys (last A)" "b_phys (last (A @ B))" using k' by (auto simp: Mapped_def Unmapped_def UnmappedPa_def)
  ultimately show ?thesis using e cut_view[OF c v] unfolding leaves_rest_def by blast
qed

lemma set_butlast: "set (butlast xs) \<subseteq> set xs"
  by (auto dest: in_set_butlastD)

lemma gap_view:
  assumes "A \<noteq> []" "\<forall>b\<in>set A. b_virt b < v" "v \<le> a"
  shows "view_from d (A @ gap_block v A) a = UnmappedPa"
proof -
  have "\<forall>b\<in>set A. b_virt b \<le> a" using assms(2,3) by fastforce
  then show ?thesis using view_below[of A a d] assms(1,3) by (auto simp: gap_block_def Unmapped_def)
qed

lemma gap_view_before: "a < v \<Longrightarrow> view_from d (A @ gap_block v A) a = view_from d A a"
  by (auto simp: gap_block_def)

lemma gap_block_cut: "v < e \<Longrightarrow> blocks_sorted (gap_block v A) \<and> (\<forall>b\<in>set (gap_block v A). v \<le> b_virt b \<and> b_virt b < e)"
  by (auto simp: gap_block_def blocks_sorted_def)

lemma keeps_lastD:
  assumes "keeps_last e A B C" "B0 = (if tail_block e (A @ B) C = [] then B else butlast B)"
  shows "B0 \<noteq> []" "B \<noteq> []" "last B0 \<in> set B" "b_phys (last B)" "Unmapped (last A)" "\<not> Unmapped (last (A @ B))"
proof -
  show B: "B0 \<noteq> []" "B \<noteq> []" using assms by (auto simp: keeps_last_def split: if_splits)
  then show "last B0 \<in> set B" using assms(2) last_in_set[OF B(1)] set_butlast[of B] by (auto split: if_splits)
  show "Unmapped (last A)" "b_phys (last B)" "\<not> Unmapped (last (A @ B))"
    using assms(1) B(2) by (simp_all add: keeps_last_def Mapped_def Unmapped_def UnmappedPa_def)
qed

text \<open>The four forms of the vector after unmapping.\<close>

lemma after_unmap_forms:
  obtains (same) "after_unmap v e A B C = A @ B @ C" "Unmapped (last (A @ B))" "B \<noteq> [] \<Longrightarrow> b_virt (last B) \<le> v"
    | (free) "after_unmap v e A B C = A @ gap_block v A @ C" "Unmapped (last (A @ B))"
    | (next_free) c C' where "C = c # C'" "after_unmap v e A B C = A @ gap_block v A @ C'" "\<not> Unmapped (last (A @ B))" "b_virt c = e" "Unmapped c"
    | (other) M where "after_unmap v e A B C = A @ (M @ tail_block e (A @ B) C) @ C" "\<not> Unmapped (last (A @ B))"
        "M = gap_block v A \<or> keeps_last e A B C \<and> M = [last (if tail_block e (A @ B) C = [] then B else butlast B)]"
        "\<not> keeps_last e A B C \<Longrightarrow> M = gap_block v A"
proof (cases "Unmapped (last (A @ B))")
  case True
  then show ?thesis using that(1,2) by (cases "B \<noteq> [] \<and> v < b_virt (last B)") (auto simp: after_unmap_def not_less)
next
  case False
  show ?thesis
  proof (cases "C \<noteq> [] \<and> b_virt (hd C) = e \<and> Unmapped (hd C)")
    case True
    then show ?thesis using that(3)[of "hd C" "tl C"] False by (simp add: after_unmap_def)
  next
    case nf: False
    then show ?thesis using that(4) False by (cases "keeps_last e A B C") (auto simp: after_unmap_def Let_def)
  qed
qed

lemma after_unmap_before:
  assumes c: "cut v e A B C" and a: "a < v"
  shows "view_from d (after_unmap v e A B C) a = view_from d (A @ B @ C) a"
proof -
  note d = c[unfolded cut_def]
  have B: "\<forall>b\<in>set B. a < b_virt b" and C: "\<forall>b\<in>set C. a < b_virt b" and e: "\<not> e \<le> a" using d a by fastforce+
  have t: "view_from x (tail_block e (A @ B) C) a = x" for x using e by (simp add: tail_block_def)
  show ?thesis
  proof (cases rule: after_unmap_forms[of v e A B C])
    case (other M)
    have "\<forall>b\<in>set M. a < b_virt b" using other(3) keeps_lastD(3)[OF _ refl, of e A B C] B gap_block_cut[of v e A] d a by fastforce
    then show ?thesis unfolding other(1) using B C t by (simp add: view_above)
  qed (use B C e gap_view_before[OF a, of d A] in \<open>simp_all add: view_above\<close>)
qed

lemma after_unmap_behind:
  assumes c: "cut v e A B C" and a: "e \<le> a" and o: "blocks_sorted C"
  shows "view_from d (after_unmap v e A B C) a = view_from d (A @ B @ C) a"
proof -
  note d = c[unfolded cut_def]
  have va: "v \<le> a" "\<forall>b\<in>set A. b_virt b \<le> a" "\<forall>b\<in>set B. b_virt b \<le> a" using d a by (meson less_imp_le order_trans)+
  have AB: "view_from d (A @ B) a = b_phys (last (A @ B))" by (rule view_below) (use d va in auto)
  have g: "view_from d (A @ gap_block v A) a = UnmappedPa" by (rule gap_view) (use d va in auto)
  have t: "view_from x (tail_block e (A @ B) C @ C) a = view_from (b_phys (last (A @ B))) C a" for x
  proof (cases "C \<noteq> [] \<and> b_virt (hd C) = e")
    case True
    then show ?thesis using view_start[of C a x] a by (auto simp: tail_block_def) (metis hd_in_set view_start)+
  next
    case False
    then show ?thesis using a by (auto simp: tail_block_def)
  qed
  show ?thesis
  proof (cases rule: after_unmap_forms[of v e A B C])
    case free
    then show ?thesis using g AB by (simp add: Unmapped_def)
  next
    case (next_free c C')
    have "view_from d (after_unmap v e A B C) a = view_from (view_from d (A @ gap_block v A) a) C' a" using next_free by simp
    then show ?thesis using g next_free a by (simp add: Unmapped_def)
  next
    case (other M)
    have "view_from d (after_unmap v e A B C) a = view_from (view_from d (A @ M) a) (tail_block e (A @ B) C @ C) a" unfolding other by simp
    also have "\<dots> = view_from (b_phys (last (A @ B))) C a" by (rule t)
    finally show ?thesis using AB by simp
  qed simp
qed

lemma blocks_sorted_last: "blocks_sorted xs \<Longrightarrow> b \<in> set xs \<Longrightarrow> b_virt b \<le> b_virt (last xs)"
  by (cases xs rule: rev_cases) (auto simp: blocks_sorted_append less_imp_le)

lemma after_unmap_inside:
  assumes c: "cut v e A B C" and a: "v \<le> a" "a < e" and o: "blocks_sorted B" and k: "\<not> keeps_last e A B C"
  shows "view_from d (after_unmap v e A B C) a = UnmappedPa"
proof -
  note d = c[unfolded cut_def]
  have C: "\<forall>b\<in>set C. a < b_virt b" using d a by fastforce
  have g: "view_from d (A @ gap_block v A) a = UnmappedPa" by (rule gap_view) (use d a in auto)
  have t: "view_from x (tail_block e (A @ B) C) a = x" for x using a by (auto simp: tail_block_def)
  show ?thesis
  proof (cases rule: after_unmap_forms[of v e A B C])
    case same
    have "\<forall>b\<in>set B. b_virt b \<le> a"
    proof
      fix b assume "b \<in> set B"
      then show "b_virt b \<le> a" using blocks_sorted_last[OF o] same(3) a(1) by (metis empty_iff list.set(1) order_trans)
    qed
    moreover have "\<forall>b\<in>set A. b_virt b \<le> a" using d a(1) by (meson less_imp_le order_trans)
    ultimately have "view_from d (A @ B) a = b_phys (last (A @ B))" using d by (intro view_below) auto
    then show ?thesis using same C by (simp add: view_above Unmapped_def)
  next
    case (other M)
    then show ?thesis using g C t k by (simp add: view_above)
  qed (use g C in \<open>simp_all add: view_above\<close>)
qed

lemma after_unmap_monotone:
  assumes c: "cut v e A B C" and a: "v \<le> a" "a < e" and o: "blocks_sorted B" and k: "keeps_last e A B C"
    and al: "view_from d (after_unmap v e A B C) a"
  shows "view_from d (A @ B @ C) a"
proof -
  note d = c[unfolded cut_def]
  define B0 where "B0 = (if tail_block e (A @ B) C = [] then B else butlast B)"
  note q = keeps_lastD[OF k B0_def]
  have C: "\<forall>b\<in>set C. a < b_virt b" using d a by fastforce
  have A: "view_from d A a = UnmappedPa" using view_below[of A a d] d a q(5) by (fastforce simp: Unmapped_def)
  have t: "view_from x (tail_block e (A @ B) C) a = x" for x using a by (auto simp: tail_block_def)
  have "after_unmap v e A B C = A @ [last B0] @ tail_block e (A @ B) C @ C"
    using k q(6) by (auto simp: after_unmap_def Let_def B0_def keeps_last_def)
  then have "view_from d (after_unmap v e A B C) a = (b_virt (last B0) \<le> a \<and> b_phys (last B0))" using A C t by (simp add: view_above UnmappedPa_def)
  then have b: "b_virt (last B0) \<le> a" "b_phys (last B0)" using al by auto
  show ?thesis
  proof (cases "b_virt (last B) \<le> a")
    case True
    then have "\<forall>b\<in>set B. b_virt b \<le> a" using blocks_sorted_last[OF o] order_trans by blast
    then show ?thesis using view_below[of B a] q C by (simp add: view_above)
  next
    case False
    then have B: "B = B0 @ [last B]" using b(1) q by (auto simp: B0_def split: if_splits)
    then have "blocks_sorted B0" using o blocks_sorted_append by metis
    then have "\<forall>x\<in>set B0. b_virt x \<le> a" using blocks_sorted_last b(1) order_trans by blast
    then have "view_from d (A @ B0) a" using view_below[of B0 a] q b(2) by simp
    then show ?thesis using False C by (subst B) (simp add: view_above)
  qed
qed

lemma after_unmap_ok:
  assumes ok: "blocks_ok (A @ B @ C)" and c: "cut v e A B C"
  shows "blocks_ok (after_unmap v e A B C)" "\<forall>b\<in>set (after_unmap v e A B C). b \<in> set (A @ B @ C) \<or> b_virt b = v \<or> b_virt b = e"
proof -
  note d = c[unfolded cut_def]
  have o: "blocks_sorted B" "blocks_sorted C" "C = [] \<Longrightarrow> Unmapped (last (A @ B))" "C \<noteq> [] \<Longrightarrow> Unmapped (last C)"
    using ok by (auto simp: blocks_ok_def blocks_sorted_append)
  have g: "blocks_sorted (gap_block v A)" "\<forall>b\<in>set (gap_block v A). v \<le> b_virt b \<and> b_virt b < e" using gap_block_cut[of v e A] d by auto
  have "Unmapped (last (A @ gap_block v A))" by (auto simp: gap_block_def Unmapped_def)
  then have lg: "Unmapped (last (A @ gap_block v A @ X))" if "X \<noteq> [] \<Longrightarrow> Unmapped (last X)" for X using that by (cases "X = []") auto
  show "blocks_ok (after_unmap v e A B C)"
  proof (cases rule: after_unmap_forms[of v e A B C])
    case free
    show ?thesis unfolding free(1)
      by (rule blocks_ok_cut[OF ok c g(1) _ o(2)]) (use g(2) d lg[OF o(4)] in \<open>auto simp: le_less\<close>)
  next
    case (next_free t C')
    have "\<forall>b\<in>set C'. e < b_virt b" "blocks_sorted C'" using next_free o(2) by (auto simp: blocks_sorted_Cons)
    then show ?thesis unfolding next_free(2)
      by (intro blocks_ok_cut[OF ok c g(1)]) (use g(2) lg[of C'] o(4) next_free(1) in \<open>auto simp: le_less split: if_splits\<close>)
  next
    case (other M)
    have M: "blocks_sorted M" "\<forall>b\<in>set M. v \<le> b_virt b \<and> b_virt b < e"
      using other(3) g keeps_lastD(3)[OF _ refl, of e A B C] d by (auto simp: blocks_sorted_def)
    have t: "\<forall>b\<in>set (tail_block e (A @ B) C). b_virt b = e" "blocks_sorted (tail_block e (A @ B) C)" by (auto simp: tail_block_def blocks_sorted_def)
    have C: "\<forall>b\<in>set C. e < b_virt b \<or> b_virt b = e \<and> tail_block e (A @ B) C = []"
      using d o(2) by (cases C) (auto simp: tail_block_def blocks_sorted_Cons le_less)
    have L: "Unmapped (last (A @ (M @ tail_block e (A @ B) C) @ C))" using other(2) o(3,4) by (cases "C = []") auto
    show ?thesis unfolding other(1)
      by (rule blocks_ok_cut[OF ok c _ _ o(2) _ L]) (use M t C d in \<open>auto simp: blocks_sorted_append le_less\<close>)
  qed (use ok in simp)
  show "\<forall>b\<in>set (after_unmap v e A B C). b \<in> set (A @ B @ C) \<or> b_virt b = v \<or> b_virt b = e"
  proof (cases rule: after_unmap_forms[of v e A B C])
    case (other M)
    have "\<forall>b\<in>set M. b \<in> set B \<or> b_virt b = v" using other(3) keeps_lastD(3)[OF _ refl, of e A B C] by (auto simp: gap_block_def split: if_splits)
    then show ?thesis unfolding other(1) by (auto simp: tail_block_def)
  qed (auto simp: gap_block_def)
qed

theorem UnmapLocked_ok:
  assumes ok: "blocks_ok bs" and v: "0 < v" "v < v + sz"
  shows "\<exists>bs'. UnmapLocked v sz bs = Some bs' \<and> blocks_ok bs' \<and> (\<forall>a. \<not> (v \<le> a \<and> a < v + sz) \<longrightarrow> allocated_at bs' a = allocated_at bs a) \<and>
    (\<forall>a. allocated_at bs' a \<longrightarrow> allocated_at bs a) \<and> (\<not> leaves_rest v (v + sz) bs \<longrightarrow> (\<forall>a. v \<le> a \<and> a < v + sz \<longrightarrow> \<not> allocated_at bs' a)) \<and>
    (\<forall>b\<in>set bs'. b \<in> set bs \<or> b_virt b = v \<or> b_virt b = v + sz)"
proof -
  let ?e = "v + sz"
  obtain A B C where bs: "bs = A @ B @ C" and c: "cut v ?e A B C" using cut_exists[OF ok v] by blast
  let ?bs' = "after_unmap v ?e A B C"
  have l: "Unmapped (last (A @ B))" if "C = []" using ok bs that by (simp add: blocks_ok_def)
  have o: "blocks_sorted B" "blocks_sorted C" using ok bs by (auto simp: blocks_ok_def blocks_sorted_append)
  have out: "allocated_at ?bs' a = allocated_at bs a" if "\<not> (v \<le> a \<and> a < ?e)" for a
    using that after_unmap_before[OF c, of a] after_unmap_behind[OF c _ o(2), of a] unfolding allocated_at_def bs by (cases "a < v") (auto simp: not_less)
  have "\<not> allocated_at ?bs' a" if "v \<le> a" "a < ?e" "\<not> keeps_last ?e A B C" for a
    using after_unmap_inside[OF c that(1,2) o(1) that(3)] by (simp add: allocated_at_def UnmappedPa_def)
  moreover have "allocated_at bs a" if "v \<le> a" "a < ?e" "keeps_last ?e A B C" "allocated_at ?bs' a" for a
    using after_unmap_monotone[OF c that(1,2) o(1) that(3)] that(4) unfolding allocated_at_def bs by blast
  moreover have "\<not> leaves_rest v ?e bs \<longrightarrow> \<not> keeps_last ?e A B C" using keeps_last_leaves_rest[OF c v(1)] ok bs by blast
  ultimately show ?thesis
    using UnmapLocked_cut[OF c l] after_unmap_ok[OF ok[unfolded bs] c] out bs by (intro exI[of _ ?bs'] conjI) blast+
qed

section \<open>The allocator\<close>

text \<open>
  The blocks of an allocator lie between its start and its limit, except for the first one, at address 0. As long as
  nothing is allocated at fixed addresses, moreover no block begins behind the linear end (\<open>allocator_ok\<close>).
\<close>

definition allocator_inv :: "FlatAllocator \<Rightarrow> bool" where
  "allocator_inv fa \<longleftrightarrow> blocks_ok (fa_blocks fa) \<and> 0 < fa_virt_start fa \<and> fa_virt_start fa \<le> fa_current_linear_alloc_end fa \<and>
     fa_current_linear_alloc_end fa \<le> fa_va_limit fa \<and>
     (\<forall>b\<in>set (fa_blocks fa). b_virt b = 0 \<or> fa_virt_start fa \<le> b_virt b \<and> b_virt b \<le> fa_va_limit fa)"

definition allocator_ok :: "FlatAllocator \<Rightarrow> bool" where
  "allocator_ok fa \<longleftrightarrow> allocator_inv fa \<and> (\<forall>b\<in>set (fa_blocks fa). b_virt b \<le> fa_current_linear_alloc_end fa)"

definition range_held :: "u32 \<Rightarrow> u32 \<Rightarrow> FlatAllocator \<Rightarrow> bool" where
  "range_held v sz fa \<longleftrightarrow> (\<forall>a. v \<le> a \<and> a < v + sz \<longrightarrow> allocated_at (fa_blocks fa) a)"

text \<open>The linear pass has room, and the addresses it would take lie in one free block.\<close>

definition linear_room :: "u32 \<Rightarrow> FlatAllocator \<Rightarrow> bool" where
  "linear_room sz fa \<longleftrightarrow> fa_current_linear_alloc_end fa \<le> fa_current_linear_alloc_end fa + sz \<and>
     fa_current_linear_alloc_end fa + sz \<le> fa_va_limit fa"

definition linear_clear :: "u32 \<Rightarrow> FlatAllocator \<Rightarrow> bool" where
  "linear_clear sz fa \<longleftrightarrow> \<not> allocated_at (fa_blocks fa) (fa_current_linear_alloc_end fa) \<and>
     (\<forall>b\<in>set (fa_blocks fa). \<not> (fa_current_linear_alloc_end fa < b_virt b \<and> b_virt b < fa_current_linear_alloc_end fa + sz))"

lemma allocator_invD:
  assumes "allocator_inv fa"
  shows "blocks_ok (fa_blocks fa)" "0 < fa_virt_start fa" "fa_virt_start fa \<le> fa_current_linear_alloc_end fa"
    "fa_current_linear_alloc_end fa \<le> fa_va_limit fa" "0 < fa_current_linear_alloc_end fa" "fa_current_linear_alloc_end fa \<noteq> 0"
    "b \<in> set (fa_blocks fa) \<Longrightarrow> b_virt b = 0 \<or> fa_virt_start fa \<le> b_virt b \<and> b_virt b \<le> fa_va_limit fa"
proof -
  show "blocks_ok (fa_blocks fa)" "0 < fa_virt_start fa" "fa_virt_start fa \<le> fa_current_linear_alloc_end fa" "fa_current_linear_alloc_end fa \<le> fa_va_limit fa"
    "b \<in> set (fa_blocks fa) \<Longrightarrow> b_virt b = 0 \<or> fa_virt_start fa \<le> b_virt b \<and> b_virt b \<le> fa_va_limit fa"
    using assms by (simp_all add: allocator_inv_def)
  then show "0 < fa_current_linear_alloc_end fa" by (auto intro: less_le_trans)
  then show "fa_current_linear_alloc_end fa \<noteq> 0" by auto
qed

lemma allocator_okD: "allocator_ok fa \<Longrightarrow> allocator_inv fa"
  by (simp add: allocator_ok_def)

lemma allocator_new_ok: "0 < s \<Longrightarrow> s \<le> l \<Longrightarrow> allocator_ok (FlatAllocator_new s l)"
  by (simp add: allocator_ok_def allocator_inv_def FlatAllocator_new_def blocks_ok_def blocks_sorted_def Unmapped_def UnmappedVa_def)

lemma allocated_below_end:
  assumes ok: "allocator_ok fa" and a: "fa_current_linear_alloc_end fa \<le> a"
  shows "\<not> allocated_at (fa_blocks fa) a"
proof -
  have "\<forall>b\<in>set (fa_blocks fa). b_virt b \<le> a" using ok a unfolding allocator_ok_def by (meson order_trans)
  then show ?thesis using view_below[of "fa_blocks fa" a] allocator_invD(1)[OF allocator_okD[OF ok]]
    by (simp add: allocated_at_def blocks_ok_def Unmapped_def UnmappedPa_def)
qed

lemma ok_linear_clear: "allocator_ok fa \<Longrightarrow> linear_clear sz fa"
  using allocated_below_end[of fa] by (auto simp: linear_clear_def allocator_ok_def)

lemma view_same: "(\<And>b. b \<in> set bs \<Longrightarrow> b_virt b \<le> a \<longleftrightarrow> b_virt b \<le> c) \<Longrightarrow> view_from d bs a = view_from d bs c"
  by (induction bs arbitrary: d) auto

lemma linear_clear_free:
  assumes "linear_clear sz fa" "fa_current_linear_alloc_end fa \<le> a" "a < fa_current_linear_alloc_end fa + sz"
  shows "\<not> allocated_at (fa_blocks fa) a"
proof -
  have "b_virt b \<le> a \<longleftrightarrow> b_virt b \<le> fa_current_linear_alloc_end fa" if "b \<in> set (fa_blocks fa)" for b
    using assms that unfolding linear_clear_def by (meson le_less_trans not_le order_trans)
  then have "allocated_at (fa_blocks fa) a = allocated_at (fa_blocks fa) (fa_current_linear_alloc_end fa)" unfolding allocated_at_def by (rule view_same)
  then show ?thesis using assms(1) by (simp add: linear_clear_def)
qed

lemma add_less: "(c::u32) \<le> c + sz \<Longrightarrow> 0 < sz \<Longrightarrow> c < c + sz"
  by (metis add.right_neutral add_left_cancel order_le_less word_not_simps(1))

lemma linear_alloc_room:
  assumes ok: "allocator_inv fa" and sz: "0 < sz" and r: "linear_room sz fa" "linear_clear sz fa"
  shows "linear_alloc sz fa = Some (fa_current_linear_alloc_end fa)"
proof -
  let ?c = "fa_current_linear_alloc_end fa" and ?bs = "fa_blocks fa" and ?es = "lower_bound (fa_blocks fa) (fa_current_linear_alloc_end fa + sz)"
  have lt: "?c < ?c + sz" using add_less r(1) sz by (simp add: linear_room_def)
  obtain b bs where bs: "?bs = b # bs" "b_virt b = 0" using allocator_invD(1)[OF ok] by (cases ?bs) (auto simp: blocks_ok_def)
  have "below (?c + sz) b" using bs(2) lt by (simp add: le_less_trans[OF word_zero_le])
  then have es: "?es \<noteq> 0" using bs(1) by (simp add: lower_bound_def)
  then have i: "?es - 1 < length (takeWhile (below (?c + sz)) ?bs)" by (simp add: lower_bound_def)
  have "?bs ! (?es - 1) = takeWhile (below (?c + sz)) ?bs ! (?es - 1)" using i by (simp add: takeWhile_nth)
  then have "?bs ! (?es - 1) \<in> set (takeWhile (below (?c + sz)) ?bs)" using nth_mem[OF i] by simp
  then have m: "below (?c + sz) (?bs ! (?es - 1))" "?bs ! (?es - 1) \<in> set ?bs" by (auto dest: set_takeWhileD)
  then have "b_virt (?bs ! (?es - 1)) \<le> ?c" using r(2) unfolding linear_clear_def by (auto simp: not_less)
  then show ?thesis using r(1) es by (simp add: linear_alloc_def Let_def linear_room_def)
qed

text \<open>The allocator after mapping a range.\<close>

lemma map_allocated_ok:
  assumes ok: "allocator_inv fa" and v: "0 < sz" "v \<le> v + sz" "fa_virt_start fa \<le> v" "v + sz \<le> fa_va_limit fa"
    and fa': "fa' = fa\<lparr>fa_current_linear_alloc_end := e'\<rparr>" "fa_current_linear_alloc_end fa \<le> e'" "e' \<le> fa_va_limit fa"
  shows "\<exists>st. map_allocated v sz fa' = Some (v, st) \<and> allocator_inv st \<and> fa_virt_start st = fa_virt_start fa \<and> fa_va_limit st = fa_va_limit fa \<and>
    (allocator_ok fa \<and> v + sz \<le> e' \<longrightarrow> allocator_ok st) \<and>
    (\<forall>a. allocated_at (fa_blocks st) a \<longleftrightarrow> v \<le> a \<and> a < v + sz \<or> allocated_at (fa_blocks fa) a)"
proof -
  note I = allocator_invD[OF ok]
  have v0: "0 < v" using I(2) v(3) by (rule less_le_trans)
  have vlt: "v < v + sz" by (rule add_less[OF v(2,1)])
  obtain bs' where bs': "MapLocked v True sz (fa_blocks fa) = Some bs'" "blocks_ok bs'"
    "\<forall>a. allocated_at bs' a = (if v \<le> a \<and> a < v + sz then True else allocated_at (fa_blocks fa) a)"
    "\<forall>b\<in>set bs'. b \<in> set (fa_blocks fa) \<or> b_virt b = v \<or> b_virt b = v + sz"
    using MapLocked_ok[OF I(1) v0 vlt, of True] by blast
  have le: "fa_virt_start fa \<le> v + sz" "v \<le> fa_va_limit fa" "fa_virt_start fa \<le> e'" using v I(3) fa'(2) by (meson order_trans)+
  have "b_virt b = 0 \<or> fa_virt_start fa \<le> b_virt b \<and> b_virt b \<le> fa_va_limit fa" if "b \<in> set bs'" for b
    using bs'(4) that I(7)[of b] v(3,4) le by auto
  then have inv: "allocator_inv (fa'\<lparr>fa_blocks := bs'\<rparr>)" using I(2) bs'(2) fa' le(3) by (simp add: allocator_inv_def)
  have "b_virt b \<le> e'" if b: "b \<in> set bs'" and k: "allocator_ok fa" "v + sz \<le> e'" for b
  proof -
    have "v \<le> e'" using vlt k(2) by auto
    then show ?thesis using bs'(4) b k fa'(2) unfolding allocator_ok_def by (metis order_trans)
  qed
  then have "allocator_ok fa \<and> v + sz \<le> e' \<longrightarrow> allocator_ok (fa'\<lparr>fa_blocks := bs'\<rparr>)" using inv fa'(1) by (simp add: allocator_ok_def)
  then show ?thesis using bs' fa'(1) inv by (intro exI[of _ "fa'\<lparr>fa_blocks := bs'\<rparr>"]) (auto simp: map_allocated_def)
qed

text \<open>The gap search finds an unmapped block with enough room before its successor.\<close>

lemma search_gap_Some:
  "search_gap sz bs = Some g \<Longrightarrow> \<exists>xs p s ys. bs = xs @ p # s # ys \<and> g = b_virt p \<and> Unmapped p \<and> sz \<le> b_virt s - b_virt p"
proof (induction sz bs rule: search_gap.induct)
  case (1 sz p s bs)
  show ?case
  proof (cases "b_virt s - b_virt p < sz \<or> Mapped p")
    case True
    then obtain xs p' s' ys where "s # bs = xs @ p' # s' # ys" "g = b_virt p'" "Unmapped p'" "sz \<le> b_virt s' - b_virt p'" using 1 by auto
    then show ?thesis by (intro exI[of _ "p # xs"]) auto
  next
    case False
    then show ?thesis using "1.prems" by (intro exI[of _ "[]"]) (auto simp: Mapped_def Unmapped_def split: if_splits)
  qed
qed auto

lemma gap_room: "(p::u32) < s \<Longrightarrow> sz \<le> s - p \<Longrightarrow> p \<le> p + sz \<and> p + sz \<le> s"
  by uint_arith

lemma gap_free:
  assumes "blocks_ok (xs @ p # s # ys)" "Unmapped p" "b_virt p \<le> a" "a < b_virt s"
  shows "\<not> allocated_at (xs @ p # s # ys) a"
proof -
  have "\<forall>y\<in>set (s # ys). a < b_virt y" using assms(1,4) by (auto simp: blocks_ok_def blocks_sorted_append blocks_sorted_Cons intro: less_trans)
  then show ?thesis using assms(2,3) view_above[of "s # ys" a] by (simp add: allocated_at_def Unmapped_def UnmappedPa_def del: view_Cons) simp
qed

text \<open>The first gap, below the allocator's start, is large enough.\<close>

definition low_gap :: "u32 \<Rightarrow> FlatAllocator \<Rightarrow> bool" where
  "low_gap sz fa \<longleftrightarrow> (case fa_blocks fa of p # s # bs \<Rightarrow> sz \<le> b_virt s \<and> Unmapped p | _ \<Rightarrow> False)"

lemma Allocate_ok:
  assumes ok: "allocator_inv fa" and sz: "0 < sz" and r: "linear_room sz fa \<and> linear_clear sz fa \<or> \<not> linear_room sz fa \<and> \<not> low_gap sz fa"
  shows "\<exists>v st. FlatAllocator_Allocate sz fa = Some (v, st) \<and> allocator_inv st \<and> fa_virt_start st = fa_virt_start fa \<and> fa_va_limit st = fa_va_limit fa \<and>
    (allocator_ok fa \<longrightarrow> allocator_ok st) \<and> (v = 0 \<longrightarrow> st = fa \<and> \<not> linear_room sz fa) \<and>
    (v \<noteq> 0 \<longrightarrow> fa_virt_start fa \<le> v \<and> v < v + sz \<and> v + sz \<le> fa_va_limit fa \<and>
       (\<forall>a. v \<le> a \<and> a < v + sz \<longrightarrow> \<not> allocated_at (fa_blocks fa) a) \<and>
       (\<forall>a. allocated_at (fa_blocks st) a \<longleftrightarrow> v \<le> a \<and> a < v + sz \<or> allocated_at (fa_blocks fa) a))"
proof (cases "linear_room sz fa")
  case True
  let ?c = "fa_current_linear_alloc_end fa"
  note c = allocator_invD[OF ok]
  have room: "?c \<le> ?c + sz" "?c + sz \<le> fa_va_limit fa" "linear_clear sz fa" using True r by (auto simp: linear_room_def)
  have lt: "?c < ?c + sz" by (rule add_less[OF room(1) sz])
  obtain st where st: "map_allocated ?c sz (fa\<lparr>fa_current_linear_alloc_end := ?c + sz\<rparr>) = Some (?c, st)" "allocator_inv st"
    "fa_virt_start st = fa_virt_start fa" "fa_va_limit st = fa_va_limit fa" "allocator_ok fa \<longrightarrow> allocator_ok st"
    "\<forall>a. allocated_at (fa_blocks st) a \<longleftrightarrow> ?c \<le> a \<and> a < ?c + sz \<or> allocated_at (fa_blocks fa) a"
    using map_allocated_ok[OF ok sz room(1) c(3) room(2) refl room(1,2)] by auto
  have "FlatAllocator_Allocate sz fa = Some (?c, st)"
    using linear_alloc_room[OF ok sz True room(3)] st(1) c(6) by (simp add: FlatAllocator_Allocate_def UnmappedVa_def)
  then show ?thesis using st c(3,6) lt room linear_clear_free[OF room(3)] by (intro exI[of _ ?c] exI[of _ st]) auto
next
  case False
  have l: "linear_alloc sz fa = Some UnmappedVa" using False by (auto simp: linear_alloc_def Let_def linear_room_def)
  note I = allocator_invD[OF ok]
  show ?thesis
  proof (cases "search_gap sz (fa_blocks fa)")
    case None
    then show ?thesis using l ok False by (intro exI[of _ 0] exI[of _ fa]) (simp add: FlatAllocator_Allocate_def)
  next
    case (Some g)
    then obtain xs p s ys where bs: "fa_blocks fa = xs @ p # s # ys" "g = b_virt p" "Unmapped p" "sz \<le> b_virt s - b_virt p"
      using search_gap_Some by blast
    have ps: "b_virt p < b_virt s" using I(1) unfolding bs by (auto simp: blocks_ok_def blocks_sorted_append blocks_sorted_Cons)
    have "xs \<noteq> []" using r False bs I(1) by (auto simp: low_gap_def blocks_ok_def)
    then have "b_virt (hd xs) < b_virt p" using I(1) unfolding bs by (cases xs) (auto simp: blocks_ok_def blocks_sorted_append blocks_sorted_Cons)
    then have g: "g \<noteq> 0" "fa_virt_start fa \<le> g" using I(7)[of p] bs by auto
    have room: "g \<le> g + sz" "g + sz \<le> b_virt s" using gap_room[OF ps bs(4)] bs(2) by auto
    have lt: "g < g + sz" by (rule add_less[OF room(1) sz])
    have "b_virt s \<le> fa_va_limit fa" using I(7)[of s] bs ps by auto
    then have e: "g + sz \<le> fa_va_limit fa" using room(2) by (meson order_trans)
    have k: "g + sz \<le> fa_current_linear_alloc_end fa" if "allocator_ok fa" using that room(2) bs(1) unfolding allocator_ok_def by (auto intro: order_trans)
    obtain st where st: "map_allocated g sz fa = Some (g, st)" "allocator_inv st" "allocator_ok fa \<longrightarrow> allocator_ok st"
      "fa_virt_start st = fa_virt_start fa" "fa_va_limit st = fa_va_limit fa"
      "\<forall>a. allocated_at (fa_blocks st) a \<longleftrightarrow> g \<le> a \<and> a < g + sz \<or> allocated_at (fa_blocks fa) a"
      using map_allocated_ok[OF ok sz room(1) g(2) e refl order_refl I(4)] k by auto
    have "FlatAllocator_Allocate sz fa = Some (g, st)" using l Some st(1) by (simp add: FlatAllocator_Allocate_def)
    moreover have "\<not> allocated_at (fa_blocks fa) a" if "g \<le> a" "a < g + sz" for a
      using gap_free[OF I(1)[unfolded bs(1)] bs(3)] that bs(1,2) room(2) less_le_trans by metis
    ultimately show ?thesis using st g lt e by (intro exI[of _ g] exI[of _ st]) auto
  qed
qed

lemma Allocate_linear:
  assumes ok: "allocator_inv fa" and sz: "0 < sz" and r: "linear_room sz fa" "linear_clear sz fa"
  shows "\<exists>st. FlatAllocator_Allocate sz fa = Some (fa_current_linear_alloc_end fa, st) \<and> fa_current_linear_alloc_end st = fa_current_linear_alloc_end fa + sz"
proof -
  obtain v st where A: "FlatAllocator_Allocate sz fa = Some (v, st)" using Allocate_ok[OF ok sz] r by blast
  then show ?thesis using linear_alloc_room[OF ok sz r] allocator_invD(6)[OF ok]
    by (auto simp: FlatAllocator_Allocate_def map_allocated_def UnmappedVa_def bind_eq_Some_conv split: if_splits)
qed

text \<open>The gap below the start is chosen, and mapping at address 0 steps back from the first block.\<close>

lemma Allocate_low_gap:
  assumes ok: "allocator_inv fa" and sz: "0 < sz" and r: "\<not> linear_room sz fa" "low_gap sz fa"
  shows "FlatAllocator_Allocate sz fa = None"
proof -
  obtain p s bs where bs: "fa_blocks fa = p # s # bs" "sz \<le> b_virt s" "Unmapped p" using r(2) by (auto simp: low_gap_def split: list.splits)
  have p: "b_virt p = 0" using allocator_invD(1)[OF ok] bs by (simp add: blocks_ok_def)
  have l: "linear_alloc sz fa = Some UnmappedVa" using r by (auto simp: linear_alloc_def Let_def linear_room_def)
  have "search_gap sz (fa_blocks fa) = Some 0" using bs p by (auto simp: Mapped_def Unmapped_def)
  moreover have "lower_bound (fa_blocks fa) sz = 1" using bs p sz by (auto simp: lower_bound_def)
  then have "MapLocked 0 True sz (fa_blocks fa) = None"
    using bs p by (auto simp: MapLocked_def Let_def map_start_def walk_start_successor.simps)
  ultimately show ?thesis using l by (simp add: FlatAllocator_Allocate_def map_allocated_def)
qed

lemma AllocateFixed_ok:
  assumes ok: "allocator_inv fa" and v: "fa_virt_start fa \<le> v" "v < v + sz" "v + sz \<le> fa_va_limit fa"
  shows "\<exists>st. FlatAllocator_AllocateFixed v sz fa = Some st \<and> allocator_inv st \<and> fa_virt_start st = fa_virt_start fa \<and> fa_va_limit st = fa_va_limit fa \<and>
    (\<forall>a. allocated_at (fa_blocks st) a \<longleftrightarrow> v \<le> a \<and> a < v + sz \<or> allocated_at (fa_blocks fa) a)"
proof -
  have "0 < sz" using v(2) by (metis add.right_neutral less_irrefl word_neq_0_conv)
  then obtain st where st: "map_allocated v sz fa = Some (v, st)" "allocator_inv st" "fa_virt_start st = fa_virt_start fa" "fa_va_limit st = fa_va_limit fa"
    "\<forall>a. allocated_at (fa_blocks st) a \<longleftrightarrow> v \<le> a \<and> a < v + sz \<or> allocated_at (fa_blocks fa) a"
    using map_allocated_ok[OF ok _ less_imp_le[OF v(2)] v(1,3) _ order_refl allocator_invD(4)[OF ok], of fa] by auto
  then have "FlatAllocator_AllocateFixed v sz fa = Some st" by (auto simp: map_allocated_def FlatAllocator_AllocateFixed_def bind_eq_Some_conv)
  then show ?thesis using st by blast
qed

section \<open>Runs of the allocator\<close>

text \<open>
  An allocator and the ranges its clients hold, after any calls that returned; \<open>fixed\<close> tells whether a range was ever allocated
  at a fixed address. Clients take free ranges at fixed addresses and free what they hold. Once there were fixed
  ranges, a range is asked for only if the addresses behind the linear end lie in one free block, as far as the linear pass
  has room at all; without fixed ranges this is always so (\<open>ok_linear_clear\<close>).
\<close>

definition range_free :: "u32 \<Rightarrow> u32 \<Rightarrow> FlatAllocator \<Rightarrow> bool" where
  "range_free v sz fa \<longleftrightarrow> (\<forall>a. v \<le> a \<and> a < v + sz \<longrightarrow> \<not> allocated_at (fa_blocks fa) a)"

definition linear_safe :: "u32 \<Rightarrow> FlatAllocator \<Rightarrow> bool" where
  "linear_safe sz fa \<longleftrightarrow> (linear_room sz fa \<longrightarrow> linear_clear sz fa)"

inductive allocator_run :: "u32 \<Rightarrow> u32 \<Rightarrow> bool \<Rightarrow> FlatAllocator \<Rightarrow> (u32 \<times> u32) list \<Rightarrow> bool" for s l where
  start: "allocator_run s l False (FlatAllocator_new s l) []"
| allocate: "allocator_run s l fixed fa held \<Longrightarrow> 0 < sz \<Longrightarrow> fixed \<longrightarrow> linear_safe sz fa \<Longrightarrow> FlatAllocator_Allocate sz fa = Some (v, fa') \<Longrightarrow> v \<noteq> 0 \<Longrightarrow>
    allocator_run s l fixed fa' ((v, sz) # held)"
| full: "allocator_run s l fixed fa held \<Longrightarrow> 0 < sz \<Longrightarrow> fixed \<longrightarrow> linear_safe sz fa \<Longrightarrow> FlatAllocator_Allocate sz fa = Some (0, fa') \<Longrightarrow>
    allocator_run s l fixed fa' held"
| reserve: "allocator_run s l fixed fa held \<Longrightarrow> s \<le> v \<Longrightarrow> v < v + sz \<Longrightarrow> v + sz \<le> l \<Longrightarrow> range_free v sz fa \<Longrightarrow>
    FlatAllocator_AllocateFixed v sz fa = Some fa' \<Longrightarrow> allocator_run s l True fa' ((v, sz) # held)"
| free: "allocator_run s l fixed fa (xs @ (v, sz) # ys) \<Longrightarrow> FlatAllocator_Free v sz fa = Some fa' \<Longrightarrow> allocator_run s l fixed fa' (xs @ ys)"

definition held_apart :: "u32 \<times> u32 \<Rightarrow> u32 \<times> u32 \<Rightarrow> bool" where
  "held_apart p q \<longleftrightarrow> (\<forall>a. \<not> (fst p \<le> a \<and> a < fst p + snd p \<and> fst q \<le> a \<and> a < fst q + snd q))"

definition held_ok :: "FlatAllocator \<Rightarrow> u32 \<times> u32 \<Rightarrow> bool" where
  "held_ok fa p \<longleftrightarrow> fa_virt_start fa \<le> fst p \<and> fst p < fst p + snd p \<and> fst p + snd p \<le> fa_va_limit fa \<and> range_held (fst p) (snd p) fa"

text \<open>What clients of an allocator rely on: a range they are given was free, a range they take is marked, and freeing a range
  frees nothing else. Asking for a range is safe under a condition of the allocator.\<close>

locale address_allocator =
  fixes ok :: "'s \<Rightarrow> bool" and used :: "'s \<Rightarrow> u32 \<Rightarrow> bool" and low high :: u32 and safe :: "u32 \<Rightarrow> 's \<Rightarrow> bool"
    and alloc :: "u32 \<Rightarrow> 's \<Rightarrow> (u32 \<times> 's) option" and take_at :: "u32 \<Rightarrow> u32 \<Rightarrow> 's \<Rightarrow> 's option" and release :: "u32 \<Rightarrow> u32 \<Rightarrow> 's \<Rightarrow> 's option"
  assumes alloc_law: "ok s \<Longrightarrow> 0 < sz \<Longrightarrow> safe sz s \<Longrightarrow> alloc sz s = Some (v, s') \<Longrightarrow> v \<noteq> 0 \<Longrightarrow>
      ok s' \<and> low \<le> v \<and> v < v + sz \<and> v + sz \<le> high \<and> (\<forall>a. v \<le> a \<and> a < v + sz \<longrightarrow> \<not> used s a) \<and>
      (\<forall>a. used s' a \<longleftrightarrow> v \<le> a \<and> a < v + sz \<or> used s a)"
    and full_law: "ok s \<Longrightarrow> 0 < sz \<Longrightarrow> safe sz s \<Longrightarrow> alloc sz s = Some (0, s') \<Longrightarrow> s' = s"
    and take_law: "ok s \<Longrightarrow> low \<le> v \<Longrightarrow> v < v + sz \<Longrightarrow> v + sz \<le> high \<Longrightarrow>
      \<exists>s'. take_at v sz s = Some s' \<and> ok s' \<and> (\<forall>a. used s' a \<longleftrightarrow> v \<le> a \<and> a < v + sz \<or> used s a)"
    and release_law: "ok s \<Longrightarrow> low \<le> v \<Longrightarrow> v < v + sz \<Longrightarrow> v + sz \<le> high \<Longrightarrow> \<forall>a. v \<le> a \<and> a < v + sz \<longrightarrow> used s a \<Longrightarrow>
      \<exists>s'. release v sz s = Some s' \<and> ok s' \<and> (\<forall>a. \<not> (v \<le> a \<and> a < v + sz) \<longrightarrow> used s' a = used s a)"
begin

definition held_in :: "'s \<Rightarrow> u32 \<times> u32 \<Rightarrow> bool" where
  "held_in s p \<longleftrightarrow> low \<le> fst p \<and> fst p < fst p + snd p \<and> fst p + snd p \<le> high \<and> (\<forall>a. fst p \<le> a \<and> a < fst p + snd p \<longrightarrow> used s a)"

definition all_held :: "'s \<Rightarrow> (u32 \<times> u32) list \<Rightarrow> bool" where
  "all_held s held \<longleftrightarrow> ok s \<and> (\<forall>p\<in>set held. held_in s p) \<and> sorted_wrt held_apart held"

lemma held_in_keep:
  "held_in s p \<Longrightarrow> (\<And>a. fst p \<le> a \<Longrightarrow> a < fst p + snd p \<Longrightarrow> used s a \<Longrightarrow> used s' a) \<Longrightarrow> held_in s' p"
  by (auto simp: held_in_def)

text \<open>A free range that has been marked joins the held ranges.\<close>

lemma marked_keeps:
  assumes h: "all_held s held" and r: "ok s'" "low \<le> v" "v < v + sz" "v + sz \<le> high" "\<forall>a. v \<le> a \<and> a < v + sz \<longrightarrow> \<not> used s a"
    "\<forall>a. used s' a \<longleftrightarrow> v \<le> a \<and> a < v + sz \<or> used s a"
  shows "all_held s' ((v, sz) # held)"
proof -
  have s: "ok s" "\<forall>p\<in>set held. held_in s p" "sorted_wrt held_apart held" using h by (auto simp: all_held_def)
  have "held_in s' p" if "p \<in> set held" for p by (rule held_in_keep[of s]) (use s(2) r that in auto)
  moreover have "held_in s' (v, sz)" using r by (simp add: held_in_def)
  moreover have "held_apart (v, sz) p" if "p \<in> set held" for p using s(2) r that unfolding held_in_def held_apart_def by fastforce
  ultimately show ?thesis using s r by (simp add: all_held_def)
qed

lemma alloc_keeps: "all_held s held \<Longrightarrow> 0 < sz \<Longrightarrow> safe sz s \<Longrightarrow> alloc sz s = Some (v, s') \<Longrightarrow> v \<noteq> 0 \<Longrightarrow> all_held s' ((v, sz) # held)"
  by (rule marked_keeps[of s]) (use alloc_law[of s sz v s'] in \<open>simp_all add: all_held_def\<close>)

lemma full_keeps: "all_held s held \<Longrightarrow> 0 < sz \<Longrightarrow> safe sz s \<Longrightarrow> alloc sz s = Some (0, s') \<Longrightarrow> all_held s' held"
  using full_law by (auto simp: all_held_def)

lemma take_keeps:
  assumes h: "all_held s held" and v: "low \<le> v" "v < v + sz" "v + sz \<le> high" "\<forall>a. v \<le> a \<and> a < v + sz \<longrightarrow> \<not> used s a" and t: "take_at v sz s = Some s'"
  shows "all_held s' ((v, sz) # held)"
  using take_law[of s v sz] h v t by (intro marked_keeps[OF h _ v]) (auto simp: all_held_def)

lemma release_returns: "all_held s held \<Longrightarrow> (v, sz) \<in> set held \<Longrightarrow> \<exists>s'. release v sz s = Some s'"
  using release_law[of s v sz] by (force simp: all_held_def held_in_def)

lemma release_keeps:
  assumes h: "all_held s (xs @ (v, sz) # ys)" and r: "release v sz s = Some s'"
  shows "all_held s' (xs @ ys)"
proof -
  have s: "ok s" "\<forall>p\<in>set (xs @ (v, sz) # ys). held_in s p" "sorted_wrt held_apart (xs @ (v, sz) # ys)" using h by (auto simp: all_held_def)
  have 1: "ok s'" "\<forall>a. \<not> (v \<le> a \<and> a < v + sz) \<longrightarrow> used s' a = used s a"
    using release_law[OF s(1), of v sz] s(2) r by (auto simp: held_in_def)
  have "held_in s' p" if p: "p \<in> set (xs @ ys)" for p
  proof (rule held_in_keep[of s])
    have "held_apart p (v, sz) \<or> held_apart (v, sz) p" using s(3) p by (auto simp: sorted_wrt_append)
    then show "used s' a" if "fst p \<le> a" "a < fst p + snd p" "used s a" for a using 1(2) that by (auto simp: held_apart_def)
  qed (use s(2) p in auto)
  then show ?thesis using 1(1) s(3) by (auto simp: all_held_def sorted_wrt_append)
qed

end

lemma Free_ok:
  assumes ok: "allocator_inv fa" and h: "held_ok fa (v, sz)"
  shows "\<exists>fa'. FlatAllocator_Free v sz fa = Some fa' \<and> allocator_inv fa' \<and> (allocator_ok fa \<longrightarrow> allocator_ok fa') \<and>
    fa_virt_start fa' = fa_virt_start fa \<and> fa_va_limit fa' = fa_va_limit fa \<and>
    (\<forall>a. \<not> (v \<le> a \<and> a < v + sz) \<longrightarrow> allocated_at (fa_blocks fa') a = allocated_at (fa_blocks fa) a) \<and>
    (\<not> leaves_rest v (v + sz) (fa_blocks fa) \<longrightarrow> (\<forall>a. v \<le> a \<and> a < v + sz \<longrightarrow> \<not> allocated_at (fa_blocks fa') a))"
proof -
  note I = allocator_invD[OF ok]
  have v: "v < v + sz" "fa_virt_start fa \<le> v" "v + sz \<le> fa_va_limit fa" "range_held v sz fa" using h by (auto simp: held_ok_def)
  have v0: "0 < v" using I(2) v(2) by (rule less_le_trans)
  let ?c = "fa_current_linear_alloc_end fa"
  have e: "v \<le> ?c" "v + sz \<le> ?c" if "allocator_ok fa"
  proof -
    have "v + sz - 1 < ?c"
      using allocated_below_end[OF that, of "v + sz - 1"] v(4) word_pred_less[OF v(1)] by (auto simp: range_held_def not_le[symmetric])
    then show "v + sz \<le> ?c" using v(1) by uint_arith
    then show "v \<le> ?c" using v(1) by auto
  qed
  obtain bs' where bs': "UnmapLocked v sz (fa_blocks fa) = Some bs'" "blocks_ok bs'"
    "\<forall>a. \<not> (v \<le> a \<and> a < v + sz) \<longrightarrow> allocated_at bs' a = allocated_at (fa_blocks fa) a"
    "\<forall>b\<in>set bs'. b \<in> set (fa_blocks fa) \<or> b_virt b = v \<or> b_virt b = v + sz"
    "\<not> leaves_rest v (v + sz) (fa_blocks fa) \<longrightarrow> (\<forall>a. v \<le> a \<and> a < v + sz \<longrightarrow> \<not> allocated_at bs' a)"
    using UnmapLocked_ok[OF I(1) v0 v(1)] by blast
  have "v \<le> fa_va_limit fa" "fa_virt_start fa \<le> v + sz" using v(1-3) by auto
  then have "b_virt b = 0 \<or> fa_virt_start fa \<le> b_virt b \<and> b_virt b \<le> fa_va_limit fa" if b: "b \<in> set bs'" for b
    using bs'(4) b I(7)[of b] v(2,3) by auto
  then have inv: "allocator_inv (fa\<lparr>fa_blocks := bs'\<rparr>)" using I bs'(2) by (simp add: allocator_inv_def)
  then have "allocator_ok fa \<longrightarrow> allocator_ok (fa\<lparr>fa_blocks := bs'\<rparr>)" using bs'(4) e unfolding allocator_ok_def by auto
  then show ?thesis using bs'(1,3,5) inv by (intro exI[of _ "fa\<lparr>fa_blocks := bs'\<rparr>"]) (simp add: FlatAllocator_Free_def)
qed

text \<open>The allocator between a start and a limit.\<close>

definition allocator_at :: "u32 \<Rightarrow> u32 \<Rightarrow> FlatAllocator \<Rightarrow> bool" where
  "allocator_at s l fa \<longleftrightarrow> allocator_inv fa \<and> fa_virt_start fa = s \<and> fa_va_limit fa = l"

lemma Allocate_returned:
  assumes "allocator_inv fa" "0 < sz" "linear_safe sz fa" "FlatAllocator_Allocate sz fa = Some (v, fa')"
  shows "linear_room sz fa \<and> linear_clear sz fa \<or> \<not> linear_room sz fa \<and> \<not> low_gap sz fa"
  using assms Allocate_low_gap[of fa sz] by (force simp: linear_safe_def)

interpretation flat: address_allocator "allocator_at s l" "\<lambda>fa. allocated_at (fa_blocks fa)" s l linear_safe
  FlatAllocator_Allocate FlatAllocator_AllocateFixed FlatAllocator_Free for s l
proof
  fix fa sz v fa' assume h: "allocator_at s l fa" "0 < sz" "linear_safe sz fa" "FlatAllocator_Allocate sz fa = Some (v, fa')"
  have i: "allocator_inv fa" using h(1) by (simp add: allocator_at_def)
  note A = Allocate_ok[OF i h(2) Allocate_returned[OF i h(2-4)]]
  show "allocator_at s l fa' \<and> s \<le> v \<and> v < v + sz \<and> v + sz \<le> l \<and> (\<forall>a. v \<le> a \<and> a < v + sz \<longrightarrow> \<not> allocated_at (fa_blocks fa) a) \<and>
      (\<forall>a. allocated_at (fa_blocks fa') a \<longleftrightarrow> v \<le> a \<and> a < v + sz \<or> allocated_at (fa_blocks fa) a)" if "v \<noteq> 0"
    using A h(1,4) that by (auto simp: allocator_at_def)
next
  fix fa sz fa' assume h: "allocator_at s l fa" "0 < sz" "linear_safe sz fa" "FlatAllocator_Allocate sz fa = Some (0, fa')"
  have i: "allocator_inv fa" using h(1) by (simp add: allocator_at_def)
  show "fa' = fa" using Allocate_ok[OF i h(2) Allocate_returned[OF i h(2-4)]] h(4) by auto
next
  fix fa v sz assume h: "allocator_at s l fa" "s \<le> v" "v < v + sz" "v + sz \<le> l"
  then show "\<exists>fa'. FlatAllocator_AllocateFixed v sz fa = Some fa' \<and> allocator_at s l fa' \<and>
      (\<forall>a. allocated_at (fa_blocks fa') a \<longleftrightarrow> v \<le> a \<and> a < v + sz \<or> allocated_at (fa_blocks fa) a)"
    using AllocateFixed_ok[of fa v sz] by (auto simp: allocator_at_def)
next
  fix fa v sz assume h: "allocator_at s l fa" "s \<le> v" "v < v + sz" "v + sz \<le> l" "\<forall>a. v \<le> a \<and> a < v + sz \<longrightarrow> allocated_at (fa_blocks fa) a"
  then show "\<exists>fa'. FlatAllocator_Free v sz fa = Some fa' \<and> allocator_at s l fa' \<and>
      (\<forall>a. \<not> (v \<le> a \<and> a < v + sz) \<longrightarrow> allocated_at (fa_blocks fa') a = allocated_at (fa_blocks fa) a)"
    using Free_ok[of fa v sz] by (auto simp: allocator_at_def held_ok_def range_held_def)
qed

text \<open>Without fixed ranges no block begins behind the linear end.\<close>

lemma Allocate_keeps_ok: "allocator_ok fa \<Longrightarrow> 0 < sz \<Longrightarrow> FlatAllocator_Allocate sz fa = Some (v, fa') \<Longrightarrow> allocator_ok fa'"
proof -
  assume h: "allocator_ok fa" "0 < sz" "FlatAllocator_Allocate sz fa = Some (v, fa')"
  note i = allocator_okD[OF h(1)]
  have "linear_safe sz fa" using ok_linear_clear[OF h(1)] by (simp add: linear_safe_def)
  then show "allocator_ok fa'" using Allocate_ok[OF i h(2) Allocate_returned[OF i h(2) _ h(3)]] h(1,3) by auto
qed

lemma allocator_run_ok:
  assumes "allocator_run s l fixed fa held" and s: "0 < s" "s \<le> l"
  shows "flat.all_held s l fa held \<and> (\<not> fixed \<longrightarrow> allocator_ok fa)"
  using assms(1)
proof (induction rule: allocator_run.induct)
  case start
  then show ?case using allocator_new_ok[OF s] unfolding flat.all_held_def by (simp add: allocator_at_def allocator_okD FlatAllocator_new_def)
next
  case (allocate fixed fa held sz v fa')
  then have "linear_safe sz fa" using ok_linear_clear[of fa sz] by (auto simp: linear_safe_def)
  then show ?case using allocate Allocate_keeps_ok[of fa sz v fa'] flat.alloc_keeps[of s l fa held sz v fa'] by blast
next
  case (full fixed fa held sz fa')
  then have "linear_safe sz fa" using ok_linear_clear[of fa sz] by (auto simp: linear_safe_def)
  then show ?case using full Allocate_keeps_ok[of fa sz 0 fa'] flat.full_keeps[of s l fa held sz fa'] by blast
next
  case (reserve fixed fa held v sz fa')
  then show ?case using flat.take_keeps[of s l fa held v sz fa'] by (simp add: range_free_def)
next
  case (free fixed fa xs v sz ys fa')
  then have "flat.all_held s l fa (xs @ (v, sz) # ys)" by blast
  then have h: "allocator_inv fa" "held_ok fa (v, sz)" unfolding flat.all_held_def flat.held_in_def by (auto simp: allocator_at_def held_ok_def range_held_def)
  then have "allocator_ok fa \<Longrightarrow> allocator_ok fa'" using Free_ok[OF h] free.hyps(2) by auto
  then show ?case using free flat.release_keeps[of s l fa xs v sz ys fa'] by blast
qed

section \<open>Properties of the allocator\<close>

text \<open>C6: Mapping a range that lies above address 0 and does not wrap around always returns and makes exactly its addresses mapped
  (or unmapped). Unmapping such a range always returns, changes no address outside of it, maps none, and leaves none of its
  addresses mapped unless the address before it is unmapped, its last address and the one behind it are mapped, and a block
  begins at its end or two begin inside it. The vector stays sorted and ends with an unmapped block.\<close>

theorem address_space_updates_exact:
  assumes "blocks_ok bs" "0 < v" "v < v + sz"
  shows "(\<exists>bs'. MapLocked v p sz bs = Some bs' \<and> blocks_ok bs' \<and>
      (\<forall>a. allocated_at bs' a = (if v \<le> a \<and> a < v + sz then p else allocated_at bs a))) \<and>
    (\<exists>bs'. UnmapLocked v sz bs = Some bs' \<and> blocks_ok bs' \<and>
      (\<forall>a. allocated_at bs' a \<longrightarrow> allocated_at bs a) \<and> (\<forall>a. \<not> (v \<le> a \<and> a < v + sz) \<longrightarrow> allocated_at bs' a = allocated_at bs a) \<and>
      (\<not> leaves_rest v (v + sz) bs \<longrightarrow> (\<forall>a. v \<le> a \<and> a < v + sz \<longrightarrow> \<not> allocated_at bs' a)))"
  using MapLocked_ok[OF assms, of p] UnmapLocked_ok[OF assms] by blast

theorem address_space_updates_exact_witness:
  "\<exists>bs'. UnmapLocked 4 8 [\<lparr>b_virt = 0, b_phys = False\<rparr>, \<lparr>b_virt = 4, b_phys = True\<rparr>, \<lparr>b_virt = 12, b_phys = False\<rparr>] = Some bs' \<and>
     (\<forall>a. 4 \<le> a \<and> a < 12 \<longrightarrow> \<not> allocated_at bs' a)"
proof -
  let ?bs = "[\<lparr>b_virt = 0, b_phys = False\<rparr>, \<lparr>b_virt = 4, b_phys = True\<rparr>, \<lparr>b_virt = 12, b_phys = False\<rparr>]"
  have "blocks_ok ?bs" "\<not> leaves_rest 4 (4 + 8) ?bs"
    by (simp_all add: blocks_ok_def blocks_sorted_def Unmapped_def UnmappedPa_def leaves_rest_def allocated_at_def)
  then show ?thesis using address_space_updates_exact[of ?bs 4 8 True] by fastforce
qed

text \<open>C5: Whatever clients allocate, take at free fixed addresses and free of what they hold, the ranges they hold lie between the
  start and the limit of the allocator, are marked as allocated and do not overlap; freeing a held range returns, so does
  taking a range at a fixed address, and so does an allocation as long as the linear pass has room, with the address at its
  end. After the first fixed range this is restricted to allocations for which the addresses behind the linear end are in one
  free block (otherwise the allocator can give out ranges that others hold, see \<open>fixed_allocation_given_again\<close>);
  before, there is no restriction.\<close>

theorem allocations_disjoint:
  assumes "allocator_run s l fixed fa held" "0 < s" "s \<le> l"
  shows "(\<forall>(v, sz)\<in>set held. s \<le> v \<and> v < v + sz \<and> v + sz \<le> l \<and> range_held v sz fa) \<and> sorted_wrt held_apart held \<and>
    (\<forall>(v, sz)\<in>set held. \<exists>fa'. FlatAllocator_Free v sz fa = Some fa') \<and>
    (\<forall>v sz. s \<le> v \<and> v < v + sz \<and> v + sz \<le> l \<longrightarrow> (\<exists>fa'. FlatAllocator_AllocateFixed v sz fa = Some fa')) \<and>
    (\<forall>sz. 0 < sz \<and> linear_room sz fa \<and> (fixed \<longrightarrow> linear_clear sz fa) \<longrightarrow>
       (\<exists>fa'. FlatAllocator_Allocate sz fa = Some (fa_current_linear_alloc_end fa, fa')))"
proof -
  have h: "flat.all_held s l fa held" "\<not> fixed \<longrightarrow> allocator_ok fa" using allocator_run_ok[OF assms] by auto
  then have a: "allocator_inv fa" "fa_virt_start fa = s" "fa_va_limit fa = l" unfolding flat.all_held_def by (simp_all add: allocator_at_def)
  have "\<exists>fa'. FlatAllocator_Allocate sz fa = Some (fa_current_linear_alloc_end fa, fa')" if sz: "0 < sz" "linear_room sz fa" "fixed \<longrightarrow> linear_clear sz fa" for sz
    using Allocate_linear[OF a(1) sz(1,2)] sz(3) h(2) ok_linear_clear[of fa sz] by blast
  moreover have "\<exists>fa'. FlatAllocator_AllocateFixed v sz fa = Some fa'" if "s \<le> v" "v < v + sz" "v + sz \<le> l" for v sz
    using AllocateFixed_ok[OF a(1)] a(2,3) that by blast
  ultimately show ?thesis using h(1) flat.release_returns[OF h(1)] by (auto simp: flat.all_held_def flat.held_in_def range_held_def)
qed

text \<open>Two ranges of the linear pass and one at a fixed address.\<close>

lemma sample_allocator_run:
  "\<exists>fa. allocator_run 16 4096 True fa [(64, 8), (24, 4), (16, 8)]"
proof -
  let ?f0 = "FlatAllocator_new 16 4096"
  let ?f1 = "?f0\<lparr>fa_blocks := [\<lparr>b_virt = 0, b_phys = False\<rparr>, \<lparr>b_virt = 16, b_phys = True\<rparr>, \<lparr>b_virt = 24, b_phys = False\<rparr>], fa_current_linear_alloc_end := 24\<rparr>"
  have "FlatAllocator_Allocate 8 ?f0 = Some (16, ?f1)"
    by (simp add: FlatAllocator_Allocate_def FlatAllocator_new_def linear_alloc_def lower_bound_def map_allocated_def MapLocked_def insert_blocks_def
        UnmappedVa_def UnmappedPa_def)
  then have r: "allocator_run 16 4096 False ?f1 [(16, 8)]" by (intro allocator_run.allocate[OF allocator_run.start]) auto
  have k: "allocator_ok ?f1" using allocator_run_ok[OF r] by simp
  have "linear_room 4 ?f1" by (simp add: linear_room_def FlatAllocator_new_def)
  then obtain fa where fa: "FlatAllocator_Allocate 4 ?f1 = Some (24, fa)" "fa_current_linear_alloc_end fa = 28"
    using Allocate_linear[OF allocator_okD[OF k], of 4] ok_linear_clear[OF k] by (auto simp: FlatAllocator_new_def)
  then have r2: "allocator_run 16 4096 False fa [(24, 4), (16, 8)]" using allocator_run.allocate[OF r, of 4 24] by auto
  have k2: "allocator_ok fa" "fa_virt_start fa = 16" "fa_va_limit fa = 4096"
    using allocator_run_ok[OF r2] unfolding flat.all_held_def by (auto simp: allocator_at_def)
  have "range_free 64 8 fa" using allocated_below_end[OF k2(1)] fa(2) by (auto simp: range_free_def dest: order_trans[of 28 64, rotated])
  moreover obtain fa' where "FlatAllocator_AllocateFixed 64 8 fa = Some fa'" using AllocateFixed_ok[OF allocator_okD[OF k2(1)], of 64 8] k2(2,3) by auto
  ultimately show ?thesis using allocator_run.reserve[OF r2, of 64 8] by auto
qed

theorem allocations_disjoint_witness:
  "\<exists>fa. allocator_run 16 4096 True fa [(64, 8), (24, 4), (16, 8)] \<and> range_held 64 8 fa \<and> range_held 16 8 fa \<and> held_apart (24, 4) (16, 8)"
  using sample_allocator_run allocations_disjoint[of 16 4096 True _ "[(64, 8), (24, 4), (16, 8)]"] by fastforce

text \<open>C40: Freeing the first of two neighbouring allocations of a new allocator returns without any change: the range stays
  marked as allocated. \<open>UnmapLocked\<close> erases the blocks up to the end predecessor, which is the very block to erase.\<close>

theorem freed_neighbour_stays_allocated:
  assumes "0 < s" "s < s + n" "s + n < s + n + m" "s + n + m \<le> l"
  shows "\<exists>fa1 fa2. FlatAllocator_Allocate n (FlatAllocator_new s l) = Some (s, fa1) \<and> FlatAllocator_Allocate m fa1 = Some (s + n, fa2) \<and>
    range_held s n fa2 \<and> FlatAllocator_Free s n fa2 = Some fa2"
proof -
  let ?b0 = "\<lparr>b_virt = 0, b_phys = False\<rparr>" and ?b1 = "\<lparr>b_virt = s, b_phys = True\<rparr>" and ?b2 = "\<lparr>b_virt = s + n, b_phys = True\<rparr>"
    and ?e = "\<lparr>b_virt = s + n + m, b_phys = False\<rparr>"
  let ?f = "\<lambda>bs c. \<lparr>fa_blocks = bs, fa_va_limit = l, fa_virt_start = s, fa_current_linear_alloc_end = c\<rparr>"
  have le: "s + n \<le> l" "s \<le> s + n" "s + n \<le> s + n + m" "s \<noteq> 0" "s + n \<noteq> 0" "0 < s + n" "0 < s + n + m" "s < s + n + m" using assms by auto
  have m1: "MapLocked s True n [?b0] = Some [?b0, ?b1, \<lparr>b_virt = s + n, b_phys = False\<rparr>]"
    using MapLocked_cut[of s n "[?b0]" "[]" "[]" True] assms by (simp add: cut_def Unmapped_def UnmappedPa_def tail_block_def)
  have m2: "MapLocked (s + n) True m [?b0, ?b1, \<lparr>b_virt = s + n, b_phys = False\<rparr>] = Some [?b0, ?b1, ?b2, ?e]"
    using MapLocked_cut[of "s + n" m "[?b0, ?b1]" "[\<lparr>b_virt = s + n, b_phys = False\<rparr>]" "[]" True] assms le
    by (simp add: cut_def Unmapped_def UnmappedPa_def tail_block_def)
  have u: "UnmapLocked s n [?b0, ?b1, ?b2, ?e] = Some [?b0, ?b1, ?b2, ?e]"
    using UnmapLocked_cut[of s n "[?b0]" "[?b1]" "[?b2, ?e]"] assms le
    by (auto simp: cut_def Unmapped_def Mapped_def UnmappedPa_def tail_block_def after_unmap_def keeps_last_def)
  have "FlatAllocator_Allocate n (FlatAllocator_new s l) = Some (s, ?f [?b0, ?b1, \<lparr>b_virt = s + n, b_phys = False\<rparr>] (s + n))"
    using m1 le assms by (simp add: FlatAllocator_Allocate_def FlatAllocator_new_def linear_alloc_def lower_bound_def map_allocated_def UnmappedVa_def UnmappedPa_def)
  moreover have "FlatAllocator_Allocate m (?f [?b0, ?b1, \<lparr>b_virt = s + n, b_phys = False\<rparr>] (s + n)) = Some (s + n, ?f [?b0, ?b1, ?b2, ?e] (s + n + m))"
    using m2 le assms by (simp add: FlatAllocator_Allocate_def linear_alloc_def lower_bound_def map_allocated_def UnmappedVa_def)
  moreover have "FlatAllocator_Free s n (?f [?b0, ?b1, ?b2, ?e] (s + n + m)) = Some (?f [?b0, ?b1, ?b2, ?e] (s + n + m))"
    using u by (simp add: FlatAllocator_Free_def)
  moreover have "range_held s n (?f [?b0, ?b1, ?b2, ?e] (s + n + m))" using le by (auto simp: range_held_def allocated_at_def dest: le_less_trans less_le_trans)
  ultimately show ?thesis by blast
qed

theorem freed_neighbour_stays_allocated_witness:
  "\<exists>fa1 fa2. FlatAllocator_Allocate 8 (FlatAllocator_new 16 4096) = Some (16, fa1) \<and> FlatAllocator_Allocate 4 fa1 = Some (24, fa2) \<and>
     range_held 16 8 fa2 \<and> FlatAllocator_Free 16 8 fa2 = Some fa2"
  using freed_neighbour_stays_allocated[of 16 8 4 4096] by simp

text \<open>An allocation whose linear range would reach into a range allocated at a fixed address is given this range, although
  others hold it: the loop over the blocks in front stops at a mapped or too small block and takes it.\<close>

theorem fixed_allocation_given_again:
  assumes "allocator_ok fa" "fa_current_linear_alloc_end fa < f" "f < f + n" "f < f + sz"
    "f < fa_current_linear_alloc_end fa + sz" "fa_current_linear_alloc_end fa + sz \<le> f + n" "fa_current_linear_alloc_end fa + sz \<le> fa_va_limit fa"
  shows "\<exists>fa1. FlatAllocator_AllocateFixed f n fa = Some fa1 \<and> range_held f n fa1 \<and> (\<exists>fa2. FlatAllocator_Allocate sz fa1 = Some (f, fa2))"
proof -
  let ?bs = "fa_blocks fa" and ?c = "fa_current_linear_alloc_end fa"
  let ?bs1 = "?bs @ [\<lparr>b_virt = f, b_phys = True\<rparr>, \<lparr>b_virt = f + n, b_phys = False\<rparr>]"
  have le: "\<forall>b\<in>set ?bs. b_virt b \<le> ?c" using assms(1) by (simp add: allocator_ok_def)
  have c: "cut f (f + n) ?bs [] []" using le assms(1-3) by (fastforce simp: cut_def allocator_ok_def allocator_inv_def blocks_ok_def)
  have "Unmapped (last ?bs)" using assms(1) by (simp add: allocator_ok_def allocator_inv_def blocks_ok_def)
  then have m: "MapLocked f True n ?bs = Some ?bs1" using MapLocked_cut[OF c, of True] by (simp add: tail_block_def Unmapped_def UnmappedPa_def)
  have "\<forall>b\<in>set ?bs. below (?c + sz) b" using le assms(2,5) by fastforce
  then have "takeWhile (below (?c + sz)) ?bs1 = ?bs @ takeWhile (below (?c + sz)) [\<lparr>b_virt = f, b_phys = True\<rparr>, \<lparr>b_virt = f + n, b_phys = False\<rparr>]"
    by (intro takeWhile_append2) auto
  then have es: "lower_bound ?bs1 (?c + sz) = Suc (length ?bs)" using assms(5,6) by (auto simp: lower_bound_def)
  have "range_held f n (fa\<lparr>fa_blocks := ?bs1\<rparr>)" by (auto simp: range_held_def allocated_at_def)
  moreover have l: "linear_alloc sz (fa\<lparr>fa_blocks := ?bs1\<rparr>) = Some f" using es assms(2,5,7) by (auto simp: linear_alloc_def Let_def nth_append Mapped_def UnmappedPa_def)
  moreover have "\<exists>fa2. FlatAllocator_Allocate sz (fa\<lparr>fa_blocks := ?bs1\<rparr>) = Some (f, fa2)"
  proof -
    have f0: "0 < f" using assms(2) by (metis le_less_trans word_zero_le)
    have "blocks_ok ?bs" using assms(1) by (simp add: allocator_ok_def allocator_inv_def)
    then have "blocks_ok ?bs1" using MapLocked_ok[OF _ f0 assms(3), of ?bs True] m by auto
    then obtain bs2 where "MapLocked f True sz ?bs1 = Some bs2" using MapLocked_ok[OF _ f0 assms(4)] by blast
    then show ?thesis using l f0 by (auto simp: FlatAllocator_Allocate_def map_allocated_def UnmappedVa_def)
  qed
  ultimately show ?thesis using m by (simp add: FlatAllocator_AllocateFixed_def)
qed

theorem fixed_allocation_given_again_witness:
  "\<exists>fa1. FlatAllocator_AllocateFixed 32 16 (FlatAllocator_new 16 4096) = Some fa1 \<and> range_held 32 16 fa1 \<and>
     (\<exists>fa2. FlatAllocator_Allocate 24 fa1 = Some (32, fa2))"
  using fixed_allocation_given_again[of "FlatAllocator_new 16 4096" 32 16 24] allocator_new_ok[of 16 4096]
  by (simp add: FlatAllocator_new_def)

end
