(* ===== verification/Gpu_Buffers.thy ===== *)
theory Gpu_Buffers
  imports Gpu_Address_Space Address_Space_Allocation
begin

text \<open>
  Mapping and unmapping buffers with the address space device (\<open>Gpu_Address_Space\<close>) against the pages its allocators
  hand out: a buffer of whole pages is given back exactly, and what is lost in other cases.
\<close>

section \<open>Maps and pages\<close>

lemma map_at_assign [simp]: "map_at k (map_assign k' v m) = (if k = k' then Some v else map_at k m)"
  unfolding map_at_def by (induction k' v m rule: map_assign.induct) auto

lemma map_erase_assign: "map_at k m = None \<Longrightarrow> map_erase k (map_assign k v m) = m"
  unfolding map_at_def map_erase_def by (induction k v m rule: map_assign.induct) (auto simp: filter_id_conv map_of_eq_None_iff image_iff split: if_splits)

lemma map_at_erase [simp]: "map_at k (map_erase k' m) = (if k = k' then None else map_at k m)"
  unfolding map_at_def map_erase_def by (induction m) auto

definition keys_in_order :: "(u64 \<times> 'a) list \<Rightarrow> bool" where
  "keys_in_order m \<longleftrightarrow> sorted_wrt (<) (map fst m)"

lemma before_upper_bound_at:
  assumes "keys_in_order m" "map_at k m = Some a" shows "before_upper_bound k m = Some (k, a)"
  using assms
proof (induction m)
  case (Cons p m)
  show ?case
  proof (cases "fst p = k")
    case True
    then have "\<forall>q\<in>set m. k < fst q" using Cons.prems(1) by (auto simp: keys_in_order_def)
    then have "before_upper_bound k m = None" by (cases m) (auto simp: not_le)
    then show ?thesis using True Cons.prems(2) by (cases p) (simp add: map_at_def)
  next
    case False
    then have "map_at k m = Some a" using Cons.prems(2) by (cases p) (auto simp: map_at_def)
    moreover from this have "fst p \<le> k" using Cons.prems(1) by (force simp: map_at_def keys_in_order_def dest: map_of_SomeD)
    ultimately show ?thesis using Cons by (simp add: keys_in_order_def)
  qed
qed (simp add: map_at_def)

lemma to_from_page: "bits \<le> 32 \<Longrightarrow> to_page (from_page v bits) bits = v"
proof (rule bit_eqI)
  fix n assume b: "bits \<le> 32" and n: "possible_bit TYPE(32 word) n"
  then have "n < 32" by simp
  then show "bit (to_page (from_page v bits) bits) n \<longleftrightarrow> bit v n"
    using b by (auto simp: to_page_def from_page_def bit_ucast_iff bit_drop_bit_eq bit_push_bit_iff bit_imp_le_length)
qed

lemma from_page_0: "bits \<le> 32 \<Longrightarrow> from_page v bits = 0 \<longleftrightarrow> v = 0"
  using to_from_page[of bits v] by (auto simp: to_page_def from_page_def)

text \<open>An initialised device: its page sizes, and its allocators in any state, with or without ranges at fixed addresses.\<close>

definition device_ok :: "AsGpu \<Rightarrow> bool" where
  "device_ok s \<longleftrightarrow> vm_initialised s \<and> (vm_big_page_size s, vm_big_page_size_bits s) \<in> {(0x10000, 16), (0x20000, 17)} \<and>
     (\<forall>big. allocator_inv (page_allocator big s))"

lemma page_bits_ok:
  assumes "device_ok s" shows "unat (page_sz big s) = 2 ^ page_bits big s" "page_bits big s \<le> 17"
  using assms by (auto simp: device_ok_def page_sz_def page_bits_def YUZU_PAGESIZE_def PAGE_SIZE_BITS_def)

lemma unat_from_page:
  assumes b: "bits \<le> 32" shows "unat (from_page v bits) = unat v * 2 ^ bits"
proof -
  have "unat v < 2 ^ 32" using unsigned_less[of v, where 'a = nat] by simp
  moreover have "(2::nat) ^ bits \<le> 2 ^ 32" using power_increasing[OF b, of "2::nat"] by simp
  ultimately have "unat v * 2 ^ bits < 2 ^ 32 * 2 ^ 32" by (intro mult_less_le_imp_less) auto
  then have "unat v * 2 ^ bits < 2 ^ LENGTH(64)" by simp
  then have "unat (word_of_nat (unat v * 2 ^ bits) :: u64) = unat v * 2 ^ bits" by (simp only: unat_of_nat mod_less)
  moreover have "from_page v bits = word_of_nat (unat v * 2 ^ bits)" by (simp add: from_page_def push_bit_eq_mult)
  ultimately show ?thesis by simp
qed

lemma page_allocator_set [simp]: "page_allocator b (set_page_allocator b' fa s) = (if b = b' then fa else page_allocator b s)"
  by (simp add: page_allocator_def set_page_allocator_def)

lemma set_page_allocator_simps [simp]:
  "page_bits b (set_page_allocator b' fa s) = page_bits b s" "as_mapping_map (set_page_allocator b' fa s) = as_mapping_map s"
  "as_allocation_map (set_page_allocator b' fa s) = as_allocation_map s" "as_gmmu (set_page_allocator b' fa s) = as_gmmu s"
  "vm_initialised (set_page_allocator b' fa s) = vm_initialised s"
  by (simp_all add: page_bits_def set_page_allocator_def)

lemma gmmu_call_simps [simp]:
  "page_bits b (gmmu_call c s) = page_bits b s" "page_allocator b (gmmu_call c s) = page_allocator b s"
  "as_mapping_map (gmmu_call c s) = as_mapping_map s" "as_allocation_map (gmmu_call c s) = as_allocation_map s"
  "as_gmmu (gmmu_call c s) = as_gmmu s @ [c]" "vm_initialised (gmmu_call c s) = vm_initialised s"
  by (simp_all add: gmmu_call_def page_bits_def page_allocator_def)

lemma map_update_simps [simp]:
  "page_bits b (s\<lparr>as_mapping_map := m\<rparr>) = page_bits b s" "page_allocator b (s\<lparr>as_mapping_map := m\<rparr>) = page_allocator b s"
  "page_bits b (s\<lparr>as_allocation_map := x\<rparr>) = page_bits b s" "page_allocator b (s\<lparr>as_allocation_map := x\<rparr>) = page_allocator b s"
  by (simp_all add: page_bits_def page_allocator_def)

section \<open>Allocating and freeing pages\<close>

lemma word_part: "(c::u32) \<le> c + n \<Longrightarrow> 0 < k \<Longrightarrow> k \<le> n \<Longrightarrow> c < c + k \<and> c + k \<le> c + n"
proof -
  assume h: "c \<le> c + n" "0 < k" "k \<le> n"
  have "c \<le> c + k" using h no_olen_add_nat[of c n] no_olen_add_nat[of c k] by (simp add: word_le_nat_alt)
  moreover have "c \<noteq> c + k" using h(2) by auto
  ultimately show ?thesis using word_plus_mono_right[OF h(3,1)] by (metis order_le_less)
qed

lemma allocate_free_part:
  assumes ok: "allocator_inv fa" and k: "0 < k" "k \<le> n" and r: "linear_room n fa" "linear_clear n fa"
  shows "\<exists>fa1 fa2. FlatAllocator_Allocate n fa = Some (fa_current_linear_alloc_end fa, fa1) \<and>
    FlatAllocator_Free (fa_current_linear_alloc_end fa) k fa1 = Some fa2 \<and>
    (k = n \<and> \<not> allocated_at (fa_blocks fa) (fa_current_linear_alloc_end fa + n) \<longrightarrow>
       (\<forall>a. allocated_at (fa_blocks fa2) a = allocated_at (fa_blocks fa) a)) \<and>
    (\<forall>a. fa_current_linear_alloc_end fa + k \<le> a \<and> a < fa_current_linear_alloc_end fa + n \<longrightarrow> allocated_at (fa_blocks fa2) a)"
proof -
  let ?c = "fa_current_linear_alloc_end fa"
  have n: "0 < n" using k by auto
  have c: "?c < ?c + k" "?c + k \<le> ?c + n" using word_part[OF _ k] r by (auto simp: linear_room_def)
  have c0: "?c \<noteq> 0" by (rule allocator_invD(6)[OF ok])
  obtain fa1 where A: "FlatAllocator_Allocate n fa = Some (?c, fa1)" "fa_current_linear_alloc_end fa1 = ?c + n"
    using Allocate_linear[OF ok n r] by blast
  have 1: "allocator_inv fa1" "fa_virt_start fa1 \<le> ?c" "?c + n \<le> fa_va_limit fa1"
    "\<forall>a. ?c \<le> a \<and> a < ?c + n \<longrightarrow> \<not> allocated_at (fa_blocks fa) a"
    "\<forall>a. allocated_at (fa_blocks fa1) a \<longleftrightarrow> ?c \<le> a \<and> a < ?c + n \<or> allocated_at (fa_blocks fa) a"
    using Allocate_ok[OF ok n] r A(1) c0 by auto
  have "?c + k \<le> fa_va_limit fa1" using c(2) 1(3) by (rule order_trans)
  moreover have "range_held ?c k fa1" using 1(5) c(2) unfolding range_held_def by (meson less_le_trans)
  ultimately have h: "held_ok fa1 (?c, k)" using 1(2) c(1) by (simp add: held_ok_def)
  obtain fa2 where F: "FlatAllocator_Free ?c k fa1 = Some fa2"
    "\<forall>a. \<not> (?c \<le> a \<and> a < ?c + k) \<longrightarrow> allocated_at (fa_blocks fa2) a = allocated_at (fa_blocks fa1) a"
    "\<not> leaves_rest ?c (?c + k) (fa_blocks fa1) \<longrightarrow> (\<forall>a. ?c \<le> a \<and> a < ?c + k \<longrightarrow> \<not> allocated_at (fa_blocks fa2) a)"
    using Free_ok[OF 1(1) h] by blast
  have "allocated_at (fa_blocks fa2) a = allocated_at (fa_blocks fa) a" if "k = n" "\<not> allocated_at (fa_blocks fa) (?c + n)" for a
  proof -
    have "\<not> allocated_at (fa_blocks fa1) (?c + k)" using 1(5) that by auto
    then have "\<not> leaves_rest ?c (?c + k) (fa_blocks fa1)" by (simp add: leaves_rest_def)
    then show ?thesis using F(2,3) 1(4,5) that by blast
  qed
  moreover have "allocated_at (fa_blocks fa2) a" if "?c + k \<le> a" "a < ?c + n" for a
    using F(2) 1(5) c(1) that by (meson less_imp_le not_le order_trans)
  ultimately show ?thesis using A(1) F(1) by blast
qed

section \<open>Buffers\<close>

text \<open>A request for a buffer at any address, with the size it asks for.\<close>

definition anywhere :: "IoctlMapBufferEx \<Rightarrow> NvMapHandle \<Rightarrow> u64 \<Rightarrow> bool" where
  "anywhere p h sz \<longleftrightarrow> \<not> has_flag (mb_flags p) MappingFlags_Remap \<and> \<not> has_flag (mb_flags p) MappingFlags_Fixed \<and>
     sz = (if mb_mapping_size p \<noteq> 0 then mb_mapping_size p else nh_orig_size h)"

definition on_big_pages :: "NvMapHandle \<Rightarrow> AsGpu \<Rightarrow> bool" where
  "on_big_pages h s \<longleftrightarrow> IsAligned (unat (nh_align h)) (unat (vm_big_page_size s))"

text \<open>The address of the next page of the linear pass.\<close>

definition next_offset :: "bool \<Rightarrow> AsGpu \<Rightarrow> u64" where
  "next_offset big s = from_page (fa_current_linear_alloc_end (page_allocator big s)) (page_bits big s)"

lemma buffer_cycle:
  assumes s: "device_ok s" and p: "anywhere p h sz" "nvmap (mb_handle p) = Some h" and big: "big = on_big_pages h s"
    and n: "AlignUp_size sz (page_sz big s) = from_page n (page_bits big s)" "to_page sz (page_bits big s) = k" "0 < k" "k \<le> n"
    and r: "linear_room n (page_allocator big s)" "linear_clear n (page_allocator big s)" and free: "map_at (next_offset big s) (as_mapping_map s) = None"
  shows "\<exists>s1 s2. MapBufferEx nvmap p s = Some (NvSuccess, next_offset big s, s1) \<and>
    map_at (next_offset big s) (as_mapping_map s1) \<noteq> None \<and>
    UnmapBuffer (next_offset big s) s1 = Some (NvSuccess, s2) \<and> as_mapping_map s2 = as_mapping_map s \<and>
    as_gmmu s2 = as_gmmu s @ [GmmuMap (next_offset big s) (nh_address h + mb_buffer_offset p) (from_page n (page_bits big s)) (ucast (mb_kind p)) big,
      GmmuUnmap (next_offset big s) sz] \<and>
    (k = n \<and> \<not> allocated_at (fa_blocks (page_allocator big s)) (fa_current_linear_alloc_end (page_allocator big s) + n) \<longrightarrow>
       (\<forall>a. allocated_at (fa_blocks (page_allocator big s2)) a = allocated_at (fa_blocks (page_allocator big s)) a)) \<and>
    (\<forall>a. fa_current_linear_alloc_end (page_allocator big s) + k \<le> a \<and> a < fa_current_linear_alloc_end (page_allocator big s) + n \<longrightarrow>
       allocated_at (fa_blocks (page_allocator big s2)) a)"
proof -
  let ?fa = "page_allocator big s" and ?bits = "page_bits big s" and ?o = "next_offset big s"
  let ?c = "fa_current_linear_alloc_end ?fa"
  have i: "vm_initialised s" "allocator_inv ?fa" using s by (auto simp: device_ok_def)
  have b: "?bits \<le> 32" using page_bits_ok(2)[OF s, of big] by simp
  obtain fa1 fa2 where A: "FlatAllocator_Allocate n ?fa = Some (?c, fa1)" "FlatAllocator_Free ?c k fa1 = Some fa2"
    "k = n \<and> \<not> allocated_at (fa_blocks ?fa) (?c + n) \<longrightarrow> (\<forall>a. allocated_at (fa_blocks fa2) a = allocated_at (fa_blocks ?fa) a)"
    "\<forall>a. ?c + k \<le> a \<and> a < ?c + n \<longrightarrow> allocated_at (fa_blocks fa2) a"
    using allocate_free_part[OF i(2) n(3,4) r] by blast
  have "?c \<noteq> 0" by (rule allocator_invD(6)[OF i(2)])
  then have o: "?o \<noteq> 0" "from_page ?c ?bits = ?o" "to_page ?o ?bits = ?c" using from_page_0[OF b] to_from_page[OF b] by (auto simp: next_offset_def)
  let ?m = "\<lparr>gm_ptr = nh_address h + mb_buffer_offset p, gm_offset = ?o, gm_size = sz, gm_fixed = False, gm_big_page = big, gm_sparse_alloc = False\<rparr>"
  let ?s0 = "gmmu_call (GmmuMap ?o (nh_address h + mb_buffer_offset p) (from_page n ?bits) (ucast (mb_kind p)) big) (set_page_allocator big fa1 s)"
  let ?s1 = "?s0\<lparr>as_mapping_map := map_assign ?o ?m (as_mapping_map s)\<rparr>"
  have "map_anywhere p (nh_address h + mb_buffer_offset p) sz big s = Some (NvSuccess, ?o, ?s1)"
    using A(1) n(1) o to_from_page[OF b] by (simp add: map_anywhere_def Let_def)
  then have m: "MapBufferEx nvmap p s = Some (NvSuccess, ?o, ?s1)"
    using i(1) p big by (simp add: MapBufferEx_def anywhere_def on_big_pages_def Let_def)
  let ?s2 = "release_mapping ?o ?m (set_page_allocator big fa2 ?s1)"
  have "free_mapping_pages ?m ?s1 = Some (set_page_allocator big fa2 ?s1)" using A(2) n(2) o by (simp add: free_mapping_pages_def Let_def)
  then have u: "UnmapBuffer ?o ?s1 = Some (NvSuccess, ?s2)" using i(1) by (simp add: UnmapBuffer_def)
  have "as_mapping_map ?s2 = as_mapping_map s" using map_erase_assign[OF free] by (simp add: release_mapping_def Let_def)
  then show ?thesis using m u A(3,4)
    by (intro exI[of _ ?s1] exI[of _ ?s2]) (simp add: release_mapping_def Let_def)
qed

lemma to_page_nat: "to_page x bits = word_of_nat (unat x div 2 ^ bits)"
proof -
  have "to_page x bits = word_of_nat (unat (drop_bit bits x))" by (simp add: to_page_def)
  also have "unat (drop_bit bits x) = unat x div 2 ^ bits" by (subst unat_drop_bit_eq) (simp add: drop_bit_eq_div)
  finally show ?thesis .
qed

lemma aligned_size:
  assumes "device_ok s" shows "AlignUp_size (from_page n (page_bits big s)) (page_sz big s) = from_page n (page_bits big s)"
proof -
  have b: "page_bits big s \<le> 32" using page_bits_ok(2)[OF assms, of big] by simp
  show ?thesis using unat_from_page[OF b, of n] page_bits_ok(1)[OF assms, of big] by (simp add: AlignUp_size_def AlignUp_aligned from_page_def push_bit_eq_mult)
qed

text \<open>A size that ends inside a page.\<close>

lemma unaligned_size:
  assumes s: "device_ok s" and r: "0 < r" "unat r < 2 ^ page_bits big s" and k: "k < k + 1"
  shows "AlignUp_size (from_page k (page_bits big s) + r) (page_sz big s) = from_page (k + 1) (page_bits big s)"
    "to_page (from_page k (page_bits big s) + r) (page_bits big s) = k"
proof -
  let ?b = "page_bits big s"
  have b: "?b \<le> 17" "?b \<le> 32" "unat (page_sz big s) = 2 ^ ?b" using page_bits_ok[OF s, of big] by auto
  have p: "(2::nat) ^ ?b \<le> 2 ^ 17" "(0::nat) < 2 ^ ?b" using power_increasing[OF b(1), of "2::nat"] by auto
  have kn: "unat k < 2 ^ 32" "unat (k + 1) = unat k + 1" using unsigned_less[of k, where 'a = nat] k unat_plus_simple[of k 1] by (auto simp: less_imp_le)
  have "unat k * 2 ^ ?b < 2 ^ 32 * 2 ^ 17" using kn(1) p by (intro mult_less_le_imp_less) auto
  then have lim: "unat k * 2 ^ ?b + 2 ^ ?b < 2 ^ 50" "unat k * 2 ^ ?b + unat r < 2 ^ 64" using p r(2) by auto
  then have u: "unat (from_page k ?b + r) = unat k * 2 ^ ?b + unat r" using unat_from_page[OF b(2), of k] by (simp add: unat_word_ariths)
  have md: "unat (from_page k ?b + r) mod 2 ^ ?b = unat r" "unat (from_page k ?b + r) div 2 ^ ?b = unat k" using u r(2) by auto
  have "0 < unat r" using r(1) by (simp add: word_less_nat_alt)
  then have "AlignUp (unat (from_page k ?b + r)) (2 ^ ?b) = unat k * 2 ^ ?b + 2 ^ ?b"
    using md u lim AlignUp_unaligned[of "2 ^ ?b" "unat (from_page k ?b + r)"] by (auto simp: AlignDown_def dvd_eq_mod_eq_0 two64_def)
  also have "\<dots> = unat (from_page (k + 1) ?b)" using unat_from_page[OF b(2), of "k + 1"] kn(2) by simp
  finally show "AlignUp_size (from_page k ?b + r) (page_sz big s) = from_page (k + 1) ?b" using b(3) by (simp add: AlignUp_size_def)
  show "to_page (from_page k ?b + r) ?b = k" using md(2) by (simp add: to_page_nat)
qed

section \<open>Properties of the device\<close>

text \<open>C7: A buffer of \<open>n\<close> whole pages, asked for without a fixed address while the linear pass has room and the \<open>n\<close> pages
  behind the linear end lie in one free block that is not followed by an allocated page, is mapped there; unmapping it
  leaves the mappings and the allocated pages as they were, and the GPU page table was told to map and to unmap the same range.
  The device may hold any other allocations, also at fixed addresses.\<close>

theorem buffer_map_unmap_roundtrip:
  assumes "device_ok s" "anywhere p h (from_page n (page_bits big s))" "nvmap (mb_handle p) = Some h" "big = on_big_pages h s" "0 < n"
    "linear_room n (page_allocator big s)" "linear_clear n (page_allocator big s)"
    "\<not> allocated_at (fa_blocks (page_allocator big s)) (fa_current_linear_alloc_end (page_allocator big s) + n)"
    "map_at (next_offset big s) (as_mapping_map s) = None"
  shows "\<exists>s1 s2. MapBufferEx nvmap p s = Some (NvSuccess, next_offset big s, s1) \<and>
    map_at (next_offset big s) (as_mapping_map s1) \<noteq> None \<and>
    UnmapBuffer (next_offset big s) s1 = Some (NvSuccess, s2) \<and> as_mapping_map s2 = as_mapping_map s \<and>
    as_gmmu s2 = as_gmmu s @ [GmmuMap (next_offset big s) (nh_address h + mb_buffer_offset p) (from_page n (page_bits big s)) (ucast (mb_kind p)) big,
      GmmuUnmap (next_offset big s) (from_page n (page_bits big s))] \<and>
    (\<forall>a. allocated_at (fa_blocks (page_allocator big s2)) a = allocated_at (fa_blocks (page_allocator big s)) a)"
proof -
  have t: "to_page (from_page n (page_bits big s)) (page_bits big s) = n" using page_bits_ok(2)[OF assms(1), of big] to_from_page by simp
  show ?thesis using buffer_cycle[where nvmap = nvmap, OF assms(1-4) aligned_size[OF assms(1)] t assms(5) order_refl assms(6,7,9)] assms(8) by auto
qed

text \<open>A new device with the default ranges, and a handle whose buffers use small pages.\<close>

definition sample_device :: AsGpu where
  "sample_device = snd (AllocAsEx 0 0 0 0 nvhost_as_gpu_new)"

definition sample_handle :: NvMapHandle where
  "sample_handle = \<lparr>nh_address = 0x80000000, nh_orig_size = 0x3000, nh_align = 0x1000\<rparr>"

definition sample_request :: "u32 \<Rightarrow> u64 \<Rightarrow> u64 \<Rightarrow> IoctlMapBufferEx" where
  "sample_request flags offset sz =
     \<lparr>mb_flags = flags, mb_kind = 0, mb_handle = 1, mb_buffer_offset = 0, mb_mapping_size = sz, mb_offset = offset\<rparr>"

lemma sample_device_ok:
  "device_ok sample_device" "as_mapping_map sample_device = []" "as_allocation_map sample_device = []"
  "\<not> on_big_pages sample_handle sample_device" "page_bits False sample_device = 12"
  "page_allocator False sample_device = FlatAllocator_new 0x8000 0x400000"
proof -
  have s: "sample_device = nvhost_as_gpu_new\<lparr>vm_small_page_allocator := FlatAllocator_new 0x8000 0x400000,
      vm_big_page_allocator := FlatAllocator_new 0x20000 0xE0000, vm_initialised := True\<rparr>"
    by (simp add: sample_device_def AllocAsEx_def nvhost_as_gpu_new_def to_page_def big_page_bits_def has_single_bit_def DEFAULT_VA_SPLIT_def DEFAULT_VA_RANGE_def
        DEFAULT_BIG_PAGE_SIZE_def VA_START_SHIFT_def PAGE_SIZE_BITS_def)
  show "device_ok sample_device" using allocator_okD[OF allocator_new_ok[of "0x8000" "0x400000"]] allocator_okD[OF allocator_new_ok[of "0x20000" "0xE0000"]]
    by (auto simp: s device_ok_def page_allocator_def nvhost_as_gpu_new_def DEFAULT_BIG_PAGE_SIZE_def)
  show "as_mapping_map sample_device = []" "as_allocation_map sample_device = []" "\<not> on_big_pages sample_handle sample_device"
    "page_bits False sample_device = 12" "page_allocator False sample_device = FlatAllocator_new 0x8000 0x400000"
    by (simp_all add: s nvhost_as_gpu_new_def on_big_pages_def sample_handle_def IsAligned_def page_bits_def PAGE_SIZE_BITS_def
        page_allocator_def DEFAULT_BIG_PAGE_SIZE_def sub64_def two64_def)
qed

lemma sample_anywhere: "sz \<noteq> 0 \<Longrightarrow> anywhere (sample_request 0 0 sz) sample_handle sz"
  by (simp add: anywhere_def sample_request_def has_flag_def)

lemma sample_room: "0 < n \<Longrightarrow> n \<le> 0x1000 \<Longrightarrow> linear_room n (page_allocator False sample_device)"
  using word_part[of "0x8000" "0x1000" n] order_trans[of "0x8000 + n" "0x9000 :: u32" "0x400000"]
  by (auto simp: sample_device_ok(6) linear_room_def FlatAllocator_new_def)

lemma sample_clear: "linear_clear n (page_allocator False sample_device)" "\<not> allocated_at (fa_blocks (page_allocator False sample_device)) a"
proof -
  have "allocator_ok (page_allocator False sample_device)" using allocator_new_ok[of "0x8000" "0x400000"] by (simp add: sample_device_ok(6))
  then show "linear_clear n (page_allocator False sample_device)" by (rule ok_linear_clear)
  show "\<not> allocated_at (fa_blocks (page_allocator False sample_device)) a"
    by (simp add: sample_device_ok(6) FlatAllocator_new_def allocated_at_def UnmappedPa_def)
qed

theorem buffer_map_unmap_roundtrip_witness:
  "\<exists>s1 s2. MapBufferEx (\<lambda>h. Some sample_handle) (sample_request 0 0 0x3000) sample_device = Some (NvSuccess, next_offset False sample_device, s1) \<and>
     UnmapBuffer (next_offset False sample_device) s1 = Some (NvSuccess, s2) \<and> as_mapping_map s2 = as_mapping_map sample_device"
proof -
  have f: "from_page 3 (page_bits False sample_device) = 0x3000" by (simp add: sample_device_ok(5) from_page_def)
  have a: "anywhere (sample_request 0 0 0x3000) sample_handle (from_page 3 (page_bits False sample_device))" using sample_anywhere[of "0x3000"] f by simp
  have b: "False = on_big_pages sample_handle sample_device" using sample_device_ok(4) by simp
  have m: "map_at (next_offset False sample_device) (as_mapping_map sample_device) = None" by (simp add: sample_device_ok(2) map_at_def)
  show ?thesis
    using buffer_map_unmap_roundtrip[where nvmap = "\<lambda>h. Some sample_handle", OF sample_device_ok(1) a refl b _ sample_room sample_clear m] by auto
qed

text \<open>When the size of a buffer is not a multiple of the page size, mapping rounds it up and unmapping rounds it down: after both
  the last page stays allocated, though no mapping is left.\<close>

theorem unaligned_buffer_leaks_page:
  assumes "device_ok s" "anywhere p h (from_page k (page_bits big s) + r)" "nvmap (mb_handle p) = Some h" "big = on_big_pages h s" "0 < k" "k < k + 1"
    "0 < r" "unat r < 2 ^ page_bits big s" "linear_room (k + 1) (page_allocator big s)" "linear_clear (k + 1) (page_allocator big s)" "map_at (next_offset big s) (as_mapping_map s) = None"
  shows "\<exists>s1 s2. MapBufferEx nvmap p s = Some (NvSuccess, next_offset big s, s1) \<and>
    UnmapBuffer (next_offset big s) s1 = Some (NvSuccess, s2) \<and> as_mapping_map s2 = as_mapping_map s \<and>
    \<not> allocated_at (fa_blocks (page_allocator big s)) (fa_current_linear_alloc_end (page_allocator big s) + k) \<and>
    allocated_at (fa_blocks (page_allocator big s2)) (fa_current_linear_alloc_end (page_allocator big s) + k)"
proof -
  let ?c = "fa_current_linear_alloc_end (page_allocator big s)"
  have c: "?c \<le> ?c + (k + 1)" using assms(9) by (simp add: linear_room_def)
  have le: "?c \<le> ?c + k" using word_part[OF c assms(5) less_imp_le[OF assms(6)]] by (simp add: less_imp_le)
  have lt: "?c + k < ?c + (k + 1)" using word_plus_mono_right[of k "k + 1" ?c] c assms(6) by (metis add_left_cancel order_le_less less_imp_neq)
  note u = unaligned_size[OF assms(1,7,8,6)]
  have "\<not> allocated_at (fa_blocks (page_allocator big s)) (?c + k)" by (rule linear_clear_free[OF assms(10) le lt])
  then show ?thesis using buffer_cycle[where nvmap = nvmap, OF assms(1-4) u assms(5) _ assms(9-11)] assms(6) lt by (auto simp: less_imp_le)
qed

theorem unaligned_buffer_leaks_page_witness:
  "\<exists>s1 s2. MapBufferEx (\<lambda>h. Some sample_handle) (sample_request 0 0 0x1800) sample_device = Some (NvSuccess, next_offset False sample_device, s1) \<and>
     UnmapBuffer (next_offset False sample_device) s1 = Some (NvSuccess, s2) \<and> as_mapping_map s2 = [] \<and>
     allocated_at (fa_blocks (page_allocator False s2)) 0x8001"
proof -
  have f: "from_page 1 (page_bits False sample_device) + 0x800 = 0x1800" by (simp add: sample_device_ok(5) from_page_def)
  have a: "anywhere (sample_request 0 0 0x1800) sample_handle (from_page 1 (page_bits False sample_device) + 0x800)" using sample_anywhere[of "0x1800"] f by simp
  have b: "False = on_big_pages sample_handle sample_device" using sample_device_ok(4) by simp
  have m: "map_at (next_offset False sample_device) (as_mapping_map sample_device) = None" by (simp add: sample_device_ok(2) map_at_def)
  have c: "fa_current_linear_alloc_end (page_allocator False sample_device) + 1 = 0x8001" by (simp add: sample_device_ok(6) FlatAllocator_new_def)
  have r: "unat (0x800 :: u64) < 2 ^ page_bits False sample_device" by (simp add: sample_device_ok(5))
  show ?thesis
    using unaligned_buffer_leaks_page[where nvmap = "\<lambda>h. Some sample_handle", OF sample_device_ok(1) a refl b _ _ _ r sample_room sample_clear(1) m]
    by (auto simp: c sample_device_ok(2))
qed

text \<open>A buffer mapped at the fixed offset of an allocation and unmapped again stays in the list of the allocation, and freeing the
  allocation then fails without effect: the missing mapping raises an exception.\<close>

theorem unmapped_buffer_blocks_free_space:
  assumes "vm_initialised s" "keys_in_order (as_allocation_map s)" "map_at (mb_offset p) (as_allocation_map s) = Some a"
    "ga_mappings a = []" "ga_page_size a = page_size" "ga_size a = ucast pages * ucast page_size"
    "has_flag (mb_flags p) MappingFlags_Fixed" "\<not> has_flag (mb_flags p) MappingFlags_Remap" "nvmap (mb_handle p) = Some h"
    "mb_mapping_size p \<noteq> 0" "mb_mapping_size p \<le> ga_size a"
  shows "\<exists>s1 s2. MapBufferEx nvmap p s = Some (NvSuccess, mb_offset p, s1) \<and> UnmapBuffer (mb_offset p) s1 = Some (NvSuccess, s2) \<and>
    map_at (mb_offset p) (as_mapping_map s2) = None \<and> FreeSpace (mb_offset p) pages page_size s2 = Some (NvBadValue, s2)"
proof -
  let ?o = "mb_offset p" and ?big = "ga_big_pages a \<and> on_big_pages h s" and ?cpu = "nh_address h + mb_buffer_offset p"
  let ?m = "\<lparr>gm_ptr = ?cpu, gm_offset = ?o, gm_size = mb_mapping_size p, gm_fixed = True, gm_big_page = ?big, gm_sparse_alloc = ga_sparse a\<rparr>"
  let ?s0 = "gmmu_call (GmmuMap ?o ?cpu (mb_mapping_size p) (ucast (mb_kind p)) ?big) s"
  let ?s1 = "?s0\<lparr>as_allocation_map := map_assign ?o (a\<lparr>ga_mappings := [?m]\<rparr>) (as_allocation_map s), as_mapping_map := map_assign ?o ?m (as_mapping_map s)\<rparr>"
  have "before_upper_bound ?o (as_allocation_map s) = Some (?o, a)" by (rule before_upper_bound_at[OF assms(2,3)])
  then have "map_fixed p ?cpu (mb_mapping_size p) (on_big_pages h s) s = (NvSuccess, ?s1)"
    using assms(4,11) by (auto simp: map_fixed_def Let_def)
  then have 1: "MapBufferEx nvmap p s = Some (NvSuccess, ?o, ?s1)" using assms by (simp add: MapBufferEx_def on_big_pages_def Let_def)
  let ?s2 = "release_mapping ?o ?m ?s1"
  have 2: "UnmapBuffer ?o ?s1 = Some (NvSuccess, ?s2)" using assms(1) by (simp add: UnmapBuffer_def free_mapping_pages_def)
  have e: "map_at ?o (as_mapping_map ?s2) = None" "map_at ?o (as_allocation_map ?s2) = Some (a\<lparr>ga_mappings := [?m]\<rparr>)" "vm_initialised ?s2"
    using assms(1) by (simp_all add: release_mapping_def Let_def)
  then have "free_mappings [?m] ?s2 = Some (Inl ?s2)" by (simp add: FreeMappingLocked_def)
  then have "FreeSpace ?o pages page_size ?s2 = Some (NvBadValue, ?s2)" using e assms(5,6) by (simp add: FreeSpace_def allocation_entry_def)
  then show ?thesis using 1 2 e(1) by blast
qed

theorem unmapped_buffer_blocks_free_space_witness:
  "\<exists>s s1 s2. MapBufferEx (\<lambda>h. Some sample_handle) (sample_request 1 0x10000000 0x1000) s = Some (NvSuccess, 0x10000000, s1) \<and>
     UnmapBuffer 0x10000000 s1 = Some (NvSuccess, s2) \<and> FreeSpace 0x10000000 4 0x1000 s2 = Some (NvBadValue, s2)"
proof -
  let ?a = "\<lparr>ga_size = 0x4000, ga_mappings = [], ga_page_size = 0x1000, ga_sparse = False, ga_big_pages = False\<rparr>"
  let ?s = "sample_device\<lparr>as_allocation_map := [(0x10000000, ?a)]\<rparr>" and ?p = "sample_request 1 0x10000000 0x1000"
  have o: "mb_offset ?p = 0x10000000" by (simp add: sample_request_def)
  have i: "vm_initialised ?s" using sample_device_ok(1) by (simp add: device_ok_def)
  have k: "keys_in_order (as_allocation_map ?s)" "map_at (mb_offset ?p) (as_allocation_map ?s) = Some ?a"
    by (simp_all add: keys_in_order_def map_at_def o)
  have f: "has_flag (mb_flags ?p) MappingFlags_Fixed" "\<not> has_flag (mb_flags ?p) MappingFlags_Remap" "mb_mapping_size ?p \<noteq> 0" "mb_mapping_size ?p \<le> ga_size ?a"
    by (simp_all add: sample_request_def has_flag_def MappingFlags_Fixed_def MappingFlags_Remap_def)
  have sz: "ga_size ?a = ucast (4 :: u32) * ucast (0x1000 :: u32)" "ga_mappings ?a = []" "ga_page_size ?a = 0x1000" by simp_all
  show ?thesis
    using unmapped_buffer_blocks_free_space[where nvmap = "\<lambda>h. Some sample_handle", OF i k sz(2,3,1) f(1,2) refl f(3,4)] unfolding o by blast
qed

text \<open>With the default ranges the region of the big pages is reported at offset 0, though its allocator starts at \<open>2 ^ 34\<close>: the
  shift is done in 32 bits.\<close>

theorem big_region_offset_lost:
  "map_option (vr_offset \<circ> snd) (snd (GetVARegions sample_device)) = Some 0"
  "from_page (fa_virt_start (vm_big_page_allocator sample_device)) (vm_big_page_size_bits sample_device) = 2 ^ 34"
  by (simp_all add: sample_device_def AllocAsEx_def nvhost_as_gpu_new_def to_page_def from_page_def big_page_bits_def has_single_bit_def DEFAULT_VA_SPLIT_def DEFAULT_VA_RANGE_def
      DEFAULT_BIG_PAGE_SIZE_def VA_START_SHIFT_def PAGE_SIZE_BITS_def GetVARegions_def GetVARegionsImpl_def FlatAllocator_new_def)

end
