(* ===== verification/Spec2Isabelle.thy ===== *)
theory Spec2Isabelle
  imports K_Resource_Limit K_Handle_Table Memory_Block_Refinement K_Page_Heap Thread_Switch Macro_Engine Page_Table_Mapping
    Address_Space_Layout Light_Lock_Safety Synchronization Gpu_Buffers
begin

text \<open>
  \<^bold>\<open>Verification of the core of the yuzu emulator.\<close>

  The program (C++, under \<open>src/src\<close>) emulates a game console. Its kernel (\<open>core/hle/kernel\<close>) is a reimplementation of
  the console's kernel: guest threads run on four emulated cores, each a host thread, and all kernel state that several
  cores share is guarded by the scheduler lock. Processes have address spaces backed by physical memory that the kernel
  hands out in pages and counts references to, handles for kernel objects, and limits on what they may use. The services
  above it (\<open>core/hle/service\<close>) and the emulated GPU (\<open>video_core\<close>) are clients. This development models the kernel's
  memory management, its scheduling and waiting, its handles and limits, the address space device of the graphics
  driver and the macro processor of the GPU.

  \<^bold>\<open>Conventions.\<close> A class is a \<open>record\<close> and its methods are functions on it, with the names of the sources (prefixed where
  two classes share a name). 64-bit addresses and sizes are natural numbers with the wrap-around of every operation
  written out (\<open>add64\<close>, \<open>sub64\<close>, \<open>mul64\<close> of \<open>Yuzu_Prelude\<close>) or words of their width; flags and packed fields are words.
  A failed \<open>ASSERT\<close> is logged and the code goes on, as in the default build. Where C++ leaves the behaviour undefined (a null
  pointer or an end iterator is used, an index is out of range, a shift is too wide) the model has no result: functions
  return \<open>None\<close>, and a theorem that an operation returns \<open>Some\<close> says that this does not happen. Errors the code reports
  are values (\<open>Result\<close>, \<open>NvResult\<close>), error paths branches. Intrusive trees and lists are the ordered lists of their
  nodes, except for the queues of the scheduler and the free lists, which are modelled with their links. Random
  numbers are inputs or come from the model of the generator, and theorems hold for all of them. Concurrency is
  explicit where the code does not hold a lock: loops that compare and exchange take the list of values other cores store
  meanwhile, the switch of a core takes what other cores do to the kernel, waiting takes the calls of other threads, and
  light locks are a step relation over all interleavings.

  \<^bold>\<open>Groundwork.\<close>
  \<^item> \<open>Yuzu_Prelude\<close>: integer types, 64-bit arithmetic, alignment (\<open>common/alignment.h\<close>), results (\<open>core/hle/result.h\<close>), the
    collections \<open>align_simps\<close> and others, lemmas on lists and words the components share.
  \<^item> \<open>Bit_Field\<close> (\<open>common/bit_field.h\<close>), \<open>Bit_Set\<close> (\<open>common/bit_set.h\<close>): packed fields do not disturb one another; the
    searches for set bits are exact.
  \<^item> \<open>Tiny_MT\<close> (\<open>common/tiny_mt.h\<close>): the generator never reaches the all-zero state; filling a buffer that reaches a word
    boundary stays inside it (\<open>random_bytes_stay_in_buffer\<close>), a smaller one is overrun.

  \<^bold>\<open>Resources and handles.\<close>
  \<^item> \<open>K_Resource_Limit\<close> (\<open>k_resource_limit.cpp\<close>, scoped reservations): limits are never overcommitted, and a reservation with
    a deadline returns, whatever others do while it sleeps. The locale \<open>resource_accounting\<close> is the contract of a limit.
  \<^item> \<open>K_Handle_Table\<close> (\<open>k_handle_table.h\<close> and \<open>.cpp\<close>): the free list is exact, handles are fresh and not reused within 32767
    allocations. The locale \<open>object_table\<close> gives the laws of lookup after every operation.

  \<^bold>\<open>Physical memory.\<close>
  \<^item> \<open>K_Dynamic_Slab_Heap\<close> (\<open>k_slab_heap.h\<close>, \<open>k_dynamic_slab_heap.h\<close>): an allocated object is held by nobody else.
  \<^item> \<open>K_Page_Bitmap\<close> (\<open>k_page_bitmap.h\<close>, \<open>k_dynamic_page_manager.h\<close>): the tree of bits finds a free block exactly if there is
    one; locale \<open>free_block_map\<close>, interpreted on it, is what the page heap uses.
  \<^item> \<open>K_Page_Heap\<close> (\<open>k_page_heap.h\<close> and \<open>.cpp\<close>): the buddy allocator conserves memory (locale \<open>range_heap\<close>), takes aligned free
    blocks and merges what is freed.
  \<^item> \<open>K_Page_Group\<close> (\<open>k_page_group.h\<close> and \<open>.cpp\<close>), \<open>K_Memory_Manager\<close> (\<open>k_memory_manager.h\<close> and \<open>.cpp\<close>): groups of blocks, and
    the managers with a reference count per page. \<open>Memory_References\<close> shows that the pages on the heaps are exactly the
    pages without a reference, for every operation on counts (locale \<open>page_operation\<close>, for opening and closing);
    \<open>Memory_Allocation\<close> that allocation takes exactly the requested number of unreferenced pages and closing frees those
    whose last reference goes.

  \<^bold>\<open>Address spaces.\<close>
  \<^item> \<open>K_Memory_Block\<close>, \<open>K_Memory_Block_Manager\<close> (\<open>k_memory_block.h\<close>, \<open>k_memory_block_manager.h\<close> and \<open>.cpp\<close>): the blocks that
    describe the pages of an address space. \<open>Memory_Block_Refinement\<close> gives the abstract specification, a map from
    addresses to page properties (\<open>page_at\<close>), and shows that updates and locks change exactly their range and leave a
    merged tree (locales \<open>block_change\<close> and \<open>lock_function\<close>, interpreted on all change functions).
  \<^item> \<open>K_Page_Table\<close>, \<open>Page_Table_Operations\<close> (\<open>k_page_table.h\<close> and \<open>.cpp\<close>, entries of \<open>common/page_table.h\<close>): layout, state
    checks, page groups and every mapping, permission, attribute, heap and locking operation of an address space.
    \<open>Address_Space_Layout\<close>: the regions of a process are disjoint for all random offsets. \<open>Page_Table_Checks\<close>: the checks
    decide what they say (locale \<open>block_walk\<close>), and changing permissions changes exactly the range.
    \<open>Page_Table_Groups\<close>: making, validating and locking page groups. \<open>Page_Table_Mapping\<close>: mapping and unmapping
    give every page its reference count back.

  \<^bold>\<open>Threads.\<close>
  \<^item> \<open>K_Priority_Queue\<close> (\<open>k_priority_queue.h\<close>, \<open>k_affinity_mask.h\<close>) and \<open>Run_Queues\<close>: the linked run queues of all cores and
    priorities are exactly the queued threads; the locale \<open>run_queue\<close> is what the scheduler relies on.
  \<^item> \<open>K_Scheduler\<close> (\<open>k_scheduler.cpp\<close>, \<open>global_scheduler_context.cpp\<close>, \<open>k_scheduler_lock.h\<close>), \<open>K_Thread\<close> (\<open>k_thread.cpp\<close>: state,
    suspension, pinning, core masks): \<open>Scheduling\<close> and \<open>Thread_Switch\<close> show that after any run of kernel calls each core
    has the best thread selected, every call returns, and a switch ends at the selected thread.
  \<^item> \<open>K_Thread_Locks\<close> (\<open>k_thread.cpp\<close> and \<open>.h\<close>: waiting, lock infos, priority inheritance; \<open>k_thread_queue.cpp\<close>):
    \<open>Lock_Structure\<close> is the invariant of lock infos and waiting threads, \<open>Priority_Inheritance\<close> shows that
    \<open>RestorePriority\<close> returns and makes every priority the best one of the thread and those that wait for it,
    \<open>Lock_Handover\<close> that an unlock hands the lock to the best waiter.
  \<^item> \<open>K_Condition_Variable\<close> (\<open>k_condition_variable.cpp\<close>, \<open>k_address_arbiter.cpp\<close>, \<open>k_scoped_scheduler_lock_and_sleep.h\<close>):
    \<open>Arbitration\<close> and \<open>Condition_Variables\<close> show whom signals wake, in which order, and what they leave in user memory.
  \<^item> \<open>K_Light_Lock\<close> (\<open>k_light_lock.cpp\<close>) and \<open>Light_Lock_Safety\<close>: mutual exclusion and no lost wake-up under all interleavings
    of locking and unlocking threads.
  \<^item> \<open>K_Synchronization_Object\<close> (\<open>k_synchronization_object.h\<close> and \<open>.cpp\<close>, \<open>k_readable_event.cpp\<close>, \<open>k_event.cpp\<close>) and
    \<open>Synchronization\<close>: waiting for several objects, with the linked lists of nodes on the stacks of the waiting threads. The
    lists are exactly the nodes of sleeping threads, a signal wakes exactly those that wait for the object, and nobody
    sleeps on a signalled object. The runs consist of waits for distinct objects.

  \<^bold>\<open>Graphics.\<close>
  \<^item> \<open>Flat_Allocator\<close> (\<open>common/address_space.h\<close> and \<open>.inc\<close>) and \<open>Address_Space_Allocation\<close>: mapping and unmapping refine the set
    of allocated addresses, and what clients hold does not overlap (locale \<open>address_allocator\<close>), with ranges at fixed
    addresses as long as the linear pass stays inside a free block; also where unmapping, the linear pass and the gap
    search go wrong.
  \<^item> \<open>Gpu_Address_Space\<close> (\<open>core/hle/service/nvdrv/devices/nvhost_as_gpu.cpp\<close>) and \<open>Gpu_Buffers\<close>: the address space device over two
    such allocators; mapping and unmapping a buffer of whole pages behind the linear end is a round trip, and what
    other buffers lose.
  \<^item> \<open>Macro_Interpreter\<close> (\<open>video_core/macro/macro_interpreter.cpp\<close>), \<open>Macro_Engine\<close> (\<open>macro.cpp\<close>): decoding and execution of GPU
    macros, which end after their exit when they do not branch; uploaded code is what runs.

  \<^bold>\<open>Loops and bounds.\<close> Loops over a shrinking quantity are \<open>function\<close>s with a measure (remaining size, remaining blocks,
  distance to the end). Loops whose end depends on an invariant are \<open>partial_function (option)\<close>, for which not ending
  is \<open>None\<close>; that they return is proved from the invariant: \<open>RestorePriority\<close> (the chain of owners has no cycle),
  \<open>signal_loop\<close>, \<open>unlink_walk\<close> and \<open>notify_loop\<close>, the searches of the scheduler (\<open>scheduler_calls_return\<close>), the loops over managers and physical
  regions, \<open>switch_loop\<close> and \<open>take_context\<close> when the other cores leave them alone, and \<open>run_macro\<close> for code without
  branches (a macro that never exits has no result). Attempts of compare-and-exchange loops and wake-ups while waiting
  are finite lists of any length. There are \<open>MaxThreads\<close> = 1536 threads, the size of the kernel's slab of lock infos, which
  therefore never runs out (\<open>free_lock_left\<close>); four cores, 64 priorities and 32-bit handles are the constants of the code.

  \<^bold>\<open>Not modelled.\<close> Of the modelled classes: IPC set-up and clean-up and page contents of \<open>KPageTable\<close>, pool set-up of
  \<open>KMemoryManager\<close> from the boot-time memory layout, creation and termination of threads, saved guest registers. Of the
  kernel: light condition variables and timers (waits for host time), creation and destruction of events, processes, sessions and ports (object lifetimes and messages in guest memory), the system call wrappers. The remaining
  services, file formats, audio, input and front ends are device and host glue; the CPU recompiler is a submodule without
  sources here; GPU engines, renderers and the shader recompiler have the meaning of graphics APIs and shader languages,
  which are not defined in the sources. The red-black tree is used as an ordered set and its balancing is not modelled.
\<close>

end
